(* ===== verification/Prelude.thy ===== *)
theory Prelude
  imports Main "HOL-Library.Char_ord" "HOL-Library.List_Lexorder" "HOL-Library.Sublist"
begin

text \<open>
  Shared vocabulary of the development.

  Go strings and byte slices are both sequences of bytes, so both are \<^typ>\<open>string\<close> here
  (a \<^typ>\<open>char\<close> is one byte), and \<open>bytes.Compare\<close> and the comparison operators on Go strings
  are the lexicographic order that \<open>List_Lexorder\<close> and \<open>Char_ord\<close> give to it.  A slice whose
  code distinguishes nil from empty is an \<open>option\<close>.  Durations and instants are nanoseconds, as
  \<^typ>\<open>int\<close>.
\<close>

section \<open>Types\<close>

type_synonym bytes = string
type_synonym duration = int
type_synonym time = int

section \<open>Collections of facts\<close>

named_theorems range_simps \<open>membership in key ranges, as arithmetic of the order\<close>
named_theorems walk_simps \<open>unfolding of the walker's pure helpers\<close>
named_theorems row_simps \<open>what each statement on the repo table writes\<close>

section \<open>Results\<close>

text \<open>Sequencing of fallible computations: the first error wins.\<close>

definition bind_res :: "'e + 'a \<Rightarrow> ('a \<Rightarrow> 'e + 'b) \<Rightarrow> 'e + 'b" where
  "bind_res r f = (case r of Inl e \<Rightarrow> Inl e | Inr x \<Rightarrow> f x)"

lemma bind_res_simps [simp]:
  "bind_res (Inl e) f = Inl e"
  "bind_res (Inr x) f = f x"
  by (simp_all add: bind_res_def)

lemma bind_res_eq_Inr: "bind_res r f = Inr y \<longleftrightarrow> (\<exists>x. r = Inr x \<and> f x = Inr y)"
  by (cases r) auto

section \<open>Durations\<close>

definition second :: duration where "second = 1000000000"
definition minute :: duration where "minute = 60 * second"
definition hour :: duration where "hour = 60 * minute"
definition millisecond :: duration where "millisecond = 1000000"

lemmas duration_defs = second_def minute_def hour_def millisecond_def

section \<open>Signed 64-bit arithmetic\<close>

text \<open>The value of an int64 operation whose exact result is \<open>x\<close>, and the saturating difference of
  two instants (\<open>time.Until\<close>, \<open>Time.Sub\<close>).\<close>

definition wrap64 :: "int \<Rightarrow> int" where
  "wrap64 x = (x + 2 ^ 63) mod 2 ^ 64 - 2 ^ 63"

definition sat64 :: "int \<Rightarrow> int" where
  "sat64 x = max (- (2 ^ 63)) (min (2 ^ 63 - 1) x)"

lemma wrap64_id: "- (2 ^ 63) \<le> x \<Longrightarrow> x < 2 ^ 63 \<Longrightarrow> wrap64 x = x"
  by (simp add: wrap64_def)

section \<open>Bytes and their order\<close>

definition byte_max :: char where
  "byte_max = CHR 0xFF"

text \<open>The successor of a byte; Go's \<open>b++\<close> wraps at 256, as \<open>char_of\<close> does.\<close>

definition byte_succ :: "char \<Rightarrow> char" where
  "byte_succ c = char_of (of_char c + 1 :: nat)"

lemma of_byte_max [simp]: "of_char byte_max = (255 :: nat)"
  by (simp add: byte_max_def)

lemma byte_le_max: "of_char c \<le> (255 :: nat)"
proof -
  have "of_char c < (256 :: nat)" by simp
  then show ?thesis by linarith
qed

lemma of_byte_succ:
  assumes "c \<noteq> byte_max"
  shows "of_char (byte_succ c) = (of_char c + 1 :: nat)"
proof -
  have "of_char c \<noteq> (255 :: nat)"
    using assms of_byte_max of_char_eq_iff by metis
  with byte_le_max [of c] have "of_char c + 1 < (256 :: nat)" by linarith
  then show ?thesis by (simp add: byte_succ_def)
qed

lemma less_byte_succ: "c \<noteq> byte_max \<Longrightarrow> d < byte_succ c \<longleftrightarrow> d \<le> c"
  by (simp add: less_char_def less_eq_char_def of_byte_succ less_Suc_eq_le)

lemma byte_max_ge [simp]: "d \<le> byte_max"
  using byte_le_max [of d] by (simp add: less_eq_char_def)

lemma bytes_le_Cons: "(a :: 'a :: linorder) # x \<le> b # y \<longleftrightarrow> a < b \<or> a = b \<and> x \<le> y"
  by (auto simp: list_le_def)

lemma bytes_append_less: "p @ x < p @ y \<longleftrightarrow> x < (y :: 'a :: linorder list)"
  by (induction p) auto

lemma bytes_append_le: "p @ x \<le> p @ y \<longleftrightarrow> x \<le> (y :: 'a :: linorder list)"
  by (auto simp: list_le_def bytes_append_less)

lemma bytes_prefix_le: "prefix p k \<Longrightarrow> p \<le> (k :: 'a :: linorder list)"
  by (auto simp: prefix_def bytes_append_le [of p "[]", simplified])

section \<open>Decimal numbers\<close>

text \<open>\<open>%d\<close> of a non-negative number.\<close>

fun show_nat :: "nat \<Rightarrow> string" where
  "show_nat n =
     (if n < 10 then [char_of (48 + n)] else show_nat (n div 10) @ [char_of (48 + n mod 10)])"

declare show_nat.simps [simp del]

section \<open>Sorted association lists\<close>

text \<open>Strictly ascending lists: what the walker promises of the keys it emits.\<close>

abbreviation ascending :: "'a :: linorder list \<Rightarrow> bool" where
  "ascending \<equiv> sorted_wrt (<)"

lemma ascending_distinct: "ascending xs \<Longrightarrow> distinct xs"
  by (simp add: strict_sorted_iff)

lemma ascending_filter: "ascending (map f xs) \<Longrightarrow> ascending (map f (filter P xs))"
  by (induction xs) auto

lemma ascending_append:
  "ascending (xs @ ys) \<longleftrightarrow> ascending xs \<and> ascending ys \<and> (\<forall>x\<in>set xs. \<forall>y\<in>set ys. x < y)"
  by (simp add: sorted_wrt_append)

section \<open>Lists\<close>

lemma takeWhile_dropWhile_filter:
  "filter P (takeWhile P xs) = takeWhile P xs"
  by (induction xs) auto

lemma dropWhile_hd_not: "dropWhile P xs = y # ys \<Longrightarrow> \<not> P y"
  by (metis hd_dropWhile list.distinct(1) list.sel(1))

lemma append_sep_inj: "c \<notin> set a \<Longrightarrow> c \<notin> set a' \<Longrightarrow> a @ c # b = a' @ c # b' \<longleftrightarrow> a = a' \<and> b = b'"
proof (induction a arbitrary: a')
  case Nil
  then show ?case by (cases a') auto
next
  case (Cons x a)
  then show ?case by (cases a') auto
qed

section \<open>Sums over finite maps\<close>

definition sum_over :: "('v \<Rightarrow> nat) \<Rightarrow> ('k \<rightharpoonup> 'v) \<Rightarrow> nat" where
  "sum_over f m = (\<Sum>k\<in>dom m. f (the (m k)))"

lemma sum_over_remove:
  assumes "finite (dom m)" "m k = Some v"
  shows "sum_over f m = sum_over f (m(k := None)) + f v"
proof -
  have "sum_over f m = f v + (\<Sum>j\<in>dom m - {k}. f (the (m j)))"
    using assms by (simp add: sum_over_def sum.remove [of "dom m" k] domI)
  moreover have "sum_over f (m(k := None)) = (\<Sum>j\<in>dom m - {k}. f (the (m j)))"
    unfolding sum_over_def by (rule sum.cong) auto
  ultimately show ?thesis by simp
qed

lemma sum_over_update:
  assumes "finite (dom m)" "m k = Some v"
  shows "sum_over f (m(k \<mapsto> v')) + f v = sum_over f m + f v'"
proof -
  have "finite (dom (m(k \<mapsto> v')))" using assms by simp
  from sum_over_remove [OF this, of k v' f] sum_over_remove [OF assms, of f] show ?thesis by simp
qed

end
