(* ===== verification/KeyRanges.thy ===== *)
theory KeyRanges
  imports Prelude
begin

text \<open>
  Key ranges of a repository tree (\<open>reposync/walk.go\<close>): the half-open ranges a walk is bounded
  by, their normalisation, and the pruning test for subtrees; and the range algebra a backfill
  builds its ranges with (\<open>atproto/backfill_walk.go\<close>).
\<close>

section \<open>The ranges of a walk\<close>

text \<open>\<open>Hi = nil\<close> means unbounded above.  A nil and an empty \<open>Lo\<close> compare alike, so \<open>Lo\<close> is
  plain bytes.\<close>

record KeyRange =
  kr_Lo :: bytes
  kr_Hi :: "bytes option"

text \<open>The loop of \<open>PrefixRange\<close> runs from the last byte down; it is given the bytes in that
  order.\<close>

fun prefix_hi :: "bytes \<Rightarrow> bytes option" where
  "prefix_hi [] = None"
| "prefix_hi (c # cs) = (if c \<noteq> byte_max then Some (rev (byte_succ c # cs)) else prefix_hi cs)"

definition PrefixRange :: "bytes \<Rightarrow> KeyRange" where
  "PrefixRange p = \<lparr>kr_Lo = p, kr_Hi = prefix_hi (rev p)\<rparr>"

definition range_contains :: "KeyRange \<Rightarrow> bytes \<Rightarrow> bool" where
  "range_contains r key =
     (if key < kr_Lo r then False
      else case kr_Hi r of None \<Rightarrow> True | Some h \<Rightarrow> key < h)"

datatype range_error = NoRanges | InvertedRange KeyRange

fun check_ranges :: "KeyRange list \<Rightarrow> range_error option" where
  "check_ranges [] = None"
| "check_ranges (r # rs) =
     (case kr_Hi r of
        None \<Rightarrow> check_ranges rs
      | Some h \<Rightarrow> if kr_Lo r \<ge> h then Some (InvertedRange r) else check_ranges rs)"

text \<open>The merge loop: \<open>lst\<close> (the source's \<open>last\<close>) is the range at the end of \<open>merged\<close>.\<close>

fun merge_ranges :: "KeyRange \<Rightarrow> KeyRange list \<Rightarrow> KeyRange list" where
  "merge_ranges lst [] = [lst]"
| "merge_ranges lst (r # rs) =
     (case kr_Hi lst of
        None \<Rightarrow> merge_ranges lst rs
      | Some lh \<Rightarrow>
          if kr_Lo r \<le> lh then
            merge_ranges
              (case kr_Hi r of
                 None \<Rightarrow> lst\<lparr>kr_Hi := None\<rparr>
               | Some rh \<Rightarrow> if rh > lh then lst\<lparr>kr_Hi := Some rh\<rparr> else lst) rs
          else lst # merge_ranges r rs)"

definition normalizeRanges :: "KeyRange list \<Rightarrow> range_error + KeyRange list" where
  "normalizeRanges rs =
     (if rs = [] then Inl NoRanges
      else case check_ranges rs of
        Some e \<Rightarrow> Inl e
      | None \<Rightarrow> (case sort_key kr_Lo rs of [] \<Rightarrow> Inr [] | r # out \<Rightarrow> Inr (merge_ranges r out)))"

fun rangesContain :: "KeyRange list \<Rightarrow> bytes \<Rightarrow> bool" where
  "rangesContain [] key = False"
| "rangesContain (r # rs) key = (if range_contains r key then True else rangesContain rs key)"

fun rangesIntersectSubtree :: "KeyRange list \<Rightarrow> bytes option \<Rightarrow> bytes option \<Rightarrow> bool" where
  "rangesIntersectSubtree [] lo hi = False"
| "rangesIntersectSubtree (r # rs) lo hi =
     (if (case (kr_Hi r, lo) of (Some h, Some l) \<Rightarrow> l \<ge> h | _ \<Rightarrow> False)
      then rangesIntersectSubtree rs lo hi
      else if (case hi of Some h \<Rightarrow> kr_Lo r \<ge> h | None \<Rightarrow> False)
      then rangesIntersectSubtree rs lo hi
      else True)"

section \<open>The ranges of a backfill\<close>

definition rangesOverlap :: "KeyRange \<Rightarrow> KeyRange \<Rightarrow> bool" where
  "rangesOverlap a b =
     (if (case kr_Hi a of Some h \<Rightarrow> kr_Lo b \<ge> h | None \<Rightarrow> False) then False
      else if (case kr_Hi b of Some h \<Rightarrow> kr_Lo a \<ge> h | None \<Rightarrow> False) then False
      else True)"

definition subtractRange :: "KeyRange \<Rightarrow> KeyRange \<Rightarrow> KeyRange list" where
  "subtractRange r c =
     (if \<not> rangesOverlap r c then [r]
      else
        (if kr_Lo r < kr_Lo c then [\<lparr>kr_Lo = kr_Lo r, kr_Hi = Some (kr_Lo c)\<rparr>] else []) @
        (case kr_Hi c of
           None \<Rightarrow> []
         | Some ch \<Rightarrow>
             if (case kr_Hi r of None \<Rightarrow> True | Some rh \<Rightarrow> ch < rh)
             then [\<lparr>kr_Lo = ch, kr_Hi = kr_Hi r\<rparr>] else []))"

definition placeStreamPrefix :: bytes where
  "placeStreamPrefix = ''place.stream.''"

definition CollectionFilter :: "bytes list" where
  "CollectionFilter =
     [''app.bsky.graph.follow'', ''app.bsky.feed.post'', ''app.bsky.graph.block'',
      ''app.bsky.actor.profile'', ''place.stream.live.recommendations'',
      ''app.bsky.graph.verification'']"

definition windowedCollections :: "bytes list" where
  "windowedCollections =
     [''place.stream.chat.message'', ''app.bsky.feed.post'', ''app.bsky.graph.follow'']"

fun filter_ranges :: "bytes list \<Rightarrow> KeyRange list" where
  "filter_ranges [] = []"
| "filter_ranges (nsid # ns) =
     (if prefix placeStreamPrefix nsid then filter_ranges ns
      else PrefixRange (nsid @ ''/'') # filter_ranges ns)"

fun window_collections :: "bytes \<Rightarrow> bytes list \<Rightarrow> KeyRange list \<Rightarrow> KeyRange list" where
  "window_collections floor [] ranges = ranges"
| "window_collections floor (nsid # ns) ranges =
     (let whole = PrefixRange (nsid @ ''/'');
          kept = concat (map (\<lambda>r. subtractRange r whole) ranges)
      in window_collections floor ns
           (kept @ [\<lparr>kr_Lo = nsid @ ''/'' @ floor, kr_Hi = kr_Hi whole\<rparr>]))"

definition backfillRanges :: "bytes \<Rightarrow> KeyRange list" where
  "backfillRanges floor =
     (let ranges = PrefixRange placeStreamPrefix # filter_ranges CollectionFilter
      in if floor = [] then ranges
         else window_collections floor windowedCollections ranges)"

definition windowRanges :: "bytes \<Rightarrow> bytes \<Rightarrow> KeyRange list" where
  "windowRanges lo hi =
     map (\<lambda>nsid. let r = PrefixRange (nsid @ ''/'');
                     r = (if lo \<noteq> [] then r\<lparr>kr_Lo := nsid @ ''/'' @ lo\<rparr> else r)
                 in if hi \<noteq> [] then r\<lparr>kr_Hi := Some (nsid @ ''/'' @ hi)\<rparr> else r)
       windowedCollections"

section \<open>Membership\<close>

lemma range_contains_iff [range_simps]:
  "range_contains r k \<longleftrightarrow> kr_Lo r \<le> k \<and> (\<forall>h. kr_Hi r = Some h \<longrightarrow> k < h)"
  by (auto simp: range_contains_def not_less split: option.splits)

lemma rangesContain_iff: "rangesContain rs k \<longleftrightarrow> (\<exists>r\<in>set rs. range_contains r k)"
  by (induction rs) auto

lemma rangesContain_append [simp]:
  "rangesContain (rs @ ss) k \<longleftrightarrow> rangesContain rs k \<or> rangesContain ss k"
  by (auto simp: rangesContain_iff)

text \<open>The upper bound, read from the front of the prefix instead of its back.\<close>

fun prefix_hi_fwd :: "bytes \<Rightarrow> bytes option" where
  "prefix_hi_fwd [] = None"
| "prefix_hi_fwd (c # cs) =
     (case prefix_hi_fwd cs of
        Some h \<Rightarrow> Some (c # h)
      | None \<Rightarrow> if c \<noteq> byte_max then Some [byte_succ c] else None)"

lemma prefix_hi_append:
  "prefix_hi (cs @ [c]) =
     (case prefix_hi cs of
        Some h \<Rightarrow> Some (c # h)
      | None \<Rightarrow> if c \<noteq> byte_max then Some [byte_succ c] else None)"
  by (induction cs) auto

lemma prefix_hi_rev: "prefix_hi (rev p) = prefix_hi_fwd p"
  by (induction p) (auto simp: prefix_hi_append split: option.splits)

lemma prefix_hi_fwd_correct:
  "p \<le> k \<and> (\<forall>h. prefix_hi_fwd p = Some h \<longrightarrow> k < h) \<longleftrightarrow> prefix p k"
proof (induction p arbitrary: k)
  case Nil
  then show ?case by simp
next
  case (Cons c cs)
  show ?case
  proof (cases k)
    case Nil
    then show ?thesis by simp
  next
    case (Cons d ds)
    show ?thesis
      using Cons.IH [of ds] less_byte_succ [of c d] byte_max_ge [of d, THEN leD]
      by (auto simp: Cons bytes_le_Cons split: option.splits)
  qed
qed

lemma PrefixRange_contains: "range_contains (PrefixRange p) k \<longleftrightarrow> prefix p k"
  using prefix_hi_fwd_correct [of p k]
  by (simp add: range_contains_iff PrefixRange_def prefix_hi_rev)


section \<open>Normalisation\<close>

text \<open>A range is proper when it is not empty or inverted.\<close>

definition proper_range :: "KeyRange \<Rightarrow> bool" where
  "proper_range r \<longleftrightarrow> (\<forall>h. kr_Hi r = Some h \<longrightarrow> kr_Lo r < h)"

text \<open>Every range ends before the next one starts, with a gap between them.\<close>

fun separated :: "KeyRange list \<Rightarrow> bool" where
  "separated [] = True"
| "separated [r] = True"
| "separated (r # s # rs) =
     ((case kr_Hi r of None \<Rightarrow> False | Some h \<Rightarrow> h < kr_Lo s) \<and> separated (s # rs))"

lemma check_ranges_None: "check_ranges rs = None \<longleftrightarrow> (\<forall>r\<in>set rs. proper_range r)"
  by (induction rs) (auto simp: proper_range_def split: option.splits)

lemma check_ranges_Some:
  "check_ranges rs = Some e \<Longrightarrow> \<exists>r\<in>set rs. e = InvertedRange r \<and> \<not> proper_range r"
  by (induction rs) (auto simp: proper_range_def split: option.splits if_splits)

text \<open>One round of the merge loop, on a range that touches the last one.\<close>

abbreviation absorb :: "KeyRange \<Rightarrow> bytes \<Rightarrow> KeyRange \<Rightarrow> KeyRange" where
  "absorb lst lh r \<equiv>
     (case kr_Hi r of
        None \<Rightarrow> lst\<lparr>kr_Hi := None\<rparr>
      | Some rh \<Rightarrow> if rh > lh then lst\<lparr>kr_Hi := Some rh\<rparr> else lst)"

lemma absorb_contains:
  assumes "kr_Lo lst \<le> kr_Lo r" and "kr_Hi lst = Some lh" and "kr_Lo r \<le> lh"
  shows "range_contains (absorb lst lh r) k \<longleftrightarrow> range_contains lst k \<or> range_contains r k"
proof (cases "kr_Hi r")
  case None
  then show ?thesis using assms by (auto simp: range_simps)
next
  case (Some rh)
  then show ?thesis using assms by (auto simp: range_simps)
qed

lemma absorb_Lo [simp]: "kr_Lo (absorb lst lh r) = kr_Lo lst"
  by (simp split: option.splits)

lemma absorb_proper:
  "proper_range lst \<Longrightarrow> kr_Hi lst = Some lh \<Longrightarrow> proper_range (absorb lst lh r)"
  by (auto simp: proper_range_def split: option.splits)

lemma unbounded_swallows:
  "kr_Hi lst = None \<Longrightarrow> kr_Lo lst \<le> kr_Lo r \<Longrightarrow> range_contains r k \<Longrightarrow> range_contains lst k"
  by (auto simp: range_simps)

lemma merge_contains:
  assumes "sorted (map kr_Lo (lst # rs))"
  shows "rangesContain (merge_ranges lst rs) k \<longleftrightarrow> rangesContain (lst # rs) k"
  using assms
proof (induction lst rs rule: merge_ranges.induct)
  case (1 lst)
  then show ?case by simp
next
  case (2 lst r rs)
  show ?case
  proof (cases "kr_Hi lst")
    case None
    with 2 show ?thesis by (auto dest: unbounded_swallows)
  next
    case (Some lh)
    show ?thesis
    proof (cases "kr_Lo r \<le> lh")
      case True
      have "sorted (map kr_Lo (absorb lst lh r # rs))"
        using 2(4) by (simp only: list.map absorb_Lo) simp
      from "2.IH"(2) [OF Some True this]
      have "rangesContain (merge_ranges (absorb lst lh r) rs) k
              \<longleftrightarrow> range_contains (absorb lst lh r) k \<or> rangesContain rs k"
        by simp
      then show ?thesis
        using absorb_contains [of lst r lh k] 2(4) Some True by auto
    next
      case False
      with 2 Some show ?thesis by auto
    qed
  qed
qed

lemma merge_proper:
  assumes "\<forall>r\<in>set (lst # rs). proper_range r"
  shows "\<forall>r\<in>set (merge_ranges lst rs). proper_range r"
  using assms
proof (induction lst rs rule: merge_ranges.induct)
  case (1 lst)
  then show ?case by simp
next
  case (2 lst r rs)
  show ?case
  proof (cases "kr_Hi lst")
    case None
    with 2 show ?thesis by simp
  next
    case (Some lh)
    then have "proper_range (absorb lst lh r)"
      using 2(4) by (intro absorb_proper) auto
    with 2 Some show ?thesis by auto
  qed
qed

lemma merge_hd: "\<exists>r rs'. merge_ranges lst rs = r # rs' \<and> kr_Lo r = kr_Lo lst"
proof (induction lst rs rule: merge_ranges.induct)
  case (1 lst)
  then show ?case by simp
next
  case (2 lst r rs)
  show ?case
  proof (cases "kr_Hi lst")
    case None
    with 2 show ?thesis by simp
  next
    case (Some lh)
    with 2 show ?thesis by (cases "kr_Lo r \<le> lh") (auto split: option.splits)
  qed
qed

lemma merge_separated: "separated (merge_ranges lst rs)"
proof (induction lst rs rule: merge_ranges.induct)
  case (1 lst)
  then show ?case by simp
next
  case (2 lst r rs)
  obtain s ss where m: "merge_ranges r rs = s # ss" "kr_Lo s = kr_Lo r"
    using merge_hd by blast
  show ?case
    using 2 m by (auto split: option.splits)
qed

lemma normalizeRanges_Inr:
  assumes "normalizeRanges rs = Inr norm"
  shows "norm \<noteq> [] \<and> separated norm \<and> (\<forall>r\<in>set norm. proper_range r)
    \<and> (\<forall>k. rangesContain norm k \<longleftrightarrow> rangesContain rs k)"
proof -
  have ne: "rs \<noteq> []" and ok: "\<forall>r\<in>set rs. proper_range r"
    using assms by (auto simp: normalizeRanges_def check_ranges_None split: if_splits option.splits)
  obtain r out where srt: "sort_key kr_Lo rs = r # out"
    using ne by (cases "sort_key kr_Lo rs") (metis set_empty set_sort, blast)
  have norm: "norm = merge_ranges r out"
    using assms ne srt by (auto simp: normalizeRanges_def split: option.splits)
  have set: "set (r # out) = set rs"
    by (metis srt set_sort)
  have sorted: "sorted (map kr_Lo (r # out))"
    by (metis srt sorted_sort_key)
  have cont: "rangesContain norm k \<longleftrightarrow> rangesContain rs k" for k
    using merge_contains [OF sorted, of k] set by (simp only: norm rangesContain_iff)
  have "norm \<noteq> []" using merge_hd [of r out] norm by auto
  moreover have "separated norm" using merge_separated norm by simp
  moreover have "\<forall>r\<in>set norm. proper_range r"
    unfolding norm by (rule merge_proper) (unfold set, rule ok)
  ultimately show ?thesis using cont by blast
qed

lemma normalizeRanges_total:
  assumes "rs \<noteq> []" and "\<forall>r\<in>set rs. proper_range r"
  shows "\<exists>norm. normalizeRanges rs = Inr norm"
  using assms by (auto simp: normalizeRanges_def check_ranges_None [symmetric] split: list.splits)

section \<open>Pruning\<close>

text \<open>The pruning test never says no to a subtree that holds a wanted key.\<close>

lemma rangesIntersectSubtree_sound:
  assumes "rangesContain rs k"
    and "\<And>l. lo = Some l \<Longrightarrow> l < k" and "\<And>h. hi = Some h \<Longrightarrow> k < h"
  shows "rangesIntersectSubtree rs lo hi"
  using assms(1)
proof (induction rs)
  case Nil
  then show ?case by simp
next
  case (Cons r rs)
  show ?case
  proof (cases "range_contains r k")
    case True
    have "\<not> l \<ge> h" if "kr_Hi r = Some h" "lo = Some l" for l h
      using True that assms(2) [of l] by (auto simp: range_simps)
    moreover have "\<not> kr_Lo r \<ge> h" if "hi = Some h" for h
      using True that assms(3) [of h] by (auto simp: range_simps)
    ultimately show ?thesis by (auto split: option.splits)
  next
    case False
    with Cons show ?thesis by simp
  qed
qed

section \<open>Subtraction and windows\<close>

lemma rangesOverlap_False:
  "\<not> rangesOverlap a b \<Longrightarrow> \<not> (range_contains a k \<and> range_contains b k)"
  by (auto simp: rangesOverlap_def range_simps split: option.splits if_splits)

lemma rangesOverlap_True:
  "rangesOverlap a b \<longleftrightarrow> (\<forall>h. kr_Hi a = Some h \<longrightarrow> kr_Lo b < h) \<and> (\<forall>h. kr_Hi b = Some h \<longrightarrow> kr_Lo a < h)"
  by (auto simp: rangesOverlap_def not_le split: option.splits)

text \<open>Subtraction is exact: the pieces hold the keys of \<open>r\<close> that are not in \<open>c\<close>.\<close>

lemma subtractRange_contains:
  "rangesContain (subtractRange r c) k \<longleftrightarrow> range_contains r k \<and> \<not> range_contains c k"
proof (cases "rangesOverlap r c")
  case False
  then show ?thesis using rangesOverlap_False [OF False, of k] by (auto simp: subtractRange_def)
next
  case True
  let ?left = "kr_Lo r \<le> k \<and> k < kr_Lo c"
  let ?right = "\<exists>ch. kr_Hi c = Some ch \<and> ch \<le> k \<and> (\<forall>h. kr_Hi r = Some h \<longrightarrow> k < h)"
  have "rangesContain (subtractRange r c) k \<longleftrightarrow> ?left \<or> ?right"
    using True by (auto simp: subtractRange_def range_simps split: option.splits)
  moreover have "?left \<or> ?right \<longleftrightarrow> range_contains r k \<and> \<not> range_contains c k"
    using True unfolding rangesOverlap_True range_contains_iff
    by (cases "kr_Hi r"; cases "kr_Hi c") (auto simp: not_le not_less)
  ultimately show ?thesis by simp
qed

lemma subtract_all_contains:
  "rangesContain (concat (map (\<lambda>r. subtractRange r c) rs)) k
     \<longleftrightarrow> rangesContain rs k \<and> \<not> range_contains c k"
  by (induction rs) (auto simp: subtractRange_contains)

text \<open>The window a range is cut down to: keys of the collection at or above the floor.\<close>

lemma window_contains:
  "range_contains \<lparr>kr_Lo = p @ f, kr_Hi = kr_Hi (PrefixRange p)\<rparr> k \<longleftrightarrow> prefix p k \<and> p @ f \<le> k"
proof -
  have "p \<le> k" if "p @ f \<le> k"
    using that bytes_prefix_le [of p "p @ f"] by (simp add: order_trans)
  then show ?thesis
    using PrefixRange_contains [of p k] by (auto simp: range_contains_iff PrefixRange_def)
qed

text \<open>Collection names hold no slash, so a key lies in at most one collection.\<close>

lemma collection_unique:
  assumes "CHR ''/'' \<notin> set n" and "CHR ''/'' \<notin> set m"
    and "prefix (n @ ''/'') k" and "prefix (m @ ''/'') k"
  shows "n = m"
proof -
  have tw: "takeWhile (\<lambda>c. c \<noteq> CHR ''/'') k = x"
    if free: "CHR ''/'' \<notin> set x" and pre: "prefix (x @ ''/'') k" for x
  proof -
    obtain y where "k = (x @ ''/'') @ y" using pre by (auto elim: prefixE)
    then have k: "k = x @ CHR ''/'' # y" by simp
    have "takeWhile (\<lambda>c. c \<noteq> CHR ''/'') (x @ CHR ''/'' # y) = x"
      using free by (subst takeWhile_append2) auto
    with k show ?thesis by simp
  qed
  show ?thesis using tw [of n] tw [of m] assms by simp
qed

lemma window_collections_contains:
  assumes "distinct ns" and "\<forall>n\<in>set ns. CHR ''/'' \<notin> set n"
  shows "rangesContain (window_collections floor ns ranges) k \<longleftrightarrow>
     (\<exists>n\<in>set ns. prefix (n @ ''/'') k \<and> n @ ''/'' @ floor \<le> k) \<or>
     rangesContain ranges k \<and> (\<forall>n\<in>set ns. \<not> prefix (n @ ''/'') k)"
  using assms
proof (induction ns arbitrary: ranges)
  case Nil
  then show ?case by simp
next
  case (Cons n ns)
  have only: "prefix (n @ ''/'') k \<Longrightarrow> m \<in> set ns \<Longrightarrow> \<not> prefix (m @ ''/'') k" for m
    using Cons.prems collection_unique [of n m k] by auto
  show ?case
    using Cons only window_contains [of "n @ ''/''" floor k]
    by (auto simp: Let_def subtract_all_contains PrefixRange_contains)
qed

text \<open>The keys this node indexes at all.\<close>

definition indexed_key :: "bytes \<Rightarrow> bool" where
  "indexed_key k \<longleftrightarrow>
     prefix placeStreamPrefix k \<or> (\<exists>n\<in>set CollectionFilter. prefix (n @ ''/'') k)"

text \<open>The collection a key lies in, when it is a windowed one.\<close>

definition windowed_key :: "bytes \<Rightarrow> bytes \<Rightarrow> bool" where
  "windowed_key n k \<longleftrightarrow> n \<in> set windowedCollections \<and> prefix (n @ ''/'') k"

lemma filter_ranges_contains:
  "rangesContain (filter_ranges ns) k \<longleftrightarrow>
     (\<exists>n\<in>set ns. \<not> prefix placeStreamPrefix n \<and> prefix (n @ ''/'') k)"
  by (induction ns) (auto simp: PrefixRange_contains)

lemma whole_ranges_contains:
  "rangesContain (PrefixRange placeStreamPrefix # filter_ranges ns) k \<longleftrightarrow>
     prefix placeStreamPrefix k \<or> (\<exists>n\<in>set ns. prefix (n @ ''/'') k)"
proof -
  have "prefix placeStreamPrefix k" if "prefix placeStreamPrefix n" "prefix (n @ ''/'') k" for n
    using that by (meson prefix_append prefix_order.trans)
  then show ?thesis by (auto simp: PrefixRange_contains filter_ranges_contains)
qed

lemma windowed_indexed: "windowed_key n k \<Longrightarrow> indexed_key k"
proof -
  assume w: "windowed_key n k"
  then have "n = ''place.stream.chat.message'' \<or> n \<in> set CollectionFilter"
    by (auto simp: windowed_key_def windowedCollections_def CollectionFilter_def)
  moreover have "prefix placeStreamPrefix ''place.stream.chat.message''"
    by (simp add: placeStreamPrefix_def)
  moreover have "prefix n k" using w by (auto simp: windowed_key_def elim: append_prefixD)
  ultimately show "indexed_key k"
    using w by (auto simp: indexed_key_def windowed_key_def intro: prefix_order.trans)
qed

lemma windowed_shape:
  "distinct windowedCollections" "\<forall>n\<in>set windowedCollections. CHR ''/'' \<notin> set n"
  by (simp_all add: windowedCollections_def)

lemma backfillRanges_contains:
  "rangesContain (backfillRanges floor) k \<longleftrightarrow>
     indexed_key k \<and> (floor \<noteq> [] \<longrightarrow> (\<forall>n. windowed_key n k \<longrightarrow> n @ ''/'' @ floor \<le> k))"
proof (cases "floor = []")
  case True
  have "indexed_key k \<longleftrightarrow>
      rangesContain (PrefixRange placeStreamPrefix # filter_ranges CollectionFilter) k"
    unfolding indexed_key_def whole_ranges_contains ..
  with True show ?thesis unfolding backfillRanges_def Let_def by simp
next
  case False
  have same: "n = m" if "windowed_key n k" "windowed_key m k" for n m
    using that collection_unique [of n m k] windowed_shape(2) by (auto simp: windowed_key_def)
  have "rangesContain (backfillRanges floor) k \<longleftrightarrow>
      (\<exists>n. windowed_key n k \<and> n @ ''/'' @ floor \<le> k) \<or> indexed_key k \<and> (\<forall>n. \<not> windowed_key n k)"
    using False window_collections_contains [OF windowed_shape, of floor _ k]
      whole_ranges_contains [of CollectionFilter k]
    by (auto simp: backfillRanges_def Let_def windowed_key_def indexed_key_def)
  then show ?thesis using False same windowed_indexed [of _ k] by blast
qed

lemma bounded_window_contains:
  "range_contains \<lparr>kr_Lo = p @ f, kr_Hi = Some (p @ h)\<rparr> k \<longleftrightarrow> prefix p k \<and> p @ f \<le> k \<and> k < p @ h"
proof -
  have "prefix p k" if "p @ f \<le> k" and "k < p @ h"
  proof -
    have "p \<le> k" using that(1) bytes_prefix_le [of p "p @ f"] by (simp add: order_trans)
    moreover have "\<forall>u. prefix_hi_fwd p = Some u \<longrightarrow> p @ h < u"
      using prefix_hi_fwd_correct [of p "p @ h"] by auto
    ultimately show ?thesis
      using prefix_hi_fwd_correct [of p k] that(2) by (auto intro: less_trans)
  qed
  then show ?thesis by (auto simp: range_contains_iff)
qed

lemma windowRanges_contains:
  "rangesContain (windowRanges lo hi) k \<longleftrightarrow>
     (\<exists>n. windowed_key n k \<and> (lo \<noteq> [] \<longrightarrow> n @ ''/'' @ lo \<le> k) \<and> (hi \<noteq> [] \<longrightarrow> k < n @ ''/'' @ hi))"
proof -
  let ?r = "\<lambda>p. let r = PrefixRange p; r = (if lo \<noteq> [] then r\<lparr>kr_Lo := p @ lo\<rparr> else r)
                in if hi \<noteq> [] then r\<lparr>kr_Hi := Some (p @ hi)\<rparr> else r"
  have r: "range_contains (?r p) k \<longleftrightarrow>
      prefix p k \<and> (lo \<noteq> [] \<longrightarrow> p @ lo \<le> k) \<and> (hi \<noteq> [] \<longrightarrow> k < p @ hi)" for p
    using window_contains [of p lo k] bounded_window_contains [of p lo hi k]
      bounded_window_contains [of p "[]" hi k] PrefixRange_contains [of p k]
      bytes_prefix_le [of p k]
    by (auto simp: PrefixRange_def Let_def)
  have "windowRanges lo hi = map (\<lambda>n. ?r (n @ ''/'')) windowedCollections"
    unfolding windowRanges_def append_assoc ..
  then have "rangesContain (windowRanges lo hi) k \<longleftrightarrow>
      (\<exists>n\<in>set windowedCollections. range_contains (?r (n @ ''/'')) k)"
    by (simp only: rangesContain_iff) auto
  then show ?thesis unfolding r by (auto simp: windowed_key_def)
qed

lemma prefix_hi_fwd_less: "prefix_hi_fwd p = Some h \<Longrightarrow> p @ f < h"
  using prefix_hi_fwd_correct [of p "p @ f"] by auto

lemma PrefixRange_proper: "proper_range (PrefixRange p)"
  using prefix_hi_fwd_less [of p _ "[]"] by (auto simp: proper_range_def PrefixRange_def prefix_hi_rev)

lemma subtractRange_proper:
  "proper_range r \<Longrightarrow> s \<in> set (subtractRange r c) \<Longrightarrow> proper_range s"
  by (auto simp: subtractRange_def proper_range_def split: if_splits option.splits)

lemma window_proper: "proper_range \<lparr>kr_Lo = p @ f, kr_Hi = kr_Hi (PrefixRange p)\<rparr>"
  using prefix_hi_fwd_less [of p _ f] by (auto simp: proper_range_def PrefixRange_def prefix_hi_rev)

lemma window_collections_proper:
  "\<forall>r\<in>set ranges. proper_range r \<Longrightarrow> \<forall>r\<in>set (window_collections f ns ranges). proper_range r"
proof (induction ns arbitrary: ranges)
  case Nil
  then show ?case by simp
next
  case (Cons n ns)
  let ?kept = "concat (map (\<lambda>r. subtractRange r (PrefixRange (n @ ''/''))) ranges)"
  let ?win = "\<lparr>kr_Lo = n @ ''/'' @ f, kr_Hi = kr_Hi (PrefixRange (n @ ''/''))\<rparr>"
  have "\<forall>r\<in>set ?kept. proper_range r"
    using Cons.prems subtractRange_proper by auto
  moreover have "proper_range ?win"
    using window_proper [of "n @ ''/''" f] by simp
  ultimately have "\<forall>r\<in>set (?kept @ [?win]). proper_range r" by simp
  from Cons.IH [OF this] show ?case by (simp add: Let_def)
qed

lemma filter_ranges_proper: "\<forall>r\<in>set (filter_ranges ns). proper_range r"
  by (induction ns) (auto simp: PrefixRange_proper)

lemma window_collections_nonempty: "ranges \<noteq> [] \<Longrightarrow> window_collections f ns ranges \<noteq> []"
  by (induction ns arbitrary: ranges) (auto simp: Let_def)

lemma backfillRanges_proper:
  "backfillRanges floor \<noteq> [] \<and> (\<forall>r\<in>set (backfillRanges floor). proper_range r)"
  using window_collections_proper [of "PrefixRange placeStreamPrefix # filter_ranges CollectionFilter"]
  by (auto simp: backfillRanges_def Let_def PrefixRange_proper window_collections_nonempty
      dest: bspec [OF filter_ranges_proper])

text \<open>Two adjacent windows make up the one that spans both.\<close>

lemma windowRanges_split:
  assumes "mid \<noteq> []" and "hi \<noteq> [] \<Longrightarrow> mid < hi"
  shows "rangesContain (windowRanges [] hi) k \<longleftrightarrow>
    rangesContain (windowRanges [] mid) k \<or> rangesContain (windowRanges mid hi) k"
proof -
  have "n @ ''/'' @ mid \<le> n @ ''/'' @ hi" if "hi \<noteq> []" for n
    using assms(2) that by (simp add: bytes_append_le)
  then show ?thesis unfolding windowRanges_contains using assms(1)
    by (auto simp: not_le) (meson le_less_trans not_le order_less_le_trans)+
qed

section \<open>Properties\<close>

text \<open>
  Normalising a set of ranges changes no membership: it fails exactly when there is no range
  or one is empty or inverted, and otherwise the result is non-empty, sorted with gaps between
  neighbours, made of proper ranges, and holds the same keys.
\<close>

theorem normalizeRanges_correct:
  "case normalizeRanges rs of
     Inl e \<Rightarrow> rs = [] \<and> e = NoRanges \<or> (\<exists>r\<in>set rs. e = InvertedRange r \<and> \<not> proper_range r)
   | Inr norm \<Rightarrow> norm \<noteq> [] \<and> separated norm \<and> list_all proper_range (rs @ norm)
       \<and> (\<forall>k. rangesContain norm k \<longleftrightarrow> rangesContain rs k)"
proof (cases "normalizeRanges rs")
  case (Inl e)
  then show ?thesis
    using check_ranges_Some [of rs e]
    by (auto simp: normalizeRanges_def split: if_splits option.splits list.splits)
next
  case (Inr norm)
  then have "check_ranges rs = None"
    by (auto simp: normalizeRanges_def split: if_splits option.splits)
  then show ?thesis using Inr normalizeRanges_Inr [OF Inr] by (auto simp: check_ranges_None list_all_iff)
qed

text \<open>
  Windowing decides when a record is indexed and never whether.  For every key and floor, the
  full backfill wants exactly the indexed keys; the windowed backfill and the deepening window below
  its floor split them with no overlap; and two adjacent deepening windows make up the one that
  spans both.
\<close>

theorem windows_partition:
  "(rangesContain (backfillRanges []) k \<longleftrightarrow> indexed_key k) \<and>
   (floor \<noteq> [] \<longrightarrow>
      (rangesContain (backfillRanges []) k \<longleftrightarrow>
         rangesContain (backfillRanges floor) k \<or> rangesContain (windowRanges [] floor) k) \<and>
      \<not> (rangesContain (backfillRanges floor) k \<and> rangesContain (windowRanges [] floor) k)) \<and>
   (floor \<noteq> [] \<and> floor < hi \<longrightarrow>
      (rangesContain (windowRanges [] hi) k \<longleftrightarrow>
         rangesContain (windowRanges [] floor) k \<or> rangesContain (windowRanges floor hi) k))"
proof -
  have uniq: "n = m" if "windowed_key n k" "windowed_key m k" for n m
    using that collection_unique [of n m k] windowed_shape(2) by (auto simp: windowed_key_def)
  have ladder: "rangesContain (windowRanges [] hi) k \<longleftrightarrow>
      rangesContain (windowRanges [] floor) k \<or> rangesContain (windowRanges floor hi) k"
    if "floor \<noteq> []" "floor < hi"
    using that by (intro windowRanges_split)
  have "rangesContain (backfillRanges []) k \<longleftrightarrow> indexed_key k" by (simp add: backfillRanges_contains)
  moreover have "(indexed_key k \<longleftrightarrow> rangesContain (backfillRanges floor) k \<or> rangesContain (windowRanges [] floor) k) \<and>
      \<not> (rangesContain (backfillRanges floor) k \<and> rangesContain (windowRanges [] floor) k)" if "floor \<noteq> []"
    unfolding backfillRanges_contains windowRanges_contains
    using that uniq windowed_indexed [of _ k] by (auto simp: not_le)
  ultimately show ?thesis using ladder by blast
qed

theorem windows_partition_witness:
  "rangesContain (backfillRanges []) ''app.bsky.feed.post/3k'' \<and>
   (rangesContain (backfillRanges ''3l'') ''app.bsky.feed.post/3k'' \<or>
    rangesContain (windowRanges [] ''3l'') ''app.bsky.feed.post/3k'')"
proof -
  have "indexed_key ''app.bsky.feed.post/3k''" by (simp add: indexed_key_def CollectionFilter_def)
  with windows_partition [of "''app.bsky.feed.post/3k''" "''3l''" "''3m''"] show ?thesis by blast
qed

text \<open>
  The walker accepts the ranges of every backfill, whatever the floor: normalisation of
  \<open>backfillRanges floor\<close> never fails.
\<close>

theorem backfillRanges_accepted: "\<exists>norm. normalizeRanges (backfillRanges floor) = Inr norm"
  using normalizeRanges_total backfillRanges_proper by blast

text \<open>\<open>PrefixRange\<close> is exact: its range holds the keys that start with the prefix and no
  other, also when the prefix is empty or made of bytes 0xFF, where it has no upper end.\<close>

theorem PrefixRange_exact: "range_contains (PrefixRange p) k \<longleftrightarrow> (\<exists>rest. k = p @ rest)"
  by (simp add: PrefixRange_contains prefix_def)

end
