(* ===== verification/Errors.thy ===== *)
theory Errors
  imports Prelude
begin

text \<open>
  Go error values and how the sync engine reads them: the wrapping tree that
  \<open>errors.Is\<close> and \<open>errors.As\<close> search, the transient/permanent split of \<open>reposync/retry.go\<close>, and
  the account-state and fallback decisions of \<open>atproto/backfill_walk.go\<close>.
\<close>

section \<open>Error values\<close>

text \<open>
  \<open>Sentinel\<close> is a package-level error variable or an errno, by name.  \<open>XrpcError\<close> is
  \<open>*xrpc.Error\<close> with the fields the code reads (status code, rate-limit reset, wrapped error);
  \<open>XRPCError\<close> is \<open>*xrpc.XRPCError\<close> (error name, message).  \<open>NetError\<close> is a value with a
  \<open>Timeout()\<close> method wrapped around another error, \<open>DNSError\<close> a \<open>*net.DNSError\<close>.  \<open>WrapErr\<close> is
  \<open>fmt.Errorf\<close> with its \<open>%w\<close> operands, or \<open>errors.Join\<close>.
\<close>

datatype go_error =
    Sentinel string
  | XrpcError int "time option" "go_error option"
  | XRPCError string string
  | NetError bool "go_error option"
  | DNSError bool bool
  | TerminalRepoError string go_error
  | WrapErr string "go_error list"

abbreviation "ErrMissingBlock \<equiv> Sentinel ''ErrMissingBlock''"
abbreviation "ErrBlockMismatch \<equiv> Sentinel ''ErrBlockMismatch''"
abbreviation "ErrInvalidNode \<equiv> Sentinel ''ErrInvalidNode''"
abbreviation "ctxCanceled \<equiv> Sentinel ''context.Canceled''"
abbreviation "ctxDeadlineExceeded \<equiv> Sentinel ''context.DeadlineExceeded''"
abbreviation "ECONNRESET \<equiv> Sentinel ''ECONNRESET''"
abbreviation "ECONNREFUSED \<equiv> Sentinel ''ECONNREFUSED''"
abbreviation "EPIPE \<equiv> Sentinel ''EPIPE''"
abbreviation "ioUnexpectedEOF \<equiv> Sentinel ''io.ErrUnexpectedEOF''"
abbreviation "ioEOF \<equiv> Sentinel ''io.EOF''"

text \<open>The tree of an error in the order \<open>errors.Is\<close> and \<open>errors.As\<close> search it.\<close>

fun err_tree :: "go_error \<Rightarrow> go_error list" where
  "err_tree (XrpcError st rl w) =
     XrpcError st rl w # (case w of None \<Rightarrow> [] | Some e \<Rightarrow> err_tree e)"
| "err_tree (NetError t w) = NetError t w # (case w of None \<Rightarrow> [] | Some e \<Rightarrow> err_tree e)"
| "err_tree (TerminalRepoError s e) = TerminalRepoError s e # err_tree e"
| "err_tree (WrapErr m es) = WrapErr m es # concat (map err_tree es)"
| "err_tree e = [e]"

definition errors_Is :: "go_error \<Rightarrow> go_error \<Rightarrow> bool" where
  "errors_Is e target = (target \<in> set (err_tree e))"

fun first_match :: "('a \<Rightarrow> 'b option) \<Rightarrow> 'a list \<Rightarrow> 'b option" where
  "first_match f [] = None"
| "first_match f (x # xs) = (case f x of Some y \<Rightarrow> Some y | None \<Rightarrow> first_match f xs)"

definition as_XrpcError :: "go_error \<Rightarrow> (int \<times> time option) option" where
  "as_XrpcError e =
     first_match (\<lambda>x. case x of XrpcError st rl w \<Rightarrow> Some (st, rl) | _ \<Rightarrow> None) (err_tree e)"

definition as_XRPCError :: "go_error \<Rightarrow> (string \<times> string) option" where
  "as_XRPCError e =
     first_match (\<lambda>x. case x of XRPCError n m \<Rightarrow> Some (n, m) | _ \<Rightarrow> None) (err_tree e)"

definition as_NetError :: "go_error \<Rightarrow> bool option" where
  "as_NetError e =
     first_match (\<lambda>x. case x of NetError t w \<Rightarrow> Some t | DNSError nf t \<Rightarrow> Some t | _ \<Rightarrow> None)
       (err_tree e)"

definition as_DNSError :: "go_error \<Rightarrow> bool option" where
  "as_DNSError e =
     first_match (\<lambda>x. case x of DNSError nf t \<Rightarrow> Some nf | _ \<Rightarrow> None) (err_tree e)"

section \<open>Transient failures\<close>

definition isRetryable :: "go_error option \<Rightarrow> bool" where
  "isRetryable err = (case err of None \<Rightarrow> False | Some e \<Rightarrow>
     if errors_Is e ctxCanceled \<or> errors_Is e ctxDeadlineExceeded then False
     else case as_XrpcError e of
       Some (st, rl) \<Rightarrow>
         (if st = 429 then True
          else if st = 501 then False
          else if st \<ge> 500 \<and> st \<le> 599 then True
          else False)
     | None \<Rightarrow>
         if as_NetError e = Some True then True
         else errors_Is e ECONNRESET \<or> errors_Is e ECONNREFUSED \<or> errors_Is e EPIPE
           \<or> errors_Is e ioUnexpectedEOF \<or> errors_Is e ioEOF)"

definition isDeadHost :: "go_error \<Rightarrow> bool" where
  "isDeadHost e =
     (if errors_Is e ECONNREFUSED then True else as_DNSError e = Some True)"

text \<open>The zero \<open>time.Time\<close>: the first instant of year 1, in nanoseconds from the epoch.\<close>

definition zeroTime :: time where
  "zeroTime = -62135596800 * second"

definition ratelimitReset :: "go_error \<Rightarrow> time" where
  "ratelimitReset e =
     (case as_XrpcError e of
        Some (st, Some reset) \<Rightarrow> reset
      | _ \<Rightarrow> zeroTime)"

section \<open>Lexicon error names\<close>

definition between :: "char \<Rightarrow> char \<Rightarrow> char \<Rightarrow> bool" where
  "between lo hi c \<longleftrightarrow> lo \<le> c \<and> c \<le> hi"

definition upper :: "char \<Rightarrow> bool" where
  "upper = between (CHR ''A'') (CHR ''Z'')"

definition alnum :: "char \<Rightarrow> bool" where
  "alnum c \<longleftrightarrow> between (CHR ''a'') (CHR ''z'') c \<or> upper c \<or> between (CHR ''0'') (CHR ''9'') c"

text \<open>The source ranges over runes; a byte above 0x7F is part of a rune that is no letter or
  digit of the test, so testing the bytes gives the same answer.\<close>

definition isLexiconErrorName :: "string \<Rightarrow> bool" where
  "isLexiconErrorName s =
     (case s of [] \<Rightarrow> False | c # cs \<Rightarrow> if \<not> upper c then False else list_all alnum s)"

definition xrpcErrorName :: "go_error \<Rightarrow> string" where
  "xrpcErrorName e =
     (case as_XRPCError e of
        None \<Rightarrow> []
      | Some (errStr, message) \<Rightarrow>
          if errStr \<noteq> [] then errStr
          else let name = takeWhile (\<lambda>c. c \<noteq> CHR '':'') message
               in if \<not> isLexiconErrorName name then [] else name)"

definition isStaleWalkError :: "go_error option \<Rightarrow> bool" where
  "isStaleWalkError err = (case err of None \<Rightarrow> False | Some e \<Rightarrow>
     if errors_Is e ErrMissingBlock then True
     else if xrpcErrorName e = ''BlockNotFound'' then True
     else case as_XRPCError e of
       Some (n, message) \<Rightarrow> sublist ''Could not find cids'' message
     | None \<Rightarrow> False)"

definition RepoStatusOK :: string where "RepoStatusOK = ''''"
definition RepoStatusDeactivated :: string where "RepoStatusDeactivated = ''deactivated''"
definition RepoStatusNotFound :: string where "RepoStatusNotFound = ''notfound''"
definition RepoStatusTakendown :: string where "RepoStatusTakendown = ''takendown''"
definition RepoStatusSuspended :: string where "RepoStatusSuspended = ''suspended''"

definition repoStatusFromError :: "go_error \<Rightarrow> string" where
  "repoStatusFromError e =
     (let name = xrpcErrorName e in
      if name = ''RepoDeactivated'' then RepoStatusDeactivated
      else if name = ''RepoNotFound'' then RepoStatusNotFound
      else if name = ''RepoTakendown'' then RepoStatusTakendown
      else if name = ''RepoSuspended'' then RepoStatusSuspended
      else '''')"

definition isMethodNotSupported :: "go_error option \<Rightarrow> bool" where
  "isMethodNotSupported err = (case err of None \<Rightarrow> False | Some e \<Rightarrow>
     let name = xrpcErrorName e in
     if name = ''MethodNotImplemented'' \<or> name = ''XRPCNotSupported'' then True
     else if name \<noteq> '''' then False
     else case as_XrpcError e of
       Some (st, rl) \<Rightarrow> st \<in> {401, 404, 405, 501}
     | None \<Rightarrow> False)"

section \<open>Wrapping\<close>

lemma errors_Is_WrapErr [simp]:
  "errors_Is (WrapErr m es) (Sentinel s) \<longleftrightarrow> (\<exists>e\<in>set es. errors_Is e (Sentinel s))"
  by (auto simp: errors_Is_def)

lemma errors_Is_Sentinel [simp]: "errors_Is (Sentinel s) (Sentinel t) \<longleftrightarrow> s = t"
  by (auto simp: errors_Is_def)

lemma first_match_append:
  "first_match f (xs @ ys) = (case first_match f xs of Some y \<Rightarrow> Some y | None \<Rightarrow> first_match f ys)"
  by (induction xs) (auto split: option.splits)

text \<open>Wrapping one error changes none of the questions asked of it.\<close>

lemma wrap_one_transparent:
  "as_XrpcError (WrapErr m [e]) = as_XrpcError e"
  "as_XRPCError (WrapErr m [e]) = as_XRPCError e"
  "as_NetError (WrapErr m [e]) = as_NetError e"
  "as_DNSError (WrapErr m [e]) = as_DNSError e"
  by (simp_all add: as_XrpcError_def as_XRPCError_def as_NetError_def as_DNSError_def)

lemma wrap_one_isStale: "isStaleWalkError (Some (WrapErr m [e])) = isStaleWalkError (Some e)"
  by (simp add: isStaleWalkError_def xrpcErrorName_def wrap_one_transparent)

lemma wrap_one_isMethodNotSupported:
  "isMethodNotSupported (Some (WrapErr m [e])) = isMethodNotSupported (Some e)"
  by (simp add: isMethodNotSupported_def xrpcErrorName_def wrap_one_transparent)

lemma wrap_one_isRetryable: "isRetryable (Some (WrapErr m [e])) = isRetryable (Some e)"
  by (simp add: isRetryable_def wrap_one_transparent split: option.split)

lemma wrap_one_isDeadHost: "isDeadHost (WrapErr m [e]) = isDeadHost e"
  by (simp add: isDeadHost_def wrap_one_transparent)

lemmas wrap_one_simps = wrap_one_transparent wrap_one_isStale wrap_one_isMethodNotSupported
  wrap_one_isRetryable wrap_one_isDeadHost

text \<open>A failed block verification is never mistaken for a reason to fall back or to retry.\<close>

lemma mismatch_is_final:
  "\<not> isMethodNotSupported (Some (WrapErr m [ErrBlockMismatch]))"
  "\<not> isStaleWalkError (Some (WrapErr m [ErrBlockMismatch]))"
  "\<not> isRetryable (Some (WrapErr m [ErrBlockMismatch]))"
  by (simp_all add: isMethodNotSupported_def isStaleWalkError_def isRetryable_def xrpcErrorName_def
      as_XrpcError_def as_XRPCError_def as_NetError_def)

end
