(* ===== verification/Retry.thy ===== *)
theory Retry
  imports Errors
begin

text \<open>
  Backing off from a host (\<open>reposync/retry.go\<close>, \<open>reposync/hints.go\<close>): the registry of what each
  host asked for, the length of a wait, and the retry loop every sync request goes through.
  The clock, the jitter and the sleep are arguments.
\<close>

section \<open>Host keys\<close>

text \<open>Host names and URLs are ASCII, so trimming and lower-casing are the ASCII ones.\<close>

definition is_space :: "char \<Rightarrow> bool" where
  "is_space c \<longleftrightarrow> c \<in> {CHR '' '', CHR 0x09, CHR 0x0A, CHR 0x0B, CHR 0x0C, CHR 0x0D}"

definition TrimSpace :: "string \<Rightarrow> string" where
  "TrimSpace s = rev (dropWhile is_space (rev (dropWhile is_space s)))"

text \<open>\<open>s[i+3:]\<close> for the first \<open>i\<close> with \<open>s[i:i+3] = "://"\<close>, else \<open>s\<close>.\<close>

fun after_scheme :: "string \<Rightarrow> string option" where
  "after_scheme [] = None"
| "after_scheme (c # cs) =
     (if take 3 (c # cs) = ''://'' then Some (drop 3 (c # cs)) else after_scheme cs)"

definition to_lower :: "char \<Rightarrow> char" where
  "to_lower c =
     (if upper c then char_of (of_char c + 32 :: nat) else c)"

definition HostKey :: "string \<Rightarrow> string" where
  "HostKey hostOrURL =
     (let s = TrimSpace hostOrURL;
          s = (case after_scheme s of Some r \<Rightarrow> r | None \<Rightarrow> s);
          s = takeWhile (\<lambda>c. c \<notin> {CHR ''/'', CHR ''?'', CHR ''#''}) s
      in map to_lower s)"

section \<open>The hint registry\<close>

definition maxHintHosts :: nat where "maxHintHosts = 512"
definition hintMaxAge :: duration where "hintMaxAge = 5 * minute"

record BackoffHint =
  bh_Until :: time
  bh_Source :: string
  bh_Observed :: time

text \<open>The map of the registry, in the order an iteration over it happens to visit the hosts:
  every statement below holds for every order.\<close>

type_synonym hints = "(string \<times> BackoffHint) list"

definition hintExpired :: "BackoffHint \<Rightarrow> time \<Rightarrow> bool" where
  "hintExpired hint now = (\<not> bh_Until hint > now \<or> now - bh_Observed hint > hintMaxAge)"

text \<open>The key the inner loop of \<open>makeRoom\<close> ends with.\<close>

fun oldest_hint :: "hints \<Rightarrow> string \<Rightarrow> time \<Rightarrow> string" where
  "oldest_hint [] oldestKey oldest = oldestKey"
| "oldest_hint ((key, hint) # hs) oldestKey oldest =
     (if oldest = zeroTime \<or> bh_Observed hint < oldest
      then oldest_hint hs key (bh_Observed hint)
      else oldest_hint hs oldestKey oldest)"

definition delete_hint :: "string \<Rightarrow> hints \<Rightarrow> hints" where
  "delete_hint key hs = filter (\<lambda>(k, _). k \<noteq> key) hs"

lemma oldest_hint_in: "oldest_hint hs k t \<in> insert k (fst ` set hs)"
proof (induction hs k t rule: oldest_hint.induct)
  case (1 k t)
  then show ?case by simp
next
  case (2 key hint hs k t)
  then show ?case by (cases "t = zeroTime \<or> bh_Observed hint < t") auto
qed

lemma oldest_hint_zero:
  "hs \<noteq> [] \<Longrightarrow> oldest_hint hs k zeroTime \<in> fst ` set hs"
  by (cases hs) (use oldest_hint_in in \<open>force+\<close>)

lemma delete_hint_shorter:
  "k \<in> fst ` set hs \<Longrightarrow> length (delete_hint k hs) < length hs"
  by (auto simp: delete_hint_def intro!: length_filter_less)

function drop_oldest :: "hints \<Rightarrow> hints" where
  "drop_oldest hs =
     (if length hs \<ge> maxHintHosts
      then drop_oldest (delete_hint (oldest_hint hs [] zeroTime) hs)
      else hs)"
  by pat_completeness auto
termination
proof (relation "measure length")
  fix hs :: hints
  assume "length hs \<ge> maxHintHosts"
  then have "hs \<noteq> []" by (auto simp: maxHintHosts_def)
  then show "(delete_hint (oldest_hint hs [] zeroTime) hs, hs) \<in> measure length"
    by (simp add: delete_hint_shorter oldest_hint_zero)
qed simp

declare drop_oldest.simps [simp del]

definition makeRoom :: "hints \<Rightarrow> time \<Rightarrow> hints" where
  "makeRoom hs now =
     (if length hs < maxHintHosts then hs
      else drop_oldest (filter (\<lambda>(k, hint). \<not> hintExpired hint now) hs))"

text \<open>What the two headers parse to: \<open>Retry-After\<close> as seconds or as a date,
  \<open>ratelimit-reset\<close> as unix seconds; \<open>None\<close> for a header that is absent or unreadable.\<close>

datatype retry_after = RetrySeconds int | RetryDate time

record backoff_headers =
  bk_RetryAfter :: "retry_after option"
  bk_RatelimitReset :: "int option"

definition consider_hint :: "time \<times> string \<Rightarrow> time \<Rightarrow> string \<Rightarrow> time \<times> string" where
  "consider_hint us t name =
     (if t = zeroTime \<or> \<not> t > fst us then us else (t, name))"

definition parseBackoffHeaders :: "backoff_headers \<Rightarrow> time \<Rightarrow> time \<times> string" where
  "parseBackoffHeaders h at =
     (let us = (zeroTime, []);
          us = (case bk_RetryAfter h of
                  Some (RetrySeconds secs) \<Rightarrow>
                    if secs > 0 then consider_hint us (at + wrap64 (secs * second)) ''retry-after'' else us
                | Some (RetryDate date) \<Rightarrow> consider_hint us date ''retry-after''
                | None \<Rightarrow> us)
      in case bk_RatelimitReset h of
           Some secs \<Rightarrow> if secs > 0 then consider_hint us (secs * second) ''ratelimit-reset'' else us
         | None \<Rightarrow> us)"

definition observeAt :: "hints \<Rightarrow> string \<Rightarrow> int \<Rightarrow> backoff_headers \<Rightarrow> time \<Rightarrow> hints" where
  "observeAt hs host status h at =
     (if status \<notin> {429, 503} then hs
      else let key = HostKey host in
        if key = [] then hs
        else case parseBackoffHeaders h at of (until, source) \<Rightarrow>
          if until = zeroTime \<or> \<not> until > at then hs
          else let hs' = (if map_of hs key = None then makeRoom hs at else hs)
               in (key, \<lparr>bh_Until = until, bh_Source = source, bh_Observed = at\<rparr>)
                    # delete_hint key hs')"

definition hints_get :: "hints \<Rightarrow> string \<Rightarrow> time \<Rightarrow> BackoffHint option" where
  "hints_get hs host now =
     (let key = HostKey host in
      if key = [] then None
      else case map_of hs key of
        None \<Rightarrow> None
      | Some hint \<Rightarrow> if hintExpired hint now then None else Some hint)"

section \<open>The retry policy\<close>

definition DefaultMaxAttempts :: int where "DefaultMaxAttempts = 5"
definition DefaultRetryBaseDelay :: duration where "DefaultRetryBaseDelay = second"
definition DefaultRetryMaxDelay :: duration where "DefaultRetryMaxDelay = 30 * second"
definition deadHostAttempts :: int where "deadHostAttempts = 2"
definition hintPad :: duration where "hintPad = 250 * millisecond"

record RetryPolicy =
  rp_MaxAttempts :: int
  rp_BaseDelay :: duration
  rp_MaxDelay :: duration
  rp_Hints :: hints
  rp_Host :: string

definition forHost :: "RetryPolicy \<Rightarrow> string \<Rightarrow> RetryPolicy" where
  "forHost p host = (if rp_Host p = [] then p\<lparr>rp_Host := host\<rparr> else p)"

definition withDefaults :: "RetryPolicy \<Rightarrow> RetryPolicy" where
  "withDefaults p =
     (let p = (if rp_MaxAttempts p \<le> 0 then p\<lparr>rp_MaxAttempts := DefaultMaxAttempts\<rparr> else p);
          p = (if rp_BaseDelay p \<le> 0 then p\<lparr>rp_BaseDelay := DefaultRetryBaseDelay\<rparr> else p);
          p = (if rp_MaxDelay p \<le> 0 then p\<lparr>rp_MaxDelay := DefaultRetryMaxDelay\<rparr> else p)
      in if rp_MaxDelay p < rp_BaseDelay p then p\<lparr>rp_MaxDelay := rp_BaseDelay p\<rparr> else p)"

text \<open>\<open>BaseDelay << n\<close> on a signed 64-bit duration.\<close>

definition shl64 :: "int \<Rightarrow> nat \<Rightarrow> int" where
  "shl64 x n = wrap64 (x * 2 ^ n)"

text \<open>\<open>jitter\<close> is the multiplication by a random factor in [0.75, 1): an argument, with the
  bound the code relies on as a hypothesis where it matters.\<close>

definition retry_delay ::
  "RetryPolicy \<Rightarrow> (duration \<Rightarrow> duration) \<Rightarrow> time \<Rightarrow> int \<Rightarrow> go_error \<Rightarrow> duration \<times> string" where
  "retry_delay p0 jitter now attempt err =
     (let p = withDefaults p0;
          d = (if attempt \<ge> 1 \<and> attempt < 31 then
                 let shifted = shl64 (rp_BaseDelay p) (nat (attempt - 1))
                 in if shifted > 0 \<and> shifted < rp_MaxDelay p then shifted else rp_MaxDelay p
               else rp_MaxDelay p);
          d = jitter d;
          us = (ratelimitReset err, ''ratelimit-reset'');
          us = (case hints_get (rp_Hints p) (rp_Host p) now of
                  Some hint \<Rightarrow> if bh_Until hint > fst us then (bh_Until hint, bh_Source hint) else us
                | None \<Rightarrow> us)
      in if fst us \<noteq> zeroTime then
           let wait = wrap64 (sat64 (fst us - now) + hintPad)
           in if wait > d then (min wait (rp_MaxDelay p), snd us) else (d, [])
         else (d, []))"

definition budget_for :: "RetryPolicy \<Rightarrow> go_error \<Rightarrow> int" where
  "budget_for p err =
     (if isDeadHost err \<and> deadHostAttempts < rp_MaxAttempts p then deadHostAttempts
      else rp_MaxAttempts p)"

text \<open>
  The loop of \<open>RetryPolicy.do\<close>.  \<open>fn\<close> is the call, \<open>sleep\<close> is \<open>sleepCtx\<close>; both act on a
  world \<open>'w\<close>.
\<close>

definition gave_up :: "int \<Rightarrow> go_error \<Rightarrow> go_error" where
  "gave_up attempt e =
     WrapErr (''giving up after '' @ show_nat (nat attempt) @ '' attempts'') [e]"

definition aborted :: "int \<Rightarrow> go_error \<Rightarrow> go_error \<Rightarrow> go_error" where
  "aborted attempt e se =
     WrapErr (''aborted after '' @ show_nat (nat attempt) @ '' attempts'') [WrapErr [] [e, se]]"

function retry_loop ::
  "RetryPolicy \<Rightarrow> (int \<Rightarrow> go_error \<Rightarrow> 'w \<Rightarrow> duration) \<Rightarrow> (duration \<Rightarrow> 'w \<Rightarrow> go_error option \<times> 'w) \<Rightarrow>
   ('w \<Rightarrow> (go_error + 'a) \<times> 'w) \<Rightarrow> int \<Rightarrow> 'w \<Rightarrow> (go_error + 'a) \<times> 'w" where
  "retry_loop p delay sleep fn attempt w =
     (case fn w of
        (Inr x, w1) \<Rightarrow> (Inr x, w1)
      | (Inl err, w1) \<Rightarrow>
          if \<not> isRetryable (Some err) then (Inl err, w1)
          else if attempt \<ge> budget_for p err then (Inl (gave_up attempt err), w1)
          else case sleep (delay attempt err w1) w1 of
                 (Some serr, w2) \<Rightarrow> (Inl (aborted attempt err serr), w2)
               | (None, w2) \<Rightarrow> retry_loop p delay sleep fn (attempt + 1) w2)"
  by pat_completeness auto
termination
  by (relation "measure (\<lambda>(p, delay, sleep, fn, attempt, w). nat (rp_MaxAttempts p - attempt))")
     (auto simp: budget_for_def split: if_splits)

declare retry_loop.simps [simp del]

text \<open>What \<open>do\<close> reads around the calls: the clock, the random factor, the shared hint registry
  (\<open>p.Hints\<close> is a pointer, so it is read when the delay is computed) and \<open>sleepCtx\<close>.\<close>

record 'w retry_env =
  env_Now :: "'w \<Rightarrow> time"
  env_Jitter :: "'w \<Rightarrow> duration \<Rightarrow> duration"
  env_Hints :: "'w \<Rightarrow> hints"
  env_Sleep :: "duration \<Rightarrow> 'w \<Rightarrow> go_error option \<times> 'w"

definition retry_do ::
  "RetryPolicy \<Rightarrow> 'w retry_env \<Rightarrow> ('w \<Rightarrow> (go_error + 'a) \<times> 'w) \<Rightarrow> 'w \<Rightarrow> (go_error + 'a) \<times> 'w" where
  "retry_do p0 env fn w =
     (let p = withDefaults p0 in
      retry_loop p
        (\<lambda>attempt err w. fst (retry_delay (p\<lparr>rp_Hints := env_Hints env w\<rparr>) (env_Jitter env w)
           (env_Now env w) attempt err))
        (env_Sleep env) fn 1 w)"

section \<open>The registry stays bounded\<close>

definition hints_inv :: "hints \<Rightarrow> bool" where
  "hints_inv hs \<longleftrightarrow> distinct (map fst hs) \<and> length hs \<le> maxHintHosts"

lemma distinct_fst_filter: "distinct (map fst hs) \<Longrightarrow> distinct (map fst (filter P hs))"
  by (induction hs) auto

lemma drop_oldest_bounds:
  "distinct (map fst hs) \<Longrightarrow>
     length (drop_oldest hs) < maxHintHosts \<and> distinct (map fst (drop_oldest hs))"
proof (induction hs rule: drop_oldest.induct)
  case (1 hs)
  show ?case
  proof (cases "length hs \<ge> maxHintHosts")
    case True
    have "distinct (map fst (delete_hint (oldest_hint hs [] zeroTime) hs))"
      unfolding delete_hint_def by (rule distinct_fst_filter [OF "1.prems"])
    with "1.IH" [OF True] True show ?thesis by (simp add: drop_oldest.simps [of hs])
  next
    case False
    then show ?thesis using "1.prems" by (simp add: drop_oldest.simps [of hs])
  qed
qed

lemma makeRoom_bounds:
  "distinct (map fst hs) \<Longrightarrow>
     length (makeRoom hs now) < maxHintHosts \<and> distinct (map fst (makeRoom hs now))"
  using drop_oldest_bounds distinct_fst_filter by (auto simp: makeRoom_def)

lemma delete_hint_fst: "fst ` set (delete_hint k hs) = fst ` set hs - {k}"
  by (auto simp: delete_hint_def)

lemma delete_hint_length: "length (delete_hint k hs) \<le> length hs"
  by (simp add: delete_hint_def)

lemma observeAt_inv:
  assumes "hints_inv hs"
  shows "hints_inv (observeAt hs host status h at)"
proof (cases "observeAt hs host status h at = hs")
  case True
  then show ?thesis using assms by simp
next
  case False
  define key where "key = HostKey host"
  define hs' where "hs' = (if map_of hs key = None then makeRoom hs at else hs)"
  obtain hint where o: "observeAt hs host status h at = (key, hint) # delete_hint key hs'"
    using False by (auto simp: observeAt_def Let_def key_def hs'_def split: prod.splits if_splits)
  have d: "distinct (map fst hs')"
    using assms makeRoom_bounds by (simp add: hs'_def hints_inv_def)
  have "length (delete_hint key hs') < maxHintHosts"
  proof (cases "map_of hs key = None")
    case True
    then show ?thesis using makeRoom_bounds [of hs at] assms delete_hint_length [of key hs']
      by (simp add: hs'_def hints_inv_def)
  next
    case False
    then have "key \<in> fst ` set hs" by (simp add: map_of_eq_None_iff)
    moreover have "hs' = hs" using False by (simp only: hs'_def if_False)
    ultimately show ?thesis using delete_hint_shorter [of key hs] assms by (simp add: hints_inv_def)
  qed
  moreover have "distinct (map fst (delete_hint key hs'))"
    unfolding delete_hint_def by (rule distinct_fst_filter [OF d])
  ultimately show ?thesis using o by (simp add: hints_inv_def delete_hint_fst)
qed

text \<open>
  However many responses are observed, from however many hosts and in whatever order, the hint
  registry holds at most \<open>maxHintHosts\<close> hosts, one entry each.
\<close>

theorem hints_bounded:
  "hints_inv (fold (\<lambda>(host, status, h, at) hs. observeAt hs host status h at) obs [])"
proof -
  have "hints_inv (fold (\<lambda>(host, status, h, at) hs. observeAt hs host status h at) obs hs)"
    if "hints_inv hs" for hs
    using that by (induction obs arbitrary: hs) (auto simp: observeAt_inv)
  then show ?thesis by (simp add: hints_inv_def)
qed

text \<open>
  What a throttled response said is what the next lookup of that host returns, under any
  spelling of the host, until the instant it named or the maximum age of an observation.
\<close>

theorem hints_get_observed:
  assumes "status = 429 \<or> status = 503" and "HostKey host \<noteq> []" and "HostKey host' = HostKey host"
    and "parseBackoffHeaders h at = (until, source)" and "zeroTime \<le> at" and "at < until"
  shows "hints_get (observeAt hs host status h at) host' now =
    (if now < until \<and> now - at \<le> hintMaxAge
     then Some \<lparr>bh_Until = until, bh_Source = source, bh_Observed = at\<rparr> else None)"
  using assms by (auto simp: hints_get_def observeAt_def Let_def hintExpired_def)

theorem hints_get_observed_witness:
  "hints_get (observeAt [] ''https://PDS.example/xrpc'' 429
       \<lparr>bk_RetryAfter = Some (RetrySeconds 30), bk_RatelimitReset = None\<rparr> 1000) ''pds.example'' 2000 =
     Some \<lparr>bh_Until = 1000 + 30 * second, bh_Source = ''retry-after'', bh_Observed = 1000\<rparr>"
proof -
  have "HostKey ''https://PDS.example/xrpc'' \<noteq> []" "HostKey ''pds.example'' = HostKey ''https://PDS.example/xrpc''"
    by code_simp+
  moreover have "parseBackoffHeaders \<lparr>bk_RetryAfter = Some (RetrySeconds 30), bk_RatelimitReset = None\<rparr> 1000
      = (1000 + 30 * second, ''retry-after'')"
    by (simp add: parseBackoffHeaders_def Let_def consider_hint_def zeroTime_def second_def wrap64_def)
  ultimately show ?thesis
    using hints_get_observed [of 429 "''https://PDS.example/xrpc''" "''pds.example''"
        "\<lparr>bk_RetryAfter = Some (RetrySeconds 30), bk_RatelimitReset = None\<rparr>" 1000
        "1000 + 30 * second" "''retry-after''" "[]" 2000]
    by (simp add: zeroTime_def hintMaxAge_def duration_defs)
qed

section \<open>The length of a wait\<close>

lemma withDefaults_positive:
  "0 < rp_MaxAttempts (withDefaults p)" "0 < rp_BaseDelay (withDefaults p)"
  "rp_BaseDelay (withDefaults p) \<le> rp_MaxDelay (withDefaults p)"
  by (auto simp: withDefaults_def Let_def DefaultMaxAttempts_def DefaultRetryBaseDelay_def
      DefaultRetryMaxDelay_def second_def)

text \<open>
  Every wait lies between zero and the policy's \<open>MaxDelay\<close>, for every attempt number, error
  and hint, and also when the doubling overflows 64 bits or a host names an instant centuries away.
  The jitter may shorten a wait and never lengthens it.
\<close>

theorem retry_delay_bounds:
  assumes "\<forall>d. 0 \<le> d \<longrightarrow> 0 \<le> jitter d \<and> jitter d \<le> d"
  shows "0 \<le> fst (retry_delay p jitter now attempt err) \<and>
    fst (retry_delay p jitter now attempt err) \<le> rp_MaxDelay (withDefaults p)"
proof -
  define q where "q = withDefaults p"
  have pos: "0 < rp_BaseDelay q" "rp_BaseDelay q \<le> rp_MaxDelay q"
    using withDefaults_positive by (simp_all add: q_def)
  let ?ladder = "if attempt \<ge> 1 \<and> attempt < 31 then
     let shifted = shl64 (rp_BaseDelay q) (nat (attempt - 1))
     in if shifted > 0 \<and> shifted < rp_MaxDelay q then shifted else rp_MaxDelay q
   else rp_MaxDelay q"
  have "0 \<le> ?ladder" "?ladder \<le> rp_MaxDelay q" using pos by (auto simp: Let_def)
  with assms have "0 \<le> jitter ?ladder" "jitter ?ladder \<le> rp_MaxDelay q" by (metis, metis order_trans)
  then show ?thesis using pos
    unfolding retry_delay_def q_def [symmetric] Let_def by (auto simp: min_def split: option.splits)
qed

theorem retry_delay_bounds_witness:
  "fst (retry_delay \<lparr>rp_MaxAttempts = 0, rp_BaseDelay = 0, rp_MaxDelay = 0, rp_Hints = [], rp_Host = []\<rparr>
     (\<lambda>d. d - d div 4) 0 12 ioEOF) \<le> 30 * second"
proof -
  have "\<forall>d::int. 0 \<le> d \<longrightarrow> 0 \<le> d - d div 4 \<and> d - d div 4 \<le> d" by auto
  moreover have "rp_MaxDelay (withDefaults \<lparr>rp_MaxAttempts = 0, rp_BaseDelay = 0, rp_MaxDelay = 0,
      rp_Hints = [], rp_Host = []\<rparr>) = 30 * second"
    by (simp add: withDefaults_def Let_def DefaultRetryMaxDelay_def DefaultRetryBaseDelay_def second_def)
  ultimately show ?thesis
    using retry_delay_bounds [of "\<lambda>d. d - d div 4" "\<lparr>rp_MaxAttempts = 0, rp_BaseDelay = 0,
        rp_MaxDelay = 0, rp_Hints = [], rp_Host = []\<rparr>" 0 12 ioEOF] by simp
qed

section \<open>The number of attempts\<close>

text \<open>The calls are counted by the second component of the world: \<open>counts\<close> says that every call adds
  one and that sleeping adds none.\<close>

definition counts :: "('w \<times> nat) retry_env \<Rightarrow> ('w \<times> nat \<Rightarrow> (go_error + 'a) \<times> ('w \<times> nat)) \<Rightarrow> bool" where
  "counts env fn \<longleftrightarrow> (\<forall>w n. snd (snd (fn (w, n))) = Suc n) \<and>
     (\<forall>d w n. snd (snd (env_Sleep env d (w, n))) = n)"

lemma budget_le: "budget_for p e \<le> rp_MaxAttempts p"
  by (simp add: budget_for_def)

lemma retry_loop_calls:
  fixes fn :: "'w \<times> nat \<Rightarrow> (go_error + 'a) \<times> ('w \<times> nat)"
  assumes "\<And>w n. snd (snd (fn (w, n))) = Suc n" and "\<And>d w n. snd (snd (sleep d (w, n))) = n"
    and "\<And>w e w'. fn w = (Inl e, w') \<Longrightarrow> budget_for p e \<le> b" and "1 \<le> attempt" and "attempt \<le> max 1 b"
    and "retry_loop p delay sleep fn attempt (w, n) = (r, (w', n'))"
  shows "n < n' \<and> int (n' - n) + attempt \<le> max 1 b + 1"
  using assms
proof (induction "nat (max 1 b - attempt)" arbitrary: attempt w n rule: less_induct)
  case less
  obtain r1 w1 where fn: "fn (w, n) = (r1, (w1, Suc n))"
    using less.prems(1) [of w n] by (metis prod.collapse)
  show ?case
  proof (cases "\<exists>err w2. r1 = Inl err \<and> isRetryable (Some err) \<and> attempt < budget_for p err \<and>
      sleep (delay attempt err (w1, Suc n)) (w1, Suc n) = (None, w2)")
    case True
    then obtain err w2 where err: "r1 = Inl err" "isRetryable (Some err)" "attempt < budget_for p err"
      and sl: "sleep (delay attempt err (w1, Suc n)) (w1, Suc n) = (None, (w2, Suc n))"
      using less.prems(2) [of _ w1 "Suc n"] by (metis prod.collapse snd_conv)
    have b: "attempt + 1 \<le> max 1 b" using less.prems(3) [of "(w, n)" err] fn err by force
    have "retry_loop p delay sleep fn (attempt + 1) (w2, Suc n) = (r, (w', n'))"
      using less.prems(6) fn err sl by (simp add: retry_loop.simps [of p delay sleep fn attempt])
    note run = this
    have "nat (max 1 b - (attempt + 1)) < nat (max 1 b - attempt)" using b by simp
    moreover have "1 \<le> attempt + 1" using less.prems(4) by simp
    ultimately have "Suc n < n' \<and> int (n' - Suc n) + (attempt + 1) \<le> max 1 b + 1"
      using less.hyps [of "attempt + 1" w2 "Suc n", OF _ less.prems(1,2) _ _ b run] less.prems(3) by blast
    then show ?thesis by linarith
  next
    case False
    then have "n' = Suc n" using less.prems(6) fn less.prems(2) [of _ w1 "Suc n"]
      by (auto simp: retry_loop.simps [of p delay sleep fn attempt] split: sum.splits if_splits prod.splits option.splits)
         (metis snd_conv)+
    then show ?thesis using less.prems(5) by simp
  qed
qed

text \<open>
  A request is tried at least once and at most \<open>MaxAttempts\<close> times in all, whatever the errors
  and the hints; a host that is not there is tried at most twice.  (\<open>do\<close> therefore always returns:
  the loop is a total function.)
\<close>

theorem retry_do_attempts:
  assumes "counts env fn" and "retry_do p env fn (w, n) = (r, (w', n'))"
  shows "n < n' \<and> int n' \<le> int n + rp_MaxAttempts (withDefaults p) \<and>
    ((\<forall>w e w'. fn w = (Inl e, w') \<longrightarrow> isDeadHost e) \<longrightarrow> n' \<le> n + 2)"
proof -
  let ?p = "withDefaults p"
  note fn = assms(1) [unfolded counts_def]
  note run = assms(2) [unfolded retry_do_def Let_def]
  have max: "0 < rp_MaxAttempts ?p" by (rule withDefaults_positive)
  have all: "n < n' \<and> int (n' - n) + 1 \<le> max 1 (rp_MaxAttempts ?p) + 1"
    by (rule retry_loop_calls [OF _ _ _ _ _ run]) (use fn budget_le in auto)
  have dead: "n' \<le> n + 2" if d: "\<And>w e w'. fn w = (Inl e, w') \<Longrightarrow> isDeadHost e"
  proof -
    have "budget_for ?p e \<le> 2" if "fn w = (Inl e, w')" for w e w'
      using d [OF that] by (simp add: budget_for_def deadHostAttempts_def)
    then have "n < n' \<and> int (n' - n) + 1 \<le> max 1 2 + 1"
      by (intro retry_loop_calls [OF _ _ _ _ _ run]) (use fn in auto)
    then show ?thesis by linarith
  qed
  have "int n' \<le> int n + rp_MaxAttempts ?p" using all max by linarith
  with all dead show ?thesis by blast
qed

theorem retry_do_attempts_witness:
  "\<exists>r w' n'. retry_do \<lparr>rp_MaxAttempts = 0, rp_BaseDelay = 0, rp_MaxDelay = 0, rp_Hints = [], rp_Host = []\<rparr>
      \<lparr>env_Now = \<lambda>w. 0, env_Jitter = \<lambda>w d. d, env_Hints = \<lambda>w. [], env_Sleep = \<lambda>d w. (None, w)\<rparr>
      (\<lambda>(w, n). (Inl ECONNREFUSED :: go_error + unit, (w, Suc n))) ((), 7) = (r, (w', n')) \<and> 7 < n' \<and> n' \<le> (9 :: nat)"
proof -
  let ?env = "\<lparr>env_Now = \<lambda>w. 0, env_Jitter = \<lambda>w d. d, env_Hints = \<lambda>w. [], env_Sleep = \<lambda>d w. (None, w)\<rparr>
    :: (unit \<times> nat) retry_env"
  let ?fn = "\<lambda>(w, n). (Inl ECONNREFUSED :: go_error + unit, (w, Suc n))"
  let ?p = "\<lparr>rp_MaxAttempts = 0, rp_BaseDelay = 0, rp_MaxDelay = 0, rp_Hints = [], rp_Host = []\<rparr>"
  have c: "counts ?env ?fn" by (simp add: counts_def)
  obtain r w' n' where run: "retry_do ?p ?env ?fn ((), 7) = (r, (w', n'))"
    by (metis prod.collapse)
  have "\<forall>w e w'. ?fn w = (Inl e, w') \<longrightarrow> isDeadHost e" by (auto simp: isDeadHost_def)
  with retry_do_attempts [OF c run] run show ?thesis by auto
qed

end
