(* ===== verification/Fetcher.thy ===== *)
theory Fetcher
  imports Retry
begin

text \<open>
  Fetching repository blocks by content identifier (\<open>reposync/fetcher.go\<close>): verification of a
  block against its CID, the XRPC fetcher, the block cache and the caching fetcher.  The interface
  every fetcher promises is the locale \<open>block_fetcher\<close>; both fetchers of the package interpret it.

  The CID and CAR libraries and the remote host are arguments: \<open>cid_lib\<close>, \<open>car_lib\<close> and the
  request function.
\<close>

section \<open>Libraries\<close>

record 'c cid_lib =
  cid_Version :: "'c \<Rightarrow> nat"
  multihash_Code :: "'c \<Rightarrow> go_error + nat"
  prefix_Sum :: "'c \<Rightarrow> bytes \<Rightarrow> go_error + 'c"

text \<open>\<open>car_ReadNodes\<close> is what repeated \<open>carutil.ReadNode\<close> calls on the rest of the stream
  yield: the blocks in order and the error that ends the sequence.\<close>

record 'c car_lib =
  car_ReadHeader :: "bytes \<Rightarrow> go_error + nat"
  car_ReadNodes :: "bytes \<Rightarrow> ('c \<times> bytes) list \<times> go_error"

definition SHA2_256 :: nat where "SHA2_256 = 18"

type_synonym ('c, 'w) get_blocks = "'c list \<Rightarrow> 'w \<Rightarrow> (go_error + ('c \<rightharpoonup> bytes)) \<times> 'w"

section \<open>Verification\<close>

definition VerifyBlock :: "'c cid_lib \<Rightarrow> 'c \<Rightarrow> bytes \<Rightarrow> go_error option" where
  "VerifyBlock L c data =
     (if cid_Version L c \<noteq> 1 then Some (WrapErr ''not a CIDv1'' [ErrBlockMismatch])
      else case multihash_Code L c of
        Inl e \<Rightarrow> Some (WrapErr ''undecodable multihash'' [ErrBlockMismatch, e])
      | Inr code \<Rightarrow>
          if code \<noteq> SHA2_256 then Some (WrapErr ''does not use sha2-256'' [ErrBlockMismatch])
          else case prefix_Sum L c data of
            Inl e \<Rightarrow> Some (WrapErr ''hashing'' [e])
          | Inr got \<Rightarrow>
              if got \<noteq> c then Some (WrapErr ''bytes hash to another CID'' [ErrBlockMismatch])
              else None)"

section \<open>The XRPC fetcher\<close>

definition DefaultChunkSize :: int where "DefaultChunkSize = 20"

fun dedupe_from :: "'c set \<Rightarrow> 'c list \<Rightarrow> 'c list" where
  "dedupe_from seen [] = []"
| "dedupe_from seen (c # cs) =
     (if c \<in> seen then dedupe_from seen cs else c # dedupe_from (insert c seen) cs)"

definition dedupeCIDs :: "'c list \<Rightarrow> 'c list" where
  "dedupeCIDs cs = dedupe_from {} cs"

definition put_all :: "('c \<times> bytes) list \<Rightarrow> ('c \<rightharpoonup> bytes)" where
  "put_all bs = foldl (\<lambda>m (c, d). m(c \<mapsto> d)) Map.empty bs"

definition parseCAR :: "'c car_lib \<Rightarrow> bytes \<Rightarrow> go_error + ('c \<rightharpoonup> bytes)" where
  "parseCAR L raw =
     (case car_ReadHeader L raw of
        Inl e \<Rightarrow> Inl (WrapErr ''parsing CAR header'' [e])
      | Inr version \<Rightarrow>
          if version \<noteq> 1 then Inl (WrapErr ''unsupported CAR version'' [])
          else case car_ReadNodes L raw of (nodes, err) \<Rightarrow>
            if errors_Is err ioEOF then Inr (put_all nodes)
            else Inl (WrapErr ''reading CAR block'' [err]))"

text \<open>The inner loop over one chunk: every CID asked for must be there and must verify.\<close>

fun take_verified ::
  "'c cid_lib \<Rightarrow> ('c \<rightharpoonup> bytes) \<Rightarrow> 'c list \<Rightarrow> ('c \<rightharpoonup> bytes) \<Rightarrow> go_error + ('c \<rightharpoonup> bytes)" where
  "take_verified L blocks [] out = Inr out"
| "take_verified L blocks (c # cs) out =
     (case blocks c of
        None \<Rightarrow> Inl (WrapErr ''from host'' [ErrMissingBlock])
      | Some data \<Rightarrow>
          (case VerifyBlock L c data of
             Some e \<Rightarrow> Inl (WrapErr ''block from host'' [e])
           | None \<Rightarrow> take_verified L blocks cs (out(c \<mapsto> data))))"

text \<open>The loop over chunks of \<open>Suc n\<close> CIDs.  \<open>request\<close> is \<open>retry.do\<close> around
  \<open>com.atproto.sync.getBlocks\<close>.\<close>

function fetch_chunks ::
  "'c cid_lib \<Rightarrow> 'c car_lib \<Rightarrow> ('c list \<Rightarrow> 'w \<Rightarrow> (go_error + bytes) \<times> 'w) \<Rightarrow> nat \<Rightarrow>
   'c list \<Rightarrow> ('c \<rightharpoonup> bytes) \<Rightarrow> 'w \<Rightarrow> (go_error + ('c \<rightharpoonup> bytes)) \<times> 'w" where
  "fetch_chunks L C request n want out w =
     (if want = [] then (Inr out, w)
      else let batch = take (Suc n) want in
        case request batch w of
          (Inl e, w1) \<Rightarrow> (Inl (WrapErr ''com.atproto.sync.getBlocks'' [e]), w1)
        | (Inr raw, w1) \<Rightarrow>
            (case parseCAR C raw of
               Inl e \<Rightarrow> (Inl (WrapErr ''com.atproto.sync.getBlocks'' [e]), w1)
             | Inr blocks \<Rightarrow>
                 (case take_verified L blocks batch out of
                    Inl e \<Rightarrow> (Inl e, w1)
                  | Inr out1 \<Rightarrow> fetch_chunks L C request n (drop (Suc n) want) out1 w1)))"
  by pat_completeness auto
termination
  by (relation "measure (\<lambda>(L, C, request, n, want, out, w). length want)") auto

declare fetch_chunks.simps [simp del]

record ('c, 'w) XRPCBlockFetcher =
  xf_Host :: string
  xf_ChunkSize :: int
  xf_Retry :: RetryPolicy
  xf_SyncGetBlocks :: "'c list \<Rightarrow> 'w \<Rightarrow> (go_error + bytes) \<times> 'w"
  xf_env :: "'w retry_env"

definition XRPC_GetBlocks ::
  "'c cid_lib \<Rightarrow> 'c car_lib \<Rightarrow> ('c, 'w) XRPCBlockFetcher \<Rightarrow> ('c, 'w) get_blocks" where
  "XRPC_GetBlocks L C f cids w =
     (let want = dedupeCIDs cids;
          chunk = (if xf_ChunkSize f \<le> 0 then DefaultChunkSize else xf_ChunkSize f);
          retry = forHost (xf_Retry f) (xf_Host f)
      in fetch_chunks L C
           (\<lambda>batch. retry_do retry (xf_env f) (xf_SyncGetBlocks f batch))
           (nat (chunk - 1)) want Map.empty w)"

section \<open>The block cache\<close>

record ('c, 'k) BlockCache =
  bc_Get :: "'c \<Rightarrow> 'k \<Rightarrow> go_error + bytes option"
  bc_Put :: "'c \<Rightarrow> bytes \<Rightarrow> 'k \<Rightarrow> go_error + 'k"

type_synonym 'c mem_blocks = "'c \<rightharpoonup> bytes"

definition NewMemoryBlockCache :: "'c mem_blocks" where
  "NewMemoryBlockCache = Map.empty"

definition Memory_Get :: "'c \<Rightarrow> 'c mem_blocks \<Rightarrow> go_error + bytes option" where
  "Memory_Get c m = Inr (m c)"

definition Memory_Put :: "'c \<Rightarrow> bytes \<Rightarrow> 'c mem_blocks \<Rightarrow> go_error + 'c mem_blocks" where
  "Memory_Put c data m = Inr (m(c \<mapsto> data))"

definition MemoryBlockCache :: "('c, 'c mem_blocks) BlockCache" where
  "MemoryBlockCache = \<lparr>bc_Get = Memory_Get, bc_Put = Memory_Put\<rparr>"

section \<open>The caching fetcher\<close>

fun cache_lookup ::
  "'c cid_lib \<Rightarrow> ('c, 'k) BlockCache \<Rightarrow> 'k \<Rightarrow> 'c list \<Rightarrow> ('c \<rightharpoonup> bytes) \<Rightarrow> 'c list \<Rightarrow>
   go_error + ('c \<rightharpoonup> bytes) \<times> 'c list" where
  "cache_lookup L K k [] out miss = Inr (out, miss)"
| "cache_lookup L K k (c # cs) out miss =
     (case bc_Get K c k of
        Inl e \<Rightarrow> Inl (WrapErr ''block cache get'' [e])
      | Inr None \<Rightarrow> cache_lookup L K k cs out (miss @ [c])
      | Inr (Some data) \<Rightarrow>
          if VerifyBlock L c data \<noteq> None then cache_lookup L K k cs out (miss @ [c])
          else cache_lookup L K k cs (out(c \<mapsto> data)) miss)"

fun cache_store ::
  "('c, 'k) BlockCache \<Rightarrow> ('c \<rightharpoonup> bytes) \<Rightarrow> 'c list \<Rightarrow> ('c \<rightharpoonup> bytes) \<Rightarrow> 'k \<Rightarrow>
   (go_error + ('c \<rightharpoonup> bytes)) \<times> 'k" where
  "cache_store K fetched [] out k = (Inr out, k)"
| "cache_store K fetched (c # cs) out k =
     (case fetched c of
        None \<Rightarrow> (Inl (WrapErr ''cached fetch'' [ErrMissingBlock]), k)
      | Some data \<Rightarrow>
          (case bc_Put K c data k of
             Inl e \<Rightarrow> (Inl (WrapErr ''block cache put'' [e]), k)
           | Inr k1 \<Rightarrow> cache_store K fetched cs (out(c \<mapsto> data)) k1))"

definition Cached_GetBlocks ::
  "'c cid_lib \<Rightarrow> ('c, 'k) BlockCache \<Rightarrow> ('c, 'w) get_blocks \<Rightarrow> ('c, 'w \<times> 'k) get_blocks" where
  "Cached_GetBlocks L K inner cids s =
     (case s of (w, k) \<Rightarrow>
        (case cache_lookup L K k (dedupeCIDs cids) Map.empty [] of
           Inl e \<Rightarrow> (Inl e, (w, k))
         | Inr (out, miss) \<Rightarrow>
             if miss = [] then (Inr out, (w, k))
             else case inner miss w of
                    (Inl e, w1) \<Rightarrow> (Inl e, (w1, k))
                  | (Inr fetched, w1) \<Rightarrow>
                      (case cache_store K fetched miss out k of (r, k1) \<Rightarrow> (r, (w1, k1)))))"

text \<open>\<open>pdsLockedFetcher\<close> holds the host's lock across the call and changes nothing else; the
  lock is a mutex of this process, and in a sequential run it is a pair of no-ops.\<close>

definition PdsLocked_GetBlocks :: "('c, 'w) get_blocks \<Rightarrow> ('c, 'w) get_blocks" where
  "PdsLocked_GetBlocks inner cids w = inner cids w"

section \<open>Verification accepts only a pre-image\<close>

lemma VerifyBlock_None:
  "VerifyBlock L c data = None \<longleftrightarrow>
     cid_Version L c = 1 \<and> multihash_Code L c = Inr SHA2_256 \<and> prefix_Sum L c data = Inr c"
  by (auto simp: VerifyBlock_def split: sum.splits)

section \<open>Lists of identifiers\<close>

lemma set_dedupe_from: "set (dedupe_from seen cs) = set cs - seen"
  by (induction seen cs rule: dedupe_from.induct) auto

lemma distinct_dedupe_from: "distinct (dedupe_from seen cs)"
  by (induction seen cs rule: dedupe_from.induct) (auto simp: set_dedupe_from)

lemma dedupeCIDs_set [simp]: "set (dedupeCIDs cs) = set cs"
  by (simp add: dedupeCIDs_def set_dedupe_from)

lemma dedupeCIDs_distinct [simp]: "distinct (dedupeCIDs cs)"
  by (simp add: dedupeCIDs_def distinct_dedupe_from)

section \<open>The fetcher contract\<close>

text \<open>
  What \<open>BlockFetcher\<close> requires of an implementation: when it answers, every requested CID is in
  the answer with bytes that verify.  \<open>verified\<close> is the verification predicate.
\<close>

locale block_fetcher =
  fixes getBlocks :: "('c, 'w) get_blocks"
    and verified :: "'c \<Rightarrow> bytes \<Rightarrow> bool"
  assumes answers: "getBlocks cs w = (Inr m, w') \<Longrightarrow> c \<in> set cs \<Longrightarrow> \<exists>d. m c = Some d \<and> verified c d"
begin

lemma answered:
  assumes "getBlocks cs w = (Inr m, w')" and "c \<in> set cs" and "m c = Some d"
  shows "verified c d"
  using answers [OF assms(1,2)] assms(3) by auto

lemma never_partial: "getBlocks cs w = (Inr m, w') \<Longrightarrow> set cs \<subseteq> dom m"
  using answers by fastforce

end

subsection \<open>The XRPC fetcher keeps the contract\<close>

lemma take_verified_Inr:
  assumes "take_verified L blocks cs out = Inr out'"
  shows "(\<forall>c\<in>set cs. \<exists>d. out' c = Some d \<and> VerifyBlock L c d = None)
    \<and> (\<forall>c. c \<notin> set cs \<longrightarrow> out' c = out c)"
  using assms
proof (induction L blocks cs out rule: take_verified.induct)
  case (1 L blocks out)
  then show ?case by simp
next
  case (2 L blocks c cs out)
  then obtain data where d: "blocks c = Some data" "VerifyBlock L c data = None"
    and rest: "take_verified L blocks cs (out(c \<mapsto> data)) = Inr out'"
    by (auto split: option.splits)
  have IH: "(\<forall>x\<in>set cs. \<exists>d. out' x = Some d \<and> VerifyBlock L x d = None)
      \<and> (\<forall>x. x \<notin> set cs \<longrightarrow> out' x = (out(c \<mapsto> data)) x)"
    using "2.IH" [OF d rest] .
  then show ?case using d by (cases "c \<in> set cs") auto
qed

lemma fetch_chunks_Inr:
  assumes "fetch_chunks L C request n want out w = (Inr m, w')" and "distinct want"
  shows "(\<forall>c\<in>set want. \<exists>d. m c = Some d \<and> VerifyBlock L c d = None)
    \<and> (\<forall>c. c \<notin> set want \<longrightarrow> m c = out c)"
  using assms
proof (induction L C request n want out w rule: fetch_chunks.induct)
  case (1 L C request n want out w)
  show ?case
  proof (cases "want = []")
    case True
    then have "m = out" using "1.prems"(1) by (simp add: fetch_chunks.simps)
    with True show ?thesis by simp
  next
    case False
    let ?batch = "take (Suc n) want"
    obtain raw w1 blocks out1 where req: "request ?batch w = (Inr raw, w1)"
      and car: "parseCAR C raw = Inr blocks" and tv: "take_verified L blocks ?batch out = Inr out1"
      and rest: "fetch_chunks L C request n (drop (Suc n) want) out1 w1 = (Inr m, w')"
      using "1.prems"(1) False
      by (auto simp: fetch_chunks.simps [of L C request n want] Let_def split: prod.splits sum.splits)
    have IH: "(\<forall>c\<in>set (drop (Suc n) want). \<exists>d. m c = Some d \<and> VerifyBlock L c d = None)
        \<and> (\<forall>c. c \<notin> set (drop (Suc n) want) \<longrightarrow> m c = out1 c)"
      using "1.IH" [OF False refl req [symmetric] refl car tv rest] "1.prems"(2) by simp
    have split: "set want = set ?batch \<union> set (drop (Suc n) want)"
      by (metis append_take_drop_id set_append)
    show ?thesis using IH take_verified_Inr [OF tv] unfolding split by fastforce
  qed
qed

lemma XRPC_answers:
  assumes "XRPC_GetBlocks L C f cs w = (Inr m, w')" and "c \<in> set cs"
  shows "\<exists>d. m c = Some d \<and> VerifyBlock L c d = None"
  using fetch_chunks_Inr [OF assms(1) [unfolded XRPC_GetBlocks_def Let_def]] assms(2) by simp

interpretation xrpc: block_fetcher "XRPC_GetBlocks L C f" "\<lambda>c d. VerifyBlock L c d = None"
  for L C f
  by unfold_locales (rule XRPC_answers)

subsection \<open>The cache contract and the caching fetcher\<close>

text \<open>A block cache returns what was stored: a hit after a \<open>Put\<close> is the bytes that were put, and
  other entries are untouched.\<close>

locale block_cache =
  fixes K :: "('c, 'k) BlockCache"
    and view :: "'k \<Rightarrow> ('c \<rightharpoonup> bytes)"
  assumes get_view: "bc_Get K c k = Inr r \<Longrightarrow> r = view k c"
    and put_view: "bc_Put K c d k = Inr k' \<Longrightarrow> view k' = (view k)(c \<mapsto> d)"
begin

lemma get_put: "bc_Put K c d k = Inr k' \<Longrightarrow> bc_Get K c k' = Inr r \<Longrightarrow> r = Some d"
  using get_view put_view by fastforce

lemma store_view:
  "cache_store K fetched cs out k = (Inr out', k') \<Longrightarrow>
     view k' = view k ++ (fetched |` set cs)"
proof (induction cs arbitrary: out k)
  case Nil
  then show ?case by simp
next
  case (Cons c cs)
  then obtain d k1 where d: "fetched c = Some d" "bc_Put K c d k = Inr k1"
    and rest: "cache_store K fetched cs (out(c \<mapsto> d)) k1 = (Inr out', k')"
    by (auto split: option.splits sum.splits)
  have "view k' = (view k)(c \<mapsto> d) ++ (fetched |` set cs)"
    using Cons.IH [OF rest] by (simp only: put_view [OF d(2)])
  also have "\<dots> = view k ++ (fetched |` set (c # cs))"
    using d(1) by (auto simp: map_add_def restrict_map_def split: option.split)
  finally show ?case .
qed

end

interpretation mem: block_cache MemoryBlockCache "\<lambda>m. m"
  by unfold_locales (simp_all add: MemoryBlockCache_def Memory_Get_def Memory_Put_def)

lemma cache_lookup_Inr:
  assumes "cache_lookup L K k cs out miss = Inr (out', miss')"
  shows "(\<forall>c\<in>set cs. c \<in> set miss' \<or> (\<exists>d. out' c = Some d \<and> VerifyBlock L c d = None))
    \<and> set miss \<subseteq> set miss' \<and> set miss' \<subseteq> set miss \<union> set cs
    \<and> (\<forall>c. c \<notin> set cs \<longrightarrow> out' c = out c)"
  using assms
proof (induction cs arbitrary: out miss)
  case Nil
  then show ?case by simp
next
  case (Cons c cs)
  show ?case
  proof (cases "\<exists>d. bc_Get K c k = Inr (Some d) \<and> VerifyBlock L c d = None")
    case True
    then obtain d where d: "bc_Get K c k = Inr (Some d)" "VerifyBlock L c d = None" by blast
    with Cons.prems have "cache_lookup L K k cs (out(c \<mapsto> d)) miss = Inr (out', miss')" by simp
    from Cons.IH [OF this] d(2) show ?thesis by (cases "c \<in> set cs") auto
  next
    case False
    with Cons.prems have "cache_lookup L K k cs out (miss @ [c]) = Inr (out', miss')"
      by (auto split: sum.splits option.splits if_splits)
    from Cons.IH [OF this] show ?thesis by auto
  qed
qed

lemma cache_store_Inr:
  "cache_store K fetched cs out k = (Inr out', k') \<Longrightarrow>
     set cs \<subseteq> dom fetched \<and> out' x = (if x \<in> set cs then fetched x else out x)"
proof (induction cs arbitrary: out k)
  case Nil
  then show ?case by simp
next
  case (Cons c cs)
  then obtain d k1 where d: "fetched c = Some d"
    and rest: "cache_store K fetched cs (out(c \<mapsto> d)) k1 = (Inr out', k')"
    by (auto split: option.splits sum.splits)
  from Cons.IH [OF rest] d show ?case by (simp add: domI)
qed

text \<open>The caching fetcher keeps the contract over any inner fetcher that keeps it, whatever the
  cache holds: a hit is verified again, a miss is answered by the inner fetcher.\<close>

lemma Cached_answers:
  assumes "Cached_GetBlocks L K inner cs s = (Inr m, s')" and "c \<in> set cs"
    and inner: "\<And>ms w fetched w' x. inner ms w = (Inr fetched, w') \<Longrightarrow> x \<in> set ms \<Longrightarrow>
      \<exists>d. fetched x = Some d \<and> VerifyBlock L x d = None"
  shows "\<exists>d. m c = Some d \<and> VerifyBlock L c d = None"
proof -
  obtain w k where s: "s = (w, k)" by (cases s)
  obtain out miss where lk: "cache_lookup L K k (dedupeCIDs cs) Map.empty [] = Inr (out, miss)"
    using assms(1) s by (auto simp: Cached_GetBlocks_def split: sum.splits)
  note look = cache_lookup_Inr [OF lk]
  show ?thesis
  proof (cases "miss = []")
    case True
    then have "m = out" using assms(1) s lk by (simp add: Cached_GetBlocks_def)
    then show ?thesis using look True assms(2) by auto
  next
    case False
    then obtain fetched w1 k1 where f: "inner miss w = (Inr fetched, w1)"
      and st: "cache_store K fetched miss out k = (Inr m, k1)"
      using assms(1) s lk by (auto simp: Cached_GetBlocks_def split: sum.splits prod.splits)
    show ?thesis
    proof (cases "c \<in> set miss")
      case True
      with cache_store_Inr [OF st] inner [OF f] show ?thesis by simp
    next
      case False
      with look assms(2) obtain d where "out c = Some d" "VerifyBlock L c d = None" by auto
      with False cache_store_Inr [OF st] show ?thesis by simp
    qed
  qed
qed

locale layered_fetcher = block_fetcher inner "\<lambda>c d. VerifyBlock L c d = None"
  for L :: "'c cid_lib" and inner :: "('c, 'w) get_blocks"
begin

lemma cached_contract:
  "Cached_GetBlocks L K inner cs s = (Inr m, s') \<Longrightarrow> c \<in> set cs \<Longrightarrow>
     \<exists>d. m c = Some d \<and> VerifyBlock L c d = None"
  using Cached_answers [of L K inner cs s m s' c] answers by simp

end

text \<open>The fetcher a backfill runs on: the cache over the host's lock over XRPC.\<close>

definition walk_fetcher ::
  "'c cid_lib \<Rightarrow> 'c car_lib \<Rightarrow> ('c, 'w) XRPCBlockFetcher \<Rightarrow> ('c, 'w \<times> 'c mem_blocks) get_blocks" where
  "walk_fetcher L C f = Cached_GetBlocks L MemoryBlockCache (PdsLocked_GetBlocks (XRPC_GetBlocks L C f))"

interpretation locked: layered_fetcher L "PdsLocked_GetBlocks (XRPC_GetBlocks L C f)"
  for L C f
  by unfold_locales (simp add: PdsLocked_GetBlocks_def xrpc.answers)

interpretation walkf: block_fetcher "walk_fetcher L C f" "\<lambda>c d. VerifyBlock L c d = None"
  for L C f
  by unfold_locales (simp add: walk_fetcher_def locked.cached_contract)

end
