(* ===== verification/Walker.thy ===== *)
theory Walker
  imports KeyRanges Fetcher "HOL-Library.AList_Mapping"
begin

text \<open>
  The range-bounded walk of a repository's Merkle search tree (\<open>reposync/walk.go\<close>,
  \<open>reposync/collect.go\<close>): the frontier, one step, the loop of \<open>Resume\<close>, and the entry points.

  The decoder of a node block belongs to the MST library and is the argument \<open>node\<close>: it gives the
  entries of the node, each a child pointer, a value or neither.  \<open>'w\<close> is the world behind the
  fetcher and the context, \<open>'v\<close> the state behind the visitor and the checkpoint.

  The reference is a tree of items with its records in key order.  A frontier stands for the items
  it has not resolved, and each step is shown to move a run of records from the frontier to the
  visitor.
\<close>

section \<open>Nodes and frontiers\<close>

datatype 'c node_entry =
    ChildEntry "'c option"
  | ValueEntry bytes 'c
  | NeitherEntry

type_synonym 'c node_decoder = "'c \<Rightarrow> bytes \<Rightarrow> go_error + 'c node_entry list"

record 'c pendingEntry =
  pe_CID :: 'c
  pe_Key :: "bytes option"
  pe_Lo :: "bytes option"
  pe_Hi :: "bytes option"

definition isRecord :: "'c pendingEntry \<Rightarrow> bool" where
  "isRecord p \<longleftrightarrow> pe_Key p \<noteq> None"

record 'c Frontier =
  fr_Root :: 'c
  fr_Ranges :: "KeyRange list"
  fr_Pending :: "'c pendingEntry list"

definition Done :: "'c Frontier \<Rightarrow> bool" where
  "Done fr \<longleftrightarrow> fr_Pending fr = []"

section \<open>Expanding a node\<close>

definition key_error :: "bytes option \<Rightarrow> 'c pendingEntry \<Rightarrow> bytes \<Rightarrow> go_error option" where
  "key_error prevKey p key =
     (if (case prevKey of None \<Rightarrow> False | Some k \<Rightarrow> key \<le> k)
        then Some (WrapErr ''key does not sort after'' [ErrInvalidNode])
      else if (case pe_Lo p of None \<Rightarrow> False | Some k \<Rightarrow> key \<le> k)
        then Some (WrapErr ''key below inherited bound'' [ErrInvalidNode])
      else if (case pe_Hi p of None \<Rightarrow> False | Some k \<Rightarrow> k \<le> key)
        then Some (WrapErr ''key above inherited bound'' [ErrInvalidNode])
      else None)"

definition child_hi :: "'c pendingEntry \<Rightarrow> 'c node_entry list \<Rightarrow> bytes option" where
  "child_hi p es = (case es of ValueEntry k v # _ \<Rightarrow> Some k | _ \<Rightarrow> pe_Hi p)"

text \<open>The loop over the entries of a node: \<open>lo\<close> and \<open>prevKey\<close> are its variables.\<close>

fun expand_entries ::
  "KeyRange list \<Rightarrow> 'c pendingEntry \<Rightarrow> bytes option \<Rightarrow> bytes option \<Rightarrow> 'c node_entry list \<Rightarrow>
   go_error + 'c pendingEntry list" where
  "expand_entries R p lo prevKey [] = Inr []"
| "expand_entries R p lo prevKey (ChildEntry None # es) =
     Inl (WrapErr ''entry is a child with no CID'' [ErrInvalidNode])"
| "expand_entries R p lo prevKey (ChildEntry (Some c) # es) =
     (let hi = child_hi p es in
      bind_res (expand_entries R p lo prevKey es) (\<lambda>out.
        Inr ((if rangesIntersectSubtree R lo hi
              then [\<lparr>pe_CID = c, pe_Key = None, pe_Lo = lo, pe_Hi = hi\<rparr>] else []) @ out)))"
| "expand_entries R p lo prevKey (NeitherEntry # es) =
     Inl (WrapErr ''entry is neither value nor child'' [ErrInvalidNode])"
| "expand_entries R p lo prevKey (ValueEntry key v # es) =
     (case key_error prevKey p key of
        Some e \<Rightarrow> Inl e
      | None \<Rightarrow>
          bind_res (expand_entries R p (Some key) (Some key) es) (\<lambda>out.
            Inr ((if rangesContain R key
                  then [\<lparr>pe_CID = v, pe_Key = Some key, pe_Lo = None, pe_Hi = None\<rparr>]
                  else []) @ out)))"

definition expandNode ::
  "'c node_decoder \<Rightarrow> 'c pendingEntry \<Rightarrow> bytes \<Rightarrow> KeyRange list \<Rightarrow> go_error + 'c pendingEntry list" where
  "expandNode node p data R =
     (case node (pe_CID p) data of
        Inl e \<Rightarrow> Inl (WrapErr ''invalid MST node'' [ErrInvalidNode, e])
      | Inr es \<Rightarrow> expand_entries R p (pe_Lo p) None es)"

section \<open>One step\<close>

definition DefaultBatchSize :: int where "DefaultBatchSize = 50"

type_synonym ('c, 'v) visitor = "bytes \<Rightarrow> 'c \<Rightarrow> bytes \<Rightarrow> 'v \<Rightarrow> go_error option \<times> 'v"

record ('c, 'w, 'v) Walker =
  wk_GetBlocks :: "('c, 'w) get_blocks"
  wk_BatchSize :: int
  wk_Checkpoint :: "('c Frontier \<Rightarrow> 'v \<Rightarrow> go_error option \<times> 'v) option"

text \<open>The loop that replaces the subtrees of the head of the frontier by their children.\<close>

fun expand_head ::
  "'c node_decoder \<Rightarrow> KeyRange list \<Rightarrow> ('c \<rightharpoonup> bytes) \<Rightarrow> 'c pendingEntry list \<Rightarrow>
   go_error + 'c pendingEntry list" where
  "expand_head node R blocks [] = Inr []"
| "expand_head node R blocks (p # ps) =
     (if isRecord p then bind_res (expand_head node R blocks ps) (\<lambda>out. Inr (p # out))
      else case blocks (pe_CID p) of
        None \<Rightarrow> Inl (WrapErr ''MST node'' [ErrMissingBlock])
      | Some data \<Rightarrow>
          bind_res (expandNode node p data R) (\<lambda>children.
            bind_res (expand_head node R blocks ps) (\<lambda>out. Inr (children @ out))))"

definition resolve_head ::
  "'c node_decoder \<Rightarrow> ('c, 'w, 'v) Walker \<Rightarrow> KeyRange list \<Rightarrow> 'c pendingEntry list \<Rightarrow> 'w \<Rightarrow>
   (go_error + 'c pendingEntry list) \<times> 'w" where
  "resolve_head node W R head w =
     (let nodeCIDs = map pe_CID (filter (\<lambda>p. \<not> isRecord p) head) in
      if nodeCIDs = [] then (Inr head, w)
      else case wk_GetBlocks W nodeCIDs w of
        (Inl e, w1) \<Rightarrow> (Inl (WrapErr ''fetching MST nodes'' [e]), w1)
      | (Inr blocks, w1) \<Rightarrow> (expand_head node R blocks head, w1))"

fun visit_all ::
  "('c, 'v) visitor \<Rightarrow> ('c \<rightharpoonup> bytes) \<Rightarrow> 'c pendingEntry list \<Rightarrow> 'v \<Rightarrow> go_error option \<times> 'v" where
  "visit_all visit blocks [] v = (None, v)"
| "visit_all visit blocks (p # ps) v =
     (case blocks (pe_CID p) of
        None \<Rightarrow> (Some (WrapErr ''record'' [ErrMissingBlock]), v)
      | Some data \<Rightarrow>
          (case visit (the (pe_Key p)) (pe_CID p) data v of
             (Some e, v1) \<Rightarrow> (Some (WrapErr ''visiting'' [e]), v1)
           | (None, v1) \<Rightarrow> visit_all visit blocks ps v1))"

definition emit_records ::
  "('c, 'w, 'v) Walker \<Rightarrow> ('c, 'v) visitor \<Rightarrow> 'c pendingEntry list \<Rightarrow> 'w \<Rightarrow> 'v \<Rightarrow>
   go_error option \<times> 'w \<times> 'v" where
  "emit_records W visit emit w v =
     (if emit = [] then (None, w, v)
      else case wk_GetBlocks W (map pe_CID emit) w of
        (Inl e, w1) \<Rightarrow> (Some (WrapErr ''fetching records'' [e]), w1, v)
      | (Inr blocks, w1) \<Rightarrow>
          (case visit_all visit blocks emit v of (e, v1) \<Rightarrow> (e, w1, v1)))"

definition batch_of :: "('c, 'w, 'v) Walker \<Rightarrow> nat" where
  "batch_of W = nat (if wk_BatchSize W \<le> 0 then DefaultBatchSize else wk_BatchSize W)"

definition step ::
  "'c node_decoder \<Rightarrow> ('c, 'w, 'v) Walker \<Rightarrow> ('c, 'v) visitor \<Rightarrow> 'c Frontier \<Rightarrow> 'w \<Rightarrow> 'v \<Rightarrow>
   go_error option \<times> 'c Frontier \<times> 'w \<times> 'v" where
  "step node W visit fr w v =
     (let head0 = take (batch_of W) (fr_Pending fr);
          rest = drop (batch_of W) (fr_Pending fr)
      in case resolve_head node W (fr_Ranges fr) head0 w of
        (Inl e, w1) \<Rightarrow> (Some e, fr, w1, v)
      | (Inr head, w1) \<Rightarrow>
          (let emit = takeWhile isRecord head;
               next = dropWhile isRecord head @ rest
           in case emit_records W visit emit w1 v of
             (Some e, w2, v1) \<Rightarrow> (Some e, fr, w2, v1)
           | (None, w2, v1) \<Rightarrow>
               (case wk_Checkpoint W of
                  None \<Rightarrow> (None, fr\<lparr>fr_Pending := next\<rparr>, w2, v1)
                | Some checkpoint \<Rightarrow>
                    (case checkpoint (fr\<lparr>fr_Pending := next\<rparr>) v1 of
                       (Some e, v2) \<Rightarrow> (Some (WrapErr ''checkpointing frontier'' [e]), fr, w2, v2)
                     | (None, v2) \<Rightarrow> (None, fr\<lparr>fr_Pending := next\<rparr>, w2, v2)))))"

section \<open>The walk\<close>

partial_function (option) resume_loop ::
  "('w \<Rightarrow> go_error option) \<Rightarrow> 'c node_decoder \<Rightarrow> ('c, 'w, 'v) Walker \<Rightarrow> ('c, 'v) visitor \<Rightarrow>
   'c Frontier \<Rightarrow> 'w \<Rightarrow> 'v \<Rightarrow> (go_error option \<times> 'c Frontier \<times> 'w \<times> 'v) option" where
  "resume_loop ctx_Err node W visit fr w v =
     (if Done fr then Some (None, fr, w, v)
      else case ctx_Err w of
        Some e \<Rightarrow> Some (Some e, fr, w, v)
      | None \<Rightarrow>
          (case step node W visit fr w v of
             (Some e, fr1, w1, v1) \<Rightarrow> Some (Some e, fr1, w1, v1)
           | (None, fr1, w1, v1) \<Rightarrow> resume_loop ctx_Err node W visit fr1 w1 v1))"

declare resume_loop.simps [code]

text \<open>\<open>Resume\<close>; the frontier is a pointer in the source and \<open>None\<close> is the nil pointer.\<close>

definition Resume ::
  "('w \<Rightarrow> go_error option) \<Rightarrow> 'c node_decoder \<Rightarrow> ('c, 'w, 'v) Walker \<Rightarrow> ('c, 'v) visitor \<Rightarrow>
   'c Frontier option \<Rightarrow> 'w \<Rightarrow> 'v \<Rightarrow> (go_error option \<times> 'c Frontier option \<times> 'w \<times> 'v) option" where
  "Resume ctx_Err node W visit frp w v =
     (case frp of
        None \<Rightarrow> Some (Some (WrapErr ''nil frontier'' []), None, w, v)
      | Some fr \<Rightarrow>
          if fr_Ranges fr = [] then Some (Some (WrapErr ''frontier has no key ranges'' []), frp, w, v)
          else map_option (\<lambda>(e, fr1, w1, v1). (e, Some fr1, w1, v1))
                 (resume_loop ctx_Err node W visit fr w v))"

definition range_go_error :: "range_error \<Rightarrow> go_error" where
  "range_go_error e =
     (case e of NoRanges \<Rightarrow> WrapErr ''no key ranges given'' []
      | InvertedRange r \<Rightarrow> WrapErr ''empty or inverted key range'' [])"

definition WalkRanges ::
  "('w \<Rightarrow> go_error option) \<Rightarrow> 'c node_decoder \<Rightarrow> ('c, 'w, 'v) Walker \<Rightarrow> 'c \<Rightarrow> KeyRange list \<Rightarrow>
   ('c, 'v) visitor \<Rightarrow> 'w \<Rightarrow> 'v \<Rightarrow> (go_error option \<times> 'w \<times> 'v) option" where
  "WalkRanges ctx_Err node W root ranges visit w v =
     (case normalizeRanges ranges of
        Inl e \<Rightarrow> Some (Some (range_go_error e), w, v)
      | Inr norm \<Rightarrow>
          map_option (\<lambda>(e, fr, w1, v1). (e, w1, v1))
            (Resume ctx_Err node W visit
               (Some \<lparr>fr_Root = root, fr_Ranges = norm,
                  fr_Pending = [\<lparr>pe_CID = root, pe_Key = None, pe_Lo = None, pe_Hi = None\<rparr>]\<rparr>) w v))"

definition WalkPrefix ::
  "('w \<Rightarrow> go_error option) \<Rightarrow> 'c node_decoder \<Rightarrow> ('c, 'w, 'v) Walker \<Rightarrow> 'c \<Rightarrow> string \<Rightarrow>
   ('c, 'v) visitor \<Rightarrow> 'w \<Rightarrow> 'v \<Rightarrow> (go_error option \<times> 'w \<times> 'v) option" where
  "WalkPrefix ctx_Err node W root pfx visit w v =
     WalkRanges ctx_Err node W root [PrefixRange pfx] visit w v"

section \<open>Collections and their differences\<close>

definition collect_visit :: "('c, (bytes, 'c) mapping) visitor" where
  "collect_visit path rcid rec out = (None, Mapping.update path rcid out)"

definition CollectRanges ::
  "('w \<Rightarrow> go_error option) \<Rightarrow> 'c node_decoder \<Rightarrow> ('c, 'w, (bytes, 'c) mapping) Walker \<Rightarrow> 'c \<Rightarrow>
   KeyRange list \<Rightarrow> 'w \<Rightarrow> ((go_error + (bytes, 'c) mapping) \<times> 'w) option" where
  "CollectRanges ctx_Err node W root ranges w =
     map_option (\<lambda>(e, w1, out). (case e of Some err \<Rightarrow> Inl err | None \<Rightarrow> Inr out, w1))
       (WalkRanges ctx_Err node W root ranges collect_visit w Mapping.empty)"

definition CollectPrefix ::
  "('w \<Rightarrow> go_error option) \<Rightarrow> 'c node_decoder \<Rightarrow> ('c, 'w, (bytes, 'c) mapping) Walker \<Rightarrow> 'c \<Rightarrow>
   string \<Rightarrow> 'w \<Rightarrow> ((go_error + (bytes, 'c) mapping) \<times> 'w) option" where
  "CollectPrefix ctx_Err node W root pfx w =
     CollectRanges ctx_Err node W root [PrefixRange pfx] w"

record Diff =
  df_Created :: "bytes list"
  df_Updated :: "bytes list"
  df_Deleted :: "bytes list"

definition Diff_Empty :: "Diff \<Rightarrow> bool" where
  "Diff_Empty d \<longleftrightarrow> df_Created d = [] \<and> df_Updated d = [] \<and> df_Deleted d = []"

text \<open>The source ranges over the maps in any order and sorts the three lists at the end; the keys
  of a map are distinct, so filtering the sorted keys gives the same lists.\<close>

definition DiffCollections :: "(bytes, 'c) mapping \<Rightarrow> (bytes, 'c) mapping \<Rightarrow> Diff" where
  "DiffCollections prev cur =
     \<lparr>df_Created = filter (\<lambda>p. Mapping.lookup prev p = None) (Mapping.ordered_keys cur),
      df_Updated = filter (\<lambda>p. Mapping.lookup prev p \<noteq> None
                      \<and> Mapping.lookup prev p \<noteq> Mapping.lookup cur p) (Mapping.ordered_keys cur),
      df_Deleted = filter (\<lambda>p. Mapping.lookup cur p = None) (Mapping.ordered_keys prev)\<rparr>"

section \<open>Frontiers as JSON\<close>

text \<open>
  The document \<open>encoding/json\<close> produces from the data transfer structs: a nil slice of bytes is
  \<open>null\<close>, any other is a base64 string (\<open>JBytes\<close> here), and a field tagged \<open>omitempty\<close> is left
  out when its slice is empty.  A missing field decodes to nil.  \<open>cid_String\<close> and
  \<open>cid_Decode\<close> are the CID library's.
\<close>

datatype json = JNull | JString string | JBytes bytes | JArray "json list" | JObject "(string \<times> json) list"

definition json_bytes :: "bytes option \<Rightarrow> json" where
  "json_bytes b = (case b of None \<Rightarrow> JNull | Some x \<Rightarrow> JBytes x)"

definition omitempty :: "string \<Rightarrow> bytes option \<Rightarrow> (string \<times> json) list" where
  "omitempty name b = (case b of Some (x # xs) \<Rightarrow> [(name, JBytes (x # xs))] | _ \<Rightarrow> [])"

definition range_json :: "KeyRange \<Rightarrow> json" where
  "range_json r = JObject [(''lo'', JBytes (kr_Lo r)), (''hi'', json_bytes (kr_Hi r))]"

definition pending_json :: "('c \<Rightarrow> string) \<Rightarrow> 'c pendingEntry \<Rightarrow> json" where
  "pending_json cid_String p =
     JObject ((''cid'', JString (cid_String (pe_CID p))) # omitempty ''key'' (pe_Key p)
       @ omitempty ''lo'' (pe_Lo p) @ omitempty ''hi'' (pe_Hi p))"

definition Frontier_MarshalJSON :: "('c \<Rightarrow> string) \<Rightarrow> 'c Frontier \<Rightarrow> json" where
  "Frontier_MarshalJSON cid_String fr =
     JObject [(''root'', JString (cid_String (fr_Root fr))),
       (''ranges'', JArray (map range_json (fr_Ranges fr))),
       (''pending'', JArray (map (pending_json cid_String) (fr_Pending fr)))]"

definition json_error :: go_error where "json_error = WrapErr ''json: cannot unmarshal'' []"

definition field :: "string \<Rightarrow> json \<Rightarrow> go_error + json" where
  "field name j =
     (case j of JObject fs \<Rightarrow> Inr (case map_of fs name of None \<Rightarrow> JNull | Some x \<Rightarrow> x)
      | JNull \<Rightarrow> Inr JNull | _ \<Rightarrow> Inl json_error)"

definition bytes_field :: "string \<Rightarrow> json \<Rightarrow> go_error + bytes option" where
  "bytes_field name j = bind_res (field name j) (\<lambda>x.
     case x of JNull \<Rightarrow> Inr None | JBytes b \<Rightarrow> Inr (Some b) | _ \<Rightarrow> Inl json_error)"

definition string_field :: "string \<Rightarrow> json \<Rightarrow> go_error + string" where
  "string_field name j = bind_res (field name j) (\<lambda>x.
     case x of JNull \<Rightarrow> Inr [] | JString s \<Rightarrow> Inr s | _ \<Rightarrow> Inl json_error)"

definition array_field :: "string \<Rightarrow> json \<Rightarrow> go_error + json list" where
  "array_field name j = bind_res (field name j) (\<lambda>x.
     case x of JNull \<Rightarrow> Inr [] | JArray xs \<Rightarrow> Inr xs | _ \<Rightarrow> Inl json_error)"

fun map_res :: "('a \<Rightarrow> 'e + 'b) \<Rightarrow> 'a list \<Rightarrow> 'e + 'b list" where
  "map_res f [] = Inr []"
| "map_res f (x # xs) = bind_res (f x) (\<lambda>y. bind_res (map_res f xs) (\<lambda>ys. Inr (y # ys)))"

definition range_of_json :: "json \<Rightarrow> go_error + KeyRange" where
  "range_of_json j = bind_res (bytes_field ''lo'' j) (\<lambda>lo. bind_res (bytes_field ''hi'' j) (\<lambda>hi.
     Inr \<lparr>kr_Lo = (case lo of None \<Rightarrow> [] | Some x \<Rightarrow> x), kr_Hi = hi\<rparr>))"

definition pending_of_json :: "(string \<Rightarrow> go_error + 'c) \<Rightarrow> json \<Rightarrow> go_error + 'c pendingEntry" where
  "pending_of_json cid_Decode j =
     bind_res (string_field ''cid'' j) (\<lambda>c. bind_res (bytes_field ''key'' j) (\<lambda>key.
     bind_res (bytes_field ''lo'' j) (\<lambda>lo. bind_res (bytes_field ''hi'' j) (\<lambda>hi.
       case cid_Decode c of
         Inl e \<Rightarrow> Inl (WrapErr ''frontier pending cid'' [e])
       | Inr cid \<Rightarrow> Inr \<lparr>pe_CID = cid, pe_Key = key, pe_Lo = lo, pe_Hi = hi\<rparr>))))"

definition Frontier_UnmarshalJSON :: "(string \<Rightarrow> go_error + 'c) \<Rightarrow> json \<Rightarrow> go_error + 'c Frontier" where
  "Frontier_UnmarshalJSON cid_Decode j =
     bind_res (string_field ''root'' j) (\<lambda>rs. bind_res (array_field ''ranges'' j) (\<lambda>rgs.
     bind_res (array_field ''pending'' j) (\<lambda>ps. bind_res (map_res range_of_json rgs) (\<lambda>ranges.
       case cid_Decode rs of
         Inl e \<Rightarrow> Inl (WrapErr ''frontier root'' [e])
       | Inr root \<Rightarrow> bind_res (map_res (pending_of_json cid_Decode) ps) (\<lambda>pending.
           Inr \<lparr>fr_Root = root, fr_Ranges = ranges, fr_Pending = pending\<rparr>)))))"

section \<open>The reference: a tree and its records\<close>

datatype 'c mitem = Sub 'c "'c mitem list" | Rec bytes 'c

fun recs :: "'c mitem \<Rightarrow> (bytes \<times> 'c) list" where
  "recs (Rec k c) = [(k, c)]"
| "recs (Sub c its) = concat (map recs its)"

fun entry_of :: "'c mitem \<Rightarrow> 'c node_entry" where
  "entry_of (Sub c its) = ChildEntry (Some c)"
| "entry_of (Rec k c) = ValueEntry k c"

text \<open>\<open>blk\<close> gives the block behind a CID; the tree is stored in it when every node block decodes
  to the node's entries.\<close>

fun stored :: "'c node_decoder \<Rightarrow> ('c \<Rightarrow> bytes) \<Rightarrow> 'c mitem \<Rightarrow> bool" where
  "stored node blk (Rec k c) = True"
| "stored node blk (Sub c its) =
     (node c (blk c) = Inr (map entry_of its) \<and> list_all (stored node blk) its)"

fun item_cids :: "'c mitem \<Rightarrow> 'c list" where
  "item_cids (Rec k c) = [c]"
| "item_cids (Sub c its) = c # concat (map item_cids its)"

fun weight :: "'c mitem \<Rightarrow> nat" where
  "weight (Rec k c) = 1"
| "weight (Sub c its) = Suc (sum_list (map weight its))"

definition in_range :: "KeyRange list \<Rightarrow> (bytes \<times> 'c) list \<Rightarrow> (bytes \<times> 'c) list" where
  "in_range R rs = filter (\<lambda>(k, c). rangesContain R k) rs"

abbreviation items_recs :: "'c mitem list \<Rightarrow> (bytes \<times> 'c) list" where
  "items_recs its \<equiv> concat (map recs its)"

text \<open>Running the visitor over a list of records, with the blocks of \<open>blk\<close>.\<close>

fun run_visits ::
  "('c, 'v) visitor \<Rightarrow> ('c \<Rightarrow> bytes) \<Rightarrow> (bytes \<times> 'c) list \<Rightarrow> 'v \<Rightarrow> go_error option \<times> 'v" where
  "run_visits visit blk [] v = (None, v)"
| "run_visits visit blk ((k, c) # rs) v =
     (case visit k c (blk c) v of
        (Some e, v1) \<Rightarrow> (Some (WrapErr ''visiting'' [e]), v1)
      | (None, v1) \<Rightarrow> run_visits visit blk rs v1)"

definition within :: "bytes option \<Rightarrow> bytes option \<Rightarrow> bytes \<Rightarrow> bool" where
  "within lo hi k \<longleftrightarrow> (\<forall>l. lo = Some l \<longrightarrow> l < k) \<and> (\<forall>h. hi = Some h \<longrightarrow> k < h)"

text \<open>A pending entry stands for an item.\<close>

fun stands_for :: "KeyRange list \<Rightarrow> 'c pendingEntry \<Rightarrow> 'c mitem \<Rightarrow> bool" where
  "stands_for R p (Rec k c) = (pe_CID p = c \<and> pe_Key p = Some k \<and> rangesContain R k)"
| "stands_for R p (Sub c its) =
     (pe_CID p = c \<and> pe_Key p = None \<and>
      list_all (\<lambda>(k, _). within (pe_Lo p) (pe_Hi p) k) (items_recs its))"

text \<open>An item the walk can resolve: it is stored, its keys ascend, and \<open>P\<close> is true of its CIDs.
  The walk is run with a \<open>P\<close> that says that a CID pins its block: no other bytes pass the
  fetcher's verification.\<close>

definition good_item ::
  "'c node_decoder \<Rightarrow> ('c \<Rightarrow> bytes) \<Rightarrow> ('c \<Rightarrow> bool) \<Rightarrow> 'c mitem \<Rightarrow> bool" where
  "good_item node blk P it \<longleftrightarrow>
     stored node blk it \<and> ascending (map fst (recs it)) \<and>
     (\<forall>c\<in>set (item_cids it). P c)"

definition holds ::
  "'c node_decoder \<Rightarrow> ('c \<Rightarrow> bytes) \<Rightarrow> ('c \<Rightarrow> bool) \<Rightarrow> 'c Frontier \<Rightarrow> 'c mitem list \<Rightarrow> bool" where
  "holds node blk P fr its \<longleftrightarrow>
     list_all2 (stands_for (fr_Ranges fr)) (fr_Pending fr) its \<and>
     (\<forall>it\<in>set its. good_item node blk P it)"

text \<open>The visitor ran over \<open>ds\<close> in order without an error, in runs, and the checkpoint (when there
  is one) accepted after each run.\<close>

inductive committed ::
  "('c Frontier \<Rightarrow> 'v \<Rightarrow> go_error option \<times> 'v) option \<Rightarrow> ('c, 'v) visitor \<Rightarrow> ('c \<Rightarrow> bytes) \<Rightarrow>
   'v \<Rightarrow> (bytes \<times> 'c) list \<Rightarrow> 'v \<Rightarrow> bool" for cp visit blk where
  committed_Nil: "committed cp visit blk v [] v"
| committed_run: "run_visits visit blk seg v = (None, v1) \<Longrightarrow>
     (case cp of None \<Rightarrow> v2 = v1 | Some f \<Rightarrow> \<exists>fr. f fr v1 = (None, v2)) \<Longrightarrow>
     committed cp visit blk v2 ds v3 \<Longrightarrow> committed cp visit blk v (seg @ ds) v3"

section \<open>Expanding keeps what a subtree holds\<close>

lemma in_range_simps [simp]:
  "in_range R [] = []"
  "in_range R ((k, c) # rs) = (if rangesContain R k then (k, c) # in_range R rs else in_range R rs)"
  "in_range R (xs @ ys) = in_range R xs @ in_range R ys"
  by (simp_all add: in_range_def)

lemma in_range_none:
  "(\<And>k c. (k, c) \<in> set rs \<Longrightarrow> \<not> rangesContain R k) \<Longrightarrow> in_range R rs = []"
  by (auto simp: in_range_def filter_empty_conv)

lemma pruned_subtree:
  assumes "\<not> rangesIntersectSubtree R lo hi" and "\<forall>(k, c)\<in>set rs. within lo hi k"
  shows "in_range R rs = []"
proof (rule in_range_none)
  fix k c
  assume "(k, c) \<in> set rs"
  with assms(2) have "within lo hi k" by auto
  then show "\<not> rangesContain R k"
    using assms(1) rangesIntersectSubtree_sound [of R k lo hi] by (auto simp: within_def)
qed

lemma child_hi_entries:
  "child_hi p (map entry_of its) =
     (case its of Rec k v # _ \<Rightarrow> Some k | _ \<Rightarrow> pe_Hi p)"
  by (cases its; cases "hd its") (auto simp: child_hi_def)

text \<open>The loop over the entries, from an entry on.  \<open>lo\<close>, \<open>prevKey\<close> and the node's own bounds
  surround every key still to come.\<close>

lemma expand_entries_keeps:
  assumes "ascending (map fst (items_recs its))"
    and "\<forall>(k, c)\<in>set (items_recs its). within lo (pe_Hi p) k \<and> within prevKey (pe_Hi p) k \<and>
           within (pe_Lo p) (pe_Hi p) k"
  shows "\<exists>out its'. expand_entries R p lo prevKey (map entry_of its) = Inr out
    \<and> list_all2 (stands_for R) out its' \<and> set its' \<subseteq> set its
    \<and> in_range R (items_recs its') = in_range R (items_recs its)
    \<and> sum_list (map weight its') \<le> sum_list (map weight its)"
  using assms
proof (induction its arbitrary: lo prevKey)
  case Nil
  then show ?case by auto
next
  case (Cons it its)
  note asc = Cons.prems(1) [simplified sorted_wrt_append map_append concat.simps list.map]
  show ?case
  proof (cases it)
    case (Sub c sub)
    let ?hi = "child_hi p (map entry_of its)"
    let ?q = "\<lparr>pe_CID = c, pe_Key = None, pe_Lo = lo, pe_Hi = ?hi\<rparr>"
    obtain out its' where IH: "expand_entries R p lo prevKey (map entry_of its) = Inr out"
      "list_all2 (stands_for R) out its'" "set its' \<subseteq> set its"
      "in_range R (items_recs its') = in_range R (items_recs its)"
      "sum_list (map weight its') \<le> sum_list (map weight its)"
      using Cons.IH [of lo prevKey] Cons.prems asc by (auto simp: sorted_wrt_append)
    have bounds: "\<forall>(k, v)\<in>set (items_recs sub). within lo ?hi k"
      using Cons.prems asc Sub
      by (fastforce simp: child_hi_entries within_def split: list.splits mitem.splits)
    show ?thesis
    proof (cases "rangesIntersectSubtree R lo ?hi")
      case True
      then show ?thesis using IH Sub bounds
        by (intro exI [of _ "?q # out"] exI [of _ "it # its'"]) (auto simp: list_all_iff)
    next
      case False
      then show ?thesis using IH Sub pruned_subtree [OF False bounds]
        by (intro exI [of _ out] exI [of _ its']) auto
    qed
  next
    case (Rec key v)
    let ?q = "\<lparr>pe_CID = v, pe_Key = Some key, pe_Lo = None, pe_Hi = None\<rparr>"
    have later: "\<forall>(k, c)\<in>set (items_recs its). key < k"
      using asc Rec by fastforce
    have ok: "key_error prevKey p key = None"
      using Cons.prems(2) Rec by (auto simp: key_error_def within_def not_le split: option.splits)
    have inner: "\<forall>(k, c)\<in>set (items_recs its). within (Some key) (pe_Hi p) k \<and>
        within (Some key) (pe_Hi p) k \<and> within (pe_Lo p) (pe_Hi p) k"
    proof (clarify)
      fix k c
      assume kc: "(k, c) \<in> set (items_recs its)"
      with later have "key < k" by fast
      moreover from kc Cons.prems(2) have "within (pe_Lo p) (pe_Hi p) k" by fastforce
      ultimately show "within (Some key) (pe_Hi p) k \<and> within (Some key) (pe_Hi p) k \<and>
          within (pe_Lo p) (pe_Hi p) k" by (simp add: within_def)
    qed
    obtain out its' where IH: "expand_entries R p (Some key) (Some key) (map entry_of its) = Inr out"
      "list_all2 (stands_for R) out its'" "set its' \<subseteq> set its"
      "in_range R (items_recs its') = in_range R (items_recs its)"
      "sum_list (map weight its') \<le> sum_list (map weight its)"
      using Cons.IH [of "Some key" "Some key", OF _ inner] asc by auto
    show ?thesis
    proof (cases "rangesContain R key")
      case True
      then show ?thesis using IH Rec ok
        by (intro exI [of _ "?q # out"] exI [of _ "it # its'"]) auto
    next
      case False
      then show ?thesis using IH Rec ok
        by (intro exI [of _ out] exI [of _ its']) auto
    qed
  qed
qed

lemma good_children:
  assumes "good_item node blk P (Sub c its)" and "it \<in> set its"
  shows "good_item node blk P it"
proof -
  have "ascending (map fst (recs it))"
    using assms unfolding good_item_def
    by (auto simp: in_set_conv_decomp sorted_wrt_append)
  then show ?thesis using assms by (auto simp: good_item_def list_all_iff)
qed

lemma expandNode_keeps:
  assumes "good_item node blk P (Sub c sub)" and "stands_for R p (Sub c sub)"
  shows "\<exists>out its'. expandNode node p (blk c) R = Inr out \<and> list_all2 (stands_for R) out its'
    \<and> (\<forall>it\<in>set its'. good_item node blk P it)
    \<and> in_range R (items_recs its') = in_range R (recs (Sub c sub))
    \<and> sum_list (map weight its') < weight (Sub c sub)"
proof -
  have node: "node c (blk c) = Inr (map entry_of sub)" and asc: "ascending (map fst (items_recs sub))"
    using assms(1) by (auto simp: good_item_def)
  have bounds: "\<forall>(k, c)\<in>set (items_recs sub). within (pe_Lo p) (pe_Hi p) k \<and>
      within None (pe_Hi p) k \<and> within (pe_Lo p) (pe_Hi p) k"
    using assms(2) by (fastforce simp: list_all_iff within_def)
  from expand_entries_keeps [OF asc bounds, of R] node assms show ?thesis
    by (fastforce simp: expandNode_def dest: good_children)
qed

lemma stands_for_isRecord:
  "stands_for R p it \<Longrightarrow> isRecord p \<longleftrightarrow> (\<exists>k c. it = Rec k c)"
  by (cases it) (auto simp: isRecord_def)

lemma stands_for_cid: "stands_for R p it \<Longrightarrow> pe_CID p \<in> set (item_cids it)"
  by (cases it) auto

lemma expand_head_keeps:
  assumes "list_all2 (stands_for R) ps its" and "\<forall>it\<in>set its. good_item node blk P it"
    and "\<forall>p\<in>set ps. \<not> isRecord p \<longrightarrow> blocks (pe_CID p) = Some (blk (pe_CID p))"
  shows "\<exists>out its'. expand_head node R blocks ps = Inr out \<and> list_all2 (stands_for R) out its'
    \<and> (\<forall>it\<in>set its'. good_item node blk P it)
    \<and> in_range R (items_recs its') = in_range R (items_recs its)
    \<and> sum_list (map weight its') + length (filter (\<lambda>p. \<not> isRecord p) ps)
        \<le> sum_list (map weight its)"
  using assms
proof (induction ps its rule: list_all2_induct)
  case Nil
  then show ?case by simp
next
  case (Cons p ps it its)
  obtain out its' where IH: "expand_head node R blocks ps = Inr out" "list_all2 (stands_for R) out its'"
    "\<forall>it\<in>set its'. good_item node blk P it"
    "in_range R (items_recs its') = in_range R (items_recs its)"
    "sum_list (map weight its') + length (filter (\<lambda>p. \<not> isRecord p) ps) \<le> sum_list (map weight its)"
    using Cons.IH Cons.prems by auto
  show ?case
  proof (cases it)
    case (Rec k c)
    then show ?thesis using IH Cons.hyps(1) Cons.prems(1)
      by (intro exI [of _ "p # out"] exI [of _ "it # its'"]) (auto simp: isRecord_def)
  next
    case (Sub c sub)
    obtain ch cits where ch: "expandNode node p (blk c) R = Inr ch" "list_all2 (stands_for R) ch cits"
      "\<forall>it\<in>set cits. good_item node blk P it"
      "in_range R (items_recs cits) = in_range R (recs it)" "sum_list (map weight cits) < weight it"
      using expandNode_keeps [of node blk P c sub R p] Cons.hyps(1) Cons.prems(1) Sub by auto
    have "\<not> isRecord p" "pe_CID p = c" using Cons.hyps(1) Sub by (auto simp: isRecord_def)
    then show ?thesis using IH ch Cons.prems(2)
      by (intro exI [of _ "ch @ out"] exI [of _ "cits @ its'"]) (auto intro: list_all2_appendI)
  qed
qed

section \<open>Emitting the resolved run\<close>

lemma emitted_prefix:
  assumes "list_all2 (stands_for R) ps its"
  shows "\<exists>its'. list_all2 (stands_for R) (dropWhile isRecord ps) its' \<and> set its' \<subseteq> set its
    \<and> in_range R (items_recs its) =
        map (\<lambda>p. (the (pe_Key p), pe_CID p)) (takeWhile isRecord ps) @ in_range R (items_recs its')
    \<and> sum_list (map weight its') + length (takeWhile isRecord ps) = sum_list (map weight its)"
  using assms
proof (induction ps its rule: list_all2_induct)
  case Nil
  then show ?case by simp
next
  case (Cons p ps it its)
  show ?case
  proof (cases it)
    case (Rec k c)
    then show ?thesis using Cons.IH Cons.hyps(1)
      by (auto simp: isRecord_def)
  next
    case (Sub c sub)
    then have "\<not> isRecord p" using Cons.hyps(1) by (simp add: isRecord_def)
    then show ?thesis using Cons.hyps by (intro exI [of _ "it # its"]) auto
  qed
qed

lemma visit_all_run:
  assumes "\<forall>p\<in>set ps. blocks (pe_CID p) = Some (blk (pe_CID p))"
  shows "visit_all visit blocks ps v =
    run_visits visit blk (map (\<lambda>p. (the (pe_Key p), pe_CID p)) ps) v"
  using assms by (induction ps arbitrary: v) (auto split: prod.split option.split)

lemma run_visits_append:
  "run_visits visit blk (xs @ ys) v =
     (case run_visits visit blk xs v of
        (Some e, v1) \<Rightarrow> (Some e, v1) | (None, v1) \<Rightarrow> run_visits visit blk ys v1)"
  by (induction xs arbitrary: v) (auto split: prod.splits option.splits)

lemma run_visits_total:
  "(\<And>k c d v. fst (visit k c d v) = None) \<Longrightarrow> fst (run_visits visit blk rs v) = None"
proof (induction rs arbitrary: v)
  case (Cons r rs)
  obtain k c where r: "r = (k, c)" by (cases r)
  obtain v1 where "visit k c (blk c) v = (None, v1)"
    using Cons.prems [of k c "blk c" v] by (metis prod.collapse)
  then show ?case using Cons.IH [OF Cons.prems] r by simp
qed simp

lemma committed_no_checkpoint:
  "committed None visit blk v ds v' \<longleftrightarrow> run_visits visit blk ds v = (None, v')"
proof
  assume "committed None visit blk v ds v'"
  then show "run_visits visit blk ds v = (None, v')"
    by induction (auto simp: run_visits_append)
next
  assume "run_visits visit blk ds v = (None, v')"
  from committed_run [where cp = None and ds = "[]", OF this _ committed_Nil]
  show "committed None visit blk v ds v'" by (simp add: committed_Nil)
qed

section \<open>The walk over any fetcher that keeps the contract\<close>

definition checkpoint_accepts ::
  "('c Frontier \<Rightarrow> 'v \<Rightarrow> go_error option \<times> 'v) option \<Rightarrow> 'v \<Rightarrow> 'v \<Rightarrow> bool" where
  "checkpoint_accepts cp v1 v2 \<longleftrightarrow>
     (case cp of None \<Rightarrow> v2 = v1 | Some f \<Rightarrow> \<exists>fr. f fr v1 = (None, v2))"

locale walking = block_fetcher "wk_GetBlocks W" verified
  for W :: "('c, 'w, 'v) Walker" and verified :: "'c \<Rightarrow> bytes \<Rightarrow> bool" +
  fixes blk :: "'c \<Rightarrow> bytes" and P :: "'c \<Rightarrow> bool"
  assumes pins: "P c \<Longrightarrow> verified c d \<Longrightarrow> d = blk c"
begin

lemma pinned_block:
  assumes "wk_GetBlocks W cs w = (Inr m, w')" and "p \<in> set ps" and "pe_CID p \<in> set cs"
    and "list_all2 (stands_for R) ps its" and "\<forall>it\<in>set its. good_item node blk P it"
  shows "m (pe_CID p) = Some (blk (pe_CID p))"
proof -
  obtain d where d: "m (pe_CID p) = Some d" "verified (pe_CID p) d"
    using answers [OF assms(1,3)] by blast
  obtain it where "it \<in> set its" "stands_for R p it"
    using assms(2,4) by (metis list_all2_conv_all_nth in_set_conv_nth)
  then have "d = blk (pe_CID p)"
    using assms(5) d(2) stands_for_cid pins by (fastforce simp: good_item_def)
  with d(1) show ?thesis by simp
qed

lemma resolve_head_keeps:
  assumes "list_all2 (stands_for R) ps its" and "\<forall>it\<in>set its. good_item node blk P it"
    and "resolve_head node W R ps w = (Inr out, w')"
  shows "\<exists>its'. list_all2 (stands_for R) out its' \<and> (\<forall>it\<in>set its'. good_item node blk P it)
    \<and> in_range R (items_recs its') = in_range R (items_recs its)
    \<and> sum_list (map weight its') + length (filter (\<lambda>p. \<not> isRecord p) ps) \<le> sum_list (map weight its)"
proof (cases "filter (\<lambda>p. \<not> isRecord p) ps = []")
  case True
  then show ?thesis using assms by (auto simp: resolve_head_def)
next
  case False
  let ?cs = "map pe_CID (filter (\<lambda>p. \<not> isRecord p) ps)"
  from False assms(3) obtain blocks where b: "wk_GetBlocks W ?cs w = (Inr blocks, w')"
    and x: "expand_head node R blocks ps = Inr out"
    by (auto simp: resolve_head_def Let_def split: prod.splits sum.splits)
  have "\<forall>p\<in>set ps. \<not> isRecord p \<longrightarrow> blocks (pe_CID p) = Some (blk (pe_CID p))"
    using pinned_block [OF b _ _ assms(1,2)] by simp
  from expand_head_keeps [OF assms(1,2) this] x show ?thesis by auto
qed

lemma emit_records_run:
  assumes "list_all2 (stands_for R) ps its" and "\<forall>it\<in>set its. good_item node blk P it"
    and "emit_records W visit (takeWhile isRecord ps) w v = (None, w', v')"
  shows "run_visits visit blk (map (\<lambda>p. (the (pe_Key p), pe_CID p)) (takeWhile isRecord ps)) v = (None, v')"
proof (cases "takeWhile isRecord ps = []")
  case True
  then show ?thesis using assms(3) by (simp add: emit_records_def)
next
  case False
  with assms(3) obtain blocks where b: "wk_GetBlocks W (map pe_CID (takeWhile isRecord ps)) w = (Inr blocks, w')"
    and v: "visit_all visit blocks (takeWhile isRecord ps) v = (None, v')"
    by (auto simp: emit_records_def split: prod.splits sum.splits)
  have "\<forall>p\<in>set (takeWhile isRecord ps). blocks (pe_CID p) = Some (blk (pe_CID p))"
    using pinned_block [OF b _ _ assms(1,2)] by (auto dest: set_takeWhileD)
  then show ?thesis using v by (simp only: visit_all_run)
qed

text \<open>A step that fails leaves the frontier alone; a step that succeeds hands the visitor the next
  records and keeps the rest.\<close>

lemma step_error: "step node W visit fr w v = (Some e, fr', w', v') \<Longrightarrow> fr' = fr"
  by (auto simp: step_def Let_def split: prod.splits sum.splits option.splits)

lemma step_ok:
  assumes "step node W visit fr w v = (None, fr', w', v')"
  obtains head w1 w2 v1 where
    "resolve_head node W (fr_Ranges fr) (take (batch_of W) (fr_Pending fr)) w = (Inr head, w1)"
    "emit_records W visit (takeWhile isRecord head) w1 v = (None, w2, v1)"
    "checkpoint_accepts (wk_Checkpoint W) v1 v'"
    "fr' = fr\<lparr>fr_Pending := dropWhile isRecord head @ drop (batch_of W) (fr_Pending fr)\<rparr>"
  using assms
  by (fastforce simp: step_def Let_def checkpoint_accepts_def
      split: prod.splits sum.splits option.splits)

lemma resolve_head_progress:
  assumes "resolve_head node W R (take (batch_of W) ps) w = (Inr head, w1)" and "ps \<noteq> []"
  shows "length (filter (\<lambda>p. \<not> isRecord p) (take (batch_of W) ps)) + length (takeWhile isRecord head) > 0"
proof (cases "filter (\<lambda>p. \<not> isRecord p) (take (batch_of W) ps) = []")
  case True
  then have "head = take (batch_of W) ps" using assms(1) by (simp add: resolve_head_def)
  moreover have "batch_of W > 0" by (simp add: batch_of_def DefaultBatchSize_def)
  ultimately show ?thesis using True assms(2)
    by (cases ps; cases "batch_of W") (auto split: if_splits)
qed simp

lemma step_advances:
  assumes rep: "holds node blk P fr its" and ne: "fr_Pending fr \<noteq> []"
    and ok: "step node W visit fr w v = (None, fr', w', v')"
  shows "\<exists>seg its' v1. holds node blk P fr' its' \<and> fr_Ranges fr' = fr_Ranges fr
    \<and> in_range (fr_Ranges fr) (items_recs its) = seg @ in_range (fr_Ranges fr) (items_recs its')
    \<and> sum_list (map weight its') < sum_list (map weight its)
    \<and> run_visits visit blk seg v = (None, v1) \<and> checkpoint_accepts (wk_Checkpoint W) v1 v'"
proof -
  let ?R = "fr_Ranges fr" and ?n = "batch_of W"
  obtain head w1 w2 v1 where
    res: "resolve_head node W ?R (take ?n (fr_Pending fr)) w = (Inr head, w1)"
    and em: "emit_records W visit (takeWhile isRecord head) w1 v = (None, w2, v1)"
    and cp: "checkpoint_accepts (wk_Checkpoint W) v1 v'"
    and fr': "fr' = fr\<lparr>fr_Pending := dropWhile isRecord head @ drop ?n (fr_Pending fr)\<rparr>"
    using step_ok [OF ok] by blast
  have all: "list_all2 (stands_for ?R) (fr_Pending fr) its"
    and good: "\<forall>it\<in>set its. good_item node blk P it"
    using rep by (auto simp: holds_def)
  have hd: "list_all2 (stands_for ?R) (take ?n (fr_Pending fr)) (take ?n its)"
    and tl: "list_all2 (stands_for ?R) (drop ?n (fr_Pending fr)) (drop ?n its)"
    using all by simp_all
  have ghd: "\<forall>it\<in>set (take ?n its). good_item node blk P it"
    and gtl: "\<forall>it\<in>set (drop ?n its). good_item node blk P it"
    using good by (auto dest: in_set_takeD in_set_dropD)
  obtain hits where h: "list_all2 (stands_for ?R) head hits"
    "\<forall>it\<in>set hits. good_item node blk P it"
    "in_range ?R (items_recs hits) = in_range ?R (items_recs (take ?n its))"
    "sum_list (map weight hits) + length (filter (\<lambda>p. \<not> isRecord p) (take ?n (fr_Pending fr)))
       \<le> sum_list (map weight (take ?n its))"
    using resolve_head_keeps [OF hd ghd res] by blast
  let ?seg = "map (\<lambda>p. (the (pe_Key p), pe_CID p)) (takeWhile isRecord head)"
  obtain nits where n: "list_all2 (stands_for ?R) (dropWhile isRecord head) nits" "set nits \<subseteq> set hits"
    "in_range ?R (items_recs hits) = ?seg @ in_range ?R (items_recs nits)"
    "sum_list (map weight nits) + length (takeWhile isRecord head) = sum_list (map weight hits)"
    using emitted_prefix [OF h(1)] by blast
  have split: "items_recs its = items_recs (take ?n its) @ items_recs (drop ?n its)"
    by (metis append_take_drop_id concat_append map_append)
  have wsplit: "sum_list (map weight its) = sum_list (map weight (take ?n its)) + sum_list (map weight (drop ?n its))"
    by (metis append_take_drop_id map_append sum_list_append)
  have "holds node blk P fr' (nits @ drop ?n its)"
    using n(1,2) tl h(2) gtl fr' by (auto simp: holds_def intro: list_all2_appendI)
  moreover have "in_range ?R (items_recs its) = ?seg @ in_range ?R (items_recs (nits @ drop ?n its))"
    using split h(3) n(3) by simp
  moreover have "sum_list (map weight (nits @ drop ?n its)) < sum_list (map weight its)"
    using wsplit h(4) n(4) resolve_head_progress [OF res ne]
    by (simp only: map_append sum_list_append)
  moreover have "fr_Ranges fr' = ?R" using fr' by simp
  ultimately show ?thesis using emit_records_run [OF h(1,2) em] cp by blast
qed

lemma resume_loop_keeps:
  assumes "holds node blk P fr its"
  shows "\<exists>e fr' w' v'. resume_loop ctx_Err node W visit fr w v = Some (e, fr', w', v')
    \<and> fr_Ranges fr' = fr_Ranges fr
    \<and> (\<exists>ds its' v1. committed (wk_Checkpoint W) visit blk v ds v1 \<and> holds node blk P fr' its'
        \<and> in_range (fr_Ranges fr) (items_recs its) = ds @ in_range (fr_Ranges fr) (items_recs its')
        \<and> (e = None \<longrightarrow> its' = [] \<and> v' = v1))"
  using assms
proof (induction "sum_list (map weight its)" arbitrary: fr its w v rule: less_induct)
  case less
  let ?loop = "resume_loop ctx_Err node W visit fr w v"
  note unfold = resume_loop.simps [of ctx_Err node W visit fr w v]
  have stop: "committed (wk_Checkpoint W) visit blk v [] v" by (rule committed_Nil)
  show ?case
  proof (cases "Done fr \<or> ctx_Err w \<noteq> None")
    case True
    then show ?thesis using less.prems stop unfold
      by (fastforce simp: Done_def holds_def split: option.splits)
  next
    case False
    then have ne: "fr_Pending fr \<noteq> []" and ctx: "ctx_Err w = None" by (auto simp: Done_def)
    obtain e fr1 w1 v1 where st: "step node W visit fr w v = (e, fr1, w1, v1)"
      by (metis prod_cases4)
    show ?thesis
    proof (cases e)
      case (Some err)
      then have "fr1 = fr" using step_error [of node visit fr w v err] st by simp
      then have "?loop = Some (Some err, fr, w1, v1)" using unfold False ctx st Some by simp
      then show ?thesis using stop less.prems by auto
    next
      case None
      with st obtain seg its' v0 where s: "holds node blk P fr1 its'" "fr_Ranges fr1 = fr_Ranges fr"
        "in_range (fr_Ranges fr) (items_recs its) = seg @ in_range (fr_Ranges fr) (items_recs its')"
        "sum_list (map weight its') < sum_list (map weight its)"
        "run_visits visit blk seg v = (None, v0)" "checkpoint_accepts (wk_Checkpoint W) v0 v1"
        using step_advances [OF less.prems ne] by blast
      have loop: "?loop = resume_loop ctx_Err node W visit fr1 w1 v1"
        using unfold False ctx st None by simp
      obtain e2 fr2 w2 v2 ds its2 v3 where IH: "?loop = Some (e2, fr2, w2, v2)" "fr_Ranges fr2 = fr_Ranges fr"
        "committed (wk_Checkpoint W) visit blk v1 ds v3" "holds node blk P fr2 its2"
        "in_range (fr_Ranges fr) (items_recs its') = ds @ in_range (fr_Ranges fr) (items_recs its2)"
        "e2 = None \<longrightarrow> its2 = [] \<and> v2 = v3"
        using less.hyps [OF s(4) s(1), of w1 v1] unfolding loop s(2) by blast
      have "committed (wk_Checkpoint W) visit blk v (seg @ ds) v3"
        using committed_run [OF s(5) _ IH(3)] s(6) by (simp add: checkpoint_accepts_def)
      then show ?thesis using IH s(3) by (metis append.assoc)
    qed
  qed
qed

text \<open>When nothing fails on the way, the walk succeeds.\<close>

lemma step_succeeds:
  assumes rep: "holds node blk P fr its"
    and fetch: "\<And>cs w. (\<forall>c\<in>set cs. P c) \<Longrightarrow> \<exists>m w'. wk_GetBlocks W cs w = (Inr m, w')"
    and visits: "\<And>k c d v. fst (visit k c d v) = None" and nocp: "wk_Checkpoint W = None"
  shows "\<exists>fr' w' v'. step node W visit fr w v = (None, fr', w', v')"
proof -
  let ?R = "fr_Ranges fr" and ?ps = "take (batch_of W) (fr_Pending fr)" and ?its = "take (batch_of W) its"
  have hd: "list_all2 (stands_for ?R) ?ps ?its" and ghd: "\<forall>it\<in>set ?its. good_item node blk P it"
    using rep by (auto simp: holds_def dest: in_set_takeD)
  have P: "P (pe_CID p)" if "list_all2 (stands_for ?R) qs jts" "\<forall>it\<in>set jts. good_item node blk P it" "p \<in> set qs"
    for p qs jts
    using that stands_for_cid unfolding good_item_def
    by (metis list_all2_conv_all_nth in_set_conv_nth)
  have "\<exists>head w1. resolve_head node W ?R ?ps w = (Inr head, w1)"
  proof (cases "filter (\<lambda>p. \<not> isRecord p) ?ps = []")
    case False
    let ?cs = "map pe_CID (filter (\<lambda>p. \<not> isRecord p) ?ps)"
    obtain m w1 where m: "wk_GetBlocks W ?cs w = (Inr m, w1)"
      using fetch [of ?cs w] P [OF hd ghd] by auto
    have "\<forall>p\<in>set ?ps. \<not> isRecord p \<longrightarrow> m (pe_CID p) = Some (blk (pe_CID p))"
      using pinned_block [OF m _ _ hd ghd] by simp
    from expand_head_keeps [OF hd ghd this] m False show ?thesis by (auto simp: resolve_head_def)
  qed (auto simp: resolve_head_def)
  then obtain head w1 where res: "resolve_head node W ?R ?ps w = (Inr head, w1)" by blast
  obtain hits where h: "list_all2 (stands_for ?R) head hits" "\<forall>it\<in>set hits. good_item node blk P it"
    using resolve_head_keeps [OF hd ghd res] by blast
  let ?emit = "takeWhile isRecord head"
  have "\<exists>w2 v1. emit_records W visit ?emit w1 v = (None, w2, v1)"
  proof (cases "?emit = []")
    case False
    obtain m w2 where m: "wk_GetBlocks W (map pe_CID ?emit) w1 = (Inr m, w2)"
      using fetch [of "map pe_CID ?emit" w1] P [OF h] by (auto dest: set_takeWhileD)
    have "\<forall>p\<in>set ?emit. m (pe_CID p) = Some (blk (pe_CID p))"
      using pinned_block [OF m _ _ h] by (auto dest: set_takeWhileD)
    then have "fst (visit_all visit m ?emit v) = None"
      using run_visits_total [OF visits] by (simp only: visit_all_run)
    then obtain v1 where "visit_all visit m ?emit v = (None, v1)" by (metis prod.collapse)
    with m False show ?thesis by (simp add: emit_records_def)
  qed (simp add: emit_records_def)
  with res nocp show ?thesis by (auto simp: step_def Let_def)
qed

lemma resume_loop_succeeds:
  assumes "holds node blk P fr its" and "\<And>w. ctx_Err w = None"
    and "\<And>cs w. (\<forall>c\<in>set cs. P c) \<Longrightarrow> \<exists>m w'. wk_GetBlocks W cs w = (Inr m, w')"
    and "\<And>k c d v. fst (visit k c d v) = None" and "wk_Checkpoint W = None"
  shows "\<exists>fr' w' v'. resume_loop ctx_Err node W visit fr w v = Some (None, fr', w', v')"
  using assms(1)
proof (induction "sum_list (map weight its)" arbitrary: fr its w v rule: less_induct)
  case less
  note unfold = resume_loop.simps [of ctx_Err node W visit fr w v]
  show ?case
  proof (cases "Done fr")
    case False
    obtain fr1 w1 v1 where st: "step node W visit fr w v = (None, fr1, w1, v1)"
      using step_succeeds [OF less.prems, of visit w v] assms(3-5) by blast
    obtain its' where "holds node blk P fr1 its'" "sum_list (map weight its') < sum_list (map weight its)"
      using step_advances [OF less.prems _ st] False by (auto simp: Done_def)
    from less.hyps [OF this(2,1), of w1 v1] show ?thesis using unfold False assms(2) st by simp
  qed (use unfold in simp)
qed

end

section \<open>The walk over the fetcher of a backfill\<close>

definition backfill_walker ::
  "'c cid_lib \<Rightarrow> 'c car_lib \<Rightarrow> ('c, 'w) XRPCBlockFetcher \<Rightarrow> int \<Rightarrow>
   ('c Frontier \<Rightarrow> 'v \<Rightarrow> go_error option \<times> 'v) option \<Rightarrow> ('c, 'w \<times> 'c mem_blocks, 'v) Walker" where
  "backfill_walker L C f b cp =
     \<lparr>wk_GetBlocks = walk_fetcher L C f, wk_BatchSize = b, wk_Checkpoint = cp\<rparr>"

text \<open>A CID pins a block when no other bytes verify against it.\<close>

definition pinned :: "'c cid_lib \<Rightarrow> ('c \<Rightarrow> bytes) \<Rightarrow> 'c \<Rightarrow> bool" where
  "pinned L blk c \<longleftrightarrow> (\<forall>d. VerifyBlock L c d = None \<longrightarrow> d = blk c)"

interpretation pds: walking "backfill_walker L C f b cp" "\<lambda>c d. VerifyBlock L c d = None" blk
    "\<lambda>c. c \<in> S \<and> pinned L blk c"
  for L C f b cp blk S
  by unfold_locales (auto simp: backfill_walker_def walkf.answers pinned_def)

text \<open>A repository at a commit: its tree is stored, its keys ascend and its CIDs pin their blocks.\<close>

definition repo_at :: "'c node_decoder \<Rightarrow> 'c cid_lib \<Rightarrow> ('c \<Rightarrow> bytes) \<Rightarrow> 'c \<Rightarrow> 'c mitem list \<Rightarrow> bool" where
  "repo_at node L blk root its \<longleftrightarrow>
     stored node blk (Sub root its) \<and> ascending (map fst (items_recs its)) \<and>
     (\<forall>c\<in>set (item_cids (Sub root its)). pinned L blk c)"

abbreviation start_frontier :: "'c \<Rightarrow> KeyRange list \<Rightarrow> 'c Frontier" where
  "start_frontier root norm \<equiv> \<lparr>fr_Root = root, fr_Ranges = norm,
     fr_Pending = [\<lparr>pe_CID = root, pe_Key = None, pe_Lo = None, pe_Hi = None\<rparr>]\<rparr>"

lemma start_holds:
  assumes "repo_at node L blk root its"
  shows "holds node blk (\<lambda>c. c \<in> set (item_cids (Sub root its)) \<and> pinned L blk c)
    (start_frontier root norm) [Sub root its]"
  using assms by (auto simp: holds_def good_item_def repo_at_def list_all_iff within_def)

lemma in_range_norm:
  "normalizeRanges ranges = Inr norm \<Longrightarrow> in_range norm rs = in_range ranges rs"
  using normalizeRanges_Inr [of ranges norm] by (simp add: in_range_def)

lemma walk_returns:
  fixes visit :: "('c, 'v) visitor"
  assumes "repo_at node L blk root its"
  shows "\<exists>e w' v'. WalkRanges ctx_Err node (backfill_walker L C f b cp) root ranges visit w v = Some (e, w', v')
    \<and> (e = None \<longrightarrow> committed cp visit blk v (in_range ranges (items_recs its)) v')"
proof (cases "normalizeRanges ranges")
  case (Inl e)
  then show ?thesis by (simp add: WalkRanges_def)
next
  case (Inr norm)
  then have ne: "norm \<noteq> []" using normalizeRanges_Inr by blast
  let ?W = "backfill_walker L C f b cp"
  obtain e fr' w' v' ds its' v1
    where loop: "resume_loop ctx_Err node ?W visit (start_frontier root norm) w v = Some (e, fr', w', v')"
    and c: "committed (wk_Checkpoint ?W) visit blk v ds v1"
    and r: "in_range norm (items_recs [Sub root its]) = ds @ in_range norm (items_recs its')"
    and nil: "e = None \<longrightarrow> its' = [] \<and> v' = v1"
    using pds.resume_loop_keeps [OF start_holds [OF assms], of ctx_Err C f b cp visit norm w v]
    unfolding Frontier.select_convs by blast
  have "WalkRanges ctx_Err node ?W root ranges visit w v = Some (e, w', v')"
    using Inr ne loop by (simp add: WalkRanges_def Resume_def)
  moreover have "committed cp visit blk v (in_range ranges (items_recs its)) v'" if "e = None"
    using c r nil that by (simp add: in_range_norm [OF Inr] backfill_walker_def)
  ultimately show ?thesis by blast
qed

subsection \<open>A concrete repository\<close>

text \<open>CIDs are strings that name their block; a block's CID is the block itself.  The host answers
  every request with a CAR of the whole repository.\<close>

definition ex_L :: "string cid_lib" where
  "ex_L = \<lparr>cid_Version = \<lambda>c. 1, multihash_Code = \<lambda>c. Inr SHA2_256, prefix_Sum = \<lambda>c d. Inr d\<rparr>"

definition ex_its :: "string mitem list" where
  "ex_its = [Sub ''N'' [Rec ''a/1'' ''x'', Rec ''a/2'' ''y''], Rec ''b/1'' ''z'']"

definition ex_node :: "string node_decoder" where
  "ex_node c d =
     (if d = ''R'' then Inr (map entry_of ex_its)
      else if d = ''N'' then Inr [ValueEntry ''a/1'' ''x'', ValueEntry ''a/2'' ''y'']
      else Inl ioUnexpectedEOF)"

definition ex_C :: "string car_lib" where
  "ex_C = \<lparr>car_ReadHeader = \<lambda>raw. Inr 1,
     car_ReadNodes = \<lambda>raw. (map (\<lambda>c. (c, c)) [''R'', ''N'', ''x'', ''y'', ''z''], ioEOF)\<rparr>"

definition ex_f :: "(string, unit) XRPCBlockFetcher" where
  "ex_f = \<lparr>xf_Host = ''pds.example'', xf_ChunkSize = 0,
     xf_Retry = \<lparr>rp_MaxAttempts = 0, rp_BaseDelay = 0, rp_MaxDelay = 0, rp_Hints = [], rp_Host = []\<rparr>,
     xf_SyncGetBlocks = \<lambda>cs w. (Inr [], w),
     xf_env = \<lparr>env_Now = \<lambda>w. 0, env_Jitter = \<lambda>w d. d, env_Hints = \<lambda>w. [],
       env_Sleep = \<lambda>d w. (None, w)\<rparr>\<rparr>"

definition log_visit :: "(string, (bytes \<times> string \<times> bytes) list) visitor" where
  "log_visit k c d log = (None, log @ [(k, c, d)])"

lemma ex_repo: "repo_at ex_node ex_L id ''R'' ex_its"
  by (simp add: repo_at_def pinned_def ex_its_def ex_node_def ex_L_def VerifyBlock_None)

lemma ex_walk:
  "map_option (\<lambda>(e, w, log). (e, log))
     (WalkRanges (\<lambda>w. None) ex_node (backfill_walker ex_L ex_C ex_f 0 None) ''R'' [PrefixRange ''a/'']
        log_visit ((), Map.empty) []) =
   Some (None, [(''a/1'', ''x'', ''x''), (''a/2'', ''y'', ''y'')])"
  by code_simp

text \<open>The host of the example answers every request for its own blocks.\<close>

abbreviation "ex_cids \<equiv> {''R'', ''N'', ''x'', ''y'', ''z''}"

definition ex_blocks :: "string \<rightharpoonup> bytes" where
  "ex_blocks = put_all (map (\<lambda>c. (c, c)) [''R'', ''N'', ''x'', ''y'', ''z''])"

lemma ex_blocks: "c \<in> ex_cids \<Longrightarrow> ex_blocks c = Some c"
  by (auto simp: ex_blocks_def put_all_def)

lemma ex_take: "set cs \<subseteq> ex_cids \<Longrightarrow> \<exists>out'. take_verified ex_L ex_blocks cs out = Inr out'"
proof (induction cs arbitrary: out)
  case (Cons c cs)
  moreover have "ex_blocks c = Some c" using Cons.prems by (intro ex_blocks) simp
  ultimately show ?case by (simp add: ex_L_def VerifyBlock_def)
qed simp

lemma ex_chunks:
  "set want \<subseteq> ex_cids \<Longrightarrow>
     \<exists>m. fetch_chunks ex_L ex_C (\<lambda>batch. retry_do p env (\<lambda>w. (Inr [], w))) n want out w = (Inr m, w)"
proof (induction "length want" arbitrary: want out rule: less_induct)
  case less
  let ?req = "\<lambda>batch. retry_do p env (\<lambda>w. (Inr [], w))"
  show ?case
  proof (cases "want = []")
    case False
    have "retry_do p env (\<lambda>w. (Inr ([] :: bytes), w)) w = (Inr [], w)"
      by (simp add: retry_do_def Let_def retry_loop.simps)
    moreover have "parseCAR ex_C [] = Inr ex_blocks"
      by (simp add: parseCAR_def ex_C_def errors_Is_def ex_blocks_def)
    moreover obtain out' where "take_verified ex_L ex_blocks (take (Suc n) want) out = Inr out'"
      using ex_take [of "take (Suc n) want" out] set_take_subset [of "Suc n" want] less.prems by blast
    ultimately have "fetch_chunks ex_L ex_C ?req n want out w
        = fetch_chunks ex_L ex_C ?req n (drop (Suc n) want) out' w"
      using False by (simp add: fetch_chunks.simps [of ex_L ex_C ?req n want])
    moreover have "set (drop (Suc n) want) \<subseteq> ex_cids"
      using set_drop_subset [of "Suc n" want] less.prems by (rule subset_trans)
    ultimately show ?thesis using less.hyps [of "drop (Suc n) want" out'] False by simp
  qed (simp add: fetch_chunks.simps)
qed

lemma memory_lookup_total:
  "\<exists>out' miss'. cache_lookup L MemoryBlockCache k cs out miss = Inr (out', miss')"
  by (induction cs arbitrary: out miss)
     (auto simp: MemoryBlockCache_def Memory_Get_def split: option.split)

lemma memory_store_total:
  "set cs \<subseteq> dom fetched \<Longrightarrow> \<exists>out' k'. cache_store MemoryBlockCache fetched cs out k = (Inr out', k')"
  by (induction cs arbitrary: out k) (auto simp: MemoryBlockCache_def Memory_Put_def)

lemma ex_fetch:
  assumes "set cs \<subseteq> ex_cids"
  shows "\<exists>m w'. walk_fetcher ex_L ex_C ex_f cs w = (Inr m, w')"
proof -
  obtain u k where w: "w = (u, k)" by (cases w)
  obtain out miss where l: "cache_lookup ex_L MemoryBlockCache k (dedupeCIDs cs) Map.empty [] = Inr (out, miss)"
    using memory_lookup_total by blast
  have miss: "set miss \<subseteq> set cs" using cache_lookup_Inr [OF l] by simp
  obtain m where m: "XRPC_GetBlocks ex_L ex_C ex_f miss u = (Inr m, u)"
    using ex_chunks [of "dedupeCIDs miss"] subset_trans [OF miss assms]
    by (fastforce simp: XRPC_GetBlocks_def Let_def ex_f_def)
  have "\<exists>out' k'. cache_store MemoryBlockCache m miss out k = (Inr out', k')"
    using memory_store_total xrpc.never_partial [OF m] by blast
  then show ?thesis using w l m
    by (auto simp: walk_fetcher_def Cached_GetBlocks_def PdsLocked_GetBlocks_def)
qed

lemma walk_succeeds:
  assumes "repo_at node L blk root its"
    and "\<And>w. ctx_Err w = None" and "\<And>k c d v. fst (visit k c d v) = None"
    and "\<And>cs w. set cs \<subseteq> set (item_cids (Sub root its)) \<Longrightarrow> \<exists>m w'. walk_fetcher L C f cs w = (Inr m, w')"
    and "ranges \<noteq> []" and "\<forall>r\<in>set ranges. proper_range r"
  shows "\<exists>w' v'. WalkRanges ctx_Err node (backfill_walker L C f b None) root ranges visit w v = Some (None, w', v')"
proof -
  obtain norm where norm: "normalizeRanges ranges = Inr norm" using normalizeRanges_total assms(5,6) by blast
  then have ne: "norm \<noteq> []" using normalizeRanges_Inr by blast
  have "\<exists>fr' w' v'. resume_loop ctx_Err node (backfill_walker L C f b None) visit (start_frontier root norm) w v
      = Some (None, fr', w', v')"
    using assms(2-4) by (intro pds.resume_loop_succeeds [OF start_holds [OF assms(1)]])
      (auto simp: backfill_walker_def subset_iff)
  then show ?thesis using norm ne by (auto simp: WalkRanges_def Resume_def)
qed

text \<open>
  C1.  A walk that returns nil has shown the visitor exactly the records of the repository whose
  keys lie in the requested ranges, once each and in ascending key order, each with the block its
  CID pins.  The fetcher is the one a backfill runs on (memory cache over the host lock over XRPC
  with retries) and nothing is assumed of the host's answers: \<open>f\<close> may return any bytes.
\<close>

theorem WalkRanges_complete:
  assumes "repo_at node L blk root its"
    and "WalkRanges ctx_Err node (backfill_walker L C f b None) root ranges visit w v = Some (None, w', v')"
  shows "run_visits visit blk (in_range ranges (items_recs its)) v = (None, v')
    \<and> ascending (map fst (in_range ranges (items_recs its)))"
  using walk_returns [OF assms(1), of ctx_Err C f b None ranges visit w v] assms
  by (auto simp: committed_no_checkpoint repo_at_def in_range_def ascending_filter)

theorem WalkRanges_complete_witness:
  "\<exists>w'. run_visits log_visit id (in_range [PrefixRange ''a/''] (items_recs ex_its)) []
        = (None, [(''a/1'', ''x'', ''x''), (''a/2'', ''y'', ''y'')]) \<and>
     WalkRanges (\<lambda>w. None) ex_node (backfill_walker ex_L ex_C ex_f 0 None) ''R'' [PrefixRange ''a/'']
       log_visit ((), Map.empty) [] = Some (None, w', [(''a/1'', ''x'', ''x''), (''a/2'', ''y'', ''y'')])"
proof -
  obtain w' where "WalkRanges (\<lambda>w. None) ex_node (backfill_walker ex_L ex_C ex_f 0 None) ''R''
      [PrefixRange ''a/''] log_visit ((), Map.empty) []
      = Some (None, w', [(''a/1'', ''x'', ''x''), (''a/2'', ''y'', ''y'')])"
    using ex_walk by auto
  with WalkRanges_complete [OF ex_repo this] show ?thesis by blast
qed

text \<open>
  C2.  A walk always returns, whatever the host answers; and when every fetch of the tree's CIDs
  succeeds, the context is not cancelled and the visitor accepts, it returns nil.
\<close>

theorem WalkRanges_terminates:
  assumes "repo_at node L blk root its"
  shows "WalkRanges ctx_Err node (backfill_walker L C f b None) root ranges visit w v \<noteq> None \<and>
    ((\<forall>w. ctx_Err w = None) \<and> (\<forall>k c d v. fst (visit k c d v) = None) \<and>
     (\<forall>cs w. set cs \<subseteq> set (item_cids (Sub root its)) \<longrightarrow> (\<exists>m w'. walk_fetcher L C f cs w = (Inr m, w'))) \<and>
     ranges \<noteq> [] \<and> (\<forall>r\<in>set ranges. proper_range r)
     \<longrightarrow> (\<exists>w' v'. WalkRanges ctx_Err node (backfill_walker L C f b None) root ranges visit w v = Some (None, w', v')))"
  using walk_returns [OF assms, of ctx_Err C f b None ranges visit w v]
    walk_succeeds [OF assms, of ctx_Err visit C f ranges b w v] by auto

theorem WalkRanges_terminates_witness:
  "\<exists>w' v'. WalkRanges (\<lambda>w. None) ex_node (backfill_walker ex_L ex_C ex_f 0 None) ''R'' [PrefixRange ''b/'']
     log_visit ((), Map.empty) [] = Some (None, w', v')"
proof -
  have "\<exists>m w'. walk_fetcher ex_L ex_C ex_f cs w = (Inr m, w')"
    if "set cs \<subseteq> set (item_cids (Sub ''R'' ex_its))" for cs w
    using that by (intro ex_fetch) (simp add: ex_its_def)
  with WalkRanges_terminates [OF ex_repo, of "\<lambda>w. None" ex_C ex_f 0 "[PrefixRange ''b/'']" log_visit "((), Map.empty)" "[]"]
  show ?thesis by (simp add: log_visit_def PrefixRange_proper)
qed

text \<open>
  C29.  An aborted \<open>Resume\<close> loses nothing: from a frontier that stands for the items \<open>its\<close>, \<open>Resume\<close>
  returns, and the frontier it leaves stands for items whose records are exactly the ones that
  were not yet visited and checkpointed; what was is the leading part of the records in order.  A
  nil result means that nothing is left.
\<close>

theorem Resume_loses_nothing:
  assumes "holds node blk (pinned L blk) fr its" and "fr_Ranges fr \<noteq> []"
  shows "\<exists>e fr' w' v' ds its' v1.
    Resume ctx_Err node (backfill_walker L C f b cp) visit (Some fr) w v = Some (e, Some fr', w', v')
    \<and> committed cp visit blk v ds v1 \<and> holds node blk (pinned L blk) fr' its'
    \<and> in_range (fr_Ranges fr) (items_recs its) = ds @ in_range (fr_Ranges fr') (items_recs its')
    \<and> (e = None \<longrightarrow> fr_Pending fr' = [] \<and> v' = v1)"
proof -
  have "holds node blk (\<lambda>c. c \<in> UNIV \<and> pinned L blk c) fr its" using assms(1) by simp
  from pds.resume_loop_keeps [OF this, of ctx_Err C f b cp visit w v] assms(2)
  show ?thesis by (fastforce simp: Resume_def backfill_walker_def holds_def)
qed

theorem Resume_loses_nothing_witness:
  "\<exists>e fr' w' v' ds its' v1.
    Resume (\<lambda>w. None) ex_node (backfill_walker ex_L ex_C ex_f 0 None) log_visit
      (Some (start_frontier ''R'' [PrefixRange ''a/''])) ((), Map.empty) [] = Some (e, Some fr', w', v')
    \<and> committed None log_visit id [] ds v1 \<and> holds ex_node id (pinned ex_L id) fr' its'
    \<and> [(''a/1'', ''x''), (''a/2'', ''y'')] = ds @ in_range (fr_Ranges fr') (items_recs its')
    \<and> (e = None \<longrightarrow> fr_Pending fr' = [] \<and> v' = v1)"
proof -
  have h: "holds ex_node id (pinned ex_L id) (start_frontier ''R'' [PrefixRange ''a/'']) [Sub ''R'' ex_its]"
    using start_holds [OF ex_repo, of "[PrefixRange ''a/'']"] by (auto simp: holds_def good_item_def)
  have r: "in_range [PrefixRange ''a/''] (items_recs [Sub ''R'' ex_its]) = [(''a/1'', ''x''), (''a/2'', ''y'')]"
    by (simp add: ex_its_def PrefixRange_contains)
  show ?thesis
    using Resume_loses_nothing [OF h, of "\<lambda>w. None" ex_C ex_f 0 None log_visit "((), Map.empty)" "[]"]
    unfolding Frontier.select_convs r by simp
qed

section \<open>Collections\<close>

lemma run_collect:
  "run_visits collect_visit blk rs m = (None, foldl (\<lambda>m (k, c). Mapping.update k c m) m rs)"
  by (induction rs arbitrary: m) (auto simp: collect_visit_def)

lemma lookup_collected:
  "distinct (map fst rs) \<Longrightarrow>
     Mapping.lookup (foldl (\<lambda>m (k, c). Mapping.update k c m) m rs) k =
       (case map_of rs k of None \<Rightarrow> Mapping.lookup m k | Some c \<Rightarrow> Some c)"
proof (induction rs arbitrary: m)
  case (Cons r rs)
  obtain k' c where r: "r = (k', c)" by (cases r)
  with Cons have "map_of rs k' = None" by (auto simp: map_of_eq_None_iff)
  with Cons r show ?case by (auto simp: lookup_update' split: option.split)
qed simp

lemma CollectRanges_lookup:
  assumes "repo_at node L blk root its"
    and "CollectRanges ctx_Err node (backfill_walker L C f b None) root ranges w = Some (Inr out, w')"
  shows "Mapping.lookup out = map_of (in_range ranges (items_recs its))"
proof -
  let ?rs = "in_range ranges (items_recs its)"
  have "WalkRanges ctx_Err node (backfill_walker L C f b None) root ranges collect_visit w Mapping.empty
      = Some (None, w', out)"
    using assms(2) by (auto simp: CollectRanges_def split: option.splits)
  from walk_returns [OF assms(1), of ctx_Err C f b None ranges collect_visit w Mapping.empty] this
  have out: "out = foldl (\<lambda>m (k, c). Mapping.update k c m) Mapping.empty ?rs"
    by (simp add: committed_no_checkpoint run_collect)
  have "distinct (map fst ?rs)"
    using assms(1) by (auto simp: repo_at_def in_range_def intro!: ascending_distinct ascending_filter)
  from lookup_collected [OF this] out show ?thesis by (auto split: option.split)
qed

lemma DiffCollections_lists:
  assumes "finite (Mapping.keys prev)" and "finite (Mapping.keys cur)"
  shows "set (df_Created (DiffCollections prev cur)) = Mapping.keys cur - Mapping.keys prev"
    and "set (df_Updated (DiffCollections prev cur)) =
      {p \<in> Mapping.keys cur \<inter> Mapping.keys prev. Mapping.lookup prev p \<noteq> Mapping.lookup cur p}"
    and "set (df_Deleted (DiffCollections prev cur)) = Mapping.keys prev - Mapping.keys cur"
    and "ascending (df_Created (DiffCollections prev cur))"
    and "ascending (df_Updated (DiffCollections prev cur))"
    and "ascending (df_Deleted (DiffCollections prev cur))"
  using assms
  by (auto simp: DiffCollections_def ordered_keys_def sorted_wrt_filter keys_dom_lookup)

lemma keys_collected: "Mapping.lookup m = map_of rs \<Longrightarrow> Mapping.keys m = fst ` set rs"
  by (simp add: keys_dom_lookup dom_map_of_conv_image_fst)

lemma ex_collect:
  assumes "repo_at ex_node ex_L id root its" and "set (item_cids (Sub root its)) \<subseteq> ex_cids"
  shows "\<exists>out w'. CollectRanges (\<lambda>w. None) ex_node (backfill_walker ex_L ex_C ex_f 0 None) root
    [PrefixRange ''a/''] w = Some (Inr out, w')"
proof -
  have "\<exists>w' v'. WalkRanges (\<lambda>w. None) ex_node (backfill_walker ex_L ex_C ex_f 0 None) root
      [PrefixRange ''a/''] collect_visit w Mapping.empty = Some (None, w', v')"
  proof (rule walk_succeeds [OF assms(1)])
    fix cs w
    assume "set cs \<subseteq> set (item_cids (Sub root its))"
    then show "\<exists>m w'. walk_fetcher ex_L ex_C ex_f cs w = (Inr m, w')"
      using assms(2) by (intro ex_fetch) (rule subset_trans)
  qed (simp_all add: collect_visit_def PrefixRange_proper)
  then show ?thesis by (auto simp: CollectRanges_def)
qed

definition in_paths :: "KeyRange list \<Rightarrow> 'c mitem list \<Rightarrow> bytes set" where
  "in_paths R its = fst ` set (in_range R (items_recs its))"

lemma in_paths_wanted: "p \<in> in_paths R its \<Longrightarrow> rangesContain R p"
  by (auto simp: in_paths_def in_range_def)

lemma map_of_in_range: "rangesContain R k \<Longrightarrow> map_of (in_range R rs) k = map_of rs k"
  by (induction rs) (auto simp: in_range_def)

text \<open>
  The difference of two collections is the difference of the two repositories: when both walks
  return, \<open>Created\<close> lists the in-range paths that only the new tree has, \<open>Deleted\<close> those that only
  the old tree has, and \<open>Updated\<close> those whose record CID differs, each in ascending order.  So a path
  in \<open>Deleted\<close> really is gone.
\<close>

theorem DiffCollections_exact:
  assumes "repo_at node L blk old oits" and "repo_at node L blk new nits"
    and "CollectRanges ctx_Err node (backfill_walker L C f b None) old ranges w = Some (Inr prev, w1)"
    and "CollectRanges ctx_Err node (backfill_walker L C f b None) new ranges w1 = Some (Inr cur, w2)"
  shows "set (df_Created (DiffCollections prev cur)) = in_paths ranges nits - in_paths ranges oits
    \<and> set (df_Deleted (DiffCollections prev cur)) = in_paths ranges oits - in_paths ranges nits
    \<and> set (df_Updated (DiffCollections prev cur)) =
        {p \<in> in_paths ranges nits \<inter> in_paths ranges oits.
           map_of (items_recs oits) p \<noteq> map_of (items_recs nits) p}
    \<and> ascending (df_Created (DiffCollections prev cur))
    \<and> ascending (df_Updated (DiffCollections prev cur))
    \<and> ascending (df_Deleted (DiffCollections prev cur))"
proof -
  note lo = CollectRanges_lookup [OF assms(1,3)] and ln = CollectRanges_lookup [OF assms(2,4)]
  have "finite (Mapping.keys prev)" "finite (Mapping.keys cur)"
    by (simp_all add: keys_collected [OF lo] keys_collected [OF ln])
  note d = DiffCollections_lists [OF this, unfolded keys_collected [OF lo] keys_collected [OF ln] lo ln,
      folded in_paths_def]
  have "{p \<in> in_paths ranges nits \<inter> in_paths ranges oits.
        map_of (in_range ranges (items_recs oits)) p \<noteq> map_of (in_range ranges (items_recs nits)) p}
      = {p \<in> in_paths ranges nits \<inter> in_paths ranges oits.
        map_of (items_recs oits) p \<noteq> map_of (items_recs nits) p}"
    using in_paths_wanted [of _ ranges nits] by (auto simp: map_of_in_range)
  with d show ?thesis by simp
qed

theorem DiffCollections_exact_witness:
  "\<exists>prev w1 cur w2.
     CollectRanges (\<lambda>w. None) ex_node (backfill_walker ex_L ex_C ex_f 0 None) ''R'' [PrefixRange ''a/'']
       ((), Map.empty) = Some (Inr prev, w1) \<and>
     CollectRanges (\<lambda>w. None) ex_node (backfill_walker ex_L ex_C ex_f 0 None) ''N'' [PrefixRange ''a/'']
       w1 = Some (Inr cur, w2) \<and>
     set (df_Deleted (DiffCollections prev cur)) = {}"
proof -
  let ?W = "backfill_walker ex_L ex_C ex_f 0 None" and ?R = "[PrefixRange ''a/'']"
  have n: "repo_at ex_node ex_L id ''N'' [Rec ''a/1'' ''x'', Rec ''a/2'' ''y'']"
    by (simp add: repo_at_def pinned_def ex_node_def ex_L_def VerifyBlock_None)
  obtain prev w1 where p: "CollectRanges (\<lambda>w. None) ex_node ?W ''R'' ?R ((), Map.empty) = Some (Inr prev, w1)"
    using ex_collect [OF ex_repo, of "((), Map.empty)"] by (auto simp: ex_its_def)
  obtain cur w2 where c: "CollectRanges (\<lambda>w. None) ex_node ?W ''N'' ?R w1 = Some (Inr cur, w2)"
    using ex_collect [OF n, of w1] by auto
  have "in_paths ?R ex_its - in_paths ?R [Rec ''a/1'' ''x'', Rec ''a/2'' ''y''] = {}"
    by (simp add: in_paths_def ex_its_def PrefixRange_contains)
  with DiffCollections_exact [OF ex_repo n p c] have "set (df_Deleted (DiffCollections prev cur)) = {}"
    by simp
  with p c show ?thesis by blast
qed

section \<open>The frontier survives its JSON\<close>

definition nonempty_key :: "bytes option \<Rightarrow> bool" where
  "nonempty_key b \<longleftrightarrow> b \<noteq> Some []"

lemma map_res_map: "(\<And>x. x \<in> set xs \<Longrightarrow> f (g x) = Inr x) \<Longrightarrow> map_res f (map g xs) = Inr xs"
  by (induction xs) auto

lemma bytes_field_omitempty:
  "nonempty_key b \<Longrightarrow> map_of (omitempty n b) n = map_option JBytes b"
  "m \<noteq> n \<Longrightarrow> map_of (omitempty n b) m = None"
  by (cases b; cases "the b"; simp add: omitempty_def nonempty_key_def)+

lemma range_json_back: "range_of_json (range_json r) = Inr r"
  by (cases "kr_Hi r") (simp_all add: range_of_json_def range_json_def bytes_field_def field_def json_bytes_def)

lemma pending_json_back:
  assumes "cid_Decode (cid_String (pe_CID p)) = Inr (pe_CID p)"
    and "nonempty_key (pe_Key p)" "nonempty_key (pe_Lo p)" "nonempty_key (pe_Hi p)"
  shows "pending_of_json cid_Decode (pending_json cid_String p) = Inr p"
  using assms
  by (cases "pe_Key p"; cases "pe_Lo p"; cases "pe_Hi p")
     (simp_all add: pending_of_json_def pending_json_def string_field_def bytes_field_def field_def
        bytes_field_omitempty map_add_def)

text \<open>
  A checkpointed frontier comes back as it was: decoding the JSON of a frontier gives the
  frontier, when CIDs round-trip through their strings and no pending key or bound is the empty
  string (which \<open>omitempty\<close> would turn into nil; MST keys are never empty).
\<close>

theorem Frontier_JSON_roundtrip:
  assumes "\<forall>c. cid_Decode (cid_String c) = Inr c"
    and "\<forall>p\<in>set (fr_Pending fr). nonempty_key (pe_Key p) \<and> nonempty_key (pe_Lo p) \<and> nonempty_key (pe_Hi p)"
  shows "Frontier_UnmarshalJSON cid_Decode (Frontier_MarshalJSON cid_String fr) = Inr fr"
proof -
  have "map_res range_of_json (map range_json (fr_Ranges fr)) = Inr (fr_Ranges fr)"
    by (rule map_res_map) (rule range_json_back)
  moreover have "map_res (pending_of_json cid_Decode) (map (pending_json cid_String) (fr_Pending fr))
      = Inr (fr_Pending fr)"
    using assms by (intro map_res_map pending_json_back) auto
  ultimately show ?thesis using assms(1)
    by (simp add: Frontier_UnmarshalJSON_def Frontier_MarshalJSON_def string_field_def array_field_def field_def)
qed

theorem Frontier_JSON_roundtrip_witness:
  "Frontier_UnmarshalJSON Inr (Frontier_MarshalJSON id (start_frontier ''R'' [PrefixRange ''a/'']))
     = Inr (start_frontier ''R'' [PrefixRange ''a/''])"
  by (rule Frontier_JSON_roundtrip) (simp_all add: nonempty_key_def)

end
