(* ===== verification/Head.thy ===== *)
theory Head
  imports Walker
begin

text \<open>
  The verified head of a repository (\<open>reposync/head.go\<close>): the host's word about the latest commit,
  and the proof that the commit belongs to the account.  The commit format, the signature check and
  the identity directory are libraries: the fields of \<open>head_lib\<close>.
\<close>

record 'c commit =
  cm_DID :: string
  cm_Rev :: string
  cm_Data :: 'c

record latest_commit =
  lc_Cid :: string
  lc_Rev :: string

record ('c, 'key, 'w) head_lib =
  hl_ParseDID :: "string \<Rightarrow> go_error option"
  hl_GetLatestCommit :: "string \<Rightarrow> 'w \<Rightarrow> (go_error + latest_commit) \<times> 'w"
  hl_Decode :: "string \<Rightarrow> go_error + 'c"
  hl_UnmarshalCBOR :: "bytes \<Rightarrow> go_error + 'c commit"
  hl_VerifyStructure :: "'c commit \<Rightarrow> go_error option"
  hl_LookupKey :: "string \<Rightarrow> 'w \<Rightarrow> (go_error + (go_error + 'key)) \<times> 'w"
  hl_VerifySignature :: "'c commit \<Rightarrow> 'key \<Rightarrow> go_error option"

record 'c Head =
  hd_Commit :: "'c commit"
  hd_CID :: 'c
  hd_Root :: 'c
  hd_Rev :: string

text \<open>The variadic \<open>retry\<close> argument is a list; more than one policy is refused.\<close>

definition no_policy :: RetryPolicy where
  "no_policy = \<lparr>rp_MaxAttempts = 0, rp_BaseDelay = 0, rp_MaxDelay = 0, rp_Hints = [], rp_Host = []\<rparr>"

definition one_policy :: "RetryPolicy list \<Rightarrow> string \<Rightarrow> go_error + RetryPolicy" where
  "one_policy retry host =
     (case retry of
        [] \<Rightarrow> Inr (forHost no_policy host)
      | [p] \<Rightarrow> Inr (forHost p host)
      | _ \<Rightarrow> Inl (WrapErr ''at most one retry policy'' []))"

definition LatestCommit ::
  "('c, 'key, 'w) head_lib \<Rightarrow> 'w retry_env \<Rightarrow> string \<Rightarrow> string \<Rightarrow> RetryPolicy list \<Rightarrow> 'w \<Rightarrow>
   (go_error + latest_commit) \<times> 'w" where
  "LatestCommit H env host did retry w =
     (case one_policy retry host of
        Inl e \<Rightarrow> (Inl e, w)
      | Inr policy \<Rightarrow>
          (case retry_do policy env (hl_GetLatestCommit H did) w of
             (Inl e, w1) \<Rightarrow> (Inl (WrapErr ''com.atproto.sync.getLatestCommit'' [e]), w1)
           | (Inr latest, w1) \<Rightarrow> (Inr latest, w1)))"

text \<open>The checks on the commit block once it is here, in the order of the source.\<close>

definition check_commit ::
  "('c, 'key, 'w) head_lib \<Rightarrow> 'c cid_lib \<Rightarrow> string \<Rightarrow> latest_commit \<Rightarrow> 'c \<Rightarrow> bytes \<Rightarrow> go_error + 'c commit" where
  "check_commit H L did latest commitCID raw =
     (case VerifyBlock L commitCID raw of
        Some e \<Rightarrow> Inl (WrapErr ''commit block'' [e])
      | None \<Rightarrow>
          (case hl_UnmarshalCBOR H raw of
             Inl e \<Rightarrow> Inl (WrapErr ''decoding commit'' [e])
           | Inr commit \<Rightarrow>
               (case hl_VerifyStructure H commit of
                  Some e \<Rightarrow> Inl (WrapErr ''commit'' [e])
                | None \<Rightarrow>
                    if cm_DID commit \<noteq> did then Inl (WrapErr ''commit is for another repo'' [])
                    else if cm_Rev commit \<noteq> lc_Rev latest then Inl (WrapErr ''commit rev differs'' [])
                    else Inr commit)))"

definition check_signature ::
  "('c, 'key, 'w) head_lib \<Rightarrow> string \<Rightarrow> 'c \<Rightarrow> 'c commit \<Rightarrow> 'w \<Rightarrow> (go_error + 'c Head) \<times> 'w" where
  "check_signature H did commitCID commit w =
     (case hl_LookupKey H did w of
        (Inl e, w1) \<Rightarrow> (Inl (WrapErr ''resolving identity'' [e]), w1)
      | (Inr (Inl e), w1) \<Rightarrow> (Inl (WrapErr ''no atproto signing key'' [e]), w1)
      | (Inr (Inr pubkey), w1) \<Rightarrow>
          (case hl_VerifySignature H commit pubkey of
             Some e \<Rightarrow> (Inl (WrapErr ''commit signature'' [e]), w1)
           | None \<Rightarrow> (Inr \<lparr>hd_Commit = commit, hd_CID = commitCID, hd_Root = cm_Data commit,
                          hd_Rev = cm_Rev commit\<rparr>, w1)))"

definition FetchVerifiedHead ::
  "('c, 'key, 'w) head_lib \<Rightarrow> 'c cid_lib \<Rightarrow> 'w retry_env \<Rightarrow> string \<Rightarrow> ('c, 'w) get_blocks \<Rightarrow> string \<Rightarrow>
   RetryPolicy list \<Rightarrow> 'w \<Rightarrow> (go_error + 'c Head) \<times> 'w" where
  "FetchVerifiedHead H L env host getBlocks did retry w =
     (case one_policy retry host of
        Inl e \<Rightarrow> (Inl e, w)
      | Inr policy \<Rightarrow>
          (case hl_ParseDID H did of
             Some e \<Rightarrow> (Inl (WrapErr ''invalid did'' [e]), w)
           | None \<Rightarrow>
               (case LatestCommit H env host did [policy] w of
                  (Inl e, w1) \<Rightarrow> (Inl e, w1)
                | (Inr latest, w1) \<Rightarrow>
                    (case hl_Decode H (lc_Cid latest) of
                       Inl e \<Rightarrow> (Inl (WrapErr ''undecodable commit cid'' [e]), w1)
                     | Inr commitCID \<Rightarrow>
                         (case getBlocks [commitCID] w1 of
                            (Inl e, w2) \<Rightarrow> (Inl (WrapErr ''fetching commit block'' [e]), w2)
                          | (Inr blocks, w2) \<Rightarrow>
                              (case blocks commitCID of
                                 None \<Rightarrow> (Inl (WrapErr ''commit'' [ErrMissingBlock]), w2)
                               | Some raw \<Rightarrow>
                                   (case check_commit H L did latest commitCID raw of
                                      Inl e \<Rightarrow> (Inl e, w2)
                                    | Inr commit \<Rightarrow> check_signature H did commitCID commit w2)))))))"

section \<open>What a head proves\<close>

lemma check_commit_Inr:
  "check_commit H L did latest cid raw = Inr commit \<Longrightarrow>
     VerifyBlock L cid raw = None \<and> hl_UnmarshalCBOR H raw = Inr commit \<and>
     hl_VerifyStructure H commit = None \<and> cm_DID commit = did \<and> cm_Rev commit = lc_Rev latest"
  by (auto simp: check_commit_def split: option.splits sum.splits if_splits)

lemma check_signature_Inr:
  "check_signature H did cid commit w = (Inr h, w') \<Longrightarrow>
     h = \<lparr>hd_Commit = commit, hd_CID = cid, hd_Root = cm_Data commit, hd_Rev = cm_Rev commit\<rparr> \<and>
     (\<exists>key. hl_LookupKey H did w = (Inr (Inr key), w') \<and> hl_VerifySignature H commit key = None)"
  by (auto simp: check_signature_def split: prod.splits sum.splits option.splits)

text \<open>
  C24.  A head that \<open>FetchVerifiedHead\<close> returns is authentic whatever fetcher it was given: its CID is
  the hash of a block that decodes to its commit, the commit is well formed, names this account, and
  carries a signature that verifies under a key the directory gives for the account; \<open>Root\<close> and
  \<open>Rev\<close> are the commit's own.  So the host cannot put another account's tree, or an unsigned one,
  under the walk.
\<close>

theorem FetchVerifiedHead_authentic:
  assumes "FetchVerifiedHead H L env host getBlocks did retry w = (Inr h, w')"
  shows "(\<exists>raw. VerifyBlock L (hd_CID h) raw = None \<and> hl_UnmarshalCBOR H raw = Inr (hd_Commit h)) \<and>
    hl_VerifyStructure H (hd_Commit h) = None \<and> cm_DID (hd_Commit h) = did \<and>
    (\<exists>key u u'. hl_LookupKey H did u = (Inr (Inr key), u') \<and> hl_VerifySignature H (hd_Commit h) key = None) \<and>
    hd_Root h = cm_Data (hd_Commit h) \<and> hd_Rev h = cm_Rev (hd_Commit h)"
proof -
  obtain latest cid raw commit w2 where c: "check_commit H L did latest cid raw = Inr commit"
    and s: "check_signature H did cid commit w2 = (Inr h, w')"
    using assms by (auto simp: FetchVerifiedHead_def split: sum.splits option.splits prod.splits)
  from check_commit_Inr [OF c] check_signature_Inr [OF s] show ?thesis by auto
qed

definition ex_H :: "(string, unit, unit \<times> string mem_blocks) head_lib" where
  "ex_H = \<lparr>hl_ParseDID = \<lambda>d. None,
     hl_GetLatestCommit = \<lambda>d w. (Inr \<lparr>lc_Cid = ''x'', lc_Rev = ''3k''\<rparr>, w),
     hl_Decode = Inr,
     hl_UnmarshalCBOR = \<lambda>raw. Inr \<lparr>cm_DID = ''did:plc:a'', cm_Rev = ''3k'', cm_Data = ''R''\<rparr>,
     hl_VerifyStructure = \<lambda>c. None, hl_LookupKey = \<lambda>d w. (Inr (Inr ()), w),
     hl_VerifySignature = \<lambda>c k. None\<rparr>"

theorem FetchVerifiedHead_authentic_witness:
  "\<exists>h w'. FetchVerifiedHead ex_H ex_L
      \<lparr>env_Now = \<lambda>w. 0, env_Jitter = \<lambda>w d. d, env_Hints = \<lambda>w. [], env_Sleep = \<lambda>d w. (None, w)\<rparr>
      ''pds.example'' (walk_fetcher ex_L ex_C ex_f) ''did:plc:a'' [] ((), Map.empty) = (Inr h, w') \<and>
    cm_DID (hd_Commit h) = ''did:plc:a''"
proof -
  let ?env = "\<lparr>env_Now = \<lambda>w. 0, env_Jitter = \<lambda>w d. d, env_Hints = \<lambda>w. [], env_Sleep = \<lambda>d w. (None, w)\<rparr>
    :: (unit \<times> string mem_blocks) retry_env"
  have "map_sum (\<lambda>e. ()) hd_Root (fst (FetchVerifiedHead ex_H ex_L ?env ''pds.example'' (walk_fetcher ex_L ex_C ex_f)
      ''did:plc:a'' [] ((), Map.empty))) = Inr ''R''"
    by code_simp
  then obtain h w' where run: "FetchVerifiedHead ex_H ex_L ?env ''pds.example'' (walk_fetcher ex_L ex_C ex_f)
      ''did:plc:a'' [] ((), Map.empty) = (Inr h, w')"
    by (cases "FetchVerifiedHead ex_H ex_L ?env ''pds.example'' (walk_fetcher ex_L ex_C ex_f)
      ''did:plc:a'' [] ((), Map.empty)"; cases "fst (FetchVerifiedHead ex_H ex_L ?env ''pds.example''
      (walk_fetcher ex_L ex_C ex_f) ''did:plc:a'' [] ((), Map.empty))") auto
  from FetchVerifiedHead_authentic [OF run] run show ?thesis by blast
qed

end
