(* ===== verification/RepoTable.thy ===== *)
theory RepoTable
  imports Errors
begin

text \<open>
  The \<open>repos\<close> table of the index and the statements on it (\<open>model/repo.go\<close>).

  The table is the list of its rows, one per DID (\<open>table_ok\<close>).  A statement may fail: \<open>db_Faults\<close>
  lists the outcome of the statements to come (\<open>Some e\<close> when the database answers with the error \<open>e\<close>,
  in which case nothing is written), and an exhausted list means that none fails.  An \<open>UPDATE\<close> writes
  the selected columns of the rows its condition picks and reports how many it picked.
\<close>

section \<open>Rows\<close>

record Repo =
  repo_DID :: string
  repo_Handle :: string
  repo_PDS :: string
  repo_Version :: string
  repo_RootCID :: string
  repo_Status :: string
  repo_BackfillFloor :: string
  repo_BackfillDone :: bool
  repo_RepairFrom :: string

record db =
  db_Rows :: "Repo list"
  db_Faults :: "go_error option list"

definition TerminalStatus :: "Repo option \<Rightarrow> bool" where
  "TerminalStatus r = (case r of None \<Rightarrow> False | Some row \<Rightarrow> repo_Status row \<noteq> RepoStatusOK)"

text \<open>\<open>invalid\<close> is the syntax library's test for the sentinel handle.\<close>

definition IsUsableHandle :: "(string \<Rightarrow> bool) \<Rightarrow> string \<Rightarrow> bool" where
  "IsUsableHandle invalid handle \<longleftrightarrow> handle \<noteq> [] \<and> \<not> invalid handle"

definition HandleOrDID :: "(string \<Rightarrow> bool) \<Rightarrow> string \<Rightarrow> string \<Rightarrow> string" where
  "HandleOrDID invalid handle did = (if IsUsableHandle invalid handle then handle else did)"

section \<open>Statements\<close>

definition stmt :: "db \<Rightarrow> go_error option \<times> db" where
  "stmt d = (case db_Faults d of [] \<Rightarrow> (None, d) | f # fs \<Rightarrow> (f, d\<lparr>db_Faults := fs\<rparr>))"

definition row_of :: "Repo list \<Rightarrow> string \<Rightarrow> Repo option" where
  "row_of rows did = find (\<lambda>r. repo_DID r = did) rows"

definition update_where :: "(Repo \<Rightarrow> bool) \<Rightarrow> (Repo \<Rightarrow> Repo) \<Rightarrow> db \<Rightarrow> (go_error + nat) \<times> db" where
  "update_where P f d =
     (case stmt d of
        (Some e, d1) \<Rightarrow> (Inl e, d1)
      | (None, d1) \<Rightarrow>
          (Inr (length (filter P (db_Rows d1))),
           d1\<lparr>db_Rows := map (\<lambda>r. if P r then f r else r) (db_Rows d1)\<rparr>))"

definition GetRepo :: "string \<Rightarrow> db \<Rightarrow> (go_error + Repo option) \<times> db" where
  "GetRepo did d =
     (case stmt d of
        (Some e, d1) \<Rightarrow> (Inl e, d1)
      | (None, d1) \<Rightarrow> (Inr (row_of (db_Rows d1) did), d1))"

definition CountRepos :: "db \<Rightarrow> (go_error + nat) \<times> db" where
  "CountRepos d =
     (case stmt d of (Some e, d1) \<Rightarrow> (Inl e, d1) | (None, d1) \<Rightarrow> (Inr (length (db_Rows d1)), d1))"

definition GetAllRepos :: "db \<Rightarrow> (go_error + Repo list) \<times> db" where
  "GetAllRepos d =
     (case stmt d of (Some e, d1) \<Rightarrow> (Inl e, d1) | (None, d1) \<Rightarrow> (Inr (db_Rows d1), d1))"

abbreviation "ErrAmbiguousHandle \<equiv> Sentinel ''ErrAmbiguousHandle''"

definition GetRepoByHandle ::
  "(string \<Rightarrow> bool) \<Rightarrow> (string \<Rightarrow> string) \<Rightarrow> string \<Rightarrow> db \<Rightarrow> (go_error + Repo option) \<times> db" where
  "GetRepoByHandle invalid ToLower handle d =
     (if \<not> IsUsableHandle invalid handle then (Inr None, d)
      else case stmt d of
        (Some e, d1) \<Rightarrow> (Inl e, d1)
      | (None, d1) \<Rightarrow>
          (case take 2 (filter (\<lambda>r. repo_Handle r = ToLower handle) (db_Rows d1)) of
             [] \<Rightarrow> (Inr None, d1)
           | [r] \<Rightarrow> (Inr (Some r), d1)
           | _ \<Rightarrow> (Inl (WrapErr handle [ErrAmbiguousHandle]), d1)))"

definition GetRepoByHandleOrDID ::
  "(string \<Rightarrow> bool) \<Rightarrow> (string \<Rightarrow> string) \<Rightarrow> string \<Rightarrow> db \<Rightarrow> (go_error + Repo option) \<times> db" where
  "GetRepoByHandleOrDID invalid ToLower arg d =
     (if prefix ''did:'' arg then GetRepo arg d else GetRepoByHandle invalid ToLower arg d)"

text \<open>\<open>Save\<close> writes every column: an update of the row with this primary key, or an insert.\<close>

definition UpdateRepo :: "Repo \<Rightarrow> db \<Rightarrow> go_error option \<times> db" where
  "UpdateRepo repo d =
     (case stmt d of
        (Some e, d1) \<Rightarrow> (Some e, d1)
      | (None, d1) \<Rightarrow>
          (None, d1\<lparr>db_Rows :=
             (if row_of (db_Rows d1) (repo_DID repo) = None then db_Rows d1 @ [repo]
              else map (\<lambda>r. if repo_DID r = repo_DID repo then repo else r) (db_Rows d1))\<rparr>))"

text \<open>The three statements of \<open>UpdateRepoIdentity\<close> run in a transaction: an error rolls all of them
  back.\<close>

definition UpdateRepoIdentity ::
  "(string \<Rightarrow> bool) \<Rightarrow> string \<Rightarrow> string \<Rightarrow> string \<Rightarrow> db \<Rightarrow> (go_error option \<times> string list) \<times> db" where
  "UpdateRepoIdentity invalid did handle pds d =
     (case update_where (\<lambda>r. repo_DID r = did \<and> (repo_Handle r \<noteq> handle \<or> repo_PDS r \<noteq> pds))
             (\<lambda>r. r\<lparr>repo_Handle := handle, repo_PDS := pds\<rparr>) d of
        (Inl e, d1) \<Rightarrow> ((Some e, []), d1\<lparr>db_Rows := db_Rows d\<rparr>)
      | (Inr n, d1) \<Rightarrow>
          if \<not> IsUsableHandle invalid handle then ((None, []), d1)
          else case stmt d1 of
            (Some e, d2) \<Rightarrow> ((Some e, []), d2\<lparr>db_Rows := db_Rows d\<rparr>)
          | (None, d2) \<Rightarrow>
              (let evicted = map repo_DID (filter (\<lambda>r. repo_Handle r = handle \<and> repo_DID r \<noteq> did) (db_Rows d2))
               in if evicted = [] then ((None, []), d2)
                  else case update_where (\<lambda>r. repo_DID r \<in> set evicted) (\<lambda>r. r\<lparr>repo_Handle := []\<rparr>) d2 of
                    (Inl e, d3) \<Rightarrow> ((Some e, evicted), d3\<lparr>db_Rows := db_Rows d\<rparr>)
                  | (Inr k, d3) \<Rightarrow> ((None, evicted), d3)))"

definition SetRepoStatus :: "string \<Rightarrow> string \<Rightarrow> db \<Rightarrow> go_error option \<times> db" where
  "SetRepoStatus did status d =
     (case update_where (\<lambda>r. repo_DID r = did) (\<lambda>r. r\<lparr>repo_Status := status\<rparr>) d of
        (Inl e, d1) \<Rightarrow> (Some e, d1) | (Inr n, d1) \<Rightarrow> (None, d1))"

definition applied :: "(go_error + nat) \<times> db \<Rightarrow> (go_error + bool) \<times> db" where
  "applied res = (case res of (Inl e, d) \<Rightarrow> (Inl e, d) | (Inr n, d) \<Rightarrow> (Inr (n > 0), d))"

definition AdvanceRepoBackfill ::
  "string \<Rightarrow> string \<Rightarrow> string \<Rightarrow> string \<Rightarrow> bool \<Rightarrow> db \<Rightarrow> (go_error + bool) \<times> db" where
  "AdvanceRepoBackfill did version rootCID floor done d =
     applied (update_where (\<lambda>r. repo_DID r = did \<and> repo_Version r \<noteq> [])
       (\<lambda>r. r\<lparr>repo_Version := version, repo_RootCID := rootCID, repo_BackfillFloor := floor,
              repo_BackfillDone := done\<rparr>) d)"

definition AdvanceRepoVersion :: "string \<Rightarrow> string \<Rightarrow> string \<Rightarrow> db \<Rightarrow> (go_error + bool) \<times> db" where
  "AdvanceRepoVersion did from to d =
     (if from = [] \<or> to = [] then (Inr False, d)
      else applied (update_where (\<lambda>r. repo_DID r = did \<and> repo_Version r = from)
             (\<lambda>r. r\<lparr>repo_Version := to\<rparr>) d))"

definition MarkRepoForRepair :: "string \<Rightarrow> string \<Rightarrow> db \<Rightarrow> (go_error + bool) \<times> db" where
  "MarkRepoForRepair did from d =
     (if from = [] then (Inr False, d)
      else applied (update_where (\<lambda>r. repo_DID r = did \<and> repo_Version r = from)
             (\<lambda>r. r\<lparr>repo_Version := [], repo_RepairFrom := from\<rparr>) d))"

definition TerminalRepoDIDs :: "db \<Rightarrow> (go_error + string list) \<times> db" where
  "TerminalRepoDIDs d =
     (case stmt d of
        (Some e, d1) \<Rightarrow> (Inl e, d1)
      | (None, d1) \<Rightarrow> (Inr (map repo_DID (filter (\<lambda>r. repo_Status r \<noteq> RepoStatusOK) (db_Rows d1))), d1))"

text \<open>\<open>parkTerminalRepo\<close> (\<open>atproto/backfill_walk.go\<close>).\<close>

definition parkTerminalRepo :: "string \<Rightarrow> go_error \<Rightarrow> db \<Rightarrow> go_error option \<times> db" where
  "parkTerminalRepo did err d =
     (let status = repoStatusFromError err in
      if status = RepoStatusOK then (None, d)
      else case SetRepoStatus did status d of
        (Some serr, d1) \<Rightarrow> (Some (WrapErr ''failed to record status'' [serr]), d1)
      | (None, d1) \<Rightarrow> (Some (TerminalRepoError status err), d1))"

section \<open>The invariant and what each statement writes\<close>

definition table_ok :: "db \<Rightarrow> bool" where
  "table_ok d \<longleftrightarrow> distinct (map repo_DID (db_Rows d))"

abbreviation row :: "db \<Rightarrow> string \<Rightarrow> Repo option" where
  "row d did \<equiv> row_of (db_Rows d) did"

lemma stmt_rows [simp]: "stmt d = (e, d1) \<Longrightarrow> db_Rows d1 = db_Rows d"
  by (auto simp: stmt_def split: list.splits)

lemma stmt_no_faults: "db_Faults d = [] \<Longrightarrow> stmt d = (None, d)"
  by (simp add: stmt_def)

lemma row_of_Some: "row_of rows did = Some r \<Longrightarrow> r \<in> set rows \<and> repo_DID r = did"
  by (auto simp: row_of_def find_Some_iff)

lemma row_of_None: "row_of rows did = None \<longleftrightarrow> did \<notin> repo_DID ` set rows"
  by (auto simp: row_of_def find_None_iff)

lemma row_of_Cons: "row_of (r # rows) did = (if repo_DID r = did then Some r else row_of rows did)"
  by (simp add: row_of_def)

lemma row_of_map:
  assumes "\<And>r. repo_DID (f r) = repo_DID r"
  shows "row_of (map f rows) did = map_option f (row_of rows did)"
  using assms by (induction rows) (auto simp: row_of_Cons row_of_def)

lemma in_rows: "distinct (map repo_DID rows) \<Longrightarrow> r \<in> set rows \<Longrightarrow> row_of rows (repo_DID r) = Some r"
  by (induction rows) (auto simp: row_of_Cons rev_image_eqI)

text \<open>An update that keeps primary keys, seen row by row.\<close>

lemma update_where_row:
  assumes "\<And>r. repo_DID (f r) = repo_DID r" and "update_where P f d = (res, d')"
  shows "row d' x = (case res of Inl e \<Rightarrow> row d x | Inr n \<Rightarrow> map_option (\<lambda>r. if P r then f r else r) (row d x))"
    and "table_ok d \<Longrightarrow> table_ok d'"
proof -
  have keys: "map repo_DID (map (\<lambda>r. if P r then f r else r) rows) = map repo_DID rows" for rows
    using assms(1) by simp
  have rows: "row_of (map (\<lambda>r. if P r then f r else r) rows) x
      = map_option (\<lambda>r. if P r then f r else r) (row_of rows x)" for rows
    by (rule row_of_map) (simp add: assms(1))
  show "row d' x = (case res of Inl e \<Rightarrow> row d x | Inr n \<Rightarrow> map_option (\<lambda>r. if P r then f r else r) (row d x))"
    using assms(2) by (auto simp: update_where_def rows split: prod.splits option.splits)
  show "table_ok d \<Longrightarrow> table_ok d'"
    using assms(2) by (auto simp: update_where_def table_ok_def keys simp del: map_map split: prod.splits option.splits)
qed

lemma update_where_count:
  assumes "update_where P f d = (Inr n, d')" and "table_ok d" and "\<And>r. P r \<Longrightarrow> repo_DID r = did"
  shows "0 < n \<longleftrightarrow> (\<exists>r. row d did = Some r \<and> P r)"
proof -
  have "n = length (filter P (db_Rows d))"
    using assms(1) by (auto simp: update_where_def split: prod.splits option.splits)
  then have "0 < n \<longleftrightarrow> (\<exists>r\<in>set (db_Rows d). P r)" by (simp add: filter_empty_conv)
  also have "\<dots> \<longleftrightarrow> (\<exists>r. row d did = Some r \<and> P r)"
  proof
    assume "\<exists>r\<in>set (db_Rows d). P r"
    then obtain r where r: "r \<in> set (db_Rows d)" "P r" by blast
    with in_rows [OF assms(2) [unfolded table_ok_def], of r] assms(3)
    show "\<exists>r. row d did = Some r \<and> P r" by auto
  next
    assume "\<exists>r. row d did = Some r \<and> P r"
    then show "\<exists>r\<in>set (db_Rows d). P r" by (auto dest: row_of_Some)
  qed
  finally show ?thesis .
qed

text \<open>The compare-and-swap statements, for every outcome.\<close>

lemma cas_row:
  assumes "applied (update_where (\<lambda>r. repo_DID r = did \<and> Q r) f d) = (res, d')" and "table_ok d"
    and "\<And>r. repo_DID (f r) = repo_DID r"
  shows "table_ok d' \<and>
    (case res of
       Inl e \<Rightarrow> \<forall>x. row d' x = row d x
     | Inr b \<Rightarrow> (b \<longleftrightarrow> (\<exists>r. row d did = Some r \<and> Q r)) \<and>
         (\<forall>x. row d' x = (if b \<and> x = did then map_option f (row d x) else row d x)))"
proof -
  let ?P = "\<lambda>r. repo_DID r = did \<and> Q r"
  obtain u where u: "update_where ?P f d = (u, d')" and res: "res = map_sum id (\<lambda>n. 0 < n) u"
    using assms(1) by (cases "update_where ?P f d") (auto simp: applied_def split: sum.splits)
  note upd = update_where_row [where P = ?P, OF assms(3) u]
  show ?thesis
  proof (cases u)
    case (Inl e)
    then show ?thesis using res upd assms(2) by simp
  next
    case (Inr n)
    have b: "0 < n \<longleftrightarrow> (\<exists>r. row d did = Some r \<and> Q r)"
      using update_where_count [of ?P f d n d' did] u Inr assms(2) by (auto dest: row_of_Some)
    have "row d' x = (if 0 < n \<and> x = did then map_option f (row d x) else row d x)" for x
      using upd(1) [of x] b Inr by (cases "row d x") (auto dest: row_of_Some)
    then show ?thesis using res Inr b upd(2) [OF assms(2)] by simp
  qed
qed

lemma AdvanceRepoVersion_row:
  assumes "AdvanceRepoVersion did from to d = (res, d')" and "table_ok d"
  shows "table_ok d' \<and>
    (case res of
       Inl e \<Rightarrow> \<forall>x. row d' x = row d x
     | Inr b \<Rightarrow> (b \<longleftrightarrow> from \<noteq> [] \<and> to \<noteq> [] \<and> (\<exists>r. row d did = Some r \<and> repo_Version r = from)) \<and>
         (\<forall>x. row d' x = (if b \<and> x = did then map_option (\<lambda>r. r\<lparr>repo_Version := to\<rparr>) (row d x) else row d x)))"
  using assms cas_row [of did "\<lambda>r. repo_Version r = from" "\<lambda>r. r\<lparr>repo_Version := to\<rparr>" d res d']
  by (auto simp: AdvanceRepoVersion_def split: if_splits sum.splits)

lemma MarkRepoForRepair_row:
  assumes "MarkRepoForRepair did from d = (res, d')" and "table_ok d"
  shows "table_ok d' \<and>
    (case res of
       Inl e \<Rightarrow> \<forall>x. row d' x = row d x
     | Inr b \<Rightarrow> (b \<longleftrightarrow> from \<noteq> [] \<and> (\<exists>r. row d did = Some r \<and> repo_Version r = from)) \<and>
         (\<forall>x. row d' x = (if b \<and> x = did
            then map_option (\<lambda>r. r\<lparr>repo_Version := [], repo_RepairFrom := from\<rparr>) (row d x) else row d x)))"
  using assms cas_row [of did "\<lambda>r. repo_Version r = from" "\<lambda>r. r\<lparr>repo_Version := [], repo_RepairFrom := from\<rparr>" d res d']
  by (auto simp: MarkRepoForRepair_def split: if_splits sum.splits)

lemma AdvanceRepoBackfill_row:
  assumes "AdvanceRepoBackfill did v root floor done d = (res, d')" and "table_ok d"
  shows "table_ok d' \<and>
    (case res of
       Inl e \<Rightarrow> \<forall>x. row d' x = row d x
     | Inr b \<Rightarrow> (b \<longleftrightarrow> (\<exists>r. row d did = Some r \<and> repo_Version r \<noteq> [])) \<and>
         (\<forall>x. row d' x = (if b \<and> x = did
            then map_option (\<lambda>r. r\<lparr>repo_Version := v, repo_RootCID := root, repo_BackfillFloor := floor,
                   repo_BackfillDone := done\<rparr>) (row d x) else row d x)))"
  using assms cas_row [of did "\<lambda>r. repo_Version r \<noteq> []" "\<lambda>r. r\<lparr>repo_Version := v, repo_RootCID := root,
      repo_BackfillFloor := floor, repo_BackfillDone := done\<rparr>" d res d']
  by (auto simp: AdvanceRepoBackfill_def split: sum.splits)

lemma SetRepoStatus_row:
  assumes "SetRepoStatus did status d = (e, d')"
  shows "(table_ok d \<longrightarrow> table_ok d') \<and>
    row d' x = (if e = None \<and> x = did then map_option (\<lambda>r. r\<lparr>repo_Status := status\<rparr>) (row d x) else row d x)"
proof -
  obtain u where u: "update_where (\<lambda>r. repo_DID r = did) (\<lambda>r. r\<lparr>repo_Status := status\<rparr>) d = (u, d')"
    and e: "e = (case u of Inl e \<Rightarrow> Some e | Inr n \<Rightarrow> None)"
    using assms by (auto simp: SetRepoStatus_def split: prod.splits sum.splits)
  from update_where_row [OF _ u] e show ?thesis
    by (cases u; cases "row d x") (auto dest: row_of_Some)
qed

lemma UpdateRepo_row:
  assumes "UpdateRepo repo d = (e, d')"
  shows "(table_ok d \<longrightarrow> table_ok d') \<and>
    row d' x = (if e = None \<and> x = repo_DID repo then Some repo else row d x)"
proof (cases "stmt d")
  case (Pair f d1)
  have app: "row_of (rows @ [repo]) y = (if row_of rows y = None \<and> repo_DID repo = y then Some repo else row_of rows y)" for rows y
    by (induction rows) (auto simp: row_of_Cons row_of_def)
  have upd: "row_of (map (\<lambda>r. if repo_DID r = repo_DID repo then repo else r) rows) y =
      map_option (\<lambda>r. if repo_DID r = repo_DID repo then repo else r) (row_of rows y)" for rows y
    by (rule row_of_map) simp
  have keys: "map repo_DID (map (\<lambda>r. if repo_DID r = repo_DID repo then repo else r) rows) = map repo_DID rows" for rows
    by simp
  show ?thesis
  proof (cases "row d (repo_DID repo)")
    case None
    then show ?thesis using assms Pair
      by (auto simp: UpdateRepo_def app table_ok_def row_of_None split: option.splits)
  next
    case (Some r)
    then show ?thesis using assms Pair
      by (cases "row d x") (auto simp: UpdateRepo_def upd table_ok_def keys simp del: map_map
          split: option.splits dest: row_of_Some)
  qed
qed

section \<open>Handles have one owner\<close>

definition claims :: "db \<Rightarrow> string \<Rightarrow> string \<Rightarrow> bool" where
  "claims d did handle \<longleftrightarrow> (\<exists>r. row d did = Some r \<and> repo_Handle r = handle)"

text \<open>The columns an identity refresh does not own.\<close>

definition sync_columns :: "Repo \<Rightarrow> string \<times> string \<times> string \<times> string \<times> bool \<times> string" where
  "sync_columns r = (repo_Version r, repo_RootCID r, repo_Status r, repo_BackfillFloor r,
     repo_BackfillDone r, repo_RepairFrom r)"

lemma claimants:
  assumes "table_ok d"
  shows "set (map repo_DID (filter (\<lambda>r. repo_Handle r = h \<and> repo_DID r \<noteq> did) (db_Rows d)))
    = {x. x \<noteq> did \<and> claims d x h}"
  using in_rows [OF assms [unfolded table_ok_def]] row_of_Some
  by (fastforce simp: claims_def)

lemma UpdateRepoIdentity_rows:
  assumes run: "UpdateRepoIdentity invalid did handle pds d = ((None, evicted), d')"
    and ok: "table_ok d" and usable: "IsUsableHandle invalid handle"
  shows "table_ok d' \<and> set evicted = {x. x \<noteq> did \<and> claims d x handle} \<and>
    (\<forall>x. row d' x = map_option (\<lambda>r. if x = did then r\<lparr>repo_Handle := handle, repo_PDS := pds\<rparr>
        else if repo_Handle r = handle then r\<lparr>repo_Handle := []\<rparr> else r) (row d x))"
proof -
  let ?P = "\<lambda>r. repo_DID r = did \<and> (repo_Handle r \<noteq> handle \<or> repo_PDS r \<noteq> pds)"
  let ?f = "\<lambda>r. r\<lparr>repo_Handle := handle, repo_PDS := pds\<rparr>"
  obtain n d1 d2 where u: "update_where ?P ?f d = (Inr n, d1)" and st: "stmt d1 = (None, d2)"
    using run usable by (auto simp: UpdateRepoIdentity_def Let_def split: prod.splits sum.splits option.splits)
  define ev where "ev = map repo_DID (filter (\<lambda>r. repo_Handle r = handle \<and> repo_DID r \<noteq> did) (db_Rows d2))"
  note u1 = update_where_row [where P = ?P, OF _ u]
  have t1: "table_ok d1" and r1: "row d1 x = map_option (\<lambda>r. if x = did then ?f r else r) (row d x)" for x
    using u1(2) ok u1(1) [of x] by (cases "row d x"; auto dest: row_of_Some)+
  have rows2: "db_Rows d2 = db_Rows d1" using st by simp
  then have t2: "table_ok d2" using t1 by (simp add: table_ok_def)
  have ev: "set ev = {x. x \<noteq> did \<and> claims d x handle}"
    using claimants [OF t2, of handle did] r1 by (auto simp: ev_def claims_def rows2)
  show ?thesis
  proof (cases "ev = []")
    case True
    then have "evicted = ev" "d' = d2"
      using run usable u st by (auto simp: UpdateRepoIdentity_def Let_def ev_def)
    moreover have "row d2 x = map_option (\<lambda>r. if x = did then ?f r
        else if repo_Handle r = handle then r\<lparr>repo_Handle := []\<rparr> else r) (row d x)" for x
      using r1 [of x] rows2 ev True by (cases "row d x") (auto simp: claims_def)
    ultimately show ?thesis using t2 ev by simp
  next
    case False
    then obtain k where ev2: "evicted = ev"
      and u2: "update_where (\<lambda>r. repo_DID r \<in> set ev) (\<lambda>r. r\<lparr>repo_Handle := []\<rparr>) d2 = (Inr k, d')"
      using run usable u st by (auto simp: UpdateRepoIdentity_def Let_def ev_def split: prod.splits sum.splits)
    have key: "\<And>r. repo_DID (r\<lparr>repo_Handle := []\<rparr>) = repo_DID r" by simp
    note u3 = update_where_row [OF key u2]
    have "row d' x = map_option (\<lambda>r. if x = did then ?f r
        else if repo_Handle r = handle then r\<lparr>repo_Handle := []\<rparr> else r) (row d x)" for x
    proof (cases "row d x")
      case None
      then show ?thesis using u3(1) [of x] r1 [of x] rows2 by simp
    next
      case (Some r)
      then have "repo_DID r = x" by (simp add: row_of_Some)
      moreover have "x \<in> set ev \<longleftrightarrow> x \<noteq> did \<and> repo_Handle r = handle"
        using ev Some by (simp add: claims_def)
      ultimately show ?thesis using u3(1) [of x] r1 [of x] rows2 Some by (cases "x = did") simp_all
    qed
    then show ?thesis using u3(2) [OF t2] ev ev2 by simp
  qed
qed

lemma filter_one:
  assumes "distinct (map repo_DID rows)" and "\<And>r. r \<in> set rows \<Longrightarrow> P r \<Longrightarrow> repo_DID r = did"
  shows "filter P rows = (case row_of rows did of Some r \<Rightarrow> if P r then [r] else [] | None \<Rightarrow> [])"
  using assms
proof (induction rows)
  case (Cons r rows)
  show ?case
  proof (cases "repo_DID r = did")
    case True
    have "filter P rows = []"
    proof (intro filter_False ballI notI)
      fix x
      assume x: "x \<in> set rows" "P x"
      with Cons.prems(2) [of x] True have "repo_DID x = repo_DID r" by simp
      with x Cons.prems(1) show False by (simp add: rev_image_eqI)
    qed
    with True show ?thesis by (simp add: row_of_Cons)
  next
    case False
    then show ?thesis using Cons by (auto simp: row_of_Cons)
  qed
qed (simp add: row_of_def)

lemma handle_lookup:
  assumes "table_ok d" and "{x. claims d x h} \<subseteq> {did}"
  shows "take 2 (filter (\<lambda>r. repo_Handle r = h) (db_Rows d)) =
    (case row d did of Some r \<Rightarrow> if repo_Handle r = h then [r] else [] | None \<Rightarrow> [])"
proof -
  have "repo_DID r = did" if "r \<in> set (db_Rows d)" "repo_Handle r = h" for r
    using that assms in_rows [of "db_Rows d" r] by (fastforce simp: table_ok_def claims_def)
  from filter_one [OF assms(1) [unfolded table_ok_def] this] show ?thesis
    by (simp split: option.split)
qed

text \<open>
  A refreshed identity owns its handle alone.  When \<open>UpdateRepoIdentity\<close> succeeds with a usable
  handle, every other account that claimed the handle loses it and exactly those accounts are
  reported; the account's own row carries the handle and PDS; no column of the sync engine changes on
  any row; and a lookup by that handle then finds the account, where an ambiguous handle was an error
  before.
\<close>

theorem UpdateRepoIdentity_single_owner:
  assumes "UpdateRepoIdentity invalid did handle pds d = ((None, evicted), d')" and "table_ok d"
    and "IsUsableHandle invalid handle" and "ToLower handle = handle"
  shows "set evicted = {x. x \<noteq> did \<and> claims d x handle} \<and>
    {x. claims d' x handle} = {x. x = did \<and> row d did \<noteq> None} \<and>
    (\<forall>x. map_option sync_columns (row d' x) = map_option sync_columns (row d x)) \<and>
    (db_Faults d' = [] \<longrightarrow> GetRepoByHandle invalid ToLower handle d' =
       (Inr (map_option (\<lambda>r. r\<lparr>repo_Handle := handle, repo_PDS := pds\<rparr>) (row d did)), d'))"
proof -
  note u = UpdateRepoIdentity_rows [OF assms(1-3)]
  have ne: "handle \<noteq> []" using assms(3) by (simp add: IsUsableHandle_def)
  have "claims d' x handle \<longleftrightarrow> x = did \<and> row d did \<noteq> None" for x
    using u ne by (cases "row d x") (auto simp: claims_def)
  then have own: "{x. claims d' x handle} = {x. x = did \<and> row d did \<noteq> None}" by simp
  have sync: "map_option sync_columns (row d' x) = map_option sync_columns (row d x)" for x
    using u by (cases "row d x") (auto simp: sync_columns_def)
  have look: "GetRepoByHandle invalid ToLower handle d' =
      (Inr (map_option (\<lambda>r. r\<lparr>repo_Handle := handle, repo_PDS := pds\<rparr>) (row d did)), d')"
    if "db_Faults d' = []"
    using that handle_lookup [of d' handle did] own u assms(3,4)
    by (cases "row d did") (auto simp: GetRepoByHandle_def stmt_no_faults)
  show ?thesis using u own sync look by blast
qed

definition ex_claimant :: "string \<Rightarrow> Repo" where
  "ex_claimant did = \<lparr>repo_DID = did, repo_Handle = ''a.test'', repo_PDS = ''old'', repo_Version = ''3k1'', repo_RootCID = [],
     repo_Status = [], repo_BackfillFloor = [], repo_BackfillDone = False, repo_RepairFrom = []\<rparr>"

theorem UpdateRepoIdentity_single_owner_witness:
  "\<exists>d'. UpdateRepoIdentity (\<lambda>h. h = ''handle.invalid'') ''did:plc:a'' ''a.test'' ''new''
       \<lparr>db_Rows = [ex_claimant ''did:plc:a'', ex_claimant ''did:plc:b''], db_Faults = []\<rparr> = ((None, [''did:plc:b'']), d') \<and>
     {x. claims d' x ''a.test''} = {''did:plc:a''}"
proof -
  let ?d = "\<lparr>db_Rows = [ex_claimant ''did:plc:a'', ex_claimant ''did:plc:b''], db_Faults = []\<rparr>"
  obtain d' where run: "UpdateRepoIdentity (\<lambda>h. h = ''handle.invalid'') ''did:plc:a'' ''a.test'' ''new'' ?d
      = ((None, [''did:plc:b'']), d')"
    by (simp add: UpdateRepoIdentity_def update_where_def stmt_def ex_claimant_def IsUsableHandle_def Let_def)
  have "table_ok ?d" "IsUsableHandle (\<lambda>h. h = ''handle.invalid'') ''a.test''" "id ''a.test'' = ''a.test''"
    "row ?d ''did:plc:a'' \<noteq> None"
    by (simp_all add: table_ok_def ex_claimant_def IsUsableHandle_def row_of_def)
  with UpdateRepoIdentity_single_owner [OF run, of id] run show ?thesis by auto
qed

end
