(* ===== verification/Contiguity.thy ===== *)
theory Contiguity
  imports RepoTable
begin

text \<open>
  Keeping a repository's revision honest (\<open>atproto/contiguity.go\<close>, \<open>reposync/tid.go\<close> and the
  in-flight marks of \<open>atproto/atproto.go\<close>): the compare-and-swap loop that places a firehose commit,
  the floor of a repair, and the merge of what a sync learned with what the row knew.

  The handler of a commit is modelled twice: as the sequential function of the source, and one
  statement at a time, so that handlers of several commits interleave between any two statements.
\<close>

section \<open>Syncs in flight\<close>

type_synonym in_flight = "string \<rightharpoonup> nat"

definition markSyncInFlight :: "string \<Rightarrow> in_flight \<Rightarrow> in_flight" where
  "markSyncInFlight did m = m(did \<mapsto> (case m did of None \<Rightarrow> 0 | Some n \<Rightarrow> n) + 1)"

text \<open>The function \<open>markSyncInFlight\<close> returns.\<close>

definition unmarkSync :: "string \<Rightarrow> in_flight \<Rightarrow> in_flight" where
  "unmarkSync did m =
     (let n = (case m did of None \<Rightarrow> 0 | Some n \<Rightarrow> n) in
      if n \<le> 1 then m(did := None) else m(did \<mapsto> n - 1))"

definition syncInFlight :: "string \<Rightarrow> in_flight \<Rightarrow> bool" where
  "syncInFlight did m \<longleftrightarrow> (case m did of None \<Rightarrow> 0 | Some n \<Rightarrow> n) > 0"

section \<open>Timestamp identifiers\<close>

text \<open>\<open>tid_New\<close> and \<open>tid_Parse\<close> are the syntax library's: the TID of a number of microseconds with
  clock id zero, and the microseconds of a TID.\<close>

record tid_lib =
  tid_New :: "int \<Rightarrow> string"
  tid_Parse :: "string \<Rightarrow> go_error + int"

definition TIDForTime :: "tid_lib \<Rightarrow> time \<Rightarrow> string" where
  "TIDForTime T t = (let micros = t div 1000 in tid_New T (if micros < 0 then 0 else micros))"

definition TimeForTID :: "tid_lib \<Rightarrow> string \<Rightarrow> go_error + time" where
  "TimeForTID T tid = (case tid_Parse T tid of Inl e \<Rightarrow> Inl e | Inr micros \<Rightarrow> Inr (micros * 1000))"

text \<open>What is documented of TIDs, which hold 53 bits of microseconds: the TID of such a number encodes
  it and is not empty; TIDs sort by time, and the one with clock id zero is the least of its
  microsecond.  \<open>tid_end\<close> is the first instant a TID cannot express, in the year 2255.\<close>

definition tid_end :: time where "tid_end = 2 ^ 53 * 1000"

definition tid_laws :: "tid_lib \<Rightarrow> bool" where
  "tid_laws T \<longleftrightarrow>
     (\<forall>a. 0 \<le> a \<and> a < 2 ^ 53 \<longrightarrow> tid_Parse T (tid_New T a) = Inr a \<and> tid_New T a \<noteq> []) \<and>
     (\<forall>s a b. tid_Parse T s = Inr a \<and> 0 \<le> b \<and> b \<le> a \<and> b < 2 ^ 53 \<longrightarrow>
        tid_New T b \<le> s \<and> (b < a \<longrightarrow> tid_New T b < s)) \<and>
     (\<forall>s a. tid_Parse T s = Inr a \<longrightarrow> 0 \<le> a)"

lemma tid_New_Parse: "tid_laws T \<Longrightarrow> 0 \<le> a \<Longrightarrow> a < 2 ^ 53 \<Longrightarrow> tid_Parse T (tid_New T a) = Inr a"
  unfolding tid_laws_def by blast

lemma tid_New_nonempty: "tid_laws T \<Longrightarrow> 0 \<le> a \<Longrightarrow> a < 2 ^ 53 \<Longrightarrow> tid_New T a \<noteq> []"
  unfolding tid_laws_def by blast

lemma tid_New_le: "tid_laws T \<Longrightarrow> tid_Parse T s = Inr a \<Longrightarrow> 0 \<le> b \<Longrightarrow> b \<le> a \<Longrightarrow> b < 2 ^ 53 \<Longrightarrow> tid_New T b \<le> s"
  unfolding tid_laws_def by blast

lemma tid_New_less: "tid_laws T \<Longrightarrow> tid_Parse T s = Inr a \<Longrightarrow> 0 \<le> b \<Longrightarrow> b < a \<Longrightarrow> b < 2 ^ 53 \<Longrightarrow> tid_New T b < s"
  unfolding tid_laws_def by (meson less_imp_le)

lemma tid_Parse_nonneg: "tid_laws T \<Longrightarrow> tid_Parse T s = Inr a \<Longrightarrow> 0 \<le> a"
  unfolding tid_laws_def by blast

section \<open>The floor of a repair\<close>

definition InitialWindow :: duration where "InitialWindow = 24 * hour"
definition repairSlack :: duration where "repairSlack = hour"

definition repairFloor :: "tid_lib \<Rightarrow> string \<Rightarrow> time \<Rightarrow> string" where
  "repairFloor T lastRev now =
     (let standard = now - InitialWindow in
      if lastRev = [] then TIDForTime T standard
      else case TimeForTID T lastRev of
        Inl e \<Rightarrow> TIDForTime T standard
      | Inr revTime \<Rightarrow>
          let from = revTime - repairSlack in
          if from < standard then TIDForTime T from else TIDForTime T standard)"

record backfillResult =
  br_Rev :: string
  br_RootCID :: string
  br_Floor :: string
  br_Done :: bool

definition mergeBackfillState :: "Repo option \<Rightarrow> backfillResult \<Rightarrow> string \<times> bool" where
  "mergeBackfillState old res =
     (let floor = br_Floor res;
          done = (case old of Some r \<Rightarrow> if repo_BackfillDone r then True else br_Done res | None \<Rightarrow> br_Done res)
      in if done then ([], True)
         else case old of
           Some r \<Rightarrow>
             if repo_BackfillFloor r \<noteq> [] \<and> (floor = [] \<or> repo_BackfillFloor r < floor)
             then (repo_BackfillFloor r, False) else (floor, False)
         | None \<Rightarrow> (floor, False))"

section \<open>Placing a commit\<close>

record commit_event =
  ev_Repo :: string
  ev_Since :: "string option"
  ev_Rev :: string

definition ev_since :: "commit_event \<Rightarrow> string" where
  "ev_since evt = (case ev_Since evt of None \<Rightarrow> [] | Some s \<Rightarrow> s)"

definition revCASAttempts :: nat where "revCASAttempts = 3"

text \<open>The loop; the argument counts the attempts left.\<close>

fun track_attempts :: "in_flight \<Rightarrow> commit_event \<Rightarrow> nat \<Rightarrow> db \<Rightarrow> db" where
  "track_attempts fl evt 0 d = d"
| "track_attempts fl evt (Suc n) d =
     (case AdvanceRepoVersion (ev_Repo evt) (ev_since evt) (ev_Rev evt) d of
        (Inl e, d1) \<Rightarrow> d1
      | (Inr True, d1) \<Rightarrow> d1
      | (Inr False, d1) \<Rightarrow>
          (case GetRepo (ev_Repo evt) d1 of
             (Inl e, d2) \<Rightarrow> d2
           | (Inr None, d2) \<Rightarrow> d2
           | (Inr (Some r), d2) \<Rightarrow>
               if repo_Version r = [] \<or> syncInFlight (ev_Repo evt) fl then d2
               else if repo_Version r = ev_since evt then track_attempts fl evt n d2
               else if ev_Rev evt \<le> repo_Version r then d2
               else case MarkRepoForRepair (ev_Repo evt) (repo_Version r) d2 of
                 (Inl e, d3) \<Rightarrow> d3
               | (Inr True, d3) \<Rightarrow> d3
               | (Inr False, d3) \<Rightarrow> track_attempts fl evt n d3))"

definition trackCommitRev :: "in_flight \<Rightarrow> commit_event \<Rightarrow> db \<Rightarrow> db" where
  "trackCommitRev fl evt d = (if ev_Rev evt = [] then d else track_attempts fl evt revCASAttempts d)"

subsection \<open>One statement at a time\<close>

datatype commit_pc = AtAdvance nat | AtRead nat | AtMark nat string | Placed

definition again :: "nat \<Rightarrow> commit_pc" where
  "again n = (case n of 0 \<Rightarrow> Placed | Suc m \<Rightarrow> AtAdvance m)"

fun commit_step :: "in_flight \<Rightarrow> commit_event \<Rightarrow> commit_pc \<times> db \<Rightarrow> commit_pc \<times> db" where
  "commit_step fl evt (AtAdvance n, d) =
     (case AdvanceRepoVersion (ev_Repo evt) (ev_since evt) (ev_Rev evt) d of
        (Inr False, d1) \<Rightarrow> (AtRead n, d1) | (_, d1) \<Rightarrow> (Placed, d1))"
| "commit_step fl evt (AtRead n, d) =
     (case GetRepo (ev_Repo evt) d of
        (Inr (Some r), d1) \<Rightarrow>
          if repo_Version r = [] \<or> syncInFlight (ev_Repo evt) fl then (Placed, d1)
          else if repo_Version r = ev_since evt then (again n, d1)
          else if ev_Rev evt \<le> repo_Version r then (Placed, d1)
          else (AtMark n (repo_Version r), d1)
      | (_, d1) \<Rightarrow> (Placed, d1))"
| "commit_step fl evt (AtMark n v, d) =
     (case MarkRepoForRepair (ev_Repo evt) v d of
        (Inr False, d1) \<Rightarrow> (again n, d1) | (_, d1) \<Rightarrow> (Placed, d1))"
| "commit_step fl evt (Placed, d) = (Placed, d)"

definition commit_start :: "commit_event \<Rightarrow> commit_pc" where
  "commit_start evt = (if ev_Rev evt = [] then Placed else again revCASAttempts)"

text \<open>The handlers of several commits over one table: any handler may run its next statement.\<close>

inductive handlers_step ::
  "commit_event list \<Rightarrow> commit_pc list \<times> db \<Rightarrow> commit_pc list \<times> db \<Rightarrow> bool" for evts where
  handler: "i < length evts \<Longrightarrow> length pcs = length evts \<Longrightarrow>
     commit_step fl (evts ! i) (pcs ! i, d) = (pc', d') \<Longrightarrow>
     handlers_step evts (pcs, d) (pcs[i := pc'], d')"

inductive_cases handlers_stepE: "handlers_step evts s s'"

abbreviation handlers_run :: "commit_event list \<Rightarrow> commit_pc list \<times> db \<Rightarrow> commit_pc list \<times> db \<Rightarrow> bool" where
  "handlers_run evts \<equiv> (handlers_step evts)\<^sup>*\<^sup>*"

section \<open>The handler alone is the function of the source\<close>

lemma run_Placed: "((commit_step fl evt) ^^ k) (Placed, d) = (Placed, d)"
  by (induction k) auto

lemma funpow_more: "(f ^^ k) x = y \<Longrightarrow> f y = y \<Longrightarrow> k \<le> m \<Longrightarrow> (f ^^ m) x = y"
proof -
  assume f: "(f ^^ k) x = y" "f y = y" "k \<le> m"
  have "(f ^^ j) y = y" for j using f(2) by (induction j) auto
  moreover have "(f ^^ m) x = (f ^^ (m - k)) ((f ^^ k) x)"
    using f(3) by (metis comp_apply funpow_add le_add_diff_inverse2)
  ultimately show ?thesis using f(1) by simp
qed

lemma handler_alone:
  "((commit_step fl evt) ^^ (3 * n)) (again n, d) = (Placed, track_attempts fl evt n d)"
proof (induction n arbitrary: d)
  case 0
  then show ?case by (simp add: again_def)
next
  case (Suc n)
  have three: "((commit_step fl evt) ^^ (3 * Suc n)) s =
      ((commit_step fl evt) ^^ (3 * n)) (commit_step fl evt (commit_step fl evt (commit_step fl evt s)))" for s
    by (simp add: numeral_3_eq_3 funpow_swap1)
  have two: "((commit_step fl evt) ^^ (3 * n)) (commit_step fl evt (again n, d2)) = (Placed, track_attempts fl evt n d2)" for d2
    using funpow_more [OF Suc.IH [of d2], of "Suc (3 * n)"] by (simp add: funpow_swap1)
  show ?case unfolding three using Suc.IH two
    by (auto simp: again_def [of "Suc n"] run_Placed split: prod.split sum.split option.split bool.split)
qed

section \<open>Marks\<close>

text \<open>A history of marks (\<open>True\<close>) and releases (\<open>False\<close>) of one DID, each release after its mark.\<close>

fun balanced :: "nat \<Rightarrow> bool list \<Rightarrow> bool" where
  "balanced n [] = True"
| "balanced n (True # es) = balanced (Suc n) es"
| "balanced n (False # es) = (0 < n \<and> balanced (n - 1) es)"

fun open_marks :: "nat \<Rightarrow> bool list \<Rightarrow> nat" where
  "open_marks n [] = n"
| "open_marks n (True # es) = open_marks (Suc n) es"
| "open_marks n (False # es) = open_marks (n - 1) es"

fun run_marks :: "string \<Rightarrow> bool list \<Rightarrow> in_flight \<Rightarrow> in_flight" where
  "run_marks did [] m = m"
| "run_marks did (e # es) m = run_marks did es (if e then markSyncInFlight did m else unmarkSync did m)"

definition count_of :: "in_flight \<Rightarrow> string \<Rightarrow> nat" where
  "count_of m did = (case m did of None \<Rightarrow> 0 | Some n \<Rightarrow> n)"

lemma mark_count: "count_of (markSyncInFlight did m) x = count_of m x + (if x = did then 1 else 0)"
  by (simp add: count_of_def markSyncInFlight_def)

lemma unmark_count: "count_of (unmarkSync did m) x = count_of m x - (if x = did then 1 else 0)"
  by (auto simp: count_of_def unmarkSync_def Let_def split: option.splits)

text \<open>
  A DID counts as in flight exactly while some sync of it has not released its mark, however the
  marks of nested and concurrent syncs interleave; marks of other DIDs have no effect.
\<close>

theorem in_flight_exact:
  assumes "balanced (count_of m did) es"
  shows "(syncInFlight did (run_marks did es m) \<longleftrightarrow> 0 < open_marks (count_of m did) es) \<and>
    (x \<noteq> did \<longrightarrow> syncInFlight x (run_marks did es m) = syncInFlight x m)"
proof -
  have "count_of (run_marks did es m) did = open_marks (count_of m did) es
      \<and> (x \<noteq> did \<longrightarrow> count_of (run_marks did es m) x = count_of m x)"
    using assms
  proof (induction es arbitrary: m)
    case (Cons e es)
    then show ?case by (cases e) (auto simp: mark_count unmark_count)
  qed simp
  then show ?thesis by (simp add: syncInFlight_def count_of_def [symmetric])
qed

theorem in_flight_exact_witness:
  "syncInFlight ''a'' (run_marks ''a'' [True, True, False] Map.empty) \<and>
   \<not> syncInFlight ''a'' (run_marks ''a'' [True, True, False, False] Map.empty)"
proof -
  have "balanced (count_of Map.empty ''a'') [True, True, False]"
    "balanced (count_of Map.empty ''a'') [True, True, False, False]" by (simp_all add: count_of_def)
  from this [THEN in_flight_exact] show ?thesis by (auto simp: count_of_def)
qed

section \<open>History is never lost\<close>

text \<open>What a watermark says: everything from \<open>floor\<close> on is indexed, or everything is.\<close>

definition covers :: "string \<Rightarrow> bool \<Rightarrow> string \<Rightarrow> bool" where
  "covers floor done k \<longleftrightarrow> done \<or> floor \<noteq> [] \<and> floor \<le> k"

lemma mergeBackfillState_covers:
  "(case mergeBackfillState old res of (floor, done) \<Rightarrow> covers floor done k) \<longleftrightarrow>
     covers (br_Floor res) (br_Done res) k \<or>
     (case old of Some r \<Rightarrow> covers (repo_BackfillFloor r) (repo_BackfillDone r) k | None \<Rightarrow> False)"
  by (cases old) (auto simp: mergeBackfillState_def covers_def Let_def)

text \<open>
  The state a sync records covers exactly what the row covered before or the sync covered now:
  a shallow repair neither un-completes a history nor raises a watermark, and claims nothing that
  neither of them indexed.
\<close>

theorem mergeBackfillState_union:
  "(case mergeBackfillState old res of (floor, done) \<Rightarrow> covers floor done k) \<longleftrightarrow>
     covers (br_Floor res) (br_Done res) k \<or>
     (case old of Some r \<Rightarrow> covers (repo_BackfillFloor r) (repo_BackfillDone r) k | None \<Rightarrow> False)"
  by (rule mergeBackfillState_covers)

text \<open>The microsecond \<open>TIDForTime\<close> encodes.\<close>

abbreviation tid_micros :: "time \<Rightarrow> int" where
  "tid_micros t \<equiv> max 0 (t div 1000)"

lemma TIDForTime_New: "TIDForTime T t = tid_New T (tid_micros t)"
  by (simp add: TIDForTime_def Let_def max_def)

lemma tid_micros_bound: "t < tid_end \<Longrightarrow> tid_micros t < 2 ^ 53"
  unfolding tid_end_def by (cases "0 \<le> t div 1000"; simp add: max_def; presburger)

lemma TIDForTime_mono_parse:
  assumes "tid_laws T" and "tid_Parse T s = Inr a" and "t \<le> a * 1000" and "t < tid_end"
  shows "TIDForTime T t \<le> s"
proof -
  have "tid_micros t \<le> a" using tid_Parse_nonneg [OF assms(1,2)] assms(3) by simp
  with tid_New_le [OF assms(1,2) _ _ tid_micros_bound [OF assms(4)]] show ?thesis
    by (simp add: TIDForTime_New)
qed

lemma TIDForTime_mono:
  assumes "tid_laws T" and "t \<le> u" and "u < tid_end"
  shows "TIDForTime T t \<le> TIDForTime T u"
proof -
  have "tid_Parse T (TIDForTime T u) = Inr (tid_micros u)"
    using tid_New_Parse [OF assms(1) _ tid_micros_bound [OF assms(3)]] by (simp add: TIDForTime_New)
  moreover have "tid_micros t \<le> tid_micros u" "tid_micros t < 2 ^ 53"
    using assms(2) tid_micros_bound [of t] assms(3) by (auto simp: max_def zdiv_mono1)
  ultimately show ?thesis using tid_New_le [OF assms(1)] by (simp add: TIDForTime_New)
qed

text \<open>
  A repair reads from no later than the revision the index was last known good at, and never
  less than the first-contact window: every TID from that revision on, and every TID of the last
  24 hours, is at or above the floor.
\<close>

theorem repairFloor_reaches_gap:
  assumes "tid_laws T" and "now < tid_end"
  shows "repairFloor T lastRev now \<le> TIDForTime T (now - InitialWindow) \<and>
    (\<forall>e a. tid_Parse T lastRev = Inr a \<and> lastRev \<noteq> [] \<and> lastRev \<le> e \<longrightarrow> repairFloor T lastRev now \<le> e)"
proof (intro conjI allI impI)
  have window: "now - InitialWindow < tid_end" using assms(2) by (simp add: InitialWindow_def duration_defs)
  show "repairFloor T lastRev now \<le> TIDForTime T (now - InitialWindow)"
    using TIDForTime_mono [OF assms(1) _ window] by (auto simp: repairFloor_def Let_def split: sum.split)
next
  fix e a
  have window: "now - InitialWindow < tid_end" using assms(2) by (simp add: InitialWindow_def duration_defs)
  assume h: "tid_Parse T lastRev = Inr a \<and> lastRev \<noteq> [] \<and> lastRev \<le> e"
  have slack: "0 < repairSlack" by (simp add: repairSlack_def duration_defs)
  have "repairFloor T lastRev now \<le> lastRev"
    using h slack window TIDForTime_mono_parse [OF assms(1), of lastRev a]
    by (simp add: repairFloor_def Let_def TimeForTID_def)
  then show "repairFloor T lastRev now \<le> e" using h by (blast intro: order_trans)
qed

section \<open>Thirteen sortable characters\<close>

text \<open>A library with the documented form, on which the theorems about TIDs are instantiated: thirteen
  digits of sortable base 32, of the microseconds followed by ten bits of clock id.\<close>

definition tid_alphabet :: string where
  "tid_alphabet = ''234567abcdefghijklmnopqrstuvwxyz''"

fun tid_digits :: "nat \<Rightarrow> int \<Rightarrow> string" where
  "tid_digits 0 v = []"
| "tid_digits (Suc n) v = tid_alphabet ! nat (v div 32 ^ n) # tid_digits n (v mod 32 ^ n)"

definition tid_digit :: "char \<Rightarrow> int" where
  "tid_digit c = int (length (takeWhile (\<lambda>x. x \<noteq> c) tid_alphabet))"

fun tid_number :: "string \<Rightarrow> int" where
  "tid_number [] = 0"
| "tid_number (c # cs) = tid_digit c * 32 ^ length cs + tid_number cs"

definition tid_syntax :: "string \<Rightarrow> bool" where
  "tid_syntax s \<longleftrightarrow> length s = 13 \<and> list_all (\<lambda>c. c \<in> set tid_alphabet) s \<and> hd s \<in> set (take 16 tid_alphabet)"

definition ex_T :: tid_lib where
  "ex_T = \<lparr>tid_New = \<lambda>a. tid_digits 13 (a mod 2 ^ 53 * 2 ^ 10),
     tid_Parse = \<lambda>s. if tid_syntax s then Inr (tid_number s div 2 ^ 10) else Inl ioUnexpectedEOF\<rparr>"

lemma tid_alphabet_facts:
  "length tid_alphabet = 32" "sorted_wrt (<) tid_alphabet" "distinct tid_alphabet"
  by (simp_all add: tid_alphabet_def less_char_def)

lemma tid_alphabet_nth: "i < 32 \<Longrightarrow> tid_alphabet ! i \<in> set tid_alphabet"
  by (simp add: tid_alphabet_facts(1))

lemma tid_alphabet_less: "i < j \<Longrightarrow> j < 32 \<Longrightarrow> tid_alphabet ! i < tid_alphabet ! j"
  using tid_alphabet_facts(1,2) by (simp add: sorted_wrt_nth_less)

lemma tid_digit_nth: "i < 32 \<Longrightarrow> tid_digit (tid_alphabet ! i) = int i"
proof -
  assume i: "i < 32"
  have "takeWhile (\<lambda>x. x \<noteq> tid_alphabet ! i) tid_alphabet = take i tid_alphabet"
    using i tid_alphabet_facts(1,3) by (intro takeWhile_eq_take_P_nth) (auto simp: nth_eq_iff_index_eq)
  then show ?thesis using i by (simp add: tid_digit_def tid_alphabet_facts(1))
qed

lemma nth_tid_digit:
  assumes "c \<in> set tid_alphabet"
  shows "tid_alphabet ! nat (tid_digit c) = c \<and> 0 \<le> tid_digit c \<and> tid_digit c < 32"
proof -
  obtain i where i: "i < 32" "tid_alphabet ! i = c" using assms by (auto simp: in_set_conv_nth tid_alphabet_facts(1))
  with tid_digit_nth [of i] show ?thesis by simp
qed

lemma quotient_less:
  assumes "v < k * (d::int)" and "0 < d"
  shows "v div d < k"
proof -
  have "v div d * d \<le> v" using assms(2) by (simp add: minus_mod_eq_div_mult [symmetric])
  then have "v div d * d < k * d" using assms(1) by linarith
  then show ?thesis using assms(2) by simp
qed

lemma top_digit:
  assumes "0 \<le> v" and "v < (32::int) ^ Suc n"
  shows "0 \<le> v div 32 ^ n" and "v div 32 ^ n < 32"
proof -
  show "0 \<le> v div 32 ^ n" using assms(1) by (simp add: pos_imp_zdiv_nonneg_iff)
  show "v div 32 ^ n < 32" using assms(2) by (intro quotient_less) auto
qed

lemma tid_digits_length: "length (tid_digits n v) = n"
  by (induction n arbitrary: v) auto

lemma tid_digits_alphabet: "0 \<le> v \<Longrightarrow> v < 32 ^ n \<Longrightarrow> set (tid_digits n v) \<subseteq> set tid_alphabet"
proof (induction n arbitrary: v)
  case (Suc n)
  with top_digit [of v n] show ?case by (auto intro!: tid_alphabet_nth simp del: power_Suc)
qed simp

lemma tid_number_digits: "0 \<le> v \<Longrightarrow> v < 32 ^ n \<Longrightarrow> tid_number (tid_digits n v) = v"
proof (induction n arbitrary: v)
  case (Suc n)
  note top = top_digit [OF Suc.prems]
  have "tid_number (tid_digits n (v mod 32 ^ n)) = v mod 32 ^ n" by (rule Suc.IH) auto
  then show ?case using top tid_digit_nth [of "nat (v div 32 ^ n)"]
    by (simp add: tid_digits_length div_mult_mod_eq)
qed simp

lemma tid_number_bounds:
  "set s \<subseteq> set tid_alphabet \<Longrightarrow> 0 \<le> tid_number s \<and> tid_number s < 32 ^ length s"
proof (induction s)
  case (Cons c s)
  have d: "0 \<le> tid_digit c" "tid_digit c + 1 \<le> 32" using nth_tid_digit [of c] Cons.prems by auto
  have "(tid_digit c + 1) * 32 ^ length s \<le> 32 * 32 ^ length s" using d(2) by (intro mult_right_mono) auto
  then have "tid_digit c * 32 ^ length s + 32 ^ length s \<le> 32 ^ length (c # s)" by (simp only: distrib_right) simp
  moreover have "0 \<le> tid_digit c * 32 ^ length s" using d(1) by simp
  moreover have "0 \<le> tid_number s" "tid_number s < 32 ^ length s" using Cons by auto
  ultimately show ?case unfolding tid_number.simps by linarith
qed simp

lemma tid_digits_number: "set s \<subseteq> set tid_alphabet \<Longrightarrow> tid_digits (length s) (tid_number s) = s"
proof (induction s)
  case (Cons c s)
  then show ?case using tid_number_bounds [of s] nth_tid_digit [of c] by auto
qed simp

text \<open>Numerals of one width sort as their values.\<close>

lemma tid_digits_less: "0 \<le> v \<Longrightarrow> v < w \<Longrightarrow> w < 32 ^ n \<Longrightarrow> tid_digits n v < tid_digits n w"
proof (induction n arbitrary: v w)
  case (Suc n)
  let ?d = "\<lambda>x::int. x div 32 ^ n" and ?m = "\<lambda>x::int. x mod 32 ^ n"
  have v: "0 \<le> ?d v" and w: "?d w < 32"
    using top_digit(1) [of v n] top_digit(2) [of w n] Suc.prems by auto
  have le: "?d v \<le> ?d w" using Suc.prems by (intro zdiv_mono1) auto
  show ?case
  proof (cases "?d v = ?d w")
    case True
    then have "?m v < ?m w" using Suc.prems(2) div_mult_mod_eq [of v "32 ^ n"] div_mult_mod_eq [of w "32 ^ n"] by simp
    then have "tid_digits n (?m v) < tid_digits n (?m w)" by (intro Suc.IH) auto
    with True show ?thesis by simp
  next
    case False
    with le v w have "nat (?d v) < nat (?d w)" "nat (?d w) < 32" by auto
    from tid_alphabet_less [OF this] show ?thesis by simp
  qed
qed simp

lemma ex_T_laws: "tid_laws ex_T"
  unfolding tid_laws_def
proof (intro conjI allI impI)
  fix a :: int
  assume a: "0 \<le> a \<and> a < 2 ^ 53"
  let ?v = "a * 2 ^ 10"
  have v: "0 \<le> ?v" "?v < 32 ^ 13" "a mod 2 ^ 53 = a" using a by auto
  have "hd (tid_digits (Suc 12) ?v) = tid_alphabet ! nat (?v div 32 ^ 12)" by (simp only: tid_digits.simps list.sel)
  then have "hd (tid_digits 13 ?v) = tid_alphabet ! nat (?v div 32 ^ 12)" by (simp del: tid_digits.simps)
  moreover have "?v div 32 ^ 12 < 16" using a by (intro quotient_less) auto
  then have "nat (?v div 32 ^ 12) < 16" by linarith
  ultimately have "hd (tid_digits 13 ?v) \<in> set (take 16 tid_alphabet)"
    by (auto simp: in_set_conv_nth tid_alphabet_facts(1) intro!: exI [of _ "nat (?v div 32 ^ 12)"])
  with v tid_digits_alphabet [OF v(1,2)] have "tid_syntax (tid_digits 13 ?v)"
    by (auto simp: tid_syntax_def tid_digits_length list_all_iff)
  with v tid_number_digits [OF v(1,2)] show "tid_Parse ex_T (tid_New ex_T a) = Inr a" by (simp add: ex_T_def)
  have "length (tid_New ex_T a) = 13" by (simp add: ex_T_def tid_digits_length)
  then show "tid_New ex_T a \<noteq> []" by auto
next
  fix s a
  assume p: "tid_Parse ex_T s = Inr a"
  then show "0 \<le> a" using tid_number_bounds [of s]
    by (auto simp: ex_T_def tid_syntax_def list_all_iff subset_iff pos_imp_zdiv_nonneg_iff split: if_splits)
next
  fix s a b
  assume p: "tid_Parse ex_T s = Inr a \<and> 0 \<le> b \<and> b \<le> a \<and> b < 2 ^ 53"
  then have s: "set s \<subseteq> set tid_alphabet" "length s = 13" and a: "a = tid_number s div 2 ^ 10"
    by (auto simp: ex_T_def tid_syntax_def list_all_iff split: if_splits)
  have num: "tid_digits 13 (tid_number s) = s" using tid_digits_number [OF s(1)] s(2) by simp
  have up: "tid_number s < 32 ^ 13" using tid_number_bounds [OF s(1)] s(2) by simp
  have new: "tid_New ex_T b = tid_digits 13 (b * 2 ^ 10)" using p by (simp add: ex_T_def)
  have le: "b * 2 ^ 10 \<le> tid_number s" using p a by (simp; linarith)
  then show "tid_New ex_T b \<le> s"
    using tid_digits_less [of "b * 2 ^ 10" "tid_number s" 13] num new up p
    by (cases "b * 2 ^ 10 = tid_number s") auto
  assume "b < a"
  then have "b * 2 ^ 10 < tid_number s" using a by (simp; linarith)
  then show "tid_New ex_T b < s"
    using tid_digits_less [of "b * 2 ^ 10" "tid_number s" 13] num new up p by auto
qed

theorem repairFloor_reaches_gap_witness:
  "repairFloor ex_T ''2222222222222'' (100 * hour) \<le> ''2222222222222''"
proof -
  have "tid_Parse ex_T ''2222222222222'' = Inr 0" by code_simp
  moreover have "100 * hour < tid_end" by (simp add: tid_end_def duration_defs)
  ultimately show ?thesis
    using repairFloor_reaches_gap [OF ex_T_laws, of "100 * hour" "''2222222222222''"] by blast
qed

section \<open>Commits form an unbroken chain\<close>

text \<open>The revisions reachable from \<open>v0\<close> through commits of \<open>evts\<close>, each following the one before.\<close>

inductive follows :: "commit_event list \<Rightarrow> string \<Rightarrow> string \<Rightarrow> string \<Rightarrow> bool" for evts did v0 where
  follows_start: "follows evts did v0 v0"
| follows_commit: "follows evts did v0 v \<Longrightarrow> e \<in> set evts \<Longrightarrow> ev_Repo e = did \<Longrightarrow> ev_since e = v \<Longrightarrow>
     follows evts did v0 (ev_Rev e)"

definition chain_inv :: "commit_event list \<Rightarrow> string \<Rightarrow> string \<Rightarrow> db \<Rightarrow> bool" where
  "chain_inv evts did v0 d \<longleftrightarrow> table_ok d \<and>
     (\<exists>r v. row d did = Some r \<and> follows evts did v0 v \<and>
        (repo_Version r = v \<or> repo_Version r = [] \<and> repo_RepairFrom r = v))"

lemma commit_step_chain:
  assumes "chain_inv evts did v0 d" and "e \<in> set evts" and "commit_step fl e (pc, d) = (pc', d')"
  shows "chain_inv evts did v0 d'"
proof -
  obtain r v where ok: "table_ok d" and r: "row d did = Some r" and v: "follows evts did v0 v"
    and at: "repo_Version r = v \<or> repo_Version r = [] \<and> repo_RepairFrom r = v"
    using assms(1) by (auto simp: chain_inv_def)
  show ?thesis
  proof (cases pc)
    case (AtAdvance n)
    obtain res where a: "AdvanceRepoVersion (ev_Repo e) (ev_since e) (ev_Rev e) d = (res, d')"
      using assms(3) AtAdvance by (auto split: prod.splits sum.splits bool.splits)
    show ?thesis
    proof (cases "res = Inr True \<and> ev_Repo e = did")
      case True
      with AdvanceRepoVersion_row [OF a ok] r
      have d': "table_ok d'" "row d' did = Some (r\<lparr>repo_Version := ev_Rev e\<rparr>)"
        and "repo_Version r = ev_since e" "ev_since e \<noteq> []" by auto
      with at True v assms(2) have "follows evts did v0 (ev_Rev e)" by (auto intro: follows_commit)
      with d' show ?thesis by (auto simp: chain_inv_def)
    next
      case False
      with AdvanceRepoVersion_row [OF a ok] have "table_ok d'" "row d' did = row d did"
        by (cases res; auto)+
      then show ?thesis using assms(1) by (simp add: chain_inv_def)
    qed
  next
    case (AtRead n)
    then have "db_Rows d' = db_Rows d" using assms(3)
      by (auto simp: GetRepo_def split: prod.splits sum.splits option.splits if_splits)
    then show ?thesis using assms(1) by (simp add: chain_inv_def table_ok_def)
  next
    case (AtMark n u)
    obtain res where m: "MarkRepoForRepair (ev_Repo e) u d = (res, d')"
      using assms(3) AtMark by (auto split: prod.splits sum.splits bool.splits)
    show ?thesis
    proof (cases "res = Inr True \<and> ev_Repo e = did")
      case True
      with MarkRepoForRepair_row [OF m ok] r
      have "table_ok d'" "row d' did = Some (r\<lparr>repo_Version := [], repo_RepairFrom := u\<rparr>)"
        "repo_Version r = u" "u \<noteq> []" by auto
      with at v show ?thesis by (auto simp: chain_inv_def)
    next
      case False
      with MarkRepoForRepair_row [OF m ok] have "table_ok d'" "row d' did = row d did"
        by (cases res; auto)+
      then show ?thesis using assms(1) by (simp add: chain_inv_def)
    qed
  next
    case Placed
    then show ?thesis using assms by simp
  qed
qed

text \<open>
  C3.  The stored revision is proof of contiguity.  Start from a row at revision \<open>v0\<close> and let the
  handlers of any commits run, interleaved between any two statements, with any statement failing.
  Whenever the row holds a revision, that revision is reached from \<open>v0\<close> by commits that each follow
  the one before; and whenever the row is wedged, it remembers such a revision as the point to repair
  from.
\<close>

theorem commits_contiguous:
  assumes "table_ok d" and "row d did = Some r" and "repo_Version r = v0"
    and "handlers_run evts (pcs, d) (pcs', d')"
  shows "\<exists>r' v. row d' did = Some r' \<and> follows evts did v0 v \<and>
    (repo_Version r' = v \<or> repo_Version r' = [] \<and> repo_RepairFrom r' = v)"
proof -
  have "chain_inv evts did v0 (snd (pcs', d'))"
    using assms(4)
  proof (induction rule: rtranclp_induct)
    case base
    then show ?case using assms(1-3) by (auto simp: chain_inv_def intro: follows_start)
  next
    case (step s s')
    obtain i fl pcs1 d1 pc2 d2 where h: "s = (pcs1, d1)" "s' = (pcs1[i := pc2], d2)" "i < length evts"
      and c: "commit_step fl (evts ! i) (pcs1 ! i, d1) = (pc2, d2)"
      using step.hyps(2) by (rule handlers_stepE) blast
    show ?case using commit_step_chain [OF _ _ c] step.IH h by simp
  qed
  then show ?thesis by (auto simp: chain_inv_def)
qed

definition ex_row :: Repo where
  "ex_row = \<lparr>repo_DID = ''did:plc:a'', repo_Handle = ''a.test'', repo_PDS = ''p'', repo_Version = ''3k1'',
     repo_RootCID = [], repo_Status = [], repo_BackfillFloor = ''3a'', repo_BackfillDone = False,
     repo_RepairFrom = []\<rparr>"

definition ex_db :: db where "ex_db = \<lparr>db_Rows = [ex_row], db_Faults = []\<rparr>"

definition ex_evt :: "string \<Rightarrow> string \<Rightarrow> commit_event" where
  "ex_evt since to = \<lparr>ev_Repo = ''did:plc:a'', ev_Since = Some since, ev_Rev = to\<rparr>"

theorem commits_contiguous_witness:
  "\<exists>r' v. row (snd (commit_step Map.empty (ex_evt ''3k1'' ''3k2'') (AtAdvance 2, ex_db))) ''did:plc:a'' = Some r' \<and>
     follows [ex_evt ''3k1'' ''3k2''] ''did:plc:a'' ''3k1'' v \<and>
     (repo_Version r' = v \<or> repo_Version r' = [] \<and> repo_RepairFrom r' = v)"
proof -
  obtain pc' d' where st: "commit_step Map.empty (ex_evt ''3k1'' ''3k2'') (AtAdvance 2, ex_db) = (pc', d')"
    by (metis prod.collapse)
  have "handlers_step [ex_evt ''3k1'' ''3k2''] ([AtAdvance 2], ex_db) ([AtAdvance 2][0 := pc'], d')"
    by (rule handler) (use st in simp_all)
  then have run: "handlers_run [ex_evt ''3k1'' ''3k2''] ([AtAdvance 2], ex_db) ([pc'], d')" by simp
  have ok: "table_ok ex_db" "row ex_db ''did:plc:a'' = Some ex_row" "repo_Version ex_row = ''3k1''"
    by (simp_all add: table_ok_def ex_db_def row_of_def ex_row_def)
  show ?thesis using commits_contiguous [OF ok run] st by simp
qed

text \<open>
  Where a commit lands, when its handler runs alone and the database answers.  A commit that
  follows the stored revision advances it; an old commit, a commit of an unknown account, of a repo
  that is wedged or being synced changes nothing; and a commit from beyond a gap wedges the repo and
  records the revision it was good at.  No other row changes.
\<close>

theorem trackCommitRev_outcome:
  assumes "table_ok d" and "db_Faults d = []" and "ev_Rev evt \<noteq> []"
  shows "row (trackCommitRev fl evt d) x =
    (if x \<noteq> ev_Repo evt then row d x
     else map_option (\<lambda>r.
       if repo_Version r = [] then r
       else if repo_Version r = ev_since evt then r\<lparr>repo_Version := ev_Rev evt\<rparr>
       else if syncInFlight (ev_Repo evt) fl \<or> ev_Rev evt \<le> repo_Version r then r
       else r\<lparr>repo_Version := [], repo_RepairFrom := repo_Version r\<rparr>) (row d x))"
proof -
  obtain res d1 where a: "AdvanceRepoVersion (ev_Repo evt) (ev_since evt) (ev_Rev evt) d = (res, d1)"
    by (metis prod.collapse)
  obtain b where f1: "db_Faults d1 = []" and b: "res = Inr b" using a assms(2)
    by (auto simp: AdvanceRepoVersion_def applied_def update_where_def stmt_def split: if_splits)
  note adv = AdvanceRepoVersion_row [OF a assms(1), unfolded b, simplified]
  have get: "GetRepo (ev_Repo evt) d1 = (Inr (row d1 (ev_Repo evt)), d1)"
    using f1 by (simp add: GetRepo_def stmt_no_faults)
  define k :: nat where "k = 2"
  have start: "trackCommitRev fl evt d = track_attempts fl evt (Suc k) d"
    using assms(3) by (simp add: trackCommitRev_def revCASAttempts_def k_def)
  show ?thesis
  proof (cases b)
    case True
    then show ?thesis using adv start a b by auto
  next
    case False
    then have same: "row d1 y = row d y" for y using adv by presburger
    have t1: "table_ok d1" using adv by blast
    show ?thesis
    proof (cases "row d (ev_Repo evt)")
      case None
      then show ?thesis using start a b False get same by simp
    next
      case (Some r)
      have since: "repo_Version r = ev_since evt \<Longrightarrow> repo_Version r = []"
        using adv False Some assms(3) by auto
      obtain m d2 where mk: "MarkRepoForRepair (ev_Repo evt) (repo_Version r) d1 = (m, d2)"
        by (metis prod.collapse)
      obtain c where c: "m = Inr c" using mk f1
        by (auto simp: MarkRepoForRepair_def applied_def update_where_def stmt_def split: if_splits)
      have mark: "(c \<longleftrightarrow> repo_Version r \<noteq> []) \<and> (\<forall>y. row d2 y = (if c \<and> y = ev_Repo evt
          then map_option (\<lambda>r'. r'\<lparr>repo_Version := [], repo_RepairFrom := repo_Version r\<rparr>) (row d y) else row d y))"
        using MarkRepoForRepair_row [OF mk t1] unfolding c same Some by simp
      show ?thesis using start a b False get same Some since mk c mark by auto
    qed
  qed
qed

theorem trackCommitRev_outcome_witness:
  "row (trackCommitRev Map.empty (ex_evt ''3k5'' ''3k6'') ex_db) ''did:plc:a'' =
     Some (ex_row\<lparr>repo_Version := [], repo_RepairFrom := ''3k1''\<rparr>)"
proof -
  have "table_ok ex_db" "db_Faults ex_db = []" "ev_Rev (ex_evt ''3k5'' ''3k6'') \<noteq> []"
    by (simp_all add: table_ok_def ex_db_def ex_evt_def)
  from trackCommitRev_outcome [OF this, of Map.empty "''did:plc:a''"] show ?thesis
    by (simp add: ex_evt_def ev_since_def ex_db_def row_of_def ex_row_def syncInFlight_def)
qed

text \<open>
  The statement-by-statement handler refines the function of the source: run alone, it reaches
  \<open>Placed\<close> in at most nine statements and leaves the table \<open>trackCommitRev\<close> leaves.
\<close>

theorem handler_refines_trackCommitRev:
  "((commit_step fl evt) ^^ 9) (commit_start evt, d) = (Placed, trackCommitRev fl evt d)"
  using handler_alone [of 3 fl evt d]
  by (simp add: commit_start_def trackCommitRev_def revCASAttempts_def run_Placed)

end
