(* ===== verification/Backfill.thy ===== *)
theory Backfill
  imports Head Contiguity
begin

text \<open>
  Backfilling a repository (\<open>atproto/backfill_walk.go\<close>): the ladder of history windows, the verified
  walk restarted when the head moves, the fall-back to a full download, and what each of them hands
  to the row.
\<close>

section \<open>The ladder of windows\<close>

definition backfillSpans :: "duration list" where
  "backfillSpans = [InitialWindow, 7 * 24 * hour, 30 * 24 * hour, 180 * 24 * hour]"

record backfillWindow =
  bw_Lo :: string
  bw_Hi :: string
  bw_Genesis :: bool
  bw_Horizon :: time

definition ladder_window :: "tid_lib \<Rightarrow> time \<Rightarrow> duration \<Rightarrow> string \<Rightarrow> backfillWindow" where
  "ladder_window T now span hi =
     (let horizon = now - span
      in \<lparr>bw_Lo = TIDForTime T horizon, bw_Hi = hi, bw_Genesis = False, bw_Horizon = horizon\<rparr>)"

abbreviation genesis_window :: "string \<Rightarrow> backfillWindow" where
  "genesis_window hi \<equiv> \<lparr>bw_Lo = [], bw_Hi = hi, bw_Genesis = True, bw_Horizon = zeroTime\<rparr>"

fun next_span :: "duration list \<Rightarrow> duration \<Rightarrow> duration option" where
  "next_span [] age = None"
| "next_span (span # spans) age = (if span > age then Some span else next_span spans age)"

definition nextBackfillWindow :: "tid_lib \<Rightarrow> string \<Rightarrow> time \<Rightarrow> backfillWindow" where
  "nextBackfillWindow T floor now =
     (if floor = [] then ladder_window T now (hd backfillSpans) []
      else case TimeForTID T floor of
        Inl e \<Rightarrow> genesis_window floor
      | Inr floorTime \<Rightarrow>
          (case next_span backfillSpans (sat64 (now - floorTime)) of
             Some span \<Rightarrow> ladder_window T now span floor
           | None \<Rightarrow> genesis_window floor))"

text \<open>The windows a repository is given at the instants \<open>nows\<close>, each starting from the floor the one
  before left, until one reaches the start of the collection.\<close>

fun ladder :: "tid_lib \<Rightarrow> string \<Rightarrow> time list \<Rightarrow> backfillWindow list" where
  "ladder T floor [] = []"
| "ladder T floor (now # nows) =
     (let w = nextBackfillWindow T floor now
      in w # (if bw_Genesis w then [] else ladder T (bw_Lo w) nows))"

section \<open>Walking at a head\<close>

definition maxWalkAttempts :: int where "maxWalkAttempts = 3"
definition walkRetryDelay :: duration where "walkRetryDelay = 1500 * millisecond"

function walk_at_head ::
  "int \<Rightarrow> duration \<Rightarrow> ('w \<Rightarrow> (go_error + 'c Head) \<times> 'w) \<Rightarrow> ('c Head \<Rightarrow> 'w \<Rightarrow> (go_error option \<times> 'w) option) \<Rightarrow>
   (duration \<Rightarrow> 'w \<Rightarrow> go_error option \<times> 'w) \<Rightarrow> 'c Head \<Rightarrow> int \<Rightarrow> 'w \<Rightarrow> ((go_error + 'c Head) \<times> 'w) option" where
  "walk_at_head attempts delay fetchHead walk sleep head attempt w =
     (case walk head w of
        None \<Rightarrow> None
      | Some (None, w1) \<Rightarrow> Some (Inr head, w1)
      | Some (Some err, w1) \<Rightarrow>
          if \<not> isStaleWalkError (Some err) then Some (Inl err, w1)
          else if attempt \<ge> attempts then Some (Inl (WrapErr ''gave up after walk attempts'' [err]), w1)
          else case sleep delay w1 of
            (Some serr, w2) \<Rightarrow> Some (Inl (WrapErr [] [err, serr]), w2)
          | (None, w2) \<Rightarrow>
              (case fetchHead w2 of
                 (Inl ferr, w3) \<Rightarrow> Some (Inl (WrapErr [] [err, ferr]), w3)
               | (Inr next, w3) \<Rightarrow>
                   if hd_Rev next = hd_Rev head \<and> hd_Root next = hd_Root head
                   then Some (Inl (WrapErr ''repo is missing blocks at its head'' [err]), w3)
                   else walk_at_head attempts delay fetchHead walk sleep next (attempt + 1) w3))"
  by pat_completeness auto
termination
  by (relation "measure (\<lambda>(attempts, delay, fetchHead, walk, sleep, head, attempt, w). nat (attempts - attempt))") auto

declare walk_at_head.simps [simp del]

definition walkWithHeadRetry ::
  "int \<Rightarrow> duration \<Rightarrow> ('w \<Rightarrow> (go_error + 'c Head) \<times> 'w) \<Rightarrow> ('c Head \<Rightarrow> 'w \<Rightarrow> (go_error option \<times> 'w) option) \<Rightarrow>
   (duration \<Rightarrow> 'w \<Rightarrow> go_error option \<times> 'w) \<Rightarrow> 'w \<Rightarrow> ((go_error + 'c Head) \<times> 'w) option" where
  "walkWithHeadRetry attempts delay fetchHead walk sleep w =
     (case fetchHead w of
        (Inl e, w1) \<Rightarrow> Some (Inl e, w1)
      | (Inr head, w1) \<Rightarrow> walk_at_head attempts delay fetchHead walk sleep head 1 w1)"

section \<open>The verified walk of a backfill\<close>

text \<open>
  What a walk is given: the libraries, the host's client, the context, the node decoder, the path
  parser and the indexer (\<open>handleCreateUpdate\<close>, whose errors the visitor ignores).  \<open>'v\<close> is the index.
\<close>

record ('c, 'key, 'w, 'v) walk_deps =
  wd_Head :: "('c, 'key, 'w \<times> 'c mem_blocks) head_lib"
  wd_Cid :: "'c cid_lib"
  wd_Car :: "'c car_lib"
  wd_String :: "'c \<Rightarrow> string"
  wd_Host :: string
  wd_GetBlocks :: "'c list \<Rightarrow> 'w \<Rightarrow> (go_error + bytes) \<times> 'w"
  wd_Env :: "'w retry_env"
  wd_HeadEnv :: "('w \<times> 'c mem_blocks) retry_env"
  wd_CtxErr :: "'w \<times> 'c mem_blocks \<Rightarrow> go_error option"
  wd_Sleep :: "duration \<Rightarrow> 'w \<times> 'c mem_blocks \<Rightarrow> go_error option \<times> ('w \<times> 'c mem_blocks)"
  wd_Node :: "'c node_decoder"
  wd_ParseRepoPath :: "string \<Rightarrow> go_error + string \<times> string"
  wd_Index :: "string \<Rightarrow> string \<Rightarrow> bytes \<Rightarrow> string \<Rightarrow> string \<Rightarrow> string \<Rightarrow> 'v \<Rightarrow> go_error option \<times> 'v"

definition walk_policy :: RetryPolicy where
  "walk_policy = no_policy"

definition walk_xrpc :: "('c, 'key, 'w, 'v) walk_deps \<Rightarrow> ('c, 'w) XRPCBlockFetcher" where
  "walk_xrpc D = \<lparr>xf_Host = wd_Host D, xf_ChunkSize = 0, xf_Retry = walk_policy,
     xf_SyncGetBlocks = wd_GetBlocks D, xf_env = wd_Env D\<rparr>"

definition index_visit :: "('c, 'key, 'w, 'v) walk_deps \<Rightarrow> string \<Rightarrow> string \<Rightarrow> ('c, 'v) visitor" where
  "index_visit D did headRev path rcid rec v =
     (case wd_ParseRepoPath D path of
        Inl e \<Rightarrow> (Some (WrapErr ''could not parse repo path'' [e]), v)
      | Inr (nsid, rkey) \<Rightarrow> (None, snd (wd_Index D did rkey rec (wd_String D rcid) nsid headRev v)))"

definition fetch_head ::
  "('c, 'key, 'w, 'v) walk_deps \<Rightarrow> string \<Rightarrow> ('w \<times> 'c mem_blocks) \<times> 'v \<Rightarrow>
   (go_error + 'c Head) \<times> (('w \<times> 'c mem_blocks) \<times> 'v)" where
  "fetch_head D did s =
     (case s of (w, v) \<Rightarrow>
        (case FetchVerifiedHead (wd_Head D) (wd_Cid D) (wd_HeadEnv D) (wd_Host D)
                (walk_fetcher (wd_Cid D) (wd_Car D) (walk_xrpc D)) did [walk_policy] w of
           (Inl e, w1) \<Rightarrow> (Inl (WrapErr ''failed to fetch verified head'' [e]), (w1, v))
         | (Inr head, w1) \<Rightarrow> (Inr head, (w1, v))))"

definition walk_head ::
  "('c, 'key, 'w, 'v) walk_deps \<Rightarrow> string \<Rightarrow> KeyRange list \<Rightarrow> 'c Head \<Rightarrow> ('w \<times> 'c mem_blocks) \<times> 'v \<Rightarrow>
   (go_error option \<times> (('w \<times> 'c mem_blocks) \<times> 'v)) option" where
  "walk_head D did ranges head s =
     (case s of (w, v) \<Rightarrow>
        (case WalkRanges (wd_CtxErr D) (wd_Node D)
                (backfill_walker (wd_Cid D) (wd_Car D) (walk_xrpc D) 0 None) (hd_Root head) ranges
                (index_visit D did (hd_Rev head)) w v of
           None \<Rightarrow> None
         | Some (Some e, w1, v1) \<Rightarrow> Some (Some (WrapErr ''failed to walk repo'' [e]), (w1, v1))
         | Some (None, w1, v1) \<Rightarrow> Some (None, (w1, v1))))"

text \<open>The block cache is new for each backfill and shared by its heads and walks.\<close>

definition walkBackfill ::
  "('c, 'key, 'w, 'v) walk_deps \<Rightarrow> string \<Rightarrow> KeyRange list \<Rightarrow> 'w \<times> 'v \<Rightarrow>
   ((go_error + string \<times> string) \<times> ('w \<times> 'v)) option" where
  "walkBackfill D did ranges s =
     (case s of (w, v) \<Rightarrow>
        (case walkWithHeadRetry maxWalkAttempts walkRetryDelay (fetch_head D did) (walk_head D did ranges)
                (\<lambda>d (u, v). case wd_Sleep D d u of (e, u1) \<Rightarrow> (e, (u1, v))) ((w, NewMemoryBlockCache), v) of
           None \<Rightarrow> None
         | Some (Inl e, ((w1, cache), v1)) \<Rightarrow> Some (Inl e, (w1, v1))
         | Some (Inr head, ((w1, cache), v1)) \<Rightarrow>
             Some (Inr (hd_Rev head, wd_String D (hd_Root head)), (w1, v1))))"

section \<open>The fall-back\<close>

text \<open>A repository read from a CAR: the signer and revision of its commit, its keys with their CIDs
  in the order \<open>ForEach\<close> visits them with the error that ends the visit, and its record blocks.\<close>

record 'c repo_car =
  rc_Did :: string
  rc_Rev :: string
  rc_Entries :: "(string \<times> 'c) list"
  rc_Error :: "go_error option"
  rc_Bytes :: "string \<Rightarrow> go_error + bytes"

record ('c, 'w) legacy_deps =
  ld_GetRepo :: "string \<Rightarrow> 'w \<Rightarrow> (go_error + bytes) \<times> 'w"
  ld_ReadRepo :: "bytes \<Rightarrow> go_error + 'c repo_car"
  ld_ParseDID :: "string \<Rightarrow> go_error option"

fun legacy_records ::
  "('c, 'key, 'w, 'v) walk_deps \<Rightarrow> 'c repo_car \<Rightarrow> (string \<times> 'c) list \<Rightarrow> 'v \<Rightarrow> go_error option \<times> 'v" where
  "legacy_records D r [] v = (rc_Error r, v)"
| "legacy_records D r ((k, c) # es) v =
     (case wd_ParseRepoPath D k of
        Inl e \<Rightarrow> (Some (WrapErr ''could not parse repo path'' [e]), v)
      | Inr (nsid, rkey) \<Rightarrow>
          (case rc_Bytes r k of
             Inl e \<Rightarrow> (Some (WrapErr ''could not retrieve record bytes'' [e]), v)
           | Inr bs \<Rightarrow> legacy_records D r es (snd (wd_Index D (rc_Did r) rkey bs (wd_String D c) nsid (rc_Rev r) v))))"

definition legacyBackfill ::
  "('c, 'key, 'w, 'v) walk_deps \<Rightarrow> ('c, 'w) legacy_deps \<Rightarrow> string \<Rightarrow> 'w \<times> 'v \<Rightarrow> (go_error + string) \<times> ('w \<times> 'v)" where
  "legacyBackfill D G did s =
     (case s of (w, v) \<Rightarrow>
        (case ld_GetRepo G did w of
           (Inl e, w1) \<Rightarrow> (Inl (WrapErr ''failed to fetch repo'' [e]), (w1, v))
         | (Inr repoBytes, w1) \<Rightarrow>
             (case ld_ReadRepo G repoBytes of
                Inl e \<Rightarrow> (Inl (WrapErr ''failed to parse repo CAR data'' [e]), (w1, v))
              | Inr r \<Rightarrow>
                  (case ld_ParseDID G (rc_Did r) of
                     Some e \<Rightarrow> (Inl (WrapErr ''invalid DID in repo commit'' [e]), (w1, v))
                   | None \<Rightarrow>
                       if rc_Did r \<noteq> did then (Inl (WrapErr ''signer DID does not match identity'' []), (w1, v))
                       else case legacy_records D r (rc_Entries r) v of
                         (Some e, v1) \<Rightarrow> (Inl (WrapErr ''failed to iterate over repo'' [e]), (w1, v1))
                       | (None, v1) \<Rightarrow> (Inr (rc_Rev r), (w1, v1))))))"

text \<open>\<open>backfillRepo\<close>, over the two paths it tries.\<close>

definition backfillRepo ::
  "(KeyRange list \<Rightarrow> 's \<Rightarrow> ((go_error + string \<times> string) \<times> 's) option) \<Rightarrow> ('s \<Rightarrow> (go_error + string) \<times> 's) \<Rightarrow>
   string \<Rightarrow> 's \<Rightarrow> ((go_error + backfillResult) \<times> 's) option" where
  "backfillRepo walk legacy floor s =
     (case walk (backfillRanges floor) s of
        None \<Rightarrow> None
      | Some (Inr (rv, root), s1) \<Rightarrow>
          Some (Inr \<lparr>br_Rev = rv, br_RootCID = root, br_Floor = floor, br_Done = (floor = [])\<rparr>, s1)
      | Some (Inl err, s1) \<Rightarrow>
          if isStaleWalkError (Some err) then Some (Inl err, s1)
          else if \<not> isMethodNotSupported (Some err) then Some (Inl err, s1)
          else case legacy s1 of
            (Inl e, s2) \<Rightarrow> Some (Inl e, s2)
          | (Inr rv, s2) \<Rightarrow> Some (Inr \<lparr>br_Rev = rv, br_RootCID = [], br_Floor = [], br_Done = True\<rparr>, s2))"

section \<open>The ladder ends and leaves no hole\<close>

lemma sat64_less: "- (2 ^ 63) < s \<Longrightarrow> s < 2 ^ 63 - 1 \<Longrightarrow> sat64 x < s \<longleftrightarrow> x < (s :: int)"
  by (auto simp: sat64_def)

lemma spans_bounds: "s \<in> set backfillSpans \<Longrightarrow> 0 < s \<and> s \<le> 180 * 24 * hour"
  by (auto simp: backfillSpans_def InitialWindow_def duration_defs)

lemma next_span_Some: "next_span spans age = Some s \<Longrightarrow> s \<in> set spans \<and> age < s"
  by (induction spans) (auto split: if_splits)

text \<open>How many rungs are still above an age.\<close>

definition rungs :: "duration \<Rightarrow> nat" where
  "rungs age = length (filter (\<lambda>s. age < s) backfillSpans)"

lemma rungs_le: "rungs age \<le> 4"
  by (simp add: rungs_def backfillSpans_def)

lemma rungs_zero: "rungs age = 0 \<Longrightarrow> next_span backfillSpans age = None"
  by (auto simp: rungs_def backfillSpans_def split: if_splits)

lemma rungs_less:
  assumes "next_span backfillSpans age = Some s" and "s \<le> age'"
  shows "rungs age' < rungs age"
proof -
  have "age < age'" using next_span_Some [OF assms(1)] assms(2) by simp
  then have "set (filter (\<lambda>s. age' < s) backfillSpans) \<subseteq> set (filter (\<lambda>s. age < s) backfillSpans) - {s}"
    using assms(2) by auto
  moreover have "s \<in> set (filter (\<lambda>s. age < s) backfillSpans)" using next_span_Some [OF assms(1)] by simp
  moreover have d: "distinct (filter P backfillSpans)" for P
    by (simp add: backfillSpans_def InitialWindow_def duration_defs)
  ultimately have "card (set (filter (\<lambda>s. age' < s) backfillSpans)) < card (set (filter (\<lambda>s. age < s) backfillSpans))"
    by (meson List.finite_set card_Diff1_less card_mono finite_Diff le_less_trans)
  then show ?thesis unfolding rungs_def distinct_card [OF d] .
qed

definition rungs_of :: "tid_lib \<Rightarrow> string \<Rightarrow> time \<Rightarrow> nat" where
  "rungs_of T floor now = (case TimeForTID T floor of Inl e \<Rightarrow> 0 | Inr t \<Rightarrow> rungs (sat64 (now - t)))"

text \<open>A window that is not the last starts above every later rung it could be given again.\<close>

lemma window_lo:
  assumes "tid_laws T" and "0 \<le> now - span" and "0 < span" and "span \<le> 180 * 24 * hour" and "now \<le> now'"
    and "now < tid_end"
  shows "TIDForTime T (now - span) \<noteq> [] \<and>
    (\<exists>t. TimeForTID T (TIDForTime T (now - span)) = Inr t \<and> span \<le> sat64 (now' - t))"
proof -
  let ?m = "(now - span) div 1000"
  have m: "0 \<le> ?m" using assms(2) by simp
  then have micros: "tid_micros (now - span) = ?m" by (simp add: max_def)
  with tid_micros_bound [of "now - span"] have "?m < 2 ^ 53" using assms(3,6) by simp
  with m have p: "tid_Parse T (TIDForTime T (now - span)) = Inr ?m" "TIDForTime T (now - span) \<noteq> []"
    unfolding TIDForTime_New micros using tid_New_Parse tid_New_nonempty assms(1) by blast+
  have "span \<le> now' - ?m * 1000" using assms(5) by linarith
  moreover have "span \<le> 2 ^ 63 - 1" using assms(4) by (simp add: duration_defs)
  ultimately show ?thesis using p assms(3) by (simp add: TimeForTID_def sat64_def)
qed

lemma ladder_ends:
  assumes "tid_laws T" and "floor \<noteq> []" and "sorted nows" and "\<forall>t\<in>set nows. 180 * 24 * hour \<le> t \<and> t < tid_end"
    and "nows \<noteq> []" and "rungs_of T floor (hd nows) < length nows"
  shows "bw_Genesis (last (ladder T floor nows))"
  using assms
proof (induction nows arbitrary: floor)
  case (Cons now nows)
  let ?w = "nextBackfillWindow T floor now"
  show ?case
  proof (cases "bw_Genesis ?w")
    case False
    then obtain t s where t: "TimeForTID T floor = Inr t"
      and s: "next_span backfillSpans (sat64 (now - t)) = Some s" and w: "?w = ladder_window T now s floor"
      using Cons.prems(2) by (auto simp: nextBackfillWindow_def split: sum.splits option.splits)
    have sb: "0 < s" "s \<le> 180 * 24 * hour" using spans_bounds next_span_Some [OF s] by auto
    have now0: "0 \<le> now - s" using Cons.prems(4) sb by simp
    have ne: "nows \<noteq> []" using Cons.prems(6) t s rungs_zero [of "sat64 (now - t)"]
      by (auto simp: rungs_of_def)
    then have le: "now \<le> hd nows" using Cons.prems(3) by (cases nows) auto
    have lo: "bw_Lo ?w = TIDForTime T (now - s)" using w by (simp add: ladder_window_def Let_def)
    have "now < tid_end" using Cons.prems(4) by simp
    note lo2 = window_lo [OF Cons.prems(1) now0 sb le this]
    have "rungs_of T (bw_Lo ?w) (hd nows) < rungs_of T floor now"
      using lo lo2 rungs_less [OF s] t by (auto simp: rungs_of_def)
    then have "bw_Genesis (last (ladder T (bw_Lo ?w) nows))"
      using Cons.IH [of "bw_Lo ?w"] Cons.prems lo lo2 ne by auto
    moreover have "ladder T (bw_Lo ?w) nows \<noteq> []" using ne by (cases nows) (auto simp: Let_def)
    ultimately show ?thesis using False by (simp add: Let_def)
  qed (simp add: Let_def)
qed simp

lemma window_below:
  assumes "tid_laws T" and "floor \<noteq> []" and "180 * 24 * hour \<le> now" and "now < tid_end" and "\<not> bw_Genesis (nextBackfillWindow T floor now)"
  shows "bw_Lo (nextBackfillWindow T floor now) \<noteq> [] \<and> bw_Lo (nextBackfillWindow T floor now) < floor"
proof -
  obtain t s where t: "TimeForTID T floor = Inr t" and s: "next_span backfillSpans (sat64 (now - t)) = Some s"
    and w: "nextBackfillWindow T floor now = ladder_window T now s floor"
    using assms(2,5) by (auto simp: nextBackfillWindow_def split: sum.splits option.splits)
  have sb: "0 < s" "s \<le> 180 * 24 * hour" "sat64 (now - t) < s" using spans_bounds next_span_Some [OF s] by auto
  obtain a where a: "tid_Parse T floor = Inr a" "t = a * 1000"
    using t by (auto simp: TimeForTID_def split: sum.splits)
  have "now - t < s" using sb sat64_less [of s "now - t"] by (simp add: duration_defs)
  then have "(now - s) div 1000 < a" using a(2) by linarith
  moreover have "0 \<le> (now - s) div 1000" using assms(3) sb(2) by simp
  ultimately have "tid_micros (now - s) < a" by simp
  moreover have "tid_micros (now - s) < 2 ^ 53" using tid_micros_bound [of "now - s"] sb(1) assms(4) by simp
  ultimately have "TIDForTime T (now - s) < floor"
    using tid_New_less [OF assms(1) a(1)] by (simp add: TIDForTime_New)
  then show ?thesis using w window_lo [OF assms(1), of now s now] sb assms(3,4)
    by (auto simp: ladder_window_def Let_def)
qed

lemma window_hi: "bw_Hi (nextBackfillWindow T floor now) = floor"
  by (auto simp: nextBackfillWindow_def ladder_window_def Let_def split: sum.split option.split)

lemma genesis_lo: "bw_Genesis (nextBackfillWindow T floor now) \<Longrightarrow> bw_Lo (nextBackfillWindow T floor now) = []"
  by (auto simp: nextBackfillWindow_def ladder_window_def Let_def split: sum.splits option.splits)

lemma ladder_covers:
  assumes "tid_laws T" and "floor \<noteq> []" and "\<forall>t\<in>set nows. 180 * 24 * hour \<le> t \<and> t < tid_end" and "nows \<noteq> []"
    and "bw_Genesis (last (ladder T floor nows))"
  shows "rangesContain (windowRanges [] floor) k \<longleftrightarrow>
    (\<exists>w\<in>set (ladder T floor nows). rangesContain (windowRanges (bw_Lo w) (bw_Hi w)) k)"
  using assms
proof (induction nows arbitrary: floor)
  case (Cons now nows)
  let ?w = "nextBackfillWindow T floor now"
  show ?case
  proof (cases "bw_Genesis ?w")
    case True
    then show ?thesis by (simp add: Let_def window_hi genesis_lo)
  next
    case False
    have below: "bw_Lo ?w \<noteq> []" "bw_Lo ?w < floor" using window_below [of T floor now] Cons.prems False by auto
    have ne: "nows \<noteq> []" using Cons.prems(5) False by (cases nows) (auto simp: Let_def)
    then have "ladder T (bw_Lo ?w) nows \<noteq> []" by (cases nows) (auto simp: Let_def)
    then have "bw_Genesis (last (ladder T (bw_Lo ?w) nows))" using Cons.prems(5) False by (simp add: Let_def)
    with Cons.IH [of "bw_Lo ?w"] Cons.prems below ne
    have "rangesContain (windowRanges [] (bw_Lo ?w)) k \<longleftrightarrow>
        (\<exists>w\<in>set (ladder T (bw_Lo ?w) nows). rangesContain (windowRanges (bw_Lo w) (bw_Hi w)) k)" by auto
    with windowRanges_split [of "bw_Lo ?w" floor k] below False show ?thesis by (auto simp: Let_def window_hi)
  qed
qed simp

text \<open>
  C31.  Five windows complete any history.  From whatever floor a repository is at, and at whatever
  instants a TID can express its windows are walked in order, the fifth window at the latest reaches the start of the
  collections; and the windows walked hold exactly the windowed keys below the floor, with no hole
  between one window and the next.
\<close>

theorem ladder_completes:
  assumes "tid_laws T" and "floor \<noteq> []" and "sorted nows"
    and "\<forall>t\<in>set nows. 180 * 24 * hour \<le> t \<and> t < tid_end" and "length nows = 5"
  shows "bw_Genesis (last (ladder T floor nows)) \<and>
    (rangesContain (windowRanges [] floor) k \<longleftrightarrow>
      (\<exists>w\<in>set (ladder T floor nows). rangesContain (windowRanges (bw_Lo w) (bw_Hi w)) k))"
proof -
  have ne: "nows \<noteq> []" using assms(5) by auto
  have "rungs_of T floor (hd nows) < length nows"
    using rungs_le [of "sat64 (hd nows - t)" for t] assms(5)
    by (auto simp: rungs_of_def split: sum.split intro: le_less_trans [OF rungs_le])
  from ladder_ends [OF assms(1-4) ne this] ladder_covers [OF assms(1,2,4) ne] show ?thesis by blast
qed

theorem ladder_completes_witness:
  "bw_Genesis (last (ladder ex_T ''3lz7adjovn222'' (map (\<lambda>d. (20351 + d) * 24 * hour) [0, 1, 2, 3, 4])))"
proof -
  let ?nows = "map (\<lambda>d. (20351 + d) * 24 * hour) [0, 1, 2, 3, 4]"
  have "sorted ?nows" "\<forall>t\<in>set ?nows. 180 * 24 * hour \<le> t \<and> t < tid_end" "length ?nows = 5"
    by (simp_all add: duration_defs tid_end_def)
  from ladder_completes [OF ex_T_laws _ this, of "''3lz7adjovn222''" "[]"] show ?thesis by blast
qed

section \<open>What a backfill that returns has done\<close>

lemma walk_at_head_Inr:
  assumes "walk_at_head attempts delay fetchHead walk sleep head attempt w = Some (Inr h, w')"
    and "Q head" and fetched: "\<And>w h w'. fetchHead w = (Inr h, w') \<Longrightarrow> Q h"
  shows "Q h \<and> (\<exists>u. walk h u = Some (None, w'))"
  using assms(1,2)
proof (induction "nat (attempts - attempt)" arbitrary: head attempt w rule: less_induct)
  case less
  note unfold = walk_at_head.simps [of attempts delay fetchHead walk sleep head attempt w]
  obtain r w1 where walk: "walk head w = Some (r, w1)"
    using less.prems(1) unfold by (auto split: option.splits)
  show ?case
  proof (cases r)
    case None
    then show ?thesis using less.prems unfold walk by auto
  next
    case (Some err)
    then obtain w2 nxt w3 where at: "attempt < attempts" and f: "fetchHead w2 = (Inr nxt, w3)"
      and rest: "walk_at_head attempts delay fetchHead walk sleep nxt (attempt + 1) w3 = Some (Inr h, w')"
      using less.prems(1) unfold walk
      by (auto split: if_splits prod.splits option.splits sum.splits)
    show ?thesis using less.hyps [OF _ rest fetched [OF f]] at by simp
  qed
qed

definition head_authentic :: "('c, 'key, 'w) head_lib \<Rightarrow> 'c cid_lib \<Rightarrow> string \<Rightarrow> 'c Head \<Rightarrow> bool" where
  "head_authentic H L did h \<longleftrightarrow>
     (\<exists>raw. VerifyBlock L (hd_CID h) raw = None \<and> hl_UnmarshalCBOR H raw = Inr (hd_Commit h)) \<and>
     cm_DID (hd_Commit h) = did \<and>
     (\<exists>key u u'. hl_LookupKey H did u = (Inr (Inr key), u') \<and> hl_VerifySignature H (hd_Commit h) key = None) \<and>
     hd_Root h = cm_Data (hd_Commit h) \<and> hd_Rev h = cm_Rev (hd_Commit h)"

lemma fetch_head_authentic:
  assumes "fetch_head D did s = (Inr h, s')"
  shows "head_authentic (wd_Head D) (wd_Cid D) did h"
proof -
  obtain latest cid raw commit w2 w' where c: "check_commit (wd_Head D) (wd_Cid D) did latest cid raw = Inr commit"
    and s: "check_signature (wd_Head D) did cid commit w2 = (Inr h, w')"
    using assms
    by (auto simp: fetch_head_def FetchVerifiedHead_def split: sum.splits option.splits prod.splits)
  from check_signature_Inr [OF s] obtain key where
    "hl_LookupKey (wd_Head D) did w2 = (Inr (Inr key), w')" "hl_VerifySignature (wd_Head D) commit key = None"
    and h: "h = \<lparr>hd_Commit = commit, hd_CID = cid, hd_Root = cm_Data commit, hd_Rev = cm_Rev commit\<rparr>" by blast
  then have "\<exists>key u u'. hl_LookupKey (wd_Head D) did u = (Inr (Inr key), u') \<and>
      hl_VerifySignature (wd_Head D) (hd_Commit h) key = None" by (metis Head.select_convs(1))
  then show ?thesis using check_commit_Inr [OF c] h by (auto simp: head_authentic_def)
qed

text \<open>The index after the visitor of \<open>walkBackfill\<close> has run over a list of records.\<close>

fun indexed :: "('c, 'key, 'w, 'v) walk_deps \<Rightarrow> string \<Rightarrow> string \<Rightarrow> ('c \<Rightarrow> bytes) \<Rightarrow> (bytes \<times> 'c) list \<Rightarrow> 'v \<Rightarrow> 'v" where
  "indexed D did rv blk [] v = v"
| "indexed D did rv blk ((k, c) # rs) v = indexed D did rv blk rs (snd (index_visit D did rv k c (blk c) v))"

lemma run_visits_indexed:
  "run_visits (index_visit D did rv) blk rs v = (None, v') \<Longrightarrow>
     v' = indexed D did rv blk rs v"
  by (induction rs arbitrary: v) (auto simp: index_visit_def split: prod.splits option.splits sum.splits)

text \<open>
  C6.  A backfill that returns a revision has indexed that revision.  When \<open>walkBackfill\<close> returns
  \<open>(rev, root)\<close>, there is a head with that revision and root which is signed by the account's key, and
  the index is the result of one complete walk of that head: the indexer has been handed exactly the
  records of its tree that lie in the ranges, in key order, each with its own block (whatever earlier,
  abandoned walks had handed over first).  This holds for any host and any number of restarts.
\<close>

theorem walkBackfill_indexes_head:
  assumes "walkBackfill D did ranges (w, v) = Some (Inr (rv, root), (w', v'))"
    and "\<forall>h. head_authentic (wd_Head D) (wd_Cid D) did h \<longrightarrow>
      repo_at (wd_Node D) (wd_Cid D) blk (hd_Root h) (tree h)"
  shows "\<exists>h v0. head_authentic (wd_Head D) (wd_Cid D) did h \<and> hd_Rev h = rv \<and> wd_String D (hd_Root h) = root \<and>
    v' = indexed D did rv blk (in_range ranges (items_recs (tree h))) v0"
proof -
  obtain h cache where run: "walkWithHeadRetry maxWalkAttempts walkRetryDelay (fetch_head D did) (walk_head D did ranges)
      (\<lambda>d (u, v). case wd_Sleep D d u of (e, u1) \<Rightarrow> (e, (u1, v))) ((w, NewMemoryBlockCache), v)
      = Some (Inr h, ((w', cache), v'))" and rv: "rv = hd_Rev h" "root = wd_String D (hd_Root h)"
    using assms(1) by (auto simp: walkBackfill_def split: option.splits sum.splits prod.splits)
  obtain head w1 where f: "fetch_head D did ((w, NewMemoryBlockCache), v) = (Inr head, w1)"
    and at: "walk_at_head maxWalkAttempts walkRetryDelay (fetch_head D did) (walk_head D did ranges)
      (\<lambda>d (u, v). case wd_Sleep D d u of (e, u1) \<Rightarrow> (e, (u1, v))) head 1 w1 = Some (Inr h, ((w', cache), v'))"
    using run by (auto simp: walkWithHeadRetry_def split: prod.splits sum.splits)
  have "head_authentic (wd_Head D) (wd_Cid D) did h \<and>
      (\<exists>u. walk_head D did ranges h u = Some (None, ((w', cache), v')))"
    by (rule walk_at_head_Inr [where Q = "head_authentic (wd_Head D) (wd_Cid D) did", OF at fetch_head_authentic [OF f]])
       (rule fetch_head_authentic)
  then obtain u where auth: "head_authentic (wd_Head D) (wd_Cid D) did h"
    and wk: "walk_head D did ranges h u = Some (None, ((w', cache), v'))" by blast
  obtain w0 v0 where u: "u = (w0, v0)" by (cases u)
  have W: "WalkRanges (wd_CtxErr D) (wd_Node D) (backfill_walker (wd_Cid D) (wd_Car D) (walk_xrpc D) 0 None)
      (hd_Root h) ranges (index_visit D did (hd_Rev h)) w0 v0 = Some (None, (w', cache), v')"
    using wk u by (auto simp: walk_head_def split: option.splits)
  have "run_visits (index_visit D did (hd_Rev h)) blk (in_range ranges (items_recs (tree h))) v0 = (None, v')"
  proof -
    have "repo_at (wd_Node D) (wd_Cid D) blk (hd_Root h) (tree h)" using assms(2) auth by blast
    from walk_returns [OF this, of "wd_CtxErr D" "wd_Car D" "walk_xrpc D" 0 None ranges "index_visit D did (hd_Rev h)" w0 v0]
    show ?thesis using W by (simp add: committed_no_checkpoint)
  qed
  from run_visits_indexed [OF this] auth rv show ?thesis by auto
qed

definition ex_D :: "(string, unit, unit, (string \<times> string) list) walk_deps" where
  "ex_D = \<lparr>wd_Head = ex_H, wd_Cid = ex_L, wd_Car = ex_C, wd_String = id, wd_Host = ''pds.example'',
     wd_GetBlocks = \<lambda>cs w. (Inr [], w),
     wd_Env = \<lparr>env_Now = \<lambda>w. 0, env_Jitter = \<lambda>w d. d, env_Hints = \<lambda>w. [], env_Sleep = \<lambda>d w. (None, w)\<rparr>,
     wd_HeadEnv = \<lparr>env_Now = \<lambda>w. 0, env_Jitter = \<lambda>w d. d, env_Hints = \<lambda>w. [], env_Sleep = \<lambda>d w. (None, w)\<rparr>,
     wd_CtxErr = \<lambda>w. None, wd_Sleep = \<lambda>d w. (None, w), wd_Node = ex_node,
     wd_ParseRepoPath = \<lambda>p. Inr (takeWhile (\<lambda>c. c \<noteq> CHR ''/'') p, p),
     wd_Index = \<lambda>did rkey rec c nsid rv v. (None, v @ [(nsid, c)])\<rparr>"

theorem walkBackfill_indexes_head_witness:
  "\<exists>w' v0. walkBackfill ex_D ''did:plc:a'' [PrefixRange ''a/''] ((), []) =
      Some (Inr (''3k'', ''R''), (w', [(''a'', ''x''), (''a'', ''y'')])) \<and>
    [(''a'', ''x''), (''a'', ''y'')] =
      indexed ex_D ''did:plc:a'' ''3k'' id (in_range [PrefixRange ''a/''] (items_recs ex_its)) v0"
proof -
  have "walkBackfill ex_D ''did:plc:a'' [PrefixRange ''a/''] ((), []) =
      Some (Inr (''3k'', ''R''), ((), [(''a'', ''x''), (''a'', ''y'')]))"
    by code_simp
  moreover have "\<forall>h. head_authentic (wd_Head ex_D) (wd_Cid ex_D) ''did:plc:a'' h \<longrightarrow>
      repo_at (wd_Node ex_D) (wd_Cid ex_D) id (hd_Root h) ex_its"
    using ex_repo by (auto simp: head_authentic_def ex_D_def ex_H_def dest: arg_cong [where f = cm_Data])
  ultimately show ?thesis
    using walkBackfill_indexes_head [of ex_D "''did:plc:a''" "[PrefixRange ''a/'']" "()" "[]" "''3k''" "''R''"
        "()" "[(''a'', ''x''), (''a'', ''y'')]" id "\<lambda>h. ex_its"] by blast
qed

text \<open>
  The fall-back is never an answer to a failed verification.  A backfill that returns either
  walked the verified ranges down to \<open>floor\<close>, or the walk ended in a method-not-supported error that is
  not a moved repository and the full download succeeded; and a walk that failed because a block did
  not match its CID, a node was malformed or a block was missing is never followed by a download: its
  error is returned and the state is the one the walk left.
\<close>

theorem backfillRepo_outcome:
  "(backfillRepo walk legacy floor s = Some (Inr res, s') \<longrightarrow>
      (\<exists>rv root. walk (backfillRanges floor) s = Some (Inr (rv, root), s') \<and>
         res = \<lparr>br_Rev = rv, br_RootCID = root, br_Floor = floor, br_Done = (floor = [])\<rparr>) \<or>
      (\<exists>err s1 rv. walk (backfillRanges floor) s = Some (Inl err, s1) \<and> isMethodNotSupported (Some err) \<and>
         \<not> isStaleWalkError (Some err) \<and> legacy s1 = (Inr rv, s') \<and> br_Rev res = rv \<and> br_Done res)) \<and>
   (\<forall>m e s1. walk (backfillRanges floor) s = Some (Inl (WrapErr m [WrapErr m' [e]]), s1) \<and>
      e \<in> {ErrBlockMismatch, ErrInvalidNode, ErrMissingBlock} \<longrightarrow>
      backfillRepo walk legacy floor s = Some (Inl (WrapErr m [WrapErr m' [e]]), s1))"
proof (intro conjI impI allI)
  assume "backfillRepo walk legacy floor s = Some (Inr res, s')"
  then show "(\<exists>rv root. walk (backfillRanges floor) s = Some (Inr (rv, root), s') \<and>
         res = \<lparr>br_Rev = rv, br_RootCID = root, br_Floor = floor, br_Done = (floor = [])\<rparr>) \<or>
      (\<exists>err s1 rv. walk (backfillRanges floor) s = Some (Inl err, s1) \<and> isMethodNotSupported (Some err) \<and>
         \<not> isStaleWalkError (Some err) \<and> legacy s1 = (Inr rv, s') \<and> br_Rev res = rv \<and> br_Done res)"
    by (auto simp: backfillRepo_def split: option.splits sum.splits prod.splits if_splits)
next
  fix m e s1
  assume h: "walk (backfillRanges floor) s = Some (Inl (WrapErr m [WrapErr m' [e]]), s1) \<and>
      e \<in> {ErrBlockMismatch, ErrInvalidNode, ErrMissingBlock}"
  then have "\<not> isMethodNotSupported (Some (WrapErr m [WrapErr m' [e]]))"
    by (auto simp: isMethodNotSupported_def xrpcErrorName_def as_XrpcError_def as_XRPCError_def)
  with h show "backfillRepo walk legacy floor s = Some (Inl (WrapErr m [WrapErr m' [e]]), s1)"
    by (simp add: backfillRepo_def)
qed

theorem backfillRepo_outcome_witness:
  "backfillRepo (\<lambda>rs s. Some (Inl (WrapErr ''walk'' [WrapErr ''block'' [ErrBlockMismatch]]), Suc s))
     (\<lambda>s. (Inr ''3k'', Suc s)) ''3a'' 0 = Some (Inl (WrapErr ''walk'' [WrapErr ''block'' [ErrBlockMismatch]]), 1)"
  using backfillRepo_outcome [of "\<lambda>rs s. Some (Inl (WrapErr ''walk'' [WrapErr ''block'' [ErrBlockMismatch]]), Suc s)"
      "\<lambda>s. (Inr ''3k'', Suc s)" "''3a''" 0 _ _ "''block''"] by simp

end
