(* ===== verification/RepoSync.thy ===== *)
theory RepoSync
  imports Backfill
begin

text \<open>
  Syncing and deepening one repository (\<open>atproto/atproto.go\<close>, \<open>atproto/headcheck.go\<close>): the cached and
  the full sync, one window of deepening, the refresh of an identity and the head check of the sweep.

  The world of these calls holds the index database, the in-flight marks and the rest (\<open>'x\<close>: the
  network, the clock, the directory cache, the state database).  The walk and the full download are
  arguments over that world, so anything may happen to the database while they run: the firehose may
  advance or wedge the row, an operator may delete it.  The per-DID and per-host locks order the calls
  of one process and are not part of a single call's behaviour.
\<close>

section \<open>World and dependencies\<close>

record 'x sync_world =
  sw_DB :: db
  sw_Flight :: in_flight
  sw_Rest :: 'x

record identity =
  id_DID :: string
  id_Handle :: string
  id_PDS :: string

record 'x sync_deps =
  sd_Resolve :: "string \<Rightarrow> bool \<Rightarrow> 'x sync_world \<Rightarrow> (go_error + identity) \<times> 'x sync_world"
  sd_Walk :: "identity \<Rightarrow> KeyRange list \<Rightarrow> 'x sync_world \<Rightarrow>
    ((go_error + string \<times> string) \<times> 'x sync_world) option"
  sd_Legacy :: "identity \<Rightarrow> 'x sync_world \<Rightarrow> (go_error + string) \<times> 'x sync_world"
  sd_AddRepo :: "string \<Rightarrow> 'x sync_world \<Rightarrow> go_error option \<times> 'x sync_world"
  sd_Purge :: "string \<Rightarrow> 'x sync_world \<Rightarrow> 'x sync_world"
  sd_LatestRev :: "identity \<Rightarrow> 'x sync_world \<Rightarrow> (go_error + string) \<times> 'x sync_world"
  sd_Now :: "'x sync_world \<Rightarrow> time"
  sd_Tid :: tid_lib
  sd_Invalid :: "string \<Rightarrow> bool"
  sd_ToLower :: "string \<Rightarrow> string"

definition with_db :: "(db \<Rightarrow> 'a \<times> db) \<Rightarrow> 'x sync_world \<Rightarrow> 'a \<times> 'x sync_world" where
  "with_db f w = (case f (sw_DB w) of (a, d) \<Rightarrow> (a, w\<lparr>sw_DB := d\<rparr>))"

text \<open>\<open>defer markSyncInFlight(did)()\<close> around a body.\<close>

definition mark_world :: "string \<Rightarrow> 'x sync_world \<Rightarrow> 'x sync_world" where
  "mark_world did w = w\<lparr>sw_Flight := markSyncInFlight did (sw_Flight w)\<rparr>"

definition unmark_world :: "string \<Rightarrow> 'x sync_world \<Rightarrow> 'x sync_world" where
  "unmark_world did w = w\<lparr>sw_Flight := unmarkSync did (sw_Flight w)\<rparr>"

definition in_flight_body ::
  "string \<Rightarrow> ('x sync_world \<Rightarrow> ('a \<times> 'x sync_world) option) \<Rightarrow> 'x sync_world \<Rightarrow> ('a \<times> 'x sync_world) option" where
  "in_flight_body did body w = map_option (\<lambda>(a, w1). (a, unmark_world did w1)) (body (mark_world did w))"

section \<open>A full sync\<close>

definition placeholder_row :: "identity \<Rightarrow> Repo" where
  "placeholder_row ident = \<lparr>repo_DID = id_DID ident, repo_Handle = id_Handle ident, repo_PDS = id_PDS ident,
     repo_Version = [], repo_RootCID = [], repo_Status = [], repo_BackfillFloor = [], repo_BackfillDone = False,
     repo_RepairFrom = []\<rparr>"

definition synced_row :: "identity \<Rightarrow> Repo option \<Rightarrow> backfillResult \<Rightarrow> Repo" where
  "synced_row ident old res =
     (case mergeBackfillState old res of (floor, done) \<Rightarrow>
        \<lparr>repo_DID = id_DID ident, repo_Handle = id_Handle ident, repo_PDS = id_PDS ident,
         repo_Version = br_Rev res, repo_RootCID = br_RootCID res, repo_Status = RepoStatusOK,
         repo_BackfillFloor = floor, repo_BackfillDone = done, repo_RepairFrom = []\<rparr>)"

text \<open>From the placeholder on: read the repository, then write the row.\<close>

definition sync_backfill ::
  "'x sync_deps \<Rightarrow> identity \<Rightarrow> Repo option \<Rightarrow> 'x sync_world \<Rightarrow> ((go_error + Repo) \<times> 'x sync_world) option" where
  "sync_backfill D ident old w =
     (if id_PDS ident = [] then Some (Inl (WrapErr ''no PDS endpoint found'' []), w)
      else
        let repairFrom = (case old of Some r \<Rightarrow> repo_RepairFrom r | None \<Rightarrow> []);
            floor = repairFloor (sd_Tid D) repairFrom (sd_Now D w)
        in case backfillRepo (sd_Walk D ident) (sd_Legacy D ident) floor w of
          None \<Rightarrow> None
        | Some (Inl err, w1) \<Rightarrow>
            (case with_db (parkTerminalRepo (id_DID ident) err) w1 of
               (Some parked, w2) \<Rightarrow> Some (Inl parked, w2)
             | (None, w2) \<Rightarrow> Some (Inl err, w2))
        | Some (Inr result, w1) \<Rightarrow>
            (let newRepo = synced_row ident old result in
             case with_db (UpdateRepo newRepo) w1 of
               (Some e, w2) \<Rightarrow> Some (Inl (WrapErr ''failed to update DID record'' [e]), w2)
             | (None, w2) \<Rightarrow>
                 (case sd_AddRepo D (id_DID ident) w2 of
                    (Some e, w3) \<Rightarrow> Some (Inl (WrapErr ''failed to add repo to stateful DB'' [e]), w3)
                  | (None, w3) \<Rightarrow> Some (Inr newRepo, w3))))"

definition sync_locked ::
  "'x sync_deps \<Rightarrow> identity \<Rightarrow> 'x sync_world \<Rightarrow> ((go_error + Repo) \<times> 'x sync_world) option" where
  "sync_locked D ident w =
     (case with_db (GetRepo (id_DID ident)) w of
        (Inl e, w1) \<Rightarrow> Some (Inl (WrapErr ''failed to get DID record'' [e]), w1)
      | (Inr (Some old), w1) \<Rightarrow>
          if repo_Version old \<noteq> [] then Some (Inr old, w1) else sync_backfill D ident (Some old) w1
      | (Inr None, w1) \<Rightarrow>
          (case with_db (UpdateRepo (placeholder_row ident)) w1 of
             (Some e, w2) \<Rightarrow> Some (Inl (WrapErr ''failed to create empty DID record'' [e]), w2)
           | (None, w2) \<Rightarrow>
               (case sd_AddRepo D (id_DID ident) w2 of
                  (Some e, w3) \<Rightarrow> Some (Inl (WrapErr ''failed to add repo to stateful DB'' [e]), w3)
                | (None, w3) \<Rightarrow> sync_backfill D ident None w3)))"

text \<open>\<open>inside\<close> is the DID the context carries when the call comes from inside that DID's walk.\<close>

definition SyncBlueskyRepo ::
  "'x sync_deps \<Rightarrow> string \<Rightarrow> string \<Rightarrow> 'x sync_world \<Rightarrow> ((go_error + Repo) \<times> 'x sync_world) option" where
  "SyncBlueskyRepo D inside handle w =
     (case sd_Resolve D handle True w of
        (Inl e, w1) \<Rightarrow> Some (Inl (WrapErr ''failed to resolve Bluesky handle'' [e]), w1)
      | (Inr ident, w1) \<Rightarrow>
          if inside = id_DID ident
          then Some (Inl (WrapErr ''refusing re-entrant sync inside its own walk'' []), w1)
          else in_flight_body (id_DID ident) (sync_locked D ident) w1)"

section \<open>Refreshing an identity\<close>

definition purge_all :: "'x sync_deps \<Rightarrow> string list \<Rightarrow> 'x sync_world \<Rightarrow> 'x sync_world" where
  "purge_all D xs w = fold (sd_Purge D) xs w"

definition owner_error ::
  "'x sync_deps \<Rightarrow> identity \<Rightarrow> 'x sync_world \<Rightarrow> go_error option \<times> 'x sync_world" where
  "owner_error D ident w =
     (if \<not> IsUsableHandle (sd_Invalid D) (id_Handle ident) then (None, w)
      else case sd_Resolve D (id_Handle ident) False w of
        (Inl e, w1) \<Rightarrow> (Some (WrapErr ''failed to verify handle ownership'' [e]), w1)
      | (Inr owner, w1) \<Rightarrow>
          if id_DID owner \<noteq> id_DID ident then (Some (WrapErr ''handle no longer verifies'' []), w1)
          else (None, w1))"

definition refresh_did ::
  "'x sync_deps \<Rightarrow> string \<Rightarrow> string \<Rightarrow> 'x sync_world \<Rightarrow> (go_error + identity) \<times> 'x sync_world" where
  "refresh_did D requestedHandle did w =
     (case sd_Resolve D did False w of
        (Inl e, w1) \<Rightarrow> (Inl (WrapErr ''failed to resolve ident'' [e]), w1)
      | (Inr ident, w1) \<Rightarrow>
          if requestedHandle \<noteq> [] \<and> sd_ToLower D requestedHandle \<noteq> sd_ToLower D (id_Handle ident)
          then (Inl (WrapErr ''handle no longer verifies'' []), w1)
          else case owner_error D ident w1 of
            (Some e, w2) \<Rightarrow> (Inl e, w2)
          | (None, w2) \<Rightarrow>
              (case with_db (UpdateRepoIdentity (sd_Invalid D) (id_DID ident) (id_Handle ident) (id_PDS ident)) w2 of
                 ((Some e, evicted), w3) \<Rightarrow> (Inl (WrapErr ''failed to update repo'' [e]), w3)
               | ((None, evicted), w3) \<Rightarrow>
                   (Inr ident, purge_all D (id_DID ident # evicted @
                      (if IsUsableHandle (sd_Invalid D) (id_Handle ident) then [id_Handle ident] else [])) w3)))"

definition RefreshIdentity ::
  "'x sync_deps \<Rightarrow> string \<Rightarrow> 'x sync_world \<Rightarrow> (go_error + identity) \<times> 'x sync_world" where
  "RefreshIdentity D identifier w =
     (if prefix ''did:'' identifier then refresh_did D [] identifier w
      else case sd_Resolve D identifier False w of
        (Inl e, w1) \<Rightarrow> (Inl (WrapErr ''failed to resolve ident'' [e]), w1)
      | (Inr ident, w1) \<Rightarrow> refresh_did D identifier (id_DID ident) w1)"

section \<open>The cached sync\<close>

definition cached_lookup ::
  "'x sync_deps \<Rightarrow> string \<Rightarrow> 'x sync_world \<Rightarrow> (go_error + Repo option) \<times> 'x sync_world" where
  "cached_lookup D handle w =
     (case with_db (GetRepoByHandleOrDID (sd_Invalid D) (sd_ToLower D) handle) w of
        (Inr r, w1) \<Rightarrow> (Inr r, w1)
      | (Inl e, w1) \<Rightarrow>
          if errors_Is e ErrAmbiguousHandle then
            (case RefreshIdentity D handle w1 of
               (Inl rerr, w2) \<Rightarrow> (Inl (WrapErr [] [e, rerr]), w2)
             | (Inr ident, w2) \<Rightarrow>
                 (case with_db (GetRepo (id_DID ident)) w2 of
                    (Inl e2, w3) \<Rightarrow> (Inl (WrapErr ''failed to get repo'' [e2]), w3)
                  | (Inr r, w3) \<Rightarrow> (Inr r, w3)))
          else (Inl (WrapErr ''failed to get repo'' [e]), w1))"

definition SyncBlueskyRepoCached ::
  "'x sync_deps \<Rightarrow> string \<Rightarrow> string \<Rightarrow> 'x sync_world \<Rightarrow> ((go_error + Repo) \<times> 'x sync_world) option" where
  "SyncBlueskyRepoCached D inside handle w =
     (case cached_lookup D handle w of
        (Inl e, w1) \<Rightarrow> Some (Inl e, w1)
      | (Inr r, w1) \<Rightarrow>
          if TerminalStatus r then Some (Inr (the r), w1)
          else case r of
            Some repo \<Rightarrow>
              if repo_Version repo \<noteq> [] \<or> syncInFlight (repo_DID repo) (sw_Flight w1) then Some (Inr repo, w1)
              else SyncBlueskyRepo D inside handle w1
          | None \<Rightarrow> SyncBlueskyRepo D inside handle w1)"

section \<open>Deepening\<close>

text \<open>The walk of one window, or the full download for a host without the method.\<close>

definition deepen_walk ::
  "'x sync_deps \<Rightarrow> identity \<Rightarrow> backfillWindow \<Rightarrow> 'x sync_world \<Rightarrow>
   ((go_error + string \<times> string \<times> backfillWindow) \<times> 'x sync_world) option" where
  "deepen_walk D ident window w =
     (case sd_Walk D ident (windowRanges (bw_Lo window) (bw_Hi window)) w of
        None \<Rightarrow> None
      | Some (Inr (rv, root), w1) \<Rightarrow> Some (Inr (rv, root, window), w1)
      | Some (Inl err, w1) \<Rightarrow>
          if isMethodNotSupported (Some err) then
            (case sd_Legacy D ident w1 of
               (Inl e, w2) \<Rightarrow> Some (Inl e, w2)
             | (Inr rv, w2) \<Rightarrow> Some (Inr (rv, [], genesis_window []), w2))
          else Some (Inl err, w1))"

definition deepen_locked ::
  "'x sync_deps \<Rightarrow> string \<Rightarrow> Repo \<Rightarrow> 'x sync_world \<Rightarrow> ((go_error + bool \<times> string) \<times> 'x sync_world) option" where
  "deepen_locked D did repo w =
     (case sd_Resolve D did True w of
        (Inl e, w1) \<Rightarrow> Some (Inl (WrapErr ''failed to resolve'' [e]), w1)
      | (Inr ident, w1) \<Rightarrow>
          if id_PDS ident = [] then Some (Inl (WrapErr ''no PDS endpoint found'' []), w1)
          else
            let window = nextBackfillWindow (sd_Tid D) (repo_BackfillFloor repo) (sd_Now D w1) in
            case deepen_walk D ident window w1 of
              None \<Rightarrow> None
            | Some (Inl err, w2) \<Rightarrow>
                (case with_db (parkTerminalRepo did err) w2 of
                   (Some parked, w3) \<Rightarrow> Some (Inl parked, w3)
                 | (None, w3) \<Rightarrow> Some (Inl err, w3))
            | Some (Inr (rv, root, win), w2) \<Rightarrow>
                (case with_db (AdvanceRepoBackfill did rv root (bw_Lo win) (bw_Genesis win)) w2 of
                   (Inl e, w3) \<Rightarrow> Some (Inl (WrapErr ''failed to record backfill watermark'' [e]), w3)
                 | (Inr False, w3) \<Rightarrow> Some (Inr (False, repo_BackfillFloor repo), w3)
                 | (Inr True, w3) \<Rightarrow> Some (Inr (bw_Genesis win, bw_Lo win), w3)))"

definition DeepenRepo ::
  "'x sync_deps \<Rightarrow> string \<Rightarrow> 'x sync_world \<Rightarrow> ((go_error + bool \<times> string) \<times> 'x sync_world) option" where
  "DeepenRepo D did w =
     (case with_db (GetRepo did) w of
        (Inl e, w1) \<Rightarrow> Some (Inl (WrapErr ''failed to get repo'' [e]), w1)
      | (Inr None, w1) \<Rightarrow> Some (Inl (WrapErr ''no repo row'' []), w1)
      | (Inr (Some repo), w1) \<Rightarrow>
          if TerminalStatus (Some repo) then Some (Inr (True, repo_BackfillFloor repo), w1)
          else if repo_BackfillDone repo then Some (Inr (True, repo_BackfillFloor repo), w1)
          else if repo_Version repo = [] then Some (Inl (WrapErr ''repo has no completed sync to deepen'' []), w1)
          else in_flight_body did (deepen_locked D did repo) w1)"

section \<open>The head check\<close>

text \<open>\<open>sweepCheck\<close>: whether the repo goes on to its lane's ladder, and whether it is put back in the
  shallow queue for a repair.\<close>

definition headRev :: "'x sync_deps \<Rightarrow> identity \<Rightarrow> 'x sync_world \<Rightarrow> (go_error + string) \<times> 'x sync_world" where
  "headRev D ident w =
     (if id_PDS ident = [] then (Inl (WrapErr ''no PDS endpoint found'' []), w) else sd_LatestRev D ident w)"

definition sweepCheck :: "'x sync_deps \<Rightarrow> string \<Rightarrow> 'x sync_world \<Rightarrow> (bool \<times> bool) \<times> 'x sync_world" where
  "sweepCheck D did w =
     (case with_db (GetRepo did) w of
        (Inl e, w1) \<Rightarrow> ((False, False), w1)
      | (Inr None, w1) \<Rightarrow> ((False, False), w1)
      | (Inr (Some repo), w1) \<Rightarrow>
          if repo_Version repo = [] \<or> TerminalStatus (Some repo) then ((False, False), w1)
          else case RefreshIdentity D did w1 of
            (Inl e, w2) \<Rightarrow> ((False, False), w2)
          | (Inr ident, w2) \<Rightarrow>
              (case headRev D ident w2 of
                 (Inl e, w3) \<Rightarrow> ((False, False), snd (with_db (parkTerminalRepo did e) w3))
               | (Inr rv, w3) \<Rightarrow>
                   if rv = repo_Version repo then ((\<not> repo_BackfillDone repo, False), w3)
                   else case with_db (MarkRepoForRepair did (repo_Version repo)) w3 of
                     (Inl e, w4) \<Rightarrow> ((\<not> repo_BackfillDone repo, False), w4)
                   | (Inr False, w4) \<Rightarrow> ((False, False), w4)
                   | (Inr True, w4) \<Rightarrow> ((False, True), w4)))"

section \<open>What a sync records\<close>

lemma with_db_eq: "with_db f w = (a, w') \<longleftrightarrow> (\<exists>d. f (sw_DB w) = (a, d) \<and> w' = w\<lparr>sw_DB := d\<rparr>)"
  by (auto simp: with_db_def split: prod.split)

text \<open>The state database is another database: recording a DID there leaves the index alone.\<close>

definition separate_state :: "'x sync_deps \<Rightarrow> bool" where
  "separate_state D \<longleftrightarrow> (\<forall>did w. sw_DB (snd (sd_AddRepo D did w)) = sw_DB w)"

lemma sync_backfill_Inr:
  assumes "sync_backfill D ident old w = Some (Inr repo, w')" and "separate_state D"
  shows "\<exists>res w1. backfillRepo (sd_Walk D ident) (sd_Legacy D ident)
      (repairFloor (sd_Tid D) (case old of Some r \<Rightarrow> repo_RepairFrom r | None \<Rightarrow> []) (sd_Now D w)) w = Some (Inr res, w1)
    \<and> repo = synced_row ident old res \<and> row (sw_DB w') (id_DID ident) = Some repo"
proof -
  let ?floor = "repairFloor (sd_Tid D) (case old of Some r \<Rightarrow> repo_RepairFrom r | None \<Rightarrow> []) (sd_Now D w)"
  obtain res w1 w2 where b: "backfillRepo (sd_Walk D ident) (sd_Legacy D ident) ?floor w = Some (Inr res, w1)"
    and u: "with_db (UpdateRepo (synced_row ident old res)) w1 = (None, w2)"
    and a: "sd_AddRepo D (id_DID ident) w2 = (None, w')" and repo: "repo = synced_row ident old res"
    using assms(1)
    by (auto simp: sync_backfill_def Let_def split: if_splits option.splits sum.splits prod.splits)
  have "sw_DB w' = sw_DB w2" using assms(2) a by (metis separate_state_def snd_conv)
  moreover have "repo_DID repo = id_DID ident" by (simp add: repo synced_row_def split: prod.split)
  moreover obtain d where "UpdateRepo repo (sw_DB w1) = (None, d)" "sw_DB w2 = d"
    using u repo by (auto simp: with_db_eq)
  ultimately have "row (sw_DB w') (id_DID ident) = Some repo"
    using UpdateRepo_row [of repo "sw_DB w1" None d "id_DID ident"] by simp
  with b repo show ?thesis by blast
qed

text \<open>
  C9.  What a sync that returns has written.  Either the row already held a revision and is returned
  as it was; or a backfill succeeded from the repair floor of the old row and the row now stands at
  the backfill's revision with a clean status and no repair owed, and its history covers exactly what
  the old row covered or the backfill read.
\<close>

theorem SyncBlueskyRepo_records:
  assumes "SyncBlueskyRepo D inside handle w = Some (Inr repo, w')" and "separate_state D"
  shows "\<exists>ident w1. sd_Resolve D handle True w = (Inr ident, w1) \<and> inside \<noteq> id_DID ident \<and>
    row (sw_DB w') (id_DID ident) = Some repo \<and>
    (row (sw_DB w1) (id_DID ident) = Some repo \<and> repo_Version repo \<noteq> [] \<or>
     (\<exists>w2 w3 res. backfillRepo (sd_Walk D ident) (sd_Legacy D ident)
         (repairFloor (sd_Tid D) (case row (sw_DB w1) (id_DID ident) of Some r \<Rightarrow> repo_RepairFrom r | None \<Rightarrow> [])
           (sd_Now D w2)) w2 = Some (Inr res, w3) \<and>
       repo_Version repo = br_Rev res \<and> repo_Status repo = RepoStatusOK \<and> repo_RepairFrom repo = [] \<and>
       (\<forall>k. covers (repo_BackfillFloor repo) (repo_BackfillDone repo) k \<longleftrightarrow>
          covers (br_Floor res) (br_Done res) k \<or>
          (case row (sw_DB w1) (id_DID ident) of
             Some r \<Rightarrow> covers (repo_BackfillFloor r) (repo_BackfillDone r) k | None \<Rightarrow> False))))"
proof -
  obtain ident w1 where r: "sd_Resolve D handle True w = (Inr ident, w1)" "inside \<noteq> id_DID ident"
    and body: "in_flight_body (id_DID ident) (sync_locked D ident) w1 = Some (Inr repo, w')"
    using assms(1) by (auto simp: SyncBlueskyRepo_def split: prod.splits sum.splits if_splits)
  let ?did = "id_DID ident" and ?wm = "mark_world (id_DID ident) w1"
  obtain w4 where l: "sync_locked D ident ?wm = Some (Inr repo, w4)" and w': "w' = unmark_world ?did w4"
    using body by (auto simp: in_flight_body_def)
  have db: "sw_DB ?wm = sw_DB w1" "sw_DB w' = sw_DB w4" by (simp_all add: mark_world_def w' unmark_world_def)
  obtain g wa where g: "with_db (GetRepo ?did) ?wm = (g, wa)" by (metis prod.collapse)
  have rows: "db_Rows (sw_DB wa) = db_Rows (sw_DB w1)"
    and got: "g = Inr old \<Longrightarrow> old = row (sw_DB w1) ?did" for old
    using g db(1) by (auto simp: with_db_eq GetRepo_def split: prod.splits option.splits)
  have merged: "covers (repo_BackfillFloor (synced_row ident old res)) (repo_BackfillDone (synced_row ident old res)) k \<longleftrightarrow>
      covers (br_Floor res) (br_Done res) k \<or>
      (case old of Some r \<Rightarrow> covers (repo_BackfillFloor r) (repo_BackfillDone r) k | None \<Rightarrow> False)" for old res k
    using mergeBackfillState_covers [where old = old and res = res and k = k]
    by (cases "mergeBackfillState old res") (simp add: synced_row_def)
  have cols: "repo_Version (synced_row ident old res) = br_Rev res" "repo_Status (synced_row ident old res) = RepoStatusOK"
    "repo_RepairFrom (synced_row ident old res) = []" for old res
    by (simp_all add: synced_row_def split: prod.split)
  show ?thesis
  proof (cases "\<exists>old. g = Inr (Some old) \<and> repo_Version old \<noteq> []")
    case True
    then obtain old where old: "g = Inr (Some old)" "repo_Version old \<noteq> []" by blast
    then have "repo = old" "w4 = wa" using l g by (auto simp: sync_locked_def)
    then show ?thesis using r old got [OF old(1)] rows db by auto
  next
    case False
    then obtain old w2 where old: "old = row (sw_DB w1) ?did" and b: "sync_backfill D ident old w2 = Some (Inr repo, w4)"
      using l g got by (auto simp: sync_locked_def split: sum.splits option.splits if_splits prod.splits)
    from sync_backfill_Inr [OF b assms(2)] obtain res w3 where
      "backfillRepo (sd_Walk D ident) (sd_Legacy D ident)
        (repairFloor (sd_Tid D) (case old of Some r \<Rightarrow> repo_RepairFrom r | None \<Rightarrow> []) (sd_Now D w2)) w2 = Some (Inr res, w3)"
      "repo = synced_row ident old res" "row (sw_DB w4) ?did = Some repo" by blast
    then show ?thesis using r old merged [where old = old and res = res] cols [where old = old and res = res] db(2) by auto
  qed
qed

definition ex_sync :: "unit sync_deps" where
  "ex_sync = \<lparr>sd_Resolve = \<lambda>a c w. (Inr \<lparr>id_DID = ''did:plc:a'', id_Handle = ''a.test'', id_PDS = ''p''\<rparr>, w),
     sd_Walk = \<lambda>i rs w. Some (Inr (''3k9'', ''root''), w), sd_Legacy = \<lambda>i w. (Inr ''3k9'', w),
     sd_AddRepo = \<lambda>d w. (None, w), sd_Purge = \<lambda>d w. w, sd_LatestRev = \<lambda>i w. (Inr ''3k9'', w),
     sd_Now = \<lambda>w. 100 * 24 * hour, sd_Tid = ex_T, sd_Invalid = \<lambda>h. h = ''handle.invalid'', sd_ToLower = id\<rparr>"

definition ex_world :: "string \<Rightarrow> unit sync_world" where
  "ex_world v = \<lparr>sw_DB = ex_db\<lparr>db_Rows := [ex_row\<lparr>repo_Version := v\<rparr>]\<rparr>, sw_Flight = Map.empty, sw_Rest = ()\<rparr>"

theorem SyncBlueskyRepo_records_witness:
  "\<exists>repo w'. SyncBlueskyRepo ex_sync [] ''a.test'' (ex_world []) = Some (Inr repo, w') \<and>
     row (sw_DB w') ''did:plc:a'' = Some repo"
proof -
  obtain repo w' where run: "SyncBlueskyRepo ex_sync [] ''a.test'' (ex_world []) = Some (Inr repo, w')"
    by (simp add: SyncBlueskyRepo_def ex_sync_def in_flight_body_def sync_locked_def sync_backfill_def
        with_db_def GetRepo_def stmt_def row_of_def ex_world_def ex_db_def ex_row_def mark_world_def
        unmark_world_def backfillRepo_def UpdateRepo_def Let_def)
  have "separate_state ex_sync" by (simp add: separate_state_def ex_sync_def)
  from SyncBlueskyRepo_records [OF run this] run show ?thesis by (auto simp: ex_sync_def)
qed

section \<open>A wedge wins over a window\<close>

text \<open>What runs beside a call may do anything to the rows but duplicate a primary key.\<close>

definition tables_kept :: "'x sync_deps \<Rightarrow> bool" where
  "tables_kept D \<longleftrightarrow>
     (\<forall>a c w. table_ok (sw_DB w) \<longrightarrow> table_ok (sw_DB (snd (sd_Resolve D a c w)))) \<and>
     (\<forall>i rs w r w'. table_ok (sw_DB w) \<and> sd_Walk D i rs w = Some (r, w') \<longrightarrow> table_ok (sw_DB w')) \<and>
     (\<forall>i w. table_ok (sw_DB w) \<longrightarrow> table_ok (sw_DB (snd (sd_Legacy D i w))))"

lemma deepen_walk_table:
  assumes "tables_kept D" and "table_ok (sw_DB w)" and "deepen_walk D ident window w = Some (r, w')"
  shows "table_ok (sw_DB w')"
proof -
  obtain res w1 where walk: "sd_Walk D ident (windowRanges (bw_Lo window) (bw_Hi window)) w = Some (res, w1)"
    using assms(3) by (auto simp: deepen_walk_def split: option.splits)
  have t1: "table_ok (sw_DB w1)" using assms(1,2) walk unfolding tables_kept_def by blast
  then have t2: "table_ok (sw_DB (snd (sd_Legacy D ident w1)))" using assms(1) by (auto simp: tables_kept_def)
  show ?thesis using assms(3) walk t1 t2
    by (auto simp: deepen_walk_def split: sum.splits prod.splits if_splits)
qed

text \<open>
  C23.  Deepening never cancels a repair and never blanks a row.  When \<open>DeepenRepo\<close> walks a window and
  returns, let \<open>w2\<close> be the world the walk left.  If the row was wedged meanwhile, it stays exactly as
  it is and the call reports the old floor; otherwise only the revision, root, floor and completion
  of the row change, to those of the window, and the call reports the window's.
\<close>

theorem DeepenRepo_wedge_wins:
  assumes run: "DeepenRepo D did w = Some (Inr (dn, fl), w')" and ok: "table_ok (sw_DB w)" "tables_kept D"
    and old: "row (sw_DB w) did = Some repo" "repo_Status repo = RepoStatusOK" "\<not> repo_BackfillDone repo"
  shows "\<exists>ident w1 w2 rv root win. deepen_walk D ident
      (nextBackfillWindow (sd_Tid D) (repo_BackfillFloor repo) (sd_Now D w1)) w1 = Some (Inr (rv, root, win), w2) \<and>
    (case row (sw_DB w2) did of
       None \<Rightarrow> row (sw_DB w') did = None \<and> \<not> dn
     | Some r \<Rightarrow>
         if repo_Version r = [] then row (sw_DB w') did = Some r \<and> \<not> dn \<and> fl = repo_BackfillFloor repo
         else row (sw_DB w') did = Some (r\<lparr>repo_Version := rv, repo_RootCID := root,
                repo_BackfillFloor := bw_Lo win, repo_BackfillDone := bw_Genesis win\<rparr>) \<and>
              dn = bw_Genesis win \<and> fl = bw_Lo win)"
proof -
  obtain g w0 where g: "with_db (GetRepo did) w = (g, w0)" by (metis prod.collapse)
  have w0: "db_Rows (sw_DB w0) = db_Rows (sw_DB w)" "g = Inr x \<Longrightarrow> x = Some repo" for x
    using g old(1) by (auto simp: with_db_eq GetRepo_def split: prod.splits option.splits)
  then obtain w4 where d: "deepen_locked D did repo (mark_world did w0) = Some (Inr (dn, fl), w4)"
    and w': "w' = unmark_world did w4"
    using run g old(2,3)
    by (auto simp: DeepenRepo_def TerminalStatus_def in_flight_body_def split: sum.splits option.splits if_splits)
  obtain ident w1 where r: "sd_Resolve D did True (mark_world did w0) = (Inr ident, w1)"
    using d by (auto simp: deepen_locked_def split: prod.splits sum.splits)
  have tm: "table_ok (sw_DB (mark_world did w0))" using ok(1) w0(1) by (simp add: mark_world_def table_ok_def)
  have "table_ok (sw_DB (snd (sd_Resolve D did True (mark_world did w0))))"
    using ok(2) tm unfolding tables_kept_def by blast
  then have t1: "table_ok (sw_DB w1)" using r by simp
  define window where "window = nextBackfillWindow (sd_Tid D) (repo_BackfillFloor repo) (sd_Now D w1)"
  obtain rv root win w2 where dw: "deepen_walk D ident window w1 = Some (Inr (rv, root, win), w2)"
    using d r by (auto simp: deepen_locked_def window_def Let_def split: if_splits option.splits sum.splits prod.splits)
  have t2: "table_ok (sw_DB w2)" by (rule deepen_walk_table [OF ok(2) t1 dw])
  obtain b d3 where a: "AdvanceRepoBackfill did rv root (bw_Lo win) (bw_Genesis win) (sw_DB w2) = (Inr b, d3)"
    and res: "(dn, fl) = (if b then (bw_Genesis win, bw_Lo win) else (False, repo_BackfillFloor repo))"
    and w4: "w4 = w2\<lparr>sw_DB := d3\<rparr>"
    using d r dw [unfolded window_def]
    by (auto simp: deepen_locked_def Let_def with_db_def split: if_splits sum.splits prod.splits bool.splits)
  have "sw_DB w' = d3" using w' w4 by (simp add: unmark_world_def)
  then have wr: "(b \<longleftrightarrow> (\<exists>r. row (sw_DB w2) did = Some r \<and> repo_Version r \<noteq> [])) \<and>
      row (sw_DB w') did = (if b then map_option (\<lambda>r. r\<lparr>repo_Version := rv, repo_RootCID := root,
        repo_BackfillFloor := bw_Lo win, repo_BackfillDone := bw_Genesis win\<rparr>) (row (sw_DB w2) did)
        else row (sw_DB w2) did)"
    using AdvanceRepoBackfill_row [OF a t2] by simp
  have "case row (sw_DB w2) did of
       None \<Rightarrow> row (sw_DB w') did = None \<and> \<not> dn
     | Some r \<Rightarrow>
         if repo_Version r = [] then row (sw_DB w') did = Some r \<and> \<not> dn \<and> fl = repo_BackfillFloor repo
         else row (sw_DB w') did = Some (r\<lparr>repo_Version := rv, repo_RootCID := root,
                repo_BackfillFloor := bw_Lo win, repo_BackfillDone := bw_Genesis win\<rparr>) \<and>
              dn = bw_Genesis win \<and> fl = bw_Lo win"
    using wr res by (cases "row (sw_DB w2) did"; cases b) simp_all
  with dw [unfolded window_def] show ?thesis by blast
qed

theorem DeepenRepo_wedge_wins_witness:
  "\<exists>w'. DeepenRepo ex_sync ''did:plc:a'' (ex_world ''3k1'') = Some (Inr (True, []), w') \<and>
     map_option repo_BackfillDone (row (sw_DB w') ''did:plc:a'') = Some True"
proof -
  have w: "table_ok (sw_DB (ex_world ''3k1''))" "tables_kept ex_sync"
    "row (sw_DB (ex_world ''3k1'')) ''did:plc:a'' = Some (ex_row\<lparr>repo_Version := ''3k1''\<rparr>)"
    "repo_Status (ex_row\<lparr>repo_Version := ''3k1''\<rparr>) = RepoStatusOK"
    "\<not> repo_BackfillDone (ex_row\<lparr>repo_Version := ''3k1''\<rparr>)"
    by (simp_all add: table_ok_def tables_kept_def ex_sync_def ex_world_def ex_db_def row_of_def ex_row_def RepoStatusOK_def)
  obtain w' where run: "DeepenRepo ex_sync ''did:plc:a'' (ex_world ''3k1'') = Some (Inr (True, []), w')"
    by (simp add: DeepenRepo_def deepen_locked_def deepen_walk_def ex_sync_def in_flight_body_def with_db_def
        GetRepo_def stmt_def row_of_def ex_world_def ex_db_def ex_row_def mark_world_def unmark_world_def Let_def
        TerminalStatus_def RepoStatusOK_def nextBackfillWindow_def TimeForTID_def ex_T_def tid_syntax_def
        AdvanceRepoBackfill_def applied_def update_where_def)
  from DeepenRepo_wedge_wins [OF run w] obtain ident w1 w2 rv root win where
    d: "deepen_walk ex_sync ident (nextBackfillWindow (sd_Tid ex_sync) (repo_BackfillFloor (ex_row\<lparr>repo_Version := ''3k1''\<rparr>))
      (sd_Now ex_sync w1)) w1 = Some (Inr (rv, root, win), w2)"
    and c: "case row (sw_DB w2) ''did:plc:a'' of
       None \<Rightarrow> row (sw_DB w') ''did:plc:a'' = None \<and> \<not> True
     | Some r \<Rightarrow>
         if repo_Version r = [] then row (sw_DB w') ''did:plc:a'' = Some r \<and> \<not> True \<and>
           [] = repo_BackfillFloor (ex_row\<lparr>repo_Version := ''3k1''\<rparr>)
         else row (sw_DB w') ''did:plc:a'' = Some (r\<lparr>repo_Version := rv, repo_RootCID := root,
                repo_BackfillFloor := bw_Lo win, repo_BackfillDone := bw_Genesis win\<rparr>) \<and>
              True = bw_Genesis win \<and> [] = bw_Lo win" by blast
  have "map_option repo_BackfillDone (row (sw_DB w') ''did:plc:a'') = Some True"
    using c by (auto split: option.splits if_splits)
  with run show ?thesis by blast
qed

section \<open>A walk never re-enters itself\<close>

lemma cached_lookup_irrelevant: "cached_lookup (D\<lparr>sd_Walk := f, sd_Legacy := g\<rparr>) = cached_lookup D"
proof -
  have "purge_all (D\<lparr>sd_Walk := f, sd_Legacy := g\<rparr>) = purge_all D"
    "owner_error (D\<lparr>sd_Walk := f, sd_Legacy := g\<rparr>) = owner_error D"
    by (simp_all add: fun_eq_iff purge_all_def owner_error_def)
  then have "refresh_did (D\<lparr>sd_Walk := f, sd_Legacy := g\<rparr>) = refresh_did D"
    by (simp add: fun_eq_iff refresh_did_def cong: prod.case_cong sum.case_cong option.case_cong if_cong)
  then have "RefreshIdentity (D\<lparr>sd_Walk := f, sd_Legacy := g\<rparr>) = RefreshIdentity D"
    by (simp add: fun_eq_iff RefreshIdentity_def cong: prod.case_cong sum.case_cong if_cong)
  then show ?thesis by (simp add: fun_eq_iff cached_lookup_def cong: prod.case_cong sum.case_cong if_cong)
qed

text \<open>
  A walk never re-enters itself.  Indexing a record calls back into the cached sync for the
  record's author.  When that author is the repository being walked (the context carries its DID), the
  call returns without starting another walk or download, whether or not the row is still there: its
  result does not depend on what a walk or a download would do, so it never waits for the lock its
  caller holds.  While the row is there and marked in flight, the call returns the row.
\<close>

theorem reentrant_sync_never_walks:
  assumes "prefix ''did:'' did"
    and "\<forall>w. \<exists>ident w'. sd_Resolve D did True w = (Inr ident, w') \<and> id_DID ident = did"
  shows "SyncBlueskyRepoCached (D\<lparr>sd_Walk := f, sd_Legacy := g\<rparr>) did did w = SyncBlueskyRepoCached D did did w \<and>
    (\<exists>r w'. SyncBlueskyRepoCached D did did w = Some (r, w')) \<and>
    (\<forall>repo. row (sw_DB w) did = Some repo \<and> syncInFlight did (sw_Flight w) \<and> db_Faults (sw_DB w) = [] \<longrightarrow>
       SyncBlueskyRepoCached D did did w = Some (Inr repo, w))"
proof -
  have refused: "SyncBlueskyRepo D did did u = Some (Inl (WrapErr ''refusing re-entrant sync inside its own walk'' []),
      snd (sd_Resolve D did True u))"
    "SyncBlueskyRepo (D\<lparr>sd_Walk := f, sd_Legacy := g\<rparr>) did did u = SyncBlueskyRepo D did did u" for u
    using assms(2) [THEN spec, of u] by (auto simp: SyncBlueskyRepo_def)
  obtain r w1 where look: "cached_lookup D did w = (r, w1)" by (metis prod.collapse)
  have "SyncBlueskyRepoCached D did did w = Some (Inr repo, w)"
    if "row (sw_DB w) did = Some repo" "syncInFlight did (sw_Flight w)" "db_Faults (sw_DB w) = []" for repo
    using that assms(1) row_of_Some [OF that(1)]
    by (simp add: SyncBlueskyRepoCached_def cached_lookup_def GetRepoByHandleOrDID_def with_db_def GetRepo_def
        stmt_no_faults)
  then show ?thesis using look refused
    by (auto simp: SyncBlueskyRepoCached_def cached_lookup_irrelevant split: sum.split option.split)
qed

theorem reentrant_sync_never_walks_witness:
  "SyncBlueskyRepoCached (ex_sync\<lparr>sd_Walk := \<lambda>i rs w. None, sd_Legacy := \<lambda>i w. (Inl ioEOF, w)\<rparr>)
     ''did:plc:a'' ''did:plc:a'' (ex_world []) =
   SyncBlueskyRepoCached ex_sync ''did:plc:a'' ''did:plc:a'' (ex_world [])"
proof -
  have "prefix ''did:'' ''did:plc:a''" by simp
  moreover have "\<forall>w. \<exists>ident w'. sd_Resolve ex_sync ''did:plc:a'' True w = (Inr ident, w') \<and> id_DID ident = ''did:plc:a''"
    by (simp add: ex_sync_def)
  ultimately show ?thesis using reentrant_sync_never_walks [of "''did:plc:a''" ex_sync] by blast
qed

end
