(* ===== verification/Sweep.thy ===== *)
theory Sweep
  imports RepoSync "HOL-Library.Multiset"
begin

text \<open>
  The scheduler of the backfill sweep (\<open>atproto/sweep.go\<close>): the program of one host's lane, and the
  scheduler that runs lanes side by side under a limit.

  The scheduler is a transition system whose steps are the critical sections of the source: a worker
  goroutine runs one lane, and the steps of different workers, new items and a cancellation interleave
  freely.
\<close>

section \<open>Items, lanes and their programs\<close>

record sweepItem =
  si_DID :: string
  si_Handle :: string
  si_Lane :: string
  si_Deepen :: bool
  si_Check :: bool

record sweepStep =
  ss_Item :: sweepItem
  ss_Windows :: nat

definition maxDeepenRounds :: nat where
  "maxDeepenRounds = length backfillSpans + 3"

definition sweepLane :: "string \<Rightarrow> string \<Rightarrow> string" where
  "sweepLane did pds = (let host = HostKey pds in if host \<noteq> [] then host else ''did:'' @ did)"

definition laneCount :: "sweepItem list \<Rightarrow> nat" where
  "laneCount items = length (remdups (map si_Lane items))"

record laneProgram =
  lp_check :: "sweepItem list"
  lp_shallow :: "sweepItem list"
  lp_ladder :: "sweepItem list list"
  lp_live :: bool

definition new_program :: laneProgram where
  "new_program = \<lparr>lp_check = [], lp_shallow = [], lp_ladder = [], lp_live = False\<rparr>"

fun ladder_next :: "nat \<Rightarrow> sweepItem list list \<Rightarrow> (sweepStep \<times> sweepItem list list) option" where
  "ladder_next n [] = None"
| "ladder_next n ([] # bs) = map_option (\<lambda>(st, bs'). (st, [] # bs')) (ladder_next (Suc n) bs)"
| "ladder_next n ((item # b) # bs) = Some (\<lparr>ss_Item = item, ss_Windows = n\<rparr>, b # bs)"

definition lane_next :: "laneProgram \<Rightarrow> sweepStep option \<times> laneProgram" where
  "lane_next p =
     (case lp_check p of
        item # c \<Rightarrow> (Some \<lparr>ss_Item = item, ss_Windows = 0\<rparr>, p\<lparr>lp_check := c\<rparr>)
      | [] \<Rightarrow>
          (case lp_shallow p of
             item # s \<Rightarrow> (Some \<lparr>ss_Item = item, ss_Windows = 0\<rparr>, p\<lparr>lp_shallow := s\<rparr>)
           | [] \<Rightarrow>
               (case ladder_next 0 (lp_ladder p) of
                  Some (st, bs) \<Rightarrow> (Some st, p\<lparr>lp_ladder := bs\<rparr>)
                | None \<Rightarrow> (None, p))))"

definition lane_push :: "sweepItem \<Rightarrow> nat \<Rightarrow> laneProgram \<Rightarrow> laneProgram" where
  "lane_push item windows p =
     (if windows \<ge> maxDeepenRounds then p
      else
        let item' = item\<lparr>si_Deepen := True, si_Check := False\<rparr>;
            ladder = lp_ladder p @ replicate (Suc windows - length (lp_ladder p)) []
        in p\<lparr>lp_ladder := ladder[windows := ladder ! windows @ [item']]\<rparr>)"

definition lane_add :: "sweepItem \<Rightarrow> laneProgram \<Rightarrow> laneProgram" where
  "lane_add item p =
     (if si_Check item then p\<lparr>lp_check := lp_check p @ [item]\<rparr>
      else if si_Deepen item then lane_push item 0 p
      else p\<lparr>lp_shallow := lp_shallow p @ [item]\<rparr>)"

text \<open>What a worker does with the answer of a step.\<close>

definition after_work :: "sweepStep \<Rightarrow> bool \<Rightarrow> laneProgram \<Rightarrow> laneProgram" where
  "after_work st ans p =
     (if \<not> ans then p
      else lane_push (ss_Item st) (if si_Deepen (ss_Item st) then ss_Windows st + 1 else 0) p)"

section \<open>The scheduler\<close>

text \<open>The state of one worker: waiting for its slot, at the head of its loop, inside \<open>work\<close>, past its
  loop and about to release its slot, or cancelled while waiting (the flag says that a slot was handed
  to it in the meantime and has to go back).\<close>

datatype worker = Waiting | Looping | Working sweepStep | Releasing | GaveUp bool

record laneScheduler =
  ls_lanes :: "string \<rightharpoonup> laneProgram"
  ls_seen :: nat
  ls_free :: nat
  ls_waiting :: "nat list"
  ls_workers :: "nat \<rightharpoonup> string \<times> worker"
  ls_next :: nat
  ls_cancelled :: bool

definition DefaultSweepConcurrency :: nat where "DefaultSweepConcurrency = 32"

definition newLaneScheduler :: "int \<Rightarrow> laneScheduler" where
  "newLaneScheduler limit =
     \<lparr>ls_lanes = Map.empty, ls_seen = 0,
      ls_free = (if limit \<le> 0 then DefaultSweepConcurrency else nat limit),
      ls_waiting = [], ls_workers = Map.empty, ls_next = 0, ls_cancelled = False\<rparr>"

text \<open>\<open>acquire\<close>: a slot is named by a number, and it is closed (granted) when it is not in the waiting
  list.\<close>

definition acquire :: "laneScheduler \<Rightarrow> nat \<times> laneScheduler" where
  "acquire s =
     (let k = ls_next s; s1 = s\<lparr>ls_next := Suc k\<rparr> in
      if ls_free s > 0 then (k, s1\<lparr>ls_free := ls_free s - 1\<rparr>)
      else (k, s1\<lparr>ls_waiting := ls_waiting s @ [k]\<rparr>))"

definition release :: "laneScheduler \<Rightarrow> laneScheduler" where
  "release s =
     (case ls_waiting s of
        slot # ws \<Rightarrow> s\<lparr>ls_waiting := ws\<rparr>
      | [] \<Rightarrow> s\<lparr>ls_free := Suc (ls_free s)\<rparr>)"

definition sched_add :: "sweepItem \<Rightarrow> laneScheduler \<Rightarrow> laneScheduler" where
  "sched_add item s =
     (let s1 = (case ls_lanes s (si_Lane item) of
                  None \<Rightarrow> s\<lparr>ls_lanes := (ls_lanes s)(si_Lane item \<mapsto> new_program), ls_seen := Suc (ls_seen s)\<rparr>
                | Some p \<Rightarrow> s);
          p = lane_add item (the (ls_lanes s1 (si_Lane item)))
      in if lp_live p then s1\<lparr>ls_lanes := (ls_lanes s1)(si_Lane item \<mapsto> p)\<rparr>
         else case acquire s1 of (k, s2) \<Rightarrow>
           s2\<lparr>ls_lanes := (ls_lanes s2)(si_Lane item \<mapsto> p\<lparr>lp_live := True\<rparr>),
              ls_workers := (ls_workers s2)(k \<mapsto> (si_Lane item, Waiting))\<rparr>)"

definition abandon :: "string \<Rightarrow> laneScheduler \<Rightarrow> laneScheduler" where
  "abandon lane s =
     s\<lparr>ls_lanes := (ls_lanes s)(lane := map_option (\<lambda>p. p\<lparr>lp_live := False, lp_check := [], lp_shallow := [],
        lp_ladder := []\<rparr>) (ls_lanes s lane))\<rparr>"

definition set_worker :: "nat \<Rightarrow> string \<Rightarrow> worker \<Rightarrow> laneScheduler \<Rightarrow> laneScheduler" where
  "set_worker k lane st s = s\<lparr>ls_workers := (ls_workers s)(k \<mapsto> (lane, st))\<rparr>"

definition end_worker :: "nat \<Rightarrow> laneScheduler \<Rightarrow> laneScheduler" where
  "end_worker k s = s\<lparr>ls_workers := (ls_workers s)(k := None)\<rparr>"

text \<open>The search of \<open>giveUp\<close>.\<close>

definition giveUp :: "nat \<Rightarrow> laneScheduler \<Rightarrow> bool \<times> laneScheduler" where
  "giveUp k s =
     (if k \<in> set (ls_waiting s) then (False, s\<lparr>ls_waiting := remove1 k (ls_waiting s)\<rparr>) else (True, s))"

text \<open>One step of the goroutine that runs the lane of slot \<open>k\<close>.\<close>

inductive run_step :: "nat \<Rightarrow> laneScheduler \<Rightarrow> laneScheduler \<Rightarrow> bool" where
  step_granted: "ls_workers s k = Some (lane, Waiting) \<Longrightarrow> k \<notin> set (ls_waiting s) \<Longrightarrow>
     run_step k s (set_worker k lane Looping s)"
| step_give_up: "ls_workers s k = Some (lane, Waiting) \<Longrightarrow> ls_cancelled s \<Longrightarrow> giveUp k s = (owes, s1) \<Longrightarrow>
     run_step k s (set_worker k lane (GaveUp owes) s1)"
| step_give_back: "ls_workers s k = Some (lane, GaveUp True) \<Longrightarrow>
     run_step k s (set_worker k lane (GaveUp False) (release s))"
| step_gone: "ls_workers s k = Some (lane, GaveUp False) \<Longrightarrow>
     run_step k s (end_worker k (abandon lane s))"
| step_abandon: "ls_workers s k = Some (lane, Looping) \<Longrightarrow> ls_cancelled s \<Longrightarrow>
     run_step k s (set_worker k lane Releasing (abandon lane s))"
| step_done: "ls_workers s k = Some (lane, Looping) \<Longrightarrow> ls_lanes s lane = Some p \<Longrightarrow>
     lane_next p = (None, p') \<Longrightarrow>
     run_step k s (set_worker k lane Releasing
       (s\<lparr>ls_lanes := (ls_lanes s)(lane \<mapsto> p'\<lparr>lp_live := False\<rparr>)\<rparr>))"
| step_take: "ls_workers s k = Some (lane, Looping) \<Longrightarrow> ls_lanes s lane = Some p \<Longrightarrow>
     lane_next p = (Some st, p') \<Longrightarrow>
     run_step k s (set_worker k lane (Working st) (s\<lparr>ls_lanes := (ls_lanes s)(lane \<mapsto> p')\<rparr>))"
| step_worked: "ls_workers s k = Some (lane, Working st) \<Longrightarrow> ls_lanes s lane = Some p \<Longrightarrow>
     run_step k s (set_worker k lane Looping (s\<lparr>ls_lanes := (ls_lanes s)(lane \<mapsto> after_work st ans p)\<rparr>))"
| step_release: "ls_workers s k = Some (lane, Releasing) \<Longrightarrow>
     run_step k s (end_worker k (release s))"

text \<open>The scheduler with its callers: a worker steps, somebody adds an item (the plan, the resolver, or a
  head check that found drift, which may run inside \<open>work\<close>), or the context is cancelled.\<close>

inductive sched_step :: "laneScheduler \<Rightarrow> laneScheduler \<Rightarrow> bool" where
  step_add: "sched_step s (sched_add item s)"
| step_cancel: "sched_step s (s\<lparr>ls_cancelled := True\<rparr>)"
| step_run: "run_step k s s' \<Longrightarrow> sched_step s s'"

inductive sched_reachable :: "int \<Rightarrow> laneScheduler \<Rightarrow> bool" for limit where
  sched_start: "sched_reachable limit (newLaneScheduler limit)"
| sched_more: "sched_reachable limit s \<Longrightarrow> sched_step s s' \<Longrightarrow> sched_reachable limit s'"

section \<open>The scheduler's invariant\<close>

fun keeps_slot :: "bool \<Rightarrow> worker \<Rightarrow> bool" where
  "keeps_slot queued Waiting = (\<not> queued)"
| "keeps_slot queued (GaveUp owes) = owes"
| "keeps_slot queued st = True"

definition holds_slot :: "laneScheduler \<Rightarrow> nat \<Rightarrow> bool" where
  "holds_slot s k \<longleftrightarrow>
     (\<exists>lane st. ls_workers s k = Some (lane, st) \<and> keeps_slot (k \<in> set (ls_waiting s)) st)"

definition active :: "laneScheduler \<Rightarrow> string \<Rightarrow> nat \<Rightarrow> bool" where
  "active s lane k \<longleftrightarrow> (\<exists>st. ls_workers s k = Some (lane, st) \<and> st \<noteq> Releasing)"

definition live_lane :: "laneScheduler \<Rightarrow> string \<Rightarrow> bool" where
  "live_lane s lane \<longleftrightarrow> (\<exists>p. ls_lanes s lane = Some p \<and> lp_live p)"

definition pending_items :: "laneProgram \<Rightarrow> sweepItem list" where
  "pending_items p = lp_check p @ lp_shallow p @ concat (lp_ladder p)"

definition slots_ok :: "nat \<Rightarrow> laneScheduler \<Rightarrow> bool" where
  "slots_ok limit s \<longleftrightarrow>
     finite (dom (ls_workers s)) \<and> (\<forall>k\<in>dom (ls_workers s). k < ls_next s) \<and>
     distinct (ls_waiting s) \<and> (\<forall>k\<in>set (ls_waiting s). \<exists>lane. ls_workers s k = Some (lane, Waiting)) \<and>
     (ls_waiting s \<noteq> [] \<longrightarrow> ls_free s = 0) \<and>
     ls_free s + card {k. holds_slot s k} = limit"

definition lanes_ok :: "laneScheduler \<Rightarrow> bool" where
  "lanes_ok s \<longleftrightarrow>
     (\<forall>lane k. active s lane k \<longrightarrow> live_lane s lane) \<and>
     (\<forall>lane k k'. active s lane k \<and> active s lane k' \<longrightarrow> k = k') \<and>
     (\<forall>lane. live_lane s lane \<longrightarrow> (\<exists>k. active s lane k))"

definition work_kept :: "laneScheduler \<Rightarrow> bool" where
  "work_kept s \<longleftrightarrow> (\<not> ls_cancelled s \<longrightarrow>
     (\<forall>lane p. ls_lanes s lane = Some p \<and> pending_items p \<noteq> [] \<longrightarrow> lp_live p))"

subsection \<open>Lane programs\<close>

lemma lane_push_live [simp]: "lp_live (lane_push item n p) = lp_live p"
  by (simp add: lane_push_def Let_def)

lemma lane_add_live [simp]: "lp_live (lane_add item p) = lp_live p"
  by (simp add: lane_add_def)

lemma after_work_live [simp]: "lp_live (after_work st b p) = lp_live p"
  by (simp add: after_work_def)

lemma lane_next_live: "lane_next p = (r, p') \<Longrightarrow> lp_live p' = lp_live p"
  by (auto simp: lane_next_def split: list.splits option.splits)

lemma ladder_next_None: "ladder_next n bs = None \<longleftrightarrow> concat bs = []"
  by (induction n bs rule: ladder_next.induct) auto

lemma lane_next_None: "lane_next p = (None, p') \<longleftrightarrow> pending_items p = [] \<and> p' = p"
  using ladder_next_None [of 0 "lp_ladder p"]
  by (auto simp: lane_next_def pending_items_def simp del: concat_eq_Nil_conv split: list.splits option.splits)

subsection \<open>Slots\<close>

lemma holders_finite: "finite (dom (ls_workers s)) \<Longrightarrow> finite {k. holds_slot s k}"
  by (rule finite_subset [of _ "dom (ls_workers s)"]) (auto simp: holds_slot_def)

text \<open>Two states with the same holders, up to one worker.\<close>

lemma card_split:
  assumes "finite A"
  shows "card A = card (A - {k}) + (if k \<in> A then 1 else 0)"
proof (cases "k \<in> A")
  case True
  have "card A = Suc (card (A - {k}))" by (rule card.remove [OF assms True])
  then show ?thesis using True by (simp only: if_True add_Suc_right One_nat_def add_0_right)
qed simp

lemma card_holders_change:
  assumes "finite {k. holds_slot s k}" and "finite {k. holds_slot s' k}"
    and "\<And>j. j \<noteq> k \<Longrightarrow> holds_slot s' j = holds_slot s j"
  shows "card {j. holds_slot s' j} + (if holds_slot s k then 1 else 0)
    = card {j. holds_slot s j} + (if holds_slot s' k then 1 else 0)"
proof -
  have "{j. holds_slot s' j} - {k} = {j. holds_slot s j} - {k}" using assms(3) by auto
  then show ?thesis using card_split [OF assms(1), of k] card_split [OF assms(2), of k] by simp
qed

lemma holds_slot_lanes [simp]: "holds_slot (s\<lparr>ls_lanes := f\<rparr>) = holds_slot s"
  by (simp add: fun_eq_iff holds_slot_def)

lemma slots_ok_lanes [simp]: "slots_ok m (s\<lparr>ls_lanes := f\<rparr>) = slots_ok m s"
  by (simp add: slots_ok_def)

lemma slots_ok_lanes_workers [simp]:
  "slots_ok m (s\<lparr>ls_lanes := f, ls_workers := g\<rparr>) = slots_ok m (s\<lparr>ls_workers := g\<rparr>)"
proof -
  have "holds_slot (s\<lparr>ls_lanes := f, ls_workers := g\<rparr>) = holds_slot (s\<lparr>ls_workers := g\<rparr>)"
    by (simp add: fun_eq_iff holds_slot_def)
  then show ?thesis by (simp add: slots_ok_def)
qed

lemma slots_ok_abandon [simp]: "slots_ok m (abandon lane s) = slots_ok m s"
  by (simp add: abandon_def)

text \<open>Changing the state of one worker that is not in the waiting list.\<close>

lemma worker_change:
  assumes ok: "slots_ok m s" and k: "ls_workers s k = Some (lane, st)" "k \<notin> set (ls_waiting s)"
    and s': "s' = s\<lparr>ls_workers := (ls_workers s)(k := new)\<rparr>"
    and sum: "m' + (if holds_slot s k then 1 else 0) = m + (if holds_slot s' k then 1 else 0)"
  shows "slots_ok m' s'"
proof -
  have fin: "finite (dom (ls_workers s))" "finite (dom (ls_workers s'))"
    using ok s' by (auto simp: slots_ok_def)
  have other: "\<And>j. j \<noteq> k \<Longrightarrow> holds_slot s' j = holds_slot s j" by (simp add: s' holds_slot_def)
  have card: "ls_free s + card {j. holds_slot s j} = m" using ok by (simp add: slots_ok_def)
  have "ls_free s' + card {j. holds_slot s' j} = m'"
    using card_holders_change [where k = k, OF holders_finite [OF fin(1)] holders_finite [OF fin(2)]] other card sum
    by (simp add: s' split: if_splits)
  then show ?thesis using ok k fin(2) by (auto simp: slots_ok_def s' split: if_splits)
qed

lemma release_ok:
  assumes "slots_ok m s"
  shows "slots_ok (Suc m) (release s)"
proof (cases "ls_waiting s")
  case Nil
  then have "holds_slot (release s) = holds_slot s" by (simp add: fun_eq_iff release_def holds_slot_def)
  then show ?thesis using assms Nil by (simp add: slots_ok_def release_def)
next
  case (Cons slot ws)
  then obtain lane where w: "ls_workers s slot = Some (lane, Waiting)" and d: "slot \<notin> set ws"
    using assms by (auto simp: slots_ok_def)
  have other: "\<And>j. j \<noteq> slot \<Longrightarrow> holds_slot (release s) j = holds_slot s j"
    using Cons by (simp add: release_def holds_slot_def)
  have fin: "finite (dom (ls_workers s))" using assms by (simp add: slots_ok_def)
  have "\<not> holds_slot s slot" "holds_slot (release s) slot" using w d Cons by (simp_all add: holds_slot_def release_def)
  moreover have "finite {k. holds_slot (release s) k}" using fin Cons by (intro holders_finite) (simp add: release_def)
  ultimately have "card {j. holds_slot (release s) j} = Suc (card {j. holds_slot s j})"
    using card_holders_change [where k = slot and s = s and s' = "release s", OF holders_finite [OF fin]] other by simp
  then show ?thesis using assms Cons by (auto simp: slots_ok_def release_def)
qed

lemma holders_positive: "slots_ok m s \<Longrightarrow> holds_slot s k \<Longrightarrow> \<exists>n. m = Suc n"
proof -
  assume s: "slots_ok m s" "holds_slot s k"
  then have "card {j. holds_slot s j} > 0" using holders_finite [of s] by (auto simp: slots_ok_def card_gt_0_iff)
  then show ?thesis using s(1) by (cases m) (auto simp: slots_ok_def)
qed

lemma not_waiting: "slots_ok m s \<Longrightarrow> ls_workers s k = Some (lane, st) \<Longrightarrow> st \<noteq> Waiting \<Longrightarrow> k \<notin> set (ls_waiting s)"
  by (auto simp: slots_ok_def)

lemma release_commutes:
  "end_worker k (release s) = release (end_worker k s)"
  "set_worker k lane st (release s) = release (set_worker k lane st s)"
  by (auto simp: release_def end_worker_def set_worker_def split: list.split)

lemma fresh_worker:
  assumes ok: "slots_ok m s" and a: "acquire s = (k, s1)"
  shows "slots_ok m (s1\<lparr>ls_workers := (ls_workers s1)(k \<mapsto> (lane, Waiting))\<rparr>)"
proof -
  let ?s = "s1\<lparr>ls_workers := (ls_workers s1)(k \<mapsto> (lane, Waiting))\<rparr>"
  have k: "k = ls_next s" "ls_workers s1 = ls_workers s" "ls_next s1 = Suc k"
    using a by (auto simp: acquire_def Let_def split: if_splits)
  have lt: "\<forall>j\<in>dom (ls_workers s). j < ls_next s" using ok by (simp add: slots_ok_def)
  have fresh: "ls_workers s k = None" "k \<notin> set (ls_waiting s)" using ok k by (fastforce simp: slots_ok_def)+
  have fin: "finite (dom (ls_workers s))" "finite (dom (ls_workers ?s))" using ok k by (auto simp: slots_ok_def)
  have w1: "ls_waiting s1 = (if ls_free s > 0 then ls_waiting s else ls_waiting s @ [k])"
    using a by (auto simp: acquire_def Let_def split: if_splits)
  have other: "\<And>j. j \<noteq> k \<Longrightarrow> holds_slot ?s j = holds_slot s j"
    by (simp add: holds_slot_def k(2) w1)
  have "\<not> holds_slot s k" "holds_slot ?s k \<longleftrightarrow> ls_free s > 0" using fresh w1 by (auto simp: holds_slot_def)
  then have "card {j. holds_slot ?s j} = card {j. holds_slot s j} + (if ls_free s > 0 then 1 else 0)"
    using card_holders_change [where k = k, OF holders_finite [OF fin(1)] holders_finite [OF fin(2)]] other by simp
  moreover have "ls_free s1 = ls_free s - 1" using a by (auto simp: acquire_def Let_def split: if_splits)
  moreover have "\<And>j w. ls_workers s j = Some w \<Longrightarrow> j < Suc (ls_next s)"
    using lt by (meson domI less_SucI)
  ultimately show ?thesis using ok k fresh fin(2) w1 by (auto simp: slots_ok_def split: if_splits)
qed

lemma sched_add_slots:
  assumes "slots_ok m s"
  shows "slots_ok m (sched_add item s)"
proof -
  define s1 where "s1 = (case ls_lanes s (si_Lane item) of
      None \<Rightarrow> s\<lparr>ls_lanes := (ls_lanes s)(si_Lane item \<mapsto> new_program), ls_seen := Suc (ls_seen s)\<rparr> | Some p \<Rightarrow> s)"
  have "holds_slot s1 = holds_slot s" by (auto simp: fun_eq_iff s1_def holds_slot_def split: option.split)
  then have ok1: "slots_ok m s1" using assms by (simp add: slots_ok_def s1_def split: option.split)
  obtain k s2 where a: "acquire s1 = (k, s2)" by (metis prod.collapse)
  from fresh_worker [OF ok1 a, of "si_Lane item"] ok1 show ?thesis
    by (auto simp: sched_add_def s1_def [symmetric] Let_def a slots_ok_def holds_slot_def)
qed

lemma keep_worker:
  assumes ok: "slots_ok m s" and k: "ls_workers s k = Some (lane, st)" "k \<notin> set (ls_waiting s)"
    and st: "keeps_slot False st" "keeps_slot False st'"
  shows "slots_ok m (set_worker k lane st' s)"
  unfolding set_worker_def
  by (rule worker_change [OF ok k refl]) (use k st in \<open>simp add: holds_slot_def\<close>)

lemma drop_worker:
  assumes ok: "slots_ok m s" and k: "ls_workers s k = Some (lane, st)" "k \<notin> set (ls_waiting s)"
    and st: "\<not> keeps_slot False st"
  shows "slots_ok m (end_worker k s)"
  unfolding end_worker_def
  by (rule worker_change [OF ok k refl]) (use k st in \<open>simp add: holds_slot_def\<close>)

text \<open>A worker that passes its slot on, whether it ends or stays as one that gave up.\<close>

lemma pass_slot:
  assumes ok: "slots_ok m s" and k: "ls_workers s k = Some (lane, st)" "k \<notin> set (ls_waiting s)"
    and st: "keeps_slot False st" and new: "new = None \<or> new = Some (lane, GaveUp False)"
  shows "slots_ok m (release (s\<lparr>ls_workers := (ls_workers s)(k := new)\<rparr>))"
proof -
  obtain n where m: "m = Suc n" using holders_positive [OF ok, of k] k st by (auto simp: holds_slot_def)
  have "slots_ok n (s\<lparr>ls_workers := (ls_workers s)(k := new)\<rparr>)"
    by (rule worker_change [OF ok k refl]) (use k st new m in \<open>auto simp: holds_slot_def\<close>)
  then show ?thesis unfolding m by (rule release_ok)
qed

lemma giveUp_slots:
  assumes ok: "slots_ok m s" and k: "ls_workers s k = Some (lane, Waiting)" and g: "giveUp k s = (owes, s1)"
  shows "slots_ok m (set_worker k lane (GaveUp owes) s1)"
proof (cases "k \<in> set (ls_waiting s)")
  case False
  then have "owes" "s1 = s" using g by (auto simp: giveUp_def)
  then show ?thesis using keep_worker [OF ok k False] by simp
next
  case True
  let ?s = "set_worker k lane (GaveUp False) (s\<lparr>ls_waiting := remove1 k (ls_waiting s)\<rparr>)"
  have g': "set_worker k lane (GaveUp owes) s1 = ?s" using True g by (auto simp: giveUp_def)
  have d: "distinct (ls_waiting s)" "ls_waiting s \<noteq> []" "ls_free s = 0" using ok True by (auto simp: slots_ok_def)
  have "holds_slot ?s j = holds_slot s j" for j
    using k True d by (cases "j = k") (auto simp: holds_slot_def set_worker_def)
  then have "holds_slot ?s = holds_slot s" by (simp add: fun_eq_iff)
  then have "slots_ok m ?s" using ok k d by (auto simp: slots_ok_def set_worker_def)
  then show ?thesis by (simp only: g')
qed

lemma run_step_slots: "run_step k s s' \<Longrightarrow> slots_ok m s \<Longrightarrow> slots_ok m s'"
proof (induction rule: run_step.induct)
  case (step_granted s k lane) then show ?case using keep_worker by simp
next
  case (step_give_up s k lane owes s1) then show ?case using giveUp_slots by blast
next
  case (step_give_back s k lane)
  have "k \<notin> set (ls_waiting s)" using not_waiting [OF step_give_back(2,1)] by simp
  then show ?case using pass_slot [OF step_give_back(2,1), where new = "Some (lane, GaveUp False)"]
    unfolding release_commutes by (simp add: set_worker_def)
next
  case (step_gone s k lane)
  have "slots_ok m (end_worker k s)" using step_gone not_waiting by (intro drop_worker) auto
  then show ?case by (simp add: abandon_def end_worker_def)
next
  case (step_abandon s k lane)
  have "slots_ok m (set_worker k lane Releasing s)"
    using step_abandon not_waiting [OF step_abandon(3,1)] by (intro keep_worker [OF step_abandon(3,1)]) auto
  then show ?case by (simp add: abandon_def set_worker_def)
next
  case (step_done s k lane p p')
  have "slots_ok m (set_worker k lane Releasing s)"
    using not_waiting [OF step_done(4,1)] by (intro keep_worker [OF step_done(4,1)]) auto
  then show ?case by (simp add: set_worker_def)
next
  case (step_take s k lane p st p')
  have "slots_ok m (set_worker k lane (Working st) s)"
    using not_waiting [OF step_take(4,1)] by (intro keep_worker [OF step_take(4,1)]) auto
  then show ?case by (simp add: set_worker_def)
next
  case (step_worked s k lane st p ans)
  have "slots_ok m (set_worker k lane Looping s)"
    using not_waiting [OF step_worked(3,1)] by (intro keep_worker [OF step_worked(3,1)]) auto
  then show ?case by (simp add: set_worker_def)
next
  case (step_release s k lane)
  have "k \<notin> set (ls_waiting s)" using not_waiting [OF step_release(2,1)] by simp
  then show ?case using pass_slot [OF step_release(2,1), where new = None]
    unfolding release_commutes by (simp add: end_worker_def)
qed

subsection \<open>Lanes\<close>

lemma lanes_ok_cong: "active s' = active s \<Longrightarrow> live_lane s' = live_lane s \<Longrightarrow> lanes_ok s' = lanes_ok s"
  by (simp add: lanes_ok_def)

text \<open>A step of the only worker of a lane: it stays and the lane stays live, or both end.\<close>

lemma lanes_ok_update:
  assumes ok: "lanes_ok s" and others: "\<And>j. j \<noteq> k \<Longrightarrow> ls_workers s' j = ls_workers s j"
    and lanes: "\<And>l. l \<noteq> lane \<Longrightarrow> ls_lanes s' l = ls_lanes s l"
    and only: "\<And>j. active s lane j \<Longrightarrow> j = k"
    and here: "\<And>l. active s l k \<or> active s' l k \<Longrightarrow> l = lane"
    and live: "live_lane s' lane = active s' lane k"
  shows "lanes_ok s'"
proof -
  have other: "active s' l j = active s l j" if "j \<noteq> k" for l j using others [OF that] by (simp add: active_def)
  have lv: "live_lane s' l = live_lane s l" if "l \<noteq> lane" for l using lanes [OF that] by (simp add: live_lane_def)
  have here1: "active s lane j \<Longrightarrow> j = k" "active s' lane j \<Longrightarrow> j = k" for j using only other by blast+
  show ?thesis unfolding lanes_ok_def
  proof (intro conjI allI impI)
    fix l j assume "active s' l j"
    then show "live_lane s' l" using ok other lv here here1 live unfolding lanes_ok_def by metis
  next
    fix l j j' assume "active s' l j \<and> active s' l j'"
    then show "j = j'" using ok other here here1 unfolding lanes_ok_def by metis
  next
    fix l assume "live_lane s' l"
    then show "\<exists>j. active s' l j" using ok other lv here live unfolding lanes_ok_def by metis
  qed
qed

lemma lanes_ok_worker:
  assumes ok: "lanes_ok s" and k: "ls_workers s k = Some (lane, st)" "st \<noteq> Releasing"
    and s': "ls_workers s' = (ls_workers s)(k := new)" "\<And>l. l \<noteq> lane \<Longrightarrow> ls_lanes s' l = ls_lanes s l"
    and new: "new = None \<or> new = Some (lane, st')"
    and live: "live_lane s' lane \<longleftrightarrow> new \<noteq> None \<and> st' \<noteq> Releasing"
  shows "lanes_ok s'"
proof -
  have a: "active s lane k" using k by (simp add: active_def)
  show ?thesis
  proof (rule lanes_ok_update [where k = k and lane = lane, OF ok])
    show "\<And>j. j \<noteq> k \<Longrightarrow> ls_workers s' j = ls_workers s j" using s' by simp
    show "\<And>l. l \<noteq> lane \<Longrightarrow> ls_lanes s' l = ls_lanes s l" by (rule s')
    show "\<And>j. active s lane j \<Longrightarrow> j = k" using ok a unfolding lanes_ok_def by blast
    show "\<And>l. active s l k \<or> active s' l k \<Longrightarrow> l = lane" using k s'(1) new by (auto simp: active_def)
    show "live_lane s' lane = active s' lane k" using live new s'(1) by (auto simp: active_def)
  qed
qed

lemma active_live: "lanes_ok s \<Longrightarrow> ls_workers s k = Some (lane, st) \<Longrightarrow> st \<noteq> Releasing \<Longrightarrow> live_lane s lane"
  unfolding lanes_ok_def active_def by blast

lemma release_fields [simp]: "ls_workers (release s) = ls_workers s" "ls_lanes (release s) = ls_lanes s"
  "ls_cancelled (release s) = ls_cancelled s"
  by (auto simp: release_def split: list.split)

lemma giveUp_fields: "giveUp k s = (b, s1) \<Longrightarrow> ls_workers s1 = ls_workers s \<and> ls_lanes s1 = ls_lanes s \<and>
    ls_cancelled s1 = ls_cancelled s"
  by (auto simp: giveUp_def split: if_splits)

lemma acquire_fields: "acquire s = (k, s1) \<Longrightarrow> ls_workers s1 = ls_workers s \<and> ls_lanes s1 = ls_lanes s \<and>
    ls_cancelled s1 = ls_cancelled s \<and> k = ls_next s"
  by (auto simp: acquire_def Let_def split: if_splits)

text \<open>What \<open>add\<close> does, without its bookkeeping.\<close>

lemma sched_add_cases:
  assumes "p = lane_add item (case ls_lanes s (si_Lane item) of None \<Rightarrow> new_program | Some q \<Rightarrow> q)"
  shows "ls_lanes (sched_add item s) = (ls_lanes s)(si_Lane item \<mapsto> p\<lparr>lp_live := True\<rparr>)"
    and "ls_cancelled (sched_add item s) = ls_cancelled s"
    and "ls_workers (sched_add item s) = (if live_lane s (si_Lane item) then ls_workers s
           else (ls_workers s)(ls_next s \<mapsto> (si_Lane item, Waiting)))"
  using assms
  by (auto simp: sched_add_def Let_def live_lane_def new_program_def acquire_def split: option.splits)

lemma sched_add_lanes:
  assumes "lanes_ok s" "slots_ok m s"
  shows "lanes_ok (sched_add item s)"
proof -
  define p where "p = lane_add item (case ls_lanes s (si_Lane item) of None \<Rightarrow> new_program | Some q \<Rightarrow> q)"
  note c = sched_add_cases [OF p_def]
  have live: "live_lane (sched_add item s) (si_Lane item)" by (simp add: live_lane_def c)
  show ?thesis
  proof (cases "live_lane s (si_Lane item)")
    case True
    have "active (sched_add item s) = active s" using True by (simp add: fun_eq_iff active_def c)
    moreover have "live_lane (sched_add item s) = live_lane s" using True live by (auto simp: fun_eq_iff live_lane_def c)
    ultimately show ?thesis using assms lanes_ok_cong by blast
  next
    case False
    have fresh: "ls_workers s (ls_next s) = None" using assms(2) by (fastforce simp: slots_ok_def)
    have "\<not> active s (si_Lane item) j" for j using False assms(1) unfolding lanes_ok_def by blast
    then show ?thesis using False fresh live
      by (intro lanes_ok_update [where k = "ls_next s" and lane = "si_Lane item", OF assms(1)])
        (auto simp: active_def c)
  qed
qed

lemma live_abandoned [simp]: "\<not> live_lane (s\<lparr>ls_lanes := ls_lanes (abandon lane s')\<rparr>) lane"
  "\<not> live_lane (end_worker k (abandon lane s)) lane" "\<not> live_lane (set_worker k l st (abandon lane s)) lane"
  by (auto simp: live_lane_def abandon_def end_worker_def set_worker_def)

lemma run_step_lanes: "run_step k s s' \<Longrightarrow> lanes_ok s \<Longrightarrow> lanes_ok s'"
proof (induction rule: run_step.induct)
  case (step_granted s k lane)
  show ?case using active_live [OF step_granted(3,1)]
    by (intro lanes_ok_worker [OF step_granted(3,1), where new = "Some (lane, Looping)" and st' = Looping])
      (auto simp: set_worker_def live_lane_def)
next
  case (step_give_up s k lane owes s1)
  show ?case using active_live [OF step_give_up(4,1)] giveUp_fields [OF step_give_up(3)]
    by (intro lanes_ok_worker [OF step_give_up(4,1), where new = "Some (lane, GaveUp owes)" and st' = "GaveUp owes"])
      (auto simp: set_worker_def live_lane_def)
next
  case (step_give_back s k lane)
  show ?case using active_live [OF step_give_back(2,1)]
    by (intro lanes_ok_worker [OF step_give_back(2,1), where new = "Some (lane, GaveUp False)" and st' = "GaveUp False"])
      (auto simp: set_worker_def live_lane_def)
next
  case (step_gone s k lane)
  show ?case
    by (rule lanes_ok_worker [OF step_gone(2,1), where new = None and st' = Releasing])
      (auto simp: end_worker_def abandon_def live_lane_def)
next
  case (step_abandon s k lane)
  show ?case
    by (rule lanes_ok_worker [OF step_abandon(3,1), where new = "Some (lane, Releasing)" and st' = Releasing])
      (auto simp: set_worker_def abandon_def live_lane_def)
next
  case (step_done s k lane p p')
  show ?case
    by (rule lanes_ok_worker [OF step_done(4,1), where new = "Some (lane, Releasing)" and st' = Releasing])
      (auto simp: set_worker_def live_lane_def)
next
  case (step_take s k lane p st p')
  show ?case using active_live [OF step_take(4,1)] lane_next_live [OF step_take(3)] step_take(2)
    by (intro lanes_ok_worker [OF step_take(4,1), where new = "Some (lane, Working st)" and st' = "Working st"])
      (auto simp: set_worker_def live_lane_def)
next
  case (step_worked s k lane st p ans)
  show ?case using active_live [OF step_worked(3,1)] step_worked(2)
    by (intro lanes_ok_worker [OF step_worked(3,1), where new = "Some (lane, Looping)" and st' = Looping])
      (auto simp: set_worker_def live_lane_def)
next
  case (step_release s k lane)
  then have "active (end_worker k (release s)) = active s" "live_lane (end_worker k (release s)) = live_lane s"
    by (auto simp: fun_eq_iff active_def live_lane_def end_worker_def)
  then show ?case using step_release lanes_ok_cong by blast
qed

text \<open>A lane with work has a worker, unless the sweep was cancelled.\<close>

lemma work_kept_change:
  assumes "work_kept s" "ls_cancelled s' = ls_cancelled s"
    and "\<And>l p. ls_lanes s' l = Some p \<Longrightarrow> pending_items p \<noteq> [] \<Longrightarrow> \<not> ls_cancelled s \<Longrightarrow> ls_lanes s l = Some p \<or> lp_live p"
  shows "work_kept s'"
  using assms unfolding work_kept_def by metis

lemma run_step_work: "run_step k s s' \<Longrightarrow> lanes_ok s \<Longrightarrow> work_kept s \<Longrightarrow> work_kept s'"
proof (induction rule: run_step.induct)
  case (step_give_up s k lane owes s1)
  then show ?case using giveUp_fields [OF step_give_up(3)] by (simp add: work_kept_def set_worker_def)
next
  case (step_done s k lane p p')
  then show ?case by (auto simp: work_kept_def set_worker_def lane_next_None pending_items_def)
next
  case (step_take s k lane p st p')
  have "lp_live p'" using active_live [OF step_take(4,1)] lane_next_live [OF step_take(3)] step_take(2)
    by (simp add: live_lane_def)
  then show ?case using step_take(5) by (elim work_kept_change) (auto simp: set_worker_def split: if_splits)
next
  case (step_worked s k lane st p ans)
  have "lp_live p" using active_live [OF step_worked(3,1)] step_worked(2) by (simp add: live_lane_def)
  then show ?case using step_worked(4) by (elim work_kept_change) (auto simp: set_worker_def split: if_splits)
next
  case (step_gone s k lane)
  then show ?case by (auto simp: work_kept_def end_worker_def abandon_def pending_items_def)
next
  case (step_abandon s k lane)
  then show ?case by (simp add: work_kept_def set_worker_def abandon_def)
qed (auto simp: work_kept_def set_worker_def end_worker_def)

definition sched_limit :: "int \<Rightarrow> nat" where
  "sched_limit limit = (if limit \<le> 0 then DefaultSweepConcurrency else nat limit)"

definition sched_inv :: "int \<Rightarrow> laneScheduler \<Rightarrow> bool" where
  "sched_inv limit s \<longleftrightarrow> slots_ok (sched_limit limit) s \<and> lanes_ok s \<and> work_kept s \<and> finite (dom (ls_lanes s))"

lemma run_step_finite: "run_step k s s' \<Longrightarrow> finite (dom (ls_lanes s)) \<Longrightarrow> finite (dom (ls_lanes s'))"
  by (induction rule: run_step.induct)
    (auto simp: set_worker_def end_worker_def abandon_def dest: giveUp_fields)

lemma sched_inv_run: "run_step k s s' \<Longrightarrow> sched_inv limit s \<Longrightarrow> sched_inv limit s'"
  using run_step_slots run_step_lanes run_step_work run_step_finite unfolding sched_inv_def by blast

lemma sched_inv_add: "sched_inv limit s \<Longrightarrow> sched_inv limit (sched_add item s)"
proof -
  assume inv: "sched_inv limit s"
  note c = sched_add_cases [OF refl, of item s]
  have "work_kept s" using inv by (simp add: sched_inv_def)
  then have "work_kept (sched_add item s)" by (rule work_kept_change) (auto simp: c split: if_splits)
  then show ?thesis using inv sched_add_slots sched_add_lanes by (auto simp: sched_inv_def c(1))
qed

lemma sched_inv_cancel: "sched_inv limit s \<Longrightarrow> sched_inv limit (s\<lparr>ls_cancelled := True\<rparr>)"
proof -
  let ?s = "s\<lparr>ls_cancelled := True\<rparr>"
  assume inv: "sched_inv limit s"
  have "holds_slot ?s = holds_slot s" "active ?s = active s" "live_lane ?s = live_lane s"
    by (simp_all add: fun_eq_iff holds_slot_def active_def live_lane_def)
  then show ?thesis using inv by (simp add: sched_inv_def slots_ok_def lanes_ok_def work_kept_def)
qed

lemma sched_reachable_inv: "sched_reachable limit s \<Longrightarrow> sched_inv limit s"
proof (induction rule: sched_reachable.induct)
  case sched_start
  show ?case by (auto simp: sched_inv_def newLaneScheduler_def slots_ok_def lanes_ok_def work_kept_def
        holds_slot_def active_def live_lane_def sched_limit_def)
next
  case (sched_more s s')
  from sched_more(2,3) show ?case
    by (cases rule: sched_step.cases) (auto intro: sched_inv_add sched_inv_cancel sched_inv_run)
qed

subsection \<open>Progress\<close>

lemma worker_can_step:
  assumes inv: "sched_inv limit s" and w: "ls_workers s k = Some (lane, st)"
    and free: "st = Waiting \<Longrightarrow> k \<notin> set (ls_waiting s)"
  shows "\<exists>s'. run_step k s s'"
proof (cases st)
  case Waiting then show ?thesis using step_granted w free by blast
next
  case Looping
  then obtain p where "ls_lanes s lane = Some p"
    using active_live [of s k lane st] inv w by (auto simp: sched_inv_def live_lane_def)
  moreover obtain r p' where "lane_next p = (r, p')" by (metis prod.collapse)
  ultimately show ?thesis using step_done [of s k lane p p'] step_take [of s k lane p _ p'] w Looping by (cases r) blast+
next
  case (Working x)
  then obtain p where "ls_lanes s lane = Some p"
    using active_live [of s k lane st] inv w by (auto simp: sched_inv_def live_lane_def)
  then show ?thesis using step_worked w Working by blast
next
  case Releasing then show ?thesis using step_release w by blast
next
  case (GaveUp b)
  then have "ls_workers s k = Some (lane, GaveUp True) \<or> ls_workers s k = Some (lane, GaveUp False)"
    using w by (cases b) auto
  then show ?thesis using step_give_back step_gone by blast
qed

lemma no_deadlock:
  assumes inv: "sched_inv limit s" and w: "ls_workers s \<noteq> Map.empty"
  shows "\<exists>k s'. run_step k s s'"
proof -
  obtain k lane st where k: "ls_workers s k = Some (lane, st)" using w by (metis ext option.exhaust prod.collapse)
  show ?thesis
  proof (cases "\<exists>j. holds_slot s j")
    case True
    then obtain j l x where j: "ls_workers s j = Some (l, x)" "keeps_slot (j \<in> set (ls_waiting s)) x"
      by (auto simp: holds_slot_def)
    have "x = Waiting \<Longrightarrow> j \<notin> set (ls_waiting s)" using j(2) by auto
    then show ?thesis using worker_can_step [OF inv j(1)] by blast
  next
    case False
    have "sched_limit limit > 0" by (simp add: sched_limit_def DefaultSweepConcurrency_def)
    moreover have "card {j. holds_slot s j} = 0" using False by simp
    moreover have "ls_free s + card {j. holds_slot s j} = sched_limit limit"
      using inv by (simp add: sched_inv_def slots_ok_def)
    ultimately have "ls_free s > 0" by linarith
    then have "ls_waiting s = []" using inv by (auto simp: sched_inv_def slots_ok_def)
    then show ?thesis using worker_can_step [OF inv k] by auto
  qed
qed

text \<open>The work a program still stands for: three units per step left on an item's ladder, and the step
  that puts it there.\<close>

definition rung_weight :: "nat \<Rightarrow> nat" where
  "rung_weight n = 3 * (maxDeepenRounds - n)"

definition first_weight :: nat where
  "first_weight = 3 * maxDeepenRounds + 3"

fun ladder_weight :: "nat \<Rightarrow> sweepItem list list \<Rightarrow> nat" where
  "ladder_weight n [] = 0"
| "ladder_weight n (b # bs) = length b * rung_weight n + ladder_weight (Suc n) bs"

definition program_weight :: "laneProgram \<Rightarrow> nat" where
  "program_weight p = first_weight * (length (lp_check p) + length (lp_shallow p)) + ladder_weight 0 (lp_ladder p)"

text \<open>An item on the ladder carries the flag \<open>Deepen\<close>, and the ladder has no rung past the budget.\<close>

definition program_ok :: "laneProgram \<Rightarrow> bool" where
  "program_ok p \<longleftrightarrow> length (lp_ladder p) \<le> maxDeepenRounds \<and>
     (\<forall>b\<in>set (lp_ladder p). \<forall>i\<in>set b. si_Deepen i \<and> \<not> si_Check i)"

fun worker_weight :: "worker \<Rightarrow> nat" where
  "worker_weight Waiting = 4"
| "worker_weight Looping = 3"
| "worker_weight (Working st) = 4 + rung_weight (if si_Deepen (ss_Item st) then ss_Windows st + 1 else 0)"
| "worker_weight (GaveUp owes) = (if owes then 2 else 1)"
| "worker_weight Releasing = 1"

definition total_weight :: "laneScheduler \<Rightarrow> nat" where
  "total_weight s = sum_over program_weight (ls_lanes s) + sum_over (\<lambda>w. worker_weight (snd w)) (ls_workers s)"

lemma ladder_weight_append: "ladder_weight n (bs @ cs) = ladder_weight n bs + ladder_weight (n + length bs) cs"
  by (induction bs arbitrary: n) auto

lemma ladder_weight_empty [simp]: "ladder_weight n (replicate k []) = 0"
  by (induction k arbitrary: n) auto

lemma ladder_weight_update:
  "i < length bs \<Longrightarrow> ladder_weight n (bs[i := bs ! i @ [x]]) = ladder_weight n bs + rung_weight (n + i)"
proof (induction bs arbitrary: i n)
  case (Cons b bs) then show ?case by (cases i) auto
qed simp

lemma lane_push_weight:
  "program_weight (lane_push item w p) \<le> program_weight p + rung_weight w"
proof (cases "w \<ge> maxDeepenRounds")
  case False
  let ?l = "lp_ladder p @ replicate (Suc w - length (lp_ladder p)) []"
  have "w < length ?l" by simp
  from ladder_weight_update [OF this, of 0] False show ?thesis
    by (simp add: lane_push_def Let_def program_weight_def ladder_weight_append)
qed (simp add: lane_push_def)

lemma lane_push_ok:
  assumes "program_ok p"
  shows "program_ok (lane_push item w p)"
proof (cases "w \<ge> maxDeepenRounds")
  case False
  let ?l = "lp_ladder p @ replicate (Suc w - length (lp_ladder p)) []"
  let ?x = "?l ! w @ [item\<lparr>si_Deepen := True, si_Check := False\<rparr>]"
  have all: "\<forall>b\<in>set ?l. \<forall>i\<in>set b. si_Deepen i \<and> \<not> si_Check i" using assms by (auto simp: program_ok_def)
  have w: "w < length ?l" by simp
  have "\<forall>i\<in>set ?x. si_Deepen i \<and> \<not> si_Check i" using all nth_mem [OF w] by (auto simp del: nth_mem)
  then have "\<forall>b\<in>set (?l[w := ?x]). \<forall>i\<in>set b. si_Deepen i \<and> \<not> si_Check i"
    using all set_update_subset_insert [of ?l w ?x] by blast
  moreover have "length ?l \<le> maxDeepenRounds" using False assms by (simp add: program_ok_def) linarith
  ultimately show ?thesis using False by (simp add: lane_push_def Let_def program_ok_def)
qed (simp add: lane_push_def assms)

lemma program_ok_new: "program_ok new_program"
  by (simp add: program_ok_def new_program_def)

lemma lane_add_ok: "program_ok p \<Longrightarrow> program_ok (lane_add item p)"
  using lane_push_ok [of p item 0] by (auto simp: lane_add_def program_ok_def)

lemma after_work_ok: "program_ok p \<Longrightarrow> program_ok (after_work st b p)"
  by (simp add: after_work_def lane_push_ok)

lemma ladder_next_weight:
  "ladder_next n bs = Some (st, bs') \<Longrightarrow> n + length bs \<le> maxDeepenRounds \<Longrightarrow>
   ladder_weight n bs = ladder_weight n bs' + rung_weight (ss_Windows st) \<and> ss_Windows st < maxDeepenRounds \<and>
   length bs' = length bs \<and> ss_Item st \<in> \<Union> (set (map set bs)) \<and> \<Union> (set (map set bs')) \<subseteq> \<Union> (set (map set bs))"
proof (induction n bs arbitrary: bs' rule: ladder_next.induct)
  case (2 n bs)
  then obtain bs1 where "ladder_next (Suc n) bs = Some (st, bs1)" "bs' = [] # bs1" by auto
  then show ?case using 2(1) [of bs1] 2(3) by auto
qed auto

lemma lane_next_weight:
  assumes "lane_next p = (Some st, p')" "program_ok p"
  shows "program_ok p' \<and> program_weight p' + worker_weight (Working st) < program_weight p + worker_weight Looping"
proof (cases "lp_check p = [] \<and> lp_shallow p = []")
  case True
  with assms(1) obtain bs where n: "ladder_next 0 (lp_ladder p) = Some (st, bs)" "p' = p\<lparr>lp_ladder := bs\<rparr>"
    by (auto simp: lane_next_def split: option.splits)
  note w = ladder_next_weight [OF n(1)]
  have l: "0 + length (lp_ladder p) \<le> maxDeepenRounds" using assms(2) by (simp add: program_ok_def)
  have all: "\<forall>i\<in>\<Union> (set (map set (lp_ladder p))). si_Deepen i \<and> \<not> si_Check i" using assms(2) by (simp add: program_ok_def)
  then have "\<forall>i\<in>\<Union> (set (map set bs)). si_Deepen i \<and> \<not> si_Check i" using w [OF l] by blast
  then have ok: "program_ok p'" using l w [OF l] n(2) by (simp add: program_ok_def)
  have "si_Deepen (ss_Item st)" using w [OF l] all by blast
  moreover have "1 + rung_weight (Suc (ss_Windows st)) < rung_weight (ss_Windows st)"
    using w [OF l] unfolding rung_weight_def by linarith
  ultimately show ?thesis using ok w [OF l] n(2) by (simp add: program_weight_def)
next
  case False
  then have "program_weight p = program_weight p' + first_weight \<and> lp_ladder p' = lp_ladder p"
    using assms(1) by (auto simp: lane_next_def program_weight_def split: list.splits)
  moreover have "rung_weight n < Suc (Suc (3 * maxDeepenRounds))" for n by (simp add: rung_weight_def)
  ultimately show ?thesis using assms(2) by (simp add: program_ok_def first_weight_def)
qed

lemma after_work_weight:
  "program_weight (after_work st b p) + worker_weight Looping < program_weight p + worker_weight (Working st)"
  using lane_push_weight [of "ss_Item st" "if si_Deepen (ss_Item st) then ss_Windows st + 1 else 0" p]
  by (auto simp: after_work_def)

definition progs_ok :: "laneScheduler \<Rightarrow> bool" where
  "progs_ok s \<longleftrightarrow> (\<forall>lane p. ls_lanes s lane = Some p \<longrightarrow> program_ok p)"

lemma run_step_progs: "run_step k s s' \<Longrightarrow> progs_ok s \<Longrightarrow> progs_ok s'"
proof (induction rule: run_step.induct)
  case (step_give_up s k lane owes s1)
  then show ?case using giveUp_fields [OF step_give_up(3)] by (simp add: progs_ok_def set_worker_def)
next
  case (step_done s k lane p p')
  then show ?case by (auto simp: progs_ok_def set_worker_def lane_next_None program_ok_def)
next
  case (step_take s k lane p st p')
  then show ?case using lane_next_weight [OF step_take(3)] by (auto simp: progs_ok_def set_worker_def)
next
  case (step_worked s k lane st p ans)
  then show ?case using after_work_ok [of p st ans] by (auto simp: progs_ok_def set_worker_def)
qed (auto simp: progs_ok_def set_worker_def end_worker_def abandon_def program_ok_def)

lemma sched_reachable_progs: "sched_reachable limit s \<Longrightarrow> progs_ok s"
proof (induction rule: sched_reachable.induct)
  case (sched_more s s')
  from sched_more(2,3) show ?case
  proof (cases rule: sched_step.cases)
    case (step_add item)
    define q where "q = (case ls_lanes s (si_Lane item) of None \<Rightarrow> new_program | Some q \<Rightarrow> q)"
    have "program_ok q" using sched_more(3) program_ok_new by (simp add: q_def progs_ok_def split: option.split)
    then have "program_ok (lane_add item q\<lparr>lp_live := True\<rparr>)" using lane_add_ok by (simp add: program_ok_def)
    then show ?thesis using sched_more(3) step_add
      by (simp add: progs_ok_def sched_add_cases(1) [OF refl] q_def [symmetric])
  next
    case step_cancel then show ?thesis using sched_more(3) by (simp add: progs_ok_def)
  next
    case (step_run k) then show ?thesis using sched_more(3) run_step_progs by blast
  qed
qed (simp add: progs_ok_def newLaneScheduler_def)

lemma set_worker_weight:
  assumes "finite (dom (ls_workers s))" "ls_workers s k = Some (lane, st)"
  shows "sum_over (\<lambda>w. worker_weight (snd w)) ((ls_workers s)(k \<mapsto> (lane, st'))) + worker_weight st
    = sum_over (\<lambda>w. worker_weight (snd w)) (ls_workers s) + worker_weight st'"
  using sum_over_update [OF assms, where f = "\<lambda>w. worker_weight (snd w)" and v' = "(lane, st')"] by simp

lemma end_worker_weight:
  assumes "finite (dom (ls_workers s))" "ls_workers s k = Some (lane, st)"
  shows "sum_over (\<lambda>w. worker_weight (snd w)) ((ls_workers s)(k := None)) + worker_weight st
    = sum_over (\<lambda>w. worker_weight (snd w)) (ls_workers s)"
  using sum_over_remove [OF assms, where f = "\<lambda>w. worker_weight (snd w)"] by simp

lemma set_lane_weight:
  assumes "finite (dom (ls_lanes s))" "ls_lanes s lane = Some p"
  shows "sum_over program_weight ((ls_lanes s)(lane \<mapsto> p')) + program_weight p
    = sum_over program_weight (ls_lanes s) + program_weight p'"
  by (rule sum_over_update [OF assms])

lemma abandon_weight:
  "finite (dom (ls_lanes s)) \<Longrightarrow> sum_over program_weight (ls_lanes (abandon lane s)) \<le> sum_over program_weight (ls_lanes s)"
proof (cases "ls_lanes s lane")
  case (Some p)
  assume "finite (dom (ls_lanes s))"
  from set_lane_weight [OF this Some, of "p\<lparr>lp_live := False, lp_check := [], lp_shallow := [], lp_ladder := []\<rparr>"] Some
  show ?thesis by (simp add: abandon_def program_weight_def)
next
  case None then have "(ls_lanes s)(lane := None) = ls_lanes s" by (simp add: fun_upd_idem)
  then show ?thesis using None by (simp add: abandon_def)
qed

lemma run_step_weight:
  "run_step k s s' \<Longrightarrow> finite (dom (ls_workers s)) \<Longrightarrow> finite (dom (ls_lanes s)) \<Longrightarrow> progs_ok s \<Longrightarrow>
   total_weight s' < total_weight s"
proof (induction rule: run_step.induct)
  case (step_granted s k lane)
  then show ?case using set_worker_weight [of s k lane Waiting Looping] by (simp add: total_weight_def set_worker_def)
next
  case (step_give_up s k lane owes s1)
  then show ?case using set_worker_weight [of s k lane Waiting "GaveUp owes"] giveUp_fields [OF step_give_up(3)]
    by (auto simp: total_weight_def set_worker_def split: if_splits)
next
  case (step_give_back s k lane)
  then show ?case using set_worker_weight [of s k lane "GaveUp True" "GaveUp False"]
    by (simp add: total_weight_def set_worker_def)
next
  case (step_gone s k lane)
  then show ?case using end_worker_weight [of s k lane "GaveUp False"] abandon_weight [of s lane]
    by (simp add: total_weight_def end_worker_def abandon_def)
next
  case (step_abandon s k lane)
  then show ?case using set_worker_weight [of s k lane Looping Releasing] abandon_weight [of s lane]
    by (simp add: total_weight_def set_worker_def abandon_def)
next
  case (step_done s k lane p p')
  then show ?case
    using set_worker_weight [of s k lane Looping Releasing] set_lane_weight [of s lane p "p'\<lparr>lp_live := False\<rparr>"]
    by (simp add: total_weight_def set_worker_def lane_next_None program_weight_def)
next
  case (step_take s k lane p st p')
  have "program_ok p" using step_take(2,6) by (auto simp: progs_ok_def)
  from lane_next_weight [OF step_take(3) this] step_take
    set_worker_weight [of s k lane Looping "Working st"] set_lane_weight [of s lane p p']
  show ?case by (simp add: total_weight_def set_worker_def)
next
  case (step_worked s k lane st p ans)
  with after_work_weight [of st ans p]
    set_worker_weight [of s k lane "Working st" Looping] set_lane_weight [of s lane p "after_work st ans p"]
  show ?case by (simp add: total_weight_def set_worker_def)
next
  case (step_release s k lane)
  then show ?case using end_worker_weight [of s k lane Releasing] by (simp add: total_weight_def end_worker_def)
qed

section \<open>What a sweep guarantees\<close>

definition working :: "laneScheduler \<Rightarrow> nat \<Rightarrow> string \<Rightarrow> sweepStep \<Rightarrow> bool" where
  "working s k lane st \<longleftrightarrow> ls_workers s k = Some (lane, Working st)"

lemma working_holds: "working s k lane st \<Longrightarrow> holds_slot s k"
  by (auto simp: working_def holds_slot_def)

text \<open>
  At most \<open>limit\<close> steps of work run at a time (the default when the limit is not positive), and never
  two on the same lane: whatever the order in which workers, callers and a cancellation interleave, a
  host is worked on by one goroutine.
\<close>

theorem sweep_one_worker_per_lane:
  assumes "sched_reachable limit s"
  shows "card {k. \<exists>lane st. working s k lane st} \<le> sched_limit limit \<and>
    (\<forall>lane k k' st st'. working s k lane st \<and> working s k' lane st' \<longrightarrow> k = k')"
proof -
  have inv: "slots_ok (sched_limit limit) s" "lanes_ok s"
    using sched_reachable_inv [OF assms] by (simp_all add: sched_inv_def)
  have "finite {k. holds_slot s k}" "card {k. holds_slot s k} \<le> sched_limit limit"
    using inv(1) holders_finite [of s] by (auto simp: slots_ok_def)
  moreover have "{k. \<exists>lane st. working s k lane st} \<subseteq> {k. holds_slot s k}" using working_holds by auto
  ultimately have "card {k. \<exists>lane st. working s k lane st} \<le> sched_limit limit"
    using card_mono le_trans by blast
  moreover have "k = k'" if "working s k lane st" "working s k' lane st'" for lane k k' st st'
  proof -
    have "active s lane k" "active s lane k'" using that by (auto simp: working_def active_def)
    then show ?thesis using inv(2) unfolding lanes_ok_def by blast
  qed
  ultimately show ?thesis by blast
qed

text \<open>
  C4.  A sweep drains.  From a reachable state the workers take finitely many steps, whatever \<open>work\<close>
  answers; they are never all stuck while one is left; and when none is left and the context was not
  cancelled, no lane has an item it has not worked off.
\<close>

theorem sweep_drains:
  "wfP (\<lambda>s' s. sched_reachable limit s \<and> (\<exists>k. run_step k s s')) \<and>
   (\<forall>s. sched_reachable limit s \<longrightarrow>
     (ls_workers s \<noteq> Map.empty \<longrightarrow> (\<exists>k s'. run_step k s s')) \<and>
     (ls_workers s = Map.empty \<and> \<not> ls_cancelled s \<longrightarrow>
        (\<forall>lane p. ls_lanes s lane = Some p \<longrightarrow> pending_items p = [])))"
proof (intro conjI allI impI)
  have "total_weight s' < total_weight s" if "sched_reachable limit s" "run_step k s s'" for s s' k
    using that run_step_weight sched_reachable_progs [of limit s] sched_reachable_inv [of limit s]
    by (auto simp: sched_inv_def slots_ok_def)
  then have "{(s', s). sched_reachable limit s \<and> (\<exists>k. run_step k s s')} \<subseteq> measure total_weight" by auto
  then show "wfP (\<lambda>s' s. sched_reachable limit s \<and> (\<exists>k. run_step k s s'))"
    unfolding wfp_def by (rule wf_subset [OF wf_measure])
next
  fix s
  assume r: "sched_reachable limit s" "ls_workers s \<noteq> Map.empty"
  show "\<exists>k s'. run_step k s s'" by (rule no_deadlock [OF sched_reachable_inv [OF r(1)] r(2)])
next
  fix s lane p
  assume r: "sched_reachable limit s" "ls_workers s = Map.empty \<and> \<not> ls_cancelled s" "ls_lanes s lane = Some p"
  note inv = sched_reachable_inv [OF r(1)]
  show "pending_items p = []"
  proof (rule ccontr)
    assume "pending_items p \<noteq> []"
    then have "live_lane s lane" using r inv by (auto simp: sched_inv_def work_kept_def live_lane_def)
    then obtain k where "active s lane k" using inv unfolding sched_inv_def lanes_ok_def by blast
    then show False using r(2) by (simp add: active_def)
  qed
qed

definition ex_item :: sweepItem where
  "ex_item = \<lparr>si_DID = ''did:plc:a'', si_Handle = ''a.test'', si_Lane = ''pds.test'', si_Deepen = False, si_Check = False\<rparr>"

definition ex_sched :: laneScheduler where
  "ex_sched = sched_add ex_item (newLaneScheduler 1)"

lemma ex_sched_reachable: "sched_reachable 1 ex_sched"
  unfolding ex_sched_def by (rule sched_more [OF sched_start step_add])

lemma ex_sched_worker: "ls_workers ex_sched 0 = Some (''pds.test'', Waiting)" "ls_waiting ex_sched = []"
  by (simp_all add: ex_sched_def sched_add_def newLaneScheduler_def acquire_def ex_item_def new_program_def
      lane_add_def Let_def)

theorem sweep_drains_witness: "\<exists>k s'. run_step k ex_sched s'"
proof -
  have "ls_workers ex_sched \<noteq> Map.empty" using ex_sched_worker(1) by auto
  then show ?thesis using sweep_drains [of 1] ex_sched_reachable by blast
qed

theorem sweep_one_worker_per_lane_witness:
  "\<exists>s. sched_reachable 1 s \<and> (\<exists>k. working s k ''pds.test'' \<lparr>ss_Item = ex_item, ss_Windows = 0\<rparr>) \<and>
     card {k. \<exists>lane st. working s k lane st} \<le> 1"
proof -
  define s1 where "s1 = set_worker 0 ''pds.test'' Looping ex_sched"
  define p where "p = new_program\<lparr>lp_shallow := [ex_item], lp_live := True\<rparr>"
  have w1: "ls_workers s1 0 = Some (''pds.test'', Looping)" by (simp add: s1_def set_worker_def)
  have l1: "ls_lanes s1 ''pds.test'' = Some p"
    by (simp add: s1_def p_def set_worker_def ex_sched_def sched_add_cases(1) [OF refl] newLaneScheduler_def
        lane_add_def ex_item_def new_program_def)
  have n: "lane_next p = (Some \<lparr>ss_Item = ex_item, ss_Windows = 0\<rparr>, p\<lparr>lp_shallow := []\<rparr>)"
    by (simp add: lane_next_def p_def new_program_def)
  define s2 where "s2 = set_worker 0 ''pds.test'' (Working \<lparr>ss_Item = ex_item, ss_Windows = 0\<rparr>)
    (s1\<lparr>ls_lanes := (ls_lanes s1)(''pds.test'' \<mapsto> p\<lparr>lp_shallow := []\<rparr>)\<rparr>)"
  have r1: "sched_reachable 1 s1" unfolding s1_def
    by (rule sched_more [OF ex_sched_reachable step_run [OF step_granted]]) (simp_all add: ex_sched_worker)
  have r2: "sched_reachable 1 s2" unfolding s2_def by (rule sched_more [OF r1 step_run [OF step_take [OF w1 l1 n]]])
  have "working s2 0 ''pds.test'' \<lparr>ss_Item = ex_item, ss_Windows = 0\<rparr>"
    by (simp add: s2_def working_def set_worker_def)
  then show ?thesis using r2 sweep_one_worker_per_lane [OF r2] by (auto simp: sched_limit_def)
qed

subsection \<open>The order of a lane\<close>

lemma ladder_next_lowest:
  "ladder_next n bs = Some (st, bs') \<Longrightarrow>
   n \<le> ss_Windows st \<and> ss_Windows st - n < length bs \<and> (\<forall>m < ss_Windows st - n. bs ! m = []) \<and>
   (\<exists>b. bs ! (ss_Windows st - n) = ss_Item st # b \<and> bs' = bs[ss_Windows st - n := b])"
proof (induction n bs arbitrary: bs' rule: ladder_next.induct)
  case (2 n bs)
  then obtain bs1 where b: "ladder_next (Suc n) bs = Some (st, bs1)" "bs' = [] # bs1" by auto
  from 2(1) [OF b(1)] b(2) have ih: "Suc n \<le> ss_Windows st" by blast
  then obtain m where m: "ss_Windows st = Suc n + m" using le_Suc_ex by blast
  from 2(1) [OF b(1)] b(2) show ?case by (auto simp: m nth_Cons split: nat.split)
qed auto

text \<open>
  The program of a lane: head checks before shallow syncs before history, each first come first
  served, and of the history always a repo that has had the fewest windows, so no repo of a host gets
  its \<open>n+1\<close>st window while another still waits for its \<open>n\<close>th.  Nothing but the chosen item leaves the
  program.
\<close>

theorem lane_breadth_first:
  assumes "lane_next p = (Some st, p')"
  shows "(lp_check p \<noteq> [] \<longrightarrow> st = \<lparr>ss_Item = hd (lp_check p), ss_Windows = 0\<rparr> \<and> p' = p\<lparr>lp_check := tl (lp_check p)\<rparr>) \<and>
    (lp_check p = [] \<and> lp_shallow p \<noteq> [] \<longrightarrow>
       st = \<lparr>ss_Item = hd (lp_shallow p), ss_Windows = 0\<rparr> \<and> p' = p\<lparr>lp_shallow := tl (lp_shallow p)\<rparr>) \<and>
    (lp_check p = [] \<and> lp_shallow p = [] \<longrightarrow>
       ss_Windows st < length (lp_ladder p) \<and> (\<forall>m < ss_Windows st. lp_ladder p ! m = []) \<and>
       (\<exists>b. lp_ladder p ! ss_Windows st = ss_Item st # b \<and> p' = p\<lparr>lp_ladder := (lp_ladder p)[ss_Windows st := b]\<rparr>))"
proof (cases "lp_check p = [] \<and> lp_shallow p = []")
  case True
  with assms obtain bs where n: "ladder_next 0 (lp_ladder p) = Some (st, bs)" "p' = p\<lparr>lp_ladder := bs\<rparr>"
    by (auto simp: lane_next_def split: option.splits)
  from ladder_next_lowest [OF n(1)] n(2) True show ?thesis by auto
next
  case False
  then show ?thesis using assms by (auto simp: lane_next_def split: list.splits)
qed

theorem lane_breadth_first_witness:
  "\<exists>p st p'. lane_next p = (Some st, p') \<and> lp_check p = [] \<and> lp_shallow p = [] \<and> ss_Windows st = 1 \<and>
     lp_ladder p ! 0 = [] \<and> ss_Windows st < length (lp_ladder p)"
proof -
  define p where "p = lane_push ex_item 1 new_program"
  have n: "lane_next p = (Some \<lparr>ss_Item = ex_item\<lparr>si_Deepen := True\<rparr>, ss_Windows = 1\<rparr>, p\<lparr>lp_ladder := [[], []]\<rparr>)"
    and e: "lp_check p = []" "lp_shallow p = []"
    by (simp_all add: p_def lane_push_def new_program_def lane_next_def maxDeepenRounds_def Let_def ex_item_def)
  show ?thesis using lane_breadth_first [OF n] n e by fastforce
qed

end
