(* ===== verification/SweepPlan.thy ===== *)
theory SweepPlan
  imports Sweep
begin

text \<open>
  What a sweep works on (\<open>atproto/sweep.go\<close>): the candidates in priority order, the plan that sorts them
  into lanes, and the work the scheduler runs for each kind of step.
\<close>

section \<open>Candidates and the plan\<close>

text \<open>The lane \<open>feedUnresolved\<close> gives an item, from what resolving its DID answered (\<open>cancelled\<close> is
  \<open>gctx.Err() \<noteq> nil\<close>, in which case nothing is resolved).\<close>

definition feedUnresolved :: "bool \<Rightarrow> (go_error + identity) \<Rightarrow> sweepItem \<Rightarrow> laneScheduler \<Rightarrow> laneScheduler" where
  "feedUnresolved cancelled res item s =
     (let lane = (if cancelled then si_Lane item
                  else case res of Inr ident \<Rightarrow> HostKey (id_PDS ident) | Inl e \<Rightarrow> si_Lane item);
          lane = (if lane = [] then sweepLane (si_DID item) [] else lane)
      in sched_add (item\<lparr>si_Lane := lane\<rparr>) s)"

fun prio_head :: "string set \<Rightarrow> string set \<Rightarrow> string list \<Rightarrow> string list" where
  "prio_head present inHead [] = []"
| "prio_head present inHead (did # first) =
     (if did = [] \<or> did \<notin> present \<or> did \<in> inHead then prio_head present inHead first
      else did # prio_head present (insert did inHead) first)"

definition prioritizeDIDs :: "string list \<Rightarrow> string list \<Rightarrow> string list" where
  "prioritizeDIDs dids first =
     (if dids = [] \<or> first = [] then dids
      else let head = prio_head (set dids) {} first in
        if head = [] then dids else head @ filter (\<lambda>d. d \<notin> set head) dids)"

record sweepPlan =
  pl_ready :: "sweepItem list"
  pl_unresolved :: "sweepItem list"
  pl_shallow :: nat
  pl_checks :: nat
  pl_floors :: "(string \<times> time) list"

definition backfillFloorTime :: "tid_lib \<Rightarrow> time \<Rightarrow> string \<Rightarrow> time" where
  "backfillFloorTime T now tid =
     (if tid \<noteq> [] then (case TimeForTID T tid of Inr t \<Rightarrow> t | Inl e \<Rightarrow> now) else now)"

definition plan_one :: "tid_lib \<Rightarrow> time \<Rightarrow> string \<Rightarrow> Repo option \<Rightarrow> sweepPlan \<Rightarrow> sweepPlan" where
  "plan_one T now did repo plan =
     (if (case repo of None \<Rightarrow> True | Some r \<Rightarrow> repo_Version r = []) then
        (let pds = (case repo of None \<Rightarrow> [] | Some r \<Rightarrow> repo_PDS r);
             handle = (case repo of None \<Rightarrow> [] | Some r \<Rightarrow> repo_Handle r);
             plan = plan\<lparr>pl_shallow := pl_shallow plan + 1\<rparr>;
             host = HostKey pds
         in if host \<noteq> []
            then plan\<lparr>pl_ready := pl_ready plan @ [\<lparr>si_DID = did, si_Handle = handle, si_Lane = host,
                   si_Deepen = False, si_Check = False\<rparr>]\<rparr>
            else plan\<lparr>pl_unresolved := pl_unresolved plan @ [\<lparr>si_DID = did, si_Handle = handle, si_Lane = [],
                   si_Deepen = False, si_Check = False\<rparr>]\<rparr>)
      else if TerminalStatus repo then plan
      else
        (let r = the repo;
             plan = plan\<lparr>pl_checks := pl_checks plan + 1,
               pl_ready := pl_ready plan @ [\<lparr>si_DID = did, si_Handle = repo_Handle r,
                 si_Lane = sweepLane did (repo_PDS r), si_Deepen = False, si_Check = True\<rparr>]\<rparr>
         in if repo_BackfillDone r then plan
            else plan\<lparr>pl_floors := AList.update did (backfillFloorTime T now (repo_BackfillFloor r)) (pl_floors plan)\<rparr>))"

fun plan_all :: "tid_lib \<Rightarrow> time \<Rightarrow> string list \<Rightarrow> sweepPlan \<Rightarrow> db \<Rightarrow> (go_error + sweepPlan) \<times> db" where
  "plan_all T now [] plan d = (Inr plan, d)"
| "plan_all T now (did # dids) plan d =
     (case GetRepo did d of
        (Inl e, d1) \<Rightarrow> (Inl (WrapErr ''failed to get repo'' [e]), d1)
      | (Inr repo, d1) \<Rightarrow> plan_all T now dids (plan_one T now did repo plan) d1)"

definition make_sweepPlan :: "tid_lib \<Rightarrow> time \<Rightarrow> string list \<Rightarrow> db \<Rightarrow> (go_error + sweepPlan) \<times> db" where
  "make_sweepPlan T now dids d =
     plan_all T now dids \<lparr>pl_ready = [], pl_unresolved = [], pl_shallow = 0, pl_checks = 0, pl_floors = []\<rparr> d"

text \<open>The pages of \<open>StatefulDB.ListRepos\<close> are an argument: the DIDs at an offset.\<close>

fun collect_pages :: "string list \<Rightarrow> (go_error + string list) list \<Rightarrow> string list \<Rightarrow> go_error + string list" where
  "collect_pages terminal [] acc = Inr acc"
| "collect_pages terminal (Inl e # ps) acc = Inl e"
| "collect_pages terminal (Inr [] # ps) acc = Inr acc"
| "collect_pages terminal (Inr (r # rs) # ps) acc =
     collect_pages terminal ps (acc @ filter (\<lambda>d. d \<notin> set terminal) (r # rs))"

definition sweepCandidates ::
  "string \<Rightarrow> string \<Rightarrow> (go_error + string list) list \<Rightarrow> db \<Rightarrow> (go_error + string list) \<times> db" where
  "sweepCandidates serverDID broadcasterDID pages d =
     (case TerminalRepoDIDs d of
        (Inl e, d1) \<Rightarrow> (Inl (WrapErr ''failed to list repos in terminal states'' [e]), d1)
      | (Inr terminal, d1) \<Rightarrow>
          (case collect_pages terminal pages [] of
             Inl e \<Rightarrow> (Inl e, d1)
           | Inr allDIDs \<Rightarrow> (Inr (prioritizeDIDs allDIDs [serverDID, broadcasterDID]), d1)))"

section \<open>Progress\<close>

text \<open>\<open>sp_floors\<close> is \<open>None\<close> for the nil map of a progress that has not begun.  Writing to the nil map panics in
  the source; every pass calls \<open>begin\<close> before its first step, so \<open>laddered\<close> meets a map.\<close>

datatype sweepMode = sweepModeFull | sweepModeCheck | sweepModeDeepen

record sweepProgress =
  sp_mode :: sweepMode
  sp_rate :: string
  sp_started :: bool
  sp_checkTotal :: nat
  sp_checkDone :: nat
  sp_shallowTotal :: nat
  sp_shallowDone :: nat
  sp_deepenTotal :: nat
  sp_deepenDone :: nat
  sp_windows :: nat
  sp_floors :: "(string \<times> time) list option"

definition progress_line :: "sweepMode \<Rightarrow> string" where
  "progress_line m = (if m = sweepModeDeepen then ''deepening history'' else ''backfill sweep'')"

definition new_progress :: "sweepMode \<Rightarrow> string \<Rightarrow> sweepProgress" where
  "new_progress mode rate = \<lparr>sp_mode = mode, sp_rate = rate, sp_started = False, sp_checkTotal = 0, sp_checkDone = 0,
     sp_shallowTotal = 0, sp_shallowDone = 0, sp_deepenTotal = 0, sp_deepenDone = 0, sp_windows = 0, sp_floors = None\<rparr>"

definition progress_begin :: "nat \<Rightarrow> nat \<Rightarrow> (string \<times> time) list \<Rightarrow> sweepProgress \<Rightarrow> sweepProgress" where
  "progress_begin shallow checks floors p =
     p\<lparr>sp_started := True, sp_checkTotal := checks, sp_checkDone := 0, sp_shallowTotal := shallow, sp_shallowDone := 0,
       sp_deepenTotal := length floors, sp_deepenDone := 0, sp_windows := 0, sp_floors := Some floors\<rparr>"

definition progress_checked :: "sweepProgress \<Rightarrow> sweepProgress" where
  "progress_checked p = p\<lparr>sp_checkDone := sp_checkDone p + 1\<rparr>"

definition progress_repairing :: "sweepProgress \<Rightarrow> sweepProgress" where
  "progress_repairing p = p\<lparr>sp_shallowTotal := sp_shallowTotal p + 1\<rparr>"

definition progress_synced :: "sweepProgress \<Rightarrow> sweepProgress" where
  "progress_synced p = p\<lparr>sp_shallowDone := sp_shallowDone p + 1\<rparr>"

definition progress_laddered :: "string \<Rightarrow> time \<Rightarrow> sweepProgress \<Rightarrow> sweepProgress" where
  "progress_laddered did floor p =
     (let floors = the (sp_floors p) in
      p\<lparr>sp_deepenTotal := (if map_of floors did = None then sp_deepenTotal p + 1 else sp_deepenTotal p),
        sp_floors := Some (AList.update did floor floors)\<rparr>)"

definition progress_window :: "string \<Rightarrow> time \<Rightarrow> sweepProgress \<Rightarrow> sweepProgress" where
  "progress_window did floor p =
     p\<lparr>sp_windows := sp_windows p + 1, sp_floors := map_option (AList.update did floor) (sp_floors p)\<rparr>"

definition progress_deepened :: "string \<Rightarrow> sweepProgress \<Rightarrow> sweepProgress" where
  "progress_deepened did p =
     p\<lparr>sp_deepenDone := sp_deepenDone p + 1, sp_floors := map_option (AList.delete did) (sp_floors p)\<rparr>"

definition windowsWalked :: "sweepProgress \<Rightarrow> nat" where
  "windowsWalked p = sp_windows p"

text \<open>The newest floor, starting from the zero time; \<open>Unix\<close> is the floor of the seconds.\<close>

definition horizon :: "sweepProgress \<Rightarrow> int" where
  "horizon p =
     (let newest = fold (\<lambda>(did, floor) newest. if floor > newest then floor else newest)
        (case sp_floors p of None \<Rightarrow> [] | Some fs \<Rightarrow> fs) zeroTime
      in if newest = zeroTime then 0 else newest div second)"

datatype status_value = Fraction nat nat | Count nat | Instant int | Label string

definition progress_status :: "sweepProgress \<Rightarrow> (string \<times> status_value) list" where
  "progress_status p =
     (if sp_mode p = sweepModeDeepen then
        [(''repos'', Fraction (sp_deepenDone p) (sp_deepenTotal p)), (''windows'', Count (sp_windows p)),
         (''horizon'', Instant (horizon p)), (''rate'', Label (sp_rate p))]
      else
        let out = (if sp_checkTotal p > 0 then [(''checked'', Fraction (sp_checkDone p) (sp_checkTotal p))] else []) @
          [(''shallow'', Fraction (sp_shallowDone p) (sp_shallowTotal p))]
        in if sp_mode p = sweepModeCheck then out
           else out @ [(''deepened'', Fraction (sp_deepenDone p) (sp_deepenTotal p)), (''windows'', Count (sp_windows p)),
             (''horizon'', Instant (horizon p))])"

section \<open>The work of a step\<close>

record sweep_counts =
  sc_progress :: sweepProgress
  sc_attempted :: nat
  sc_failed :: nat

definition on_progress :: "(sweepProgress \<Rightarrow> sweepProgress) \<Rightarrow> sweep_counts \<Rightarrow> sweep_counts" where
  "on_progress f c = c\<lparr>sc_progress := f (sc_progress c)\<rparr>"

definition sweepSync ::
  "'x sync_deps \<Rightarrow> sweepStep \<Rightarrow> sweep_counts \<Rightarrow> 'x sync_world \<Rightarrow> (bool \<times> sweep_counts \<times> 'x sync_world) option" where
  "sweepSync D st c w =
     (let c = c\<lparr>sc_attempted := sc_attempted c + 1\<rparr> in
      case SyncBlueskyRepoCached D [] (si_DID (ss_Item st)) w of
        None \<Rightarrow> None
      | Some (Inl e, w1) \<Rightarrow> Some (False, c\<lparr>sc_failed := sc_failed c + 1\<rparr>, w1)
      | Some (Inr repo, w1) \<Rightarrow>
          (let c = on_progress progress_synced c in
           if repo_Version repo = [] \<or> TerminalStatus (Some repo) \<or> repo_BackfillDone repo then Some (False, c, w1)
           else Some (True, on_progress (progress_laddered (si_DID (ss_Item st))
                  (backfillFloorTime (sd_Tid D) (sd_Now D w1) (repo_BackfillFloor repo))) c, w1)))"

definition sweepWindow ::
  "'x sync_deps \<Rightarrow> sweepStep \<Rightarrow> sweep_counts \<Rightarrow> 'x sync_world \<Rightarrow> (bool \<times> sweep_counts \<times> 'x sync_world) option" where
  "sweepWindow D st c w =
     (case DeepenRepo D (si_DID (ss_Item st)) w of
        None \<Rightarrow> None
      | Some (Inl e, w1) \<Rightarrow> Some (False, c, w1)
      | Some (Inr (dn, floor), w1) \<Rightarrow>
          (let c = on_progress (progress_window (si_DID (ss_Item st)) (backfillFloorTime (sd_Tid D) (sd_Now D w1) floor)) c in
           if dn then Some (False, on_progress (progress_deepened (si_DID (ss_Item st))) c, w1) else Some (True, c, w1)))"

text \<open>The work of a sweep, with the items it hands back to the scheduler: a repaired repo returns to the
  shallow queue of its lane.\<close>

definition sweep_work ::
  "'x sync_deps \<Rightarrow> bool \<Rightarrow> sweepStep \<Rightarrow> sweep_counts \<Rightarrow> 'x sync_world \<Rightarrow>
   (bool \<times> sweepItem list \<times> sweep_counts \<times> 'x sync_world) option" where
  "sweep_work D ladders st c w =
     (if si_Check (ss_Item st) then
        (case sweepCheck D (si_DID (ss_Item st)) w of
           ((go_on, repair), w1) \<Rightarrow>
             Some (go_on \<and> ladders,
               if repair then [(ss_Item st)\<lparr>si_Deepen := False, si_Check := False\<rparr>] else [],
               on_progress (progress_checked \<circ> (if repair then progress_repairing else id)) c, w1))
      else if \<not> si_Deepen (ss_Item st) then
        map_option (\<lambda>(b, c1, w1). (b \<and> ladders, [], c1, w1)) (sweepSync D st c w)
      else map_option (\<lambda>(b, c1, w1). (b, [], c1, w1)) (sweepWindow D st c w))"

definition sweep_outcome :: "go_error option \<Rightarrow> sweep_counts \<Rightarrow> go_error option" where
  "sweep_outcome ctx_err c =
     (case ctx_err of
        Some e \<Rightarrow> Some e
      | None \<Rightarrow>
          if sc_attempted c > 0 \<and> sc_failed c = sc_attempted c then Some (WrapErr ''all repos failed to sync'' []) else None)"

text \<open>Configuration: \<open>cli\<close> is \<open>None\<close> for a synchronizer without one.\<close>

record sweep_cli =
  cli_SweepBootDelay :: duration
  cli_SweepInterval :: duration
  cli_SweepConcurrency :: int
  cli_NoFirehose :: bool
  cli_DeepenRate :: int

definition DefaultSweepBootDelay :: duration where "DefaultSweepBootDelay = 2 * minute"
definition DefaultSweepInterval :: duration where "DefaultSweepInterval = 6 * hour"

definition sweepBootDelay :: "sweep_cli option \<Rightarrow> db \<Rightarrow> duration \<times> db" where
  "sweepBootDelay cli d =
     (let delay = (case cli of None \<Rightarrow> DefaultSweepBootDelay | Some c \<Rightarrow> cli_SweepBootDelay c) in
      if (case cli of None \<Rightarrow> False | Some c \<Rightarrow> cli_NoFirehose c) then (0, d)
      else if delay \<le> 0 then (0, d)
      else case CountRepos d of
        (Inl e, d1) \<Rightarrow> (0, d1)
      | (Inr n, d1) \<Rightarrow> (if n = 0 then 0 else delay, d1))"

definition sweepInterval :: "sweep_cli option \<Rightarrow> duration" where
  "sweepInterval cli = (case cli of None \<Rightarrow> DefaultSweepInterval | Some c \<Rightarrow> cli_SweepInterval c)"

definition sweepConcurrency :: "sweep_cli option \<Rightarrow> int" where
  "sweepConcurrency cli =
     (case cli of
        Some c \<Rightarrow> if cli_SweepConcurrency c > 0 then cli_SweepConcurrency c else int DefaultSweepConcurrency
      | None \<Rightarrow> int DefaultSweepConcurrency)"

section \<open>The deepener\<close>

text \<open>\<open>atproto/deepen.go\<close>: the repositories that are servable and still owe history.\<close>

fun deepen_scan ::
  "tid_lib \<Rightarrow> time \<Rightarrow> string list \<Rightarrow> sweepItem list \<times> (string \<times> time) list \<Rightarrow> db \<Rightarrow>
   (go_error + sweepItem list \<times> (string \<times> time) list) \<times> db" where
  "deepen_scan T now [] acc d = (Inr acc, d)"
| "deepen_scan T now (did # dids) acc d =
     (case GetRepo did d of
        (Inl e, d1) \<Rightarrow> (Inl (WrapErr ''failed to get repo'' [e]), d1)
      | (Inr None, d1) \<Rightarrow> deepen_scan T now dids acc d1
      | (Inr (Some repo), d1) \<Rightarrow>
          if repo_Version repo = [] then deepen_scan T now dids acc d1
          else if TerminalStatus (Some repo) \<or> repo_BackfillDone repo then deepen_scan T now dids acc d1
          else deepen_scan T now dids
            (fst acc @ [\<lparr>si_DID = did, si_Handle = repo_Handle repo, si_Lane = sweepLane did (repo_PDS repo),
               si_Deepen = True, si_Check = False\<rparr>],
             AList.update did (backfillFloorTime T now (repo_BackfillFloor repo)) (snd acc)) d1)"

definition deepenCandidates ::
  "tid_lib \<Rightarrow> time \<Rightarrow> string \<Rightarrow> string \<Rightarrow> (go_error + string list) list \<Rightarrow> db \<Rightarrow>
   (go_error + sweepItem list \<times> (string \<times> time) list) \<times> db" where
  "deepenCandidates T now serverDID broadcasterDID pages d =
     (case sweepCandidates serverDID broadcasterDID pages d of
        (Inl e, d1) \<Rightarrow> (Inl e, d1)
      | (Inr dids, d1) \<Rightarrow> deepen_scan T now dids ([], []) d1)"

definition DefaultDeepenRate :: int where "DefaultDeepenRate = 60"

definition deepenRate :: "sweep_cli option \<Rightarrow> int" where
  "deepenRate cli = (case cli of None \<Rightarrow> DefaultDeepenRate
     | Some c \<Rightarrow> if cli_DeepenRate c < 0 then DefaultDeepenRate else cli_DeepenRate c)"

section \<open>Priorities\<close>

lemma prio_head_props:
  "distinct (prio_head P I first) \<and> set (prio_head P I first) = {d \<in> set first. d \<noteq> [] \<and> d \<in> P \<and> d \<notin> I} \<and>
   subseq (prio_head P I first) first"
  by (induction P I first rule: prio_head.induct) (auto intro: list_emb_Cons)

lemma prio_head_none: "prio_head {} I first = []"
  by (induction first) simp_all

lemma distinct_split_perm:
  "distinct h \<Longrightarrow> distinct xs \<Longrightarrow> set h \<subseteq> set xs \<Longrightarrow> mset (h @ filter (\<lambda>x. x \<notin> set h) xs) = mset xs"
  by (rule set_eq_iff_mset_eq_distinct [THEN iffD1]) auto

text \<open>
  The node's own accounts go first.  \<open>prioritizeDIDs\<close> returns the given DIDs that are candidates,
  each once and in the order given, followed by every other candidate in its old order; a list without
  duplicates is only reordered, so no repository is dropped from a sweep or visited twice.
\<close>

theorem prioritizeDIDs_own_first:
  "\<exists>h. prioritizeDIDs dids first = h @ filter (\<lambda>d. d \<notin> set h) dids \<and> distinct h \<and> subseq h first \<and>
     set h = {d \<in> set first. d \<noteq> [] \<and> d \<in> set dids} \<and>
     (distinct dids \<longrightarrow> mset (prioritizeDIDs dids first) = mset dids)"
proof -
  let ?h = "prio_head (set dids) {} first"
  note h = prio_head_props [of "set dids" "{}" first]
  have "dids = [] \<longrightarrow> ?h = []" by (simp add: prio_head_none)
  then have eq: "prioritizeDIDs dids first = ?h @ filter (\<lambda>d. d \<notin> set ?h) dids"
    unfolding prioritizeDIDs_def Let_def by (cases "dids = []"; cases "first = []"; simp)
  moreover have "distinct dids \<longrightarrow> mset (prioritizeDIDs dids first) = mset dids"
    using distinct_split_perm [of ?h dids] h unfolding eq by blast
  ultimately show ?thesis using h by blast
qed

theorem prioritizeDIDs_own_first_witness:
  "mset (prioritizeDIDs [''a'', ''b'', ''c''] [''c'', ''z'', '''']) = mset [''a'', ''b'', ''c''] \<and>
   prioritizeDIDs [''a'', ''b'', ''c''] [''c'', ''z'', ''''] = [''c'', ''a'', ''b'']"
proof -
  have "distinct [''a'', ''b'', ''c'']" by simp
  then show ?thesis using prioritizeDIDs_own_first [of "[''a'', ''b'', ''c'']" "[''c'', ''z'', '''']"]
    by (simp add: prioritizeDIDs_def)
qed

section \<open>The plan\<close>

definition never_synced :: "db \<Rightarrow> string \<Rightarrow> bool" where
  "never_synced d did \<longleftrightarrow> (case row d did of None \<Rightarrow> True | Some r \<Rightarrow> repo_Version r = [])"

definition servable :: "db \<Rightarrow> string \<Rightarrow> bool" where
  "servable d did \<longleftrightarrow> (case row d did of None \<Rightarrow> False | Some r \<Rightarrow> repo_Version r \<noteq> [] \<and> repo_Status r = RepoStatusOK)"

definition owes_history :: "db \<Rightarrow> string \<Rightarrow> bool" where
  "owes_history d did \<longleftrightarrow> servable d did \<and> (\<exists>r. row d did = Some r \<and> \<not> repo_BackfillDone r)"

definition known_host :: "db \<Rightarrow> string \<Rightarrow> bool" where
  "known_host d did \<longleftrightarrow> (\<exists>r. row d did = Some r \<and> HostKey (repo_PDS r) \<noteq> [])"

lemmas plan_kinds = never_synced_def servable_def owes_history_def known_host_def

lemma GetRepo_row: "GetRepo did d = (Inr r, d1) \<Longrightarrow> r = row d did \<and> db_Rows d1 = db_Rows d"
  by (auto simp: GetRepo_def split: prod.splits option.splits)

lemma plan_all_fold:
  "plan_all T now dids plan d = (Inr plan', d') \<Longrightarrow>
   plan' = fold (\<lambda>did. plan_one T now did (row d did)) dids plan \<and> db_Rows d' = db_Rows d"
proof (induction dids arbitrary: plan d)
  case (Cons did dids)
  then obtain r d1 where g: "GetRepo did d = (Inr r, d1)"
    and rest: "plan_all T now dids (plan_one T now did r plan) d1 = (Inr plan', d')"
    by (auto split: prod.splits sum.splits)
  from GetRepo_row [OF g] Cons.IH [OF rest] show ?case by simp
qed simp

lemma HostKey_empty [simp]: "HostKey [] = []"
  by (simp add: HostKey_def TrimSpace_def)

lemma sweepLane_named: "sweepLane did pds \<noteq> []"
  by (simp add: sweepLane_def Let_def)

lemma plan_one_ready:
  "map si_DID (filter si_Check (pl_ready (plan_one T now did (row d did) p))) =
     map si_DID (filter si_Check (pl_ready p)) @ filter (servable d) [did]"
  "map si_DID (filter (\<lambda>i. \<not> si_Check i) (pl_ready (plan_one T now did (row d did) p))) =
     map si_DID (filter (\<lambda>i. \<not> si_Check i) (pl_ready p)) @ filter (\<lambda>x. never_synced d x \<and> known_host d x) [did]"
  "map si_DID (pl_unresolved (plan_one T now did (row d did) p)) =
     map si_DID (pl_unresolved p) @ filter (\<lambda>x. never_synced d x \<and> \<not> known_host d x) [did]"
  by (auto simp: plan_one_def plan_kinds TerminalStatus_def Let_def split: option.splits)

lemma update_fst: "fst ` set (AList.update k v al) = insert k (fst ` set al)"
  using arg_cong [OF update_keys [of k v al], of set] by (auto split: if_splits)

lemma plan_one_rest:
  "(\<forall>i\<in>set (pl_ready p). si_Lane i \<noteq> []) \<Longrightarrow>
   \<forall>i\<in>set (pl_ready (plan_one T now did (row d did) p)). si_Lane i \<noteq> []"
  "pl_shallow (plan_one T now did (row d did) p) = pl_shallow p + length (filter (never_synced d) [did])"
  "pl_checks (plan_one T now did (row d did) p) = pl_checks p + length (filter (servable d) [did])"
  "fst ` set (pl_floors (plan_one T now did (row d did) p)) = fst ` set (pl_floors p) \<union> set (filter (owes_history d) [did])"
  using sweepLane_named
  by (auto simp: plan_one_def plan_kinds TerminalStatus_def Let_def update_fst split: option.splits)

lemma plan_fold:
  fixes T now d
  defines "f \<equiv> \<lambda>did. plan_one T now did (row d did)"
  shows "map si_DID (filter si_Check (pl_ready (fold f dids p))) =
       map si_DID (filter si_Check (pl_ready p)) @ filter (servable d) dids"
    "map si_DID (filter (\<lambda>i. \<not> si_Check i) (pl_ready (fold f dids p))) =
       map si_DID (filter (\<lambda>i. \<not> si_Check i) (pl_ready p)) @ filter (\<lambda>x. never_synced d x \<and> known_host d x) dids"
    "map si_DID (pl_unresolved (fold f dids p)) =
       map si_DID (pl_unresolved p) @ filter (\<lambda>x. never_synced d x \<and> \<not> known_host d x) dids"
    "(\<forall>i\<in>set (pl_ready p). si_Lane i \<noteq> []) \<Longrightarrow> \<forall>i\<in>set (pl_ready (fold f dids p)). si_Lane i \<noteq> []"
    "pl_shallow (fold f dids p) = pl_shallow p + length (filter (never_synced d) dids)"
    "pl_checks (fold f dids p) = pl_checks p + length (filter (servable d) dids)"
    "fst ` set (pl_floors (fold f dids p)) = fst ` set (pl_floors p) \<union> set (filter (owes_history d) dids)"
proof -
  note one = plan_one_ready [where T = T and now = now and d = d] plan_one_rest [where T = T and now = now and d = d]
  show "map si_DID (filter si_Check (pl_ready (fold f dids p))) =
       map si_DID (filter si_Check (pl_ready p)) @ filter (servable d) dids"
    by (induction dids arbitrary: p) (simp_all add: f_def one)
  show "map si_DID (filter (\<lambda>i. \<not> si_Check i) (pl_ready (fold f dids p))) =
       map si_DID (filter (\<lambda>i. \<not> si_Check i) (pl_ready p)) @ filter (\<lambda>x. never_synced d x \<and> known_host d x) dids"
    by (induction dids arbitrary: p) (simp_all add: f_def one)
  show "map si_DID (pl_unresolved (fold f dids p)) =
       map si_DID (pl_unresolved p) @ filter (\<lambda>x. never_synced d x \<and> \<not> known_host d x) dids"
    by (induction dids arbitrary: p) (simp_all add: f_def one)
  show "(\<forall>i\<in>set (pl_ready p). si_Lane i \<noteq> []) \<Longrightarrow> \<forall>i\<in>set (pl_ready (fold f dids p)). si_Lane i \<noteq> []"
  proof (induction dids arbitrary: p)
    case (Cons did dids)
    then show ?case using one(4) [of p did] unfolding f_def fold_Cons comp_apply by blast
  qed simp
  show "pl_shallow (fold f dids p) = pl_shallow p + length (filter (never_synced d) dids)"
    by (induction dids arbitrary: p) (simp_all add: f_def one)
  show "pl_checks (fold f dids p) = pl_checks p + length (filter (servable d) dids)"
    by (induction dids arbitrary: p) (simp_all add: f_def one)
  show "fst ` set (pl_floors (fold f dids p)) = fst ` set (pl_floors p) \<union> set (filter (owes_history d) dids)"
    by (induction dids arbitrary: p) (auto simp: f_def one)
qed

text \<open>
  The plan puts every candidate where it belongs, in priority order: a repository without a
  completed sync in the shallow queue of its host, or among those whose host must be resolved first; a
  servable one behind a head check; a parked one nowhere.  Every planned item has a lane, the counts are
  those of the two kinds, and the horizon starts from exactly the servable repositories that owe history.
\<close>

theorem sweepPlan_sorts_candidates:
  assumes "make_sweepPlan T now dids d = (Inr plan, d')"
  shows "map si_DID (filter si_Check (pl_ready plan)) = filter (servable d) dids \<and>
    map si_DID (filter (\<lambda>i. \<not> si_Check i) (pl_ready plan)) = filter (\<lambda>x. never_synced d x \<and> known_host d x) dids \<and>
    map si_DID (pl_unresolved plan) = filter (\<lambda>x. never_synced d x \<and> \<not> known_host d x) dids \<and>
    (\<forall>i\<in>set (pl_ready plan). si_Lane i \<noteq> []) \<and>
    pl_shallow plan = length (filter (never_synced d) dids) \<and> pl_checks plan = length (filter (servable d) dids) \<and>
    fst ` set (pl_floors plan) = set (filter (owes_history d) dids)"
proof -
  let ?p = "\<lparr>pl_ready = [], pl_unresolved = [], pl_shallow = 0, pl_checks = 0, pl_floors = []\<rparr>"
  have plan: "plan = fold (\<lambda>did. plan_one T now did (row d did)) dids ?p"
    using plan_all_fold [OF assms [unfolded make_sweepPlan_def]] by simp
  show ?thesis unfolding plan using plan_fold(4) [of ?p T now d dids] by (simp add: plan_fold)
qed

theorem sweepPlan_sorts_candidates_witness:
  "\<exists>plan. make_sweepPlan ex_T 0 [''did:plc:a'', ''did:plc:b''] (sw_DB (ex_world ''3k1'')) = (Inr plan, sw_DB (ex_world ''3k1'')) \<and>
     map si_DID (filter si_Check (pl_ready plan)) = [''did:plc:a''] \<and> map si_DID (pl_unresolved plan) = [''did:plc:b'']"
proof -
  let ?d = "sw_DB (ex_world ''3k1'')"
  obtain plan where run: "make_sweepPlan ex_T 0 [''did:plc:a'', ''did:plc:b''] ?d = (Inr plan, ?d)"
    by (simp add: make_sweepPlan_def GetRepo_def stmt_def ex_world_def ex_db_def)
  have "servable ?d ''did:plc:a''" "never_synced ?d ''did:plc:b''" "\<not> known_host ?d ''did:plc:b''"
    "\<not> servable ?d ''did:plc:b''" "\<not> never_synced ?d ''did:plc:a''"
    by (simp_all add: plan_kinds row_of_def ex_world_def ex_db_def ex_row_def RepoStatusOK_def)
  then show ?thesis using run sweepPlan_sorts_candidates [OF run] by simp
qed

section \<open>Drift becomes a repair\<close>

text \<open>What the lookups of a head check run beside may do anything to the rows but duplicate a primary key.\<close>

definition lookups_kept :: "'x sync_deps \<Rightarrow> bool" where
  "lookups_kept D \<longleftrightarrow>
     (\<forall>a c w. table_ok (sw_DB w) \<longrightarrow> table_ok (sw_DB (snd (sd_Resolve D a c w)))) \<and>
     (\<forall>x w. table_ok (sw_DB w) \<longrightarrow> table_ok (sw_DB (sd_Purge D x w))) \<and>
     (\<forall>i w. table_ok (sw_DB w) \<longrightarrow> table_ok (sw_DB (snd (sd_LatestRev D i w))))"

lemma UpdateRepoIdentity_table:
  assumes "UpdateRepoIdentity invalid did handle pds d = (r, d')" "table_ok d"
  shows "table_ok d'"
proof -
  have u: "table_ok d2" if "update_where P f d1 = (x, d2)" "table_ok d1" "\<And>r. repo_DID (f r) = repo_DID r" for P f d1 x d2
    using update_where_row(2) [OF that(3,1)] that(2) by blast
  have st: "table_ok d2" if "stmt d1 = (x, d2)" "table_ok d1" for d1 x d2 using that by (simp add: table_ok_def)
  have rows: "table_ok (x\<lparr>db_Rows := db_Rows d\<rparr>)" for x using assms(2) by (simp add: table_ok_def)
  show ?thesis using assms
    by (auto simp: UpdateRepoIdentity_def Let_def rows split: prod.splits sum.splits option.splits if_splits
        dest!: u st)
qed

lemma purge_all_table: "lookups_kept D \<Longrightarrow> table_ok (sw_DB w) \<Longrightarrow> table_ok (sw_DB (purge_all D xs w))"
  unfolding purge_all_def by (induction xs arbitrary: w) (auto simp: lookups_kept_def)

lemma resolve_table: "lookups_kept D \<Longrightarrow> table_ok (sw_DB w) \<Longrightarrow> sd_Resolve D a c w = (r, w1) \<Longrightarrow> table_ok (sw_DB w1)"
  unfolding lookups_kept_def by (metis snd_conv)

lemma owner_error_table: "lookups_kept D \<Longrightarrow> table_ok (sw_DB w) \<Longrightarrow> owner_error D ident w = (r, w1) \<Longrightarrow> table_ok (sw_DB w1)"
  by (auto simp: owner_error_def split: if_splits prod.splits sum.splits dest: resolve_table)

lemma refresh_did_table:
  assumes D: "lookups_kept D" and "table_ok (sw_DB w)" and "refresh_did D h did w = (r, w')"
  shows "table_ok (sw_DB w')"
proof -
  obtain i w1 where a: "sd_Resolve D did False w = (i, w1)" by (metis prod.collapse)
  have t1: "table_ok (sw_DB w1)" by (rule resolve_table [OF D assms(2) a])
  have keep: "table_ok (sw_DB w2)" if "owner_error D x w1 = (y, w2)" for x y w2 by (rule owner_error_table [OF D t1 that])
  have upd: "table_ok (sw_DB (w2\<lparr>sw_DB := d\<rparr>))" if "UpdateRepoIdentity inv dd hh pp (sw_DB w2) = (y, d)" "table_ok (sw_DB w2)"
    for w2 d y inv dd hh pp using UpdateRepoIdentity_table [OF that] by simp
  show ?thesis using assms(3) a t1 purge_all_table [OF D]
    by (auto simp: refresh_did_def with_db_def split: sum.splits if_splits prod.splits option.splits dest!: keep dest: upd)
qed

lemma RefreshIdentity_table:
  assumes "lookups_kept D" "table_ok (sw_DB w)" "RefreshIdentity D did w = (r, w')"
  shows "table_ok (sw_DB w')"
proof -
  obtain i w1 where a: "sd_Resolve D did False w = (i, w1)" by (metis prod.collapse)
  note t1 = resolve_table [OF assms(1,2) a]
  show ?thesis using assms(3) a t1 refresh_did_table [OF assms(1,2)] refresh_did_table [OF assms(1) t1]
    by (auto simp: RefreshIdentity_def split: if_splits sum.splits)
qed

lemma headRev_table: "lookups_kept D \<Longrightarrow> table_ok (sw_DB w) \<Longrightarrow> headRev D i w = (r, w1) \<Longrightarrow> table_ok (sw_DB w1)"
  unfolding lookups_kept_def headRev_def by (metis snd_conv)

lemma cached_miss:
  assumes "row (sw_DB w) did = Some r" "repo_Version r = []" "repo_Status r = RepoStatusOK" "prefix ''did:'' did"
    "db_Faults (sw_DB w) = []" "\<not> syncInFlight did (sw_Flight w)"
  shows "SyncBlueskyRepoCached D inside did w = SyncBlueskyRepo D inside did w"
proof -
  have "repo_DID r = did" using row_of_Some [OF assms(1)] by simp
  then show ?thesis using assms
    by (simp add: SyncBlueskyRepoCached_def cached_lookup_def GetRepoByHandleOrDID_def with_db_def GetRepo_def
        stmt_no_faults TerminalStatus_def)
qed

text \<open>
  Drift becomes a repair.  A head check sends a repository either down its ladder or back to the
  shallow queue, never both.  It goes down the ladder only when its row was servable and owes history.
  When it is sent back, the revision it had is on record as the place to repair from and its row no
  longer names a revision, so that the shallow sync that follows is a real one and not an answer from
  the row.
\<close>

theorem sweepCheck_repairs_drift:
  assumes run: "sweepCheck D did w = ((go_on, repair), w')" and D: "lookups_kept D" and ok: "table_ok (sw_DB w)"
  shows "\<not> (go_on \<and> repair) \<and> (go_on \<longrightarrow> owes_history (sw_DB w) did) \<and>
    (repair \<longrightarrow> servable (sw_DB w) did \<and>
       (\<exists>repo r. row (sw_DB w) did = Some repo \<and> row (sw_DB w') did = Some r \<and>
          repo_Version r = [] \<and> repo_RepairFrom r = repo_Version repo \<and>
          (prefix ''did:'' did \<and> db_Faults (sw_DB w') = [] \<and> \<not> syncInFlight did (sw_Flight w') \<and> repo_Status r = RepoStatusOK \<longrightarrow>
             SyncBlueskyRepoCached D [] did w' = SyncBlueskyRepo D [] did w')))"
proof -
  obtain g w1 where g: "with_db (GetRepo did) w = (g, w1)" by (metis prod.collapse)
  have w1: "db_Rows (sw_DB w1) = db_Rows (sw_DB w)" "g = Inr x \<Longrightarrow> x = row (sw_DB w) did" for x
    using g by (auto simp: with_db_eq GetRepo_def split: prod.splits option.splits)
  show ?thesis
  proof (cases "\<exists>repo. g = Inr (Some repo) \<and> repo_Version repo \<noteq> [] \<and> \<not> TerminalStatus (Some repo)")
    case False
    then show ?thesis using run g by (auto simp: sweepCheck_def split: sum.splits option.splits if_splits)
  next
    case True
    then obtain repo where repo: "row (sw_DB w) did = Some repo" "repo_Version repo \<noteq> []" "\<not> TerminalStatus (Some repo)"
      and gr: "g = Inr (Some repo)" using w1(2) by metis
    obtain rf w2 where f: "RefreshIdentity D did w1 = (rf, w2)" by (metis prod.collapse)
    have t1: "table_ok (sw_DB w1)" using ok w1(1) by (simp add: table_ok_def)
    note t2 = RefreshIdentity_table [OF D t1 f]
    have srv: "servable (sw_DB w) did" using repo by (simp add: servable_def TerminalStatus_def)
    have mark: ?thesis if h: "headRev D i w2 = (hr, w3)" and m: "with_db (MarkRepoForRepair did (repo_Version repo)) w3 = (Inr True, w')"
      and res: "\<not> go_on" for i hr w3
    proof -
      obtain d4 where d4: "MarkRepoForRepair did (repo_Version repo) (sw_DB w3) = (Inr True, d4)" "sw_DB w' = d4"
        using m by (auto simp: with_db_eq)
      from MarkRepoForRepair_row [OF d4(1) headRev_table [OF D t2 h]] obtain r where
        "row (sw_DB w') did = Some r" "repo_Version r = []" "repo_RepairFrom r = repo_Version repo"
        using d4(2) by auto
      then show ?thesis using res srv repo(1) cached_miss [of w' did r D "[]"] by auto
    qed
    have owes: "\<not> repo_BackfillDone repo \<Longrightarrow> owes_history (sw_DB w) did" using srv repo(1) by (simp add: owes_history_def)
    show ?thesis using run g gr repo(2,3) f mark owes
      by (auto simp: sweepCheck_def split: sum.splits prod.splits if_splits bool.splits)
  qed
qed

theorem sweepCheck_repairs_drift_witness:
  "\<exists>w'. sweepCheck ex_sync ''did:plc:a'' (ex_world ''3k1'') = ((False, True), w') \<and> servable (sw_DB (ex_world ''3k1'')) ''did:plc:a'' \<and>
     map_option repo_RepairFrom (row (sw_DB w') ''did:plc:a'') = Some ''3k1''"
proof -
  obtain w' where run: "sweepCheck ex_sync ''did:plc:a'' (ex_world ''3k1'') = ((False, True), w')"
    by (simp add: sweepCheck_def RefreshIdentity_def refresh_did_def owner_error_def headRev_def ex_sync_def with_db_def
        GetRepo_def stmt_def row_of_def ex_world_def ex_db_def ex_row_def TerminalStatus_def RepoStatusOK_def
        UpdateRepoIdentity_def update_where_def IsUsableHandle_def purge_all_def Let_def MarkRepoForRepair_def applied_def)
  have k: "lookups_kept ex_sync" "table_ok (sw_DB (ex_world ''3k1''))"
    and r0: "row (sw_DB (ex_world ''3k1'')) ''did:plc:a'' = Some (ex_row\<lparr>repo_Version := ''3k1''\<rparr>)"
    by (simp_all add: lookups_kept_def ex_sync_def table_ok_def ex_world_def ex_db_def row_of_def ex_row_def)
  from sweepCheck_repairs_drift [OF run k] r0 run show ?thesis by auto
qed

end
