(* ===== verification/Firehose.thy ===== *)
theory Firehose
  imports RepoSync
begin

text \<open>
  Consuming the relays (\<open>atproto/firehose_cursor.go\<close>, \<open>atproto/firehose_dedup.go\<close>,
  \<open>model/relay_cursor.go\<close> and the transport-independent part of \<open>atproto/firehose.go\<close>): how far a relay
  was read, which saved positions are worth resuming from, and which events are duplicates.
\<close>

section \<open>High-water marks\<close>

text \<open>One call of \<open>observe\<close> with nobody beside it, and the same call one atomic operation at a time.  An
  observer loads the mark (\<open>AtLoad\<close>), compares, and then swaps it in if nobody moved it meanwhile
  (\<open>AtSwap\<close> remembers what was loaded).\<close>

definition highWater_observe :: "int \<Rightarrow> int \<Rightarrow> int" where
  "highWater_observe seq mark = (if seq \<le> mark then mark else seq)"

datatype observer = AtLoad int | AtSwap int int | Observed int

fun observer_seq :: "observer \<Rightarrow> int" where
  "observer_seq (AtLoad seq) = seq"
| "observer_seq (AtSwap seq cur) = seq"
| "observer_seq (Observed seq) = seq"

fun observer_step :: "int \<times> observer \<Rightarrow> int \<times> observer" where
  "observer_step (mark, AtLoad seq) = (mark, if seq \<le> mark then Observed seq else AtSwap seq mark)"
| "observer_step (mark, AtSwap seq cur) = (if mark = cur then (seq, Observed seq) else (mark, AtLoad seq))"
| "observer_step (mark, Observed seq) = (mark, Observed seq)"

inductive marks_step :: "int \<times> observer list \<Rightarrow> int \<times> observer list \<Rightarrow> bool" where
  observer_moves: "i < length obs \<Longrightarrow> obs ! i \<noteq> Observed (observer_seq (obs ! i)) \<Longrightarrow>
     observer_step (mark, obs ! i) = (mark', ob) \<Longrightarrow> marks_step (mark, obs) (mark', obs[i := ob])"

section \<open>The cursor of a relay\<close>

record RelayCursor =
  row_Cursor :: int
  row_LastEventTime :: int

record relay_db =
  rel_Rows :: "string \<rightharpoonup> RelayCursor"
  rel_Faults :: "go_error option list"

definition relay_stmt :: "relay_db \<Rightarrow> go_error option \<times> relay_db" where
  "relay_stmt d = (case rel_Faults d of [] \<Rightarrow> (None, d) | f # fs \<Rightarrow> (f, d\<lparr>rel_Faults := fs\<rparr>))"

definition GetRelayCursor :: "string \<Rightarrow> relay_db \<Rightarrow> (go_error + RelayCursor option) \<times> relay_db" where
  "GetRelayCursor host d =
     (case relay_stmt d of (Some e, d1) \<Rightarrow> (Inl e, d1) | (None, d1) \<Rightarrow> (Inr (rel_Rows d1 host), d1))"

definition UpsertRelayCursor :: "string \<Rightarrow> int \<Rightarrow> int \<Rightarrow> relay_db \<Rightarrow> go_error option \<times> relay_db" where
  "UpsertRelayCursor host cursor lastEventTime d =
     (case relay_stmt d of
        (Some e, d1) \<Rightarrow> (Some e, d1)
      | (None, d1) \<Rightarrow>
          (None, d1\<lparr>rel_Rows := (rel_Rows d1)(host \<mapsto> \<lparr>row_Cursor = cursor, row_LastEventTime = lastEventTime\<rparr>)\<rparr>))"

record relayCursor =
  rc_host :: string
  rc_latest :: int
  rc_lastEvent :: int
  rc_flushed :: int
  rc_flushedEvent :: int

definition newRelayCursor :: "string \<Rightarrow> relay_db \<Rightarrow> relayCursor \<times> relay_db" where
  "newRelayCursor host d =
     (let rc = \<lparr>rc_host = host, rc_latest = 0, rc_lastEvent = 0, rc_flushed = 0, rc_flushedEvent = 0\<rparr> in
      case GetRelayCursor host d of
        (Inl e, d1) \<Rightarrow> (rc, d1)
      | (Inr None, d1) \<Rightarrow> (rc, d1)
      | (Inr (Some saved), d1) \<Rightarrow>
          (rc\<lparr>rc_latest := row_Cursor saved, rc_flushed := row_Cursor saved,
              rc_lastEvent := row_LastEventTime saved, rc_flushedEvent := row_LastEventTime saved\<rparr>, d1))"

definition cursor_observe :: "int \<Rightarrow> relayCursor \<Rightarrow> relayCursor" where
  "cursor_observe seq rc = rc\<lparr>rc_latest := highWater_observe seq (rc_latest rc)\<rparr>"

definition cursor_observeTime :: "time \<Rightarrow> relayCursor \<Rightarrow> relayCursor" where
  "cursor_observeTime t rc = rc\<lparr>rc_lastEvent := highWater_observe (t div second) (rc_lastEvent rc)\<rparr>"

definition cursor_stale :: "duration \<Rightarrow> time \<Rightarrow> relayCursor \<Rightarrow> bool" where
  "cursor_stale window now rc \<longleftrightarrow>
     (if window \<le> 0 then False
      else if rc_latest rc = 0 then False
      else if rc_lastEvent rc = 0 then True
      else sat64 (now - rc_lastEvent rc * second) > window)"

definition cursor_reset :: "relayCursor \<Rightarrow> relayCursor" where
  "cursor_reset rc = rc\<lparr>rc_latest := 0, rc_lastEvent := 0\<rparr>"

definition dropIfStale :: "duration \<Rightarrow> time \<Rightarrow> relayCursor \<Rightarrow> bool \<times> relayCursor" where
  "dropIfStale window now rc = (if \<not> cursor_stale window now rc then (False, rc) else (True, cursor_reset rc))"

definition cursor_param :: "relayCursor \<Rightarrow> int \<times> bool" where
  "cursor_param rc = (rc_latest rc, rc_latest rc > 0)"

text \<open>Group sequences are uint64; \<open>observeGroup\<close> converts to int64, \<open>groupStart\<close> back.\<close>

definition observeGroup :: "nat \<Rightarrow> relayCursor \<Rightarrow> relayCursor" where
  "observeGroup seq rc = cursor_observe (wrap64 (int seq)) rc"

definition groupStart :: "relayCursor \<Rightarrow> nat \<times> bool" where
  "groupStart rc = (if rc_latest rc \<le> 0 then (0, False) else (nat (rc_latest rc), True))"

definition cursor_flush :: "relayCursor \<Rightarrow> relay_db \<Rightarrow> relayCursor \<times> relay_db" where
  "cursor_flush rc d =
     (if rc_latest rc = rc_flushed rc \<and> rc_lastEvent rc = rc_flushedEvent rc then (rc, d)
      else case UpsertRelayCursor (rc_host rc) (rc_latest rc) (rc_lastEvent rc) d of
        (Some e, d1) \<Rightarrow> (rc, d1)
      | (None, d1) \<Rightarrow> (rc\<lparr>rc_flushed := rc_latest rc, rc_flushedEvent := rc_lastEvent rc\<rparr>, d1))"

section \<open>Duplicates\<close>

record firehoseDeduper =
  dd_cur :: "string set"
  dd_prev :: "string set"
  dd_window :: duration
  dd_lastSwap :: time

definition newFirehoseDeduper :: "duration \<Rightarrow> time \<Rightarrow> firehoseDeduper" where
  "newFirehoseDeduper window now = \<lparr>dd_cur = {}, dd_prev = {}, dd_window = window, dd_lastSwap = now\<rparr>"

text \<open>\<open>now\<close> and \<open>now'\<close> are the two readings of the clock.\<close>

definition dedup_rotate :: "time \<Rightarrow> time \<Rightarrow> firehoseDeduper \<Rightarrow> firehoseDeduper" where
  "dedup_rotate now now' d =
     (if sat64 (now - dd_lastSwap d) \<ge> dd_window d
      then d\<lparr>dd_prev := dd_cur d, dd_cur := {}, dd_lastSwap := now'\<rparr> else d)"

definition dedup_seen :: "time \<Rightarrow> time \<Rightarrow> string \<Rightarrow> firehoseDeduper \<Rightarrow> bool \<times> firehoseDeduper" where
  "dedup_seen now now' key d =
     (let d = dedup_rotate now now' d in
      if key \<in> dd_cur d then (True, d)
      else if key \<in> dd_prev d then (True, d\<lparr>dd_cur := insert key (dd_cur d)\<rparr>)
      else (False, d\<lparr>dd_cur := insert key (dd_cur d)\<rparr>))"

section \<open>Relays\<close>

fun split_commas :: "string \<Rightarrow> string \<Rightarrow> string list" where
  "split_commas acc [] = [rev acc]"
| "split_commas acc (c # cs) = (if c = CHR '','' then rev acc # split_commas [] cs else split_commas (c # acc) cs)"

definition httpToWSURL :: "string \<Rightarrow> string" where
  "httpToWSURL u =
     (if prefix ''https://'' u then ''wss://'' @ drop 8 u
      else if prefix ''http://'' u then ''ws://'' @ drop 7 u
      else u)"

definition selfRelayURL :: "string \<Rightarrow> string \<Rightarrow> string" where
  "selfRelayURL httpAddr ownPublicURL = (if httpAddr = [] then [] else httpToWSURL ownPublicURL)"

definition add_host :: "string \<Rightarrow> string list \<Rightarrow> string list" where
  "add_host h hosts = (let h = TrimSpace h in if h = [] \<or> h \<in> set hosts then hosts else hosts @ [h])"

definition relayHosts :: "string \<Rightarrow> string \<Rightarrow> string list" where
  "relayHosts relayHost self =
     (let hosts = fold add_host (split_commas [] relayHost) [] in if self \<noteq> [] then add_host self hosts else hosts)"

definition minBackoff :: duration where "minBackoff = second"
definition maxBackoff :: duration where "maxBackoff = 30 * second"

text \<open>One turn of \<open>consumeRelay\<close> after a connection that lasted \<open>lasted\<close>: how long to wait, and the backoff of
  the next turn.\<close>

definition relay_backoff :: "duration \<Rightarrow> duration \<Rightarrow> duration \<times> duration" where
  "relay_backoff lasted backoff =
     (let backoff = (if lasted > minute then minBackoff else backoff) in
      (backoff, if backoff < maxBackoff then (if backoff * 2 > maxBackoff then maxBackoff else backoff * 2) else backoff))"

fun relay_waits :: "duration \<Rightarrow> duration list \<Rightarrow> duration list" where
  "relay_waits backoff [] = []"
| "relay_waits backoff (lasted # ls) =
     (case relay_backoff lasted backoff of (w, b) \<Rightarrow> w # relay_waits b ls)"

section \<open>Events\<close>

text \<open>What the callbacks of every relay share: the liveness marks of the node and the two dedupers; and
  what belongs to one connection: its cursor and, on a moq relay, the mark of upstream sequences that
  feeds the gauge only.\<close>

record firehose =
  fs_lastSeen :: time
  fs_lastEvent :: int
  fs_seenEvents :: nat
  fs_commitDedup :: firehoseDeduper
  fs_identityDedup :: firehoseDeduper

record relay_conn =
  cn_moq :: bool
  cn_cursor :: relayCursor
  cn_gaugeHigh :: int

definition markSeen :: "time \<Rightarrow> firehose \<Rightarrow> firehose" where
  "markSeen now f = f\<lparr>fs_lastSeen := now, fs_seenEvents := fs_seenEvents f + 1\<rparr>"

definition markEvent :: "time \<Rightarrow> firehose \<Rightarrow> firehose" where
  "markEvent t f = f\<lparr>fs_lastEvent := highWater_observe t (fs_lastEvent f)\<rparr>"

definition observeSeq :: "int \<Rightarrow> relay_conn \<Rightarrow> relay_conn" where
  "observeSeq seq c =
     (if cn_moq c then c\<lparr>cn_gaugeHigh := highWater_observe seq (cn_gaugeHigh c)\<rparr>
      else c\<lparr>cn_cursor := cursor_observe seq (cn_cursor c)\<rparr>)"

text \<open>\<open>stamp\<close> is what \<open>aqtime.FromString\<close> made of the event's time.\<close>

definition observe_stamp :: "time \<Rightarrow> (go_error + time) \<Rightarrow> relay_conn \<times> firehose \<Rightarrow> relay_conn \<times> firehose" where
  "observe_stamp now stamp cf =
     (case stamp of
        Inl e \<Rightarrow> cf
      | Inr at' \<Rightarrow>
          let at' = (if at' > now then now else at') in
          (case cf of (c, f) \<Rightarrow> (c\<lparr>cn_cursor := cursor_observeTime at' (cn_cursor c)\<rparr>, markEvent at' f)))"

record relay_event =
  re_Seq :: int
  re_Stamp :: "go_error + time"
  re_Key :: string

text \<open>The common head of the callbacks: whether the event goes on to its handler.  \<open>ident\<close> says whether it is
  an identity event.\<close>

definition admit_event :: "bool \<Rightarrow> time \<Rightarrow> relay_event \<Rightarrow> relay_conn \<times> firehose \<Rightarrow> bool \<times> relay_conn \<times> firehose" where
  "admit_event ident now evt cf =
     (case observe_stamp now (re_Stamp evt) (observeSeq (re_Seq evt) (fst cf), markSeen now (snd cf)) of
        (c, f) \<Rightarrow>
          if ident then
            (case dedup_seen now now (re_Key evt) (fs_identityDedup f) of
               (dup, d) \<Rightarrow> (\<not> dup, c, f\<lparr>fs_identityDedup := d\<rparr>))
          else
            (case dedup_seen now now (re_Key evt) (fs_commitDedup f) of
               (dup, d) \<Rightarrow> (\<not> dup, c, f\<lparr>fs_commitDedup := d\<rparr>)))"

definition identityDedupKey :: "string \<Rightarrow> string \<Rightarrow> string option \<Rightarrow> string" where
  "identityDedupKey did time handle =
     did @ [CHR 0x00] @ time @ [CHR 0x00] @ (case handle of None \<Rightarrow> [] | Some h \<Rightarrow> h)"

section \<open>A high-water mark under contention\<close>

definition marks_inv :: "int \<Rightarrow> int list \<Rightarrow> int \<times> observer list \<Rightarrow> bool" where
  "marks_inv start seqs s \<longleftrightarrow>
     map observer_seq (snd s) = seqs \<and> fst s \<in> insert start (set seqs) \<and> start \<le> fst s \<and>
     (\<forall>seq. Observed seq \<in> set (snd s) \<longrightarrow> seq \<le> fst s) \<and>
     (\<forall>seq cur. AtSwap seq cur \<in> set (snd s) \<longrightarrow> cur \<le> fst s \<and> cur < seq)"

lemma observer_step_seq: "observer_step (mark, ob) = (mark', ob') \<Longrightarrow> observer_seq ob' = observer_seq ob"
  by (cases ob) (auto split: if_splits)

lemma observer_step_mark:
  "observer_step (mark, ob) = (mark', ob') \<Longrightarrow> (\<forall>seq cur. ob = AtSwap seq cur \<longrightarrow> cur \<le> mark \<and> cur < seq) \<Longrightarrow>
   mark \<le> mark' \<and> (mark' = mark \<or> mark' = observer_seq ob) \<and> (\<forall>seq. ob' = Observed seq \<longrightarrow> ob \<noteq> ob' \<longrightarrow> seq \<le> mark') \<and>
   (\<forall>seq cur. ob' = AtSwap seq cur \<longrightarrow> cur \<le> mark' \<and> cur < seq)"
  by (cases ob) (auto split: if_splits)

lemma marks_inv_step:
  assumes "marks_step s s'" "marks_inv start seqs s"
  shows "marks_inv start seqs s'"
  using assms
proof cases
  case (observer_moves i obs mark mark' ob')
  let ?o = "obs ! i"
  have mem: "?o \<in> set obs" using observer_moves(3) by simp
  have inv: "map observer_seq obs = seqs" "mark \<in> insert start (set seqs)" "start \<le> mark"
    "\<And>seq. Observed seq \<in> set obs \<Longrightarrow> seq \<le> mark"
    "\<And>seq cur. AtSwap seq cur \<in> set obs \<Longrightarrow> cur \<le> mark \<and> cur < seq"
    using assms(2) observer_moves(1) by (auto simp: marks_inv_def)
  have "\<forall>seq cur. ?o = AtSwap seq cur \<longrightarrow> cur \<le> mark \<and> cur < seq" using inv(5) mem by metis
  note st = observer_step_mark [OF observer_moves(5) this]
  have seqs: "map observer_seq (obs[i := ob']) = seqs"
    using inv(1) observer_step_seq [OF observer_moves(5)] observer_moves(3)
    by (metis list_update_id map_update)
  have mem': "observer_seq ?o \<in> set seqs" using mem inv(1) by (metis image_eqI set_map)
  have upd: "x \<in> set (obs[i := ob']) \<Longrightarrow> x = ob' \<or> x \<in> set obs" for x
    using set_update_subset_insert [of obs i ob'] by blast
  have "mark' \<in> insert start (set seqs)" using st inv(2) mem' by auto
  moreover have "start \<le> mark'" using st inv(3) by linarith
  moreover have "seq \<le> mark'" if "Observed seq \<in> set (obs[i := ob'])" for seq
    using upd [OF that] st inv(4) [of seq] mem by fastforce
  moreover have "cur \<le> mark' \<and> cur < seq" if "AtSwap seq cur \<in> set (obs[i := ob'])" for seq cur
    using upd [OF that] st inv(5) [of seq cur] by fastforce
  ultimately show ?thesis using seqs observer_moves(2) by (simp add: marks_inv_def)
qed

text \<open>Every step of an observer brings it closer to its end: it ends, or it reloads after another observer has
  ended.\<close>

fun observer_weight :: "int \<Rightarrow> observer \<Rightarrow> nat" where
  "observer_weight mark (AtLoad seq) = 1"
| "observer_weight mark (AtSwap seq cur) = (if cur = mark then 0 else 2)"
| "observer_weight mark (Observed seq) = 0"

fun pending_observer :: "observer \<Rightarrow> bool" where
  "pending_observer (Observed seq) = False"
| "pending_observer ob = True"

definition marks_measure :: "((int \<times> observer list) \<times> (int \<times> observer list)) set" where
  "marks_measure = inv_image (less_than <*lex*> less_than)
     (\<lambda>(mark, obs). (length (filter pending_observer obs), sum_list (map (observer_weight mark) obs)))"

lemma sum_list_update_nat:
  fixes f :: "'a \<Rightarrow> nat"
  assumes "i < length xs"
  shows "sum_list (map f (xs[i := y])) + f (xs ! i) = sum_list (map f xs) + f y"
  using assms by (induction xs arbitrary: i) (auto split: nat.split simp: nth_Cons)

lemma length_filter_sum: "length (filter P xs) = sum_list (map (\<lambda>x. if P x then 1 else 0) xs)"
  by (induction xs) auto

lemma filter_update_length:
  assumes "i < length xs"
  shows "length (filter P (xs[i := y])) + (if P (xs ! i) then 1 else 0) = length (filter P xs) + (if P y then 1 else 0)"
  using sum_list_update_nat [OF assms, of "\<lambda>x. if P x then 1 else 0" y] by (simp only: length_filter_sum)

lemma marks_step_measure: "marks_step s s' \<Longrightarrow> (s', s) \<in> marks_measure"
proof (induction rule: marks_step.induct)
  case (observer_moves i obs mark mark' ob')
  note len = filter_update_length [OF observer_moves(1), of pending_observer ob']
  note sum = sum_list_update_nat [OF observer_moves(1), of "observer_weight mark" ob']
  show ?case
    using observer_moves(2,3) len sum
    by (cases "obs ! i") (auto simp: marks_measure_def split: if_splits)
qed

lemma highWater_fold_max:
  "start \<le> m \<Longrightarrow> m \<in> insert start (set seqs) \<Longrightarrow> \<forall>x\<in>set seqs. x \<le> m \<Longrightarrow> fold highWater_observe seqs start = m"
proof (induction seqs arbitrary: start)
  case (Cons x seqs)
  have "highWater_observe x start \<le> m" "m \<in> insert (highWater_observe x start) (set seqs)"
    using Cons.prems by (auto simp: highWater_observe_def)
  then show ?case using Cons by simp
qed simp

text \<open>
  A high-water mark is the maximum of what was observed.  However the observers' loads and swaps
  interleave, every run ends, each observer that has returned sees the mark at or above its sequence,
  the mark never falls below its start, and when all have returned it is the largest of the start and
  the observed sequences, which is what \<open>observe\<close> computes one after the other.
\<close>

theorem highWater_is_maximum:
  assumes "marks_step\<^sup>*\<^sup>* (start, map AtLoad seqs) (mark, obs)"
  shows "wfP (\<lambda>s' s. marks_step s s') \<and> (\<forall>seq. Observed seq \<in> set obs \<longrightarrow> seq \<le> mark) \<and> start \<le> mark \<and>
    (\<nexists>s'. marks_step (mark, obs) s') = (\<forall>ob\<in>set obs. \<not> pending_observer ob) \<and>
    ((\<forall>ob\<in>set obs. \<not> pending_observer ob) \<longrightarrow> mark = fold highWater_observe seqs start)"
proof -
  have inv: "marks_inv start seqs (mark, obs)"
    using assms
  proof (induction "(mark, obs)" arbitrary: mark obs rule: rtranclp_induct)
    case base show ?case by (auto simp: marks_inv_def comp_def)
  next
    case (step s) then show ?case using marks_inv_step by (cases s) blast
  qed
  have "wf marks_measure" unfolding marks_measure_def by (intro wf_inv_image wf_lex_prod wf_less_than)
  moreover have "{(s', s). marks_step s s'} \<subseteq> marks_measure" using marks_step_measure by auto
  ultimately have "wf {(s', s). marks_step s s'}" by (rule wf_subset)
  then have wf: "wfP (\<lambda>s' s. marks_step s s')" by (simp add: wfp_def)
  have stuck: "(\<nexists>s'. marks_step (mark, obs) s') = (\<forall>ob\<in>set obs. \<not> pending_observer ob)"
  proof
    assume no: "\<nexists>s'. marks_step (mark, obs) s'"
    show "\<forall>ob\<in>set obs. \<not> pending_observer ob"
    proof
      fix ob assume "ob \<in> set obs"
      then obtain i where i: "i < length obs" "obs ! i = ob" by (auto simp: in_set_conv_nth)
      obtain m ob' where "observer_step (mark, obs ! i) = (m, ob')" by (metis prod.collapse)
      then have "ob = Observed (observer_seq ob)" using no i marks_step.intros [OF i(1)] by metis
      then show "\<not> pending_observer ob" by (metis pending_observer.simps(1))
    qed
  next
    assume all: "\<forall>ob\<in>set obs. \<not> pending_observer ob"
    show "\<nexists>s'. marks_step (mark, obs) s'"
    proof
      assume "\<exists>s'. marks_step (mark, obs) s'"
      then obtain i where i: "i < length obs" "obs ! i \<noteq> Observed (observer_seq (obs ! i))"
        by (auto elim: marks_step.cases)
      then have "pending_observer (obs ! i)" by (cases "obs ! i") auto
      then show False using all i(1) by simp
    qed
  qed
  have "mark = fold highWater_observe seqs start" if all: "\<forall>ob\<in>set obs. \<not> pending_observer ob"
  proof (rule highWater_fold_max [THEN sym])
    show "start \<le> mark" "mark \<in> insert start (set seqs)" using inv by (auto simp: marks_inv_def)
    show "\<forall>x\<in>set seqs. x \<le> mark"
    proof
      fix x assume "x \<in> set seqs"
      then obtain ob where ob: "ob \<in> set obs" "observer_seq ob = x" using inv by (auto simp: marks_inv_def)
      have "\<not> pending_observer ob" using all ob(1) by blast
      then have "ob = Observed x" using ob(2) by (cases ob) simp_all
      then show "x \<le> mark" using inv ob by (auto simp: marks_inv_def)
    qed
  qed
  then show ?thesis using wf stuck inv by (auto simp: marks_inv_def)
qed

theorem highWater_is_maximum_witness:
  "\<exists>mark obs. marks_step\<^sup>*\<^sup>* (0, map AtLoad [5]) (mark, obs) \<and> mark = fold highWater_observe [5] 0 \<and> mark = 5"
proof -
  have "marks_step (0, [AtLoad 5]) (0, [AtSwap 5 0])" using observer_moves [of 0 "[AtLoad 5]" 0 0 "AtSwap 5 0"] by simp
  moreover have "marks_step (0, [AtSwap 5 0]) (5, [Observed 5])" using observer_moves [of 0 "[AtSwap 5 0]" 0 5 "Observed 5"] by simp
  ultimately have r: "marks_step\<^sup>*\<^sup>* (0, map AtLoad [5]) (5, [Observed 5])" by simp
  from highWater_is_maximum [OF r] r show ?thesis by (intro exI [of _ 5] exI [of _ "[Observed 5]"]) simp
qed

section \<open>Resuming a relay\<close>

text \<open>
  Only a fresh cursor is resumed from.  After the check at the top of every connect, a cursor is
  sent to the relay only if the check is disabled, or the newest event read from that relay is known
  and lies within the replay window; a cursor that is kept is kept unchanged, and one that is dropped
  makes both transports tail the live edge.  A dropped cursor is written back: the flush that follows
  leaves a row that a restart reads as a fresh relay.
\<close>

theorem stale_cursor_not_resumed:
  assumes "dropIfStale window now rc = (dropped, rc')"
  shows "(snd (cursor_param rc') \<longrightarrow> window \<le> 0 \<or>
      rc_lastEvent rc' \<noteq> 0 \<and> sat64 (now - rc_lastEvent rc' * second) \<le> window) \<and>
    (\<not> dropped \<longrightarrow> rc' = rc) \<and>
    (dropped \<longrightarrow> cursor_param rc' = (0, False) \<and> groupStart rc' = (0, False) \<and>
      (rel_Faults d = [] \<and> rc_flushed rc = rc_latest rc \<longrightarrow>
        (case cursor_flush rc' d of (rc2, d2) \<Rightarrow>
           cursor_param (fst (newRelayCursor (rc_host rc) d2)) = (0, False) \<and>
           \<not> cursor_stale window later (fst (newRelayCursor (rc_host rc) d2)))))"
proof (cases "cursor_stale window now rc")
  case False
  then have "\<not> dropped" "rc' = rc" using assms by (simp_all add: dropIfStale_def)
  then show ?thesis using False by (auto simp: cursor_stale_def cursor_param_def split: if_splits)
next
  case True
  then have "dropped" and rc': "rc' = cursor_reset rc" using assms by (simp_all add: dropIfStale_def)
  have zero: "cursor_param rc' = (0, False)" "groupStart rc' = (0, False)"
    by (simp_all add: rc' cursor_reset_def cursor_param_def groupStart_def)
  have "rc_latest rc \<noteq> 0" using True by (auto simp: cursor_stale_def split: if_splits)
  then have "cursor_param (fst (newRelayCursor (rc_host rc) d2)) = (0, False) \<and>
      \<not> cursor_stale window later (fst (newRelayCursor (rc_host rc) d2))"
    if "rel_Faults d = []" "rc_flushed rc = rc_latest rc" "cursor_flush rc' d = (rc2, d2)" for rc2 d2
    using that by (simp add: rc' cursor_reset_def cursor_flush_def UpsertRelayCursor_def relay_stmt_def
        newRelayCursor_def GetRelayCursor_def Let_def cursor_param_def cursor_stale_def)
      (auto simp: cursor_param_def cursor_stale_def)
  then show ?thesis using zero \<open>dropped\<close> by (auto split: prod.split)
qed

definition ex_cursor :: "int \<Rightarrow> int \<Rightarrow> relayCursor" where
  "ex_cursor seq t = \<lparr>rc_host = ''wss://relay.test'', rc_latest = seq, rc_lastEvent = t, rc_flushed = seq, rc_flushedEvent = t\<rparr>"

theorem stale_cursor_not_resumed_witness:
  "dropIfStale (15 * minute) (hour) (ex_cursor 7 1) = (True, cursor_reset (ex_cursor 7 1)) \<and>
   cursor_param (cursor_reset (ex_cursor 7 1)) = (0, False)"
proof -
  have d: "dropIfStale (15 * minute) hour (ex_cursor 7 1) = (True, cursor_reset (ex_cursor 7 1))"
    by (simp add: dropIfStale_def cursor_stale_def ex_cursor_def sat64_def duration_defs)
  show ?thesis using d stale_cursor_not_resumed [OF d, of "\<lparr>rel_Rows = Map.empty, rel_Faults = []\<rparr>" 0] by simp
qed

text \<open>
  A restart resumes where the last flush left off: reading the stored row gives back the two marks,
  and so the same connect parameters on both transports, whatever they were.
\<close>

theorem cursor_flush_roundtrip:
  assumes "cursor_flush rc d = (rc1, d1)" and "rel_Faults d = []"
    and "rel_Rows d (rc_host rc) = None \<Longrightarrow> rc_flushed rc = 0 \<and> rc_flushedEvent rc = 0"
    and "\<And>r. rel_Rows d (rc_host rc) = Some r \<Longrightarrow> row_Cursor r = rc_flushed rc \<and> row_LastEventTime r = rc_flushedEvent rc"
  shows "newRelayCursor (rc_host rc) d1 = (rc1, d1) \<and> rc_latest rc1 = rc_latest rc \<and> rc_lastEvent rc1 = rc_lastEvent rc \<and>
    cursor_param rc1 = cursor_param rc \<and> groupStart rc1 = groupStart rc"
proof (cases "rc_latest rc = rc_flushed rc \<and> rc_lastEvent rc = rc_flushedEvent rc")
  case True
  then have "rc1 = rc" "d1 = d" using assms(1) by (auto simp: cursor_flush_def)
  then show ?thesis using assms(2-4) True
    by (cases "rel_Rows d (rc_host rc)") (auto simp: newRelayCursor_def GetRelayCursor_def relay_stmt_def Let_def)
next
  case False
  then show ?thesis using assms(1,2)
    by (auto simp: cursor_flush_def UpsertRelayCursor_def relay_stmt_def newRelayCursor_def GetRelayCursor_def Let_def
        cursor_param_def groupStart_def)
qed

theorem cursor_flush_roundtrip_witness:
  "\<exists>rc1 d1. cursor_flush (cursor_observe 9 (ex_cursor 0 0)) \<lparr>rel_Rows = Map.empty, rel_Faults = []\<rparr> = (rc1, d1) \<and>
     newRelayCursor ''wss://relay.test'' d1 = (rc1, d1) \<and> cursor_param rc1 = (9, True)"
proof -
  let ?rc = "cursor_observe 9 (ex_cursor 0 0)" and ?d = "\<lparr>rel_Rows = Map.empty, rel_Faults = []\<rparr>"
  obtain rc1 d1 where f: "cursor_flush ?rc ?d = (rc1, d1)" by (metis prod.collapse)
  have "newRelayCursor (rc_host ?rc) d1 = (rc1, d1) \<and> rc_latest rc1 = rc_latest ?rc \<and> rc_lastEvent rc1 = rc_lastEvent ?rc \<and>
      cursor_param rc1 = cursor_param ?rc \<and> groupStart rc1 = groupStart ?rc"
    by (rule cursor_flush_roundtrip [OF f]) (simp_all add: cursor_observe_def ex_cursor_def)
  with f show ?thesis by (auto simp: cursor_observe_def ex_cursor_def cursor_param_def highWater_observe_def)
qed

section \<open>An event is handled once\<close>

text \<open>A run of calls: each with its two readings of the clock and its key.\<close>

fun dedup_run :: "(time \<times> time \<times> string) list \<Rightarrow> firehoseDeduper \<Rightarrow> bool list \<times> firehoseDeduper" where
  "dedup_run [] d = ([], d)"
| "dedup_run ((now, now', key) # cs) d =
     (case dedup_seen now now' key d of (b, d1) \<Rightarrow> case dedup_run cs d1 of (bs, d2) \<Rightarrow> (b # bs, d2))"

text \<open>The clock does not run backwards, and the process is younger than 292 years, so that
  the difference of two readings is exact.\<close>

fun clock_ok :: "time \<Rightarrow> (time \<times> time \<times> string) list \<Rightarrow> bool" where
  "clock_ok t [] = True"
| "clock_ok t ((now, now', key) # cs) = (t \<le> now \<and> now \<le> now' \<and> now' < 2 ^ 62 \<and> clock_ok now' cs)"

definition remembered :: "string \<Rightarrow> firehoseDeduper \<Rightarrow> bool" where
  "remembered key d \<longleftrightarrow> key \<in> dd_cur d \<union> dd_prev d"

text \<open>A key recorded at time \<open>t\<close> cannot be lost before \<open>t + window\<close>.\<close>

definition safe_until :: "string \<Rightarrow> time \<Rightarrow> firehoseDeduper \<Rightarrow> bool" where
  "safe_until key t d \<longleftrightarrow> key \<in> dd_cur d \<or> key \<in> dd_prev d \<and> t \<le> dd_lastSwap d"

lemma seen_result: "dedup_seen now now' key d = (b, d1) \<Longrightarrow> b = remembered key (dedup_rotate now now' d)"
  by (auto simp: dedup_seen_def remembered_def Let_def split: if_splits)

lemma seen_fields:
  "dedup_seen now now' key d = (b, d1) \<Longrightarrow>
   dd_window d1 = dd_window d \<and> key \<in> dd_cur d1 \<and> dd_prev d1 = dd_prev (dedup_rotate now now' d) \<and>
   dd_cur d1 = insert key (dd_cur (dedup_rotate now now' d)) \<and> dd_lastSwap d1 = dd_lastSwap (dedup_rotate now now' d)"
  by (auto simp: dedup_seen_def dedup_rotate_def Let_def split: if_splits)

lemma sat64_exact: "- (2 ^ 63) \<le> x \<Longrightarrow> x < 2 ^ 63 \<Longrightarrow> sat64 x = x"
  by (simp add: sat64_def)

lemma rotate_keeps:
  assumes "safe_until key t d" "t \<le> now" "now \<le> now'" "now - t < dd_window d" "0 \<le> t" "now < 2 ^ 62" "0 \<le> dd_lastSwap d"
    "dd_lastSwap d \<le> now"
  shows "safe_until key t (dedup_rotate now now' d)" "remembered key (dedup_rotate now now' d)"
proof -
  have s: "sat64 (now - dd_lastSwap d) = now - dd_lastSwap d" using assms(6-8) by (intro sat64_exact) simp_all
  show "safe_until key t (dedup_rotate now now' d)" using assms s
    by (auto simp: safe_until_def dedup_rotate_def)
  then show "remembered key (dedup_rotate now now' d)" by (auto simp: safe_until_def remembered_def)
qed

lemma rotate_clock: "dd_lastSwap d \<le> now \<Longrightarrow> now \<le> now' \<Longrightarrow> dd_lastSwap (dedup_rotate now now' d) \<le> now'"
  "0 \<le> dd_lastSwap d \<Longrightarrow> 0 \<le> now' \<Longrightarrow> 0 \<le> dd_lastSwap (dedup_rotate now now' d)"
  by (auto simp: dedup_rotate_def)

lemma run_keeps:
  assumes "clock_ok t0 cs" "safe_until key t d" "t \<le> t0" "0 \<le> t" "dd_lastSwap d \<le> t0" "0 \<le> dd_lastSwap d"
    and "\<forall>(now, now', k) \<in> set cs. now - t < dd_window d"
  shows "\<forall>i < length cs. snd (snd (cs ! i)) = key \<longrightarrow> fst (dedup_run cs d) ! i"
  using assms
proof (induction cs arbitrary: t0 d)
  case (Cons c cs)
  obtain now now' k where c: "c = (now, now', k)" by (metis prod.collapse)
  obtain b d1 where s: "dedup_seen now now' k d = (b, d1)" by (metis prod.collapse)
  note f = seen_fields [OF s]
  have clk: "t0 \<le> now" "now \<le> now'" "now' < 2 ^ 62" "clock_ok now' cs" "now - t < dd_window d" using Cons.prems c by auto
  have sw: "dd_lastSwap d \<le> now" "t \<le> now" "now < 2 ^ 62" "0 \<le> now'" using clk Cons.prems by linarith+
  note keep = rotate_keeps [OF Cons.prems(2) sw(2) clk(2,5) Cons.prems(4) sw(3) Cons.prems(6) sw(1)]
  have d1: "safe_until key t d1" "dd_lastSwap d1 \<le> now'" "0 \<le> dd_lastSwap d1" "dd_window d1 = dd_window d"
    using f keep(1) rotate_clock(1) [OF sw(1) clk(2)] rotate_clock(2) [OF Cons.prems(6) sw(4)]
    by (auto simp: safe_until_def)
  have ih: "\<forall>i < length cs. snd (snd (cs ! i)) = key \<longrightarrow> fst (dedup_run cs d1) ! i"
    using Cons.IH [OF clk(4) d1(1) _ Cons.prems(4) d1(2,3)] Cons.prems(7) sw(2) clk(2) d1(4) by auto
  have "k = key \<Longrightarrow> b" using seen_result [OF s] keep(2) by simp
  then show ?case using ih s by (auto simp: c nth_Cons split: nat.split prod.split)
qed simp

lemma run_unknown:
  "key \<notin> dd_cur d \<union> dd_prev d \<Longrightarrow> \<forall>c\<in>set cs. snd (snd c) \<noteq> key \<Longrightarrow> dedup_run cs d = (bs, d1) \<Longrightarrow>
   key \<notin> dd_cur d1 \<union> dd_prev d1"
proof (induction cs arbitrary: d bs)
  case (Cons c cs)
  obtain now now' k where c: "c = (now, now', k)" by (metis prod.collapse)
  obtain b d2 where s: "dedup_seen now now' k d = (b, d2)" by (metis prod.collapse)
  have "k \<noteq> key" using Cons.prems(2) c by auto
  then have "key \<notin> dd_cur d2 \<union> dd_prev d2" using seen_fields [OF s] Cons.prems(1) by (auto simp: dedup_rotate_def split: if_splits)
  then show ?case using Cons s c by (auto split: prod.splits)
qed simp

lemma dedup_run_append:
  "dedup_run (as @ bs) d = (case dedup_run as d of (r, d1) \<Rightarrow> case dedup_run bs d1 of (r', d2) \<Rightarrow> (r @ r', d2))"
  by (induction as arbitrary: d) (auto split: prod.splits)

lemma dedup_run_length: "dedup_run cs d = (bs, d1) \<Longrightarrow> length bs = length cs"
  by (induction cs arbitrary: d bs) (auto split: prod.splits)

lemma run_clock:
  "clock_ok t cs \<Longrightarrow> dd_lastSwap d \<le> t \<Longrightarrow> 0 \<le> dd_lastSwap d \<Longrightarrow> dedup_run cs d = (bs, d1) \<Longrightarrow>
   \<exists>t'. dd_lastSwap d1 \<le> t' \<and> 0 \<le> dd_lastSwap d1 \<and> dd_window d1 = dd_window d \<and> t \<le> t' \<and>
     (\<forall>more. clock_ok t (cs @ more) \<longrightarrow> clock_ok t' more)"
proof (induction cs arbitrary: t d bs)
  case Nil then show ?case by auto
next
  case (Cons c cs)
  obtain now now' k where c: "c = (now, now', k)" by (metis prod.collapse)
  obtain b d2 bs2 where s: "dedup_seen now now' k d = (b, d2)" and r: "dedup_run cs d2 = (bs2, d1)"
    using Cons.prems(4) c by (auto split: prod.splits)
  have clk: "t \<le> now" "now \<le> now'" "clock_ok now' cs" using Cons.prems(1) c by auto
  have "dd_lastSwap d \<le> now" "0 \<le> now'" using clk Cons.prems by linarith+
  then have "dd_lastSwap d2 \<le> now'" "0 \<le> dd_lastSwap d2" "dd_window d2 = dd_window d"
    using seen_fields [OF s] rotate_clock(1) [of d now now'] rotate_clock(2) [of d now' now] clk Cons.prems(3) by auto
  from Cons.IH [OF clk(3) this(1,2) r] this(3) show ?case using clk(1,2) c by fastforce
qed

lemma clock_ok_mono: "clock_ok t cs \<Longrightarrow> (now, now', k) \<in> set cs \<Longrightarrow> t \<le> now"
  by (induction t cs rule: clock_ok.induct) auto

lemma clock_ok_last: "clock_ok t (cs @ [(z, z', k)]) \<Longrightarrow> (now, now', k') \<in> set cs \<Longrightarrow> now \<le> z"
proof (induction cs arbitrary: t)
  case (Cons c cs)
  then show ?case using clock_ok_mono by (cases c) fastforce
qed simp

text \<open>
  An event is handled once.  In a run of calls on a fresh deduper, whatever the other keys are: the
  first call with a key reports it as new, so no event is dropped unseen; and a call less than a window
  after another call with the same key reports a duplicate.
\<close>

theorem dedup_handles_once:
  assumes run: "dedup_run (as @ (t1, t1', key) # bs @ [(t2, t2', key)]) (newFirehoseDeduper window start) = (rs, d)"
    and clock: "clock_ok start (as @ (t1, t1', key) # bs @ [(t2, t2', key)])" "0 \<le> start"
  shows "((\<forall>c\<in>set as. snd (snd c) \<noteq> key) \<longrightarrow> \<not> rs ! length as) \<and>
    (t2 - t1 < window \<longrightarrow> rs ! (length as + 1 + length bs))"
proof -
  let ?d0 = "newFirehoseDeduper window start" and ?cs = "bs @ [(t2, t2', key)]"
  obtain ra da where ra: "dedup_run as ?d0 = (ra, da)" by (metis prod.collapse)
  obtain b d1 where s: "dedup_seen t1 t1' key da = (b, d1)" by (metis prod.collapse)
  obtain rb db where rb: "dedup_run ?cs d1 = (rb, db)" by (metis prod.collapse)
  have rs: "rs = ra @ b # rb" using run ra s rb by (simp add: dedup_run_append)
  have la: "length ra = length as" by (rule dedup_run_length [OF ra])
  have new: "\<not> b" if "\<forall>c\<in>set as. snd (snd c) \<noteq> key"
    using run_unknown [OF _ that ra] seen_result [OF s]
    by (auto simp: newFirehoseDeduper_def remembered_def dedup_rotate_def split: if_splits)
  have "clock_ok start as" using clock(1) by (induction as arbitrary: start) auto
  moreover have "dd_lastSwap ?d0 = start" "dd_window ?d0 = window" by (simp_all add: newFirehoseDeduper_def)
  ultimately obtain t' where t': "dd_lastSwap da \<le> t'" "0 \<le> dd_lastSwap da" "dd_window da = window"
      "clock_ok t' ((t1, t1', key) # ?cs)"
    using run_clock [OF _ _ _ ra, of start] clock by auto
  have clk: "t' \<le> t1" "t1 \<le> t1'" "clock_ok t1' ?cs" using t'(4) by auto
  have d1: "key \<in> dd_cur d1" "dd_window d1 = window" "dd_lastSwap d1 \<le> t1'" "0 \<le> dd_lastSwap d1"
    using seen_fields [OF s] t'(1-3) rotate_clock(1) [of da t1 t1'] rotate_clock(2) [of da t1' t1] clk by auto
  have "rb ! length bs" if "t2 - t1 < window"
  proof -
    have "\<forall>(now, now', k) \<in> set ?cs. now - t1 < dd_window d1"
      using clock_ok_last [OF clk(3)] that d1(2) by (fastforce split: prod.splits)
    then have "\<forall>i < length ?cs. snd (snd (?cs ! i)) = key \<longrightarrow> fst (dedup_run ?cs d1) ! i"
      using d1 clk t'(1,2) by (intro run_keeps [OF clk(3), of key t1 d1]) (auto simp: safe_until_def)
    from this [rule_format, of "length bs"] show ?thesis using rb by simp
  qed
  then show ?thesis using new la by (simp add: rs nth_append)
qed

theorem dedup_handles_once_witness:
  "\<exists>rs d. dedup_run [(1, 1, ''k''), (2, 2, ''x''), (3, 3, ''k'')] (newFirehoseDeduper 5 0) = (rs, d) \<and> \<not> rs ! 0 \<and> rs ! 2"
proof -
  obtain rs d where run: "dedup_run ([] @ (1, 1, ''k'') # [(2, 2, ''x'')] @ [(3, 3, ''k'')]) (newFirehoseDeduper 5 0) = (rs, d)"
    by (metis prod.collapse)
  have "clock_ok 0 ([] @ (1, 1, ''k'') # [(2, 2, ''x'')] @ [(3, 3, ''k'')])" by simp
  from dedup_handles_once [OF run this] run show ?thesis by (simp add: numeral_2_eq_2)
qed

text \<open>A quiet deduper rotates only when it is called, so a key can outlive two windows: with no call in
  between, a key is still a duplicate a hundred windows later.\<close>

lemma dedup_quiet_key_outlives_two_windows:
  "dedup_run [(1, 1, ''k''), (500, 500, ''k'')] (newFirehoseDeduper 5 0) = ([False, True],
     \<lparr>dd_cur = {''k''}, dd_prev = {''k''}, dd_window = 5, dd_lastSwap = 500\<rparr>)"
  by (simp add: dedup_seen_def dedup_rotate_def newFirehoseDeduper_def sat64_def Let_def)

section \<open>Reconnecting\<close>

text \<open>
  However long its connections last, a relay is redialled after at least a second and at most
  thirty, and a connection that lasted more than a minute is redialled after one second.
\<close>

theorem relay_backoff_bounds:
  assumes "minBackoff \<le> b" "b \<le> maxBackoff" "i < length lasts"
  shows "minBackoff \<le> relay_waits b lasts ! i \<and> relay_waits b lasts ! i \<le> maxBackoff \<and>
    (lasts ! i > minute \<longrightarrow> relay_waits b lasts ! i = minBackoff)"
  using assms
proof (induction lasts arbitrary: b i)
  case (Cons l ls)
  obtain w b1 where r: "relay_backoff l b = (w, b1)" by (metis prod.collapse)
  have "minBackoff \<le> w \<and> w \<le> maxBackoff \<and> minBackoff \<le> b1 \<and> b1 \<le> maxBackoff \<and> (l > minute \<longrightarrow> w = minBackoff)"
    using r Cons.prems(1,2) by (auto simp: relay_backoff_def Let_def minBackoff_def maxBackoff_def duration_defs split: if_splits)
  then show ?case using Cons r by (cases i) auto
qed simp

theorem relay_backoff_bounds_witness:
  "relay_waits minBackoff [0, 0, 2 * minute] ! 2 = minBackoff"
proof -
  have "minBackoff \<le> minBackoff" "minBackoff \<le> maxBackoff" "2 < length [0, 0, 2 * minute]"
    by (simp_all add: minBackoff_def maxBackoff_def duration_defs)
  from relay_backoff_bounds [OF this] show ?thesis by (simp add: duration_defs)
qed

end
