(* ===== verification/CommitOps.thy ===== *)
theory CommitOps
  imports Firehose
begin

text \<open>
  Applying a firehose commit or identity event (\<open>handleCommitEventOps\<close>, \<open>handleIndexedOps\<close>,
  \<open>handleTeleportDelete\<close>, \<open>reviveRepo\<close> and \<open>handleIdentityEventOps\<close> of \<open>atproto/firehose.go\<close>).

  The CAR reader and the path parser are libraries.  The record handlers and the statements on the other
  tables of the index are the interface \<open>op_deps\<close>: what the handler here decides is which of them it
  calls, in which order, what it does when one fails, and whether the commit may claim its revision.
\<close>

section \<open>Filtering\<close>

definition indexedCollection :: "string \<Rightarrow> bool" where
  "indexedCollection collection \<longleftrightarrow>
     CollectionFilter = [] \<or> collection \<in> set CollectionFilter \<or> prefix ''place.stream.'' collection"

record repo_op =
  op_Action :: string
  op_Path :: string
  op_Cid :: string

record commit_msg =
  cm_Commit :: commit_event
  cm_TooBig :: bool
  cm_Time :: string
  cm_Blocks :: bytes
  cm_Ops :: "repo_op list"

type_synonym path_parser = "string \<Rightarrow> go_error + string \<times> string"

fun has_indexed_ops :: "path_parser \<Rightarrow> repo_op list \<Rightarrow> bool" where
  "has_indexed_ops parse [] = False"
| "has_indexed_ops parse (op # ops) =
     (case parse (op_Path op) of
        Inl e \<Rightarrow> True
      | Inr (collection, rkey) \<Rightarrow> if indexedCollection collection then True else has_indexed_ops parse ops)"

definition commitHasIndexedOps :: "path_parser \<Rightarrow> commit_msg \<Rightarrow> bool" where
  "commitHasIndexedOps parse evt = has_indexed_ops parse (cm_Ops evt)"

section \<open>What a commit may call\<close>

text \<open>The statements a deleted record leads to, and the messages on the bus.\<close>

datatype store_call =
    DeleteServerSettings string string | DeleteFollow string string | DeleteBlock string | RevokeSigningKey string time
  | DeleteVerification string | DeleteChatAccessRule string | DeleteChatMessage string time
  | DeleteModerationDelegation string string | DeleteGate string | DeletePinnedRecord string
  | DeleteBadgeDef string | DeleteBadgeIssuance string | DeleteVideo string | DeleteMediaTrack string
  | DeleteMediaOrigin string | DeleteBetaInvite string | DeleteBetaRequest string | DeleteMediaViewCount string
  | DeleteVodComment string time | DeleteLike string | DeleteVodGate string | DeleteTeleport string

datatype bus_message =
    KeyRevoked string | ChatDeleted string | DelegationDeleted string string string string | PinDeleted string
  | TeleportCanceled string string

record chat_message =
  ch_Streamer :: string
  ch_View :: "go_error + string"

record teleport =
  tp_CID :: string
  tp_RepoDID :: string
  tp_TargetDID :: string

record 'x op_deps =
  od_Sync :: "'x sync_deps"
  od_ParsePath :: path_parser
  od_ParseTime :: "string \<Rightarrow> go_error + time"
  od_ReadCar :: "bytes \<Rightarrow> go_error + (string \<Rightarrow> go_error + string \<times> bytes)"
  od_CreateUpdate :: "string \<Rightarrow> string \<Rightarrow> bytes \<Rightarrow> string \<Rightarrow> string \<Rightarrow> bool \<Rightarrow> string \<Rightarrow> 'x sync_world \<Rightarrow> go_error option \<times> 'x sync_world"
  od_Exec :: "store_call \<Rightarrow> 'x sync_world \<Rightarrow> go_error option \<times> 'x sync_world"
  od_SigningKey :: "string \<Rightarrow> 'x sync_world \<Rightarrow> (go_error + string option) \<times> 'x sync_world"
  od_ChatMessage :: "string \<Rightarrow> 'x sync_world \<Rightarrow> (go_error + chat_message option) \<times> 'x sync_world"
  od_Teleport :: "string \<Rightarrow> 'x sync_world \<Rightarrow> (go_error + teleport option) \<times> 'x sync_world"
  od_NoteChatAccess :: "string \<Rightarrow> 'x sync_world \<Rightarrow> 'x sync_world"
  od_Publish :: "string \<Rightarrow> bus_message \<Rightarrow> 'x sync_world \<Rightarrow> 'x sync_world"

section \<open>One operation\<close>

text \<open>A statement whose failure is only logged.\<close>

definition exec_logged :: "'x op_deps \<Rightarrow> store_call \<Rightarrow> 'x sync_world \<Rightarrow> 'x sync_world" where
  "exec_logged D c w = snd (od_Exec D c w)"

definition handleTeleportDelete :: "'x op_deps \<Rightarrow> string \<Rightarrow> 'x sync_world \<Rightarrow> 'x sync_world" where
  "handleTeleportDelete D uri w =
     (case od_Teleport D uri w of
        (t, w1) \<Rightarrow>
          (let teleport = (case t of Inl e \<Rightarrow> None | Inr t \<Rightarrow> t) in
           case od_Exec D (DeleteTeleport uri) w1 of
             (Some e, w2) \<Rightarrow> w2
           | (None, w2) \<Rightarrow>
               (case teleport of
                  None \<Rightarrow> w2
                | Some tp \<Rightarrow>
                    od_Publish D (tp_TargetDID tp) (TeleportCanceled uri (tp_CID tp))
                      (od_Publish D (tp_RepoDID tp) (TeleportCanceled uri (tp_CID tp)) w2))))"

definition revoke_key :: "'x op_deps \<Rightarrow> string \<Rightarrow> string \<Rightarrow> time \<Rightarrow> 'x sync_world \<Rightarrow> 'x sync_world" where
  "revoke_key D repo rkey now w =
     (case od_SigningKey D rkey w of
        (Inl e, w1) \<Rightarrow> w1
      | (Inr None, w1) \<Rightarrow> w1
      | (Inr (Some key), w1) \<Rightarrow> od_Publish D repo (KeyRevoked key) (exec_logged D (RevokeSigningKey key now) w1))"

definition delete_chat :: "'x op_deps \<Rightarrow> string \<Rightarrow> time \<Rightarrow> 'x sync_world \<Rightarrow> 'x sync_world" where
  "delete_chat D uri opTime w =
     (case od_ChatMessage D uri w of
        (Inl e, w1) \<Rightarrow> w1
      | (Inr None, w1) \<Rightarrow> w1
      | (Inr (Some msg), w1) \<Rightarrow>
          (case od_Exec D (DeleteChatMessage uri opTime) w1 of
             (Some e, w2) \<Rightarrow> w2
           | (None, w2) \<Rightarrow>
               (case ch_View msg of
                  Inl e \<Rightarrow> w2
                | Inr view \<Rightarrow> od_Publish D (ch_Streamer msg) (ChatDeleted view) w2)))"

text \<open>The deletes that are one statement and nothing else.\<close>

definition plain_delete :: "string \<Rightarrow> string \<Rightarrow> string \<Rightarrow> string \<Rightarrow> time \<Rightarrow> store_call option" where
  "plain_delete collection repo rkey uri opTime =
     (if collection = ''app.bsky.graph.verification'' then Some (DeleteVerification uri)
      else if collection = ''place.stream.chat.gate'' then Some (DeleteGate rkey)
      else if collection = ''place.stream.badge.def'' then Some (DeleteBadgeDef uri)
      else if collection = ''place.stream.badge.issuance'' then Some (DeleteBadgeIssuance uri)
      else if collection = ''place.stream.video'' then Some (DeleteVideo uri)
      else if collection = ''place.stream.media.track'' then Some (DeleteMediaTrack uri)
      else if collection = ''place.stream.media.origin'' then Some (DeleteMediaOrigin uri)
      else if collection = ''place.stream.beta.invite'' then Some (DeleteBetaInvite uri)
      else if collection = ''place.stream.beta.request'' then Some (DeleteBetaRequest uri)
      else if collection = ''place.stream.media.viewCount'' then Some (DeleteMediaViewCount uri)
      else if collection = ''place.stream.vod.comment'' then Some (DeleteVodComment uri opTime)
      else if collection = ''place.stream.like'' then Some (DeleteLike uri)
      else if collection = ''place.stream.vod.gate'' then Some (DeleteVodGate rkey)
      else None)"

text \<open>A deleted record; the flag says whether the operation counts as complete.\<close>

definition delete_record ::
  "'x op_deps \<Rightarrow> string \<Rightarrow> string \<Rightarrow> Repo option \<Rightarrow> string \<Rightarrow> string \<Rightarrow> string \<Rightarrow> time \<Rightarrow> 'x sync_world \<Rightarrow> bool \<times> 'x sync_world" where
  "delete_record D repo rv r collection rkey uri opTime w =
     (if collection = ''place.stream.server.settings'' then
        (case od_Exec D (DeleteServerSettings rkey repo) w of (e, w1) \<Rightarrow> (e = None, w1))
      else if collection = ''app.bsky.graph.follow'' then
        (True, if r = None then w else exec_logged D (DeleteFollow repo rkey) w)
      else if collection = ''app.bsky.graph.block'' then
        (True, if r = None then w else exec_logged D (DeleteBlock rkey) w)
      else if collection = ''place.stream.key'' then (True, revoke_key D repo rkey (sd_Now (od_Sync D) w) w)
      else if collection = ''place.stream.chat.access'' then
        (True, od_NoteChatAccess D repo (exec_logged D (DeleteChatAccessRule uri) w))
      else if collection = ''place.stream.chat.message'' then (True, delete_chat D uri opTime w)
      else if collection = ''place.stream.live.teleport'' then (True, handleTeleportDelete D uri w)
      else if collection = ''place.stream.moderation.permission'' then
        (True, case od_Exec D (DeleteModerationDelegation repo rkey) w of
           (Some e, w1) \<Rightarrow> w1
         | (None, w1) \<Rightarrow> od_Publish D repo (DelegationDeleted uri rkey repo rv) w1)
      else if collection = ''place.stream.chat.pinnedRecord'' then
        (True, od_Publish D repo (PinDeleted rkey) (exec_logged D (DeletePinnedRecord rkey) w))
      else (True, case plain_delete collection repo rkey uri opTime of None \<Rightarrow> w | Some c \<Rightarrow> exec_logged D c w))"

definition write_record ::
  "'x op_deps \<Rightarrow> (string \<Rightarrow> go_error + string \<times> bytes) \<Rightarrow> string \<Rightarrow> string \<Rightarrow> repo_op \<Rightarrow> string \<Rightarrow> string \<Rightarrow> 'x sync_world \<Rightarrow> 'x sync_world" where
  "write_record D rr repo rv op collection rkey w =
     (case rr (op_Path op) of
        Inl e \<Rightarrow> w
      | Inr (rc, recCBOR) \<Rightarrow>
          if op_Cid op = [] \<or> rc \<noteq> op_Cid op then w
          else snd (od_CreateUpdate D repo rkey recCBOR (op_Cid op) collection (op_Action op = ''update'') rv w))"

definition reviveRepo :: "Repo option \<Rightarrow> 'x sync_world \<Rightarrow> 'x sync_world" where
  "reviveRepo r w = (if \<not> TerminalStatus r then w else snd (with_db (SetRepoStatus (repo_DID (the r)) RepoStatusOK) w))"

text \<open>One operation of a parsed path in an indexed collection.\<close>

definition indexed_op ::
  "'x op_deps \<Rightarrow> (string \<Rightarrow> go_error + string \<times> bytes) \<Rightarrow> commit_msg \<Rightarrow> repo_op \<Rightarrow> string \<Rightarrow> string \<Rightarrow> 'x sync_world \<Rightarrow> bool \<times> 'x sync_world" where
  "indexed_op D rr evt op collection rkey w =
     (let repo = ev_Repo (cm_Commit evt); rv = ev_Rev (cm_Commit evt);
          uri = ''at://'' @ repo @ ''/'' @ op_Path op in
      case od_ParseTime D (cm_Time evt) of
        Inl e \<Rightarrow> (True, w)
      | Inr opTime \<Rightarrow>
          (case with_db (GetRepo repo) w of
             (Inl e, w1) \<Rightarrow> (True, w1)
           | (Inr r, w1) \<Rightarrow>
               (let w2 = reviveRepo r w1 in
                if op_Action op = ''create'' \<or> op_Action op = ''update'' then (True, write_record D rr repo rv op collection rkey w2)
                else if op_Action op = ''delete'' then delete_record D repo rv r collection rkey uri opTime w2
                else (True, w2))))"

fun indexed_ops ::
  "'x op_deps \<Rightarrow> (string \<Rightarrow> go_error + string \<times> bytes) \<Rightarrow> commit_msg \<Rightarrow> repo_op list \<Rightarrow> bool \<Rightarrow> 'x sync_world \<Rightarrow> bool \<times> 'x sync_world" where
  "indexed_ops D rr evt [] complete w = (complete, w)"
| "indexed_ops D rr evt (op # ops) complete w =
     (case od_ParsePath D (op_Path op) of
        Inl e \<Rightarrow> (False, w)
      | Inr (collection, rkey) \<Rightarrow>
          if \<not> indexedCollection collection then indexed_ops D rr evt ops complete w
          else case indexed_op D rr evt op collection rkey w of
            (b, w1) \<Rightarrow> indexed_ops D rr evt ops (complete \<and> b) w1)"

definition handleIndexedOps :: "'x op_deps \<Rightarrow> commit_msg \<Rightarrow> 'x sync_world \<Rightarrow> bool \<times> 'x sync_world" where
  "handleIndexedOps D evt w =
     (case od_ReadCar D (cm_Blocks evt) of
        Inl e \<Rightarrow> (False, w)
      | Inr rr \<Rightarrow> indexed_ops D rr evt (cm_Ops evt) True w)"

section \<open>Events\<close>

definition track_world :: "commit_event \<Rightarrow> 'x sync_world \<Rightarrow> 'x sync_world" where
  "track_world evt w = w\<lparr>sw_DB := trackCommitRev (sw_Flight w) evt (sw_DB w)\<rparr>"

definition handleCommitEventOps :: "'x op_deps \<Rightarrow> commit_msg \<Rightarrow> 'x sync_world \<Rightarrow> 'x sync_world" where
  "handleCommitEventOps D evt w =
     (if cm_TooBig evt then w
      else if commitHasIndexedOps (od_ParsePath D) evt then
        (case handleIndexedOps D evt w of
           (False, w1) \<Rightarrow> w1
         | (True, w1) \<Rightarrow> track_world (cm_Commit evt) w1)
      else track_world (cm_Commit evt) w)"

definition handleIdentityEventOps :: "'x op_deps \<Rightarrow> string \<Rightarrow> 'x sync_world \<Rightarrow> 'x sync_world" where
  "handleIdentityEventOps D did w =
     (case with_db (GetRepo did) w of
        (Inl e, w1) \<Rightarrow> w1
      | (Inr None, w1) \<Rightarrow> w1
      | (Inr (Some r), w1) \<Rightarrow> snd (RefreshIdentity (od_Sync D) did w1))"

section \<open>What a commit does\<close>

lemma unindexed_ops_skip: "\<not> has_indexed_ops (od_ParsePath D) ops \<Longrightarrow> indexed_ops D rr evt ops complete w = (complete, w)"
  by (induction ops) (auto split: sum.splits if_splits)

text \<open>The statement that counts.\<close>

definition settings_deletes_work :: "'x op_deps \<Rightarrow> bool" where
  "settings_deletes_work D \<longleftrightarrow> (\<forall>rkey repo w. fst (od_Exec D (DeleteServerSettings rkey repo) w) = None)"

lemma delete_record_complete: "settings_deletes_work D \<Longrightarrow> fst (delete_record D repo rv r collection rkey uri opTime w)"
  unfolding delete_record_def settings_deletes_work_def
  by (cases "collection = ''place.stream.server.settings''") (simp_all add: case_prod_beta split del: if_split, simp)

lemma indexed_op_complete: "settings_deletes_work D \<Longrightarrow> fst (indexed_op D rr evt op collection rkey w)"
  by (auto simp: indexed_op_def delete_record_complete Let_def split: sum.split prod.split)

lemma indexed_ops_complete:
  assumes "settings_deletes_work D"
  shows "fst (indexed_ops D rr evt ops complete w) \<longleftrightarrow> complete \<and> (\<forall>op\<in>set ops. \<exists>x. od_ParsePath D (op_Path op) = Inr x)"
proof (induction ops arbitrary: complete w)
  case (Cons op ops)
  show ?case
  proof (cases "od_ParsePath D (op_Path op)")
    case (Inr x)
    obtain c k where x: "x = (c, k)" by (metis prod.collapse)
    obtain b w1 where i: "indexed_op D rr evt op c k w = (b, w1)" by (metis prod.collapse)
    have "b" using indexed_op_complete [OF assms, of rr evt op c k w] i by simp
    then show ?thesis using Inr x i Cons.IH [of complete w] Cons.IH [of complete w1] by simp
  qed simp
qed simp

text \<open>
  Which commits claim their revision.  A commit that is too big changes nothing.  A commit that
  touches no indexed collection only advances the revision chain, and reading its blocks would have
  changed nothing more, so skipping them is safe.  Otherwise the commit claims its revision after its
  operations exactly when its blocks can be read and all of its paths parse, as long as no deletion of
  server settings fails; when it does not, the row is left for the next commit to find the gap.
\<close>

theorem commit_claims_revision:
  assumes "settings_deletes_work D"
  shows "handleCommitEventOps D evt w =
    (if cm_TooBig evt then w
     else if \<not> commitHasIndexedOps (od_ParsePath D) evt then track_world (cm_Commit evt) w
     else if (\<exists>rr. od_ReadCar D (cm_Blocks evt) = Inr rr) \<and> (\<forall>op\<in>set (cm_Ops evt). \<exists>x. od_ParsePath D (op_Path op) = Inr x)
     then track_world (cm_Commit evt) (snd (handleIndexedOps D evt w))
     else snd (handleIndexedOps D evt w)) \<and>
    (\<not> commitHasIndexedOps (od_ParsePath D) evt \<and> od_ReadCar D (cm_Blocks evt) = Inr rr \<longrightarrow> handleIndexedOps D evt w = (True, w))"
proof -
  have flag: "fst (handleIndexedOps D evt w) \<longleftrightarrow>
      (\<exists>rr. od_ReadCar D (cm_Blocks evt) = Inr rr) \<and> (\<forall>op\<in>set (cm_Ops evt). \<exists>x. od_ParsePath D (op_Path op) = Inr x)"
    using indexed_ops_complete [OF assms] by (auto simp: handleIndexedOps_def split: sum.split)
  have skip: "od_ReadCar D (cm_Blocks evt) = Inr rr \<Longrightarrow> \<not> commitHasIndexedOps (od_ParsePath D) evt \<Longrightarrow>
      handleIndexedOps D evt w = (True, w)"
    by (simp add: handleIndexedOps_def commitHasIndexedOps_def unindexed_ops_skip)
  obtain c w1 where h: "handleIndexedOps D evt w = (c, w1)" by (metis prod.collapse)
  show ?thesis using flag skip h by (cases c) (auto simp: handleCommitEventOps_def)
qed

definition ex_ops :: "unit op_deps" where
  "ex_ops = \<lparr>od_Sync = ex_sync, od_ParsePath = \<lambda>p. Inr (takeWhile (\<lambda>c. c \<noteq> CHR ''/'') p, ''k''), od_ParseTime = \<lambda>t. Inr 0,
     od_ReadCar = \<lambda>b. Inr (\<lambda>p. Inr (''cid'', ''record'')), od_CreateUpdate = \<lambda>r k b c coll up rv w. (Some ioEOF, w),
     od_Exec = \<lambda>c w. (None, w), od_SigningKey = \<lambda>k w. (Inr None, w), od_ChatMessage = \<lambda>u w. (Inr None, w),
     od_Teleport = \<lambda>u w. (Inr None, w), od_NoteChatAccess = \<lambda>r w. w, od_Publish = \<lambda>u m w. w\<rparr>"

definition ex_msg :: commit_msg where
  "ex_msg = \<lparr>cm_Commit = \<lparr>ev_Repo = ''did:plc:a'', ev_Since = Some ''3k1'', ev_Rev = ''3k2''\<rparr>, cm_TooBig = False, cm_Time = [],
     cm_Blocks = [], cm_Ops = [\<lparr>op_Action = ''create'', op_Path = ''place.stream.like/k'', op_Cid = ''cid''\<rparr>]\<rparr>"

lemma ex_msg_run: "handleIndexedOps ex_ops ex_msg (ex_world ''3k1'') = (True, ex_world ''3k1'')"
  by (simp add: handleIndexedOps_def indexed_op_def write_record_def reviveRepo_def ex_ops_def ex_msg_def indexedCollection_def
      with_db_def GetRepo_def stmt_def row_of_def ex_world_def ex_db_def ex_row_def TerminalStatus_def RepoStatusOK_def Let_def)

lemma ex_msg_track: "map_option repo_Version (row (sw_DB (track_world (cm_Commit ex_msg) (ex_world ''3k1''))) ''did:plc:a'') = Some ''3k2''"
  by (simp add: track_world_def trackCommitRev_def revCASAttempts_def numeral_3_eq_3 ex_msg_def AdvanceRepoVersion_def ev_since_def
      applied_def update_where_def stmt_def row_of_def ex_world_def ex_db_def ex_row_def)

theorem commit_claims_revision_witness:
  "map_option repo_Version (row (sw_DB (handleCommitEventOps ex_ops ex_msg (ex_world ''3k1''))) ''did:plc:a'') = Some ''3k2''"
proof -
  have "settings_deletes_work ex_ops" by (simp add: settings_deletes_work_def ex_ops_def)
  moreover have "commitHasIndexedOps (od_ParsePath ex_ops) ex_msg" "\<not> cm_TooBig ex_msg"
    "\<exists>rr. od_ReadCar ex_ops (cm_Blocks ex_msg) = Inr rr" "\<forall>op\<in>set (cm_Ops ex_msg). \<exists>x. od_ParsePath ex_ops (op_Path op) = Inr x"
    by (simp_all add: commitHasIndexedOps_def ex_ops_def ex_msg_def indexedCollection_def)
  ultimately have "handleCommitEventOps ex_ops ex_msg (ex_world ''3k1'') =
      track_world (cm_Commit ex_msg) (snd (handleIndexedOps ex_ops ex_msg (ex_world ''3k1'')))"
    using commit_claims_revision [of ex_ops ex_msg "ex_world ''3k1''"] by simp
  then show ?thesis using ex_msg_run ex_msg_track by simp
qed

text \<open>In that run the handler of the one record of the commit failed, and the revision was claimed all the
  same: the next commit will not find a gap to repair.\<close>

lemma failed_record_still_claims:
  "fst (od_CreateUpdate ex_ops ''did:plc:a'' ''k'' ''record'' ''cid'' ''place.stream.like'' False ''3k2'' (ex_world ''3k1'')) \<noteq> None \<and>
   map_option repo_Version (row (sw_DB (track_world (cm_Commit ex_msg) (snd (handleIndexedOps ex_ops ex_msg (ex_world ''3k1''))))) ''did:plc:a'')
     = Some ''3k2''"
  using ex_msg_run ex_msg_track by (simp add: ex_ops_def)

end
