(* ===== verification/PublishLane.thy ===== *)
theory PublishLane
  imports Prelude
begin

text \<open>
  Publication in order (\<open>director/lane.go\<close>): a lane hands out tickets as segments arrive and lets each
  segment publish in ticket order, whatever order their work finishes in.

  The lane is a transition system whose steps are the critical sections of the source.  A goroutine that
  holds a ticket is before its \<open>wait\<close>, parked in it, or has its answer; the channel of a parked ticket is
  closed exactly when the ticket is no longer among the waiters.  Tickets are uint64 in the source: a
  counter of segments that is far from wrapping, a natural number here.
\<close>

section \<open>The lane\<close>

record lane =
  ln_next :: nat
  ln_head :: nat
  ln_done :: "nat set"
  ln_waiters :: "nat set"

definition newLane :: lane where
  "newLane = \<lparr>ln_next = 0, ln_head = 0, ln_done = {}, ln_waiters = {}\<rparr>"

definition lane_turn :: "lane \<Rightarrow> nat \<times> lane" where
  "lane_turn l = (ln_next l, l\<lparr>ln_next := ln_next l + 1\<rparr>)"

text \<open>The first critical section of \<open>wait\<close>: an answer, or \<open>None\<close> when the caller has to park.\<close>

definition wait_enter :: "nat \<Rightarrow> lane \<Rightarrow> bool option \<times> lane" where
  "wait_enter ticket l =
     (if ln_head l > ticket then (Some False, l)
      else if ln_head l = ticket then (Some True, l)
      else (None, l\<lparr>ln_waiters := insert ticket (ln_waiters l)\<rparr>))"

text \<open>The three ways out of the select: woken, the context ended, patience ran out.\<close>

definition wait_woken :: "nat \<Rightarrow> lane \<Rightarrow> bool" where
  "wait_woken ticket l = (ln_head l = ticket)"

definition wait_expire :: "nat \<Rightarrow> lane \<Rightarrow> bool \<times> lane" where
  "wait_expire ticket l =
     (if ln_head l < ticket then
        let gone = {ln_head l..<ticket} in
        (True, l\<lparr>ln_done := ln_done l - gone, ln_waiters := ln_waiters l - gone - {ticket}, ln_head := ticket\<rparr>)
      else (ln_head l = ticket, l))"

text \<open>The loop of \<open>release\<close>.  A map of the source is finite.\<close>

function lane_advance :: "nat \<Rightarrow> nat set \<Rightarrow> nat \<times> nat set" where
  "lane_advance h D = (if finite D \<and> h \<in> D then lane_advance (h + 1) (D - {h}) else (h, D))"
  by auto
termination by (relation "measure (\<lambda>(h, D). card D)") (auto simp del: card_Diff_insert intro: card_Diff1_less)

declare lane_advance.simps [simp del]

definition lane_release :: "nat \<Rightarrow> lane \<Rightarrow> lane" where
  "lane_release ticket l =
     (if ticket < ln_head l then l
      else case lane_advance (ln_head l) (insert ticket (ln_done l)) of
        (h, D) \<Rightarrow> l\<lparr>ln_head := h, ln_done := D, ln_waiters := ln_waiters l - {h}\<rparr>)"

section \<open>Segments on a lane\<close>

text \<open>The place of each ticket's goroutine, the tickets released (\<open>once\<close> makes a second release nothing), and
  the tickets whose \<open>wait\<close> said to publish, oldest first.\<close>

datatype place = Claimed | Parked | Answered bool

record lane_run =
  lr_lane :: lane
  lr_place :: "nat \<rightharpoonup> place"
  lr_released :: "nat set"
  lr_published :: "nat list"

definition answer :: "nat \<Rightarrow> bool \<Rightarrow> lane \<Rightarrow> lane_run \<Rightarrow> lane_run" where
  "answer t b l s = s\<lparr>lr_lane := l, lr_place := (lr_place s)(t \<mapsto> Answered b),
     lr_published := (if b then lr_published s @ [t] else lr_published s)\<rparr>"

inductive lane_step :: "lane_run \<Rightarrow> lane_run \<Rightarrow> bool" where
  lane_claim: "lane_turn (lr_lane s) = (t, l) \<Longrightarrow>
     lane_step s (s\<lparr>lr_lane := l, lr_place := (lr_place s)(t \<mapsto> Claimed)\<rparr>)"
| lane_enter: "lr_place s t = Some Claimed \<Longrightarrow> t \<notin> lr_released s \<Longrightarrow> wait_enter t (lr_lane s) = (Some b, l) \<Longrightarrow>
     lane_step s (answer t b l s)"
| lane_park: "lr_place s t = Some Claimed \<Longrightarrow> t \<notin> lr_released s \<Longrightarrow> wait_enter t (lr_lane s) = (None, l) \<Longrightarrow>
     lane_step s (s\<lparr>lr_lane := l, lr_place := (lr_place s)(t \<mapsto> Parked)\<rparr>)"
| lane_woken: "lr_place s t = Some Parked \<Longrightarrow> t \<notin> ln_waiters (lr_lane s) \<Longrightarrow>
     lane_step s (answer t (wait_woken t (lr_lane s)) (lr_lane s) s)"
| lane_cancelled: "lr_place s t = Some Parked \<Longrightarrow> lane_step s (answer t False (lr_lane s) s)"
| lane_expired: "lr_place s t = Some Parked \<Longrightarrow> wait_expire t (lr_lane s) = (b, l) \<Longrightarrow> lane_step s (answer t b l s)"
| lane_released: "lr_place s t = Some p \<Longrightarrow> p \<noteq> Parked \<Longrightarrow> t \<notin> lr_released s \<Longrightarrow>
     lane_step s (s\<lparr>lr_lane := lane_release t (lr_lane s), lr_released := insert t (lr_released s)\<rparr>)"

definition lane_start :: lane_run where
  "lane_start = \<lparr>lr_lane = newLane, lr_place = Map.empty, lr_released = {}, lr_published = []\<rparr>"

section \<open>The invariant\<close>

lemma lane_advance_spec:
  "finite D \<Longrightarrow> lane_advance h D = (h', D') \<Longrightarrow>
   h \<le> h' \<and> h' \<notin> D' \<and> D' = D - {h..<h'} \<and> {h..<h'} \<subseteq> D"
proof (induction h D rule: lane_advance.induct)
  case (1 h D)
  show ?case
  proof (cases "h \<in> D")
    case True
    then have "lane_advance (h + 1) (D - {h}) = (h', D')" using 1(2,3) by (subst (asm) lane_advance.simps) simp
    from 1(1) [OF _ _ this] 1(2) True have ih: "h + 1 \<le> h'" "h' \<notin> D'" "D' = D - {h} - {h + 1..<h'}" "{h + 1..<h'} \<subseteq> D - {h}"
      by auto
    have "{h..<h'} = insert h {h + 1..<h'}" using ih(1) by auto
    then show ?thesis using ih True by auto
  next
    case False
    then show ?thesis using 1(3) by (subst (asm) lane_advance.simps) auto
  qed
qed

definition lane_inv :: "lane_run \<Rightarrow> bool" where
  "lane_inv s \<longleftrightarrow>
     (let l = lr_lane s in
      finite (ln_done l) \<and> ln_head l \<le> ln_next l \<and>
      (\<forall>t\<in>ln_waiters l. lr_place s t = Some Parked \<longrightarrow> ln_head l < t) \<and> (\<forall>t\<in>ln_done l. ln_head l < t) \<and> ln_done l \<subseteq> lr_released s \<and>
      lr_released s - {..<ln_head l} \<subseteq> ln_done l \<and>
      (\<forall>t. lr_place s t \<noteq> None \<longleftrightarrow> t < ln_next l) \<and> (\<forall>t\<in>lr_released s. t < ln_next l \<and> lr_place s t \<noteq> Some Parked) \<and>
      ascending (lr_published s) \<and> (\<forall>t\<in>set (lr_published s). t \<le> ln_head l \<and> lr_place s t = Some (Answered True)))"

lemmas lane_defs = lane_inv_def answer_def Let_def

lemma published_append:
  "ascending xs \<Longrightarrow> \<forall>x\<in>set xs. x \<le> t \<Longrightarrow> t \<notin> set xs \<Longrightarrow> ascending (xs @ [t :: nat])"
  by (fastforce simp: sorted_wrt_append order_less_le)

lemma answer_inv:
  assumes "lane_inv s" "lr_place s t = Some p" "p \<noteq> Answered True" "t \<notin> lr_released s \<or> p = Parked"
    and b: "b \<longrightarrow> ln_head (lr_lane s) = t"
  shows "lane_inv (answer t b (lr_lane s) s)"
proof -
  have "t \<notin> set (lr_published s)" using assms(1-3) by (auto simp: lane_inv_def Let_def)
  moreover have "t < ln_next (lr_lane s)" using assms(1,2) by (auto simp: lane_inv_def Let_def)
  ultimately show ?thesis using assms published_append [of "lr_published s" t]
    by (cases b) (auto simp: lane_defs)
qed

lemma park_inv:
  assumes "lane_inv s" "lr_place s t = Some Claimed" "t \<notin> lr_released s" "ln_head (lr_lane s) < t"
  shows "lane_inv (s\<lparr>lr_lane := (lr_lane s)\<lparr>ln_waiters := insert t (ln_waiters (lr_lane s))\<rparr>, lr_place := (lr_place s)(t \<mapsto> Parked)\<rparr>)"
  using assms by (auto simp: lane_inv_def Let_def split: if_splits)

text \<open>Giving up on the tickets before \<open>t\<close> only moves the head.\<close>

lemma expire_inv:
  assumes inv: "lane_inv s" and p: "lr_place s t = Some Parked" and h: "ln_head (lr_lane s) < t"
    and l': "wait_expire t (lr_lane s) = (b, l')"
  shows "lane_inv (s\<lparr>lr_lane := l'\<rparr>)" "ln_head l' = t"
proof -
  have l: "ln_head l' = t" "ln_next l' = ln_next (lr_lane s)" "ln_done l' = ln_done (lr_lane s) - {ln_head (lr_lane s)..<t}"
      "ln_waiters l' = ln_waiters (lr_lane s) - {ln_head (lr_lane s)..<t} - {t}"
    using h l' by (auto simp: wait_expire_def Let_def)
  have t: "t < ln_next (lr_lane s)" "t \<notin> lr_released s" using inv p by (auto simp: lane_inv_def Let_def)
  then have "t \<notin> ln_done (lr_lane s)" using inv by (auto simp: lane_inv_def Let_def)
  then have "\<forall>x\<in>ln_done l'. t < x" using inv by (fastforce simp: l lane_inv_def Let_def)
  moreover have "\<forall>x\<in>ln_waiters l'. lr_place s x = Some Parked \<longrightarrow> t < x" using inv by (fastforce simp: l lane_inv_def Let_def)
  moreover have "lr_released s - {..<t} \<subseteq> ln_done l'" using inv h by (auto simp: l lane_inv_def Let_def)
  moreover have "\<forall>x\<in>set (lr_published s). x \<le> t" using inv h by (fastforce simp: lane_inv_def Let_def)
  ultimately show "lane_inv (s\<lparr>lr_lane := l'\<rparr>)" using inv t(1) by (auto simp: l lane_inv_def Let_def)
  show "ln_head l' = t" by (rule l)
qed

lemma release_inv:
  assumes inv: "lane_inv s" and p: "lr_place s t = Some p" "p \<noteq> Parked" "t \<notin> lr_released s"
  shows "lane_inv (s\<lparr>lr_lane := lane_release t (lr_lane s), lr_released := insert t (lr_released s)\<rparr>)"
proof (cases "t < ln_head (lr_lane s)")
  case True
  then show ?thesis using inv p by (auto simp: lane_inv_def Let_def lane_release_def)
next
  case False
  let ?l = "lr_lane s" and ?R = "insert t (lr_released s)"
  obtain h D where a: "lane_advance (ln_head ?l) (insert t (ln_done ?l)) = (h, D)" by (metis prod.collapse)
  have fin: "finite (insert t (ln_done ?l))" using inv by (simp add: lane_inv_def Let_def)
  have ad: "ln_head ?l \<le> h" "h \<notin> D" "D = insert t (ln_done ?l) - {ln_head ?l..<h}" "{ln_head ?l..<h} \<subseteq> insert t (ln_done ?l)"
    using lane_advance_spec [OF fin a] by auto
  have t: "t < ln_next ?l" using inv p(1) by (auto simp: lane_inv_def Let_def)
  have rel: "ln_done ?l \<subseteq> lr_released s" "\<forall>x\<in>lr_released s. x < ln_next ?l \<and> lr_place s x \<noteq> Some Parked"
      "lr_released s - {..<ln_head ?l} \<subseteq> ln_done ?l"
    using inv by (auto simp: lane_inv_def Let_def)
  have skipped: "x \<in> ?R" if "x \<in> {ln_head ?l..<h}" for x using that ad(4) rel(1) by blast
  have "h \<le> ln_next ?l"
  proof (cases "h = ln_head ?l")
    case True then show ?thesis using inv by (simp add: lane_inv_def Let_def)
  next
    case False
    then have "h - 1 \<in> ?R" using skipped [of "h - 1"] ad(1) by auto
    then have "h - 1 < ln_next ?l" using rel(2) t by blast
    then show ?thesis by linarith
  qed
  moreover have "\<forall>x\<in>D. h < x"
  proof
    fix x assume x: "x \<in> D"
    then have "x \<in> insert t (ln_done ?l)" "x \<notin> {ln_head ?l..<h}" "x \<noteq> h" using ad by auto
    then show "h < x" using False inv by (fastforce simp: lane_inv_def Let_def not_less)
  qed
  moreover have "\<forall>x\<in>ln_waiters ?l - {h}. lr_place s x = Some Parked \<longrightarrow> h < x"
  proof (intro ballI impI)
    fix x assume x: "x \<in> ln_waiters ?l - {h}" "lr_place s x = Some Parked"
    then have "ln_head ?l < x" "x \<notin> ?R" using inv p(1,2) rel(2) by (auto simp: lane_inv_def Let_def)
    then have "x \<notin> {ln_head ?l..<h}" using skipped by blast
    then show "h < x" using x(1) \<open>ln_head ?l < x\<close> by auto
  qed
  moreover have "?R - {..<h} \<subseteq> D" "D \<subseteq> ?R" "finite D" using ad rel fin by auto
  moreover have "\<forall>x\<in>set (lr_published s). x \<le> h" using inv ad(1) by (fastforce simp: lane_inv_def Let_def)
  ultimately show ?thesis using inv t False a p(1,2) by (auto simp: lane_inv_def Let_def lane_release_def)
qed

lemma lane_step_inv: "lane_step s s' \<Longrightarrow> lane_inv s \<Longrightarrow> lane_inv s'"
proof (induction rule: lane_step.induct)
  case (lane_claim s t l)
  have t: "t = ln_next (lr_lane s)" "l = (lr_lane s)\<lparr>ln_next := ln_next (lr_lane s) + 1\<rparr>" using lane_claim(1) by (auto simp: lane_turn_def)
  have "lr_place s t = None" using lane_claim(2) t(1) by (auto simp: lane_inv_def Let_def)
  then show ?case using lane_claim(2) t by (fastforce simp: lane_inv_def Let_def less_Suc_eq)
next
  case (lane_enter s t b l)
  then have "l = lr_lane s" "b \<longrightarrow> ln_head (lr_lane s) = t" by (auto simp: wait_enter_def split: if_splits)
  then show ?case using answer_inv [OF lane_enter(4,1)] lane_enter(2) by simp
next
  case (lane_park s t l)
  then show ?case using park_inv [OF lane_park(4,1,2)] by (auto simp: wait_enter_def split: if_splits)
next
  case (lane_woken s t)
  then show ?case using answer_inv [OF lane_woken(3,1)] by (simp add: wait_woken_def)
next
  case (lane_cancelled s t)
  then show ?case using answer_inv [OF lane_cancelled(2,1)] by simp
next
  case (lane_expired s t b l)
  show ?case
  proof (cases "ln_head (lr_lane s) < t")
    case True
    note e = expire_inv [OF lane_expired(3,1) True lane_expired(2)]
    have "lane_inv (answer t b (lr_lane (s\<lparr>lr_lane := l\<rparr>)) (s\<lparr>lr_lane := l\<rparr>))"
      by (rule answer_inv [OF e(1), of t Parked]) (use e(2) lane_expired(1) in auto)
    then show ?thesis by (cases b) (simp_all add: answer_def)
  next
    case False
    then have "l = lr_lane s" "b \<longrightarrow> ln_head (lr_lane s) = t" using lane_expired(2) by (auto simp: wait_expire_def)
    then show ?thesis using answer_inv [OF lane_expired(3,1)] by simp
  qed
next
  case (lane_released s t p) then show ?case using release_inv by blast
qed

lemma lane_start_inv: "lane_inv lane_start"
  by (simp add: lane_inv_def lane_start_def newLane_def)

lemma lane_runs_inv: "lane_step\<^sup>*\<^sup>* lane_start s \<Longrightarrow> lane_inv s"
  by (induction rule: rtranclp_induct) (auto intro: lane_start_inv lane_step_inv)

section \<open>Order and progress\<close>

text \<open>
  C18.  Segments publish in the order they arrived.  However the segments' work, patience, cancellations and
  releases interleave, the tickets that were told to publish are strictly increasing: a segment that
  was overtaken is never told to publish late, and none is told twice.  This is what the comment on \<open>wait\<close> asks for
  (the work of an overtaken segment is to be discarded, not published late and out of order); the comment on
  \<open>publishPatience\<close> says instead that such a segment publishes late if it ever finishes.
\<close>

theorem lane_publishes_in_order:
  assumes "lane_step\<^sup>*\<^sup>* lane_start s"
  shows "ascending (lr_published s)"
  using lane_runs_inv [OF assms] by (simp add: lane_inv_def Let_def)

text \<open>
  No segment stalls behind finished ones.  When every earlier ticket has been released, the lane's head
  has reached the ticket: a segment parked in \<open>wait\<close> has been woken, and one that has not been overtaken
  is told to publish, without its patience running out.
\<close>

theorem lane_turn_comes:
  assumes "lane_step\<^sup>*\<^sup>* lane_start s" and "\<forall>t'<t. t' \<in> lr_released s" and "t < ln_next (lr_lane s)"
  shows "t \<le> ln_head (lr_lane s) \<and>
    (lr_place s t = Some Parked \<longrightarrow> t \<notin> ln_waiters (lr_lane s) \<and> wait_woken t (lr_lane s) = (ln_head (lr_lane s) = t)) \<and>
    (t = ln_head (lr_lane s) \<longrightarrow> wait_enter t (lr_lane s) = (Some True, lr_lane s))"
proof -
  have inv: "lane_inv s" by (rule lane_runs_inv [OF assms(1)])
  have "t \<le> ln_head (lr_lane s)"
  proof (rule ccontr)
    assume "\<not> t \<le> ln_head (lr_lane s)"
    then have "ln_head (lr_lane s) \<in> lr_released s" using assms(2) by simp
    then have "ln_head (lr_lane s) \<in> ln_done (lr_lane s)" using inv by (auto simp: lane_inv_def Let_def)
    then show False using inv by (auto simp: lane_inv_def Let_def)
  qed
  moreover have "lr_place s t = Some Parked \<Longrightarrow> t \<in> ln_waiters (lr_lane s) \<Longrightarrow> ln_head (lr_lane s) < t"
    using inv by (auto simp: lane_inv_def Let_def)
  ultimately show ?thesis by (auto simp: wait_woken_def wait_enter_def)
qed

text \<open>Two segments: the second parks, the first publishes and releases, the second is woken.\<close>

definition ex_lane :: "nat \<Rightarrow> lane_run" where
  "ex_lane n =
     \<lparr>lr_lane = \<lparr>ln_next = 2, ln_head = (if n < 3 then 0 else 1), ln_done = {}, ln_waiters = (if n = 1 \<or> n = 2 then {1} else {})\<rparr>,
      lr_place = [0 \<mapsto> (if n < 2 then Claimed else Answered True), 1 \<mapsto> (if n = 0 then Claimed else if n < 4 then Parked else Answered True)],
      lr_released = (if n < 3 then {} else {0}), lr_published = (if n < 2 then [] else if n < 4 then [0] else [0, 1])\<rparr>"

lemma ex_lane_run: "lane_step\<^sup>*\<^sup>* lane_start (ex_lane 3)" "lane_step (ex_lane 3) (ex_lane 4)"
proof -
  define s1 where "s1 = lane_start\<lparr>lr_lane := newLane\<lparr>ln_next := 1\<rparr>, lr_place := [0 \<mapsto> Claimed]\<rparr>"
  have 0: "lane_step lane_start s1"
    using lane_claim [of lane_start 0 "newLane\<lparr>ln_next := 1\<rparr>"] by (simp add: s1_def lane_start_def newLane_def lane_turn_def)
  have 1: "lane_step s1 (ex_lane 0)"
    using lane_claim [of s1 1 "newLane\<lparr>ln_next := 2\<rparr>"] by (simp add: s1_def ex_lane_def lane_start_def newLane_def lane_turn_def)
  have 2: "lane_step (ex_lane 0) (ex_lane 1)"
    using lane_park [of "ex_lane 0" 1 "(lr_lane (ex_lane 0))\<lparr>ln_waiters := {1}\<rparr>"]
    by (simp add: ex_lane_def wait_enter_def fun_upd_twist)
  have 3: "lane_step (ex_lane 1) (ex_lane 2)"
    using lane_enter [of "ex_lane 1" 0 True "lr_lane (ex_lane 1)"]
    by (simp add: ex_lane_def wait_enter_def answer_def fun_upd_twist)
  have 4: "lane_step (ex_lane 2) (ex_lane 3)"
    using lane_released [of "ex_lane 2" 0 "Answered True"]
    by (simp add: ex_lane_def lane_release_def lane_advance.simps)
  show "lane_step\<^sup>*\<^sup>* lane_start (ex_lane 3)" using 0 1 2 3 4 by (meson rtranclp.rtrancl_into_rtrancl rtranclp.rtrancl_refl)
  show "lane_step (ex_lane 3) (ex_lane 4)"
    using lane_woken [of "ex_lane 3" 1] by (simp add: ex_lane_def wait_woken_def answer_def)
qed

theorem lane_publishes_in_order_witness: "lane_step\<^sup>*\<^sup>* lane_start (ex_lane 4) \<and> ascending (lr_published (ex_lane 4)) \<and> lr_published (ex_lane 4) = [0, 1]"
proof -
  have "lane_step\<^sup>*\<^sup>* lane_start (ex_lane 4)" using ex_lane_run by (rule rtranclp.rtrancl_into_rtrancl)
  then show ?thesis using lane_publishes_in_order [of "ex_lane 4"] by (simp add: ex_lane_def)
qed

theorem lane_turn_comes_witness: "lr_place (ex_lane 3) 1 = Some Parked \<and> wait_woken 1 (lr_lane (ex_lane 3)) \<and> 1 \<notin> ln_waiters (lr_lane (ex_lane 3))"
proof -
  have "\<forall>t'<1. t' \<in> lr_released (ex_lane 3)" "1 < ln_next (lr_lane (ex_lane 3))" by (simp_all add: ex_lane_def)
  from lane_turn_comes [OF ex_lane_run(1) this] show ?thesis by (simp add: ex_lane_def)
qed

end
