(* ===== verification/Bus.thy ===== *)
theory Bus
  imports Prelude "HOL-Library.Multiset"
begin

text \<open>
  The message bus behind the websocket connections (\<open>bus/bus.go\<close>) and the segment channels
  (\<open>bus/segchanman.go\<close>).

  A subscriber has a queue that \<open>Publish\<close> fills under the bus lock and a goroutine, \<open>deliver\<close>, that
  moves messages from the queue into the subscriber's channel.  The goroutine is its own transition: it
  holds at most one message between the queue and the channel.  A channel is the list of its buffered
  messages; a send is possible while there is room.
\<close>

section \<open>Subscribers\<close>

definition maxQueuedMessages :: nat where "maxQueuedMessages = 1000"
definition channelSize :: nat where "channelSize = 100"

text \<open>\<open>sub_id\<close> stands for the identity of the channel.  \<open>sub_hold\<close> is the message \<open>deliver\<close> has taken from the
  queue, \<open>sub_stopped\<close> says that \<open>deliver\<close> has returned.  \<open>sub_limit\<close> zero means no limit.\<close>

record 'm subscriber =
  sub_id :: nat
  sub_ch :: "'m list"
  sub_queue :: "'m list"
  sub_limit :: nat
  sub_present :: bool
  sub_closed :: bool
  sub_hold :: "'m option"
  sub_stopped :: bool

definition newSubscriber :: "nat \<Rightarrow> nat \<Rightarrow> bool \<Rightarrow> 'm subscriber" where
  "newSubscriber k limit viewer = \<lparr>sub_id = k, sub_ch = [], sub_queue = [], sub_limit = limit, sub_present = viewer,
     sub_closed = False, sub_hold = None, sub_stopped = False\<rparr>"

definition sub_enqueue :: "'m \<Rightarrow> 'm subscriber \<Rightarrow> bool \<times> 'm subscriber" where
  "sub_enqueue msg s =
     (if sub_closed s then (False, s)
      else if sub_limit s > 0 \<and> length (sub_queue s) \<ge> sub_limit s then (False, s\<lparr>sub_closed := True, sub_queue := []\<rparr>)
      else (True, s\<lparr>sub_queue := sub_queue s @ [msg]\<rparr>))"

definition sub_close :: "'m subscriber \<Rightarrow> 'm subscriber" where
  "sub_close s = (if sub_closed s then s else s\<lparr>sub_closed := True, sub_queue := []\<rparr>)"

text \<open>The two halves of a round of \<open>deliver\<close>, and its end.\<close>

definition deliver_take :: "'m subscriber \<Rightarrow> 'm subscriber option" where
  "deliver_take s =
     (if sub_stopped s \<or> sub_hold s \<noteq> None then None
      else if sub_closed s then Some (s\<lparr>sub_stopped := True\<rparr>)
      else case sub_queue s of [] \<Rightarrow> None | msg # q \<Rightarrow> Some (s\<lparr>sub_hold := Some msg, sub_queue := q\<rparr>))"

definition deliver_send :: "'m subscriber \<Rightarrow> 'm subscriber option" where
  "deliver_send s =
     (case sub_hold s of
        None \<Rightarrow> None
      | Some msg \<Rightarrow> if length (sub_ch s) < channelSize then Some (s\<lparr>sub_ch := sub_ch s @ [msg], sub_hold := None\<rparr>) else None)"

definition deliver_quit :: "'m subscriber \<Rightarrow> 'm subscriber option" where
  "deliver_quit s = (if sub_hold s \<noteq> None \<and> sub_closed s then Some (s\<lparr>sub_hold := None, sub_stopped := True\<rparr>) else None)"

section \<open>The bus\<close>

record 'm bus =
  bus_clients :: "string \<Rightarrow> 'm subscriber list"
  bus_presence :: "string \<Rightarrow> int"
  bus_next :: nat

definition NewBus :: "'m bus" where
  "NewBus = \<lparr>bus_clients = \<lambda>u. [], bus_presence = \<lambda>u. 0, bus_next = 0\<rparr>"

definition subscribeWithOverflow :: "string \<Rightarrow> nat \<Rightarrow> bool \<Rightarrow> 'm bus \<Rightarrow> nat \<times> 'm bus" where
  "subscribeWithOverflow user limit viewer b =
     (let sub = newSubscriber (bus_next b) limit viewer in
      (bus_next b,
       b\<lparr>bus_next := bus_next b + 1,
         bus_presence := (if viewer then (bus_presence b)(user := bus_presence b user + 1) else bus_presence b),
         bus_clients := (bus_clients b)(user := bus_clients b user @ [sub])\<rparr>))"

definition Subscribe :: "string \<Rightarrow> 'm bus \<Rightarrow> nat \<times> 'm bus" where
  "Subscribe user b = subscribeWithOverflow user 0 False b"

definition SubscribeViewer :: "string \<Rightarrow> 'm bus \<Rightarrow> nat \<times> 'm bus" where
  "SubscribeViewer user b = subscribeWithOverflow user maxQueuedMessages True b"

definition GetPresenceCount :: "string \<Rightarrow> 'm bus \<Rightarrow> int" where
  "GetPresenceCount user b = bus_presence b user"

text \<open>The position of a channel among the subscribers of a user.\<close>

fun sub_index :: "nat \<Rightarrow> 'm subscriber list \<Rightarrow> nat option" where
  "sub_index ch [] = None"
| "sub_index ch (s # ss) = (if sub_id s = ch then Some 0 else map_option Suc (sub_index ch ss))"

definition Unsubscribe :: "string \<Rightarrow> nat \<Rightarrow> 'm bus \<Rightarrow> 'm bus" where
  "Unsubscribe user ch b =
     (let subs = bus_clients b user in
      case sub_index ch subs of
        None \<Rightarrow> b
      | Some i \<Rightarrow>
          b\<lparr>bus_presence := (if sub_present (subs ! i) then (bus_presence b)(user := bus_presence b user - 1) else bus_presence b),
            bus_clients := (bus_clients b)(user := butlast (subs[i := List.last subs]))\<rparr>)"

text \<open>\<open>Publish\<close> visits the subscribers in order; the count is the presence of the user.\<close>

fun publish_all :: "'m \<Rightarrow> 'm subscriber list \<Rightarrow> int \<Rightarrow> 'm subscriber list \<times> int" where
  "publish_all msg [] n = ([], n)"
| "publish_all msg (s # ss) n =
     (case sub_enqueue msg s of
        (accepted, s1) \<Rightarrow>
          (let gone = \<not> accepted \<and> sub_present s1 in
           case publish_all msg ss (if gone then n - 1 else n) of
             (ss1, m) \<Rightarrow> ((if gone then s1\<lparr>sub_present := False\<rparr> else s1) # ss1, m)))"

definition Publish :: "string \<Rightarrow> 'm \<Rightarrow> 'm bus \<Rightarrow> 'm bus" where
  "Publish user msg b =
     (case publish_all msg (bus_clients b user) (bus_presence b user) of
        (subs, n) \<Rightarrow> b\<lparr>bus_clients := (bus_clients b)(user := subs), bus_presence := (bus_presence b)(user := n)\<rparr>)"

section \<open>Viewer counts\<close>

text \<open>Local counts per streamer and origin, in the order the origins first appeared, and the reports of other
  servers with the cache's word on whether each has expired.\<close>

record viewer_counts =
  vc_local :: "string \<rightharpoonup> (string \<times> int) list"
  vc_federated :: "(string \<times> int \<times> bool) list"
  vc_updates :: "(string \<times> int \<times> string) list"

definition local_counts :: "string \<Rightarrow> viewer_counts \<Rightarrow> (string \<times> int) list" where
  "local_counts user v = (case vc_local v user of None \<Rightarrow> [] | Some cs \<Rightarrow> cs)"

fun alist_put :: "'k \<Rightarrow> 'v \<Rightarrow> ('k \<times> 'v) list \<Rightarrow> ('k \<times> 'v) list" where
  "alist_put k v [] = [(k, v)]"
| "alist_put k v ((k', v') # xs) = (if k' = k then (k, v) # xs else (k', v') # alist_put k v xs)"

definition put_count :: "string \<Rightarrow> string \<Rightarrow> int \<Rightarrow> viewer_counts \<Rightarrow> viewer_counts" where
  "put_count user origin n v =
     v\<lparr>vc_local := (vc_local v)(user \<mapsto> alist_put origin n (local_counts user v)),
       vc_updates := vc_updates v @ [(user, n, origin)]\<rparr>"

definition SetViewerCount :: "string \<Rightarrow> string \<Rightarrow> int \<Rightarrow> viewer_counts \<Rightarrow> viewer_counts" where
  "SetViewerCount user origin n v = put_count user origin n v"

definition origin_count :: "string \<Rightarrow> string \<Rightarrow> viewer_counts \<Rightarrow> int" where
  "origin_count user origin v = (case map_of (local_counts user v) origin of None \<Rightarrow> 0 | Some m \<Rightarrow> m)"

definition IncrementViewerCount :: "string \<Rightarrow> string \<Rightarrow> viewer_counts \<Rightarrow> viewer_counts" where
  "IncrementViewerCount user origin v = put_count user origin (origin_count user origin v + 1) v"

definition DecrementViewerCount :: "string \<Rightarrow> string \<Rightarrow> viewer_counts \<Rightarrow> viewer_counts" where
  "DecrementViewerCount user origin v = put_count user origin (origin_count user origin v - 1) v"

definition SetFederatedViewCount :: "string \<Rightarrow> string \<Rightarrow> int \<Rightarrow> viewer_counts \<Rightarrow> viewer_counts" where
  "SetFederatedViewCount streamer server n v =
     v\<lparr>vc_federated := alist_put (streamer @ '':'' @ server) (n, False) (vc_federated v)\<rparr>"

definition GetViewerCount :: "string \<Rightarrow> viewer_counts \<Rightarrow> int" where
  "GetViewerCount user v =
     sum_list (map snd (local_counts user v)) +
     sum_list (map (\<lambda>(k, c, expired). c) (filter (\<lambda>(k, c, expired). prefix (user @ '':'') k \<and> \<not> expired) (vc_federated v)))"

section \<open>Segments\<close>

definition chanSize :: nat where "chanSize = 1024"
definition bufSize :: nat where "bufSize = 10"

text \<open>\<open>sc_done\<close> says that the subscriber's context has ended.\<close>

record 'g SegChan =
  sc_id :: nat
  sc_C :: "'g list"
  sc_done :: bool

record 'g segments =
  sg_chans :: "string \<Rightarrow> 'g SegChan list"
  sg_buf :: "string \<Rightarrow> 'g list"
  sg_next :: nat

definition segChanKey :: "string \<Rightarrow> string \<Rightarrow> string" where
  "segChanKey user rendition = user @ ''::'' @ rendition"

definition SubscribeSegmentBuf :: "string \<Rightarrow> string \<Rightarrow> int \<Rightarrow> 'g segments \<Rightarrow> nat \<times> 'g segments" where
  "SubscribeSegmentBuf user rendition wanted g =
     (let key = segChanKey user rendition; curBuf = sg_buf g key;
          n = (if wanted > int (length curBuf) then length curBuf else nat wanted);
          segChan = \<lparr>sc_id = sg_next g, sc_C = drop (length curBuf - n) curBuf, sc_done = False\<rparr>
      in (sg_next g, g\<lparr>sg_next := sg_next g + 1, sg_chans := (sg_chans g)(key := sg_chans g key @ [segChan])\<rparr>))"

definition SubscribeSegment :: "string \<Rightarrow> string \<Rightarrow> 'g segments \<Rightarrow> nat \<times> 'g segments" where
  "SubscribeSegment user rendition g = SubscribeSegmentBuf user rendition 0 g"

fun remove_chan :: "nat \<Rightarrow> 'g SegChan list \<Rightarrow> 'g SegChan list" where
  "remove_chan ch [] = []"
| "remove_chan ch (c # cs) = (if sc_id c = ch then cs else c # remove_chan ch cs)"

definition UnsubscribeSegment :: "string \<Rightarrow> string \<Rightarrow> nat \<Rightarrow> 'g segments \<Rightarrow> 'g segments" where
  "UnsubscribeSegment user rendition ch g =
     (let key = segChanKey user rendition in g\<lparr>sg_chans := (sg_chans g)(key := remove_chan ch (sg_chans g key))\<rparr>)"

definition HasSegments :: "string \<Rightarrow> string \<Rightarrow> 'g segments \<Rightarrow> bool" where
  "HasSegments user rendition g = (length (sg_buf g (segChanKey user rendition)) > 0)"

text \<open>A select with several ready cases takes any of them: \<open>pick\<close> says, per channel, whether a send that is
  possible is preferred to a context that has ended.\<close>

definition offer_segment :: "(nat \<Rightarrow> bool) \<Rightarrow> 'g \<Rightarrow> 'g SegChan \<Rightarrow> 'g SegChan" where
  "offer_segment pick seg c =
     (if length (sc_C c) < chanSize \<and> (\<not> sc_done c \<or> pick (sc_id c)) then c\<lparr>sc_C := sc_C c @ [seg]\<rparr> else c)"

definition PublishSegment :: "(nat \<Rightarrow> bool) \<Rightarrow> string \<Rightarrow> string \<Rightarrow> 'g \<Rightarrow> 'g segments \<Rightarrow> 'g segments" where
  "PublishSegment pick user rendition seg g =
     (let key = segChanKey user rendition; curBuf = sg_buf g key @ [seg];
          curBuf = (if length curBuf > bufSize then tl curBuf else curBuf)
      in g\<lparr>sg_buf := (sg_buf g)(key := curBuf), sg_chans := (sg_chans g)(key := map (offer_segment pick seg) (sg_chans g key))\<rparr>)"

definition EndSession :: "string \<Rightarrow> string \<Rightarrow> 'g segments \<Rightarrow> 'g segments" where
  "EndSession user rendition g = g\<lparr>sg_buf := (sg_buf g)(segChanKey user rendition := [])\<rparr>"

section \<open>Presence\<close>

text \<open>A goroutine or a reader moves one subscriber: what it may change is neither its presence nor whether it
  is closed.\<close>

inductive bus_step :: "'m bus \<Rightarrow> 'm bus \<Rightarrow> bool" where
  bus_subscribe: "Subscribe user b = (ch, b') \<Longrightarrow> bus_step b b'"
| bus_viewer: "SubscribeViewer user b = (ch, b') \<Longrightarrow> bus_step b b'"
| bus_unsubscribe: "bus_step b (Unsubscribe user ch b)"
| bus_publish: "bus_step b (Publish user msg b)"
| bus_deliver: "i < length (bus_clients b user) \<Longrightarrow> s = bus_clients b user ! i \<Longrightarrow>
     deliver_take s = Some s' \<or> deliver_send s = Some s' \<or> deliver_quit s = Some s' \<Longrightarrow>
     bus_step b (b\<lparr>bus_clients := (bus_clients b)(user := (bus_clients b user)[i := s'])\<rparr>)"
| bus_read: "i < length (bus_clients b user) \<Longrightarrow> s = bus_clients b user ! i \<Longrightarrow> sub_ch s = msg # rest \<Longrightarrow>
     bus_step b (b\<lparr>bus_clients := (bus_clients b)(user := (bus_clients b user)[i := s\<lparr>sub_ch := rest\<rparr>])\<rparr>)"

definition watching :: "'m subscriber \<Rightarrow> bool" where
  "watching s \<longleftrightarrow> sub_limit s > 0 \<and> \<not> sub_closed s"

definition presence_inv :: "'m bus \<Rightarrow> bool" where
  "presence_inv b \<longleftrightarrow> (\<forall>u. bus_presence b u = int (length (filter sub_present (bus_clients b u))) \<and>
     (\<forall>s\<in>set (bus_clients b u). sub_present s = watching s))"

lemma publish_all_presence:
  "publish_all msg ss n = (ss', m) \<Longrightarrow> \<forall>s\<in>set ss. sub_present s = watching s \<Longrightarrow>
   m - int (length (filter sub_present ss')) = n - int (length (filter sub_present ss)) \<and>
   (\<forall>s\<in>set ss'. sub_present s = watching s)"
proof (induction ss arbitrary: n ss' m)
  case (Cons s ss)
  obtain acc s1 where e: "sub_enqueue msg s = (acc, s1)" by (metis prod.collapse)
  let ?gone = "\<not> acc \<and> sub_present s1"
  obtain ss1 where r: "publish_all msg ss (if ?gone then n - 1 else n) = (ss1, m)"
    and ss': "ss' = (if ?gone then s1\<lparr>sub_present := False\<rparr> else s1) # ss1"
    using Cons.prems(1) e by (auto simp: Let_def split: prod.splits)
  have s1: "sub_present s1 = sub_present s" "?gone \<longrightarrow> \<not> watching s1" "\<not> ?gone \<longrightarrow> watching s1 = watching s"
    using e Cons.prems(2) by (auto simp: sub_enqueue_def watching_def split: if_splits)
  have "watching (s1\<lparr>sub_present := False\<rparr>) = watching s1" by (simp add: watching_def)
  then show ?case using Cons.IH [OF r] Cons.prems(2) s1 by (auto simp: ss')
qed simp

lemma filter_replace:
  "i < length xs \<Longrightarrow> P y = P (xs ! i) \<Longrightarrow> length (filter P (xs[i := y])) = length (filter P xs)"
  by (induction xs arbitrary: i) (auto simp: nth_Cons split: nat.splits)

lemma presence_replace:
  assumes "presence_inv b" "i < length (bus_clients b user)"
    and "sub_present s' = sub_present (bus_clients b user ! i)" "watching s' = watching (bus_clients b user ! i)"
  shows "presence_inv (b\<lparr>bus_clients := (bus_clients b)(user := (bus_clients b user)[i := s'])\<rparr>)"
proof -
  have "bus_clients b user ! i \<in> set (bus_clients b user)" using assms(2) by simp
  then have "sub_present s' = watching s'" using assms(1,3,4) unfolding presence_inv_def by blast
  then have "\<forall>s\<in>set ((bus_clients b user)[i := s']). sub_present s = watching s"
    using assms(1) set_update_subset_insert [of "bus_clients b user" i s'] by (fastforce simp: presence_inv_def)
  then show ?thesis using assms filter_replace [of i "bus_clients b user" sub_present s'] by (simp add: presence_inv_def)
qed

lemma sub_index_Some: "sub_index ch ss = Some i \<Longrightarrow> i < length ss \<and> sub_id (ss ! i) = ch"
  by (induction ss arbitrary: i) (auto split: if_splits)

text \<open>Removing an element by moving the last one into its place.\<close>

lemma swap_remove:
  assumes "i < length xs"
  shows "mset (butlast (xs[i := List.last xs])) = mset xs - {#xs ! i#}"
proof -
  have ne: "xs \<noteq> []" using assms by auto
  then have x: "xs = butlast xs @ [List.last xs]" by simp
  have ms: "mset xs = add_mset (List.last xs) (mset (butlast xs))" by (subst x) (simp only: mset_append, simp)
  show ?thesis
  proof (cases "i = length xs - 1")
    case True
    then have "xs[i := List.last xs] = xs" using ne by (metis last_conv_nth list_update_id)
    moreover have "xs ! i = List.last xs" using True ne by (simp add: last_conv_nth)
    ultimately show ?thesis using ms by simp
  next
    case False
    then have i: "i < length (butlast xs)" using assms by simp
    have "butlast (xs[i := List.last xs]) = (butlast xs)[i := List.last xs]"
      using False assms by (metis butlast_list_update)
    moreover have "mset ((butlast xs)[i := List.last xs]) = add_mset (List.last xs) (mset (butlast xs) - {#butlast xs ! i#})"
      by (rule mset_update [OF i])
    moreover have "butlast xs ! i = xs ! i" using i by (simp add: nth_butlast)
    moreover have "butlast xs ! i \<in># mset (butlast xs)" using i by (metis nth_mem set_mset_mset)
    ultimately show ?thesis using ms by simp
  qed
qed

lemma filter_length_mset: "length (filter P xs) = size (filter_mset P (mset xs))"
  by (metis mset_filter size_mset)

lemma unsubscribe_presence:
  assumes inv: "presence_inv b"
  shows "presence_inv (Unsubscribe user ch b)"
proof (cases "sub_index ch (bus_clients b user)")
  case (Some i)
  let ?subs = "bus_clients b user" and ?s = "bus_clients b user ! i"
  let ?new = "butlast (?subs[i := List.last ?subs])"
  have i: "i < length ?subs" using sub_index_Some [OF Some] by simp
  have ms: "mset ?new = mset ?subs - {#?s#}" by (rule swap_remove [OF i])
  have mem: "?s \<in># mset ?subs" using i by simp
  have sub: "set ?new \<subseteq> set ?subs" using ms by (metis in_diffD set_mset_mset subsetI)
  have "length (filter sub_present ?new) = size (filter_mset sub_present (mset ?subs - {#?s#}))"
    by (simp only: filter_length_mset ms)
  also have "\<dots> = length (filter sub_present ?subs) - (if sub_present ?s then 1 else 0)"
    using mem by (simp add: filter_length_mset filter_diff_mset size_Diff_singleton)
  finally have len: "length (filter sub_present ?new) = length (filter sub_present ?subs) - (if sub_present ?s then 1 else 0)" .
  have pos: "sub_present ?s \<Longrightarrow> length (filter sub_present ?subs) > 0" using i by (auto simp: filter_empty_conv)
  have ok: "\<forall>x\<in>set ?new. sub_present x = watching x" using inv sub unfolding presence_inv_def by blast
  have n: "bus_presence b user = int (length (filter sub_present ?subs))" using inv by (simp add: presence_inv_def)
  have "bus_presence b user - (if sub_present ?s then 1 else 0) = int (length (filter sub_present ?new))"
    using n len pos by (auto simp: of_nat_diff Suc_leI)
  then show ?thesis using inv ok by (auto simp: Unsubscribe_def Some Let_def presence_inv_def split: if_splits)
qed (simp add: Unsubscribe_def inv)

lemma bus_step_presence: "bus_step b b' \<Longrightarrow> presence_inv b \<Longrightarrow> presence_inv b'"
proof (induction rule: bus_step.induct)
  case (bus_subscribe user b ch b')
  then show ?case by (auto simp: Subscribe_def subscribeWithOverflow_def newSubscriber_def presence_inv_def watching_def Let_def
        split: if_splits)
next
  case (bus_viewer user b ch b')
  then show ?case
    by (auto simp: SubscribeViewer_def subscribeWithOverflow_def newSubscriber_def presence_inv_def watching_def Let_def
        maxQueuedMessages_def split: if_splits)
next
  case (bus_unsubscribe b user ch) then show ?case by (rule unsubscribe_presence)
next
  case (bus_publish b user msg)
  obtain ss n where p: "publish_all msg (bus_clients b user) (bus_presence b user) = (ss, n)" by (metis prod.collapse)
  have P: "Publish user msg b = b\<lparr>bus_clients := (bus_clients b)(user := ss), bus_presence := (bus_presence b)(user := n)\<rparr>"
    by (simp add: Publish_def p)
  have "\<forall>s\<in>set (bus_clients b user). sub_present s = watching s"
    "bus_presence b user = int (length (filter sub_present (bus_clients b user)))"
    using bus_publish by (simp_all add: presence_inv_def)
  from publish_all_presence [OF p this(1)] this(2) have "n = int (length (filter sub_present ss))" "\<forall>s\<in>set ss. sub_present s = watching s"
    by simp_all
  then show ?case using bus_publish unfolding P by (simp add: presence_inv_def)
next
  case (bus_deliver i b user s s')
  then have "sub_present s' = sub_present s" "watching s' = watching s"
    by (auto simp: deliver_take_def deliver_send_def deliver_quit_def watching_def split: if_splits list.splits option.splits)
  then show ?case using presence_replace [OF bus_deliver(4,1)] bus_deliver(2) by simp
next
  case (bus_read i b user s msg rest)
  then show ?case using presence_replace [OF bus_read(4,1)] by (simp add: watching_def)
qed

lemma NewBus_presence: "presence_inv NewBus"
  by (simp add: presence_inv_def NewBus_def)

text \<open>
  The presence count is exact.  After any interleaving of subscriptions, publications, deliveries,
  reads and disconnections, the count of a channel is the number of its viewers that are subscribed and
  have not been disconnected for falling behind; in particular it is never negative and a viewer that
  overflowed and then unsubscribes is not counted off twice.
\<close>

theorem presence_count_exact:
  assumes "bus_step\<^sup>*\<^sup>* NewBus b"
  shows "GetPresenceCount user b = int (length (filter watching (bus_clients b user)))"
proof -
  have "presence_inv b" using assms by (induction rule: rtranclp_induct) (auto intro: bus_step_presence NewBus_presence)
  then have "filter sub_present (bus_clients b user) = filter watching (bus_clients b user)"
    "bus_presence b user = int (length (filter sub_present (bus_clients b user)))"
    unfolding presence_inv_def by (auto intro: filter_cong)
  then show ?thesis by (simp add: GetPresenceCount_def)
qed

theorem presence_count_exact_witness:
  "\<exists>b :: string bus. bus_step\<^sup>*\<^sup>* NewBus b \<and> GetPresenceCount ''u'' b = int (length (filter watching (bus_clients b ''u''))) \<and>
     GetPresenceCount ''u'' b = 1"
proof -
  let ?b = "snd (SubscribeViewer ''u'' (NewBus :: string bus))"
  have "bus_step NewBus ?b" by (rule bus_viewer [of "''u''" NewBus "fst (SubscribeViewer ''u'' NewBus)"]) (rule prod.collapse [symmetric])
  then have r: "bus_step\<^sup>*\<^sup>* NewBus ?b" by simp
  have "GetPresenceCount ''u'' ?b = 1"
    by (simp add: SubscribeViewer_def subscribeWithOverflow_def GetPresenceCount_def NewBus_def Let_def)
  with r presence_count_exact [OF r, of "''u''"] show ?thesis by blast
qed

section \<open>Delivery\<close>

text \<open>One subscriber with its reader: what was published to it since it subscribed, and what its reader has
  received.\<close>

record 'm delivery =
  dl_sub :: "'m subscriber"
  dl_log :: "'m list"
  dl_got :: "'m list"

inductive delivery_step :: "'m delivery \<Rightarrow> 'm delivery \<Rightarrow> bool" where
  dl_publish: "sub_enqueue msg (dl_sub x) = (acc, s) \<Longrightarrow> delivery_step x (x\<lparr>dl_sub := s, dl_log := dl_log x @ [msg]\<rparr>)"
| dl_take: "deliver_take (dl_sub x) = Some s \<Longrightarrow> delivery_step x (x\<lparr>dl_sub := s\<rparr>)"
| dl_send: "deliver_send (dl_sub x) = Some s \<Longrightarrow> delivery_step x (x\<lparr>dl_sub := s\<rparr>)"
| dl_quit: "deliver_quit (dl_sub x) = Some s \<Longrightarrow> delivery_step x (x\<lparr>dl_sub := s\<rparr>)"
| dl_close: "delivery_step x (x\<lparr>dl_sub := sub_close (dl_sub x)\<rparr>)"
| dl_read: "sub_ch (dl_sub x) = msg # rest \<Longrightarrow>
     delivery_step x (x\<lparr>dl_sub := (dl_sub x)\<lparr>sub_ch := rest\<rparr>, dl_got := dl_got x @ [msg]\<rparr>)"

definition held :: "'m subscriber \<Rightarrow> 'm list" where
  "held s = (case sub_hold s of None \<Rightarrow> [] | Some m \<Rightarrow> [m])"

definition delivery_inv :: "'m delivery \<Rightarrow> bool" where
  "delivery_inv x \<longleftrightarrow>
     (let s = dl_sub x in
      (\<not> sub_closed s \<longrightarrow> dl_got x @ sub_ch s @ held s @ sub_queue s = dl_log x \<and> \<not> sub_stopped s) \<and>
      (sub_closed s \<longrightarrow> prefix (dl_got x @ sub_ch s @ held s) (dl_log x)) \<and>
      (sub_limit s > 0 \<longrightarrow> length (sub_queue s) \<le> sub_limit s) \<and> length (sub_ch s) \<le> channelSize)"

lemma prefix_grow: "prefix xs ys \<Longrightarrow> prefix xs (ys @ zs)"
  by (auto simp: prefix_def)

lemma delivery_step_inv: "delivery_step x y \<Longrightarrow> delivery_inv x \<Longrightarrow> delivery_inv y"
proof (induction rule: delivery_step.induct)
  case (dl_publish msg x acc s)
  show ?case
  proof (cases "sub_closed (dl_sub x)")
    case True
    then show ?thesis using dl_publish by (auto simp: delivery_inv_def sub_enqueue_def held_def Let_def intro: prefix_grow)
  next
    case False
    then have eq: "dl_got x @ sub_ch (dl_sub x) @ held (dl_sub x) @ sub_queue (dl_sub x) = dl_log x"
      using dl_publish(2) by (simp add: delivery_inv_def Let_def)
    then have "prefix (dl_got x @ sub_ch (dl_sub x) @ held (dl_sub x)) (dl_log x @ [msg])" by (metis append.assoc prefixI)
    then show ?thesis using dl_publish False eq [symmetric]
      by (auto simp: delivery_inv_def sub_enqueue_def held_def Let_def split: if_splits)
  qed
next
  case (dl_take x s)
  then show ?case by (auto simp: delivery_inv_def deliver_take_def held_def Let_def split: if_splits list.splits)
next
  case (dl_send x s)
  then show ?case by (auto simp: delivery_inv_def deliver_send_def held_def Let_def split: if_splits option.splits)
next
  case (dl_quit x s)
  then show ?case
    by (auto simp: delivery_inv_def deliver_quit_def held_def Let_def split: if_splits option.splits intro: append_prefixD)
next
  case (dl_close x)
  show ?case
  proof (cases "sub_closed (dl_sub x)")
    case False
    then have "dl_got x @ sub_ch (dl_sub x) @ held (dl_sub x) @ sub_queue (dl_sub x) = dl_log x"
      using dl_close by (simp add: delivery_inv_def Let_def)
    then have "prefix (dl_got x @ sub_ch (dl_sub x) @ held (dl_sub x)) (dl_log x)" by (metis append.assoc prefixI)
    then show ?thesis using dl_close False by (auto simp: delivery_inv_def sub_close_def held_def Let_def)
  qed (use dl_close in \<open>simp add: sub_close_def\<close>)
next
  case (dl_read x msg rest)
  then show ?case by (auto simp: delivery_inv_def held_def Let_def)
qed

definition fresh_delivery :: "nat \<Rightarrow> nat \<Rightarrow> bool \<Rightarrow> 'm delivery" where
  "fresh_delivery k limit viewer = \<lparr>dl_sub = newSubscriber k limit viewer, dl_log = [], dl_got = []\<rparr>"

text \<open>
  A subscriber sees every message, in order, or is cut off.  Whatever the interleaving of publications,
  delivery and reading, what the reader has received is a prefix of what was published to it, so no
  message overtakes or repeats another.  A bounded queue never exceeds its limit.  Until the subscriber
  is closed nothing is lost: the rest is in its channel, in the hands of the delivering goroutine, or
  in its queue, and while anything is missing some step of the delivery or the reader is possible.
\<close>

theorem delivery_in_order:
  assumes "delivery_step\<^sup>*\<^sup>* (fresh_delivery k limit viewer) x"
  shows "prefix (dl_got x) (dl_log x) \<and> (limit > 0 \<longrightarrow> length (sub_queue (dl_sub x)) \<le> limit) \<and>
    (\<not> sub_closed (dl_sub x) \<longrightarrow>
       dl_got x @ sub_ch (dl_sub x) @ held (dl_sub x) @ sub_queue (dl_sub x) = dl_log x \<and>
       (dl_got x \<noteq> dl_log x \<longrightarrow> sub_ch (dl_sub x) \<noteq> [] \<or> deliver_take (dl_sub x) \<noteq> None \<or> deliver_send (dl_sub x) \<noteq> None))"
proof -
  have inv: "delivery_inv x \<and> sub_limit (dl_sub x) = limit" using assms
  proof (induction rule: rtranclp_induct)
    case base show ?case by (simp add: delivery_inv_def fresh_delivery_def newSubscriber_def held_def)
  next
    case (step y z)
    have "sub_limit (dl_sub z) = sub_limit (dl_sub y)" using step(2)
      by cases (auto simp: sub_enqueue_def deliver_take_def deliver_send_def deliver_quit_def sub_close_def
          split: if_splits list.splits option.splits)
    then show ?case using step delivery_step_inv by blast
  qed
  let ?s = "dl_sub x"
  have p: "prefix (dl_got x) (dl_log x)"
  proof (cases "sub_closed ?s")
    case True then show ?thesis using inv by (auto simp: delivery_inv_def Let_def dest: append_prefixD)
  next
    case False then show ?thesis using inv by (metis delivery_inv_def prefixI)
  qed
  have "sub_ch ?s \<noteq> [] \<or> deliver_take ?s \<noteq> None \<or> deliver_send ?s \<noteq> None"
    if o: "\<not> sub_closed ?s" "dl_got x \<noteq> dl_log x"
  proof (cases "sub_ch ?s = []")
    case True
    then have "held ?s @ sub_queue ?s \<noteq> []" "\<not> sub_stopped ?s" using inv o by (auto simp: delivery_inv_def Let_def)
    then show ?thesis using True o(1)
      by (auto simp: held_def deliver_take_def deliver_send_def channelSize_def split: option.splits list.splits)
  qed simp
  then show ?thesis using inv p by (auto simp: delivery_inv_def Let_def)
qed

theorem delivery_in_order_witness:
  "\<exists>x. delivery_step\<^sup>*\<^sup>* (fresh_delivery 0 0 False) x \<and> dl_log x = [''a'', ''b''] \<and> prefix (dl_got x) (dl_log x) \<and>
     (deliver_take (dl_sub x) \<noteq> None \<or> deliver_send (dl_sub x) \<noteq> None)"
proof -
  let ?s = "newSubscriber 0 0 False"
  define x1 where "x1 = (fresh_delivery 0 0 False)\<lparr>dl_sub := ?s\<lparr>sub_queue := [''a'']\<rparr>, dl_log := [''a'']\<rparr>"
  define x2 where "x2 = x1\<lparr>dl_sub := ?s\<lparr>sub_queue := [''a'', ''b'']\<rparr>, dl_log := [''a'', ''b'']\<rparr>"
  have 1: "delivery_step (fresh_delivery 0 0 False) x1"
    using dl_publish [of "''a''" "fresh_delivery 0 0 False" True "?s\<lparr>sub_queue := [''a'']\<rparr>"]
    by (simp add: x1_def fresh_delivery_def newSubscriber_def sub_enqueue_def)
  have 2: "delivery_step x1 x2" using dl_publish [of "''b''" x1 True "?s\<lparr>sub_queue := [''a'', ''b'']\<rparr>"]
    by (simp add: x2_def x1_def newSubscriber_def sub_enqueue_def)
  have r: "delivery_step\<^sup>*\<^sup>* (fresh_delivery 0 0 False) x2" using 1 2 by (meson r_into_rtranclp rtranclp.rtrancl_into_rtrancl)
  have "\<not> sub_closed (dl_sub x2)" "dl_log x2 = [''a'', ''b'']" "dl_got x2 = []" "sub_ch (dl_sub x2) = []"
    by (simp_all add: x2_def x1_def fresh_delivery_def newSubscriber_def)
  then show ?thesis using r delivery_in_order [OF r] by auto
qed

section \<open>Segment channels\<close>

definition last_n :: "nat \<Rightarrow> 'a list \<Rightarrow> 'a list" where
  "last_n n xs = drop (length xs - n) xs"

abbreviation publish_segments :: "(nat \<Rightarrow> bool) \<Rightarrow> string \<Rightarrow> string \<Rightarrow> 'g list \<Rightarrow> 'g segments \<Rightarrow> 'g segments" where
  "publish_segments pick user rendition segs g \<equiv> fold (PublishSegment pick user rendition) segs g"

lemma last_n_snoc:
  assumes "n > 0"
  shows "last_n n (xs @ [x]) = (let ys = last_n n xs @ [x] in if length ys > n then tl ys else ys)"
proof (cases "length xs < n")
  case False
  then have len: "length (last_n n xs) = n" by (simp add: last_n_def)
  have "drop (Suc (length xs) - n) xs = tl (drop (length xs - n) xs)" using False by (simp add: Suc_diff_le drop_Suc tl_drop)
  moreover have "last_n n xs \<noteq> []" using len assms by auto
  ultimately show ?thesis using False len assms by (simp add: last_n_def)
qed (simp add: last_n_def)

lemma buffer_is_last:
  "sg_buf (publish_segments pick u r segs g) (segChanKey u r) = last_n bufSize (xs @ segs)"
  if "sg_buf g (segChanKey u r) = last_n bufSize xs"
  using that
proof (induction segs arbitrary: g xs)
  case (Cons seg segs)
  have "sg_buf (PublishSegment pick u r seg g) (segChanKey u r) = last_n bufSize (xs @ [seg])"
    using Cons.prems last_n_snoc [of bufSize xs seg] by (simp add: PublishSegment_def Let_def bufSize_def)
  from Cons.IH [OF this] show ?case by simp
qed simp

lemma offered:
  "\<not> sc_done c \<Longrightarrow> length (sc_C c) \<le> chanSize \<Longrightarrow>
   fold (offer_segment pick) segs c = c\<lparr>sc_C := sc_C c @ take (chanSize - length (sc_C c)) segs\<rparr>"
proof (induction segs arbitrary: c)
  case (Cons seg segs)
  show ?case
  proof (cases "length (sc_C c) < chanSize")
    case True
    let ?c = "c\<lparr>sc_C := sc_C c @ [seg]\<rparr>"
    have "chanSize - length (sc_C c) = Suc (chanSize - length (sc_C ?c))" using True by simp
    then show ?thesis using Cons.IH [of ?c] Cons.prems True by (simp add: offer_segment_def)
  next
    case False
    then show ?thesis using Cons by (simp add: offer_segment_def)
  qed
qed simp

lemma chans_published:
  "sg_chans (publish_segments pick u r segs g) (segChanKey u r) = map (fold (offer_segment pick) segs) (sg_chans g (segChanKey u r))"
  by (induction segs arbitrary: g) (simp_all add: PublishSegment_def Let_def comp_def)

text \<open>
  A late subscriber starts at once and misses nothing.  In a session that has published \<open>ps\<close>, a
  subscriber that asks for \<open>wanted\<close> buffered segments gets the newest of them (at most ten, at most as many
  as there are), oldest first, and then every segment published afterwards in order, until its channel
  holds 1024 unread segments.
\<close>

theorem late_subscriber_stream:
  assumes "SubscribeSegmentBuf user rendition wanted (publish_segments pick user rendition ps (EndSession user rendition g)) = (ch, g1)"
    and n: "n = min (nat wanted) (min bufSize (length ps))"
  shows "\<exists>others. sg_chans (publish_segments pick user rendition qs g1) (segChanKey user rendition) =
     others @ [\<lparr>sc_id = ch, sc_C = last_n n ps @ take (chanSize - n) qs, sc_done = False\<rparr>]"
proof -
  let ?key = "segChanKey user rendition" and ?g = "publish_segments pick user rendition ps (EndSession user rendition g)"
  have buf: "sg_buf ?g ?key = last_n bufSize ps"
    using buffer_is_last [of "EndSession user rendition g" user rendition "[]" pick ps] by (simp add: EndSession_def last_n_def)
  let ?k = "if wanted > int (length (sg_buf ?g ?key)) then length (sg_buf ?g ?key) else nat wanted"
  have len: "length (sg_buf ?g ?key) = min bufSize (length ps)" by (simp add: buf last_n_def)
  have k: "?k = n" using n by (auto simp: len)
  have "drop (length (sg_buf ?g ?key) - n) (sg_buf ?g ?key) = last_n n ps"
    using n by (simp add: buf last_n_def)
  then have g1: "sg_chans g1 ?key = sg_chans ?g ?key @ [\<lparr>sc_id = ch, sc_C = last_n n ps, sc_done = False\<rparr>]"
    using assms(1) k by (auto simp: SubscribeSegmentBuf_def Let_def simp del: min_def split: if_splits)
  have "length (last_n n ps) = n" "n \<le> chanSize" using n by (simp_all add: last_n_def bufSize_def chanSize_def)
  then have "fold (offer_segment pick) qs \<lparr>sc_id = ch, sc_C = last_n n ps, sc_done = False\<rparr> =
      \<lparr>sc_id = ch, sc_C = last_n n ps @ take (chanSize - n) qs, sc_done = False\<rparr>"
    using offered [of "\<lparr>sc_id = ch, sc_C = last_n n ps, sc_done = False\<rparr>" pick qs] by simp
  then show ?thesis by (simp add: chans_published g1)
qed

theorem late_subscriber_stream_witness:
  "\<exists>g1 others. sg_chans (publish_segments (\<lambda>k. True) ''u'' ''source'' [4, 5] g1) (segChanKey ''u'' ''source'') =
     others @ [\<lparr>sc_id = 0, sc_C = [2, 3, 4, 5 :: nat], sc_done = False\<rparr>]"
proof -
  let ?g = "publish_segments (\<lambda>k. True) ''u'' ''source'' [1, 2, 3 :: nat] (EndSession ''u'' ''source'' \<lparr>sg_chans = \<lambda>k. [], sg_buf = \<lambda>k. [], sg_next = 0\<rparr>)"
  obtain ch g1 where s: "SubscribeSegmentBuf ''u'' ''source'' 2 ?g = (ch, g1)" by (metis prod.collapse)
  have "ch = 0" using s by (simp add: SubscribeSegmentBuf_def Let_def PublishSegment_def EndSession_def)
  moreover have "2 = min (nat 2) (min bufSize (length [1, 2, 3 :: nat]))" by (simp add: bufSize_def)
  ultimately show ?thesis using late_subscriber_stream [OF s, of 2 "[4, 5]"] by (auto simp: last_n_def chanSize_def)
qed

section \<open>Viewer counts of nested names\<close>

text \<open>The federated counts are found by the prefix of the streamer's DID and a colon.  A DID may itself contain
  colons after that prefix, and then the count of the longer name is also counted for the shorter one.\<close>

lemma federated_count_leaks:
  "GetViewerCount ''did:web:a.test'' (SetFederatedViewCount ''did:web:a.test:bob'' ''did:web:s.test'' 7
     \<lparr>vc_local = Map.empty, vc_federated = [], vc_updates = []\<rparr>) = 7"
  by (simp add: GetViewerCount_def SetFederatedViewCount_def local_counts_def)

lemma alist_put_sum:
  "sum_list (map snd (alist_put k v xs)) = sum_list (map snd xs) - (case map_of xs k of None \<Rightarrow> 0 | Some n \<Rightarrow> n) + (v :: int)"
  by (induction xs) auto

text \<open>Joining and leaving are inverse on the count.\<close>

lemma increment_decrement:
  "GetViewerCount user (DecrementViewerCount user origin (IncrementViewerCount user origin v)) = GetViewerCount user v"
  "GetViewerCount user (IncrementViewerCount user origin v) = GetViewerCount user v + 1"
proof -
  have put: "GetViewerCount user (put_count user origin n v) = GetViewerCount user v - origin_count user origin v + n" for n v
    by (simp add: GetViewerCount_def put_count_def local_counts_def origin_count_def alist_put_sum)
  have "map_of (alist_put k v xs) k = Some v" for k :: string and v :: int and xs by (induction xs) auto
  then have o: "origin_count user origin (put_count user origin n v) = n" for n v
    by (simp add: origin_count_def put_count_def local_counts_def)
  show "GetViewerCount user (IncrementViewerCount user origin v) = GetViewerCount user v + 1"
    by (simp add: IncrementViewerCount_def put)
  then show "GetViewerCount user (DecrementViewerCount user origin (IncrementViewerCount user origin v)) = GetViewerCount user v"
    by (simp add: DecrementViewerCount_def put IncrementViewerCount_def o)
qed

end
