(* ===== verification/HLSSessions.thy ===== *)
theory HLSSessions
  imports Bus
begin

text \<open>
  Viewer sessions of HLS playback (\<open>media/hls_sessions.go\<close>): requests that carry a session id start a session
  at the first one and end it when they stop, and the two callbacks drive the viewer count (\<open>media/viewers.go\<close>,
  \<open>bus.go\<close>).

  The map of sessions is the list of its entries; the order in which a sweep visits it is that of the list, one
  of the orders Go allows.  The critical sections are functions; the callbacks run outside them, so the running
  tracker is a transition system that keeps the callbacks still to be made.
\<close>

section \<open>The tracker\<close>

definition hlsSessionTTL :: duration where "hlsSessionTTL = 30 * second"

type_synonym hlsSessionKey = "string \<times> string"

record hlsSessionTracker =
  st_ttl :: duration
  st_lastSeen :: "(hlsSessionKey \<times> time) list"
  st_janitorRunning :: bool

definition newHLSSessionTracker :: "duration \<Rightarrow> hlsSessionTracker" where
  "newHLSSessionTracker ttl = \<lparr>st_ttl = ttl, st_lastSeen = [], st_janitorRunning = False\<rparr>"

text \<open>The critical section of \<open>Touch\<close>: whether the session was known, and whether to start a janitor.\<close>

definition Touch_locked :: "string \<Rightarrow> string \<Rightarrow> time \<Rightarrow> hlsSessionTracker \<Rightarrow> (bool \<times> bool) \<times> hlsSessionTracker" where
  "Touch_locked streamer sid now t =
     (let k = (streamer, sid);
          known = (k \<in> fst ` set (st_lastSeen t));
          startJanitor = (\<not> known \<and> \<not> st_janitorRunning t)
      in ((known, startJanitor),
          t\<lparr>st_lastSeen := alist_put k now (st_lastSeen t),
            st_janitorRunning := st_janitorRunning t \<or> startJanitor\<rparr>))"

definition Touch ::
  "(string \<Rightarrow> 'c \<Rightarrow> 'c) \<Rightarrow> string \<Rightarrow> string \<Rightarrow> time \<Rightarrow> hlsSessionTracker \<times> 'c \<Rightarrow> bool \<times> hlsSessionTracker \<times> 'c" where
  "Touch onNew streamer sid now s =
     (if streamer = [] \<or> sid = [] then (False, s)
      else case Touch_locked streamer sid now (fst s) of
        ((known, startJanitor), t) \<Rightarrow> (startJanitor, t, if known then snd s else onNew streamer (snd s)))"

text \<open>The critical section of a sweep: the streamers whose sessions ended, and whether none is left.\<close>

definition sweep_locked :: "time \<Rightarrow> hlsSessionTracker \<Rightarrow> (string list \<times> bool) \<times> hlsSessionTracker" where
  "sweep_locked cutoff t =
     (let expired = filter (\<lambda>(k, last). last < cutoff) (st_lastSeen t);
          left = filter (\<lambda>(k, last). \<not> last < cutoff) (st_lastSeen t)
      in ((map (\<lambda>(k, last). fst k) expired, left = []),
          t\<lparr>st_lastSeen := left, st_janitorRunning := st_janitorRunning t \<and> left \<noteq> []\<rparr>))"

definition sweep_sessions ::
  "(string \<Rightarrow> 'c \<Rightarrow> 'c) \<Rightarrow> time \<Rightarrow> hlsSessionTracker \<times> 'c \<Rightarrow> bool \<times> hlsSessionTracker \<times> 'c" where
  "sweep_sessions onExpire now s =
     (case sweep_locked (now - st_ttl (fst s)) (fst s) of
        ((expired, none), t) \<Rightarrow> (none, t, fold onExpire expired (snd s)))"

section \<open>Requests, janitors and callbacks\<close>

record 'c hls_run =
  hr_tracker :: hlsSessionTracker
  hr_new :: "string list"
  hr_expired :: "string list"
  hr_janitors :: nat
  hr_counts :: 'c

definition hls_start :: "duration \<Rightarrow> 'c \<Rightarrow> 'c hls_run" where
  "hls_start ttl c =
     \<lparr>hr_tracker = newHLSSessionTracker ttl, hr_new = [], hr_expired = [], hr_janitors = 0, hr_counts = c\<rparr>"

text \<open>A sweep reads the clock before it takes the lock, so its cutoff may be older than the sessions it then
  finds.  A janitor leaves its loop after the sweep that found no session; \<open>hr_janitors\<close> counts the janitors that
  have not given up their mark under the lock, so one that has only its last callbacks left to make counts no more.\<close>

inductive hls_step :: "(string \<Rightarrow> 'c \<Rightarrow> 'c) \<Rightarrow> (string \<Rightarrow> 'c \<Rightarrow> 'c) \<Rightarrow> 'c hls_run \<Rightarrow> 'c hls_run \<Rightarrow> bool"
  for onNew onExpire where
  hls_touch: "streamer \<noteq> [] \<Longrightarrow> sid \<noteq> [] \<Longrightarrow> Touch_locked streamer sid now (hr_tracker s) = ((known, startJanitor), t) \<Longrightarrow>
     hls_step onNew onExpire s
       (s\<lparr>hr_tracker := t, hr_new := (if known then hr_new s else streamer # hr_new s),
          hr_janitors := (if startJanitor then hr_janitors s + 1 else hr_janitors s)\<rparr>)"
| hls_onNew: "x \<in> set (hr_new s) \<Longrightarrow>
     hls_step onNew onExpire s (s\<lparr>hr_new := remove1 x (hr_new s), hr_counts := onNew x (hr_counts s)\<rparr>)"
| hls_sweep: "hr_janitors s > 0 \<Longrightarrow> sweep_locked cutoff (hr_tracker s) = ((gone, none), t) \<Longrightarrow>
     hls_step onNew onExpire s
       (s\<lparr>hr_tracker := t, hr_expired := gone @ hr_expired s,
          hr_janitors := (if none then hr_janitors s - 1 else hr_janitors s)\<rparr>)"
| hls_onExpire: "x \<in> set (hr_expired s) \<Longrightarrow>
     hls_step onNew onExpire s (s\<lparr>hr_expired := remove1 x (hr_expired s), hr_counts := onExpire x (hr_counts s)\<rparr>)"

inductive_cases hls_stepE: "hls_step onNew onExpire s s'"

definition sessions_of :: "string \<Rightarrow> hlsSessionTracker \<Rightarrow> int" where
  "sessions_of u t = int (length (filter (\<lambda>(k, last). fst k = u) (st_lastSeen t)))"

lemma count_list_pos: "x \<in> set xs \<Longrightarrow> Suc 0 \<le> count_list xs x"
  by (induction xs) auto

lemma alist_put_keys: "map fst (alist_put k v xs) = (if k \<in> set (map fst xs) then map fst xs else map fst xs @ [k])"
proof (induction xs)
  case (Cons x xs)
  then show ?case by (cases x) simp
qed simp

lemma alist_put_distinct: "distinct (map fst xs) \<Longrightarrow> distinct (map fst (alist_put k v xs))"
  by (simp add: alist_put_keys)

lemma alist_put_count:
  "int (length (filter (\<lambda>(k, v). P k) (alist_put k v xs))) =
   int (length (filter (\<lambda>(k, v). P k) xs)) + (if k \<notin> fst ` set xs \<and> P k then 1 else 0)"
proof -
  have len: "length (filter (\<lambda>(k, v). P k) ys) = length (filter P (map fst ys))" for ys :: "('a \<times> 'b) list"
    by (induction ys) auto
  show ?thesis unfolding len alist_put_keys by simp
qed

lemma sessions_swept:
  "int (length (filter (\<lambda>(k, last). fst k = u) (filter (\<lambda>(k, last). \<not> last < cutoff) xs))) =
   int (length (filter (\<lambda>(k, last). fst k = u) xs)) -
   int (count_list (map (\<lambda>(k, last). fst k) (filter (\<lambda>(k, last). last < cutoff) xs)) u)"
  by (induction xs) auto

section \<open>What the tracker relies on\<close>

text \<open>A counter of viewers: one callback adds one to one streamer's count, the other takes it off.\<close>

locale viewer_counter =
  fixes incr decr :: "string \<Rightarrow> 'c \<Rightarrow> 'c" and viewers :: "string \<Rightarrow> 'c \<Rightarrow> int"
  assumes viewers_incr: "viewers u (incr x c) = viewers u c + (if u = x then 1 else 0)"
    and viewers_decr: "viewers u (decr x c) = viewers u c - (if u = x then 1 else 0)"
begin

definition pending :: "string \<Rightarrow> 'c hls_run \<Rightarrow> int" where
  "pending u s = int (count_list (hr_new s) u) - int (count_list (hr_expired s) u)"

definition hls_inv :: "'c \<Rightarrow> 'c hls_run \<Rightarrow> bool" where
  "hls_inv c s \<longleftrightarrow>
     distinct (map fst (st_lastSeen (hr_tracker s))) \<and>
     hr_janitors s = (if st_janitorRunning (hr_tracker s) then 1 else 0) \<and>
     (st_lastSeen (hr_tracker s) \<noteq> [] \<longrightarrow> st_janitorRunning (hr_tracker s)) \<and>
     (\<forall>u. viewers u (hr_counts s) + pending u s = viewers u c + sessions_of u (hr_tracker s))"

lemma pending_simps:
  "pending u (s\<lparr>hr_new := x # hr_new s\<rparr>) = pending u s + (if u = x then 1 else 0)"
  "x \<in> set (hr_new s) \<Longrightarrow> pending u (s\<lparr>hr_new := remove1 x (hr_new s)\<rparr>) = pending u s - (if u = x then 1 else 0)"
  "pending u (s\<lparr>hr_expired := gone @ hr_expired s\<rparr>) = pending u s - int (count_list gone u)"
  "x \<in> set (hr_expired s) \<Longrightarrow> pending u (s\<lparr>hr_expired := remove1 x (hr_expired s)\<rparr>) = pending u s + (if u = x then 1 else 0)"
  by (auto simp: pending_def of_nat_diff count_list_pos)

lemma hls_invI:
  assumes "distinct (map fst (st_lastSeen (hr_tracker s)))"
    "hr_janitors s = (if st_janitorRunning (hr_tracker s) then 1 else 0)"
    "st_lastSeen (hr_tracker s) \<noteq> [] \<Longrightarrow> st_janitorRunning (hr_tracker s)"
    "\<And>u. viewers u (hr_counts s) + pending u s = viewers u c + sessions_of u (hr_tracker s)"
  shows "hls_inv c s"
  using assms by (simp add: hls_inv_def)

lemma hls_invD:
  assumes "hls_inv c s"
  shows "distinct (map fst (st_lastSeen (hr_tracker s)))"
    "hr_janitors s = (if st_janitorRunning (hr_tracker s) then 1 else 0)"
    "st_lastSeen (hr_tracker s) \<noteq> [] \<Longrightarrow> st_janitorRunning (hr_tracker s)"
    "viewers u (hr_counts s) + pending u s = viewers u c + sessions_of u (hr_tracker s)"
  using assms by (simp_all add: hls_inv_def)

lemma touch_inv:
  assumes inv: "hls_inv c s" and t: "Touch_locked streamer sid now (hr_tracker s) = ((known, start), t)"
  shows "hls_inv c (s\<lparr>hr_tracker := t, hr_new := (if known then hr_new s else streamer # hr_new s),
    hr_janitors := (if start then hr_janitors s + 1 else hr_janitors s)\<rparr>)"
proof -
  have known: "known = ((streamer, sid) \<in> fst ` set (st_lastSeen (hr_tracker s)))"
      "start = (\<not> known \<and> \<not> st_janitorRunning (hr_tracker s))"
      "st_janitorRunning t = (st_janitorRunning (hr_tracker s) \<or> start)"
      "st_lastSeen t = alist_put (streamer, sid) now (st_lastSeen (hr_tracker s))"
    using t unfolding Touch_locked_def Let_def by force+
  have seen: "sessions_of u t = sessions_of u (hr_tracker s) + (if \<not> known \<and> u = streamer then 1 else 0)" for u
    unfolding sessions_of_def known(1,4) by (simp add: alist_put_count)
  have pend: "pending u (s\<lparr>hr_tracker := t, hr_new := (if known then hr_new s else streamer # hr_new s), hr_janitors := j\<rparr>) =
      pending u s + (if \<not> known \<and> u = streamer then 1 else 0)" for u j
    by (simp add: pending_def)
  have "st_janitorRunning t"
  proof (cases known)
    case True
    then have "st_lastSeen (hr_tracker s) \<noteq> []" using known(1) by auto
    then show ?thesis using inv known(3) by (simp add: hls_inv_def)
  qed (simp add: known(2,3))
  moreover have "(if start then hr_janitors s + 1 else hr_janitors s) = 1"
    using hls_invD(2) [OF inv] calculation known(2,3) by auto
  moreover have "distinct (map fst (st_lastSeen t))" using hls_invD(1) [OF inv] by (simp only: known(4) alist_put_distinct)
  moreover have "viewers u (hr_counts s) + (pending u s + d) = viewers u c + (sessions_of u (hr_tracker s) + d)" for u d
    using hls_invD(4) [OF inv, of u] by simp
  ultimately show ?thesis unfolding hls_inv_def pend by (intro conjI allI) (simp_all add: seen)
qed

lemma sweep_inv:
  assumes inv: "hls_inv c s" and t: "sweep_locked cutoff (hr_tracker s) = ((gone, none), t)"
  shows "hls_inv c (s\<lparr>hr_tracker := t, hr_expired := gone @ hr_expired s,
    hr_janitors := (if none then hr_janitors s - 1 else hr_janitors s)\<rparr>)"
proof -
  let ?xs = "st_lastSeen (hr_tracker s)"
  have f: "st_lastSeen t = filter (\<lambda>(k, last). \<not> last < cutoff) ?xs" "none = (st_lastSeen t = [])"
      "gone = map (\<lambda>(k, last). fst k) (filter (\<lambda>(k, last). last < cutoff) ?xs)"
      "st_janitorRunning t = (st_janitorRunning (hr_tracker s) \<and> st_lastSeen t \<noteq> [])"
    using t by (auto simp: sweep_locked_def Let_def)
  have seen: "sessions_of u t = sessions_of u (hr_tracker s) - int (count_list gone u)" for u
    unfolding sessions_of_def f(1,3) by (rule sessions_swept)
  have pend: "pending u (s\<lparr>hr_tracker := t, hr_expired := gone @ hr_expired s, hr_janitors := j\<rparr>) =
      pending u s - int (count_list gone u)" for u j
    by (simp add: pending_def)
  have "distinct (map fst (st_lastSeen t))" using hls_invD(1) [OF inv] by (simp only: f(1) distinct_map_filter)
  moreover have left: "st_lastSeen t \<noteq> [] \<longrightarrow> st_janitorRunning t" using hls_invD(3) [OF inv] f(1,4) by (cases "st_lastSeen (hr_tracker s)") simp_all
  moreover have "(if none then hr_janitors s - 1 else hr_janitors s) = (if st_janitorRunning t then 1 else 0)"
    unfolding f(2,4) hls_invD(2) [OF inv] using left f(4) by (cases "st_lastSeen t = []") simp_all
  moreover have "viewers u (hr_counts s) + (pending u s - d) = viewers u c + (sessions_of u (hr_tracker s) - d)" for u d
    using hls_invD(4) [OF inv, of u] by simp
  ultimately show ?thesis unfolding hls_inv_def pend by (intro conjI allI) (simp_all add: seen)
qed

lemma callback_inv:
  assumes inv: "hls_inv c s"
  shows "x \<in> set (hr_new s) \<Longrightarrow> hls_inv c (s\<lparr>hr_new := remove1 x (hr_new s), hr_counts := incr x (hr_counts s)\<rparr>)"
    and "x \<in> set (hr_expired s) \<Longrightarrow> hls_inv c (s\<lparr>hr_expired := remove1 x (hr_expired s), hr_counts := decr x (hr_counts s)\<rparr>)"
proof -
  have eq: "viewers u (hr_counts s) + pending u s = viewers u c + sessions_of u (hr_tracker s)" for u
    using inv by (simp add: hls_inv_def)
  have "pending u (s\<lparr>hr_new := xs, hr_counts := cs\<rparr>) = pending u (s\<lparr>hr_new := xs\<rparr>)"
      "pending u (s\<lparr>hr_expired := xs, hr_counts := cs\<rparr>) = pending u (s\<lparr>hr_expired := xs\<rparr>)" for u xs cs
    by (simp_all add: pending_def)
  with inv eq show "x \<in> set (hr_new s) \<Longrightarrow> hls_inv c (s\<lparr>hr_new := remove1 x (hr_new s), hr_counts := incr x (hr_counts s)\<rparr>)"
      "x \<in> set (hr_expired s) \<Longrightarrow> hls_inv c (s\<lparr>hr_expired := remove1 x (hr_expired s), hr_counts := decr x (hr_counts s)\<rparr>)"
    by (auto simp: hls_inv_def pending_simps viewers_incr viewers_decr)
qed

lemma reachable_hls_inv: "(hls_step incr decr)\<^sup>*\<^sup>* (hls_start ttl c) s \<Longrightarrow> hls_inv c s"
proof (induction rule: rtranclp_induct)
  case base
  show ?case by (simp add: hls_inv_def hls_start_def newHLSSessionTracker_def pending_def sessions_of_def)
next
  case (step s s')
  from step.hyps(2) step.IH show ?case
    by (cases rule: hls_stepE) (auto intro: touch_inv sweep_inv callback_inv)
qed

lemma settled_counts:
  assumes "(hls_step incr decr)\<^sup>*\<^sup>* (hls_start ttl c) s" "hr_new s = []" "hr_expired s = []"
  shows "viewers u (hr_counts s) = viewers u c + sessions_of u (hr_tracker s)"
  using reachable_hls_inv [OF assms(1)] assms(2,3) by (simp add: hls_inv_def pending_def)

end

section \<open>The viewer count of the bus\<close>

text \<open>The media manager counts an HLS viewer as a local one, whatever the protocol; the metrics and the recorder of
  view totals beside it do not touch the count.\<close>

definition MediaManager_IncrementViewerCount :: "string \<Rightarrow> string \<Rightarrow> viewer_counts \<Rightarrow> viewer_counts" where
  "MediaManager_IncrementViewerCount user protocol = IncrementViewerCount user ''local''"

definition MediaManager_DecrementViewerCount :: "string \<Rightarrow> string \<Rightarrow> viewer_counts \<Rightarrow> viewer_counts" where
  "MediaManager_DecrementViewerCount user protocol = DecrementViewerCount user ''local''"

abbreviation "hls_onNew \<equiv> \<lambda>streamer. MediaManager_IncrementViewerCount streamer ''hls''"
abbreviation "hls_onExpire \<equiv> \<lambda>streamer. MediaManager_DecrementViewerCount streamer ''hls''"

lemma put_count_viewers:
  "GetViewerCount u (put_count x origin n c) =
   GetViewerCount u c + (if u = x then n - origin_count x origin c else 0)"
  by (simp add: GetViewerCount_def put_count_def local_counts_def origin_count_def alist_put_sum)

interpretation hls: viewer_counter hls_onNew hls_onExpire GetViewerCount
  by unfold_locales
    (simp_all add: MediaManager_IncrementViewerCount_def MediaManager_DecrementViewerCount_def
      IncrementViewerCount_def DecrementViewerCount_def put_count_viewers)

section \<open>Sessions end\<close>

text \<open>A sweep keeps exactly the sessions seen within the time to live.\<close>

lemma sweep_keeps:
  assumes "sweep_sessions onExpire now s = (none, t, c)"
  shows "(k, seen) \<in> set (st_lastSeen t) \<longleftrightarrow> (k, seen) \<in> set (st_lastSeen (fst s)) \<and> now - seen \<le> st_ttl (fst s)"
proof -
  have "st_lastSeen t = filter (\<lambda>(k, last). \<not> last < now - st_ttl (fst s)) (st_lastSeen (fst s))"
    using assms unfolding sweep_sessions_def sweep_locked_def Let_def by force
  then show ?thesis by auto
qed

lemma touch_known: "Touch_locked streamer sid now t = ((known, start), t') \<Longrightarrow> ((streamer, sid), now) \<in> set (st_lastSeen t')"
proof -
  have "(k, v) \<in> set (alist_put k v xs)" for k :: hlsSessionKey and v :: time and xs by (induction xs) auto
  then show "Touch_locked streamer sid now t = ((known, start), t') \<Longrightarrow> ?thesis" by (auto simp: Touch_locked_def Let_def)
qed

definition hls_first :: "string \<Rightarrow> string \<Rightarrow> time \<Rightarrow> 'c hls_run \<Rightarrow> 'c hls_run" where
  "hls_first a sid now s = s\<lparr>hr_tracker := \<lparr>st_ttl = hlsSessionTTL, st_lastSeen = [((a, sid), now)], st_janitorRunning = True\<rparr>,
     hr_new := [a], hr_janitors := 1\<rparr>"

lemma first_touch:
  assumes "a \<noteq> []" "sid \<noteq> []"
  shows "hls_step onNew onExpire (hls_start hlsSessionTTL c) (hls_first a sid now (hls_start hlsSessionTTL c))"
proof -
  have "Touch_locked a sid now (hr_tracker (hls_start hlsSessionTTL c)) =
      ((False, True), \<lparr>st_ttl = hlsSessionTTL, st_lastSeen = [((a, sid), now)], st_janitorRunning = True\<rparr>)"
    by (simp add: hls_start_def newHLSSessionTracker_def Touch_locked_def)
  from hls_touch [OF assms this, of onNew onExpire] show ?thesis by (simp add: hls_first_def hls_start_def)
qed

text \<open>The callbacks run outside the lock: one request stalled for the time to live between its critical section
  and its callback lets the expiry be counted before the start, and the count is short by one until it goes on.\<close>

lemma expiry_before_start:
  "\<exists>s. (hls_step hls_onNew hls_onExpire)\<^sup>*\<^sup>* (hls_start hlsSessionTTL c) s \<and>
       GetViewerCount ''alice'' (hr_counts s) = GetViewerCount ''alice'' c - 1"
proof -
  define s1 where "s1 = hls_first ''alice'' ''s'' 0 (hls_start hlsSessionTTL c)"
  define s2 where "s2 = s1\<lparr>hr_tracker := newHLSSessionTracker hlsSessionTTL, hr_expired := [''alice''], hr_janitors := 0\<rparr>"
  have "hls_step hls_onNew hls_onExpire (hls_start hlsSessionTTL c) s1" unfolding s1_def by (rule first_touch) simp_all
  moreover have "sweep_locked 1 (hr_tracker s1) = (([''alice''], True), newHLSSessionTracker hlsSessionTTL)"
    by (simp add: s1_def hls_first_def newHLSSessionTracker_def sweep_locked_def)
  then have "hls_step hls_onNew hls_onExpire s1 s2"
    using hls_sweep [of s1 1 "[''alice'']" True _ hls_onNew hls_onExpire]
    by (simp add: s1_def hls_first_def s2_def hls_start_def)
  moreover have "hls_step hls_onNew hls_onExpire s2 (s2\<lparr>hr_expired := [], hr_counts := hls_onExpire ''alice'' (hr_counts s2)\<rparr>)"
    using hls_step.hls_onExpire [of "''alice''" s2 hls_onNew hls_onExpire] by (simp add: s2_def)
  ultimately have "(hls_step hls_onNew hls_onExpire)\<^sup>*\<^sup>* (hls_start hlsSessionTTL c)
      (s2\<lparr>hr_expired := [], hr_counts := hls_onExpire ''alice'' (hr_counts s2)\<rparr>)"
    by (meson rtranclp.rtrancl_into_rtrancl rtranclp.rtrancl_refl)
  moreover have "GetViewerCount ''alice'' (hls_onExpire ''alice'' (hr_counts s2)) = GetViewerCount ''alice'' c - 1"
    by (simp add: hls.viewers_decr s2_def s1_def hls_first_def hls_start_def)
  ultimately show ?thesis by (intro exI [of _ "s2\<lparr>hr_expired := [], hr_counts := hls_onExpire ''alice'' (hr_counts s2)\<rparr>"]) simp
qed

section \<open>Properties\<close>

text \<open>C35. However requests, sweeps and callbacks interleave, at most one janitor runs and one runs while there is
  a session, and once the callbacks under way have been made a streamer's viewer count has grown by exactly the
  number of that streamer's open sessions: every session is counted once and uncounted once.\<close>

theorem hls_viewers_counted:
  assumes "(hls_step hls_onNew hls_onExpire)\<^sup>*\<^sup>* (hls_start ttl c) s"
  shows "hr_janitors s \<le> 1 \<and> (st_lastSeen (hr_tracker s) \<noteq> [] \<longrightarrow> hr_janitors s = 1) \<and>
    (hr_new s = [] \<longrightarrow> hr_expired s = [] \<longrightarrow>
       GetViewerCount u (hr_counts s) = GetViewerCount u c + sessions_of u (hr_tracker s))"
proof -
  note inv = hls.reachable_hls_inv [OF assms]
  have "hr_janitors s \<le> 1" "st_lastSeen (hr_tracker s) \<noteq> [] \<Longrightarrow> hr_janitors s = 1"
    using hls.hls_invD(2,3) [OF inv] by auto
  with hls.settled_counts [OF assms] show ?thesis by blast
qed

definition no_viewers :: viewer_counts where
  "no_viewers = \<lparr>vc_local = Map.empty, vc_federated = [], vc_updates = []\<rparr>"

theorem hls_viewers_counted_witness:
  "\<exists>s. (hls_step hls_onNew hls_onExpire)\<^sup>*\<^sup>* (hls_start hlsSessionTTL no_viewers) s \<and>
       st_lastSeen (hr_tracker s) = [((''a'', ''s''), 5)] \<and> GetViewerCount ''a'' (hr_counts s) = 1"
proof -
  define s1 where "s1 = hls_first ''a'' ''s'' 5 (hls_start hlsSessionTTL no_viewers)"
  define s2 where "s2 = s1\<lparr>hr_new := [], hr_counts := hls_onNew ''a'' no_viewers\<rparr>"
  have "hls_step hls_onNew hls_onExpire (hls_start hlsSessionTTL no_viewers) s1" unfolding s1_def by (rule first_touch) simp_all
  moreover have "hls_step hls_onNew hls_onExpire s1 s2"
    using hls_step.hls_onNew [of "''a''" s1 hls_onNew hls_onExpire] by (simp add: s1_def hls_first_def s2_def hls_start_def)
  ultimately have r: "(hls_step hls_onNew hls_onExpire)\<^sup>*\<^sup>* (hls_start hlsSessionTTL no_viewers) s2" by simp
  have "GetViewerCount ''a'' no_viewers = 0" by (simp add: no_viewers_def GetViewerCount_def local_counts_def)
  with hls_viewers_counted [OF r, of "''a''"] have "GetViewerCount ''a'' (hr_counts s2) = 1"
    by (simp add: s2_def s1_def hls_first_def hls_start_def sessions_of_def)
  with r show ?thesis by (intro exI [of _ s2]) (simp add: s2_def s1_def hls_first_def)
qed

end
