(* ===== verification/LiveHLS.thy ===== *)
theory LiveHLS
  imports Errors Complex_Main
begin

text \<open>
  The in-memory live HLS window of one stream (\<open>livehls/livehls.go\<close>, \<open>livehls/run.go\<close>): segments of several
  tracks arrive as events, short ones are joined into fragments, old ones age out, and the playlists advertise a
  sliding window of what is held.

  An event of the segmenter is the data the writer reads of it.  Float64 arithmetic is exact rational
  arithmetic followed by \<open>rnd\<close>, the rounding to the nearest float64, a parameter here: nothing below depends on
  how it rounds.  Unsigned counters of samples and ticks wrap as in the source; the media sequence counts segments
  and is a natural number.  Playlists are their lines as data; the text of a line is not modelled.
\<close>

section \<open>State\<close>

record Segment =
  sg_Seq :: nat
  sg_DurationTicks :: nat
  sg_SampleCount :: nat
  sg_data :: bytes
  sg_addedAt :: time
  sg_open :: bool
  sg_pieces :: nat

record Track =
  tk_Type :: string
  tk_Codec :: string
  tk_Timescale :: nat
  tk_Width :: nat
  tk_Height :: nat
  tk_Channels :: nat
  tk_SampleRate :: nat
  tk_Segments :: "Segment list"
  tk_init :: bytes
  tk_nextSeq :: nat

record Writer =
  wr_tracks :: "string \<rightharpoonup> Track"
  wr_order :: "string list"
  wr_window :: int
  wr_minDur :: duration
  wr_minFrag :: duration
  wr_retention :: duration
  wr_finished :: bool

datatype WriterOption = WithWindow int | WithMinFragment duration | WithMinDuration duration | WithRetention duration

fun apply_writer_option :: "WriterOption \<Rightarrow> Writer \<Rightarrow> Writer" where
  "apply_writer_option (WithWindow n) w = w\<lparr>wr_window := n\<rparr>"
| "apply_writer_option (WithMinFragment d) w = w\<lparr>wr_minFrag := d\<rparr>"
| "apply_writer_option (WithMinDuration d) w = w\<lparr>wr_minDur := d\<rparr>"
| "apply_writer_option (WithRetention d) w = w\<lparr>wr_retention := d\<rparr>"

definition NewWriter :: "WriterOption list \<Rightarrow> Writer" where
  "NewWriter opts =
     fold apply_writer_option opts
       \<lparr>wr_tracks = Map.empty, wr_order = [], wr_window = 0, wr_minDur = 0, wr_minFrag = 0, wr_retention = 0,
        wr_finished = False\<rparr>"

section \<open>Time in seconds\<close>

definition seg_seconds :: "(rat \<Rightarrow> rat) \<Rightarrow> nat \<Rightarrow> Segment \<Rightarrow> rat" where
  "seg_seconds rnd timescale s =
     (if timescale = 0 then 0 else rnd (rnd (of_nat (sg_DurationTicks s)) / rnd (of_nat timescale)))"

text \<open>\<open>Duration.Seconds\<close>; durations of the settings are not negative.\<close>

definition duration_seconds :: "(rat \<Rightarrow> rat) \<Rightarrow> duration \<Rightarrow> rat" where
  "duration_seconds rnd d =
     rnd (rnd (of_int (d div second)) + rnd (rnd (of_int (d mod second)) / rnd 1000000000))"

section \<open>Tracks\<close>

definition new_track :: Track where
  "new_track = \<lparr>tk_Type = ''unknown'', tk_Codec = [], tk_Timescale = 0, tk_Width = 0, tk_Height = 0, tk_Channels = 0,
     tk_SampleRate = 0, tk_Segments = [], tk_init = [], tk_nextSeq = 0\<rparr>"

text \<open>\<open>w.track(tid)\<close> followed by an update of the track it returns.\<close>

definition get_track :: "string \<Rightarrow> Writer \<Rightarrow> Track" where
  "get_track tid w = (case wr_tracks w tid of None \<Rightarrow> new_track | Some t \<Rightarrow> t)"

definition put_track :: "string \<Rightarrow> Track \<Rightarrow> Writer \<Rightarrow> Writer" where
  "put_track tid t w =
     w\<lparr>wr_tracks := (wr_tracks w)(tid \<mapsto> t),
       wr_order := (if wr_tracks w tid = None then sort (wr_order w @ [tid]) else wr_order w)\<rparr>"

record VideoRendition =
  vr_TrackID :: nat
  vr_Codec :: string
  vr_Timescale :: nat
  vr_CodedWidth :: nat
  vr_CodedHeight :: nat

record AudioRendition =
  ar_TrackID :: nat
  ar_Codec :: string
  ar_Timescale :: nat
  ar_NumberOfChannels :: nat
  ar_SampleRate :: nat

record MuxlCatalog =
  mc_Video :: "VideoRendition list option"
  mc_Audio :: "AudioRendition list option"

definition apply_video :: "VideoRendition \<Rightarrow> Writer \<Rightarrow> Writer" where
  "apply_video c w =
     (let tid = show_nat (vr_TrackID c) in
      put_track tid ((get_track tid w)\<lparr>tk_Type := ''video'', tk_Codec := vr_Codec c, tk_Timescale := vr_Timescale c,
        tk_Width := vr_CodedWidth c, tk_Height := vr_CodedHeight c\<rparr>) w)"

definition apply_audio :: "AudioRendition \<Rightarrow> Writer \<Rightarrow> Writer" where
  "apply_audio c w =
     (let tid = show_nat (ar_TrackID c) in
      put_track tid ((get_track tid w)\<lparr>tk_Type := ''audio'', tk_Codec := ar_Codec c, tk_Timescale := ar_Timescale c,
        tk_Channels := ar_NumberOfChannels c, tk_SampleRate := ar_SampleRate c\<rparr>) w)"

definition applyCatalog :: "MuxlCatalog \<Rightarrow> Writer \<Rightarrow> Writer" where
  "applyCatalog cat w =
     (let w1 = (case mc_Video cat of None \<Rightarrow> w | Some rs \<Rightarrow> fold apply_video rs w)
      in case mc_Audio cat of None \<Rightarrow> w1 | Some rs \<Rightarrow> fold apply_audio rs w1)"

section \<open>The advertised window\<close>

fun span_start :: "(rat \<Rightarrow> rat) \<Rightarrow> rat \<Rightarrow> nat \<Rightarrow> Segment list \<Rightarrow> rat \<Rightarrow> nat \<Rightarrow> nat \<Rightarrow> nat" where
  "span_start rnd need timescale segs spanned 0 start = start"
| "span_start rnd need timescale segs spanned (Suc i) start =
     (let spanned' = rnd (spanned + seg_seconds rnd timescale (segs ! i)) in
      if spanned' \<ge> need then (if i < start then i else start)
      else if i = 0 then 0
      else span_start rnd need timescale segs spanned' i start)"

definition advertised_end :: "Segment list \<Rightarrow> nat" where
  "advertised_end segs = length (dropWhile sg_open (rev segs))"

definition advertisedRange :: "(rat \<Rightarrow> rat) \<Rightarrow> Writer \<Rightarrow> Track \<Rightarrow> nat \<times> nat" where
  "advertisedRange rnd w t =
     (let end' = advertised_end (tk_Segments t) in
      if wr_window w \<le> 0 \<or> int end' \<le> wr_window w then (0, end')
      else
        let start = end' - nat (wr_window w) in
        (if wr_minDur w > 0 \<and> tk_Timescale t > 0
         then span_start rnd (duration_seconds rnd (wr_minDur w)) (tk_Timescale t) (tk_Segments t) 0 end' start
         else start, end'))"

definition advertised :: "(rat \<Rightarrow> rat) \<Rightarrow> Writer \<Rightarrow> Track \<Rightarrow> Segment list" where
  "advertised rnd w t = (case advertisedRange rnd w t of (start, end') \<Rightarrow> drop start (take end' (tk_Segments t)))"

section \<open>Observing events\<close>

record track_piece =
  tp_data :: bytes
  tp_duration :: nat
  tp_samples :: nat

datatype MuxlEvent =
    InitEvent "(string \<times> bytes) list" "MuxlCatalog option"
  | SegmentEvent "(string \<times> track_piece) list"
  | OtherEvent string

definition too_short :: "(rat \<Rightarrow> rat) \<Rightarrow> Writer \<Rightarrow> nat \<Rightarrow> Segment \<Rightarrow> bool" where
  "too_short rnd w timescale s \<longleftrightarrow>
     wr_minFrag w > 0 \<and> seg_seconds rnd timescale s < duration_seconds rnd (wr_minFrag w)"

definition grow_fragment :: "(rat \<Rightarrow> rat) \<Rightarrow> Writer \<Rightarrow> nat \<Rightarrow> track_piece \<Rightarrow> Segment \<Rightarrow> Segment" where
  "grow_fragment rnd w timescale p f =
     (let g = f\<lparr>sg_DurationTicks := (sg_DurationTicks f + tp_duration p) mod 2 ^ 64,
               sg_SampleCount := (sg_SampleCount f + tp_samples p) mod 2 ^ 32,
               sg_data := sg_data f @ tp_data p, sg_pieces := sg_pieces f + 1\<rparr>
      in g\<lparr>sg_open := too_short rnd w timescale g\<rparr>)"

definition new_segment :: "(rat \<Rightarrow> rat) \<Rightarrow> Writer \<Rightarrow> time \<Rightarrow> Track \<Rightarrow> track_piece \<Rightarrow> Segment" where
  "new_segment rnd w now t p =
     (let s = \<lparr>sg_Seq = tk_nextSeq t, sg_DurationTicks = tp_duration p, sg_SampleCount = tp_samples p,
              sg_data = tp_data p, sg_addedAt = now, sg_open = False, sg_pieces = 1\<rparr>
      in s\<lparr>sg_open := tk_Timescale t > 0 \<and> too_short rnd w (tk_Timescale t) s\<rparr>)"

definition observe_piece :: "(rat \<Rightarrow> rat) \<Rightarrow> Writer \<Rightarrow> time \<Rightarrow> track_piece \<Rightarrow> Track \<Rightarrow> Track" where
  "observe_piece rnd w now p t =
     (if tk_Segments t \<noteq> [] \<and> sg_open (last (tk_Segments t)) then
        t\<lparr>tk_Segments := butlast (tk_Segments t) @ [grow_fragment rnd w (tk_Timescale t) p (last (tk_Segments t))]\<rparr>
      else
        let t1 = t\<lparr>tk_Segments := tk_Segments t @ [new_segment rnd w now t p], tk_nextSeq := tk_nextSeq t + 1\<rparr> in
        if wr_retention w \<le> 0 \<and> wr_window w > 0 \<and> int (fst (advertisedRange rnd w t1)) > wr_window w
        then t1\<lparr>tk_Segments := drop (fst (advertisedRange rnd w t1) - nat (wr_window w)) (tk_Segments t1)\<rparr>
        else t1)"

definition expire_track :: "time \<Rightarrow> Track \<Rightarrow> Track" where
  "expire_track cutoff t = t\<lparr>tk_Segments := dropWhile (\<lambda>s. sg_addedAt s < cutoff) (tk_Segments t)\<rparr>"

definition evictExpired :: "time \<Rightarrow> Writer \<Rightarrow> Writer" where
  "evictExpired now w =
     (if wr_retention w \<le> 0 then w
      else w\<lparr>wr_tracks := (\<lambda>tid. map_option (expire_track (now - wr_retention w)) (wr_tracks w tid))\<rparr>)"

definition observe_track :: "(rat \<Rightarrow> rat) \<Rightarrow> time \<Rightarrow> string \<times> track_piece \<Rightarrow> Writer \<Rightarrow> Writer" where
  "observe_track rnd now tp w = put_track (fst tp) (observe_piece rnd w now (snd tp) (get_track (fst tp) w)) w"

definition Observe :: "(rat \<Rightarrow> rat) \<Rightarrow> time \<Rightarrow> MuxlEvent \<Rightarrow> Writer \<Rightarrow> go_error option \<times> Writer" where
  "Observe rnd now ev w =
     (case ev of
        InitEvent inits cat \<Rightarrow>
          (let w1 = fold (\<lambda>(tid, b) u. put_track tid ((get_track tid u)\<lparr>tk_init := b\<rparr>) u) inits w
           in (None, case cat of None \<Rightarrow> w1 | Some c \<Rightarrow> applyCatalog c w1))
      | SegmentEvent pieces \<Rightarrow> (None, evictExpired now (fold (observe_track rnd now) (sort_key fst pieces) w))
      | OtherEvent ty \<Rightarrow> (Some (WrapErr (''livehls: unexpected event type '' @ ty) []), w))"

section \<open>Reading\<close>

definition Empty :: "time \<Rightarrow> Writer \<Rightarrow> bool \<times> Writer" where
  "Empty now w =
     (let w1 = evictExpired now w
      in (list_all (\<lambda>tid. tk_Segments (get_track tid w1) = []) (wr_order w1), w1))"

definition Finalize :: "Writer \<Rightarrow> Writer" where
  "Finalize w =
     w\<lparr>wr_finished := True,
       wr_tracks := (\<lambda>tid. map_option (\<lambda>t. if tk_Segments t = [] then t
          else t\<lparr>tk_Segments := butlast (tk_Segments t) @ [(last (tk_Segments t))\<lparr>sg_open := False\<rparr>]\<rparr>) (wr_tracks w tid))\<rparr>"

definition TrackIDs :: "Writer \<Rightarrow> string list" where
  "TrackIDs w = wr_order w"

record VideoTrack =
  vt_ID :: string
  vt_Codec :: string
  vt_Width :: nat
  vt_Height :: nat

definition VideoTracks :: "Writer \<Rightarrow> VideoTrack list" where
  "VideoTracks w =
     concat (map (\<lambda>tid. case wr_tracks w tid of
         None \<Rightarrow> []
       | Some t \<Rightarrow> if tk_Type t \<noteq> ''video'' then []
                   else [\<lparr>vt_ID = tid, vt_Codec = tk_Codec t, vt_Width = tk_Width t, vt_Height = tk_Height t\<rparr>])
       (wr_order w))"

definition Writer_Track :: "(rat \<Rightarrow> rat) \<Rightarrow> string \<Rightarrow> Writer \<Rightarrow> Track option" where
  "Writer_Track rnd tid w =
     map_option (\<lambda>t. t\<lparr>tk_Segments := advertised rnd w t, tk_init := []\<rparr>) (wr_tracks w tid)"

definition InitSegment :: "string \<Rightarrow> Writer \<Rightarrow> bytes option" where
  "InitSegment tid w = map_option tk_init (wr_tracks w tid)"

definition SegmentData :: "time \<Rightarrow> string \<Rightarrow> nat \<Rightarrow> Writer \<Rightarrow> bytes option \<times> Writer" where
  "SegmentData now tid seq w =
     (let w1 = evictExpired now w
      in (case wr_tracks w1 tid of
            None \<Rightarrow> None
          | Some t \<Rightarrow> map_option sg_data (find (\<lambda>s. sg_Seq s = seq \<and> \<not> sg_open s) (tk_Segments t)), w1))"

fun primary_audio :: "Writer \<Rightarrow> string list \<Rightarrow> string \<Rightarrow> string" where
  "primary_audio w [] acc = acc"
| "primary_audio w (tid # tids) acc =
     (if tk_Type (get_track tid w) = ''audio'' then
        (if prefix ''mp4a'' (tk_Codec (get_track tid w)) then tid
         else primary_audio w tids (if acc = [] then tid else acc))
      else primary_audio w tids acc)"

definition PrimaryAudioTrackID :: "Writer \<Rightarrow> string" where
  "PrimaryAudioTrackID w = primary_audio w (wr_order w) []"

section \<open>Playlists\<close>

datatype playlist_line =
    TargetDuration int
  | MediaSequence nat
  | PlaylistTypeVOD
  | MapInit string
  | SegmentLine rat string
  | EndList

definition MediaPlaylist ::
  "(rat \<Rightarrow> rat) \<Rightarrow> time \<Rightarrow> string \<Rightarrow> string \<Rightarrow> (nat \<Rightarrow> string) \<Rightarrow> Writer \<Rightarrow> playlist_line list option \<times> Writer" where
  "MediaPlaylist rnd now tid initURL segURI w =
     (let w1 = evictExpired now w in
      case wr_tracks w1 tid of
        None \<Rightarrow> (None, w1)
      | Some t \<Rightarrow>
          (let segs = advertised rnd w1 t;
               maxDur = fold (\<lambda>s d. max d (seg_seconds rnd (tk_Timescale t) s)) segs 0;
               target = max 1 \<lceil>maxDur\<rceil>;
               mediaSeq = (if segs = [] then 0 else sg_Seq (hd segs))
           in (Some ([TargetDuration target, MediaSequence mediaSeq] @
                     (if wr_finished w1 then [PlaylistTypeVOD] else []) @ [MapInit initURL] @
                     map (\<lambda>s. SegmentLine (seg_seconds rnd (tk_Timescale t) s) (segURI (sg_Seq s))) segs @
                     (if wr_finished w1 then [EndList] else [])), w1)))"

definition peakBitrate :: "(rat \<Rightarrow> rat) \<Rightarrow> Track \<Rightarrow> int" where
  "peakBitrate rnd t =
     (let size8 = sum_list (map (\<lambda>s. length (sg_data s)) (tk_Segments t));
          ticks = sum_list (map sg_DurationTicks (tk_Segments t)) mod 2 ^ 64
      in if ticks = 0 \<or> tk_Timescale t = 0 then 0
         else let secs = rnd (rnd (of_nat ticks) / rnd (of_nat (tk_Timescale t)))
              in \<lfloor>rnd (rnd (of_nat (size8 * 8)) / secs)\<rfloor>)"

datatype master_line =
    AudioRenditionLine string bool nat string
  | VariantLine bool int string nat nat string

definition MasterPlaylist :: "(rat \<Rightarrow> rat) \<Rightarrow> time \<Rightarrow> (string \<Rightarrow> string) \<Rightarrow> Writer \<Rightarrow> master_line list \<times> Writer" where
  "MasterPlaylist rnd now trackURL w =
     (let w1 = evictExpired now w;
          primaryAudio = primary_audio w1 (wr_order w1) [];
          audioCodec = (if primaryAudio = [] then [] else tk_Codec (get_track primaryAudio w1));
          audio = filter (\<lambda>tid. tk_Type (get_track tid w1) = ''audio'') (wr_order w1);
          video = filter (\<lambda>tid. tk_Type (get_track tid w1) = ''video'') (wr_order w1)
      in (map (\<lambda>tid. let t = get_track tid w1 in
                 AudioRenditionLine (tk_Codec t) (tid = primaryAudio) (max (tk_Channels t) 2) (trackURL tid)) audio @
          map (\<lambda>tid. let t = get_track tid w1 in
                 VariantLine (primaryAudio \<noteq> []) (peakBitrate rnd t)
                   (if audioCodec \<noteq> [] then tk_Codec t @ '','' @ audioCodec else tk_Codec t)
                   (tk_Width t) (tk_Height t) (trackURL tid)) video, w1))"

section \<open>Feeding a whole stream\<close>

text \<open>\<open>drive\<close>: every event is drained, the first error of the writer wins over the producer's.\<close>

fun drive_events :: "(rat \<Rightarrow> rat) \<Rightarrow> (time \<times> MuxlEvent) list \<Rightarrow> go_error option \<Rightarrow> Writer \<Rightarrow> go_error option \<times> Writer" where
  "drive_events rnd [] obsErr w = (obsErr, w)"
| "drive_events rnd ((now, ev) # evs) obsErr w =
     (if obsErr = None then case Observe rnd now ev w of (e, w1) \<Rightarrow> drive_events rnd evs e w1
      else drive_events rnd evs obsErr w)"

definition drive :: "(rat \<Rightarrow> rat) \<Rightarrow> (time \<times> MuxlEvent) list \<Rightarrow> go_error option \<Rightarrow> Writer \<Rightarrow> Writer \<times> go_error option" where
  "drive rnd evs runErr w =
     (case drive_events rnd evs None w of
        (Some e, w1) \<Rightarrow> (w1, Some e)
      | (None, w1) \<Rightarrow> (w1, runErr))"

section \<open>Fragments lose nothing\<close>

text \<open>The bytes observed of a track, in order.\<close>

definition event_bytes :: "string \<Rightarrow> MuxlEvent \<Rightarrow> bytes" where
  "event_bytes tid ev =
     (case ev of SegmentEvent pieces \<Rightarrow> concat (map (\<lambda>(t, p). if t = tid then tp_data p else []) (sort_key fst pieces)) | _ \<Rightarrow> [])"

text \<open>A track after it has observed \<open>B\<close>: the segments it holds are the last ones, with consecutive media sequence
  numbers, their bytes are the end of \<open>B\<close>, and at most the last is still open.\<close>

definition track_ok :: "bytes \<Rightarrow> Track \<Rightarrow> bool" where
  "track_ok B t \<longleftrightarrow>
     map sg_Seq (tk_Segments t) = [tk_nextSeq t - length (tk_Segments t)..<tk_nextSeq t] \<and>
     length (tk_Segments t) \<le> tk_nextSeq t \<and>
     (\<forall>s\<in>set (butlast (tk_Segments t)). \<not> sg_open s) \<and>
     (\<exists>D. B = D @ concat (map sg_data (tk_Segments t)))"

lemma track_ok_drop:
  assumes "track_ok B t"
  shows "track_ok B (t\<lparr>tk_Segments := drop n (tk_Segments t)\<rparr>)"
proof -
  let ?segs = "tk_Segments t"
  have "map sg_Seq (drop n ?segs) = drop n [tk_nextSeq t - length ?segs..<tk_nextSeq t]"
    using assms unfolding track_ok_def by (metis drop_map)
  also have "\<dots> = [tk_nextSeq t - length (drop n ?segs)..<tk_nextSeq t]"
    using assms by (cases "n \<le> length ?segs") (auto simp: track_ok_def drop_upt)
  finally have "map sg_Seq (drop n ?segs) = [tk_nextSeq t - length (drop n ?segs)..<tk_nextSeq t]" .
  moreover have "\<exists>D. B = D @ concat (map sg_data (drop n ?segs))"
  proof -
    obtain D where "B = D @ concat (map sg_data ?segs)" using assms by (auto simp: track_ok_def)
    moreover have "concat (map sg_data ?segs) = concat (map sg_data (take n ?segs)) @ concat (map sg_data (drop n ?segs))"
      by (metis append_take_drop_id concat_append map_append)
    ultimately have "B = (D @ concat (map sg_data (take n ?segs))) @ concat (map sg_data (drop n ?segs))" by simp
    then show ?thesis by blast
  qed
  moreover have "\<forall>s\<in>set (butlast (drop n ?segs)). \<not> sg_open s"
    using assms by (auto simp: track_ok_def butlast_drop dest: in_set_dropD)
  moreover have "length (drop n ?segs) \<le> tk_nextSeq t" using assms by (auto simp: track_ok_def)
  ultimately show ?thesis by (simp add: track_ok_def)
qed

lemma track_ok_new: "track_ok B new_track"
  by (simp add: track_ok_def new_track_def)

lemma track_ok_cong:
  "tk_Segments t = tk_Segments u \<Longrightarrow> tk_nextSeq t = tk_nextSeq u \<Longrightarrow> track_ok B t = track_ok B u"
  by (simp add: track_ok_def)

lemma track_ok_expire: "track_ok B t \<Longrightarrow> track_ok B (expire_track cutoff t)"
  using track_ok_drop by (simp add: expire_track_def dropWhile_eq_drop)

lemma grow_fragment_fields [simp]:
  "sg_Seq (grow_fragment rnd w ts p f) = sg_Seq f" "sg_data (grow_fragment rnd w ts p f) = sg_data f @ tp_data p"
  "sg_addedAt (grow_fragment rnd w ts p f) = sg_addedAt f"
  by (simp_all add: grow_fragment_def Let_def)

lemma new_segment_fields [simp]:
  "sg_Seq (new_segment rnd w now t p) = tk_nextSeq t" "sg_data (new_segment rnd w now t p) = tp_data p"
  "sg_addedAt (new_segment rnd w now t p) = now"
  by (simp_all add: new_segment_def Let_def)

lemma track_ok_grow:
  assumes ok: "track_ok B t" and ne: "tk_Segments t \<noteq> []"
  shows "track_ok (B @ tp_data p) (t\<lparr>tk_Segments := butlast (tk_Segments t) @ [grow_fragment rnd w ts p (last (tk_Segments t))]\<rparr>)"
proof -
  define xs x where "xs = butlast (tk_Segments t)" and "x = last (tk_Segments t)"
  have segs: "tk_Segments t = xs @ [x]" using ne by (simp add: xs_def x_def)
  show ?thesis using ok unfolding track_ok_def segs by auto
qed

lemma track_ok_append:
  assumes ok: "track_ok B t" and cl: "tk_Segments t \<noteq> [] \<Longrightarrow> \<not> sg_open (last (tk_Segments t))"
  shows "track_ok (B @ tp_data p) (t\<lparr>tk_Segments := tk_Segments t @ [new_segment rnd w now t p], tk_nextSeq := tk_nextSeq t + 1\<rparr>)"
proof -
  have "\<forall>s\<in>set (tk_Segments t). \<not> sg_open s"
  proof (cases "tk_Segments t" rule: rev_cases)
    case (snoc xs x)
    with cl ok show ?thesis by (auto simp: track_ok_def)
  qed simp
  then show ?thesis using ok by (auto simp: track_ok_def Suc_diff_le)
qed

lemma track_ok_observe:
  assumes ok: "track_ok B t"
  shows "track_ok (B @ tp_data p) (observe_piece rnd w now p t)"
proof (cases "tk_Segments t \<noteq> [] \<and> sg_open (last (tk_Segments t))")
  case True
  then show ?thesis using track_ok_grow [OF ok] by (simp add: observe_piece_def)
next
  case False
  define t1 where "t1 = t\<lparr>tk_Segments := tk_Segments t @ [new_segment rnd w now t p], tk_nextSeq := tk_nextSeq t + 1\<rparr>"
  have t1: "track_ok (B @ tp_data p) t1" unfolding t1_def by (rule track_ok_append [OF ok]) (use False in simp)
  have "observe_piece rnd w now p t = t1 \<or> (\<exists>n. observe_piece rnd w now p t = t1\<lparr>tk_Segments := drop n (tk_Segments t1)\<rparr>)"
    unfolding observe_piece_def Let_def t1_def [symmetric] if_not_P [OF False] by (auto split del: if_split split: if_splits)
  with t1 track_ok_drop [OF t1] show ?thesis by auto
qed

definition writer_ok :: "(string \<Rightarrow> bytes) \<Rightarrow> Writer \<Rightarrow> bool" where
  "writer_ok B w \<longleftrightarrow> (\<forall>tid. track_ok (B tid) (get_track tid w))"

lemma get_put_track [simp]: "get_track tid (put_track tid' t w) = (if tid = tid' then t else get_track tid w)"
  by (simp add: get_track_def put_track_def)

lemma put_track_settings [simp]:
  "wr_retention (put_track tid t w) = wr_retention w" "wr_window (put_track tid t w) = wr_window w"
  "wr_minDur (put_track tid t w) = wr_minDur w" "wr_minFrag (put_track tid t w) = wr_minFrag w"
  by (simp_all add: put_track_def)

lemma get_track_evict:
  "get_track tid (evictExpired now w) =
   (if wr_retention w \<le> 0 then get_track tid w else expire_track (now - wr_retention w) (get_track tid w))"
  by (auto simp: evictExpired_def get_track_def new_track_def expire_track_def split: option.splits)

lemma writer_ok_evict: "writer_ok B w \<Longrightarrow> writer_ok B (evictExpired now w)"
  by (simp add: writer_ok_def get_track_evict track_ok_expire)

lemma writer_ok_config:
  assumes "writer_ok B w" "tk_Segments t = tk_Segments (get_track tid w)" "tk_nextSeq t = tk_nextSeq (get_track tid w)"
  shows "writer_ok B (put_track tid t w)"
  using assms track_ok_cong [of t "get_track tid w"] by (auto simp: writer_ok_def)

lemma writer_ok_fold: "(\<And>x w. writer_ok B w \<Longrightarrow> writer_ok B (f x w)) \<Longrightarrow> writer_ok B w \<Longrightarrow> writer_ok B (fold f xs w)"
  by (induction xs arbitrary: w) auto

lemma writer_ok_catalog: "writer_ok B w \<Longrightarrow> writer_ok B (applyCatalog c w)"
  unfolding applyCatalog_def Let_def
  by (auto intro!: writer_ok_fold writer_ok_config simp: apply_video_def apply_audio_def Let_def split: option.splits)

lemma writer_ok_pieces:
  "writer_ok B w \<Longrightarrow>
   writer_ok (\<lambda>tid. B tid @ concat (map (\<lambda>(t, p). if t = tid then tp_data p else []) ps)) (fold (observe_track rnd now) ps w)"
proof (induction ps arbitrary: B w)
  case (Cons tp ps)
  obtain t p where tp: "tp = (t, p)" by fastforce
  let ?B = "\<lambda>tid. B tid @ (if t = tid then tp_data p else [])"
  have "writer_ok ?B (observe_track rnd now tp w)"
    using Cons.prems track_ok_observe [of "B t" "get_track t w"] by (auto simp: writer_ok_def observe_track_def tp)
  from Cons.IH [OF this] show ?case by (simp add: tp)
qed (simp add: writer_ok_def)

lemma writer_ok_Observe:
  assumes ok: "writer_ok B w" and r: "Observe rnd now ev w = (e, w1)"
  shows "writer_ok (\<lambda>tid. B tid @ event_bytes tid ev) w1"
proof (cases ev)
  case (InitEvent inits cat)
  have "writer_ok B (fold (\<lambda>(tid, b) u. put_track tid ((get_track tid u)\<lparr>tk_init := b\<rparr>) u) inits w)"
    by (rule writer_ok_fold [OF _ ok]) (auto intro!: writer_ok_config)
  then show ?thesis using r InitEvent
    by (auto simp: Observe_def event_bytes_def writer_ok_catalog Let_def split: option.splits)
next
  case (SegmentEvent ps)
  from writer_ok_evict [OF writer_ok_pieces [OF ok, of "sort_key fst ps" rnd now], of now] r SegmentEvent show ?thesis
    by (auto simp: Observe_def event_bytes_def)
qed (use ok r in \<open>auto simp: Observe_def event_bytes_def\<close>)

lemma NewWriter_tracks: "wr_tracks (NewWriter opts) = Map.empty"
proof -
  have "wr_tracks (fold apply_writer_option opts w) = wr_tracks w" for w
  proof (induction opts arbitrary: w)
    case (Cons x xs)
    have "wr_tracks (apply_writer_option x w) = wr_tracks w" by (cases x) simp_all
    with Cons show ?case by simp
  qed simp
  then show ?thesis by (simp add: NewWriter_def)
qed

lemma writer_ok_start: "writer_ok B (NewWriter opts)"
  by (simp add: writer_ok_def get_track_def NewWriter_tracks track_ok_new)

section \<open>A window in use\<close>

text \<open>Calls on one writer in the order its mutex admits them: events, reads (every read ages segments out first)
  and the end of the stream.\<close>

datatype writer_call = CallObserve time MuxlEvent | CallRead time | CallFinalize

fun run_call :: "(rat \<Rightarrow> rat) \<Rightarrow> writer_call \<Rightarrow> Writer \<Rightarrow> Writer" where
  "run_call rnd (CallObserve now ev) w = snd (Observe rnd now ev w)"
| "run_call rnd (CallRead now) w = evictExpired now w"
| "run_call rnd CallFinalize w = Finalize w"

abbreviation run_calls :: "(rat \<Rightarrow> rat) \<Rightarrow> writer_call list \<Rightarrow> Writer \<Rightarrow> Writer" where
  "run_calls rnd cs w \<equiv> fold (run_call rnd) cs w"

fun call_bytes :: "string \<Rightarrow> writer_call \<Rightarrow> bytes" where
  "call_bytes tid (CallObserve now ev) = event_bytes tid ev"
| "call_bytes tid _ = []"

lemma get_track_Finalize:
  "get_track tid (Finalize w) =
   (let t = get_track tid w in if tk_Segments t = [] then t
      else t\<lparr>tk_Segments := butlast (tk_Segments t) @ [(last (tk_Segments t))\<lparr>sg_open := False\<rparr>]\<rparr>)"
  by (auto simp: Finalize_def get_track_def new_track_def Let_def split: option.splits)

lemma track_ok_close:
  assumes ok: "track_ok B t" and ne: "tk_Segments t \<noteq> []"
  shows "track_ok B (t\<lparr>tk_Segments := butlast (tk_Segments t) @ [(last (tk_Segments t))\<lparr>sg_open := False\<rparr>]\<rparr>)"
proof -
  define xs x where "xs = butlast (tk_Segments t)" and "x = last (tk_Segments t)"
  have segs: "tk_Segments t = xs @ [x]" using ne by (simp add: xs_def x_def)
  show ?thesis using ok unfolding track_ok_def segs by auto
qed

lemma writer_ok_call: "writer_ok B w \<Longrightarrow> writer_ok (\<lambda>tid. B tid @ call_bytes tid c) (run_call rnd c w)"
proof (cases c)
  case CallFinalize
  assume "writer_ok B w"
  with CallFinalize show ?thesis by (auto simp: writer_ok_def get_track_Finalize Let_def track_ok_close)
qed (auto intro: writer_ok_Observe [OF _ prod.collapse [symmetric]] writer_ok_evict)

lemma writer_ok_calls:
  "writer_ok B w \<Longrightarrow> writer_ok (\<lambda>tid. B tid @ concat (map (call_bytes tid) cs)) (run_calls rnd cs w)"
proof (induction cs arbitrary: B w)
  case (Cons c cs)
  from Cons.IH [OF writer_ok_call [OF Cons.prems, of c rnd]] show ?case by simp
qed simp

lemma fold_settings:
  "(\<And>x w. wr_retention (f x w) = wr_retention w) \<Longrightarrow> wr_retention (fold f xs w) = wr_retention w"
  by (induction xs arbitrary: w) simp_all

lemma run_call_retention [simp]: "wr_retention (run_call rnd c w) = wr_retention w"
proof (cases c)
  case (CallObserve now ev)
  show ?thesis
  proof (cases ev)
    case (InitEvent inits cat)
    have "wr_retention (fold (\<lambda>(tid, b) u. put_track tid ((get_track tid u)\<lparr>tk_init := b\<rparr>) u) inits w) = wr_retention w"
      by (rule fold_settings) auto
    moreover have "wr_retention (applyCatalog c u) = wr_retention u" for c u
      by (simp add: applyCatalog_def fold_settings apply_video_def apply_audio_def Let_def split: option.splits)
    ultimately show ?thesis using CallObserve InitEvent by (simp add: Observe_def Let_def split: option.splits)
  next
    case (SegmentEvent ps)
    then show ?thesis using CallObserve by (simp add: Observe_def evictExpired_def fold_settings observe_track_def)
  qed (simp add: CallObserve Observe_def)
qed (simp_all add: evictExpired_def Finalize_def)

lemma run_calls_retention [simp]: "wr_retention (run_calls rnd cs w) = wr_retention w"
  by (induction cs arbitrary: w) simp_all

section \<open>A closed segment stays until it ages out\<close>

definition holds_segment :: "string \<Rightarrow> Segment \<Rightarrow> Writer \<Rightarrow> bool" where
  "holds_segment tid s w \<longleftrightarrow> s \<in> set (tk_Segments (get_track tid w)) \<and> \<not> sg_open s"

fun call_time_ok :: "time \<Rightarrow> writer_call \<Rightarrow> bool" where
  "call_time_ok L (CallObserve now ev) = (now \<le> L)"
| "call_time_ok L (CallRead now) = (now \<le> L)"
| "call_time_ok L CallFinalize = True"

lemma dropWhile_keeps: "x \<in> set xs \<Longrightarrow> \<not> P x \<Longrightarrow> x \<in> set (dropWhile P xs)"
  by (induction xs) auto

lemma holds_evict:
  "holds_segment tid s w \<Longrightarrow> now \<le> sg_addedAt s + wr_retention w \<Longrightarrow> holds_segment tid s (evictExpired now w)"
  by (auto simp: holds_segment_def get_track_evict expire_track_def intro: dropWhile_keeps)

lemma closed_in_butlast: "s \<in> set xs \<Longrightarrow> \<not> P s \<Longrightarrow> P (last xs) \<Longrightarrow> s \<in> set (butlast xs)"
  by (cases xs rule: rev_cases) auto

lemma holds_piece:
  assumes h: "holds_segment tid s w" and r: "wr_retention w > 0"
  shows "holds_segment tid s (observe_track rnd now tp w)"
proof -
  let ?t = "get_track tid w"
  have "s \<in> set (tk_Segments (observe_piece rnd w now p ?t))" for p
    using h r closed_in_butlast [of s "tk_Segments ?t" sg_open]
    by (auto simp: holds_segment_def observe_piece_def Let_def)
  with h show ?thesis by (auto simp: holds_segment_def observe_track_def)
qed

lemma holds_pieces:
  "holds_segment tid s w \<Longrightarrow> wr_retention w > 0 \<Longrightarrow> holds_segment tid s (fold (observe_track rnd now) ps w)"
  by (induction ps arbitrary: w) (simp_all add: holds_piece observe_track_def [THEN arg_cong [of _ _ wr_retention]])

lemma holds_config:
  "holds_segment tid s w \<Longrightarrow> tk_Segments t = tk_Segments (get_track tid' w) \<Longrightarrow> holds_segment tid s (put_track tid' t w)"
  by (auto simp: holds_segment_def)

lemma holds_fold: "(\<And>x w. holds_segment tid s w \<Longrightarrow> holds_segment tid s (f x w)) \<Longrightarrow> holds_segment tid s w \<Longrightarrow> holds_segment tid s (fold f xs w)"
  by (induction xs arbitrary: w) auto

lemma holds_call:
  assumes h: "holds_segment tid s w" and r: "wr_retention w > 0" and c: "call_time_ok (sg_addedAt s + wr_retention w) c"
  shows "holds_segment tid s (run_call rnd c w)"
proof (cases c)
  case (CallObserve now ev)
  show ?thesis
  proof (cases ev)
    case (InitEvent inits cat)
    have "holds_segment tid s (fold (\<lambda>(tid, b) u. put_track tid ((get_track tid u)\<lparr>tk_init := b\<rparr>) u) inits w)"
      by (rule holds_fold [OF _ h]) (auto intro!: holds_config)
    moreover have "holds_segment tid s u \<Longrightarrow> holds_segment tid s (applyCatalog c u)" for c u
      unfolding applyCatalog_def Let_def
      by (auto intro!: holds_fold holds_config simp: apply_video_def apply_audio_def Let_def split: option.splits)
    ultimately show ?thesis using CallObserve InitEvent by (auto simp: Observe_def Let_def split: option.splits)
  next
    case (SegmentEvent ps)
    have "wr_retention (fold (observe_track rnd now) (sort_key fst ps) w) = wr_retention w"
      by (rule fold_settings) (simp add: observe_track_def)
    with holds_pieces [OF h r, of rnd now "sort_key fst ps"] CallObserve SegmentEvent c show ?thesis
      by (auto simp: Observe_def intro: holds_evict)
  qed (use h CallObserve in \<open>simp add: Observe_def\<close>)
next
  case CallFinalize
  have "s \<in> set (butlast xs) \<or> s = (last xs)\<lparr>sg_open := False\<rparr>" if "s \<in> set xs" for xs
    using h that by (cases xs rule: rev_cases) (auto simp: holds_segment_def)
  with h CallFinalize show ?thesis by (auto simp: holds_segment_def get_track_Finalize Let_def)
qed (use assms holds_evict in auto)

lemma holds_calls:
  "holds_segment tid s w \<Longrightarrow> wr_retention w > 0 \<Longrightarrow> \<forall>c\<in>set cs. call_time_ok (sg_addedAt s + wr_retention w) c \<Longrightarrow>
   holds_segment tid s (run_calls rnd cs w)"
  by (induction cs arbitrary: w) (simp_all add: holds_call)

lemma find_segment:
  "distinct (map sg_Seq xs) \<Longrightarrow> s \<in> set xs \<Longrightarrow> \<not> sg_open s \<Longrightarrow> find (\<lambda>u. sg_Seq u = sg_Seq s \<and> \<not> sg_open u) xs = Some s"
  by (induction xs) auto

lemma holds_served:
  assumes ok: "writer_ok B w" and h: "holds_segment tid s w" and now: "now \<le> sg_addedAt s + wr_retention w"
  shows "fst (SegmentData now tid (sg_Seq s) w) = Some (sg_data s)"
proof -
  let ?w = "evictExpired now w"
  have h': "holds_segment tid s ?w" using holds_evict [OF h now] .
  have "track_ok (B tid) (get_track tid ?w)" using writer_ok_evict [OF ok] by (simp add: writer_ok_def)
  then have "distinct (map sg_Seq (tk_Segments (get_track tid ?w)))" by (simp add: track_ok_def)
  then have "find (\<lambda>u. sg_Seq u = sg_Seq s \<and> \<not> sg_open u) (tk_Segments (get_track tid ?w)) = Some s"
    using h' unfolding holds_segment_def by (blast intro: find_segment)
  moreover obtain t where "wr_tracks ?w tid = Some t"
    using h' by (cases "wr_tracks ?w tid") (auto simp: holds_segment_def get_track_def new_track_def)
  ultimately show ?thesis by (simp add: SegmentData_def Let_def get_track_def)
qed

text \<open>Only closed segments are advertised.\<close>

lemma advertised_closed:
  assumes "s \<in> set (advertised rnd w t)" "\<forall>s\<in>set (butlast (tk_Segments t)). \<not> sg_open s"
  shows "s \<in> set (tk_Segments t) \<and> \<not> sg_open s"
proof -
  have e: "snd (advertisedRange rnd w t) = advertised_end (tk_Segments t)"
    by (simp add: advertisedRange_def Let_def)
  have "s \<in> set (take (advertised_end (tk_Segments t)) (tk_Segments t))"
    using assms(1) unfolding advertised_def split_beta e by (rule in_set_dropD)
  moreover have "take (advertised_end xs) xs = rev (dropWhile sg_open (rev xs))" for xs
  proof -
    have "xs = rev (dropWhile sg_open (rev xs)) @ rev (takeWhile sg_open (rev xs))"
      by (metis rev_append rev_rev_ident takeWhile_dropWhile_id)
    then show ?thesis unfolding advertised_end_def by (metis append_eq_conv_conj length_rev)
  qed
  ultimately have s: "s \<in> set (dropWhile sg_open (rev (tk_Segments t)))" by simp
  show ?thesis
  proof (cases "tk_Segments t" rule: rev_cases)
    case (snoc xs x)
    with s assms(2) show ?thesis by (cases "sg_open x") (auto dest: set_dropWhileD)
  qed (use s in simp)
qed

lemma dropWhile_twice: "dropWhile P (dropWhile P xs) = dropWhile P xs"
  by (induction xs) auto

lemma expire_twice: "expire_track c (expire_track c t) = expire_track c t"
  by (simp add: expire_track_def dropWhile_twice)

lemma evict_twice: "evictExpired now (evictExpired now w) = evictExpired now w"
  by (simp add: evictExpired_def option.map_comp comp_def expire_twice)

section \<open>Properties\<close>

text \<open>C21. Joining short segments and aging old ones out loses and repeats no byte of what a track still holds: after
  any sequence of events, reads and the end of the stream, the segments of a track carry consecutive media
  sequence numbers up to the newest, their bytes are exactly the last bytes observed of that track, and only the
  newest can still be under assembly.\<close>

theorem fragments_lossless:
  assumes "w = run_calls rnd cs (NewWriter opts)" "wr_tracks w tid = Some t"
  shows "map sg_Seq (tk_Segments t) = [tk_nextSeq t - length (tk_Segments t)..<tk_nextSeq t] \<and>
    (\<forall>s\<in>set (butlast (tk_Segments t)). \<not> sg_open s) \<and>
    (\<exists>gone. concat (map (call_bytes tid) cs) = gone @ concat (map sg_data (tk_Segments t)))"
proof -
  have "writer_ok (\<lambda>tid. [] @ concat (map (call_bytes tid) cs)) w"
    unfolding assms(1) by (rule writer_ok_calls [OF writer_ok_start])
  then have "track_ok (concat (map (call_bytes tid) cs)) (get_track tid w)" by (simp add: writer_ok_def)
  with assms(2) show ?thesis by (simp add: track_ok_def get_track_def)
qed

definition sample_catalog :: MuxlCatalog where
  "sample_catalog = \<lparr>mc_Video = Some [\<lparr>vr_TrackID = 1, vr_Codec = ''avc1'', vr_Timescale = 1000, vr_CodedWidth = 640, vr_CodedHeight = 360\<rparr>],
     mc_Audio = None\<rparr>"

definition sample_piece :: "bytes \<Rightarrow> nat \<Rightarrow> MuxlEvent" where
  "sample_piece b ms = SegmentEvent [(''1'', \<lparr>tp_data = b, tp_duration = ms, tp_samples = 1\<rparr>)]"

definition sample_calls :: "writer_call list" where
  "sample_calls = [CallObserve 0 (InitEvent [] (Some sample_catalog)), CallObserve 1 (sample_piece ''ab'' 200),
     CallObserve 2 (sample_piece ''cd'' 400)]"

definition sample_opts :: "WriterOption list" where
  "sample_opts = [WithWindow 12, WithMinFragment (500 * millisecond), WithRetention (30 * second)]"

lemma evict_settings [simp]:
  "wr_retention (evictExpired now w) = wr_retention w" "wr_window (evictExpired now w) = wr_window w"
  "wr_minDur (evictExpired now w) = wr_minDur w" "wr_minFrag (evictExpired now w) = wr_minFrag w"
  by (simp_all add: evictExpired_def)

lemma sample_segment:
  "\<exists>s. tk_Segments (get_track ''1'' (run_calls (\<lambda>x. x) sample_calls (NewWriter sample_opts))) = [s] \<and>
       sg_data s = ''abcd'' \<and> sg_Seq s = 0 \<and> sg_addedAt s = 1 \<and> \<not> sg_open s"
proof -
  have one: "show_nat (Suc 0) = ''1''" by code_simp
  define w0 where "w0 = NewWriter sample_opts"
  have w0: "get_track ''1'' w0 = new_track" "wr_retention w0 = 30 * second" "wr_minFrag w0 = 500 * millisecond"
    by (simp_all add: w0_def get_track_def NewWriter_tracks) (simp_all add: NewWriter_def sample_opts_def)
  define w1 where "w1 = run_call (\<lambda>x. x) (CallObserve 0 (InitEvent [] (Some sample_catalog))) w0"
  have w1: "tk_Segments (get_track ''1'' w1) = []" "tk_Timescale (get_track ''1'' w1) = 1000" "tk_nextSeq (get_track ''1'' w1) = 0"
      "wr_retention w1 = 30 * second" "wr_minFrag w1 = 500 * millisecond"
    by (simp_all add: w1_def Observe_def sample_catalog_def applyCatalog_def apply_video_def Let_def one w0)
       (simp_all add: new_track_def)
  define w2 where "w2 = run_call (\<lambda>x. x) (CallObserve 1 (sample_piece ''ab'' 200)) w1"
  let ?s = "\<lparr>sg_Seq = 0, sg_DurationTicks = 200, sg_SampleCount = 1, sg_data = ''ab'', sg_addedAt = 1, sg_open = True, sg_pieces = 1\<rparr>"
  have ns: "new_segment (\<lambda>x. x) w1 1 (get_track ''1'' w1) \<lparr>tp_data = ''ab'', tp_duration = 200, tp_samples = Suc 0\<rparr> = ?s"
    by (simp add: new_segment_def too_short_def seg_seconds_def duration_seconds_def duration_defs w1)
  have w2: "tk_Segments (get_track ''1'' w2) = [?s]" "tk_Timescale (get_track ''1'' w2) = 1000"
      "wr_retention w2 = 30 * second" "wr_minFrag w2 = 500 * millisecond"
    by (simp_all add: w2_def Observe_def sample_piece_def observe_track_def observe_piece_def get_track_evict expire_track_def w1 ns Let_def duration_defs)
  let ?p = "\<lparr>tp_data = ''cd'', tp_duration = 400, tp_samples = Suc 0\<rparr>"
  have "tk_Segments (get_track ''1'' (run_call (\<lambda>x. x) (CallObserve 2 (sample_piece ''cd'' 400)) w2)) =
      [grow_fragment (\<lambda>x. x) w2 1000 ?p ?s]"
    by (simp add: Observe_def sample_piece_def observe_track_def observe_piece_def get_track_evict expire_track_def w2 Let_def duration_defs)
  moreover have "\<not> sg_open (grow_fragment (\<lambda>x. x) w2 1000 ?p ?s)"
    by (simp add: grow_fragment_def too_short_def seg_seconds_def duration_seconds_def duration_defs w2 Let_def)
  ultimately show ?thesis by (simp add: sample_calls_def w0_def w1_def w2_def)
qed

theorem fragments_lossless_witness:
  "\<exists>t gone. wr_tracks (run_calls (\<lambda>x. x) sample_calls (NewWriter sample_opts)) ''1'' = Some t \<and>
     map sg_data (tk_Segments t) = [''abcd''] \<and>
     concat (map (call_bytes ''1'') sample_calls) = gone @ ''abcd''"
proof -
  obtain t where t: "wr_tracks (run_calls (\<lambda>x. x) sample_calls (NewWriter sample_opts)) ''1'' = Some t"
      "map sg_data (tk_Segments t) = [''abcd'']"
    using sample_segment by (cases "wr_tracks (run_calls (\<lambda>x. x) sample_calls (NewWriter sample_opts)) ''1''") (auto simp: get_track_def new_track_def)
  from fragments_lossless [OF refl t(1)] t(2) obtain gone where
    "concat (map (call_bytes ''1'') sample_calls) = gone @ ''abcd''" by auto
  with t show ?thesis by (intro exI [of _ t] exI [of _ gone]) simp
qed

text \<open>C32. Every segment a media playlist lists can be fetched at that moment, and stays fetchable with the same bytes
  until it is older than the retention, whatever arrives or is read in the meantime and whether or not it is
  still listed; the playlist lists the advertised segments in order.\<close>

theorem playlist_segments_fetchable:
  assumes "w = run_calls rnd cs (NewWriter opts)" "wr_retention w > 0"
    and "MediaPlaylist rnd now tid initURL segURI w = (Some lines, w1)"
  shows "\<exists>t. wr_tracks w1 tid = Some t \<and>
    concat (map (\<lambda>l. case l of SegmentLine d uri \<Rightarrow> [uri] | _ \<Rightarrow> []) lines) = map (\<lambda>s. segURI (sg_Seq s)) (advertised rnd w1 t) \<and>
    (\<forall>s\<in>set (advertised rnd w1 t).
       fst (SegmentData now tid (sg_Seq s) w1) = Some (sg_data s) \<and>
       (\<forall>later now'. (\<forall>c\<in>set later. call_time_ok (sg_addedAt s + wr_retention w) c) \<longrightarrow> now' \<le> sg_addedAt s + wr_retention w \<longrightarrow>
          fst (SegmentData now' tid (sg_Seq s) (run_calls rnd later w1)) = Some (sg_data s)))"
proof -
  let ?B = "\<lambda>tid. concat (map (call_bytes tid) cs)"
  have ok: "writer_ok ?B w" using writer_ok_calls [OF writer_ok_start, of "\<lambda>t. []" cs rnd opts] assms(1) by simp
  obtain t where t: "wr_tracks w1 tid = Some t" and w1: "w1 = evictExpired now w"
    using assms(3) by (auto simp: MediaPlaylist_def Let_def split: option.splits)
  have lines: "concat (map (\<lambda>l. case l of SegmentLine d uri \<Rightarrow> [uri] | _ \<Rightarrow> []) lines) = map (\<lambda>s. segURI (sg_Seq s)) (advertised rnd w1 t)"
    using assms(3) t by (auto simp: MediaPlaylist_def Let_def w1 comp_def)
  have gt: "get_track tid w1 = t" using t by (simp add: get_track_def)
  have ok1: "writer_ok ?B w1" unfolding w1 by (rule writer_ok_evict [OF ok])
  then have tok: "track_ok (?B tid) t" using gt by (metis writer_ok_def)
  have rt: "wr_retention w1 = wr_retention w" by (simp add: w1)
  have "fst (SegmentData now tid (sg_Seq s) w1) = Some (sg_data s) \<and>
      (\<forall>later now'. (\<forall>c\<in>set later. call_time_ok (sg_addedAt s + wr_retention w) c) \<longrightarrow> now' \<le> sg_addedAt s + wr_retention w \<longrightarrow>
          fst (SegmentData now' tid (sg_Seq s) (run_calls rnd later w1)) = Some (sg_data s))"
    if "s \<in> set (advertised rnd w1 t)" for s
  proof -
    have s: "s \<in> set (tk_Segments t)" "\<not> sg_open s" using advertised_closed [OF that] tok by (simp_all add: track_ok_def)
    then have h: "holds_segment tid s w1" by (simp add: holds_segment_def gt)
    have "find (\<lambda>u. sg_Seq u = sg_Seq s \<and> \<not> sg_open u) (tk_Segments t) = Some s"
      using find_segment [OF _ s] tok by (simp add: track_ok_def)
    then have "fst (SegmentData now tid (sg_Seq s) w1) = Some (sg_data s)"
      using t by (simp add: SegmentData_def Let_def w1 evict_twice)
    moreover have "fst (SegmentData now' tid (sg_Seq s) (run_calls rnd later w1)) = Some (sg_data s)"
      if "\<forall>c\<in>set later. call_time_ok (sg_addedAt s + wr_retention w) c" "now' \<le> sg_addedAt s + wr_retention w" for later now'
      using holds_served [OF writer_ok_calls [OF ok1] holds_calls [OF h]] that assms(2) rt by simp
    ultimately show ?thesis by blast
  qed
  with t lines show ?thesis by blast
qed

theorem playlist_segments_fetchable_witness:
  "\<exists>lines w1. MediaPlaylist (\<lambda>x. x) 9 ''1'' ''i'' show_nat (run_calls (\<lambda>x. x) sample_calls (NewWriter sample_opts)) = (Some lines, w1) \<and>
     concat (map (\<lambda>l. case l of SegmentLine d uri \<Rightarrow> [uri] | _ \<Rightarrow> []) lines) = [''0''] \<and>
     fst (SegmentData (second) ''1'' 0 (run_calls (\<lambda>x. x) [CallObserve 10 (sample_piece ''ef'' 900)] w1)) = Some ''abcd''"
proof -
  define w where "w = run_calls (\<lambda>x. x) sample_calls (NewWriter sample_opts)"
  have r: "wr_retention w = 30 * second" by (simp add: w_def NewWriter_def sample_opts_def)
  obtain s where s: "tk_Segments (get_track ''1'' w) = [s]" "sg_data s = ''abcd'' \<and> sg_Seq s = 0 \<and> sg_addedAt s = 1 \<and> \<not> sg_open s"
    using sample_segment unfolding w_def by blast
  then obtain t0 where "wr_tracks w ''1'' = Some t0" by (cases "wr_tracks w ''1''") (auto simp: get_track_def new_track_def)
  then have "wr_tracks (evictExpired 9 w) ''1'' \<noteq> None" by (simp add: evictExpired_def)
  then obtain t1 where "wr_tracks (evictExpired 9 w) ''1'' = Some t1" by blast
  then obtain lines w1 where p: "MediaPlaylist (\<lambda>x. x) 9 ''1'' ''i'' show_nat w = (Some lines, w1)"
    by (simp add: MediaPlaylist_def Let_def)
  have rp: "wr_retention w > 0" by (simp add: r second_def)
  from playlist_segments_fetchable [OF w_def rp p] obtain t where t: "wr_tracks w1 ''1'' = Some t"
      "concat (map (\<lambda>l. case l of SegmentLine d uri \<Rightarrow> [uri] | _ \<Rightarrow> []) lines) = map (\<lambda>s. show_nat (sg_Seq s)) (advertised (\<lambda>x. x) w1 t)"
      "\<And>s later now'. s \<in> set (advertised (\<lambda>x. x) w1 t) \<Longrightarrow> \<forall>c\<in>set later. call_time_ok (sg_addedAt s + wr_retention w) c \<Longrightarrow>
         now' \<le> sg_addedAt s + wr_retention w \<Longrightarrow> fst (SegmentData now' ''1'' (sg_Seq s) (run_calls (\<lambda>x. x) later w1)) = Some (sg_data s)"
    by blast
  have w1: "w1 = evictExpired 9 w" using p by (auto simp: MediaPlaylist_def Let_def split: option.splits)
  have "t = get_track ''1'' w1" using t(1) by (simp add: get_track_def)
  then have "tk_Segments t = [s]" using s r by (simp add: w1 get_track_evict expire_track_def second_def)
  then have a: "advertised (\<lambda>x. x) w1 t = [s]" using s by (auto simp: advertised_def advertisedRange_def advertised_end_def Let_def)
  have "show_nat 0 = ''0''" by code_simp
  with a s t(2) t(3) [of s "[CallObserve 10 (sample_piece ''ef'' 900)]" second] p r show ?thesis
    unfolding w_def [symmetric] by (intro exI [of _ lines] exI [of _ w1]) (simp add: second_def)
qed

end
