(* ===== verification/LiveWindow.thy ===== *)
theory LiveWindow
  imports LiveHLS
begin

text \<open>
  The live windows of a node, one per streamer (\<open>media/live_window.go\<close>): every validated segment is folded into
  its streamer's window, and a stream that goes public starts a window of its own, so that nothing recorded
  before it did is served.

  Writers are shared objects: a feed picks the writer under the lock and fills it afterwards, so writers live in
  a store and the windows map a streamer to an address in it.  What the unwrapper makes of a segment is an
  input.  \<open>lw_seen\<close> notes for each writer whether the segments folded into it were published; the code does not
  read it.
\<close>

section \<open>Settings\<close>

definition liveWindowSize :: int where "liveWindowSize = 12"
definition liveWindowMinDuration :: duration where "liveWindowMinDuration = 10 * second"
definition liveWindowMinFragment :: duration where "liveWindowMinFragment = 500 * millisecond"
definition liveWindowRetention :: duration where "liveWindowRetention = 30 * second"

definition newLiveWindow :: Writer where
  "newLiveWindow = NewWriter [WithWindow liveWindowSize, WithMinDuration liveWindowMinDuration,
     WithMinFragment liveWindowMinFragment, WithRetention liveWindowRetention]"

section \<open>State\<close>

record live_windows =
  lw_windows :: "string \<rightharpoonup> nat"
  lw_published :: "string \<rightharpoonup> bool"
  lw_latest :: "string \<rightharpoonup> time"
  lw_store :: "nat \<Rightarrow> Writer"
  lw_next :: nat
  lw_seen :: "nat \<Rightarrow> bool list"

definition no_windows :: live_windows where
  "no_windows = \<lparr>lw_windows = Map.empty, lw_published = Map.empty, lw_latest = Map.empty,
     lw_store = (\<lambda>p. newLiveWindow), lw_next = 0, lw_seen = (\<lambda>p. [])\<rparr>"

text \<open>The zero \<open>time.Time\<close>, which a missing entry reads as: the first instant of the year 1.\<close>

definition noSegmentTime :: time where "noSegmentTime = - 62135596800 * second"

definition LiveWindowPublished :: "string \<Rightarrow> live_windows \<Rightarrow> bool" where
  "LiveWindowPublished did s = (lw_published s did = Some True)"

definition latest_of :: "string \<Rightarrow> live_windows \<Rightarrow> time" where
  "latest_of did s = (case lw_latest s did of None \<Rightarrow> noSegmentTime | Some t \<Rightarrow> t)"

section \<open>Reading\<close>

definition GetLiveWindow :: "time \<Rightarrow> string \<Rightarrow> live_windows \<Rightarrow> nat option \<times> live_windows" where
  "GetLiveWindow now did s =
     (case lw_windows s did of
        None \<Rightarrow> (None, s)
      | Some p \<Rightarrow>
          (case Empty now (lw_store s p) of
             (none, w) \<Rightarrow>
               (let s1 = s\<lparr>lw_store := (lw_store s)(p := w)\<rparr> in
                if none then
                  (None, s1\<lparr>lw_windows := (lw_windows s)(did := None), lw_published := (lw_published s)(did := None),
                            lw_latest := (lw_latest s)(did := None)\<rparr>)
                else (Some p, s1))))"

section \<open>Feeding\<close>

text \<open>The part of \<open>feedLiveWindow\<close> under the lock: the writer to fold the segment into, or none when a pre-live
  segment comes late.\<close>

definition feed_locked :: "string \<Rightarrow> time \<Rightarrow> bool \<Rightarrow> live_windows \<Rightarrow> nat option \<times> live_windows" where
  "feed_locked did start published s =
     (if \<not> published \<and> LiveWindowPublished did s \<and> start < latest_of did s then (None, s)
      else
        let keep = (if published \<and> \<not> LiveWindowPublished did s then None else lw_windows s did);
            (p, s1) = (case keep of
                         Some p \<Rightarrow> (p, s)
                       | None \<Rightarrow> (lw_next s, s\<lparr>lw_store := (lw_store s)(lw_next s := newLiveWindow),
                                    lw_windows := (lw_windows s)(did \<mapsto> lw_next s), lw_next := lw_next s + 1\<rparr>));
            s2 = s1\<lparr>lw_published := (lw_published s1)(did \<mapsto> published)\<rparr>;
            s3 = (if start > latest_of did s2 then s2\<lparr>lw_latest := (lw_latest s2)(did \<mapsto> start)\<rparr> else s2)
        in (Some p, s3))"

definition feed_event :: "(rat \<Rightarrow> rat) \<Rightarrow> time \<Rightarrow> nat \<Rightarrow> bool \<Rightarrow> MuxlEvent \<Rightarrow> live_windows \<Rightarrow> live_windows" where
  "feed_event rnd now p published ev s =
     s\<lparr>lw_store := (lw_store s)(p := snd (Observe rnd now ev (lw_store s p))),
       lw_seen := (lw_seen s)(p := lw_seen s p @ [published])\<rparr>"

definition feedLiveWindow ::
  "(rat \<Rightarrow> rat) \<Rightarrow> time \<Rightarrow> string \<Rightarrow> MuxlEvent list \<Rightarrow> time \<Rightarrow> bool \<Rightarrow> live_windows \<Rightarrow> live_windows" where
  "feedLiveWindow rnd now did events start published s =
     (case feed_locked did start published s of
        (None, s1) \<Rightarrow> s1
      | (Some p, s1) \<Rightarrow> fold (feed_event rnd now p published) events s1)"

definition FeedLiveRenditions ::
  "(rat \<Rightarrow> rat) \<Rightarrow> (bytes \<Rightarrow> MuxlEvent list) \<Rightarrow> time \<Rightarrow> string \<Rightarrow> bytes \<Rightarrow> time \<Rightarrow> bool \<Rightarrow> live_windows \<Rightarrow> live_windows" where
  "FeedLiveRenditions rnd unwrap now did addendum start published s =
     (if addendum = [] then s else feedLiveWindow rnd now did (unwrap addendum) start published s)"

section \<open>Rendition names\<close>

definition renditionTrackBase :: nat where "renditionTrackBase = 100"

definition renditionEdge :: "nat \<Rightarrow> nat \<Rightarrow> nat" where
  "renditionEdge width height = (if width > 0 \<and> width < height then width else height)"

definition RenditionName :: "nat \<Rightarrow> nat \<Rightarrow> string" where
  "RenditionName width height = show_nat (renditionEdge width height) @ ''p''"

text \<open>\<open>strconv.ParseUint\<close> of a decimal with 32 bits.\<close>

definition is_digit :: "char \<Rightarrow> bool" where
  "is_digit c \<longleftrightarrow> 48 \<le> (of_char c :: nat) \<and> (of_char c :: nat) \<le> 57"

definition ParseUint32 :: "string \<Rightarrow> nat option" where
  "ParseUint32 s =
     (if s = [] \<or> \<not> list_all is_digit s then None
      else let n = fold (\<lambda>c n. 10 * n + (of_char c - 48)) s 0 in if n < 2 ^ 32 then Some n else None)"

definition is_rendition :: "VideoTrack \<Rightarrow> bool" where
  "is_rendition t =
     (case ParseUint32 (vt_ID t) of None \<Rightarrow> False | Some n \<Rightarrow> renditionTrackBase \<le> n \<and> vt_Height t \<noteq> 0)"

definition renditionNames :: "VideoTrack list \<Rightarrow> string list" where
  "renditionNames tracks =
     map (\<lambda>t. RenditionName (vt_Width t) (vt_Height t))
       (sort_key (\<lambda>t. - int (renditionEdge (vt_Width t) (vt_Height t))) (filter is_rendition tracks))"

definition LiveRenditionNames :: "time \<Rightarrow> string \<Rightarrow> live_windows \<Rightarrow> string list \<times> live_windows" where
  "LiveRenditionNames now did s =
     (case GetLiveWindow now did s of
        (None, s1) \<Rightarrow> ([], s1)
      | (Some p, s1) \<Rightarrow> (renditionNames (VideoTracks (lw_store s1 p)), s1))"

section \<open>Concurrent feeds\<close>

text \<open>A feed in flight holds its writer, whether its segment was published and the events still to be folded.\<close>

record live_run =
  lv_windows :: live_windows
  lv_feeds :: "(nat \<times> bool \<times> MuxlEvent list) list"

inductive live_step :: "(rat \<Rightarrow> rat) \<Rightarrow> live_run \<Rightarrow> live_run \<Rightarrow> bool" for rnd where
  live_feed: "feed_locked did start published (lv_windows s) = (Some p, w) \<Longrightarrow>
     live_step rnd s (s\<lparr>lv_windows := w, lv_feeds := lv_feeds s @ [(p, published, events)]\<rparr>)"
| live_late: "feed_locked did start published (lv_windows s) = (None, w) \<Longrightarrow> live_step rnd s (s\<lparr>lv_windows := w\<rparr>)"
| live_observe: "i < length (lv_feeds s) \<Longrightarrow> lv_feeds s ! i = (p, published, ev # events) \<Longrightarrow>
     live_step rnd s (s\<lparr>lv_windows := feed_event rnd now p published ev (lv_windows s),
                        lv_feeds := (lv_feeds s)[i := (p, published, events)]\<rparr>)"
| live_get: "GetLiveWindow now did (lv_windows s) = (r, w) \<Longrightarrow> live_step rnd s (s\<lparr>lv_windows := w\<rparr>)"

inductive_cases live_stepE: "live_step rnd s s'"

definition live_start :: live_run where
  "live_start = \<lparr>lv_windows = no_windows, lv_feeds = []\<rparr>"

section \<open>Public windows hold public segments\<close>

definition public_only :: "nat \<Rightarrow> live_run \<Rightarrow> bool" where
  "public_only p s \<longleftrightarrow> False \<notin> set (lw_seen (lv_windows s) p) \<and> (\<forall>(q, b, evs)\<in>set (lv_feeds s). q = p \<longrightarrow> b)"

definition live_inv :: "live_run \<Rightarrow> bool" where
  "live_inv s \<longleftrightarrow>
     (\<forall>d p. lw_windows (lv_windows s) d = Some p \<longrightarrow> p < lw_next (lv_windows s)) \<and>
     (\<forall>d d' p. lw_windows (lv_windows s) d = Some p \<longrightarrow> lw_windows (lv_windows s) d' = Some p \<longrightarrow> d = d') \<and>
     (\<forall>p \<ge> lw_next (lv_windows s). public_only p s) \<and>
     (\<forall>d p. lw_windows (lv_windows s) d = Some p \<longrightarrow> LiveWindowPublished d (lv_windows s) \<longrightarrow> public_only p s)"

lemma live_invD:
  assumes "live_inv s"
  shows "lw_windows (lv_windows s) d = Some p \<Longrightarrow> p < lw_next (lv_windows s)"
    "lw_windows (lv_windows s) d = Some p \<Longrightarrow> lw_windows (lv_windows s) d' = Some p \<Longrightarrow> d = d'"
    "lw_next (lv_windows s) \<le> p \<Longrightarrow> public_only p s"
    "lw_windows (lv_windows s) d = Some p \<Longrightarrow> LiveWindowPublished d (lv_windows s) \<Longrightarrow> public_only p s"
  using assms unfolding live_inv_def by blast+

lemma live_invI:
  assumes "\<And>d p. lw_windows (lv_windows s) d = Some p \<Longrightarrow> p < lw_next (lv_windows s)"
    "\<And>d d' p. lw_windows (lv_windows s) d = Some p \<Longrightarrow> lw_windows (lv_windows s) d' = Some p \<Longrightarrow> d = d'"
    "\<And>p. lw_next (lv_windows s) \<le> p \<Longrightarrow> public_only p s"
    "\<And>d p. lw_windows (lv_windows s) d = Some p \<Longrightarrow> LiveWindowPublished d (lv_windows s) \<Longrightarrow> public_only p s"
  shows "live_inv s"
  using assms unfolding live_inv_def by blast

text \<open>What the critical section of a feed does to the maps.\<close>

lemma feed_locked_cases:
  assumes "feed_locked did start published w = (Some p, w1)"
  obtains (keep) "lw_windows w did = Some p" "published \<longrightarrow> LiveWindowPublished did w" "lw_windows w1 = lw_windows w"
      "lw_next w1 = lw_next w" "lw_published w1 = (lw_published w)(did \<mapsto> published)" "lw_seen w1 = lw_seen w"
  | (fresh) "p = lw_next w" "lw_windows w1 = (lw_windows w)(did \<mapsto> p)" "lw_next w1 = lw_next w + 1"
      "lw_published w1 = (lw_published w)(did \<mapsto> published)" "lw_seen w1 = lw_seen w"
proof (cases "(if published \<and> \<not> LiveWindowPublished did w then None else lw_windows w did)")
  case None
  with assms have "p = lw_next w \<and> lw_windows w1 = (lw_windows w)(did \<mapsto> p) \<and> lw_next w1 = lw_next w + 1 \<and>
      lw_published w1 = (lw_published w)(did \<mapsto> published) \<and> lw_seen w1 = lw_seen w"
    unfolding feed_locked_def Let_def None by (auto split: if_splits)
  then show ?thesis using fresh by blast
next
  case (Some q)
  with assms have "q = p \<and> lw_windows w1 = lw_windows w \<and> lw_next w1 = lw_next w \<and>
      lw_published w1 = (lw_published w)(did \<mapsto> published) \<and> lw_seen w1 = lw_seen w"
    unfolding feed_locked_def Let_def Some by (auto split: if_splits)
  moreover have "lw_windows w did = Some q" "published \<longrightarrow> LiveWindowPublished did w" using Some by (auto split: if_splits)
  ultimately show ?thesis using keep by blast
qed

lemma public_only_feed:
  "public_only q s \<Longrightarrow> lw_seen w = lw_seen (lv_windows s) \<Longrightarrow> q = p \<longrightarrow> b \<Longrightarrow>
   public_only q (s\<lparr>lv_windows := w, lv_feeds := lv_feeds s @ [(p, b, evs)]\<rparr>)"
  by (auto simp: public_only_def)

lemma live_inv_feed:
  assumes inv: "live_inv s" and f: "feed_locked did start published (lv_windows s) = (Some p, w)"
  shows "live_inv (s\<lparr>lv_windows := w, lv_feeds := lv_feeds s @ [(p, published, events)]\<rparr>)"
  using f
proof (cases rule: feed_locked_cases)
  case keep
  have flag: "LiveWindowPublished d w \<longleftrightarrow> (if d = did then published else LiveWindowPublished d (lv_windows s))" for d
    by (simp add: LiveWindowPublished_def keep(5))
  show ?thesis
  proof (rule live_invI, goal_cases)
    case (3 q)
    then have "q \<noteq> p" "public_only q s" using live_invD(1) [OF inv keep(1)] live_invD(3) [OF inv] keep(4) by auto
    then show ?case by (auto intro: public_only_feed keep(6))
  next
    case (4 d q)
    then have d: "lw_windows (lv_windows s) d = Some q" "if d = did then published else LiveWindowPublished d (lv_windows s)"
      using keep(3) flag by auto
    then have "public_only q s" using live_invD(4) [OF inv d(1)] keep(2) by (auto split: if_splits)
    moreover have "q = p \<longrightarrow> published" using live_invD(2) [OF inv d(1), of did] keep(1) d(2) by auto
    ultimately show ?case by (auto intro: public_only_feed keep(6))
  qed (use live_invD(1,2) [OF inv] keep(3,4) in auto)
next
  case fresh
  have flag: "LiveWindowPublished d w \<longleftrightarrow> (if d = did then published else LiveWindowPublished d (lv_windows s))" for d
    by (simp add: LiveWindowPublished_def fresh(4))
  have old: "q < p" if "lw_windows (lv_windows s) d = Some q" for d q using live_invD(1) [OF inv that] fresh(1) by simp
  show ?thesis
  proof (rule live_invI, goal_cases)
    case (1 d q)
    then show ?case using old fresh(1-3) by (auto split: if_splits dest: old)
  next
    case (2 d d' q)
    then show ?case using live_invD(2) [OF inv] old fresh(2) by (auto split: if_splits dest: old)
  next
    case (3 q)
    then have "q \<noteq> p" "public_only q s" using live_invD(3) [OF inv] fresh(1,3) by auto
    then show ?case by (auto intro: public_only_feed fresh(5))
  next
    case (4 d q)
    show ?case
    proof (cases "d = did")
      case True
      then have "q = p" "published" using 4 fresh(2) flag by auto
      then show ?thesis using live_invD(3) [OF inv, of p] fresh(1,5) by (auto intro: public_only_feed)
    next
      case False
      then have d: "lw_windows (lv_windows s) d = Some q" "LiveWindowPublished d (lv_windows s)" using 4 fresh(2) flag by auto
      then show ?thesis using live_invD(4) [OF inv d] old [OF d(1)] by (auto intro: public_only_feed fresh(5))
    qed
  qed
qed

lemma live_inv_cong:
  assumes inv: "live_inv s"
    and "\<And>d p. lw_windows w d = Some p \<Longrightarrow> lw_windows (lv_windows s) d = Some p"
    "\<And>d. LiveWindowPublished d w \<Longrightarrow> LiveWindowPublished d (lv_windows s)"
    "lw_next w = lw_next (lv_windows s)" "\<And>p. public_only p s \<Longrightarrow> public_only p (s\<lparr>lv_windows := w, lv_feeds := fs\<rparr>)"
  shows "live_inv (s\<lparr>lv_windows := w, lv_feeds := fs\<rparr>)"
proof (rule live_invI, goal_cases)
  case (1 d p)
  then show ?case using live_invD(1) [OF inv assms(2)] assms(4) by simp
next
  case (2 d d' p)
  then show ?case using live_invD(2) [OF inv assms(2) assms(2)] by simp
next
  case (3 p)
  then show ?case using assms(4,5) live_invD(3) [OF inv] by simp
next
  case (4 d p)
  then show ?case using live_invD(4) [OF inv assms(2,3)] assms(5) by simp
qed

lemma live_inv_get:
  assumes inv: "live_inv s" and g: "GetLiveWindow now did (lv_windows s) = (r, w)"
  shows "live_inv (s\<lparr>lv_windows := w\<rparr>)"
proof -
  have m: "(\<forall>d p. lw_windows w d = Some p \<longrightarrow> lw_windows (lv_windows s) d = Some p) \<and>
      (\<forall>d. LiveWindowPublished d w \<longrightarrow> LiveWindowPublished d (lv_windows s)) \<and>
      lw_next w = lw_next (lv_windows s) \<and> lw_seen w = lw_seen (lv_windows s)"
    using g by (auto simp: GetLiveWindow_def Let_def LiveWindowPublished_def split: option.splits prod.splits if_splits)
  have "live_inv (s\<lparr>lv_windows := w, lv_feeds := lv_feeds s\<rparr>)"
    by (rule live_inv_cong [OF inv]) (use m in \<open>auto simp: public_only_def\<close>)
  then show ?thesis by simp
qed

lemma live_inv_observe:
  assumes inv: "live_inv s" and i: "i < length (lv_feeds s)" "lv_feeds s ! i = (p, b, ev # evs)"
  shows "live_inv (s\<lparr>lv_windows := feed_event rnd now p b ev (lv_windows s), lv_feeds := (lv_feeds s)[i := (p, b, evs)]\<rparr>)"
proof (rule live_inv_cong [OF inv])
  fix q assume q: "public_only q s"
  have mem: "(p, b, ev # evs) \<in> set (lv_feeds s)" using i nth_mem by metis
  have "set ((lv_feeds s)[i := (p, b, evs)]) \<subseteq> insert (p, b, evs) (set (lv_feeds s))" by (rule set_update_subset_insert)
  then show "public_only q (s\<lparr>lv_windows := feed_event rnd now p b ev (lv_windows s), lv_feeds := (lv_feeds s)[i := (p, b, evs)]\<rparr>)"
    using q mem by (fastforce simp: public_only_def feed_event_def)
qed (auto simp: feed_event_def LiveWindowPublished_def)

lemma late_unchanged: "feed_locked did start published w = (None, w1) \<Longrightarrow> w1 = w"
  by (auto simp: feed_locked_def Let_def split: if_splits option.splits)

lemma live_inv_step:
  assumes "live_step rnd s s'" "live_inv s"
  shows "live_inv s'"
  using assms
  by (cases rule: live_stepE) (auto intro: live_inv_feed live_inv_get live_inv_observe dest: late_unchanged)

lemma live_inv_start: "live_inv live_start"
  by (simp add: live_inv_def live_start_def no_windows_def public_only_def)

lemma live_inv_reachable: "(live_step rnd)\<^sup>*\<^sup>* live_start s \<Longrightarrow> live_inv s"
  by (induction rule: rtranclp_induct) (auto intro: live_inv_start live_inv_step)

section \<open>A window is dropped while its first segment is folded in\<close>

text \<open>A read that finds a window without segments removes it, also when the window was made a moment ago and its
  first segment is still being unwrapped: the segment then goes into a writer that no reader can reach.\<close>

lemma new_window_empty: "Empty now newLiveWindow = (True, newLiveWindow)"
  by (simp add: Empty_def newLiveWindow_def evictExpired_def Let_def NewWriter_def)

lemma first_segment_unreachable:
  "\<exists>s. (live_step rnd)\<^sup>*\<^sup>* live_start s \<and> lw_windows (lv_windows s) ''a'' = None \<and> lw_seen (lv_windows s) 0 = [True]"
proof -
  define w1 where "w1 = snd (feed_locked ''a'' 5 True no_windows)"
  have f: "feed_locked ''a'' 5 True no_windows = (Some 0, w1)" "lw_windows w1 ''a'' = Some 0" "lw_store w1 0 = newLiveWindow" "lw_seen w1 0 = []"
    by (simp_all add: w1_def feed_locked_def no_windows_def LiveWindowPublished_def Let_def)
  define s1 where "s1 = live_start\<lparr>lv_windows := w1, lv_feeds := [(0, True, [ev])]\<rparr>"
  define s2 where "s2 = s1\<lparr>lv_windows := snd (GetLiveWindow now ''a'' w1)\<rparr>"
  define s3 where "s3 = s2\<lparr>lv_windows := feed_event rnd now 0 True ev (lv_windows s2), lv_feeds := [(0, True, [])]\<rparr>"
  have "live_step rnd live_start s1"
    using live_feed [of "''a''" 5 True live_start 0 w1 rnd "[ev]"] f by (simp add: s1_def live_start_def)
  moreover have "live_step rnd s1 s2"
    using live_get [of now "''a''" s1 _ _ rnd] by (simp add: s1_def s2_def) (metis prod.collapse)
  moreover have "live_step rnd s2 s3"
    using live_observe [of 0 s2 0 True ev "[]" rnd now] by (simp add: s3_def s2_def s1_def)
  ultimately have "(live_step rnd)\<^sup>*\<^sup>* live_start s3" by (meson rtranclp.rtrancl_into_rtrancl rtranclp.rtrancl_refl)
  moreover have "lw_windows (lv_windows s3) ''a'' = None" "lw_seen (lv_windows s3) 0 = [True]"
    using f(2-4) by (simp_all add: s3_def s2_def feed_event_def GetLiveWindow_def new_window_empty Let_def)
  ultimately show ?thesis by blast
qed

section \<open>Properties\<close>

text \<open>C12. No pre-live segment is ever part of a public window: in whatever order feeds take the lock and fold their
  segments in, and whatever is read in between, every segment that a window marked as published has observed, or
  that a feed in flight is about to fold into it, was published.\<close>

theorem no_preview_in_public_window:
  assumes "(live_step rnd)\<^sup>*\<^sup>* live_start s" "lw_windows (lv_windows s) did = Some p" "LiveWindowPublished did (lv_windows s)"
  shows "False \<notin> set (lw_seen (lv_windows s) p) \<and> (\<forall>(q, published, events)\<in>set (lv_feeds s). q = p \<longrightarrow> published)"
  using live_invD(4) [OF live_inv_reachable [OF assms(1)] assms(2,3)] by (simp add: public_only_def)

theorem no_preview_in_public_window_witness:
  "\<exists>s. (live_step (\<lambda>x. x))\<^sup>*\<^sup>* live_start s \<and> lw_windows (lv_windows s) ''a'' = Some 1 \<and> LiveWindowPublished ''a'' (lv_windows s) \<and>
     lv_feeds s = [(0, False, []), (1, True, [])] \<and> False \<notin> set (lw_seen (lv_windows s) 1)"
proof -
  define w1 where "w1 = snd (feed_locked ''a'' 1 False no_windows)"
  have f1: "feed_locked ''a'' 1 False no_windows = (Some 0, w1)" "lw_windows w1 = [''a'' \<mapsto> 0]" "lw_next w1 = 1" "lw_published w1 = [''a'' \<mapsto> False]"
    by (simp_all add: w1_def feed_locked_def no_windows_def LiveWindowPublished_def Let_def)
  define w2 where "w2 = snd (feed_locked ''a'' 2 True w1)"
  have f2: "feed_locked ''a'' 2 True w1 = (Some 1, w2)" "lw_windows w2 ''a'' = Some 1" "LiveWindowPublished ''a'' w2"
    by (simp_all add: w2_def feed_locked_def LiveWindowPublished_def Let_def f1)
  define s1 where "s1 = live_start\<lparr>lv_windows := w1, lv_feeds := [(0, False, [])]\<rparr>"
  define s2 where "s2 = s1\<lparr>lv_windows := w2, lv_feeds := [(0, False, []), (1, True, [])]\<rparr>"
  have "live_step (\<lambda>x. x) live_start s1"
    using live_feed [of "''a''" 1 False live_start 0 w1 "\<lambda>x. x" "[]"] f1 by (simp add: s1_def live_start_def)
  moreover have "live_step (\<lambda>x. x) s1 s2"
    using live_feed [of "''a''" 2 True s1 1 w2 "\<lambda>x. x" "[]"] f2 by (simp add: s1_def s2_def)
  ultimately have r: "(live_step (\<lambda>x. x))\<^sup>*\<^sup>* live_start s2" by simp
  have w: "lw_windows (lv_windows s2) ''a'' = Some 1" "LiveWindowPublished ''a'' (lv_windows s2)" using f2 by (simp_all add: s2_def)
  from no_preview_in_public_window [OF r w] r w show ?thesis by (intro exI [of _ s2]) (simp add: s2_def)
qed

end
