(* ===== verification/SegmentBuffer.thy ===== *)
theory SegmentBuffer
  imports Prelude "HOL-Library.Multiset"
begin

text \<open>
  The segments a node keeps in memory for clips (\<open>media/segment_buffer.go\<close>): per stream a run of recent segments,
  bounded in age and in number.  All access holds one mutex, so the operations are functions of the map of
  buffers and are run one after the other.
\<close>

section \<open>Buffers\<close>

definition segmentBufferWindow :: duration where "segmentBufferWindow = 2 * minute"
definition segmentBufferMinAverage :: duration where "segmentBufferMinAverage = 500 * millisecond"

record BufferedSegment =
  bs_Start :: time
  bs_Published :: bool
  bs_Local :: bool
  bs_Data :: bytes
  bs_addedAt :: time

record segmentBuffer =
  sb_retain :: duration
  sb_segs :: "BufferedSegment list"

type_synonym buffers = "string \<rightharpoonup> segmentBuffer"

definition segmentBufferLocked :: "string \<Rightarrow> buffers \<Rightarrow> segmentBuffer" where
  "segmentBufferLocked did bufs =
     (case bufs did of None \<Rightarrow> \<lparr>sb_retain = segmentBufferWindow, sb_segs = []\<rparr> | Some b \<Rightarrow> b)"

text \<open>Retentions are never negative, so the division of the source is the mathematical one.\<close>

definition maxSegs :: "segmentBuffer \<Rightarrow> nat" where
  "maxSegs b = nat (sb_retain b div segmentBufferMinAverage)"

definition evict_count :: "time \<Rightarrow> segmentBuffer \<Rightarrow> nat" where
  "evict_count now b =
     (let n = length (sb_segs b);
          old = length (takeWhile (\<lambda>s. bs_addedAt s < now - sb_retain b) (sb_segs b))
      in if n - old > maxSegs b then n - maxSegs b else old)"

definition evict :: "time \<Rightarrow> segmentBuffer \<Rightarrow> segmentBuffer" where
  "evict now b = b\<lparr>sb_segs := drop (evict_count now b) (sb_segs b)\<rparr>"

text \<open>Every buffer is evicted and an empty one removed.\<close>

definition evict_all :: "time \<Rightarrow> buffers \<Rightarrow> buffers" where
  "evict_all now bufs =
     (\<lambda>did. case bufs did of
        None \<Rightarrow> None
      | Some b \<Rightarrow> if sb_segs (evict now b) = [] then None else Some (evict now b))"

definition bufferSegment :: "time \<Rightarrow> string \<Rightarrow> time \<Rightarrow> bool \<Rightarrow> bool \<Rightarrow> bytes \<Rightarrow> buffers \<Rightarrow> buffers" where
  "bufferSegment now did start published local segment bufs =
     (let b = segmentBufferLocked did bufs;
          s = \<lparr>bs_Start = start, bs_Published = published, bs_Local = local, bs_Data = segment, bs_addedAt = now\<rparr>
      in evict_all now (bufs(did \<mapsto> b\<lparr>sb_segs := sb_segs b @ [s]\<rparr>)))"

definition RetainSegments :: "string \<Rightarrow> duration \<Rightarrow> buffers \<Rightarrow> buffers" where
  "RetainSegments did d bufs =
     (let b = segmentBufferLocked did bufs in bufs(did \<mapsto> b\<lparr>sb_retain := max (sb_retain b) d\<rparr>))"

definition BufferedSegments :: "time \<Rightarrow> string \<Rightarrow> buffers \<Rightarrow> BufferedSegment list \<times> buffers" where
  "BufferedSegments now did bufs =
     (case bufs did of
        None \<Rightarrow> ([], bufs)
      | Some b \<Rightarrow>
          (let b1 = evict now b in
           if sb_segs b1 = [] then ([], bufs(did := None))
           else (sort_key bs_Start (sb_segs b1), bufs(did \<mapsto> b1))))"

section \<open>Sequences of calls\<close>

datatype buffer_op =
    OpBuffer time string time bool bool bytes
  | OpRetain string duration
  | OpRead time string

fun run_buffer :: "buffer_op \<Rightarrow> buffers \<Rightarrow> buffers" where
  "run_buffer (OpBuffer now did start published local segment) bufs = bufferSegment now did start published local segment bufs"
| "run_buffer (OpRetain did d) bufs = RetainSegments did d bufs"
| "run_buffer (OpRead now did) bufs = snd (BufferedSegments now did bufs)"

text \<open>What was ever buffered of a stream, oldest first, and the latest time of a call.\<close>

fun op_segments :: "string \<Rightarrow> buffer_op \<Rightarrow> BufferedSegment list" where
  "op_segments did (OpBuffer now did' start published local segment) =
     (if did' = did
      then [\<lparr>bs_Start = start, bs_Published = published, bs_Local = local, bs_Data = segment, bs_addedAt = now\<rparr>] else [])"
| "op_segments did _ = []"

definition all_segments :: "string \<Rightarrow> buffer_op list \<Rightarrow> BufferedSegment list" where
  "all_segments did ops = concat (map (op_segments did) ops)"

fun op_before :: "time \<Rightarrow> buffer_op \<Rightarrow> bool" where
  "op_before now (OpBuffer t did start published local segment) = (t \<le> now)"
| "op_before now (OpRetain did d) = True"
| "op_before now (OpRead t did) = (t \<le> now)"

section \<open>Eviction\<close>

lemma evict_drops:
  assumes "j < evict_count now b"
  shows "bs_addedAt (sb_segs b ! j) < now - sb_retain b \<or> j + maxSegs b < length (sb_segs b)"
proof (cases "length (sb_segs b) - length (takeWhile (\<lambda>s. bs_addedAt s < now - sb_retain b) (sb_segs b)) > maxSegs b")
  case True
  then show ?thesis using assms by (auto simp: evict_count_def Let_def)
next
  case False
  then have "j < length (takeWhile (\<lambda>s. bs_addedAt s < now - sb_retain b) (sb_segs b))"
    using assms by (simp add: evict_count_def Let_def)
  then show ?thesis using nth_mem takeWhile_nth set_takeWhileD by metis
qed

lemma evict_bounded: "length (sb_segs (evict now b)) \<le> maxSegs b"
  by (auto simp: evict_def evict_count_def Let_def)

lemma evict_retain [simp]: "sb_retain (evict now b) = sb_retain b" "maxSegs (evict now b) = maxSegs b"
  by (simp_all add: evict_def maxSegs_def)

text \<open>The default retention keeps at least 240 segments.\<close>

lemma maxSegs_default: "segmentBufferWindow \<le> sb_retain b \<Longrightarrow> 240 \<le> maxSegs b"
proof -
  assume "segmentBufferWindow \<le> sb_retain b"
  then have "segmentBufferWindow div segmentBufferMinAverage \<le> sb_retain b div segmentBufferMinAverage"
    by (rule zdiv_mono1) (simp add: segmentBufferMinAverage_def duration_defs)
  then show ?thesis by (simp add: maxSegs_def segmentBufferWindow_def segmentBufferMinAverage_def duration_defs)
qed

section \<open>What a buffer holds\<close>

definition segs_of :: "string \<Rightarrow> buffers \<Rightarrow> BufferedSegment list" where
  "segs_of did bufs = (case bufs did of None \<Rightarrow> [] | Some b \<Rightarrow> sb_segs b)"

text \<open>Segment number \<open>i\<close> of the stream's history may be gone: it is older than the window or not among the last
  240.\<close>

definition may_go :: "time \<Rightarrow> BufferedSegment list \<Rightarrow> nat \<Rightarrow> bool" where
  "may_go now H i \<longleftrightarrow> bs_addedAt (H ! i) < now - segmentBufferWindow \<or> i + 240 < length H"

definition stream_ok :: "time \<Rightarrow> BufferedSegment list \<Rightarrow> BufferedSegment list \<Rightarrow> bool" where
  "stream_ok now H segs \<longleftrightarrow> (\<exists>D. H = D @ segs \<and> (\<forall>i<length D. may_go now H i))"

definition buffers_ok :: "time \<Rightarrow> (string \<Rightarrow> BufferedSegment list) \<Rightarrow> buffers \<Rightarrow> bool" where
  "buffers_ok now H bufs \<longleftrightarrow>
     (\<forall>did b. bufs did = Some b \<longrightarrow> segmentBufferWindow \<le> sb_retain b) \<and>
     (\<forall>did. stream_ok now (H did) (segs_of did bufs))"

lemma may_go_later: "may_go now H i \<Longrightarrow> now \<le> now' \<Longrightarrow> i < length H \<Longrightarrow> may_go now' (H @ xs) i"
  by (auto simp: may_go_def nth_append)

lemma stream_ok_later: "stream_ok now H segs \<Longrightarrow> now \<le> now' \<Longrightarrow> stream_ok now' (H @ xs) (segs @ xs)"
  unfolding stream_ok_def using may_go_later [of now _ _ now' xs] by (metis append.assoc length_append trans_less_add1)

lemma stream_ok_evict:
  assumes ok: "stream_ok now H (sb_segs b)" and r: "segmentBufferWindow \<le> sb_retain b"
  shows "stream_ok now H (sb_segs (evict now b))"
proof -
  obtain D where D: "H = D @ sb_segs b" "\<forall>i<length D. may_go now H i" using ok by (auto simp: stream_ok_def)
  let ?k = "evict_count now b"
  have "may_go now H i" if "i < length (D @ take ?k (sb_segs b))" for i
  proof (cases "i < length D")
    case False
    then have j: "i - length D < ?k" "i - length D < length (sb_segs b)" using that by auto
    have nth: "H ! i = sb_segs b ! (i - length D)" using D(1) False by (simp add: nth_append)
    have len: "length H = length D + length (sb_segs b)" using D(1) by simp
    from evict_drops [OF j(1)] show ?thesis
    proof
      assume "bs_addedAt (sb_segs b ! (i - length D)) < now - sb_retain b"
      then show ?thesis using r unfolding may_go_def nth by linarith
    next
      assume "i - length D + maxSegs b < length (sb_segs b)"
      then show ?thesis using maxSegs_default [OF r] False unfolding may_go_def len by linarith
    qed
  qed (use D in simp)
  moreover have "H = (D @ take ?k (sb_segs b)) @ sb_segs (evict now b)" using D(1) by (simp add: evict_def)
  ultimately show ?thesis unfolding stream_ok_def by blast
qed

lemma buffers_ok_evict:
  assumes "buffers_ok now H bufs"
  shows "buffers_ok now H (evict_all now bufs)"
proof -
  have "segs_of did (evict_all now bufs) = (case bufs did of None \<Rightarrow> [] | Some b \<Rightarrow> sb_segs (evict now b))" for did
    by (simp add: segs_of_def evict_all_def split: option.splits)
  moreover have "stream_ok now (H did) (case bufs did of None \<Rightarrow> [] | Some b \<Rightarrow> sb_segs (evict now b))" for did
  proof (cases "bufs did")
    case None
    then have "stream_ok now (H did) []" using assms by (metis buffers_ok_def option.simps(4) segs_of_def)
    with None show ?thesis by simp
  next
    case (Some b)
    then have "stream_ok now (H did) (sb_segs b)" using assms by (metis buffers_ok_def option.simps(5) segs_of_def)
    with Some stream_ok_evict assms show ?thesis by (auto simp: buffers_ok_def)
  qed
  ultimately show ?thesis using assms by (auto simp: buffers_ok_def evict_all_def split: option.splits if_splits)
qed
lemma buffers_ok_put:
  assumes ok: "buffers_ok now H bufs" and b: "segmentBufferWindow \<le> sb_retain b" "stream_ok now (H did) (sb_segs b)"
  shows "buffers_ok now H (bufs(did \<mapsto> b))"
  using assms by (auto simp: buffers_ok_def segs_of_def)

lemma locked_buffer:
  assumes "buffers_ok now H bufs"
  shows "segmentBufferWindow \<le> sb_retain (segmentBufferLocked did bufs)" "sb_segs (segmentBufferLocked did bufs) = segs_of did bufs"
  using assms by (auto simp: buffers_ok_def segmentBufferLocked_def segs_of_def split: option.splits)

lemma buffers_ok_later:
  "buffers_ok now H bufs \<Longrightarrow> now \<le> now' \<Longrightarrow> buffers_ok now' H bufs"
  using stream_ok_later [of now _ _ now' "[]"] by (auto simp: buffers_ok_def)

lemma buffers_ok_buffer:
  assumes ok: "buffers_ok now H bufs" and t: "now \<le> t"
  shows "buffers_ok t (\<lambda>d. H d @ op_segments d (OpBuffer t did start published local segment))
    (bufferSegment t did start published local segment bufs)"
proof -
  let ?s = "\<lparr>bs_Start = start, bs_Published = published, bs_Local = local, bs_Data = segment, bs_addedAt = t\<rparr>"
  let ?H = "\<lambda>d. H d @ op_segments d (OpBuffer t did start published local segment)"
  let ?b = "segmentBufferLocked did bufs"
  have "stream_ok t (?H d) (segs_of d (bufs(did \<mapsto> ?b\<lparr>sb_segs := sb_segs ?b @ [?s]\<rparr>)))" for d
    using ok stream_ok_later [of now "H d" "segs_of d bufs" t "op_segments d (OpBuffer t did start published local segment)"] t
      locked_buffer(2) [OF ok, of did]
    by (auto simp: buffers_ok_def segs_of_def)
  moreover have "segmentBufferWindow \<le> sb_retain b" if "(bufs(did \<mapsto> ?b\<lparr>sb_segs := sb_segs ?b @ [?s]\<rparr>)) d = Some b" for d b
    using that ok locked_buffer(1) [OF ok, of did] by (auto simp: buffers_ok_def split: if_splits)
  ultimately have "buffers_ok t ?H (bufs(did \<mapsto> ?b\<lparr>sb_segs := sb_segs ?b @ [?s]\<rparr>))" unfolding buffers_ok_def by blast
  then show ?thesis unfolding bufferSegment_def Let_def by (rule buffers_ok_evict)
qed

lemma buffers_ok_read:
  assumes ok: "buffers_ok now H bufs"
  shows "buffers_ok now H (snd (BufferedSegments now did bufs))"
proof (cases "bufs did")
  case (Some b)
  have b: "segmentBufferWindow \<le> sb_retain b" "stream_ok now (H did) (sb_segs b)"
    using ok Some by (auto simp: buffers_ok_def segs_of_def) (metis option.simps(5))
  note e = stream_ok_evict [OF b(2,1)]
  show ?thesis
  proof (cases "sb_segs (evict now b) = []")
    case True
    with e ok Some show ?thesis by (auto simp: BufferedSegments_def buffers_ok_def segs_of_def split: if_splits)
  next
    case False
    with buffers_ok_put [OF ok, of "evict now b"] e b(1) Some show ?thesis by (simp add: BufferedSegments_def Let_def)
  qed
qed (use ok in \<open>simp add: BufferedSegments_def\<close>)

lemma buffers_ok_retain:
  assumes ok: "buffers_ok now H bufs"
  shows "buffers_ok now H (RetainSegments did d bufs)"
  unfolding RetainSegments_def Let_def
  by (rule buffers_ok_put [OF ok]) (use ok locked_buffer [OF ok, of did] in \<open>auto simp: buffers_ok_def\<close>)

text \<open>Calls whose clock does not run backwards.\<close>

fun op_times :: "time \<Rightarrow> buffer_op list \<Rightarrow> bool" where
  "op_times t [] = True"
| "op_times t (OpBuffer now did start published local segment # ops) = (t \<le> now \<and> op_times now ops)"
| "op_times t (OpRetain did d # ops) = op_times t ops"
| "op_times t (OpRead now did # ops) = (t \<le> now \<and> op_times now ops)"

lemma buffers_ok_run:
  "buffers_ok t H bufs \<Longrightarrow> op_times t ops \<Longrightarrow> t \<le> now \<Longrightarrow> \<forall>op\<in>set ops. op_before now op \<Longrightarrow>
   buffers_ok now (\<lambda>d. H d @ all_segments d ops) (fold run_buffer ops bufs)"
proof (induction ops arbitrary: t H bufs)
  case Nil
  then show ?case by (simp add: all_segments_def buffers_ok_later)
next
  case (Cons op ops)
  show ?case
  proof (cases op)
    case (OpBuffer u did start published local segment)
    have "buffers_ok u (\<lambda>d. H d @ op_segments d op) (run_buffer op bufs)"
      using buffers_ok_buffer [OF Cons.prems(1), of u did start published local segment] Cons.prems(2) OpBuffer by simp
    from Cons.IH [OF this] Cons.prems OpBuffer show ?thesis by (simp add: all_segments_def)
  next
    case (OpRetain did d)
    from Cons.IH [OF buffers_ok_retain [OF Cons.prems(1)]] Cons.prems OpRetain show ?thesis by (simp add: all_segments_def)
  next
    case (OpRead u did)
    have "buffers_ok u H bufs" using buffers_ok_later [OF Cons.prems(1)] Cons.prems(2) OpRead by simp
    from Cons.IH [OF buffers_ok_read [OF this]] Cons.prems OpRead show ?thesis by (simp add: all_segments_def)
  qed
qed

section \<open>A retention can be forgotten\<close>

text \<open>The retention lives in the buffer, which is removed when it is empty: set before the stream's first segment
  is buffered, or kept over a pause longer than itself, it is back to the default as soon as any other stream
  buffers a segment.\<close>

lemma retention_forgotten:
  assumes "other \<noteq> did" "bufs did = None"
  shows "sb_retain (segmentBufferLocked did
    (bufferSegment now other start published local segment (RetainSegments did (12 * minute) bufs))) = segmentBufferWindow"
  using assms
  by (simp add: segmentBufferLocked_def bufferSegment_def RetainSegments_def Let_def evict_all_def evict_def)

section \<open>Properties\<close>

text \<open>Reading a stream's buffer gives the end of what was buffered of it, ordered by media time, with nothing
  missing that was added within the last two minutes and is among its last 240 segments, whatever other streams
  did; and never more segments than the stream's retention allows at half a second each.\<close>

theorem buffer_holds_recent:
  assumes "op_times t ops" "\<forall>op\<in>set ops. op_before now op" "t \<le> now"
    and "bufs = fold run_buffer ops Map.empty" "BufferedSegments now did bufs = (out, bufs1)"
  shows "\<exists>gone kept. all_segments did ops = gone @ kept \<and> mset out = mset kept \<and> sorted (map bs_Start out) \<and>
    (\<forall>i<length gone. bs_addedAt (gone ! i) < now - 2 * minute \<or> i + 240 < length (all_segments did ops)) \<and>
    (\<forall>b. bufs did = Some b \<longrightarrow> length out \<le> nat (sb_retain b div (500 * millisecond)))"
proof -
  have "buffers_ok t (\<lambda>d. []) Map.empty" by (simp add: buffers_ok_def segs_of_def stream_ok_def)
  from buffers_ok_run [OF this assms(1,3,2)] have ok: "buffers_ok now (\<lambda>d. all_segments d ops) bufs" by (simp add: assms(4))
  define kept where "kept = (case bufs did of None \<Rightarrow> [] | Some b \<Rightarrow> sb_segs (evict now b))"
  have "stream_ok now (all_segments did ops) (segs_of did (evict_all now bufs))"
    using buffers_ok_evict [OF ok] by (simp add: buffers_ok_def)
  then have "stream_ok now (all_segments did ops) kept"
    by (simp add: kept_def segs_of_def evict_all_def split: option.splits if_splits)
  then obtain gone where g: "all_segments did ops = gone @ kept" "\<forall>i<length gone. may_go now (all_segments did ops) i"
    by (auto simp: stream_ok_def)
  have out: "out = sort_key bs_Start kept"
    using assms(5) by (auto simp: BufferedSegments_def kept_def Let_def split: option.splits if_splits)
  have "bs_addedAt (gone ! i) < now - 2 * minute \<or> i + 240 < length (all_segments did ops)" if "i < length gone" for i
    using g(2) that unfolding may_go_def segmentBufferWindow_def g(1) by (auto simp: nth_append)
  moreover have "length out \<le> nat (sb_retain b div (500 * millisecond))" if "bufs did = Some b" for b
    using evict_bounded [of now b] that by (simp add: out kept_def maxSegs_def segmentBufferMinAverage_def)
  ultimately show ?thesis using g(1) out by (intro exI [of _ gone] exI [of _ kept]) auto
qed

definition sample_buffer_ops :: "buffer_op list" where
  "sample_buffer_ops = [OpBuffer 0 ''a'' 7 True True ''x'', OpBuffer minute ''a'' 9 True True ''y'',
     OpBuffer (2 * minute) ''b'' 0 True False ''o'', OpBuffer (2 * minute) ''a'' 8 True True ''z'']"

theorem buffer_holds_recent_witness:
  "map bs_Data (fst (BufferedSegments (2 * minute + 5) ''a'' (fold run_buffer sample_buffer_ops Map.empty))) = [''z'', ''y''] \<and>
   (\<exists>gone kept. all_segments ''a'' sample_buffer_ops = gone @ kept \<and>
      mset (fst (BufferedSegments (2 * minute + 5) ''a'' (fold run_buffer sample_buffer_ops Map.empty))) = mset kept)"
proof -
  obtain out bufs1 where r: "BufferedSegments (2 * minute + 5) ''a'' (fold run_buffer sample_buffer_ops Map.empty) = (out, bufs1)"
    by fastforce
  have t: "op_times 0 sample_buffer_ops" "\<forall>op\<in>set sample_buffer_ops. op_before (2 * minute + 5) op" "0 \<le> 2 * minute + 5"
    by (simp_all add: sample_buffer_ops_def duration_defs)
  have "map bs_Data (fst (BufferedSegments (2 * minute + 5) ''a'' (fold run_buffer sample_buffer_ops Map.empty))) = [''z'', ''y'']"
    by code_simp
  with buffer_holds_recent [OF t refl r] r show ?thesis by auto
qed

end
