(* ===== verification/TaskQueue.thy ===== *)
theory TaskQueue
  imports Errors
begin

text \<open>
  The task queue of the state database (\<open>statedb/task.go\<close>) and the workers that drain it
  (\<open>statedb/queue_processor.go\<close>).

  The table \<open>app_tasks\<close> is the list of its rows in the order of their ids.  As for the repos table, the
  outcome of each statement is an input: \<open>td_faults\<close> lists the errors of the statements to come and an
  exhausted list means that none fails.  One call reads the clock once here; the source reads it again
  for each condition of its query, a moment later.  Payloads are the marshalled bytes.
\<close>

section \<open>Rows\<close>

datatype TaskStatus =
    TaskStatusPending
  | TaskStatusProcessing
  | TaskStatusCompleted
  | TaskStatusFailed
  | TaskStatusRetrying

record AppTask =
  at_ID :: nat
  at_Type :: string
  at_TaskKey :: "string option"
  at_Status :: TaskStatus
  at_Payload :: bytes
  at_Priority :: int
  at_TryCount :: int
  at_MaxTries :: int
  at_LockExpires :: "time option"
  at_WorkerID :: "string option"
  at_Error :: "string option"
  at_CreatedAt :: time
  at_UpdatedAt :: time
  at_ScheduledAt :: "time option"

record task_db =
  td_rows :: "AppTask list"
  td_next :: nat
  td_poke :: bool
  td_faults :: "go_error option list"

definition empty_tasks :: task_db where
  "empty_tasks = \<lparr>td_rows = [], td_next = 1, td_poke = False, td_faults = []\<rparr>"

abbreviation "ErrRecordNotFound \<equiv> Sentinel ''gorm.ErrRecordNotFound''"
abbreviation "ErrTaskKeyTaken \<equiv> Sentinel ''unique index idx_task_dedup''"

section \<open>Options\<close>

datatype TaskOption =
    WithPriority int
  | WithMaxTries int
  | WithScheduledAt time
  | WithTaskKey string

fun apply_option :: "TaskOption \<Rightarrow> AppTask \<Rightarrow> AppTask" where
  "apply_option (WithPriority p) t = t\<lparr>at_Priority := p\<rparr>"
| "apply_option (WithMaxTries n) t = t\<lparr>at_MaxTries := n\<rparr>"
| "apply_option (WithScheduledAt s) t = t\<lparr>at_ScheduledAt := Some s\<rparr>"
| "apply_option (WithTaskKey k) t = t\<lparr>at_TaskKey := Some k\<rparr>"

definition new_task :: "string \<Rightarrow> bytes \<Rightarrow> TaskOption list \<Rightarrow> AppTask" where
  "new_task taskType payload options =
     fold apply_option options
       \<lparr>at_ID = 0, at_Type = taskType, at_TaskKey = None, at_Status = TaskStatusPending, at_Payload = payload,
        at_Priority = 0, at_TryCount = 0, at_MaxTries = 3, at_LockExpires = None, at_WorkerID = None,
        at_Error = None, at_CreatedAt = 0, at_UpdatedAt = 0, at_ScheduledAt = None\<rparr>"

section \<open>Statements\<close>

definition task_stmt :: "task_db \<Rightarrow> go_error option \<times> task_db" where
  "task_stmt d = (case td_faults d of [] \<Rightarrow> (None, d) | f # fs \<Rightarrow> (f, d\<lparr>td_faults := fs\<rparr>))"

text \<open>\<open>First\<close>: the row of lowest id that meets the condition.\<close>

definition first_task :: "(AppTask \<Rightarrow> bool) \<Rightarrow> task_db \<Rightarrow> (go_error + AppTask) \<times> task_db" where
  "first_task P d =
     (case task_stmt d of
        (Some e, d1) \<Rightarrow> (Inl e, d1)
      | (None, d1) \<Rightarrow>
          (case find P (td_rows d1) of None \<Rightarrow> (Inl ErrRecordNotFound, d1) | Some t \<Rightarrow> (Inr t, d1)))"

text \<open>\<open>Updates\<close> of the rows that meet a condition; the number of rows affected.  The library stamps
  \<open>updated_at\<close> with every update.\<close>

definition touch_rows :: "time \<Rightarrow> (AppTask \<Rightarrow> bool) \<Rightarrow> (AppTask \<Rightarrow> AppTask) \<Rightarrow> AppTask list \<Rightarrow> AppTask list" where
  "touch_rows now P f rows = map (\<lambda>t. if P t then (f t)\<lparr>at_UpdatedAt := now\<rparr> else t) rows"

definition update_tasks ::
  "time \<Rightarrow> (AppTask \<Rightarrow> bool) \<Rightarrow> (AppTask \<Rightarrow> AppTask) \<Rightarrow> task_db \<Rightarrow> (go_error + nat) \<times> task_db" where
  "update_tasks now P f d =
     (case task_stmt d of
        (Some e, d1) \<Rightarrow> (Inl e, d1)
      | (None, d1) \<Rightarrow>
          (Inr (length (filter P (td_rows d1))), d1\<lparr>td_rows := touch_rows now P f (td_rows d1)\<rparr>))"

text \<open>\<open>Create\<close>: the unique index refuses a key that is taken; a zero \<open>max_tries\<close> is written as the column
  default.\<close>

definition create_task :: "time \<Rightarrow> AppTask \<Rightarrow> task_db \<Rightarrow> (go_error + AppTask) \<times> task_db" where
  "create_task now task d =
     (case task_stmt d of
        (Some e, d1) \<Rightarrow> (Inl e, d1)
      | (None, d1) \<Rightarrow>
          if at_TaskKey task \<noteq> None \<and> (\<exists>t\<in>set (td_rows d1). at_TaskKey t = at_TaskKey task)
          then (Inl ErrTaskKeyTaken, d1)
          else
            let row = task\<lparr>at_ID := td_next d1, at_CreatedAt := now, at_UpdatedAt := now,
                           at_MaxTries := (if at_MaxTries task = 0 then 3 else at_MaxTries task)\<rparr>
            in (Inr row, d1\<lparr>td_rows := td_rows d1 @ [row], td_next := td_next d1 + 1\<rparr>))"

section \<open>Reading\<close>

definition GetTask :: "nat \<Rightarrow> task_db \<Rightarrow> (go_error + AppTask option) \<times> task_db" where
  "GetTask taskID d =
     (case first_task (\<lambda>t. at_ID t = taskID) d of
        (Inl e, d1) \<Rightarrow>
          (if errors_Is e ErrRecordNotFound then Inr None else Inl (WrapErr ''failed to get task'' [e]), d1)
      | (Inr t, d1) \<Rightarrow> (Inr (Some t), d1))"

definition GetTaskByKey :: "string \<Rightarrow> task_db \<Rightarrow> (go_error + AppTask option) \<times> task_db" where
  "GetTaskByKey taskKey d =
     (case first_task (\<lambda>t. at_TaskKey t = Some taskKey) d of
        (Inl e, d1) \<Rightarrow>
          (if errors_Is e ErrRecordNotFound then Inr None else Inl (WrapErr ''failed to get task by key'' [e]), d1)
      | (Inr t, d1) \<Rightarrow> (Inr (Some t), d1))"

record TaskFilters =
  tf_Status :: "TaskStatus option"
  tf_Type :: string
  tf_TaskKey :: string
  tf_WorkerID :: string
  tf_Limit :: int
  tf_Offset :: int

definition filters_match :: "TaskFilters \<Rightarrow> AppTask \<Rightarrow> bool" where
  "filters_match f t \<longleftrightarrow>
     (tf_Status f \<noteq> None \<longrightarrow> tf_Status f = Some (at_Status t)) \<and>
     (tf_Type f \<noteq> [] \<longrightarrow> at_Type t = tf_Type f) \<and>
     (tf_TaskKey f \<noteq> [] \<longrightarrow> at_TaskKey t = Some (tf_TaskKey f)) \<and>
     (tf_WorkerID f \<noteq> [] \<longrightarrow> at_WorkerID t = Some (tf_WorkerID f))"

definition ListTasks :: "TaskFilters \<Rightarrow> task_db \<Rightarrow> (go_error + AppTask list) \<times> task_db" where
  "ListTasks f d =
     (case task_stmt d of
        (Some e, d1) \<Rightarrow> (Inl (WrapErr ''failed to list tasks'' [e]), d1)
      | (None, d1) \<Rightarrow>
          (let rows = sort_key (\<lambda>t. - at_CreatedAt t) (filter (filters_match f) (td_rows d1));
               skipped = (if tf_Offset f > 0 then drop (nat (tf_Offset f)) rows else rows)
           in (Inr (if tf_Limit f > 0 then take (nat (tf_Limit f)) skipped else skipped), d1)))"

section \<open>Enqueueing\<close>

text \<open>\<open>ErrorText\<close> is the \<open>Error()\<close> method: what the database driver says.  The insert is a step of its own,
  because another node may insert between the check for an existing task and it.\<close>

definition enqueue_create ::
  "(go_error \<Rightarrow> string) \<Rightarrow> time \<Rightarrow> AppTask \<Rightarrow> task_db \<Rightarrow> (go_error + AppTask) \<times> task_db" where
  "enqueue_create ErrorText now task d =
     (case create_task now task d of
        (Inr row, d1) \<Rightarrow> (Inr row, d1\<lparr>td_poke := True\<rparr>)
      | (Inl e, d1) \<Rightarrow>
          if sublist ''duplicate'' (ErrorText e) \<or> sublist ''UNIQUE constraint'' (ErrorText e) then
            (case at_TaskKey task of
               None \<Rightarrow> (Inl (WrapErr ''failed to enqueue task'' [e]), d1)
             | Some k \<Rightarrow>
                 (case GetTaskByKey k d1 of
                    (Inr (Some t), d2) \<Rightarrow> (Inr t, d2)
                  | (_, d2) \<Rightarrow> (Inl (WrapErr ''failed to enqueue task'' [e]), d2)))
          else (Inl (WrapErr ''failed to enqueue task'' [e]), d1))"

definition EnqueueTask ::
  "(go_error \<Rightarrow> string) \<Rightarrow> time \<Rightarrow> string \<Rightarrow> go_error + bytes \<Rightarrow> TaskOption list \<Rightarrow> task_db \<Rightarrow>
   (go_error + AppTask) \<times> task_db" where
  "EnqueueTask ErrorText now taskType payload options d =
     (case payload of
        Inl e \<Rightarrow> (Inl (WrapErr ''failed to marshal payload'' [e]), d)
      | Inr payloadBytes \<Rightarrow>
          (let task = new_task taskType payloadBytes options in
           case at_TaskKey task of
             None \<Rightarrow> enqueue_create ErrorText now task d
           | Some k \<Rightarrow>
               (case GetTaskByKey k d of
                  (Inl e, d1) \<Rightarrow> (Inl (WrapErr ''failed to check for existing task'' [e]), d1)
                | (Inr (Some existing), d1) \<Rightarrow> (Inr existing, d1)
                | (Inr None, d1) \<Rightarrow> enqueue_create ErrorText now task d1)))"

section \<open>Dequeueing\<close>

datatype DBType = DBTypeSQLite | DBTypePostgres

definition lease :: duration where
  "lease = 30 * minute"

definition eligible :: "time \<Rightarrow> string list \<Rightarrow> AppTask \<Rightarrow> bool" where
  "eligible now taskTypes t \<longleftrightarrow>
     at_Status t = TaskStatusPending \<and>
     at_TryCount t < at_MaxTries t \<and>
     (case at_LockExpires t of None \<Rightarrow> True | Some x \<Rightarrow> x < now) \<and>
     (case at_ScheduledAt t of None \<Rightarrow> True | Some x \<Rightarrow> x \<le> now) \<and>
     (taskTypes \<noteq> [] \<longrightarrow> at_Type t \<in> set taskTypes)"

text \<open>\<open>ORDER BY priority DESC, created_at ASC LIMIT 1\<close>; equals in the order of their ids.\<close>

definition goes_first :: "AppTask \<Rightarrow> AppTask \<Rightarrow> bool" where
  "goes_first a b \<longleftrightarrow>
     at_Priority a > at_Priority b \<or> at_Priority a = at_Priority b \<and> at_CreatedAt a < at_CreatedAt b"

fun best_task :: "AppTask list \<Rightarrow> AppTask option" where
  "best_task [] = None"
| "best_task (t # ts) =
     (case best_task ts of None \<Rightarrow> Some t | Some u \<Rightarrow> if goes_first u t then Some u else Some t)"

text \<open>\<open>skip\<close> are the rows that other open transactions have locked: \<open>FOR UPDATE SKIP LOCKED\<close> passes over
  them.  SQLite runs one writing transaction at a time.\<close>

definition dequeue_pick :: "DBType \<Rightarrow> nat list \<Rightarrow> time \<Rightarrow> string list \<Rightarrow> AppTask list \<Rightarrow> AppTask option" where
  "dequeue_pick dbType skip now taskTypes rows =
     best_task (filter (\<lambda>t. eligible now taskTypes t \<and> (dbType = DBTypePostgres \<longrightarrow> at_ID t \<notin> set skip)) rows)"

definition lock_task :: "time \<Rightarrow> string \<Rightarrow> AppTask \<Rightarrow> AppTask \<Rightarrow> AppTask" where
  "lock_task now workerID picked t =
     t\<lparr>at_Status := TaskStatusProcessing, at_WorkerID := Some workerID,
       at_LockExpires := Some (now + lease), at_TryCount := at_TryCount picked + 1\<rparr>"

definition DequeueTask ::
  "DBType \<Rightarrow> nat list \<Rightarrow> time \<Rightarrow> string \<Rightarrow> string list \<Rightarrow> task_db \<Rightarrow> (go_error + AppTask option) \<times> task_db" where
  "DequeueTask dbType skip now workerID taskTypes d =
     (let failed = (\<lambda>e. if errors_Is e ErrRecordNotFound then Inr None
                        else Inl (WrapErr ''failed to dequeue task'' [e])) in
      case task_stmt d of
        (Some e, d1) \<Rightarrow> (failed e, d1)
      | (None, d1) \<Rightarrow>
          (case dequeue_pick dbType skip now taskTypes (td_rows d1) of
             None \<Rightarrow> (failed ErrRecordNotFound, d1)
           | Some task \<Rightarrow>
               (case update_tasks now (\<lambda>t. at_ID t = at_ID task) (lock_task now workerID task) d1 of
                  (Inl e, d2) \<Rightarrow> (failed e, d2)
                | (Inr n, d2) \<Rightarrow>
                    (case first_task (\<lambda>t. at_ID t = at_ID task) d2 of
                       (Inl e, d3) \<Rightarrow> (Inl (WrapErr ''failed to reload task'' [e]), d3)
                     | (Inr t, d3) \<Rightarrow> (Inr (Some t), d3)))))"

section \<open>Ending a task\<close>

definition release_row :: "TaskStatus \<Rightarrow> AppTask \<Rightarrow> AppTask" where
  "release_row status t = t\<lparr>at_Status := status, at_LockExpires := None, at_WorkerID := None\<rparr>"

definition CompleteTask :: "time \<Rightarrow> nat \<Rightarrow> task_db \<Rightarrow> go_error option \<times> task_db" where
  "CompleteTask now taskID d =
     (case update_tasks now (\<lambda>t. at_ID t = taskID) (release_row TaskStatusCompleted) d of
        (Inl e, d1) \<Rightarrow> (Some (WrapErr ''failed to complete task'' [e]), d1)
      | (Inr n, d1) \<Rightarrow> (if n = 0 then Some (WrapErr ''task not found'' []) else None, d1))"

definition FailTask :: "time \<Rightarrow> nat \<Rightarrow> string \<Rightarrow> task_db \<Rightarrow> go_error option \<times> task_db" where
  "FailTask now taskID errorMsg d =
     (case first_task (\<lambda>t. at_ID t = taskID) d of
        (Inl e, d1) \<Rightarrow> (Some (WrapErr ''failed to mark task as failed'' [e]), d1)
      | (Inr task, d1) \<Rightarrow>
          (let status = (if at_TryCount task \<ge> at_MaxTries task then TaskStatusFailed else TaskStatusPending) in
           case update_tasks now (\<lambda>t. at_ID t = taskID)
                  (\<lambda>t. (release_row status t)\<lparr>at_Error := Some errorMsg\<rparr>) d1 of
             (Inl e, d2) \<Rightarrow> (Some (WrapErr ''failed to mark task as failed'' [e]), d2)
           | (Inr n, d2) \<Rightarrow> (None, d2)))"

definition ReleaseTask :: "time \<Rightarrow> nat \<Rightarrow> task_db \<Rightarrow> go_error option \<times> task_db" where
  "ReleaseTask now taskID d =
     (case update_tasks now (\<lambda>t. at_ID t = taskID) (release_row TaskStatusPending) d of
        (Inl e, d1) \<Rightarrow> (Some (WrapErr ''failed to release task'' [e]), d1)
      | (Inr n, d1) \<Rightarrow> (if n = 0 then Some (WrapErr ''task not found'' []) else None, d1))"

definition CleanupExpiredLocks :: "time \<Rightarrow> task_db \<Rightarrow> (go_error + nat) \<times> task_db" where
  "CleanupExpiredLocks now d =
     (case update_tasks now
             (\<lambda>t. at_Status t = TaskStatusProcessing \<and>
                  (case at_LockExpires t of None \<Rightarrow> False | Some x \<Rightarrow> x < now))
             (release_row TaskStatusPending) d of
        (Inl e, d1) \<Rightarrow> (Inl (WrapErr ''failed to cleanup expired locks'' [e]), d1)
      | (Inr n, d1) \<Rightarrow> (Inr n, d1))"

section \<open>Sequences of calls\<close>

text \<open>The calls of any number of nodes and workers, each a transaction of its own, in the order the database
  runs them.  \<open>OpInsert\<close> is the insert of an enqueue whose check ran earlier.  A run yields the ids handed to
  workers, oldest first.\<close>

datatype queue_op =
    OpEnqueue time string bytes "TaskOption list"
  | OpInsert time string bytes "TaskOption list"
  | OpDequeue DBType "nat list" time string "string list"
  | OpComplete time nat
  | OpFail time nat string
  | OpRelease time nat
  | OpCleanup time

fun run_op :: "(go_error \<Rightarrow> string) \<Rightarrow> queue_op \<Rightarrow> task_db \<Rightarrow> nat list \<times> task_db" where
  "run_op E (OpEnqueue now ty payload opts) d = ([], snd (EnqueueTask E now ty (Inr payload) opts d))"
| "run_op E (OpInsert now ty payload opts) d = ([], snd (enqueue_create E now (new_task ty payload opts) d))"
| "run_op E (OpDequeue db skip now worker types) d =
     (case DequeueTask db skip now worker types d of
        (Inr (Some t), d1) \<Rightarrow> ([at_ID t], d1)
      | (_, d1) \<Rightarrow> ([], d1))"
| "run_op E (OpComplete now i) d = ([], snd (CompleteTask now i d))"
| "run_op E (OpFail now i msg) d = ([], snd (FailTask now i msg d))"
| "run_op E (OpRelease now i) d = ([], snd (ReleaseTask now i d))"
| "run_op E (OpCleanup now) d = ([], snd (CleanupExpiredLocks now d))"

fun run_ops :: "(go_error \<Rightarrow> string) \<Rightarrow> queue_op list \<Rightarrow> task_db \<Rightarrow> nat list \<times> task_db" where
  "run_ops E [] d = ([], d)"
| "run_ops E (op # ops) d =
     (let (h, d1) = run_op E op d; (hs, d2) = run_ops E ops d1 in (h @ hs, d2))"

section \<open>What each call does to the rows\<close>

named_theorems task_rows \<open>rows and next id after a statement on the task table\<close>

lemma task_stmt_rows [task_rows]:
  "task_stmt d = (r, d1) \<Longrightarrow> td_rows d1 = td_rows d \<and> td_next d1 = td_next d"
  by (auto simp: task_stmt_def split: list.splits)

lemma task_stmt_none: "td_faults d = [] \<Longrightarrow> task_stmt d = (None, d)"
  by (simp add: task_stmt_def)

lemma first_task_rows [task_rows]:
  "first_task P d = (r, d1) \<Longrightarrow>
   td_rows d1 = td_rows d \<and> td_next d1 = td_next d \<and> (\<forall>t. r = Inr t \<longrightarrow> find P (td_rows d) = Some t)"
  by (auto simp: first_task_def split: prod.splits option.splits dest: task_rows)

lemma GetTaskByKey_rows [task_rows]:
  "GetTaskByKey k d = (r, d1) \<Longrightarrow> td_rows d1 = td_rows d \<and> td_next d1 = td_next d"
  by (auto simp: GetTaskByKey_def split: prod.splits sum.splits dest: task_rows)

lemma update_tasks_rows [task_rows]:
  "update_tasks now P f d = (r, d1) \<Longrightarrow>
   td_next d1 = td_next d \<and> td_rows d1 = (case r of Inl e \<Rightarrow> td_rows d | Inr n \<Rightarrow> touch_rows now P f (td_rows d))"
  by (auto simp: update_tasks_def split: prod.splits option.splits dest: task_rows)

definition fresh_row :: "task_db \<Rightarrow> AppTask \<Rightarrow> bool" where
  "fresh_row d row \<longleftrightarrow>
     at_ID row = td_next d \<and> at_Status row = TaskStatusPending \<and> at_TryCount row = 0 \<and>
     (at_TaskKey row = None \<or> at_TaskKey row \<notin> at_TaskKey ` set (td_rows d))"

definition rows_added :: "task_db \<Rightarrow> task_db \<Rightarrow> bool" where
  "rows_added d d1 \<longleftrightarrow>
     td_rows d1 = td_rows d \<and> td_next d1 = td_next d \<or>
     td_next d1 = td_next d + 1 \<and> (\<exists>row. td_rows d1 = td_rows d @ [row] \<and> fresh_row d row)"

lemma apply_option_keeps:
  "at_TryCount (apply_option opt t) = at_TryCount t" "at_Status (apply_option opt t) = at_Status t"
  by (cases opt; simp)+

lemma new_task_pending [simp]:
  "at_TryCount (new_task ty payload opts) = 0" "at_Status (new_task ty payload opts) = TaskStatusPending"
proof -
  have "at_TryCount (fold apply_option opts t) = at_TryCount t \<and> at_Status (fold apply_option opts t) = at_Status t" for t
    by (induction opts arbitrary: t) (simp_all add: apply_option_keeps)
  then show "at_TryCount (new_task ty payload opts) = 0" "at_Status (new_task ty payload opts) = TaskStatusPending"
    by (simp_all add: new_task_def)
qed

lemma create_task_rows:
  assumes "create_task now t d = (r, d1)" "at_TryCount t = 0" "at_Status t = TaskStatusPending"
  shows "rows_added d d1"
  using assms
  by (fastforce simp: create_task_def rows_added_def fresh_row_def Let_def image_iff
      split: prod.splits option.splits if_splits dest: task_rows)

lemma enqueue_create_rows:
  assumes r: "enqueue_create E now t d = (r, d1)" and t: "at_TryCount t = 0" "at_Status t = TaskStatusPending"
  shows "rows_added d d1"
proof -
  obtain q d2 where c: "create_task now t d = (q, d2)" by fastforce
  from create_task_rows [OF c t] have "rows_added d d2" .
  moreover have "td_rows d1 = td_rows d2 \<and> td_next d1 = td_next d2"
    using r c by (auto simp: enqueue_create_def split: sum.splits if_splits option.splits prod.splits dest: task_rows)
  ultimately show ?thesis by (simp add: rows_added_def)
qed

lemma EnqueueTask_rows:
  assumes r: "EnqueueTask E now ty (Inr payload) opts d = (r, d1)"
  shows "rows_added d d1"
proof (cases "at_TaskKey (new_task ty payload opts)")
  case None
  with r show ?thesis by (auto simp: EnqueueTask_def Let_def intro: enqueue_create_rows)
next
  case (Some k)
  obtain q d2 where g: "GetTaskByKey k d = (q, d2)" by fastforce
  have same: "td_rows d2 = td_rows d" "td_next d2 = td_next d" using task_rows(3) [OF g] by auto
  show ?thesis
  proof (cases "q = Inr None")
    case True
    with r Some g have "enqueue_create E now (new_task ty payload opts) d2 = (r, d1)"
      by (simp add: EnqueueTask_def)
    then have "rows_added d2 d1" by (rule enqueue_create_rows) simp_all
    then show ?thesis by (simp add: rows_added_def fresh_row_def same)
  next
    case False
    with r Some g have "d1 = d2" by (auto simp: EnqueueTask_def split: sum.splits option.splits)
    then show ?thesis by (simp add: rows_added_def same)
  qed
qed

text \<open>The row a dequeue takes is in the table and eligible; nothing that could be taken goes before it.\<close>

lemma best_task_None [simp]: "best_task ts = None \<longleftrightarrow> ts = []"
  by (cases ts) (auto split: option.splits)

lemma goes_first_trans_le: "\<not> goes_first b a \<Longrightarrow> \<not> goes_first c b \<Longrightarrow> \<not> goes_first c a"
  by (auto simp: goes_first_def)

lemma goes_first_asym: "goes_first a b \<Longrightarrow> \<not> goes_first b a"
  by (auto simp: goes_first_def)

lemma best_task_best: "best_task ts = Some t \<Longrightarrow> t \<in> set ts \<and> (\<forall>u\<in>set ts. \<not> goes_first u t)"
proof (induction ts arbitrary: t)
  case (Cons x ts)
  show ?case
  proof (cases "best_task ts")
    case None
    with Cons.prems show ?thesis by (simp add: goes_first_def)
  next
    case (Some u)
    note ih = Cons.IH [OF Some]
    show ?thesis
    proof (cases "goes_first u x")
      case True
      with Cons.prems Some have "t = u" by simp
      with ih True show ?thesis by (auto dest: goes_first_asym)
    next
      case False
      with Cons.prems Some have "t = x" by simp
      with ih False show ?thesis by (auto dest: goes_first_trans_le simp: goes_first_def)
    qed
  qed
qed simp

lemma dequeue_pick_eligible:
  "dequeue_pick db skip now types rows = Some p \<Longrightarrow> p \<in> set rows \<and> eligible now types p"
  by (auto simp: dequeue_pick_def dest: best_task_best)

text \<open>A dequeue changes nothing and hands out nothing, or locks the row it picked; what it hands out is that
  row.\<close>

lemma DequeueTask_rows:
  assumes "DequeueTask db skip now worker types d = (r, d1)"
  shows "td_next d1 = td_next d \<and>
    (td_rows d1 = td_rows d \<and> (\<forall>t. r \<noteq> Inr (Some t)) \<or>
     (\<exists>p. dequeue_pick db skip now types (td_rows d) = Some p \<and>
          td_rows d1 = touch_rows now (\<lambda>t. at_ID t = at_ID p) (lock_task now worker p) (td_rows d) \<and>
          (\<forall>t. r = Inr (Some t) \<longrightarrow> find (\<lambda>t. at_ID t = at_ID p) (td_rows d1) = Some t)))"
  using assms
  by (auto simp: DequeueTask_def Let_def split: prod.splits option.splits sum.splits if_splits dest!: task_rows)

lemma find_Some_prop: "find P xs = Some x \<Longrightarrow> x \<in> set xs \<and> P x"
  by (induction xs) (auto split: if_splits)

lemma find_by_id: "distinct (map at_ID rows) \<Longrightarrow> t \<in> set rows \<Longrightarrow> find (\<lambda>u. at_ID u = at_ID t) rows = Some t"
  by (induction rows) auto

lemma dequeue_step_rows:
  assumes "run_op E (OpDequeue db skip now worker types) d = (h, d1)"
  shows "td_next d1 = td_next d \<and>
    (td_rows d1 = td_rows d \<and> h = [] \<or>
     (\<exists>p\<in>set (td_rows d). eligible now types p \<and> (h = [] \<or> h = [at_ID p]) \<and>
          td_rows d1 = touch_rows now (\<lambda>t. at_ID t = at_ID p) (lock_task now worker p) (td_rows d)))"
proof -
  obtain r d2 where D: "DequeueTask db skip now worker types d = (r, d2)" by fastforce
  with assms have h: "d1 = d2" "h = (case r of Inr (Some t) \<Rightarrow> [at_ID t] | _ \<Rightarrow> [])"
    by (auto split: sum.splits option.splits)
  have none: "h = []" if "\<forall>t. r \<noteq> Inr (Some t)" using that h(2) by (auto split: sum.splits option.splits)
  have some: "h = [] \<or> h = [at_ID p]"
    if "\<forall>t. r = Inr (Some t) \<longrightarrow> find (\<lambda>t. at_ID t = at_ID p) (td_rows d2) = Some t" for p
    using that h(2) by (auto split: sum.splits option.splits dest: find_Some_prop)
  from DequeueTask_rows [OF D] show ?thesis
    unfolding h(1) using none some by (fastforce dest: dequeue_pick_eligible)
qed

text \<open>The other calls write the rows they name without touching identity, attempts or limit.\<close>

definition rows_ended :: "task_db \<Rightarrow> task_db \<Rightarrow> bool" where
  "rows_ended d d1 \<longleftrightarrow> td_next d1 = td_next d \<and>
     (\<exists>f. td_rows d1 = map f (td_rows d) \<and>
          (\<forall>t. at_ID (f t) = at_ID t \<and> at_TryCount (f t) = at_TryCount t \<and> at_MaxTries (f t) = at_MaxTries t \<and>
               at_TaskKey (f t) = at_TaskKey t))"

lemma rows_ended_refl: "td_rows d1 = td_rows d \<Longrightarrow> td_next d1 = td_next d \<Longrightarrow> rows_ended d d1"
  by (auto simp: rows_ended_def intro!: exI [of _ "\<lambda>t. t"])

lemma rows_ended_touch:
  assumes "td_rows d1 = touch_rows now P g (td_rows d)" "td_next d1 = td_next d"
    "\<And>t. at_ID (g t) = at_ID t \<and> at_TryCount (g t) = at_TryCount t \<and> at_MaxTries (g t) = at_MaxTries t \<and>
         at_TaskKey (g t) = at_TaskKey t"
  shows "rows_ended d d1"
  using assms unfolding rows_ended_def touch_rows_def
  by (auto intro!: exI [of _ "\<lambda>t. if P t then (g t)\<lparr>at_UpdatedAt := now\<rparr> else t"])

lemma update_tasks_ended:
  assumes u: "update_tasks now P g d = (r, d1)"
    and g: "\<And>t. at_ID (g t) = at_ID t \<and> at_TryCount (g t) = at_TryCount t \<and> at_MaxTries (g t) = at_MaxTries t \<and>
         at_TaskKey (g t) = at_TaskKey t"
  shows "rows_ended d d1"
  using task_rows(4) [OF u] g by (cases r) (auto intro: rows_ended_refl rows_ended_touch)

fun ends_task :: "queue_op \<Rightarrow> bool" where
  "ends_task (OpComplete now i) = True"
| "ends_task (OpFail now i msg) = True"
| "ends_task (OpRelease now i) = True"
| "ends_task (OpCleanup now) = True"
| "ends_task _ = False"

lemma release_row_keeps [simp]:
  "at_ID (release_row st t) = at_ID t" "at_TryCount (release_row st t) = at_TryCount t"
  "at_MaxTries (release_row st t) = at_MaxTries t" "at_TaskKey (release_row st t) = at_TaskKey t"
  "at_Status (release_row st t) = st" "at_LockExpires (release_row st t) = None"
  by (simp_all add: release_row_def)

lemma ends_task_rows:
  assumes "run_op E op d = (h, d1)" "ends_task op"
  shows "h = [] \<and> rows_ended d d1"
proof (cases op)
  case (OpComplete now i)
  obtain r d2 where u: "update_tasks now (\<lambda>t. at_ID t = i) (release_row TaskStatusCompleted) d = (r, d2)" by fastforce
  from update_tasks_ended [OF u] assms OpComplete u show ?thesis
    by (auto simp: CompleteTask_def split: sum.splits)
next
  case (OpRelease now i)
  obtain r d2 where u: "update_tasks now (\<lambda>t. at_ID t = i) (release_row TaskStatusPending) d = (r, d2)" by fastforce
  from update_tasks_ended [OF u] assms OpRelease u show ?thesis
    by (auto simp: ReleaseTask_def split: sum.splits)
next
  case (OpCleanup now)
  let ?P = "\<lambda>t. at_Status t = TaskStatusProcessing \<and> (case at_LockExpires t of None \<Rightarrow> False | Some x \<Rightarrow> x < now)"
  obtain r d2 where u: "update_tasks now ?P (release_row TaskStatusPending) d = (r, d2)" by fastforce
  from update_tasks_ended [OF u] assms OpCleanup u show ?thesis
    by (auto simp: CleanupExpiredLocks_def split: sum.splits)
next
  case (OpFail now i msg)
  obtain q d2 where f: "first_task (\<lambda>t. at_ID t = i) d = (q, d2)" by fastforce
  have same: "td_rows d2 = td_rows d" "td_next d2 = td_next d" using task_rows(2) [OF f] by auto
  show ?thesis
  proof (cases q)
    case (Inl e)
    with assms OpFail f have "d1 = d2" "h = []" by (auto simp: FailTask_def)
    with same show ?thesis by (simp add: rows_ended_refl)
  next
    case (Inr task)
    let ?st = "if at_TryCount task \<ge> at_MaxTries task then TaskStatusFailed else TaskStatusPending"
    obtain r d3 where u: "update_tasks now (\<lambda>t. at_ID t = i) (\<lambda>t. (release_row ?st t)\<lparr>at_Error := Some msg\<rparr>) d2 = (r, d3)"
      by fastforce
    from update_tasks_ended [OF u] have "rows_ended d d3" by (simp add: rows_ended_def same)
    with assms OpFail f Inr u show ?thesis by (auto simp: FailTask_def Let_def split: sum.splits)
  qed
qed (use assms in simp_all)

section \<open>Attempts\<close>

text \<open>The invariant of the table against the history of hand-outs: ids and keys are unique, every task handed
  out is a row, and a row has been handed out at most as often as it counts attempts, which never pass its
  limit.\<close>

definition keys_unique :: "AppTask list \<Rightarrow> bool" where
  "keys_unique rows = distinct (map at_TaskKey (filter (\<lambda>t. at_TaskKey t \<noteq> None) rows))"

definition tries_inv :: "nat list \<Rightarrow> task_db \<Rightarrow> bool" where
  "tries_inv H d \<longleftrightarrow>
     distinct (map at_ID (td_rows d)) \<and> (\<forall>r\<in>set (td_rows d). at_ID r < td_next d) \<and>
     set H \<subseteq> at_ID ` set (td_rows d) \<and>
     keys_unique (td_rows d) \<and>
     (\<forall>r\<in>set (td_rows d). int (count_list H (at_ID r)) \<le> at_TryCount r \<and>
        (at_TryCount r = 0 \<or> at_TryCount r \<le> at_MaxTries r))"

lemma count_list_absent: "x \<notin> set xs \<Longrightarrow> count_list xs x = 0"
  by (induction xs) auto

lemma keys_unique_map: "(\<And>t. at_TaskKey (f t) = at_TaskKey t) \<Longrightarrow> keys_unique (map f rows) = keys_unique rows"
  by (simp add: keys_unique_def filter_map comp_def)

lemma keys_unique_snoc:
  "keys_unique (rows @ [row]) \<longleftrightarrow>
     keys_unique rows \<and> (at_TaskKey row = None \<or> at_TaskKey row \<notin> at_TaskKey ` set rows)"
  by (auto simp: keys_unique_def)

lemma tries_inv_ended:
  assumes "tries_inv H d" "rows_ended d d1"
  shows "tries_inv H d1"
proof -
  obtain f where f: "td_rows d1 = map f (td_rows d)" "td_next d1 = td_next d"
      "\<And>t. at_ID (f t) = at_ID t" "\<And>t. at_TryCount (f t) = at_TryCount t" "\<And>t. at_MaxTries (f t) = at_MaxTries t"
      "\<And>t. at_TaskKey (f t) = at_TaskKey t"
    using assms(2) by (auto simp: rows_ended_def)
  have "map at_ID (map f (td_rows d)) = map at_ID (td_rows d)" "at_ID \<circ> f = at_ID"
    using f(3) by (simp_all add: fun_eq_iff)
  moreover have "at_ID ` f ` set (td_rows d) = at_ID ` set (td_rows d)" using f(3) by (auto simp: image_iff)
  ultimately show ?thesis using assms(1) unfolding tries_inv_def f(1,2)
    by (simp add: f(3-6) keys_unique_map)
qed

lemma tries_inv_added:
  assumes inv: "tries_inv H d" and add: "rows_added d d1"
  shows "tries_inv H d1"
  using add unfolding rows_added_def
proof (elim disjE conjE exE)
  assume "td_rows d1 = td_rows d" "td_next d1 = td_next d"
  with inv show ?thesis by (simp add: tries_inv_def)
next
  fix row assume nx: "td_next d1 = td_next d + 1" and rows: "td_rows d1 = td_rows d @ [row]" and fr: "fresh_row d row"
  have ids: "\<forall>r\<in>set (td_rows d). at_ID r < td_next d" and H: "set H \<subseteq> at_ID ` set (td_rows d)"
    using inv by (auto simp: tries_inv_def)
  then have "td_next d \<notin> at_ID ` set (td_rows d)" by auto
  then have "at_ID row \<notin> at_ID ` set (td_rows d)" "at_ID row \<notin> set H" using H fr by (auto simp: fresh_row_def)
  then have "count_list H (at_ID row) = 0" by (simp add: count_list_absent)
  moreover have "keys_unique (td_rows d1)" using inv fr by (auto simp: rows keys_unique_snoc tries_inv_def fresh_row_def)
  ultimately show ?thesis using inv fr \<open>at_ID row \<notin> at_ID ` set (td_rows d)\<close>
    unfolding tries_inv_def rows nx by (auto simp: fresh_row_def less_Suc_eq)
qed

lemma lock_task_keeps [simp]:
  "at_ID (lock_task now w p t) = at_ID t" "at_TaskKey (lock_task now w p t) = at_TaskKey t"
  "at_MaxTries (lock_task now w p t) = at_MaxTries t" "at_TryCount (lock_task now w p t) = at_TryCount p + 1"
  "at_Status (lock_task now w p t) = TaskStatusProcessing" "at_LockExpires (lock_task now w p t) = Some (now + lease)"
  by (simp_all add: lock_task_def)

lemma tries_inv_locked:
  assumes inv: "tries_inv H d" and p: "p \<in> set (td_rows d)" "eligible now types p"
    and rows: "td_rows d1 = touch_rows now (\<lambda>t. at_ID t = at_ID p) (lock_task now w p) (td_rows d)" "td_next d1 = td_next d"
    and h: "h = [] \<or> h = [at_ID p]"
  shows "tries_inv (H @ h) d1"
proof -
  let ?f = "\<lambda>t. if at_ID t = at_ID p then (lock_task now w p t)\<lparr>at_UpdatedAt := now\<rparr> else t"
  have rows': "td_rows d1 = map ?f (td_rows d)" using rows(1) by (simp add: touch_rows_def)
  have fid: "at_ID (?f t) = at_ID t" "at_TaskKey (?f t) = at_TaskKey t" for t by simp_all
  have ids: "map at_ID (td_rows d1) = map at_ID (td_rows d)" unfolding rows' by simp
  have idset: "at_ID ` set (td_rows d1) = at_ID ` set (td_rows d)" using ids by (metis list.set_map)
  have same: "t = p" if "t \<in> set (td_rows d)" "at_ID t = at_ID p" for t
    using inv p(1) that by (auto simp: tries_inv_def distinct_map inj_on_def)
  have "int (count_list (H @ h) (at_ID r)) \<le> at_TryCount r \<and> (at_TryCount r = 0 \<or> at_TryCount r \<le> at_MaxTries r)"
    if r: "r \<in> set (td_rows d1)" for r
  proof -
    obtain t where t: "t \<in> set (td_rows d)" "r = ?f t" using r unfolding rows' set_map by blast
    have old: "int (count_list H (at_ID t)) \<le> at_TryCount t" "at_TryCount t = 0 \<or> at_TryCount t \<le> at_MaxTries t"
      using inv t(1) by (auto simp: tries_inv_def)
    show ?thesis
    proof (cases "at_ID t = at_ID p")
      case True
      then have "t = p" using same t(1) by simp
      then show ?thesis using old h p(2) t(2) by (auto simp: eligible_def)
    next
      case False
      then show ?thesis using old h t(2) by auto
    qed
  qed
  moreover have "set (H @ h) \<subseteq> at_ID ` set (td_rows d1)"
    unfolding idset using inv h p(1) by (auto simp: tries_inv_def)
  moreover have "keys_unique (td_rows d1)" using inv unfolding rows' by (simp add: keys_unique_map tries_inv_def)
  moreover have "\<forall>r\<in>set (td_rows d1). at_ID r < td_next d1"
    using inv unfolding rows' rows(2) by (auto simp: tries_inv_def)
  moreover have "distinct (map at_ID (td_rows d1))" using inv ids by (simp add: tries_inv_def)
  ultimately show ?thesis unfolding tries_inv_def by blast
qed

lemma tries_inv_step:
  assumes "tries_inv H d" "run_op E op d = (h, d1)"
  shows "tries_inv (H @ h) d1"
proof (cases "ends_task op")
  case True
  with ends_task_rows [OF assms(2)] assms(1) show ?thesis by (auto intro: tries_inv_ended)
next
  case False
  then consider (enq) "rows_added d d1" "h = []" | (deq) db skip now w types where "op = OpDequeue db skip now w types"
    using assms(2) by (cases op) (auto intro: EnqueueTask_rows [OF prod.collapse [symmetric]] enqueue_create_rows [OF prod.collapse [symmetric] new_task_pending])
  then show ?thesis
  proof cases
    case enq
    then show ?thesis using assms(1) by (simp add: tries_inv_added)
  next
    case deq
    from dequeue_step_rows [OF assms(2) [unfolded deq]] show ?thesis
    proof (elim conjE disjE bexE)
      assume "td_rows d1 = td_rows d" "h = []" "td_next d1 = td_next d"
      with assms(1) show ?thesis by (simp add: tries_inv_def)
    qed (rule tries_inv_locked [OF assms(1)]; simp)+
  qed
qed

lemma tries_inv_run: "tries_inv H d \<Longrightarrow> run_ops E ops d = (hs, d1) \<Longrightarrow> tries_inv (H @ hs) d1"
proof (induction ops arbitrary: H d hs)
  case (Cons op ops)
  obtain h d2 hs' where s: "run_op E op d = (h, d2)" "run_ops E ops d2 = (hs', d1)" "hs = h @ hs'"
    using Cons.prems(2) by (auto simp: Let_def split: prod.splits)
  from Cons.IH [OF tries_inv_step [OF Cons.prems(1) s(1)] s(2)] s(3) show ?case by simp
qed simp

lemma tries_inv_start: "tries_inv [] (empty_tasks\<lparr>td_faults := fs\<rparr>)"
  by (simp add: tries_inv_def empty_tasks_def keys_unique_def)

section \<open>Leases\<close>

text \<open>Task \<open>i\<close> is taken: its row is being processed with a lease in \<open>Q\<close>, or completed if \<open>fin\<close> allows it.\<close>

definition taken :: "(time option \<Rightarrow> bool) \<Rightarrow> bool \<Rightarrow> nat \<Rightarrow> task_db \<Rightarrow> bool" where
  "taken Q fin i d \<longleftrightarrow> i < td_next d \<and>
     (\<forall>r\<in>set (td_rows d). at_ID r = i \<longrightarrow>
        at_Status r = TaskStatusProcessing \<and> Q (at_LockExpires r) \<or> fin \<and> at_Status r = TaskStatusCompleted)"

fun keeps_taken :: "(time option \<Rightarrow> bool) \<Rightarrow> bool \<Rightarrow> nat \<Rightarrow> queue_op \<Rightarrow> bool" where
  "keeps_taken Q fin i (OpComplete now j) \<longleftrightarrow> fin \<or> j \<noteq> i"
| "keeps_taken Q fin i (OpFail now j msg) \<longleftrightarrow> j \<noteq> i"
| "keeps_taken Q fin i (OpRelease now j) \<longleftrightarrow> j \<noteq> i"
| "keeps_taken Q fin i (OpCleanup now) \<longleftrightarrow> (\<forall>x. Q (Some x) \<longrightarrow> now \<le> x)"
| "keeps_taken Q fin i _ \<longleftrightarrow> True"

lemma taken_touch:
  assumes "taken Q fin i d" "td_next d1 = td_next d" "td_rows d1 = touch_rows now P f (td_rows d)"
    and "\<And>t. at_ID (f t) = at_ID t"
    and "\<And>t. t \<in> set (td_rows d) \<Longrightarrow> at_ID t = i \<Longrightarrow> P t \<Longrightarrow> fin \<and> at_Status (f t) = TaskStatusCompleted"
  shows "taken Q fin i d1"
proof -
  have "at_Status r = TaskStatusProcessing \<and> Q (at_LockExpires r) \<or> fin \<and> at_Status r = TaskStatusCompleted"
    if "r \<in> set (td_rows d1)" "at_ID r = i" for r
  proof -
    from that(1) obtain t where t: "t \<in> set (td_rows d)" "r = (if P t then (f t)\<lparr>at_UpdatedAt := now\<rparr> else t)"
      unfolding assms(3) touch_rows_def by auto
    with that(2) assms(4) have "at_ID t = i" by (auto split: if_splits)
    with t assms(1,5) show ?thesis by (auto simp: taken_def)
  qed
  then show ?thesis using assms(1,2) by (simp add: taken_def)
qed

lemma taken_update:
  assumes u: "update_tasks now P f d = (r, d1)" and t: "taken Q fin i d"
    and "\<And>t. at_ID (f t) = at_ID t"
    and "\<And>t. t \<in> set (td_rows d) \<Longrightarrow> at_ID t = i \<Longrightarrow> P t \<Longrightarrow> fin \<and> at_Status (f t) = TaskStatusCompleted"
  shows "taken Q fin i d1"
proof (cases r)
  case (Inl e)
  with task_rows(4) [OF u] t show ?thesis by (simp add: taken_def)
next
  case (Inr n)
  with task_rows(4) [OF u] show ?thesis using assms(3,4) by (auto intro: taken_touch [OF t])
qed

lemma taken_added: "taken Q fin i d \<Longrightarrow> rows_added d d1 \<Longrightarrow> taken Q fin i d1"
  by (auto simp: taken_def rows_added_def fresh_row_def)

lemma taken_complete:
  assumes "taken Q fin i d" "fin \<or> j \<noteq> i"
  shows "taken Q fin i (snd (CompleteTask now j d))"
proof -
  obtain r d1 where u: "update_tasks now (\<lambda>t. at_ID t = j) (release_row TaskStatusCompleted) d = (r, d1)" by fastforce
  have "taken Q fin i d1" by (rule taken_update [OF u assms(1)]) (use assms(2) in auto)
  then show ?thesis using u by (simp add: CompleteTask_def split: sum.splits)
qed

lemma taken_release:
  assumes "taken Q fin i d" "j \<noteq> i"
  shows "taken Q fin i (snd (ReleaseTask now j d))"
proof -
  obtain r d1 where u: "update_tasks now (\<lambda>t. at_ID t = j) (release_row TaskStatusPending) d = (r, d1)" by fastforce
  have "taken Q fin i d1" by (rule taken_update [OF u assms(1)]) (use assms(2) in auto)
  then show ?thesis using u by (simp add: ReleaseTask_def split: sum.splits)
qed

lemma taken_fail:
  assumes "taken Q fin i d" "j \<noteq> i"
  shows "taken Q fin i (snd (FailTask now j msg d))"
proof -
  obtain q d1 where f: "first_task (\<lambda>t. at_ID t = j) d = (q, d1)" by fastforce
  have t: "taken Q fin i d1" using task_rows(2) [OF f] assms(1) by (simp add: taken_def)
  show ?thesis
  proof (cases q)
    case (Inr task)
    let ?st = "if at_TryCount task \<ge> at_MaxTries task then TaskStatusFailed else TaskStatusPending"
    obtain r d2 where u: "update_tasks now (\<lambda>t. at_ID t = j) (\<lambda>t. (release_row ?st t)\<lparr>at_Error := Some msg\<rparr>) d1 = (r, d2)"
      by fastforce
    have "taken Q fin i d2" by (rule taken_update [OF u t]) (use assms(2) in auto)
    then show ?thesis using f u Inr by (simp add: FailTask_def Let_def split: sum.splits)
  qed (use f t in \<open>simp add: FailTask_def\<close>)
qed

lemma taken_cleanup:
  assumes "taken Q fin i d" "\<forall>x. Q (Some x) \<longrightarrow> now \<le> x"
  shows "taken Q fin i (snd (CleanupExpiredLocks now d))"
proof -
  let ?P = "\<lambda>t. at_Status t = TaskStatusProcessing \<and> (case at_LockExpires t of None \<Rightarrow> False | Some x \<Rightarrow> x < now)"
  obtain r d1 where u: "update_tasks now ?P (release_row TaskStatusPending) d = (r, d1)" by fastforce
  have "taken Q fin i d1"
    by (rule taken_update [OF u assms(1)]) (use assms in \<open>force simp: taken_def split: option.splits\<close>)+
  then show ?thesis using u by (simp add: CleanupExpiredLocks_def split: sum.splits)
qed

lemma taken_step:
  assumes t: "taken Q fin i d" and k: "keeps_taken Q fin i op" and r: "run_op E op d = (h, d1)"
  shows "taken Q fin i d1 \<and> i \<notin> set h"
proof (cases op)
  case (OpDequeue db skip now w types)
  from dequeue_step_rows [OF r [unfolded OpDequeue]] show ?thesis
  proof (elim conjE disjE bexE)
    assume "td_rows d1 = td_rows d" "h = []" "td_next d1 = td_next d"
    with t show ?thesis by (simp add: taken_def)
  next
    fix p assume p: "p \<in> set (td_rows d)" "eligible now types p" and nx: "td_next d1 = td_next d"
      and rows: "td_rows d1 = touch_rows now (\<lambda>t. at_ID t = at_ID p) (lock_task now w p) (td_rows d)"
    have ne: "at_ID p \<noteq> i" using t p by (auto simp: taken_def eligible_def)
    have t1: "taken Q fin i d1" by (rule taken_touch [OF t nx rows]) (use ne in auto)
    show "h = [] \<Longrightarrow> ?thesis" "h = [at_ID p] \<Longrightarrow> ?thesis" using t1 ne by auto
  qed
qed (use t k r in \<open>auto intro: taken_complete taken_release taken_fail taken_cleanup taken_added
      EnqueueTask_rows [OF prod.collapse [symmetric]] enqueue_create_rows [OF prod.collapse [symmetric] new_task_pending]\<close>)

lemma taken_run:
  "taken Q fin i d \<Longrightarrow> \<forall>op\<in>set ops. keeps_taken Q fin i op \<Longrightarrow> run_ops E ops d = (hs, d1) \<Longrightarrow>
   taken Q fin i d1 \<and> i \<notin> set hs"
proof (induction ops arbitrary: d hs)
  case (Cons op ops)
  obtain h d2 hs' where s: "run_op E op d = (h, d2)" "run_ops E ops d2 = (hs', d1)" "hs = h @ hs'"
    using Cons.prems(3) by (auto simp: Let_def split: prod.splits)
  have "taken Q fin i d2 \<and> i \<notin> set h" using taken_step [OF Cons.prems(1) _ s(1)] Cons.prems(2) by simp
  moreover from this have "taken Q fin i d1 \<and> i \<notin> set hs'" using Cons.IH [OF _ _ s(2)] Cons.prems(2) by simp
  ultimately show ?case using s(3) by simp
qed simp

text \<open>A task that was just handed out is taken.\<close>

lemma handed_taken:
  assumes inv: "tries_inv H d" and r: "run_op E op d = (h, d1)" and i: "i \<in> set h"
  shows "taken (\<lambda>l. True) False i d1"
proof (cases op)
  case (OpDequeue db skip now w types)
  from dequeue_step_rows [OF r [unfolded OpDequeue]] i obtain p where p: "p \<in> set (td_rows d)" "i = at_ID p"
      "td_next d1 = td_next d" "td_rows d1 = touch_rows now (\<lambda>t. at_ID t = at_ID p) (lock_task now w p) (td_rows d)"
    by (cases h) auto
  then have "i < td_next d" using inv by (auto simp: tries_inv_def)
  then show ?thesis using p by (auto simp: taken_def touch_rows_def)
qed (use r i in simp_all)

lemma taken_weaken: "taken Q False i d \<Longrightarrow> taken Q fin i d"
  by (auto simp: taken_def)

definition called :: "queue_op \<Rightarrow> bool" where
  "called op = (case op of OpFail now i msg \<Rightarrow> False | OpRelease now i \<Rightarrow> False | OpCleanup now \<Rightarrow> False | _ \<Rightarrow> True)"

lemma called_keeps: "called op \<Longrightarrow> fin \<or> (\<forall>now. op \<noteq> OpComplete now i) \<Longrightarrow> keeps_taken Q fin i op"
  by (cases op) (auto simp: called_def)

lemma called_run:
  assumes "tries_inv H d" "\<forall>op\<in>set ops. called op" "run_ops E ops d = (hs, d1)"
  shows "distinct hs \<and> (\<forall>i\<in>set hs. (\<forall>now. OpComplete now i \<notin> set ops) \<longrightarrow> taken (\<lambda>l. True) False i d1)"
  using assms
proof (induction ops arbitrary: H d hs)
  case (Cons op ops)
  obtain h d2 hs' where s: "run_op E op d = (h, d2)" "run_ops E ops d2 = (hs', d1)" "hs = h @ hs'"
    using Cons.prems(3) by (auto simp: Let_def split: prod.splits)
  have ih: "distinct hs' \<and> (\<forall>i\<in>set hs'. (\<forall>now. OpComplete now i \<notin> set ops) \<longrightarrow> taken (\<lambda>l. True) False i d1)"
    using Cons.IH [OF tries_inv_step [OF Cons.prems(1) s(1)] _ s(2)] Cons.prems(2) by simp
  have one: "distinct h"
    by (cases op) (use s(1) in \<open>auto split: sum.splits option.splits prod.splits\<close>)
  have fresh: "i \<notin> set hs'" if "i \<in> set h" for i
    using taken_run [OF taken_weaken [OF handed_taken [OF Cons.prems(1) s(1) that], of True] _ s(2)] Cons.prems(2)
    by (simp add: called_keeps)
  have stays: "taken (\<lambda>l. True) False i d1" if "i \<in> set h" "\<forall>now. OpComplete now i \<notin> set ops" for i
  proof -
    have "\<forall>op\<in>set ops. keeps_taken (\<lambda>l. True) False i op"
      using that(2) Cons.prems(2) by (auto intro: called_keeps)
    then show ?thesis using taken_run [OF handed_taken [OF Cons.prems(1) s(1) that(1)] _ s(2)] by blast
  qed
  show ?case using ih one fresh stays by (auto simp: s(3))
qed simp

section \<open>Properties\<close>

text \<open>C36. A task is handed to workers at most \<open>max_tries\<close> times, whatever sequence of calls any number of nodes
  make and whichever statements fail; only rows of the table are handed out, and ids and keys stay unique.\<close>

theorem tasks_tried_at_most:
  assumes "run_ops E ops (empty_tasks\<lparr>td_faults := fs\<rparr>) = (H, d)"
  shows "set H \<subseteq> at_ID ` set (td_rows d) \<and> distinct (map at_ID (td_rows d)) \<and> keys_unique (td_rows d) \<and>
    (\<forall>r\<in>set (td_rows d). int (count_list H (at_ID r)) \<le> max 0 (at_MaxTries r))"
proof -
  have inv: "tries_inv H d" using tries_inv_run [OF tries_inv_start assms] by simp
  have "int (count_list H (at_ID r)) \<le> max 0 (at_MaxTries r)" if "r \<in> set (td_rows d)" for r
    using inv that by (fastforce simp: tries_inv_def)
  with inv show ?thesis by (simp add: tries_inv_def)
qed

definition sample_ops :: "queue_op list" where
  "sample_ops =
     [OpEnqueue 1 ''chat'' ''a'' [WithTaskKey ''k'', WithMaxTries 2], OpEnqueue 2 ''chat'' ''b'' [WithTaskKey ''k''],
      OpDequeue DBTypePostgres [] 3 ''w'' [''chat''], OpFail 4 1 ''boom'', OpDequeue DBTypeSQLite [] 5 ''v'' [],
      OpFail 6 1 ''boom'', OpDequeue DBTypeSQLite [] 7 ''w'' []]"

lemma sample_ops_run:
  "fst (run_ops (\<lambda>e. ''duplicate'') sample_ops (empty_tasks\<lparr>td_faults := []\<rparr>)) = [1, 1]"
  "map at_Status (td_rows (snd (run_ops (\<lambda>e. ''duplicate'') sample_ops (empty_tasks\<lparr>td_faults := []\<rparr>)))) =
     [TaskStatusFailed]"
  by code_simp+

theorem tasks_tried_at_most_witness:
  "\<exists>H d. run_ops (\<lambda>e. ''duplicate'') sample_ops (empty_tasks\<lparr>td_faults := []\<rparr>) = (H, d) \<and> H = [1, 1] \<and>
     (\<forall>r\<in>set (td_rows d). int (count_list H (at_ID r)) \<le> max 0 (at_MaxTries r))"
proof -
  obtain H d where r: "run_ops (\<lambda>e. ''duplicate'') sample_ops (empty_tasks\<lparr>td_faults := []\<rparr>) = (H, d)"
    by fastforce
  with sample_ops_run(1) have "H = [1, 1]" by simp
  with r tasks_tried_at_most [OF r] show ?thesis by blast
qed

text \<open>C17. A lease is exclusive: while a task is being processed under a lease that ends at \<open>L\<close>, no call of any
  node hands it to another worker, unless the task is failed or released by name or the expired locks are
  cleaned up after \<open>L\<close>.\<close>

theorem lease_exclusive:
  assumes "run_ops E ops (empty_tasks\<lparr>td_faults := fs\<rparr>) = (H, d)"
    and "r \<in> set (td_rows d)" "at_Status r = TaskStatusProcessing" "at_LockExpires r = Some L"
    and "\<forall>op\<in>set later. case op of OpFail now i msg \<Rightarrow> i \<noteq> at_ID r | OpRelease now i \<Rightarrow> i \<noteq> at_ID r
                              | OpCleanup now \<Rightarrow> now \<le> L | _ \<Rightarrow> True"
    and "run_ops E later d = (hs, d1)"
  shows "at_ID r \<notin> set hs"
proof -
  have inv: "tries_inv H d" using tries_inv_run [OF tries_inv_start assms(1)] by simp
  then have "\<forall>t\<in>set (td_rows d). at_ID t = at_ID r \<longrightarrow> t = r" "at_ID r < td_next d"
    using assms(2) by (auto simp: tries_inv_def distinct_map inj_on_def)
  with assms(3,4) have "taken (\<lambda>l. l = Some L) True (at_ID r) d" by (auto simp: taken_def)
  moreover have "\<forall>op\<in>set later. keeps_taken (\<lambda>l. l = Some L) True (at_ID r) op"
  proof
    fix op assume "op \<in> set later"
    with assms(5) show "keeps_taken (\<lambda>l. l = Some L) True (at_ID r) op" by (cases op) force+
  qed
  ultimately show ?thesis using taken_run assms(6) by blast
qed

theorem lease_exclusive_witness:
  "\<exists>d r. d = snd (run_ops (\<lambda>e. []) (take 3 sample_ops) (empty_tasks\<lparr>td_faults := []\<rparr>)) \<and> td_rows d = [r] \<and>
     at_Status r = TaskStatusProcessing \<and> at_LockExpires r = Some (3 + lease) \<and>
     at_ID r \<notin> set (fst (run_ops (\<lambda>e. []) [OpCleanup (3 + lease), OpDequeue DBTypeSQLite [] (4 + lease) ''v'' []] d))"
proof -
  define d where "d = snd (run_ops (\<lambda>e. []) (take 3 sample_ops) (empty_tasks\<lparr>td_faults := []\<rparr>))"
  define r where "r = hd (td_rows d)"
  have f: "td_rows d = [r]" "at_Status r = TaskStatusProcessing" "at_LockExpires r = Some (3 + lease)"
    unfolding r_def d_def by code_simp+
  obtain H where H: "run_ops (\<lambda>e. []) (take 3 sample_ops) (empty_tasks\<lparr>td_faults := []\<rparr>) = (H, d)"
    unfolding d_def by (metis prod.collapse)
  obtain hs d1 where hs: "run_ops (\<lambda>e. []) [OpCleanup (3 + lease), OpDequeue DBTypeSQLite [] (4 + lease) ''v'' []] d = (hs, d1)"
    by fastforce
  have "at_ID r \<notin> set hs" by (rule lease_exclusive [OF H _ f(2,3) _ hs]) (simp_all add: f(1))
  with f hs d_def show ?thesis by (intro exI [of _ d] exI [of _ r]) simp
qed

text \<open>What the program calls is enqueue, dequeue and complete; nothing calls \<open>FailTask\<close>, \<open>ReleaseTask\<close> or
  \<open>CleanupExpiredLocks\<close>.  So a task is handed out at most once however many attempts it is allowed, and one that
  is handed out and not completed, because its handler failed or does not complete its task, stays in
  processing for good.\<close>

theorem uncompleted_task_never_retried:
  assumes "run_ops E ops (empty_tasks\<lparr>td_faults := fs\<rparr>) = (H, d)"
    and "\<forall>op\<in>set ops. case op of OpFail now i msg \<Rightarrow> False | OpRelease now i \<Rightarrow> False | OpCleanup now \<Rightarrow> False | _ \<Rightarrow> True"
  shows "distinct H \<and>
    (\<forall>i\<in>set H. (\<forall>now. OpComplete now i \<notin> set ops) \<longrightarrow>
       (\<exists>r\<in>set (td_rows d). at_ID r = i \<and> at_Status r = TaskStatusProcessing))"
proof -
  have inv: "tries_inv H d" using tries_inv_run [OF tries_inv_start assms(1)] by simp
  have "distinct H \<and> (\<forall>i\<in>set H. (\<forall>now. OpComplete now i \<notin> set ops) \<longrightarrow> taken (\<lambda>l. True) False i d)"
    using called_run [OF tries_inv_start _ assms(1)] assms(2) by (simp add: called_def)
  moreover have "\<exists>r\<in>set (td_rows d). at_ID r = i" if "i \<in> set H" for i using inv that by (auto simp: tries_inv_def)
  ultimately show ?thesis by (fastforce simp: taken_def)
qed

theorem uncompleted_task_never_retried_witness:
  "\<exists>H d. run_ops (\<lambda>e. []) [OpEnqueue 1 ''chat'' ''a'' [], OpDequeue DBTypePostgres [] 3 ''w'' [''chat''],
                            OpDequeue DBTypePostgres [] (9 + lease) ''w'' [''chat'']] (empty_tasks\<lparr>td_faults := []\<rparr>) = (H, d) \<and>
     H = [1] \<and> (\<exists>r\<in>set (td_rows d). at_ID r = 1 \<and> at_Status r = TaskStatusProcessing)"
proof -
  let ?ops = "[OpEnqueue 1 ''chat'' ''a'' [], OpDequeue DBTypePostgres [] 3 ''w'' [''chat''],
               OpDequeue DBTypePostgres [] (9 + lease) ''w'' [''chat'']]"
  obtain H d where r: "run_ops (\<lambda>e. []) ?ops (empty_tasks\<lparr>td_faults := []\<rparr>) = (H, d)" by fastforce
  have "fst (run_ops (\<lambda>e. []) ?ops (empty_tasks\<lparr>td_faults := []\<rparr>)) = [1]" by code_simp
  with r have "H = [1]" by simp
  with r uncompleted_task_never_retried [OF r] show ?thesis by auto
qed

text \<open>On a database that answers, a dequeue finds nothing exactly when no task of the wanted types is
  eligible (and, on Postgres, not locked by another transaction); otherwise it returns one that none of the
  others goes before, by priority and then by age, locked for the worker for half an hour with its attempt
  counted, and changes no other row.\<close>

theorem dequeue_takes_best:
  assumes "td_faults d = []" "distinct (map at_ID (td_rows d))"
    and "cand = filter (\<lambda>t. eligible now types t \<and> (db = DBTypePostgres \<longrightarrow> at_ID t \<notin> set skip)) (td_rows d)"
    and "DequeueTask db skip now worker types d = (r, d1)"
  shows "(cand = [] \<longrightarrow> r = Inr None \<and> d1 = d) \<and>
    (cand \<noteq> [] \<longrightarrow> (\<exists>p\<in>set cand. \<exists>t. (\<forall>u\<in>set cand. \<not> goes_first u p) \<and> r = Inr (Some t) \<and>
       t = p\<lparr>at_Status := TaskStatusProcessing, at_WorkerID := Some worker, at_LockExpires := Some (now + 30 * minute),
             at_TryCount := at_TryCount p + 1, at_UpdatedAt := now\<rparr> \<and>
       td_rows d1 = map (\<lambda>u. if u = p then t else u) (td_rows d)))"
proof (cases "best_task cand")
  case None
  with assms(1,3,4) show ?thesis
    by (auto simp: DequeueTask_def task_stmt_none dequeue_pick_def errors_Is_def)
next
  case (Some p)
  note b = best_task_best [OF Some]
  have p: "p \<in> set (td_rows d)" using b assms(3) by simp
  have same: "at_ID t = at_ID p \<longleftrightarrow> t = p" if "t \<in> set (td_rows d)" for t
    using assms(2) p that by (auto simp: distinct_map inj_on_def)
  let ?t = "(lock_task now worker p p)\<lparr>at_UpdatedAt := now\<rparr>"
  define d2 where "d2 = d\<lparr>td_rows := touch_rows now (\<lambda>t. at_ID t = at_ID p) (lock_task now worker p) (td_rows d)\<rparr>"
  have rows: "td_rows d2 = map (\<lambda>u. if u = p then ?t else u) (td_rows d)"
    unfolding d2_def touch_rows_def using same by auto
  have "?t \<in> set (td_rows d2)" unfolding rows using p by auto
  moreover have "distinct (map at_ID (td_rows d2))"
  proof -
    have "map at_ID (td_rows d2) = map at_ID (td_rows d)" unfolding rows by (auto simp: lock_task_def)
    with assms(2) show ?thesis by simp
  qed
  ultimately have "find (\<lambda>t. at_ID t = at_ID p) (td_rows d2) = Some ?t"
    using find_by_id [of "td_rows d2" ?t] by simp
  then have "DequeueTask db skip now worker types d = (Inr (Some ?t), d2)"
    using Some assms(1,3)
    by (simp add: DequeueTask_def task_stmt_none dequeue_pick_def update_tasks_def first_task_def d2_def)
  then have r: "r = Inr (Some ?t)" "d1 = d2" using assms(4) by simp_all
  have "cand \<noteq> []" using b by auto
  moreover have "?t = p\<lparr>at_Status := TaskStatusProcessing, at_WorkerID := Some worker, at_LockExpires := Some (now + 30 * minute),
      at_TryCount := at_TryCount p + 1, at_UpdatedAt := now\<rparr>"
    by (simp add: lock_task_def lease_def)
  ultimately show ?thesis using b r rows by auto
qed

definition sample_tasks :: task_db where
  "sample_tasks = snd (run_ops (\<lambda>e. []) [OpEnqueue 1 ''chat'' ''a'' [], OpEnqueue 2 ''chat'' ''b'' [WithPriority 5],
     OpEnqueue 3 ''chat'' ''c'' [WithPriority 5], OpEnqueue 4 ''chat'' ''d'' [WithPriority 9, WithScheduledAt 100]] empty_tasks)"

theorem dequeue_takes_best_witness:
  "td_faults sample_tasks = [] \<and> distinct (map at_ID (td_rows sample_tasks)) \<and>
   (\<exists>t. fst (DequeueTask DBTypePostgres [2] 9 ''w'' [''chat''] sample_tasks) = Inr (Some t) \<and> at_ID t = 3 \<and> at_TryCount t = 1)"
proof -
  let ?C = "filter (\<lambda>t. eligible 9 [''chat''] t \<and> (DBTypePostgres = DBTypePostgres \<longrightarrow> at_ID t \<notin> set [2])) (td_rows sample_tasks)"
  have f: "td_faults sample_tasks = []" "distinct (map at_ID (td_rows sample_tasks))" by code_simp+
  have c: "map (\<lambda>t. (at_ID t, at_Priority t, at_TryCount t)) ?C = [(1, 0, 0), (3, 5, 0)]" by code_simp
  then have ne: "?C \<noteq> []" by auto
  obtain r d1 where D: "DequeueTask DBTypePostgres [2] 9 ''w'' [''chat''] sample_tasks = (r, d1)" by fastforce
  obtain p t where p: "p \<in> set ?C" "\<forall>u\<in>set ?C. \<not> goes_first u p" "r = Inr (Some t)" "at_ID t = at_ID p" "at_TryCount t = at_TryCount p + 1"
    using dequeue_takes_best [OF f refl D] ne by fastforce
  from c obtain a b where ab: "?C = [a, b]" "at_ID b = 3" "at_Priority b = 5" "at_Priority a = 0" "at_TryCount b = 0"
    by (cases ?C; cases "tl ?C") auto
  have "p \<in> set [a, b]" "\<forall>u\<in>set [a, b]. \<not> goes_first u p" using p(1,2) unfolding ab(1) by simp_all
  with ab have "p = b" by (auto simp: goes_first_def)
  with f D p ab show ?thesis by simp
qed

text \<open>Enqueueing under a key is idempotent, also when another node inserts the same key between the check
  and the insert: on a database that answers, and whose driver names a unique violation the way both drivers
  do, the call returns a row with that key, an existing one is left as it is and nothing is inserted, and at
  most one row has the key.\<close>

theorem enqueue_deduplicates:
  assumes "td_faults d = []" "keys_unique (td_rows d)" "task = new_task ty payload opts" "at_TaskKey task = Some k"
    and "sublist ''duplicate'' (E ErrTaskKeyTaken) \<or> sublist ''UNIQUE constraint'' (E ErrTaskKeyTaken)"
    and "res = EnqueueTask E now ty (Inr payload) opts d \<or> res = enqueue_create E now task d"
  shows "\<exists>t d1. res = (Inr t, d1) \<and> at_TaskKey t = Some k \<and> t \<in> set (td_rows d1) \<and> keys_unique (td_rows d1) \<and>
    (if \<exists>u\<in>set (td_rows d). at_TaskKey u = Some k then d1 = d
     else td_rows d1 = td_rows d @ [t] \<and> at_Status t = TaskStatusPending \<and> at_Payload t = at_Payload task)"
proof (cases "find (\<lambda>t. at_TaskKey t = Some k) (td_rows d)")
  case None
  then have no: "\<not> (\<exists>u\<in>set (td_rows d). at_TaskKey u = Some k)" by (auto simp: find_None_iff)
  then have un: "Some k \<notin> at_TaskKey ` set (td_rows d)" by (auto simp: image_iff)
  define row where "row = task\<lparr>at_ID := td_next d, at_CreatedAt := now, at_UpdatedAt := now,
      at_MaxTries := (if at_MaxTries task = 0 then 3 else at_MaxTries task)\<rparr>"
  have c: "enqueue_create E now task d =
      (Inr row, d\<lparr>td_rows := td_rows d @ [row], td_next := td_next d + 1, td_poke := True\<rparr>)"
    using assms(1,4) no by (simp add: enqueue_create_def create_task_def task_stmt_none row_def Let_def)
  have "res = enqueue_create E now task d"
    using assms None by (auto simp: EnqueueTask_def Let_def GetTaskByKey_def first_task_def task_stmt_none errors_Is_def)
  moreover have "at_TaskKey row = Some k" "at_Status row = TaskStatusPending" "at_Payload row = at_Payload task"
    using assms(3,4) by (simp_all add: row_def)
  moreover have "keys_unique (td_rows d @ [row])" using assms(2) un \<open>at_TaskKey row = Some k\<close> by (simp add: keys_unique_snoc)
  ultimately show ?thesis using no c by simp
next
  case (Some t)
  then have t: "t \<in> set (td_rows d)" "at_TaskKey t = Some k" by (auto dest: find_Some_prop)
  have g: "GetTaskByKey k d = (Inr (Some t), d)" using Some assms(1) by (simp add: GetTaskByKey_def first_task_def task_stmt_none)
  have cr: "create_task now task d = (Inl ErrTaskKeyTaken, d)"
    using t assms(1,4) by (auto simp: create_task_def task_stmt_none)
  have "res = (Inr t, d)"
    using assms(3-6) g cr by (auto simp: EnqueueTask_def Let_def enqueue_create_def)
  then show ?thesis using t assms(2) by auto
qed

theorem enqueue_deduplicates_witness:
  "\<exists>t d1. EnqueueTask (\<lambda>e. ''duplicate key'') 9 ''chat'' (Inr ''b'') [WithTaskKey ''k'']
      (snd (run_ops (\<lambda>e. []) (take 1 sample_ops) empty_tasks)) = (Inr t, d1) \<and> at_TaskKey t = Some ''k'' \<and> length (td_rows d1) = 1"
proof -
  define d where "d = snd (run_ops (\<lambda>e. []) (take 1 sample_ops) empty_tasks)"
  have f: "td_faults d = []" "keys_unique (td_rows d)" "at_TaskKey (new_task ''chat'' ''b'' [WithTaskKey ''k'']) = Some ''k''"
      "list_ex (\<lambda>u. at_TaskKey u = Some ''k'') (td_rows d)" "length (td_rows d) = 1"
      "sublist ''duplicate'' ''duplicate key''"
    unfolding d_def by code_simp+
  have "\<exists>t d1. EnqueueTask (\<lambda>e. ''duplicate key'') 9 ''chat'' (Inr ''b'') [WithTaskKey ''k''] d = (Inr t, d1) \<and>
      at_TaskKey t = Some ''k'' \<and> t \<in> set (td_rows d1) \<and> keys_unique (td_rows d1) \<and>
      (if \<exists>u\<in>set (td_rows d). at_TaskKey u = Some ''k'' then d1 = d
       else td_rows d1 = td_rows d @ [t] \<and> at_Status t = TaskStatusPending \<and>
            at_Payload t = at_Payload (new_task ''chat'' ''b'' [WithTaskKey ''k'']))"
    by (rule enqueue_deduplicates [OF f(1,2) refl f(3), where E = "\<lambda>e. ''duplicate key''" and now = 9]) (use f(6) in simp_all)
  with f(4,5) show ?thesis unfolding d_def [symmetric] by (auto simp: list_ex_iff split: if_splits)
qed

end
