(* ===== verification/QueueWorkers.thy ===== *)
theory QueueWorkers
  imports TaskQueue
begin

text \<open>
  The workers of the task queue (\<open>statedb/queue_processor.go\<close>, \<open>statedb/auto_publish_vod.go\<close>): the loop that
  pulls tasks, the dispatch on the task type and the handlers that decide something.

  The other tables, the network and the processors that the bootstrap installs are an environment
  (\<open>queue_env\<close>) of functions that answer or fail.  What a handler writes outside the task table is logged in
  the world: the records it puts into the streamer's repository and the marks it leaves on uploads and drafts,
  whose own failures the source only logs.
\<close>

section \<open>Payloads\<close>

record FinalizeLivestreamTask =
  flt_LivestreamURI :: string
  flt_StaleSince :: string

record VODProcessTask =
  vpt_UploadID :: string
  vpt_RepoDID :: string
  vpt_MimeType :: string
  vpt_Filename :: string
  vpt_Size :: int
  vpt_Backend :: string
  vpt_Location :: string

record FinalizeLivestreamVODTask =
  fvt_UploadID :: string
  fvt_RepoDID :: string
  fvt_LivestreamURI :: string
  fvt_LivestreamURIs :: "string list"
  fvt_Publish :: "string option"

record AutoPublishVODTask =
  apt_LivestreamURI :: string
  apt_Waits :: int

record ViewCountAggregateTask =
  vct_WindowStart :: time
  vct_WindowEnd :: time

text \<open>What the handlers read of a livestream row and of the record in it.\<close>

record Livestream =
  lv_URI :: string
  lv_CID :: string
  lv_RepoDID :: string

record LivestreamRecord =
  lsr_LastSeenAt :: "string option"
  lsr_IdleTimeoutSeconds :: "int option"
  lsr_EndedAt :: "string option"

section \<open>The world and its environment\<close>

record put_record =
  pr_Repo :: string
  pr_Rkey :: string
  pr_SwapRecord :: string
  pr_EndedAt :: "string option"

datatype upload_mark =
    SetUploadProcessing string
  | SetUploadFailed string go_error
  | SetDraftError string go_error
  | MarkDraftReady string
  | CreateLivestreamDraft string string string
  | CreateLivestreamUpload string string

record queue_world =
  qw_tasks :: task_db
  qw_puts :: "put_record list"
  qw_marks :: "upload_mark list"

record codec =
  cd_finalize :: "bytes \<Rightarrow> go_error + FinalizeLivestreamTask"
  cd_finalize_out :: "FinalizeLivestreamTask \<Rightarrow> go_error + bytes"
  cd_vod :: "bytes \<Rightarrow> go_error + VODProcessTask"
  cd_finalize_vod :: "bytes \<Rightarrow> go_error + FinalizeLivestreamVODTask"
  cd_finalize_vod_out :: "FinalizeLivestreamVODTask \<Rightarrow> go_error + bytes"
  cd_auto :: "bytes \<Rightarrow> go_error + AutoPublishVODTask"
  cd_auto_out :: "AutoPublishVODTask \<Rightarrow> go_error + bytes"
  cd_views :: "bytes \<Rightarrow> go_error + ViewCountAggregateTask"

record queue_env =
  qe_codec :: codec
  qe_ErrorText :: "go_error \<Rightarrow> string"
  qe_ParseTime :: "string \<Rightarrow> go_error + time"
  qe_FormatTime :: "time \<Rightarrow> string"
  qe_GetLivestream :: "string \<Rightarrow> go_error + Livestream option"
  qe_GetLatestLivestreamForRepo :: "string \<Rightarrow> go_error + Livestream option"
  qe_ToLivestreamView :: "Livestream \<Rightarrow> go_error + LivestreamRecord option"
  qe_GetSessionByDID :: "string \<Rightarrow> go_error + string option"
  qe_RefreshIfNeeded :: "string option \<Rightarrow> go_error + string"
  qe_GetXrpcClient :: "string \<Rightarrow> go_error option"
  qe_RecordKey :: "string \<Rightarrow> go_error + string"
  qe_PutRecord :: "put_record \<Rightarrow> go_error option"
  qe_vodProcessor :: "(VODProcessTask \<Rightarrow> go_error + string) option"
  qe_livestreamVODFinalizer :: "(FinalizeLivestreamVODTask \<Rightarrow> go_error + string) option"
  qe_videoPublisher :: "(FinalizeLivestreamVODTask \<Rightarrow> go_error option) option"
  qe_CreateLivestreamDraft :: "string \<Rightarrow> string \<Rightarrow> string \<Rightarrow> go_error option"
  qe_viewCountAggregator :: "(ViewCountAggregateTask \<Rightarrow> go_error option) option"
  qe_cdnLogIngester :: "go_error option option"
  qe_autoPublishVODsOn :: "string \<Rightarrow> go_error + bool"
  qe_ListLivestreamUploads :: "string \<Rightarrow> go_error + string list"
  qe_CountOpenS3Segments :: "string \<Rightarrow> go_error + int"
  qe_ListS3Segments :: "string \<Rightarrow> go_error + string list"
  qe_CreateLivestreamUpload :: "string \<Rightarrow> string \<Rightarrow> string \<Rightarrow> go_error option"
  qe_VideoDraft :: "Livestream \<Rightarrow> LivestreamRecord \<Rightarrow> string"
  qe_notification :: "AppTask \<Rightarrow> go_error option"
  qe_chatMessage :: "AppTask \<Rightarrow> go_error option"
  qe_streamReceived :: "AppTask \<Rightarrow> go_error option"

type_synonym handler = "queue_world \<Rightarrow> go_error option \<times> queue_world"

definition complete :: "time \<Rightarrow> AppTask \<Rightarrow> handler" where
  "complete now task w =
     (case CompleteTask now (at_ID task) (qw_tasks w) of (e, d) \<Rightarrow> (e, w\<lparr>qw_tasks := d\<rparr>))"

definition enqueue ::
  "queue_env \<Rightarrow> time \<Rightarrow> string \<Rightarrow> go_error + bytes \<Rightarrow> TaskOption list \<Rightarrow> handler" where
  "enqueue env now ty payload opts w =
     (case EnqueueTask (qe_ErrorText env) now ty payload opts (qw_tasks w) of
        (Inl e, d) \<Rightarrow> (Some e, w\<lparr>qw_tasks := d\<rparr>)
      | (Inr t, d) \<Rightarrow> (None, w\<lparr>qw_tasks := d\<rparr>))"

definition mark :: "upload_mark list \<Rightarrow> queue_world \<Rightarrow> queue_world" where
  "mark ms w = w\<lparr>qw_marks := qw_marks w @ ms\<rparr>"

section \<open>Task types\<close>

definition TaskNotification :: string where "TaskNotification = ''notification''"
definition TaskChat :: string where "TaskChat = ''chat''"
definition TaskStreamReceived :: string where "TaskStreamReceived = ''stream_received''"
definition TaskFinalizeLivestream :: string where "TaskFinalizeLivestream = ''finalize_livestream''"
definition TaskFinalizeLivestreamVOD :: string where "TaskFinalizeLivestreamVOD = ''finalize_livestream_vod''"
definition TaskVODProcess :: string where "TaskVODProcess = ''vod_process''"
definition TaskViewCountAggregate :: string where "TaskViewCountAggregate = ''view_count_aggregate''"
definition TaskCDNLogIngest :: string where "TaskCDNLogIngest = ''cdn_log_ingest''"
definition TaskAutoPublishVOD :: string where "TaskAutoPublishVOD = ''auto_publish_vod''"

lemmas task_type_defs = TaskNotification_def TaskChat_def TaskStreamReceived_def TaskFinalizeLivestream_def
  TaskFinalizeLivestreamVOD_def TaskVODProcess_def TaskViewCountAggregate_def TaskCDNLogIngest_def TaskAutoPublishVOD_def

definition nonVODTaskTypes :: "string list" where
  "nonVODTaskTypes = [TaskNotification, TaskChat, TaskStreamReceived, TaskFinalizeLivestream,
     TaskViewCountAggregate, TaskCDNLogIngest, TaskAutoPublishVOD]"

definition vodTaskTypes :: "string list" where
  "vodTaskTypes = [TaskVODProcess, TaskFinalizeLivestreamVOD]"

section \<open>Handlers\<close>

definition processCDNLogIngestTask :: "queue_env \<Rightarrow> time \<Rightarrow> AppTask \<Rightarrow> handler" where
  "processCDNLogIngestTask env now task w =
     (case qe_cdnLogIngester env of
        None \<Rightarrow> complete now task w
      | Some (Some e) \<Rightarrow> (Some (WrapErr ''cdn log ingest'' [e]), w)
      | Some None \<Rightarrow> complete now task w)"

definition processViewCountAggregateTask :: "queue_env \<Rightarrow> time \<Rightarrow> AppTask \<Rightarrow> handler" where
  "processViewCountAggregateTask env now task w =
     (case cd_views (qe_codec env) (at_Payload task) of
        Inl e \<Rightarrow> (Some e, w)
      | Inr t \<Rightarrow>
          (case qe_viewCountAggregator env of
             None \<Rightarrow> complete now task w
           | Some f \<Rightarrow>
               (case f t of
                  Some e \<Rightarrow> (Some (WrapErr ''view-count aggregation'' [e]), w)
                | None \<Rightarrow> complete now task w)))"

text \<open>A processor that fails has its task completed all the same: the failure is on the upload and the draft.\<close>

definition processVODProcessTask :: "queue_env \<Rightarrow> time \<Rightarrow> AppTask \<Rightarrow> handler" where
  "processVODProcessTask env now task w =
     (case cd_vod (qe_codec env) (at_Payload task) of
        Inl e \<Rightarrow> (Some e, w)
      | Inr t \<Rightarrow>
          (case qe_vodProcessor env of
             None \<Rightarrow> complete now task w
           | Some f \<Rightarrow>
               (let up = vpt_UploadID t; w1 = mark [SetUploadProcessing up] w in
                case f t of
                  Inl e \<Rightarrow>
                    (let w2 = mark [SetUploadFailed up e, SetDraftError up e] w1
                     in (Some (WrapErr ''vod processing upload'' [e]), snd (complete now task w2)))
                | Inr cid \<Rightarrow> complete now task (mark [MarkDraftReady up] w1))))"

text \<open>The publishing of a finalized recording: on any failure a draft is left for the streamer.\<close>

definition publish_or_draft :: "queue_env \<Rightarrow> FinalizeLivestreamVODTask \<Rightarrow> string \<Rightarrow> queue_world \<Rightarrow> queue_world" where
  "publish_or_draft env t draft w =
     (let perr = (case qe_videoPublisher env of
                    None \<Rightarrow> Some (Sentinel ''no video publisher configured'')
                  | Some f \<Rightarrow> f t)
      in if perr = None then w
         else case qe_CreateLivestreamDraft env (fvt_RepoDID t) (fvt_UploadID t) draft of
           Some e \<Rightarrow> w
         | None \<Rightarrow> mark [CreateLivestreamDraft (fvt_RepoDID t) (fvt_UploadID t) draft, MarkDraftReady (fvt_UploadID t)] w)"

definition processFinalizeLivestreamVODTask :: "queue_env \<Rightarrow> time \<Rightarrow> AppTask \<Rightarrow> handler" where
  "processFinalizeLivestreamVODTask env now task w =
     (case cd_finalize_vod (qe_codec env) (at_Payload task) of
        Inl e \<Rightarrow> (Some e, w)
      | Inr t \<Rightarrow>
          (case qe_livestreamVODFinalizer env of
             None \<Rightarrow> complete now task w
           | Some f \<Rightarrow>
               (let up = fvt_UploadID t; w1 = mark [SetUploadProcessing up] w in
                case f t of
                  Inl e \<Rightarrow>
                    (let w2 = mark [SetUploadFailed up e, SetDraftError up e] w1
                     in (Some (WrapErr ''finalize livestream VOD upload'' [e]), snd (complete now task w2)))
                | Inr cid \<Rightarrow>
                    (let w2 = mark [MarkDraftReady up] w1 in
                     complete now task
                       (case fvt_Publish t of None \<Rightarrow> w2 | Some draft \<Rightarrow> publish_or_draft env t draft w2)))))"

section \<open>Ending a livestream\<close>

definition heartbeatFrozen :: "FinalizeLivestreamTask \<Rightarrow> string \<Rightarrow> bool" where
  "heartbeatFrozen task lastSeenAt \<longleftrightarrow> flt_StaleSince task \<noteq> [] \<and> flt_StaleSince task = lastSeenAt"

definition EndLivestreamRecord :: "queue_env \<Rightarrow> Livestream \<Rightarrow> LivestreamRecord \<Rightarrow> handler" where
  "EndLivestreamRecord env ls rec w =
     (case qe_GetSessionByDID env (lv_RepoDID ls) of
        Inl e \<Rightarrow> (Some (WrapErr ''failed to get session'' [e]), w)
      | Inr session \<Rightarrow>
          (case qe_RefreshIfNeeded env session of
             Inl e \<Rightarrow> (Some (WrapErr ''failed to refresh session'' [e]), w)
           | Inr s \<Rightarrow>
               (case qe_GetXrpcClient env s of
                  Some e \<Rightarrow> (Some (WrapErr ''failed to get xrpc client'' [e]), w)
                | None \<Rightarrow>
                    if lsr_EndedAt rec \<noteq> None then (None, w)
                    else case qe_RecordKey env (lv_URI ls) of
                      Inl e \<Rightarrow> (Some (WrapErr ''failed to parse ATURI'' [e]), w)
                    | Inr rkey \<Rightarrow>
                        (let inp = \<lparr>pr_Repo = lv_RepoDID ls, pr_Rkey = rkey, pr_SwapRecord = lv_CID ls,
                                    pr_EndedAt = lsr_LastSeenAt rec\<rparr>
                         in case qe_PutRecord env inp of
                              Some e \<Rightarrow> (Some (WrapErr ''failed to update livestream record'' [e]), w)
                            | None \<Rightarrow> (None, w\<lparr>qw_puts := qw_puts w @ [inp]\<rparr>)))))"

text \<open>The guard around the streamer's latest livestream: \<open>Inl r\<close> is an early return of the handler, \<open>Inr\<close> lets
  the record be ended.\<close>

definition finalize_guard ::
  "queue_env \<Rightarrow> time \<Rightarrow> AppTask \<Rightarrow> FinalizeLivestreamTask \<Rightarrow> Livestream \<Rightarrow> string \<Rightarrow> int \<Rightarrow>
   queue_world \<Rightarrow> (go_error option \<times> queue_world) + unit" where
  "finalize_guard env now task t ls lastSeenAt idle w =
     (case qe_GetLatestLivestreamForRepo env (lv_RepoDID ls) of
        Inl e \<Rightarrow> Inl (Some (WrapErr ''failed to get latest livestream for repo'' [e]), w)
      | Inr None \<Rightarrow> Inr ()
      | Inr (Some latest) \<Rightarrow>
          if lv_URI latest \<noteq> lv_URI ls then Inr ()
          else
            (case qe_GetSessionByDID env (lv_RepoDID ls) of
               Inl e \<Rightarrow>
                 if errors_Is e ErrRecordNotFound then Inl (complete now task w)
                 else Inl (Some (WrapErr ''failed to get session for finalize-livestream guard'' [e]), w)
             | Inr None \<Rightarrow> Inl (complete now task w)
             | Inr (Some session) \<Rightarrow>
                 if heartbeatFrozen t lastSeenAt then Inr ()
                 else
                   (let rescheduledAt = now + wrap64 (idle * second);
                        rescheduledKey = ''finalize-livestream::'' @ lv_URI ls @ ''::'' @ qe_FormatTime env rescheduledAt
                    in case enqueue env now TaskFinalizeLivestream
                              (cd_finalize_out (qe_codec env) (t\<lparr>flt_StaleSince := lastSeenAt\<rparr>))
                              [WithTaskKey rescheduledKey, WithScheduledAt rescheduledAt] w of
                         (Some e, w1) \<Rightarrow> Inl (Some (WrapErr ''failed to reschedule finalize livestream task'' [e]), w1)
                       | (None, w1) \<Rightarrow> Inl (None, w1))))"

definition processFinalizeLivestreamTask :: "queue_env \<Rightarrow> time \<Rightarrow> AppTask \<Rightarrow> handler" where
  "processFinalizeLivestreamTask env now task w =
     (case cd_finalize (qe_codec env) (at_Payload task) of
        Inl e \<Rightarrow> (Some e, w)
      | Inr t \<Rightarrow>
      case qe_GetLivestream env (flt_LivestreamURI t) of
        Inl e \<Rightarrow> (Some (WrapErr ''failed to get latest livestream for userDID'' [e]), w)
      | Inr None \<Rightarrow> (Some (WrapErr ''no livestream found for URI'' []), w)
      | Inr (Some ls) \<Rightarrow>
      case qe_ToLivestreamView env ls of
        Inl e \<Rightarrow> (Some (WrapErr ''failed to convert livestream to streamplace livestream'' [e]), w)
      | Inr None \<Rightarrow> (Some (WrapErr ''livestream is not a streamplace livestream'' []), w)
      | Inr (Some rec) \<Rightarrow>
      case lsr_LastSeenAt rec of
        None \<Rightarrow> (Some (WrapErr ''livestream has no last seen at'' []), w)
      | Some lastSeenAt \<Rightarrow>
      case qe_ParseTime env lastSeenAt of
        Inl e \<Rightarrow> (Some (WrapErr ''could not parse last seen at'' [e]), w)
      | Inr lastSeenTime \<Rightarrow>
          (let idle = (case lsr_IdleTimeoutSeconds rec of None \<Rightarrow> 0 | Some n \<Rightarrow> n) in
           if idle = 0 then (None, w)
           else if sat64 (now - lastSeenTime) < wrap64 (idle * second) then (None, w)
           else case finalize_guard env now task t ls lastSeenAt idle w of
                  Inl r \<Rightarrow> r
                | Inr u \<Rightarrow> EndLivestreamRecord env ls rec w))"

section \<open>Publishing a recording by itself\<close>

definition autoPublishVODWait :: duration where "autoPublishVODWait = 15 * second"
definition autoPublishVODMaxWaits :: int where "autoPublishVODMaxWaits = 8"

definition show_int :: "int \<Rightarrow> string" where
  "show_int n = (if n < 0 then ''-'' @ show_nat (nat (- n)) else show_nat (nat n))"

definition enqueueAutoPublishVOD :: "queue_env \<Rightarrow> time \<Rightarrow> AutoPublishVODTask \<Rightarrow> handler" where
  "enqueueAutoPublishVOD env now t =
     enqueue env now TaskAutoPublishVOD (cd_auto_out (qe_codec env) t)
       [WithTaskKey (''auto-publish-vod::'' @ apt_LivestreamURI t @ ''::'' @ show_int (apt_Waits t)),
        WithScheduledAt (now + autoPublishVODWait)]"

definition ScheduleAutoPublishVOD :: "queue_env \<Rightarrow> time \<Rightarrow> string \<Rightarrow> string \<Rightarrow> handler" where
  "ScheduleAutoPublishVOD env now repoDID livestreamURI w =
     (case qe_autoPublishVODsOn env repoDID of
        Inl e \<Rightarrow> (Some e, w)
      | Inr on \<Rightarrow>
          if \<not> on then (None, w)
          else enqueueAutoPublishVOD env now \<lparr>apt_LivestreamURI = livestreamURI, apt_Waits = 0\<rparr> w)"

text \<open>The last part of the handler: the upload named after the livestream, and the task that finalizes it.\<close>

definition auto_publish_queue :: "queue_env \<Rightarrow> time \<Rightarrow> AppTask \<Rightarrow> Livestream \<Rightarrow> LivestreamRecord \<Rightarrow> bool \<Rightarrow> handler" where
  "auto_publish_queue env now task ls rec created w =
     (case qe_ListS3Segments env (lv_URI ls) of
        Inl e \<Rightarrow> (Some (WrapErr ''list recorded objects'' [e]), w)
      | Inr segs \<Rightarrow>
          if segs = [] then complete now task w
          else
            (let made = (if created then None else qe_CreateLivestreamUpload env (lv_URI ls) (lv_RepoDID ls) (lv_URI ls));
                 w1 = (if created then w else mark [CreateLivestreamUpload (lv_URI ls) (lv_RepoDID ls)] w)
             in case made of
                  Some e \<Rightarrow> (Some (WrapErr ''create upload'' [e]), w)
                | None \<Rightarrow>
                    (case enqueue env now TaskFinalizeLivestreamVOD
                            (cd_finalize_vod_out (qe_codec env)
                               \<lparr>fvt_UploadID = lv_URI ls, fvt_RepoDID = lv_RepoDID ls, fvt_LivestreamURI = lv_URI ls,
                                fvt_LivestreamURIs = [lv_URI ls], fvt_Publish = Some (qe_VideoDraft env ls rec)\<rparr>)
                            [WithTaskKey (''finalize-vod:'' @ lv_URI ls)] w1 of
                       (Some e, w2) \<Rightarrow> (Some (WrapErr ''enqueue VOD finalize'' [e]), w2)
                     | (None, w2) \<Rightarrow> complete now task w2)))"

definition processAutoPublishVODTask :: "queue_env \<Rightarrow> time \<Rightarrow> AppTask \<Rightarrow> handler" where
  "processAutoPublishVODTask env now task w =
     (case cd_auto (qe_codec env) (at_Payload task) of
        Inl e \<Rightarrow> (Some e, w)
      | Inr t \<Rightarrow>
      case qe_GetLivestream env (apt_LivestreamURI t) of
        Inl e \<Rightarrow> (Some (WrapErr ''get livestream'' [e]), w)
      | Inr None \<Rightarrow> complete now task w
      | Inr (Some ls) \<Rightarrow>
      case qe_ToLivestreamView env ls of
        Inl e \<Rightarrow> (Some (WrapErr ''decode livestream'' [e]), w)
      | Inr None \<Rightarrow> (Some (WrapErr ''record is not a place.stream.livestream'' []), w)
      | Inr (Some rec) \<Rightarrow>
      case qe_autoPublishVODsOn env (lv_RepoDID ls) of
        Inl e \<Rightarrow> (Some e, w)
      | Inr on \<Rightarrow>
      if \<not> on then complete now task w
      else
      case qe_ListLivestreamUploads env (lv_URI ls) of
        Inl e \<Rightarrow> (Some (WrapErr ''list livestream uploads'' [e]), w)
      | Inr uploads \<Rightarrow>
      if (\<exists>u\<in>set uploads. u \<noteq> lv_URI ls) then complete now task w
      else
      case qe_CountOpenS3Segments env (lv_URI ls) of
        Inl e \<Rightarrow> (Some (WrapErr ''count open recording objects'' [e]), w)
      | Inr opened \<Rightarrow>
      if opened > 0 \<and> apt_Waits t < autoPublishVODMaxWaits then
        (case enqueueAutoPublishVOD env now (t\<lparr>apt_Waits := apt_Waits t + 1\<rparr>) w of
           (Some e, w1) \<Rightarrow> (Some (WrapErr ''reschedule automatic VOD publishing'' [e]), w1)
         | (None, w1) \<Rightarrow> complete now task w1)
      else auto_publish_queue env now task ls rec (uploads \<noteq> []) w)"

section \<open>Dispatch and the worker loop\<close>

definition processTask :: "queue_env \<Rightarrow> time \<Rightarrow> AppTask \<Rightarrow> handler" where
  "processTask env now task w =
     (let ty = at_Type task in
      if ty = TaskNotification then (qe_notification env task, w)
      else if ty = TaskChat then (qe_chatMessage env task, w)
      else if ty = TaskStreamReceived then (qe_streamReceived env task, w)
      else if ty = TaskFinalizeLivestream then processFinalizeLivestreamTask env now task w
      else if ty = TaskVODProcess then processVODProcessTask env now task w
      else if ty = TaskFinalizeLivestreamVOD then processFinalizeLivestreamVODTask env now task w
      else if ty = TaskViewCountAggregate then processViewCountAggregateTask env now task w
      else if ty = TaskCDNLogIngest then processCDNLogIngestTask env now task w
      else if ty = TaskAutoPublishVOD then processAutoPublishVODTask env now task w
      else (Some (WrapErr ''unknown task type'' []), w))"

text \<open>One turn of \<open>runQueueWorker\<close>: it ends the worker, works a task (whose error is only logged) or finds
  nothing and waits for the timer or a poke.\<close>

datatype turn = Ended go_error | Worked nat "go_error option" | Idle

definition runQueueWorker_turn ::
  "queue_env \<Rightarrow> DBType \<Rightarrow> nat list \<Rightarrow> time \<Rightarrow> string \<Rightarrow> string list \<Rightarrow> queue_world \<Rightarrow> turn \<times> queue_world" where
  "runQueueWorker_turn env db skip now workerID taskTypes w =
     (case DequeueTask db skip now workerID taskTypes (qw_tasks w) of
        (Inl e, d) \<Rightarrow>
          if errors_Is e ErrRecordNotFound then (Idle, w\<lparr>qw_tasks := d\<lparr>td_poke := False\<rparr>\<rparr>)
          else (Ended e, w\<lparr>qw_tasks := d\<rparr>)
      | (Inr None, d) \<Rightarrow> (Idle, w\<lparr>qw_tasks := d\<lparr>td_poke := False\<rparr>\<rparr>)
      | (Inr (Some task), d) \<Rightarrow>
          (case processTask env now task (w\<lparr>qw_tasks := d\<rparr>) of (e, w1) \<Rightarrow> (Worked (at_ID task) e, w1)))"

definition ProcessQueue_pools :: "int \<Rightarrow> (string \<times> string list) list" where
  "ProcessQueue_pools vodConcurrency =
     (''queue_processor'', nonVODTaskTypes) #
     map (\<lambda>i. (''vod_worker_'' @ show_nat i, vodTaskTypes)) [0..<nat (max 1 vodConcurrency)]"

section \<open>Every task has a worker\<close>

text \<open>A type with a handler is in the list of exactly one pool.\<close>

lemma handled_types_have_a_pool:
  "distinct (nonVODTaskTypes @ vodTaskTypes)"
  "at_Type task \<notin> set (nonVODTaskTypes @ vodTaskTypes) \<Longrightarrow>
   processTask env now task w = (Some (WrapErr ''unknown task type'' []), w)"
proof -
  show "distinct (nonVODTaskTypes @ vodTaskTypes)" by code_simp
  assume "at_Type task \<notin> set (nonVODTaskTypes @ vodTaskTypes)"
  then show "processTask env now task w = (Some (WrapErr ''unknown task type'' []), w)"
    unfolding nonVODTaskTypes_def vodTaskTypes_def by (simp add: processTask_def)
qed

lemma pool_kinds: "(worker, types) \<in> set (ProcessQueue_pools n) \<Longrightarrow> types = nonVODTaskTypes \<or> types = vodTaskTypes"
  "nonVODTaskTypes \<in> snd ` set (ProcessQueue_pools n)" "vodTaskTypes \<in> snd ` set (ProcessQueue_pools n)"
proof -
  show "(worker, types) \<in> set (ProcessQueue_pools n) \<Longrightarrow> types = nonVODTaskTypes \<or> types = vodTaskTypes"
    by (auto simp: ProcessQueue_pools_def)
  have "0 \<in> {0..<nat (max 1 n)}" by simp
  then have "(''vod_worker_'' @ show_nat 0, vodTaskTypes) \<in> set (ProcessQueue_pools n)"
    unfolding ProcessQueue_pools_def set_simps set_map set_upt by blast
  then show "vodTaskTypes \<in> snd ` set (ProcessQueue_pools n)" by (rule rev_image_eqI) simp
  show "nonVODTaskTypes \<in> snd ` set (ProcessQueue_pools n)" by (simp add: ProcessQueue_pools_def)
qed

section \<open>The handlers settle their tasks\<close>

definition settled :: "nat \<Rightarrow> task_db \<Rightarrow> bool" where
  "settled i d = (\<forall>r\<in>set (td_rows d). at_ID r = i \<longrightarrow> at_Status r = TaskStatusCompleted)"

lemma mark_simps [simp]:
  "qw_tasks (mark ms w) = qw_tasks w" "qw_puts (mark ms w) = qw_puts w" "qw_marks (mark ms w) = qw_marks w @ ms"
  by (simp_all add: mark_def)

lemma complete_settles:
  assumes "td_faults (qw_tasks w) = []" "\<exists>r\<in>set (td_rows (qw_tasks w)). at_ID r = at_ID task"
  shows "\<exists>d. complete now task w = (None, w\<lparr>qw_tasks := d\<rparr>) \<and> settled (at_ID task) d"
proof -
  have "filter (\<lambda>t. at_ID t = at_ID task) (td_rows (qw_tasks w)) \<noteq> []" using assms(2) by (auto simp: filter_empty_conv)
  then have "complete now task w = (None, w\<lparr>qw_tasks := (qw_tasks w)\<lparr>td_rows :=
      touch_rows now (\<lambda>t. at_ID t = at_ID task) (release_row TaskStatusCompleted) (td_rows (qw_tasks w))\<rparr>\<rparr>)"
    using assms(1) by (simp add: complete_def CompleteTask_def update_tasks_def task_stmt_none)
  moreover have "settled (at_ID task) ((qw_tasks w)\<lparr>td_rows :=
      touch_rows now (\<lambda>t. at_ID t = at_ID task) (release_row TaskStatusCompleted) (td_rows (qw_tasks w))\<rparr>)"
    by (auto simp: settled_def touch_rows_def)
  ultimately show ?thesis by blast
qed

text \<open>A video task whose payload can be read is settled whatever its processor does, and a failure is shown on
  the upload and on the draft.\<close>

lemma vod_task_settles:
  assumes w: "td_faults (qw_tasks w) = []" "\<exists>r\<in>set (td_rows (qw_tasks w)). at_ID r = at_ID task"
    and t: "cd_vod (qe_codec env) (at_Payload task) = Inr t" and p: "qe_vodProcessor env = Some f"
    and r: "processVODProcessTask env now task w = (e, w1)"
  shows "settled (at_ID task) (qw_tasks w1) \<and> (e = None \<longleftrightarrow> (\<exists>cid. f t = Inr cid)) \<and>
    qw_marks w1 = qw_marks w @ SetUploadProcessing (vpt_UploadID t) #
      (case f t of Inl x \<Rightarrow> [SetUploadFailed (vpt_UploadID t) x, SetDraftError (vpt_UploadID t) x]
                 | Inr cid \<Rightarrow> [MarkDraftReady (vpt_UploadID t)])"
proof (cases "f t")
  case (Inl x)
  define w2 where "w2 = mark [SetUploadFailed (vpt_UploadID t) x, SetDraftError (vpt_UploadID t) x]
      (mark [SetUploadProcessing (vpt_UploadID t)] w)"
  obtain d where "complete now task w2 = (None, w2\<lparr>qw_tasks := d\<rparr>)" "settled (at_ID task) d"
    using complete_settles [of w2 task now] w by (auto simp: w2_def)
  with r t p Inl show ?thesis by (auto simp: processVODProcessTask_def Let_def w2_def)
next
  case (Inr cid)
  define w2 where "w2 = mark [MarkDraftReady (vpt_UploadID t)] (mark [SetUploadProcessing (vpt_UploadID t)] w)"
  obtain d where "complete now task w2 = (None, w2\<lparr>qw_tasks := d\<rparr>)" "settled (at_ID task) d"
    using complete_settles [of w2 task now] w by (auto simp: w2_def)
  with r t p Inr show ?thesis by (auto simp: processVODProcessTask_def Let_def w2_def)
qed

section \<open>Livestreams that stopped\<close>

text \<open>The environment of a livestream whose heartbeat stands at \<open>L\<close>: its row is the streamer's latest, the
  streamer has a session here, and the record can be written.\<close>

definition stopped_stream ::
  "queue_env \<Rightarrow> string \<Rightarrow> Livestream \<Rightarrow> LivestreamRecord \<Rightarrow> string \<Rightarrow> time \<Rightarrow> int \<Rightarrow> string \<Rightarrow> bool" where
  "stopped_stream env uri ls rec L T idle rkey \<longleftrightarrow>
     qe_GetLivestream env uri = Inr (Some ls) \<and> qe_ToLivestreamView env ls = Inr (Some rec) \<and>
     lsr_LastSeenAt rec = Some L \<and> L \<noteq> [] \<and> lsr_EndedAt rec = None \<and> qe_ParseTime env L = Inr T \<and>
     lsr_IdleTimeoutSeconds rec = Some idle \<and> 0 < idle \<and> idle * second < 2 ^ 63 \<and>
     qe_GetLatestLivestreamForRepo env (lv_RepoDID ls) = Inr (Some ls) \<and>
     (\<exists>s s'. qe_GetSessionByDID env (lv_RepoDID ls) = Inr (Some s) \<and> qe_RefreshIfNeeded env (Some s) = Inr s' \<and>
             qe_GetXrpcClient env s' = None) \<and>
     qe_RecordKey env (lv_URI ls) = Inr rkey \<and>
     qe_PutRecord env \<lparr>pr_Repo = lv_RepoDID ls, pr_Rkey = rkey, pr_SwapRecord = lv_CID ls, pr_EndedAt = Some L\<rparr> = None"

lemma stopped_stream_process:
  assumes s: "stopped_stream env (flt_LivestreamURI t) ls rec L T idle rkey"
    and t: "cd_finalize (qe_codec env) (at_Payload task) = Inr t" and now: "idle * second \<le> now - T"
  shows "processFinalizeLivestreamTask env now task w =
    (case finalize_guard env now task t ls L idle w of
       Inl r \<Rightarrow> r
     | Inr u \<Rightarrow> (None, w\<lparr>qw_puts := qw_puts w @ [\<lparr>pr_Repo = lv_RepoDID ls, pr_Rkey = rkey,
                        pr_SwapRecord = lv_CID ls, pr_EndedAt = Some L\<rparr>]\<rparr>))"
proof -
  have "wrap64 (idle * second) = idle * second" using s by (intro wrap64_id) (auto simp: stopped_stream_def second_def)
  moreover have "\<not> sat64 (now - T) < idle * second" using s now by (auto simp: stopped_stream_def sat64_def)
  ultimately show ?thesis using s t
    by (auto simp: stopped_stream_def processFinalizeLivestreamTask_def EndLivestreamRecord_def Let_def split: sum.splits)
qed

lemma enqueue_fresh:
  assumes "td_faults (qw_tasks w) = []" "Some k \<notin> at_TaskKey ` set (td_rows (qw_tasks w))"
    and row: "row = (new_task ty b [WithTaskKey k, WithScheduledAt at])\<lparr>at_ID := td_next (qw_tasks w), at_CreatedAt := now, at_UpdatedAt := now\<rparr>"
  shows "enqueue env now ty (Inr b) [WithTaskKey k, WithScheduledAt at] w =
    (None, w\<lparr>qw_tasks := (qw_tasks w)\<lparr>td_rows := td_rows (qw_tasks w) @ [row],
       td_next := td_next (qw_tasks w) + 1, td_poke := True\<rparr>\<rparr>)"
proof -
  have "find (\<lambda>t. at_TaskKey t = Some k) (td_rows (qw_tasks w)) = None"
    using assms(2) by (auto simp: find_None_iff image_iff)
  moreover have "\<not> (\<exists>t\<in>set (td_rows (qw_tasks w)). at_TaskKey t = Some k)" using assms(2) by (auto simp: image_iff)
  ultimately show ?thesis using assms(1)
    by (simp add: enqueue_def EnqueueTask_def Let_def GetTaskByKey_def first_task_def task_stmt_none errors_Is_def
        enqueue_create_def create_task_def new_task_def row)
qed

section \<open>Properties\<close>

text \<open>C38. A livestream whose heartbeat has stopped is ended after one grace period and never rescheduled again:
  the first check of the streamer's latest stream writes nothing and queues exactly one more check, an idle
  window later, that remembers the heartbeat; if the heartbeat has not moved when that check runs, it ends the
  record at the last heartbeat and leaves the queue alone.  Checks read back the payload they wrote.\<close>

theorem stopped_stream_ends:
  assumes "stopped_stream env (flt_LivestreamURI t) ls rec L T idle rkey"
    and "cd_finalize (qe_codec env) (at_Payload task) = Inr t" "flt_StaleSince t \<noteq> L" "idle * second \<le> now - T"
    and "cd_finalize_out (qe_codec env) (t\<lparr>flt_StaleSince := L\<rparr>) = Inr b"
        "cd_finalize (qe_codec env) b = Inr (t\<lparr>flt_StaleSince := L\<rparr>)"
    and "td_faults (qw_tasks w) = []"
        "Some (''finalize-livestream::'' @ lv_URI ls @ ''::'' @ qe_FormatTime env (now + idle * second))
           \<notin> at_TaskKey ` set (td_rows (qw_tasks w))"
  shows "\<exists>w1 row. processFinalizeLivestreamTask env now task w = (None, w1) \<and>
    qw_puts w1 = qw_puts w \<and> td_rows (qw_tasks w1) = td_rows (qw_tasks w) @ [row] \<and>
    at_Type row = TaskFinalizeLivestream \<and> at_Status row = TaskStatusPending \<and>
    at_ScheduledAt row = Some (now + idle * second) \<and>
    (\<forall>now' task' w'. now \<le> now' \<longrightarrow> at_Payload task' = at_Payload row \<longrightarrow>
       processFinalizeLivestreamTask env now' task' w' =
         (None, w'\<lparr>qw_puts := qw_puts w' @ [\<lparr>pr_Repo = lv_RepoDID ls, pr_Rkey = rkey,
                      pr_SwapRecord = lv_CID ls, pr_EndedAt = Some L\<rparr>]\<rparr>))"
proof -
  let ?t' = "t\<lparr>flt_StaleSince := L\<rparr>"
  let ?k = "''finalize-livestream::'' @ lv_URI ls @ ''::'' @ qe_FormatTime env (now + idle * second)"
  define row where "row = (new_task TaskFinalizeLivestream b [WithTaskKey ?k, WithScheduledAt (now + idle * second)])
      \<lparr>at_ID := td_next (qw_tasks w), at_CreatedAt := now, at_UpdatedAt := now\<rparr>"
  define w1 where "w1 = w\<lparr>qw_tasks := (qw_tasks w)\<lparr>td_rows := td_rows (qw_tasks w) @ [row],
      td_next := td_next (qw_tasks w) + 1, td_poke := True\<rparr>\<rparr>"
  note s = assms(1) [unfolded stopped_stream_def]
  have wrap: "wrap64 (idle * second) = idle * second" using s by (intro wrap64_id) (auto simp: second_def)
  have "enqueue env now TaskFinalizeLivestream (cd_finalize_out (qe_codec env) ?t')
      [WithTaskKey ?k, WithScheduledAt (now + idle * second)] w = (None, w1)"
    unfolding assms(5) w1_def by (rule enqueue_fresh [OF assms(7,8) row_def])
  then have "finalize_guard env now task t ls L idle w = Inl (None, w1)"
    using s assms(3) by (auto simp: finalize_guard_def heartbeatFrozen_def wrap Let_def)
  then have one: "processFinalizeLivestreamTask env now task w = (None, w1)"
    using stopped_stream_process [OF assms(1,2,4)] by simp
  have two: "processFinalizeLivestreamTask env now' task' w' =
      (None, w'\<lparr>qw_puts := qw_puts w' @ [\<lparr>pr_Repo = lv_RepoDID ls, pr_Rkey = rkey,
         pr_SwapRecord = lv_CID ls, pr_EndedAt = Some L\<rparr>]\<rparr>)"
    if "now \<le> now'" "at_Payload task' = b" for now' task' w'
  proof -
    have "finalize_guard env now' task' ?t' ls L idle w' = Inr ()"
      using s by (auto simp: finalize_guard_def heartbeatFrozen_def)
    moreover have "idle * second \<le> now' - T" using that(1) assms(4) by linarith
    moreover have "stopped_stream env (flt_LivestreamURI ?t') ls rec L T idle rkey" using assms(1) by simp
    ultimately show ?thesis using stopped_stream_process [of env ?t' ls rec L T idle rkey task' now' w'] assms(6) that(2) by simp
  qed
  have "at_Payload row = b" "at_Type row = TaskFinalizeLivestream" "at_Status row = TaskStatusPending"
      "at_ScheduledAt row = Some (now + idle * second)"
    by (simp_all add: row_def new_task_def)
  with one two show ?thesis by (intro exI [of _ w1] exI [of _ row]) (simp add: w1_def)
qed

definition sample_stream :: Livestream where
  "sample_stream = \<lparr>lv_URI = ''at://a/s/1'', lv_CID = ''c'', lv_RepoDID = ''a''\<rparr>"

definition sample_record :: LivestreamRecord where
  "sample_record = \<lparr>lsr_LastSeenAt = Some ''T0'', lsr_IdleTimeoutSeconds = Some 300, lsr_EndedAt = None\<rparr>"

definition sample_codec :: codec where
  "sample_codec =
     \<lparr>cd_finalize = (\<lambda>b. Inr \<lparr>flt_LivestreamURI = ''at://a/s/1'', flt_StaleSince = b\<rparr>),
      cd_finalize_out = (\<lambda>t. Inr (flt_StaleSince t)),
      cd_vod = (\<lambda>b. Inl ioEOF), cd_finalize_vod = (\<lambda>b. Inl ioEOF), cd_finalize_vod_out = (\<lambda>t. Inl ioEOF),
      cd_auto = (\<lambda>b. Inl ioEOF), cd_auto_out = (\<lambda>t. Inl ioEOF), cd_views = (\<lambda>b. Inl ioEOF)\<rparr>"

definition sample_env :: queue_env where
  "sample_env =
     \<lparr>qe_codec = sample_codec, qe_ErrorText = (\<lambda>e. []), qe_ParseTime = (\<lambda>s. Inr 0), qe_FormatTime = (\<lambda>t. ''later''),
      qe_GetLivestream = (\<lambda>u. Inr (Some sample_stream)), qe_GetLatestLivestreamForRepo = (\<lambda>d. Inr (Some sample_stream)),
      qe_ToLivestreamView = (\<lambda>l. Inr (Some sample_record)), qe_GetSessionByDID = (\<lambda>d. Inr (Some ''s'')),
      qe_RefreshIfNeeded = (\<lambda>s. Inr ''s''), qe_GetXrpcClient = (\<lambda>s. None), qe_RecordKey = (\<lambda>u. Inr ''1''),
      qe_PutRecord = (\<lambda>p. None), qe_vodProcessor = None, qe_livestreamVODFinalizer = None, qe_videoPublisher = None,
      qe_CreateLivestreamDraft = (\<lambda>a b c. None), qe_viewCountAggregator = None, qe_cdnLogIngester = None,
      qe_autoPublishVODsOn = (\<lambda>d. Inr False), qe_ListLivestreamUploads = (\<lambda>u. Inr []),
      qe_CountOpenS3Segments = (\<lambda>u. Inr 0), qe_ListS3Segments = (\<lambda>u. Inr []),
      qe_CreateLivestreamUpload = (\<lambda>a b c. None), qe_VideoDraft = (\<lambda>l r. []), qe_notification = (\<lambda>t. None),
      qe_chatMessage = (\<lambda>t. None), qe_streamReceived = (\<lambda>t. None)\<rparr>"

definition sample_world :: queue_world where
  "sample_world = \<lparr>qw_tasks = empty_tasks, qw_puts = [], qw_marks = []\<rparr>"

theorem stopped_stream_ends_witness:
  "\<exists>w1 row. processFinalizeLivestreamTask sample_env (600 * second) (new_task TaskFinalizeLivestream [] []) sample_world = (None, w1) \<and>
     td_rows (qw_tasks w1) = [row] \<and> at_ScheduledAt row = Some (900 * second) \<and>
     qw_puts (snd (processFinalizeLivestreamTask sample_env (901 * second) row w1)) =
       [\<lparr>pr_Repo = ''a'', pr_Rkey = ''1'', pr_SwapRecord = ''c'', pr_EndedAt = Some ''T0''\<rparr>]"
proof -
  let ?t = "\<lparr>flt_LivestreamURI = ''at://a/s/1'', flt_StaleSince = []\<rparr>"
  have "\<exists>w1 row. processFinalizeLivestreamTask sample_env (600 * second) (new_task TaskFinalizeLivestream [] []) sample_world = (None, w1) \<and>
    qw_puts w1 = qw_puts sample_world \<and> td_rows (qw_tasks w1) = td_rows (qw_tasks sample_world) @ [row] \<and>
    at_Type row = TaskFinalizeLivestream \<and> at_Status row = TaskStatusPending \<and>
    at_ScheduledAt row = Some (600 * second + 300 * second) \<and>
    (\<forall>now' task' w'. 600 * second \<le> now' \<longrightarrow> at_Payload task' = at_Payload row \<longrightarrow>
       processFinalizeLivestreamTask sample_env now' task' w' =
         (None, w'\<lparr>qw_puts := qw_puts w' @ [\<lparr>pr_Repo = lv_RepoDID sample_stream, pr_Rkey = ''1'',
                      pr_SwapRecord = lv_CID sample_stream, pr_EndedAt = Some ''T0''\<rparr>]\<rparr>))"
    by (rule stopped_stream_ends [where t = ?t and rec = sample_record and T = 0 and b = "''T0''"])
       (simp_all add: stopped_stream_def sample_env_def sample_codec_def sample_stream_def sample_record_def
          sample_world_def empty_tasks_def new_task_def second_def)
  then obtain w1 row where
    "processFinalizeLivestreamTask sample_env (600 * second) (new_task TaskFinalizeLivestream [] []) sample_world = (None, w1)"
    "qw_puts w1 = []" "td_rows (qw_tasks w1) = [row]" "at_ScheduledAt row = Some (900 * second)"
    "processFinalizeLivestreamTask sample_env (901 * second) row w1 =
       (None, w1\<lparr>qw_puts := qw_puts w1 @ [\<lparr>pr_Repo = ''a'', pr_Rkey = ''1'', pr_SwapRecord = ''c'', pr_EndedAt = Some ''T0''\<rparr>]\<rparr>)"
    by (auto simp: sample_world_def empty_tasks_def sample_stream_def second_def)
  then show ?thesis by (intro exI [of _ w1] exI [of _ row]) simp
qed

end
