(* ===== verification/Moderation.thy ===== *)
theory Moderation
  imports Errors
begin

text \<open>
  Who may moderate a stream (\<open>moderation/permissions.go\<close>).  The lookup of a moderator's delegations is the
  interface the checker is built on, an argument here, as is the parser of RFC 3339 times.
\<close>

section \<open>Scopes and actions\<close>

definition PermissionBan :: string where "PermissionBan = ''ban''"
definition PermissionHide :: string where "PermissionHide = ''hide''"
definition PermissionLivestreamManage :: string where "PermissionLivestreamManage = ''livestream.manage''"
definition PermissionMessagePin :: string where "PermissionMessagePin = ''message.pin''"
definition PermissionVodCommentHide :: string where "PermissionVodCommentHide = ''vod.comment.hide''"

definition ActionPermissions :: "(string \<times> string) list" where
  "ActionPermissions =
     [(''createBlock'', PermissionBan), (''deleteBlock'', PermissionBan),
      (''createGate'', PermissionHide), (''deleteGate'', PermissionHide),
      (''createVodGate'', PermissionVodCommentHide), (''deleteVodGate'', PermissionVodCommentHide),
      (''updateLivestream'', PermissionLivestreamManage), (''finalizeLivestream'', PermissionLivestreamManage),
      (''listVideos'', PermissionLivestreamManage), (''publishVideo'', PermissionLivestreamManage),
      (''updateVideo'', PermissionLivestreamManage), (''deleteVideo'', PermissionLivestreamManage),
      (''createPin'', PermissionMessagePin), (''deletePin'', PermissionMessagePin)]"

section \<open>Delegations\<close>

record ModerationPermission =
  mp_Permissions :: "string list"
  mp_ExpirationTime :: "string option"

text \<open>A delegation as the index returns it; \<open>None\<close> is a record of another type.\<close>

type_synonym delegation_view = "ModerationPermission option"

type_synonym delegation_getter = "string \<Rightarrow> string \<Rightarrow> go_error + delegation_view list"

fun merge_delegations ::
  "(string \<Rightarrow> go_error + time) \<Rightarrow> time \<Rightarrow> string \<Rightarrow> delegation_view list \<Rightarrow> go_error + bool" where
  "merge_delegations parse now permission [] = Inr False"
| "merge_delegations parse now permission (v # vs) =
     (case v of
        None \<Rightarrow> Inl (WrapErr ''failed to cast record to ModerationPermission'' [])
      | Some permRecord \<Rightarrow>
          (case map_option parse (mp_ExpirationTime permRecord) of
             Some (Inl e) \<Rightarrow> Inl (WrapErr ''failed to parse expiration time'' [e])
           | Some (Inr expirationTime) \<Rightarrow>
               if now > expirationTime then merge_delegations parse now permission vs
               else if permission \<in> set (mp_Permissions permRecord) then Inr True
               else merge_delegations parse now permission vs
           | None \<Rightarrow>
               if permission \<in> set (mp_Permissions permRecord) then Inr True
               else merge_delegations parse now permission vs))"

definition HasPermission ::
  "delegation_getter \<Rightarrow> (string \<Rightarrow> go_error + time) \<Rightarrow> time \<Rightarrow> string \<Rightarrow> string \<Rightarrow> string \<Rightarrow> go_error + bool" where
  "HasPermission getter parse now moderatorDID streamerDID permission =
     (if moderatorDID = streamerDID then Inr True
      else case getter streamerDID moderatorDID of
        Inl e \<Rightarrow> Inl (WrapErr ''failed to get moderation delegations'' [e])
      | Inr delegations \<Rightarrow>
          if delegations = [] then Inr False else merge_delegations parse now permission delegations)"

definition CheckPermission ::
  "delegation_getter \<Rightarrow> (string \<Rightarrow> go_error + time) \<Rightarrow> time \<Rightarrow> string \<Rightarrow> string \<Rightarrow> string \<Rightarrow> go_error option" where
  "CheckPermission getter parse now moderatorDID streamerDID action =
     (case map_of ActionPermissions action of
        None \<Rightarrow> Some (WrapErr (''unknown action: '' @ action) [])
      | Some requiredPermission \<Rightarrow>
          if moderatorDID = streamerDID then None
          else case HasPermission getter parse now moderatorDID streamerDID requiredPermission of
            Inl e \<Rightarrow> Some (WrapErr ''failed to check permissions'' [e])
          | Inr ok \<Rightarrow>
              if \<not> ok then Some (WrapErr (''moderator '' @ moderatorDID @ '' does not have permission '' @ requiredPermission @
                                          '' for streamer '' @ streamerDID) [])
              else None)"

section \<open>What a delegation grants\<close>

text \<open>A delegation is readable when it is a permission record with no expiry or one that parses, and it grants
  what it lists until it expires.\<close>

definition readable :: "(string \<Rightarrow> go_error + time) \<Rightarrow> delegation_view \<Rightarrow> bool" where
  "readable parse v \<longleftrightarrow>
     (\<exists>r. v = Some r \<and> (\<forall>x. mp_ExpirationTime r = Some x \<longrightarrow> (\<exists>t. parse x = Inr t)))"

definition grants :: "(string \<Rightarrow> go_error + time) \<Rightarrow> time \<Rightarrow> string \<Rightarrow> delegation_view \<Rightarrow> bool" where
  "grants parse now permission v \<longleftrightarrow>
     (\<exists>r. v = Some r \<and> permission \<in> set (mp_Permissions r) \<and>
          (\<forall>x. mp_ExpirationTime r = Some x \<longrightarrow> (\<exists>t. parse x = Inr t \<and> now \<le> t)))"

lemma merge_delegations_step:
  "grants parse now permission v \<Longrightarrow> merge_delegations parse now permission (v # vs) = Inr True"
  "\<not> grants parse now permission v \<Longrightarrow> readable parse v \<Longrightarrow>
   merge_delegations parse now permission (v # vs) = merge_delegations parse now permission vs"
  "\<not> readable parse v \<Longrightarrow> \<exists>e. merge_delegations parse now permission (v # vs) = Inl e"
proof -
  show "merge_delegations parse now permission (v # vs) = Inr True" if g: "grants parse now permission v"
  proof -
    obtain r where r: "v = Some r" "permission \<in> set (mp_Permissions r)"
        "\<forall>x. mp_ExpirationTime r = Some x \<longrightarrow> (\<exists>t. parse x = Inr t \<and> now \<le> t)"
      using g by (auto simp: grants_def)
    show ?thesis by (cases "mp_ExpirationTime r") (use r in auto)
  qed
  show "merge_delegations parse now permission (v # vs) = merge_delegations parse now permission vs"
    if g: "\<not> grants parse now permission v" "readable parse v"
  proof -
    obtain r where r: "v = Some r" "\<forall>x. mp_ExpirationTime r = Some x \<longrightarrow> (\<exists>t. parse x = Inr t)"
      using g(2) by (auto simp: readable_def)
    show ?thesis by (cases "mp_ExpirationTime r") (use r g(1) in \<open>auto simp: grants_def\<close>)
  qed
  show "\<exists>e. merge_delegations parse now permission (v # vs) = Inl e" if "\<not> readable parse v"
  proof (cases v)
    case (Some r)
    with that obtain x where x: "mp_ExpirationTime r = Some x" "\<forall>t. parse x \<noteq> Inr t" by (auto simp: readable_def)
    then obtain e where "parse x = Inl e" by (cases "parse x") auto
    with Some x show ?thesis by simp
  qed simp
qed

lemma merge_delegations_True:
  "merge_delegations parse now permission vs = Inr True \<longleftrightarrow>
     (\<exists>before v after. vs = before @ v # after \<and> list_all (readable parse) before \<and> grants parse now permission v)"
proof (induction vs)
  case (Cons v vs)
  show ?case
  proof (cases "grants parse now permission v")
    case True
    then have "merge_delegations parse now permission (v # vs) = Inr True" by (rule merge_delegations_step)
    moreover have "v # vs = [] @ v # vs" "list_all (readable parse) []" by simp_all
    ultimately show ?thesis using True by blast
  next
    case False
    have "(\<exists>before w after. v # vs = before @ w # after \<and> list_all (readable parse) before \<and> grants parse now permission w) \<longleftrightarrow>
        readable parse v \<and> (\<exists>before w after. vs = before @ w # after \<and> list_all (readable parse) before \<and> grants parse now permission w)"
      (is "?L \<longleftrightarrow> ?R")
    proof
      assume ?L
      then obtain before w after where b: "v # vs = before @ w # after" "list_all (readable parse) before" "grants parse now permission w" by blast
      then show ?R using False by (cases before) auto
    next
      assume ?R
      then obtain before w after where "vs = before @ w # after" "list_all (readable parse) (v # before)" "grants parse now permission w" by auto
      then show ?L by (metis append_Cons)
    qed
    moreover have "merge_delegations parse now permission (v # vs) = Inr True \<longleftrightarrow>
        readable parse v \<and> merge_delegations parse now permission vs = Inr True"
      using merge_delegations_step(2) [OF False, of vs] merge_delegations_step(3) [of parse v now permission vs]
      by (cases "readable parse v") (auto simp del: merge_delegations.simps)
    ultimately show ?thesis using Cons.IH by blast
  qed
qed simp

section \<open>Properties\<close>

text \<open>C37. A moderation action is allowed exactly when it is a known action and either the caller is the streamer, or
  the delegations can be looked up and one of them lists the scope the action needs and has not expired, with no
  unreadable delegation before it.  Every other case is an error: an unknown action also for the streamer, a failed
  lookup, an unreadable or expired delegation, a missing scope.\<close>

theorem action_allowed_iff:
  "CheckPermission getter parse now moderator streamer action = None \<longleftrightarrow>
   (\<exists>scope. map_of ActionPermissions action = Some scope \<and>
      (moderator = streamer \<or>
       (\<exists>before v after. getter streamer moderator = Inr (before @ v # after) \<and>
          list_all (readable parse) before \<and> grants parse now scope v)))"
proof (cases "map_of ActionPermissions action")
  case (Some scope)
  have "CheckPermission getter parse now moderator streamer action = None \<longleftrightarrow>
      moderator = streamer \<or> HasPermission getter parse now moderator streamer scope = Inr True"
    by (auto simp: CheckPermission_def Some split: sum.splits)
  moreover have "HasPermission getter parse now moderator streamer scope = Inr True \<longleftrightarrow>
      moderator = streamer \<or> (\<exists>vs. getter streamer moderator = Inr vs \<and> merge_delegations parse now scope vs = Inr True)"
    by (auto simp: HasPermission_def split: sum.splits)
  ultimately show ?thesis by (auto simp: Some merge_delegations_True)
qed (simp add: CheckPermission_def)

end
