(* ===== verification/ObjectStore.thy ===== *)
theory ObjectStore
  imports Errors
begin

text \<open>
  The object store as the code of \<open>pkg/s3\<close> sees it.  The client of the SDK is a record of calls on an unknown
  world, any of which may fail at any time; \<open>s3_contract\<close> is what the service documents of a call that
  succeeds (and that a call that fails leaves the objects alone, except that a request whose answer is lost
  may have been carried out), \<open>s3_reliable\<close> that a valid request succeeds.  \<open>mem_api\<close> is a store in memory
  that meets both.  The buckets of the requests are fixed per call and left out.  The last section is the
  group of goroutines (\<open>errgroup\<close>) that uploads the parts of an object.
\<close>

section \<open>The calls of the client\<close>

record head_out =
  ho_ContentLength :: "int option"
  ho_ContentType :: "string option"

text \<open>A response body: the bytes that arrive before it ends, and the error it ends with if that is not \<open>io.EOF\<close>.\<close>

record s3body =
  bd_Data :: bytes
  bd_Err :: "go_error option"

record CompletedPart =
  cp_ETag :: "string option"
  cp_PartNumber :: "int option"

definition zeroPart :: CompletedPart where
  "zeroPart = \<lparr>cp_ETag = None, cp_PartNumber = None\<rparr>"

record 'w s3api =
  api_HeadObject :: "string \<Rightarrow> 'w \<Rightarrow> (go_error + head_out) \<times> 'w"
  api_GetObject :: "string \<Rightarrow> int \<Rightarrow> int option \<Rightarrow> 'w \<Rightarrow> (go_error + s3body) \<times> 'w"
  api_CopyObject :: "string \<Rightarrow> string \<Rightarrow> 'w \<Rightarrow> go_error option \<times> 'w"
  api_PutObject :: "string \<Rightarrow> bytes \<Rightarrow> 'w \<Rightarrow> go_error option \<times> 'w"
  api_CreateMultipartUpload :: "string \<Rightarrow> string option \<Rightarrow> 'w \<Rightarrow> (go_error + string option) \<times> 'w"
  api_UploadPart :: "string \<Rightarrow> string \<Rightarrow> int \<Rightarrow> bytes \<Rightarrow> 'w \<Rightarrow> (go_error + string option) \<times> 'w"
  api_UploadPartCopy ::
    "string \<Rightarrow> string \<Rightarrow> int \<Rightarrow> string \<Rightarrow> int \<Rightarrow> int \<Rightarrow> 'w \<Rightarrow> (go_error + string option option) \<times> 'w"
  api_CompleteMultipartUpload :: "string \<Rightarrow> string \<Rightarrow> CompletedPart list \<Rightarrow> 'w \<Rightarrow> go_error option \<times> 'w"
  api_AbortMultipartUpload :: "string \<Rightarrow> string \<Rightarrow> 'w \<Rightarrow> go_error option \<times> 'w"

text \<open>\<open>aws.ToString\<close> and \<open>aws.ToInt64\<close> read a missing value as the zero value.\<close>

definition ToString :: "string option \<Rightarrow> string" where
  "ToString x = (case x of None \<Rightarrow> '''' | Some v \<Rightarrow> v)"

definition ToInt64 :: "int option \<Rightarrow> int" where
  "ToInt64 x = (case x of None \<Rightarrow> 0 | Some v \<Rightarrow> v)"

text \<open>\<open>io.ReadAll\<close>, and \<open>io.ReadFull\<close> of \<open>n\<close> bytes with what is left of the body.\<close>

definition ReadAll :: "s3body \<Rightarrow> go_error + bytes" where
  "ReadAll b = (case bd_Err b of None \<Rightarrow> Inr (bd_Data b) | Some e \<Rightarrow> Inl e)"

definition ReadFull :: "nat \<Rightarrow> s3body \<Rightarrow> bytes \<times> go_error option \<times> s3body" where
  "ReadFull n b =
     (let got = take n (bd_Data b); b' = b\<lparr>bd_Data := drop n (bd_Data b)\<rparr> in
      if length got = n then (got, None, b')
      else (got,
            Some (case bd_Err b of Some e \<Rightarrow> e | None \<Rightarrow> if got = [] then ioEOF else ioUnexpectedEOF),
            b'))"

text \<open>The bytes \<open>[s, e)\<close> of a slice.\<close>

definition slice :: "'a list \<Rightarrow> int \<Rightarrow> int \<Rightarrow> 'a list" where
  "slice xs s e = take (nat (e - s)) (drop (nat s) xs)"

section \<open>What the service documents\<close>

type_synonym parts_map = "int \<rightharpoonup> string option \<times> bytes"

text \<open>The bytes a completed upload has: its parts in the listed order, each with the tag it was stored under.\<close>

fun assemble :: "parts_map \<Rightarrow> CompletedPart list \<Rightarrow> bytes option" where
  "assemble ps [] = Some []"
| "assemble ps (p # rest) =
     (case cp_PartNumber p of
        None \<Rightarrow> None
      | Some n \<Rightarrow>
          (case ps n of
             None \<Rightarrow> None
           | Some (tag, b) \<Rightarrow>
               if tag = cp_ETag p then map_option (\<lambda>bs. b @ bs) (assemble ps rest) else None))"

text \<open>
  A list of parts the service accepts: not empty, all stored, the numbers ascending from 1 and at most
  10000, and (R2) every part but the final one of the same length.
\<close>

definition part_length :: "parts_map \<Rightarrow> CompletedPart \<Rightarrow> nat" where
  "part_length ps p =
     (case cp_PartNumber p of None \<Rightarrow> 0
      | Some n \<Rightarrow> (case ps n of None \<Rightarrow> 0 | Some (tag, b) \<Rightarrow> length b))"

definition valid_parts :: "parts_map \<Rightarrow> CompletedPart list \<Rightarrow> bool" where
  "valid_parts ps parts =
     (parts \<noteq> [] \<and> assemble ps parts \<noteq> None \<and>
      sorted_wrt (<) (map (\<lambda>p. ToInt64 (cp_PartNumber p)) parts) \<and>
      list_all (\<lambda>p. 1 \<le> ToInt64 (cp_PartNumber p) \<and> ToInt64 (cp_PartNumber p) \<le> 10000) parts \<and>
      list_all (\<lambda>p. part_length ps p = part_length ps (hd parts)) (butlast parts))"

text \<open>
  \<open>objs w\<close> is the content of the bucket and \<open>pend w u\<close> the parts stored under the upload \<open>u\<close>.
\<close>

definition head_contract :: "'w s3api \<Rightarrow> ('w \<Rightarrow> string \<rightharpoonup> bytes) \<Rightarrow> ('w \<Rightarrow> string \<Rightarrow> parts_map) \<Rightarrow> bool" where
  "head_contract api objs pend =
     (\<forall>k w r w'. api_HeadObject api k w = (r, w') \<longrightarrow>
        objs w' = objs w \<and> pend w' = pend w \<and>
        (\<forall>h. r = Inr h \<longrightarrow> (\<exists>bs. objs w k = Some bs \<and> ho_ContentLength h = Some (int (length bs)))))"

definition get_contract :: "'w s3api \<Rightarrow> ('w \<Rightarrow> string \<rightharpoonup> bytes) \<Rightarrow> ('w \<Rightarrow> string \<Rightarrow> parts_map) \<Rightarrow> bool" where
  "get_contract api objs pend =
     (\<forall>k s e w r w'. api_GetObject api k s e w = (r, w') \<longrightarrow>
        objs w' = objs w \<and> pend w' = pend w \<and>
        (\<forall>b bs. r = Inr b \<longrightarrow> objs w k = Some bs \<longrightarrow> 0 \<le> s \<longrightarrow> s < int (length bs) \<longrightarrow>
           (let sent = slice bs s (case e of None \<Rightarrow> int (length bs) | Some x \<Rightarrow> x + 1) in
            if bd_Err b = None then bd_Data b = sent
            else bd_Data b = take (length (bd_Data b)) sent)))"

definition create_contract :: "'w s3api \<Rightarrow> ('w \<Rightarrow> string \<rightharpoonup> bytes) \<Rightarrow> ('w \<Rightarrow> string \<Rightarrow> parts_map) \<Rightarrow> bool" where
  "create_contract api objs pend =
     (\<forall>k ct w r w'. api_CreateMultipartUpload api k ct w = (r, w') \<longrightarrow>
        objs w' = objs w \<and> (\<forall>u. r = Inr u \<longrightarrow> pend w' (ToString u) = Map.empty))"

definition part_contract :: "'w s3api \<Rightarrow> ('w \<Rightarrow> string \<rightharpoonup> bytes) \<Rightarrow> ('w \<Rightarrow> string \<Rightarrow> parts_map) \<Rightarrow> bool" where
  "part_contract api objs pend =
     (\<forall>k u n b w r w'. api_UploadPart api k u n b w = (r, w') \<longrightarrow>
        objs w' = objs w \<and>
        (\<forall>tag. r = Inr tag \<longrightarrow> pend w' u = (pend w u)(n \<mapsto> (tag, b))) \<and>
        (\<forall>n'. n' \<noteq> n \<longrightarrow> pend w' u n' = pend w u n'))"

definition part_copy_contract :: "'w s3api \<Rightarrow> ('w \<Rightarrow> string \<rightharpoonup> bytes) \<Rightarrow> ('w \<Rightarrow> string \<Rightarrow> parts_map) \<Rightarrow> bool" where
  "part_copy_contract api objs pend =
     (\<forall>k u n src s e w r w'. api_UploadPartCopy api k u n src s e w = (r, w') \<longrightarrow>
        objs w' = objs w \<and>
        (\<forall>tag bs. r = Inr (Some tag) \<longrightarrow> objs w src = Some bs \<longrightarrow>
           pend w' u = (pend w u)(n \<mapsto> (tag, slice bs s (e + 1)))) \<and>
        (\<forall>n'. n' \<noteq> n \<longrightarrow> pend w' u n' = pend w u n'))"

definition abort_contract :: "'w s3api \<Rightarrow> ('w \<Rightarrow> string \<rightharpoonup> bytes) \<Rightarrow> ('w \<Rightarrow> string \<Rightarrow> parts_map) \<Rightarrow> bool" where
  "abort_contract api objs pend =
     (\<forall>k u w r w'. api_AbortMultipartUpload api k u w = (r, w') \<longrightarrow>
        objs w' = objs w \<and> (\<forall>n. pend w' u n = pend w u n \<or> pend w' u n = None))"

definition complete_contract :: "'w s3api \<Rightarrow> ('w \<Rightarrow> string \<rightharpoonup> bytes) \<Rightarrow> ('w \<Rightarrow> string \<Rightarrow> parts_map) \<Rightarrow> bool" where
  "complete_contract api objs pend =
     (\<forall>k u parts w r w'. api_CompleteMultipartUpload api k u parts w = (r, w') \<longrightarrow>
        (\<forall>n. pend w' u n = pend w u n \<or> pend w' u n = None) \<and>
        ((\<exists>bs. assemble (pend w u) parts = Some bs \<and> objs w' = (objs w)(k \<mapsto> bs)) \<or>
         r \<noteq> None \<and> objs w' = objs w))"

definition copy_contract :: "'w s3api \<Rightarrow> ('w \<Rightarrow> string \<rightharpoonup> bytes) \<Rightarrow> ('w \<Rightarrow> string \<Rightarrow> parts_map) \<Rightarrow> bool" where
  "copy_contract api objs pend =
     (\<forall>src k w r w'. api_CopyObject api src k w = (r, w') \<longrightarrow>
        (\<exists>bs. objs w src = Some bs \<and> objs w' = (objs w)(k \<mapsto> bs)) \<or> r \<noteq> None \<and> objs w' = objs w)"

definition put_contract :: "'w s3api \<Rightarrow> ('w \<Rightarrow> string \<rightharpoonup> bytes) \<Rightarrow> ('w \<Rightarrow> string \<Rightarrow> parts_map) \<Rightarrow> bool" where
  "put_contract api objs pend =
     (\<forall>k bs w r w'. api_PutObject api k bs w = (r, w') \<longrightarrow> pend w' = pend w \<and>
        (objs w' = (objs w)(k \<mapsto> bs) \<or> r \<noteq> None \<and> objs w' = objs w))"

definition s3_contract :: "'w s3api \<Rightarrow> ('w \<Rightarrow> string \<rightharpoonup> bytes) \<Rightarrow> ('w \<Rightarrow> string \<Rightarrow> parts_map) \<Rightarrow> bool" where
  "s3_contract api objs pend =
     (head_contract api objs pend \<and> get_contract api objs pend \<and> create_contract api objs pend \<and> part_contract api objs pend \<and> part_copy_contract api objs pend \<and>
      abort_contract api objs pend \<and> complete_contract api objs pend \<and> copy_contract api objs pend \<and> put_contract api objs pend)"

text \<open>A store that serves every valid request.\<close>

definition s3_reliable :: "'w s3api \<Rightarrow> ('w \<Rightarrow> string \<rightharpoonup> bytes) \<Rightarrow> ('w \<Rightarrow> string \<Rightarrow> parts_map) \<Rightarrow> bool" where
  "s3_reliable api objs pend =
     ((\<forall>k w. objs w k \<noteq> None \<longrightarrow> (\<exists>h w'. api_HeadObject api k w = (Inr h, w'))) \<and>
      (\<forall>k s e w bs. objs w k = Some bs \<longrightarrow> 0 \<le> s \<longrightarrow> s < int (length bs) \<longrightarrow>
         (\<exists>b w'. api_GetObject api k s e w = (Inr b, w') \<and> bd_Err b = None)) \<and>
      (\<forall>k ct w. \<exists>u w'. api_CreateMultipartUpload api k ct w = (Inr u, w')) \<and>
      (\<forall>k u n b w. \<exists>tag w'. api_UploadPart api k u n b w = (Inr tag, w')) \<and>
      (\<forall>k u n src s e w bs. objs w src = Some bs \<longrightarrow> 0 \<le> s \<longrightarrow> s \<le> e \<longrightarrow> e < int (length bs) \<longrightarrow>
         (\<exists>tag w'. api_UploadPartCopy api k u n src s e w = (Inr (Some tag), w'))) \<and>
      (\<forall>k u parts w. valid_parts (pend w u) parts \<longrightarrow>
         (\<exists>w'. api_CompleteMultipartUpload api k u parts w = (None, w'))))"


section \<open>Reading a body\<close>

lemma ReadAll_Inr: "ReadAll b = Inr x \<longleftrightarrow> bd_Err b = None \<and> bd_Data b = x"
  by (auto simp: ReadAll_def split: option.splits)

lemma ReadFull_got: "ReadFull n b = (got, err, b') \<Longrightarrow> got @ bd_Data b' = bd_Data b \<and> length got \<le> n"
  by (auto simp: ReadFull_def Let_def split: if_splits)

lemma slice_full [simp]: "slice xs 0 (int (length xs)) = xs"
  by (simp add: slice_def)

lemma slice_none: "e \<le> s \<Longrightarrow> slice xs s e = []"
  by (simp add: slice_def)

lemma length_slice: "0 \<le> s \<Longrightarrow> e \<le> int (length xs) \<Longrightarrow> length (slice xs s e) = nat (e - s)"
  by (simp add: slice_def)

lemma slice_past: "int (length xs) \<le> s \<Longrightarrow> slice xs s e = []"
  by (simp add: slice_def)

lemma slice_clip: "slice xs s (min e (int (length xs))) = slice xs s e"
  by (cases "e \<le> int (length xs)") (auto simp: slice_def min_def)

lemma slice_append:
  assumes "0 \<le> s"
  shows "slice (xs @ ys) s e =
    slice xs s (min e (int (length xs))) @ slice ys (max s (int (length xs)) - int (length xs)) (e - int (length xs))"
proof -
  let ?n = "int (length xs)"
  have eq: "nat (e - s) - (length xs - nat s) = nat (e - ?n - (max s ?n - ?n))"
    using assms by linarith
  have "nat s - length xs = nat (max s ?n - ?n)" using assms by linarith
  moreover have "take (nat (e - s)) (drop (nat s) xs) = take (nat (min e ?n - s)) (drop (nat s) xs)"
    using slice_clip [of xs s e] by (simp add: slice_def)
  ultimately show ?thesis by (simp add: slice_def eq)
qed

lemma slice_split: "s \<le> m \<Longrightarrow> m \<le> e \<Longrightarrow> 0 \<le> s \<Longrightarrow> slice xs s m @ slice xs m e = slice xs s e"
proof -
  assume a: "s \<le> m" "m \<le> e" "0 \<le> s"
  have d: "drop (nat m) xs = drop (nat (m - s)) (drop (nat s) xs)"
    using a by (simp add: nat_diff_distrib)
  have "nat (e - s) = nat (m - s) + nat (e - m)" using a by linarith
  then show ?thesis unfolding slice_def d by (simp only: take_add)
qed

text \<open>Consecutive windows of one size cover what they reach.\<close>

lemma windows_concat:
  assumes "0 < sz"
  shows "concat (map (\<lambda>p. slice xs (int p * sz) (min ((int p + 1) * sz) (int (length xs)))) [0..<n])
         = slice xs 0 (min (int n * sz) (int (length xs)))"
proof (induction n)
  case 0 show ?case by (simp add: slice_def)
next
  case (Suc n)
  have "slice xs 0 (min (int n * sz) (int (length xs))) @
        slice xs (int n * sz) (min ((int n + 1) * sz) (int (length xs)))
      = slice xs 0 (min ((int n + 1) * sz) (int (length xs)))"
  proof (cases "int n * sz \<le> int (length xs)")
    case True
    moreover have "int n * sz \<le> (int n + 1) * sz" using assms by (simp add: distrib_right)
    ultimately show ?thesis using assms by (simp add: slice_split)
  next
    case False
    moreover from this have "int (length xs) \<le> (int n + 1) * sz"
      using assms by (simp add: distrib_right)
    ultimately show ?thesis by (simp add: slice_past)
  qed
  with Suc show ?case by (simp add: add.commute)
qed

section \<open>The group of uploads\<close>

text \<open>
  \<open>errgroup.Group\<close> with a limit, over the tasks of the parts: each runs once, in the order \<open>sched\<close> in which
  they take effect, a task that succeeds fills its entry of the slice, and \<open>Wait\<close> returns the first error.
  The others still run after an error, with the group's context cancelled; what their requests then return
  is up to the client.
\<close>

fun run_group ::
  "(nat \<Rightarrow> 'w \<Rightarrow> (go_error + CompletedPart) \<times> 'w) \<Rightarrow> nat list \<Rightarrow> go_error option \<Rightarrow> CompletedPart list \<Rightarrow> 'w \<Rightarrow>
   go_error option \<times> CompletedPart list \<times> 'w" where
  "run_group task [] err parts w = (err, parts, w)"
| "run_group task (p # ps) err parts w =
     (case task p w of
        (Inl e, w1) \<Rightarrow> run_group task ps (case err of None \<Rightarrow> Some e | Some x \<Rightarrow> Some x) parts w1
      | (Inr c, w1) \<Rightarrow> run_group task ps err (parts[p := c]) w1)"

text \<open>What a task for part \<open>p\<close> must do: leave the objects and the other parts alone, and when it succeeds have
  stored the bytes \<open>win p\<close> under the number \<open>p + 1\<close>.\<close>

definition part_task ::
  "('w \<Rightarrow> string \<rightharpoonup> bytes) \<Rightarrow> ('w \<Rightarrow> string \<Rightarrow> parts_map) \<Rightarrow> string \<Rightarrow> (string \<rightharpoonup> bytes) \<Rightarrow> (nat \<Rightarrow> bytes) \<Rightarrow>
   (nat \<Rightarrow> 'w \<Rightarrow> (go_error + CompletedPart) \<times> 'w) \<Rightarrow> bool" where
  "part_task objs pend u O' win task =
     (\<forall>p w r w'. objs w = O' \<longrightarrow> task p w = (r, w') \<longrightarrow>
        objs w' = O' \<and> (\<forall>n. n \<noteq> int p + 1 \<longrightarrow> pend w' u n = pend w u n) \<and>
        (\<forall>c. r = Inr c \<longrightarrow> cp_PartNumber c = Some (int p + 1) \<and> pend w' u (int p + 1) = Some (cp_ETag c, win p)))"

definition part_stored :: "parts_map \<Rightarrow> (nat \<Rightarrow> bytes) \<Rightarrow> CompletedPart list \<Rightarrow> nat \<Rightarrow> bool" where
  "part_stored ps win parts p =
     (cp_PartNumber (parts ! p) = Some (int p + 1) \<and> ps (int p + 1) = Some (cp_ETag (parts ! p), win p))"

lemma run_group_objs:
  assumes "part_task objs pend u O' win task"
  shows "objs w = O' \<Longrightarrow> run_group task ps err parts w = (r, parts', w') \<Longrightarrow> objs w' = O'"
proof (induction ps arbitrary: err parts w)
  case (Cons p ps)
  obtain r1 w1 where t: "task p w = (r1, w1)" by (cases "task p w")
  then have "objs w1 = O'" using assms Cons.prems(1) unfolding part_task_def by blast
  then show ?case using Cons.IH Cons.prems(2) t by (cases r1) auto
qed simp

lemma run_group_err: "run_group task ps (Some e) parts w = (r, parts', w') \<Longrightarrow> r = Some e"
  by (induction ps arbitrary: parts w) (auto split: prod.splits sum.splits)

lemma run_group_parts:
  assumes task: "part_task objs pend u O' win task"
  shows "objs w = O' \<Longrightarrow> run_group task ps None parts w = (None, parts', w') \<Longrightarrow> distinct ps \<Longrightarrow>
    \<forall>p\<in>set ps. p < length parts \<Longrightarrow>
    length parts' = length parts \<and> (\<forall>p\<in>set ps. part_stored (pend w' u) win parts' p) \<and>
    (\<forall>p. p \<notin> set ps \<longrightarrow> parts' ! p = parts ! p \<and> pend w' u (int p + 1) = pend w u (int p + 1))"
proof (induction ps arbitrary: parts w)
  case (Cons p ps)
  obtain r1 w1 where t: "task p w = (r1, w1)" by (cases "task p w")
  have "\<exists>c. r1 = Inr c"
  proof (cases r1)
    case (Inl e)
    with Cons.prems(2) t show ?thesis by (auto dest: run_group_err)
  qed auto
  then obtain c where c: "r1 = Inr c" ..
  have run: "run_group task ps None (parts[p := c]) w1 = (None, parts', w')"
    using Cons.prems(2) t c by simp
  have O1: "objs w1 = O'"
    and keep: "\<And>n. n \<noteq> int p + 1 \<Longrightarrow> pend w1 u n = pend w u n"
    and num: "cp_PartNumber c = Some (int p + 1)" "pend w1 u (int p + 1) = Some (cp_ETag c, win p)"
    using task Cons.prems(1) t c unfolding part_task_def by blast+
  have dist: "distinct ps" "p \<notin> set ps" "p < length parts"
    and bound: "\<forall>q\<in>set ps. q < length (parts[p := c])" using Cons.prems(3,4) by auto
  note IH = Cons.IH [OF O1 run dist(1) bound]
  have "part_stored (pend w' u) win parts' p"
    using IH dist num by (simp add: part_stored_def)
  moreover have "parts' ! q = parts ! q \<and> pend w' u (int q + 1) = pend w u (int q + 1)"
    if "q \<notin> set (p # ps)" for q
    using that IH keep by auto
  ultimately show ?case using IH by auto
qed simp

lemma assemble_stored:
  assumes "\<forall>p<length parts. part_stored ps win parts p"
  shows "assemble ps parts = Some (concat (map win [0..<length parts]))"
proof -
  have "k \<le> length parts \<Longrightarrow> assemble ps (drop (length parts - k) parts) =
      Some (concat (map win [length parts - k..<length parts]))" for k
  proof (induction k)
    case (Suc k)
    let ?i = "length parts - Suc k"
    have i: "?i < length parts" "Suc ?i = length parts - k" using Suc.prems by auto
    have "drop ?i parts = parts ! ?i # drop (length parts - k) parts"
      using i by (metis Cons_nth_drop_Suc)
    moreover have "[?i..<length parts] = ?i # [length parts - k..<length parts]"
      using i by (metis upt_conv_Cons)
    moreover have "cp_PartNumber (parts ! ?i) = Some (int ?i + 1)"
      "ps (int ?i + 1) = Some (cp_ETag (parts ! ?i), win ?i)"
      using assms i(1) unfolding part_stored_def by blast+
    ultimately show ?case using Suc by (simp del: of_nat_diff)
  qed simp
  from this [of "length parts"] show ?thesis by simp
qed


section \<open>What each call keeps\<close>

lemma s3_contract_parts:
  assumes "s3_contract api objs pend"
  shows "head_contract api objs pend" "get_contract api objs pend" "create_contract api objs pend" "part_contract api objs pend" "part_copy_contract api objs pend" "abort_contract api objs pend" "complete_contract api objs pend" "copy_contract api objs pend" "put_contract api objs pend"
  using assms by (simp_all add: s3_contract_def)

lemma head_call:
  assumes "s3_contract api objs pend" "api_HeadObject api k w = (r, w')"
  shows "objs w' = objs w \<and> pend w' = pend w"
  using s3_contract_parts(1) [OF assms(1)] assms(2) unfolding head_contract_def by simp

lemma head_size:
  assumes "s3_contract api objs pend" "api_HeadObject api k w = (Inr h, w')"
  shows "\<exists>bs. objs w k = Some bs \<and> ToInt64 (ho_ContentLength h) = int (length bs)"
proof -
  from assms(2) s3_contract_parts(1) [OF assms(1)]
  obtain bs where "objs w k = Some bs" "ho_ContentLength h = Some (int (length bs))"
    unfolding head_contract_def by blast
  then show ?thesis by (simp add: ToInt64_def)
qed

lemma get_call:
  assumes "s3_contract api objs pend" "api_GetObject api k s e w = (r, w')"
  shows "objs w' = objs w \<and> pend w' = pend w"
  using s3_contract_parts(2) [OF assms(1)] assms(2) unfolding get_contract_def by simp

lemma get_data:
  assumes "s3_contract api objs pend" "api_GetObject api k s e w = (Inr b, w')"
    and "objs w k = Some bs" "0 \<le> s" "s < int (length bs)"
  shows "let sent = slice bs s (case e of None \<Rightarrow> int (length bs) | Some x \<Rightarrow> x + 1) in
    if bd_Err b = None then bd_Data b = sent else bd_Data b = take (length (bd_Data b)) sent"
  using s3_contract_parts(2) [OF assms(1)] assms(2-) unfolding get_contract_def by blast

lemma create_call:
  assumes "s3_contract api objs pend" "api_CreateMultipartUpload api k ct w = (r, w')"
  shows "objs w' = objs w \<and> (\<forall>u. r = Inr u \<longrightarrow> pend w' (ToString u) = Map.empty)"
  using s3_contract_parts(3) [OF assms(1)] assms(2) unfolding create_contract_def by simp

lemma part_call:
  assumes "s3_contract api objs pend" "api_UploadPart api k u n b w = (r, w')"
  shows "objs w' = objs w \<and> (\<forall>tag. r = Inr tag \<longrightarrow> pend w' u = (pend w u)(n \<mapsto> (tag, b))) \<and>
    (\<forall>n'. n' \<noteq> n \<longrightarrow> pend w' u n' = pend w u n')"
  using s3_contract_parts(4) [OF assms(1)] assms(2) unfolding part_contract_def by simp

lemma part_copy_call:
  assumes "s3_contract api objs pend" "api_UploadPartCopy api k u n src s e w = (r, w')"
  shows "objs w' = objs w \<and>
    (\<forall>tag bs. r = Inr (Some tag) \<longrightarrow> objs w src = Some bs \<longrightarrow>
       pend w' u = (pend w u)(n \<mapsto> (tag, slice bs s (e + 1)))) \<and>
    (\<forall>n'. n' \<noteq> n \<longrightarrow> pend w' u n' = pend w u n')"
  using s3_contract_parts(5) [OF assms(1)] assms(2) unfolding part_copy_contract_def by simp

lemma abort_call:
  assumes "s3_contract api objs pend" "api_AbortMultipartUpload api k u w = (r, w')"
  shows "objs w' = objs w \<and> (\<forall>n. pend w' u n = pend w u n \<or> pend w' u n = None)"
  using s3_contract_parts(6) [OF assms(1)] assms(2) unfolding abort_contract_def by simp

lemma snd_abort:
  assumes "s3_contract api objs pend"
  shows "objs (snd (api_AbortMultipartUpload api k u w)) = objs w"
  using abort_call [OF assms, of k u w] by (cases "api_AbortMultipartUpload api k u w") simp

lemma complete_call:
  assumes "s3_contract api objs pend" "api_CompleteMultipartUpload api k u parts w = (r, w')"
  shows "(\<forall>n. pend w' u n = pend w u n \<or> pend w' u n = None) \<and>
    ((\<exists>bs. assemble (pend w u) parts = Some bs \<and> objs w' = (objs w)(k \<mapsto> bs)) \<or> r \<noteq> None \<and> objs w' = objs w)"
  using s3_contract_parts(7) [OF assms(1)] assms(2) unfolding complete_contract_def by simp

lemma copy_call:
  assumes "s3_contract api objs pend" "api_CopyObject api src k w = (r, w')"
  shows "(\<exists>bs. objs w src = Some bs \<and> objs w' = (objs w)(k \<mapsto> bs)) \<or> r \<noteq> None \<and> objs w' = objs w"
  using s3_contract_parts(8) [OF assms(1)] assms(2) unfolding copy_contract_def by simp

lemma put_call:
  assumes "s3_contract api objs pend" "api_PutObject api k bs w = (r, w')"
  shows "pend w' = pend w \<and> (objs w' = (objs w)(k \<mapsto> bs) \<or> r \<noteq> None \<and> objs w' = objs w)"
  using s3_contract_parts(9) [OF assms(1)] assms(2) unfolding put_contract_def by simp

lemma reliable_calls:
  assumes "s3_reliable api objs pend"
  shows reliable_head: "\<And>k w. objs w k \<noteq> None \<Longrightarrow> \<exists>h w'. api_HeadObject api k w = (Inr h, w')"
    and reliable_get: "\<And>k s e w bs. objs w k = Some bs \<Longrightarrow> 0 \<le> s \<Longrightarrow> s < int (length bs) \<Longrightarrow>
      \<exists>b w'. api_GetObject api k s e w = (Inr b, w') \<and> bd_Err b = None"
    and reliable_create: "\<And>k ct w. \<exists>u w'. api_CreateMultipartUpload api k ct w = (Inr u, w')"
    and reliable_part: "\<And>k u n b w. \<exists>tag w'. api_UploadPart api k u n b w = (Inr tag, w')"
    and reliable_part_copy: "\<And>k u n src s e w bs. objs w src = Some bs \<Longrightarrow> 0 \<le> s \<Longrightarrow> s \<le> e \<Longrightarrow>
      e < int (length bs) \<Longrightarrow> \<exists>tag w'. api_UploadPartCopy api k u n src s e w = (Inr (Some tag), w')"
    and reliable_complete: "\<And>k u parts w. valid_parts (pend w u) parts \<Longrightarrow>
      \<exists>w'. api_CompleteMultipartUpload api k u parts w = (None, w')"
  using assms by (simp_all add: s3_reliable_def)

section \<open>A store in memory\<close>

text \<open>A store that meets both contracts, for concrete runs: it refuses what is not valid and nothing else.\<close>

record mem_world =
  mw_objs :: "string \<rightharpoonup> bytes"
  mw_pend :: "string \<Rightarrow> parts_map"
  mw_uploads :: nat

definition mem_head :: "string \<Rightarrow> mem_world \<Rightarrow> (go_error + head_out) \<times> mem_world" where
  "mem_head k w =
     (case mw_objs w k of
        None \<Rightarrow> (Inl (Sentinel ''NotFound''), w)
      | Some bs \<Rightarrow> (Inr \<lparr>ho_ContentLength = Some (int (length bs)), ho_ContentType = None\<rparr>, w))"

definition mem_get :: "string \<Rightarrow> int \<Rightarrow> int option \<Rightarrow> mem_world \<Rightarrow> (go_error + s3body) \<times> mem_world" where
  "mem_get k s e w =
     (case mw_objs w k of
        None \<Rightarrow> (Inl (Sentinel ''NoSuchKey''), w)
      | Some bs \<Rightarrow>
          if 0 \<le> s \<and> s < int (length bs)
          then (Inr \<lparr>bd_Data = slice bs s (case e of None \<Rightarrow> int (length bs) | Some x \<Rightarrow> x + 1), bd_Err = None\<rparr>, w)
          else (Inl (Sentinel ''InvalidRange''), w))"

definition mem_copy :: "string \<Rightarrow> string \<Rightarrow> mem_world \<Rightarrow> go_error option \<times> mem_world" where
  "mem_copy src k w =
     (case mw_objs w src of
        None \<Rightarrow> (Some (Sentinel ''NoSuchKey''), w)
      | Some bs \<Rightarrow> (None, w\<lparr>mw_objs := (mw_objs w)(k \<mapsto> bs)\<rparr>))"

definition mem_put :: "string \<Rightarrow> bytes \<Rightarrow> mem_world \<Rightarrow> go_error option \<times> mem_world" where
  "mem_put k bs w = (None, w\<lparr>mw_objs := (mw_objs w)(k \<mapsto> bs)\<rparr>)"

definition mem_create :: "string \<Rightarrow> string option \<Rightarrow> mem_world \<Rightarrow> (go_error + string option) \<times> mem_world" where
  "mem_create k ct w =
     (let u = show_nat (mw_uploads w) in
      (Inr (Some u), w\<lparr>mw_pend := (mw_pend w)(u := Map.empty), mw_uploads := mw_uploads w + 1\<rparr>))"

definition mem_part :: "string \<Rightarrow> string \<Rightarrow> int \<Rightarrow> bytes \<Rightarrow> mem_world \<Rightarrow> (go_error + string option) \<times> mem_world" where
  "mem_part k u n b w =
     (Inr (Some b), w\<lparr>mw_pend := (mw_pend w)(u := (mw_pend w u)(n \<mapsto> (Some b, b)))\<rparr>)"

definition mem_part_copy ::
  "string \<Rightarrow> string \<Rightarrow> int \<Rightarrow> string \<Rightarrow> int \<Rightarrow> int \<Rightarrow> mem_world \<Rightarrow> (go_error + string option option) \<times> mem_world" where
  "mem_part_copy k u n src s e w =
     (case mw_objs w src of
        None \<Rightarrow> (Inl (Sentinel ''NoSuchKey''), w)
      | Some bs \<Rightarrow>
          (let b = slice bs s (e + 1) in
           (Inr (Some (Some b)), w\<lparr>mw_pend := (mw_pend w)(u := (mw_pend w u)(n \<mapsto> (Some b, b)))\<rparr>)))"

definition mem_complete :: "string \<Rightarrow> string \<Rightarrow> CompletedPart list \<Rightarrow> mem_world \<Rightarrow> go_error option \<times> mem_world" where
  "mem_complete k u parts w =
     (if valid_parts (mw_pend w u) parts
      then (None, w\<lparr>mw_objs := (mw_objs w)(k := assemble (mw_pend w u) parts)\<rparr>)
      else (Some (Sentinel ''InvalidPart''), w))"

definition mem_abort :: "string \<Rightarrow> string \<Rightarrow> mem_world \<Rightarrow> go_error option \<times> mem_world" where
  "mem_abort k u w = (None, w\<lparr>mw_pend := (mw_pend w)(u := Map.empty)\<rparr>)"

definition mem_api :: "mem_world s3api" where
  "mem_api = \<lparr>api_HeadObject = mem_head, api_GetObject = mem_get, api_CopyObject = mem_copy,
     api_PutObject = mem_put, api_CreateMultipartUpload = mem_create, api_UploadPart = mem_part,
     api_UploadPartCopy = mem_part_copy, api_CompleteMultipartUpload = mem_complete,
     api_AbortMultipartUpload = mem_abort\<rparr>"

lemmas mem_defs = mem_api_def mem_head_def mem_get_def mem_copy_def mem_put_def mem_create_def mem_part_def
  mem_part_copy_def mem_complete_def mem_abort_def

lemma mem_calls:
  "head_contract mem_api mw_objs mw_pend" "get_contract mem_api mw_objs mw_pend"
  "create_contract mem_api mw_objs mw_pend" "part_contract mem_api mw_objs mw_pend"
  "part_copy_contract mem_api mw_objs mw_pend" "abort_contract mem_api mw_objs mw_pend"
  "complete_contract mem_api mw_objs mw_pend" "copy_contract mem_api mw_objs mw_pend"
  "put_contract mem_api mw_objs mw_pend"
          apply (auto simp: head_contract_def mem_defs split: option.splits) [1]
         apply (auto simp: get_contract_def mem_defs split: option.splits if_splits) [1]
        apply (auto simp: create_contract_def mem_defs Let_def ToString_def) [1]
       apply (auto simp: part_contract_def mem_defs) [1]
      apply (auto simp: part_copy_contract_def mem_defs Let_def split: option.splits) [1]
     apply (auto simp: abort_contract_def mem_defs) [1]
    apply (auto simp: complete_contract_def mem_defs valid_parts_def split: if_splits) [1]
   apply (auto simp: copy_contract_def mem_defs split: option.splits) [1]
  apply (auto simp: put_contract_def mem_defs) [1]
  done

lemma mem_s3_contract: "s3_contract mem_api mw_objs mw_pend"
  by (simp add: s3_contract_def mem_calls)

lemma mem_s3_reliable: "s3_reliable mem_api mw_objs mw_pend"
  unfolding s3_reliable_def by (auto simp: mem_defs Let_def)

end
