(* ===== verification/ObjectCopy.thy ===== *)
theory ObjectCopy
  imports ObjectStore "HOL-Library.Multiset"
begin

text \<open>
  Server-side copies (\<open>s3/copy.go\<close>) and concatenations (\<open>s3/concat.go\<close>) of objects.  Both slice the
  destination into parts of one size that a group of goroutines uploads in any order (\<open>sched\<close>), and abort on any failure;
  a part is a range copied by the service or, in a concatenation, assembled in memory from the header and the
  ends of source objects.  Sizes are far below the range of an int64 and are integers.
\<close>

section \<open>Uploading the parts of an object\<close>

definition ct_arg :: "string \<Rightarrow> string option" where
  "ct_arg contentType = (if contentType = '''' then None else Some contentType)"

text \<open>What follows once the upload is created: the group, \<open>Wait\<close>, and completion; any failure aborts.\<close>

definition upload_parts ::
  "'w s3api \<Rightarrow> (nat \<Rightarrow> nat list) \<Rightarrow> string \<Rightarrow> string \<Rightarrow> string \<Rightarrow>
   (nat \<Rightarrow> 'w \<Rightarrow> (go_error + CompletedPart) \<times> 'w) \<Rightarrow> nat \<Rightarrow> 'w \<Rightarrow> go_error option \<times> 'w" where
  "upload_parts api sched msg dstKey uploadID task n w =
     (case run_group task (sched n) None (replicate n zeroPart) w of
        (Some e, parts, w1) \<Rightarrow> (Some e, snd (api_AbortMultipartUpload api dstKey uploadID w1))
      | (None, parts, w1) \<Rightarrow>
          (case api_CompleteMultipartUpload api dstKey uploadID parts w1 of
             (Some e, w2) \<Rightarrow> (Some (WrapErr msg [e]), snd (api_AbortMultipartUpload api dstKey uploadID w2))
           | (None, w2) \<Rightarrow> (None, w2)))"

text \<open>A part copied by the service.\<close>

definition copy_part ::
  "'w s3api \<Rightarrow> string \<Rightarrow> string \<Rightarrow> string \<Rightarrow> int \<Rightarrow> int \<Rightarrow> nat \<Rightarrow> 'w \<Rightarrow> (go_error + CompletedPart) \<times> 'w" where
  "copy_part api dstKey uploadID src start end' p w =
     (let partNum = int p + 1 in
      case api_UploadPartCopy api dstKey uploadID partNum src start end' w of
        (Inl e, w1) \<Rightarrow> (Inl (WrapErr ''upload part copy'' [e]), w1)
      | (Inr None, w1) \<Rightarrow> (Inl (Sentinel ''missing CopyPartResult''), w1)
      | (Inr (Some tag), w1) \<Rightarrow> (Inr \<lparr>cp_ETag = tag, cp_PartNumber = Some partNum\<rparr>, w1))"

section \<open>Copy\<close>

definition maxCopyObjectSize :: int where "maxCopyObjectSize = 5 * 1024 * 1024 * 1024"
definition copyPartSize :: int where "copyPartSize = 1024 * 1024 * 1024"

function copy_ranges :: "int \<Rightarrow> int \<Rightarrow> (int \<times> int) list" where
  "copy_ranges off size' =
     (if off < size'
      then (let end' = off + copyPartSize - 1 in (off, if end' > size' - 1 then size' - 1 else end')) #
           copy_ranges (off + copyPartSize) size'
      else [])"
  by pat_completeness auto
termination by (relation "measure (\<lambda>(off, s). nat (s - off))") (auto simp: copyPartSize_def)

declare copy_ranges.simps [simp del]

definition multipartCopy ::
  "'w s3api \<Rightarrow> (nat \<Rightarrow> nat list) \<Rightarrow> string \<Rightarrow> string \<Rightarrow> string \<Rightarrow> int \<Rightarrow> 'w \<Rightarrow> go_error option \<times> 'w" where
  "multipartCopy api sched dstKey copySource contentType size' w =
     (case api_CreateMultipartUpload api dstKey (ct_arg contentType) w of
        (Inl e, w1) \<Rightarrow> (Some (WrapErr ''create multipart copy'' [e]), w1)
      | (Inr up, w1) \<Rightarrow>
          (let ranges = copy_ranges 0 size' in
           upload_parts api sched ''complete multipart copy'' dstKey (ToString up)
             (\<lambda>i. copy_part api dstKey (ToString up) copySource (fst (ranges ! i)) (snd (ranges ! i)) i)
             (length ranges) w1))"

definition copyObject :: "'w s3api \<Rightarrow> (nat \<Rightarrow> nat list) \<Rightarrow> string \<Rightarrow> string \<Rightarrow> 'w \<Rightarrow> go_error option \<times> 'w" where
  "copyObject api sched srcKey dstKey w =
     (case api_HeadObject api srcKey w of
        (Inl e, w1) \<Rightarrow> (Some (WrapErr ''head'' [e]), w1)
      | (Inr head, w1) \<Rightarrow>
          (let size' = ToInt64 (ho_ContentLength head); contentType = ToString (ho_ContentType head) in
           if size' \<le> maxCopyObjectSize
           then (case api_CopyObject api srcKey dstKey w1 of
                   (Some e, w2) \<Rightarrow> (Some (WrapErr ''copy'' [e]), w2)
                 | (None, w2) \<Rightarrow> (None, w2))
           else multipartCopy api sched dstKey srcKey contentType size' w1))"

section \<open>Concatenation\<close>

definition MultipartPartSize :: int where "MultipartPartSize = 16 * 1024 * 1024"
definition concatPartSize :: int where "concatPartSize = MultipartPartSize"
definition s3MaxParts :: int where "s3MaxParts = 10000"

fun head_sizes :: "'w s3api \<Rightarrow> string list \<Rightarrow> 'w \<Rightarrow> (go_error + int list) \<times> 'w" where
  "head_sizes api [] w = (Inr [], w)"
| "head_sizes api (key # keys) w =
     (case api_HeadObject api key w of
        (Inl e, w1) \<Rightarrow> (Inl (WrapErr ''head'' [e]), w1)
      | (Inr head, w1) \<Rightarrow>
          (case head_sizes api keys w1 of
             (Inl e, w2) \<Rightarrow> (Inl e, w2)
           | (Inr sizes, w2) \<Rightarrow> (Inr (ToInt64 (ho_ContentLength head) # sizes), w2)))"

text \<open>Each source object with its offset in the destination and its size.\<close>

fun lay_out :: "int \<Rightarrow> (string \<times> int) list \<Rightarrow> (string \<times> int \<times> int) list" where
  "lay_out off [] = []"
| "lay_out off ((key, sz) # srcs) = (key, off, sz) # lay_out (off + sz) srcs"

definition getRange :: "'w s3api \<Rightarrow> string \<Rightarrow> int \<Rightarrow> int \<Rightarrow> 'w \<Rightarrow> (go_error + bytes) \<times> 'w" where
  "getRange api key start end' w =
     (case api_GetObject api key start (Some end') w of
        (Inl e, w1) \<Rightarrow> (Inl (WrapErr ''get'' [e]), w1)
      | (Inr body, w1) \<Rightarrow>
          (case ReadAll body of Inl e \<Rightarrow> (Inl (WrapErr ''read'' [e]), w1) | Inr bs \<Rightarrow> (Inr bs, w1)))"

definition uploadPartAt :: "'w s3api \<Rightarrow> string \<Rightarrow> string \<Rightarrow> int \<Rightarrow> bytes \<Rightarrow> 'w \<Rightarrow> (go_error + CompletedPart) \<times> 'w" where
  "uploadPartAt api dstKey uploadID partNum body w =
     (case api_UploadPart api dstKey uploadID partNum body w of
        (Inl e, w1) \<Rightarrow> (Inl (WrapErr ''upload part'' [e]), w1)
      | (Inr tag, w1) \<Rightarrow> (Inr \<lparr>cp_ETag = tag, cp_PartNumber = Some partNum\<rparr>, w1))"

text \<open>A window over the header or over a boundary between objects, assembled in memory.\<close>

fun fill_window ::
  "'w s3api \<Rightarrow> (string \<times> int \<times> int) list \<Rightarrow> int \<Rightarrow> int \<Rightarrow> bytes \<Rightarrow> 'w \<Rightarrow> (go_error + bytes) \<times> 'w" where
  "fill_window api [] wStart wEnd buf w = (Inr buf, w)"
| "fill_window api ((key, off, sz) # lay) wStart wEnd buf w =
     (let s = max wStart off; e = min wEnd (off + sz) in
      if s \<ge> e then fill_window api lay wStart wEnd buf w
      else
        (case getRange api key (s - off) (e - 1 - off) w of
           (Inl err, w1) \<Rightarrow> (Inl err, w1)
         | (Inr body, w1) \<Rightarrow> fill_window api lay wStart wEnd (buf @ body) w1))"

definition concat_part ::
  "'w s3api \<Rightarrow> string \<Rightarrow> string \<Rightarrow> bytes \<Rightarrow> (string \<times> int \<times> int) list \<Rightarrow> int \<Rightarrow> nat \<Rightarrow> 'w \<Rightarrow>
   (go_error + CompletedPart) \<times> 'w" where
  "concat_part api dstKey uploadID header lay tot p w =
     (let headerLen = int (length header);
          wStart = int p * concatPartSize;
          wEnd = min (wStart + concatPartSize) tot
      in case find (\<lambda>(key, off, sz). off \<le> wStart \<and> wEnd \<le> off + sz) lay of
           Some (key, off, sz) \<Rightarrow> copy_part api dstKey uploadID key (wStart - off) (wEnd - 1 - off) p w
         | None \<Rightarrow>
             (let buf = (if wStart < headerLen then slice header wStart (min wEnd headerLen) else []) in
              case fill_window api lay wStart wEnd buf w of
                (Inl e, w1) \<Rightarrow> (Inl e, w1)
              | (Inr body, w1) \<Rightarrow> uploadPartAt api dstKey uploadID (int p + 1) body w1))"

definition concatWithHeader ::
  "'w s3api \<Rightarrow> (nat \<Rightarrow> nat list) \<Rightarrow> bytes \<Rightarrow> string list \<Rightarrow> string \<Rightarrow> string \<Rightarrow> 'w \<Rightarrow> go_error option \<times> 'w" where
  "concatWithHeader api sched header srcKeys dstKey contentType w =
     (if srcKeys = [] then (Some (Sentinel ''s3 concat: no source objects''), w)
      else
        (case head_sizes api srcKeys w of
           (Inl e, w1) \<Rightarrow> (Some e, w1)
         | (Inr sizes, w1) \<Rightarrow>
             (let headerLen = int (length header);
                  lay = lay_out headerLen (zip srcKeys sizes);
                  tot = headerLen + sum_list sizes;
                  numParts = (tot + concatPartSize - 1) div concatPartSize
              in if tot = 0 then (Some (Sentinel ''s3 concat: nothing to assemble''), w1)
                 else if numParts > s3MaxParts then (Some (Sentinel ''s3 concat: part limit''), w1)
                 else
                   (case api_CreateMultipartUpload api dstKey (ct_arg contentType) w1 of
                      (Inl e, w2) \<Rightarrow> (Some (WrapErr ''create multipart upload'' [e]), w2)
                    | (Inr up, w2) \<Rightarrow>
                        upload_parts api sched ''complete multipart upload'' dstKey (ToString up)
                          (concat_part api dstKey (ToString up) header lay tot) (nat numParts) w2))))"


section \<open>Uploads are all or nothing\<close>

lemma upload_parts_outcome:
  assumes s3: "s3_contract api objs pend"
    and task: "part_task objs pend u (objs w) win task"
    and sched: "mset (sched n) = mset [0..<n]"
    and run: "upload_parts api sched msg dst u task n w = (r, w')"
  shows "objs w' = (objs w)(dst \<mapsto> concat (map win [0..<n])) \<or> r \<noteq> None \<and> objs w' = objs w"
proof -
  obtain err parts w1 where g: "run_group task (sched n) None (replicate n zeroPart) w = (err, parts, w1)"
    by (cases "run_group task (sched n) None (replicate n zeroPart) w") auto
  have O1: "objs w1 = objs w" using run_group_objs [OF task refl g] .
  show ?thesis
  proof (cases err)
    case (Some e)
    then show ?thesis using run g O1 snd_abort [OF s3] by (auto simp: upload_parts_def)
  next
    case None
    have d: "distinct (sched n)" "set (sched n) = {0..<n}"
      using mset_eq_imp_distinct_iff [OF sched] mset_eq_setD [OF sched] by auto
    from run_group_parts [OF task refl g [unfolded None] d(1)] d(2)
    have len: "length parts = n" and parts: "\<forall>p<length parts. part_stored (pend w1 u) win parts p"
      by auto
    have asm: "assemble (pend w1 u) parts = Some (concat (map win [0..<n]))"
      using assemble_stored [OF parts] len by simp
    obtain r2 w2 where c: "api_CompleteMultipartUpload api dst u parts w1 = (r2, w2)"
      by (cases "api_CompleteMultipartUpload api dst u parts w1")
    then have "objs w2 = (objs w)(dst \<mapsto> concat (map win [0..<n])) \<or> r2 \<noteq> None \<and> objs w2 = objs w"
      using complete_call [OF s3 c] asm O1 by auto
    then show ?thesis
      using run g None c snd_abort [OF s3] by (cases r2) (auto simp: upload_parts_def)
  qed
qed

text \<open>A part copied by the service holds the range of the source.\<close>

lemma copy_part_task:
  assumes s3: "s3_contract api objs pend"
    and run: "copy_part api dst u src s e p w = (r, w')"
    and src: "objs w src = Some bs"
  shows "objs w' = objs w \<and> (\<forall>n. n \<noteq> int p + 1 \<longrightarrow> pend w' u n = pend w u n) \<and>
    (\<forall>c. r = Inr c \<longrightarrow> cp_PartNumber c = Some (int p + 1) \<and>
       pend w' u (int p + 1) = Some (cp_ETag c, slice bs s (e + 1)))"
proof -
  obtain r1 w1 where c: "api_UploadPartCopy api dst u (int p + 1) src s e w = (r1, w1)"
    by (cases "api_UploadPartCopy api dst u (int p + 1) src s e w")
  have w': "w' = w1" using run c by (auto simp: copy_part_def Let_def split: sum.splits option.splits)
  have keep: "objs w1 = objs w" "\<forall>n. n \<noteq> int p + 1 \<longrightarrow> pend w1 u n = pend w u n"
    and put: "\<And>tag. r1 = Inr (Some tag) \<Longrightarrow> pend w1 u = (pend w u)(int p + 1 \<mapsto> (tag, slice bs s (e + 1)))"
    using part_copy_call [OF s3 c] src by blast+
  have "r = Inr x \<Longrightarrow> \<exists>tag. r1 = Inr (Some tag) \<and> x = \<lparr>cp_ETag = tag, cp_PartNumber = Some (int p + 1)\<rparr>" for x
    using run c by (auto simp: copy_part_def Let_def split: sum.splits option.splits)
  then show ?thesis using keep put w' by fastforce
qed

section \<open>Copies\<close>

lemma copy_ranges_eq:
  assumes "0 \<le> sz"
  shows "copy_ranges (int k * copyPartSize) sz =
    map (\<lambda>p. (int p * copyPartSize, min ((int p + 1) * copyPartSize) sz - 1))
      [k..<nat ((sz + copyPartSize - 1) div copyPartSize)]"
proof (induction "nat ((sz + copyPartSize - 1) div copyPartSize) - k" arbitrary: k)
  case 0
  then have "\<not> int k * copyPartSize < sz"
    using assms by (simp add: copyPartSize_def)
  with 0 show ?case by (simp add: copy_ranges.simps)
next
  case (Suc d)
  let ?n = "nat ((sz + copyPartSize - 1) div copyPartSize)"
  have lt: "int k * copyPartSize < sz" "k < ?n"
    using Suc.hyps(2) assms by (simp_all add: copyPartSize_def)
  have "copy_ranges (int k * copyPartSize + copyPartSize) sz =
      map (\<lambda>p. (int p * copyPartSize, min ((int p + 1) * copyPartSize) sz - 1)) [Suc k..<?n]"
    using Suc.hyps(1) [of "Suc k"] Suc.hyps(2) by (simp add: algebra_simps)
  moreover have "[k..<?n] = k # [Suc k..<?n]" using lt(2) by (rule upt_conv_Cons)
  ultimately show ?case
    using lt(1) by (subst copy_ranges.simps) (simp add: Let_def algebra_simps min_def)
qed

lemma part_count_covers:
  assumes "0 < sz" "0 \<le> tot"
  shows "tot \<le> int (nat ((tot + sz - 1) div sz)) * sz"
proof -
  have "tot \<le> ((tot + sz - 1) div sz) * sz"
    using assms(1) by (smt (verit, best) minus_mod_eq_div_mult pos_mod_bound)
  then show ?thesis using assms by (simp add: pos_imp_zdiv_nonneg_iff)
qed

text \<open>The windows of \<open>n\<close> parts, where \<open>n\<close> is the ceiling the code computes, give the whole object.\<close>

lemma all_windows:
  assumes "0 < sz"
  shows "concat (map (\<lambda>p. slice xs (int p * sz) (min ((int p + 1) * sz) (int (length xs))))
           [0..<nat ((int (length xs) + sz - 1) div sz)]) = xs"
proof -
  have "min (int (nat ((int (length xs) + sz - 1) div sz)) * sz) (int (length xs)) = int (length xs)"
    using part_count_covers [OF assms, of "int (length xs)"] by simp
  then show ?thesis by (simp only: windows_concat [OF assms] slice_full)
qed


lemma copy_part_of_slice:
  assumes "s3_contract api objs pend" "O' src = Some bs"
  shows "part_task objs pend u O' (\<lambda>p. slice bs (f p) (g p + 1)) (\<lambda>p. copy_part api dst u src (f p) (g p) p)"
  unfolding part_task_def
proof (intro allI impI)
  fix p w r w' assume "objs w = O'" "copy_part api dst u src (f p) (g p) p w = (r, w')"
  with copy_part_task [OF assms(1) this(2), of bs] assms(2)
  show "objs w' = O' \<and> (\<forall>n. n \<noteq> int p + 1 \<longrightarrow> pend w' u n = pend w u n) \<and>
    (\<forall>c. r = Inr c \<longrightarrow> cp_PartNumber c = Some (int p + 1) \<and>
       pend w' u (int p + 1) = Some (cp_ETag c, slice bs (f p) (g p + 1)))"
    by auto
qed

text \<open>The contents a multipart copy uploads are the source's.\<close>

lemma copy_ranges_cover:
  fixes bs :: bytes
  defines "ranges \<equiv> copy_ranges 0 (int (length bs))"
  shows "concat (map (\<lambda>p. slice bs (fst (ranges ! p)) (snd (ranges ! p) + 1)) [0..<length ranges]) = bs"
proof -
  define n where "n = nat ((int (length bs) + copyPartSize - 1) div copyPartSize)"
  have r: "ranges = map (\<lambda>p. (int p * copyPartSize, min ((int p + 1) * copyPartSize) (int (length bs)) - 1)) [0..<n]"
    using copy_ranges_eq [of "int (length bs)" 0] by (simp add: ranges_def n_def)
  have "map (\<lambda>p. slice bs (fst (ranges ! p)) (snd (ranges ! p) + 1)) [0..<length ranges] =
      map (\<lambda>p. slice bs (int p * copyPartSize) (min ((int p + 1) * copyPartSize) (int (length bs)))) [0..<n]"
    by (simp add: r)
  moreover have "0 < copyPartSize" by (simp add: copyPartSize_def)
  ultimately show ?thesis using all_windows [of copyPartSize bs] by (simp add: n_def)
qed

lemma multipartCopy_outcome:
  assumes s3: "s3_contract api objs pend" and sched: "\<And>n. mset (sched n) = mset [0..<n]"
    and src: "objs w src = Some bs"
    and run: "multipartCopy api sched dst src ct (int (length bs)) w = (r, w')"
  shows "objs w' = (objs w)(dst \<mapsto> bs) \<or> r \<noteq> None \<and> objs w' = objs w"
proof -
  obtain r1 w1 where c: "api_CreateMultipartUpload api dst (ct_arg ct) w = (r1, w1)"
    by (cases "api_CreateMultipartUpload api dst (ct_arg ct) w")
  have O1: "objs w1 = objs w" using create_call [OF s3 c] by simp
  show ?thesis
  proof (cases r1)
    case (Inl e)
    then show ?thesis using run c O1 by (auto simp: multipartCopy_def)
  next
    case (Inr up)
    let ?ranges = "copy_ranges 0 (int (length bs))"
    have "upload_parts api sched ''complete multipart copy'' dst (ToString up)
        (\<lambda>i. copy_part api dst (ToString up) src (fst (?ranges ! i)) (snd (?ranges ! i)) i) (length ?ranges) w1 = (r, w')"
      using run c Inr by (simp add: multipartCopy_def Let_def)
    from upload_parts_outcome [OF s3 copy_part_of_slice sched this] s3 src O1 copy_ranges_cover [of bs]
    show ?thesis by simp
  qed
qed

lemma copyObject_outcome:
  assumes s3: "s3_contract api objs pend"
    and sched: "\<And>n. mset (sched n) = mset [0..<n]"
    and run: "copyObject api sched srcKey dstKey w = (r, w')"
  shows "(\<exists>bs. objs w srcKey = Some bs \<and> objs w' = (objs w)(dstKey \<mapsto> bs)) \<or> r \<noteq> None \<and> objs w' = objs w"
proof -
  obtain r1 w1 where h: "api_HeadObject api srcKey w = (r1, w1)" by (cases "api_HeadObject api srcKey w")
  have O1: "objs w1 = objs w" using head_call [OF s3 h] by simp
  show ?thesis
  proof (cases r1)
    case (Inl e)
    then show ?thesis using run h O1 by (auto simp: copyObject_def)
  next
    case (Inr head)
    obtain bs where bs: "objs w srcKey = Some bs" "ToInt64 (ho_ContentLength head) = int (length bs)"
      using head_size [OF s3 h [unfolded Inr]] by blast
    obtain r2 w2 where c: "api_CopyObject api srcKey dstKey w1 = (r2, w2)"
      by (cases "api_CopyObject api srcKey dstKey w1")
    have copied: "(\<exists>bs. objs w srcKey = Some bs \<and> objs w2 = (objs w)(dstKey \<mapsto> bs)) \<or> r2 \<noteq> None \<and> objs w2 = objs w"
      using copy_call [OF s3 c] O1 by simp
    show ?thesis
    proof (cases "int (length bs) \<le> maxCopyObjectSize")
      case True
      then have "(r, w') = (case r2 of Some e \<Rightarrow> (Some (WrapErr ''copy'' [e]), w2) | None \<Rightarrow> (None, w2))"
        using run h Inr bs(2) c by (simp add: copyObject_def Let_def split: option.splits)
      then show ?thesis using copied by (cases r2) auto
    next
      case False
      then have "multipartCopy api sched dstKey srcKey (ToString (ho_ContentType head)) (int (length bs)) w1 = (r, w')"
        using run h Inr bs(2) by (simp add: copyObject_def Let_def)
      from multipartCopy_outcome [OF s3 sched _ this] bs(1) O1 show ?thesis by auto
    qed
  qed
qed

text \<open>
  A copy within the bucket is all or nothing, whatever requests fail and in whatever order its parts are
  uploaded: when the call returns nil the destination is exactly the source's bytes, and when it returns
  an error either that holds as well (the answer of the final request was lost) or no object changed.
\<close>

theorem copy_all_or_nothing:
  assumes s3: "s3_contract api objs pend"
    and sched: "\<And>n. mset (sched n) = mset [0..<n]"
    and run: "copyObject api sched srcKey dstKey w = (r, w')"
  shows "(\<exists>bs. objs w srcKey = Some bs \<and> objs w' = (objs w)(dstKey \<mapsto> bs)) \<or> r \<noteq> None \<and> objs w' = objs w"
  using assms by (rule copyObject_outcome)

definition mem_with :: "(string \<rightharpoonup> bytes) \<Rightarrow> mem_world" where
  "mem_with m = \<lparr>mw_objs = m, mw_pend = (\<lambda>_. Map.empty), mw_uploads = 0\<rparr>"

lemma mem_copy_run:
  "copyObject mem_api (\<lambda>n. [0..<n]) ''src'' ''dst'' (mem_with [''src'' \<mapsto> ''abc'']) =
     (None, mem_with [''src'' \<mapsto> ''abc'', ''dst'' \<mapsto> ''abc''])"
  by (simp add: copyObject_def mem_api_def mem_head_def mem_copy_def ToInt64_def maxCopyObjectSize_def Let_def
      mem_with_def)

theorem copy_all_or_nothing_witness:
  "\<exists>w. copyObject mem_api (\<lambda>n. [0..<n]) ''src'' ''dst'' (mem_with [''src'' \<mapsto> ''abc'']) = (None, w) \<and>
       mw_objs w ''dst'' = Some ''abc''"
  using copy_all_or_nothing [OF mem_s3_contract _ mem_copy_run] mem_copy_run by (auto simp: mem_with_def)


section \<open>Concatenations\<close>

lemma head_sizes_lengths:
  assumes s3: "s3_contract api objs pend"
  shows "head_sizes api keys w = (r, w') \<Longrightarrow>
    objs w' = objs w \<and> pend w' = pend w \<and>
    (\<forall>sizes. r = Inr sizes \<longrightarrow>
       (\<exists>bss. list_all2 (\<lambda>k bs. objs w k = Some bs) keys bss \<and> sizes = map (\<lambda>b. int (length b)) bss))"
proof (induction keys arbitrary: w r w')
  case (Cons key keys)
  obtain r1 w1 where h: "api_HeadObject api key w = (r1, w1)" by (cases "api_HeadObject api key w")
  obtain r2 w2 where t: "head_sizes api keys w1 = (r2, w2)" by (cases "head_sizes api keys w1")
  note keep = head_call [OF s3 h] and IH = Cons.IH [OF t]
  show ?case
  proof (cases r1)
    case (Inl e)
    then show ?thesis using Cons.prems h keep by auto
  next
    case (Inr head)
    from head_size [OF s3 h [unfolded Inr]] obtain bs
      where bs: "objs w key = Some bs" "ToInt64 (ho_ContentLength head) = int (length bs)" by blast
    show ?thesis
    proof (cases r2)
      case (Inl e)
      then show ?thesis using Cons.prems h Inr t keep IH by auto
    next
      case (Inr sizes)
      from IH Inr keep obtain bss
        where "list_all2 (\<lambda>k b. objs w k = Some b) keys bss" "sizes = map (\<lambda>b. int (length b)) bss" by auto
      then have "list_all2 (\<lambda>k b. objs w k = Some b) (key # keys) (bs # bss)" using bs by simp
      then show ?thesis
        using Cons.prems h \<open>r1 = Inr head\<close> Inr t keep IH bs \<open>sizes = _\<close>
        by (intro conjI) (auto intro!: exI [of _ "bs # bss"])
    qed
  qed
qed simp

text \<open>Where a source object lies in the destination.\<close>

lemma lay_out_placed:
  "list_all2 (\<lambda>k bs. O' k = Some bs) keys bss \<Longrightarrow>
   (key, off, sz) \<in> set (lay_out (int (length before)) (zip keys (map (\<lambda>b. int (length b)) bss))) \<Longrightarrow>
   \<exists>bs pre post. O' key = Some bs \<and> sz = int (length bs) \<and> before @ concat bss = pre @ bs @ post \<and> off = int (length pre)"
proof (induction bss arbitrary: before keys)
  case (Cons bs bss)
  then obtain k keys' where keys: "keys = k # keys'" "O' k = Some bs" "list_all2 (\<lambda>k bs. O' k = Some bs) keys' bss"
    by (auto simp: list_all2_Cons2)
  show ?case
  proof (cases "(key, off, sz) = (k, int (length before), int (length bs))")
    case True
    then show ?thesis using keys by auto
  next
    case False
    then have "(key, off, sz) \<in> set (lay_out (int (length (before @ bs))) (zip keys' (map (\<lambda>b. int (length b)) bss)))"
      using Cons.prems(2) keys(1) by auto
    from Cons.IH [OF keys(3) this] show ?thesis by simp
  qed
qed simp

lemma slice_inside:
  assumes "int (length pre) \<le> s" "e \<le> int (length pre) + int (length bs)"
  shows "slice (pre @ bs @ post) s e = slice bs (s - int (length pre)) (e - int (length pre))"
proof (cases "e \<le> s")
  case True then show ?thesis by (simp add: slice_none)
next
  case False
  then have "slice (pre @ bs @ post) s e = slice (bs @ post) (s - int (length pre)) (e - int (length pre))"
    using assms by (simp add: slice_append slice_past max_absorb1)
  also have "\<dots> = slice bs (s - int (length pre)) (e - int (length pre))"
    using assms by (simp add: slice_append slice_none min_absorb1)
  finally show ?thesis .
qed

lemma getRange_bytes:
  assumes s3: "s3_contract api objs pend" and run: "getRange api key s e w = (r, w')"
    and src: "objs w key = Some bs" "0 \<le> s" "s < int (length bs)"
  shows "objs w' = objs w \<and> pend w' = pend w \<and> (\<forall>x. r = Inr x \<longrightarrow> x = slice bs s (e + 1))"
proof -
  obtain r1 w1 where g: "api_GetObject api key s (Some e) w = (r1, w1)"
    by (cases "api_GetObject api key s (Some e) w")
  note keep = get_call [OF s3 g]
  show ?thesis
  proof (cases r1)
    case (Inl err)
    then show ?thesis using run g keep by (auto simp: getRange_def)
  next
    case (Inr b)
    have "ReadAll b = Inr x \<Longrightarrow> x = slice bs s (e + 1)" for x
      using get_data [OF s3 g [unfolded Inr] src] by (auto simp: ReadAll_Inr Let_def)
    moreover have "w' = w1" "\<And>x. r = Inr x \<Longrightarrow> ReadAll b = Inr x"
      using run g Inr by (auto simp: getRange_def split: sum.splits)
    ultimately show ?thesis using keep by auto
  qed
qed

lemma fill_window_bytes:
  assumes s3: "s3_contract api objs pend" and "0 \<le> ws"
  shows "list_all2 (\<lambda>k bs. objs w k = Some bs) keys bss \<Longrightarrow> 0 \<le> off \<Longrightarrow>
    fill_window api (lay_out off (zip keys (map (\<lambda>b. int (length b)) bss))) ws we buf w = (r, w') \<Longrightarrow>
    objs w' = objs w \<and> pend w' = pend w \<and>
    (\<forall>x. r = Inr x \<longrightarrow> x = buf @ slice (concat bss) (max ws off - off) (we - off))"
proof (induction bss arbitrary: keys off buf w)
  case Nil
  then show ?case by (auto simp: slice_def)
next
  case (Cons bs bss)
  then obtain k keys' where keys: "keys = k # keys'" "objs w k = Some bs"
    and rest: "list_all2 (\<lambda>k bs. objs w k = Some bs) keys' bss"
    by (auto simp: list_all2_Cons2)
  let ?n = "int (length bs)"
  let ?s = "max ws off" and ?e = "min we (off + ?n)"
  let ?lay = "lay_out (off + ?n) (zip keys' (map (\<lambda>b. int (length b)) bss))"
  have cut_at: "slice (bs @ concat bss) (?s - off) (we - off) =
      slice bs (?s - off) (?e - off) @ slice (concat bss) (max ws (off + ?n) - (off + ?n)) (we - (off + ?n))"
  proof -
    have "min (we - off) ?n = ?e - off" "max (?s - off) ?n - ?n = max ws (off + ?n) - (off + ?n)"
      "we - off - ?n = we - (off + ?n)" by auto
    then show ?thesis using slice_append [of "?s - off" bs "concat bss" "we - off"]
      by (simp only: max.cobounded1 max.cobounded2 diff_ge_0_iff_ge)
  qed
  show ?case
  proof (cases "?s \<ge> ?e")
    case True
    then have "fill_window api ?lay ws we buf w = (r, w')"
      using Cons.prems(3) keys(1) by (simp add: Let_def)
    from Cons.IH [OF rest _ this] True cut_at Cons.prems(2) show ?thesis by (simp add: slice_none)
  next
    case False
    obtain r1 w1 where g: "getRange api k (?s - off) (?e - 1 - off) w = (r1, w1)"
      by (cases "getRange api k (?s - off) (?e - 1 - off) w")
    have inside: "0 \<le> ?s - off" "?s - off < ?n" using False by auto
    note got = getRange_bytes [OF s3 g keys(2) inside]
    show ?thesis
    proof (cases r1)
      case (Inl err)
      then show ?thesis using Cons.prems(3) keys(1) False g got by (auto simp: Let_def)
    next
      case (Inr body)
      then have run: "fill_window api ?lay ws we (buf @ body) w1 = (r, w')"
        using Cons.prems(3) keys(1) False g by (simp add: Let_def)
      have body: "body = slice bs (?s - off) (?e - off)" using got Inr by (simp add: algebra_simps)
      have "list_all2 (\<lambda>k bs. objs w1 k = Some bs) keys' bss" using rest got by simp
      from Cons.IH [OF this _ run] Cons.prems(2) got cut_at body show ?thesis by simp
    qed
  qed
qed


text \<open>A part of the concatenation holds its window of the destination.\<close>

definition window_of :: "bytes \<Rightarrow> nat \<Rightarrow> bytes" where
  "window_of content p =
     slice content (int p * concatPartSize) (min ((int p + 1) * concatPartSize) (int (length content)))"

lemma concat_part_eq:
  assumes "ws = int p * concatPartSize" "we = min (ws + concatPartSize) tot"
  shows "concat_part api dst u header lay tot p w =
    (case find (\<lambda>(key, off, sz). off \<le> ws \<and> we \<le> off + sz) lay of
       Some (key, off, sz) \<Rightarrow> copy_part api dst u key (ws - off) (we - 1 - off) p w
     | None \<Rightarrow>
         (case fill_window api lay ws we
             (if ws < int (length header) then slice header ws (min we (int (length header))) else []) w of
            (Inl e, w1) \<Rightarrow> (Inl e, w1)
          | (Inr body, w1) \<Rightarrow> uploadPartAt api dst u (int p + 1) body w1))"
  by (simp only: concat_part_def Let_def assms)

lemma concat_part_task:
  assumes s3: "s3_contract api objs pend"
    and srcs: "list_all2 (\<lambda>k bs. O' k = Some bs) keys bss"
    and lay: "lay = lay_out (int (length header)) (zip keys (map (\<lambda>b. int (length b)) bss))"
    and tot: "tot = int (length (header @ concat bss))"
  shows "part_task objs pend u O' (window_of (header @ concat bss)) (concat_part api dst u header lay tot)"
  unfolding part_task_def
proof (intro allI impI)
  fix p w r w' assume O': "objs w = O'" and run: "concat_part api dst u header lay tot p w = (r, w')"
  let ?xs = "header @ concat bss" and ?h = "int (length header)"
  define ws where "ws = int p * concatPartSize"
  define we where "we = min (ws + concatPartSize) tot"
  have win: "window_of ?xs p = slice ?xs ws we"
    by (simp add: window_of_def ws_def we_def tot algebra_simps)
  have ws: "0 \<le> ws" by (simp add: ws_def concatPartSize_def MultipartPartSize_def)
  let ?found = "find (\<lambda>(key, off, sz). off \<le> ws \<and> we \<le> off + sz) lay"
  show "objs w' = O' \<and> (\<forall>n. n \<noteq> int p + 1 \<longrightarrow> pend w' u n = pend w u n) \<and>
    (\<forall>c. r = Inr c \<longrightarrow> cp_PartNumber c = Some (int p + 1) \<and>
       pend w' u (int p + 1) = Some (cp_ETag c, window_of ?xs p))"
  proof (cases ?found)
    case (Some x)
    obtain key off sz where x: "x = (key, off, sz)" by (cases x)
    have pr: "off \<le> ws" "we \<le> off + sz" "(key, off, sz) \<in> set lay"
      using Some x by (auto simp: find_Some_iff in_set_conv_nth)
    obtain bs pre post where bs: "O' key = Some bs" "sz = int (length bs)" "?xs = pre @ bs @ post" "off = int (length pre)"
      using lay_out_placed [OF srcs pr(3) [unfolded lay]] by blast
    have "slice ?xs ws we = slice bs (ws - off) (we - off)"
      using slice_inside [of pre ws we bs post] pr bs by simp
    moreover have "copy_part api dst u key (ws - off) (we - 1 - off) p w = (r, w')"
      using run Some x by (simp add: concat_part_eq [OF ws_def we_def])
    ultimately show ?thesis using copy_part_task [OF s3 _ bs(1) [folded O']] O' win by (simp add: algebra_simps)
  next
    case None
    let ?buf = "if ws < ?h then slice header ws (min we ?h) else []"
    obtain r1 w1 where f: "fill_window api lay ws we ?buf w = (r1, w1)"
      by (cases "fill_window api lay ws we ?buf w")
    have go: "(r, w') = (case r1 of Inl e \<Rightarrow> (Inl e, w1) | Inr body \<Rightarrow> uploadPartAt api dst u (int p + 1) body w1)"
      using run None f by (simp add: concat_part_eq [OF ws_def we_def] split: sum.splits)
    have srcs': "list_all2 (\<lambda>k bs. objs w k = Some bs) keys bss" using srcs O' by simp
    note filled = fill_window_bytes [OF s3 ws srcs' _ f [unfolded lay]]
    have "?buf @ slice (concat bss) (max ws ?h - ?h) (we - ?h) = slice ?xs ws we"
      using slice_append [OF ws, of header "concat bss" we] by (auto simp: slice_past)
    with filled win have keep: "objs w1 = O'" "pend w1 = pend w"
      and body: "\<And>x. r1 = Inr x \<Longrightarrow> x = window_of ?xs p"
      using O' by simp_all
    show ?thesis
    proof (cases r1)
      case (Inl e)
      then show ?thesis using go keep by simp
    next
      case (Inr b)
      obtain r2 w2 where up: "api_UploadPart api dst u (int p + 1) b w1 = (r2, w2)"
        by (cases "api_UploadPart api dst u (int p + 1) b w1")
      show ?thesis
        using go Inr up part_call [OF s3 up] keep body [OF Inr]
        by (cases r2) (auto simp: uploadPartAt_def)
    qed
  qed
qed

lemma sum_list_lengths: "sum_list (map (\<lambda>b. int (length b)) bss) = int (length (concat bss))"
  by (induction bss) auto

lemma concat_outcome:
  assumes s3: "s3_contract api objs pend"
    and sched: "\<And>n. mset (sched n) = mset [0..<n]"
    and run: "concatWithHeader api sched header srcKeys dstKey contentType w = (r, w')"
  shows "(\<exists>bss. list_all2 (\<lambda>k bs. objs w k = Some bs) srcKeys bss \<and>
            objs w' = (objs w)(dstKey \<mapsto> header @ concat bss)) \<or>
         r \<noteq> None \<and> objs w' = objs w"
proof (cases "srcKeys = []")
  case True
  then show ?thesis using run by (auto simp: concatWithHeader_def)
next
  case False
  obtain r1 w1 where h: "head_sizes api srcKeys w = (r1, w1)" by (cases "head_sizes api srcKeys w")
  note hs = head_sizes_lengths [OF s3 h]
  show ?thesis
  proof (cases r1)
    case (Inl e)
    then show ?thesis using run False h hs by (auto simp: concatWithHeader_def)
  next
    case (Inr sizes)
    with hs obtain bss where bss: "list_all2 (\<lambda>k bs. objs w k = Some bs) srcKeys bss"
      and sizes: "sizes = map (\<lambda>b. int (length b)) bss" by blast
    let ?xs = "header @ concat bss"
    define lay where "lay = lay_out (int (length header)) (zip srcKeys (map (\<lambda>b. int (length b)) bss))"
    define n where "n = (int (length ?xs) + concatPartSize - 1) div concatPartSize"
    obtain r2 w2 where c: "api_CreateMultipartUpload api dstKey (ct_arg contentType) w1 = (r2, w2)"
      by (cases "api_CreateMultipartUpload api dstKey (ct_arg contentType) w1")
    have O2: "objs w2 = objs w" using create_call [OF s3 c] hs by simp
    have body: "concatWithHeader api sched header srcKeys dstKey contentType w =
       (if int (length ?xs) = 0 then (Some (Sentinel ''s3 concat: nothing to assemble''), w1)
        else if n > s3MaxParts then (Some (Sentinel ''s3 concat: part limit''), w1)
        else case r2 of Inl e \<Rightarrow> (Some (WrapErr ''create multipart upload'' [e]), w2)
           | Inr up \<Rightarrow> upload_parts api sched ''complete multipart upload'' dstKey (ToString up)
               (concat_part api dstKey (ToString up) header lay (int (length ?xs))) (nat n) w2)"
      using False h Inr c
      by (simp add: concatWithHeader_def Let_def sizes sum_list_lengths lay_def n_def split: sum.splits)
    show ?thesis
    proof (cases "\<exists>up. int (length ?xs) \<noteq> 0 \<and> \<not> n > s3MaxParts \<and> r2 = Inr up")
      case False
      then show ?thesis using run body O2 hs by (cases r2) (auto split: if_splits)
    next
      case True
      then obtain up where up: "r2 = Inr up"
        "upload_parts api sched ''complete multipart upload'' dstKey (ToString up)
           (concat_part api dstKey (ToString up) header lay (int (length ?xs))) (nat n) w2 = (r, w')"
        using run body by auto
      have srcs: "list_all2 (\<lambda>k bs. objs w2 k = Some bs) srcKeys bss" using bss O2 by simp
      have ps: "0 < concatPartSize" by (simp add: concatPartSize_def MultipartPartSize_def)
      have "concat (map (window_of ?xs) [0..<nat n]) = ?xs"
        using all_windows [OF ps, of ?xs] unfolding window_of_def n_def by simp
      with upload_parts_outcome [OF s3 concat_part_task [OF s3 srcs lay_def refl] sched up(2)] O2 bss
      show ?thesis by auto
    qed
  qed
qed


section \<open>A store that serves every valid request\<close>

lemma run_group_succeeds:
  assumes task: "part_task objs pend u O' win task"
    and ok: "\<And>p w. p < n \<Longrightarrow> objs w = O' \<Longrightarrow> \<exists>c w'. task p w = (Inr c, w')"
  shows "objs w = O' \<Longrightarrow> \<forall>p\<in>set ps. p < n \<Longrightarrow> \<exists>parts' w'. run_group task ps None parts w = (None, parts', w')"
proof (induction ps arbitrary: parts w)
  case (Cons p ps)
  then obtain c w1 where t: "task p w = (Inr c, w1)" using ok [of p w] by auto
  then have "objs w1 = O'" using task Cons.prems(1) unfolding part_task_def by blast
  from Cons.IH [OF this] Cons.prems(2) t show ?case by simp
qed simp

lemma valid_stored_parts:
  assumes parts: "\<forall>p<length parts. part_stored ps win parts p"
    and n: "parts \<noteq> []" "length parts \<le> 10000"
    and uniform: "\<And>p. p < length parts - 1 \<Longrightarrow> length (win p) = length (win 0)"
  shows "valid_parts ps parts"
proof -
  have num: "p < length parts \<Longrightarrow> ToInt64 (cp_PartNumber (parts ! p)) = int p + 1"
    and len: "p < length parts \<Longrightarrow> part_length ps (parts ! p) = length (win p)" for p
    using parts by (auto simp: part_stored_def ToInt64_def part_length_def)
  have "sorted_wrt (<) (map (\<lambda>p. ToInt64 (cp_PartNumber p)) parts)"
    by (simp add: sorted_wrt_iff_nth_less num)
  moreover have "list_all (\<lambda>p. 1 \<le> ToInt64 (cp_PartNumber p) \<and> ToInt64 (cp_PartNumber p) \<le> 10000) parts"
    using n(2) by (auto simp: list_all_length num)
  moreover have "list_all (\<lambda>p. part_length ps p = part_length ps (hd parts)) (butlast parts)"
  proof -
    have h: "part_length ps (hd parts) = length (win 0)" using n(1) len [of 0] by (simp add: hd_conv_nth)
    have "p < length parts - 1 \<Longrightarrow> part_length ps (parts ! p) = length (win 0)" for p
      using len [of p] uniform [of p] by simp
    then show ?thesis by (simp add: list_all_length nth_butlast h)
  qed
  ultimately show ?thesis
    using n(1) assemble_stored [OF parts] by (simp add: valid_parts_def)
qed

lemma upload_parts_succeeds:
  assumes s3: "s3_contract api objs pend" and up: "s3_reliable api objs pend"
    and task: "part_task objs pend u (objs w) win task"
    and ok: "\<And>p w1. p < n \<Longrightarrow> objs w1 = objs w \<Longrightarrow> \<exists>c w2. task p w1 = (Inr c, w2)"
    and sched: "mset (sched n) = mset [0..<n]"
    and n: "0 < n" "n \<le> 10000"
    and uniform: "\<And>p. p < n - 1 \<Longrightarrow> length (win p) = length (win 0)"
  shows "fst (upload_parts api sched msg dst u task n w) = None"
proof -
  have d: "distinct (sched n)" "set (sched n) = {0..<n}"
    using mset_eq_imp_distinct_iff [OF sched] mset_eq_setD [OF sched] by auto
  obtain parts w1 where g: "run_group task (sched n) None (replicate n zeroPart) w = (None, parts, w1)"
    using run_group_succeeds [OF task ok, of n w "sched n" "replicate n zeroPart"] d(2) by auto
  from run_group_parts [OF task refl g d(1)] d(2)
  have len: "length parts = n" and parts: "\<forall>p<length parts. part_stored (pend w1 u) win parts p" by auto
  have "valid_parts (pend w1 u) parts"
  proof (rule valid_stored_parts [OF parts])
    show "parts \<noteq> []" using len n(1) by fastforce
    show "length parts \<le> 10000" unfolding len by (rule n(2))
    show "\<And>p. p < length parts - 1 \<Longrightarrow> length (win p) = length (win 0)"
      by (rule uniform) (simp only: len)
  qed
  then obtain w2 where "api_CompleteMultipartUpload api dst u parts w1 = (None, w2)"
    using reliable_complete [OF up] by blast
  with g show ?thesis by (simp add: upload_parts_def)
qed

lemma fill_window_succeeds:
  assumes s3: "s3_contract api objs pend" and up: "s3_reliable api objs pend"
  shows "list_all2 (\<lambda>k bs. objs w k = Some bs) keys bss \<Longrightarrow>
    \<exists>x w'. fill_window api (lay_out off (zip keys (map (\<lambda>b. int (length b)) bss))) ws we buf w = (Inr x, w')"
proof (induction bss arbitrary: keys off buf w)
  case (Cons bs bss)
  then obtain k keys' where keys: "keys = k # keys'" "objs w k = Some bs"
    and rest: "list_all2 (\<lambda>k bs. objs w k = Some bs) keys' bss"
    by (auto simp: list_all2_Cons2)
  let ?s = "max ws off - off" and ?e = "min we (off + int (length bs)) - 1 - off"
  show ?case
  proof (cases "max ws off \<ge> min we (off + int (length bs))")
    case True
    then show ?thesis using Cons.IH [OF rest] keys(1) by (simp add: Let_def)
  next
    case False
    then have "0 \<le> ?s" "?s < int (length bs)" by auto
    then obtain b w1 where g: "api_GetObject api k ?s (Some ?e) w = (Inr b, w1)" "bd_Err b = None"
      using reliable_get [OF up keys(2)] by blast
    then have got: "getRange api k ?s ?e w = (Inr (bd_Data b), w1)"
      by (simp add: getRange_def ReadAll_def)
    have "list_all2 (\<lambda>k bs. objs w1 k = Some bs) keys' bss" using rest get_call [OF s3 g(1)] by simp
    from Cons.IH [OF this] False got keys(1) show ?thesis by (simp add: Let_def)
  qed
qed simp

lemma window_positive:
  assumes "p < nat ((tot + concatPartSize - 1) div concatPartSize)"
  shows "int p * concatPartSize < tot"
  using assms by (simp add: concatPartSize_def MultipartPartSize_def)

lemma concat_part_succeeds:
  assumes s3: "s3_contract api objs pend" and up: "s3_reliable api objs pend"
    and srcs: "list_all2 (\<lambda>k bs. objs w k = Some bs) keys bss"
    and lay: "lay = lay_out (int (length header)) (zip keys (map (\<lambda>b. int (length b)) bss))"
    and p: "p < nat ((tot + concatPartSize - 1) div concatPartSize)"
  shows "\<exists>c w'. concat_part api dst u header lay tot p w = (Inr c, w')"
proof -
  define ws where "ws = int p * concatPartSize"
  define we where "we = min (ws + concatPartSize) tot"
  have lt: "ws < we"
    using window_positive [OF p] by (simp add: ws_def we_def concatPartSize_def MultipartPartSize_def)
  let ?found = "find (\<lambda>(key, off, sz). off \<le> ws \<and> we \<le> off + sz) lay"
  show ?thesis
  proof (cases ?found)
    case (Some x)
    obtain key off sz where x: "x = (key, off, sz)" by (cases x)
    have pr: "off \<le> ws" "we \<le> off + sz" "(key, off, sz) \<in> set lay"
      using Some x by (auto simp: find_Some_iff in_set_conv_nth)
    obtain bs where bs: "objs w key = Some bs" "sz = int (length bs)"
      using lay_out_placed [OF srcs pr(3) [unfolded lay]] by blast
    have "0 \<le> ws - off" "ws - off \<le> we - 1 - off" "we - 1 - off < int (length bs)"
      using pr bs lt by auto
    then obtain tag w1 where
      "api_UploadPartCopy api dst u (int p + 1) key (ws - off) (we - 1 - off) w = (Inr (Some tag), w1)"
      using reliable_part_copy [OF up bs(1)] by blast
    then show ?thesis
      using Some x by (simp add: concat_part_eq [OF ws_def we_def] copy_part_def)
  next
    case None
    obtain x w1 where f: "fill_window api lay ws we
        (if ws < int (length header) then slice header ws (min we (int (length header))) else []) w = (Inr x, w1)"
      using fill_window_succeeds [OF s3 up srcs] unfolding lay by blast
    obtain tag w2 where "api_UploadPart api dst u (int p + 1) x w1 = (Inr tag, w2)"
      using reliable_part [OF up] by blast
    then show ?thesis
      using None f by (simp add: concat_part_eq [OF ws_def we_def] uploadPartAt_def)
  qed
qed

lemma head_sizes_succeed:
  assumes s3: "s3_contract api objs pend" and up: "s3_reliable api objs pend"
  shows "list_all2 (\<lambda>k bs. objs w k = Some bs) keys bss \<Longrightarrow>
    \<exists>w'. head_sizes api keys w = (Inr (map (\<lambda>b. int (length b)) bss), w')"
proof (induction bss arbitrary: keys w)
  case (Cons bs bss)
  then obtain k keys' where keys: "keys = k # keys'" "objs w k = Some bs"
    and rest: "list_all2 (\<lambda>k bs. objs w k = Some bs) keys' bss"
    by (auto simp: list_all2_Cons2)
  obtain h w1 where h: "api_HeadObject api k w = (Inr h, w1)" using reliable_head [OF up] keys(2) by blast
  have "list_all2 (\<lambda>k bs. objs w1 k = Some bs) keys' bss" using rest head_call [OF s3 h] by simp
  from Cons.IH [OF this] keys h head_size [OF s3 h] show ?case by auto
qed simp

lemma window_uniform:
  assumes "p < nat ((int (length xs) + concatPartSize - 1) div concatPartSize) - 1"
  shows "length (window_of xs p) = nat concatPartSize"
proof -
  have "(int p + 1) * concatPartSize \<le> int (length xs)"
    using assms by (simp add: concatPartSize_def MultipartPartSize_def)
  moreover have "0 \<le> int p * concatPartSize" by (simp add: concatPartSize_def MultipartPartSize_def)
  ultimately have "length (window_of xs p) = nat ((int p + 1) * concatPartSize - int p * concatPartSize)"
    unfolding window_of_def by (simp add: length_slice)
  then show ?thesis by (simp add: distrib_right)
qed

lemma part_count_bounds:
  assumes "1 \<le> L" "L \<le> s3MaxParts * concatPartSize"
  shows "0 < (L + concatPartSize - 1) div concatPartSize \<and> (L + concatPartSize - 1) div concatPartSize \<le> s3MaxParts"
  using assms by (simp add: concatPartSize_def MultipartPartSize_def s3MaxParts_def) linarith

lemma concat_returns_nil:
  assumes s3: "s3_contract api objs pend" and up: "s3_reliable api objs pend"
    and sched: "\<And>n. mset (sched n) = mset [0..<n]"
    and srcs: "list_all2 (\<lambda>k bs. objs w k = Some bs) srcKeys bss" "srcKeys \<noteq> []"
    and xs: "header @ concat bss \<noteq> []" "int (length (header @ concat bss)) \<le> s3MaxParts * concatPartSize"
  shows "fst (concatWithHeader api sched header srcKeys dst ct w) = None"
proof -
  let ?xs = "header @ concat bss"
  define lay where "lay = lay_out (int (length header)) (zip srcKeys (map (\<lambda>b. int (length b)) bss))"
  define n where "n = (int (length ?xs) + concatPartSize - 1) div concatPartSize"
  have len: "length ?xs \<noteq> 0" using xs(1) by (simp only: length_0_conv not_False_eq_True)
  then have pos: "int (length header) + int (length (concat bss)) \<noteq> 0"
    by (simp only: length_append)
  have "1 \<le> int (length ?xs)" using len by linarith
  from part_count_bounds [OF this xs(2)] have n: "0 < n" "n \<le> s3MaxParts" unfolding n_def by blast+
  obtain w1 where h: "head_sizes api srcKeys w = (Inr (map (\<lambda>b. int (length b)) bss), w1)"
    using head_sizes_succeed [OF s3 up srcs(1)] by blast
  obtain u w2 where c: "api_CreateMultipartUpload api dst (ct_arg ct) w1 = (Inr u, w2)"
    using reliable_create [OF up] by blast
  have O2: "objs w2 = objs w" using create_call [OF s3 c] head_sizes_lengths [OF s3 h] by simp
  have srcs2: "list_all2 (\<lambda>k bs. objs w' k = Some bs) srcKeys bss" if "objs w' = objs w2" for w'
    using srcs(1) that O2 by simp
  have "concatWithHeader api sched header srcKeys dst ct w =
      upload_parts api sched ''complete multipart upload'' dst (ToString u)
        (concat_part api dst (ToString u) header lay (int (length ?xs))) (nat n) w2"
    using srcs(2) h c n
    by (simp add: pos concatWithHeader_def Let_def sum_list_lengths lay_def n_def)
  also have "fst \<dots> = None"
  proof (rule upload_parts_succeeds [OF s3 up concat_part_task [OF s3 srcs2 [OF refl] lay_def refl] _ sched])
    show "\<And>p w'. p < nat n \<Longrightarrow> objs w' = objs w2 \<Longrightarrow>
        \<exists>c w''. concat_part api dst (ToString u) header lay (int (length ?xs)) p w' = (Inr c, w'')"
      using concat_part_succeeds [OF s3 up srcs2 lay_def] unfolding n_def by blast
    show "0 < nat n" "nat n \<le> 10000" using n by (simp_all add: s3MaxParts_def)
    show "\<And>p. p < nat n - 1 \<Longrightarrow> length (window_of ?xs p) = length (window_of ?xs 0)"
      using window_uniform [of _ ?xs] unfolding n_def by (metis gr_implies_not0 not_gr_zero)
  qed
  finally show ?thesis .
qed

text \<open>
  C14. \<open>ConcatWithHeader\<close> assembles exactly header ++ sources.  Whatever requests fail, and in whatever order the
  windows are uploaded: when it returns nil the destination holds the header followed by the bytes of every source
  in order, and when it returns an error either that holds as well (the answer of the final request was
  lost) or no object changed; there is never a partial or reordered object.  And the upload is always one R2 accepts
  (equal parts but the final one, ascending numbers, at most 10000): over a store that serves every
  valid request the call returns nil for every content of up to 10000 parts.
\<close>

theorem concat_all_or_nothing:
  assumes s3: "s3_contract api objs pend"
    and sched: "\<And>n. mset (sched n) = mset [0..<n]"
    and run: "concatWithHeader api sched header srcKeys dstKey contentType w = (r, w')"
  shows "((\<exists>bss. list_all2 (\<lambda>k bs. objs w k = Some bs) srcKeys bss \<and>
             objs w' = (objs w)(dstKey \<mapsto> header @ concat bss)) \<or>
          r \<noteq> None \<and> objs w' = objs w) \<and>
    (\<forall>bss. s3_reliable api objs pend \<and> srcKeys \<noteq> [] \<and> list_all2 (\<lambda>k bs. objs w k = Some bs) srcKeys bss \<and>
       header @ concat bss \<noteq> [] \<and> int (length (header @ concat bss)) \<le> 10000 * 16777216 \<longrightarrow> r = None)"
proof -
  have lim: "s3MaxParts * concatPartSize = 10000 * 16777216"
    by (simp add: s3MaxParts_def concatPartSize_def MultipartPartSize_def)
  have "r = fst (concatWithHeader api sched header srcKeys dstKey contentType w)" using run by simp
  then have "r = None" if "s3_reliable api objs pend" "srcKeys \<noteq> []"
    "list_all2 (\<lambda>k bs. objs w k = Some bs) srcKeys bss" "header @ concat bss \<noteq> []"
    "int (length (header @ concat bss)) \<le> 10000 * 16777216" for bss
    using concat_returns_nil [OF s3 that(1) sched that(3,2,4) that(5) [folded lim]] by simp
  then show ?thesis using concat_outcome [OF s3 sched run] by blast
qed

theorem concat_all_or_nothing_witness:
  "\<exists>w. concatWithHeader mem_api (\<lambda>n. rev [0..<n]) ''hd'' [''a'', ''b''] ''dst'' ''video/mp4''
         (mem_with [''a'' \<mapsto> replicate 40000000 CHR 0x01, ''b'' \<mapsto> ''xyz'']) = (None, w) \<and>
       mw_objs w ''dst'' = Some (''hd'' @ replicate 40000000 CHR 0x01 @ ''xyz'')"
proof -
  define bs where "bs = replicate 40000000 (CHR 0x01)"
  have len: "length bs = 40000000" by (simp only: bs_def length_replicate)
  let ?w = "mem_with [''a'' \<mapsto> bs, ''b'' \<mapsto> ''xyz'']"
  obtain r w' where run:
    "concatWithHeader mem_api (\<lambda>n. rev [0..<n]) ''hd'' [''a'', ''b''] ''dst'' ''video/mp4'' ?w = (r, w')"
    by (cases "concatWithHeader mem_api (\<lambda>n. rev [0..<n]) ''hd'' [''a'', ''b''] ''dst'' ''video/mp4'' ?w")
  have sched: "\<And>n. mset (rev [0..<n]) = mset [0..<n]" by simp
  have srcs: "list_all2 (\<lambda>k bs. mw_objs ?w k = Some bs) [''a'', ''b''] [bs, ''xyz'']"
    by (simp add: mem_with_def)
  note out = concat_all_or_nothing [OF mem_s3_contract sched run]
  have "r = None"
    using conjunct2 [OF out, rule_format, of "[bs, ''xyz'']"] srcs mem_s3_reliable len by simp
  with conjunct1 [OF out] obtain bss where "list_all2 (\<lambda>k bs. mw_objs ?w k = Some bs) [''a'', ''b''] bss"
      "mw_objs w' = (mw_objs ?w)(''dst'' \<mapsto> ''hd'' @ concat bss)" by blast
  then have "mw_objs w' ''dst'' = Some (''hd'' @ bs @ ''xyz'')"
    by (auto simp: mem_with_def list_all2_Cons1)
  with run \<open>r = None\<close> show ?thesis unfolding bs_def by blast
qed

end
