(* ===== verification/MultipartWriter.thy ===== *)
theory MultipartWriter
  imports ObjectStore "HOL-Library.Multiset"
begin

text \<open>
  The streaming upload of \<open>s3/multipart_writer.go\<close>.  One goroutine writes, completes or aborts; parts of
  \<open>MultipartPartSize\<close> bytes are handed to goroutines, at most eight at a time, whose requests end in any order
  and may fail.  The caller's position in a call, the requests in flight and the world are one state, and
  \<open>mp_step\<close> is what can happen next.  \<open>mp_bodies\<close> and \<open>mp_acked\<close> are history: the parts cut so far, and
  the bytes of the writes that returned nil.
\<close>

section \<open>The writer\<close>

definition MultipartWriterPartSize :: nat where "MultipartWriterPartSize = 16 * 1024 * 1024"
definition multipartUploadConcurrency :: nat where "multipartUploadConcurrency = 8"

datatype mp_pc =
    PcIdle
  | PcWrite bytes
  | PcSend int bytes mp_pc
  | PcComplete
  | PcAbort

record 'w mp_writer =
  mp_buf :: bytes
  mp_partNum :: int
  mp_inflight :: "(int \<times> bytes) list"
  mp_parts :: "CompletedPart list"
  mp_uploadErr :: "go_error option"
  mp_finalized :: bool
  mp_pc :: mp_pc
  mp_world :: 'w
  mp_bodies :: "bytes list"
  mp_acked :: bytes

definition newMultipartWriter :: "'w s3api \<Rightarrow> string \<Rightarrow> string \<Rightarrow> 'w \<Rightarrow> go_error + string \<times> 'w mp_writer" where
  "newMultipartWriter api key contentType w =
     (case api_CreateMultipartUpload api key (if contentType = '''' then None else Some contentType) w of
        (Inl e, w1) \<Rightarrow> Inl (WrapErr ''create multipart upload'' [e])
      | (Inr up, w1) \<Rightarrow>
          Inr (ToString up,
            \<lparr>mp_buf = [], mp_partNum = 0, mp_inflight = [], mp_parts = [], mp_uploadErr = None, mp_finalized = False,
             mp_pc = PcIdle, mp_world = w1, mp_bodies = [], mp_acked = []\<rparr>))"

text \<open>The first half of \<open>dispatchPart\<close>: number and cut the part; the caller then waits for a slot.\<close>

definition cut_part :: "nat \<Rightarrow> mp_pc \<Rightarrow> 'w mp_writer \<Rightarrow> 'w mp_writer" where
  "cut_part sz after s =
     (let num = mp_partNum s + 1; body = take sz (mp_buf s) in
      s\<lparr>mp_partNum := num, mp_buf := drop sz (mp_buf s), mp_pc := PcSend num body after,
        mp_bodies := mp_bodies s @ [body]\<rparr>)"

definition setUploadError :: "go_error \<Rightarrow> 'w mp_writer \<Rightarrow> 'w mp_writer" where
  "setUploadError e s = (case mp_uploadErr s of None \<Rightarrow> s\<lparr>mp_uploadErr := Some e\<rparr> | Some x \<Rightarrow> s)"

text \<open>An upload goroutine runs to its end and gives its slot back.\<close>

definition writer_uploadPart :: "'w s3api \<Rightarrow> string \<Rightarrow> string \<Rightarrow> nat \<Rightarrow> 'w mp_writer \<Rightarrow> 'w mp_writer" where
  "writer_uploadPart api key uploadID i s =
     (let (num, body) = mp_inflight s ! i;
          s1 = s\<lparr>mp_inflight := take i (mp_inflight s) @ drop (i + 1) (mp_inflight s)\<rparr>
      in case api_UploadPart api key uploadID num body (mp_world s) of
           (Inl e, w1) \<Rightarrow> setUploadError (WrapErr ''upload part'' [e]) (s1\<lparr>mp_world := w1\<rparr>)
         | (Inr tag, w1) \<Rightarrow>
             s1\<lparr>mp_world := w1, mp_parts := mp_parts s @ [\<lparr>cp_ETag = tag, cp_PartNumber = Some num\<rparr>]\<rparr>)"

text \<open>\<open>Complete\<close> once no request is in flight.\<close>

definition finishComplete :: "'w s3api \<Rightarrow> string \<Rightarrow> string \<Rightarrow> 'w mp_writer \<Rightarrow> go_error option \<times> 'w mp_writer" where
  "finishComplete api key uploadID s =
     (case mp_uploadErr s of
        Some e \<Rightarrow> (Some e, s\<lparr>mp_pc := PcIdle\<rparr>)
      | None \<Rightarrow>
          if mp_parts s = []
          then
            (let (_, w1) = api_AbortMultipartUpload api key uploadID (mp_world s) in
             case api_PutObject api key [] w1 of
               (Some e, w2) \<Rightarrow> (Some (WrapErr ''put zero-byte object'' [e]), s\<lparr>mp_world := w2, mp_pc := PcIdle\<rparr>)
             | (None, w2) \<Rightarrow> (None, s\<lparr>mp_world := w2, mp_finalized := True, mp_pc := PcIdle\<rparr>))
          else
            (let parts = sort_key (\<lambda>p. ToInt64 (cp_PartNumber p)) (mp_parts s) in
             case api_CompleteMultipartUpload api key uploadID parts (mp_world s) of
               (Some e, w1) \<Rightarrow>
                 (Some (WrapErr ''complete multipart'' [e]), s\<lparr>mp_world := w1, mp_parts := parts, mp_pc := PcIdle\<rparr>)
             | (None, w1) \<Rightarrow>
                 (None, s\<lparr>mp_world := w1, mp_parts := parts, mp_finalized := True, mp_pc := PcIdle\<rparr>)))"

definition finishAbort :: "'w s3api \<Rightarrow> string \<Rightarrow> string \<Rightarrow> 'w mp_writer \<Rightarrow> go_error option \<times> 'w mp_writer" where
  "finishAbort api key uploadID s =
     (let (r, w1) = api_AbortMultipartUpload api key uploadID (mp_world s) in
      (map_option (\<lambda>e. WrapErr ''abort multipart'' [e]) r, s\<lparr>mp_world := w1, mp_pc := PcIdle\<rparr>))"

section \<open>Steps\<close>

datatype mp_label =
    Tau
  | CallWrite bytes
  | RetWrite "go_error option"
  | CallComplete
  | RetComplete "go_error option"
  | CallAbort
  | RetAbort "go_error option"

inductive mp_step :: "'w s3api \<Rightarrow> string \<Rightarrow> string \<Rightarrow> 'w mp_writer \<Rightarrow> mp_label \<Rightarrow> 'w mp_writer \<Rightarrow> bool"
  for api key u where
  write_closed: "mp_pc s = PcIdle \<Longrightarrow> mp_finalized s \<Longrightarrow>
     mp_step api key u s (RetWrite (Some (Sentinel ''write after Complete/Abort''))) s"
| write_start: "mp_pc s = PcIdle \<Longrightarrow> \<not> mp_finalized s \<Longrightarrow>
     mp_step api key u s (CallWrite p) (s\<lparr>mp_buf := mp_buf s @ p, mp_pc := PcWrite p\<rparr>)"
| write_failed: "mp_pc s = PcWrite p \<Longrightarrow> mp_uploadErr s = Some e \<Longrightarrow>
     mp_step api key u s (RetWrite (Some e)) (s\<lparr>mp_pc := PcIdle\<rparr>)"
| write_part: "mp_pc s = PcWrite p \<Longrightarrow> mp_uploadErr s = None \<Longrightarrow> length (mp_buf s) \<ge> MultipartWriterPartSize \<Longrightarrow>
     mp_step api key u s Tau (cut_part MultipartWriterPartSize (PcWrite p) s)"
| write_done: "mp_pc s = PcWrite p \<Longrightarrow> mp_uploadErr s = None \<Longrightarrow> length (mp_buf s) < MultipartWriterPartSize \<Longrightarrow>
     mp_step api key u s (RetWrite None) (s\<lparr>mp_pc := PcIdle, mp_acked := mp_acked s @ p\<rparr>)"
| send_part: "mp_pc s = PcSend num body after \<Longrightarrow> length (mp_inflight s) < multipartUploadConcurrency \<Longrightarrow>
     mp_step api key u s Tau (s\<lparr>mp_inflight := mp_inflight s @ [(num, body)], mp_pc := after\<rparr>)"
| upload_part: "i < length (mp_inflight s) \<Longrightarrow> mp_step api key u s Tau (writer_uploadPart api key u i s)"
| complete_closed: "mp_pc s = PcIdle \<Longrightarrow> mp_finalized s \<Longrightarrow>
     mp_step api key u s (RetComplete (Some (Sentinel ''Complete called twice''))) s"
| complete_start: "mp_pc s = PcIdle \<Longrightarrow> \<not> mp_finalized s \<Longrightarrow>
     mp_step api key u s CallComplete
       (if mp_buf s \<noteq> [] then cut_part (length (mp_buf s)) PcComplete s else s\<lparr>mp_pc := PcComplete\<rparr>)"
| complete_finish: "mp_pc s = PcComplete \<Longrightarrow> mp_inflight s = [] \<Longrightarrow> finishComplete api key u s = (r, s') \<Longrightarrow>
     mp_step api key u s (RetComplete r) s'"
| abort_closed: "mp_pc s = PcIdle \<Longrightarrow> mp_finalized s \<Longrightarrow> mp_step api key u s (RetAbort None) s"
| abort_start: "mp_pc s = PcIdle \<Longrightarrow> \<not> mp_finalized s \<Longrightarrow>
     mp_step api key u s CallAbort (s\<lparr>mp_finalized := True, mp_pc := PcAbort\<rparr>)"
| abort_finish: "mp_pc s = PcAbort \<Longrightarrow> mp_inflight s = [] \<Longrightarrow> finishAbort api key u s = (r, s') \<Longrightarrow>
     mp_step api key u s (RetAbort r) s'"

inductive mp_reachable :: "'w s3api \<Rightarrow> string \<Rightarrow> string \<Rightarrow> 'w mp_writer \<Rightarrow> 'w mp_writer \<Rightarrow> bool"
  for api key u s0 where
  reach_start: "mp_reachable api key u s0 s0"
| reach_step: "mp_reachable api key u s0 s \<Longrightarrow> mp_step api key u s l s' \<Longrightarrow> mp_reachable api key u s0 s'"


section \<open>Invariant\<close>

inductive_cases mp_stepE: "mp_step api key u s l s'"

text \<open>The bytes of the write in progress, and the part waiting for a slot.\<close>

fun pc_pending :: "mp_pc \<Rightarrow> bytes" where
  "pc_pending (PcWrite p) = p"
| "pc_pending (PcSend n b after) = pc_pending after"
| "pc_pending _ = []"

fun pc_sends :: "mp_pc \<Rightarrow> (int \<times> bytes) list" where
  "pc_sends (PcSend n b after) = (n, b) # pc_sends after"
| "pc_sends _ = []"

definition cp_num :: "CompletedPart \<Rightarrow> int" where
  "cp_num c = ToInt64 (cp_PartNumber c)"

text \<open>As long as no upload has failed: the parts and the buffer are what was written, each part is in exactly
  one place, and what the store holds for a completed part is that part, unless the upload was consumed.\<close>

definition mp_accounted :: "('w \<Rightarrow> string \<Rightarrow> parts_map) \<Rightarrow> string \<Rightarrow> 'w mp_writer \<Rightarrow> bool" where
  "mp_accounted pend u s =
     (mp_partNum s = int (length (mp_bodies s)) \<and>
      concat (mp_bodies s) @ mp_buf s = mp_acked s @ pc_pending (mp_pc s) \<and>
      mset (map fst (mp_inflight s) @ map cp_num (mp_parts s) @ map fst (pc_sends (mp_pc s)))
        = mset [1..int (length (mp_bodies s))] \<and>
      (\<forall>(n, b)\<in>set (mp_inflight s @ pc_sends (mp_pc s)). b = mp_bodies s ! nat (n - 1)) \<and>
      (\<forall>c\<in>set (mp_parts s). cp_PartNumber c \<noteq> None \<and>
         (pend (mp_world s) u (cp_num c) = None \<or>
          pend (mp_world s) u (cp_num c) = Some (cp_ETag c, mp_bodies s ! nat (cp_num c - 1)))))"

definition mp_inv :: "('w \<Rightarrow> string \<Rightarrow> parts_map) \<Rightarrow> string \<Rightarrow> 'w mp_writer \<Rightarrow> bool" where
  "mp_inv pend u s =
     (length (mp_inflight s) \<le> multipartUploadConcurrency \<and>
      (mp_uploadErr s = None \<longrightarrow> mp_accounted pend u s))"

lemma mp_inv_step_pc:
  assumes "mp_inv pend u s" "mp_uploadErr s' = None \<Longrightarrow> mp_uploadErr s = None"
    and "mp_inflight s' = mp_inflight s" "mp_parts s' = mp_parts s" "mp_bodies s' = mp_bodies s"
    and "mp_partNum s' = mp_partNum s" "pc_sends (mp_pc s') = pc_sends (mp_pc s)"
    and "\<And>n. pend (mp_world s') u n = pend (mp_world s) u n \<or> pend (mp_world s') u n = None"
    and "mp_uploadErr s' = None \<Longrightarrow> concat (mp_bodies s) @ mp_buf s = mp_acked s @ pc_pending (mp_pc s) \<Longrightarrow>
      concat (mp_bodies s) @ mp_buf s' = mp_acked s' @ pc_pending (mp_pc s')"
  shows "mp_inv pend u s'"
proof -
  have "mp_accounted pend u s'" if e: "mp_uploadErr s' = None"
  proof -
    have acc: "mp_accounted pend u s" using assms(1,2) e by (simp add: mp_inv_def)
    have "\<forall>c\<in>set (mp_parts s). cp_PartNumber c \<noteq> None \<and>
         (pend (mp_world s') u (cp_num c) = None \<or>
          pend (mp_world s') u (cp_num c) = Some (cp_ETag c, mp_bodies s ! nat (cp_num c - 1)))"
      using acc assms(8) unfolding mp_accounted_def by metis
    with acc assms(9) [OF e] show ?thesis
      unfolding mp_accounted_def assms(3-7) by blast
  qed
  then show ?thesis using assms(1,3) by (simp add: mp_inv_def)
qed

lemma upto_snoc: "[1..int (Suc n)] = [1..int n] @ [int n + 1]"
  by (simp add: upto_rec2)

lemma mp_inv_cut:
  assumes inv: "mp_inv pend u s" and e: "mp_uploadErr s = None"
    and pc: "pc_sends (mp_pc s) = []" "pc_sends after = []" "pc_pending after = pc_pending (mp_pc s)"
    and sz: "sz \<le> length (mp_buf s)"
  shows "mp_inv pend u (cut_part sz after s)"
proof -
  let ?n = "length (mp_bodies s)" and ?body = "take sz (mp_buf s)"
  have acc: "mp_accounted pend u s" using inv e by (simp add: mp_inv_def)
  have nums: "set (map fst (mp_inflight s) @ map cp_num (mp_parts s)) = {1..int ?n}"
    using acc pc(1) unfolding mp_accounted_def by (metis append_Nil2 list.simps(8) mset_eq_setD set_upto)
  have old: "(mp_bodies s @ [?body]) ! nat (n - 1) = mp_bodies s ! nat (n - 1)"
    if "n \<in> set (map fst (mp_inflight s) @ map cp_num (mp_parts s))" for n
  proof -
    have "n \<in> {1..int ?n}" using that nums by (simp only:)
    then have "nat (n - 1) < ?n" by auto
    then show ?thesis by (simp add: nth_append)
  qed
  have "mp_accounted pend u (cut_part sz after s)"
    unfolding mp_accounted_def
  proof (intro conjI)
    show "mp_partNum (cut_part sz after s) = int (length (mp_bodies (cut_part sz after s)))"
      using acc by (simp add: cut_part_def Let_def mp_accounted_def)
    show "concat (mp_bodies (cut_part sz after s)) @ mp_buf (cut_part sz after s) =
        mp_acked (cut_part sz after s) @ pc_pending (mp_pc (cut_part sz after s))"
      using acc pc(3) by (simp add: cut_part_def Let_def mp_accounted_def)
    show "mset (map fst (mp_inflight (cut_part sz after s)) @ map cp_num (mp_parts (cut_part sz after s)) @
          map fst (pc_sends (mp_pc (cut_part sz after s)))) = mset [1..int (length (mp_bodies (cut_part sz after s)))]"
      using acc pc(1,2) by (simp add: cut_part_def Let_def mp_accounted_def upto_snoc del: of_nat_Suc)
    show "\<forall>(n, b)\<in>set (mp_inflight (cut_part sz after s) @ pc_sends (mp_pc (cut_part sz after s))).
        b = mp_bodies (cut_part sz after s) ! nat (n - 1)"
      using acc pc(1,2) old by (fastforce simp: cut_part_def Let_def mp_accounted_def nth_append)
    show "\<forall>c\<in>set (mp_parts (cut_part sz after s)). cp_PartNumber c \<noteq> None \<and>
        (pend (mp_world (cut_part sz after s)) u (cp_num c) = None \<or>
         pend (mp_world (cut_part sz after s)) u (cp_num c) =
           Some (cp_ETag c, mp_bodies (cut_part sz after s) ! nat (cp_num c - 1)))"
      using acc old by (simp add: cut_part_def Let_def mp_accounted_def)
  qed
  then show ?thesis using inv by (simp add: mp_inv_def cut_part_def Let_def)
qed


lemma mp_inv_upload:
  assumes s3: "s3_contract api objs pend" and inv: "mp_inv pend u s" and i: "i < length (mp_inflight s)"
  shows "mp_inv pend u (writer_uploadPart api key u i s)"
    and "objs (mp_world (writer_uploadPart api key u i s)) = objs (mp_world s)"
proof -
  obtain num body where nb: "mp_inflight s ! i = (num, body)" by (cases "mp_inflight s ! i")
  obtain r w1 where up: "api_UploadPart api key u num body (mp_world s) = (r, w1)"
    by (cases "api_UploadPart api key u num body (mp_world s)")
  let ?rest = "take i (mp_inflight s) @ drop (i + 1) (mp_inflight s)"
  have split: "mp_inflight s = take i (mp_inflight s) @ (num, body) # drop (i + 1) (mp_inflight s)"
    using id_take_nth_drop [OF i] nb by simp
  have len: "length ?rest \<le> multipartUploadConcurrency" using inv i by (auto simp: mp_inv_def)
  show "objs (mp_world (writer_uploadPart api key u i s)) = objs (mp_world s)"
    using part_call [OF s3 up] up nb
    by (cases r) (auto simp: writer_uploadPart_def setUploadError_def Let_def split: option.splits)
  show "mp_inv pend u (writer_uploadPart api key u i s)"
  proof (cases "mp_uploadErr (writer_uploadPart api key u i s)")
    case (Some e)
    then show ?thesis
      using len nb up
      by (cases r) (auto simp: mp_inv_def writer_uploadPart_def setUploadError_def Let_def split: option.splits)
  next
    case None
    then obtain tag where r: "r = Inr tag" and e: "mp_uploadErr s = None"
      using nb up by (cases r) (auto simp: writer_uploadPart_def setUploadError_def Let_def split: option.splits)
    let ?c = "\<lparr>cp_ETag = tag, cp_PartNumber = Some num\<rparr>"
    have s': "writer_uploadPart api key u i s =
        s\<lparr>mp_inflight := ?rest, mp_world := w1, mp_parts := mp_parts s @ [?c]\<rparr>"
      using nb up r by (simp add: writer_uploadPart_def)
    have acc: "mp_accounted pend u s" using inv e by (simp add: mp_inv_def)
    have num: "cp_num ?c = num" by (simp add: cp_num_def ToInt64_def)
    have "mset (map fst (mp_inflight s)) = add_mset num (mset (map fst ?rest))"
      by (subst split) simp
    then have nums: "mset (map fst ?rest @ map cp_num (mp_parts s @ [?c]) @ map fst (pc_sends (mp_pc s))) =
        mset [1..int (length (mp_bodies s))]"
      using acc num by (simp add: mp_accounted_def add.assoc)
    have body: "body = mp_bodies s ! nat (num - 1)"
      using acc nth_mem [OF i] unfolding nb mp_accounted_def by auto
    have "distinct (map fst (mp_inflight s) @ map cp_num (mp_parts s) @ map fst (pc_sends (mp_pc s)))"
      using acc mset_eq_imp_distinct_iff distinct_upto unfolding mp_accounted_def by blast
    moreover have "num \<in> set (map fst (mp_inflight s))" by (subst split) simp
    ultimately have fresh: "num \<notin> set (map cp_num (mp_parts s))" by auto
    have stored_parts: "\<forall>c\<in>set (mp_parts s @ [?c]). cp_PartNumber c \<noteq> None \<and>
        (pend w1 u (cp_num c) = None \<or> pend w1 u (cp_num c) = Some (cp_ETag c, mp_bodies s ! nat (cp_num c - 1)))"
    proof
      fix c assume c: "c \<in> set (mp_parts s @ [?c])"
      show "cp_PartNumber c \<noteq> None \<and>
        (pend w1 u (cp_num c) = None \<or> pend w1 u (cp_num c) = Some (cp_ETag c, mp_bodies s ! nat (cp_num c - 1)))"
      proof (cases "c = ?c")
        case True
        then show ?thesis using part_call [OF s3 up] r num body by simp
      next
        case False
        then have old: "c \<in> set (mp_parts s)" using c by simp
        then have "cp_num c \<noteq> num" using fresh by auto
        then have "pend w1 u (cp_num c) = pend (mp_world s) u (cp_num c)" using part_call [OF s3 up] by simp
        then show ?thesis using acc old by (simp add: mp_accounted_def)
      qed
    qed
    have "set ?rest \<subseteq> set (mp_inflight s)" using set_take_subset set_drop_subset by fastforce
    then have bodies: "\<forall>(n, b)\<in>set (?rest @ pc_sends (mp_pc s)). b = mp_bodies s ! nat (n - 1)"
      using acc unfolding mp_accounted_def by auto
    have "mp_accounted pend u (writer_uploadPart api key u i s)"
      using acc nums stored_parts bodies unfolding s' mp_accounted_def by simp
    then show ?thesis using len by (simp add: mp_inv_def s')
  qed
qed


text \<open>The completed list: every part once, in order, so what the service assembles is everything written.\<close>

lemma assemble_bodies:
  assumes "\<forall>c\<in>set parts. cp_PartNumber c \<noteq> None \<and>
      (ps (cp_num c) = None \<or> ps (cp_num c) = Some (cp_ETag c, bodies ! nat (cp_num c - 1)))"
    and "assemble ps parts = Some bs"
  shows "bs = concat (map (\<lambda>c. bodies ! nat (cp_num c - 1)) parts)"
  using assms
proof (induction parts arbitrary: bs)
  case (Cons c parts)
  then obtain n where n: "cp_PartNumber c = Some n" by auto
  then have cn: "cp_num c = n" by (simp add: cp_num_def ToInt64_def)
  from Cons.prems(2) n obtain b bs' where b: "ps n = Some (cp_ETag c, b)" "assemble ps parts = Some bs'" "bs = b @ bs'"
    by (auto split: option.splits if_splits prod.splits)
  moreover have "b = bodies ! nat (n - 1)" using Cons.prems(1) cn b(1) by auto
  moreover have "bs' = concat (map (\<lambda>c. bodies ! nat (cp_num c - 1)) parts)" using Cons b(2) by simp
  ultimately show ?case using cn by simp
qed simp

lemma sorted_numbers:
  assumes "mset (map cp_num parts) = mset [1..int n]"
  shows "map cp_num (sort_key (\<lambda>p. ToInt64 (cp_PartNumber p)) parts) = [1..int n]"
proof -
  have f: "(\<lambda>p. ToInt64 (cp_PartNumber p)) = cp_num" by (simp add: cp_num_def fun_eq_iff)
  have "sort [1..int n] = map cp_num (sort_key cp_num parts)"
    using assms by (intro properties_for_sort) simp_all
  then show ?thesis by (simp add: f sorted_sort_id)
qed

lemma bodies_in_order: "map (\<lambda>i. bodies ! nat (i - 1)) [1..int (length bodies)] = bodies"
  by (rule nth_equalityI) simp_all

lemma completed_bytes:
  assumes acc: "mp_accounted pend u s" and pc: "mp_pc s = PcComplete" "mp_inflight s = []"
    and asm: "assemble (pend (mp_world s) u) (sort_key (\<lambda>p. ToInt64 (cp_PartNumber p)) (mp_parts s)) = Some bs"
  shows "bs = concat (mp_bodies s)"
proof -
  let ?parts = "sort_key (\<lambda>p. ToInt64 (cp_PartNumber p)) (mp_parts s)"
  have "mset (map cp_num (mp_parts s)) = mset [1..int (length (mp_bodies s))]"
    using acc pc by (simp add: mp_accounted_def)
  note nums = sorted_numbers [OF this]
  have "bs = concat (map (\<lambda>c. mp_bodies s ! nat (cp_num c - 1)) ?parts)"
    using acc by (intro assemble_bodies [OF _ asm]) (simp add: mp_accounted_def)
  also have "map (\<lambda>c. mp_bodies s ! nat (cp_num c - 1)) ?parts = map (\<lambda>i. mp_bodies s ! nat (i - 1)) (map cp_num ?parts)"
    by simp
  finally show ?thesis by (simp only: nums bodies_in_order)
qed

text \<open>The buffer is empty whenever \<open>Complete\<close> waits.\<close>

fun pc_completes :: "mp_pc \<Rightarrow> bool" where
  "pc_completes PcComplete = True"
| "pc_completes (PcSend n b after) = pc_completes after"
| "pc_completes _ = False"

fun pc_shallow :: "mp_pc \<Rightarrow> bool" where
  "pc_shallow (PcSend n b after) = (pc_sends after = [])"
| "pc_shallow _ = True"

definition mp_flushed :: "'w mp_writer \<Rightarrow> bool" where
  "mp_flushed s = (pc_shallow (mp_pc s) \<and> (pc_completes (mp_pc s) \<longrightarrow> mp_buf s = []))"

lemma finishComplete_outcome:
  assumes s3: "s3_contract api objs pend" and inv: "mp_inv pend u s" "mp_flushed s"
    and pc: "mp_pc s = PcComplete" "mp_inflight s = []" and fin: "finishComplete api key u s = (r, s')"
  shows "mp_inv pend u s'"
    and "objs (mp_world s') = (objs (mp_world s))(key \<mapsto> mp_acked s) \<or>
      r \<noteq> None \<and> objs (mp_world s') = objs (mp_world s)"
proof -
  have "mp_inv pend u s' \<and> (objs (mp_world s') = (objs (mp_world s))(key \<mapsto> mp_acked s) \<or>
      r \<noteq> None \<and> objs (mp_world s') = objs (mp_world s))"
  proof (cases "mp_uploadErr s")
    case (Some e)
    then have "s' = s\<lparr>mp_pc := PcIdle\<rparr>" "r = Some e" using fin by (simp_all add: finishComplete_def)
    then show ?thesis using inv(1) Some by (simp add: mp_inv_def)
  next
    case None
    have acc: "mp_accounted pend u s" using inv(1) None by (simp add: mp_inv_def)
    have all: "concat (mp_bodies s) = mp_acked s"
      using acc inv(2) pc(1) by (simp add: mp_accounted_def mp_flushed_def)
    show ?thesis
    proof (cases "mp_parts s = []")
      case True
      then have "mp_bodies s = []" using acc pc by (simp add: mp_accounted_def)
      with all have acked: "mp_acked s = []" by simp
      obtain ra w1 where a: "api_AbortMultipartUpload api key u (mp_world s) = (ra, w1)"
        by (cases "api_AbortMultipartUpload api key u (mp_world s)")
      obtain rp w2 where p: "api_PutObject api key [] w1 = (rp, w2)" by (cases "api_PutObject api key [] w1")
      have "mp_world s' = w2" "mp_inflight s' = mp_inflight s" "mp_parts s' = mp_parts s" "mp_bodies s' = mp_bodies s"
        "mp_partNum s' = mp_partNum s" "mp_pc s' = PcIdle" "mp_buf s' = mp_buf s" "mp_acked s' = mp_acked s"
        "mp_uploadErr s' = None" "r = None \<longleftrightarrow> rp = None"
        using fin None True a p by (cases rp; auto simp: finishComplete_def)+
      then show ?thesis
        using mp_inv_step_pc [OF inv(1), of s'] None pc abort_call [OF s3 a] put_call [OF s3 p] acked
        by auto
    next
      case False
      let ?parts = "sort_key (\<lambda>p. ToInt64 (cp_PartNumber p)) (mp_parts s)"
      obtain rc w1 where c: "api_CompleteMultipartUpload api key u ?parts (mp_world s) = (rc, w1)"
        by (cases "api_CompleteMultipartUpload api key u ?parts (mp_world s)")
      have s': "mp_world s' = w1" "mp_inflight s' = []" "mp_parts s' = ?parts" "mp_bodies s' = mp_bodies s"
        "mp_partNum s' = mp_partNum s" "mp_pc s' = PcIdle" "mp_buf s' = mp_buf s" "mp_acked s' = mp_acked s"
        "mp_uploadErr s' = None" "r = None \<longleftrightarrow> rc = None"
        using fin None False c pc(2) by (cases rc; auto simp: finishComplete_def)+
      have keep: "pend w1 u n = pend (mp_world s) u n \<or> pend w1 u n = None" for n
        using conjunct1 [OF complete_call [OF s3 c]] by simp
      have "mp_accounted pend u s'"
        unfolding mp_accounted_def s'
      proof (intro conjI)
        show "\<forall>c\<in>set ?parts. cp_PartNumber c \<noteq> None \<and>
            (pend w1 u (cp_num c) = None \<or> pend w1 u (cp_num c) = Some (cp_ETag c, mp_bodies s ! nat (cp_num c - 1)))"
          using acc keep unfolding mp_accounted_def by (metis set_sort)
      qed (use acc pc in \<open>simp_all add: mp_accounted_def\<close>)
      moreover have "objs w1 = (objs (mp_world s))(key \<mapsto> mp_acked s) \<or> rc \<noteq> None \<and> objs w1 = objs (mp_world s)"
        using complete_call [OF s3 c] completed_bytes [OF acc pc] all by auto
      ultimately show ?thesis using s' by (simp add: mp_inv_def)
    qed
  qed
  then show "mp_inv pend u s'"
    and "objs (mp_world s') = (objs (mp_world s))(key \<mapsto> mp_acked s) \<or>
      r \<noteq> None \<and> objs (mp_world s') = objs (mp_world s)"
    by blast+
qed


lemma finishAbort_outcome:
  assumes s3: "s3_contract api objs pend" and inv: "mp_inv pend u s" "mp_flushed s"
    and pc: "mp_pc s = PcAbort" and fin: "finishAbort api key u s = (r, s')"
  shows "mp_inv pend u s' \<and> mp_flushed s' \<and> objs (mp_world s') = objs (mp_world s)"
proof -
  obtain ra w1 where a: "api_AbortMultipartUpload api key u (mp_world s) = (ra, w1)"
    by (cases "api_AbortMultipartUpload api key u (mp_world s)")
  have s': "s' = s\<lparr>mp_world := w1, mp_pc := PcIdle\<rparr>" using fin a by (simp add: finishAbort_def)
  have "mp_inv pend u s'"
    by (rule mp_inv_step_pc [OF inv(1)]) (use abort_call [OF s3 a] pc s' in auto)
  then show ?thesis using abort_call [OF s3 a] s' by (simp add: mp_flushed_def)
qed

lemma mp_step_inv:
  assumes s3: "s3_contract api objs pend" and step: "mp_step api key u s l s'"
    and inv: "mp_inv pend u s" "mp_flushed s"
  shows "mp_inv pend u s' \<and> mp_flushed s' \<and>
    (\<forall>r. l = RetComplete r \<longrightarrow> objs (mp_world s') = (objs (mp_world s))(key \<mapsto> mp_acked s) \<or>
       r \<noteq> None \<and> objs (mp_world s') = objs (mp_world s)) \<and>
    ((\<forall>r. l \<noteq> RetComplete r) \<longrightarrow> objs (mp_world s') = objs (mp_world s))"
  using step
proof cases
  case (write_start p)
  have "mp_inv pend u s'"
    by (rule mp_inv_step_pc [OF inv(1)]) (use write_start in auto)
  then show ?thesis using write_start by (simp add: mp_flushed_def)
next
  case (write_failed p e)
  have "mp_inv pend u s'"
    by (rule mp_inv_step_pc [OF inv(1)]) (use write_failed in auto)
  then show ?thesis using write_failed by (simp add: mp_flushed_def)
next
  case (write_part p)
  have "mp_inv pend u s'"
    unfolding write_part by (rule mp_inv_cut [OF inv(1)]) (use write_part in auto)
  then show ?thesis using write_part by (simp add: mp_flushed_def cut_part_def Let_def)
next
  case (write_done p)
  have "mp_inv pend u s'"
    by (rule mp_inv_step_pc [OF inv(1)]) (use write_done in auto)
  then show ?thesis using write_done by (simp add: mp_flushed_def)
next
  case (send_part num body after)
  have sh: "pc_sends after = []" using inv(2) send_part by (simp add: mp_flushed_def)
  have "mp_inv pend u s'"
    using inv(1) send_part sh by (auto simp: mp_inv_def mp_accounted_def)
  moreover have "pc_shallow after" using sh by (cases after) auto
  ultimately show ?thesis using send_part inv(2) by (simp add: mp_flushed_def)
next
  case (upload_part i)
  then show ?thesis
    using mp_inv_upload [OF s3 inv(1)] inv(2)
    by (auto simp: mp_flushed_def writer_uploadPart_def setUploadError_def Let_def
        split: prod.splits sum.splits option.splits)
next
  case complete_start
  show ?thesis
  proof (cases "mp_buf s = []")
    case True
    then have s': "s' = s\<lparr>mp_pc := PcComplete\<rparr>" using complete_start by simp
    have "mp_inv pend u s'"
      by (rule mp_inv_step_pc [OF inv(1)]) (use complete_start s' in auto)
    then show ?thesis using complete_start s' True by (simp add: mp_flushed_def)
  next
    case False
    then have s': "s' = cut_part (length (mp_buf s)) PcComplete s" using complete_start by simp
    have "mp_inv pend u s'"
    proof (cases "mp_uploadErr s")
      case None
      show ?thesis unfolding s' by (rule mp_inv_cut [OF inv(1) None]) (use complete_start in auto)
    next
      case (Some e)
      then show ?thesis using inv(1) unfolding s' by (simp add: mp_inv_def cut_part_def Let_def)
    qed
    then show ?thesis using complete_start(1) unfolding s' by (simp add: mp_flushed_def cut_part_def Let_def)
  qed
next
  case (complete_finish r)
  have "mp_pc s' = PcIdle"
    using complete_finish(4)
    by (auto simp: finishComplete_def Let_def split: option.splits if_splits prod.splits)
  then show ?thesis
    using finishComplete_outcome [OF s3 inv complete_finish(2-4)] complete_finish(1) by (simp add: mp_flushed_def)
next
  case abort_start
  have "mp_inv pend u s'"
    by (rule mp_inv_step_pc [OF inv(1)]) (use abort_start in auto)
  then show ?thesis using abort_start by (simp add: mp_flushed_def)
next
  case (abort_finish r)
  then show ?thesis using finishAbort_outcome [OF s3 inv] by blast
qed (use inv in simp_all)

lemma newMultipartWriter_inv:
  assumes "s3_contract api objs pend" "newMultipartWriter api key ct w = Inr (u, s0)"
  shows "mp_inv pend u s0 \<and> mp_flushed s0 \<and> objs (mp_world s0) = objs w"
proof -
  let ?ct = "if ct = '''' then None else Some ct"
  obtain r w1 where c: "api_CreateMultipartUpload api key ?ct w = (r, w1)"
    by (cases "api_CreateMultipartUpload api key ?ct w")
  then obtain up where "r = Inr up" using assms(2) by (cases r) (auto simp: newMultipartWriter_def)
  then show ?thesis
    using assms(2) c create_call [OF assms(1) c]
    by (auto simp: newMultipartWriter_def mp_inv_def mp_accounted_def mp_flushed_def)
qed

lemma mp_reachable_inv:
  assumes s3: "s3_contract api objs pend" and new: "newMultipartWriter api key ct w = Inr (u, s0)"
    and reach: "mp_reachable api key u s0 s"
  shows "mp_inv pend u s \<and> mp_flushed s"
  using reach
proof induction
  case reach_start
  show ?case using newMultipartWriter_inv [OF s3 new] by blast
next
  case (reach_step s l s')
  then show ?case using mp_step_inv [OF s3] by blast
qed

text \<open>A call never hangs: whatever the caller waits for, some step can be taken.\<close>

lemma mp_progress: "\<exists>l s'. mp_step api key u s l s'"
proof (cases "mp_inflight s = []")
  case False
  then show ?thesis using mp_step.upload_part [of 0 s] by blast
next
  case True
  show ?thesis
  proof (cases "mp_pc s")
    case PcIdle
    then show ?thesis using mp_step.write_start mp_step.write_closed by blast
  next
    case (PcWrite p)
    then show ?thesis
      using mp_step.write_failed [OF PcWrite] mp_step.write_part [OF PcWrite] mp_step.write_done [OF PcWrite]
      by (cases "mp_uploadErr s"; cases "length (mp_buf s) < MultipartWriterPartSize") (blast | force)+
  next
    case (PcSend num body after)
    have "length (mp_inflight s) < multipartUploadConcurrency" using True by (simp add: multipartUploadConcurrency_def)
    from mp_step.send_part [OF PcSend this] show ?thesis by blast
  next
    case PcComplete
    then show ?thesis
      using mp_step.complete_finish [OF PcComplete True] by (cases "finishComplete api key u s") blast
  next
    case PcAbort
    then show ?thesis using mp_step.abort_finish [OF PcAbort True] by (cases "finishAbort api key u s") blast
  qed
qed

text \<open>
  C26. The object a \<open>MultipartWriter\<close> commits is what was written: in every interleaving of the caller with the
  upload goroutines and for every choice of failing requests, the step in which \<open>Complete\<close> returns nil sets the object to
  exactly the concatenation of the writes that returned nil, in order; when it returns an error the objects
  are unchanged, unless the answer of the final request was lost; no other step changes an object, so
  nothing is ever published in part; and at most eight requests are in flight.
\<close>

theorem writer_commits_what_was_written:
  assumes s3: "s3_contract api objs pend"
    and new: "newMultipartWriter api key contentType w = Inr (u, s0)"
    and reach: "mp_reachable api key u s0 s"
    and step: "mp_step api key u s l s'"
  shows "(\<forall>r. l = RetComplete r \<longrightarrow> objs (mp_world s') = (objs (mp_world s))(key \<mapsto> mp_acked s) \<or>
            r \<noteq> None \<and> objs (mp_world s') = objs (mp_world s)) \<and>
    ((\<forall>r. l \<noteq> RetComplete r) \<longrightarrow> objs (mp_world s') = objs (mp_world s)) \<and>
    length (mp_inflight s) \<le> 8"
  using mp_step_inv [OF s3 step] mp_reachable_inv [OF s3 new reach]
  by (simp add: mp_inv_def multipartUploadConcurrency_def)


text \<open>A run: two writes that fit in one part, then \<open>Complete\<close>.\<close>

definition mp_demo :: "mem_world mp_writer" where
  "mp_demo =
     \<lparr>mp_buf = [], mp_partNum = 0, mp_inflight = [], mp_parts = [], mp_uploadErr = None, mp_finalized = False,
      mp_pc = PcIdle, mp_world = \<lparr>mw_objs = Map.empty, mw_pend = (\<lambda>_. Map.empty), mw_uploads = 1\<rparr>,
      mp_bodies = [], mp_acked = []\<rparr>"

lemma mp_demo_new: "newMultipartWriter mem_api ''k'' '''' \<lparr>mw_objs = Map.empty, mw_pend = (\<lambda>_. Map.empty), mw_uploads = 0\<rparr>
    = Inr (''0'', mp_demo)"
proof -
  have "show_nat 0 = ''0''" by code_simp
  then show ?thesis
    by (simp add: newMultipartWriter_def mem_api_def mem_create_def mp_demo_def ToString_def Let_def fun_upd_idem)
qed

definition mp_demo_uploaded :: "mem_world mp_writer" where
  "mp_demo_uploaded =
     mp_demo\<lparr>mp_partNum := 1, mp_pc := PcComplete, mp_bodies := [''abcd''], mp_acked := ''abcd'',
       mp_parts := [\<lparr>cp_ETag = Some ''abcd'', cp_PartNumber = Some 1\<rparr>],
       mp_world := \<lparr>mw_objs = Map.empty, mw_pend = (\<lambda>_. Map.empty)(''0'' := [1 \<mapsto> (Some ''abcd'', ''abcd'')]),
         mw_uploads = 1\<rparr>\<rparr>"

lemma mp_demo_run: "mp_reachable mem_api ''k'' ''0'' mp_demo mp_demo_uploaded"
proof -
  let ?step = "mp_step mem_api ''k'' ''0''"
  define s1 where "s1 = mp_demo\<lparr>mp_buf := ''ab'', mp_pc := PcWrite ''ab''\<rparr>"
  define s2 where "s2 = mp_demo\<lparr>mp_buf := ''ab'', mp_acked := ''ab''\<rparr>"
  define s3 where "s3 = mp_demo\<lparr>mp_buf := ''abcd'', mp_acked := ''ab'', mp_pc := PcWrite ''cd''\<rparr>"
  define s4 where "s4 = mp_demo\<lparr>mp_buf := ''abcd'', mp_acked := ''abcd''\<rparr>"
  define s5 where "s5 = mp_demo\<lparr>mp_partNum := 1, mp_acked := ''abcd'', mp_bodies := [''abcd''],
    mp_pc := PcSend 1 ''abcd'' PcComplete\<rparr>"
  define s6 where "s6 = mp_demo\<lparr>mp_partNum := 1, mp_acked := ''abcd'', mp_bodies := [''abcd''],
    mp_pc := PcComplete, mp_inflight := [(1, ''abcd'')]\<rparr>"
  have 1: "?step mp_demo (CallWrite ''ab'') s1"
    using mp_step.write_start [of mp_demo mem_api "''k''" "''0''" "''ab''"] by (simp add: mp_demo_def s1_def)
  have 2: "?step s1 (RetWrite None) s2"
    using mp_step.write_done [of s1 "''ab''" mem_api "''k''" "''0''"]
    by (simp add: mp_demo_def s1_def s2_def MultipartWriterPartSize_def)
  have 3: "?step s2 (CallWrite ''cd'') s3"
    using mp_step.write_start [of s2 mem_api "''k''" "''0''" "''cd''"] by (simp add: mp_demo_def s2_def s3_def)
  have 4: "?step s3 (RetWrite None) s4"
    using mp_step.write_done [of s3 "''cd''" mem_api "''k''" "''0''"]
    by (simp add: mp_demo_def s3_def s4_def MultipartWriterPartSize_def)
  have 5: "?step s4 CallComplete s5"
    using mp_step.complete_start [of s4 mem_api "''k''" "''0''"]
    by (simp add: mp_demo_def s4_def s5_def cut_part_def Let_def)
  have 6: "?step s5 Tau s6"
    using mp_step.send_part [of s5 1 "''abcd''" PcComplete mem_api "''k''" "''0''"]
    by (simp add: mp_demo_def s5_def s6_def multipartUploadConcurrency_def)
  have 7: "?step s6 Tau mp_demo_uploaded"
    using mp_step.upload_part [of 0 s6 mem_api "''k''" "''0''"]
    by (simp add: mp_demo_def s6_def mp_demo_uploaded_def writer_uploadPart_def mem_api_def mem_part_def)
  show ?thesis
    by (rule reach_step [OF reach_step [OF reach_step [OF reach_step [OF reach_step [OF reach_step
          [OF reach_step [OF reach_start 1] 2] 3] 4] 5] 6] 7])
qed

lemma mp_demo_finish:
  "\<exists>s'. mp_step mem_api ''k'' ''0'' mp_demo_uploaded (RetComplete None) s'"
proof -
  have "fst (finishComplete mem_api ''k'' ''0'' mp_demo_uploaded) = None"
    by (simp add: finishComplete_def mp_demo_uploaded_def mp_demo_def mem_api_def mem_complete_def
        valid_parts_def ToInt64_def)
  then have "finishComplete mem_api ''k'' ''0'' mp_demo_uploaded =
      (None, snd (finishComplete mem_api ''k'' ''0'' mp_demo_uploaded))" by (metis prod.collapse)
  from mp_step.complete_finish [OF _ _ this] show ?thesis by (auto simp: mp_demo_uploaded_def mp_demo_def)
qed

theorem writer_commits_what_was_written_witness:
  "\<exists>s'. mp_step mem_api ''k'' ''0'' mp_demo_uploaded (RetComplete None) s' \<and>
        mw_objs (mp_world s') ''k'' = Some ''abcd''"
proof -
  obtain s' where s': "mp_step mem_api ''k'' ''0'' mp_demo_uploaded (RetComplete None) s'"
    using mp_demo_finish by blast
  from writer_commits_what_was_written [OF mem_s3_contract mp_demo_new mp_demo_run s'] s'
  show ?thesis by (auto simp: mp_demo_uploaded_def)
qed

end
