(* ===== verification/BaseEncoding.thy ===== *)
theory BaseEncoding
  imports Prelude
begin

text \<open>
  Text forms of bytes that the code takes from Go's standard library: unpadded base32 and base64 (groups of 5 or 6
  bits written in an alphabet), signed decimal integers, and splitting at a separator.
\<close>

section \<open>Bits of bytes\<close>

definition byte_bits :: "char \<Rightarrow> bool list" where
  "byte_bits c = [digit7 c, digit6 c, digit5 c, digit4 c, digit3 c, digit2 c, digit1 c, digit0 c]"

fun bits_bytes :: "bool list \<Rightarrow> bytes" where
  "bits_bytes (b7 # b6 # b5 # b4 # b3 # b2 # b1 # b0 # bs) = Char b0 b1 b2 b3 b4 b5 b6 b7 # bits_bytes bs"
| "bits_bytes _ = []"

lemma bits_bytes_short: "length bs < 8 \<Longrightarrow> bits_bytes bs = []"
  by (induction bs rule: bits_bytes.induct) auto

lemma bits_bytes_inverse: "length r < 8 \<Longrightarrow> bits_bytes (concat (map byte_bits s) @ r) = s"
  by (induction s) (auto simp: byte_bits_def bits_bytes_short)

section \<open>Groups of bits\<close>

function group_bits :: "nat \<Rightarrow> bool list \<Rightarrow> bool list list" where
  "group_bits k bs =
     (if k = 0 \<or> bs = [] then []
      else (take k bs @ replicate (k - length bs) False) # group_bits k (drop k bs))"
  by pat_completeness auto
termination by (relation "measure (\<lambda>(k, bs). length bs)") auto

declare group_bits.simps [simp del]

lemma group_bits_length: "x \<in> set (group_bits k bs) \<Longrightarrow> length x = k"
proof (induction k bs rule: group_bits.induct)
  case (1 k bs)
  then show ?case by (subst (asm) group_bits.simps) (auto split: if_splits)
qed

lemma group_bits_concat:
  "0 < k \<Longrightarrow> \<exists>n<k. concat (group_bits k bs) = bs @ replicate n False"
proof (induction k bs rule: group_bits.induct)
  case (1 k bs)
  show ?case
  proof (cases "bs = []")
    case True
    then show ?thesis using 1(2) by (intro exI [of _ 0]) (simp add: group_bits.simps)
  next
    case False
    show ?thesis
    proof (cases "length bs \<le> k")
      case True
      then have "group_bits k (drop k bs) = []" by (simp add: group_bits.simps)
      then have "concat (group_bits k bs) = bs @ replicate (k - length bs) False"
        using False 1(2) True by (subst group_bits.simps) simp
      moreover have "k - length bs < k" using False 1(2) by (cases bs) auto
      ultimately show ?thesis by blast
    next
      case False
      with 1 \<open>bs \<noteq> []\<close> obtain n where "n < k" "concat (group_bits k (drop k bs)) = drop k bs @ replicate n False"
        by auto
      moreover have "concat (group_bits k bs) = take k bs @ concat (group_bits k (drop k bs))"
        using False \<open>bs \<noteq> []\<close> 1(2) by (subst group_bits.simps) simp
      ultimately show ?thesis by (metis append.assoc append_take_drop_id)
    qed
  qed
qed

definition bits_nat :: "bool list \<Rightarrow> nat" where
  "bits_nat bs = foldl (\<lambda>n b. 2 * n + of_bool b) 0 bs"

fun nat_bits :: "nat \<Rightarrow> nat \<Rightarrow> bool list" where
  "nat_bits 0 n = []"
| "nat_bits (Suc k) n = nat_bits k (n div 2) @ [odd n]"

lemma bits_nat_snoc: "bits_nat (bs @ [b]) = 2 * bits_nat bs + of_bool b"
  by (simp add: bits_nat_def)

lemma bits_nat_bound: "bits_nat bs < 2 ^ length bs"
  by (induction bs rule: rev_induct) (auto simp: bits_nat_snoc bits_nat_def)

lemma nat_bits_inverse: "nat_bits (length bs) (bits_nat bs) = bs"
  by (induction bs rule: rev_induct) (auto simp: bits_nat_snoc)

section \<open>Text in an alphabet\<close>

definition encode_in :: "string \<Rightarrow> nat \<Rightarrow> bytes \<Rightarrow> string" where
  "encode_in alphabet k s = map (\<lambda>g. alphabet ! bits_nat g) (group_bits k (concat (map byte_bits s)))"

fun index_of :: "char \<Rightarrow> string \<Rightarrow> nat option" where
  "index_of c [] = None"
| "index_of c (x # xs) = (if x = c then Some 0 else map_option Suc (index_of c xs))"

fun decode_bits :: "string \<Rightarrow> nat \<Rightarrow> string \<Rightarrow> bool list option" where
  "decode_bits alphabet k [] = Some []"
| "decode_bits alphabet k (c # cs) =
     (case index_of c alphabet of
        None \<Rightarrow> None
      | Some n \<Rightarrow> map_option (\<lambda>bs. nat_bits k n @ bs) (decode_bits alphabet k cs))"

definition decode_in :: "string \<Rightarrow> nat \<Rightarrow> string \<Rightarrow> bytes option" where
  "decode_in alphabet k t = map_option bits_bytes (decode_bits alphabet k t)"

lemma index_of_nth: "distinct xs \<Longrightarrow> i < length xs \<Longrightarrow> index_of (xs ! i) xs = Some i"
proof (induction xs arbitrary: i)
  case (Cons x xs)
  then show ?case by (cases i) auto
qed simp

lemma decode_bits_groups:
  assumes "distinct alphabet" "length alphabet = 2 ^ k" "\<forall>g\<in>set gs. length g = k"
  shows "decode_bits alphabet k (map (\<lambda>g. alphabet ! bits_nat g) gs) = Some (concat gs)"
  using assms(3)
proof (induction gs)
  case (Cons g gs)
  have "index_of (alphabet ! bits_nat g) alphabet = Some (bits_nat g)"
    using assms(1,2) Cons.prems bits_nat_bound [of g] by (intro index_of_nth) auto
  moreover have "nat_bits k (bits_nat g) = g" using Cons.prems nat_bits_inverse [of g] by simp
  ultimately show ?case using Cons by simp
qed simp

text \<open>What is encoded is decoded.\<close>

lemma decode_encode:
  assumes "distinct alphabet" "length alphabet = 2 ^ k" "0 < k" "k \<le> 8"
  shows "decode_in alphabet k (encode_in alphabet k s) = Some s"
proof -
  let ?gs = "group_bits k (concat (map byte_bits s))"
  obtain n where "n < k" "concat ?gs = concat (map byte_bits s) @ replicate n False"
    using group_bits_concat [OF assms(3)] by blast
  moreover from this assms(4) have "bits_bytes (concat (map byte_bits s) @ replicate n False) = s"
    by (intro bits_bytes_inverse) simp
  moreover have "decode_bits alphabet k (encode_in alphabet k s) = Some (concat ?gs)"
    unfolding encode_in_def using group_bits_length by (intro decode_bits_groups [OF assms(1,2)]) blast
  ultimately show ?thesis by (simp add: decode_in_def)
qed

lemma encode_in_inj:
  assumes "distinct alphabet" "length alphabet = 2 ^ k" "0 < k" "k \<le> 8"
  shows "encode_in alphabet k s = encode_in alphabet k t \<longleftrightarrow> s = t"
  using decode_encode [OF assms] by (metis option.inject)

lemma encode_in_alphabet:
  assumes "length alphabet = 2 ^ k"
  shows "set (encode_in alphabet k s) \<subseteq> set alphabet"
proof
  fix c assume "c \<in> set (encode_in alphabet k s)"
  then obtain g where g: "g \<in> set (group_bits k (concat (map byte_bits s)))" "c = alphabet ! bits_nat g"
    by (auto simp: encode_in_def)
  then have "bits_nat g < length alphabet" using bits_nat_bound [of g] group_bits_length [OF g(1)] assms by simp
  then show "c \<in> set alphabet" using g(2) by simp
qed

lemma encode_in_Nil: "encode_in alphabet k s = [] \<Longrightarrow> 0 < k \<Longrightarrow> s = []"
  by (cases s) (auto simp: encode_in_def group_bits.simps byte_bits_def)

section \<open>Splitting and joining\<close>

text \<open>\<open>strings.Split\<close> at one byte, and \<open>strings.Join\<close>.\<close>

fun split_on :: "char \<Rightarrow> string \<Rightarrow> string list" where
  "split_on c [] = [[]]"
| "split_on c (x # xs) =
     (if x = c then [] # split_on c xs
      else (case split_on c xs of [] \<Rightarrow> [[x]] | p # ps \<Rightarrow> (x # p) # ps))"

fun join_with :: "char \<Rightarrow> string list \<Rightarrow> string" where
  "join_with c [] = []"
| "join_with c [p] = p"
| "join_with c (p # q # ps) = p @ c # join_with c (q # ps)"

lemma split_on_not_Nil [simp]: "split_on c s \<noteq> []"
  by (cases s) (auto split: list.splits)

lemma split_on_clean: "c \<notin> set p \<Longrightarrow> split_on c p = [p]"
  by (induction p) auto

lemma split_on_append: "c \<notin> set p \<Longrightarrow> split_on c (p @ c # s) = p # split_on c s"
  by (induction p) auto

lemma split_join:
  "ps \<noteq> [] \<Longrightarrow> \<forall>p\<in>set ps. c \<notin> set p \<Longrightarrow> split_on c (join_with c ps) = ps"
  by (induction c ps rule: join_with.induct) (auto simp: split_on_clean split_on_append)

lemma join_split: "join_with c (split_on c s) = s"
proof (induction s)
  case (Cons x xs)
  then show ?case
    by (cases "split_on c xs"; cases "tl (split_on c xs)") (auto split: list.splits)
qed simp

text \<open>\<open>strings.Index\<close> of one byte, with the slices before and after it.\<close>

fun split_at_byte :: "char \<Rightarrow> string \<Rightarrow> (string \<times> string) option" where
  "split_at_byte c [] = None"
| "split_at_byte c (x # xs) =
     (if x = c then Some ([], xs) else map_option (\<lambda>(a, b). (x # a, b)) (split_at_byte c xs))"

lemma split_at_byte_Some: "split_at_byte c s = Some (a, b) \<longleftrightarrow> s = a @ c # b \<and> c \<notin> set a"
proof (induction s arbitrary: a)
  case (Cons x s)
  then show ?case by (cases a) auto
qed simp

section \<open>Decimal integers\<close>

text \<open>\<open>strconv.FormatInt(n, 10)\<close> and \<open>strconv.ParseInt(s, 10, 64)\<close>.\<close>

definition FormatInt :: "int \<Rightarrow> string" where
  "FormatInt n = (if n < 0 then CHR ''-'' # show_nat (nat (- n)) else show_nat (nat n))"

definition dec_digit :: "char \<Rightarrow> bool" where
  "dec_digit c = (CHR ''0'' \<le> c \<and> c \<le> CHR ''9'')"

definition digits_value :: "string \<Rightarrow> nat" where
  "digits_value s = foldl (\<lambda>n c. 10 * n + (of_char c - 48)) 0 s"

definition ParseInt64 :: "string \<Rightarrow> int option" where
  "ParseInt64 s =
     (let neg = (s \<noteq> [] \<and> hd s = CHR ''-'');
          body = (if s \<noteq> [] \<and> (hd s = CHR ''-'' \<or> hd s = CHR ''+'') then tl s else s)
      in if body = [] \<or> \<not> list_all dec_digit body then None
         else (let n = (if neg then - int (digits_value body) else int (digits_value body)) in
               if - (2 ^ 63) \<le> n \<and> n < 2 ^ 63 then Some n else None))"

lemma digit_char: "d < 10 \<Longrightarrow> dec_digit (char_of (48 + d :: nat)) \<and> of_char (char_of (48 + d :: nat)) - 48 = d"
  by (simp add: dec_digit_def less_eq_char_def)

lemma digits_value_snoc: "digits_value (s @ [c]) = 10 * digits_value s + (of_char c - 48)"
  by (simp add: digits_value_def)

lemma show_nat_digits: "show_nat n \<noteq> [] \<and> list_all dec_digit (show_nat n) \<and> digits_value (show_nat n) = n"
proof (induction n rule: show_nat.induct)
  case (1 n)
  show ?case
  proof (cases "n < 10")
    case True
    then show ?thesis using digit_char [OF True] by (simp add: show_nat.simps digits_value_def)
  next
    case False
    have d: "n mod 10 < 10" by simp
    have "show_nat n = show_nat (n div 10) @ [char_of (48 + n mod 10)]" using False by (simp add: show_nat.simps)
    moreover have "10 * (n div 10) + n mod 10 = n" by simp
    ultimately show ?thesis using 1 [OF False] digit_char [OF d] by (simp add: digits_value_snoc)
  qed
qed

lemma show_nat_set: "set (show_nat n) \<subseteq> {c. dec_digit c}"
  using show_nat_digits [of n] by (auto simp: list_all_iff)

lemma ParseInt64_FormatInt:
  assumes "- (2 ^ 63) \<le> n" "n < 2 ^ 63"
  shows "ParseInt64 (FormatInt n) = Some n"
proof (cases "n < 0")
  case True
  then show ?thesis
    using assms show_nat_digits [of "nat (- n)"] by (simp add: ParseInt64_def FormatInt_def Let_def)
next
  case False
  have ne: "show_nat (nat n) \<noteq> []" "list_all dec_digit (show_nat (nat n))" using show_nat_digits by blast+
  then have "dec_digit (hd (show_nat (nat n)))" by (cases "show_nat (nat n)") auto
  then have "hd (show_nat (nat n)) \<noteq> CHR ''-''" "hd (show_nat (nat n)) \<noteq> CHR ''+''"
    by (auto simp: dec_digit_def less_eq_char_def)
  then show ?thesis
    using False assms ne show_nat_digits [of "nat n"] by (simp add: ParseInt64_def FormatInt_def Let_def)
qed

lemma FormatInt_set: "c \<in> set (FormatInt n) \<Longrightarrow> dec_digit c \<or> c = CHR ''-''"
  using show_nat_set by (auto simp: FormatInt_def split: if_splits)

lemma FormatInt_inj: "FormatInt m = FormatInt n \<Longrightarrow> - (2 ^ 63) \<le> m \<Longrightarrow> m < 2 ^ 63 \<Longrightarrow> - (2 ^ 63) \<le> n \<Longrightarrow> n < 2 ^ 63 \<Longrightarrow> m = n"
  using ParseInt64_FormatInt by (metis option.inject)

end
