(* ===== verification/RangeReader.thy ===== *)
theory RangeReader
  imports ObjectStore BaseEncoding
begin

text \<open>
  Random access to an object (\<open>s3/readerat.go\<close>): a reader keeps one response body open and drains it as long as the
  reads are sequential; any other read opens a new one.  The contract of \<open>io.ReaderAt\<close> is the locale
  \<open>reader_at\<close>; what of it holds whatever the client reports is its parent \<open>reader_bytes\<close>.  This reader
  interprets the parent over any client, and the whole contract while no request reports \<open>io.EOF\<close>.
\<close>

section \<open>Object URLs\<close>

text \<open>\<open>ParseURL\<close>: the bucket and the key of \<open>s3://bucket/key\<close>.\<close>

definition ParseURL :: "string \<Rightarrow> go_error + string \<times> string" where
  "ParseURL u =
     (if take 5 u \<noteq> ''s3://'' then Inl (Sentinel ''not an s3:// URL'')
      else
        (case split_at_byte CHR ''/'' (drop 5 u) of
           None \<Rightarrow> Inl (Sentinel ''invalid s3:// URL'')
         | Some (bucket, key) \<Rightarrow>
             if bucket = [] \<or> key = [] then Inl (Sentinel ''invalid s3:// URL'') else Inr (bucket, key)))"

section \<open>The reader\<close>

record 'w reader =
  rd_body :: "s3body option"
  rd_pos :: int
  rd_world :: 'w

definition NewReaderAt :: "'w s3api \<Rightarrow> string \<Rightarrow> 'w \<Rightarrow> go_error + int \<times> 'w reader" where
  "NewReaderAt api key w =
     (case api_HeadObject api key w of
        (Inl e, w1) \<Rightarrow> Inl (WrapErr ''head'' [e])
      | (Inr head, w1) \<Rightarrow>
          (case ho_ContentLength head of
             None \<Rightarrow> Inl (Sentinel ''missing content-length'')
           | Some n \<Rightarrow> Inr (n, \<lparr>rd_body = None, rd_pos = 0, rd_world = w1\<rparr>)))"

definition closeBodyLocked :: "'w reader \<Rightarrow> 'w reader" where
  "closeBodyLocked r = r\<lparr>rd_body := None\<rparr>"

definition openLocked :: "'w s3api \<Rightarrow> string \<Rightarrow> int \<Rightarrow> 'w reader \<Rightarrow> (go_error + s3body) \<times> 'w reader" where
  "openLocked api key off r =
     (case api_GetObject api key off None (rd_world r) of
        (Inl e, w1) \<Rightarrow> (Inl (WrapErr ''get'' [e]), r\<lparr>rd_world := w1\<rparr>)
      | (Inr body, w1) \<Rightarrow> (Inr body, r\<lparr>rd_body := Some body, rd_pos := off, rd_world := w1\<rparr>))"

text \<open>Once a body is open.  A read that ends the object, or that finds the body truncated, closes it.\<close>

definition read_body :: "int \<Rightarrow> nat \<Rightarrow> int \<Rightarrow> s3body \<Rightarrow> 'w reader \<Rightarrow> (bytes \<times> go_error option) \<times> 'w reader" where
  "read_body sz n off body r =
     (let want = nat (min (int n) (sz - off));
          (got, err, body') = ReadFull want body;
          r1 = r\<lparr>rd_body := Some body', rd_pos := rd_pos r + int (length got)\<rparr>
      in if (case err of Some e \<Rightarrow> errors_Is e ioUnexpectedEOF | None \<Rightarrow> rd_pos r1 \<ge> sz)
         then ((got, if rd_pos r1 \<ge> sz then Some ioEOF else err), closeBodyLocked r1)
         else ((got, err), r1))"

definition ReaderAt_ReadAt ::
  "'w s3api \<Rightarrow> string \<Rightarrow> int \<Rightarrow> int \<Rightarrow> nat \<Rightarrow> 'w reader \<Rightarrow> (bytes \<times> go_error option) \<times> 'w reader" where
  "ReaderAt_ReadAt api key sz off n r =
     (if off < 0 then (([], Some (Sentinel ''negative offset'')), r)
      else if off \<ge> sz then (([], Some ioEOF), r)
      else
        (case (case rd_body r of Some b \<Rightarrow> if off = rd_pos r then Some b else None | None \<Rightarrow> None) of
           Some body \<Rightarrow> read_body sz n off body r
         | None \<Rightarrow>
             (case openLocked api key off (closeBodyLocked r) of
                (Inl e, r1) \<Rightarrow> (([], Some e), r1)
              | (Inr body, r1) \<Rightarrow> read_body sz n off body r1)))"

section \<open>The contract of \<open>io.ReaderAt\<close>\<close>

text \<open>
  What a client relies on over an object with the bytes \<open>content\<close>: a read returns a prefix of what is there, and no
  error only for a full read; and an error that is \<open>io.EOF\<close> only at the end of the object.
\<close>

locale reader_bytes =
  fixes read_at :: "int \<Rightarrow> nat \<Rightarrow> 's \<Rightarrow> (bytes \<times> go_error option) \<times> 's"
    and ok :: "'s \<Rightarrow> bool"
    and content :: bytes
  assumes read_ok: "ok s \<Longrightarrow> read_at off n s = ((got, err), s') \<Longrightarrow> ok s'"
    and read_prefix: "ok s \<Longrightarrow> 0 \<le> off \<Longrightarrow> read_at off n s = ((got, err), s') \<Longrightarrow>
      length got \<le> n \<and> got = take (length got) (drop (nat off) content)"
    and read_full: "ok s \<Longrightarrow> 0 \<le> off \<Longrightarrow> read_at off n s = ((got, None), s') \<Longrightarrow> length got = n"

locale reader_at = reader_bytes read_at ok content
  for read_at :: "int \<Rightarrow> nat \<Rightarrow> 's \<Rightarrow> (bytes \<times> go_error option) \<times> 's" and ok and content +
  assumes read_eof: "ok s \<Longrightarrow> 0 \<le> off \<Longrightarrow> read_at off n s = ((got, Some e), s') \<Longrightarrow> errors_Is e ioEOF \<Longrightarrow>
      length content \<le> nat off + length got"

text \<open>The worlds further requests of objects lead to.\<close>

inductive later :: "'w s3api \<Rightarrow> 'w \<Rightarrow> 'w \<Rightarrow> bool" for api w where
  later_now: "later api w w"
| later_get: "later api w u \<Longrightarrow> api_GetObject api k from to u = (r, u') \<Longrightarrow> later api w u'"

lemma later_first:
  assumes "api_GetObject api k from to w = (r, w1)" and "later api w1 u"
  shows "later api w u"
  using assms(2)
proof induction
  case later_now
  then show ?case by (rule later_get [OF later.later_now assms(1)])
next
  case (later_get u k' from' to' r' u')
  then show ?case by (blast intro: later.later_get)
qed

text \<open>From this world on no error of a request, or of a body it opens, is \<open>io.EOF\<close> under \<open>errors.Is\<close>.\<close>

definition not_eof :: "go_error + s3body \<Rightarrow> bool" where
  "not_eof r =
     (case r of Inl e \<Rightarrow> \<not> errors_Is e ioEOF
      | Inr b \<Rightarrow> (case bd_Err b of Some e \<Rightarrow> \<not> errors_Is e ioEOF | None \<Rightarrow> True))"

definition eof_free :: "'w s3api \<Rightarrow> 'w \<Rightarrow> bool" where
  "eof_free api w = (\<forall>u k from to r u'. later api w u \<longrightarrow> api_GetObject api k from to u = (r, u') \<longrightarrow> not_eof r)"

lemma eof_free_next:
  "eof_free api w \<Longrightarrow> api_GetObject api k from to w = (r, w1) \<Longrightarrow> not_eof r \<and> eof_free api w1"
  unfolding eof_free_def by (blast intro: later_now later_first)

text \<open>The open body holds what follows the position, and if it can end early it ends with an error.\<close>

definition reader_inv ::
  "'w s3api \<Rightarrow> ('w \<Rightarrow> string \<rightharpoonup> bytes) \<Rightarrow> ('w \<Rightarrow> string \<Rightarrow> parts_map) \<Rightarrow> string \<Rightarrow> bytes \<Rightarrow> 'w reader \<Rightarrow> bool" where
  "reader_inv api objs pend key content r =
     (s3_contract api objs pend \<and> objs (rd_world r) key = Some content \<and>
      (case rd_body r of
         None \<Rightarrow> True
       | Some b \<Rightarrow>
           0 \<le> rd_pos r \<and>
           (let left = drop (nat (rd_pos r)) content in
            case bd_Err b of
              None \<Rightarrow> bd_Data b = left
            | Some e \<Rightarrow> bd_Data b = take (length (bd_Data b)) left)))"

text \<open>Neither the open body nor a later request ends in \<open>io.EOF\<close>.\<close>

definition clean_body :: "'w reader \<Rightarrow> bool" where
  "clean_body r = (case rd_body r of None \<Rightarrow> True | Some b \<Rightarrow> not_eof (Inr b))"

definition reader_calm :: "'w s3api \<Rightarrow> 'w reader \<Rightarrow> bool" where
  "reader_calm api r = (eof_free api (rd_world r) \<and> clean_body r)"

section \<open>The reader keeps the contract\<close>

lemma take_own_length: "x = take k y \<Longrightarrow> x = take (length x) y"
  by (simp add: min_def)

lemma read_body_correct:
  assumes inv: "reader_inv api objs pend key content r" and body: "rd_body r = Some body" "rd_pos r = off"
    and off: "0 \<le> off" "off < int (length content)"
    and run: "read_body (int (length content)) n off body r = ((got, err), r')"
  shows "reader_inv api objs pend key content r' \<and> length got \<le> n \<and>
    got = take (length got) (drop (nat off) content) \<and> (err = None \<longrightarrow> length got = n) \<and> rd_world r' = rd_world r \<and>
    (clean_body r \<longrightarrow> clean_body r' \<and>
      (\<forall>e. err = Some e \<longrightarrow> errors_Is e ioEOF \<longrightarrow> length content \<le> nat off + length got))"
proof -
  let ?sz = "int (length content)" and ?left = "drop (nat off) content"
  define want where "want = nat (min (int n) (?sz - off))"
  have want: "want \<le> n" "want \<le> length content - nat off"
    and whole: "want = n \<or> want = length content - nat off"
    using off by (auto simp: want_def)
  define data where "data = bd_Data body"
  have data: "data = take (length data) ?left"
    and cleanly: "bd_Err body = None \<Longrightarrow> data = ?left"
    using inv body by (auto simp: reader_inv_def data_def Let_def split: option.splits)
  have dirty: "\<not> errors_Is e ioEOF" if "clean_body r" "bd_Err body = Some e" for e
    using that body by (simp add: clean_body_def not_eof_def)
  define g where "g = take want data"
  have g_prefix: "g = take (length g) ?left"
    using data by (metis g_def length_take min.commute take_take)
  obtain er body' where rf: "ReadFull want body = (g, er, body')"
    "body' = body\<lparr>bd_Data := drop want data\<rparr>"
    "er = (if length g = want then None else Some (case bd_Err body of Some e \<Rightarrow> e
             | None \<Rightarrow> if g = [] then ioEOF else ioUnexpectedEOF))"
    by (rule that [OF _ refl refl]) (simp add: ReadFull_def g_def data_def Let_def)
  have full: "length g = want" if "bd_Err body = None"
    using cleanly [OF that] want(2) by (simp add: g_def)
  have er_some: "er = Some e \<Longrightarrow> bd_Err body = Some e \<and> length g < want" for e
  proof -
    assume e: "er = Some e"
    then have ne: "length g \<noteq> want" using rf(3) by auto
    moreover have "length g \<le> want" by (simp add: g_def)
    ultimately show ?thesis using e full rf(3) by (cases "bd_Err body") auto
  qed
  have pos: "nat (off + int (length g)) = nat off + length g" using off(1) by simp
  let ?r1 = "r\<lparr>rd_body := Some body', rd_pos := off + int (length g)\<rparr>"
  have inv1: "reader_inv api objs pend key content ?r1"
  proof (cases "bd_Err body")
    case None
    then have "drop want data = drop (nat off + length g) content"
      using full cleanly by (simp add: add.commute)
    then show ?thesis using inv None off(1) rf(2) pos by (simp add: reader_inv_def)
  next
    case (Some e)
    have "drop want data = take (length (drop want data)) (drop (nat off + length g) content)"
    proof (cases "length g = want")
      case True
      have "drop want data = drop want (take (length data) ?left)" using data by simp
      then have "drop want data = take (length data - want) (drop (nat off + length g) content)"
        by (simp add: drop_take True add.commute)
      then show ?thesis by (rule take_own_length)
    next
      case False
      then have "length data \<le> want" by (auto simp: g_def)
      then show ?thesis by simp
    qed
    then obtain d where d: "d = take (length d) (drop (nat off + length g) content)" "body' = body\<lparr>bd_Data := d\<rparr>"
      using rf(2) by blast
    have "0 \<le> off + int (length g)" using off(1) by simp
    with d inv Some show ?thesis unfolding reader_inv_def by (simp add: pos)
  qed
  then have inv2: "reader_inv api objs pend key content (closeBodyLocked ?r1)"
    by (simp add: reader_inv_def closeBodyLocked_def)
  have out: "got = g \<and> (r' = ?r1 \<or> r' = closeBodyLocked ?r1) \<and>
      err = (if (case er of Some e \<Rightarrow> errors_Is e ioUnexpectedEOF | None \<Rightarrow> off + int (length g) \<ge> ?sz)
             then (if off + int (length g) \<ge> ?sz then Some ioEOF else er) else er)"
    using run rf(1) body(2) by (auto simp: read_body_def Let_def want_def split: if_splits option.splits)
  have "length g \<le> n" using want(1) by (simp add: g_def)
  moreover have "length g = n" if "err = None"
  proof -
    have "er = None" "\<not> off + int (length g) \<ge> ?sz" using out that by (auto split: if_splits option.splits)
    then have "length g = want" "want \<noteq> length content - nat off"
      using rf(3) off by (auto split: if_splits)
    then show ?thesis using whole by simp
  qed
  moreover have "length content \<le> nat off + length g" if "clean_body r" "err = Some e" "errors_Is e ioEOF" for e
  proof (rule ccontr)
    assume "\<not> length content \<le> nat off + length g"
    then have "\<not> off + int (length g) \<ge> ?sz" using off(1) by linarith
    then have "er = Some e" using out that(2) by (auto split: if_splits)
    with er_some dirty that(1,3) show False by blast
  qed
  moreover have "clean_body r \<longrightarrow> clean_body r'"
    using out body rf(2) by (auto simp: clean_body_def not_eof_def closeBodyLocked_def)
  moreover have "rd_world r' = rd_world r" using out by (auto simp: closeBodyLocked_def)
  moreover have "reader_inv api objs pend key content r'" using out inv1 inv2 by blast
  moreover have "got = take (length got) ?left" unfolding conjunct1 [OF out] by (rule g_prefix)
  ultimately show ?thesis unfolding conjunct1 [OF out] by blast
qed

lemma ReaderAt_correct:
  assumes inv: "reader_inv api objs pend key content r"
    and run: "ReaderAt_ReadAt api key (int (length content)) off n r = ((got, err), r')"
  shows "reader_inv api objs pend key content r' \<and> (reader_calm api r \<longrightarrow> reader_calm api r')"
    and "0 \<le> off \<Longrightarrow> length got \<le> n \<and> got = take (length got) (drop (nat off) content) \<and>
      (err = None \<longrightarrow> length got = n) \<and>
      (reader_calm api r \<longrightarrow> (\<forall>e. err = Some e \<longrightarrow> errors_Is e ioEOF \<longrightarrow> length content \<le> nat off + length got))"
proof -
  let ?good = "\<lambda>got err r'. reader_inv api objs pend key content r' \<and> length got \<le> n \<and>
    got = take (length got) (drop (nat off) content) \<and> (err = None \<longrightarrow> length got = n) \<and>
    (reader_calm api r \<longrightarrow> reader_calm api r' \<and>
      (\<forall>e. err = Some e \<longrightarrow> errors_Is e ioEOF \<longrightarrow> length content \<le> nat off + length got))"
  have "off < 0 \<and> r' = r \<or> ?good got err r'"
  proof (cases "off < 0 \<or> off \<ge> int (length content)")
    case True
    then show ?thesis using run inv by (auto simp: ReaderAt_ReadAt_def split: if_splits)
  next
    case False
    then have off: "0 \<le> off" "off < int (length content)" by auto
    show ?thesis
    proof (cases "\<exists>b. rd_body r = Some b \<and> off = rd_pos r")
      case True
      then obtain b where b: "rd_body r = Some b" "off = rd_pos r" by blast
      then have "read_body (int (length content)) n off b r = ((got, err), r')"
        using run off by (simp add: ReaderAt_ReadAt_def)
      from read_body_correct [OF inv b(1) b(2) [symmetric] off this] show ?thesis by (simp add: reader_calm_def)
    next
      case False
      then have no: "(case rd_body r of Some b \<Rightarrow> if off = rd_pos r then Some b else None | None \<Rightarrow> None) = None"
        by (auto split: option.splits)
      obtain g w1 where get: "api_GetObject api key off None (rd_world r) = (g, w1)"
        by (cases "api_GetObject api key off None (rd_world r)")
      have s3: "s3_contract api objs pend" and obj: "objs (rd_world r) key = Some content"
        using inv by (simp_all add: reader_inv_def)
      have obj1: "objs w1 key = Some content" using get_call [OF s3 get] obj by simp
      have calm: "not_eof g \<and> eof_free api w1" if "reader_calm api r"
        using that eof_free_next [OF _ get] by (simp add: reader_calm_def)
      show ?thesis
      proof (cases g)
        case (Inl e)
        have "\<not> errors_Is (WrapErr ''get'' [e]) ioEOF" if "reader_calm api r"
          using calm [OF that] Inl by (simp add: errors_Is_def not_eof_def)
        then show ?thesis
          using run off no get Inl s3 calm obj1
          by (auto simp: ReaderAt_ReadAt_def openLocked_def closeBodyLocked_def reader_inv_def reader_calm_def clean_body_def)
      next
        case (Inr b)
        let ?r1 = "r\<lparr>rd_body := Some b, rd_pos := off, rd_world := w1\<rparr>"
        have sent: "slice content off (int (length content)) = drop (nat off) content"
          using off by (simp add: slice_def)
        have inv1: "reader_inv api objs pend key content ?r1"
          using s3 obj1 off get_data [OF s3 get [unfolded Inr] obj off] sent
          by (auto simp: reader_inv_def Let_def split: option.splits)
        have "read_body (int (length content)) n off b ?r1 = ((got, err), r')"
          using run off no get Inr by (simp add: ReaderAt_ReadAt_def openLocked_def closeBodyLocked_def)
        from read_body_correct [OF inv1 _ _ off this] show ?thesis
          using calm Inr by (simp add: reader_calm_def clean_body_def)
      qed
    qed
  qed
  then show "reader_inv api objs pend key content r' \<and> (reader_calm api r \<longrightarrow> reader_calm api r')"
    and "0 \<le> off \<Longrightarrow> length got \<le> n \<and> got = take (length got) (drop (nat off) content) \<and>
      (err = None \<longrightarrow> length got = n) \<and>
      (reader_calm api r \<longrightarrow> (\<forall>e. err = Some e \<longrightarrow> errors_Is e ioEOF \<longrightarrow> length content \<le> nat off + length got))"
    using inv by auto
qed

lemmas ReaderAt_bytes = ReaderAt_correct(2) [THEN conjunct1] ReaderAt_correct(2) [THEN conjunct2, THEN conjunct1]
  ReaderAt_correct(2) [THEN conjunct2, THEN conjunct2, THEN conjunct1, THEN mp]

interpretation s3b: reader_bytes "ReaderAt_ReadAt api key (int (length content))" "reader_inv api objs pend key content" content
  for api :: "'w s3api" and objs pend key content
  by unfold_locales (use ReaderAt_correct(1) ReaderAt_bytes in \<open>meson\<close>)+

interpretation s3r: reader_at "ReaderAt_ReadAt api key (int (length content))"
  "\<lambda>r. reader_inv api objs pend key content r \<and> reader_calm api r" content
  for api :: "'w s3api" and objs pend key content
proof unfold_locales
  fix r :: "'w reader" and off n got err r'
  assume r: "reader_inv api objs pend key content r \<and> reader_calm api r"
    and run: "ReaderAt_ReadAt api key (int (length content)) off n r = ((got, err), r')"
  note inv = conjunct1 [OF r] and calm = conjunct2 [OF r]
  show "reader_inv api objs pend key content r' \<and> reader_calm api r'"
    using ReaderAt_correct(1) [OF inv run] calm by blast
  show "length got \<le> n \<and> got = take (length got) (drop (nat off) content)" if "0 \<le> off"
    using ReaderAt_bytes(1,2) [OF inv run that] by blast
next
  fix r :: "'w reader" and off n got r'
  assume r: "reader_inv api objs pend key content r \<and> reader_calm api r" "0 \<le> off"
    and run: "ReaderAt_ReadAt api key (int (length content)) off n r = ((got, None), r')"
  show "length got = n" by (rule ReaderAt_bytes(3) [OF conjunct1 [OF r(1)] run r(2) refl])
next
  fix r :: "'w reader" and off n got e r'
  assume r: "reader_inv api objs pend key content r \<and> reader_calm api r" "0 \<le> off" "errors_Is e ioEOF"
    and run: "ReaderAt_ReadAt api key (int (length content)) off n r = ((got, Some e), r')"
  show "length content \<le> nat off + length got"
    using ReaderAt_correct(2) [OF conjunct1 [OF r(1)] run r(2)] r by blast
qed

section \<open>Object URLs are read back\<close>

text \<open>A URL parses exactly when it has the form, and then into its parts.\<close>

lemma ParseURL_iff:
  "ParseURL u = Inr (bucket, key) \<longleftrightarrow>
     u = ''s3://'' @ bucket @ ''/'' @ key \<and> CHR ''/'' \<notin> set bucket \<and> bucket \<noteq> [] \<and> key \<noteq> []"
proof (cases "take 5 u = ''s3://''")
  case True
  then obtain rest where u: "u = ''s3://'' @ rest" by (metis append_take_drop_id)
  have "ParseURL u = (case split_at_byte CHR ''/'' rest of
      None \<Rightarrow> Inl (Sentinel ''invalid s3:// URL'')
    | Some (b, k) \<Rightarrow> if b = [] \<or> k = [] then Inl (Sentinel ''invalid s3:// URL'') else Inr (b, k))"
    unfolding u by (simp add: ParseURL_def)
  then show ?thesis
  proof (cases "split_at_byte CHR ''/'' rest")
    case None
    then have "\<not> (rest = bucket @ CHR ''/'' # key \<and> CHR ''/'' \<notin> set bucket)"
      by (metis split_at_byte_Some option.distinct(1))
    then show ?thesis using None \<open>ParseURL u = _\<close> unfolding u by auto
  next
    case (Some bk)
    obtain b k where bk: "bk = (b, k)" by (cases bk)
    have "rest = bucket @ CHR ''/'' # key \<and> CHR ''/'' \<notin> set bucket \<longleftrightarrow> b = bucket \<and> k = key"
      using Some bk split_at_byte_Some [of "CHR ''/''" rest bucket key] by auto
    then show ?thesis using Some bk \<open>ParseURL u = _\<close> unfolding u by auto
  qed
next
  case False
  then show ?thesis by (auto simp: ParseURL_def)
qed

end
