(* ===== verification/BlockCache.thy ===== *)
theory BlockCache
  imports RangeReader
begin

text \<open>
  The cache of blocks in front of a random-access reader (\<open>s3/blockcache.go\<close>).  The list of least-recent use and the
  map of blocks of the source hold the same entries and are one association list, most recent first.  All
  calls hold one mutex.  The loops of the source end only if the backend keeps the contract of
  \<open>io.ReaderAt\<close>, so they are \<open>partial_function\<close>s and a call that never returns is \<open>None\<close>.  What a call that
  returns gives is proved in the locale \<open>reader_bytes\<close>, that calls return in \<open>reader_at\<close>; both hold of the
  S3 reader by its interpretations.
\<close>

section \<open>The cache\<close>

definition DefaultCacheBlockSize :: int where "DefaultCacheBlockSize = 16 * 1024 * 1024"
definition DefaultCacheBlocks :: int where "DefaultCacheBlocks = 10"

record CacheStats =
  cs_Reads :: int
  cs_BytesRequested :: int
  cs_BlockTouches :: int
  cs_Hits :: int
  cs_Misses :: int
  cs_ColdMisses :: int
  cs_Redownloads :: int
  cs_Evictions :: int
  cs_BackendReads :: int
  cs_BackendBytes :: int

record 's CachingReaderAt =
  cr_backend :: 's
  cr_size :: int
  cr_blockSize :: int
  cr_maxBlocks :: int
  cr_blocks :: "(int \<times> bytes) list"
  cr_everFetched :: "int set"
  cr_stats :: CacheStats

type_synonym 's read_fn = "int \<Rightarrow> nat \<Rightarrow> 's \<Rightarrow> (bytes \<times> go_error option) \<times> 's"

definition NewCachingReaderAt :: "'s \<Rightarrow> int \<Rightarrow> int \<Rightarrow> int \<Rightarrow> go_error + 's CachingReaderAt" where
  "NewCachingReaderAt backend sz blockSize maxBlocks =
     (if blockSize \<le> 0 then Inl (Sentinel ''blockSize must be positive'')
      else if maxBlocks \<le> 0 then Inl (Sentinel ''maxBlocks must be positive'')
      else Inr \<lparr>cr_backend = backend, cr_size = sz, cr_blockSize = blockSize, cr_maxBlocks = maxBlocks,
                cr_blocks = [], cr_everFetched = {},
                cr_stats = \<lparr>cs_Reads = 0, cs_BytesRequested = 0, cs_BlockTouches = 0, cs_Hits = 0, cs_Misses = 0,
                  cs_ColdMisses = 0, cs_Redownloads = 0, cs_Evictions = 0, cs_BackendReads = 0, cs_BackendBytes = 0\<rparr>\<rparr>)"

text \<open>\<open>readAtFull\<close> with the bytes read so far.\<close>

partial_function (option) readAtFull ::
  "'s read_fn \<Rightarrow> nat \<Rightarrow> int \<Rightarrow> bytes \<Rightarrow> 's \<Rightarrow> ((bytes \<times> go_error option) \<times> 's) option" where
  "readAtFull rd n off got s =
     (if length got < n then
        (let ((b, err), s1) = rd (off + int (length got)) (n - length got) s in
         case err of
           Some e \<Rightarrow> Some ((got @ b, Some e), s1)
         | None \<Rightarrow> readAtFull rd n off (got @ b) s1)
      else Some ((got, None), s))"

declare readAtFull.simps [code]

definition count_stat :: "(CacheStats \<Rightarrow> CacheStats) \<Rightarrow> 's CachingReaderAt \<Rightarrow> 's CachingReaderAt" where
  "count_stat f c = c\<lparr>cr_stats := f (cr_stats c)\<rparr>"

text \<open>A block already fetched moves to the front; otherwise it is fetched and the last one is dropped.\<close>

definition cache_hit :: "int \<Rightarrow> bytes \<Rightarrow> 's CachingReaderAt \<Rightarrow> 's CachingReaderAt" where
  "cache_hit idx data c =
     count_stat (\<lambda>t. t\<lparr>cs_Hits := cs_Hits t + 1\<rparr>)
       (c\<lparr>cr_blocks := (idx, data) # filter (\<lambda>(i, d). i \<noteq> idx) (cr_blocks c)\<rparr>)"

definition cache_miss :: "int \<Rightarrow> 's CachingReaderAt \<Rightarrow> 's CachingReaderAt" where
  "cache_miss idx c =
     (let c1 = count_stat (\<lambda>t. t\<lparr>cs_Misses := cs_Misses t + 1\<rparr>) c in
      if idx \<in> cr_everFetched c1 then count_stat (\<lambda>t. t\<lparr>cs_Redownloads := cs_Redownloads t + 1\<rparr>) c1
      else count_stat (\<lambda>t. t\<lparr>cs_ColdMisses := cs_ColdMisses t + 1\<rparr>)
             (c1\<lparr>cr_everFetched := insert idx (cr_everFetched c1)\<rparr>))"

definition push_block :: "int \<Rightarrow> bytes \<Rightarrow> 's CachingReaderAt \<Rightarrow> 's CachingReaderAt" where
  "push_block idx data c =
     (let blocks = (idx, data) # cr_blocks c in
      if int (length blocks) > cr_maxBlocks c
      then count_stat (\<lambda>t. t\<lparr>cs_Evictions := cs_Evictions t + 1\<rparr>) (c\<lparr>cr_blocks := butlast blocks\<rparr>)
      else c\<lparr>cr_blocks := blocks\<rparr>)"

definition block_len :: "int \<Rightarrow> 's CachingReaderAt \<Rightarrow> int" where
  "block_len idx c =
     (let start = idx * cr_blockSize c in
      if start + cr_blockSize c > cr_size c then cr_size c - start else cr_blockSize c)"

definition getBlock :: "'s read_fn \<Rightarrow> int \<Rightarrow> 's CachingReaderAt \<Rightarrow> ((go_error + bytes) \<times> 's CachingReaderAt) option" where
  "getBlock rd idx c0 =
     (let c = count_stat (\<lambda>t. t\<lparr>cs_BlockTouches := cs_BlockTouches t + 1\<rparr>) c0 in
      case map_of (cr_blocks c) idx of
        Some data \<Rightarrow> Some (Inr data, cache_hit idx data c)
      | None \<Rightarrow>
          (let c1 = cache_miss idx c;
               start = idx * cr_blockSize c
           in case readAtFull rd (nat (block_len idx c)) start [] (cr_backend c1) of
                None \<Rightarrow> None
              | Some ((got, err), s) \<Rightarrow>
                  (let c2 = count_stat (\<lambda>t. t\<lparr>cs_BackendReads := cs_BackendReads t + 1,
                              cs_BackendBytes := cs_BackendBytes t + int (length got)\<rparr>) (c1\<lparr>cr_backend := s\<rparr>)
                   in case err of
                        Some e \<Rightarrow> if errors_Is e ioEOF then Some (Inr got, push_block idx got c2)
                                  else Some (Inl (WrapErr ''cache backend read block'' [e]), c2)
                      | None \<Rightarrow> Some (Inr got, push_block idx got c2))))"

text \<open>The loop of \<open>ReadAt\<close>.  Slicing a block past its length is a run-time panic.\<close>

datatype read_outcome = Returned bytes "go_error option" | Panicked

partial_function (option) fill_read ::
  "'s read_fn \<Rightarrow> nat \<Rightarrow> int \<Rightarrow> bytes \<Rightarrow> 's CachingReaderAt \<Rightarrow> (read_outcome \<times> 's CachingReaderAt) option" where
  "fill_read rd want off copied c =
     (if length copied < want then
        (let readOff = off + int (length copied); idx = readOff div cr_blockSize c in
         case getBlock rd idx c of
           None \<Rightarrow> None
         | Some (r, c1) \<Rightarrow>
             (case r of
                Inl e \<Rightarrow> Some (Returned copied (Some e), c1)
              | Inr block \<Rightarrow>
                  (let within = nat (readOff - idx * cr_blockSize c) in
                   if within > length block then Some (Panicked, c1)
                   else fill_read rd want off (copied @ take (want - length copied) (drop within block)) c1)))
      else Some (Returned copied None, c))"

declare fill_read.simps [code]

definition CachingReaderAt_ReadAt ::
  "'s read_fn \<Rightarrow> int \<Rightarrow> nat \<Rightarrow> 's CachingReaderAt \<Rightarrow> (read_outcome \<times> 's CachingReaderAt) option" where
  "CachingReaderAt_ReadAt rd off n c =
     (if off < 0 then Some (Returned [] (Some (Sentinel ''negative offset'')), c)
      else if off \<ge> cr_size c then Some (Returned [] (Some ioEOF), c)
      else
        (let want = (if off + int n > cr_size c then nat (cr_size c - off) else n);
             c1 = count_stat (\<lambda>t. t\<lparr>cs_Reads := cs_Reads t + 1,
                    cs_BytesRequested := cs_BytesRequested t + int want\<rparr>) c
         in case fill_read rd want off [] c1 of
              Some (Returned copied None, c2) \<Rightarrow>
                Some (Returned copied (if length copied < n then Some ioEOF else None), c2)
            | x \<Rightarrow> x))"


section \<open>The cache holds blocks of the object\<close>

definition block_of :: "bytes \<Rightarrow> int \<Rightarrow> int \<Rightarrow> bytes" where
  "block_of content bsz idx = slice content (idx * bsz) (min ((idx + 1) * bsz) (int (length content)))"

definition stats_add_up :: "'s CachingReaderAt \<Rightarrow> bool" where
  "stats_add_up c =
     (let t = cr_stats c in
      cs_BlockTouches t = cs_Hits t + cs_Misses t \<and> cs_Misses t = cs_ColdMisses t + cs_Redownloads t \<and>
      cs_BackendReads t = cs_Misses t \<and> cs_ColdMisses t = int (card (cr_everFetched c)) \<and>
      finite (cr_everFetched c))"

text \<open>A cache over a backend that is \<open>ok\<close>, whose blocks (of a block size, by index) satisfy \<open>B\<close>.\<close>

definition cache_wf :: "('s \<Rightarrow> bool) \<Rightarrow> (int \<Rightarrow> int \<Rightarrow> bytes \<Rightarrow> bool) \<Rightarrow> int \<Rightarrow> int \<Rightarrow> 's CachingReaderAt \<Rightarrow> bool" where
  "cache_wf ok B sz maxb c =
     (ok (cr_backend c) \<and> cr_size c = sz \<and> 0 < cr_blockSize c \<and> cr_maxBlocks c = maxb \<and> 0 < maxb \<and>
      int (length (cr_blocks c)) \<le> maxb \<and> distinct (map fst (cr_blocks c)) \<and>
      (\<forall>(i, d)\<in>set (cr_blocks c). B (cr_blockSize c) i d) \<and>
      stats_add_up c)"

text \<open>Whole blocks of the object, and the first bytes of blocks.\<close>

abbreviation cache_inv :: "('s \<Rightarrow> bool) \<Rightarrow> bytes \<Rightarrow> int \<Rightarrow> 's CachingReaderAt \<Rightarrow> bool" where
  "cache_inv ok content \<equiv> cache_wf ok (\<lambda>bsz i d. d = block_of content bsz i) (int (length content))"

abbreviation cache_safe :: "('s \<Rightarrow> bool) \<Rightarrow> bytes \<Rightarrow> int \<Rightarrow> 's CachingReaderAt \<Rightarrow> bool" where
  "cache_safe ok content \<equiv> cache_wf ok (\<lambda>bsz i d. d = take (length d) (block_of content bsz i)) (int (length content))"

lemma count_stat_keeps [simp]:
  "cr_backend (count_stat f c) = cr_backend c" "cr_size (count_stat f c) = cr_size c"
  "cr_blockSize (count_stat f c) = cr_blockSize c" "cr_maxBlocks (count_stat f c) = cr_maxBlocks c"
  "cr_blocks (count_stat f c) = cr_blocks c" "cr_everFetched (count_stat f c) = cr_everFetched c"
  "cr_stats (count_stat f c) = f (cr_stats c)"
  by (simp_all add: count_stat_def)

lemma cache_miss_keeps [simp]:
  "cr_backend (cache_miss i c) = cr_backend c" "cr_size (cache_miss i c) = cr_size c"
  "cr_blockSize (cache_miss i c) = cr_blockSize c" "cr_maxBlocks (cache_miss i c) = cr_maxBlocks c"
  "cr_blocks (cache_miss i c) = cr_blocks c"
  by (simp_all add: cache_miss_def Let_def)

lemma push_block_keeps [simp]:
  "cr_backend (push_block i d c) = cr_backend c" "cr_size (push_block i d c) = cr_size c"
  "cr_blockSize (push_block i d c) = cr_blockSize c" "cr_maxBlocks (push_block i d c) = cr_maxBlocks c"
  "cr_everFetched (push_block i d c) = cr_everFetched c"
  by (simp_all add: push_block_def Let_def)

lemma push_block_inv:
  assumes "cache_wf ok B sz maxb c" "map_of (cr_blocks c) i = None" "B (cr_blockSize c) i d"
  shows "cache_wf ok B sz maxb (push_block i d c)"
proof -
  have fresh: "i \<notin> fst ` set (cr_blocks c)" using assms(2) by (simp add: map_of_eq_None_iff)
  have "distinct (map fst ((i, d) # cr_blocks c))" using assms(1) fresh by (simp add: cache_wf_def)
  then have "distinct (map fst (butlast ((i, d) # cr_blocks c)))" by (simp only: map_butlast distinct_butlast)
  moreover have "\<forall>(j, e)\<in>set (butlast ((i, d) # cr_blocks c)). B (cr_blockSize c) j e"
    using assms(1,3) by (auto simp: cache_wf_def dest!: in_set_butlastD split: if_splits)
  ultimately show ?thesis
    using assms(1,3) fresh
    by (auto simp: cache_wf_def push_block_def Let_def stats_add_up_def)
qed

lemma cache_hit_inv:
  assumes "cache_wf ok B sz maxb c" "map_of (cr_blocks c) i = Some d"
  shows "cache_wf ok B sz maxb (cache_hit i d (count_stat (\<lambda>t. t\<lparr>cs_BlockTouches := cs_BlockTouches t + 1\<rparr>) c))"
proof -
  have mem: "(i, d) \<in> set (cr_blocks c)" using assms(2) by (rule map_of_SomeD)
  let ?rest = "filter (\<lambda>(j, e). j \<noteq> i) (cr_blocks c)"
  have "length ?rest < length (cr_blocks c)"
    using mem by (intro length_filter_less [of "(i, d)"]) auto
  then have "int (length ((i, d) # ?rest)) \<le> cr_maxBlocks c" using assms(1) by (simp add: cache_wf_def)
  moreover have "distinct (map fst ((i, d) # ?rest))"
    using assms(1) by (auto simp: cache_wf_def distinct_map_filter)
  moreover have "\<forall>(j, e)\<in>set ((i, d) # ?rest). B (cr_blockSize c) j e"
    using assms(1) mem by (auto simp: cache_wf_def)
  ultimately show ?thesis
    using assms(1) by (simp add: cache_wf_def cache_hit_def stats_add_up_def Let_def)
qed

lemma block_bounds:
  assumes "0 < bsz" "0 \<le> idx" "idx * bsz < int (length content)"
  defines "n \<equiv> (if idx * bsz + bsz > int (length content) then int (length content) - idx * bsz else bsz)"
  shows "block_of content bsz idx = take (nat n) (drop (nat (idx * bsz)) content)"
    and "0 < n" and "nat (idx * bsz) + nat n \<le> length content"
proof -
  have "min ((idx + 1) * bsz) (int (length content)) - idx * bsz = n"
    by (auto simp: n_def algebra_simps)
  then show "block_of content bsz idx = take (nat n) (drop (nat (idx * bsz)) content)"
    by (simp add: block_of_def slice_def)
  show "0 < n" using assms by (simp add: n_def)
  have "0 \<le> idx * bsz" using assms by simp
  then show "nat (idx * bsz) + nat n \<le> length content" using assms(3) by (auto simp: n_def)
qed

text \<open>The block of a position.\<close>

lemma block_at:
  assumes "0 < bsz" "0 \<le> (at :: int)" "idx = at div bsz"
  shows "0 \<le> idx" "idx * bsz \<le> at" "at < idx * bsz + bsz"
proof -
  show "0 \<le> idx" using assms by (simp add: pos_imp_zdiv_nonneg_iff)
  have "at = idx * bsz + at mod bsz" using assms(3) by simp
  moreover have "0 \<le> at mod bsz" "at mod bsz < bsz" using assms(1) by simp_all
  ultimately show "idx * bsz \<le> at" "at < idx * bsz + bsz" by linarith+
qed

text \<open>What a read copies from the first bytes of a block continues what it has.\<close>

lemma piece_continues:
  assumes copied: "copied = take (length copied) (drop (nat off) content)" and off: "0 \<le> off" and bsz: "0 < bsz"
    and at: "at = off + int (length copied)" "idx = at div bsz"
    and block: "block = take (length block) (block_of content bsz idx)"
    and piece: "piece = take k (drop (nat (at - idx * bsz)) block)"
  shows "copied @ piece = take (length (copied @ piece)) (drop (nat off) content)"
proof -
  have idx: "0 \<le> idx" "idx * bsz \<le> at" using block_at [OF bsz _ at(2)] off at(1) by auto
  have nn: "nat (at - idx * bsz) + nat (idx * bsz) = nat off + length copied"
    using idx bsz off at(1) by (simp add: nat_add_distrib [symmetric])
  define m where "m = min (length block) (nat (min ((idx + 1) * bsz) (int (length content)) - idx * bsz))"
  have "block = take m (drop (nat (idx * bsz)) content)"
    using block by (simp add: block_of_def slice_def m_def)
  then have "drop (nat (at - idx * bsz)) block = take (m - nat (at - idx * bsz)) (drop (nat off + length copied) content)"
    by (simp add: drop_take nn)
  then have "piece = take (min k (m - nat (at - idx * bsz))) (drop (length copied) (drop (nat off) content))"
    using piece by (simp add: add.commute)
  then have "piece = take (length piece) (drop (length copied) (drop (nat off) content))" by (rule take_own_length)
  then show ?thesis using copied by (metis length_append take_add)
qed

section \<open>Whatever the backend reports\<close>

text \<open>What a read loop that ended leaves: it has copied the object's bytes, however short its blocks are.\<close>

definition fill_right :: "('s \<Rightarrow> bool) \<Rightarrow> bytes \<Rightarrow> int \<Rightarrow> nat \<Rightarrow> int \<Rightarrow> read_outcome \<times> 's CachingReaderAt \<Rightarrow> bool" where
  "fill_right ok content off want maxb y \<longleftrightarrow> cache_safe ok content maxb (snd y) \<and>
     (case fst y of
        Panicked \<Rightarrow> True
      | Returned got err \<Rightarrow> length got \<le> want \<and> got = take (length got) (drop (nat off) content) \<and>
          (err = None \<longrightarrow> length got = want) \<and> (\<forall>e. err = Some e \<longrightarrow> \<not> errors_Is e ioEOF))"

context reader_bytes
begin

lemma readAtFull_bytes:
  assumes "ok s" "0 \<le> off"
  shows "\<exists>got err s'. readAtFull read_at n off [] s = Some ((got, err), s') \<and> ok s' \<and> length got \<le> n \<and>
    got = take (length got) (drop (nat off) content) \<and> (err = None \<longrightarrow> length got = n)"
proof (cases "n = 0")
  case True
  then show ?thesis using assms(1) by (simp add: readAtFull.simps)
next
  case False
  obtain b err s1 where r: "read_at off n s = ((b, err), s1)" by (cases "read_at off n s") auto
  have k: "ok s1" "length b \<le> n" "b = take (length b) (drop (nat off) content)"
    using read_ok [OF assms(1) r] read_prefix [OF assms r] by blast+
  show ?thesis
  proof (cases err)
    case None
    then have "length b = n" using read_full [OF assms] r by blast
    with None k r False show ?thesis by (simp add: readAtFull.simps)
  next
    case (Some e)
    with k r False show ?thesis by (simp add: readAtFull.simps)
  qed
qed

text \<open>A block handed out, and the cache it leaves, for any condition on the blocks fetched.\<close>

lemma getBlock_wf:
  assumes inv: "cache_wf ok B (int (length content)) maxb c" and idx: "0 \<le> idx" "idx * cr_blockSize c < cr_size c"
    and fetched: "\<And>got err s. readAtFull read_at (nat (block_len idx c)) (idx * cr_blockSize c) [] (cr_backend c) =
        Some ((got, err), s) \<Longrightarrow> (\<forall>e. err = Some e \<longrightarrow> errors_Is e ioEOF) \<Longrightarrow> B (cr_blockSize c) idx got"
  shows "\<exists>r c'. getBlock read_at idx c = Some (r, c') \<and> cache_wf ok B (int (length content)) maxb c' \<and>
    cr_blockSize c' = cr_blockSize c \<and>
    (\<forall>b. r = Inr b \<longrightarrow> B (cr_blockSize c) idx b) \<and> (\<forall>e. r = Inl e \<longrightarrow> \<not> errors_Is e ioEOF)"
proof (cases "map_of (cr_blocks c) idx")
  case (Some d)
  then have "B (cr_blockSize c) idx d"
    using inv map_of_SomeD [OF Some] by (auto simp: cache_wf_def)
  then show ?thesis
    using Some cache_hit_inv [OF inv Some] by (simp add: getBlock_def Let_def cache_hit_def)
next
  case None
  let ?bsz = "cr_blockSize c"
  let ?c = "cache_miss idx (count_stat (\<lambda>t. t\<lparr>cs_BlockTouches := cs_BlockTouches t + 1\<rparr>) c)"
  have "0 < ?bsz" and okb: "ok (cr_backend c)" using inv by (simp_all add: cache_wf_def)
  then have off: "0 \<le> idx * ?bsz" using idx by simp
  obtain got err s where rd: "readAtFull read_at (nat (block_len idx c)) (idx * ?bsz) [] (cr_backend c) = Some ((got, err), s)"
    and ok': "ok s"
    using readAtFull_bytes [OF okb off] by blast
  define c2 where "c2 = count_stat (\<lambda>t. t\<lparr>cs_BackendReads := cs_BackendReads t + 1,
      cs_BackendBytes := cs_BackendBytes t + int (length got)\<rparr>) (?c\<lparr>cr_backend := s\<rparr>)"
  have inv2: "cache_wf ok B (int (length content)) maxb c2"
    using inv ok' by (auto simp: cache_wf_def c2_def cache_miss_def stats_add_up_def Let_def)
  have keep: "cr_blocks c2 = cr_blocks c" "cr_blockSize c2 = ?bsz" by (simp_all add: c2_def)
  have run: "getBlock read_at idx c =
      (case err of
         Some e \<Rightarrow> if errors_Is e ioEOF then Some (Inr got, push_block idx got c2)
                   else Some (Inl (WrapErr ''cache backend read block'' [e]), c2)
       | None \<Rightarrow> Some (Inr got, push_block idx got c2))"
  proof -
    have n': "block_len idx (count_stat f c) = block_len idx c" for f by (simp add: block_len_def Let_def)
    show ?thesis using None rd by (cases err) (simp_all add: getBlock_def Let_def c2_def n')
  qed
  have pushed: "cache_wf ok B (int (length content)) maxb (push_block idx got c2)" if "B ?bsz idx got"
    using push_block_inv [OF inv2, of idx got] None keep that by simp
  show ?thesis
  proof (cases "\<exists>e. err = Some e \<and> \<not> errors_Is e ioEOF")
    case True
    then obtain e where "err = Some e" "\<not> errors_Is e ioEOF" by blast
    then show ?thesis using run inv2 keep by (simp add: errors_Is_def)
  next
    case False
    then have w: "B ?bsz idx got" using fetched [OF rd] by blast
    have "getBlock read_at idx c = Some (Inr got, push_block idx got c2)"
      using run False by (cases err) auto
    then show ?thesis using w pushed [OF w] keep by simp
  qed
qed

lemma getBlock_safe:
  assumes inv: "cache_safe ok content maxb c" and idx: "0 \<le> idx" "idx * cr_blockSize c < cr_size c"
  shows "\<exists>r c'. getBlock read_at idx c = Some (r, c') \<and> cache_safe ok content maxb c' \<and>
    cr_blockSize c' = cr_blockSize c \<and>
    (\<forall>b. r = Inr b \<longrightarrow> b = take (length b) (block_of content (cr_blockSize c) idx)) \<and>
    (\<forall>e. r = Inl e \<longrightarrow> \<not> errors_Is e ioEOF)"
proof (rule getBlock_wf [OF inv idx])
  fix got err s
  assume rd: "readAtFull read_at (nat (block_len idx c)) (idx * cr_blockSize c) [] (cr_backend c) = Some ((got, err), s)"
  have sz: "cr_size c = int (length content)" "0 < cr_blockSize c" and okb: "ok (cr_backend c)"
    using inv by (simp_all add: cache_wf_def)
  have "0 \<le> idx * cr_blockSize c" using idx sz by simp
  with readAtFull_bytes [OF okb this] rd have got: "length got \<le> nat (block_len idx c)"
    "got = take (length got) (drop (nat (idx * cr_blockSize c)) content)" by (metis Pair_inject option.inject)+
  have "block_of content (cr_blockSize c) idx = take (nat (block_len idx c)) (drop (nat (idx * cr_blockSize c)) content)"
    using block_bounds(1) [OF sz(2) idx(1) idx(2) [unfolded sz(1)]] by (simp add: block_len_def Let_def sz(1))
  with got show "got = take (length got) (block_of content (cr_blockSize c) idx)" by (simp add: min_absorb1)
qed

lemma fill_read_safe:
  assumes "fill_read read_at want off copied c = Some y"
    and "0 \<le> off" "nat off + want \<le> length content" "cache_safe ok content maxb c"
    and "length copied \<le> want" "copied = take (length copied) (drop (nat off) content)"
  shows "fill_right ok content off want maxb y"
proof -
  let ?P = "\<lambda>rd want off copied c y. rd = read_at \<longrightarrow> 0 \<le> off \<longrightarrow> nat off + want \<le> length content \<longrightarrow>
    cache_safe ok content maxb c \<longrightarrow> length copied \<le> want \<longrightarrow>
    copied = take (length copied) (drop (nat off) content) \<longrightarrow> fill_right ok content off want maxb y"
  have "?P read_at want off copied c y"
  proof (rule fill_read.raw_induct [OF _ assms(1), of ?P], intro impI)
    fix fill rd want off copied c y
    assume IH: "\<And>rd want off copied c y. fill rd want off copied c = Some y \<Longrightarrow> ?P rd want off copied c y"
      and body: "(if length copied < want then
          (let readOff = off + int (length copied); idx = readOff div cr_blockSize c in
           case getBlock rd idx c of
             None \<Rightarrow> None
           | Some (r, c1) \<Rightarrow>
               (case r of
                  Inl e \<Rightarrow> Some (Returned copied (Some e), c1)
                | Inr block \<Rightarrow>
                    (let within = nat (readOff - idx * cr_blockSize c) in
                     if within > length block then Some (Panicked, c1)
                     else fill rd want off (copied @ take (want - length copied) (drop within block)) c1)))
        else Some (Returned copied None, c)) = Some y"
      and h: "rd = read_at" "0 \<le> off" "nat off + want \<le> length content" "cache_safe ok content maxb c"
        "length copied \<le> want" "copied = take (length copied) (drop (nat off) content)"
    show "fill_right ok content off want maxb y"
    proof (cases "length copied < want")
      case False
      then show ?thesis using body h by (auto simp: fill_right_def)
    next
      case True
      define at where "at = off + int (length copied)"
      define idx where "idx = at div cr_blockSize c"
      have bsz: "0 < cr_blockSize c" and sz: "cr_size c = int (length content)" using h(4) by (simp_all add: cache_wf_def)
      have at: "0 \<le> at" "at < int (length content)" using h(2,3) True by (simp_all add: at_def)
      have idx: "0 \<le> idx" "idx * cr_blockSize c < cr_size c"
        using block_at [OF bsz at(1) idx_def] at(2) sz by linarith+
      obtain r c1 where g: "getBlock read_at idx c = Some (r, c1)" and inv1: "cache_safe ok content maxb c1"
        and inr: "\<And>b. r = Inr b \<Longrightarrow> b = take (length b) (block_of content (cr_blockSize c) idx)"
        and inl: "\<And>e. r = Inl e \<Longrightarrow> \<not> errors_Is e ioEOF"
        using getBlock_safe [OF h(4) idx] by fastforce
      have y: "(case r of
           Inl e \<Rightarrow> Some (Returned copied (Some e), c1)
         | Inr block \<Rightarrow>
             (let within = nat (at - idx * cr_blockSize c) in
              if within > length block then Some (Panicked, c1)
              else fill read_at want off (copied @ take (want - length copied) (drop within block)) c1)) = Some y"
        using body True unfolding h(1) Let_def at_def [symmetric] idx_def [symmetric] by (simp add: g)
      show ?thesis
      proof (cases r)
        case (Inl e)
        then show ?thesis using y inv1 h inl by (auto simp: fill_right_def)
      next
        case (Inr block)
        define piece where "piece = take (want - length copied) (drop (nat (at - idx * cr_blockSize c)) block)"
        show ?thesis
        proof (cases "nat (at - idx * cr_blockSize c) > length block")
          case True
          then show ?thesis using y Inr inv1 by (auto simp: fill_right_def Let_def)
        next
          case False
          then have f: "fill read_at want off (copied @ piece) c1 = Some y"
            using y Inr by (simp add: Let_def piece_def)
          have "copied @ piece = take (length (copied @ piece)) (drop (nat off) content)"
            by (rule piece_continues [OF h(6,2) bsz at_def idx_def inr [OF Inr] piece_def])
          moreover have "length (copied @ piece) \<le> want" using h(5) by (simp add: piece_def)
          ultimately show ?thesis using IH [OF f] h(2,3) inv1 by blast
        qed
      qed
    qed
  qed
  then show ?thesis using assms(2-) by blast
qed

end

section \<open>While no error is io.EOF\<close>

context reader_at
begin

lemma readAtFull_eof:
  assumes "ok s" "0 \<le> off" "readAtFull read_at n off [] s = Some ((got, err), s')" "0 < n"
    "\<forall>e. err = Some e \<longrightarrow> errors_Is e ioEOF"
  shows "length got = n \<or> length content \<le> nat off + length got"
proof -
  obtain b er s1 where r: "read_at off n s = ((b, er), s1)" by (cases "read_at off n s") auto
  show ?thesis
  proof (cases er)
    case None
    then have "length b = n" using read_full [OF assms(1,2)] r by blast
    with None r assms(3,4) show ?thesis by (simp add: readAtFull.simps)
  next
    case (Some e)
    with r assms(3,4) have "got = b" "err = Some e" by (simp_all add: readAtFull.simps)
    then show ?thesis using read_eof [OF assms(1,2)] r Some assms(5) by blast
  qed
qed

lemma getBlock_ok:
  assumes inv: "cache_inv ok content maxb c" and idx: "0 \<le> idx" "idx * cr_blockSize c < cr_size c"
  shows "\<exists>r c'. getBlock read_at idx c = Some (r, c') \<and> cache_inv ok content maxb c' \<and>
    cr_blockSize c' = cr_blockSize c \<and>
    (\<forall>b. r = Inr b \<longrightarrow> b = block_of content (cr_blockSize c) idx) \<and> (\<forall>e. r = Inl e \<longrightarrow> \<not> errors_Is e ioEOF)"
proof (rule getBlock_wf [OF inv idx])
  fix got err s
  assume rd: "readAtFull read_at (nat (block_len idx c)) (idx * cr_blockSize c) [] (cr_backend c) = Some ((got, err), s)"
    and err: "\<forall>e. err = Some e \<longrightarrow> errors_Is e ioEOF"
  define n where "n = block_len idx c"
  have sz: "cr_size c = int (length content)" "0 < cr_blockSize c" and okb: "ok (cr_backend c)"
    using inv by (simp_all add: cache_wf_def)
  have off: "0 \<le> idx * cr_blockSize c" using idx sz by simp
  have n: "n = (if idx * cr_blockSize c + cr_blockSize c > int (length content) then int (length content) - idx * cr_blockSize c
      else cr_blockSize c)" by (simp add: n_def block_len_def Let_def sz(1))
  have bb: "block_of content (cr_blockSize c) idx = take (nat n) (drop (nat (idx * cr_blockSize c)) content)"
    "0 < n" "nat (idx * cr_blockSize c) + nat n \<le> length content"
    unfolding n by (rule block_bounds [OF sz(2) idx(1) idx(2) [unfolded sz(1)]])+
  have got: "length got \<le> nat n" "got = take (length got) (drop (nat (idx * cr_blockSize c)) content)"
    unfolding n_def using readAtFull_bytes [OF okb off] rd by (metis Pair_inject option.inject)+
  moreover have "length got = nat n"
    using readAtFull_eof [OF okb off rd _ err] got(1) bb(2,3) unfolding n_def [symmetric] by linarith
  ultimately show "got = block_of content (cr_blockSize c) idx" using bb(1) by simp
qed

end

context reader_at
begin

text \<open>The read loop ends: every block it gets reaches past the position it was asked for.\<close>

lemma fill_read_ok:
  assumes "0 \<le> off" "nat off + want \<le> length content" "cache_inv ok content maxb c"
    and "length copied \<le> want" "copied = take (length copied) (drop (nat off) content)"
  shows "\<exists>got err c'. fill_read read_at want off copied c = Some (Returned got err, c') \<and> cache_inv ok content maxb c' \<and>
    length got \<le> want \<and> got = take (length got) (drop (nat off) content) \<and> (err = None \<longrightarrow> length got = want) \<and>
    (\<forall>e. err = Some e \<longrightarrow> \<not> errors_Is e ioEOF)"
  using assms(3-)
proof (induction "want - length copied" arbitrary: c copied rule: less_induct)
  case less
  show ?case
  proof (cases "length copied < want")
    case False
    then show ?thesis using less.prems by (auto simp: fill_read.simps)
  next
    case True
    let ?bsz = "cr_blockSize c"
    define at where "at = off + int (length copied)"
    define idx where "idx = at div ?bsz"
    have bsz: "0 < ?bsz" and sz: "cr_size c = int (length content)" using less.prems(1) by (simp_all add: cache_wf_def)
    have at: "0 \<le> at" "at < int (length content)" "nat at = nat off + length copied"
      using assms(1,2) True by (simp_all add: at_def)
    have idx: "0 \<le> idx" "idx * ?bsz \<le> at" "at < idx * ?bsz + ?bsz"
    proof -
      show "0 \<le> idx" using at bsz by (simp add: idx_def pos_imp_zdiv_nonneg_iff)
      have "at = idx * ?bsz + at mod ?bsz" by (simp add: idx_def)
      moreover have "0 \<le> at mod ?bsz" "at mod ?bsz < ?bsz" using bsz by simp_all
      ultimately show "idx * ?bsz \<le> at" "at < idx * ?bsz + ?bsz" by linarith+
    qed
    obtain r c1 where g: "getBlock read_at idx c = Some (r, c1)" and inv1: "cache_inv ok content maxb c1"
      and inr: "\<And>b. r = Inr b \<Longrightarrow> b = block_of content ?bsz idx" and inl: "\<And>e. r = Inl e \<Longrightarrow> \<not> errors_Is e ioEOF"
      using getBlock_ok [OF less.prems(1) idx(1)] idx(2) at(2) sz by fastforce
    have step: "fill_read read_at want off copied c =
        (case r of
           Inl e \<Rightarrow> Some (Returned copied (Some e), c1)
         | Inr block \<Rightarrow>
             (let within = nat (at - idx * ?bsz) in
              if within > length block then Some (Panicked, c1)
              else fill_read read_at want off (copied @ take (want - length copied) (drop within block)) c1))"
      using True g by (subst fill_read.simps, cases r) (simp_all add: Let_def at_def [symmetric] idx_def [symmetric])
    show ?thesis
    proof (cases r)
      case (Inl e)
      then show ?thesis using step inv1 less.prems inl by auto
    next
      case (Inr block)
      have "int (length content) > idx * ?bsz" using idx(2) at(2) by linarith
      note bb = block_bounds [OF bsz idx(1) this]
      define n where "n = (if idx * ?bsz + ?bsz > int (length content) then int (length content) - idx * ?bsz else ?bsz)"
      define within where "within = nat (at - idx * ?bsz)"
      have block: "block = take (nat n) (drop (nat (idx * ?bsz)) content)"
        using inr [OF Inr] bb(1) by (simp add: n_def)
      have n: "0 < n" "nat (idx * ?bsz) + nat n \<le> length content" using bb(2,3) by (simp_all add: n_def)
      have len: "length block = nat n" using block n(2) by simp
      have w: "within < nat n"
        using idx at(2) by (auto simp: within_def n_def)
      have nn: "within + nat (idx * ?bsz) = nat at"
        using idx bsz by (simp add: within_def nat_add_distrib [symmetric])
      define piece where "piece = take (want - length copied) (drop within block)"
      have piece_len: "0 < length piece" "length piece \<le> want - length copied"
        using w len True by (simp_all add: piece_def)
      have "drop within block = take (nat n - within) (drop (nat at) content)"
        unfolding block by (simp add: drop_take nn)
      then have "piece = take (min (want - length copied) (nat n - within)) (drop (nat at) content)"
        by (simp add: piece_def)
      then have "piece = take (length piece) (drop (length copied) (drop (nat off) content))"
        using take_own_length at(3) by (metis add.commute drop_drop)
      then have pre: "copied @ piece = take (length (copied @ piece)) (drop (nat off) content)"
        using less.prems(3) by (metis length_append take_add)
      have dec: "want - length (copied @ piece) < want - length copied" "length (copied @ piece) \<le> want"
        using piece_len True by (simp_all add: diff_less_mono2)
      have "fill_read read_at want off copied c = fill_read read_at want off (copied @ piece) c1"
        using step Inr len w by (simp add: within_def [symmetric] piece_def)
      with less.hyps [OF dec(1) inv1 dec(2) pre] show ?thesis by simp
    qed
  qed
qed

lemma cached_read_ok:
  assumes inv: "cache_inv ok content maxb c"
  shows "\<exists>got err c'. CachingReaderAt_ReadAt read_at off n c = Some (Returned got err, c') \<and>
    cache_inv ok content maxb c' \<and>
    (0 \<le> off \<longrightarrow> length got \<le> n \<and> got = take (length got) (drop (nat off) content) \<and>
       (err = None \<longrightarrow> length got = n) \<and>
       (\<forall>e. err = Some e \<longrightarrow> errors_Is e ioEOF \<longrightarrow> length content \<le> nat off + length got))"
proof (cases "off < 0 \<or> off \<ge> cr_size c")
  case True
  then show ?thesis
    using inv by (cases "off < 0") (auto simp: CachingReaderAt_ReadAt_def cache_wf_def)
next
  case False
  have sz: "cr_size c = int (length content)" using inv by (simp add: cache_wf_def)
  define want where "want = (if off + int n > cr_size c then nat (cr_size c - off) else n)"
  define c1 where "c1 = count_stat (\<lambda>t. t\<lparr>cs_Reads := cs_Reads t + 1,
      cs_BytesRequested := cs_BytesRequested t + int want\<rparr>) c"
  have inv1: "cache_inv ok content maxb c1" using inv by (simp add: c1_def cache_wf_def stats_add_up_def Let_def)
  have w: "0 \<le> off" "nat off + want \<le> length content" "want \<le> n" "want < n \<longrightarrow> nat off + want = length content"
    using False sz by (auto simp: want_def)
  obtain got err c' where f: "fill_read read_at want off [] c1 = Some (Returned got err, c')"
    and k: "cache_inv ok content maxb c'" "length got \<le> want" "got = take (length got) (drop (nat off) content)"
      "err = None \<longrightarrow> length got = want" "\<forall>e. err = Some e \<longrightarrow> \<not> errors_Is e ioEOF"
    using fill_read_ok [OF w(1,2) inv1, of "[]"] by auto
  have run: "CachingReaderAt_ReadAt read_at off n c =
      Some (Returned got (case err of Some e \<Rightarrow> Some e | None \<Rightarrow> if length got < n then Some ioEOF else None), c')"
    using False f by (cases err) (simp_all add: CachingReaderAt_ReadAt_def Let_def want_def [symmetric] c1_def [symmetric])
  show ?thesis
  proof (cases err)
    case (Some e)
    then show ?thesis using run k w by auto
  next
    case None
    then have "length got = want" using k(4) by simp
    then show ?thesis using run None k(1-3) w by auto
  qed
qed

end


section \<open>A session of reads\<close>

text \<open>Reads served one after the other, as the mutex has it; a read that does not return ends the session.\<close>

fun cached_reads ::
  "'s read_fn \<Rightarrow> (int \<times> nat) list \<Rightarrow> 's CachingReaderAt \<Rightarrow> (read_outcome list \<times> 's CachingReaderAt) option" where
  "cached_reads rd [] c = Some ([], c)"
| "cached_reads rd ((off, n) # reads) c =
     (case CachingReaderAt_ReadAt rd off n c of
        None \<Rightarrow> None
      | Some (out, c1) \<Rightarrow>
          (case cached_reads rd reads c1 of
             None \<Rightarrow> None
           | Some (outs, c2) \<Rightarrow> Some (out # outs, c2)))"

text \<open>What \<open>io.ReaderAt\<close> promises of one read of an object.\<close>

definition read_right :: "bytes \<Rightarrow> int \<times> nat \<Rightarrow> read_outcome \<Rightarrow> bool" where
  "read_right content req out =
     (case out of
        Panicked \<Rightarrow> False
      | Returned got err \<Rightarrow>
          0 \<le> fst req \<longrightarrow>
            length got \<le> snd req \<and> got = take (length got) (drop (nat (fst req)) content) \<and>
            (err = None \<longrightarrow> length got = snd req) \<and>
            (\<forall>e. err = Some e \<longrightarrow> errors_Is e ioEOF \<longrightarrow> length content \<le> nat (fst req) + length got))"

text \<open>A read served by a cache that is safe leaves it safe, and what it returns is right.\<close>

definition read_safe :: "('s \<Rightarrow> bool) \<Rightarrow> bytes \<Rightarrow> int \<Rightarrow> int \<times> nat \<Rightarrow> read_outcome \<times> 's CachingReaderAt \<Rightarrow> bool" where
  "read_safe ok content maxb req y \<longleftrightarrow>
     cache_safe ok content maxb (snd y) \<and> (fst y = Panicked \<or> read_right content req (fst y))"

context reader_bytes
begin

lemma cached_read_safe:
  assumes inv: "cache_safe ok content maxb c" and run: "CachingReaderAt_ReadAt read_at off n c = Some y"
  shows "read_safe ok content maxb (off, n) y"
proof (cases "off < 0 \<or> off \<ge> cr_size c")
  case True
  then show ?thesis
    using inv run by (cases "off < 0")
      (auto simp: CachingReaderAt_ReadAt_def cache_wf_def read_safe_def read_right_def)
next
  case False
  have sz: "cr_size c = int (length content)" using inv by (simp add: cache_wf_def)
  define want where "want = (if off + int n > cr_size c then nat (cr_size c - off) else n)"
  define c1 where "c1 = count_stat (\<lambda>t. t\<lparr>cs_Reads := cs_Reads t + 1,
      cs_BytesRequested := cs_BytesRequested t + int want\<rparr>) c"
  have inv1: "cache_safe ok content maxb c1" using inv by (simp add: c1_def cache_wf_def stats_add_up_def Let_def)
  have w: "0 \<le> off" "nat off + want \<le> length content" "want \<le> n" "want < n \<longrightarrow> nat off + want = length content"
    using False sz by (auto simp: want_def)
  have run1: "(case fill_read read_at want off [] c1 of
      Some (Returned copied None, c2) \<Rightarrow> Some (Returned copied (if length copied < n then Some ioEOF else None), c2)
    | x \<Rightarrow> x) = Some y"
    using run False unfolding CachingReaderAt_ReadAt_def Let_def want_def [symmetric] c1_def [symmetric] by simp
  then obtain out c2 where f: "fill_read read_at want off [] c1 = Some (out, c2)"
    by (cases "fill_read read_at want off [] c1") auto
  have right: "fill_right ok content off want maxb (out, c2)"
    by (rule fill_read_safe [OF f w(1,2) inv1]) simp_all
  show ?thesis
  proof (cases out)
    case Panicked
    then show ?thesis using right run1 f by (auto simp: fill_right_def read_safe_def)
  next
    case (Returned got err)
    then have k: "cache_safe ok content maxb c2" "length got \<le> want" "got = take (length got) (drop (nat off) content)"
      "err = None \<longrightarrow> length got = want" "\<forall>e. err = Some e \<longrightarrow> \<not> errors_Is e ioEOF"
      using right by (simp_all add: fill_right_def)
    have y: "y = (Returned got (case err of Some e \<Rightarrow> Some e | None \<Rightarrow> if length got < n then Some ioEOF else None), c2)"
      using run1 f Returned by (cases err) auto
    have "read_right content (off, n) (fst y)"
    proof (cases err)
      case (Some e)
      then show ?thesis using y k w by (auto simp: read_right_def)
    next
      case None
      then have "length got = want" using k(4) by simp
      then show ?thesis using y None k(3) w by (auto simp: read_right_def)
    qed
    then show ?thesis using y k(1) by (simp add: read_safe_def)
  qed
qed

lemma cached_reads_safe:
  "cached_reads read_at reads c = Some (outs, c') \<Longrightarrow> cache_safe ok content maxb c \<Longrightarrow>
   cache_safe ok content maxb c' \<and> list_all2 (\<lambda>req out. out = Panicked \<or> read_right content req out) reads outs"
proof (induction reads arbitrary: c outs)
  case (Cons rq reads)
  obtain off n where rq: "rq = (off, n)" by (cases rq)
  from Cons.prems(1) obtain out c1 outs' where r: "CachingReaderAt_ReadAt read_at off n c = Some (out, c1)"
    and rest: "cached_reads read_at reads c1 = Some (outs', c')" and outs: "outs = out # outs'"
    by (auto simp: rq split: option.splits prod.splits)
  have "read_safe ok content maxb (off, n) (out, c1)" by (rule cached_read_safe [OF Cons.prems(2) r])
  then show ?case using Cons.IH [OF rest] outs rq by (simp add: read_safe_def)
qed simp

end

context reader_at
begin

lemma cached_reads_ok:
  "cache_inv ok content maxb c \<Longrightarrow>
   \<exists>outs c'. cached_reads read_at reads c = Some (outs, c') \<and> cache_inv ok content maxb c' \<and>
     list_all2 (read_right content) reads outs"
proof (induction reads arbitrary: c)
  case (Cons rq reads)
  obtain off n where rq: "rq = (off, n)" by (cases rq)
  from cached_read_ok [OF Cons.prems, of off n] obtain got err c1
    where r: "CachingReaderAt_ReadAt read_at off n c = Some (Returned got err, c1)" and i: "cache_inv ok content maxb c1"
      and good: "read_right content rq (Returned got err)"
    by (auto simp: read_right_def rq)
  from Cons.IH [OF i] obtain outs c' where
    "cached_reads read_at reads c1 = Some (outs, c')" "cache_inv ok content maxb c'" "list_all2 (read_right content) reads outs"
    by blast
  with r good show ?case by (auto simp: rq)
qed simp

end

lemma NewCachingReaderAt_wf:
  assumes "NewCachingReaderAt backend sz bsz maxb = Inr c" "ok backend"
  shows "cache_wf ok B sz maxb c"
  using assms by (auto simp: NewCachingReaderAt_def cache_wf_def stats_add_up_def split: if_splits)

lemma NewReaderAt_inv:
  assumes "s3_contract api objs pend" "NewReaderAt api key w = Inr (sz, r)" "objs w key = Some content"
  shows "reader_inv api objs pend key content r \<and> sz = int (length content) \<and> clean_body r"
proof -
  obtain h w1 where h: "api_HeadObject api key w = (Inr h, w1)" "ho_ContentLength h = Some sz"
      "r = \<lparr>rd_body = None, rd_pos = 0, rd_world = w1\<rparr>"
    using assms(2) by (auto simp: NewReaderAt_def split: prod.splits sum.splits option.splits)
  have "sz = int (length content)"
    using head_size [OF assms(1) h(1)] assms(3) h(2) by (auto simp: ToInt64_def)
  then show ?thesis using assms h head_call [OF assms(1) h(1)] by (simp add: reader_inv_def clean_body_def)
qed

text \<open>
  C27. Reading an object through the block cache is reading the object.  Over the S3 reader, for any block size and cache
  size and any sequence of reads, with requests failing at will: what a read returns is the object's bytes at
  that offset, it is short only with an error, and an \<open>io.EOF\<close> means the end of the object; at most \<open>maxBlocks\<close>
  blocks are held, and the statistics add up.  And as long as no request after the reader was opened fails
  with an error that is \<open>io.EOF\<close> under \<open>errors.Is\<close>, every read returns: none loops or panics.  The lemma after the
  witness shows what such an error does.
\<close>

theorem cached_reads_are_the_object:
  assumes s3: "s3_contract api objs pend" and obj: "objs w key = Some content"
    and rd: "NewReaderAt api key w = Inr (sz, r)"
    and cache: "NewCachingReaderAt r sz bsz maxb = Inr c"
  shows "(\<forall>outs c'. cached_reads (ReaderAt_ReadAt api key sz) reads c = Some (outs, c') \<longrightarrow>
      list_all2 (\<lambda>req out. out = Panicked \<or> read_right content req out) reads outs \<and>
      int (length (cr_blocks c')) \<le> maxb \<and> stats_add_up c') \<and>
    (eof_free api (rd_world r) \<longrightarrow>
      (\<exists>outs c'. cached_reads (ReaderAt_ReadAt api key sz) reads c = Some (outs, c') \<and>
        list_all2 (read_right content) reads outs))"
proof -
  have r: "reader_inv api objs pend key content r" and sz: "sz = int (length content)" and clean: "clean_body r"
    using NewReaderAt_inv [OF s3 rd obj] by blast+
  have safe: "cache_safe (reader_inv api objs pend key content) content maxb c"
    using NewCachingReaderAt_wf [OF cache, of "reader_inv api objs pend key content"] r sz by simp
  have inv: "cache_inv (\<lambda>r. reader_inv api objs pend key content r \<and> reader_calm api r) content maxb c"
    if "eof_free api (rd_world r)"
    using NewCachingReaderAt_wf [OF cache, of "\<lambda>r. reader_inv api objs pend key content r \<and> reader_calm api r"]
      r sz clean that by (simp add: reader_calm_def)
  from s3b.cached_reads_safe [OF _ safe, of reads] s3r.cached_reads_ok [OF inv, of reads] show ?thesis
    unfolding sz by (auto simp: cache_wf_def)
qed

lemma mem_eof_free: "eof_free mem_api w"
  by (auto simp: eof_free_def not_eof_def mem_api_def mem_get_def errors_Is_def split: option.splits if_splits)

theorem cached_reads_are_the_object_witness:
  "\<exists>r c. NewReaderAt mem_api ''k'' \<lparr>mw_objs = [''k'' \<mapsto> ''abcdef''], mw_pend = (\<lambda>_. Map.empty), mw_uploads = 0\<rparr>
           = Inr (6, r) \<and>
         NewCachingReaderAt r 6 4 1 = Inr c \<and>
         (\<exists>outs c'. cached_reads (ReaderAt_ReadAt mem_api ''k'' 6) [(1, 5), (4, 9)] c = Some (outs, c') \<and>
            list_all2 (read_right ''abcdef'') [(1, 5), (4, 9)] outs \<and>
            int (length (cr_blocks c')) \<le> 1 \<and> stats_add_up c')"
proof -
  let ?w = "\<lparr>mw_objs = [''k'' \<mapsto> ''abcdef''], mw_pend = (\<lambda>_. Map.empty), mw_uploads = 0\<rparr>"
  define r where "r = \<lparr>rd_body = None, rd_pos = 0, rd_world = ?w\<rparr>"
  have rd: "NewReaderAt mem_api ''k'' ?w = Inr (6, r)"
    by (simp add: NewReaderAt_def mem_api_def mem_head_def r_def)
  obtain c where c: "NewCachingReaderAt r 6 4 1 = Inr c" by (simp add: NewCachingReaderAt_def)
  have obj: "mw_objs ?w ''k'' = Some ''abcdef''" by simp
  from cached_reads_are_the_object [OF mem_s3_contract obj rd c, of "[(1, 5), (4, 9)]"] mem_eof_free rd c
  show ?thesis by blast
qed

section \<open>A transport error that wraps io.EOF\<close>

text \<open>
  \<open>net/http\<close> reports a connection closed before the response as an error that wraps \<open>io.EOF\<close>, and \<open>openLocked\<close>
  wraps it on.  \<open>getBlock\<close> takes it for the end of the object and caches an empty block; the loop of \<open>ReadAt\<close>
  then copies nothing from it, for ever, holding the mutex.
\<close>

definition eof_read :: "unit read_fn" where
  "eof_read off n s = (([], Some (WrapErr ''get'' [WrapErr ''request send failed'' [ioEOF]])), s)"

definition stuck :: "unit CachingReaderAt \<Rightarrow> bool" where
  "stuck c = (0 < cr_blockSize c \<and> 0 < cr_size c \<and> 0 < cr_maxBlocks c \<and>
     (cr_blocks c = [] \<or> cr_blocks c = [(0, [])]))"

lemma stuck_getBlock:
  assumes "stuck c"
  shows "\<exists>c1. getBlock eof_read 0 c = Some (Inr [], c1) \<and> stuck c1"
proof (cases "cr_blocks c = []")
  case True
  have len: "0 < nat (block_len 0 (count_stat f c))" for f
    using assms by (auto simp: stuck_def block_len_def Let_def)
  have "readAtFull eof_read n 0 [] s = Some (([], Some (WrapErr ''get'' [WrapErr ''request send failed'' [ioEOF]])), s)"
    if "0 < n" for n s
    using that by (simp add: readAtFull.simps eof_read_def)
  then show ?thesis
    using True assms len
    by (simp add: getBlock_def Let_def errors_Is_def stuck_def push_block_def)
next
  case False
  then show ?thesis
    using assms by (auto simp: getBlock_def Let_def stuck_def cache_hit_def)
qed

lemma stuck_fill_read: "stuck c \<Longrightarrow> 0 < want \<Longrightarrow> fill_read eof_read want 0 [] c = None"
proof (rule ccontr)
  assume st: "stuck c" "0 < want" and "fill_read eof_read want 0 [] c \<noteq> None"
  then obtain y where y: "fill_read eof_read want 0 [] c = Some y" by blast
  let ?P = "\<lambda>rd want (off :: int) (copied :: bytes) c (y :: read_outcome \<times> unit CachingReaderAt).
    rd = eof_read \<longrightarrow> off = 0 \<longrightarrow> copied = [] \<longrightarrow> 0 < want \<longrightarrow> stuck c \<longrightarrow> False"
  have "?P eof_read want 0 [] c y"
  proof (rule fill_read.raw_induct [OF _ y, of ?P], intro impI)
    fix fill rd want off copied c y
    assume IH: "\<And>rd want off copied c y. fill rd want off copied c = Some y \<Longrightarrow> ?P rd want off copied c y"
      and body: "(if length copied < want then
          (let readOff = off + int (length copied); idx = readOff div cr_blockSize c in
           case getBlock rd idx c of
             None \<Rightarrow> None
           | Some (r, c1) \<Rightarrow>
               (case r of
                  Inl e \<Rightarrow> Some (Returned copied (Some e), c1)
                | Inr block \<Rightarrow>
                    (let within = nat (readOff - idx * cr_blockSize c) in
                     if within > length block then Some (Panicked, c1)
                     else fill rd want off (copied @ take (want - length copied) (drop within block)) c1)))
        else Some (Returned copied None, c)) = Some y"
      and s: "rd = eof_read" "off = 0" "copied = []" "0 < want" "stuck c"
    from stuck_getBlock [OF s(5)] obtain c1 where "getBlock eof_read 0 c = Some (Inr [], c1)" "stuck c1" by blast
    with body s have "fill eof_read want 0 [] c1 = Some y" by (simp add: Let_def)
    from IH [OF this] s(4) \<open>stuck c1\<close> show False by blast
  qed
  with st show False by blast
qed

lemma wrapped_eof_hangs:
  assumes "NewCachingReaderAt () sz bsz maxb = Inr c" "0 < sz" "0 < n"
  shows "CachingReaderAt_ReadAt eof_read 0 n c = None"
proof -
  have c: "stuck c" "cr_size c = sz" using assms(1,2) by (auto simp: NewCachingReaderAt_def stuck_def split: if_splits)
  have "stuck (count_stat f c)" for f using c(1) by (simp add: stuck_def)
  from stuck_fill_read [OF this] show ?thesis
    using assms(2,3) c(2) by (auto simp: CachingReaderAt_ReadAt_def Let_def)
qed

end
