(* ===== verification/BlobStore.thy ===== *)
theory BlobStore
  imports ObjectCopy BaseEncoding
begin

text \<open>
  The interface of \<open>pkg/blob\<close> (\<open>store.go\<close>) as its clients use it, and the two stores behind it: files under a root
  (\<open>file.go\<close>) and objects of S3 (\<open>s3.go\<close>).  A store is a record of operations on an unknown world; \<open>store_contract\<close>
  is what \<open>store.go\<close> promises of them, which \<open>file_store\<close> meets whatever the operating system answers.  A reader
  is the size and the bytes that arrive from it until its error.  One writer is open at a time.
\<close>

section \<open>The interface\<close>

definition ErrNotFound :: go_error where "ErrNotFound = Sentinel ''blob: not found''"

record ('w, 'h) blob_store =
  st_Open :: "string \<Rightarrow> 'w \<Rightarrow> (go_error + int \<times> s3body) \<times> 'w"
  st_NewWriter :: "string \<Rightarrow> 'w \<Rightarrow> (go_error + 'h) \<times> 'w"
  st_Write :: "bytes \<Rightarrow> 'h \<Rightarrow> 'w \<Rightarrow> go_error option \<times> 'h \<times> 'w"
  st_Complete :: "'h \<Rightarrow> 'w \<Rightarrow> go_error option \<times> 'h \<times> 'w"
  st_Abort :: "'h \<Rightarrow> 'w \<Rightarrow> go_error option \<times> 'h \<times> 'w"

text \<open>\<open>objs w\<close> is what the store shows, \<open>wr w h\<close> the key of a writer and the bytes it has staged; keys are from \<open>ok\<close>.\<close>

type_synonym ('w, 'h) staged = "'w \<Rightarrow> 'h \<Rightarrow> (string \<times> bytes) option"

definition open_promise :: "('w, 'h) blob_store \<Rightarrow> ('w \<Rightarrow> string \<rightharpoonup> bytes) \<Rightarrow> (string \<Rightarrow> bool) \<Rightarrow> bool" where
  "open_promise st objs ok =
     (\<forall>k w r w'. ok k \<longrightarrow> st_Open st k w = (r, w') \<longrightarrow> objs w' = objs w \<and>
        (\<forall>n b. r = Inr (n, b) \<longrightarrow>
           (\<exists>bs. objs w k = Some bs \<and> n = int (length bs) \<and> (bd_Err b = None \<longrightarrow> bd_Data b = bs))) \<and>
        (\<forall>e. r = Inl e \<longrightarrow> errors_Is e ErrNotFound \<longrightarrow> objs w k = None))"

definition new_promise :: "('w, 'h) blob_store \<Rightarrow> ('w \<Rightarrow> string \<rightharpoonup> bytes) \<Rightarrow> ('w, 'h) staged \<Rightarrow> (string \<Rightarrow> bool) \<Rightarrow> bool" where
  "new_promise st objs wr ok =
     (\<forall>k w r w'. ok k \<longrightarrow> st_NewWriter st k w = (r, w') \<longrightarrow> objs w' = objs w \<and>
        (\<forall>h. r = Inr h \<longrightarrow> wr w' h = Some (k, [])))"

definition write_promise :: "('w, 'h) blob_store \<Rightarrow> ('w \<Rightarrow> string \<rightharpoonup> bytes) \<Rightarrow> ('w, 'h) staged \<Rightarrow> bool" where
  "write_promise st objs wr =
     (\<forall>p h w r h' w' k b. wr w h = Some (k, b) \<longrightarrow> st_Write st p h w = (r, h', w') \<longrightarrow> objs w' = objs w \<and>
        (\<exists>b'. wr w' h' = Some (k, b') \<and> (r = None \<longrightarrow> b' = b @ p)))"

definition complete_promise :: "('w, 'h) blob_store \<Rightarrow> ('w \<Rightarrow> string \<rightharpoonup> bytes) \<Rightarrow> ('w, 'h) staged \<Rightarrow> bool" where
  "complete_promise st objs wr =
     (\<forall>h w r h' w' k b. wr w h = Some (k, b) \<longrightarrow> st_Complete st h w = (r, h', w') \<longrightarrow>
        (objs w' = (objs w)(k \<mapsto> b) \<or> r \<noteq> None \<and> objs w' = objs w) \<and> wr w' h' \<noteq> None)"

definition abort_promise :: "('w, 'h) blob_store \<Rightarrow> ('w \<Rightarrow> string \<rightharpoonup> bytes) \<Rightarrow> ('w, 'h) staged \<Rightarrow> bool" where
  "abort_promise st objs wr =
     (\<forall>h w r h' w'. wr w h \<noteq> None \<longrightarrow> st_Abort st h w = (r, h', w') \<longrightarrow> objs w' = objs w)"

definition store_contract :: "('w, 'h) blob_store \<Rightarrow> ('w \<Rightarrow> string \<rightharpoonup> bytes) \<Rightarrow> ('w, 'h) staged \<Rightarrow> (string \<Rightarrow> bool) \<Rightarrow> bool" where
  "store_contract st objs wr ok =
     (open_promise st objs ok \<and> new_promise st objs wr ok \<and> write_promise st objs wr \<and>
      complete_promise st objs wr \<and> abort_promise st objs wr)"

section \<open>Writing and reading a blob\<close>

text \<open>Writes of several chunks, up to the first that fails.\<close>

fun write_all :: "('w, 'h) blob_store \<Rightarrow> bytes list \<Rightarrow> 'h \<Rightarrow> 'w \<Rightarrow> go_error option \<times> 'h \<times> 'w" where
  "write_all st [] h w = (None, h, w)"
| "write_all st (p # ps) h w =
     (case st_Write st p h w of
        (Some e, h', w') \<Rightarrow> (Some e, h', w')
      | (None, h', w') \<Rightarrow> write_all st ps h' w')"

text \<open>
  The shape of every write: open a writer, write, complete, with the deferred \<open>Close\<close> on the way out.  \<open>checked\<close> is
  what the caller checks between the final write and \<open>Complete\<close>, and the three texts wrap its errors.
\<close>

definition put_blob ::
  "('w, 'h) blob_store \<Rightarrow> string \<times> string \<times> string \<Rightarrow> go_error option \<Rightarrow> string \<Rightarrow> bytes list \<Rightarrow> 'w \<Rightarrow>
   go_error option \<times> 'w" where
  "put_blob st msgs checked key chunks w =
     (case st_NewWriter st key w of
        (Inl e, w1) \<Rightarrow> (Some (WrapErr (fst msgs) [e]), w1)
      | (Inr h, w1) \<Rightarrow>
          (let (r, h2, w2) =
             (case write_all st chunks h w1 of
                (Some e, h2, w2) \<Rightarrow> (Some (WrapErr (fst (snd msgs)) [e]), h2, w2)
              | (None, h2, w2) \<Rightarrow>
                  (case checked of
                     Some e \<Rightarrow> (Some e, h2, w2)
                   | None \<Rightarrow>
                       (case st_Complete st h2 w2 of
                          (Some e, h3, w3) \<Rightarrow> (Some (WrapErr (snd (snd msgs)) [e]), h3, w3)
                        | (None, h3, w3) \<Rightarrow> (None, h3, w3))))
           in (r, snd (snd (st_Abort st h2 w2)))))"

definition readWholeBlob :: "('w, 'h) blob_store \<Rightarrow> string \<Rightarrow> 'w \<Rightarrow> (go_error + bytes) \<times> 'w" where
  "readWholeBlob st key w =
     (case st_Open st key w of
        (Inl e, w1) \<Rightarrow> (Inl e, w1)
      | (Inr (n, body), w1) \<Rightarrow> (ReadAll body, w1))"

lemma promise_open:
  assumes "store_contract st objs wr ok" "ok k" "st_Open st k w = (r, w')"
  shows "objs w' = objs w"
    and "r = Inr (n, b) \<Longrightarrow> \<exists>bs. objs w k = Some bs \<and> n = int (length bs) \<and> (bd_Err b = None \<longrightarrow> bd_Data b = bs)"
    and "r = Inl e \<Longrightarrow> errors_Is e ErrNotFound \<Longrightarrow> objs w k = None"
  using assms unfolding store_contract_def open_promise_def by blast+

lemma promise_new:
  assumes "store_contract st objs wr ok" "ok k" "st_NewWriter st k w = (r, w')"
  shows "objs w' = objs w" and "r = Inr h \<Longrightarrow> wr w' h = Some (k, [])"
  using assms unfolding store_contract_def new_promise_def by blast+

lemma promise_write:
  assumes "store_contract st objs wr ok" "wr w h = Some (k, b)" "st_Write st p h w = (r, h', w')"
  shows "objs w' = objs w" and "\<exists>b'. wr w' h' = Some (k, b') \<and> (r = None \<longrightarrow> b' = b @ p)"
  using assms unfolding store_contract_def write_promise_def by blast+

lemma promise_complete:
  assumes "store_contract st objs wr ok" "wr w h = Some (k, b)" "st_Complete st h w = (r, h', w')"
  shows "objs w' = (objs w)(k \<mapsto> b) \<or> r \<noteq> None \<and> objs w' = objs w" and "wr w' h' \<noteq> None"
  using assms unfolding store_contract_def complete_promise_def by blast+

lemma promise_abort:
  assumes "store_contract st objs wr ok" "wr w h \<noteq> None" "st_Abort st h w = (r, h', w')"
  shows "objs w' = objs w"
  using assms unfolding store_contract_def abort_promise_def by blast

lemma write_all_outcome:
  assumes s: "store_contract st objs wr ok"
  shows "wr w h = Some (k, b) \<Longrightarrow> write_all st ps h w = (r, h', w') \<Longrightarrow>
    objs w' = objs w \<and> (\<exists>b'. wr w' h' = Some (k, b') \<and> (r = None \<longrightarrow> b' = b @ concat ps))"
proof (induction ps arbitrary: h w b)
  case (Cons p ps)
  obtain r1 h1 w1 where a: "st_Write st p h w = (r1, h1, w1)" by (metis surj_pair)
  note p = promise_write [OF s Cons.prems(1) a]
  then obtain b1 where b1: "wr w1 h1 = Some (k, b1)" "r1 = None \<Longrightarrow> b1 = b @ p" by blast
  show ?case
  proof (cases r1)
    case None
    then show ?thesis using Cons.IH [OF b1(1)] Cons.prems(2) a p(1) b1(2) by simp
  next
    case (Some e)
    then show ?thesis using Cons.prems(2) a p b1 by auto
  qed
qed simp

text \<open>A write ends before \<open>Complete\<close>, with nothing changed, or as \<open>Complete\<close> ends.\<close>

lemma put_blob_cases:
  assumes s: "store_contract st objs wr ok" and k: "ok key"
    and run: "put_blob st msgs checked key chunks w = (r, w')"
  shows "r \<noteq> None \<and> objs w' = objs w \<or>
    (\<exists>h2 w2 rc h3 w3. st_Complete st h2 w2 = (rc, h3, w3) \<and> wr w2 h2 = Some (key, concat chunks) \<and> objs w2 = objs w \<and>
       objs w' = objs w3 \<and> (r = None \<longleftrightarrow> rc = None) \<and> checked = None)"
proof -
  obtain r0 w1 where n: "st_NewWriter st key w = (r0, w1)" by (metis surj_pair)
  show ?thesis
  proof (cases r0)
    case (Inl e)
    then show ?thesis using run n promise_new(1) [OF s k n] by (auto simp: put_blob_def)
  next
    case (Inr h)
    have o1: "objs w1 = objs w" "wr w1 h = Some (key, [])" using promise_new [OF s k n] Inr by auto
    obtain ra h2 w2 where a: "write_all st chunks h w1 = (ra, h2, w2)" by (metis surj_pair)
    obtain b where b: "objs w2 = objs w" "wr w2 h2 = Some (key, b)" "ra = None \<Longrightarrow> b = concat chunks"
      using write_all_outcome [OF s o1(2) a] o1(1) by auto
    obtain rc h3 w3 where c: "st_Complete st h2 w2 = (rc, h3, w3)" by (metis surj_pair)
    note done' = promise_complete [OF s b(2) c]
    have ab: "objs (snd (snd (st_Abort st h w))) = objs w" if "wr w h \<noteq> None" for h w
      using promise_abort [OF s that] by (metis surj_pair snd_conv)
    consider (failed) e where "ra = Some e" | (refused) e where "ra = None" "checked = Some e"
      | (completed) "ra = None" "checked = None" by (cases ra; cases checked) auto
    then show ?thesis
    proof cases
      case failed
      then show ?thesis using run n Inr a ab [of w2 h2] b by (auto simp: put_blob_def)
    next
      case refused
      then show ?thesis using run n Inr a ab [of w2 h2] b by (auto simp: put_blob_def)
    next
      case completed
      have "r = None \<longleftrightarrow> rc = None" "objs w' = objs w3"
        using run n Inr a c completed ab [of w3 h3] done'(2) by (auto simp: put_blob_def split: option.splits)
      then show ?thesis using c b completed by metis
    qed
  qed
qed

text \<open>What every write leaves behind: the blob, or (with an error) possibly nothing; an error of the check leaves nothing.\<close>

lemma put_blob_outcome:
  assumes s: "store_contract st objs wr ok" and k: "ok key"
    and run: "put_blob st msgs checked key chunks w = (r, w')"
  shows "objs w' = (objs w)(key \<mapsto> concat chunks) \<and> checked = None \<or> r \<noteq> None \<and> objs w' = objs w"
  using put_blob_cases [OF assms] promise_complete(1) [OF s] by metis

lemma readWholeBlob_outcome:
  assumes s: "store_contract st objs wr ok" and k: "ok key" and run: "readWholeBlob st key w = (r, w')"
  shows "objs w' = objs w" and "r = Inr bs \<Longrightarrow> objs w key = Some bs"
    and "r = Inl e \<Longrightarrow> errors_Is e ErrNotFound \<Longrightarrow> fst (st_Open st key w) = Inl e \<Longrightarrow> objs w key = None"
proof -
  obtain r0 w1 where op: "st_Open st key w = (r0, w1)" by (metis surj_pair)
  note p = promise_open [OF s k op]
  show "objs w' = objs w" using run op p(1) by (auto simp: readWholeBlob_def split: sum.splits prod.splits)
  show "objs w key = Some bs" if "r = Inr bs"
    using run op that p(2) by (auto simp: readWholeBlob_def ReadAll_Inr split: sum.splits prod.splits)
  show "objs w key = None" if "r = Inl e" "errors_Is e ErrNotFound" "fst (st_Open st key w) = Inl e"
    using that op p(3) by auto
qed

end
