(* ===== verification/S3Store.thy ===== *)
theory S3Store
  imports BlobStore MultipartWriter "HOL-Library.Sublist"
begin

text \<open>
  The store of objects (\<open>blob/s3.go\<close>) over the client of \<open>ObjectStore\<close>: a write is a multipart upload to a staging
  key followed by a move to its key.  \<open>DeleteObject\<close> is a parameter beside the client; an
  error's text is a parameter too, as \<open>isS3NotFound\<close> looks for words in it.  Listings are left out.
\<close>

section \<open>Operations\<close>

definition s3StagingPrefix :: string where "s3StagingPrefix = ''.staging/''"

definition isS3NotFound :: "(go_error \<Rightarrow> bool) \<Rightarrow> (go_error \<Rightarrow> string) \<Rightarrow> go_error \<Rightarrow> bool" where
  "isS3NotFound asNoSuchKey text_of e =
     (asNoSuchKey e \<or> sublist ''NoSuchKey'' (text_of e) \<or> sublist ''NotFound'' (text_of e) \<or>
      sublist ''status code: 404'' (text_of e))"

definition S3Store_Move ::
  "'w s3api \<Rightarrow> (string \<Rightarrow> 'w \<Rightarrow> go_error option \<times> 'w) \<Rightarrow> (go_error \<Rightarrow> bool) \<Rightarrow> (nat \<Rightarrow> nat list) \<Rightarrow>
   string \<Rightarrow> string \<Rightarrow> 'w \<Rightarrow> go_error option \<times> 'w" where
  "S3Store_Move api del notFound sched srcKey dstKey w =
     (case copyObject api sched srcKey dstKey w of
        (Some e, w1) \<Rightarrow>
          if notFound e
          then (case api_HeadObject api dstKey w1 of
                  (Inr _, w2) \<Rightarrow> (None, w2)
                | (Inl _, w2) \<Rightarrow> (Some (WrapErr ''s3'' [ErrNotFound]), w2))
          else (Some (WrapErr ''blob s3: copy'' [e]), w1)
      | (None, w1) \<Rightarrow>
          (case del srcKey w1 of
             (Some e, w2) \<Rightarrow> (Some (WrapErr ''blob s3: delete src after copy'' [e]), w2)
           | (None, w2) \<Rightarrow> (None, w2)))"

definition S3Store_Delete ::
  "(string \<Rightarrow> 'w \<Rightarrow> go_error option \<times> 'w) \<Rightarrow> (go_error \<Rightarrow> bool) \<Rightarrow> string \<Rightarrow> 'w \<Rightarrow> go_error option \<times> 'w" where
  "S3Store_Delete del notFound key w =
     (case del key w of
        (Some e, w1) \<Rightarrow> (if notFound e then None else Some (WrapErr ''blob s3 delete'' [e]), w1)
      | (None, w1) \<Rightarrow> (None, w1))"

definition S3Store_ParseLocation :: "string \<Rightarrow> string \<Rightarrow> string option" where
  "S3Store_ParseLocation bucket location =
     (if take 5 location \<noteq> ''s3://'' then None
      else
        (case split_at_byte (CHR ''/'') (drop 5 location) of
           None \<Rightarrow> None
         | Some (b, key) \<Rightarrow> if b = [] \<or> key = [] then None else if b \<noteq> bucket then None else Some key))"

definition S3Store_URL :: "string \<Rightarrow> string \<Rightarrow> string" where
  "S3Store_URL bucket key = ''s3://'' @ bucket @ ''/'' @ key"

text \<open>\<open>s3Writer.Complete\<close> after its multipart writer returned \<open>r\<close>; the flag is \<open>finalized\<close>.\<close>

definition s3Writer_Complete ::
  "'w s3api \<Rightarrow> (string \<Rightarrow> 'w \<Rightarrow> go_error option \<times> 'w) \<Rightarrow> (go_error \<Rightarrow> bool) \<Rightarrow> (nat \<Rightarrow> nat list) \<Rightarrow>
   string \<Rightarrow> string \<Rightarrow> go_error option \<Rightarrow> 'w \<Rightarrow> go_error option \<times> bool \<times> 'w" where
  "s3Writer_Complete api del notFound sched stagingKey finalKey r w =
     (case r of
        Some e \<Rightarrow> (Some e, False, w)
      | None \<Rightarrow>
          (case S3Store_Move api del notFound sched stagingKey finalKey w of
             (Some e, w1) \<Rightarrow>
               (Some (WrapErr ''blob s3: move staging'' [e]), False, snd (S3Store_Delete del notFound stagingKey w1))
           | (None, w1) \<Rightarrow> (None, True, w1)))"

section \<open>What a move leaves\<close>

definition delete_contract :: "(string \<Rightarrow> 'w \<Rightarrow> go_error option \<times> 'w) \<Rightarrow> ('w \<Rightarrow> string \<rightharpoonup> bytes) \<Rightarrow> bool" where
  "delete_contract del objs =
     (\<forall>k w r w'. del k w = (r, w') \<longrightarrow> objs w' = (objs w)(k := None) \<or> r \<noteq> None \<and> objs w' = objs w)"

text \<open>An error of a copy that reads as \<open>not found\<close> is about a source that is not there.\<close>

definition honest_not_found :: "'w s3api \<Rightarrow> (nat \<Rightarrow> nat list) \<Rightarrow> ('w \<Rightarrow> string \<rightharpoonup> bytes) \<Rightarrow> (go_error \<Rightarrow> bool) \<Rightarrow> bool" where
  "honest_not_found api sched objs notFound =
     (\<forall>src dst w e w'. copyObject api sched src dst w = (Some e, w') \<longrightarrow> notFound e \<longrightarrow> objs w src = None)"

lemma s3_move_outcome:
  assumes s3: "s3_contract api objs pend" and sched: "\<And>n. mset (sched n) = mset [0..<n]"
    and del: "delete_contract del objs" and nf: "honest_not_found api sched objs notFound"
    and src: "objs w srcKey = Some bs" and ne: "srcKey \<noteq> dstKey"
    and run: "S3Store_Move api del notFound sched srcKey dstKey w = (r, w')"
  shows "objs w' = (objs w)(dstKey \<mapsto> bs, srcKey := None) \<or>
    r \<noteq> None \<and> (objs w' = objs w \<or> objs w' = (objs w)(dstKey \<mapsto> bs))"
proof -
  obtain r1 w1 where c: "copyObject api sched srcKey dstKey w = (r1, w1)" by (metis surj_pair)
  have copied: "objs w1 = (objs w)(dstKey \<mapsto> bs) \<or> r1 \<noteq> None \<and> objs w1 = objs w"
    using copyObject_outcome [OF s3 sched c] src by auto
  show ?thesis
  proof (cases r1)
    case (Some e)
    then have "\<not> notFound e" using nf c src unfolding honest_not_found_def by (metis option.distinct(1))
    then have "w' = w1" "r \<noteq> None" using run c Some by (auto simp: S3Store_Move_def)
    then show ?thesis using copied by auto
  next
    case None
    obtain r2 w2 where d: "del srcKey w1 = (r2, w2)" by (metis surj_pair)
    have "w' = w2" "r = None \<longleftrightarrow> r2 = None" using run c None d by (auto simp: S3Store_Move_def split: option.splits)
    moreover have "objs w2 = (objs w1)(srcKey := None) \<or> r2 \<noteq> None \<and> objs w2 = objs w1"
      using del d unfolding delete_contract_def by blast
    ultimately show ?thesis using copied None ne by auto
  qed
qed

lemma s3_delete_outcome:
  assumes "delete_contract del objs"
  shows "objs (snd (S3Store_Delete del notFound key w)) = (objs w)(key := None) \<or>
    objs (snd (S3Store_Delete del notFound key w)) = objs w"
proof -
  obtain r w1 where d: "del key w = (r, w1)" by (metis surj_pair)
  have "snd (S3Store_Delete del notFound key w) = w1" using d by (simp add: S3Store_Delete_def split: option.splits)
  then show ?thesis using assms d unfolding delete_contract_def by metis
qed

text \<open>A parsed location is a key of this bucket.\<close>

lemma S3Store_ParseLocation_URL:
  assumes "CHR ''/'' \<notin> set bucket" "bucket \<noteq> []"
  shows "S3Store_ParseLocation bucket location = Some key \<longleftrightarrow> location = S3Store_URL bucket key \<and> key \<noteq> []"
proof (cases "take 5 location = ''s3://''")
  case True
  then obtain rest where l: "location = ''s3://'' @ rest" by (metis append_take_drop_id)
  have "S3Store_ParseLocation bucket location = Some key \<longleftrightarrow>
      split_at_byte (CHR ''/'') rest = Some (bucket, key) \<and> key \<noteq> []"
    using assms(2) by (auto simp: S3Store_ParseLocation_def l split: option.splits if_splits prod.splits)
  then show ?thesis using assms(1) by (auto simp: split_at_byte_Some S3Store_URL_def l)
next
  case False
  then show ?thesis by (auto simp: S3Store_ParseLocation_def S3Store_URL_def)
qed

section \<open>Publishing a blob\<close>

text \<open>
  C22. A blob written to S3 appears at its key whole or not at all.  In every run of the multipart writer on the
  staging key and whatever requests fail, when \<open>Complete\<close> of the store's writer returns nil the key holds
  exactly the bytes of the writes that returned nil and nothing is left at the staging key; when it
  returns an error the key holds what it held, or the new bytes (an answer was lost, or the staging object could
  not be deleted after the copy); and no key but these two changes.
\<close>

theorem s3_writer_publishes_whole:
  assumes s3: "s3_contract api objs pend" and sched: "\<And>n. mset (sched n) = mset [0..<n]"
    and del: "delete_contract del objs" and nf: "honest_not_found api sched objs notFound"
    and new: "newMultipartWriter api stagingKey contentType w0 = Inr (u, s0)"
    and reach: "mp_reachable api stagingKey u s0 s" and step: "mp_step api stagingKey u s (RetComplete r) s'"
    and keys: "stagingKey \<noteq> finalKey"
    and run: "s3Writer_Complete api del notFound sched stagingKey finalKey r (mp_world s') = (res, fin, w')"
  shows "(res = None \<longrightarrow> objs w' finalKey = Some (mp_acked s) \<and> objs w' stagingKey = None) \<and>
    (res \<noteq> None \<longrightarrow> objs w' finalKey = Some (mp_acked s) \<or> objs w' finalKey = objs (mp_world s) finalKey) \<and>
    (\<forall>k. k \<noteq> stagingKey \<longrightarrow> k \<noteq> finalKey \<longrightarrow> objs w' k = objs (mp_world s) k)"
proof -
  let ?w = "mp_world s'"
  have staged: "objs ?w = (objs (mp_world s))(stagingKey \<mapsto> mp_acked s) \<or> r \<noteq> None \<and> objs ?w = objs (mp_world s)"
    using mp_step_inv [OF s3 step] mp_reachable_inv [OF s3 new reach] by simp
  show ?thesis
  proof (cases r)
    case (Some e)
    then have "res \<noteq> None" "w' = ?w" using run by (auto simp: s3Writer_Complete_def)
    then show ?thesis using staged keys by auto
  next
    case None
    then have O: "objs ?w = (objs (mp_world s))(stagingKey \<mapsto> mp_acked s)" using staged by simp
    obtain rm w1 where m: "S3Store_Move api del notFound sched stagingKey finalKey ?w = (rm, w1)" by (metis surj_pair)
    note moved = s3_move_outcome [OF s3 sched del nf _ keys m, of "mp_acked s"]
    show ?thesis
    proof (cases rm)
      case None
      then have "res = None" "w' = w1" using run m \<open>r = None\<close> by (auto simp: s3Writer_Complete_def)
      then show ?thesis using moved None O keys by auto
    next
      case (Some e)
      then have w': "res \<noteq> None" "w' = snd (S3Store_Delete del notFound stagingKey w1)"
        using run m \<open>r = None\<close> by (auto simp: s3Writer_Complete_def)
      then have "objs w' = (objs w1)(stagingKey := None) \<or> objs w' = objs w1" using s3_delete_outcome [OF del] by simp
      then show ?thesis using moved O keys w'(1) by auto
    qed
  qed
qed

definition mem_delete :: "string \<Rightarrow> mem_world \<Rightarrow> go_error option \<times> mem_world" where
  "mem_delete k w = (None, w\<lparr>mw_objs := (mw_objs w)(k := None)\<rparr>)"

lemma mem_delete_contract: "delete_contract mem_delete mw_objs"
  by (simp add: delete_contract_def mem_delete_def)

lemma never_not_found: "honest_not_found api sched objs (\<lambda>_. False)"
  by (simp add: honest_not_found_def)

theorem s3_writer_publishes_whole_witness:
  "\<exists>s' fin w'. mp_step mem_api ''k'' ''0'' mp_demo_uploaded (RetComplete None) s' \<and>
     s3Writer_Complete mem_api mem_delete (\<lambda>_. False) (\<lambda>n. [0..<n]) ''k'' ''blob'' None (mp_world s') = (None, fin, w') \<and>
     mw_objs w' ''blob'' = Some ''abcd'' \<and> mw_objs w' ''k'' = None"
proof -
  obtain s' where s': "mp_step mem_api ''k'' ''0'' mp_demo_uploaded (RetComplete None) s'"
    using mp_demo_finish by blast
  have objs: "mw_objs (mp_world s') = [''k'' \<mapsto> ''abcd'']"
    using mp_step_inv [OF mem_s3_contract s'] mp_reachable_inv [OF mem_s3_contract mp_demo_new mp_demo_run]
    by (simp add: mp_demo_uploaded_def mp_demo_def)
  obtain res fin w' where run:
    "s3Writer_Complete mem_api mem_delete (\<lambda>_. False) (\<lambda>n. [0..<n]) ''k'' ''blob'' None (mp_world s') = (res, fin, w')"
    by (metis surj_pair)
  have "res = None"
    using run objs
    by (auto simp: s3Writer_Complete_def S3Store_Move_def copyObject_def mem_api_def mem_head_def mem_copy_def ToInt64_def
        maxCopyObjectSize_def Let_def mem_delete_def split: option.splits prod.splits)
  with s3_writer_publishes_whole [OF mem_s3_contract _ mem_delete_contract never_not_found mp_demo_new mp_demo_run s' _ run]
    s' run show ?thesis by (auto simp: mp_demo_uploaded_def)
qed

text \<open>The case of an error after the copy: the blob is published and the writer reports a failure.\<close>

lemma move_fails_after_publishing:
  assumes "copyObject api sched src dst w = (None, w1)" "del src w1 = (Some e, w2)"
  shows "fst (s3Writer_Complete api del nf sched src dst None w) \<noteq> None"
  using assms by (simp add: s3Writer_Complete_def S3Store_Move_def split: prod.splits)

end
