(* ===== verification/PrefixReader.thy ===== *)
theory PrefixReader
  imports RangeReader
begin

text \<open>
  A header held in memory in front of a window of a blob (\<open>blob/prefix_reader.go\<close>).  The blob below is any reader
  that keeps the contract \<open>reader_at\<close>; the reader built on it keeps that contract over the bytes of the
  header followed by the window, so whatever is proved of a client of the contract holds for it as well.
\<close>

section \<open>The reader\<close>

type_synonym 's read_fun = "int \<Rightarrow> nat \<Rightarrow> 's \<Rightarrow> (bytes \<times> go_error option) \<times> 's"

definition PrefixReader_Size :: "bytes \<Rightarrow> int \<Rightarrow> int" where
  "PrefixReader_Size header bodyLen = int (length header) + bodyLen"

text \<open>The part of a read that the window serves: \<open>got\<close> is what the header gave and \<open>eof\<close> that the request was trimmed.\<close>

definition read_window ::
  "'s read_fun \<Rightarrow> int \<Rightarrow> nat \<Rightarrow> bytes \<Rightarrow> bool \<Rightarrow> 's \<Rightarrow> (bytes \<times> go_error option) \<times> 's" where
  "read_window rd bodyAt want got eof s =
     (if want = 0 then ((got, if eof then Some ioEOF else None), s)
      else
        (case rd bodyAt want s of
           ((part, err), s') \<Rightarrow>
             ((got @ part,
               case err of
                 Some e \<Rightarrow> if errors_Is e ioEOF then Some ioEOF else Some e
               | None \<Rightarrow> if eof then Some ioEOF else None), s')))"

definition PrefixReader_ReadAt ::
  "bytes \<Rightarrow> 's read_fun \<Rightarrow> int \<Rightarrow> int \<Rightarrow> 's read_fun" where
  "PrefixReader_ReadAt header rd bodyOffset bodyLen off n s =
     (let size = PrefixReader_Size header bodyLen; h = int (length header) in
      if off < 0 then (([], Some (Sentinel ''blob.PrefixReader: negative offset'')), s)
      else if size \<le> off then (([], Some ioEOF), s)
      else
        (let eof = size - off < int n;
             want = (if eof then nat (size - off) else n);
             hn = (if off < h then min (nat (h - off)) want else 0);
             got = take hn (drop (nat off) header)
         in read_window rd (bodyOffset + (off + int hn - h)) (want - hn) got eof s))"

section \<open>It keeps the contract of a reader\<close>

text \<open>The window lies inside the blob.\<close>

definition window_ok :: "bytes \<Rightarrow> int \<Rightarrow> int \<Rightarrow> bool" where
  "window_ok content bodyOffset bodyLen = (0 \<le> bodyOffset \<and> 0 \<le> bodyLen \<and> bodyOffset + bodyLen \<le> int (length content))"

text \<open>The whole: what the reader of the header and the window is, as a reader of one object.\<close>

definition whole :: "bytes \<Rightarrow> bytes \<Rightarrow> int \<Rightarrow> int \<Rightarrow> bytes" where
  "whole content header bodyOffset bodyLen = header @ slice content bodyOffset (bodyOffset + bodyLen)"

lemma whole_length_of: "window_ok content bodyOffset bodyLen \<Longrightarrow> int (length (whole content header bodyOffset bodyLen)) = PrefixReader_Size header bodyLen"
  by (simp add: whole_def window_ok_def length_slice PrefixReader_Size_def)

context reader_at
begin

lemma read_window_contract:
  assumes "ok s" "0 \<le> at" "read_window read_at at want got eof s = ((out, err), s')"
  shows "ok s' \<and> (\<exists>part. out = got @ part \<and> length part \<le> want \<and> part = take (length part) (drop (nat at) content)) \<and>
    (err = None \<longrightarrow> length out = length got + want \<and> \<not> eof) \<and>
    (\<forall>e. err = Some e \<longrightarrow> errors_Is e ioEOF \<longrightarrow>
       (length out = length got + want \<and> eof) \<or> length content \<le> nat at + (length out - length got) \<and> 0 < want)"
proof (cases "want = 0")
  case True
  then show ?thesis using assms by (auto simp: read_window_def split: if_splits)
next
  case False
  obtain part e s1 where r: "read_at at want s = ((part, e), s1)" by (metis surj_pair)
  note facts = read_ok [OF assms(1) r] read_prefix [OF assms(1,2) r]
  have out: "out = got @ part" "s' = s1"
    "err = (case e of Some x \<Rightarrow> if errors_Is x ioEOF then Some ioEOF else Some x | None \<Rightarrow> if eof then Some ioEOF else None)"
    using assms(3) False r by (auto simp: read_window_def)
  show ?thesis
  proof (cases e)
    case None
    then have "length part = want" using read_full [OF assms(1,2), of want part s1] r by simp
    then show ?thesis using facts out None by auto
  next
    case (Some x)
    have "errors_Is x ioEOF \<Longrightarrow> length content \<le> nat at + length part"
      using read_eof [OF assms(1,2), of want part x s1] r Some by simp
    then show ?thesis using facts out Some False by auto
  qed
qed


lemma prefix_read:
  assumes "ok s" "window_ok content bodyOffset bodyLen" "0 \<le> off"
    and run: "PrefixReader_ReadAt header read_at bodyOffset bodyLen off n s = ((out, err), s')"
  shows "ok s' \<and> length out \<le> n \<and> out = take (length out) (drop (nat off) (whole content header bodyOffset bodyLen)) \<and>
    (err = None \<longrightarrow> length out = n) \<and>
    (\<forall>e. err = Some e \<longrightarrow> errors_Is e ioEOF \<longrightarrow> length (whole content header bodyOffset bodyLen) \<le> nat off + length out)"
proof (cases "PrefixReader_Size header bodyLen \<le> off")
  case True
  then show ?thesis
    using assms whole_length_of [OF assms(2), of header] by (auto simp: PrefixReader_ReadAt_def)
next
  case False
  let ?size = "PrefixReader_Size header bodyLen"
  define eof where "eof = (?size - off < int n)"
  define want where "want = (if eof then nat (?size - off) else n)"
  define hn where "hn = (if off < int (length header) then min (nat (int (length header) - off)) want else 0)"
  define got where "got = take hn (drop (nat off) header)"
  define at where "at = bodyOffset + (off + int hn - int (length header))"
  have rd: "read_window read_at at (want - hn) got eof s = ((out, err), s')"
    using run False assms(3)
    unfolding PrefixReader_ReadAt_def Let_def eof_def [symmetric] want_def [symmetric] hn_def [symmetric]
      got_def [symmetric] at_def [symmetric] by simp
  have hn_le: "hn \<le> length header - nat off" "hn \<le> want" using assms(3) by (auto simp: hn_def)
  have got: "length got = hn" using hn_le by (simp add: got_def)
  have want: "want \<le> n" "int want \<le> ?size - off" "eof \<Longrightarrow> int want = ?size - off" "\<not> eof \<Longrightarrow> want = n"
    using False by (auto simp: want_def eof_def)
  have size: "int (length (whole content header bodyOffset bodyLen)) = ?size" by (rule whole_length_of [OF assms(2)])
  have rest: "drop (nat off) (whole content header bodyOffset bodyLen) =
      drop (nat off) header @ drop (nat off - length header) (slice content bodyOffset (bodyOffset + bodyLen))"
    by (simp add: whole_def)
  show ?thesis
  proof (cases "hn = want")
    case True
    then have o: "out = got" "err = (if eof then Some ioEOF else None)" "s' = s" using rd by (auto simp: read_window_def)
    have "got = take (length got) (drop (nat off) (whole content header bodyOffset bodyLen))"
      using hn_le got by (simp add: rest got_def)
    moreover have "eof \<Longrightarrow> length (whole content header bodyOffset bodyLen) \<le> nat off + length got"
      using want(3) size got True assms(3) by linarith
    ultimately show ?thesis using o assms(1) got True want by auto
  next
    case False
    then have "hn < want" using hn_le by simp
    then have got': "got = drop (nat off) header" and hn': "hn = length header - nat off"
      using assms(3) by (auto simp: got_def hn_def split: if_splits)
    have at: "nat at = nat bodyOffset + (nat off - length header)" "0 \<le> at"
      using assms(2,3) by (auto simp: at_def hn' window_ok_def)
    from read_window_contract [OF assms(1) at(2) rd]
    obtain part where part: "ok s'" "out = got @ part" "length part \<le> want - hn" "part = take (length part) (drop (nat at) content)"
      and none: "err = None \<Longrightarrow> length out = length got + (want - hn) \<and> \<not> eof"
      and ends: "\<And>e. err = Some e \<Longrightarrow> errors_Is e ioEOF \<Longrightarrow>
         length out = length got + (want - hn) \<and> eof \<or> length content \<le> nat at + (length out - length got) \<and> 0 < want - hn"
      by blast
    have room: "length part + (nat off - length header) \<le> nat bodyLen"
      using part(3) want(2) assms(2,3) hn' by (simp add: PrefixReader_Size_def window_ok_def)
    have "part = take (length part) (drop (nat off - length header) (slice content bodyOffset (bodyOffset + bodyLen)))"
      using part(4) room at(1) by (auto simp: slice_def drop_take min_def add.commute)
    then have pre: "out = take (length out) (drop (nat off) (whole content header bodyOffset bodyLen))"
      by (simp add: rest part(2) got')
    have le: "length out \<le> n" using part(2,3) got want(1) \<open>hn < want\<close> by simp
    have eofs: "length (whole content header bodyOffset bodyLen) \<le> nat off + length out" if "err = Some e" "errors_Is e ioEOF" for e
      using ends [OF that]
    proof
      assume "length out = length got + (want - hn) \<and> eof"
      then show ?thesis using want(3) size got \<open>hn < want\<close> assms(3) by linarith
    next
      assume "length content \<le> nat at + (length out - length got) \<and> 0 < want - hn"
      then have "length content \<le> nat bodyOffset + (nat off - length header) + length part"
        using at got' part(2) by simp
      then have "int (length content) \<le> bodyOffset + int (nat off - length header) + int (length part)"
        using assms(2) unfolding window_ok_def by linarith
      then show ?thesis using size assms(2,3) part(2) got hn' \<open>hn < want\<close> want(2)
        by (simp add: PrefixReader_Size_def window_ok_def) linarith
    qed
    show ?thesis using part(1) pre le eofs none got want \<open>hn < want\<close> by auto
  qed
qed

lemma prefix_is_reader:
  "reader_at (PrefixReader_ReadAt header read_at bodyOffset bodyLen)
     (\<lambda>s. ok s \<and> window_ok content bodyOffset bodyLen) (whole content header bodyOffset bodyLen)"
proof
  fix s off n out err s'
  assume ok: "ok s \<and> window_ok content bodyOffset bodyLen"
    and run: "PrefixReader_ReadAt header read_at bodyOffset bodyLen off n s = ((out, err), s')"
  show "ok s' \<and> window_ok content bodyOffset bodyLen"
  proof (cases "0 \<le> off")
    case True
    then show ?thesis using prefix_read [OF _ _ True run] ok by blast
  next
    case False
    then show ?thesis using ok run by (simp add: PrefixReader_ReadAt_def Let_def)
  qed
qed (use prefix_read in blast)+

end

interpretation s3_prefix: reader_at "PrefixReader_ReadAt header (ReaderAt_ReadAt api key (int (length content))) bodyOffset bodyLen"
  "\<lambda>s. (reader_inv api objs pend key content s \<and> reader_calm api s) \<and> window_ok content bodyOffset bodyLen"
  "whole content header bodyOffset bodyLen"
  by (rule s3r.prefix_is_reader)

section \<open>Over S3\<close>

text \<open>
  Reading behind a header is reading the two as one object.  Over an object served by S3, whatever requests fail with
  errors other than \<open>io.EOF\<close>,
  a read of a reader of \<open>header\<close> in front of the window returns bytes of header and window at that offset: all
  of them when there is no error, and \<open>io.EOF\<close> only at the end; and the same holds of every later read.
\<close>

theorem prefixed_reads_are_one_object:
  assumes "reader_inv api objs pend key content s \<and> reader_calm api s" "window_ok content bodyOffset bodyLen" "0 \<le> off"
    and "PrefixReader_ReadAt header (ReaderAt_ReadAt api key (int (length content))) bodyOffset bodyLen off n s = ((out, err), s')"
  shows "(reader_inv api objs pend key content s' \<and> reader_calm api s') \<and>
    out = take (length out) (drop (nat off) (header @ slice content bodyOffset (bodyOffset + bodyLen))) \<and>
    length out \<le> n \<and> (err = None \<longrightarrow> length out = n) \<and>
    (\<forall>e. err = Some e \<longrightarrow> errors_Is e ioEOF \<longrightarrow> int (length header) + bodyLen \<le> off + int (length out))"
proof -
  have "int (length header) + bodyLen \<le> off + int (length out)"
    if "length (whole content header bodyOffset bodyLen) \<le> nat off + length out"
    using that whole_length_of [OF assms(2), of header] assms(3) by (simp add: PrefixReader_Size_def)
  then show ?thesis using s3r.prefix_read [OF assms] unfolding whole_def by metis
qed

end
