(* ===== verification/ContentAddress.thy ===== *)
theory ContentAddress
  imports BaseEncoding Errors
begin

text \<open>
  BDASL content identifiers (\<open>bdasl/bdasl.go\<close>).  BLAKE3 is a parameter of which only the length of a digest is used; that the streaming
  hash of a sequence of writes is the hash of their concatenation is the parameter \<open>hash\<close> being a function of
  the bytes.  In base32 the decoder's treatment of byte \<open>0xff\<close> as padding is left out (it is an invalid character).
\<close>

section \<open>Identifiers\<close>

definition b32_alphabet :: string where
  "b32_alphabet = ''abcdefghijklmnopqrstuvwxyz234567''"

definition cid_header :: bytes where
  "cid_header = [CHR 0x01, CHR 0x55, CHR 0x1E, CHR 0x20]"

text \<open>The array of 36 bytes keeps its zeros where the digest is short and drops what is too long.\<close>

definition encodeCID :: "bytes \<Rightarrow> string" where
  "encodeCID digest =
     CHR ''b'' # encode_in b32_alphabet 5 (cid_header @ take 32 (digest @ replicate (32 - length digest) (CHR 0x00)))"

definition CID :: "(bytes \<Rightarrow> bytes) \<Rightarrow> bytes \<Rightarrow> string" where
  "CID hash data = encodeCID (hash data)"

definition Verify :: "(bytes \<Rightarrow> bytes) \<Rightarrow> string \<Rightarrow> bytes \<Rightarrow> go_error option" where
  "Verify hash cid data = (if cid \<noteq> CID hash data then Some (Sentinel ''CID mismatch'') else None)"

text \<open>\<open>base32.DecodeString\<close> without padding: line ends are skipped; a final group of 1, 3 or 6 characters decodes to
  nothing.\<close>

definition b32_decode :: "string \<Rightarrow> bytes option" where
  "b32_decode s =
     (let t = filter (\<lambda>c. c \<noteq> CHR 0x0A \<and> c \<noteq> CHR 0x0D) s;
          whole = (if length t mod 8 \<in> {1, 3, 6} then take (length t - length t mod 8) t else t)
      in if list_all (\<lambda>c. c \<in> set b32_alphabet) t then decode_in b32_alphabet 5 whole else None)"

text \<open>The value, an error, or a run-time panic: \<open>cid[:1]\<close> of the empty string is out of range.\<close>

datatype 'a outcome = Value 'a | Failed go_error | Panic

definition Parse :: "string \<Rightarrow> bytes outcome" where
  "Parse cid =
     (if cid = [] then Panic
      else if hd cid \<noteq> CHR ''b'' then Failed (Sentinel ''unsupported CID prefix'')
      else
        (case b32_decode (tl cid) of
           None \<Rightarrow> Failed (Sentinel ''base32 decode'')
         | Some bin \<Rightarrow>
             if length bin \<noteq> 36 then Failed (Sentinel ''unexpected CID length'')
             else if bin ! 0 \<noteq> CHR 0x01 then Failed (Sentinel ''unsupported CID version'')
             else if bin ! 2 \<noteq> CHR 0x1E then Failed (Sentinel ''unsupported hash type'')
             else if bin ! 3 \<noteq> CHR 0x20 then Failed (Sentinel ''unsupported hash size'')
             else Value (drop 4 bin)))"

section \<open>Identifiers read back\<close>

lemma b32_alphabet_ok: "distinct b32_alphabet" "length b32_alphabet = 2 ^ 5"
  "CHR 0x0A \<notin> set b32_alphabet" "CHR 0x0D \<notin> set b32_alphabet"
  by (simp_all add: b32_alphabet_def)

lemma group_bits_count: "0 < k \<Longrightarrow> length (group_bits k bs) = (length bs + k - 1) div k"
proof (induction k bs rule: group_bits.induct)
  case (1 k bs)
  show ?case
  proof (cases "bs = []")
    case True
    then show ?thesis using 1(2) by (simp add: group_bits.simps)
  next
    case False
    then have "length (group_bits k bs) = Suc ((length bs - k + k - 1) div k)"
      using 1 by (subst group_bits.simps) simp
    also have "\<dots> = (length bs + k - 1) div k"
    proof (cases "length bs \<le> k")
      case True
      obtain m where m: "length bs = Suc m" using False by (cases bs) auto
      with True have "m < k" by simp
      then have "(k + m) div k = 1" using 1(2) div_add_self1 [of k m] by simp
      with True m show ?thesis by (simp add: add.commute)
    next
      case False
      then have "length bs + k - 1 = k + (length bs - k + k - 1)" using 1(2) by simp
      then show ?thesis using 1(2) div_add_self1 [of k "length bs - k + k - 1"] by (metis Suc_eq_plus1 neq0_conv)
    qed
    finally show ?thesis .
  qed
qed

lemma byte_bits_total: "length (concat (map byte_bits s)) = 8 * length s"
  by (induction s) (simp_all add: byte_bits_def)

lemma b32_decode_encode:
  "b32_decode (encode_in b32_alphabet 5 bin) = Some bin"
proof -
  let ?t = "encode_in b32_alphabet 5 bin"
  have set: "set ?t \<subseteq> set b32_alphabet" using encode_in_alphabet [OF b32_alphabet_ok(2)] .
  have clean: "filter (\<lambda>c. c \<noteq> CHR 0x0A \<and> c \<noteq> CHR 0x0D) ?t = ?t"
    using set b32_alphabet_ok(3,4) by (intro filter_True) blast
  have len: "length ?t = (8 * length bin + 4) div 5"
    by (simp add: encode_in_def group_bits_count byte_bits_total)
  have "length ?t mod 8 \<notin> {1, 3, 6}"
  proof -
    have "length bin = 5 * (length bin div 5) + length bin mod 5" by simp
    then obtain q r where "length bin = 5 * q + r" "r < 5" by (metis mod_less_divisor zero_less_numeral)
    then have "length ?t = 8 * q + (8 * r + 4) div 5" unfolding len by (simp add: algebra_simps)
    moreover from \<open>r < 5\<close> have "r \<in> {0, 1, 2, 3, 4}" by auto
    ultimately show ?thesis by auto
  qed
  then show ?thesis
    using decode_encode [OF b32_alphabet_ok(1,2), of bin] set
    by (simp add: b32_decode_def clean Let_def list_all_iff subset_iff)
qed

lemma Parse_encodeCID:
  assumes "length d = 32"
  shows "Parse (encodeCID d) = Value d"
proof -
  have "b32_decode (encode_in b32_alphabet 5 (cid_header @ d)) = Some (cid_header @ d)"
    by (rule b32_decode_encode)
  then show ?thesis
    using assms by (simp add: Parse_def encodeCID_def cid_header_def)
qed

text \<open>The codec byte is not looked at: an identifier of another codec parses as well.\<close>

lemma Parse_any_codec:
  assumes "length d = 32"
  shows "Parse (CHR ''b'' # encode_in b32_alphabet 5 (CHR 0x01 # codec # CHR 0x1E # CHR 0x20 # d)) = Value d"
proof -
  let ?bin = "CHR 0x01 # codec # CHR 0x1E # CHR 0x20 # d"
  have "b32_decode (encode_in b32_alphabet 5 ?bin) = Some ?bin" by (rule b32_decode_encode)
  then show ?thesis using assms by (simp add: Parse_def)
qed

lemma Parse_empty_panics: "Parse [] = Panic"
  by (simp add: Parse_def)

lemma encodeCID_inj:
  assumes "length d = 32" "length d' = 32"
  shows "encodeCID d = encodeCID d' \<longleftrightarrow> d = d'"
  using assms encode_in_inj [OF b32_alphabet_ok(1,2)] by (simp add: encodeCID_def)


section \<open>Properties\<close>

text \<open>
  C33. Content identifiers read back and tell contents apart.  For any hash of 32 bytes the identifier of some data parses
  to its digest; \<open>Verify\<close> accepts data for that identifier exactly when it has the same digest; and two
  identifiers are equal exactly when the digests are.
\<close>

theorem content_ids_read_back:
  assumes "\<And>data. length (hash data) = 32"
  shows "Parse (CID hash a) = Value (hash a) \<and> (Verify hash (CID hash a) b = None \<longleftrightarrow> hash b = hash a) \<and>
    (CID hash a = CID hash b \<longleftrightarrow> hash a = hash b)"
  using Parse_encodeCID encodeCID_inj assms by (auto simp: CID_def Verify_def)

definition demo_hash :: "bytes \<Rightarrow> bytes" where
  "demo_hash data = take 32 (data @ replicate 32 (CHR 0x00))"

lemma demo_hash_length: "length (demo_hash data) = 32"
  by (simp add: demo_hash_def)

theorem content_ids_read_back_witness:
  "Parse (CID demo_hash ''abc'') = Value (demo_hash ''abc'') \<and> Verify demo_hash (CID demo_hash ''abc'') ''abd'' \<noteq> None"
  using content_ids_read_back [where hash = demo_hash and a = "''abc''" and b = "''abd''"] demo_hash_length
  by (simp add: demo_hash_def)

end
