(* ===== verification/Metafile.thy ===== *)
theory Metafile
  imports ContentAddress BlobStore
begin

text \<open>
  The playback index of a recording (\<open>vod/metafile.go\<close>): the builder that follows the stream of events of the muxer
  and the files it writes.  A Go map that is iterated is the list of its entries in the order of one iteration, with
  distinct keys.  The catalog and the events come from the muxer's package; of the catalog what \<open>builder_Finalize\<close>
  reads is kept.  JSON is a parameter.  Sizes of slices stay below \<open>2 ^ 63\<close>.
\<close>

section \<open>Decode time of a segment\<close>

text \<open>\<open>binary.BigEndian\<close>.\<close>

definition be_value :: "bytes \<Rightarrow> nat" where
  "be_value bs = foldl (\<lambda>n c. 256 * n + of_char c) 0 bs"

definition tfdt_value :: "bytes \<Rightarrow> nat option" where
  "tfdt_value payload =
     (if payload = [] then None
      else if hd payload = CHR 0x00 \<and> 8 \<le> length payload then Some (be_value (take 4 (drop 4 payload)))
      else if hd payload = CHR 0x01 \<and> 12 \<le> length payload then Some (be_value (take 8 (drop 4 payload)))
      else None)"

text \<open>The walk over boxes: into \<open>moof\<close> and \<open>traf\<close>, past everything else.  A box has at least 8 bytes, so it ends.\<close>

function firstTFDT :: "bytes \<Rightarrow> nat option" where
  "firstTFDT box =
     (if length box < 8 then None
      else
        (let size' = be_value (take 4 box); typ = take 4 (drop 4 box) in
         if size' < 8 \<or> length box < size' then None
         else
           (let payload = drop 8 (take size' box);
                found =
                  (if typ = ''moof'' \<or> typ = ''traf'' then firstTFDT payload
                   else if typ = ''tfdt'' then tfdt_value payload else None)
            in case found of Some v \<Rightarrow> Some v | None \<Rightarrow> firstTFDT (drop size' box))))"
  by pat_completeness auto
termination
  by (relation "measure length") auto

declare firstTFDT.simps [simp del]

section \<open>The index\<close>

record MetafileSegment =
  sg_Offset :: int
  sg_Size :: int
  sg_DurationTicks :: nat
  sg_SampleCount :: nat
  sg_Discontinuity :: bool

record MetafileTrack =
  tk_Type :: string
  tk_Codec :: string
  tk_Timescale :: nat
  tk_InitCID :: string
  tk_BlobCID :: string
  tk_BlobSize :: int
  tk_Segments :: "MetafileSegment list"
  tk_Width :: nat
  tk_Height :: nat
  tk_Channels :: nat
  tk_SampleRate :: nat

record Metafile =
  mf_BlobCID :: string
  mf_BlobSize :: int
  mf_Tracks :: "(string \<times> MetafileTrack) list"
  mf_FlatHeaderSize :: int

text \<open>What the builder reads of the muxer's catalog and events.\<close>

record muxl_config =
  mc_TrackID :: nat
  mc_Codec :: string
  mc_Timescale :: nat
  mc_CodedWidth :: nat
  mc_CodedHeight :: nat
  mc_NumberOfChannels :: nat
  mc_SampleRate :: nat

record muxl_catalog =
  ct_Video :: "muxl_config list option"
  ct_Audio :: "muxl_config list option"

record muxl_event =
  ev_Type :: string
  ev_Catalog :: "muxl_catalog option"
  ev_Data :: bytes
  ev_TrackInits :: "(string \<times> bytes) list"
  ev_Tracks :: "(string \<times> bytes) list"
  ev_Durations :: "string \<Rightarrow> nat"
  ev_SampleCounts :: "string \<Rightarrow> nat"

section \<open>The builder\<close>

text \<open>The tracks' segments stay in the order in which the tracks first appeared.\<close>

record metafileBuilder =
  mb_catalog :: "muxl_catalog option"
  mb_trackInitCIDs :: "string \<rightharpoonup> string"
  mb_trackSegments :: "(string \<times> MetafileSegment list) list"
  mb_runningOffset :: int
  mb_seenInit :: bool
  mb_leadingInitInBlob :: bool
  mb_lastTFDT :: "string \<rightharpoonup> nat"

definition newMetafileBuilder :: metafileBuilder where
  "newMetafileBuilder =
     \<lparr>mb_catalog = None, mb_trackInitCIDs = Map.empty, mb_trackSegments = [], mb_runningOffset = 0,
      mb_seenInit = False, mb_leadingInitInBlob = True, mb_lastTFDT = Map.empty\<rparr>"

definition newFragmentMetafileBuilder :: metafileBuilder where
  "newFragmentMetafileBuilder = newMetafileBuilder\<lparr>mb_leadingInitInBlob := False\<rparr>"

definition BlobsPrefix :: string where "BlobsPrefix = ''blobs/''"

definition blob_key :: "string \<Rightarrow> string" where
  "blob_key cid = BlobsPrefix @ cid @ ''.mp4''"

definition meta_key :: "string \<Rightarrow> string" where
  "meta_key cid = BlobsPrefix @ cid @ ''.json''"

definition writeInitBlob ::
  "('w, 'h) blob_store \<Rightarrow> (bytes \<Rightarrow> bytes) \<Rightarrow> bytes \<Rightarrow> 'w \<Rightarrow> (go_error + string) \<times> 'w" where
  "writeInitBlob st hash initBytes w =
     (let cid = CID hash initBytes in
      case put_blob st (''open init writer'', ''write init bytes'', ''complete init upload'') None (blob_key cid) [initBytes] w of
        (Some e, w1) \<Rightarrow> (Inl e, w1)
      | (None, w1) \<Rightarrow> (Inr cid, w1))"

fun write_inits ::
  "('w, 'h) blob_store \<Rightarrow> (bytes \<Rightarrow> bytes) \<Rightarrow> (string \<times> bytes) list \<Rightarrow> metafileBuilder \<Rightarrow> 'w \<Rightarrow>
   go_error option \<times> metafileBuilder \<times> 'w" where
  "write_inits st hash [] b w = (None, b, w)"
| "write_inits st hash ((tid, initBytes) # rest) b w =
     (case writeInitBlob st hash initBytes w of
        (Inl e, w1) \<Rightarrow> (Some (WrapErr ''write init blob for track'' [e]), b, w1)
      | (Inr cid, w1) \<Rightarrow>
          write_inits st hash rest (b\<lparr>mb_trackInitCIDs := (mb_trackInitCIDs b)(tid \<mapsto> cid)\<rparr>) w1)"

text \<open>Append to the entry of a key, which is made if there is none.\<close>

fun append_at :: "'k \<Rightarrow> 'a \<Rightarrow> ('k \<times> 'a list) list \<Rightarrow> ('k \<times> 'a list) list" where
  "append_at k x [] = [(k, [x])]"
| "append_at k x ((k', xs) # rest) = (if k = k' then (k', xs @ [x]) # rest else (k', xs) # append_at k x rest)"

definition observe_chunk :: "muxl_event \<Rightarrow> string \<times> bytes \<Rightarrow> metafileBuilder \<Rightarrow> metafileBuilder" where
  "observe_chunk ev tc b =
     (let (tid, chunk) = tc; tfdt = firstTFDT chunk;
          disc = (case (tfdt, mb_lastTFDT b tid) of (Some t, Some l) \<Rightarrow> t < l | _ \<Rightarrow> False);
          seg = \<lparr>sg_Offset = mb_runningOffset b, sg_Size = int (length chunk), sg_DurationTicks = ev_Durations ev tid,
                 sg_SampleCount = ev_SampleCounts ev tid, sg_Discontinuity = disc\<rparr>
      in b\<lparr>mb_lastTFDT := (case tfdt of Some t \<Rightarrow> (mb_lastTFDT b)(tid \<mapsto> t) | None \<Rightarrow> mb_lastTFDT b),
           mb_trackSegments := append_at tid seg (mb_trackSegments b),
           mb_runningOffset := mb_runningOffset b + int (length chunk)\<rparr>)"

definition sorted_chunks :: "muxl_event \<Rightarrow> (string \<times> bytes) list" where
  "sorted_chunks ev = sort_key fst (ev_Tracks ev)"

definition builder_Observe ::
  "('w, 'h) blob_store \<Rightarrow> (bytes \<Rightarrow> bytes) \<Rightarrow> muxl_event \<Rightarrow> metafileBuilder \<Rightarrow> 'w \<Rightarrow>
   go_error option \<times> metafileBuilder \<times> 'w" where
  "builder_Observe st hash ev b w =
     (if ev_Type ev = ''init'' then
        (let b0 = b\<lparr>mb_seenInit := True, mb_catalog := ev_Catalog ev\<rparr> in
         case write_inits st hash (ev_TrackInits ev) b0 w of
           (Some e, b1, w1) \<Rightarrow> (Some e, b1, w1)
         | (None, b1, w1) \<Rightarrow>
             (None, b1\<lparr>mb_runningOffset := (if mb_leadingInitInBlob b then int (length (ev_Data ev)) else 0)\<rparr>, w1))
      else if ev_Type ev = ''segment'' \<or> ev_Type ev = ''signed-segment''
      then (None, fold (observe_chunk ev) (sorted_chunks ev) b, w)
      else (None, b, w))"

text \<open>The loop over the events keeps the first error and goes on.\<close>

fun observe_all ::
  "('w, 'h) blob_store \<Rightarrow> (bytes \<Rightarrow> bytes) \<Rightarrow> muxl_event list \<Rightarrow> go_error option \<Rightarrow> metafileBuilder \<Rightarrow> 'w \<Rightarrow>
   go_error option \<times> metafileBuilder \<times> 'w" where
  "observe_all st hash [] err b w = (err, b, w)"
| "observe_all st hash (ev # evs) err b w =
     (case builder_Observe st hash ev b w of
        (e, b1, w1) \<Rightarrow> observe_all st hash evs (case err of Some x \<Rightarrow> Some x | None \<Rightarrow> e) b1 w1)"

text \<open>\<open>strconv.ParseUint(tid, 10, 32)\<close>.\<close>

definition ParseTrackID :: "string \<Rightarrow> nat option" where
  "ParseTrackID s =
     (if s \<noteq> [] \<and> list_all dec_digit s \<and> digits_value s < 2 ^ 32 then Some (digits_value s) else None)"

definition find_config :: "nat \<Rightarrow> muxl_config list option \<Rightarrow> muxl_config option" where
  "find_config tid cs = (case cs of None \<Rightarrow> None | Some l \<Rightarrow> find (\<lambda>c. mc_TrackID c = tid) l)"

definition with_config :: "muxl_catalog option \<Rightarrow> string \<Rightarrow> MetafileTrack \<Rightarrow> MetafileTrack" where
  "with_config catalog tid track =
     (case (catalog, ParseTrackID tid) of
        (Some c, Some n) \<Rightarrow>
          (case find_config n (ct_Video c) of
             Some v \<Rightarrow> track\<lparr>tk_Type := ''video'', tk_Codec := mc_Codec v, tk_Timescale := mc_Timescale v,
                            tk_Width := mc_CodedWidth v, tk_Height := mc_CodedHeight v\<rparr>
           | None \<Rightarrow>
               (case find_config n (ct_Audio c) of
                  Some a \<Rightarrow> track\<lparr>tk_Type := ''audio'', tk_Codec := mc_Codec a, tk_Timescale := mc_Timescale a,
                                 tk_Channels := mc_NumberOfChannels a, tk_SampleRate := mc_SampleRate a\<rparr>
                | None \<Rightarrow> track))
      | _ \<Rightarrow> track)"

definition builder_Finalize :: "string \<Rightarrow> int \<Rightarrow> metafileBuilder \<Rightarrow> Metafile" where
  "builder_Finalize cid size' b =
     \<lparr>mf_BlobCID = cid, mf_BlobSize = size',
      mf_Tracks = map (\<lambda>(tid, segments).
         (tid, with_config (mb_catalog b) tid
            \<lparr>tk_Type = ''unknown'', tk_Codec = [], tk_Timescale = 0,
             tk_InitCID = (case mb_trackInitCIDs b tid of None \<Rightarrow> '''' | Some c \<Rightarrow> c),
             tk_BlobCID = cid, tk_BlobSize = size', tk_Segments = segments,
             tk_Width = 0, tk_Height = 0, tk_Channels = 0, tk_SampleRate = 0\<rparr>)) (mb_trackSegments b),
      mf_FlatHeaderSize = 0\<rparr>"

text \<open>\<open>marshal\<close> and \<open>unmarshal\<close> stand for the encoding of the index as JSON.\<close>

definition writeMetafile ::
  "('w, 'h) blob_store \<Rightarrow> (Metafile \<Rightarrow> bytes) \<Rightarrow> string \<Rightarrow> Metafile \<Rightarrow> 'w \<Rightarrow> go_error option \<times> 'w" where
  "writeMetafile st marshal cid m w =
     put_blob st (''open metafile writer'', ''write metafile'', ''complete metafile'') None (meta_key cid) [marshal m] w"

definition readMetafile ::
  "('w, 'h) blob_store \<Rightarrow> (bytes \<Rightarrow> go_error + Metafile) \<Rightarrow> string \<Rightarrow> 'w \<Rightarrow> (go_error + Metafile) \<times> 'w" where
  "readMetafile st unmarshal cid w =
     (case readWholeBlob st (meta_key cid) w of
        (Inl e, w1) \<Rightarrow> (Inl (WrapErr ''open metafile'' [e]), w1)
      | (Inr bs, w1) \<Rightarrow>
          (case unmarshal bs of
             Inl e \<Rightarrow> (Inl (WrapErr ''decode metafile'' [e]), w1)
           | Inr m \<Rightarrow> (Inr m, w1)))"

section \<open>The index describes the blob\<close>

text \<open>The chunks of a stream in the order of its bytes, and those of one track.\<close>

type_synonym chunk_item = "muxl_event \<times> string \<times> bytes"

definition is_segment :: "muxl_event \<Rightarrow> bool" where
  "is_segment ev = (ev_Type ev = ''segment'' \<or> ev_Type ev = ''signed-segment'')"

definition stream_items :: "muxl_event list \<Rightarrow> chunk_item list" where
  "stream_items evs = concat (map (\<lambda>ev. if is_segment ev then map (Pair ev) (sorted_chunks ev) else []) evs)"

definition items_bytes :: "chunk_item list \<Rightarrow> bytes" where
  "items_bytes xs = concat (map (\<lambda>(ev, tid, chunk). chunk) xs)"

definition track_items :: "string \<Rightarrow> chunk_item list \<Rightarrow> chunk_item list" where
  "track_items tid xs = filter (\<lambda>(ev, t, chunk). t = tid) xs"

text \<open>Where a sequence of decode times goes back behind the latest one that is known.\<close>

fun jumps :: "nat option \<Rightarrow> nat option list \<Rightarrow> bool list" where
  "jumps latest [] = []"
| "jumps latest (t # ts) =
     (case (latest, t) of (Some l, Some x) \<Rightarrow> x < l | _ \<Rightarrow> False) # jumps (case t of None \<Rightarrow> latest | Some x \<Rightarrow> t) ts"

lemma append_at_keys: "fst ` set (append_at k x l) = insert k (fst ` set l)"
proof (induction l)
  case (Cons a l)
  then show ?case by (cases a) (simp add: insert_commute)
qed simp

lemma append_at_distinct: "distinct (map fst l) \<Longrightarrow> distinct (map fst (append_at k x l))"
proof (induction l)
  case (Cons a l)
  then show ?case using append_at_keys [of k x l] by (cases a) auto
qed simp

lemma append_at_map_of:
  "map_of (append_at k x l) = (map_of l)(k \<mapsto> (case map_of l k of None \<Rightarrow> [] | Some xs \<Rightarrow> xs) @ [x])"
  by (induction l) (auto simp: fun_eq_iff)

text \<open>The segments of one track after the chunks \<open>xs\<close>, from the offset and the latest decode time.\<close>

fun expected :: "string \<Rightarrow> int \<Rightarrow> nat option \<Rightarrow> chunk_item list \<Rightarrow> MetafileSegment list" where
  "expected tid off latest [] = []"
| "expected tid off latest ((ev, t, chunk) # rest) =
     (if t = tid
      then \<lparr>sg_Offset = off, sg_Size = int (length chunk), sg_DurationTicks = ev_Durations ev tid,
            sg_SampleCount = ev_SampleCounts ev tid,
            sg_Discontinuity = (case (latest, firstTFDT chunk) of (Some l, Some x) \<Rightarrow> x < l | _ \<Rightarrow> False)\<rparr>
        # expected tid (off + int (length chunk))
            (case firstTFDT chunk of None \<Rightarrow> latest | Some x \<Rightarrow> Some x) rest
      else expected tid (off + int (length chunk)) latest rest)"

definition segments_of :: "metafileBuilder \<Rightarrow> string \<Rightarrow> MetafileSegment list" where
  "segments_of b tid = (case map_of (mb_trackSegments b) tid of None \<Rightarrow> [] | Some s \<Rightarrow> s)"

lemma fold_observe:
  "distinct (map fst (mb_trackSegments b)) \<Longrightarrow>
   (let b' = fold (\<lambda>(ev, tc). observe_chunk ev tc) xs b in
    segments_of b' tid = segments_of b tid @ expected tid (mb_runningOffset b) (mb_lastTFDT b tid) xs \<and>
    fst ` set (mb_trackSegments b') = fst ` set (mb_trackSegments b) \<union> (\<lambda>(ev, t, c). t) ` set xs \<and>
    distinct (map fst (mb_trackSegments b')) \<and> mb_catalog b' = mb_catalog b \<and> mb_trackInitCIDs b' = mb_trackInitCIDs b)"
proof (induction xs arbitrary: b)
  case Nil
  then show ?case by (simp add: Let_def)
next
  case (Cons a xs)
  obtain ev t chunk where a: "a = (ev, t, chunk)" by (metis surj_pair)
  define b1 where "b1 = observe_chunk ev (t, chunk) b"
  have f: "mb_runningOffset b1 = mb_runningOffset b + int (length chunk)" "mb_catalog b1 = mb_catalog b"
    "mb_trackInitCIDs b1 = mb_trackInitCIDs b" "fst ` set (mb_trackSegments b1) = insert t (fst ` set (mb_trackSegments b))"
    "distinct (map fst (mb_trackSegments b1))"
    "mb_lastTFDT b1 tid = (if t = tid then (case firstTFDT chunk of None \<Rightarrow> mb_lastTFDT b tid | Some x \<Rightarrow> Some x) else mb_lastTFDT b tid)"
    using Cons.prems
    by (auto simp: b1_def observe_chunk_def Let_def append_at_keys append_at_distinct split: option.splits)
  have seg: "segments_of b1 tid = segments_of b tid @ expected tid (mb_runningOffset b) (mb_lastTFDT b tid) [(ev, t, chunk)]"
    by (auto simp: b1_def observe_chunk_def Let_def segments_of_def append_at_map_of split: option.splits)
  have step: "fold (\<lambda>(ev, tc). observe_chunk ev tc) (a # xs) b = fold (\<lambda>(ev, tc). observe_chunk ev tc) xs b1"
    by (simp add: a b1_def)
  show ?case using Cons.IH [OF f(5)] unfolding step Let_def f seg by (auto simp: a)
qed

lemma expected_slices:
  "0 \<le> off \<Longrightarrow> nat off = length before \<Longrightarrow>
   map (\<lambda>sg. slice (before @ items_bytes xs) (sg_Offset sg) (sg_Offset sg + sg_Size sg)) (expected tid off latest xs)
     = map (\<lambda>(ev, t, chunk). chunk) (track_items tid xs)"
proof (induction xs arbitrary: off before latest)
  case (Cons a xs)
  obtain ev t chunk where a: "a = (ev, t, chunk)" by (metis surj_pair)
  have off: "off = int (length before)" using Cons.prems by linarith
  have IH: "map (\<lambda>sg. slice ((before @ chunk) @ items_bytes xs) (sg_Offset sg) (sg_Offset sg + sg_Size sg))
      (expected tid (off + int (length chunk)) l xs) = map (\<lambda>(ev, t, chunk). chunk) (track_items tid xs)" for l
    by (rule Cons.IH) (simp_all add: off)
  have cur: "slice (before @ chunk @ items_bytes xs) off (off + int (length chunk)) = chunk"
    by (simp add: off slice_def)
  have items: "items_bytes ((ev, t, chunk) # xs) = chunk @ items_bytes xs" by (simp add: items_bytes_def)
  show ?case using IH cur by (simp add: a items track_items_def)
qed (simp add: track_items_def)

lemma expected_flags:
  "map sg_Discontinuity (expected tid off latest xs) =
     jumps latest (map (\<lambda>(ev, t, chunk). firstTFDT chunk) (track_items tid xs))"
proof (induction tid off latest xs rule: expected.induct)
  case (2 tid off latest ev t chunk rest)
  then show ?case by (cases "firstTFDT chunk") (auto simp: track_items_def)
qed (simp add: track_items_def)

lemma expected_times:
  "map (\<lambda>sg. (sg_DurationTicks sg, sg_SampleCount sg)) (expected tid off latest xs) =
     map (\<lambda>(ev, t, chunk). (ev_Durations ev tid, ev_SampleCounts ev tid)) (track_items tid xs)"
  by (induction tid off latest xs rule: expected.induct) (auto simp: track_items_def)

lemma Observe_segments:
  "ev_Type ev \<noteq> ''init'' \<Longrightarrow> builder_Observe st hash ev b w = (None, fold (\<lambda>(ev, tc). observe_chunk ev tc) (stream_items [ev]) b, w)"
  by (simp add: builder_Observe_def stream_items_def is_segment_def fold_map comp_def)

lemma stream_items_Cons: "stream_items (ev # evs) = stream_items [ev] @ stream_items evs"
  by (simp add: stream_items_def)

lemma observe_all_segments:
  "\<forall>ev\<in>set evs. ev_Type ev \<noteq> ''init'' \<Longrightarrow>
   observe_all st hash evs err b w = (err, fold (\<lambda>(ev, tc). observe_chunk ev tc) (stream_items evs) b, w)"
proof (induction evs arbitrary: b)
  case (Cons ev evs)
  have "ev_Type ev \<noteq> ''init''" using Cons.prems by simp
  then have "observe_all st hash (ev # evs) err b w =
      observe_all st hash evs err (fold (\<lambda>(ev, tc). observe_chunk ev tc) (stream_items [ev]) b) w"
    by (cases err) (simp_all add: Observe_segments)
  also have "\<dots> = (err, fold (\<lambda>(ev, tc). observe_chunk ev tc) (stream_items (ev # evs)) b, w)"
    using Cons by (subst Cons.IH) (simp_all add: stream_items_Cons [of ev evs])
  finally show ?case .
qed (simp add: stream_items_def)

lemma write_inits_keeps:
  "write_inits st hash inits b w = (r, b', w') \<Longrightarrow>
   mb_trackSegments b' = mb_trackSegments b \<and> mb_lastTFDT b' = mb_lastTFDT b \<and> mb_catalog b' = mb_catalog b \<and>
   mb_leadingInitInBlob b' = mb_leadingInitInBlob b"
proof (induction inits arbitrary: b w)
  case (Cons i inits)
  then show ?case by (cases i) (auto split: prod.splits sum.splits)
qed simp

lemma with_config_keeps [simp]:
  "tk_Segments (with_config c tid t) = tk_Segments t" "tk_BlobCID (with_config c tid t) = tk_BlobCID t"
  "tk_InitCID (with_config c tid t) = tk_InitCID t"
  by (auto simp: with_config_def split: option.splits)

lemma builder_Finalize_tracks: "map (\<lambda>(tid, t). (tid, tk_Segments t)) (mf_Tracks (builder_Finalize cid n b)) = mb_trackSegments b"
  by (simp add: builder_Finalize_def comp_def case_prod_beta)

text \<open>
  C8. The index of a recording describes its bytes.  Let a stream of events start with at most one \<open>init\<close> and end
  without an error.  Then, for a blob that is the initialisation (where it leads the blob) followed by the chunks in the order
  they were written, the bytes that a track's segments point at are exactly the track's chunks in order, with their
  durations and sample counts; a segment is marked as a discontinuity exactly where the decode time of
  the track goes back; and the index has each track that occurs in the stream once.
\<close>

theorem metafile_describes_blob:
  assumes builder: "b0 = newMetafileBuilder \<and> lead = init \<and> (\<exists>e. inits = [e] \<and> ev_Type e = ''init'' \<and> ev_Data e = init) \<or>
      b0 = newFragmentMetafileBuilder \<and> lead = [] \<and> (inits = [] \<or> (\<exists>e. inits = [e] \<and> ev_Type e = ''init''))"
    and segs: "\<forall>ev\<in>set evs. ev_Type ev \<noteq> ''init''"
    and run: "observe_all st hash (inits @ evs) None b0 w = (None, b, w')"
  shows "distinct (map fst (mf_Tracks (builder_Finalize cid n b))) \<and>
    fst ` set (mf_Tracks (builder_Finalize cid n b)) = (\<lambda>(ev, tid, chunk). tid) ` set (stream_items evs) \<and>
    (\<forall>(tid, t)\<in>set (mf_Tracks (builder_Finalize cid n b)).
       map (\<lambda>sg. slice (lead @ items_bytes (stream_items evs)) (sg_Offset sg) (sg_Offset sg + sg_Size sg)) (tk_Segments t)
         = map (\<lambda>(ev, tid, chunk). chunk) (track_items tid (stream_items evs)) \<and>
       map (\<lambda>sg. (sg_DurationTicks sg, sg_SampleCount sg)) (tk_Segments t)
         = map (\<lambda>(ev, _). (ev_Durations ev tid, ev_SampleCounts ev tid)) (track_items tid (stream_items evs)) \<and>
       map sg_Discontinuity (tk_Segments t)
         = jumps None (map (\<lambda>(ev, tid, chunk). firstTFDT chunk) (track_items tid (stream_items evs))))"
proof -
  obtain b1 w1 where b1: "observe_all st hash evs None b1 w1 = (None, b, w')" "mb_runningOffset b1 = int (length lead)"
      "mb_trackSegments b1 = []" "mb_lastTFDT b1 = Map.empty"
  proof (cases inits)
    case Nil
    then show thesis using that [of b0 w] builder run by (auto simp: newFragmentMetafileBuilder_def newMetafileBuilder_def)
  next
    case (Cons e es)
    then have e: "es = []" "ev_Type e = ''init''" using builder by auto
    have b0: "mb_trackSegments b0 = []" "mb_lastTFDT b0 = Map.empty"
      "(if mb_leadingInitInBlob b0 then int (length (ev_Data e)) else 0) = int (length lead)"
      using builder Cons by (auto simp: newFragmentMetafileBuilder_def newMetafileBuilder_def)
    obtain r b2 w2 where i: "write_inits st hash (ev_TrackInits e) (b0\<lparr>mb_seenInit := True, mb_catalog := ev_Catalog e\<rparr>) w = (r, b2, w2)"
      by (metis surj_pair)
    have "r = None"
    proof (rule ccontr)
      assume "r \<noteq> None"
      then obtain x where "r = Some x" by auto
      then have "observe_all st hash (inits @ evs) None b0 w = observe_all st hash evs (Some x) b2 w2"
        using Cons e i by (simp add: builder_Observe_def Let_def)
      then show False using run observe_all_segments [OF segs, of st hash "Some x" b2 w2] by simp
    qed
    then have "observe_all st hash evs None (b2\<lparr>mb_runningOffset := int (length lead)\<rparr>) w2 = (None, b, w')"
      using run Cons e i b0(3) by (simp add: builder_Observe_def Let_def)
    then show thesis using that write_inits_keeps [OF i] b0 by simp
  qed
  have b: "b = fold (\<lambda>(ev, tc). observe_chunk ev tc) (stream_items evs) b1"
    using b1(1) observe_all_segments [OF segs, of st hash None b1 w1] by simp
  note f = fold_observe [of b1 "stream_items evs", unfolded Let_def, folded b]
  have nil: "distinct (map fst (mb_trackSegments b1))" using b1(3) by simp
  have seg: "segments_of b tid = expected tid (int (length lead)) None (stream_items evs)" for tid
    using f [OF nil, of tid] b1 by (simp add: segments_of_def)
  have tr: "map (\<lambda>(tid, t). (tid, tk_Segments t)) (mf_Tracks (builder_Finalize cid n b)) = mb_trackSegments b"
    by (rule builder_Finalize_tracks)
  then have fsts: "map fst (mf_Tracks (builder_Finalize cid n b)) = map fst (mb_trackSegments b)"
    by (metis (no_types, lifting) map_map fst_conv comp_apply case_prod_beta map_cong)
  have "tk_Segments t = expected tid (int (length lead)) None (stream_items evs)"
    if "(tid, t) \<in> set (mf_Tracks (builder_Finalize cid n b))" for tid t
  proof -
    have "(tid, tk_Segments t) \<in> set (mb_trackSegments b)" unfolding tr [symmetric] using that by force
    then show ?thesis using f [OF nil] seg [of tid] by (simp add: segments_of_def map_of_is_SomeI)
  qed
  then show ?thesis
    using f [OF nil] fsts b1(3)
      expected_slices [of "int (length lead)" lead] expected_flags expected_times
    by (auto simp: case_prod_beta simp flip: set_map)
qed

definition demo_chunk :: "nat \<Rightarrow> bytes" where
  "demo_chunk t = map char_of [0 :: nat, 0, 0, 32] @ ''moof'' @ map char_of [0 :: nat, 0, 0, 24] @ ''traf'' @
     map char_of [0 :: nat, 0, 0, 16] @ ''tfdt'' @ map char_of [0 :: nat, 0, 0, 0, 0, 0, 0, t]"

definition demo_event :: "nat \<Rightarrow> muxl_event" where
  "demo_event t = \<lparr>ev_Type = ''segment'', ev_Catalog = None, ev_Data = [], ev_TrackInits = [],
     ev_Tracks = [(''2'', ''x''), (''1'', demo_chunk t)], ev_Durations = (\<lambda>_. 10), ev_SampleCounts = (\<lambda>_. 1)\<rparr>"

text \<open>A stream that was restarted: the second segment of track 1 goes back in time.\<close>

theorem metafile_describes_blob_witness:
  "\<forall>(st :: (nat, nat) blob_store) hash w. let b = snd (observe_all st hash [demo_event 7, demo_event 3] None newFragmentMetafileBuilder w) in
   \<forall>(tid, t)\<in>set (mf_Tracks (builder_Finalize ''c'' 9 (fst b))). tid = ''1'' \<longrightarrow> map sg_Discontinuity (tk_Segments t) = [False, True]"
proof (intro allI)
  fix st :: "(nat, nat) blob_store" and hash w
  have segs: "\<forall>ev\<in>set [demo_event 7, demo_event 3]. ev_Type ev \<noteq> ''init''" by (simp add: demo_event_def)
  obtain b w' where run: "observe_all st hash ([] @ [demo_event 7, demo_event 3]) None newFragmentMetafileBuilder w = (None, b, w')"
    using observe_all_segments [OF segs, of st hash None newFragmentMetafileBuilder w] by simp
  have sorted: "sorted_chunks (demo_event t) = [(''1'', demo_chunk t), (''2'', ''x'')]" for t
    by (simp add: sorted_chunks_def demo_event_def)
  have times: "firstTFDT (demo_chunk 7) = Some 7" "firstTFDT (demo_chunk 3) = Some 3" by code_simp+
  have "track_items ''1'' (stream_items [demo_event 7, demo_event 3]) =
      [(demo_event 7, ''1'', demo_chunk 7), (demo_event 3, ''1'', demo_chunk 3)]"
    by (simp add: track_items_def stream_items_def sorted is_segment_def) (simp add: demo_event_def)
  with metafile_describes_blob [OF _ segs run, of "[]" _ "''c''" 9] run times
  show "let b = snd (observe_all st hash [demo_event 7, demo_event 3] None newFragmentMetafileBuilder w) in
   \<forall>(tid, t)\<in>set (mf_Tracks (builder_Finalize ''c'' 9 (fst b))). tid = ''1'' \<longrightarrow> map sg_Discontinuity (tk_Segments t) = [False, True]"
    by (auto simp: Let_def)
qed

text \<open>What a write of the index reads back as, and what it leaves alone.\<close>

lemma blob_key_inj [simp]: "blob_key c = blob_key d \<longleftrightarrow> c = d"
  by (simp add: blob_key_def BlobsPrefix_def)

lemma meta_key_blob_key [simp]: "meta_key c \<noteq> blob_key d" "blob_key d \<noteq> meta_key c"
proof -
  have "rev (meta_key c) ! 0 \<noteq> rev (blob_key d) ! 0" by (simp add: meta_key_def blob_key_def)
  then show "meta_key c \<noteq> blob_key d" "blob_key d \<noteq> meta_key c" by metis+
qed

end
