(* ===== verification/FileStore.thy ===== *)
theory FileStore
  imports BlobStore
begin

text \<open>
  The store of files under a root (\<open>blob/file.go\<close>).  A path is the list of its components; a key is put under the root
  by \<open>filepath.Join\<close>, which cleans it.  The calls of the operating system are one world: the files, and which call
  fails with what (\<open>os_fault\<close>, by the number of the call).  Directories are not represented: making them
  may fail, and nothing else.  \<open>List\<close> (a walk of the directories) is left out.
\<close>

section \<open>Paths\<close>

type_synonym path = "string list"

definition clean_step :: "path \<Rightarrow> string \<Rightarrow> path" where
  "clean_step acc c = (if c = '''' \<or> c = ''.'' then acc else if c = ''..'' then butlast acc else acc @ [c])"

text \<open>\<open>filepath.Clean\<close> of a rooted path and of a relative one.\<close>

definition clean_rooted :: "path \<Rightarrow> path" where
  "clean_rooted cs = foldl clean_step [] cs"

definition rel_step :: "path \<Rightarrow> string \<Rightarrow> path" where
  "rel_step acc c =
     (if c = '''' \<or> c = ''.'' then acc
      else if c = ''..'' \<and> acc \<noteq> [] \<and> last acc \<noteq> ''..'' then butlast acc
      else acc @ [c])"

definition clean_relative :: "string \<Rightarrow> string" where
  "clean_relative p =
     (let cs = foldl rel_step [] (split_on (CHR ''/'') p) in if cs = [] then ''.'' else join_with (CHR ''/'') cs)"

definition absPath :: "path \<Rightarrow> string \<Rightarrow> path" where
  "absPath root key = clean_rooted (root @ split_on (CHR ''/'') key)"

definition path_string :: "path \<Rightarrow> string" where
  "path_string p = CHR ''/'' # join_with (CHR ''/'') p"

fun strip_common :: "path \<Rightarrow> path \<Rightarrow> path \<times> path" where
  "strip_common (a # as) (b # bs) = (if a = b then strip_common as bs else (a # as, b # bs))"
| "strip_common as bs = (as, bs)"

definition filepath_Rel :: "path \<Rightarrow> path \<Rightarrow> string" where
  "filepath_Rel base targ =
     (let (b, t) = strip_common base targ; cs = replicate (length b) ''..'' @ t in
      if cs = [] then ''.'' else join_with (CHR ''/'') cs)"

definition FileStore_URL :: "path \<Rightarrow> string \<Rightarrow> string" where
  "FileStore_URL root key = ''file://'' @ path_string (absPath root key)"

text \<open>\<open>urlPath\<close> is the path of a parsed URL.\<close>

definition FileStore_ParseLocation :: "(string \<Rightarrow> string option) \<Rightarrow> path \<Rightarrow> string \<Rightarrow> string option" where
  "FileStore_ParseLocation urlPath root location =
     (case (if take 7 location = ''file://'' then urlPath location else Some location) of
        None \<Rightarrow> None
      | Some p \<Rightarrow>
          if take 1 p \<noteq> ''/''
          then (let c = clean_relative p in if take 2 c = ''..'' then None else Some c)
          else
            (let rel = filepath_Rel root (clean_rooted (split_on (CHR ''/'') p)) in
             if take 2 rel = ''..'' then None else Some rel))"

section \<open>The operating system\<close>

record os_world =
  os_files :: "path \<rightharpoonup> bytes"
  os_calls :: nat
  os_fault :: "nat \<Rightarrow> string option"
  os_short :: "nat \<Rightarrow> nat"
  os_uuid :: "nat \<Rightarrow> string"

definition ErrNotExist :: go_error where "ErrNotExist = Sentinel ''file does not exist''"

text \<open>One call: the error it fails with, and the world after it.\<close>

definition os_call :: "os_world \<Rightarrow> go_error option \<times> os_world" where
  "os_call w = (map_option (\<lambda>m. Sentinel (''os: '' @ m)) (os_fault w (os_calls w)), w\<lparr>os_calls := os_calls w + 1\<rparr>)"

definition os_create_excl :: "path \<Rightarrow> os_world \<Rightarrow> go_error option \<times> os_world" where
  "os_create_excl p w =
     (case os_call w of
        (Some e, w1) \<Rightarrow> (Some e, w1)
      | (None, w1) \<Rightarrow>
          if os_files w1 p \<noteq> None then (Some (Sentinel ''file exists''), w1)
          else (None, w1\<lparr>os_files := (os_files w1)(p \<mapsto> [])\<rparr>))"

text \<open>A write that fails may have written a part of its bytes; a staging file goes only after it has been closed.\<close>

definition os_append :: "path \<Rightarrow> bytes \<Rightarrow> os_world \<Rightarrow> go_error option \<times> os_world" where
  "os_append p bs w =
     (case os_files w p of
        None \<Rightarrow> (Some (Sentinel ''file already closed''), w)
      | Some c \<Rightarrow>
          (case os_call w of
             (Some e, w1) \<Rightarrow> (Some e, w1\<lparr>os_files := (os_files w1)(p \<mapsto> c @ take (os_short w (os_calls w)) bs)\<rparr>)
           | (None, w1) \<Rightarrow> (None, w1\<lparr>os_files := (os_files w1)(p \<mapsto> c @ bs)\<rparr>)))"

definition os_rename :: "path \<Rightarrow> path \<Rightarrow> os_world \<Rightarrow> go_error option \<times> os_world" where
  "os_rename src dst w =
     (case os_call w of
        (Some e, w1) \<Rightarrow> (Some e, w1)
      | (None, w1) \<Rightarrow>
          (case os_files w1 src of
             None \<Rightarrow> (Some ErrNotExist, w1)
           | Some c \<Rightarrow> (None, w1\<lparr>os_files := ((os_files w1)(src := None))(dst \<mapsto> c)\<rparr>)))"

definition os_remove :: "path \<Rightarrow> os_world \<Rightarrow> go_error option \<times> os_world" where
  "os_remove p w =
     (case os_call w of
        (Some e, w1) \<Rightarrow> (Some e, w1)
      | (None, w1) \<Rightarrow>
          if os_files w1 p = None then (Some ErrNotExist, w1)
          else (None, w1\<lparr>os_files := (os_files w1)(p := None)\<rparr>))"

definition os_exists :: "path \<Rightarrow> os_world \<Rightarrow> bool \<times> os_world" where
  "os_exists p w = (case os_call w of (r, w1) \<Rightarrow> (r = None \<and> os_files w1 p \<noteq> None, w1))"

section \<open>The store\<close>

definition stagingDir :: string where "stagingDir = ''.staging''"

text \<open>The open of a file, with the \<open>Stat\<close> for its size; a read of it then sees its bytes or fails.\<close>

definition FileStore_Open :: "path \<Rightarrow> string \<Rightarrow> os_world \<Rightarrow> (go_error + int \<times> s3body) \<times> os_world" where
  "FileStore_Open root key w =
     (case os_call w of
        (Some e, w1) \<Rightarrow>
          (Inl (if errors_Is e ErrNotExist then WrapErr ''open'' [ErrNotFound] else WrapErr ''blob file open'' [e]), w1)
      | (None, w1) \<Rightarrow>
          (case os_files w1 (absPath root key) of
             None \<Rightarrow> (Inl (WrapErr ''open'' [ErrNotFound]), w1)
           | Some c \<Rightarrow>
               (case os_call w1 of
                  (Some e, w2) \<Rightarrow> (Inl (WrapErr ''blob file stat'' [e]), w2)
                | (None, w2) \<Rightarrow>
                    (case os_call w2 of
                       (rd, w3) \<Rightarrow>
                         (Inr (int (length c),
                               \<lparr>bd_Data = (if rd = None then c else take (os_short w2 (os_calls w2)) c), bd_Err = rd\<rparr>), w3)))))"

definition ensureKeyDir :: "path \<Rightarrow> string \<Rightarrow> os_world \<Rightarrow> go_error option \<times> os_world" where
  "ensureKeyDir root key w = (case os_call w of (r, w1) \<Rightarrow> (map_option (\<lambda>e. WrapErr ''blob file: mkdir'' [e]) r, w1))"

record file_writer =
  fw_staging :: path
  fw_finalKey :: string
  fw_finalAbs :: path
  fw_finalized :: bool

definition FileStore_NewWriter :: "path \<Rightarrow> string \<Rightarrow> os_world \<Rightarrow> (go_error + file_writer) \<times> os_world" where
  "FileStore_NewWriter root key w =
     (case ensureKeyDir root key w of
        (Some e, w1) \<Rightarrow> (Inl e, w1)
      | (None, w1) \<Rightarrow>
          (case os_call w1 of
             (Some e, w2) \<Rightarrow> (Inl (WrapErr ''blob file: generate staging id'' [e]), w2)
           | (None, w2) \<Rightarrow>
               (let staging = root @ [stagingDir, os_uuid w1 (os_calls w1)] in
                case os_create_excl staging w2 of
                  (Some e, w3) \<Rightarrow> (Inl (WrapErr ''blob file: open staging'' [e]), w3)
                | (None, w3) \<Rightarrow>
                    (Inr \<lparr>fw_staging = staging, fw_finalKey = key, fw_finalAbs = absPath root key, fw_finalized = False\<rparr>,
                     w3))))"

definition fileWriter_Write :: "bytes \<Rightarrow> file_writer \<Rightarrow> os_world \<Rightarrow> go_error option \<times> file_writer \<times> os_world" where
  "fileWriter_Write p h w =
     (if fw_finalized h then (Some (Sentinel ''write after Complete/Abort''), h, w)
      else (case os_append (fw_staging h) p w of (r, w1) \<Rightarrow> (r, h, w1)))"

definition fileWriter_Complete :: "file_writer \<Rightarrow> os_world \<Rightarrow> go_error option \<times> file_writer \<times> os_world" where
  "fileWriter_Complete h w =
     (if fw_finalized h then (Some (Sentinel ''Complete called twice''), h, w)
      else
        (case os_call w of
           (Some e, w1) \<Rightarrow> (Some (WrapErr ''blob file: fsync'' [e]), h, w1)
         | (None, w1) \<Rightarrow>
             (case os_call w1 of
                (Some e, w2) \<Rightarrow> (Some (WrapErr ''blob file: close staging'' [e]), h, w2)
              | (None, w2) \<Rightarrow>
                  (case os_rename (fw_staging h) (fw_finalAbs h) w2 of
                     (Some e, w3) \<Rightarrow>
                       (Some (WrapErr ''blob file: rename staging'' [e]), h, snd (os_remove (fw_staging h) w3))
                   | (None, w3) \<Rightarrow> (None, h\<lparr>fw_finalized := True\<rparr>, w3)))))"

definition fileWriter_Abort :: "file_writer \<Rightarrow> os_world \<Rightarrow> go_error option \<times> file_writer \<times> os_world" where
  "fileWriter_Abort h w =
     (if fw_finalized h then (None, h, w)
      else
        (let h' = h\<lparr>fw_finalized := True\<rparr>; (_, w1) = os_call w in
         case os_remove (fw_staging h) w1 of
           (Some e, w2) \<Rightarrow>
             (if errors_Is e ErrNotExist then None else Some (WrapErr ''blob file: remove staging'' [e]), h', w2)
         | (None, w2) \<Rightarrow> (None, h', w2)))"

definition FileStore_Move :: "path \<Rightarrow> string \<Rightarrow> string \<Rightarrow> os_world \<Rightarrow> go_error option \<times> os_world" where
  "FileStore_Move root srcKey dstKey w =
     (case ensureKeyDir root dstKey w of
        (Some e, w1) \<Rightarrow> (Some e, w1)
      | (None, w1) \<Rightarrow>
          (case os_rename (absPath root srcKey) (absPath root dstKey) w1 of
             (None, w2) \<Rightarrow> (None, w2)
           | (Some e, w2) \<Rightarrow>
               if errors_Is e ErrNotExist
               then (case os_exists (absPath root dstKey) w2 of
                       (ex, w3) \<Rightarrow> (if ex then None else Some (WrapErr ''move'' [ErrNotFound]), w3))
               else (Some (WrapErr ''blob file rename'' [e]), w2)))"

definition FileStore_Delete :: "path \<Rightarrow> string \<Rightarrow> os_world \<Rightarrow> go_error option \<times> os_world" where
  "FileStore_Delete root key w =
     (case os_remove (absPath root key) w of
        (Some e, w1) \<Rightarrow> (if errors_Is e ErrNotExist then None else Some (WrapErr ''blob file delete'' [e]), w1)
      | (None, w1) \<Rightarrow> (None, w1))"

definition file_store :: "path \<Rightarrow> (os_world, file_writer) blob_store" where
  "file_store root =
     \<lparr>st_Open = FileStore_Open root, st_NewWriter = FileStore_NewWriter root, st_Write = fileWriter_Write,
      st_Complete = fileWriter_Complete, st_Abort = fileWriter_Abort\<rparr>"

section \<open>Keys and paths\<close>

definition plain_name :: "string \<Rightarrow> bool" where
  "plain_name c = (c \<noteq> '''' \<and> c \<noteq> ''.'' \<and> c \<noteq> ''..'' \<and> CHR ''/'' \<notin> set c)"

definition clean_root :: "path \<Rightarrow> bool" where
  "clean_root root = list_all plain_name root"

text \<open>The keys the program uses: plain names joined by slashes, not in the staging directory.\<close>

definition plain_key :: "string \<Rightarrow> bool" where
  "plain_key key =
     (let cs = split_on (CHR ''/'') key in list_all plain_name cs \<and> hd cs \<noteq> stagingDir)"

lemma clean_plain: "list_all plain_name cs \<Longrightarrow> foldl clean_step acc cs = acc @ cs"
  by (induction cs arbitrary: acc) (auto simp: clean_step_def plain_name_def)

lemma absPath_plain: "clean_root root \<Longrightarrow> plain_key key \<Longrightarrow> absPath root key = root @ split_on (CHR ''/'') key"
  by (simp add: absPath_def clean_rooted_def clean_root_def plain_key_def Let_def clean_plain)

lemma split_on_inj: "split_on c a = split_on c b \<Longrightarrow> a = b"
  by (metis join_split)

lemma absPath_inj:
  "clean_root root \<Longrightarrow> plain_key k \<Longrightarrow> plain_key k' \<Longrightarrow> absPath root k = absPath root k' \<longleftrightarrow> k = k'"
  using split_on_inj by (auto simp: absPath_plain)

lemma absPath_not_staging:
  assumes "clean_root root" "plain_key k"
  shows "absPath root k \<noteq> root @ [stagingDir, u]" "root @ [stagingDir, u] \<noteq> absPath root k"
proof -
  have "root @ split_on (CHR ''/'') k \<noteq> root @ [stagingDir, u]"
  proof
    assume "root @ split_on (CHR ''/'') k = root @ [stagingDir, u]"
    then have "hd (split_on (CHR ''/'') k) = stagingDir" by simp
    then show False using assms(2) by (simp add: plain_key_def Let_def)
  qed
  then show "absPath root k \<noteq> root @ [stagingDir, u]" "root @ [stagingDir, u] \<noteq> absPath root k"
    unfolding absPath_plain [OF assms] by metis+
qed

section \<open>The files keep the promises of a store\<close>

definition fs_objs :: "path \<Rightarrow> os_world \<Rightarrow> string \<rightharpoonup> bytes" where
  "fs_objs root w k = (if plain_key k then os_files w (absPath root k) else None)"

definition fs_staged :: "path \<Rightarrow> os_world \<Rightarrow> file_writer \<Rightarrow> (string \<times> bytes) option" where
  "fs_staged root w h =
     (if butlast (fw_staging h) = root @ [stagingDir] \<and> fw_finalAbs h = absPath root (fw_finalKey h) \<and>
         plain_key (fw_finalKey h) \<and> length (fw_staging h) = length root + 2
      then Some (fw_finalKey h, case os_files w (fw_staging h) of None \<Rightarrow> [] | Some c \<Rightarrow> c)
      else None)"

lemma fs_staged_Some:
  assumes "fs_staged root w h = Some (k, b)"
  obtains u where "fw_staging h = root @ [stagingDir, u]" "fw_finalAbs h = absPath root k" "plain_key k"
    "fw_finalKey h = k" "b = (case os_files w (fw_staging h) of None \<Rightarrow> [] | Some c \<Rightarrow> c)"
proof -
  have f: "butlast (fw_staging h) = root @ [stagingDir]" "fw_finalAbs h = absPath root k" "plain_key k"
      "fw_finalKey h = k" "length (fw_staging h) = length root + 2"
      "b = (case os_files w (fw_staging h) of None \<Rightarrow> [] | Some c \<Rightarrow> c)"
    using assms by (auto simp: fs_staged_def split: if_splits)
  have "fw_staging h \<noteq> []" using f(5) by auto
  then have "fw_staging h = (root @ [stagingDir]) @ [List.last (fw_staging h)]"
    unfolding f(1) [symmetric] by simp
  then show thesis using that [of "List.last (fw_staging h)"] f by simp
qed

lemma fs_objs_cong: "(\<And>k. plain_key k \<Longrightarrow> os_files w' (absPath root k) = os_files w (absPath root k)) \<Longrightarrow> fs_objs root w' = fs_objs root w"
  by (auto simp: fs_objs_def)

lemma os_call_files: "os_call w = (r, w1) \<Longrightarrow> os_files w1 = os_files w"
  by (auto simp: os_call_def)

lemma os_call_not_missing: "os_call w = (Some e, w1) \<Longrightarrow> \<not> errors_Is e ErrNotExist"
proof -
  assume "os_call w = (Some e, w1)"
  then obtain m where "e = Sentinel (''os: '' @ m)" by (auto simp: os_call_def)
  then show ?thesis by (simp add: ErrNotExist_def)
qed

lemma os_remove_files: "os_remove p w = (r, w') \<Longrightarrow> \<forall>q. q \<noteq> p \<longrightarrow> os_files w' q = os_files w q"
  by (auto simp: os_remove_def dest!: os_call_files split: prod.splits option.splits if_splits)

lemma os_append_files:
  "os_append p bs w = (r, w') \<Longrightarrow> (\<forall>q. q \<noteq> p \<longrightarrow> os_files w' q = os_files w q) \<and>
     (r = None \<longrightarrow> (\<exists>c. os_files w p = Some c \<and> os_files w' p = Some (c @ bs)))"
  by (auto simp: os_append_def dest!: os_call_files split: prod.splits option.splits)

lemma os_create_files:
  "os_create_excl p w = (r, w') \<Longrightarrow> (\<forall>q. q \<noteq> p \<longrightarrow> os_files w' q = os_files w q) \<and> (r = None \<longrightarrow> os_files w' p = Some []) \<and>
    (r \<noteq> None \<longrightarrow> os_files w' = os_files w)"
  by (auto simp: os_create_excl_def dest!: os_call_files split: prod.splits option.splits if_splits)

lemma os_rename_files:
  "os_rename src dst w = (r, w') \<Longrightarrow> (r \<noteq> None \<longrightarrow> os_files w' = os_files w) \<and>
     (r = None \<longrightarrow> (\<exists>c. os_files w src = Some c \<and> os_files w' = ((os_files w)(src := None))(dst \<mapsto> c)))"
  by (auto simp: os_rename_def dest!: os_call_files split: prod.splits option.splits)

lemma file_open: "open_promise (file_store root) (fs_objs root) plain_key"
proof -
  have not_found: "\<not> errors_Is e ErrNotFound" if fault: "os_call w = (Some e, w1)" for w e w1
  proof -
    obtain m where "e = Sentinel (''os: '' @ m)" using fault by (auto simp: os_call_def)
    then show ?thesis by (simp add: ErrNotFound_def)
  qed
  have "fs_objs root w' = fs_objs root w \<and>
      (\<forall>n b. r = Inr (n, b) \<longrightarrow>
           (\<exists>bs. fs_objs root w k = Some bs \<and> n = int (length bs) \<and> (bd_Err b = None \<longrightarrow> bd_Data b = bs))) \<and>
      (\<forall>e. r = Inl e \<longrightarrow> errors_Is e ErrNotFound \<longrightarrow> fs_objs root w k = None)"
    if k: "plain_key k" and run: "FileStore_Open root k w = (r, w')" for k w r w'
  proof -
    obtain r1 w1 where c1: "os_call w = (r1, w1)" by (metis surj_pair)
    obtain r2 w2 where c2: "os_call w1 = (r2, w2)" by (metis surj_pair)
    obtain r3 w3 where c3: "os_call w2 = (r3, w3)" by (metis surj_pair)
    note files = os_call_files [OF c1] os_call_files [OF c2] os_call_files [OF c3]
    consider (no) e where "r1 = Some e" "r = Inl (WrapErr ''blob file open'' [e])" "w' = w1"
      | (missing) "r = Inl (WrapErr ''open'' [ErrNotFound])" "os_files w1 (absPath root k) = None" "w' = w1"
      | (stat) e where "r2 = Some e" "r = Inl (WrapErr ''blob file stat'' [e])" "w' = w2"
      | (opened) c b where "os_files w1 (absPath root k) = Some c" "r = Inr (int (length c), b)"
          "bd_Err b = None \<longrightarrow> bd_Data b = c" "w' = w3"
    proof (cases r1)
      case (Some e)
      then show thesis using no run c1 os_call_not_missing [of w e w1] by (simp add: FileStore_Open_def)
    next
      case None
      show thesis
      proof (cases "os_files w1 (absPath root k)")
        case None
        then show thesis using missing run c1 \<open>r1 = None\<close> by (simp add: FileStore_Open_def)
      next
        case (Some c)
        then show thesis using stat opened run c1 c2 c3 \<open>r1 = None\<close>
          by (cases r2) (auto simp: FileStore_Open_def)
      qed
    qed
    then show ?thesis
    proof cases
      case no
      then show ?thesis using files c1 not_found [of w e w1] by (auto simp: fs_objs_def ErrNotFound_def)
    next
      case missing
      then show ?thesis using files c1 k by (auto simp: fs_objs_def)
    next
      case stat
      then show ?thesis using files c2 not_found [of w1 e w2] by (auto simp: fs_objs_def ErrNotFound_def)
    next
      case opened
      then show ?thesis using files k by (auto simp: fs_objs_def)
    qed
  qed
  then show ?thesis by (simp add: open_promise_def file_store_def)
qed

lemma file_new:
  assumes root: "clean_root root"
  shows "new_promise (file_store root) (fs_objs root) (fs_staged root) plain_key"
proof -
  have "fs_objs root w' = fs_objs root w \<and> (\<forall>h. r = Inr h \<longrightarrow> fs_staged root w' h = Some (k, []))"
    if k: "plain_key k" and run: "FileStore_NewWriter root k w = (r, w')" for k w r w'
  proof -
    obtain r1 w1 where c1: "os_call w = (r1, w1)" by (metis surj_pair)
    obtain r2 w2 where c2: "os_call w1 = (r2, w2)" by (metis surj_pair)
    let ?staging = "root @ [stagingDir, os_uuid w1 (os_calls w1)]"
    obtain r3 w3 where c3: "os_create_excl ?staging w2 = (r3, w3)" by (metis surj_pair)
    have f: "os_files w1 = os_files w" "os_files w2 = os_files w" using os_call_files c1 c2 by metis+
    have key: "os_files w3 (absPath root k') = os_files w (absPath root k')" if "plain_key k'" for k'
      using os_create_files [OF c3] f absPath_not_staging [OF root that] by metis
    have same: "fs_objs root w3 = fs_objs root w" by (rule fs_objs_cong) (rule key)
    have other: "fs_objs root w1 = fs_objs root w" "fs_objs root w2 = fs_objs root w" using f by (auto simp: fs_objs_def)
    have made: "r3 = None \<Longrightarrow> os_files w3 ?staging = Some []" using os_create_files [OF c3] by simp
    consider (failed) "w' = w1 \<or> w' = w2 \<or> w' = w3" "\<exists>e. r = Inl e"
      | (opened) "r3 = None" "w' = w3"
          "r = Inr \<lparr>fw_staging = ?staging, fw_finalKey = k, fw_finalAbs = absPath root k, fw_finalized = False\<rparr>"
      using run c1 c2 c3 by (cases r1; cases r2; cases r3) (auto simp: FileStore_NewWriter_def ensureKeyDir_def)
    then show ?thesis
    proof cases
      case failed
      then show ?thesis using same other by auto
    next
      case opened
      then show ?thesis using same made k by (simp add: fs_staged_def butlast_append)
    qed
  qed
  then show ?thesis by (simp add: new_promise_def file_store_def)
qed

lemma file_write:
  assumes root: "clean_root root"
  shows "write_promise (file_store root) (fs_objs root) (fs_staged root)"
proof -
  have "fs_objs root w' = fs_objs root w \<and> (\<exists>b'. fs_staged root w' h' = Some (k, b') \<and> (r = None \<longrightarrow> b' = b @ p))"
    if st: "fs_staged root w h = Some (k, b)" and run: "fileWriter_Write p h w = (r, h', w')" for p h w r h' w' k b
  proof -
    obtain u where u: "fw_staging h = root @ [stagingDir, u]" "fw_finalAbs h = absPath root k" "plain_key k"
      "fw_finalKey h = k" "b = (case os_files w (fw_staging h) of None \<Rightarrow> [] | Some c \<Rightarrow> c)"
      using st by (rule fs_staged_Some)
    show ?thesis
    proof (cases "fw_finalized h")
      case True
      then show ?thesis using run st by (auto simp: fileWriter_Write_def)
    next
      case False
      then have a: "os_append (fw_staging h) p w = (r, w')" "h' = h"
        using run by (auto simp: fileWriter_Write_def split: prod.splits)
      note app = os_append_files [OF a(1)]
      have "fs_objs root w' = fs_objs root w"
        by (rule fs_objs_cong) (use app u(1) absPath_not_staging [OF root] in metis)
      moreover have "fs_staged root w' h = Some (k, case os_files w' (fw_staging h) of None \<Rightarrow> [] | Some c \<Rightarrow> c)"
        using u by (simp add: fs_staged_def butlast_append)
      moreover have "r = None \<Longrightarrow> (case os_files w' (fw_staging h) of None \<Rightarrow> [] | Some c \<Rightarrow> c) = b @ p"
        using app u(5) by auto
      ultimately show ?thesis using a(2) by blast
    qed
  qed
  then show ?thesis by (simp add: write_promise_def file_store_def)
qed

lemma file_complete_strict:
  assumes root: "clean_root root"
    and st: "fs_staged root w h = Some (k, b)" and run: "fileWriter_Complete h w = (r, h', w')"
  shows "fs_objs root w' = (if r = None then (fs_objs root w)(k \<mapsto> b) else fs_objs root w) \<and> fs_staged root w' h' \<noteq> None"
proof -
    obtain u where u: "fw_staging h = root @ [stagingDir, u]" "fw_finalAbs h = absPath root k" "plain_key k"
      "fw_finalKey h = k" "b = (case os_files w (fw_staging h) of None \<Rightarrow> [] | Some c \<Rightarrow> c)"
      using st by (rule fs_staged_Some)
    have live: "fs_staged root w' h' \<noteq> None" if "h' = h \<or> h' = h\<lparr>fw_finalized := True\<rparr>"
      using that u by (auto simp: fs_staged_def butlast_append)
    obtain r1 w1 where c1: "os_call w = (r1, w1)" by (metis surj_pair)
    obtain r2 w2 where c2: "os_call w1 = (r2, w2)" by (metis surj_pair)
    obtain r3 w3 where c3: "os_rename (fw_staging h) (fw_finalAbs h) w2 = (r3, w3)" by (metis surj_pair)
    obtain r4 w4 where c4: "os_remove (fw_staging h) w3 = (r4, w4)" by (metis surj_pair)
    have f: "os_files w1 = os_files w" "os_files w2 = os_files w" using os_call_files c1 c2 by metis+
    have unseen: "fs_objs root x = fs_objs root y" if "\<forall>q. q \<noteq> fw_staging h \<longrightarrow> os_files x q = os_files y q" for x y
      by (rule fs_objs_cong) (use that u(1) absPath_not_staging [OF root] in metis)
    consider (refused) "w' = w \<or> w' = w1 \<or> w' = w2" "r \<noteq> None" "h' = h"
      | (unrenamed) "r3 \<noteq> None" "w' = w4" "r \<noteq> None" "h' = h"
      | (renamed) "r3 = None" "r = None" "w' = w3" "h' = h\<lparr>fw_finalized := True\<rparr>"
      using run c1 c2 c3 c4 by (cases "fw_finalized h"; cases r1; cases r2; cases r3) (auto simp: fileWriter_Complete_def)
    then show ?thesis
    proof cases
      case refused
      then have "fs_objs root w' = fs_objs root w" using f by (auto simp: fs_objs_def)
      then show ?thesis using refused live by auto
    next
      case unrenamed
      have "os_files w3 = os_files w" using os_rename_files [OF c3] unrenamed(1) f by simp
      then have "fs_objs root w' = fs_objs root w"
        using unseen [of w4 w] os_remove_files [OF c4] unrenamed(2) by simp
      then show ?thesis using unrenamed live by auto
    next
      case renamed
      obtain c where c: "os_files w (fw_staging h) = Some c"
          "os_files w3 = ((os_files w)(fw_staging h := None))(fw_finalAbs h \<mapsto> c)"
        using os_rename_files [OF c3] renamed(1) f by auto
      have "fs_objs root w3 k' = ((fs_objs root w)(k \<mapsto> b)) k'" for k'
        using c u absPath_inj [OF root, of k' k] absPath_not_staging [OF root, of k'] u(3)
        by (auto simp: fs_objs_def)
      then have "fs_objs root w' = (fs_objs root w)(k \<mapsto> b)" using renamed by (intro ext) simp
      then show ?thesis using live renamed by simp
    qed
qed

lemma file_complete:
  assumes root: "clean_root root"
  shows "complete_promise (file_store root) (fs_objs root) (fs_staged root)"
  unfolding complete_promise_def
  using file_complete_strict [OF root] by (auto simp: file_store_def split: if_splits)

lemma file_abort:
  assumes root: "clean_root root"
  shows "abort_promise (file_store root) (fs_objs root) (fs_staged root)"
proof -
  have "fs_objs root w' = fs_objs root w"
    if st: "fs_staged root w h \<noteq> None" and run: "fileWriter_Abort h w = (r, h', w')" for h w r h' w'
  proof -
    obtain k b where kb: "fs_staged root w h = Some (k, b)" using st by auto
    obtain u where u: "fw_staging h = root @ [stagingDir, u]" using kb by (rule fs_staged_Some)
    obtain r1 w1 where c1: "os_call w = (r1, w1)" by (metis surj_pair)
    obtain r2 w2 where c2: "os_remove (fw_staging h) w1 = (r2, w2)" by (metis surj_pair)
    have "w' = w \<or> w' = w2"
      using run c1 c2 by (cases "fw_finalized h"; cases r2) (auto simp: fileWriter_Abort_def Let_def)
    moreover have "fs_objs root w2 = fs_objs root w"
      by (rule fs_objs_cong)
        (use os_remove_files [OF c2] os_call_files [OF c1] u absPath_not_staging [OF root] in metis)
    ultimately show ?thesis by auto
  qed
  then show ?thesis by (simp add: abort_promise_def file_store_def)
qed

lemma file_store_contract:
  "clean_root root \<Longrightarrow> store_contract (file_store root) (fs_objs root) (fs_staged root) plain_key"
  by (simp add: store_contract_def file_open file_new file_write file_complete file_abort)

section \<open>Locations\<close>

lemma strip_common_same: "strip_common (root @ b) (root @ t) = strip_common b t"
  by (induction root) auto

lemma strip_common_prefix: "strip_common base targ = ([], t) \<Longrightarrow> targ = base @ t"
  by (induction base targ rule: strip_common.induct) (auto split: if_splits)

lemma clean_rooted_plain: "list_all (\<lambda>c. CHR ''/'' \<notin> set c) cs \<Longrightarrow> list_all plain_name (clean_rooted cs)"
proof -
  have "list_all (\<lambda>c. CHR ''/'' \<notin> set c) cs \<Longrightarrow> list_all plain_name acc \<Longrightarrow>
      list_all plain_name (foldl clean_step acc cs)" for acc
  proof (induction cs arbitrary: acc)
    case (Cons c cs)
    have "list_all plain_name (clean_step acc c)"
      using Cons.prems by (auto simp: clean_step_def plain_name_def list_all_iff dest: in_set_butlastD)
    then show ?case using Cons by simp
  qed simp
  then show "list_all (\<lambda>c. CHR ''/'' \<notin> set c) cs \<Longrightarrow> list_all plain_name (clean_rooted cs)"
    by (simp add: clean_rooted_def)
qed

lemma split_on_parts: "list_all (\<lambda>p. c \<notin> set p) (split_on c s)"
  by (induction c s rule: split_on.induct) (auto split: list.splits)

lemma split_join_plain: "cs \<noteq> [] \<Longrightarrow> list_all plain_name cs \<Longrightarrow> split_on (CHR ''/'') (join_with (CHR ''/'') cs) = cs"
  by (rule split_join) (auto simp: list_all_iff plain_name_def)

lemma absPath_join: "clean_root root \<Longrightarrow> cs \<noteq> [] \<Longrightarrow> list_all plain_name cs \<Longrightarrow> absPath root (join_with (CHR ''/'') cs) = root @ cs"
  by (simp add: absPath_def split_join_plain clean_rooted_def clean_root_def clean_plain)

lemma absPath_dot: "clean_root root \<Longrightarrow> absPath root ''.'' = root"
  by (simp add: absPath_def clean_rooted_def clean_root_def clean_plain clean_step_def)

lemma dotdot_join: "take 2 (join_with (CHR ''/'') (''..'' # cs)) = ''..''"
  by (cases cs) simp_all

lemma rel_steps:
  "list_all (\<lambda>c. CHR ''/'' \<notin> set c) cs \<Longrightarrow> acc = replicate n ''..'' @ ps \<Longrightarrow> list_all plain_name ps \<Longrightarrow>
   \<exists>n' ps'. foldl rel_step acc cs = replicate n' ''..'' @ ps' \<and> list_all plain_name ps'"
proof (induction cs arbitrary: acc n ps)
  case (Cons c cs)
  have "\<exists>n' ps'. rel_step acc c = replicate n' ''..'' @ ps' \<and> list_all plain_name ps'"
  proof (cases "c = '''' \<or> c = ''.''")
    case True
    then show ?thesis using Cons.prems by (auto simp: rel_step_def)
  next
    case plain: False
    show ?thesis
    proof (cases "c = ''..''")
      case False
      then have "rel_step acc c = replicate n ''..'' @ (ps @ [c])" "plain_name c"
        using plain Cons.prems by (auto simp: rel_step_def plain_name_def)
      moreover have "list_all plain_name (ps @ [c])" using Cons.prems(3) \<open>plain_name c\<close> by simp
      ultimately show ?thesis by blast
    next
      case dots: True
      show ?thesis
      proof (cases "ps = []")
        case True
        then have "rel_step acc c = replicate (Suc n) ''..'' @ []"
          using dots Cons.prems(2) by (auto simp: rel_step_def replicate_append_same)
        moreover have "list_all plain_name []" by simp
        ultimately show ?thesis by blast
      next
        case False
        then have "last ps \<noteq> ''..''" using Cons.prems(3) by (auto simp: list_all_iff plain_name_def)
        then have "rel_step acc c = replicate n ''..'' @ butlast ps"
          using dots False Cons.prems(2) by (auto simp: rel_step_def butlast_append)
        moreover have "list_all plain_name (butlast ps)"
          using Cons.prems(3) by (auto simp: list_all_iff dest: in_set_butlastD)
        ultimately show ?thesis by blast
      qed
    qed
  qed
  then show ?case using Cons.IH Cons.prems(1) by auto
qed auto

lemma relative_location_inside:
  assumes "clean_root root" "take 2 (clean_relative p) \<noteq> ''..''"
  shows "\<exists>cs. absPath root (clean_relative p) = root @ cs \<and> list_all plain_name cs"
proof -
  obtain n ps where ps: "foldl rel_step [] (split_on (CHR ''/'') p) = replicate n ''..'' @ ps" "list_all plain_name ps"
    using rel_steps [OF split_on_parts [of "CHR ''/''" p], of "[]" 0 "[]"] by auto
  have "n = 0"
  proof (cases n)
    case (Suc m)
    then have "clean_relative p = join_with (CHR ''/'') (''..'' # (replicate m ''..'' @ ps))"
      using ps(1) by (simp add: clean_relative_def)
    then show ?thesis using assms(2) dotdot_join by metis
  qed simp
  then have "clean_relative p = (if ps = [] then ''.'' else join_with (CHR ''/'') ps)"
    using ps(1) by (simp add: clean_relative_def)
  then show ?thesis using assms(1) ps(2) absPath_dot absPath_join by (cases "ps = []") auto
qed

lemma absolute_location_inside:
  assumes "clean_root root" "list_all plain_name targ" "take 2 (filepath_Rel root targ) \<noteq> ''..''"
  shows "\<exists>cs. absPath root (filepath_Rel root targ) = root @ cs \<and> list_all plain_name cs"
proof -
  obtain b t where bt: "strip_common root targ = (b, t)" by (metis surj_pair)
  have "b = []"
  proof (cases b)
    case (Cons x xs)
    then have "filepath_Rel root targ = join_with (CHR ''/'') (''..'' # (replicate (length xs) ''..'' @ t))"
      using bt by (simp add: filepath_Rel_def)
    then show ?thesis using assms(3) dotdot_join by metis
  qed
  then have "targ = root @ t" using strip_common_prefix bt by simp
  then have "list_all plain_name t" using assms(2) by simp
  moreover have "filepath_Rel root targ = (if t = [] then ''.'' else join_with (CHR ''/'') t)"
    using bt \<open>b = []\<close> by (simp add: filepath_Rel_def)
  ultimately show ?thesis using assms(1) absPath_dot absPath_join by (cases "t = []") auto
qed

text \<open>
  C34. A location never leaves the root, and the URL of a blob leads back to its key.  Whatever string is parsed as
  a location (with \<open>..\<close> components, doubled slashes, another root), the key it gives names a path inside the
  root; and the location a store reports for a key parses to that key, where the URL parser gives back the
  path (no character that needs escaping) and the key does not begin with two dots.
\<close>

theorem locations_stay_inside:
  assumes root: "clean_root root"
  shows "(FileStore_ParseLocation urlPath root location = Some key \<longrightarrow>
      (\<exists>cs. absPath root key = root @ cs \<and> list_all plain_name cs)) \<and>
    (plain_key k \<and> take 2 k \<noteq> ''..'' \<and> urlPath (FileStore_URL root k) = Some (path_string (absPath root k)) \<longrightarrow>
      FileStore_ParseLocation urlPath root (FileStore_URL root k) = Some k)"
proof (intro conjI impI)
  assume "FileStore_ParseLocation urlPath root location = Some key"
  then obtain p where "take 1 p \<noteq> ''/'' \<and> key = clean_relative p \<and> take 2 key \<noteq> ''..'' \<or>
      key = filepath_Rel root (clean_rooted (split_on (CHR ''/'') p)) \<and> take 2 key \<noteq> ''..''"
    by (auto simp: FileStore_ParseLocation_def Let_def split: option.splits if_splits)
  then show "\<exists>cs. absPath root key = root @ cs \<and> list_all plain_name cs"
    using relative_location_inside [OF root] absolute_location_inside [OF root clean_rooted_plain [OF split_on_parts]]
    by blast
next
  assume k: "plain_key k \<and> take 2 k \<noteq> ''..'' \<and> urlPath (FileStore_URL root k) = Some (path_string (absPath root k))"
  let ?cs = "split_on (CHR ''/'') k"
  have cs: "list_all plain_name (root @ ?cs)" "absPath root k = root @ ?cs"
    using root k absPath_plain by (auto simp: clean_root_def plain_key_def Let_def)
  have "clean_rooted (split_on (CHR ''/'') (path_string (root @ ?cs))) = root @ ?cs"
    using cs(1) split_join_plain [of "root @ ?cs"]
    by (simp add: path_string_def clean_rooted_def clean_step_def clean_plain)
  moreover have "filepath_Rel root (root @ ?cs) = k"
    using strip_common_same [of root "[]" ?cs] by (simp add: filepath_Rel_def join_split)
  ultimately show "FileStore_ParseLocation urlPath root (FileStore_URL root k) = Some k"
    using k cs(2) by (simp add: FileStore_ParseLocation_def FileStore_URL_def path_string_def)
qed

theorem locations_stay_inside_witness:
  "FileStore_ParseLocation (\<lambda>u. Some (drop 7 u)) [''srv'', ''vod''] ''file:///srv/vod/../../etc/passwd'' = None \<and>
   FileStore_ParseLocation (\<lambda>u. Some (drop 7 u)) [''srv'', ''vod''] (FileStore_URL [''srv'', ''vod''] ''blobs/x.mp4'') = Some ''blobs/x.mp4''"
proof -
  have "clean_root [''srv'', ''vod'']" by (simp add: clean_root_def plain_name_def)
  from locations_stay_inside [OF this, of "\<lambda>u. Some (drop 7 u)" _ _ "''blobs/x.mp4''"]
  have "FileStore_ParseLocation (\<lambda>u. Some (drop 7 u)) [''srv'', ''vod''] (FileStore_URL [''srv'', ''vod''] ''blobs/x.mp4'') = Some ''blobs/x.mp4''"
    by (simp add: plain_key_def plain_name_def FileStore_URL_def Let_def stagingDir_def)
  then show ?thesis
    by (simp add: FileStore_ParseLocation_def filepath_Rel_def clean_rooted_def clean_step_def)
qed

section \<open>Writes are atomic\<close>

text \<open>
  C16. A file store shows a blob whole or not at all.  Whatever calls of the operating system fail, a write (open,
  any number of chunks, the caller's check, \<open>Complete\<close>, the deferred \<open>Close\<close>) that returns nil leaves exactly the
  chunks under the key; one that returns an error changes no key; and a later read of the key that returns no error
  returns exactly the bytes that are there.
\<close>

theorem file_writes_are_atomic:
  assumes root: "clean_root root" and key: "plain_key key"
    and run: "put_blob (file_store root) msgs checked key chunks w = (r, w')"
    and rd: "readWholeBlob (file_store root) key w' = (got, w'')"
  shows "fs_objs root w' = (if r = None then (fs_objs root w)(key \<mapsto> concat chunks) else fs_objs root w) \<and>
    (r = None \<longrightarrow> checked = None) \<and> (\<forall>bs. got = Inr bs \<longrightarrow> fs_objs root w' key = Some bs) \<and>
    fs_objs root w'' = fs_objs root w'"
proof -
  note c = file_store_contract [OF root]
  have "fs_objs root w' = (if r = None then (fs_objs root w)(key \<mapsto> concat chunks) else fs_objs root w) \<and>
      (r = None \<longrightarrow> checked = None)"
    using put_blob_cases [OF c key run]
  proof
    assume "\<exists>h2 w2 rc h3 w3. st_Complete (file_store root) h2 w2 = (rc, h3, w3) \<and>
      fs_staged root w2 h2 = Some (key, concat chunks) \<and> fs_objs root w2 = fs_objs root w \<and>
      fs_objs root w' = fs_objs root w3 \<and> (r = None \<longleftrightarrow> rc = None) \<and> checked = None"
    then obtain h2 w2 rc h3 w3 where e: "fileWriter_Complete h2 w2 = (rc, h3, w3)"
      "fs_staged root w2 h2 = Some (key, concat chunks)" "fs_objs root w2 = fs_objs root w"
      "fs_objs root w' = fs_objs root w3" "r = None \<longleftrightarrow> rc = None" "checked = None"
      by (auto simp: file_store_def)
    from file_complete_strict [OF root e(2,1)] e(3-6) show ?thesis by simp
  qed auto
  then show ?thesis using readWholeBlob_outcome(1,2) [OF c key rd] by blast
qed

definition demo_disk :: "(nat \<Rightarrow> string option) \<Rightarrow> os_world" where
  "demo_disk fault = \<lparr>os_files = Map.empty, os_calls = 0, os_fault = fault, os_short = (\<lambda>_. 1), os_uuid = show_nat\<rparr>"

theorem file_writes_are_atomic_witness:
  "let w' = snd (put_blob (file_store [''vod'']) ('''', '''', '''') None ''a/b'' [''xy'', ''z''] (demo_disk (\<lambda>_. None))) in
   fs_objs [''vod''] w' ''a/b'' = Some ''xyz''"
proof -
  have root: "clean_root [''vod'']" and key: "plain_key ''a/b''"
    by (simp_all add: clean_root_def plain_name_def plain_key_def stagingDir_def)
  obtain r w' where run: "put_blob (file_store [''vod'']) ('''', '''', '''') None ''a/b'' [''xy'', ''z''] (demo_disk (\<lambda>_. None)) = (r, w')"
    by (metis surj_pair)
  have "fst (put_blob (file_store [''vod'']) ('''', '''', '''') None ''a/b'' [''xy'', ''z''] (demo_disk (\<lambda>_. None))) = None"
    by code_simp
  then have "r = None" unfolding run by simp
  obtain got w'' where rd: "readWholeBlob (file_store [''vod'']) ''a/b'' w' = (got, w'')" by (metis surj_pair)
  from file_writes_are_atomic [OF root key run rd] \<open>r = None\<close> show ?thesis by (simp add: run)
qed

end
