(* ===== verification/VodTransfer.thy ===== *)
theory VodTransfer
  imports Metafile FileStore
begin

text \<open>
  The transfer of a recording between nodes (\<open>vod/transfer.go\<close>): download against the content identifier, rebuild of
  the sidecars, publication.  The answer of the source, the muxer's events, JSON and the publication of the origin record are parameters;
  the store is any that keeps \<open>store_contract\<close>.
\<close>

section \<open>Operations\<close>

text \<open>What the source answered: an error of the transport, or a status and a body in chunks that may end in an error.\<close>

record http_response =
  hr_Status :: int
  hr_Chunks :: "bytes list"
  hr_BodyErr :: "go_error option"

definition downloadContentBlob ::
  "('w, 'h) blob_store \<Rightarrow> (bytes \<Rightarrow> bytes) \<Rightarrow> go_error + http_response \<Rightarrow> string \<Rightarrow> string \<Rightarrow> 'w \<Rightarrow> (go_error + int) \<times> 'w" where
  "downloadContentBlob st hash resp key contentCID w =
     (case resp of
        Inl e \<Rightarrow> (Inl (WrapErr ''fetch blob'' [e]), w)
      | Inr r \<Rightarrow>
          if hr_Status r \<noteq> 200 then (Inl (Sentinel ''source returned''), w)
          else
            (let checked =
               (case hr_BodyErr r of
                  Some e \<Rightarrow> Some (WrapErr ''stream blob to store'' [e])
                | None \<Rightarrow> if CID hash (concat (hr_Chunks r)) \<noteq> contentCID then Some (Sentinel ''CID mismatch'') else None)
             in case put_blob st (''open store writer'', ''stream blob to store'', ''complete store write'') checked key (hr_Chunks r) w of
                  (Some e, w1) \<Rightarrow> (Inl e, w1)
                | (None, w1) \<Rightarrow> (Inr (int (length (concat (hr_Chunks r)))), w1)))"

definition existingBlobSize :: "('w, 'h) blob_store \<Rightarrow> string \<Rightarrow> 'w \<Rightarrow> (go_error + int) \<times> 'w" where
  "existingBlobSize st key w =
     (case st_Open st key w of (Inl e, w1) \<Rightarrow> (Inl e, w1) | (Inr (n, body), w1) \<Rightarrow> (Inr n, w1))"

text \<open>The distinct init identifiers of an index, sorted.\<close>

fun dedup_cids :: "string list \<Rightarrow> string list \<Rightarrow> string list" where
  "dedup_cids seen [] = []"
| "dedup_cids seen (c # cs) =
     (if c = '''' \<or> c \<in> set seen then dedup_cids seen cs else c # dedup_cids (c # seen) cs)"

definition dedupedInitCIDs :: "Metafile \<Rightarrow> string list" where
  "dedupedInitCIDs meta = sort (dedup_cids [] (map (\<lambda>(tid, t). tk_InitCID t) (mf_Tracks meta)))"

text \<open>\<open>unwrap\<close> is the muxer on the bytes it reads; \<open>cancelled\<close> the context's error at the end of the stream.\<close>

definition regenerateSidecars ::
  "('w, 'h) blob_store \<Rightarrow> (bytes \<Rightarrow> bytes) \<Rightarrow> (Metafile \<Rightarrow> bytes) \<Rightarrow> (s3body \<Rightarrow> muxl_event list \<times> go_error option) \<Rightarrow>
   go_error option \<Rightarrow> string \<Rightarrow> int \<Rightarrow> 'w \<Rightarrow> (go_error + Metafile \<times> string list) \<times> 'w" where
  "regenerateSidecars st hash marshal unwrap cancelled contentCID size' w =
     (case st_Open st (blob_key contentCID) w of
        (Inl e, w1) \<Rightarrow> (Inl (WrapErr ''open content blob'' [e]), w1)
      | (Inr (n, body), w1) \<Rightarrow>
          (let (evs, perr) = unwrap body;
               (obsErr, b, w2) = observe_all st hash evs None newMetafileBuilder w1
           in case perr of
                Some e \<Rightarrow> (Inl (WrapErr ''muxl unwrap'' [e]), w2)
              | None \<Rightarrow>
                  (case obsErr of
                     Some e \<Rightarrow> (Inl (WrapErr ''metafile build'' [e]), w2)
                   | None \<Rightarrow>
                       (case cancelled of
                          Some e \<Rightarrow> (Inl e, w2)
                        | None \<Rightarrow>
                            (let meta = builder_Finalize contentCID size' b in
                             case writeMetafile st marshal contentCID meta w2 of
                               (Some e, w3) \<Rightarrow> (Inl e, w3)
                             | (None, w3) \<Rightarrow> (Inr (meta, dedupedInitCIDs meta), w3))))))"

definition ensureSidecars ::
  "('w, 'h) blob_store \<Rightarrow> (bytes \<Rightarrow> bytes) \<Rightarrow> (Metafile \<Rightarrow> bytes) \<Rightarrow> (bytes \<Rightarrow> go_error + Metafile) \<Rightarrow>
   (s3body \<Rightarrow> muxl_event list \<times> go_error option) \<Rightarrow> go_error option \<Rightarrow> string \<Rightarrow> int \<Rightarrow> 'w \<Rightarrow>
   (go_error + Metafile \<times> string list) \<times> 'w" where
  "ensureSidecars st hash marshal unmarshal unwrap cancelled contentCID size' w =
     (case readMetafile st unmarshal contentCID w of
        (Inr meta, w1) \<Rightarrow> (Inr (meta, dedupedInitCIDs meta), w1)
      | (Inl e, w1) \<Rightarrow>
          if \<not> errors_Is e ErrNotFound then (Inl (WrapErr ''check existing metafile'' [e]), w1)
          else regenerateSidecars st hash marshal unwrap cancelled contentCID size' w1)"

record TransferResult =
  tr_ContentCID :: string
  tr_Size :: int
  tr_DID :: string
  tr_InitCIDs :: "string list"
  tr_TrackCount :: nat
  tr_Downloaded :: bool

text \<open>The step that makes sure the blob is here: its size and whether it was fetched.\<close>

definition obtain_blob ::
  "('w, 'h) blob_store \<Rightarrow> (bytes \<Rightarrow> bytes) \<Rightarrow> go_error + http_response \<Rightarrow> string \<Rightarrow> 'w \<Rightarrow> (go_error + int \<times> bool) \<times> 'w" where
  "obtain_blob st hash resp contentCID w =
     (case existingBlobSize st (blob_key contentCID) w of
        (Inr n, w1) \<Rightarrow> (Inr (n, False), w1)
      | (Inl e, w1) \<Rightarrow>
          if errors_Is e ErrNotFound
          then (case downloadContentBlob st hash resp (blob_key contentCID) contentCID w1 of
                  (Inl e, w2) \<Rightarrow> (Inl e, w2)
                | (Inr n, w2) \<Rightarrow> (Inr (n, True), w2))
          else (Inl (WrapErr ''stat existing blob'' [e]), w1))"

definition TransferVOD ::
  "('w, 'h) blob_store \<Rightarrow> (bytes \<Rightarrow> bytes) \<Rightarrow> (Metafile \<Rightarrow> bytes) \<Rightarrow> (bytes \<Rightarrow> go_error + Metafile) \<Rightarrow>
   (s3body \<Rightarrow> muxl_event list \<times> go_error option) \<Rightarrow> go_error option \<Rightarrow> (string \<Rightarrow> int \<Rightarrow> go_error option) \<Rightarrow>
   go_error + http_response \<Rightarrow> bool \<Rightarrow> string \<Rightarrow> string \<Rightarrow> 'w \<Rightarrow> TransferResult outcome \<times> 'w" where
  "TransferVOD st hash marshal unmarshal unwrap cancelled publish resp validBase contentCID did w =
     (case Parse contentCID of
        Panic \<Rightarrow> (Panic, w)
      | Failed e \<Rightarrow> (Failed (WrapErr ''invalid content CID'' [e]), w)
      | Value _ \<Rightarrow>
          if did = [] then (Failed (Sentinel ''did is required''), w)
          else if \<not> validBase then (Failed (Sentinel ''invalid source base URL''), w)
          else
            (case obtain_blob st hash resp contentCID w of
               (Inl e, w1) \<Rightarrow> (Failed e, w1)
             | (Inr (n, downloaded), w1) \<Rightarrow>
                 (case ensureSidecars st hash marshal unmarshal unwrap cancelled contentCID n w1 of
                    (Inl e, w2) \<Rightarrow> (Failed (WrapErr ''regenerate sidecars'' [e]), w2)
                  | (Inr (meta, initCIDs), w2) \<Rightarrow>
                      (case publish contentCID n of
                         Some e \<Rightarrow> (Failed (WrapErr ''publish origin'' [e]), w2)
                       | None \<Rightarrow>
                           (Value \<lparr>tr_ContentCID = contentCID, tr_Size = n, tr_DID = did, tr_InitCIDs = initCIDs,
                                   tr_TrackCount = length (mf_Tracks meta), tr_Downloaded = downloaded\<rparr>, w2)))))"

section \<open>Names\<close>

text \<open>The strings that parse as identifiers; they are plain names.\<close>

definition cid_name :: "string \<Rightarrow> bool" where
  "cid_name c = (c \<noteq> [] \<and> list_all (\<lambda>x. x \<in> set b32_alphabet \<or> x = CHR 0x0A \<or> x = CHR 0x0D) c)"

lemma Parse_cid_name: "Parse cid = Value d \<Longrightarrow> cid_name cid"
proof -
  assume p: "Parse cid = Value d"
  then have b: "cid \<noteq> []" "hd cid = CHR ''b''" "b32_decode (tl cid) \<noteq> None"
    by (auto simp: Parse_def split: if_splits option.splits)
  have "list_all (\<lambda>c. c \<in> set b32_alphabet) (filter (\<lambda>c. c \<noteq> CHR 0x0A \<and> c \<noteq> CHR 0x0D) (tl cid))"
    using b(3) by (auto simp: b32_decode_def Let_def split: if_splits)
  then have "list_all (\<lambda>x. x \<in> set b32_alphabet \<or> x = CHR 0x0A \<or> x = CHR 0x0D) (tl cid)"
    by (auto simp: list_all_iff)
  moreover have "CHR ''b'' \<in> set b32_alphabet" by (simp add: b32_alphabet_def)
  ultimately show ?thesis using b(1,2) by (cases cid) (auto simp: cid_name_def)
qed

lemma CID_cid_name: "cid_name (CID hash bs)"
proof -
  have "CHR ''b'' \<in> set b32_alphabet" by (simp add: b32_alphabet_def)
  then show ?thesis
    using encode_in_alphabet [OF b32_alphabet_ok(2)] by (auto simp: CID_def encodeCID_def cid_name_def list_all_iff)
qed

lemma cid_key_plain:
  assumes "cid_name cid"
  shows "plain_key (blob_key cid)" "plain_key (meta_key cid)"
proof -
  have "CHR ''/'' \<notin> set b32_alphabet" by (simp add: b32_alphabet_def)
  then have slash: "CHR ''/'' \<notin> set cid" using assms by (auto simp: cid_name_def list_all_iff)
  have parts: "split_on (CHR ''/'') (''blobs/'' @ s) = [''blobs'', s]" if "CHR ''/'' \<notin> set s" for s
    using split_on_append [of "CHR ''/''" "''blobs''" s] split_on_clean [OF that] by simp
  have "plain_key (''blobs/'' @ s)" if "CHR ''/'' \<notin> set s" "2 < length s" for s
    using parts [OF that(1)] that by (auto simp: plain_key_def plain_name_def stagingDir_def)
  then show "plain_key (blob_key cid)" "plain_key (meta_key cid)"
    using slash by (simp_all add: blob_key_def meta_key_def BlobsPrefix_def)
qed

section \<open>A store of recordings\<close>

text \<open>What a store of recordings promises: the blob under the key of an identifier has that identifier.\<close>

definition content_addressed :: "(bytes \<Rightarrow> bytes) \<Rightarrow> (string \<rightharpoonup> bytes) \<Rightarrow> bool" where
  "content_addressed hash objs = (\<forall>cid bs. cid_name cid \<longrightarrow> objs (blob_key cid) = Some bs \<longrightarrow> CID hash bs = cid)"

text \<open>The invariant of every step: the store stays content addressed, and a blob that is there stays there.\<close>

definition keeps_blobs :: "(bytes \<Rightarrow> bytes) \<Rightarrow> (string \<rightharpoonup> bytes) \<Rightarrow> (string \<rightharpoonup> bytes) \<Rightarrow> bool" where
  "keeps_blobs hash m m' =
     ((content_addressed hash m \<longrightarrow> content_addressed hash m') \<and>
      (\<forall>cid. m (blob_key cid) \<noteq> None \<longrightarrow> m' (blob_key cid) \<noteq> None))"

lemma keeps_blobs_refl [simp]: "keeps_blobs hash m m"
  by (simp add: keeps_blobs_def)

lemma keeps_blobs_trans: "keeps_blobs hash m m1 \<Longrightarrow> keeps_blobs hash m1 m2 \<Longrightarrow> keeps_blobs hash m m2"
  by (simp add: keeps_blobs_def)

lemma keeps_blobs_meta: "keeps_blobs hash m (m(meta_key cid \<mapsto> bs))"
  by (auto simp: keeps_blobs_def content_addressed_def)

lemma keeps_blobs_put: "CID hash bs = cid \<Longrightarrow> keeps_blobs hash m (m(blob_key cid \<mapsto> bs))"
  by (auto simp: keeps_blobs_def content_addressed_def)

text \<open>A store in which the keys of identifiers may be used.\<close>

definition recording_store ::
  "('w, 'h) blob_store \<Rightarrow> ('w \<Rightarrow> string \<rightharpoonup> bytes) \<Rightarrow> ('w, 'h) staged \<Rightarrow> (string \<Rightarrow> bool) \<Rightarrow> bool" where
  "recording_store st objs wr ok =
     (store_contract st objs wr ok \<and> (\<forall>cid. cid_name cid \<longrightarrow> ok (blob_key cid) \<and> ok (meta_key cid)))"

lemma file_recording_store: "clean_root root \<Longrightarrow> recording_store (file_store root) (fs_objs root) (fs_staged root) plain_key"
  by (simp add: recording_store_def file_store_contract cid_key_plain)

lemma recording_put:
  assumes "recording_store st objs wr ok" "cid_name cid" "key = blob_key cid \<or> key = meta_key cid"
    and "put_blob st msgs checked key chunks w = (r, w')"
  shows "objs w' = (objs w)(key \<mapsto> concat chunks) \<and> checked = None \<or> r \<noteq> None \<and> objs w' = objs w"
  using assms put_blob_outcome [of st objs wr ok key msgs checked chunks w r w'] by (auto simp: recording_store_def)

lemma write_inits_keeps_blobs:
  assumes s: "recording_store st objs wr ok"
  shows "write_inits st hash inits b w = (r, b', w') \<Longrightarrow> keeps_blobs hash (objs w) (objs w')"
proof (induction inits arbitrary: b w)
  case (Cons i inits)
  obtain tid bs where i: "i = (tid, bs)" by (metis surj_pair)
  obtain r1 w1 where p: "put_blob st (''open init writer'', ''write init bytes'', ''complete init upload'') None
      (blob_key (CID hash bs)) [bs] w = (r1, w1)" by (metis surj_pair)
  have k: "keeps_blobs hash (objs w) (objs w1)"
    using recording_put [OF s CID_cid_name _ p, of hash bs] keeps_blobs_put [of hash bs _ "objs w", OF refl] by auto
  show ?case
  proof (cases r1)
    case (Some e)
    then show ?thesis using Cons.prems i p k by (simp add: writeInitBlob_def Let_def)
  next
    case None
    then have "write_inits st hash inits (b\<lparr>mb_trackInitCIDs := (mb_trackInitCIDs b)(tid \<mapsto> CID hash bs)\<rparr>) w1 = (r, b', w')"
      using Cons.prems i p by (simp add: writeInitBlob_def Let_def)
    from Cons.IH [OF this] k show ?thesis by (rule keeps_blobs_trans [rotated])
  qed
qed simp

lemma Observe_keeps_blobs:
  assumes s: "recording_store st objs wr ok" and run: "builder_Observe st hash ev b w = (r, b', w')"
  shows "keeps_blobs hash (objs w) (objs w')"
proof (cases "ev_Type ev = ''init''")
  case True
  obtain r1 b1 w1 where i: "write_inits st hash (ev_TrackInits ev) (b\<lparr>mb_seenInit := True, mb_catalog := ev_Catalog ev\<rparr>) w = (r1, b1, w1)"
    by (metis surj_pair)
  have "w' = w1" using run True i by (auto simp: builder_Observe_def Let_def split: option.splits)
  then show ?thesis using write_inits_keeps_blobs [OF s i] by simp
next
  case False
  then show ?thesis using run by (auto simp: builder_Observe_def split: if_splits)
qed

lemma observe_all_keeps_blobs:
  assumes s: "recording_store st objs wr ok"
  shows "observe_all st hash evs err b w = (r, b', w') \<Longrightarrow> keeps_blobs hash (objs w) (objs w')"
proof (induction evs arbitrary: err b w)
  case (Cons ev evs)
  obtain e b1 w1 where o: "builder_Observe st hash ev b w = (e, b1, w1)" by (metis surj_pair)
  have "keeps_blobs hash (objs w1) (objs w')" using Cons o by (auto split: option.splits)
  then show ?case using Observe_keeps_blobs [OF s o] keeps_blobs_trans by blast
qed simp

text \<open>The download: an error and a store as it was (or, the answer of \<open>Complete\<close> lost, with the verified bytes), or the bytes.\<close>

lemma download_outcome:
  assumes s: "recording_store st objs wr ok" "cid_name cid"
    and run: "downloadContentBlob st hash resp (blob_key cid) cid w = (r, w')"
  shows "keeps_blobs hash (objs w) (objs w')"
    and "r = Inr n \<Longrightarrow> \<exists>bs. objs w' (blob_key cid) = Some bs \<and> CID hash bs = cid \<and> n = int (length bs)"
proof -
  have "keeps_blobs hash (objs w) (objs w') \<and>
      (\<forall>n. r = Inr n \<longrightarrow> (\<exists>bs. objs w' (blob_key cid) = Some bs \<and> CID hash bs = cid \<and> n = int (length bs)))"
  proof (cases "\<exists>x. resp = Inr x \<and> hr_Status x = 200")
    case False
    then show ?thesis using run by (cases resp) (auto simp: downloadContentBlob_def)
  next
    case True
    then obtain x where x: "resp = Inr x" "hr_Status x = 200" by blast
    define checked where "checked =
      (case hr_BodyErr x of
         Some e \<Rightarrow> Some (WrapErr ''stream blob to store'' [e])
       | None \<Rightarrow> if CID hash (concat (hr_Chunks x)) \<noteq> cid then Some (Sentinel ''CID mismatch'') else None)"
    obtain rp w1 where p: "put_blob st (''open store writer'', ''stream blob to store'', ''complete store write'') checked
        (blob_key cid) (hr_Chunks x) w = (rp, w1)" by (metis surj_pair)
    have r: "w' = w1" "r = (case rp of Some e \<Rightarrow> Inl e | None \<Rightarrow> Inr (int (length (concat (hr_Chunks x)))))"
      using run x p unfolding downloadContentBlob_def
      by (auto simp: checked_def [symmetric] Let_def split: option.splits)
    have ok: "checked = None \<Longrightarrow> CID hash (concat (hr_Chunks x)) = cid"
      by (auto simp: checked_def split: option.splits if_splits)
    have "objs w1 = (objs w)(blob_key cid \<mapsto> concat (hr_Chunks x)) \<and> checked = None \<or> rp \<noteq> None \<and> objs w1 = objs w"
      using recording_put [OF s _ p] by simp
    then show ?thesis
    proof
      assume done': "objs w1 = (objs w)(blob_key cid \<mapsto> concat (hr_Chunks x)) \<and> checked = None"
      then show ?thesis using keeps_blobs_put [OF ok, of "objs w"] r ok by (auto split: option.splits)
    next
      assume "rp \<noteq> None \<and> objs w1 = objs w"
      then show ?thesis using r by auto
    qed
  qed
  then show "keeps_blobs hash (objs w) (objs w')"
    and "r = Inr n \<Longrightarrow> \<exists>bs. objs w' (blob_key cid) = Some bs \<and> CID hash bs = cid \<and> n = int (length bs)" by auto
qed

lemma obtain_blob_outcome:
  assumes s: "recording_store st objs wr ok" "cid_name cid" and run: "obtain_blob st hash resp cid w = (r, w')"
  shows "keeps_blobs hash (objs w) (objs w')"
    and "content_addressed hash (objs w) \<Longrightarrow> r = Inr (n, d) \<Longrightarrow>
      \<exists>bs. objs w' (blob_key cid) = Some bs \<and> CID hash bs = cid \<and> n = int (length bs)"
proof -
  have c: "store_contract st objs wr ok" "ok (blob_key cid)" using s by (auto simp: recording_store_def)
  obtain r1 w1 where op: "st_Open st (blob_key cid) w = (r1, w1)" by (metis surj_pair)
  note o = promise_open [OF c op]
  obtain r2 w2 where dl: "downloadContentBlob st hash resp (blob_key cid) cid w1 = (r2, w2)" by (metis surj_pair)
  have "keeps_blobs hash (objs w) (objs w') \<and>
      (content_addressed hash (objs w) \<longrightarrow> (\<forall>n d. r = Inr (n, d) \<longrightarrow>
        (\<exists>bs. objs w' (blob_key cid) = Some bs \<and> CID hash bs = cid \<and> n = int (length bs))))"
  proof (cases r1)
    case (Inr nb)
    then obtain m body where nb: "r1 = Inr (m, body)" by (cases nb) auto
    then have r: "r = Inr (m, False)" "w' = w1"
      using run op by (auto simp: obtain_blob_def existingBlobSize_def)
    show ?thesis using o(1) o(2) [OF nb] r s(2) by (auto simp: content_addressed_def)
  next
    case (Inl e)
    then have r: "(r, w') = (if errors_Is e ErrNotFound
        then (case r2 of Inl e \<Rightarrow> (Inl e, w2) | Inr n \<Rightarrow> (Inr (n, True), w2))
        else (Inl (WrapErr ''stat existing blob'' [e]), w1))"
      using run op dl by (auto simp: obtain_blob_def existingBlobSize_def split: sum.splits)
    show ?thesis
    proof (cases "errors_Is e ErrNotFound")
      case True
      then show ?thesis using r o(1) download_outcome(1) [OF s dl] download_outcome(2) [OF s dl] by (cases r2) auto
    next
      case False
      then show ?thesis using r o(1) by auto
    qed
  qed
  then show "keeps_blobs hash (objs w) (objs w')"
    and "content_addressed hash (objs w) \<Longrightarrow> r = Inr (n, d) \<Longrightarrow>
      \<exists>bs. objs w' (blob_key cid) = Some bs \<and> CID hash bs = cid \<and> n = int (length bs)" by auto
qed

lemma ensureSidecars_keeps_blobs:
  assumes s: "recording_store st objs wr ok" "cid_name cid"
    and run: "ensureSidecars st hash marshal unmarshal unwrap cancelled cid n w = (r, w')"
  shows "keeps_blobs hash (objs w) (objs w')"
proof -
  have c: "store_contract st objs wr ok" "ok (blob_key cid)" "ok (meta_key cid)" using s by (auto simp: recording_store_def)
  obtain r1 w1 where m: "readMetafile st unmarshal cid w = (r1, w1)" by (metis surj_pair)
  have w1: "objs w1 = objs w"
    using m readWholeBlob_outcome(1) [OF c(1,3)] by (auto simp: readMetafile_def split: prod.splits sum.splits)
  show ?thesis
  proof (cases "\<exists>e. r1 = Inl e \<and> errors_Is e ErrNotFound")
    case False
    then have "w' = w1" using run m by (auto simp: ensureSidecars_def split: sum.splits if_splits)
    then show ?thesis using w1 by simp
  next
    case True
    then have g: "regenerateSidecars st hash marshal unwrap cancelled cid n w1 = (r, w')"
      using run m by (auto simp: ensureSidecars_def)
    obtain r2 w2 where op: "st_Open st (blob_key cid) w1 = (r2, w2)" by (metis surj_pair)
    have w2: "objs w2 = objs w1" using promise_open(1) [OF c(1,2) op] .
    show ?thesis
    proof (cases r2)
      case (Inl e)
      then have "w' = w2" using g op by (simp add: regenerateSidecars_def)
      then show ?thesis using w1 w2 by simp
    next
      case (Inr nb)
      obtain k body where nb: "nb = (k, body)" by (cases nb)
      obtain evs perr where u: "unwrap body = (evs, perr)" by (metis surj_pair)
      obtain obs b w3 where ob: "observe_all st hash evs None newMetafileBuilder w2 = (obs, b, w3)" by (metis surj_pair)
      have k3: "keeps_blobs hash (objs w2) (objs w3)" by (rule observe_all_keeps_blobs [OF s(1) ob])
      obtain rm w4 where wm: "writeMetafile st marshal cid (builder_Finalize cid n b) w3 = (rm, w4)" by (metis surj_pair)
      have k4: "keeps_blobs hash (objs w3) (objs w4)"
        using recording_put [OF s, of "meta_key cid"] wm keeps_blobs_meta unfolding writeMetafile_def by fastforce
      have "w' = w3 \<or> w' = w4"
        using g op Inr nb u ob wm
        by (auto simp: regenerateSidecars_def Let_def split: option.splits)
      then show ?thesis using k3 k4 w1 w2 keeps_blobs_trans by (metis (no_types))
    qed
  qed
qed

text \<open>
  C7. A node never holds wrong bytes for a content identifier, and a transfer that succeeds hosts the blob.  Whatever the
  source serves (any status, any bytes, a body that breaks off), whatever requests of the store fail, and whatever the muxer
  makes of the blob: a store of recordings in which every blob has the identifier it is stored under stays
  such a store, no blob disappears, and when \<open>TransferVOD\<close> returns a result for an identifier the store
  holds under its key bytes with that identifier, and the size reported is the size of such bytes.
\<close>

theorem transfers_keep_content_addressed:
  assumes s: "recording_store st objs wr ok" and good: "content_addressed hash (objs w)"
    and run: "TransferVOD st hash marshal unmarshal unwrap cancelled publish resp validBase cid did w = (res, w')"
  shows "content_addressed hash (objs w') \<and> (\<forall>c. objs w (blob_key c) \<noteq> None \<longrightarrow> objs w' (blob_key c) \<noteq> None) \<and>
    (\<forall>r. res = Value r \<longrightarrow> tr_ContentCID r = cid \<and>
       (\<exists>bs. objs w' (blob_key cid) = Some bs \<and> CID hash bs = cid) \<and>
       (\<exists>bs. CID hash bs = cid \<and> tr_Size r = int (length bs)))"
proof (cases "(\<exists>d. Parse cid = Value d) \<and> did \<noteq> [] \<and> validBase")
  case False
  then show ?thesis using run good by (auto simp: TransferVOD_def split: outcome.splits if_splits)
next
  case True
  then obtain d where p: "Parse cid = Value d" "did \<noteq> []" "validBase" by blast
  note name = Parse_cid_name [OF p(1)]
  obtain r1 w1 where ob: "obtain_blob st hash resp cid w = (r1, w1)" by (metis surj_pair)
  note o = obtain_blob_outcome [OF s name ob]
  show ?thesis
  proof (cases r1)
    case (Inl e)
    then have "res = Failed e" "w' = w1" using run p ob by (auto simp: TransferVOD_def)
    then show ?thesis using o(1) good by (auto simp: keeps_blobs_def)
  next
    case (Inr nd)
    obtain n dl where nd: "nd = (n, dl)" by (cases nd)
    obtain bs where bs: "objs w1 (blob_key cid) = Some bs" "CID hash bs = cid" "n = int (length bs)"
      using o(2) [OF good] Inr nd by blast
    obtain r2 w2 where en: "ensureSidecars st hash marshal unmarshal unwrap cancelled cid n w1 = (r2, w2)"
      by (metis surj_pair)
    have k: "keeps_blobs hash (objs w) (objs w2)"
      using keeps_blobs_trans [OF o(1) ensureSidecars_keeps_blobs [OF s name en]] .
    have held: "objs w2 (blob_key cid) \<noteq> None"
      using ensureSidecars_keeps_blobs [OF s name en] bs(1) by (simp add: keeps_blobs_def)
    have eq: "(res, w') = (case r2 of Inl e \<Rightarrow> (Failed (WrapErr ''regenerate sidecars'' [e]), w2)
        | Inr mi \<Rightarrow> (case publish cid n of Some e \<Rightarrow> (Failed (WrapErr ''publish origin'' [e]), w2)
            | None \<Rightarrow> (Value \<lparr>tr_ContentCID = cid, tr_Size = n, tr_DID = did, tr_InitCIDs = snd mi,
                tr_TrackCount = length (mf_Tracks (fst mi)), tr_Downloaded = dl\<rparr>, w2)))"
      unfolding run [symmetric] by (cases r2; cases "projr r2") (simp_all add: TransferVOD_def p ob Inr nd en split: option.split)
    have "w' = w2" using eq by (cases r2; cases "publish cid n") simp_all
    moreover have "tr_ContentCID r = cid \<and> tr_Size r = n" if "res = Value r" for r
      using eq that by (cases r2; cases "publish cid n") simp_all
    moreover have ca: "content_addressed hash (objs w2)"
      and keep: "\<forall>c. objs w (blob_key c) \<noteq> None \<longrightarrow> objs w2 (blob_key c) \<noteq> None"
      using k good unfolding keeps_blobs_def by blast+
    moreover have "\<exists>bs. objs w2 (blob_key cid) = Some bs \<and> CID hash bs = cid"
      using ca held name unfolding content_addressed_def by blast
    ultimately show ?thesis using bs(2,3) by blast
  qed
qed

text \<open>A transfer into an empty directory from a source whose body comes in two chunks.\<close>

definition demo_os :: os_world where
  "demo_os = \<lparr>os_files = Map.empty, os_calls = 0, os_fault = (\<lambda>_. None), os_short = (\<lambda>_. 0), os_uuid = (\<lambda>n. show_nat n)\<rparr>"

definition demo_transfer :: "TransferResult outcome \<times> os_world" where
  "demo_transfer =
     TransferVOD (file_store [''vod'']) demo_hash (\<lambda>_. ''{}'') (\<lambda>_. Inl (Sentinel ''bad json'')) (\<lambda>_. ([], None)) None
       (\<lambda>_ _. None) (Inr \<lparr>hr_Status = 200, hr_Chunks = [''rec'', ''ording''], hr_BodyErr = None\<rparr>) True
       (CID demo_hash ''recording'') ''did:plc:a'' demo_os"

lemma demo_transfer_value:
  "fst demo_transfer = Value \<lparr>tr_ContentCID = CID demo_hash ''recording'', tr_Size = 9, tr_DID = ''did:plc:a'',
     tr_InitCIDs = [], tr_TrackCount = 0, tr_Downloaded = True\<rparr>"
  by code_simp

theorem transfers_keep_content_addressed_witness:
  "content_addressed demo_hash (fs_objs [''vod''] (snd demo_transfer)) \<and>
   (\<exists>bs. fs_objs [''vod''] (snd demo_transfer) (blob_key (CID demo_hash ''recording'')) = Some bs \<and>
      CID demo_hash bs = CID demo_hash ''recording'')"
proof -
  have root: "clean_root [''vod'']" by (simp add: clean_root_def plain_name_def)
  have empty_store: "content_addressed demo_hash (fs_objs [''vod''] demo_os)"
    by (simp add: content_addressed_def fs_objs_def demo_os_def)
  obtain res w' where run: "demo_transfer = (res, w')" by (metis surj_pair)
  have "res = fst demo_transfer" unfolding run by simp
  then have res: "\<exists>r. res = Value r" unfolding demo_transfer_value by blast
  from transfers_keep_content_addressed [OF file_recording_store [OF root] empty_store run [unfolded demo_transfer_def]] res
  show ?thesis unfolding run snd_conv by blast
qed

text \<open>The summary of an index lists each init blob once, in order.\<close>

lemma dedup_cids_set: "set (dedup_cids seen cs) = set cs - {''''} - set seen"
  by (induction cs arbitrary: seen) auto

lemma dedup_cids_distinct: "distinct (dedup_cids seen cs)"
  by (induction cs arbitrary: seen) (auto simp: dedup_cids_set)

lemma dedupedInitCIDs_spec:
  "sorted (dedupedInitCIDs m) \<and> distinct (dedupedInitCIDs m) \<and>
   set (dedupedInitCIDs m) = tk_InitCID ` snd ` set (mf_Tracks m) - {''''}"
  by (auto simp: dedupedInitCIDs_def dedup_cids_distinct dedup_cids_set image_iff case_prod_beta)

end
