(* ===== verification/PlaybackSession.thy ===== *)
theory PlaybackSession
  imports BaseEncoding Errors
begin

text \<open>
  Signed playback sessions (\<open>psession/psession.go\<close>) and what the playback handlers do with them
  (\<open>spxrpc/playback_session.go\<close>).  HMAC-SHA256 is a parameter \<open>mac\<close> and TID syntax a parameter \<open>parseTID\<close>, whose
  documented part is that a TID is thirteen letters and digits; unforgeability is not assumed, only, where a
  property needs it, that two given messages do not collide.
\<close>

section \<open>Sessions\<close>

definition ScopePublic :: string where "ScopePublic = ''p''"
definition ScopeOwner :: string where "ScopeOwner = ''o''"
definition version :: string where "version = ''1''"
definition sigBytes :: nat where "sigBytes = 16"

abbreviation "ErrMalformed \<equiv> Sentinel ''playback session: malformed''"
abbreviation "ErrSignature \<equiv> Sentinel ''playback session: bad signature''"
abbreviation "ErrExpired \<equiv> Sentinel ''playback session: expired''"

record Session =
  ss_ID :: string
  ss_Scope :: string
  ss_Expires :: time

type_synonym mac_fn = "bytes \<Rightarrow> bytes \<Rightarrow> bytes"

definition base64url :: string where
  "base64url = ''ABCDEFGHIJKLMNOPQRSTUVWXYZabcdefghijklmnopqrstuvwxyz0123456789-_''"

definition sign_message :: "string \<Rightarrow> string \<Rightarrow> int \<Rightarrow> string \<Rightarrow> bytes" where
  "sign_message id' scope expiry streamer =
     join_with CHR ''|'' [version, id', scope, FormatInt expiry, streamer]"

definition sign :: "mac_fn \<Rightarrow> bytes \<Rightarrow> string \<Rightarrow> string \<Rightarrow> int \<Rightarrow> string \<Rightarrow> string" where
  "sign mac key id' scope expiry streamer =
     encode_in base64url 6 (take sigBytes (mac key (sign_message id' scope expiry streamer)))"

text \<open>\<open>Time.Unix\<close> and \<open>time.Unix\<close>, and truncation to a second.\<close>

definition unix :: "time \<Rightarrow> int" where "unix t = t div second"
definition from_unix :: "int \<Rightarrow> time" where "from_unix s = s * second"
definition truncate_second :: "time \<Rightarrow> time" where "truncate_second t = from_unix (unix t)"

definition encode_session :: "mac_fn \<Rightarrow> bytes \<Rightarrow> string \<Rightarrow> string \<Rightarrow> time \<Rightarrow> string \<Rightarrow> string" where
  "encode_session mac key id' scope expiry streamer =
     (let e = unix expiry in
      join_with CHR ''.'' [version, id', scope, FormatInt e, sign mac key id' scope e streamer])"

definition Mint :: "mac_fn \<Rightarrow> string \<Rightarrow> bytes \<Rightarrow> string \<Rightarrow> string \<Rightarrow> duration \<Rightarrow> time \<Rightarrow> Session \<times> string" where
  "Mint mac tid key streamer scope ttl now =
     (let s = \<lparr>ss_ID = tid, ss_Scope = scope, ss_Expires = truncate_second (now + ttl)\<rparr> in
      (s, encode_session mac key (ss_ID s) (ss_Scope s) (ss_Expires s) streamer))"

definition Renew :: "mac_fn \<Rightarrow> bytes \<Rightarrow> Session \<Rightarrow> string \<Rightarrow> duration \<Rightarrow> time \<Rightarrow> Session \<times> string" where
  "Renew mac key s streamer ttl now =
     (let s' = s\<lparr>ss_Expires := truncate_second (now + ttl)\<rparr> in
      (s', encode_session mac key (ss_ID s') (ss_Scope s') (ss_Expires s') streamer))"

definition WellFormed :: "(string \<Rightarrow> bool) \<Rightarrow> string \<Rightarrow> bool" where
  "WellFormed parseTID value =
     (case split_on CHR ''.'' value of
        [v, tid, scope, expiry, sig] \<Rightarrow>
          v = version \<and> parseTID tid \<and> (scope = ScopePublic \<or> scope = ScopeOwner) \<and>
          ParseInt64 expiry \<noteq> None \<and> sig \<noteq> []
      | _ \<Rightarrow> False)"

text \<open>An expired session is returned with the error.\<close>

definition Parse_session ::
  "(string \<Rightarrow> bool) \<Rightarrow> mac_fn \<Rightarrow> bytes \<Rightarrow> string \<Rightarrow> string \<Rightarrow> time \<Rightarrow> Session option \<times> go_error option" where
  "Parse_session parseTID mac key value streamer now =
     (case split_on CHR ''.'' value of
        [v, tid, scope, expiry, sig] \<Rightarrow>
          if v \<noteq> version then (None, Some ErrMalformed)
          else if \<not> parseTID tid then (None, Some ErrMalformed)
          else if scope \<noteq> ScopePublic \<and> scope \<noteq> ScopeOwner then (None, Some ErrMalformed)
          else
            (case ParseInt64 expiry of
               None \<Rightarrow> (None, Some ErrMalformed)
             | Some e \<Rightarrow>
                 if sig \<noteq> sign mac key tid scope e streamer then (None, Some ErrSignature)
                 else
                   (let s = \<lparr>ss_ID = tid, ss_Scope = scope, ss_Expires = from_unix e\<rparr> in
                    if now > ss_Expires s then (Some s, Some ErrExpired) else (Some s, None)))
      | _ \<Rightarrow> (None, Some ErrMalformed))"

definition session_ID :: "string \<Rightarrow> string" where
  "session_ID value =
     (case split_at_byte CHR ''.'' value of
        None \<Rightarrow> value
      | Some (before, rest) \<Rightarrow>
          if before \<noteq> [] \<and> take 2 value = version @ ''.''
          then (case split_at_byte CHR ''.'' rest of
                  Some (tid, _) \<Rightarrow> if tid \<noteq> [] then tid else rest
                | None \<Rightarrow> rest)
          else value)"

section \<open>The playback handlers\<close>

definition publicSessionTTL :: duration where "publicSessionTTL = 24 * hour"
definition ownerSessionTTL :: duration where "ownerSessionTTL = hour"

definition sessionTTL :: "string \<Rightarrow> duration" where
  "sessionTTL scope = (if scope = ScopeOwner then ownerSessionTTL else publicSessionTTL)"

record playbackSession =
  pb_Session :: Session
  pb_SID :: string
  pb_Redirect :: bool

abbreviation "errBadSession \<equiv> Sentinel ''InvalidSession''"

text \<open>\<open>sessionKey\<close> is the station's key, read once; \<open>tid\<close> is the id a fresh session would get.\<close>

definition resolveSession ::
  "(string \<Rightarrow> bool) \<Rightarrow> mac_fn \<Rightarrow> go_error + bytes \<Rightarrow> string \<Rightarrow> time \<Rightarrow> string \<Rightarrow> string \<Rightarrow> bool \<Rightarrow>
   go_error + playbackSession" where
  "resolveSession parseTID mac sessionKey tid now sid streamer needsRedirect =
     (if sid \<noteq> [] \<and> \<not> WellFormed parseTID sid then Inl errBadSession
      else bind_res sessionKey (\<lambda>key.
        if sid = []
        then (let (sess, value) = Mint mac tid key streamer ScopePublic publicSessionTTL now in
              Inr \<lparr>pb_Session = sess, pb_SID = value, pb_Redirect = needsRedirect\<rparr>)
        else
          (case Parse_session parseTID mac key sid streamer now of
             (Some sess, None) \<Rightarrow>
               if ss_Expires sess - now < sessionTTL (ss_Scope sess) div 2
               then (let (sess', value) = Renew mac key sess streamer (sessionTTL (ss_Scope sess)) now in
                     Inr \<lparr>pb_Session = sess', pb_SID = value, pb_Redirect = needsRedirect\<rparr>)
               else Inr \<lparr>pb_Session = sess, pb_SID = sid, pb_Redirect = False\<rparr>
           | (Some sess, Some e) \<Rightarrow>
               if errors_Is e ErrExpired
               then (let (sess', value) = Renew mac key sess streamer (sessionTTL (ss_Scope sess)) now in
                     Inr \<lparr>pb_Session = sess', pb_SID = value, pb_Redirect = needsRedirect\<rparr>)
               else Inl errBadSession
           | (None, _) \<Rightarrow> Inl errBadSession)))"

definition verifySession ::
  "(string \<Rightarrow> bool) \<Rightarrow> mac_fn \<Rightarrow> go_error + bytes \<Rightarrow> time \<Rightarrow> string \<Rightarrow> string \<Rightarrow> go_error + Session" where
  "verifySession parseTID mac sessionKey now sid streamer =
     bind_res sessionKey (\<lambda>key.
       case Parse_session parseTID mac key sid streamer now of
         (Some sess, None) \<Rightarrow> Inr sess
       | _ \<Rightarrow> Inl (Sentinel ''Forbidden: InvalidSession''))"

definition accountedSession ::
  "(string \<Rightarrow> bool) \<Rightarrow> mac_fn \<Rightarrow> go_error + bytes \<Rightarrow> time \<Rightarrow> string \<Rightarrow> string \<Rightarrow> string" where
  "accountedSession parseTID mac sessionKey now sid streamer =
     (if sid = [] then []
      else
        (case sessionKey of
           Inl _ \<Rightarrow> []
         | Inr key \<Rightarrow>
             (case Parse_session parseTID mac key sid streamer now of
                (Some sess, None) \<Rightarrow> ss_ID sess
              | (Some sess, Some e) \<Rightarrow> if errors_Is e ErrExpired then ss_ID sess else []
              | (None, _) \<Rightarrow> [])))"

text \<open>The owner's session, minted for the authenticated caller.\<close>

definition getPlaybackSession ::
  "mac_fn \<Rightarrow> go_error + bytes \<Rightarrow> string \<Rightarrow> time \<Rightarrow> string option \<Rightarrow> go_error + string \<times> time" where
  "getPlaybackSession mac sessionKey tid now caller =
     (case caller of
        None \<Rightarrow> Inl (Sentinel ''oauth session not found'')
      | Some did \<Rightarrow>
          bind_res sessionKey (\<lambda>key.
            let (sess, sid) = Mint mac tid key did ScopeOwner ownerSessionTTL now in Inr (sid, ss_Expires sess)))"


section \<open>Reading a session back\<close>

text \<open>What is documented of TID syntax: thirteen characters of an alphabet without punctuation.\<close>

definition tid_syntax :: "(string \<Rightarrow> bool) \<Rightarrow> bool" where
  "tid_syntax parseTID =
     (\<forall>s. parseTID s \<longrightarrow> s \<noteq> [] \<and> CHR ''.'' \<notin> set s \<and> CHR ''|'' \<notin> set s)"

lemma base64url_alphabet: "distinct base64url" "length base64url = 2 ^ 6" "CHR ''.'' \<notin> set base64url"
  by (simp_all add: base64url_def)

lemma sign_clean: "CHR ''.'' \<notin> set (sign mac key tid scope e streamer)"
  using encode_in_alphabet [OF base64url_alphabet(2)] base64url_alphabet(3) unfolding sign_def by blast

lemma FormatInt_clean: "CHR ''.'' \<notin> set (FormatInt n)" "CHR ''|'' \<notin> set (FormatInt n)"
  using FormatInt_set [of "CHR ''.''" n] FormatInt_set [of "CHR ''|''" n]
  by (auto simp: dec_digit_def less_eq_char_def)

lemma scope_clean:
  "scope = ScopePublic \<or> scope = ScopeOwner \<Longrightarrow> CHR ''.'' \<notin> set scope \<and> CHR ''|'' \<notin> set scope"
  by (auto simp: ScopePublic_def ScopeOwner_def)

lemma split_encoded:
  assumes "tid_syntax parseTID" "parseTID tid" "scope = ScopePublic \<or> scope = ScopeOwner"
  shows "split_on CHR ''.'' (encode_session mac key tid scope t streamer) =
    [version, tid, scope, FormatInt (unix t), sign mac key tid scope (unix t) streamer]"
  unfolding encode_session_def Let_def
  by (rule split_join)
    (use assms scope_clean [of scope] in \<open>auto simp: tid_syntax_def FormatInt_clean sign_clean version_def\<close>)

definition in_int64 :: "int \<Rightarrow> bool" where
  "in_int64 n = (- (2 ^ 63) \<le> n \<and> n < 2 ^ 63)"

lemma Parse_encoded:
  assumes "tid_syntax parseTID" "parseTID tid" "scope = ScopePublic \<or> scope = ScopeOwner" "in_int64 (unix t)"
  shows "Parse_session parseTID mac key (encode_session mac key tid scope t streamer) streamer now =
    (Some \<lparr>ss_ID = tid, ss_Scope = scope, ss_Expires = truncate_second t\<rparr>,
     if now > truncate_second t then Some ErrExpired else None)"
proof -
  have "ParseInt64 (FormatInt (unix t)) = Some (unix t)"
    using assms(4) by (intro ParseInt64_FormatInt) (auto simp: in_int64_def)
  with assms(2,3) show ?thesis
    by (auto simp: Parse_session_def split_encoded [OF assms(1-3)] truncate_second_def Let_def)
qed

lemma WellFormed_encoded:
  assumes "tid_syntax parseTID" "parseTID tid" "scope = ScopePublic \<or> scope = ScopeOwner" "in_int64 (unix t)"
    and "mac key (sign_message tid scope (unix t) streamer) \<noteq> []"
  shows "WellFormed parseTID (encode_session mac key tid scope t streamer)"
proof -
  have "ParseInt64 (FormatInt (unix t)) = Some (unix t)"
    using assms(4) by (intro ParseInt64_FormatInt) (auto simp: in_int64_def)
  moreover have "sign mac key tid scope (unix t) streamer \<noteq> []"
    using assms(5) encode_in_Nil [of base64url 6 "take sigBytes (mac key (sign_message tid scope (unix t) streamer))"]
    by (auto simp: sign_def sigBytes_def)
  ultimately show ?thesis using assms(2,3) by (simp add: WellFormed_def split_encoded [OF assms(1-3)])
qed

lemma session_ID_encoded:
  assumes "tid_syntax parseTID" "parseTID tid" "scope = ScopePublic \<or> scope = ScopeOwner"
  shows "session_ID (encode_session mac key tid scope t streamer) = tid"
proof -
  let ?rest = "join_with CHR ''.'' [scope, FormatInt (unix t), sign mac key tid scope (unix t) streamer]"
  have tid: "tid \<noteq> []" "CHR ''.'' \<notin> set tid" using assms(1,2) by (auto simp: tid_syntax_def)
  have v: "encode_session mac key tid scope t streamer = version @ CHR ''.'' # tid @ CHR ''.'' # ?rest"
    by (simp add: encode_session_def Let_def)
  have "split_at_byte CHR ''.'' (tid @ CHR ''.'' # ?rest) = Some (tid, ?rest)"
    using tid by (simp only: split_at_byte_Some) simp
  moreover have "split_at_byte CHR ''.'' (version @ CHR ''.'' # tid @ CHR ''.'' # ?rest) =
      Some (version, tid @ CHR ''.'' # ?rest)"
    by (simp only: split_at_byte_Some) (simp add: version_def)
  ultimately show ?thesis using tid(1) unfolding session_ID_def v by (simp add: version_def)
qed

text \<open>The signed message determines what it was signed for.\<close>

lemma split_first:
  fixes c :: char
  shows "c \<notin> set a \<Longrightarrow> c \<notin> set b \<Longrightarrow> a @ c # x = b @ c # y \<longleftrightarrow> a = b \<and> x = y"
  using split_at_byte_Some [of c "a @ c # x" a x] split_at_byte_Some [of c "a @ c # x" b y] by auto

lemma sign_message_inj:
  assumes "CHR ''|'' \<notin> set id1" "CHR ''|'' \<notin> set id2" "CHR ''|'' \<notin> set sc1" "CHR ''|'' \<notin> set sc2"
    and "in_int64 e1" "in_int64 e2" "sign_message id1 sc1 e1 st1 = sign_message id2 sc2 e2 st2"
  shows "id1 = id2 \<and> sc1 = sc2 \<and> e1 = e2 \<and> st1 = st2"
proof -
  have "id1 @ CHR ''|'' # sc1 @ CHR ''|'' # FormatInt e1 @ CHR ''|'' # st1 =
      id2 @ CHR ''|'' # sc2 @ CHR ''|'' # FormatInt e2 @ CHR ''|'' # st2"
    using assms(7) by (simp add: sign_message_def)
  then have "id1 = id2" "sc1 = sc2" "FormatInt e1 = FormatInt e2" "st1 = st2"
    using assms(1-4) FormatInt_clean(2) by (simp_all add: split_first)
  then show ?thesis using FormatInt_inj assms(5,6) by (auto simp: in_int64_def)
qed

text \<open>What a value that is not refused looks like.\<close>

lemma Parse_accepts:
  assumes "Parse_session parseTID mac key value streamer now = (Some s, err)"
  shows "\<exists>e sig. split_on CHR ''.'' value = [version, ss_ID s, ss_Scope s, e, sig] \<and> parseTID (ss_ID s) \<and>
    (ss_Scope s = ScopePublic \<or> ss_Scope s = ScopeOwner) \<and>
    (\<exists>n. ParseInt64 e = Some n \<and> ss_Expires s = from_unix n \<and> sig = sign mac key (ss_ID s) (ss_Scope s) n streamer) \<and>
    err = (if now > ss_Expires s then Some ErrExpired else None)"
proof -
  have len: "length (split_on CHR ''.'' value) = 5"
  proof (rule ccontr)
    assume "length (split_on CHR ''.'' value) \<noteq> 5"
    then have "Parse_session parseTID mac key value streamer now = (None, Some ErrMalformed)"
      unfolding Parse_session_def by (auto split: list.splits)
    then show False using assms by simp
  qed
  obtain v tid scope e sig where p: "split_on CHR ''.'' value = [v, tid, scope, e, sig]"
    using len by (auto simp: length_Suc_conv eval_nat_numeral)
  have ok: "v = version" "parseTID tid" "scope = ScopePublic \<or> scope = ScopeOwner"
    using assms unfolding Parse_session_def p by (simp_all split: if_splits)
  obtain n where n: "ParseInt64 e = Some n"
    using assms ok unfolding Parse_session_def p by (cases "ParseInt64 e") (simp_all split: if_splits)
  have "sig = sign mac key tid scope n streamer"
    using assms ok n unfolding Parse_session_def p by (simp split: if_splits)
  moreover from this have "s = \<lparr>ss_ID = tid, ss_Scope = scope, ss_Expires = from_unix n\<rparr>"
    "err = (if now > from_unix n then Some ErrExpired else None)"
    using assms ok n unfolding Parse_session_def p by (simp_all add: Let_def split: if_splits)
  ultimately show ?thesis using p ok n by auto
qed

lemma ParseInt64_range: "ParseInt64 s = Some n \<Longrightarrow> in_int64 n"
  by (auto simp: ParseInt64_def in_int64_def Let_def split: if_splits)


section \<open>Properties\<close>

text \<open>
  C28. A session reads back as what it was issued as.  The value \<open>Mint\<close> returns, and the value \<open>Renew\<close> returns for any
  session \<open>s\<close> of the same playback, is well formed, names the session's id to the counters of viewers, and
  parses, for the streamer it was issued for and until it expires, as exactly the session issued;
  afterwards it parses as that session with \<open>ErrExpired\<close>.
\<close>

theorem session_reads_back:
  assumes tid: "tid_syntax parseTID" "parseTID tid" and scope: "scope = ScopePublic \<or> scope = ScopeOwner"
    and mac: "\<And>m. mac key m \<noteq> []" and time: "in_int64 (unix (now + ttl))"
    and issued: "(s, value) = Mint mac tid key streamer scope ttl now \<or>
      (s, value) = Renew mac key \<lparr>ss_ID = tid, ss_Scope = scope, ss_Expires = before\<rparr> streamer ttl now"
  shows "WellFormed parseTID value \<and> session_ID value = ss_ID s \<and> ss_ID s = tid \<and> ss_Scope s = scope \<and>
    Parse_session parseTID mac key value streamer t = (Some s, if t > ss_Expires s then Some ErrExpired else None)"
proof -
  let ?e = "truncate_second (now + ttl)"
  have s: "s = \<lparr>ss_ID = tid, ss_Scope = scope, ss_Expires = ?e\<rparr>"
    and v: "value = encode_session mac key tid scope ?e streamer"
    using issued by (auto simp: Mint_def Renew_def Let_def)
  have sec: "second \<noteq> 0" by (simp add: second_def)
  have u: "unix ?e = unix (now + ttl)" "truncate_second ?e = ?e"
    using sec by (simp_all add: truncate_second_def unix_def from_unix_def)
  have e: "in_int64 (unix ?e)" using time u by simp
  show ?thesis
    using WellFormed_encoded [OF tid scope e, of mac key streamer] mac session_ID_encoded [OF tid scope]
      Parse_encoded [OF tid scope e] u(2) s v by simp
qed

theorem session_reads_back_witness:
  "let tid = ''3kdgeujwlq32y''; mac = (\<lambda>k m. take 20 (k @ m));
       (s, value) = Mint mac tid ''key'' ''did:plc:abc'' ScopeOwner ownerSessionTTL (5 * second)
   in Parse_session (\<lambda>x. x = tid) mac ''key'' value ''did:plc:abc'' (6 * second) = (Some s, None)"
proof -
  let ?tid = "''3kdgeujwlq32y''" and ?mac = "\<lambda>k m. take 20 (k @ m) :: bytes"
  obtain s value' where mint: "(s, value') = Mint ?mac ?tid ''key'' ''did:plc:abc'' ScopeOwner ownerSessionTTL (5 * second)"
    by (metis surj_pair)
  have tid: "tid_syntax (\<lambda>x. x = ?tid)" by (simp add: tid_syntax_def)
  have sc: "ScopeOwner = ScopePublic \<or> ScopeOwner = ScopeOwner" by simp
  have ne: "?mac ''key'' m \<noteq> []" for m by simp
  have t: "in_int64 (unix (5 * second + ownerSessionTTL))"
    by (simp add: in_int64_def unix_def duration_defs ownerSessionTTL_def)
  have ex: "ss_Expires s = 3605 * second"
    using mint by (simp add: Mint_def Let_def truncate_second_def from_unix_def unix_def duration_defs ownerSessionTTL_def)
  have "Parse_session (\<lambda>x. x = ?tid) ?mac ''key'' value' ''did:plc:abc'' (6 * second) = (Some s, None)"
    using session_reads_back [where mac = ?mac and key = "''key''" and ttl = ownerSessionTTL and now = "5 * second"
        and scope = ScopeOwner and t = "6 * second", OF tid refl sc ne t disjI1 [OF mint]] ex by (simp add: second_def)
  then show ?thesis using mint by (simp only: Let_def split_conv prod.case_eq_if) (metis fst_conv snd_conv)
qed

text \<open>
  C11. A signature opens only what it was issued for.  If a value carrying a signature the station issued (for
  some id, scope, expiry and streamer) is accepted for a stream, even as expired, then the stream is
  that streamer's and the accepted session has that id, scope and expiry: no part of a session can be
  swapped, a public session cannot become the owner's, and none opens another stream.  The one
  hypothesis about the MAC is that these two messages do not collide in the 16 bytes that are kept.
\<close>

theorem signature_binds_session:
  assumes tid: "tid_syntax parseTID" "parseTID tid" and scope: "scope = ScopePublic \<or> scope = ScopeOwner"
    and expiry: "in_int64 expiry"
    and fields: "split_on CHR ''.'' value = [v, tid', scope', e', sign mac key tid scope expiry streamer]"
    and accepted: "Parse_session parseTID mac key value streamer' now = (Some s, err)"
    and no_collision: "\<And>m'. m' = sign_message (ss_ID s) (ss_Scope s) (unix (ss_Expires s)) streamer' \<Longrightarrow>
      take sigBytes (mac key m') = take sigBytes (mac key (sign_message tid scope expiry streamer)) \<Longrightarrow>
      m' = sign_message tid scope expiry streamer"
  shows "streamer' = streamer \<and> ss_ID s = tid \<and> ss_Scope s = scope \<and> unix (ss_Expires s) = expiry"
proof -
  obtain e n where ok: "parseTID (ss_ID s)" "ss_Scope s = ScopePublic \<or> ss_Scope s = ScopeOwner"
      "ParseInt64 e = Some n" "ss_Expires s = from_unix n"
    and sig: "sign mac key tid scope expiry streamer = sign mac key (ss_ID s) (ss_Scope s) n streamer'"
    using Parse_accepts [OF accepted] fields by auto
  have n: "unix (ss_Expires s) = n" by (simp add: ok(4) unix_def from_unix_def second_def)
  have "take sigBytes (mac key (sign_message (ss_ID s) (ss_Scope s) n streamer')) =
      take sigBytes (mac key (sign_message tid scope expiry streamer))"
    using sig encode_in_inj [OF base64url_alphabet(1,2)] by (simp add: sign_def)
  then have "sign_message (ss_ID s) (ss_Scope s) n streamer' = sign_message tid scope expiry streamer"
    using no_collision n by simp
  moreover have "CHR ''|'' \<notin> set (ss_ID s)" "CHR ''|'' \<notin> set tid" using tid ok(1) by (auto simp: tid_syntax_def)
  ultimately show ?thesis
    using sign_message_inj [of "ss_ID s" tid "ss_Scope s" scope n expiry streamer' streamer]
      scope_clean ok(2) scope ParseInt64_range [OF ok(3)] expiry n by blast
qed

theorem signature_binds_session_witness:
  "let tid = ''3kdgeujwlq32y''; mac = (\<lambda>k m. rev m);
       value = encode_session mac ''key'' tid ScopePublic (90 * second) ''did:plc:a''
   in (\<exists>s. Parse_session (\<lambda>x. x = tid) mac ''key'' value ''did:plc:a'' 0 = (Some s, None) \<and>
         ''did:plc:a'' = ''did:plc:a'' \<and> ss_ID s = tid \<and> ss_Scope s = ScopePublic \<and> unix (ss_Expires s) = 90)"
proof -
  let ?tid = "''3kdgeujwlq32y''" and ?mac = "\<lambda>k m. rev m :: bytes"
  let ?issued = "encode_session ?mac ''key'' ?tid ScopePublic (90 * second) ''did:plc:a''"
  have tid: "tid_syntax (\<lambda>x. x = ?tid)" by (simp add: tid_syntax_def)
  have n: "unix (90 * second) = 90" by (simp add: unix_def second_def)
  have e: "in_int64 (unix (90 * second))" "in_int64 90" by (simp_all add: n in_int64_def)
  have sc: "ScopePublic = ScopePublic \<or> ScopePublic = ScopeOwner" by simp
  have sp: "split_on CHR ''.'' ?issued =
      [version, ?tid, ScopePublic, FormatInt 90, sign ?mac ''key'' ?tid ScopePublic 90 ''did:plc:a'']"
    using split_encoded [OF tid refl sc] by (simp add: n)
  obtain s where s: "Parse_session (\<lambda>x. x = ?tid) ?mac ''key'' ?issued ''did:plc:a'' 0 = (Some s, None)"
      "ss_ID s = ?tid" "ss_Scope s = ScopePublic" "unix (ss_Expires s) = 90"
    using Parse_encoded [OF tid refl sc e(1), where mac = ?mac and key = "''key''" and streamer = "''did:plc:a''" and now = 0]
    by (simp add: truncate_second_def from_unix_def n second_def) (simp add: unix_def second_def)
  have "streamer = streamer \<longrightarrow> ss_ID s = ?tid \<and> ss_Scope s = ScopePublic \<and> unix (ss_Expires s) = 90" for streamer :: string
    using signature_binds_session [OF tid refl sc e(2) sp s(1)] s(2-4) by simp
  then show ?thesis using s(1) by (auto simp: Let_def)
qed


lemma truncate_second_near: "truncate_second t \<le> t" "t - second < truncate_second t"
proof -
  have "t = truncate_second t + t mod second" by (simp add: truncate_second_def from_unix_def unix_def)
  moreover have "0 \<le> t mod second" "t mod second < second" by (simp_all add: second_def)
  ultimately show "truncate_second t \<le> t" "t - second < truncate_second t" by linarith+
qed

text \<open>A session just issued parses at once, with at least half of its life left.\<close>

lemma issued_now:
  assumes tid: "tid_syntax parseTID" "parseTID i" and scope: "sc = ScopePublic \<or> sc = ScopeOwner"
    and time: "0 \<le> now" "unix (now + publicSessionTTL) < 2 ^ 63"
  shows "Parse_session parseTID mac key
      (encode_session mac key i sc (truncate_second (now + sessionTTL sc)) streamer) streamer now =
      (Some \<lparr>ss_ID = i, ss_Scope = sc, ss_Expires = truncate_second (now + sessionTTL sc)\<rparr>, None)"
    and "truncate_second (now + sessionTTL sc) - now \<ge> sessionTTL sc div 2"
proof -
  have ttl: "sessionTTL sc = hour \<or> sessionTTL sc = 24 * hour" "sessionTTL sc \<le> publicSessionTTL"
    by (auto simp: sessionTTL_def ownerSessionTTL_def publicSessionTTL_def duration_defs)
  show left: "truncate_second (now + sessionTTL sc) - now \<ge> sessionTTL sc div 2"
    using truncate_second_near(2) [of "now + sessionTTL sc"] ttl(1) by (auto simp: duration_defs)
  have u: "unix (truncate_second t) = unix t" "truncate_second (truncate_second t) = truncate_second t" for t
    by (simp_all add: truncate_second_def unix_def from_unix_def second_def)
  have "unix (now + sessionTTL sc) \<le> unix (now + publicSessionTTL)"
    using ttl(2) unfolding unix_def by (intro zdiv_mono1) (auto simp: second_def)
  moreover have "0 \<le> unix (now + sessionTTL sc)"
    using time(1) ttl(1) by (auto simp: unix_def duration_defs)
  ultimately have e: "in_int64 (unix (truncate_second (now + sessionTTL sc)))"
    using time(2) unfolding u(1) in_int64_def by linarith
  have "0 < sessionTTL sc div 2" using ttl(1) by (auto simp: duration_defs)
  with left have "\<not> now > truncate_second (now + sessionTTL sc)" by linarith
  then show "Parse_session parseTID mac key
      (encode_session mac key i sc (truncate_second (now + sessionTTL sc)) streamer) streamer now =
      (Some \<lparr>ss_ID = i, ss_Scope = sc, ss_Expires = truncate_second (now + sessionTTL sc)\<rparr>, None)"
    using Parse_encoded [OF tid scope e, of mac key streamer now] u(2) by simp
qed

text \<open>
  C25. What \<open>resolveSession\<close> hands out.  Whenever it does not refuse, the value it puts in the URLs of the response is
  accepted for this stream right now, as the session it counts under, and stays so for at least half the
  life of its scope; a caller who sent a session keeps its id and its scope (it must have been signed for
  this stream), and a caller who sent none gets a public one.
\<close>

theorem resolved_session_is_good:
  assumes tid: "tid_syntax parseTID" "parseTID tid"
    and time: "0 \<le> now" "unix (now + publicSessionTTL) < 2 ^ 63"
    and run: "resolveSession parseTID mac (Inr key) tid now sid streamer needsRedirect = Inr out"
  shows "Parse_session parseTID mac key (pb_SID out) streamer now = (Some (pb_Session out), None) \<and>
    sessionTTL (ss_Scope (pb_Session out)) div 2 \<le> ss_Expires (pb_Session out) - now \<and>
    (if sid = [] then ss_Scope (pb_Session out) = ScopePublic
     else \<exists>s err. Parse_session parseTID mac key sid streamer now = (Some s, err) \<and>
            ss_ID (pb_Session out) = ss_ID s \<and> ss_Scope (pb_Session out) = ss_Scope s)"
proof (cases "sid = []")
  case True
  have ttl: "publicSessionTTL = sessionTTL ScopePublic" by (simp add: sessionTTL_def ScopePublic_def ScopeOwner_def)
  have "ScopePublic = ScopePublic \<or> ScopePublic = ScopeOwner" by simp
  note fresh = issued_now(1) [OF tid this time, of mac key streamer] issued_now(2) [OF tid this time]
  have "out = \<lparr>pb_Session = \<lparr>ss_ID = tid, ss_Scope = ScopePublic, ss_Expires = truncate_second (now + sessionTTL ScopePublic)\<rparr>,
      pb_SID = encode_session mac key tid ScopePublic (truncate_second (now + sessionTTL ScopePublic)) streamer,
      pb_Redirect = needsRedirect\<rparr>"
    using run True by (simp add: resolveSession_def Mint_def Let_def ttl)
  then show ?thesis using fresh True by simp
next
  case False
  have wf: "WellFormed parseTID sid" using run False by (auto simp: resolveSession_def split: if_splits)
  obtain s err where p: "Parse_session parseTID mac key sid streamer now = (Some s, err)"
    using run False wf
    by (cases "Parse_session parseTID mac key sid streamer now"; cases "fst (Parse_session parseTID mac key sid streamer now)")
      (auto simp: resolveSession_def)
  from Parse_accepts [OF p] have ok: "parseTID (ss_ID s)" "ss_Scope s = ScopePublic \<or> ss_Scope s = ScopeOwner" by blast+
  let ?e = "truncate_second (now + sessionTTL (ss_Scope s))"
  let ?renewed = "\<lparr>pb_Session = s\<lparr>ss_Expires := ?e\<rparr>, pb_SID = encode_session mac key (ss_ID s) (ss_Scope s) ?e streamer,
      pb_Redirect = needsRedirect\<rparr>"
  have out: "out = ?renewed \<or>
      out = \<lparr>pb_Session = s, pb_SID = sid, pb_Redirect = False\<rparr> \<and> err = None \<and>
        sessionTTL (ss_Scope s) div 2 \<le> ss_Expires s - now"
    using run False wf p
    by (cases err) (auto simp: resolveSession_def Renew_def Let_def split: if_splits)
  have s': "s\<lparr>ss_Expires := ?e\<rparr> = \<lparr>ss_ID = ss_ID s, ss_Scope = ss_Scope s, ss_Expires = ?e\<rparr>" by simp
  show ?thesis using out issued_now(1) [OF tid(1) ok time, of mac key streamer] issued_now(2) [OF tid(1) ok time] p False s'
    by auto
qed

lemma resolve_demo:
  "\<exists>out. resolveSession (\<lambda>x. x = ''3kdgeujwlq32y'') (\<lambda>k m. m) (Inr ''key'') ''3kdgeujwlq32y'' 0 [] ''did:plc:a'' True = Inr out"
  by (simp add: resolveSession_def Mint_def Let_def)

theorem resolved_session_is_good_witness:
  "\<exists>out. resolveSession (\<lambda>x. x = ''3kdgeujwlq32y'') (\<lambda>k m. m) (Inr ''key'') ''3kdgeujwlq32y'' 0 [] ''did:plc:a'' True = Inr out \<and>
     Parse_session (\<lambda>x. x = ''3kdgeujwlq32y'') (\<lambda>k m. m) ''key'' (pb_SID out) ''did:plc:a'' 0 = (Some (pb_Session out), None)"
proof -
  obtain out where out: "resolveSession (\<lambda>x. x = ''3kdgeujwlq32y'') (\<lambda>k m. m) (Inr ''key'') ''3kdgeujwlq32y'' 0 [] ''did:plc:a'' True = Inr out"
    using resolve_demo by blast
  have "tid_syntax (\<lambda>x. x = ''3kdgeujwlq32y'')" by (simp add: tid_syntax_def)
  from resolved_session_is_good [OF this refl _ _ out] out show ?thesis
    by (auto simp: unix_def publicSessionTTL_def duration_defs)
qed

end
