(* ===== verification/Labels.thy ===== *)
theory Labels
  imports Errors
begin

text \<open>
  Labels of accounts and records: how the labels of a subscribed labeler enter the index
  (\<open>atproto/labeler_firehose.go\<close>, \<open>model/label.go\<close>, \<open>model/labeler.go\<close>), which are active, and the decisions that
  rest on them (\<open>atproto/labels.go\<close>, \<open>spxrpc/labels.go\<close>, \<open>media/key_revocation.go\<close>).  Signatures, CBOR, the syntax of
  identifiers and times, and the chat messages of the index are parameters.
\<close>

section \<open>Values\<close>

definition LabelNoViewers :: string where "LabelNoViewers = ''!no-viewers''"

definition bannedLabels :: "string list" where
  "bannedLabels =
     [''dmca-violation'', ''doxxing'', ''porn'', ''sexual'', ''nudity'', ''nsfl'', ''gore'', ''!takedown'', ''!suspend'',
      ''sexual-figurative'', ''graphic-media'', ''self-harm'', ''sensitive'', ''extremist'', ''intolerant'', ''threat'',
      ''rude'', ''illicit'', ''security'', ''unsafe-link'', ''impersonation'', ''misinformation'', ''scam'',
      ''engagement-farming'', ''spam'', ''rumor'', ''misleading'', ''inauthentic'']"

text \<open>A label as labelers send it, and as a row of the index.\<close>

record lex_label =
  lx_Src :: string
  lx_Uri :: string
  lx_Val :: string
  lx_Cid :: "string option"
  lx_Cts :: string
  lx_Exp :: "string option"
  lx_Neg :: "bool option"

record label_row =
  lr_Src :: string
  lr_Uri :: string
  lr_Val :: string
  lr_Cid :: "string option"
  lr_Cts :: time
  lr_Exp :: time
  lr_Neg :: bool
  lr_Record :: bytes
  lr_RepoDID :: string

definition label_key :: "label_row \<Rightarrow> string \<times> string \<times> string" where
  "label_key r = (lr_Src r, lr_Uri r, lr_Val r)"

section \<open>The table\<close>

text \<open>\<open>OnConflict\<close> on source, subject and value updates every column.\<close>

fun put_label :: "label_row \<Rightarrow> label_row list \<Rightarrow> label_row list" where
  "put_label r [] = [r]"
| "put_label r (x # xs) = (if label_key x = label_key r then r # xs else x # put_label r xs)"

definition CreateLabel :: "go_error option \<Rightarrow> label_row \<Rightarrow> label_row list \<Rightarrow> go_error option \<times> label_row list" where
  "CreateLabel fault r tbl = (case fault of Some e \<Rightarrow> (Some e, tbl) | None \<Rightarrow> (None, put_label r tbl))"

text \<open>The rows of \<open>uri = ? AND (exp IS NULL OR exp < ?) AND neg = false\<close>; the column is never null, a label
  without an expiry has the zero time.\<close>

definition active_rows :: "string \<Rightarrow> time \<Rightarrow> label_row list \<Rightarrow> label_row list" where
  "active_rows uri now tbl = filter (\<lambda>r. lr_Uri r = uri \<and> lr_Exp r < now \<and> \<not> lr_Neg r) tbl"

fun decode_rows :: "(bytes \<Rightarrow> go_error + lex_label) \<Rightarrow> label_row list \<Rightarrow> go_error + lex_label list" where
  "decode_rows decode [] = Inr []"
| "decode_rows decode (r # rs) =
     bind_res (decode (lr_Record r)) (\<lambda>l. bind_res (decode_rows decode rs) (\<lambda>ls. Inr (l # ls)))"

definition GetActiveLabels ::
  "(bytes \<Rightarrow> go_error + lex_label) \<Rightarrow> go_error option \<Rightarrow> string \<Rightarrow> time \<Rightarrow> label_row list \<Rightarrow> go_error + lex_label list" where
  "GetActiveLabels decode fault uri now tbl =
     (case fault of Some e \<Rightarrow> Inl e | None \<Rightarrow> decode_rows decode (active_rows uri now tbl))"

section \<open>Decisions\<close>

fun IsBanned :: "lex_label list \<Rightarrow> bool" where
  "IsBanned [] = False"
| "IsBanned (l # ls) =
     (if take 4 (lx_Uri l) \<noteq> ''did:'' then IsBanned ls
      else if lx_Val l \<in> set bannedLabels then True else IsBanned ls)"

fun IsViewerBanned :: "lex_label list \<Rightarrow> bool" where
  "IsViewerBanned [] = False"
| "IsViewerBanned (l # ls) =
     (if take 4 (lx_Uri l) \<noteq> ''did:'' then IsViewerBanned ls
      else if lx_Val l \<in> set bannedLabels \<or> lx_Val l = LabelNoViewers then True else IsViewerBanned ls)"

definition accountBanned ::
  "(bytes \<Rightarrow> go_error + lex_label) \<Rightarrow> go_error option \<Rightarrow> string \<Rightarrow> time \<Rightarrow> label_row list \<Rightarrow> go_error + bool" where
  "accountBanned decode fault did now tbl =
     bind_res (GetActiveLabels decode fault did now tbl) (\<lambda>ls. Inr (IsBanned ls))"

definition recordLabeled ::
  "(bytes \<Rightarrow> go_error + lex_label) \<Rightarrow> go_error option \<Rightarrow> string \<Rightarrow> time \<Rightarrow> label_row list \<Rightarrow> go_error + bool" where
  "recordLabeled decode fault uri now tbl =
     bind_res (GetActiveLabels decode fault uri now tbl) (\<lambda>ls. Inr (0 < length ls))"

definition checkBanned ::
  "(bytes \<Rightarrow> go_error + lex_label) \<Rightarrow> go_error option \<Rightarrow> string \<Rightarrow> time \<Rightarrow> label_row list \<Rightarrow> go_error option" where
  "checkBanned decode fault did now tbl =
     (case GetActiveLabels decode fault did now tbl of
        Inl e \<Rightarrow> Some (WrapErr ''failed to get active labels'' [e])
      | Inr ls \<Rightarrow> if IsBanned ls then Some (Sentinel ''user is banned'') else None)"

text \<open>\<open>streamerIsBanned\<close> of a manager that may have no model.\<close>

definition streamerIsBanned ::
  "(bytes \<Rightarrow> go_error + lex_label) \<Rightarrow> go_error option \<Rightarrow> string \<Rightarrow> time \<Rightarrow> label_row list option \<Rightarrow> go_error + bool" where
  "streamerIsBanned decode fault did now model =
     (case model of
        None \<Rightarrow> Inr False
      | Some tbl \<Rightarrow> bind_res (GetActiveLabels decode fault did now tbl) (\<lambda>ls. Inr (IsBanned ls)))"

section \<open>A labeler's events\<close>

text \<open>What goes out on the bus: a chat message marked as deleted, on its streamer's key, or the label.\<close>

datatype 'v label_msg = ChatDeleted string 'v | LabelSeen string lex_label

text \<open>
  The outside of the handler: signature and syntax of a label, its encoding, times, the two readings of its subject
  (authority and collection of an AT-URI; a DID), and the chat message at a URI, with the streamer it was
  sent to and its view.
\<close>

record 'v label_env =
  le_verifySignature :: "lex_label \<Rightarrow> go_error option"
  le_verifySyntax :: "lex_label \<Rightarrow> go_error option"
  le_marshal :: "lex_label \<Rightarrow> go_error + bytes"
  le_decode :: "bytes \<Rightarrow> go_error + lex_label"
  le_parseTime :: "string \<Rightarrow> go_error + time"
  le_parseATURI :: "string \<Rightarrow> go_error + string \<times> string"
  le_asDID :: "string \<Rightarrow> go_error + string"
  le_parseDID :: "string \<Rightarrow> go_error + string"
  le_chat :: "string \<Rightarrow> go_error + (string \<times> (go_error + 'v)) option"

record 'v label_state =
  ls_labels :: "label_row list"
  ls_cursor :: int
  ls_published :: "'v label_msg list"

text \<open>The checks of a label in their order, up to the times.\<close>

definition check_label :: "'v label_env \<Rightarrow> lex_label \<Rightarrow> go_error + bytes \<times> time \<times> time" where
  "check_label env l =
     (case le_verifySignature env l of
        Some e \<Rightarrow> Inl e
      | None \<Rightarrow>
          (case le_verifySyntax env l of
             Some e \<Rightarrow> Inl e
           | None \<Rightarrow>
               bind_res (le_marshal env l) (\<lambda>bs.
               bind_res (le_parseTime env (lx_Cts l)) (\<lambda>cts.
               bind_res (case lx_Exp l of None \<Rightarrow> Inr zeroTime | Some s \<Rightarrow> le_parseTime env s) (\<lambda>exp.
                 Inr (bs, cts, exp))))))"

text \<open>Whose label it is, and the chat message it deletes, if any.\<close>

definition label_target :: "'v label_env \<Rightarrow> string \<Rightarrow> go_error + string \<times> (string \<times> 'v) option" where
  "label_target env uri =
     (case le_parseATURI env uri of
        Inl _ \<Rightarrow> bind_res (le_parseDID env uri) (\<lambda>d. Inr (d, None))
      | Inr (authority, collection) \<Rightarrow>
          bind_res (le_asDID env authority) (\<lambda>d.
            if collection = ''place.stream.chat.message''
            then (case le_chat env uri of
                    Inl e \<Rightarrow> Inl e
                  | Inr None \<Rightarrow> Inl (Sentinel ''chat message not found for label'')
                  | Inr (Some (streamer, view)) \<Rightarrow> bind_res view (\<lambda>v. Inr (d, Some (streamer, v))))
            else Inr (d, None)))"

definition label_row_of :: "lex_label \<Rightarrow> bytes \<Rightarrow> time \<Rightarrow> time \<Rightarrow> string \<Rightarrow> label_row" where
  "label_row_of l bs cts exp target =
     \<lparr>lr_Src = lx_Src l, lr_Uri = lx_Uri l, lr_Val = lx_Val l, lr_Cid = lx_Cid l, lr_Cts = cts, lr_Exp = exp,
      lr_Neg = (case lx_Neg l of None \<Rightarrow> False | Some b \<Rightarrow> b), lr_Record = bs, lr_RepoDID = target\<rparr>"

definition handle_label :: "'v label_env \<Rightarrow> go_error option \<Rightarrow> lex_label \<Rightarrow> 'v label_state \<Rightarrow> 'v label_state" where
  "handle_label env fault l s =
     (case check_label env l of
        Inl _ \<Rightarrow> s
      | Inr (bs, cts, exp) \<Rightarrow>
          (case label_target env (lx_Uri l) of
             Inl _ \<Rightarrow> s
           | Inr (target, chat) \<Rightarrow>
               (let s1 = (case chat of None \<Rightarrow> s
                          | Some (streamer, v) \<Rightarrow> s\<lparr>ls_published := ls_published s @ [ChatDeleted streamer v]\<rparr>) in
                case CreateLabel fault (label_row_of l bs cts exp target) (ls_labels s1) of
                  (Some _, _) \<Rightarrow> s1
                | (None, tbl) \<Rightarrow>
                    (let s2 = s1\<lparr>ls_labels := tbl\<rparr> in
                     case le_decode env bs of
                       Inl _ \<Rightarrow> s2
                     | Inr busLabel \<Rightarrow> s2\<lparr>ls_published := ls_published s2 @ [LabelSeen target busLabel]\<rparr>))))"

text \<open>An event: the cursor first (an error is logged), then its labels, each with the fault of its insert.\<close>

definition handle_labels ::
  "'v label_env \<Rightarrow> int \<times> go_error option \<times> (lex_label \<times> go_error option) list \<Rightarrow> 'v label_state \<Rightarrow> 'v label_state" where
  "handle_labels env evt s =
     (case evt of (seq, cfault, labels) \<Rightarrow>
        fold (\<lambda>(l, fault). handle_label env fault l) labels
          (case cfault of None \<Rightarrow> s\<lparr>ls_cursor := seq\<rparr> | Some _ \<Rightarrow> s))"

text \<open>What the watcher of a live stream does with a label on the streamer's bus: end the stream or wait on.\<close>

definition watcher_ends :: "lex_label \<Rightarrow> bool" where
  "watcher_ends l = IsBanned [l]"

section \<open>The table holds the latest label\<close>

text \<open>The row an accepted label asks for.\<close>

definition accepted :: "'v label_env \<Rightarrow> lex_label \<times> go_error option \<Rightarrow> label_row option" where
  "accepted env lf =
     (case (check_label env (fst lf), label_target env (lx_Uri (fst lf)), snd lf) of
        (Inr (bs, cts, exp), Inr (target, chat), None) \<Rightarrow> Some (label_row_of (fst lf) bs cts exp target)
      | _ \<Rightarrow> None)"

definition all_labels :: "(int \<times> go_error option \<times> (lex_label \<times> go_error option) list) list \<Rightarrow> (lex_label \<times> go_error option) list" where
  "all_labels evts = concat (map (\<lambda>(seq, cf, ls). ls) evts)"

text \<open>The latest accepted label of a key in a history.\<close>

definition latest :: "'v label_env \<Rightarrow> (lex_label \<times> go_error option) list \<Rightarrow> string \<times> string \<times> string \<Rightarrow> label_row option" where
  "latest env history k =
     (let rs = filter (\<lambda>r. label_key r = k) (List.map_filter (accepted env) history) in
      if rs = [] then None else Some (List.last rs))"

definition lookup_label :: "string \<times> string \<times> string \<Rightarrow> label_row list \<Rightarrow> label_row option" where
  "lookup_label k tbl = find (\<lambda>r. label_key r = k) tbl"

lemma lookup_put: "lookup_label k (put_label r tbl) = (if label_key r = k then Some r else lookup_label k tbl)"
  by (induction tbl) (auto simp: lookup_label_def)

lemma keys_put: "label_key ` set (put_label r tbl) = insert (label_key r) (label_key ` set tbl)"
  by (induction tbl) auto

lemma distinct_put: "distinct (map label_key tbl) \<Longrightarrow> distinct (map label_key (put_label r tbl))"
proof (induction tbl)
  case (Cons x tbl)
  then show ?case using keys_put [of r tbl] by auto
qed simp

lemma handle_label_labels:
  "ls_labels (handle_label env fault l s) =
     (case accepted env (l, fault) of None \<Rightarrow> ls_labels s | Some r \<Rightarrow> put_label r (ls_labels s))"
  by (auto simp: handle_label_def accepted_def CreateLabel_def Let_def split: sum.splits prod.splits option.splits)

lemma handle_labels_fold:
  "ls_labels (handle_labels env evt s) =
     fold (\<lambda>lf tbl. case accepted env lf of None \<Rightarrow> tbl | Some r \<Rightarrow> put_label r tbl) (snd (snd evt)) (ls_labels s)"
proof -
  have "ls_labels (fold (\<lambda>(l, fault). handle_label env fault l) ls s) =
      fold (\<lambda>lf tbl. case accepted env lf of None \<Rightarrow> tbl | Some r \<Rightarrow> put_label r tbl) ls (ls_labels s)" for ls and s :: "'a label_state"
    by (induction ls arbitrary: s) (auto simp: handle_label_labels)
  then show ?thesis by (auto simp: handle_labels_def split: prod.splits option.splits)
qed

lemma events_fold:
  "ls_labels (fold (handle_labels env) evts s) =
     fold (\<lambda>lf tbl. case accepted env lf of None \<Rightarrow> tbl | Some r \<Rightarrow> put_label r tbl) (all_labels evts) (ls_labels s)"
proof (induction evts arbitrary: s)
  case (Cons evt evts)
  then show ?case by (cases evt) (simp add: handle_labels_fold all_labels_def)
qed (simp add: all_labels_def)

lemma latest_snoc:
  "latest env (h @ [lf]) k =
     (case accepted env lf of Some r \<Rightarrow> if label_key r = k then Some r else latest env h k | None \<Rightarrow> latest env h k)"
  by (auto simp: latest_def Let_def map_filter_def split: option.splits)

lemma table_is_latest:
  "lookup_label k (fold (\<lambda>lf tbl. case accepted env lf of None \<Rightarrow> tbl | Some r \<Rightarrow> put_label r tbl) h []) = latest env h k \<and>
   distinct (map label_key (fold (\<lambda>lf tbl. case accepted env lf of None \<Rightarrow> tbl | Some r \<Rightarrow> put_label r tbl) h []))"
proof (induction h rule: rev_induct)
  case Nil
  then show ?case by (simp add: lookup_label_def latest_def map_filter_def)
next
  case (snoc lf h)
  then show ?case by (auto simp: latest_snoc lookup_put distinct_put split: option.splits)
qed

lemma lookup_iff: "distinct (map label_key tbl) \<Longrightarrow> lookup_label k tbl = Some r \<longleftrightarrow> r \<in> set tbl \<and> label_key r = k"
proof (induction tbl)
  case (Cons x tbl)
  then show ?case by (auto simp: lookup_label_def)
qed (simp add: lookup_label_def)

section \<open>Bans\<close>

text \<open>What is documented of a label: it applies until it is negated or its expiry is reached (the zero time
  stands for a label without one).\<close>

definition in_force :: "'v label_env \<Rightarrow> (lex_label \<times> go_error option) list \<Rightarrow> time \<Rightarrow> string \<times> string \<times> string \<Rightarrow> bool" where
  "in_force env history now k =
     (case latest env history k of
        None \<Rightarrow> False
      | Some r \<Rightarrow> \<not> lr_Neg r \<and> (lr_Exp r = zeroTime \<or> now < lr_Exp r))"

lemma IsBanned_iff: "IsBanned ls \<longleftrightarrow> (\<exists>l\<in>set ls. take 4 (lx_Uri l) = ''did:'' \<and> lx_Val l \<in> set bannedLabels)"
  by (induction ls) auto

lemma IsViewerBanned_iff:
  "IsViewerBanned ls \<longleftrightarrow> (\<exists>l\<in>set ls. take 4 (lx_Uri l) = ''did:'' \<and> (lx_Val l \<in> set bannedLabels \<or> lx_Val l = LabelNoViewers))"
  by (induction ls) auto

text \<open>Rows carry the encoding of the label they came from.\<close>

definition faithful_rows :: "'v label_env \<Rightarrow> label_row list \<Rightarrow> bool" where
  "faithful_rows env tbl =
     (\<forall>r\<in>set tbl. \<exists>l. le_verifySignature env l = None \<and> le_marshal env l = Inr (lr_Record r) \<and>
        lx_Uri l = lr_Uri r \<and> lx_Val l = lr_Val r \<and> lx_Src l = lr_Src r)"

lemma check_label_Inr:
  assumes "check_label env l = Inr (bs, cts, exp)"
  shows "le_verifySignature env l = None" "le_marshal env l = Inr bs"
proof -
  show sig: "le_verifySignature env l = None" using assms by (cases "le_verifySignature env l") (simp_all add: check_label_def)
  have "le_verifySyntax env l = None" using assms sig by (cases "le_verifySyntax env l") (simp_all add: check_label_def)
  then show "le_marshal env l = Inr bs" using assms sig by (auto simp: check_label_def bind_res_eq_Inr)
qed

lemma accepted_Some:
  assumes "accepted env (l, f) = Some r"
  obtains bs cts exp target chat where "check_label env l = Inr (bs, cts, exp)"
    "label_target env (lx_Uri l) = Inr (target, chat)" "f = None" "r = label_row_of l bs cts exp target"
  using assms that
  by (cases "check_label env l"; cases "label_target env (lx_Uri l)"; cases f)
    (auto simp: accepted_def split: prod.splits)

lemma accepted_faithful:
  assumes "accepted env lf = Some r"
  shows "faithful_rows env [r]"
proof -
  obtain l f where lf: "lf = (l, f)" by (cases lf)
  obtain bs cts exp target chat where c: "check_label env l = Inr (bs, cts, exp)" "r = label_row_of l bs cts exp target"
    using assms unfolding lf by (rule accepted_Some)
  then show ?thesis using check_label_Inr [OF c(1)] unfolding faithful_rows_def label_row_of_def by (auto intro!: exI [of _ l])
qed

text \<open>The latest label of a subject none of whose labels has an expiry has none.\<close>

lemma latest_no_expiry:
  assumes "latest env h (src, u, val) = Some r" and "\<forall>(l, f)\<in>set h. lx_Uri l = u \<longrightarrow> lx_Exp l = None"
  shows "lr_Exp r = zeroTime"
proof -
  let ?rs = "filter (\<lambda>r. label_key r = (src, u, val)) (List.map_filter (accepted env) h)"
  have ne: "?rs \<noteq> []" and r: "r = List.last ?rs" using assms(1) by (auto simp: latest_def Let_def split: if_splits)
  have "r \<in> set ?rs" unfolding r using ne by (rule last_in_set)
  then obtain l f where lf: "(l, f) \<in> set h" "accepted env (l, f) = Some r" and u: "lr_Uri r = u"
    by (force simp: map_filter_def label_key_def)
  obtain bs cts exp target chat where c: "check_label env l = Inr (bs, cts, exp)" "r = label_row_of l bs cts exp target"
    using lf(2) by (rule accepted_Some)
  have none: "lx_Exp l = None" using assms(2) lf(1) u c(2) by (auto simp: label_row_of_def)
  have "exp = zeroTime" using c(1) none by (auto simp: check_label_def bind_res_eq_Inr split: option.splits)
  then show ?thesis using c(2) by (simp add: label_row_of_def)
qed

lemma put_faithful: "faithful_rows env tbl \<Longrightarrow> faithful_rows env [r] \<Longrightarrow> faithful_rows env (put_label r tbl)"
proof -
  have "set (put_label r tbl) \<subseteq> insert r (set tbl)" by (induction tbl) auto
  then show "faithful_rows env tbl \<Longrightarrow> faithful_rows env [r] \<Longrightarrow> faithful_rows env (put_label r tbl)"
    unfolding faithful_rows_def by (simp add: subset_iff) blast
qed

lemma table_faithful:
  "faithful_rows env (fold (\<lambda>lf tbl. case accepted env lf of None \<Rightarrow> tbl | Some r \<Rightarrow> put_label r tbl) h [])"
proof (induction h rule: rev_induct)
  case Nil
  then show ?case by (simp add: faithful_rows_def)
next
  case (snoc lf h)
  then show ?case using put_faithful [OF snoc.IH] accepted_faithful [of env lf] by (cases "accepted env lf") simp_all
qed

lemma decode_faithful:
  assumes "\<And>l bs. le_marshal env l = Inr bs \<Longrightarrow> le_decode env bs = Inr l"
  shows "faithful_rows env tbl \<Longrightarrow>
    \<exists>ls. decode_rows (le_decode env) tbl = Inr ls \<and> list_all2 (\<lambda>r l. lx_Uri l = lr_Uri r \<and> lx_Val l = lr_Val r) tbl ls"
proof (induction tbl)
  case (Cons r tbl)
  then have "faithful_rows env tbl" by (simp add: faithful_rows_def)
  from Cons.IH [OF this] obtain ls where ls: "decode_rows (le_decode env) tbl = Inr ls"
    "list_all2 (\<lambda>r l. lx_Uri l = lr_Uri r \<and> lx_Val l = lr_Val r) tbl ls" by blast
  obtain l where "le_decode env (lr_Record r) = Inr l" "lx_Uri l = lr_Uri r" "lx_Val l = lr_Val r"
    using Cons.prems assms unfolding faithful_rows_def by fastforce
  then show ?case using ls by auto
qed simp

lemma faithful_filter: "faithful_rows env tbl \<Longrightarrow> faithful_rows env (filter P tbl)"
  by (auto simp: faithful_rows_def)

text \<open>
  C13. A ban is the latest word of a labeler.  After any events of labelers, with any inserts failing, and where no label
  of the account or of the record carries an expiry, an account is banned exactly when for some labeler and some banned
  value the latest label accepted for the account (its signature and syntax verified, its subject known, its insert done)
  is not a negation; a record is withheld exactly when the latest label of some labeler and value for it is in force
  likewise; and every row of the table is a label whose signature was verified.  Labels with an expiry are the subject of
  the lemmas after the witness.
\<close>

theorem labels_decide_bans:
  assumes codec: "\<And>l bs. le_marshal env l = Inr bs \<Longrightarrow> le_decode env bs = Inr l"
    and start: "ls_labels s0 = []" and tbl: "tbl = ls_labels (fold (handle_labels env) evts s0)"
    and lasting: "\<forall>(l, f)\<in>set (all_labels evts). lx_Uri l \<in> {did, uri} \<longrightarrow> lx_Exp l = None" and now: "zeroTime < now"
  shows "(take 4 did = ''did:'' \<longrightarrow> accountBanned (le_decode env) None did now tbl =
            Inr (\<exists>src. \<exists>val\<in>set bannedLabels. in_force env (all_labels evts) now (src, did, val))) \<and>
    recordLabeled (le_decode env) None uri now tbl =
      Inr (\<exists>src val. in_force env (all_labels evts) now (src, uri, val)) \<and>
    faithful_rows env tbl"
proof -
  have t: "tbl = fold (\<lambda>lf tbl. case accepted env lf of None \<Rightarrow> tbl | Some r \<Rightarrow> put_label r tbl) (all_labels evts) []"
    by (simp add: tbl events_fold start)
  have faithful: "faithful_rows env tbl" unfolding t by (rule table_faithful)
  have dist: "distinct (map label_key tbl)" and look: "lookup_label k tbl = latest env (all_labels evts) k" for k
    using table_is_latest [of k env "all_labels evts"] unfolding t by auto
  have force: "in_force env (all_labels evts) now (src, u, val) \<longleftrightarrow>
      (\<exists>r\<in>set (active_rows u now tbl). lr_Src r = src \<and> lr_Val r = val)" if u: "u \<in> {did, uri}" for src u val
  proof -
    have "lr_Exp r = zeroTime" if "lookup_label (src, u, val) tbl = Some r" for r
      by (rule latest_no_expiry [of env "all_labels evts" src u val]) (use that look u lasting in auto)
    then have "in_force env (all_labels evts) now (src, u, val) \<longleftrightarrow>
        (\<exists>r. lookup_label (src, u, val) tbl = Some r \<and> \<not> lr_Neg r \<and> lr_Exp r < now)"
      unfolding in_force_def look [symmetric] using now by (auto split: option.splits)
    also have "\<dots> \<longleftrightarrow> (\<exists>r\<in>set (active_rows u now tbl). lr_Src r = src \<and> lr_Val r = val)"
      unfolding lookup_iff [OF dist] by (auto simp: active_rows_def label_key_def)
    finally show ?thesis .
  qed
  have dec: "\<exists>ls. GetActiveLabels (le_decode env) None u now tbl = Inr ls \<and>
      list_all2 (\<lambda>r l. lx_Uri l = lr_Uri r \<and> lx_Val l = lr_Val r) (active_rows u now tbl) ls" for u
    using decode_faithful [OF codec faithful_filter [OF faithful]] by (simp add: GetActiveLabels_def active_rows_def)
  have bans: "accountBanned (le_decode env) None did now tbl =
      Inr (\<exists>src. \<exists>val\<in>set bannedLabels. in_force env (all_labels evts) now (src, did, val))" if did: "take 4 did = ''did:''"
  proof -
    obtain ls where ls: "GetActiveLabels (le_decode env) None did now tbl = Inr ls"
      "list_all2 (\<lambda>r l. lx_Uri l = lr_Uri r \<and> lx_Val l = lr_Val r) (active_rows did now tbl) ls" using dec by blast
    have uris: "\<forall>r\<in>set (active_rows did now tbl). lr_Uri r = did" by (simp add: active_rows_def)
    have "map lx_Val ls = map lr_Val (active_rows did now tbl)" "\<forall>l\<in>set ls. lx_Uri l = did"
      using ls(2) uris by (induction rule: list_all2_induct) auto
    then have "lx_Val ` set ls = lr_Val ` set (active_rows did now tbl)" "\<forall>l\<in>set ls. lx_Uri l = did"
      by (metis set_map)+
    then have "IsBanned ls \<longleftrightarrow> (\<exists>r\<in>set (active_rows did now tbl). lr_Val r \<in> set bannedLabels)"
      using did unfolding IsBanned_iff by (metis (no_types, lifting) image_iff)
    then show ?thesis using ls(1) by (auto simp: accountBanned_def force)
  qed
  have "recordLabeled (le_decode env) None uri now tbl =
      Inr (\<exists>src val. in_force env (all_labels evts) now (src, uri, val))"
  proof -
    obtain ls where ls: "GetActiveLabels (le_decode env) None uri now tbl = Inr ls"
      "list_all2 (\<lambda>r l. lx_Uri l = lr_Uri r \<and> lx_Val l = lr_Val r) (active_rows uri now tbl) ls" using dec by blast
    have "0 < length ls \<longleftrightarrow> active_rows uri now tbl \<noteq> []" using list_all2_lengthD [OF ls(2)] by (cases ls) auto
    moreover have "(\<exists>src val. \<exists>r\<in>set (active_rows uri now tbl). lr_Src r = src \<and> lr_Val r = val) \<longleftrightarrow>
        active_rows uri now tbl \<noteq> []" by (cases "active_rows uri now tbl") (simp, simp, blast)
    ultimately show ?thesis using ls(1) unfolding recordLabeled_def by (simp add: force)
  qed
  then show ?thesis using bans faithful by blast
qed

text \<open>A labeler without signatures, whose encoding keeps the value, for labels of one account.\<close>

definition demo_label :: lex_label where
  "demo_label = \<lparr>lx_Src = ''did:plc:labeler'', lx_Uri = ''did:plc:a'', lx_Val = ''spam'', lx_Cid = None, lx_Cts = ''t'',
     lx_Exp = None, lx_Neg = None\<rparr>"

definition demo_labels :: "unit label_env" where
  "demo_labels =
     \<lparr>le_verifySignature = (\<lambda>_. None), le_verifySyntax = (\<lambda>_. None), le_marshal = (\<lambda>l. if l = demo_label then Inr ''ban'' else
          if l = demo_label\<lparr>lx_Neg := Some True\<rparr> then Inr ''lift'' else Inl (Sentinel ''cbor'')),
      le_decode = (\<lambda>b. if b = ''ban'' then Inr demo_label else Inr (demo_label\<lparr>lx_Neg := Some True\<rparr>)),
      le_parseTime = (\<lambda>s. Inr (int (length s))), le_parseATURI = (\<lambda>_. Inl (Sentinel ''not a uri'')),
      le_asDID = Inr, le_parseDID = Inr, le_chat = (\<lambda>_. Inr None)\<rparr>"

definition demo_history :: "bool \<Rightarrow> (int \<times> go_error option \<times> (lex_label \<times> go_error option) list) list" where
  "demo_history lifted =
     (7, None, [(demo_label, None)]) # (if lifted then [(8, None, [(demo_label\<lparr>lx_Neg := Some True\<rparr>, None)])] else [])"

definition no_labels :: "unit label_state" where
  "no_labels = \<lparr>ls_labels = [], ls_cursor = 0, ls_published = []\<rparr>"

theorem labels_decide_bans_witness:
  "accountBanned (le_decode demo_labels) None ''did:plc:a'' 5
     (ls_labels (fold (handle_labels demo_labels) (demo_history False) no_labels)) = Inr True \<and>
   accountBanned (le_decode demo_labels) None ''did:plc:a'' 5
     (ls_labels (fold (handle_labels demo_labels) (demo_history True) no_labels)) = Inr False"
proof -
  have codec: "le_decode demo_labels bs = Inr l" if "le_marshal demo_labels l = Inr bs" for l bs
    using that by (auto simp: demo_labels_def split: if_splits)
  have start: "ls_labels no_labels = []" by (simp add: no_labels_def)
  have row: "accepted demo_labels (demo_label\<lparr>lx_Neg := n\<rparr>, None) =
      Some (label_row_of (demo_label\<lparr>lx_Neg := n\<rparr>) (if n = None then ''ban'' else ''lift'') 1 zeroTime ''did:plc:a'')"
    if "n = None \<or> n = Some True" for n
    using that by (auto simp: accepted_def check_label_def label_target_def demo_labels_def demo_label_def)
  have ban: "accepted demo_labels (demo_label, None) = Some (label_row_of demo_label ''ban'' 1 zeroTime ''did:plc:a'')"
    using row [of None] by (simp add: demo_label_def)
  note lift = row [of "Some True", simplified]
  have keys: "label_key (label_row_of (demo_label\<lparr>lx_Neg := n\<rparr>) b c e d) = (''did:plc:labeler'', ''did:plc:a'', ''spam'')" for n b c e d
    by (simp add: label_key_def label_row_of_def demo_label_def)
  have keys0: "label_key (label_row_of demo_label b c e d) = (''did:plc:labeler'', ''did:plc:a'', ''spam'')" for b c e d
    by (simp add: label_key_def label_row_of_def demo_label_def)
  have past: "zeroTime < 5" by (simp add: zeroTime_def second_def)
  have banned: "\<exists>src. \<exists>val\<in>set bannedLabels. in_force demo_labels (all_labels (demo_history False)) 5 (src, ''did:plc:a'', val)"
    by (rule exI [of _ "''did:plc:labeler''"], rule bexI [of _ "''spam''"])
      (simp_all add: in_force_def all_labels_def demo_history_def latest_def map_filter_def ban keys0 past bannedLabels_def,
       simp add: label_row_of_def demo_label_def)
  have lifted: "\<not> in_force demo_labels (all_labels (demo_history True)) 5 (src, ''did:plc:a'', val)" for src val
    by (auto simp: in_force_def all_labels_def demo_history_def latest_def map_filter_def ban lift keys keys0 Let_def)
      (simp_all add: label_row_of_def demo_label_def)
  have lasting: "\<forall>(l, f)\<in>set (all_labels (demo_history b)). lx_Uri l \<in> {''did:plc:a'', []} \<longrightarrow> lx_Exp l = None" for b
    by (auto simp: all_labels_def demo_history_def demo_label_def)
  show ?thesis
    using labels_decide_bans [OF codec start refl lasting past, of False]
      labels_decide_bans [OF codec start refl lasting past, of True] banned lifted
    by (simp add: bexI)
qed

section \<open>Expiries and negations\<close>

text \<open>Until the expiry of a label the query leaves it out although it is in force, and after it the query returns it
  although it has expired.\<close>

lemma expiry_is_inverted:
  assumes "latest env h k = Some r" "\<not> lr_Neg r" "lr_Exp r \<noteq> zeroTime" "now \<noteq> lr_Exp r" "r \<in> set tbl"
  shows "r \<in> set (active_rows (lr_Uri r) now tbl) \<longleftrightarrow> \<not> in_force env h now k"
  using assms by (auto simp: in_force_def active_rows_def)

text \<open>The label that lifts a ban ends the stream of the account as the ban itself would.\<close>

lemma negation_ends_stream:
  "take 4 (lx_Uri l) = ''did:'' \<Longrightarrow> lx_Val l \<in> set bannedLabels \<Longrightarrow> watcher_ends (l\<lparr>lx_Neg := Some True\<rparr>)"
  by (simp add: watcher_ends_def)

text \<open>The negation of a label on a chat message announces the message as deleted.\<close>

lemma negation_deletes_message:
  assumes "check_label env l = Inr c" "lx_Neg l = Some True" "label_target env (lx_Uri l) = Inr (d, Some (streamer, v))"
  shows "ChatDeleted streamer v \<in> set (ls_published (handle_label env fault l s))"
  using assms by (auto simp: handle_label_def CreateLabel_def Let_def split: prod.splits option.splits sum.splits)

text \<open>A label for a chat message that the index does not hold yet is dropped, so the message is shown when it comes.\<close>

lemma unknown_message_unlabelled:
  assumes "le_parseATURI env (lx_Uri l) = Inr (a, ''place.stream.chat.message'')" "le_chat env (lx_Uri l) = Inr None"
  shows "handle_label env fault l s = s"
  using assms by (auto simp: handle_label_def label_target_def bind_res_def split: sum.splits prod.splits)

end
