(* ===== verification/RecordIndex.thy ===== *)
theory RecordIndex
  imports Errors
begin

text \<open>
  The tables of the index that records are kept in, and the statements on them (\<open>model/indexed.go\<close> and the files of
  \<open>model\<close> named with each row).  Two kinds of write exist.  \<open>createOrVerify\<close> stores a row under its primary key and
  reports a redelivery of the same version; \<open>Save\<close> is an upsert.  A constructor of \<^emph>\<open>indexed_row\<close> or \<^emph>\<open>saved_row\<close> is one
  table; its primary key is the one the source declares.
\<close>

section \<open>Rows\<close>

record Block =
  bl_RKey :: string
  bl_CID :: string
  bl_RepoDID :: string
  bl_SubjectDID :: string

record ChatMessage =
  cm_CID :: string
  cm_URI :: string
  cm_CreatedAt :: time
  cm_RepoDID :: string
  cm_StreamerRepoDID :: string
  cm_ReplyToCID :: "string option"
  cm_IndexedAt :: time
  cm_DeletedAt :: "time option"
  cm_Record :: bytes

record Gate =
  gt_RKey :: string
  gt_CID :: string
  gt_RepoDID :: string
  gt_Hidden :: string
  gt_CreatedAt :: time

record PinnedRecord =
  pn_Uri :: string
  pn_CID :: string
  pn_RepoDID :: string
  pn_PinnedMessage :: string
  pn_PinnedBy :: string
  pn_ExpiresAt :: "time option"
  pn_CreatedAt :: time

record FeedPost =
  fp_URI :: string
  fp_CID :: string
  fp_CreatedAt :: time
  fp_RepoDID :: string
  fp_Type :: string
  fp_ReplyRoot :: "(string \<times> string) option"

record Livestream =
  lv_URI :: string
  lv_CID :: string
  lv_CreatedAt :: time
  lv_RepoDID :: string
  lv_Post :: "string \<times> string"
  lv_Ended :: bool

record Teleport =
  tp_URI :: string
  tp_CID :: string
  tp_StartsAt :: time
  tp_DurationSeconds :: "int option"
  tp_ViewerCount :: int
  tp_RepoDID :: string
  tp_TargetDID :: string
  tp_Denied :: bool

record Verification =
  vf_URI :: string
  vf_CID :: string
  vf_IssuerDID :: string
  vf_SubjectDID :: string
  vf_Handle :: string
  vf_DisplayName :: string
  vf_CreatedAt :: time

record ChatAccessRule =
  ca_URI :: string
  ca_CID :: string
  ca_RepoDID :: string
  ca_Action :: string
  ca_SubjectType :: string
  ca_SubjectDID :: string
  ca_LabelValue :: string
  ca_CreatedAt :: time

record ModerationDelegation =
  md_IndexKey :: string
  md_CID :: string
  md_RKey :: string
  md_RepoDID :: string
  md_ModeratorDID :: string

record VodComment =
  vc_CID :: string
  vc_URI :: string
  vc_CreatedAt :: time
  vc_RepoDID :: string
  vc_VideoURI :: string
  vc_VideoAuthorDID :: string
  vc_ReplyToCID :: "string option"
  vc_DeletedAt :: "time option"

text \<open>What \<open>indexedRow\<close> ranges over, and its methods \<open>recordCID\<close> and \<open>recordURI\<close>.\<close>

datatype indexed_row =
    BlockRow Block | ChatRow ChatMessage | GateRow Gate | PinRow PinnedRecord | PostRow FeedPost | LivestreamRow Livestream
  | TeleportRow Teleport | VerificationRow Verification | AccessRow ChatAccessRule | DelegationRow ModerationDelegation
  | CommentRow VodComment | VodGateRow Gate

fun recordCID :: "indexed_row \<Rightarrow> string" where
  "recordCID (BlockRow r) = bl_CID r"
| "recordCID (ChatRow r) = cm_CID r"
| "recordCID (GateRow r) = gt_CID r"
| "recordCID (PinRow r) = pn_CID r"
| "recordCID (PostRow r) = fp_CID r"
| "recordCID (LivestreamRow r) = lv_CID r"
| "recordCID (TeleportRow r) = tp_CID r"
| "recordCID (VerificationRow r) = vf_CID r"
| "recordCID (AccessRow r) = ca_CID r"
| "recordCID (DelegationRow r) = md_CID r"
| "recordCID (CommentRow r) = vc_CID r"
| "recordCID (VodGateRow r) = gt_CID r"

text \<open>The table and the primary key of a row.\<close>

fun primary_key :: "indexed_row \<Rightarrow> string \<times> string" where
  "primary_key (BlockRow r) = (''blocks'', bl_RKey r)"
| "primary_key (ChatRow r) = (''chat_messages'', cm_CID r)"
| "primary_key (GateRow r) = (''gates'', gt_RKey r)"
| "primary_key (PinRow r) = (''pinned_records'', pn_Uri r)"
| "primary_key (PostRow r) = (''feed_posts'', fp_URI r)"
| "primary_key (LivestreamRow r) = (''livestreams'', lv_URI r)"
| "primary_key (TeleportRow r) = (''teleports'', tp_URI r)"
| "primary_key (VerificationRow r) = (''verifications'', vf_URI r)"
| "primary_key (AccessRow r) = (''chat_access_rules'', ca_URI r)"
| "primary_key (DelegationRow r) = (''moderation_delegations'', md_IndexKey r)"
| "primary_key (CommentRow r) = (''vod_comments'', vc_CID r)"
| "primary_key (VodGateRow r) = (''vod_gates'', gt_RKey r)"

text \<open>The tables written with \<open>Save\<close> (or with an upsert of every column read later).\<close>

datatype saved_row =
    FollowRow string string string time
  | ProfileRow string bool bytes
  | ChatProfileRow string bytes
  | SettingsRow string string bytes
  | SigningKeyRow string string string time
  | BroadcastOriginRow string string string time
  | MetadataRow string bytes
  | RecommendationRow string "string list" time
  | BadgeDefRow string string string
  | BadgeIssuanceRow string string string string
  | VideoRow string string bytes
  | TrackRow string string string
  | MediaOriginRow string string string
  | InviteRow string string string string
  | BetaRequestRow string string string
  | ViewCountRow string string string
  | LikeRow string string string

fun saved_key :: "saved_row \<Rightarrow> string \<times> string list" where
  "saved_key (FollowRow user subject rkey at) = (''follows'', [user, subject])"
| "saved_key (ProfileRow uri was rec) = (''bsky_profiles'', [uri, if was then ''1'' else ''0''])"
| "saved_key (ChatProfileRow repo rec) = (''chat_profiles'', [repo])"
| "saved_key (SettingsRow server repo rec) = (''server_settings'', [server, repo])"
| "saved_key (SigningKeyRow did repo rkey at) = (''signing_keys'', [did, repo])"
| "saved_key (BroadcastOriginRow uri streamer server at) = (''broadcast_origins'', [uri])"
| "saved_key (MetadataRow repo rec) = (''metadata_configurations'', [repo])"
| "saved_key (RecommendationRow user streamers at) = (''recommendations'', [user])"
| "saved_key (BadgeDefRow uri repo name) = (''badge_defs'', [uri])"
| "saved_key (BadgeIssuanceRow uri repo recipient badge) = (''badge_issuances'', [uri])"
| "saved_key (VideoRow uri repo rec) = (''videos'', [uri])"
| "saved_key (TrackRow uri repo blob) = (''media_tracks'', [uri])"
| "saved_key (MediaOriginRow uri server blob) = (''media_origins'', [uri])"
| "saved_key (InviteRow uri repo did feature) = (''beta_invites'', [uri])"
| "saved_key (BetaRequestRow uri repo feature) = (''beta_requests'', [uri])"
| "saved_key (ViewCountRow uri repo video) = (''media_view_counts'', [uri])"
| "saved_key (LikeRow uri subject repo) = (''likes'', [uri])"

section \<open>Statements\<close>

text \<open>
  The world a handler works on.  \<open>ix_Fault\<close> gives the error the statement with that number fails with, if it does;
  \<open>ix_Rest\<close> is what the statements here do not touch.
\<close>

record 'x index =
  ix_Rows :: "indexed_row list"
  ix_Saved :: "saved_row list"
  ix_Calls :: nat
  ix_Fault :: "nat \<Rightarrow> go_error option"
  ix_Rest :: 'x

definition db_call :: "'x index \<Rightarrow> go_error option \<times> 'x index" where
  "db_call w = (ix_Fault w (ix_Calls w), w\<lparr>ix_Calls := ix_Calls w + 1\<rparr>)"

fun put_by :: "('a \<Rightarrow> 'k) \<Rightarrow> 'a \<Rightarrow> 'a list \<Rightarrow> 'a list" where
  "put_by key r [] = [r]"
| "put_by key r (x # xs) = (if key x = key r then r # xs else x # put_by key r xs)"

definition ErrAlreadyIndexed :: go_error where "ErrAlreadyIndexed = Sentinel ''record already indexed''"

text \<open>
  The insert that does nothing on a conflict, then the read of the conflicting row, then its overwrite: three statements, of
  which any may fail.
\<close>

definition createOrVerify :: "indexed_row \<Rightarrow> 'x index \<Rightarrow> go_error option \<times> 'x index" where
  "createOrVerify row w =
     (case db_call w of
        (Some e, w1) \<Rightarrow> (Some e, w1)
      | (None, w1) \<Rightarrow>
          (case find (\<lambda>r. primary_key r = primary_key row) (ix_Rows w1) of
             None \<Rightarrow> (None, w1\<lparr>ix_Rows := ix_Rows w1 @ [row]\<rparr>)
           | Some existing \<Rightarrow>
               (case db_call w1 of
                  (Some e, w2) \<Rightarrow> (Some (WrapErr ''failed to read conflicting row'' [e]), w2)
                | (None, w2) \<Rightarrow>
                    if recordCID existing = recordCID row then (Some ErrAlreadyIndexed, w2)
                    else
                      (case db_call w2 of
                         (Some e, w3) \<Rightarrow> (Some e, w3)
                       | (None, w3) \<Rightarrow> (None, w3\<lparr>ix_Rows := put_by primary_key row (ix_Rows w3)\<rparr>)))))"

definition Save :: "saved_row \<Rightarrow> 'x index \<Rightarrow> go_error option \<times> 'x index" where
  "Save row w =
     (case db_call w of
        (Some e, w1) \<Rightarrow> (Some e, w1)
      | (None, w1) \<Rightarrow> (None, w1\<lparr>ix_Saved := put_by saved_key row (ix_Saved w1)\<rparr>))"

text \<open>\<open>CreateLike\<close> is a plain insert.\<close>

definition CreateLike :: "saved_row \<Rightarrow> 'x index \<Rightarrow> go_error option \<times> 'x index" where
  "CreateLike row w =
     (case db_call w of
        (Some e, w1) \<Rightarrow> (Some e, w1)
      | (None, w1) \<Rightarrow>
          if list_ex (\<lambda>r. saved_key r = saved_key row) (ix_Saved w1) then (Some (Sentinel ''duplicated key''), w1)
          else (None, w1\<lparr>ix_Saved := ix_Saved w1 @ [row]\<rparr>))"

text \<open>A read: its statement, then what it selects.\<close>

definition db_read :: "('x index \<Rightarrow> 'a) \<Rightarrow> 'x index \<Rightarrow> (go_error + 'a) \<times> 'x index" where
  "db_read q w = (case db_call w of (Some e, w1) \<Rightarrow> (Inl e, w1) | (None, w1) \<Rightarrow> (Inr (q w1), w1))"

definition blocks_between :: "string \<Rightarrow> string \<Rightarrow> indexed_row list \<Rightarrow> bool" where
  "blocks_between user subject rows =
     list_ex (\<lambda>r. case r of BlockRow b \<Rightarrow> bl_RepoDID b = user \<and> bl_SubjectDID b = subject | _ \<Rightarrow> False) rows"

definition GetUserBlock :: "string \<Rightarrow> string \<Rightarrow> 'x index \<Rightarrow> (go_error + bool) \<times> 'x index" where
  "GetUserBlock user subject = db_read (\<lambda>w. blocks_between user subject (ix_Rows w))"

definition find_row :: "string \<times> string \<Rightarrow> indexed_row list \<Rightarrow> indexed_row option" where
  "find_row key rows = find (\<lambda>r. primary_key r = key) rows"

definition GetBlock :: "string \<Rightarrow> 'x index \<Rightarrow> (go_error + indexed_row option) \<times> 'x index" where
  "GetBlock rkey = db_read (\<lambda>w. find_row (''blocks'', rkey) (ix_Rows w))"

definition GetGate :: "string \<Rightarrow> 'x index \<Rightarrow> (go_error + indexed_row option) \<times> 'x index" where
  "GetGate rkey = db_read (\<lambda>w. find_row (''gates'', rkey) (ix_Rows w))"

definition GetPinnedRecord :: "string \<Rightarrow> 'x index \<Rightarrow> (go_error + indexed_row option) \<times> 'x index" where
  "GetPinnedRecord uri = db_read (\<lambda>w. find_row (''pinned_records'', uri) (ix_Rows w))"

definition livestreams :: "indexed_row list \<Rightarrow> Livestream list" where
  "livestreams rows = List.map_filter (\<lambda>r. case r of LivestreamRow l \<Rightarrow> Some l | _ \<Rightarrow> None) rows"

definition GetLivestream :: "string \<Rightarrow> 'x index \<Rightarrow> (go_error + Livestream option) \<times> 'x index" where
  "GetLivestream uri = db_read (\<lambda>w. find (\<lambda>l. lv_URI l = uri) (livestreams (ix_Rows w)))"

definition GetLivestreamByPostURI :: "string \<Rightarrow> 'x index \<Rightarrow> (go_error + Livestream option) \<times> 'x index" where
  "GetLivestreamByPostURI uri = db_read (\<lambda>w. find (\<lambda>l. snd (lv_Post l) = uri) (sort_key lv_URI (livestreams (ix_Rows w))))"

text \<open>The latest livestream of an account: \<open>ORDER BY created_at DESC\<close>, to which \<open>First\<close> adds the primary key.\<close>

fun latest_livestream :: "Livestream list \<Rightarrow> Livestream option" where
  "latest_livestream [] = None"
| "latest_livestream (l # ls) =
     (case latest_livestream ls of
        None \<Rightarrow> Some l
      | Some m \<Rightarrow>
          if lv_CreatedAt m < lv_CreatedAt l \<or> lv_CreatedAt m = lv_CreatedAt l \<and> lv_URI l \<le> lv_URI m then Some l else Some m)"

definition GetLatestLivestreamForRepo :: "string \<Rightarrow> 'x index \<Rightarrow> (go_error + Livestream option) \<times> 'x index" where
  "GetLatestLivestreamForRepo repo =
     db_read (\<lambda>w. latest_livestream (filter (\<lambda>l. lv_RepoDID l = repo) (livestreams (ix_Rows w))))"

definition chat_rows :: "indexed_row list \<Rightarrow> ChatMessage list" where
  "chat_rows rows = List.map_filter (\<lambda>r. case r of ChatRow m \<Rightarrow> Some m | _ \<Rightarrow> None) rows"

text \<open>\<open>First\<close> orders by the primary key, here the CID.\<close>

definition first_chat :: "string \<Rightarrow> indexed_row list \<Rightarrow> ChatMessage option" where
  "first_chat uri rows =
     (case sort_key cm_CID (filter (\<lambda>m. cm_URI m = uri \<and> cm_DeletedAt m = None) (chat_rows rows)) of
        [] \<Rightarrow> None | m # _ \<Rightarrow> Some m)"

definition GetChatMessage :: "string \<Rightarrow> 'x index \<Rightarrow> (go_error + ChatMessage option) \<times> 'x index" where
  "GetChatMessage uri = db_read (\<lambda>w. first_chat uri (ix_Rows w))"

definition comment_rows :: "indexed_row list \<Rightarrow> VodComment list" where
  "comment_rows rows = List.map_filter (\<lambda>r. case r of CommentRow m \<Rightarrow> Some m | _ \<Rightarrow> None) rows"

definition GetVodComment :: "string \<Rightarrow> 'x index \<Rightarrow> (go_error + VodComment option) \<times> 'x index" where
  "GetVodComment uri =
     db_read (\<lambda>w. case sort_key vc_CID (filter (\<lambda>m. vc_URI m = uri \<and> vc_DeletedAt m = None) (comment_rows (ix_Rows w))) of
        [] \<Rightarrow> None | m # _ \<Rightarrow> Some m)"

definition GetLikeBySubjectAndUser :: "string \<Rightarrow> string \<Rightarrow> 'x index \<Rightarrow> (go_error + bool) \<times> 'x index" where
  "GetLikeBySubjectAndUser subject repo =
     db_read (\<lambda>w. list_ex (\<lambda>r. case r of LikeRow _ s u \<Rightarrow> s = subject \<and> u = repo | _ \<Rightarrow> False) (ix_Saved w))"

end
