(* ===== verification/LabelMirror.thy ===== *)
theory LabelMirror
  imports RecordIndex BaseEncoding
begin

text \<open>
  Verified accounts from labels (\<open>atproto/label_verification.go\<close>): the labels of a labeler are mirrored into the table of
  verifications (\<open>model/verification.go\<close>, with \<open>createOrVerify\<close> of \<open>model/indexed.go\<close>), following the labeler's
  cursor.  The answers of \<open>queryLabels\<close> are a list, one per request; the hash in the key of the cursor is a
  parameter; a statement on the tables may fail.
\<close>

section \<open>Matching\<close>

definition labelMatches :: "string \<Rightarrow> string list \<Rightarrow> bool" where
  "labelMatches val patterns =
     list_ex (\<lambda>p. if p \<noteq> [] \<and> List.last p = CHR ''*'' then take (length p - 1) val = butlast p else val = p) patterns"

definition labelVerificationURI :: "string \<Rightarrow> string \<Rightarrow> string \<Rightarrow> string" where
  "labelVerificationURI src subject val = ''label://'' @ src @ ''/'' @ subject @ ''/'' @ val"

definition labelCursorKey :: "(string \<Rightarrow> string) \<Rightarrow> string \<Rightarrow> string list \<Rightarrow> string" where
  "labelCursorKey sum8 labeler patterns =
     ''labels-cursor:'' @ labeler @ '':'' @ sum8 (join_with (CHR '','') (sort patterns))"

section \<open>The table of verifications\<close>

type_synonym verifications = "string \<rightharpoonup> Verification"

definition Model_CreateVerification :: "go_error option \<Rightarrow> string \<Rightarrow> Verification \<Rightarrow> verifications \<Rightarrow> go_error option \<times> verifications" where
  "Model_CreateVerification fault uri v tbl =
     (case fault of
        Some e \<Rightarrow> (Some e, tbl)
      | None \<Rightarrow>
          (case tbl uri of
             None \<Rightarrow> (None, tbl(uri \<mapsto> v))
           | Some old \<Rightarrow> if vf_CID old = vf_CID v then (Some ErrAlreadyIndexed, tbl) else (None, tbl(uri \<mapsto> v))))"

definition Model_DeleteVerification :: "go_error option \<Rightarrow> string \<Rightarrow> verifications \<Rightarrow> go_error option \<times> verifications" where
  "Model_DeleteVerification fault uri tbl = (case fault of Some e \<Rightarrow> (Some e, tbl) | None \<Rightarrow> (None, tbl(uri := None)))"

definition DeleteMirroredLabels :: "go_error option \<Rightarrow> string \<Rightarrow> verifications \<Rightarrow> go_error option \<times> verifications" where
  "DeleteMirroredLabels fault labeler tbl =
     (case fault of
        Some e \<Rightarrow> (Some e, tbl)
      | None \<Rightarrow>
          (None, \<lambda>uri. case tbl uri of
                   Some v \<Rightarrow> if vf_IssuerDID v = labeler \<and> take 8 uri = ''label://'' then None else Some v
                 | None \<Rightarrow> None))"

section \<open>Seeding\<close>

record query_label =
  ql_Src :: string
  ql_Uri :: string
  ql_Cid :: "string option"
  ql_Val :: string
  ql_Neg :: bool
  ql_Cts :: "time option"

text \<open>A page of labels, with the faults of the statements on them and of storing the cursor after it.\<close>

record query_page =
  qp_Cursor :: string
  qp_Labels :: "(query_label \<times> go_error option) list"
  qp_PutFault :: "go_error option"

record seed_state =
  sd_tbl :: verifications
  sd_config :: "string \<rightharpoonup> string"
  sd_added :: nat
  sd_removed :: nat

definition mirrors :: "string \<Rightarrow> string list \<Rightarrow> query_label \<Rightarrow> bool" where
  "mirrors labeler patterns l = (ql_Src l = labeler \<and> take 4 (ql_Uri l) = ''did:'' \<and> labelMatches (ql_Val l) patterns)"

text \<open>One label, with the fault of its statement; a creation time that does not parse is now.\<close>

definition seed_label :: "time \<Rightarrow> string \<Rightarrow> string list \<Rightarrow> query_label \<times> go_error option \<Rightarrow> seed_state \<Rightarrow> seed_state" where
  "seed_label now labeler patterns lf s =
     (let (l, fault) = lf; uri = labelVerificationURI (ql_Src l) (ql_Uri l) (ql_Val l) in
      if \<not> mirrors labeler patterns l then s
      else if ql_Neg l
      then (case Model_DeleteVerification fault uri (sd_tbl s) of
              (Some _, _) \<Rightarrow> s
            | (None, tbl) \<Rightarrow> s\<lparr>sd_tbl := tbl, sd_removed := sd_removed s + 1\<rparr>)
      else
        (case Model_CreateVerification fault uri
                \<lparr>vf_URI = uri, vf_CID = (case ql_Cid l of None \<Rightarrow> '''' | Some c \<Rightarrow> c), vf_IssuerDID = ql_Src l, vf_SubjectDID = ql_Uri l,
                 vf_Handle = '''', vf_DisplayName = '''',
                 vf_CreatedAt = (case ql_Cts l of None \<Rightarrow> now | Some t \<Rightarrow> t)\<rparr> (sd_tbl s) of
           (r, tbl) \<Rightarrow>
             if r \<noteq> None \<and> r \<noteq> Some ErrAlreadyIndexed then s
             else s\<lparr>sd_tbl := tbl, sd_added := sd_added s + 1\<rparr>))"

text \<open>The loop over pages; the cursor is stored after each page that moved it, and an error of that is logged.\<close>

fun seed_loop ::
  "time \<Rightarrow> string \<Rightarrow> string list \<Rightarrow> string \<Rightarrow> bool \<Rightarrow> (go_error + query_page) list \<Rightarrow> string \<Rightarrow> seed_state \<Rightarrow>
   go_error option \<times> seed_state" where
  "seed_loop now labeler patterns key has_db [] cursor s = (Some (Sentinel ''no answer''), s)"
| "seed_loop now labeler patterns key has_db (Inl e # answers) cursor s = (Some e, s)"
| "seed_loop now labeler patterns key has_db (Inr page # answers) cursor s =
     (let s1 = fold (seed_label now labeler patterns) (qp_Labels page) s in
      if qp_Cursor page = '''' \<or> qp_Cursor page = cursor \<or> qp_Labels page = [] then (None, s1)
      else
        (let s2 = (if has_db \<and> qp_PutFault page = None then s1\<lparr>sd_config := (sd_config s1)(key \<mapsto> qp_Cursor page)\<rparr> else s1) in
         seed_loop now labeler patterns key has_db answers (qp_Cursor page) s2))"

text \<open>\<open>host\<close> is the labeler's endpoint, or the error of its resolution; a stored cursor that cannot be read counts as none.\<close>

definition seedLabels ::
  "(string \<Rightarrow> string) \<Rightarrow> time \<Rightarrow> go_error + string \<Rightarrow> bool \<Rightarrow> go_error option \<Rightarrow> go_error option \<Rightarrow> (go_error + query_page) list \<Rightarrow>
   string \<Rightarrow> string list \<Rightarrow> seed_state \<Rightarrow> go_error option \<times> seed_state" where
  "seedLabels sum8 now host has_db getFault clearFault answers labeler patterns s =
     (case host of
        Inl e \<Rightarrow> (Some e, s)
      | Inr h \<Rightarrow>
          if h = '''' then (Some (Sentinel ''has no atproto_labeler service''), s)
          else
            (let key = labelCursorKey sum8 labeler patterns in
             case (if has_db \<and> getFault = None then sd_config s key else None) of
               Some cursor \<Rightarrow> seed_loop now labeler patterns key has_db answers cursor s
             | None \<Rightarrow>
                 (case DeleteMirroredLabels clearFault labeler (sd_tbl s) of
                    (Some e, _) \<Rightarrow> (Some (WrapErr ''clear mirrored labels'' [e]), s)
                  | (None, tbl) \<Rightarrow> seed_loop now labeler patterns key has_db answers '''' (s\<lparr>sd_tbl := tbl\<rparr>))))"

section \<open>The mirror follows the labels\<close>

text \<open>The latest of a list of labels about an account and a value.\<close>

definition latest_label :: "string \<Rightarrow> string \<Rightarrow> string \<Rightarrow> query_label list \<Rightarrow> query_label option" where
  "latest_label labeler subject val ls =
     (let m = filter (\<lambda>l. ql_Src l = labeler \<and> ql_Uri l = subject \<and> ql_Val l = val) ls in
      if m = [] then None else Some (List.last m))"

text \<open>Whether the account is mirrored as verified after the labels, given whether it was before.\<close>

definition mirrored_after :: "string \<Rightarrow> string \<Rightarrow> string \<Rightarrow> query_label list \<Rightarrow> bool \<Rightarrow> bool" where
  "mirrored_after labeler subject val ls before =
     (case latest_label labeler subject val ls of None \<Rightarrow> before | Some l \<Rightarrow> \<not> ql_Neg l)"

lemma latest_label_snoc:
  "latest_label labeler subject val (ls @ [l]) =
     (if ql_Src l = labeler \<and> ql_Uri l = subject \<and> ql_Val l = val then Some l else latest_label labeler subject val ls)"
  by (simp add: latest_label_def Let_def)

lemma mirrored_after_append [simp]:
  "mirrored_after labeler subject val (xs @ ys) before =
     mirrored_after labeler subject val ys (mirrored_after labeler subject val xs before)"
  by (simp add: mirrored_after_def latest_label_def Let_def split: option.splits)

lemma labelVerificationURI_inj:
  assumes "CHR ''/'' \<notin> set a" "CHR ''/'' \<notin> set a'"
  shows "labelVerificationURI src a v = labelVerificationURI src a' v' \<longleftrightarrow> a = a' \<and> v = v'"
  using append_sep_inj [OF assms, of v v'] by (simp add: labelVerificationURI_def)

definition clean_subjects :: "query_label list \<Rightarrow> bool" where
  "clean_subjects ls = list_all (\<lambda>l. take 4 (ql_Uri l) = ''did:'' \<longrightarrow> CHR ''/'' \<notin> set (ql_Uri l)) ls"

lemma seed_label_tbl:
  assumes clean: "CHR ''/'' \<notin> set subject" "take 4 (ql_Uri l) = ''did:'' \<longrightarrow> CHR ''/'' \<notin> set (ql_Uri l)"
    and subj: "take 4 subject = ''did:''" "labelMatches val patterns"
  shows "sd_tbl (seed_label now labeler patterns (l, None) s) (labelVerificationURI labeler subject val) \<noteq> None \<longleftrightarrow>
    (if ql_Src l = labeler \<and> ql_Uri l = subject \<and> ql_Val l = val then \<not> ql_Neg l
     else sd_tbl s (labelVerificationURI labeler subject val) \<noteq> None)"
proof (cases "mirrors labeler patterns l")
  case False
  then show ?thesis using subj by (auto simp: seed_label_def mirrors_def)
next
  case True
  then have m: "ql_Src l = labeler" "CHR ''/'' \<notin> set (ql_Uri l)" using clean(2) by (auto simp: mirrors_def)
  have uri: "labelVerificationURI labeler subject val = labelVerificationURI labeler (ql_Uri l) (ql_Val l) \<longleftrightarrow>
      ql_Uri l = subject \<and> ql_Val l = val"
    using labelVerificationURI_inj [OF clean(1) m(2), of labeler val "ql_Val l"] by auto
  show ?thesis
  proof (cases "ql_Neg l")
    case neg: True
    have "sd_tbl (seed_label now labeler patterns (l, None) s) =
        (sd_tbl s)(labelVerificationURI labeler (ql_Uri l) (ql_Val l) := None)"
      using True neg m(1) by (simp add: seed_label_def Model_DeleteVerification_def)
    then show ?thesis using uri m(1) neg by auto
  next
    case False
    then have "sd_tbl (seed_label now labeler patterns (l, None) s) u \<noteq> None \<longleftrightarrow>
        u = labelVerificationURI labeler (ql_Uri l) (ql_Val l) \<or> sd_tbl s u \<noteq> None" for u
      using True m(1) by (auto simp: seed_label_def Model_CreateVerification_def Let_def split: option.splits if_splits)
    then show ?thesis using uri m(1) False by auto
  qed
qed

lemma seed_labels_tbl:
  assumes subj: "take 4 subject = ''did:''" "labelMatches val patterns" "CHR ''/'' \<notin> set subject"
  shows "\<forall>lf\<in>set lfs. snd lf = None \<Longrightarrow> clean_subjects (map fst lfs) \<Longrightarrow>
    sd_tbl (fold (seed_label now labeler patterns) lfs s) (labelVerificationURI labeler subject val) \<noteq> None \<longleftrightarrow>
    mirrored_after labeler subject val (map fst lfs) (sd_tbl s (labelVerificationURI labeler subject val) \<noteq> None)"
proof (induction lfs rule: rev_induct)
  case Nil
  then show ?case by (simp add: mirrored_after_def latest_label_def)
next
  case (snoc lf lfs)
  obtain l where lf: "lf = (l, None)" using snoc.prems(1) by (cases lf) auto
  have c: "take 4 (ql_Uri l) = ''did:'' \<longrightarrow> CHR ''/'' \<notin> set (ql_Uri l)"
    using snoc.prems(2) lf by (simp add: clean_subjects_def)
  have "sd_tbl (fold (seed_label now labeler patterns) lfs s) (labelVerificationURI labeler subject val) \<noteq> None \<longleftrightarrow>
    mirrored_after labeler subject val (map fst lfs) (sd_tbl s (labelVerificationURI labeler subject val) \<noteq> None)"
    using snoc by (simp add: clean_subjects_def)
  then show ?case
    using seed_label_tbl [OF subj(3) c subj(1,2), of now labeler "fold (seed_label now labeler patterns) lfs s"]
    by (auto simp: lf mirrored_after_def latest_label_snoc)
qed

text \<open>The pages a poll from a cursor reads: up to the first that is the end of what the labeler has.\<close>

fun pages_read :: "string \<Rightarrow> (go_error + query_page) list \<Rightarrow> query_page list" where
  "pages_read cursor (Inr page # answers) =
     page # (if qp_Cursor page = '''' \<or> qp_Cursor page = cursor \<or> qp_Labels page = [] then []
             else pages_read (qp_Cursor page) answers)"
| "pages_read cursor answers = []"

definition labels_read :: "string \<Rightarrow> (go_error + query_page) list \<Rightarrow> query_label list" where
  "labels_read cursor answers = concat (map (\<lambda>p. map fst (qp_Labels p)) (pages_read cursor answers))"

text \<open>The cursor a poll starts from, if it does not start over.\<close>

definition resume_cursor :: "(string \<Rightarrow> string) \<Rightarrow> bool \<Rightarrow> string \<Rightarrow> string list \<Rightarrow> seed_state \<Rightarrow> string option" where
  "resume_cursor sum8 has_db labeler patterns s =
     (if has_db then sd_config s (labelCursorKey sum8 labeler patterns) else None)"

lemma seed_loop_tbl:
  assumes subj: "take 4 subject = ''did:''" "labelMatches val patterns" "CHR ''/'' \<notin> set subject"
  shows "seed_loop now labeler patterns key db answers cursor s = (None, s') \<Longrightarrow>
    \<forall>page. Inr page \<in> set answers \<longrightarrow> clean_subjects (map fst (qp_Labels page)) \<and> (\<forall>lf\<in>set (qp_Labels page). snd lf = None) \<Longrightarrow>
    sd_tbl s' (labelVerificationURI labeler subject val) \<noteq> None \<longleftrightarrow>
      mirrored_after labeler subject val (labels_read cursor answers) (sd_tbl s (labelVerificationURI labeler subject val) \<noteq> None)"
proof (induction answers arbitrary: cursor s)
  case (Cons a answers)
  obtain page where a: "a = Inr page" using Cons.prems(1) by (cases a) auto
  let ?s1 = "fold (seed_label now labeler patterns) (qp_Labels page) s"
  let ?u = "labelVerificationURI labeler subject val"
  have one: "sd_tbl ?s1 ?u \<noteq> None \<longleftrightarrow> mirrored_after labeler subject val (map fst (qp_Labels page)) (sd_tbl s ?u \<noteq> None)"
    using seed_labels_tbl [OF subj] Cons.prems(2) a by simp
  show ?case
  proof (cases "qp_Cursor page = '''' \<or> qp_Cursor page = cursor \<or> qp_Labels page = []")
    case True
    then have "s' = ?s1" using Cons.prems(1) a by (simp add: Let_def)
    moreover have "labels_read cursor (a # answers) = map fst (qp_Labels page)"
      using True by (auto simp: labels_read_def a)
    ultimately show ?thesis using one by simp
  next
    case False
    define s2 where "s2 = (if db \<and> qp_PutFault page = None then ?s1\<lparr>sd_config := (sd_config ?s1)(key \<mapsto> qp_Cursor page)\<rparr> else ?s1)"
    have "seed_loop now labeler patterns key db answers (qp_Cursor page) s2 = (None, s')"
      using Cons.prems(1) a False by (simp add: Let_def s2_def)
    then have r: "sd_tbl s' ?u \<noteq> None \<longleftrightarrow>
        mirrored_after labeler subject val (labels_read (qp_Cursor page) answers) (sd_tbl s2 ?u \<noteq> None)"
      using Cons.prems(2) by (intro Cons.IH) auto
    have "sd_tbl s2 = sd_tbl ?s1" by (simp add: s2_def)
    moreover have "labels_read cursor (a # answers) = map fst (qp_Labels page) @ labels_read (qp_Cursor page) answers"
      using False by (simp add: labels_read_def a)
    ultimately show ?thesis by (simp only: r one mirrored_after_append)
  qed
qed simp

text \<open>
  C30. The mirror is the latest word of the labeler.  When a poll returns no error, then for every account and
  every value named by the rules, the account is mirrored as verified exactly when the latest label about it, among all labels of the
  pages read from the stored cursor up to the last, is not a negation; where they say nothing it is what it was before
  the poll, and nothing when the rules are new or the cursor could not be read.  (The subjects are DIDs, without a slash, and no statement on the
  table failed.)
\<close>

theorem mirror_follows_labels:
  assumes subj: "take 4 subject = ''did:''" "labelMatches val patterns" "CHR ''/'' \<notin> set subject"
    and run: "seedLabels sum8 now host db getFault clearFault answers labeler patterns s = (None, s')"
    and pages: "\<forall>page. Inr page \<in> set answers \<longrightarrow> clean_subjects (map fst (qp_Labels page)) \<and> (\<forall>lf\<in>set (qp_Labels page). snd lf = None)"
    and own: "\<forall>v. sd_tbl s (labelVerificationURI labeler subject val) = Some v \<longrightarrow> vf_IssuerDID v = labeler"
  shows "sd_tbl s' (labelVerificationURI labeler subject val) \<noteq> None \<longleftrightarrow>
    (case resume_cursor sum8 (db \<and> getFault = None) labeler patterns s of
       Some cursor \<Rightarrow> mirrored_after labeler subject val (labels_read cursor answers)
                        (sd_tbl s (labelVerificationURI labeler subject val) \<noteq> None)
     | None \<Rightarrow> mirrored_after labeler subject val (labels_read '''' answers) False)"
proof -
  let ?key = "labelCursorKey sum8 labeler patterns"
  obtain h where h: "host = Inr h" "h \<noteq> ''''" using run by (cases host) (auto simp: seedLabels_def split: if_splits)
  show ?thesis
  proof (cases "resume_cursor sum8 (db \<and> getFault = None) labeler patterns s")
    case (Some cursor)
    then have "seed_loop now labeler patterns ?key db answers cursor s = (None, s')"
      using run h by (simp add: seedLabels_def resume_cursor_def Let_def)
    from seed_loop_tbl [OF subj this pages] Some show ?thesis by simp
  next
    case None
    then have c: "(if db \<and> getFault = None then sd_config s ?key else None) = None" by (simp add: resume_cursor_def)
    obtain r tbl where d: "DeleteMirroredLabels clearFault labeler (sd_tbl s) = (r, tbl)" by (metis surj_pair)
    have r: "r = None" using run h c d by (cases r) (simp_all add: seedLabels_def Let_def del: if_split)
    then have l: "seed_loop now labeler patterns ?key db answers '''' (s\<lparr>sd_tbl := tbl\<rparr>) = (None, s')"
      using run h c d by (simp add: seedLabels_def Let_def del: if_split)
    have "tbl (labelVerificationURI labeler subject val) = None"
      using d r own
      by (auto simp: DeleteMirroredLabels_def labelVerificationURI_def split: option.splits if_splits)
    then show ?thesis using seed_loop_tbl [OF subj l pages] None by simp
  qed
qed

text \<open>An account labelled on the first page and negated on the second, under rules that are new.\<close>

definition mirror_label :: "string \<Rightarrow> bool \<Rightarrow> query_label" where
  "mirror_label subject neg =
     \<lparr>ql_Src = ''did:l'', ql_Uri = subject, ql_Cid = None, ql_Val = ''verified'', ql_Neg = neg, ql_Cts = Some 5\<rparr>"

definition mirror_answers :: "(go_error + query_page) list" where
  "mirror_answers =
     [Inr \<lparr>qp_Cursor = ''1'', qp_Labels = [(mirror_label ''did:a'' False, None), (mirror_label ''did:b'' False, None)], qp_PutFault = None\<rparr>,
      Inr \<lparr>qp_Cursor = ''2'', qp_Labels = [(mirror_label ''did:b'' True, None)], qp_PutFault = None\<rparr>,
      Inr \<lparr>qp_Cursor = ''2'', qp_Labels = [], qp_PutFault = None\<rparr>]"

definition mirror_start :: seed_state where
  "mirror_start = \<lparr>sd_tbl = (\<lambda>_. None), sd_config = (\<lambda>_. None), sd_added = 0, sd_removed = 0\<rparr>"

definition mirror_poll :: "string \<Rightarrow> (go_error + query_page) list \<Rightarrow> seed_state \<Rightarrow> go_error option \<times> seed_state" where
  "mirror_poll rule answers = seedLabels id 9 (Inr ''https://l'') True None None answers ''did:l'' [rule]"

lemma mirror_poll_ends: "fst (mirror_poll ''veri*'' mirror_answers mirror_start) = None"
  by code_simp

lemma mirror_answers_clean:
  "\<forall>page. Inr page \<in> set mirror_answers \<longrightarrow>
     clean_subjects (map fst (qp_Labels page)) \<and> (\<forall>lf\<in>set (qp_Labels page). snd lf = None)"
  by (auto simp: mirror_answers_def mirror_label_def clean_subjects_def)

theorem mirror_follows_labels_witness:
  "\<not> mirrored_after ''did:l'' ''did:b'' ''verified'' (labels_read '''' mirror_answers) False \<and>
   sd_tbl (snd (mirror_poll ''veri*'' mirror_answers mirror_start)) (labelVerificationURI ''did:l'' ''did:b'' ''verified'') = None"
proof -
  have "resume_cursor id b ''did:l'' [''veri*''] mirror_start = None" for b by (simp add: resume_cursor_def mirror_start_def)
  moreover have "\<not> mirrored_after ''did:l'' ''did:b'' ''verified'' (labels_read '''' mirror_answers) False" by code_simp
  moreover have "labelMatches ''verified'' [''veri*'']" by code_simp
  moreover have "seedLabels id 9 (Inr ''https://l'') True None None mirror_answers ''did:l'' [''veri*''] mirror_start =
      (None, snd (mirror_poll ''veri*'' mirror_answers mirror_start))"
    using mirror_poll_ends by (metis mirror_poll_def prod.collapse)
  moreover have "\<forall>v. sd_tbl mirror_start (labelVerificationURI ''did:l'' ''did:b'' ''verified'') = Some v \<longrightarrow> vf_IssuerDID v = ''did:l''"
    by (simp add: mirror_start_def)
  ultimately show ?thesis
    using mirror_follows_labels [where subject = "''did:b''" and val = "''verified''", OF _ _ _ _ mirror_answers_clean] by fastforce
qed

text \<open>
  Rules that come back.  A change of the rules empties the mirror and starts over, but the cursor of the earlier rules is
  kept under their key, so restoring them resumes behind it: an account still labelled stays unverified.
\<close>

lemma restored_rules_lose_accounts:
  "let s1 = snd (mirror_poll ''veri*'' mirror_answers mirror_start);
       s2 = snd (mirror_poll ''other'' [Inr \<lparr>qp_Cursor = '''', qp_Labels = [], qp_PutFault = None\<rparr>] s1);
       s3 = snd (mirror_poll ''veri*'' [Inr \<lparr>qp_Cursor = ''2'', qp_Labels = [], qp_PutFault = None\<rparr>] s2);
       u = labelVerificationURI ''did:l'' ''did:a'' ''verified'' in
   sd_tbl s1 u \<noteq> None \<and> sd_tbl s2 u = None \<and> sd_tbl s3 u = None"
  by code_simp

end
