(* ===== verification/ChatAccess.thy ===== *)
theory ChatAccess
  imports LabelMirror
begin

text \<open>
  Who may chat on a stream (\<open>atproto/verification.go\<close>, \<open>model/chat_access.go\<close>, \<open>VerificationsFor\<close> of
  \<open>model/verification.go\<close>): the streamer's rules, cached briefly, against the verifications of the author.  The comparison of
  handles without case is a parameter, as are the author's current handle and display name.
\<close>

section \<open>Rules from records\<close>

definition ChatAccessAllow :: string where "ChatAccessAllow = ''allow''"
definition ChatAccessDeny :: string where "ChatAccessDeny = ''deny''"
definition SubjectVerifier :: string where "SubjectVerifier = ''verifier''"
definition SubjectLabel :: string where "SubjectLabel = ''label''"

datatype access_subject = Verifier string | LabelBy string string | UnknownSubject

record access_record =
  ar_Action :: string
  ar_Subject :: access_subject
  ar_CreatedAt :: string

definition ErrChatAccessSubjectUnknown :: go_error where
  "ErrChatAccessSubjectUnknown = Sentinel ''chat access rule has a subject this node does not understand''"

text \<open>\<open>trim\<close> is \<open>strings.TrimSpace\<close>, \<open>cidOf\<close> the identifier of the record, \<open>repoDID\<close> the authority of the URI.\<close>

definition ChatAccessRuleFromRecord ::
  "(string \<Rightarrow> string) \<Rightarrow> go_error + string \<Rightarrow> (string \<Rightarrow> go_error + time) \<Rightarrow> time \<Rightarrow> string \<Rightarrow> go_error + string \<Rightarrow>
   access_record \<Rightarrow> go_error + ChatAccessRule" where
  "ChatAccessRuleFromRecord trim cidOf parseTime now uri repoDID rec =
     (case repoDID of
        Inl e \<Rightarrow> Inl (WrapErr ''invalid ATURI authority'' [e])
      | Inr repo \<Rightarrow>
          (let action = trim (ar_Action rec);
               created = (case parseTime (ar_CreatedAt rec) of Inr t \<Rightarrow> t | Inl _ \<Rightarrow> now);
               row = (\<lambda>typ did val cid. \<lparr>ca_URI = uri, ca_CID = cid, ca_RepoDID = repo, ca_Action = action, ca_SubjectType = typ,
                        ca_SubjectDID = did, ca_LabelValue = val, ca_CreatedAt = created\<rparr>);
               finish = (\<lambda>typ did val. case cidOf of
                           Inl e \<Rightarrow> Inl (WrapErr ''failed to get CID'' [e])
                         | Inr cid \<Rightarrow> Inr (row typ did val cid))
           in if action \<noteq> ChatAccessAllow \<and> action \<noteq> ChatAccessDeny then Inl (Sentinel ''chat access rule has action'')
              else
                (case ar_Subject rec of
                   Verifier d \<Rightarrow>
                     if take 4 (trim d) \<noteq> ''did:'' then Inl (Sentinel ''chat access verifier is not a DID'')
                     else finish SubjectVerifier (trim d) ''''
                 | LabelBy l v \<Rightarrow>
                     if take 4 (trim l) \<noteq> ''did:'' \<or> trim v = ''''
                     then Inl (Sentinel ''chat access label rule needs a labeler DID and a value'')
                     else finish SubjectLabel (trim l) (trim v)
                 | UnknownSubject \<Rightarrow> Inl ErrChatAccessSubjectUnknown)))"

section \<open>Lookups\<close>

definition access_rules :: "indexed_row list \<Rightarrow> ChatAccessRule list" where
  "access_rules rows = List.map_filter (\<lambda>r. case r of AccessRow a \<Rightarrow> Some a | _ \<Rightarrow> None) rows"

definition verification_rows :: "indexed_row list \<Rightarrow> Verification list" where
  "verification_rows rows = List.map_filter (\<lambda>r. case r of VerificationRow v \<Rightarrow> Some v | _ \<Rightarrow> None) rows"

definition ListChatAccessRules :: "string \<Rightarrow> 'x index \<Rightarrow> (go_error + ChatAccessRule list) \<times> 'x index" where
  "ListChatAccessRules repo =
     db_read (\<lambda>w. sort_key ca_CreatedAt (filter (\<lambda>r. ca_RepoDID r = repo) (access_rules (ix_Rows w))))"

definition VerificationsFor :: "string \<Rightarrow> string list \<Rightarrow> 'x index \<Rightarrow> (go_error + Verification list) \<times> 'x index" where
  "VerificationsFor subject issuers =
     db_read (\<lambda>w. sort_key vf_CreatedAt
       (filter (\<lambda>v. vf_SubjectDID v = subject \<and> vf_IssuerDID v \<in> set issuers) (verification_rows (ix_Rows w))))"

text \<open>The subjects any rule names: the verifiers in order, and the label values of each labeler.\<close>

fun subject_verifiers :: "ChatAccessRule list \<Rightarrow> string list \<Rightarrow> string list" where
  "subject_verifiers [] seen = []"
| "subject_verifiers (r # rs) seen =
     (if ca_SubjectType r = SubjectVerifier \<and> ca_SubjectDID r \<notin> set seen
      then ca_SubjectDID r # subject_verifiers rs (ca_SubjectDID r # seen)
      else subject_verifiers rs seen)"

fun subject_labels :: "ChatAccessRule list \<Rightarrow> (string \<times> string) list \<Rightarrow> (string \<times> string) list" where
  "subject_labels [] seen = []"
| "subject_labels (r # rs) seen =
     (if ca_SubjectType r = SubjectLabel \<and> (ca_SubjectDID r, ca_LabelValue r) \<notin> set seen
      then (ca_SubjectDID r, ca_LabelValue r) # subject_labels rs ((ca_SubjectDID r, ca_LabelValue r) # seen)
      else subject_labels rs seen)"

definition ChatAccessSubjects :: "'x index \<Rightarrow> (go_error + string list \<times> (string \<Rightarrow> string list)) \<times> 'x index" where
  "ChatAccessSubjects =
     db_read (\<lambda>w. (subject_verifiers (access_rules (ix_Rows w)) [],
       \<lambda>did. map snd (filter (\<lambda>p. fst p = did) (subject_labels (access_rules (ix_Rows w)) []))))"

section \<open>The cache of rules\<close>

definition rulesCacheTTL :: duration where "rulesCacheTTL = 15 * second"

type_synonym rules_cache = "string \<rightharpoonup> ChatAccessRule list \<times> time"

definition rulesFor ::
  "time \<Rightarrow> string \<Rightarrow> rules_cache \<Rightarrow> 'x index \<Rightarrow> (go_error + ChatAccessRule list) \<times> rules_cache \<times> 'x index" where
  "rulesFor now streamer cache w =
     (if streamer = '''' then (Inr [], cache, w)
      else
        (case cache streamer of
           Some (rules, at) \<Rightarrow>
             if now - at < rulesCacheTTL then (Inr rules, cache, w)
             else
               (case ListChatAccessRules streamer w of
                  (Inl e, w1) \<Rightarrow> (Inl e, cache, w1)
                | (Inr rules, w1) \<Rightarrow> (Inr rules, cache(streamer \<mapsto> (rules, now)), w1))
         | None \<Rightarrow>
             (case ListChatAccessRules streamer w of
                (Inl e, w1) \<Rightarrow> (Inl e, cache, w1)
              | (Inr rules, w1) \<Rightarrow> (Inr rules, cache(streamer \<mapsto> (rules, now)), w1))))"

text \<open>\<open>NoteChatAccessRule\<close>: the streamer's entry is dropped.  What it tells the seeding loop is left out.\<close>

definition NoteChatAccessRule :: "string \<Rightarrow> rules_cache \<Rightarrow> rules_cache" where
  "NoteChatAccessRule repo cache = cache(repo := None)"

section \<open>Verifications of an account\<close>

definition after_last_slash :: "string \<Rightarrow> string" where
  "after_last_slash s = rev (takeWhile (\<lambda>c. c \<noteq> CHR ''/'') (rev s))"

definition labelValueOf :: "Verification \<Rightarrow> string" where
  "labelValueOf v = (if take 8 (vf_URI v) \<noteq> ''label://'' then '''' else after_last_slash (vf_URI v))"

definition ruleMatches :: "ChatAccessRule \<Rightarrow> Verification list \<Rightarrow> bool" where
  "ruleMatches rule vs =
     list_ex (\<lambda>v. vf_IssuerDID v = ca_SubjectDID rule \<and>
        (if ca_SubjectType rule = SubjectVerifier then labelValueOf v = ''''
         else if ca_SubjectType rule = SubjectLabel then labelValueOf v \<noteq> '''' \<and> labelMatches (labelValueOf v) [ca_LabelValue rule]
         else False)) vs"

fun issuersOf_from :: "string list \<Rightarrow> ChatAccessRule list \<Rightarrow> string list" where
  "issuersOf_from seen [] = []"
| "issuersOf_from seen (r # rs) =
     (if ca_SubjectDID r \<in> set seen then issuersOf_from seen rs
      else ca_SubjectDID r # issuersOf_from (ca_SubjectDID r # seen) rs)"

definition issuersOf :: "ChatAccessRule list \<Rightarrow> string list" where "issuersOf = issuersOf_from []"

text \<open>What is asked about an account: its handle and its display name, as they are now; empty when unknown.\<close>

record account_view =
  av_handle :: "string \<Rightarrow> string"
  av_displayName :: "string \<Rightarrow> string"
  av_equalFold :: "string \<Rightarrow> string \<Rightarrow> bool"

definition still_current :: "account_view \<Rightarrow> string \<Rightarrow> Verification \<Rightarrow> bool" where
  "still_current av did v =
     (if labelValueOf v \<noteq> '''' \<or> vf_Handle v = '''' \<and> vf_DisplayName v = '''' then True
      else if vf_Handle v \<noteq> '''' \<and> av_handle av did \<noteq> '''' \<and> \<not> av_equalFold av (vf_Handle v) (av_handle av did) then False
      else if vf_DisplayName v \<noteq> '''' \<and> av_displayName av did \<noteq> '''' \<and> vf_DisplayName v \<noteq> av_displayName av did then False
      else True)"

definition currentVerifications :: "account_view \<Rightarrow> string \<Rightarrow> Verification list \<Rightarrow> Verification list" where
  "currentVerifications av did vs = filter (still_current av did) vs"

definition verificationsUnder ::
  "account_view \<Rightarrow> ChatAccessRule list \<Rightarrow> string \<Rightarrow> 'x index \<Rightarrow> Verification list \<times> 'x index" where
  "verificationsUnder av rules did w =
     (let issuers = issuersOf rules in
      if issuers = [] \<or> did = '''' then ([], w)
      else
        (case VerificationsFor did issuers w of
           (Inl e, w1) \<Rightarrow> ([], w1)
         | (Inr found, w1) \<Rightarrow> (currentVerifications av did found, w1)))"

section \<open>Decisions\<close>

text \<open>The loop of \<open>ChatAllowed\<close>, with its two flags.\<close>

fun decide :: "ChatAccessRule list \<Rightarrow> Verification list \<Rightarrow> bool \<Rightarrow> bool \<Rightarrow> bool" where
  "decide [] vs hasAllow allowed = (\<not> hasAllow \<or> allowed)"
| "decide (r # rs) vs hasAllow allowed =
     (let match = ruleMatches r vs in
      if ca_Action r = ChatAccessDeny then (if match then False else decide rs vs hasAllow allowed)
      else if ca_Action r = ChatAccessAllow then decide rs vs True (allowed \<or> match)
      else decide rs vs hasAllow allowed)"

definition ChatAllowed ::
  "account_view \<Rightarrow> time \<Rightarrow> string \<Rightarrow> string \<Rightarrow> rules_cache \<Rightarrow> 'x index \<Rightarrow> bool \<times> rules_cache \<times> 'x index" where
  "ChatAllowed av now streamer did cache w =
     (case rulesFor now streamer cache w of
        (Inl e, cache1, w1) \<Rightarrow> (False, cache1, w1)
      | (Inr rules, cache1, w1) \<Rightarrow>
          if rules = [] then (True, cache1, w1)
          else
            (case verificationsUnder av rules did w1 of
               (vs, w2) \<Rightarrow> (decide rules vs False False, cache1, w2)))"

text \<open>The verifications shown on an author: those of allow rules, each once.\<close>

fun shown_from :: "string list \<Rightarrow> (ChatAccessRule \<times> Verification) list \<Rightarrow> Verification list" where
  "shown_from seen [] = []"
| "shown_from seen ((r, v) # rest) =
     (if vf_URI v \<in> set seen \<or> \<not> ruleMatches r [v] then shown_from seen rest
      else v # shown_from (vf_URI v # seen) rest)"

definition VerificationState ::
  "account_view \<Rightarrow> time \<Rightarrow> string \<Rightarrow> string \<Rightarrow> rules_cache \<Rightarrow> 'x index \<Rightarrow> Verification list \<times> rules_cache \<times> 'x index" where
  "VerificationState av now streamer did cache w =
     (case rulesFor now streamer cache w of
        (Inl e, cache1, w1) \<Rightarrow> ([], cache1, w1)
      | (Inr rules, cache1, w1) \<Rightarrow>
          (let allows = filter (\<lambda>r. ca_Action r = ChatAccessAllow) rules in
           if allows = [] then ([], cache1, w1)
           else
             (case verificationsUnder av allows did w1 of
                (vs, w2) \<Rightarrow> (shown_from [] (List.product allows vs), cache1, w2))))"


section \<open>What the decisions mean\<close>

lemma decide_iff:
  "decide rs vs hasAllow allowed \<longleftrightarrow>
     (\<forall>r\<in>set rs. ca_Action r = ChatAccessDeny \<longrightarrow> \<not> ruleMatches r vs) \<and>
     (hasAllow \<or> (\<exists>r\<in>set rs. ca_Action r = ChatAccessAllow) \<longrightarrow>
        allowed \<or> (\<exists>r\<in>set rs. ca_Action r = ChatAccessAllow \<and> ruleMatches r vs))"
proof (induction rs arbitrary: hasAllow allowed)
  case (Cons r rs)
  have "ChatAccessAllow \<noteq> ChatAccessDeny" by (simp add: ChatAccessAllow_def ChatAccessDeny_def)
  then show ?case using Cons.IH by (auto simp: Let_def)
qed simp

lemma ruleMatches_ex: "ruleMatches r vs \<longleftrightarrow> (\<exists>v\<in>set vs. ruleMatches r [v])"
  by (auto simp: ruleMatches_def list_ex_iff)

lemma ruleMatches_issuer: "ruleMatches r [v] \<Longrightarrow> vf_IssuerDID v = ca_SubjectDID r"
  by (simp add: ruleMatches_def)

lemma issuersOf_from_set: "set (issuersOf_from seen rs) = ca_SubjectDID ` set rs - set seen"
  by (induction seen rs rule: issuersOf_from.induct) auto

lemma issuersOf_set: "set (issuersOf rs) = ca_SubjectDID ` set rs"
  by (simp add: issuersOf_def issuersOf_from_set)

lemma db_read_ok: "ix_Fault w (ix_Calls w) = None \<Longrightarrow> db_read q w = (Inr (q (w\<lparr>ix_Calls := ix_Calls w + 1\<rparr>)), w\<lparr>ix_Calls := ix_Calls w + 1\<rparr>)"
  by (simp add: db_read_def db_call_def)

text \<open>What holds of an account: a verification of it that still describes it satisfies the rule.\<close>

definition satisfies_rule :: "account_view \<Rightarrow> indexed_row list \<Rightarrow> string \<Rightarrow> ChatAccessRule \<Rightarrow> bool" where
  "satisfies_rule av rows did r =
     (\<exists>v\<in>set (verification_rows rows). vf_SubjectDID v = did \<and> still_current av did v \<and> ruleMatches r [v])"

definition rules_of :: "string \<Rightarrow> indexed_row list \<Rightarrow> ChatAccessRule set" where
  "rules_of streamer rows = {r \<in> set (access_rules rows). ca_RepoDID r = streamer}"

lemma verificationsUnder_ok:
  assumes "\<And>n. ix_Fault w n = None" "did \<noteq> ''''" "rs \<noteq> []"
  shows "verificationsUnder av rs did w =
    (filter (still_current av did) (sort_key vf_CreatedAt (filter (\<lambda>v. vf_SubjectDID v = did \<and> vf_IssuerDID v \<in> ca_SubjectDID ` set rs)
       (verification_rows (ix_Rows w)))), w\<lparr>ix_Calls := ix_Calls w + 1\<rparr>)"
proof -
  have "issuersOf rs \<noteq> []" using assms(3) issuersOf_set [of rs] by (metis image_is_empty set_empty)
  then show ?thesis
    using assms by (simp add: verificationsUnder_def VerificationsFor_def db_read_ok issuersOf_set currentVerifications_def Let_def)
qed

lemma matches_found:
  "r \<in> set rs \<Longrightarrow>
   ruleMatches r (filter (still_current av did) (sort_key vf_CreatedAt (filter (\<lambda>v. vf_SubjectDID v = did \<and>
      vf_IssuerDID v \<in> ca_SubjectDID ` set rs) (verification_rows rows)))) \<longleftrightarrow> satisfies_rule av rows did r"
  by (subst ruleMatches_ex) (auto simp: satisfies_rule_def dest: ruleMatches_issuer)

lemma rulesFor_ok:
  assumes "\<And>n. ix_Fault w n = None" "streamer \<noteq> ''''"
    and "\<And>rules at. cache streamer = Some (rules, at) \<Longrightarrow> rulesCacheTTL \<le> now - at"
  shows "\<exists>rs cache'. rulesFor now streamer cache w = (Inr rs, cache', w\<lparr>ix_Calls := ix_Calls w + 1\<rparr>) \<and>
    set rs = rules_of streamer (ix_Rows w)"
proof -
  have l: "ListChatAccessRules streamer w =
      (Inr (sort_key ca_CreatedAt (filter (\<lambda>r. ca_RepoDID r = streamer) (access_rules (ix_Rows w)))), w\<lparr>ix_Calls := ix_Calls w + 1\<rparr>)"
    using assms(1) by (simp add: ListChatAccessRules_def db_read_ok)
  show ?thesis
  proof (cases "cache streamer")
    case None
    then show ?thesis using assms(2) l by (auto simp: rulesFor_def rules_of_def)
  next
    case (Some e)
    obtain rules at where e: "e = (rules, at)" by (cases e)
    then have "\<not> now - at < rulesCacheTTL" using assms(3) Some by fastforce
    then show ?thesis using assms(2) l Some e by (auto simp: rulesFor_def rules_of_def)
  qed
qed

lemma shown_from_set:
  "set (shown_from seen ps) \<subseteq> {v. \<exists>r. (r, v) \<in> set ps \<and> ruleMatches r [v]} \<and>
   vf_URI ` set (shown_from seen ps) = vf_URI ` {v. \<exists>r. (r, v) \<in> set ps \<and> ruleMatches r [v]} - set seen"
proof (induction seen ps rule: shown_from.induct)
  case (2 seen r v rest)
  show ?case
  proof (cases "vf_URI v \<in> set seen \<or> \<not> ruleMatches r [v]")
    case True
    then show ?thesis using 2(1) by (auto simp: image_iff)
  next
    case False
    then show ?thesis using 2(2) by (auto simp: image_iff)
  qed
qed simp


text \<open>What the rules of a streamer ask of an author.\<close>

definition admitted_by_rules :: "account_view \<Rightarrow> string \<Rightarrow> string \<Rightarrow> indexed_row list \<Rightarrow> bool" where
  "admitted_by_rules av streamer did rows \<longleftrightarrow>
     (\<forall>r\<in>rules_of streamer rows. ca_Action r = ChatAccessDeny \<longrightarrow> \<not> satisfies_rule av rows did r) \<and>
     ((\<exists>r\<in>rules_of streamer rows. ca_Action r = ChatAccessAllow) \<longrightarrow>
      (\<exists>r\<in>rules_of streamer rows. ca_Action r = ChatAccessAllow \<and> satisfies_rule av rows did r))"

lemma ChatAllowed_rules:
  assumes ok: "\<And>n. ix_Fault w n = None" and names: "streamer \<noteq> []" "did \<noteq> []"
    and fresh: "\<And>rules at. cache streamer = Some (rules, at) \<Longrightarrow> rulesCacheTTL \<le> now - at"
  shows "fst (ChatAllowed av now streamer did cache w) \<longleftrightarrow> admitted_by_rules av streamer did (ix_Rows w)"
proof -
  define w1 where "w1 = w\<lparr>ix_Calls := ix_Calls w + 1\<rparr>"
  obtain rs cache' where rs: "rulesFor now streamer cache w = (Inr rs, cache', w1)"
    "set rs = rules_of streamer (ix_Rows w)"
    unfolding w1_def using rulesFor_ok [where w = w and cache = cache and now = now, OF ok names(1)] fresh by metis
  have ok1: "\<And>n. ix_Fault w1 n = None" and rows: "ix_Rows w1 = ix_Rows w" using ok by (simp_all add: w1_def)
  show ?thesis
  proof (cases "rs = []")
    case False
    note u = verificationsUnder_ok [OF ok1 names(2) False, of av]
    show ?thesis
      using False by (simp add: ChatAllowed_def rs(1) u decide_iff rows matches_found admitted_by_rules_def rs(2) [symmetric]
          cong: bex_cong ball_cong conj_cong)
  qed (simp add: ChatAllowed_def rs(1) admitted_by_rules_def rs(2) [symmetric])
qed

text \<open>
  C15. Who may chat.  When the statements succeed and no younger copy of the streamer's rules is cached, an author is
  admitted exactly when no deny rule of the streamer is satisfied and, if there is an allow rule at all, one of
  them is; a rule is satisfied by a verification of the author that still describes the account, from the issuer
  and with the label the rule names.  A badge is shown for exactly the verifications (by URI) of allow rules, so a shown
  badge satisfies one.  A failed lookup of the rules refuses.
\<close>

theorem chat_allowed_iff:
  assumes ok: "\<And>n. ix_Fault w n = None" and names: "streamer \<noteq> ''''" "did \<noteq> ''''"
    and fresh: "\<And>rules at. cache streamer = Some (rules, at) \<Longrightarrow> rulesCacheTTL \<le> now - at"
  shows "(fst (ChatAllowed av now streamer did cache w) \<longleftrightarrow>
      (\<forall>r\<in>rules_of streamer (ix_Rows w). ca_Action r = ChatAccessDeny \<longrightarrow> \<not> satisfies_rule av (ix_Rows w) did r) \<and>
      ((\<exists>r\<in>rules_of streamer (ix_Rows w). ca_Action r = ChatAccessAllow) \<longrightarrow>
       (\<exists>r\<in>rules_of streamer (ix_Rows w). ca_Action r = ChatAccessAllow \<and> satisfies_rule av (ix_Rows w) did r))) \<and>
    vf_URI ` set (fst (VerificationState av now streamer did cache w)) =
      {vf_URI v |v r. v \<in> set (verification_rows (ix_Rows w)) \<and> vf_SubjectDID v = did \<and> still_current av did v \<and>
         r \<in> rules_of streamer (ix_Rows w) \<and> ca_Action r = ChatAccessAllow \<and> ruleMatches r [v]} \<and>
    (\<forall>e cache' w' w1. rulesFor now streamer cache w' = (Inl e, cache', w1) \<longrightarrow> \<not> fst (ChatAllowed av now streamer did cache w'))"
proof -
  define w1 where "w1 = w\<lparr>ix_Calls := ix_Calls w + 1\<rparr>"
  obtain rs cache' where rs: "rulesFor now streamer cache w = (Inr rs, cache', w1)"
    "set rs = rules_of streamer (ix_Rows w)"
    unfolding w1_def using rulesFor_ok [where w = w and cache = cache and now = now, OF ok names(1)] fresh by metis
  have ok1: "\<And>n. ix_Fault w1 n = None" and rows: "ix_Rows w1 = ix_Rows w" using ok by (simp_all add: w1_def)
  define allows where "allows = filter (\<lambda>r. ca_Action r = ChatAccessAllow) rs"
  have shown: "vf_URI ` set (fst (VerificationState av now streamer did cache w)) =
      {vf_URI v |v r. v \<in> set (verification_rows (ix_Rows w)) \<and> vf_SubjectDID v = did \<and> still_current av did v \<and>
         r \<in> set allows \<and> ruleMatches r [v]}"
  proof (cases "allows = []")
    case False
    note u = verificationsUnder_ok [OF ok1 names(2) False, of av]
    let ?vs = "fst (verificationsUnder av allows did w1)"
    have "fst (VerificationState av now streamer did cache w) = shown_from [] (List.product allows ?vs)"
      using False by (simp add: VerificationState_def rs(1) u allows_def [symmetric] Let_def)
    then have "vf_URI ` set (fst (VerificationState av now streamer did cache w)) =
        vf_URI ` {v. \<exists>r. (r, v) \<in> set (List.product allows ?vs) \<and> ruleMatches r [v]}"
      using shown_from_set [of "[]" "List.product allows ?vs"] by simp
    also have "{v. \<exists>r. (r, v) \<in> set (List.product allows ?vs) \<and> ruleMatches r [v]} =
        {v. v \<in> set (verification_rows (ix_Rows w)) \<and> vf_SubjectDID v = did \<and> still_current av did v \<and>
            (\<exists>r\<in>set allows. ruleMatches r [v])}"
      by (auto simp: u rows dest: ruleMatches_issuer)
    finally show ?thesis by blast
  qed (simp add: VerificationState_def rs(1) allows_def [symmetric] Let_def)
  have "set allows = {r \<in> rules_of streamer (ix_Rows w). ca_Action r = ChatAccessAllow}" by (auto simp: allows_def rs(2))
  then have urls: "vf_URI ` set (fst (VerificationState av now streamer did cache w)) =
      {vf_URI v |v r. v \<in> set (verification_rows (ix_Rows w)) \<and> vf_SubjectDID v = did \<and> still_current av did v \<and>
         r \<in> rules_of streamer (ix_Rows w) \<and> ca_Action r = ChatAccessAllow \<and> ruleMatches r [v]}"
    unfolding shown by (simp add: conj_assoc)
  have refused: "\<forall>e cache' w' w1. rulesFor now streamer cache w' = (Inl e, cache', w1) \<longrightarrow> \<not> fst (ChatAllowed av now streamer did cache w')"
    by (simp add: ChatAllowed_def)
  have "fst (ChatAllowed av now streamer did cache w) \<longleftrightarrow> admitted_by_rules av streamer did (ix_Rows w)"
    by (rule ChatAllowed_rules [OF ok names fresh])
  with urls refused show ?thesis unfolding admitted_by_rules_def by (intro conjI) assumption+
qed

text \<open>A streamer with one allow rule for a label, an account that has it (as the mirror stores it) and one that has not.\<close>

definition access_demo :: "(nat \<Rightarrow> go_error option) \<Rightarrow> string \<Rightarrow> unit index" where
  "access_demo fault action =
     \<lparr>ix_Rows =
        [AccessRow \<lparr>ca_URI = ''at://did:s/r/1'', ca_CID = ''c'', ca_RepoDID = ''did:s'', ca_Action = action,
           ca_SubjectType = SubjectLabel, ca_SubjectDID = ''did:l'', ca_LabelValue = ''ver*'', ca_CreatedAt = 1\<rparr>,
         VerificationRow \<lparr>vf_URI = labelVerificationURI ''did:l'' ''did:a'' ''verified'', vf_CID = '''', vf_IssuerDID = ''did:l'',
           vf_SubjectDID = ''did:a'', vf_Handle = '''', vf_DisplayName = '''', vf_CreatedAt = 2\<rparr>],
      ix_Saved = [], ix_Calls = 0, ix_Fault = fault, ix_Rest = ()\<rparr>"

definition nobody :: account_view where
  "nobody = \<lparr>av_handle = (\<lambda>_. ''''), av_displayName = (\<lambda>_. ''''), av_equalFold = (=)\<rparr>"

theorem chat_allowed_iff_witness:
  "fst (ChatAllowed nobody 5 ''did:s'' ''did:a'' Map.empty (access_demo (\<lambda>_. None) ChatAccessAllow)) \<and>
   (\<exists>r\<in>rules_of ''did:s'' (ix_Rows (access_demo (\<lambda>_. None) ChatAccessAllow)).
      ca_Action r = ChatAccessAllow \<and> satisfies_rule nobody (ix_Rows (access_demo (\<lambda>_. None) ChatAccessAllow)) ''did:a'' r)"
proof -
  let ?w = "access_demo (\<lambda>_. None) ChatAccessAllow"
  have m: "fst (ChatAllowed nobody 5 ''did:s'' ''did:a'' Map.empty ?w)" by code_simp
  have a: "\<exists>r\<in>rules_of ''did:s'' (ix_Rows ?w). ca_Action r = ChatAccessAllow"
    by (simp add: access_demo_def rules_of_def access_rules_def map_filter_simps)
  have "\<And>n. ix_Fault ?w n = None" by (simp add: access_demo_def)
  from chat_allowed_iff [OF this, of "''did:s''" "''did:a''" Map.empty 5 nobody] m a show ?thesis by auto
qed

text \<open>
  Where a lookup fails open.  The error of the lookup of verifications is read as having none, so a chat that is only
  guarded by deny rules admits a denied account.
\<close>

lemma deny_rules_fail_open:
  "let failing = (\<lambda>n. if n = 1 then Some (Sentinel ''database is locked'') else None) in
   \<not> fst (ChatAllowed nobody 5 ''did:s'' ''did:a'' Map.empty (access_demo (\<lambda>_. None) ChatAccessDeny)) \<and>
   fst (ChatAllowed nobody 5 ''did:s'' ''did:a'' Map.empty (access_demo failing ChatAccessDeny))"
  by code_simp

end
