(* ===== verification/RecordHandlers.thy ===== *)
theory RecordHandlers
  imports ChatAccess
begin

text \<open>
  Indexing one record (\<open>handleCreateUpdate\<close> of \<open>atproto/sync.go\<close>): a handler for each type of record, over the tables of
  \<open>RecordIndex\<close> and what is announced outside them.  Decoding, the syntax of identifiers and times, the views that are
  published and the repositories behind \<open>SyncBlueskyRepoCached\<close> are parameters; what is published in a goroutine is
  published here in the order of the code.  The statements of the index and of the state database are numbered together.
\<close>

section \<open>Records\<close>

datatype post_embed = NoEmbed | EmbedNotMap | EmbedNoURL | EmbedURL string

text \<open>The decoded record, with the fields the handlers read.  \<open>reply_ref\<close> is parent URI, parent CID and root URI.\<close>

type_synonym reply_ref = "string \<times> string \<times> string"

record livestream_record =
  lr_CreatedAt :: string
  lr_Post :: "(string \<times> string) option"
  lr_Ended :: bool
  lr_LastSeenAt :: "string option"
  lr_IdleTimeoutSeconds :: "int option"

record pin_record =
  pr_PinnedMessage :: string
  pr_CreatedAt :: string
  pr_PinnedBy :: "string option"
  pr_ExpiresAt :: "string option"

record teleport_record =
  tr_StartsAt :: string
  tr_Duration :: "int option"
  tr_Streamer :: string

datatype any_record =
    GraphFollow string string | GraphBlock string | GraphVerification string string string string | ActorProfile bool
  | ChatMessageRec string string "reply_ref option" "string list" | ChatGateRec string | ChatPinnedRec pin_record
  | ChatProfileRec | ServerSettingsRec | FeedPostRec string post_embed "string option"
  | LivestreamRec livestream_record | LiveTeleportRec teleport_record | KeyRec string string | BroadcastOriginRec string string
  | MetadataConfigurationRec | ChatAccessRec access_record | ModerationPermissionRec string
  | LiveViewerCountRec string string int | LiveRecommendationsRec "string list" string
  | BadgeDefRec string | BadgeIssuanceRec string string | VideoRec | MediaTrackRec "string option" | MediaOriginRec string
  | BetaInviteRec string string | BetaRequestRec string | MediaViewCountRec string
  | VodCommentRec string "reply_ref option" "string list" | LikeRec string | VodGateRec string | OtherRec

datatype decoding = Unrecognized | Undecodable go_error | Decoded any_record

record delivery =
  dl_userDID :: string
  dl_rkey :: string
  dl_cbor :: bytes
  dl_cid :: string
  dl_collection :: string
  dl_isUpdate :: bool
  dl_isFirstSync :: bool
  dl_repoRev :: string

section \<open>The world outside the tables\<close>

datatype 'v bus_item =
    RowView 'v | TeleportStart string string string | TeleportArrival string string int | OriginView string string string
  | PermissionView string string string string

record ('v, 'x) outside =
  out_cache :: rules_cache
  out_bus :: "(string \<times> 'v bus_item) list"
  out_tasks :: "(string \<times> string) list"
  out_timers :: "(string \<times> duration) list"
  out_notified :: "(string \<times> string) list"
  out_counts :: "string \<times> string \<rightharpoonup> int"
  out_spawned :: "string list"
  out_other :: 'x

type_synonym ('v, 'x) hworld = "('v, 'x) outside index"

definition outside_upd :: "(('v, 'x) outside \<Rightarrow> ('v, 'x) outside) \<Rightarrow> ('v, 'x) hworld \<Rightarrow> ('v, 'x) hworld" where
  "outside_upd f w = w\<lparr>ix_Rest := f (ix_Rest w)\<rparr>"

definition publish :: "string \<Rightarrow> 'v bus_item \<Rightarrow> ('v, 'x) hworld \<Rightarrow> ('v, 'x) hworld" where
  "publish key m = outside_upd (\<lambda>s. s\<lparr>out_bus := out_bus s @ [(key, m)]\<rparr>)"

text \<open>\<open>EnqueueTask\<close> with a task key: a key that is there already is no new task.\<close>

definition enqueue :: "string \<Rightarrow> string \<Rightarrow> ('v, 'x) hworld \<Rightarrow> go_error option \<times> ('v, 'x) hworld" where
  "enqueue kind key w =
     (case db_call w of
        (Some e, w1) \<Rightarrow> (Some e, w1)
      | (None, w1) \<Rightarrow>
          (None, outside_upd (\<lambda>s. if (kind, key) \<in> set (out_tasks s) then s else s\<lparr>out_tasks := out_tasks s @ [(kind, key)]\<rparr>) w1))"

record ('v, 'x) handler_env =
  he_parseATURI :: "string \<Rightarrow> go_error option"
  he_atdata :: "bytes \<Rightarrow> go_error option"
  he_decode :: "bytes \<Rightarrow> decoding"
  he_time :: "string \<Rightarrow> go_error + time"
  he_rfc3339 :: "string \<Rightarrow> go_error + time"
  he_lower :: "string \<Rightarrow> string"
  he_trim :: "string \<Rightarrow> string"
  he_iso :: "time \<Rightarrow> string"
  he_asDID :: "string \<Rightarrow> go_error + string"
  he_authority :: "string \<Rightarrow> go_error + string"
  he_cidOf :: "any_record \<Rightarrow> go_error + string"
  he_getRepo :: "string \<Rightarrow> 'x \<Rightarrow> string option"
  he_sync :: "string \<Rightarrow> ('v, 'x) hworld \<Rightarrow> (go_error + string) \<times> ('v, 'x) hworld"
  he_view :: "indexed_row \<Rightarrow> 'x \<Rightarrow> go_error + 'v"
  he_pinView :: "indexed_row \<Rightarrow> ChatMessage option \<Rightarrow> bytes option \<Rightarrow> 'x \<Rightarrow> go_error + 'v"
  he_noView :: 'v
  he_decorate :: "string \<Rightarrow> ('v, 'x) hworld \<Rightarrow> 'v \<Rightarrow> 'v"
  he_account :: "('v, 'x) hworld \<Rightarrow> account_view"
  he_streamAllowed :: "string \<Rightarrow> bool"
  he_autoPublish :: "bytes \<Rightarrow> go_error + bool"
  he_viewerBanned :: "string \<Rightarrow> ('v, 'x) hworld \<Rightarrow> go_error + bool"
  he_viewerCount :: "string \<Rightarrow> 'x \<Rightarrow> int"
  he_serverDID :: string
  he_broadcasterHost :: string
  he_inviteDID :: string

section \<open>Sequencing\<close>

text \<open>A call whose error is wrapped and returned.\<close>

definition on_ok ::
  "(go_error + 'a) \<times> 'w \<Rightarrow> string \<Rightarrow> ('a \<Rightarrow> 'w \<Rightarrow> go_error option \<times> 'w) \<Rightarrow> go_error option \<times> 'w" where
  "on_ok rw msg k = (case rw of (Inl e, w) \<Rightarrow> (Some (WrapErr msg [e]), w) | (Inr a, w) \<Rightarrow> k a w)"

text \<open>A write after which a redelivery stops and an error is wrapped and returned.\<close>

definition if_new :: "go_error option \<times> 'w \<Rightarrow> string \<Rightarrow> ('w \<Rightarrow> go_error option \<times> 'w) \<Rightarrow> go_error option \<times> 'w" where
  "if_new rw msg k =
     (case rw of
        (None, w) \<Rightarrow> k w
      | (Some e, w) \<Rightarrow> if errors_Is e ErrAlreadyIndexed then (None, w) else (Some (WrapErr msg [e]), w))"

text \<open>A write whose error is only logged, and one whose error is returned.\<close>

definition logged :: "go_error option \<times> 'w \<Rightarrow> go_error option \<times> 'w" where
  "logged rw = (None, snd rw)"

definition wrapped :: "go_error option \<times> 'w \<Rightarrow> string \<Rightarrow> go_error option \<times> 'w" where
  "wrapped rw msg = (map_option (\<lambda>e. WrapErr msg [e]) (fst rw), snd rw)"

definition record_uri :: "delivery \<Rightarrow> string" where
  "record_uri dl = ''at://'' @ dl_userDID dl @ ''/'' @ dl_collection dl @ ''/'' @ dl_rkey dl"

definition view_of :: "('v, 'x) handler_env \<Rightarrow> indexed_row option \<Rightarrow> ('v, 'x) hworld \<Rightarrow> go_error + 'v" where
  "view_of env r w = (case r of None \<Rightarrow> Inl (Sentinel ''row is nil'') | Some row \<Rightarrow> he_view env row (out_other (ix_Rest w)))"


section \<open>Accounts\<close>

text \<open>\<open>known\<close> says whether \<open>GetRepo\<close> found a row for the author.\<close>

definition h_follow :: "('v, 'x) handler_env \<Rightarrow> bool \<Rightarrow> delivery \<Rightarrow> string \<Rightarrow> string \<Rightarrow> ('v, 'x) hworld \<Rightarrow> go_error option \<times> ('v, 'x) hworld" where
  "h_follow env known dl subject createdAt w =
     (if \<not> known then (None, w)
      else (case he_time env createdAt of
              Inl e \<Rightarrow> (None, w)
            | Inr t \<Rightarrow> logged (Save (FollowRow (dl_userDID dl) subject (dl_rkey dl) t) w)))"

definition h_block :: "('v, 'x) handler_env \<Rightarrow> bool \<Rightarrow> delivery \<Rightarrow> string \<Rightarrow> ('v, 'x) hworld \<Rightarrow> go_error option \<times> ('v, 'x) hworld" where
  "h_block env known dl subject w =
     (if \<not> known then (None, w)
      else
        if_new (createOrVerify (BlockRow \<lparr>bl_RKey = dl_rkey dl, bl_CID = dl_cid dl, bl_RepoDID = dl_userDID dl, bl_SubjectDID = subject\<rparr>) w)
          ''failed to create block'' (\<lambda>w1.
        on_ok (GetBlock (dl_rkey dl) w1) ''failed to get block after we just saved it?!'' (\<lambda>b w2.
        if b = None then (Some (Sentinel ''failed to get block after we just saved it?!''), w2)
        else (case view_of env b w2 of
                Inl e \<Rightarrow> (Some (WrapErr ''failed to convert block to streamplace block'' [e]), w2)
              | Inr v \<Rightarrow> (None, publish (dl_userDID dl) (RowView v) w2)))))"

definition h_verification ::
  "('v, 'x) handler_env \<Rightarrow> delivery \<Rightarrow> string \<Rightarrow> string \<Rightarrow> string \<Rightarrow> string \<Rightarrow> ('v, 'x) hworld \<Rightarrow> go_error option \<times> ('v, 'x) hworld" where
  "h_verification env dl subject handle displayName createdAt w =
     if_new (createOrVerify (VerificationRow \<lparr>vf_URI = record_uri dl, vf_CID = dl_cid dl, vf_IssuerDID = dl_userDID dl,
          vf_SubjectDID = subject, vf_Handle = handle, vf_DisplayName = displayName,
          vf_CreatedAt = (case he_time env createdAt of Inr t \<Rightarrow> t | Inl _ \<Rightarrow> zeroTime)\<rparr>) w)
       ''failed to create verification'' (\<lambda>w1. (None, w1))"

definition h_profile :: "bool \<Rightarrow> delivery \<Rightarrow> bool \<Rightarrow> ('v, 'x) hworld \<Rightarrow> go_error option \<times> ('v, 'x) hworld" where
  "h_profile known dl wasStreamplace w =
     (if \<not> known then (None, w)
      else wrapped (Save (ProfileRow (record_uri dl) wasStreamplace (dl_cbor dl)) w) ''failed to upsert bsky profile'')"

definition h_key :: "('v, 'x) handler_env \<Rightarrow> delivery \<Rightarrow> string \<Rightarrow> string \<Rightarrow> ('v, 'x) hworld \<Rightarrow> go_error option \<times> ('v, 'x) hworld" where
  "h_key env dl signingKey createdAt w =
     (case he_time env createdAt of
        Inl e \<Rightarrow> (Some (WrapErr ''failed to parse createdAt'' [e]), w)
      | Inr t \<Rightarrow> logged (Save (SigningKeyRow signingKey (dl_userDID dl) (dl_rkey dl) t) w))"

section \<open>Chat\<close>

definition chatLiveWindow :: duration where "chatLiveWindow = 2 * minute"

text \<open>A link whose lower-case form begins with \<open>javascript:\<close>.\<close>

definition script_link :: "('v, 'x) handler_env \<Rightarrow> string list \<Rightarrow> bool" where
  "script_link env links = list_ex (\<lambda>l. l \<noteq> '''' \<and> take 11 (he_lower env l) = ''javascript:'') links"

text \<open>The position in chat order: the author's stamp, trusted backwards only.\<close>

definition chat_time :: "('v, 'x) handler_env \<Rightarrow> time \<Rightarrow> string \<Rightarrow> time" where
  "chat_time env now createdAt = (case he_time env createdAt of Inr t \<Rightarrow> if t < now then t else now | Inl _ \<Rightarrow> now)"

definition still_live :: "('v, 'x) handler_env \<Rightarrow> time \<Rightarrow> string \<Rightarrow> bool" where
  "still_live env now createdAt = (case he_time env createdAt of Inl _ \<Rightarrow> False | Inr t \<Rightarrow> \<not> now - t > chatLiveWindow)"

definition reply_cid :: "reply_ref option \<Rightarrow> string option" where
  "reply_cid r = (case r of Some (parent, cid, root) \<Rightarrow> if parent \<noteq> '''' \<and> root \<noteq> '''' then Some cid else None | None \<Rightarrow> None)"

definition chat_row :: "('v, 'x) handler_env \<Rightarrow> time \<Rightarrow> delivery \<Rightarrow> string \<Rightarrow> string \<Rightarrow> reply_ref option \<Rightarrow> ChatMessage" where
  "chat_row env now dl streamer createdAt reply =
     \<lparr>cm_CID = dl_cid dl, cm_URI = record_uri dl, cm_CreatedAt = chat_time env now createdAt, cm_RepoDID = dl_userDID dl,
      cm_StreamerRepoDID = streamer, cm_ReplyToCID = reply_cid reply, cm_IndexedAt = now, cm_DeletedAt = None,
      cm_Record = dl_cbor dl\<rparr>"

text \<open>What follows the insert: the broadcast of a message that is live, and the task that notifies.\<close>

definition chat_broadcast ::
  "('v, 'x) handler_env \<Rightarrow> time \<Rightarrow> delivery \<Rightarrow> string \<Rightarrow> string \<Rightarrow> ('v, 'x) hworld \<Rightarrow> go_error option \<times> ('v, 'x) hworld" where
  "chat_broadcast env now dl streamer createdAt w =
     (if \<not> still_live env now createdAt then (None, w)
      else
        (case GetChatMessage (record_uri dl) w of
           (Inl e, w1) \<Rightarrow> (None, w1)
         | (Inr None, w1) \<Rightarrow> (None, w1)
         | (Inr (Some m), w1) \<Rightarrow>
             (case view_of env (Some (ChatRow m)) w1 of
                Inl e \<Rightarrow> (None, w1)
              | Inr v \<Rightarrow>
                  (case ChatAllowed (he_account env w1) now streamer (cm_RepoDID m) (out_cache (ix_Rest w1)) w1 of
                     (allowed, cache, w2) \<Rightarrow>
                       (let w3 = outside_upd (\<lambda>s. s\<lparr>out_cache := cache\<rparr>) w2 in
                        if \<not> allowed then (None, w3)
                        else
                          (let w4 = publish streamer (RowView (he_decorate env streamer w1 v)) w3 in
                           if dl_isUpdate dl then (None, w4)
                           else logged (enqueue ''chat'' (''chat-message::'' @ record_uri dl) w4)))))))"

definition h_chat ::
  "('v, 'x) handler_env \<Rightarrow> time \<Rightarrow> delivery \<Rightarrow> string \<Rightarrow> string \<Rightarrow> reply_ref option \<Rightarrow> string list \<Rightarrow> ('v, 'x) hworld \<Rightarrow>
   go_error option \<times> ('v, 'x) hworld" where
  "h_chat env now dl streamer createdAt reply links w =
     on_ok (he_sync env (dl_userDID dl) w) ''failed to sync bluesky repo'' (\<lambda>_ w0.
     let w1 = outside_upd (\<lambda>s. s\<lparr>out_spawned := out_spawned s @ [streamer]\<rparr>) w0 in
     on_ok (GetUserBlock streamer (dl_userDID dl) w1) ''failed to get user block'' (\<lambda>blocked w2.
     if blocked then (None, w2)
     else if script_link env links then (None, w2)
     else
       (case createOrVerify (ChatRow (chat_row env now dl streamer createdAt reply)) w2 of
          (Some e, w3) \<Rightarrow> (None, w3)
        | (None, w3) \<Rightarrow> chat_broadcast env now dl streamer createdAt w3)))"

definition h_gate :: "('v, 'x) handler_env \<Rightarrow> time \<Rightarrow> bool \<Rightarrow> delivery \<Rightarrow> string \<Rightarrow> ('v, 'x) hworld \<Rightarrow> go_error option \<times> ('v, 'x) hworld" where
  "h_gate env now known dl hidden w =
     on_ok (he_sync env (dl_userDID dl) w) ''failed to sync bluesky repo'' (\<lambda>_ w1.
     if \<not> known then (None, w1)
     else
       if_new (createOrVerify (GateRow \<lparr>gt_RKey = dl_rkey dl, gt_CID = dl_cid dl, gt_RepoDID = dl_userDID dl, gt_Hidden = hidden,
            gt_CreatedAt = now\<rparr>) w1)
         ''failed to create gate'' (\<lambda>w2.
       on_ok (GetGate (dl_rkey dl) w2) ''failed to get gate after we just saved it?!'' (\<lambda>g w3.
       case view_of env g w3 of
         Inl e \<Rightarrow> (Some (WrapErr ''failed to convert gate to streamplace gate'' [e]), w3)
       | Inr v \<Rightarrow> (None, publish (dl_userDID dl) (RowView v) w3))))"

definition get_chat_profile :: "string \<Rightarrow> ('v, 'x) hworld \<Rightarrow> (go_error + bytes option) \<times> ('v, 'x) hworld" where
  "get_chat_profile did =
     db_read (\<lambda>w. case List.map_filter (\<lambda>r. case r of ChatProfileRow d rec \<Rightarrow> if d = did then Some rec else None | _ \<Rightarrow> None) (ix_Saved w) of
        [] \<Rightarrow> None | rec # _ \<Rightarrow> Some rec)"

definition h_pin ::
  "('v, 'x) handler_env \<Rightarrow> bool \<Rightarrow> delivery \<Rightarrow> pin_record \<Rightarrow> ('v, 'x) hworld \<Rightarrow> go_error option \<times> ('v, 'x) hworld" where
  "h_pin env known dl rec w =
     on_ok (he_sync env (dl_userDID dl) w) ''failed to sync bluesky repo'' (\<lambda>_ w1.
     if \<not> known then (None, w1)
     else
       (case he_rfc3339 env (pr_CreatedAt rec) of
          Inl e \<Rightarrow> (Some (WrapErr ''failed to parse createdAt'' [e]), w1)
        | Inr createdAt \<Rightarrow>
            (let pinnedBy = (case pr_PinnedBy rec of None \<Rightarrow> dl_userDID dl | Some d \<Rightarrow> d);
                 expiresAt = (case pr_ExpiresAt rec of
                                None \<Rightarrow> None
                              | Some s \<Rightarrow> (case he_rfc3339 env s of Inr t \<Rightarrow> Some t | Inl _ \<Rightarrow> None)) in
             if_new (createOrVerify (PinRow \<lparr>pn_Uri = record_uri dl, pn_CID = dl_cid dl, pn_RepoDID = dl_userDID dl,
                  pn_PinnedMessage = pr_PinnedMessage rec, pn_PinnedBy = pinnedBy, pn_ExpiresAt = expiresAt,
                  pn_CreatedAt = createdAt\<rparr>) w1)
               ''failed to create pinned record'' (\<lambda>w2.
             on_ok (GetPinnedRecord (record_uri dl) w2) ''failed to get pinned record after we just saved it'' (\<lambda>pin w3.
             case pin of
               None \<Rightarrow> (Some (Sentinel ''pin is nil''), w3)
             | Some row \<Rightarrow>
                 on_ok (GetChatMessage (pr_PinnedMessage rec) w3) ''failed to get chat message'' (\<lambda>msg w4.
                 on_ok (get_chat_profile pinnedBy w4) ''failed to get chat profile'' (\<lambda>profile w5.
                 case he_pinView env row msg profile (out_other (ix_Rest w5)) of
                   Inl e \<Rightarrow> (Some (WrapErr ''failed to convert'' [e]), w5)
                 | Inr v \<Rightarrow> (None, publish (dl_userDID dl) (RowView v) w5))))))))"

definition h_chat_profile :: "('v, 'x) handler_env \<Rightarrow> delivery \<Rightarrow> ('v, 'x) hworld \<Rightarrow> go_error option \<times> ('v, 'x) hworld" where
  "h_chat_profile env dl w =
     on_ok (he_sync env (dl_userDID dl) w) ''failed to sync bluesky repo'' (\<lambda>_ w1.
       logged (Save (ChatProfileRow (dl_userDID dl) (dl_cbor dl)) w1))"

definition h_settings :: "('v, 'x) handler_env \<Rightarrow> delivery \<Rightarrow> ('v, 'x) hworld \<Rightarrow> go_error option \<times> ('v, 'x) hworld" where
  "h_settings env dl w =
     on_ok (he_sync env (dl_userDID dl) w) ''failed to sync bluesky repo'' (\<lambda>_ w1.
       logged (Save (SettingsRow (dl_rkey dl) (dl_userDID dl) (dl_cbor dl)) w1))"

definition h_access :: "('v, 'x) handler_env \<Rightarrow> time \<Rightarrow> delivery \<Rightarrow> access_record \<Rightarrow> ('v, 'x) hworld \<Rightarrow> go_error option \<times> ('v, 'x) hworld" where
  "h_access env now dl rec w =
     on_ok (he_sync env (dl_userDID dl) w) ''failed to sync bluesky repo'' (\<lambda>_ w1.
     case ChatAccessRuleFromRecord (he_trim env) (he_cidOf env (ChatAccessRec rec)) (he_rfc3339 env) now (record_uri dl)
            (he_asDID env (dl_userDID dl)) rec of
       Inl e \<Rightarrow>
         if errors_Is e ErrChatAccessSubjectUnknown then (None, w1)
         else (Some (WrapErr ''invalid chat access rule'' [e]), w1)
     | Inr row \<Rightarrow>
         if_new (createOrVerify (AccessRow row) w1) ''failed to index chat access rule'' (\<lambda>w2.
           (None, outside_upd (\<lambda>s. s\<lparr>out_cache := NoteChatAccessRule (ca_RepoDID row) (out_cache s)\<rparr>) w2)))"

definition h_permission :: "('v, 'x) handler_env \<Rightarrow> delivery \<Rightarrow> string \<Rightarrow> ('v, 'x) hworld \<Rightarrow> go_error option \<times> ('v, 'x) hworld" where
  "h_permission env dl moderator w =
     on_ok (he_sync env (dl_userDID dl) w) ''failed to sync bluesky repo'' (\<lambda>handle w1.
     if_new
       (case he_asDID env (dl_userDID dl) of
          Inl e \<Rightarrow> (Some (WrapErr ''invalid ATURI authority'' [e]), w1)
        | Inr repo \<Rightarrow>
            (case he_cidOf env (ModerationPermissionRec moderator) of
               Inl e \<Rightarrow> (Some (WrapErr ''failed to get CID'' [e]), w1)
             | Inr cid \<Rightarrow>
                 createOrVerify (DelegationRow \<lparr>md_IndexKey = repo @ ''/'' @ dl_rkey dl, md_CID = cid, md_RKey = dl_rkey dl,
                   md_RepoDID = repo, md_ModeratorDID = moderator\<rparr>) w1))
       ''failed to create moderation delegation'' (\<lambda>w2.
     (None, publish (dl_userDID dl) (PermissionView (record_uri dl) (dl_cid dl) handle (dl_repoRev dl)) w2)))"


section \<open>Posts and livestreams\<close>

definition h_post ::
  "('v, 'x) handler_env \<Rightarrow> delivery \<Rightarrow> string \<Rightarrow> post_embed \<Rightarrow> string option \<Rightarrow> ('v, 'x) hworld \<Rightarrow> go_error option \<times> ('v, 'x) hworld" where
  "h_post env dl createdAt emb replyRoot w =
     (case he_rfc3339 env createdAt of
        Inl e \<Rightarrow> (Some (WrapErr ''failed to parse createdAt'' [e]), w)
      | Inr created \<Rightarrow>
          (let row = (\<lambda>typ root. PostRow \<lparr>fp_URI = record_uri dl, fp_CID = dl_cid dl, fp_CreatedAt = created,
                        fp_RepoDID = dl_userDID dl, fp_Type = typ, fp_ReplyRoot = root\<rparr>) in
           if emb \<noteq> NoEmbed then
             on_ok (he_sync env (dl_userDID dl) w) ''failed to sync bluesky repo'' (\<lambda>_ w1.
             case emb of
               EmbedURL url \<Rightarrow>
                 if_new (createOrVerify (row ''livestream'' None) w1) ''failed to create bluesky post'' (\<lambda>w2. (None, w2))
             | EmbedNoURL \<Rightarrow> (Some (Sentinel ''livestream url is not a string''), w1)
             | _ \<Rightarrow> (Some (Sentinel ''livestream is not a map''), w1))
           else
             (case replyRoot of
                None \<Rightarrow> (None, w)
              | Some root \<Rightarrow>
                  if root = '''' then (None, w)
                  else
                    on_ok (GetLivestreamByPostURI root w) ''failed to get livestream'' (\<lambda>l w1.
                    case l of
                      None \<Rightarrow> (None, w1)
                    | Some ls \<Rightarrow>
                        on_ok (he_sync env (dl_userDID dl) w1) ''failed to sync bluesky repo'' (\<lambda>_ w2.
                        on_ok (GetUserBlock (lv_RepoDID ls) (dl_userDID dl) w2) ''failed to get user block'' (\<lambda>blocked w3.
                        if blocked then (None, w3)
                        else
                          (let post = row ''reply'' (Some (snd (lv_Post ls), lv_RepoDID ls)) in
                           case createOrVerify post w3 of
                             (r, w4) \<Rightarrow>
                               if case r of Some e \<Rightarrow> errors_Is e ErrAlreadyIndexed | None \<Rightarrow> False then (None, w4)
                               else
                                 (let v = (case view_of env (Some post) w4 of Inl e \<Rightarrow> he_noView env | Inr v \<Rightarrow> v) in
                                  (None, publish (lv_RepoDID ls) (RowView (he_decorate env '''' w4 v)) w4)))))))))"

text \<open>\<open>ScheduleAutoPublishVOD\<close>: the streamer's settings for this node, then the task, under the key of its first pass.\<close>

definition settings_publish :: "('v, 'x) handler_env \<Rightarrow> string \<Rightarrow> ('v, 'x) hworld \<Rightarrow> (go_error + bool) \<times> ('v, 'x) hworld" where
  "settings_publish env repo w =
     (case db_read (\<lambda>w. find (\<lambda>r. saved_key r = (''server_settings'', [he_broadcasterHost env, repo])) (ix_Saved w)) w of
        (Inl e, w1) \<Rightarrow> (Inl (WrapErr ''get server settings'' [e]), w1)
      | (Inr (Some (SettingsRow server did rec)), w1) \<Rightarrow>
          (case he_autoPublish env rec of
             Inl e \<Rightarrow> (Inl (WrapErr ''decode server settings'' [e]), w1)
           | Inr on \<Rightarrow> (Inr on, w1))
      | (Inr _, w1) \<Rightarrow> (Inr False, w1))"

definition schedule_publishing ::
  "('v, 'x) handler_env \<Rightarrow> string \<Rightarrow> string \<Rightarrow> ('v, 'x) hworld \<Rightarrow> go_error option \<times> ('v, 'x) hworld" where
  "schedule_publishing env repo uri w =
     (case settings_publish env repo w of
        (Inl e, w1) \<Rightarrow> (Some e, w1)
      | (Inr on, w1) \<Rightarrow> if \<not> on then (None, w1) else enqueue ''auto-publish-vod'' (''auto-publish-vod::'' @ uri @ ''::0'') w1)"

text \<open>Whether this version is the node seeing the livestream end.\<close>

definition seen_ending ::
  "('v, 'x) handler_env \<Rightarrow> delivery \<Rightarrow> livestream_record \<Rightarrow> ('v, 'x) hworld \<Rightarrow> (go_error + bool) \<times> ('v, 'x) hworld" where
  "seen_ending env dl rec w =
     (if lr_Ended rec \<and> \<not> dl_isFirstSync dl then
        (case GetLivestream (record_uri dl) w of
           (Inl e, w1) \<Rightarrow> (Inl (WrapErr ''failed to get livestream'' [e]), w1)
         | (Inr None, w1) \<Rightarrow> (Inr True, w1)
         | (Inr (Some prev), w1) \<Rightarrow>
             (case view_of env (Some (LivestreamRow prev)) w1 of
                Inl e \<Rightarrow> (Inl (WrapErr ''failed to decode indexed livestream'' [e]), w1)
              | Inr v \<Rightarrow> (Inr (\<not> lv_Ended prev), w1)))
      else (Inr False, w))"

definition finalize_at :: "time \<Rightarrow> int \<Rightarrow> time" where
  "finalize_at lastSeen idle = lastSeen + wrap64 (wrap64 (idle * second) + 10 * second)"

text \<open>What follows the announcement: the publishing of the recording, or the check that ends a silent livestream.\<close>

definition livestream_tasks ::
  "('v, 'x) handler_env \<Rightarrow> delivery \<Rightarrow> livestream_record \<Rightarrow> bool \<Rightarrow> ('v, 'x) hworld \<Rightarrow> go_error option \<times> ('v, 'x) hworld" where
  "livestream_tasks env dl rec seen w =
     (if dl_isFirstSync dl then (None, w)
      else if \<not> he_streamAllowed env (dl_userDID dl) then (None, w)
      else if seen then wrapped (schedule_publishing env (dl_userDID dl) (record_uri dl) w) ''failed to schedule automatic VOD publishing''
      else
        (case (lr_LastSeenAt rec, lr_IdleTimeoutSeconds rec) of
           (Some lastSeen, Some idle) \<Rightarrow>
             if idle = 0 \<or> lr_Ended rec then (None, w)
             else
               (case he_rfc3339 env lastSeen of
                  Inl e \<Rightarrow> (None, w)
                | Inr t \<Rightarrow>
                    wrapped (enqueue ''finalize-livestream''
                        (''finalize-livestream::'' @ record_uri dl @ ''::'' @ he_iso env (finalize_at t idle)) w)
                      ''failed to enqueue remove red circle task'')
         | _ \<Rightarrow> (None, w)))"

definition h_livestream ::
  "('v, 'x) handler_env \<Rightarrow> bool \<Rightarrow> delivery \<Rightarrow> livestream_record \<Rightarrow> ('v, 'x) hworld \<Rightarrow> go_error option \<times> ('v, 'x) hworld" where
  "h_livestream env known dl rec w =
     (if \<not> known then (None, w)
      else
        (case he_rfc3339 env (lr_CreatedAt rec) of
           Inl e \<Rightarrow> (None, w)
         | Inr created \<Rightarrow>
             (case seen_ending env dl rec w of
                (Inl e, w1) \<Rightarrow> (Some e, w1)
              | (Inr seen, w1) \<Rightarrow>
                  if_new (createOrVerify (LivestreamRow \<lparr>lv_URI = record_uri dl, lv_CID = dl_cid dl, lv_CreatedAt = created,
                       lv_RepoDID = dl_userDID dl, lv_Post = (case lr_Post rec of None \<Rightarrow> ('''', '''') | Some p \<Rightarrow> p),
                       lv_Ended = lr_Ended rec\<rparr>) w1)
                    ''failed to create livestream'' (\<lambda>w2.
                  on_ok (GetLatestLivestreamForRepo (dl_userDID dl) w2) ''failed to get latest livestream for repo'' (\<lambda>l w3.
                  case view_of env (map_option LivestreamRow l) w3 of
                    Inl e \<Rightarrow> (Some (WrapErr ''failed to convert livestream to bsky post view'' [e]), w3)
                  | Inr v \<Rightarrow>
                      livestream_tasks env dl rec seen
                        (publish (dl_userDID dl) (RowView (he_decorate env '''' w3 v)) w3))))))"

definition h_teleport ::
  "('v, 'x) handler_env \<Rightarrow> time \<Rightarrow> bool \<Rightarrow> delivery \<Rightarrow> teleport_record \<Rightarrow> ('v, 'x) hworld \<Rightarrow> go_error option \<times> ('v, 'x) hworld" where
  "h_teleport env now known dl rec w =
     (if \<not> known then (None, w)
      else
        (case he_rfc3339 env (tr_StartsAt rec) of
           Inl e \<Rightarrow> (None, w)
         | Inr startsAt \<Rightarrow>
             if_new (createOrVerify (TeleportRow \<lparr>tp_URI = record_uri dl, tp_CID = dl_cid dl, tp_StartsAt = startsAt,
                  tp_DurationSeconds = tr_Duration rec, tp_ViewerCount = he_viewerCount env (dl_userDID dl) (out_other (ix_Rest w)),
                  tp_RepoDID = dl_userDID dl, tp_TargetDID = tr_Streamer rec, tp_Denied = False\<rparr>) w)
               ''failed to create teleport'' (\<lambda>w1.
             if startsAt < now - 30 * second then (None, w1)
             else
               (let w2 = (if \<not> dl_isFirstSync dl \<or> now < startsAt
                          then publish (dl_userDID dl) (TeleportStart (record_uri dl) (dl_cid dl) (tr_Streamer rec)) w1 else w1) in
                if dl_isFirstSync dl then (None, w2)
                else (None, outside_upd (\<lambda>s. s\<lparr>out_timers := out_timers s @ [(record_uri dl, max 0 (startsAt + 10 * second - now))]\<rparr>) w2)))))"

text \<open>The timer of an arrival, when it fires.  What ends the source's livestream is a call to its server, left out.\<close>

definition teleport_arrival :: "('v, 'x) handler_env \<Rightarrow> string \<Rightarrow> string \<Rightarrow> string \<Rightarrow> ('v, 'x) hworld \<Rightarrow> ('v, 'x) hworld" where
  "teleport_arrival env uri userDID streamer w =
     (case db_read (\<lambda>w. find_row (''teleports'', uri) (ix_Rows w)) w of
        (Inr (Some (TeleportRow tp)), w1) \<Rightarrow>
          if tp_Denied tp then w1
          else
            (case db_read (\<lambda>w. he_getRepo env userDID (out_other (ix_Rest w))) w1 of
               (Inr (Some handle), w2) \<Rightarrow>
                 publish streamer (TeleportArrival uri handle (tp_ViewerCount tp)) (snd (get_chat_profile userDID w2))
             | (_, w2) \<Rightarrow> w2)
      | (_, w1) \<Rightarrow> w1)"

section \<open>Records of servers\<close>

definition h_origin :: "('v, 'x) handler_env \<Rightarrow> time \<Rightarrow> delivery \<Rightarrow> string \<Rightarrow> string \<Rightarrow> ('v, 'x) hworld \<Rightarrow> go_error option \<times> ('v, 'x) hworld" where
  "h_origin env now dl streamer server w =
     on_ok (he_sync env (dl_userDID dl) w) ''failed to sync broadcast origin creator bluesky repo'' (\<lambda>handle w1.
     on_ok (he_sync env streamer w1) ''failed to sync broadcast origin streamer bluesky repo'' (\<lambda>_ w2.
     let valid = ''at://'' @ dl_userDID dl @ ''/place.stream.broadcast.origin/'' @ streamer @ ''::'' @ server;
         w3 = (case he_cidOf env (BroadcastOriginRec streamer server) of
                 Inl e \<Rightarrow> w2
               | Inr cid \<Rightarrow> if valid \<noteq> record_uri dl then w2 else snd (Save (BroadcastOriginRow valid streamer server now) w2)) in
     (None, publish '''' (OriginView (record_uri dl) (dl_cid dl) handle) w3)))"

definition h_metadata :: "('v, 'x) handler_env \<Rightarrow> delivery \<Rightarrow> ('v, 'x) hworld \<Rightarrow> go_error option \<times> ('v, 'x) hworld" where
  "h_metadata env dl w =
     on_ok (he_sync env (dl_userDID dl) w) ''failed to sync bluesky repo'' (\<lambda>_ w1.
       logged (Save (MetadataRow (dl_userDID dl) (dl_cbor dl)) w1))"

definition h_viewer_count ::
  "('v, 'x) handler_env \<Rightarrow> string \<Rightarrow> string \<Rightarrow> int \<Rightarrow> ('v, 'x) hworld \<Rightarrow> go_error option \<times> ('v, 'x) hworld" where
  "h_viewer_count env streamer server count' w =
     (if server = he_serverDID env then (None, w)
      else if he_viewerBanned env server w = Inr True then (None, w)
      else (None, outside_upd (\<lambda>s. s\<lparr>out_counts := (out_counts s)((streamer, server) \<mapsto> count')\<rparr>) w))"

definition h_recommendations ::
  "('v, 'x) handler_env \<Rightarrow> delivery \<Rightarrow> string list \<Rightarrow> string \<Rightarrow> ('v, 'x) hworld \<Rightarrow> go_error option \<times> ('v, 'x) hworld" where
  "h_recommendations env dl streamers createdAt w =
     (if 8 < length streamers then (Some (Sentinel ''maximum 8 recommendations allowed''), w)
      else
        (case he_rfc3339 env createdAt of
           Inl e \<Rightarrow> (Some (WrapErr ''failed to parse createdAt'' [e]), w)
         | Inr t \<Rightarrow>
             wrapped (if dl_userDID dl = '''' then (Some (Sentinel ''user DID cannot be empty''), w)
                      else wrapped (Save (RecommendationRow (dl_userDID dl) streamers t) w) ''database upsert failed'')
               ''failed to upsert recommendation''))"

text \<open>The upserts keyed by URI that first read the authority of the URI and the identifier of the record.\<close>

definition upsert ::
  "('v, 'x) handler_env \<Rightarrow> delivery \<Rightarrow> any_record \<Rightarrow> (string \<Rightarrow> saved_row) \<Rightarrow> ('v, 'x) hworld \<Rightarrow> go_error option \<times> ('v, 'x) hworld" where
  "upsert env dl rec row w =
     wrapped
       (case he_asDID env (dl_userDID dl) of
          Inl e \<Rightarrow> (Some (WrapErr ''invalid ATURI authority'' [e]), w)
        | Inr repo \<Rightarrow>
            (case he_cidOf env rec of
               Inl e \<Rightarrow> (Some (WrapErr ''get CID'' [e]), w)
             | Inr cid \<Rightarrow> Save (row repo) w))
       ''failed to upsert''"

definition h_video :: "('v, 'x) handler_env \<Rightarrow> delivery \<Rightarrow> ('v, 'x) hworld \<Rightarrow> go_error option \<times> ('v, 'x) hworld" where
  "h_video env dl w =
     on_ok (he_sync env (dl_userDID dl) w) ''failed to sync bluesky repo'' (\<lambda>_ w1.
       upsert env dl VideoRec (\<lambda>repo. VideoRow (record_uri dl) repo (dl_cbor dl)) w1)"

definition h_track :: "('v, 'x) handler_env \<Rightarrow> delivery \<Rightarrow> string option \<Rightarrow> ('v, 'x) hworld \<Rightarrow> go_error option \<times> ('v, 'x) hworld" where
  "h_track env dl muxl w =
     (case muxl of
        None \<Rightarrow> (None, w)
      | Some blob \<Rightarrow> upsert env dl (MediaTrackRec muxl) (\<lambda>repo. TrackRow (record_uri dl) repo blob) w)"

definition h_invite :: "('v, 'x) handler_env \<Rightarrow> delivery \<Rightarrow> string \<Rightarrow> string \<Rightarrow> ('v, 'x) hworld \<Rightarrow> go_error option \<times> ('v, 'x) hworld" where
  "h_invite env dl did feature w =
     (case upsert env dl (BetaInviteRec did feature) (\<lambda>repo. InviteRow (record_uri dl) repo did feature) w of
        (Some e, w1) \<Rightarrow> (Some e, w1)
      | (None, w1) \<Rightarrow>
          if \<not> dl_isFirstSync dl \<and> \<not> dl_isUpdate dl \<and> he_inviteDID env \<noteq> '''' \<and> dl_userDID dl = he_inviteDID env
          then (None, outside_upd (\<lambda>s. s\<lparr>out_notified := out_notified s @ [(did, feature)]\<rparr>) w1)
          else (None, w1))"


section \<open>Recordings\<close>

definition h_comment ::
  "('v, 'x) handler_env \<Rightarrow> time \<Rightarrow> delivery \<Rightarrow> string \<Rightarrow> reply_ref option \<Rightarrow> string list \<Rightarrow> ('v, 'x) hworld \<Rightarrow>
   go_error option \<times> ('v, 'x) hworld" where
  "h_comment env now dl video reply links w =
     on_ok (he_sync env (dl_userDID dl) w) ''failed to sync bluesky repo'' (\<lambda>_ w1.
     let author = (case he_authority env video of Inr a \<Rightarrow> a | Inl _ \<Rightarrow> '''');
         (blocked, w2) =
           (case he_authority env video of
              Inl e \<Rightarrow> (False, w1)
            | Inr a \<Rightarrow> (case GetUserBlock a (dl_userDID dl) w1 of (Inl e, w2) \<Rightarrow> (False, w2) | (Inr b, w2) \<Rightarrow> (b, w2)))
     in if blocked then (None, w2)
        else if script_link env links then (None, w2)
        else
          (case createOrVerify (CommentRow \<lparr>vc_CID = dl_cid dl, vc_URI = record_uri dl, vc_CreatedAt = now, vc_RepoDID = dl_userDID dl,
                  vc_VideoURI = video, vc_VideoAuthorDID = author, vc_ReplyToCID = reply_cid reply, vc_DeletedAt = None\<rparr>) w2 of
             (Some e, w3) \<Rightarrow> (None, w3)
           | (None, w3) \<Rightarrow>
               (case GetVodComment (record_uri dl) w3 of
                  (Inl e, w4) \<Rightarrow> (None, w4)
                | (Inr c, w4) \<Rightarrow>
                    (case view_of env (map_option CommentRow c) w4 of
                       Inl e \<Rightarrow> (None, w4)
                     | Inr v \<Rightarrow>
                         (None, publish (if author \<noteq> '''' then author else dl_userDID dl) (RowView (he_decorate env '''' w4 v)) w4)))))"

definition h_like :: "('v, 'x) handler_env \<Rightarrow> delivery \<Rightarrow> string \<Rightarrow> ('v, 'x) hworld \<Rightarrow> go_error option \<times> ('v, 'x) hworld" where
  "h_like env dl subject w =
     on_ok (he_sync env (dl_userDID dl) w) ''failed to sync bluesky repo'' (\<lambda>_ w1.
     on_ok (GetLikeBySubjectAndUser subject (dl_userDID dl) w1) ''check existing like'' (\<lambda>existing w2.
     if existing then (None, w2)
     else logged (CreateLike (LikeRow (record_uri dl) subject (dl_userDID dl)) w2)))"

definition h_vod_gate :: "('v, 'x) handler_env \<Rightarrow> time \<Rightarrow> bool \<Rightarrow> delivery \<Rightarrow> string \<Rightarrow> ('v, 'x) hworld \<Rightarrow> go_error option \<times> ('v, 'x) hworld" where
  "h_vod_gate env now known dl hidden w =
     on_ok (he_sync env (dl_userDID dl) w) ''failed to sync bluesky repo'' (\<lambda>_ w1.
     if \<not> known then (None, w1)
     else
       if_new (createOrVerify (VodGateRow \<lparr>gt_RKey = dl_rkey dl, gt_CID = dl_cid dl, gt_RepoDID = dl_userDID dl, gt_Hidden = hidden,
            gt_CreatedAt = now\<rparr>) w1)
         ''failed to create VOD gate'' (\<lambda>w2. (None, w2)))"

section \<open>The handler\<close>

definition handle_record ::
  "('v, 'x) handler_env \<Rightarrow> time \<Rightarrow> bool \<Rightarrow> delivery \<Rightarrow> any_record \<Rightarrow> ('v, 'x) hworld \<Rightarrow> go_error option \<times> ('v, 'x) hworld" where
  "handle_record env now known dl rec w =
     (case rec of
        GraphFollow subject createdAt \<Rightarrow> h_follow env known dl subject createdAt w
      | GraphBlock subject \<Rightarrow> h_block env known dl subject w
      | GraphVerification subject handle name createdAt \<Rightarrow> h_verification env dl subject handle name createdAt w
      | ActorProfile was \<Rightarrow> h_profile known dl was w
      | ChatMessageRec streamer createdAt reply links \<Rightarrow> h_chat env now dl streamer createdAt reply links w
      | ChatGateRec hidden \<Rightarrow> h_gate env now known dl hidden w
      | ChatPinnedRec pin \<Rightarrow> h_pin env known dl pin w
      | ChatProfileRec \<Rightarrow> h_chat_profile env dl w
      | ServerSettingsRec \<Rightarrow> h_settings env dl w
      | FeedPostRec createdAt emb root \<Rightarrow> h_post env dl createdAt emb root w
      | LivestreamRec ls \<Rightarrow> h_livestream env known dl ls w
      | LiveTeleportRec tp \<Rightarrow> h_teleport env now known dl tp w
      | KeyRec key createdAt \<Rightarrow> h_key env dl key createdAt w
      | BroadcastOriginRec streamer server \<Rightarrow> h_origin env now dl streamer server w
      | MetadataConfigurationRec \<Rightarrow> h_metadata env dl w
      | ChatAccessRec rule \<Rightarrow> h_access env now dl rule w
      | ModerationPermissionRec moderator \<Rightarrow> h_permission env dl moderator w
      | LiveViewerCountRec streamer server n \<Rightarrow> h_viewer_count env streamer server n w
      | LiveRecommendationsRec streamers createdAt \<Rightarrow> h_recommendations env dl streamers createdAt w
      | BadgeDefRec name \<Rightarrow> wrapped (Save (BadgeDefRow (record_uri dl) (dl_userDID dl) name) w) ''failed to upsert badge def''
      | BadgeIssuanceRec did badge \<Rightarrow>
          wrapped (Save (BadgeIssuanceRow (record_uri dl) (dl_userDID dl) did badge) w) ''failed to upsert badge issuance''
      | VideoRec \<Rightarrow> h_video env dl w
      | MediaTrackRec muxl \<Rightarrow> h_track env dl muxl w
      | MediaOriginRec blob \<Rightarrow> upsert env dl rec (\<lambda>server. MediaOriginRow (record_uri dl) server blob) w
      | BetaInviteRec did feature \<Rightarrow> h_invite env dl did feature w
      | BetaRequestRec feature \<Rightarrow> upsert env dl rec (\<lambda>repo. BetaRequestRow (record_uri dl) repo feature) w
      | MediaViewCountRec video \<Rightarrow> upsert env dl rec (\<lambda>repo. ViewCountRow (record_uri dl) repo video) w
      | VodCommentRec video reply links \<Rightarrow> h_comment env now dl video reply links w
      | LikeRec subject \<Rightarrow> h_like env dl subject w
      | VodGateRec hidden \<Rightarrow> h_vod_gate env now known dl hidden w
      | OtherRec \<Rightarrow> (None, w))"

definition handleCreateUpdate ::
  "('v, 'x) handler_env \<Rightarrow> time \<Rightarrow> delivery \<Rightarrow> ('v, 'x) hworld \<Rightarrow> go_error option \<times> ('v, 'x) hworld" where
  "handleCreateUpdate env now dl w =
     on_ok (db_read (\<lambda>w. he_getRepo env (dl_userDID dl) (out_other (ix_Rest w))) w) ''failed to get repo'' (\<lambda>r w1.
     case he_parseATURI env (record_uri dl) of
       Some e \<Rightarrow> (Some (WrapErr ''failed to parse ATURI'' [e]), w1)
     | None \<Rightarrow>
         (case he_atdata env (dl_cbor dl) of
            Some e \<Rightarrow> (Some (WrapErr ''failed to unmarhsal record CBOR'' [e]), w1)
          | None \<Rightarrow>
              (case he_decode env (dl_cbor dl) of
                 Unrecognized \<Rightarrow> (None, w1)
               | Undecodable e \<Rightarrow> (Some (WrapErr ''failed to decode record CBOR'' [e]), w1)
               | Decoded rec \<Rightarrow> handle_record env now (r \<noteq> None) dl rec w1)))"


section \<open>What one delivery changes\<close>

text \<open>What is announced: published, queued, timed or notified.\<close>

definition said :: "('v, 'x) hworld \<Rightarrow> (string \<times> 'v bus_item) list \<times> (string \<times> string) list \<times> (string \<times> duration) list \<times> (string \<times> string) list" where
  "said w = (out_bus (ix_Rest w), out_tasks (ix_Rest w), out_timers (ix_Rest w), out_notified (ix_Rest w))"

definition holds_version :: "indexed_row \<Rightarrow> indexed_row list \<Rightarrow> bool" where
  "holds_version row rows = (\<exists>old. find (\<lambda>r. primary_key r = primary_key row) rows = Some old \<and> recordCID old = recordCID row)"

text \<open>What a delivery may only change by storing the row of the record.\<close>

definition kept :: "('v, 'x) hworld \<Rightarrow> indexed_row list \<times> (nat \<Rightarrow> go_error option)" where
  "kept w = (ix_Rows w, ix_Fault w)"

definition same :: "('v, 'x) hworld \<Rightarrow> ('v, 'x) hworld \<Rightarrow> bool" where
  "same w w' = (kept w' = kept w \<and> said w' = said w)"

text \<open>Either nothing changed, or a row of \<open>K\<close> that was not there in this version was stored.\<close>

definition outcome :: "indexed_row set \<Rightarrow> ('v, 'x) hworld \<Rightarrow> ('v, 'x) hworld \<Rightarrow> bool" where
  "outcome K w w' =
     (same w w' \<or>
      (\<exists>row\<in>K. kept w' = (put_by primary_key row (ix_Rows w), ix_Fault w) \<and> \<not> holds_version row (ix_Rows w)))"

lemma same_refl [simp]: "same w w" by (simp add: same_def)

lemma same_trans: "same w w' \<Longrightarrow> same w' w'' \<Longrightarrow> same w w''" by (simp add: same_def)

lemma same_outcome: "same w w' \<Longrightarrow> outcome K w w'" by (simp add: outcome_def)

lemma outcome_refl [simp]: "outcome K w w" by (simp add: outcome_def)

lemma outcome_from: "same w w1 \<Longrightarrow> outcome K w1 w' \<Longrightarrow> outcome K w w'"
  by (auto simp: same_def outcome_def kept_def)

lemma put_by_absent: "find (\<lambda>r. key r = key x) xs = None \<Longrightarrow> put_by key x xs = xs @ [x]"
  by (induction xs) (auto split: if_splits)

text \<open>The statements that store nothing here.\<close>

lemma db_read_same [simp]: "same w (snd (db_read q w))"
  by (auto simp: db_read_def db_call_def same_def said_def kept_def split: option.splits)

lemma Save_same [simp]: "same w (snd (Save row w))"
  by (auto simp: Save_def db_call_def same_def said_def kept_def split: option.splits)

lemma CreateLike_same [simp]: "same w (snd (CreateLike row w))"
  by (auto simp: CreateLike_def db_call_def same_def said_def kept_def split: option.splits)

lemmas read_defs = GetBlock_def GetGate_def GetPinnedRecord_def GetChatMessage_def GetLatestLivestreamForRepo_def get_chat_profile_def
  GetVodComment_def GetUserBlock_def GetLivestream_def GetLivestreamByPostURI_def GetLikeBySubjectAndUser_def ListChatAccessRules_def
  VerificationsFor_def

lemma reads_same [simp]:
  "same w (snd (GetBlock k w))" "same w (snd (GetGate k w))" "same w (snd (GetPinnedRecord k w))" "same w (snd (GetChatMessage k w))"
  "same w (snd (GetLatestLivestreamForRepo k w))" "same w (snd (get_chat_profile k w))" "same w (snd (GetVodComment k w))"
  "same w (snd (GetUserBlock k d w))" "same w (snd (GetLivestream k w))" "same w (snd (GetLivestreamByPostURI k w))"
  "same w (snd (GetLikeBySubjectAndUser k d w))" "same w (snd (ListChatAccessRules k w))" "same w (snd (VerificationsFor k ds w))"
  by (simp_all add: read_defs)

lemma wrapped_same [simp]: "same w (snd (wrapped rw msg)) \<longleftrightarrow> same w (snd rw)" "same w (snd (logged rw)) \<longleftrightarrow> same w (snd rw)"
  by (simp_all add: wrapped_def logged_def)

lemma snd_same: "same w (snd rw) \<Longrightarrow> rw = (r, w1) \<Longrightarrow> same w w1" by simp

lemma rulesFor_same [simp]: "same w (snd (snd (rulesFor now streamer cache w)))"
  by (auto simp: rulesFor_def split: option.splits sum.splits prod.splits intro: snd_same [OF reads_same(12)])

lemma verificationsUnder_same [simp]: "same w (snd (verificationsUnder av rules did w))"
  by (auto simp: verificationsUnder_def Let_def split: sum.splits prod.splits intro: snd_same [OF reads_same(13)])

lemma ChatAllowed_same [simp]: "same w (snd (snd (ChatAllowed av now streamer did cache w)))"
proof -
  obtain r cache1 w1 where r: "rulesFor now streamer cache w = (r, cache1, w1)" by (metis prod_cases3)
  have r1: "same w w1" using rulesFor_same [of w now streamer cache] by (simp add: r)
  show ?thesis
  proof (cases r)
    case (Inr rules)
    then show ?thesis
      using r1 same_trans [OF r1 verificationsUnder_same [of w1 av rules did]]
      by (cases "verificationsUnder av rules did w1") (simp add: ChatAllowed_def r)
  qed (simp add: ChatAllowed_def r r1)
qed

lemma createOrVerify_cases:
  assumes "createOrVerify row w = (r, w')"
  shows "(r \<noteq> None \<and> same w w') \<or>
    (r = None \<and> kept w' = (put_by primary_key row (ix_Rows w), ix_Fault w) \<and> \<not> holds_version row (ix_Rows w) \<and>
     ix_Rest w' = ix_Rest w)"
  using assms
  by (auto simp: createOrVerify_def db_call_def same_def said_def kept_def holds_version_def put_by_absent split: option.splits if_splits)

text \<open>What keeps the rows, once the record is stored.\<close>

lemma same_kept: "same w w' \<Longrightarrow> kept w' = kept w" by (simp add: same_def)

lemma kept_simps [simp]:
  "kept (outside_upd f w) = kept w" "kept (publish key m w) = kept w" "kept (snd (enqueue kind key w)) = kept w"
  "kept (snd (wrapped rw msg)) = kept (snd rw)" "kept (snd (logged rw)) = kept (snd rw)"
  by (auto simp: kept_def db_call_def outside_upd_def publish_def enqueue_def wrapped_def logged_def split: option.splits)

text \<open>The ways handlers go on.\<close>

lemma on_ok_outcome:
  assumes "same w (snd rw)" and "\<And>a w1. same w w1 \<Longrightarrow> outcome K w1 (snd (k a w1))"
  shows "outcome K w (snd (on_ok rw msg k))"
proof (cases rw)
  case (Pair a w1)
  then show ?thesis
    using assms outcome_from same_outcome by (cases a) (auto simp: on_ok_def, blast+)
qed

lemma on_ok_same:
  assumes "same w (snd rw)" and "\<And>a w1. same w w1 \<Longrightarrow> same w1 (snd (k a w1))"
  shows "same w (snd (on_ok rw msg k))"
  using assms same_trans by (cases rw; cases "fst rw") (auto simp: on_ok_def, blast+)

lemma on_ok_kept:
  assumes "kept (snd rw) = X" and "\<And>a w1. kept w1 = X \<Longrightarrow> kept (snd (k a w1)) = X"
  shows "kept (snd (on_ok rw msg k)) = X"
  using assms by (cases rw; cases "fst rw") (auto simp: on_ok_def)

lemmas reads_kept [simp] = reads_same [THEN same_kept] db_read_same [THEN same_kept] Save_same [THEN same_kept]
  CreateLike_same [THEN same_kept] ChatAllowed_same [THEN same_kept]

lemma if_new_error [simp]: "snd (if_new (Some e, w) msg k) = w" by (simp add: if_new_def)

lemma stored_outcome:
  assumes "row \<in> K" "createOrVerify row w = (r, w1)" "r = None \<Longrightarrow> kept w' = kept w1" "r \<noteq> None \<Longrightarrow> same w1 w'"
  shows "outcome K w w'"
  using createOrVerify_cases [OF assms(2)] assms(1,3,4) by (auto simp: outcome_def dest: same_trans)

lemma if_new_outcome:
  assumes "row \<in> K" and "\<And>w1. kept (snd (k w1)) = kept w1"
  shows "outcome K w (snd (if_new (createOrVerify row w) msg k))"
proof (cases "createOrVerify row w")
  case (Pair r w1)
  then show ?thesis
    using assms by (intro stored_outcome [OF assms(1) Pair]) (auto simp: if_new_def split: option.splits)
qed


text \<open>The row of a record, and the version it is stored in.\<close>

definition version_of :: "('v, 'x) handler_env \<Rightarrow> delivery \<Rightarrow> any_record \<Rightarrow> (string \<times> string) \<times> string" where
  "version_of env dl rec =
     (let cid = (case he_cidOf env rec of Inr c \<Rightarrow> c | Inl _ \<Rightarrow> '''');
          repo = (case he_asDID env (dl_userDID dl) of Inr d \<Rightarrow> d | Inl _ \<Rightarrow> '''') in
      case rec of
        GraphBlock _ \<Rightarrow> ((''blocks'', dl_rkey dl), dl_cid dl)
      | GraphVerification _ _ _ _ \<Rightarrow> ((''verifications'', record_uri dl), dl_cid dl)
      | ChatMessageRec _ _ _ _ \<Rightarrow> ((''chat_messages'', dl_cid dl), dl_cid dl)
      | ChatGateRec _ \<Rightarrow> ((''gates'', dl_rkey dl), dl_cid dl)
      | ChatPinnedRec _ \<Rightarrow> ((''pinned_records'', record_uri dl), dl_cid dl)
      | FeedPostRec _ _ _ \<Rightarrow> ((''feed_posts'', record_uri dl), dl_cid dl)
      | LivestreamRec _ \<Rightarrow> ((''livestreams'', record_uri dl), dl_cid dl)
      | LiveTeleportRec _ \<Rightarrow> ((''teleports'', record_uri dl), dl_cid dl)
      | ChatAccessRec _ \<Rightarrow> ((''chat_access_rules'', record_uri dl), cid)
      | ModerationPermissionRec _ \<Rightarrow> ((''moderation_delegations'', repo @ ''/'' @ dl_rkey dl), cid)
      | VodCommentRec _ _ _ \<Rightarrow> ((''vod_comments'', dl_cid dl), dl_cid dl)
      | VodGateRec _ \<Rightarrow> ((''vod_gates'', dl_rkey dl), dl_cid dl)
      | _ \<Rightarrow> (('''', record_uri dl), ''''))"

definition rows_of :: "(string \<times> string) \<times> string \<Rightarrow> indexed_row set" where
  "rows_of v = {row. (primary_key row, recordCID row) = v}"

text \<open>The accounts involved have rows, so that \<open>SyncBlueskyRepoCached\<close> only reads.\<close>

definition accounts_known :: "('v, 'x) handler_env \<Rightarrow> bool" where
  "accounts_known env \<longleftrightarrow> (\<forall>did w. same w (snd (he_sync env did w)))"

lemma known_same: "accounts_known env \<Longrightarrow> same w (snd (he_sync env did w))" by (simp add: accounts_known_def)

lemmas version_simps = version_of_def rows_of_def record_uri_def

lemma h_block_outcome: "outcome (rows_of (version_of env dl (GraphBlock s))) w (snd (h_block env known dl s w))"
  unfolding h_block_def by (auto intro!: if_new_outcome on_ok_kept simp: version_simps split: sum.split)

lemma h_verification_outcome:
  "outcome (rows_of (version_of env dl (GraphVerification s h d c))) w (snd (h_verification env dl s h d c w))"
  unfolding h_verification_def by (auto intro!: if_new_outcome simp: version_simps split: sum.split)

lemma h_gate_outcome:
  "accounts_known env \<Longrightarrow> outcome (rows_of (version_of env dl (ChatGateRec s))) w (snd (h_gate env now known dl s w))"
  unfolding h_gate_def
  by (auto intro!: on_ok_outcome if_new_outcome on_ok_kept known_same simp: version_simps split: sum.split)

lemma h_pin_outcome:
  "accounts_known env \<Longrightarrow> outcome (rows_of (version_of env dl (ChatPinnedRec p))) w (snd (h_pin env known dl p w))"
  unfolding h_pin_def
  by (auto intro!: on_ok_outcome if_new_outcome on_ok_kept known_same simp: version_simps Let_def split: sum.split option.split)

lemma h_teleport_outcome:
  "outcome (rows_of (version_of env dl (LiveTeleportRec p))) w (snd (h_teleport env now known dl p w))"
  unfolding h_teleport_def
  by (auto intro!: if_new_outcome simp: version_simps Let_def split: sum.split)

lemma h_vod_gate_outcome:
  "accounts_known env \<Longrightarrow> outcome (rows_of (version_of env dl (VodGateRec s))) w (snd (h_vod_gate env now known dl s w))"
  unfolding h_vod_gate_def
  by (auto intro!: on_ok_outcome if_new_outcome known_same simp: version_simps split: sum.split)

lemma h_permission_outcome:
  "accounts_known env \<Longrightarrow> outcome (rows_of (version_of env dl (ModerationPermissionRec s))) w (snd (h_permission env dl s w))"
  unfolding h_permission_def
  by (auto intro!: on_ok_outcome if_new_outcome known_same simp: version_simps split: sum.split)

lemma h_access_outcome:
  "accounts_known env \<Longrightarrow> outcome (rows_of (version_of env dl (ChatAccessRec a))) w (snd (h_access env now dl a w))"
  unfolding h_access_def
  by (auto intro!: on_ok_outcome if_new_outcome known_same simp: version_simps ChatAccessRuleFromRecord_def Let_def
      split: sum.split if_splits sum.split_asm access_subject.split_asm)


lemma enqueue_kept: "kept (snd (schedule_publishing env repo uri w)) = kept w"
proof -
  have "kept (snd (settings_publish env repo w)) = kept w"
    by (auto simp: settings_publish_def intro: same_kept [OF snd_same [OF db_read_same]] split: sum.split prod.split option.split saved_row.split)
  then show ?thesis by (auto simp: schedule_publishing_def split: sum.split prod.split)
qed

lemma livestream_tasks_kept [simp]: "kept (snd (livestream_tasks env dl rec seen w)) = kept w"
  by (auto simp: livestream_tasks_def enqueue_kept split: sum.split option.split)

lemma seen_ending_same: "same w (snd (seen_ending env dl rec w))"
  by (auto simp: seen_ending_def intro: snd_same [OF reads_same(9)] split: sum.split prod.split option.split)

lemma h_livestream_outcome:
  "outcome (rows_of (version_of env dl (LivestreamRec l))) w (snd (h_livestream env known dl l w))"
proof -
  have r: "same w w1" if "seen_ending env dl l w = (r, w1)" for r w1
    using snd_same [OF seen_ending_same that] .
  show ?thesis
    unfolding h_livestream_def
    by (auto intro!: if_new_outcome on_ok_kept simp: version_simps dest!: r intro: same_outcome outcome_from split: sum.split prod.split)
qed

lemma stored_after:
  assumes "same w w1" and "row \<in> K" and "\<And>w2. createOrVerify row w1 = (None, w2) \<Longrightarrow> kept (snd (k None w2)) = kept w2"
    and "\<And>e w2. same w2 (snd (k (Some e) w2))"
  shows "outcome K w (snd (case createOrVerify row w1 of (r, w2) \<Rightarrow> k r w2))"
proof (cases "createOrVerify row w1")
  case (Pair r w2)
  have "outcome K w1 (snd (k r w2))"
    using assms(3,4) Pair by (cases r) (auto intro!: stored_outcome [OF assms(2) Pair])
  then show ?thesis using outcome_from [OF assms(1)] Pair by simp
qed

lemma stored_after_option:
  assumes "same w w1" and "row \<in> K" and "\<And>w2. kept (snd (k w2)) = kept w2"
  shows "outcome K w (snd (case createOrVerify row w1 of (None, w2) \<Rightarrow> k w2 | (Some e, w2) \<Rightarrow> (None, w2)))"
  using stored_after [OF assms(1,2), where k = "\<lambda>r w2. case r of None \<Rightarrow> k w2 | Some e \<Rightarrow> (None, w2)"] assms(3) by simp

lemma h_comment_outcome:
  assumes "accounts_known env"
  shows "outcome (rows_of (version_of env dl (VodCommentRec v r ls))) w (snd (h_comment env now dl v r ls w))"
  unfolding h_comment_def Let_def
proof (rule on_ok_outcome [OF known_same [OF assms]], goal_cases)
  case (1 a w1)
  let ?lookup = "case he_authority env v of Inl e \<Rightarrow> (False, w1)
    | Inr a \<Rightarrow> (case GetUserBlock a (dl_userDID dl) w1 of (Inl e, w2) \<Rightarrow> (False, w2) | (Inr b, w2) \<Rightarrow> (b, w2))"
  obtain blocked w2 where l: "?lookup = (blocked, w2)" by (cases ?lookup)
  then have w2: "same w1 w2" by (auto intro: snd_same [OF reads_same(8)] split: sum.splits prod.splits)
  have k: "kept w5 = kept w4" if "GetVodComment uri w4 = (c, w5)" for uri c and w4 w5 :: "('a, 'b) hworld"
    using reads_kept(7) [of uri w4] that by simp
  show ?case
  proof (cases "blocked \<or> script_link env ls")
    case True
    then show ?thesis unfolding l by (auto intro: same_outcome [OF w2])
  next
    case False
    then have free: "\<not> blocked" "\<not> script_link env ls" by simp_all
    show ?thesis
      unfolding l prod.case if_not_P [OF free(1)] if_not_P [OF free(2)]
    proof (rule stored_after_option [OF w2], goal_cases)
      case 1
      show ?case by (simp add: version_simps)
    next
      case (2 w3)
      show ?case by (auto dest!: k split: sum.split prod.split)
    qed
  qed
qed

lemma upsert_same [simp]: "same w (snd (upsert env dl rec row w))"
  by (auto simp: upsert_def split: sum.split)

lemma saves_same:
  "same w (snd (h_follow env known dl s c w))" "same w (snd (h_profile known dl was w))" "same w (snd (h_key env dl s c w))"
  "same w (snd (h_viewer_count env s sv n w))" "same w (snd (h_recommendations env dl ss c w))" "same w (snd (h_track env dl m w))"
  by (auto simp: h_follow_def h_profile_def h_key_def h_viewer_count_def h_recommendations_def h_track_def
      same_def kept_def said_def outside_upd_def wrapped_def Save_def logged_def db_call_def upsert_def
      split: sum.split option.split)

lemma syncing_saves_same:
  assumes "accounts_known env"
  shows "same w (snd (h_chat_profile env dl w))" "same w (snd (h_settings env dl w))" "same w (snd (h_metadata env dl w))"
    "same w (snd (h_video env dl w))" "same w (snd (h_like env dl s w))"
  unfolding h_chat_profile_def h_settings_def h_metadata_def h_video_def h_like_def
  using assms by (auto intro!: on_ok_same known_same)


lemma chat_broadcast_kept [simp]: "kept (snd (chat_broadcast env now dl streamer createdAt w)) = kept w"
proof -
  have g: "kept w1 = kept w" if "GetChatMessage (record_uri dl) w = (m, w1)" for m w1
    using reads_kept(4) [of "record_uri dl" w] that by simp
  have c: "kept w2 = kept w1" if "ChatAllowed av now s d cache w1 = (b, cache', w2)" for av s d cache b cache' and w1 w2 :: "('a, 'b) hworld"
    using same_kept [OF ChatAllowed_same [of w1 av now s d cache]] that by simp
  show ?thesis
    by (auto simp: chat_broadcast_def Let_def dest!: g c split: sum.split option.split prod.split)
qed

lemma spawned_same: "same w (outside_upd (\<lambda>s. s\<lparr>out_spawned := x s\<rparr>) w)"
  by (simp add: same_def said_def outside_upd_def kept_def)

lemma h_chat_outcome:
  assumes "accounts_known env"
  shows "outcome (rows_of (version_of env dl (ChatMessageRec s c r ls))) w (snd (h_chat env now dl s c r ls w))"
  unfolding h_chat_def Let_def
proof (rule on_ok_outcome [OF known_same [OF assms]], goal_cases)
  case (1 a w0)
  let ?w1 = "outside_upd (\<lambda>sa. sa\<lparr>out_spawned := out_spawned sa @ [s]\<rparr>) w0"
  show ?case
  proof (rule outcome_from [OF spawned_same [of w0 "\<lambda>sa. out_spawned sa @ [s]"]], rule on_ok_outcome, goal_cases)
    case (2 blocked w2)
    show ?case
      using stored_after_option [OF same_refl, where row = "ChatRow (chat_row env now dl s c r)"
          and k = "chat_broadcast env now dl s c" and K = "rows_of (version_of env dl (ChatMessageRec s c r ls))"]
      by (simp add: version_simps chat_row_def)
  qed simp
qed

definition reply_post :: "any_record \<Rightarrow> bool" where
  "reply_post rec = (case rec of FeedPostRec _ _ _ \<Rightarrow> True | _ \<Rightarrow> False)"

lemma createOrVerify_sound:
  assumes "\<And>n. ix_Fault w n = None" "createOrVerify row w = (Some e, w')"
  shows "e = ErrAlreadyIndexed"
  using assms by (auto simp: createOrVerify_def db_call_def split: option.splits if_splits)

lemma sentinel_Is: "errors_Is ErrAlreadyIndexed ErrAlreadyIndexed"
  by (simp add: ErrAlreadyIndexed_def errors_Is_def)

lemma same_faults: "same w w' \<Longrightarrow> ix_Fault w' = ix_Fault w" by (simp add: same_def kept_def)

lemma h_post_outcome:
  assumes env: "accounts_known env" and ok: "\<And>n. ix_Fault w n = None"
  shows "outcome (rows_of (version_of env dl (FeedPostRec c m r))) w (snd (h_post env dl c m r w))"
proof -
  have store: "outcome K w1 (snd (case createOrVerify row w1 of (r, w2) \<Rightarrow>
      if case r of Some e \<Rightarrow> errors_Is e ErrAlreadyIndexed | None \<Rightarrow> False then (None, w2) else (None, publish key (msg w2) w2)))"
    if "\<And>n. ix_Fault w1 n = None" "row \<in> K" for K row msg key and w1 :: "('a, 'b) hworld"
  proof (cases "createOrVerify row w1")
    case (Pair q w2)
    have "q = None \<or> q = Some ErrAlreadyIndexed" using createOrVerify_sound [OF that(1)] Pair by (cases q) auto
    then show ?thesis
      using Pair sentinel_Is by (auto intro!: stored_outcome [OF that(2) Pair])
  qed
  show ?thesis
  proof (cases "he_rfc3339 env c")
    case (Inl e)
    then show ?thesis by (simp add: h_post_def)
  next
    case (Inr created)
    then show ?thesis
      unfolding h_post_def Let_def
      by (auto intro!: on_ok_outcome if_new_outcome known_same env store ok same_faults
          simp: version_simps ok dest!: same_faults split: option.split post_embed.split)
  qed
qed


section \<open>Redelivery\<close>

text \<open>The types of record whose handler announces nothing without a row: all but these two.\<close>

definition guarded :: "any_record \<Rightarrow> bool" where
  "guarded rec = (case rec of BroadcastOriginRec _ _ \<Rightarrow> False | BetaInviteRec _ _ \<Rightarrow> False | _ \<Rightarrow> True)"

lemma handle_outcome:
  assumes "accounts_known env" "guarded rec" and "reply_post rec \<Longrightarrow> \<forall>n. ix_Fault w n = None"
  shows "outcome (rows_of (version_of env dl rec)) w (snd (handle_record env now known dl rec w))"
proof (cases rec)
  case (FeedPostRec c m r)
  then show ?thesis using h_post_outcome [OF assms(1)] assms(3) by (simp add: handle_record_def reply_post_def)
qed (use assms(1,2) in \<open>simp_all add: handle_record_def guarded_def same_outcome saves_same syncing_saves_same h_block_outcome
      h_verification_outcome h_gate_outcome h_pin_outcome h_teleport_outcome h_vod_gate_outcome h_permission_outcome h_access_outcome
      h_livestream_outcome h_comment_outcome h_chat_outcome\<close>)

lemma unguarded_kept:
  assumes "accounts_known env" "\<not> guarded rec"
  shows "kept (snd (handle_record env now known dl rec w)) = kept w"
proof (cases rec)
  case (BroadcastOriginRec s v)
  have "kept (snd (h_origin env now dl s v w)) = kept w"
    unfolding h_origin_def Let_def
    by (auto intro!: on_ok_kept same_kept [OF known_same [OF assms(1)]] simp: same_kept [OF known_same [OF assms(1)]] split: sum.split)
  then show ?thesis by (simp add: handle_record_def BroadcastOriginRec)
next
  case (BetaInviteRec d f)
  have "kept w1 = kept w" if "upsert env dl r row w = (q, w1)" for r row q w1
    using same_kept [OF snd_same [OF upsert_same that]] .
  then have "kept (snd (h_invite env dl d f w)) = kept w"
    unfolding h_invite_def by (auto split: prod.split option.split)
  then show ?thesis by (simp add: handle_record_def BetaInviteRec)
qed (use assms(2) in \<open>simp_all add: guarded_def\<close>)

text \<open>A version under its key.\<close>

definition has_version :: "(string \<times> string) \<times> string \<Rightarrow> ('v, 'x) hworld \<Rightarrow> bool" where
  "has_version v w = (\<exists>old. find (\<lambda>r. primary_key r = fst v) (ix_Rows w) = Some old \<and> recordCID old = snd v)"

lemma find_put_by:
  "find (\<lambda>r. key r = k) (put_by key row rows) = (if key row = k then Some row else find (\<lambda>r. key r = k) rows)"
  by (induction rows) auto

lemma outcome_again:
  assumes "outcome (rows_of v) w w'"
  shows "has_version v w \<Longrightarrow> said w' = said w" "said w' \<noteq> said w \<Longrightarrow> has_version v w'" "has_version v w \<Longrightarrow> has_version v w'"
  using assms by (auto simp: outcome_def same_def kept_def rows_of_def has_version_def holds_version_def find_put_by)

lemma outcome_elsewhere:
  "\<lbrakk>outcome (rows_of u) w w'; fst u \<noteq> fst v; has_version v w\<rbrakk> \<Longrightarrow> has_version v w'"
  by (auto simp: outcome_def same_def kept_def rows_of_def has_version_def find_put_by)

lemma outcome_faults: "outcome K w w' \<Longrightarrow> ix_Fault w' = ix_Fault w"
  by (auto simp: outcome_def same_def kept_def)

lemma kept_facts: "kept w' = kept w \<Longrightarrow> ix_Fault w' = ix_Fault w \<and> has_version v w' = has_version v w"
  by (simp add: kept_def has_version_def)

lemma handled:
  "(\<exists>w1 known rec. he_decode env (dl_cbor dl) = Decoded rec \<and> same w w1 \<and>
      snd (handleCreateUpdate env now dl w) = snd (handle_record env now known dl rec w1)) \<or>
   same w (snd (handleCreateUpdate env now dl w))"
proof -
  let ?get = "db_read (\<lambda>w. he_getRepo env (dl_userDID dl) (out_other (ix_Rest w))) w"
  obtain r w1 where g: "?get = (r, w1)" by (cases ?get)
  then have "same w w1" using snd_same [OF db_read_same] by blast
  then show ?thesis
    by (cases r) (auto simp: handleCreateUpdate_def g on_ok_def split: option.split decoding.split)
qed

definition same_version :: "delivery \<Rightarrow> delivery \<Rightarrow> bool" where
  "same_version dl dl' \<longleftrightarrow> dl_userDID dl' = dl_userDID dl \<and> dl_rkey dl' = dl_rkey dl \<and> dl_collection dl' = dl_collection dl \<and>
     dl_cid dl' = dl_cid dl \<and> dl_cbor dl' = dl_cbor dl"

text \<open>How many of the deliveries of one version announce something.\<close>

fun announced :: "('v, 'x) handler_env \<Rightarrow> delivery \<Rightarrow> (time \<times> delivery) list \<Rightarrow> ('v, 'x) hworld \<Rightarrow> nat" where
  "announced env dl0 [] w = 0"
| "announced env dl0 ((now, dl) # ds) w =
     (let w' = snd (handleCreateUpdate env now dl w)
      in (if same_version dl0 dl \<and> said w' \<noteq> said w then 1 else 0) + announced env dl0 ds w')"

lemma version_of_same: "same_version dl dl' \<Longrightarrow> version_of env dl' rec = version_of env dl rec"
  by (simp add: same_version_def version_of_def record_uri_def Let_def split: any_record.split)

lemma delivery_step:
  fixes now :: time
  assumes env: "accounts_known env" and rec0: "he_decode env (dl_cbor dl0) = Decoded rec0" "guarded rec0"
    and other: "\<And>rec. he_decode env (dl_cbor dl) = Decoded rec \<Longrightarrow>
      same_version dl0 dl \<or> fst (version_of env dl rec) \<noteq> fst (version_of env dl0 rec0)"
    and ok: "\<And>rec. he_decode env (dl_cbor dl) = Decoded rec \<Longrightarrow> reply_post rec \<Longrightarrow> \<forall>n. ix_Fault w n = None"
  defines "w' \<equiv> snd (handleCreateUpdate env now dl w)" and "v \<equiv> version_of env dl0 rec0"
  shows "ix_Fault w' = ix_Fault w \<and> (has_version v w \<longrightarrow> has_version v w') \<and>
    (same_version dl0 dl \<longrightarrow> (has_version v w \<longrightarrow> said w' = said w) \<and> (said w' \<noteq> said w \<longrightarrow> has_version v w'))"
  using handled [of env dl w now]
proof (elim disjE exE conjE)
  assume "same w (snd (handleCreateUpdate env now dl w))"
  then have "same w w'" by (simp add: w'_def)
  then show ?thesis by (auto simp: same_def kept_def has_version_def)
next
  fix w1 known rec
  assume dec: "he_decode env (dl_cbor dl) = Decoded rec" and w1: "same w w1"
    and "snd (handleCreateUpdate env now dl w) = snd (handle_record env now known dl rec w1)"
  then have w': "w' = snd (handle_record env now known dl rec w1)" by (simp add: w'_def)
  have ok1: "reply_post rec \<Longrightarrow> \<forall>n. ix_Fault w1 n = None" using ok [OF dec] same_faults [OF w1] by simp
  show ?thesis
  proof (cases "guarded rec")
    case True
    have o: "outcome (rows_of (version_of env dl rec)) w w'"
      unfolding w' using outcome_from [OF w1 handle_outcome [OF env True ok1]] .
    show ?thesis
    proof (cases "same_version dl0 dl")
      case True
      then have "version_of env dl rec = v" using dec rec0(1) version_of_same [OF True] by (simp add: v_def same_version_def)
      then show ?thesis using outcome_again [of v w w'] outcome_faults [OF o] o by auto
    next
      case False
      then show ?thesis using other [OF dec] outcome_elsewhere [OF o] outcome_faults [OF o] by (auto simp: v_def)
    qed
  next
    case False
    then have "\<not> same_version dl0 dl" using dec rec0 by (auto simp: same_version_def)
    then show ?thesis
      using kept_facts [OF unguarded_kept [OF env False, of now known dl w1], of v] kept_facts [OF same_kept [OF w1], of v]
      by (simp add: w')
  qed
qed


text \<open>Of \<open>dl0\<close> no other version is delivered under its key; and statements only succeed when posts are delivered.\<close>

definition one_version :: "('v, 'x) handler_env \<Rightarrow> delivery \<Rightarrow> any_record \<Rightarrow> (time \<times> delivery) list \<Rightarrow> bool" where
  "one_version env dl0 rec0 ds \<longleftrightarrow>
     (\<forall>(now, dl)\<in>set ds. \<forall>rec. he_decode env (dl_cbor dl) = Decoded rec \<longrightarrow>
        same_version dl0 dl \<or> fst (version_of env dl rec) \<noteq> fst (version_of env dl0 rec0))"

definition posts_succeed :: "('v, 'x) handler_env \<Rightarrow> (time \<times> delivery) list \<Rightarrow> ('v, 'x) hworld \<Rightarrow> bool" where
  "posts_succeed env ds w \<longleftrightarrow>
     (\<forall>(now, dl)\<in>set ds. \<forall>rec. he_decode env (dl_cbor dl) = Decoded rec \<longrightarrow> reply_post rec \<longrightarrow> (\<forall>n. ix_Fault w n = None))"

lemma announced_bound:
  assumes env: "accounts_known env" and rec0: "he_decode env (dl_cbor dl0) = Decoded rec0" "guarded rec0"
  shows "\<lbrakk>one_version env dl0 rec0 ds; posts_succeed env ds w\<rbrakk> \<Longrightarrow>
    announced env dl0 ds w \<le> (if has_version (version_of env dl0 rec0) w then 0 else 1)"
proof (induction ds arbitrary: w)
  case (Cons d ds)
  obtain now dl where d: "d = (now, dl)" by (cases d)
  define w' where "w' = snd (handleCreateUpdate env now dl w)"
  have step: "ix_Fault w' = ix_Fault w \<and> (has_version (version_of env dl0 rec0) w \<longrightarrow> has_version (version_of env dl0 rec0) w') \<and>
    (same_version dl0 dl \<longrightarrow> (has_version (version_of env dl0 rec0) w \<longrightarrow> said w' = said w) \<and>
      (said w' \<noteq> said w \<longrightarrow> has_version (version_of env dl0 rec0) w'))"
    unfolding w'_def
    by (rule delivery_step [OF env rec0]) (use Cons.prems d in \<open>simp_all add: one_version_def posts_succeed_def\<close>)
  have "announced env dl0 ds w' \<le> (if has_version (version_of env dl0 rec0) w' then 0 else 1)"
    by (rule Cons.IH) (use Cons.prems step in \<open>simp_all add: one_version_def posts_succeed_def\<close>)
  then show ?case
    using step by (auto simp: d w'_def [symmetric] Let_def split: if_splits)
qed simp

text \<open>
  C5. At most one announcement.  A version of a record, of any type but origins and invites, is announced (published,
  queued, timed or notified) by at most one of its deliveries, and by none when the version is indexed already, however often
  it is delivered and whatever other records are delivered in between, as long as none of them is another version under
  the same primary key.  The accounts involved are known, and, as a reply post is announced even when its insert fails, the
  statements succeed if reply posts are among the deliveries; otherwise statements may fail.  What happens without these
  conditions is shown at the end of the theory.
\<close>

theorem announced_at_most_once:
  assumes "accounts_known env" and "he_decode env (dl_cbor dl0) = Decoded rec0" "guarded rec0"
    and "one_version env dl0 rec0 ds" "posts_succeed env ds w"
  shows "announced env dl0 ds w \<le> 1 \<and> (has_version (version_of env dl0 rec0) w \<longrightarrow> announced env dl0 ds w = 0)"
  using announced_bound [OF assms] by (auto split: if_splits)

text \<open>An environment for runs: identifiers are taken as they are, times are numerals, and the record is found by the length of its encoding.\<close>

definition demo_env :: "(nat \<Rightarrow> any_record) \<Rightarrow> (string, unit) handler_env" where
  "demo_env recs =
     \<lparr>he_parseATURI = (\<lambda>_. None), he_atdata = (\<lambda>_. None),
      he_decode = (\<lambda>b. Decoded (recs (length b))),
      he_time = (\<lambda>s. Inr (int (length s))), he_rfc3339 = (\<lambda>s. Inr (int (length s))), he_lower = (\<lambda>s. s), he_trim = (\<lambda>s. s),
      he_iso = (\<lambda>t. ''''), he_asDID = Inr, he_authority = Inr, he_cidOf = (\<lambda>_. Inr ''c''), he_getRepo = (\<lambda>d _. Some d),
      he_sync = (\<lambda>d w. (Inr d, w)),
      he_view = (\<lambda>r _. Inr (recordCID r)), he_pinView = (\<lambda>r _ _ _. Inr (recordCID r)), he_noView = '''', he_decorate = (\<lambda>_ _ v. v),
      he_account = (\<lambda>_. nobody), he_streamAllowed = (\<lambda>_. True), he_autoPublish = (\<lambda>_. Inr True), he_viewerBanned = (\<lambda>_ _. Inr False),
      he_viewerCount = (\<lambda>_ _. 0), he_serverDID = ''did:n'', he_broadcasterHost = ''h'', he_inviteDID = ''did:i''\<rparr>"

definition quiet :: "unit \<Rightarrow> (string, unit) hworld" where
  "quiet _ = \<lparr>ix_Rows = [], ix_Saved = [], ix_Calls = 0, ix_Fault = (\<lambda>_. None),
     ix_Rest = \<lparr>out_cache = Map.empty, out_bus = [], out_tasks = [], out_timers = [], out_notified = [], out_counts = Map.empty,
       out_spawned = [], out_other = ()\<rparr>\<rparr>"

definition one_delivery :: "string \<Rightarrow> string \<Rightarrow> nat \<Rightarrow> string \<Rightarrow> bool \<Rightarrow> delivery" where
  "one_delivery did rkey n cid first =
     \<lparr>dl_userDID = did, dl_rkey = rkey, dl_cbor = replicate n CHR ''x'', dl_cid = cid, dl_collection = ''c'', dl_isUpdate = False,
      dl_isFirstSync = first, dl_repoRev = ''r''\<rparr>"

lemma demo_known: "accounts_known (demo_env recs)" by (simp add: accounts_known_def demo_env_def)

text \<open>A chat message delivered live, again by a resync, and again later, with the gate of another account in between.\<close>

definition chat_demo :: "nat \<Rightarrow> any_record" where
  "chat_demo n = (if n = 1 then ChatMessageRec ''did:s'' ''12345'' None [] else ChatGateRec ''hidden'')"

definition chat_deliveries :: "unit \<Rightarrow> (time \<times> delivery) list" where
  "chat_deliveries _ = [(7, one_delivery ''did:a'' ''m'' 1 ''x'' False), (8, one_delivery ''did:s'' ''g'' 2 ''y'' False),
     (9, one_delivery ''did:a'' ''m'' 1 ''x'' True), (20, one_delivery ''did:a'' ''m'' 1 ''x'' False)]"

theorem announced_at_most_once_witness:
  "announced (demo_env chat_demo) (one_delivery ''did:a'' ''m'' 1 ''x'' False) (chat_deliveries ()) (quiet ()) = 1"
proof -
  let ?dl = "one_delivery ''did:a'' ''m'' 1 ''x'' False"
  have d: "he_decode (demo_env chat_demo) (dl_cbor ?dl) = Decoded (ChatMessageRec ''did:s'' ''12345'' None [])"
    "guarded (ChatMessageRec ''did:s'' ''12345'' None [])" by code_simp+
  have "announced (demo_env chat_demo) ?dl (chat_deliveries ()) (quiet ()) \<le> 1"
    by (rule conjunct1 [OF announced_at_most_once [OF demo_known d]])
      (auto simp: one_version_def posts_succeed_def chat_deliveries_def one_delivery_def demo_env_def chat_demo_def same_version_def version_of_def quiet_def
        split: if_splits)
  moreover have "announced (demo_env chat_demo) ?dl (chat_deliveries ()) (quiet ()) \<noteq> 0" by code_simp
  ultimately show ?thesis by simp
qed


section \<open>Screening of chat\<close>

lemma first_chat_mem: "first_chat uri rows = Some m \<Longrightarrow> ChatRow m \<in> set rows \<and> cm_URI m = uri \<and> cm_DeletedAt m = None"
proof -
  assume a: "first_chat uri rows = Some m"
  have "m \<in> set (sort_key cm_CID (filter (\<lambda>m. cm_URI m = uri \<and> cm_DeletedAt m = None) (chat_rows rows)))"
    using a by (simp only: first_chat_def split: list.splits) auto
  then have "cm_URI m = uri" "cm_DeletedAt m = None" "m \<in> set (chat_rows rows)" by simp_all
  then show ?thesis by (auto simp: chat_rows_def map_filter_def split: indexed_row.splits)
qed

lemma GetChatMessage_found: "GetChatMessage uri w = (Inr (Some m), w1) \<Longrightarrow>
  ChatRow m \<in> set (ix_Rows w) \<and> cm_URI m = uri \<and> cm_DeletedAt m = None"
  by (auto simp: GetChatMessage_def db_read_def db_call_def dest!: first_chat_mem split: option.splits)

lemma enqueue_bus: "out_bus (ix_Rest (snd (enqueue kind key w))) = out_bus (ix_Rest w)"
  by (auto simp: enqueue_def db_call_def outside_upd_def split: option.splits)

text \<open>The world of the handler once the message is stored.\<close>

definition chat_world ::
  "('v, 'x) handler_env \<Rightarrow> time \<Rightarrow> delivery \<Rightarrow> string \<Rightarrow> string \<Rightarrow> reply_ref option \<Rightarrow> ('v, 'x) hworld \<Rightarrow> ('v, 'x) hworld" where
  "chat_world env now dl streamer createdAt reply w =
     (let w0 = snd (he_sync env (dl_userDID dl) w);
          w1 = outside_upd (\<lambda>s. s\<lparr>out_spawned := out_spawned s @ [streamer]\<rparr>) w0;
          w2 = snd (GetUserBlock streamer (dl_userDID dl) w1)
      in snd (createOrVerify (ChatRow (chat_row env now dl streamer createdAt reply)) w2))"

text \<open>A message \<open>m\<close> read back in a world, and what the rules of the streamer say of its author there: \<open>ChatAllowed\<close> says
  yes, and if the database answers and no young copy of the rules is cached, then the rules do.\<close>

definition author_admitted :: "('v, 'x) handler_env \<Rightarrow> time \<Rightarrow> string \<Rightarrow> string \<Rightarrow> ('v, 'x) hworld \<Rightarrow> bool" where
  "author_admitted env now streamer author u \<longleftrightarrow>
     fst (ChatAllowed (he_account env u) now streamer author (out_cache (ix_Rest u)) u) \<and>
     ((\<forall>n. ix_Fault u n = None) \<and> streamer \<noteq> [] \<and> author \<noteq> [] \<and>
      (\<forall>rules at. out_cache (ix_Rest u) streamer = Some (rules, at) \<longrightarrow> rulesCacheTTL \<le> now - at) \<longrightarrow>
      admitted_by_rules (he_account env u) streamer author (ix_Rows u))"

text \<open>What a chat message needs to be broadcast, and what is then sent: \<open>u\<close> is the world the message is read back in.\<close>

definition may_broadcast ::
  "('v, 'x) handler_env \<Rightarrow> time \<Rightarrow> delivery \<Rightarrow> string \<Rightarrow> string \<Rightarrow> ('v, 'x) hworld \<Rightarrow> ('v, 'x) hworld \<Rightarrow> bool" where
  "may_broadcast env now dl streamer createdAt stored w' \<longleftrightarrow> still_live env now createdAt \<and>
     (\<exists>m u v. GetChatMessage (record_uri dl) stored = (Inr (Some m), u) \<and> view_of env (Some (ChatRow m)) u = Inr v \<and>
        ChatRow m \<in> set (ix_Rows w') \<and> cm_URI m = record_uri dl \<and> cm_DeletedAt m = None \<and> ix_Rows u = ix_Rows w' \<and>
        author_admitted env now streamer (cm_RepoDID m) u \<and>
        out_bus (ix_Rest w') = out_bus (ix_Rest stored) @ [(streamer, RowView (he_decorate env streamer u v))])"

lemma same_bus: "same w w' \<Longrightarrow> out_bus (ix_Rest w') = out_bus (ix_Rest w)"
  by (simp add: same_def said_def)

lemma chat_broadcast_said:
  fixes w :: "('v, 'x) hworld"
  assumes "said (snd (chat_broadcast env now dl s c w)) \<noteq> said w"
  shows "may_broadcast env now dl s c w (snd (chat_broadcast env now dl s c w))"
proof -
  have live: "still_live env now c" using assms by (auto simp: chat_broadcast_def split: if_splits)
  obtain r w1 where g: "GetChatMessage (record_uri dl) w = (r, w1)" by (cases "GetChatMessage (record_uri dl) w")
  then have w1: "same w w1" using snd_same [OF reads_same(4)] by blast
  then have "r \<noteq> Inr None" "\<And>e. r \<noteq> Inl e" using assms live g by (auto simp: chat_broadcast_def same_def)
  then obtain m where m: "r = Inr (Some m)" by (metis not_None_eq old.sum.exhaust)
  obtain v where v: "view_of env (Some (ChatRow m)) w1 = Inr v"
    using assms live g m w1 by (cases "view_of env (Some (ChatRow m)) w1") (auto simp: chat_broadcast_def same_def)
  obtain allowed cache w2 where a: "ChatAllowed (he_account env w1) now s (cm_RepoDID m) (out_cache (ix_Rest w1)) w1 = (allowed, cache, w2)"
    by (metis prod_cases3)
  then have w2: "same w1 w2" using ChatAllowed_same [of w1 "he_account env w1" now s "cm_RepoDID m" "out_cache (ix_Rest w1)"] by simp
  then have "same w w2" using same_trans [OF w1] by blast
  then have al: "allowed"
    using assms live g m v a by (cases allowed) (auto simp: chat_broadcast_def same_def said_def outside_upd_def Let_def)
  have rows: "ix_Rows (snd (chat_broadcast env now dl s c w)) = ix_Rows w"
    using chat_broadcast_kept [of env now dl s c w] by (simp add: kept_def del: chat_broadcast_kept)
  have rows1: "ix_Rows w1 = ix_Rows w" using w1 by (simp add: same_def kept_def)
  have bus: "out_bus (ix_Rest (snd (chat_broadcast env now dl s c w))) = out_bus (ix_Rest w) @ [(s, RowView (he_decorate env s w1 v))]"
    using live g m v a al same_bus [OF \<open>same w w2\<close>]
    by (simp add: chat_broadcast_def Let_def logged_def enqueue_bus) (simp add: publish_def outside_upd_def)
  have "author_admitted env now s (cm_RepoDID m) w1"
    using al a ChatAllowed_rules [of w1 s "cm_RepoDID m" "out_cache (ix_Rest w1)" now "he_account env w1"]
    unfolding author_admitted_def by simp
  then show ?thesis
    using live GetChatMessage_found [OF g [unfolded m]] g m v rows rows1 bus unfolding may_broadcast_def by auto
qed

lemma unheld_changes: "\<not> holds_version row rows \<Longrightarrow> put_by primary_key row rows \<noteq> rows"
proof
  assume "\<not> holds_version row rows" "put_by primary_key row rows = rows"
  then show False using find_put_by [of primary_key "primary_key row" row rows] by (simp add: holds_version_def)
qed

lemma GetUserBlock_no: "GetUserBlock user subject w = (Inr False, w1) \<Longrightarrow> \<not> blocks_between user subject (ix_Rows w)"
  by (auto simp: GetUserBlock_def db_read_def db_call_def split: option.splits)


lemma h_chat_screened:
  fixes w :: "('v, 'x) hworld" and now :: time and dl :: delivery and s c :: string and r :: "reply_ref option" and ls :: "string list"
  assumes env: "accounts_known env"
  defines "row \<equiv> ChatRow (chat_row env now dl s c r)" and "w' \<equiv> snd (h_chat env now dl s c r ls w)"
  shows "same w w' \<or>
    \<not> blocks_between s (dl_userDID dl) (ix_Rows w) \<and> \<not> script_link env ls \<and> \<not> holds_version row (ix_Rows w) \<and>
    kept w' = (put_by primary_key row (ix_Rows w), ix_Fault w) \<and> (said w' = said w \<or>
       out_bus (ix_Rest (chat_world env now dl s c r w)) = out_bus (ix_Rest w) \<and>
       may_broadcast env now dl s c (chat_world env now dl s c r w) w')"
proof -
  obtain q w0 where q: "he_sync env (dl_userDID dl) w = (q, w0)" by (cases "he_sync env (dl_userDID dl) w")
  then have w0: "same w w0" using snd_same [OF known_same [OF env]] by blast
  let ?w1 = "outside_upd (\<lambda>sa. sa\<lparr>out_spawned := out_spawned sa @ [s]\<rparr>) w0"
  obtain b w2 where b: "GetUserBlock s (dl_userDID dl) ?w1 = (b, w2)" by (cases "GetUserBlock s (dl_userDID dl) ?w1")
  have w2: "same w w2"
    using same_trans [OF same_trans [OF w0 spawned_same] snd_same [OF reads_same(8) b]] .
  show ?thesis
  proof (cases "(\<exists>e. q = Inl e) \<or> b \<noteq> Inr False \<or> script_link env ls")
    case True
    then have "same w w'"
      using w0 w2 q b by (cases q; cases b) (auto simp: w'_def h_chat_def on_ok_def)
    then show ?thesis by blast
  next
    case False
    then obtain a where a: "q = Inr a" and b': "b = Inr False" and l: "\<not> script_link env ls" by (cases q) auto
    obtain e w3 where e: "createOrVerify row w2 = (e, w3)" by (cases "createOrVerify row w2")
    have w': "w' = (case e of None \<Rightarrow> snd (chat_broadcast env now dl s c w3) | Some _ \<Rightarrow> w3)"
      using q a b b' l e by (auto simp: w'_def row_def h_chat_def on_ok_def split: option.split)
    have free: "\<not> blocks_between s (dl_userDID dl) (ix_Rows w)"
      using GetUserBlock_no [OF b [unfolded b']] w0 by (simp add: same_def kept_def outside_upd_def)
    show ?thesis
      using createOrVerify_cases [OF e]
    proof (elim disjE conjE)
      assume "e \<noteq> None" "same w2 w3"
      then show ?thesis using same_trans [OF w2] w' by auto
    next
      assume st: "e = None" "kept w3 = (put_by primary_key row (ix_Rows w2), ix_Fault w2)" "\<not> holds_version row (ix_Rows w2)"
        "ix_Rest w3 = ix_Rest w2"
      have s3: "said w3 = said w" and b3: "out_bus (ix_Rest w3) = out_bus (ix_Rest w)"
        using st(4) w2 by (simp_all add: same_def said_def)
      have k: "kept w' = (put_by primary_key row (ix_Rows w), ix_Fault w)"
        using st w2 by (simp add: w' same_def kept_def [of w] kept_def [of w2])
      have "chat_world env now dl s c r w = w3"
        using q b e unfolding chat_world_def Let_def row_def by simp
      then have "said w' = said w \<or> out_bus (ix_Rest (chat_world env now dl s c r w)) = out_bus (ix_Rest w) \<and>
          may_broadcast env now dl s c (chat_world env now dl s c r w) w'"
        using chat_broadcast_said [of env now dl s c w3] st(1) b3 by (auto simp: w' s3)
      then show ?thesis using free l st(3) k w2 by (simp add: same_def kept_def)
    qed
  qed
qed

text \<open>
  C10. Chat is screened.  A chat message is stored only when the streamer has not blocked its author and no link of it is a
  script; it is then stored in the position of its own time or of its arrival, whichever is earlier, and no other row changes.
  It is announced only by the delivery that stores it, only within two minutes of its time, and only when \<open>ChatAllowed\<close> admits
  the author of the message read back under its URI, in the world, with the cache and at the instant of the handler; where the
  database answers and no young copy of the rules is cached, that is when the streamer's rules in the index admit him.  It
  is then sent to the streamer's subscribers, once and with the streamer's decoration, and nothing else is.
\<close>

theorem chat_is_screened:
  assumes "accounts_known env"
  shows "let row = chat_row env now dl streamer createdAt reply; w' = snd (h_chat env now dl streamer createdAt reply links w) in
    (ix_Rows w' \<noteq> ix_Rows w \<longrightarrow>
       \<not> blocks_between streamer (dl_userDID dl) (ix_Rows w) \<and> \<not> script_link env links \<and>
       ix_Rows w' = put_by primary_key (ChatRow row) (ix_Rows w) \<and> cm_CreatedAt row \<le> cm_IndexedAt row \<and> cm_IndexedAt row = now) \<and>
    (said w' \<noteq> said w \<longrightarrow> ix_Rows w' \<noteq> ix_Rows w \<and>
       out_bus (ix_Rest (chat_world env now dl streamer createdAt reply w)) = out_bus (ix_Rest w) \<and>
       may_broadcast env now dl streamer createdAt (chat_world env now dl streamer createdAt reply w) w')"
proof -
  have "cm_CreatedAt (chat_row env now dl streamer createdAt reply) \<le> now"
    "cm_IndexedAt (chat_row env now dl streamer createdAt reply) = now"
    by (auto simp: chat_row_def chat_time_def split: sum.split)
  then show ?thesis
    using h_chat_screened [OF assms(1), where now = now and dl = dl and s = streamer and c = createdAt and r = reply and ls = links and w = w] unheld_changes [THEN not_sym]
    unfolding Let_def by (auto simp: same_def kept_def)
qed

theorem chat_is_screened_witness:
  "let dl = one_delivery ''did:a'' ''m'' 1 ''x'' False; w' = snd (h_chat (demo_env chat_demo) 7 dl ''did:s'' ''12345'' None [] (quiet ())) in
   said w' \<noteq> said (quiet ()) \<and> \<not> blocks_between ''did:s'' ''did:a'' (ix_Rows (quiet ())) \<and>
   may_broadcast (demo_env chat_demo) 7 dl ''did:s'' ''12345'' (chat_world (demo_env chat_demo) 7 dl ''did:s'' ''12345'' None (quiet ())) w'"
proof -
  let ?dl = "one_delivery ''did:a'' ''m'' 1 ''x'' False"
  have "said (snd (h_chat (demo_env chat_demo) 7 ?dl ''did:s'' ''12345'' None [] (quiet ()))) \<noteq> said (quiet ())" by code_simp
  moreover have "\<not> blocks_between ''did:s'' ''did:a'' (ix_Rows (quiet ()))" by code_simp
  ultimately show ?thesis
    using chat_is_screened [OF demo_known, of chat_demo 7 ?dl "''did:s''" "''12345''" None "[]" "quiet ()"]
    by (auto simp: Let_def)
qed


section \<open>Where redelivery and keys go wrong\<close>

definition deliver_all :: "('v, 'x) handler_env \<Rightarrow> (time \<times> delivery) list \<Rightarrow> ('v, 'x) hworld \<Rightarrow> ('v, 'x) hworld" where
  "deliver_all env ds w = fold (\<lambda>(now, dl) w. snd (handleCreateUpdate env now dl w)) ds w"

text \<open>Blocks are keyed by their record key alone: a block of another account under the same key replaces one.\<close>

lemma foreign_block_replaces:
  "let env = demo_env (\<lambda>_. GraphBlock ''did:x'');
       w1 = deliver_all env [(1, one_delivery ''did:victim'' ''k'' 1 ''b'' False)] (quiet ());
       w2 = deliver_all env [(2, one_delivery ''did:other'' ''k'' 1 ''c'' False)] w1 in
   blocks_between ''did:victim'' ''did:x'' (ix_Rows w1) \<and> \<not> blocks_between ''did:victim'' ''did:x'' (ix_Rows w2)"
  by code_simp

text \<open>A resync that delivers an older version first announces both versions again: only the version last stored is recognised.\<close>

definition livestream_version :: "nat \<Rightarrow> any_record" where
  "livestream_version n = LivestreamRec \<lparr>lr_CreatedAt = ''t'', lr_Post = None, lr_Ended = (n = 2), lr_LastSeenAt = None,
     lr_IdleTimeoutSeconds = None\<rparr>"

lemma replayed_versions_announced_again:
  "let env = demo_env livestream_version; ds = [(1, one_delivery ''did:a'' ''k'' 1 ''v1'' False), (2, one_delivery ''did:a'' ''k'' 2 ''v2'' False)];
       w1 = deliver_all env ds (quiet ()) in
   length (out_bus (ix_Rest w1)) = 2 \<and> length (out_bus (ix_Rest (deliver_all env ds w1))) = 4"
  by code_simp

text \<open>An invite is an upsert: every delivery of it outside a first sync notifies again.\<close>

lemma invite_notifies_again:
  "let env = demo_env (\<lambda>_. BetaInviteRec ''did:x'' ''f''); d = (1, one_delivery ''did:i'' ''k'' 1 ''v1'' False) in
   out_notified (ix_Rest (deliver_all env [d, d] (quiet ()))) = [(''did:x'', ''f''), (''did:x'', ''f'')]"
  by code_simp

text \<open>An edit of a chat message announces the version with the smaller CID, here the old one.\<close>

lemma edit_announces_old_version:
  "out_bus (ix_Rest (deliver_all (demo_env (\<lambda>_. ChatMessageRec ''did:s'' ''1'' None []))
     [(1, one_delivery ''did:a'' ''k'' 1 ''old'' False), (2, one_delivery ''did:a'' ''k'' 1 ''zzz'' False)] (quiet ()))) =
   [(''did:s'', RowView ''old''), (''did:s'', RowView ''old'')]"
  by code_simp

text \<open>Equal records of two accounts have one CID and so one row: the message of the second is taken for a redelivery.\<close>

lemma equal_messages_collide:
  "cm_RepoDID (hd (chat_rows (ix_Rows (deliver_all (demo_env (\<lambda>_. ChatMessageRec ''did:s'' ''1'' None []))
     [(1, one_delivery ''did:a'' ''k'' 1 ''x'' False), (2, one_delivery ''did:b'' ''k'' 1 ''x'' False)] (quiet ()))))) = ''did:a'' \<and>
   length (chat_rows (ix_Rows (deliver_all (demo_env (\<lambda>_. ChatMessageRec ''did:s'' ''1'' None []))
     [(1, one_delivery ''did:a'' ''k'' 1 ''x'' False), (2, one_delivery ''did:b'' ''k'' 1 ''x'' False)] (quiet ())))) = 1"
  by code_simp

end
