(* ===== verification/ViewLog.thy ===== *)
theory ViewLog
  imports Metafile "HOL-Library.AList"
begin

text \<open>
  View counts from the logs of playback (\<open>viewlog/event.go\<close>, \<open>viewlog/aggregate.go\<close>): the files of a window in the order
  they are read, the attribution of segment requests to videos, the credit of bytes and duration to tracks, and the totals.
  Unzipping and decoding of a file, the metafiles and the track records are parameters; maps that are iterated
  are association lists, in whatever order.
\<close>

section \<open>Arithmetic\<close>

text \<open>Division of int64 truncates toward zero; the divisors of this package are positive.\<close>

definition go_quot :: "int \<Rightarrow> int \<Rightarrow> int" where
  "go_quot a b = (if a < 0 then - (- a div b) else a div b)"

lemma go_quot_nonneg: "0 \<le> a \<Longrightarrow> go_quot a b = a div b" by (simp add: go_quot_def)

section \<open>Events\<close>

definition EventTypeManifestRequest :: string where "EventTypeManifestRequest = ''manifest_request''"
definition EventTypeSegmentRequest :: string where "EventTypeSegmentRequest = ''segment_request''"

record view_event =
  ev_Ts :: time
  ev_Type :: string
  ev_SID :: string
  ev_VideoURI :: string
  ev_CID :: string
  ev_RangeStart :: int
  ev_RangeEnd :: int
  ev_BytesSent :: int

record strong_ref =
  sr_Uri :: string
  sr_Cid :: string

record TrackUsage =
  tu_Track :: strong_ref
  tu_Bytes :: int
  tu_DurationMS :: int

record VideoCount =
  ct_VideoURI :: string
  ct_Count :: int
  ct_Tracks :: "TrackUsage list"

record AggregateResult =
  rs_VideoCounts :: "VideoCount list"
  rs_FilesRead :: nat
  rs_EventsRead :: nat
  rs_MetafilesLoaded :: nat

section \<open>Credit\<close>

text \<open>One segment of the loop of \<open>rangeOverlapInTrack\<close>.\<close>

definition overlap_segment :: "int \<Rightarrow> int \<Rightarrow> nat \<Rightarrow> MetafileSegment \<Rightarrow> int \<times> int \<Rightarrow> int \<times> int" where
  "overlap_segment rangeStart rangeEnd timescale seg acc =
     (if sg_Size seg \<le> 0 then acc
      else
        (let segLast = wrap64 (wrap64 (sg_Offset seg + sg_Size seg) - 1);
             overlapStart = max rangeStart (sg_Offset seg);
             overlapEnd = min rangeEnd segLast in
         if overlapEnd < overlapStart then acc
         else
           (let overlap = wrap64 (wrap64 (overlapEnd - overlapStart) + 1);
                segDurMS = go_quot (wrap64 (wrap64 (int (sg_DurationTicks seg)) * 1000)) (int timescale) in
            (wrap64 (fst acc + overlap), wrap64 (snd acc + go_quot (wrap64 (segDurMS * overlap)) (sg_Size seg))))))"

definition rangeOverlapInTrack :: "int \<Rightarrow> int \<Rightarrow> MetafileTrack \<Rightarrow> int \<times> int" where
  "rangeOverlapInTrack rangeStart rangeEnd track =
     (if rangeEnd < rangeStart \<or> tk_Timescale track = 0 then (0, 0)
      else fold (overlap_segment rangeStart rangeEnd (tk_Timescale track)) (tk_Segments track) (0, 0))"

definition metafileBodyBytes :: "Metafile \<Rightarrow> int" where
  "metafileBodyBytes meta =
     fold (\<lambda>t total. fold (\<lambda>seg total. wrap64 (total + sg_Size seg)) (tk_Segments (snd t)) total) (mf_Tracks meta) 0"

definition prorateInTrack :: "int \<Rightarrow> int \<Rightarrow> MetafileTrack \<Rightarrow> int \<times> int" where
  "prorateInTrack bytesSent totalBody track =
     (if bytesSent \<le> 0 \<or> totalBody \<le> 0 \<or> tk_Timescale track = 0 then (0, 0)
      else
        (let sent = min bytesSent totalBody;
             trackBytes = fold (\<lambda>seg n. wrap64 (n + sg_Size seg)) (tk_Segments track) 0;
             trackTicks = fold (\<lambda>seg n. (n + sg_DurationTicks seg) mod 2 ^ 64) (tk_Segments track) 0 in
         if trackBytes = 0 then (0, 0)
         else
           (let trackDurMS = go_quot (wrap64 (wrap64 (int trackTicks) * 1000)) (int (tk_Timescale track)) in
            (go_quot (wrap64 (sent * trackBytes)) totalBody, go_quot (wrap64 (trackDurMS * sent)) totalBody))))"

section \<open>Aggregation\<close>

text \<open>
  What a window's pass keeps.  \<open>fetch n cid\<close> is the answer of the store to the n-th fetch, and \<open>refs n cid\<close>
  that of the index of tracks; an error is an answer without a metafile.
\<close>

record agg =
  ag_sidVideo :: "string \<rightharpoonup> string"
  ag_segments :: "((string \<times> string) \<times> nat) list"
  ag_totals :: "((string \<times> string) \<times> TrackUsage) list"
  ag_metas :: "string \<rightharpoonup> Metafile option"
  ag_refs :: "string \<rightharpoonup> (string \<rightharpoonup> strong_ref)"
  ag_fetches :: nat
  ag_refFetches :: nat
  ag_loaded :: nat
  ag_events :: nat

record agg_input =
  in_WindowStart :: time
  in_WindowEnd :: time
  in_Threshold :: int
  in_ReadMargin :: duration
  in_FetchMetafile :: "nat \<Rightarrow> string \<Rightarrow> go_error + Metafile option"
  in_FetchTrackRefs :: "nat \<Rightarrow> string \<Rightarrow> go_error + (string \<rightharpoonup> strong_ref)"

definition cached_metafile :: "agg_input \<Rightarrow> string \<Rightarrow> agg \<Rightarrow> Metafile option \<times> agg" where
  "cached_metafile inp cid a =
     (case ag_metas a cid of
        Some m \<Rightarrow> (m, a)
      | None \<Rightarrow>
          (let m = (case in_FetchMetafile inp (ag_fetches a) cid of Inr m \<Rightarrow> m | Inl _ \<Rightarrow> None) in
           (m, a\<lparr>ag_metas := (ag_metas a)(cid \<mapsto> m), ag_fetches := ag_fetches a + 1,
                 ag_loaded := ag_loaded a + (if m = None then 0 else 1)\<rparr>)))"

definition cached_refs :: "agg_input \<Rightarrow> string \<Rightarrow> agg \<Rightarrow> (string \<rightharpoonup> strong_ref) \<times> agg" where
  "cached_refs inp cid a =
     (case ag_refs a cid of
        Some r \<Rightarrow> (r, a)
      | None \<Rightarrow>
          (let r = (case in_FetchTrackRefs inp (ag_refFetches a) cid of Inr r \<Rightarrow> r | Inl _ \<Rightarrow> Map.empty) in
           (r, a\<lparr>ag_refs := (ag_refs a)(cid \<mapsto> r), ag_refFetches := ag_refFetches a + 1\<rparr>)))"

definition track_credit :: "view_event \<Rightarrow> Metafile \<Rightarrow> MetafileTrack \<Rightarrow> int \<times> int" where
  "track_credit ev meta track =
     (if 0 < ev_BytesSent ev \<and> ev_RangeStart ev = 0 \<and> ev_RangeEnd ev = 0
      then prorateInTrack (ev_BytesSent ev) (metafileBodyBytes meta) track
      else rangeOverlapInTrack (wrap64 (ev_RangeStart ev - mf_FlatHeaderSize meta)) (wrap64 (ev_RangeEnd ev - mf_FlatHeaderSize meta)) track)"

definition credit_track ::
  "view_event \<Rightarrow> string \<Rightarrow> Metafile \<Rightarrow> (string \<rightharpoonup> strong_ref) \<Rightarrow> string \<times> MetafileTrack \<Rightarrow>
   ((string \<times> string) \<times> TrackUsage) list \<Rightarrow> ((string \<times> string) \<times> TrackUsage) list" where
  "credit_track ev video meta refs t totals =
     (case track_credit ev meta (snd t) of
        (bytes, durMS) \<Rightarrow>
          if bytes = 0 then totals
          else
            (case refs (fst t) of
               None \<Rightarrow> totals
             | Some ref \<Rightarrow>
                 if sr_Uri ref = '''' then totals
                 else
                   (let k = (video, sr_Uri ref);
                        tu = (case map_of totals k of Some tu \<Rightarrow> tu | None \<Rightarrow> \<lparr>tu_Track = ref, tu_Bytes = 0, tu_DurationMS = 0\<rparr>) in
                    AList.update k (tu\<lparr>tu_Bytes := wrap64 (tu_Bytes tu + bytes), tu_DurationMS := wrap64 (tu_DurationMS tu + durMS)\<rparr>)
                      totals)))"

definition in_window :: "agg_input \<Rightarrow> time \<Rightarrow> bool" where
  "in_window inp t = (\<not> t < in_WindowStart inp \<and> t < in_WindowEnd inp)"

definition account_segment :: "agg_input \<Rightarrow> view_event \<Rightarrow> string \<Rightarrow> agg \<Rightarrow> agg" where
  "account_segment inp ev video a =
     (if ev_CID ev = '''' \<or> ev_RangeEnd ev < ev_RangeStart ev then a
      else
        (case cached_metafile inp (ev_CID ev) a of
           (None, a1) \<Rightarrow> a1
         | (Some meta, a1) \<Rightarrow>
             (case cached_refs inp (ev_CID ev) a1 of
                (refs, a2) \<Rightarrow>
                  a2\<lparr>ag_totals := fold (credit_track ev video meta refs) (mf_Tracks meta) (ag_totals a2)\<rparr>)))"

definition handle_event :: "agg_input \<Rightarrow> view_event \<Rightarrow> agg \<Rightarrow> agg" where
  "handle_event inp ev a =
     (if ev_Type ev = EventTypeManifestRequest then
        (let a1 = (if ev_SID ev \<noteq> '''' \<and> ev_VideoURI ev \<noteq> ''''
                   then a\<lparr>ag_sidVideo := (ag_sidVideo a)(ev_SID ev \<mapsto> ev_VideoURI ev)\<rparr> else a) in
         a1\<lparr>ag_events := ag_events a1 + 1\<rparr>)
      else if ev_Type ev = EventTypeSegmentRequest then
        (if \<not> in_window inp (ev_Ts ev) then a
         else if ev_SID ev = '''' then a
         else
           (case ag_sidVideo a (ev_SID ev) of
              None \<Rightarrow> a
            | Some video \<Rightarrow>
                (let p = (ev_SID ev, video);
                     n = (case map_of (ag_segments a) p of Some n \<Rightarrow> n | None \<Rightarrow> 0) in
                 account_segment inp ev video
                   (a\<lparr>ag_segments := AList.update p (n + 1) (ag_segments a), ag_events := ag_events a + 1\<rparr>))))
      else a)"

section \<open>Files\<close>

definition path_Base :: "string \<Rightarrow> string" where
  "path_Base p =
     (if p = '''' then ''.''
      else
        (let trimmed = rev (dropWhile (\<lambda>c. c = CHR ''/'') (rev p)) in
         if trimmed = '''' then ''/'' else rev (takeWhile (\<lambda>c. c \<noteq> CHR ''/'') (rev trimmed))))"

definition log_suffix :: string where "log_suffix = ''.jsonl.gz''"

text \<open>\<open>parse\<close> is \<open>time.Parse\<close> with the format of keys.\<close>

definition parseViewLogKeyTime :: "(string \<Rightarrow> time option) \<Rightarrow> string \<Rightarrow> time option" where
  "parseViewLogKeyTime parse key =
     (let base = path_Base key in
      if \<not> suffix log_suffix base then None else parse (take (length base - length log_suffix) base))"

text \<open>Ordered by time, and by key where times are equal.\<close>

definition picked_files :: "(string \<Rightarrow> time option) \<Rightarrow> agg_input \<Rightarrow> duration \<Rightarrow> string list \<Rightarrow> (string \<times> time) list" where
  "picked_files parse inp readMargin keys =
     sort_key snd (sort_key fst
       (List.map_filter (\<lambda>k. case parseViewLogKeyTime parse k of
            None \<Rightarrow> None
          | Some ts \<Rightarrow> if ts < in_WindowStart inp - readMargin \<or> \<not> ts < in_WindowEnd inp then None else Some (k, ts)) keys))"

text \<open>The events of a file that come before an error are handled; the error is logged.\<close>

definition read_files :: "(string \<Rightarrow> view_event list \<times> go_error option) \<Rightarrow> agg_input \<Rightarrow> (string \<times> time) list \<Rightarrow> agg \<Rightarrow> agg" where
  "read_files readFile inp files a = fold (\<lambda>f. fold (handle_event inp) (fst (readFile (fst f)))) files a"

definition new_agg :: agg where
  "new_agg = \<lparr>ag_sidVideo = Map.empty, ag_segments = [], ag_totals = [], ag_metas = Map.empty, ag_refs = Map.empty,
     ag_fetches = 0, ag_refFetches = 0, ag_loaded = 0, ag_events = 0\<rparr>"

section \<open>Totals\<close>

text \<open>\<open>perVideo\<close>, then one row for each video counted or credited.\<close>

definition per_video :: "int \<Rightarrow> ((string \<times> string) \<times> nat) list \<Rightarrow> string \<Rightarrow> nat" where
  "per_video threshold segments video = length (filter (\<lambda>(p, n). snd p = video \<and> threshold \<le> int n) segments)"

definition video_set :: "int \<Rightarrow> agg \<Rightarrow> string list" where
  "video_set threshold a =
     remdups (map (\<lambda>(p, n). snd p) (filter (\<lambda>(p, n). threshold \<le> int n) (ag_segments a)) @ map (\<lambda>(k, tu). fst k) (ag_totals a))"

definition tracks_of :: "agg \<Rightarrow> string \<Rightarrow> TrackUsage list" where
  "tracks_of a video = sort_key (\<lambda>tu. sr_Uri (tu_Track tu)) (map snd (filter (\<lambda>(k, tu). fst k = video) (ag_totals a)))"

definition video_counts :: "int \<Rightarrow> agg \<Rightarrow> VideoCount list" where
  "video_counts threshold a =
     map (\<lambda>v. \<lparr>ct_VideoURI = v, ct_Count = int (per_video threshold (ag_segments a) v), ct_Tracks = tracks_of a v\<rparr>)
       (sort (video_set threshold a))"

definition AggregateWindow ::
  "(string \<Rightarrow> time option) \<Rightarrow> go_error + string list \<Rightarrow> (string \<Rightarrow> view_event list \<times> go_error option) \<Rightarrow> agg_input \<Rightarrow>
   go_error + AggregateResult" where
  "AggregateWindow parse listing readFile inp =
     (if in_WindowEnd inp \<le> in_WindowStart inp then Inl (Sentinel ''viewlog: AggregateWindow needs a positive window'')
      else
        (let threshold = (if in_Threshold inp \<le> 0 then 1 else in_Threshold inp);
             readMargin = (if in_ReadMargin inp \<le> 0 then hour else in_ReadMargin inp) in
         case listing of
           Inl e \<Rightarrow> Inl (WrapErr ''viewlog: list logs'' [e])
         | Inr keys \<Rightarrow>
             (let files = picked_files parse inp readMargin keys;
                  a = read_files readFile inp files new_agg in
              Inr \<lparr>rs_VideoCounts = video_counts threshold a, rs_FilesRead = length files, rs_EventsRead = ag_events a,
                   rs_MetafilesLoaded = ag_loaded a\<rparr>)))"


section \<open>What is counted\<close>

text \<open>The video a session watches: that of its latest manifest request.\<close>

definition latest_video :: "view_event list \<Rightarrow> string \<Rightarrow> string option" where
  "latest_video evs sid =
     (case rev (filter (\<lambda>e. ev_Type e = EventTypeManifestRequest \<and> ev_SID e = sid \<and> sid \<noteq> '''' \<and> ev_VideoURI e \<noteq> '''') evs) of
        [] \<Rightarrow> None | e # _ \<Rightarrow> Some (ev_VideoURI e))"

text \<open>How many segments of a video a session requested in the window.\<close>

definition requests :: "agg_input \<Rightarrow> view_event list \<Rightarrow> string \<Rightarrow> string \<Rightarrow> nat" where
  "requests inp evs sid video =
     length (filter (\<lambda>i. ev_Type (evs ! i) = EventTypeSegmentRequest \<and> in_window inp (ev_Ts (evs ! i)) \<and> ev_SID (evs ! i) = sid \<and>
        sid \<noteq> '''' \<and> latest_video (take i evs) sid = Some video) [0..<length evs])"

lemma latest_video_snoc:
  "latest_video (evs @ [e]) sid =
     (if ev_Type e = EventTypeManifestRequest \<and> ev_SID e = sid \<and> sid \<noteq> '''' \<and> ev_VideoURI e \<noteq> '''' then Some (ev_VideoURI e)
      else latest_video evs sid)"
  by (simp add: latest_video_def)

lemma requests_snoc:
  "requests inp (evs @ [e]) sid video = requests inp evs sid video +
     (if ev_Type e = EventTypeSegmentRequest \<and> in_window inp (ev_Ts e) \<and> ev_SID e = sid \<and> sid \<noteq> '''' \<and>
         latest_video evs sid = Some video then 1 else 0)"
proof -
  have "filter (\<lambda>i. ev_Type ((evs @ [e]) ! i) = EventTypeSegmentRequest \<and> in_window inp (ev_Ts ((evs @ [e]) ! i)) \<and>
      ev_SID ((evs @ [e]) ! i) = sid \<and> sid \<noteq> '''' \<and> latest_video (take i (evs @ [e])) sid = Some video) [0..<length evs] =
    filter (\<lambda>i. ev_Type (evs ! i) = EventTypeSegmentRequest \<and> in_window inp (ev_Ts (evs ! i)) \<and> ev_SID (evs ! i) = sid \<and>
        sid \<noteq> '''' \<and> latest_video (take i evs) sid = Some video) [0..<length evs]"
    by (rule filter_cong) (auto simp: nth_append)
  then show ?thesis by (simp add: requests_def)
qed

lemma event_types: "EventTypeManifestRequest \<noteq> EventTypeSegmentRequest"
  by (simp add: EventTypeManifestRequest_def EventTypeSegmentRequest_def)

text \<open>Accounting changes the totals and the caches only.\<close>

lemma account_segment_keeps [simp]:
  "ag_sidVideo (account_segment inp ev video a) = ag_sidVideo a"
  "ag_segments (account_segment inp ev video a) = ag_segments a"
  by (auto simp: account_segment_def cached_metafile_def cached_refs_def Let_def split: option.splits prod.splits)

definition count_of :: "('k \<times> nat) list \<Rightarrow> 'k \<Rightarrow> nat" where
  "count_of xs k = (case map_of xs k of Some n \<Rightarrow> n | None \<Rightarrow> 0)"

lemma count_of_update: "count_of (AList.update p n xs) k = (if k = p then n else count_of xs k)"
  by (simp add: count_of_def update_conv')

text \<open>What the state says after the events \<open>evs\<close>.\<close>

definition counted :: "agg_input \<Rightarrow> view_event list \<Rightarrow> agg \<Rightarrow> bool" where
  "counted inp evs a \<longleftrightarrow> ag_sidVideo a = latest_video evs \<and> distinct (map fst (ag_segments a)) \<and>
     (\<forall>sid video. count_of (ag_segments a) (sid, video) = requests inp evs sid video)"

lemma counted_step:
  assumes "counted inp evs a"
  shows "counted inp (evs @ [e]) (handle_event inp e a)"
proof -
  have c: "ag_sidVideo a = latest_video evs" "distinct (map fst (ag_segments a))"
    "\<And>sid video. count_of (ag_segments a) (sid, video) = requests inp evs sid video"
    using assms by (auto simp: counted_def)
  consider "ev_Type e = EventTypeManifestRequest" | "ev_Type e = EventTypeSegmentRequest" |
    "ev_Type e \<noteq> EventTypeManifestRequest" "ev_Type e \<noteq> EventTypeSegmentRequest" by blast
  then show ?thesis
  proof cases
    case 1
    then have "latest_video (evs @ [e]) =
        (if ev_SID e \<noteq> '''' \<and> ev_VideoURI e \<noteq> '''' then (latest_video evs)(ev_SID e \<mapsto> ev_VideoURI e) else latest_video evs)"
      by (auto simp: latest_video_snoc fun_eq_iff)
    then show ?thesis
      using 1 c event_types by (simp add: counted_def handle_event_def requests_snoc Let_def)
  next
    case 2
    then have l: "latest_video (evs @ [e]) = latest_video evs" using event_types by (auto simp: latest_video_snoc fun_eq_iff)
    show ?thesis
    proof (cases "in_window inp (ev_Ts e) \<and> ev_SID e \<noteq> '''' \<and> latest_video evs (ev_SID e) \<noteq> None")
      case True
      then obtain v where v: "latest_video evs (ev_SID e) = Some v" by blast
      have "handle_event inp e a = account_segment inp e v
          (a\<lparr>ag_segments := AList.update (ev_SID e, v) (count_of (ag_segments a) (ev_SID e, v) + 1) (ag_segments a),
             ag_events := ag_events a + 1\<rparr>)"
        using True 2 c(1) v event_types by (simp add: handle_event_def count_of_def Let_def)
      then show ?thesis
        using True 2 c v l by (simp add: counted_def requests_snoc count_of_update distinct_update)
    next
      case False
      then have "handle_event inp e a = a"
        using 2 c(1) event_types by (auto simp: handle_event_def split: option.split)
      then show ?thesis using False 2 c l by (auto simp: counted_def requests_snoc)
    qed
  next
    case 3
    then have "latest_video (evs @ [e]) = latest_video evs" by (auto simp: latest_video_snoc fun_eq_iff)
    then show ?thesis using 3 c by (auto simp: counted_def handle_event_def requests_snoc)
  qed
qed

lemma counted_fold: "counted inp pre a \<Longrightarrow> counted inp (pre @ evs) (fold (handle_event inp) evs a)"
proof (induction evs arbitrary: pre a)
  case (Cons e evs)
  from Cons.IH [OF counted_step [OF Cons.prems]] show ?case by simp
qed simp

lemma counted_new: "counted inp [] new_agg"
  by (auto simp: counted_def new_agg_def latest_video_def requests_def count_of_def fun_eq_iff)

lemma read_files_fold:
  "read_files readFile inp files a = fold (handle_event inp) (concat (map (\<lambda>f. fst (readFile (fst f))) files)) a"
  by (induction files arbitrary: a) (simp_all add: read_files_def)

lemma count_of_iff:
  assumes "distinct (map fst xs)" "0 < n"
  shows "count_of xs k = n \<longleftrightarrow> (k, n) \<in> set xs"
  using assms(2) by (auto simp: count_of_def map_of_eq_Some_iff [OF assms(1), symmetric] split: option.split)

lemma per_video_card:
  assumes d: "distinct (map fst xs)" and t: "0 < threshold"
  shows "per_video threshold xs video = card {sid. threshold \<le> int (count_of xs (sid, video))}"
proof -
  let ?f = "filter (\<lambda>(p, n). snd p = video \<and> threshold \<le> int n) xs"
  have "distinct (map fst ?f)" by (rule distinct_map_filter [OF d])
  moreover have "inj_on fst (set (map fst ?f))" by (auto simp: inj_on_def split: prod.splits)
  ultimately have "length ?f = card (fst ` set (map fst ?f))"
    using card_image [of fst "set (map fst ?f)"] distinct_card [of "map fst ?f"] by simp
  moreover have "fst ` set (map fst ?f) = {sid. threshold \<le> int (count_of xs (sid, video))}"
  proof (rule set_eqI)
    fix sid
    have "sid \<in> fst ` set (map fst ?f) \<longleftrightarrow> (\<exists>n. ((sid, video), n) \<in> set xs \<and> threshold \<le> int n)" by force
    also have "\<dots> \<longleftrightarrow> (\<exists>n. count_of xs (sid, video) = n \<and> threshold \<le> int n)"
      using count_of_iff [OF d, of _ "(sid, video)"] t by (metis bot_nat_0.not_eq_extremum of_nat_0 not_less)
    finally show "sid \<in> fst ` set (map fst ?f) \<longleftrightarrow> sid \<in> {sid. threshold \<le> int (count_of xs (sid, video))}" by simp
  qed
  ultimately show ?thesis by (simp add: per_video_def)
qed


text \<open>Each metafile is fetched at most once.\<close>

definition fetched :: "view_event list \<Rightarrow> agg \<Rightarrow> bool" where
  "fetched evs a \<longleftrightarrow> dom (ag_metas a) \<subseteq> ev_CID ` set evs \<and> ag_fetches a = card (dom (ag_metas a)) \<and> ag_loaded a \<le> ag_fetches a"

lemma fetched_finite: "fetched evs a \<Longrightarrow> finite (dom (ag_metas a))"
  by (meson List.finite_set finite_imageI fetched_def finite_subset)

lemma fetched_cached:
  assumes "fetched evs a" "ev_CID e \<in> ev_CID ` set evs"
  shows "fetched evs (snd (cached_metafile inp (ev_CID e) a))"
proof (cases "ag_metas a (ev_CID e)")
  case None
  then have "ev_CID e \<notin> dom (ag_metas a)" by blast
  then show ?thesis
    using None assms fetched_finite [OF assms(1)] by (auto simp: cached_metafile_def fetched_def Let_def)
qed (use assms in \<open>simp add: cached_metafile_def\<close>)

lemma fetched_frame: "\<lbrakk>fetched evs a; ag_metas b = ag_metas a; ag_fetches b = ag_fetches a; ag_loaded b = ag_loaded a\<rbrakk> \<Longrightarrow> fetched evs b"
  by (simp add: fetched_def)

lemma fetched_step:
  assumes "fetched evs a"
  shows "fetched (evs @ [e]) (handle_event inp e a)"
proof -
  have f: "fetched (evs @ [e]) a" using assms by (auto simp: fetched_def)
  have acc: "fetched (evs @ [e]) (account_segment inp e video b)" if "fetched (evs @ [e]) b" for video b
  proof (cases "cached_metafile inp (ev_CID e) b")
    case (Pair m b1)
    have "fetched (evs @ [e]) b1" using fetched_cached [OF that, of e inp] Pair by simp
    then show ?thesis
      using that by (auto simp: account_segment_def Pair cached_refs_def Let_def intro: fetched_frame split: option.split)
  qed
  show ?thesis
    unfolding handle_event_def Let_def
    by (auto split: option.split intro!: acc intro: fetched_frame [OF f] f)
qed

lemma fetched_fold: "fetched pre a \<Longrightarrow> fetched (pre @ evs) (fold (handle_event inp) evs a)"
proof (induction evs arbitrary: pre a)
  case (Cons e evs)
  from Cons.IH [OF fetched_step [OF Cons.prems]] show ?case by simp
qed simp

lemma sorted_remdups_strict: "sorted_wrt (<) (sort (remdups (xs :: 'a :: linorder list)))"
  by (simp add: strict_sorted_iff)

definition window_events ::
  "(string \<Rightarrow> time option) \<Rightarrow> (string \<Rightarrow> view_event list \<times> go_error option) \<Rightarrow> agg_input \<Rightarrow> string list \<Rightarrow> view_event list" where
  "window_events parse readFile inp keys =
     concat (map (\<lambda>f. fst (readFile (fst f))) (picked_files parse inp (if in_ReadMargin inp \<le> 0 then hour else in_ReadMargin inp) keys))"

text \<open>
  C20. Views.  Over the events of the picked files, in their order, the count of a video is the number of sessions that
  requested at least the threshold of its segments in the window, where a request counts for the video of the session's
  latest manifest request before it.  Every video with such a session has exactly one row, rows are ordered by URI, and
  each metafile is fetched at most once.
\<close>

theorem views_are_counted:
  assumes "AggregateWindow parse (Inr keys) readFile inp = Inr r"
  shows "let evs = window_events parse readFile inp keys in
    sorted_wrt (<) (map ct_VideoURI (rs_VideoCounts r)) \<and>
    (\<forall>vc\<in>set (rs_VideoCounts r). ct_Count vc = int (card {sid. max 1 (in_Threshold inp) \<le> int (requests inp evs sid (ct_VideoURI vc))})) \<and>
    (\<forall>sid video. max 1 (in_Threshold inp) \<le> int (requests inp evs sid video) \<longrightarrow> video \<in> ct_VideoURI ` set (rs_VideoCounts r)) \<and>
    rs_MetafilesLoaded r \<le> card (ev_CID ` set evs)"
proof -
  define evs where "evs = window_events parse readFile inp keys"
  define a where "a = fold (handle_event inp) evs new_agg"
  define t where "t = max 1 (in_Threshold inp)"
  have t: "0 < t" "(if in_Threshold inp \<le> 0 then 1 else in_Threshold inp) = t" by (auto simp: t_def)
  have r: "rs_VideoCounts r = video_counts t a" "rs_MetafilesLoaded r = ag_loaded a"
    using assms(1) t(2) by (auto simp: AggregateWindow_def read_files_fold Let_def a_def evs_def window_events_def split: if_splits)
  have c: "counted inp evs a" using counted_fold [OF counted_new, of inp evs] by (simp add: a_def)
  have f: "fetched evs a" using fetched_fold [of "[]" new_agg evs inp] by (simp add: a_def fetched_def new_agg_def)
  have d: "distinct (map fst (ag_segments a))" and n: "\<And>s v. count_of (ag_segments a) (s, v) = requests inp evs s v"
    using c by (auto simp: counted_def)
  have "ct_VideoURI ` set (video_counts t a) = set (video_set t a)" by (force simp: video_counts_def image_image)
  moreover have "sorted_wrt (<) (map ct_VideoURI (video_counts t a))"
    using sorted_remdups_strict by (simp add: video_counts_def video_set_def comp_def)
  moreover have "video \<in> set (video_set t a)" if "t \<le> int (requests inp evs sid video)" for sid video
  proof -
    have "((sid, video), requests inp evs sid video) \<in> set (ag_segments a)"
      using count_of_iff [OF d, of "requests inp evs sid video" "(sid, video)"] n that t(1) by simp
    then have "((sid, video), requests inp evs sid video) \<in> set (filter (\<lambda>(p, n). t \<le> int n) (ag_segments a))" using that by simp
    then have "video \<in> (\<lambda>(p, n). snd p) ` set (filter (\<lambda>(p, n). t \<le> int n) (ag_segments a))" by (rule rev_image_eqI) simp
    then show ?thesis unfolding video_set_def set_remdups set_append set_map by blast
  qed
  moreover have "ag_loaded a \<le> card (ev_CID ` set evs)"
    using f card_mono [of "ev_CID ` set evs" "dom (ag_metas a)"] by (auto simp: fetched_def)
  moreover have "ct_Count vc = int (card {sid. t \<le> int (requests inp evs sid (ct_VideoURI vc))})" if "vc \<in> set (video_counts t a)" for vc
    using that per_video_card [OF d t(1)] n by (auto simp: video_counts_def)
  ultimately show ?thesis
    unfolding Let_def r t_def [symmetric] evs_def [symmetric] by blast
qed


section \<open>What is credited\<close>

text \<open>A segment, and a track, whose figures stay in 64 bits.\<close>

definition seg_ms :: "MetafileTrack \<Rightarrow> MetafileSegment \<Rightarrow> int" where
  "seg_ms track seg = int (sg_DurationTicks seg) * 1000 div int (tk_Timescale track)"

definition track_bytes :: "MetafileTrack \<Rightarrow> int" where
  "track_bytes track = sum_list (map sg_Size (tk_Segments track))"

definition small_segment :: "MetafileTrack \<Rightarrow> MetafileSegment \<Rightarrow> bool" where
  "small_segment track seg \<longleftrightarrow> 0 \<le> sg_Offset seg \<and> 0 < sg_Size seg \<and> sg_Offset seg + sg_Size seg < 2 ^ 62 \<and>
     int (sg_DurationTicks seg) * 1000 < 2 ^ 63 \<and> seg_ms track seg * sg_Size seg < 2 ^ 63"

definition small_track :: "MetafileTrack \<Rightarrow> bool" where
  "small_track track \<longleftrightarrow> 0 < tk_Timescale track \<and> list_all (small_segment track) (tk_Segments track) \<and>
     track_bytes track < 2 ^ 63 \<and> sum_list (map (seg_ms track) (tk_Segments track)) < 2 ^ 63"

text \<open>The bytes of a segment that a range covers.\<close>

definition covered :: "int \<Rightarrow> int \<Rightarrow> MetafileSegment \<Rightarrow> int" where
  "covered s e seg = int (card ({s..e} \<inter> {sg_Offset seg..<sg_Offset seg + sg_Size seg}))"

lemma covered_interval: "{s..e} \<inter> {off..<off + n} = {max s off..min e (off + n - 1 :: int)}" by auto

lemma covered_eq: "covered s e seg = max 0 (min e (sg_Offset seg + sg_Size seg - 1) - max s (sg_Offset seg) + 1)"
  by (simp add: covered_def covered_interval)

lemma covered_bounds: "0 \<le> sg_Size seg \<Longrightarrow> 0 \<le> covered s e seg \<and> covered s e seg \<le> sg_Size seg"
  by (auto simp: covered_eq)

lemma covered_split: "s \<le> m \<Longrightarrow> m < e \<Longrightarrow> covered s m seg + covered (m + 1) e seg = covered s e seg"
  by (auto simp: covered_eq max_def min_def)

lemma seg_ms_nonneg: "0 \<le> seg_ms track seg"
  by (cases "tk_Timescale track = 0") (simp_all add: seg_ms_def pos_imp_zdiv_nonneg_iff)

lemma wrap64_small: "\<lbrakk>0 \<le> x; x < 2 ^ 63\<rbrakk> \<Longrightarrow> wrap64 x = x" by (rule wrap64_id) simp_all

lemma credit_share:
  assumes "0 \<le> c" "c \<le> n" "0 < n" "(0 :: int) \<le> ms"
  shows "0 \<le> ms * c div n" "ms * c div n \<le> ms" "c = n \<Longrightarrow> ms * c div n = ms"
proof -
  have "ms * c div n \<le> ms * n div n" using assms by (intro zdiv_mono1 mult_left_mono) simp_all
  then show "ms * c div n \<le> ms" using assms(3) by simp
  show "0 \<le> ms * c div n" using assms by (simp add: pos_imp_zdiv_nonneg_iff)
  show "c = n \<Longrightarrow> ms * c div n = ms" using assms(3) by simp
qed

text \<open>One segment, with what was credited before.\<close>

lemma overlap_segment_exact:
  assumes seg: "small_segment track seg" and ts: "0 < tk_Timescale track"
    and b: "0 \<le> b" "b + sg_Size seg < 2 ^ 63" and d: "0 \<le> d" "d + seg_ms track seg < 2 ^ 63"
  shows "overlap_segment s e (tk_Timescale track) seg (b, d) =
    (b + covered s e seg, d + seg_ms track seg * covered s e seg div sg_Size seg)"
proof -
  have z: "0 \<le> sg_Offset seg" "0 < sg_Size seg" "sg_Offset seg + sg_Size seg < 2 ^ 62" and t: "int (sg_DurationTicks seg) * 1000 < 2 ^ 63"
    and p: "seg_ms track seg * sg_Size seg < 2 ^ 63"
    using seg by (auto simp: small_segment_def)
  have l: "wrap64 (wrap64 (sg_Offset seg + sg_Size seg) - 1) = sg_Offset seg + sg_Size seg - 1"
    using z by (simp add: wrap64_small)
  have ms: "go_quot (wrap64 (wrap64 (int (sg_DurationTicks seg)) * 1000)) (int (tk_Timescale track)) = seg_ms track seg"
    using t ts by (simp add: wrap64_small go_quot_nonneg seg_ms_def)
  show ?thesis
  proof (cases "min e (sg_Offset seg + sg_Size seg - 1) < max s (sg_Offset seg)")
    case True
    then have "covered s e seg = 0" by (auto simp: covered_eq)
    then show ?thesis using True z l by (simp add: overlap_segment_def Let_def)
  next
    case False
    then have c: "covered s e seg = min e (sg_Offset seg + sg_Size seg - 1) - max s (sg_Offset seg) + 1" by (simp add: covered_eq)
    have cb: "0 \<le> covered s e seg" "covered s e seg \<le> sg_Size seg" using covered_bounds z(2) by auto
    note sh = credit_share [OF cb z(2) seg_ms_nonneg [of track seg]]
    have "wrap64 (wrap64 (min e (sg_Offset seg + sg_Size seg - 1) - max s (sg_Offset seg)) + 1) = covered s e seg"
    proof -
      have "wrap64 (min e (sg_Offset seg + sg_Size seg - 1) - max s (sg_Offset seg)) = covered s e seg - 1"
      proof -
        have "min e (sg_Offset seg + sg_Size seg - 1) - max s (sg_Offset seg) = covered s e seg - 1" "1 \<le> covered s e seg"
          using c False by linarith+
        then show ?thesis using cb z by (simp only:) (simp add: wrap64_small)
      qed
      then show ?thesis using cb z by (simp add: wrap64_small)
    qed
    moreover have "seg_ms track seg * covered s e seg < 2 ^ 63"
      using mult_left_mono [OF cb(2) seg_ms_nonneg [of track seg]] p by linarith
    ultimately show ?thesis
      using False z l ms b d sh cb seg_ms_nonneg [of track seg]
      by (simp add: overlap_segment_def Let_def wrap64_small go_quot_nonneg)
  qed
qed

lemma overlap_fold_exact:
  assumes "\<forall>seg\<in>set segs. small_segment track seg" and ts: "0 < tk_Timescale track"
    and "0 \<le> b" "b + sum_list (map sg_Size segs) < 2 ^ 63" "0 \<le> d" "d + sum_list (map (seg_ms track) segs) < 2 ^ 63"
  shows "fold (overlap_segment s e (tk_Timescale track)) segs (b, d) =
    (b + sum_list (map (covered s e) segs), d + sum_list (map (\<lambda>seg. seg_ms track seg * covered s e seg div sg_Size seg) segs))"
  using assms(1,3-6)
proof (induction segs arbitrary: b d)
  case (Cons seg segs)
  have sz: "0 < sg_Size seg" and small: "small_segment track seg" using Cons.prems(1) by (auto simp: small_segment_def)
  have rest: "0 \<le> sum_list (map sg_Size segs)" "0 \<le> sum_list (map (seg_ms track) segs)"
    using Cons.prems(1) by (auto intro!: sum_list_nonneg simp: small_segment_def seg_ms_nonneg order_less_imp_le)
  have cb: "0 \<le> covered s e seg" "covered s e seg \<le> sg_Size seg" using covered_bounds sz by auto
  note sh = credit_share [OF cb sz seg_ms_nonneg [of track seg]]
  have "overlap_segment s e (tk_Timescale track) seg (b, d) =
      (b + covered s e seg, d + seg_ms track seg * covered s e seg div sg_Size seg)"
    by (rule overlap_segment_exact [OF small ts]) (use Cons.prems rest in auto)
  then show ?case
    using Cons.IH [of "b + covered s e seg" "d + seg_ms track seg * covered s e seg div sg_Size seg"] Cons.prems cb sh
    by (simp add: add.assoc)
qed simp


lemma range_credit:
  assumes "small_track track" "s \<le> e"
  shows "rangeOverlapInTrack s e track =
    (sum_list (map (covered s e) (tk_Segments track)),
     sum_list (map (\<lambda>seg. seg_ms track seg * covered s e seg div sg_Size seg) (tk_Segments track)))"
proof -
  have "fold (overlap_segment s e (tk_Timescale track)) (tk_Segments track) (0, 0) =
    (0 + sum_list (map (covered s e) (tk_Segments track)),
     0 + sum_list (map (\<lambda>seg. seg_ms track seg * covered s e seg div sg_Size seg) (tk_Segments track)))"
    by (rule overlap_fold_exact) (use assms in \<open>auto simp: small_track_def list_all_iff track_bytes_def\<close>)
  then show ?thesis using assms by (simp add: rangeOverlapInTrack_def small_track_def)
qed

lemma track_bytes_nonneg: "small_track track \<Longrightarrow> 0 \<le> track_bytes track"
  unfolding track_bytes_def by (auto intro!: sum_list_nonneg simp: small_track_def list_all_iff small_segment_def order_less_imp_le)

lemma wrapping_sum:
  assumes "\<forall>x\<in>set xs. 0 \<le> f x" "0 \<le> b" "b + sum_list (map f xs) < 2 ^ 63"
  shows "fold (\<lambda>x n. wrap64 (n + f x)) xs b = b + sum_list (map f xs)"
  using assms
proof (induction xs arbitrary: b)
  case (Cons x xs)
  have "0 \<le> sum_list (map f xs)" using Cons.prems(1) by (auto intro!: sum_list_nonneg)
  then show ?case using Cons.IH [of "b + f x"] Cons.prems by (simp add: wrap64_small add.assoc)
qed simp

lemma track_sum:
  assumes "small_track track" "0 \<le> b" "b + track_bytes track < 2 ^ 63"
  shows "fold (\<lambda>seg n. wrap64 (n + sg_Size seg)) (tk_Segments track) b = b + track_bytes track"
  unfolding track_bytes_def
  by (rule wrapping_sum) (use assms in \<open>auto simp: track_bytes_def small_track_def list_all_iff small_segment_def order_less_imp_le\<close>)

definition body_bytes :: "Metafile \<Rightarrow> int" where
  "body_bytes meta = sum_list (map (\<lambda>t. track_bytes (snd t)) (mf_Tracks meta))"

lemma body_fold:
  assumes "\<forall>t\<in>set ts. small_track (snd t)" "0 \<le> b" "b + sum_list (map (\<lambda>t. track_bytes (snd t)) ts) < 2 ^ 63"
  shows "fold (\<lambda>t total. fold (\<lambda>seg total. wrap64 (total + sg_Size seg)) (tk_Segments (snd t)) total) ts b =
    b + sum_list (map (\<lambda>t. track_bytes (snd t)) ts)"
  using assms
proof (induction ts arbitrary: b)
  case (Cons t ts)
  have "0 \<le> track_bytes (snd t)" "0 \<le> sum_list (map (\<lambda>t. track_bytes (snd t)) ts)"
    using Cons.prems(1) by (auto intro!: sum_list_nonneg track_bytes_nonneg)
  then show ?case
    using Cons.IH [of "b + track_bytes (snd t)"] Cons.prems by (simp add: track_sum add.assoc)
qed simp

text \<open>A metafile whose body is so small that the products of the proration stay in 64 bits.\<close>

definition small_metafile :: "Metafile \<Rightarrow> bool" where
  "small_metafile meta \<longleftrightarrow> (\<forall>t\<in>set (mf_Tracks meta). small_track (snd t)) \<and> 0 < body_bytes meta \<and> body_bytes meta * body_bytes meta < 2 ^ 63"

lemma body_bytes_exact: "small_metafile meta \<Longrightarrow> metafileBodyBytes meta = body_bytes meta"
proof -
  assume m: "small_metafile meta"
  then have "1 \<le> body_bytes meta" by (simp add: small_metafile_def)
  then have "body_bytes meta * 1 \<le> body_bytes meta * body_bytes meta" by (intro mult_left_mono) simp_all
  then show ?thesis
    using m body_fold [of "mf_Tracks meta" 0] by (simp add: metafileBodyBytes_def body_bytes_def small_metafile_def)
qed

lemma prorated_exact:
  assumes m: "small_metafile meta" and t: "t \<in> set (mf_Tracks meta)" and s: "0 < sent"
  shows "fst (prorateInTrack sent (metafileBodyBytes meta) (snd t)) = min sent (body_bytes meta) * track_bytes (snd t) div body_bytes meta"
proof -
  have b: "0 < body_bytes meta" "body_bytes meta * body_bytes meta < 2 ^ 63" and small: "small_track (snd t)"
    using m t by (auto simp: small_metafile_def)
  have n: "0 \<le> track_bytes (snd t)" "track_bytes (snd t) < 2 ^ 63" using small track_bytes_nonneg by (auto simp: small_track_def)
  have le: "track_bytes (snd t) \<le> body_bytes meta"
    unfolding body_bytes_def
    by (rule member_le_sum_list) (use m t in \<open>auto simp: small_metafile_def intro: track_bytes_nonneg\<close>)
  have "min sent (body_bytes meta) * track_bytes (snd t) \<le> body_bytes meta * body_bytes meta"
    using le n s b by (intro mult_mono) auto
  then have "min sent (body_bytes meta) * track_bytes (snd t) < 2 ^ 63" using b by linarith
  moreover have "0 \<le> min sent (body_bytes meta) * track_bytes (snd t)" using n s b by simp
  ultimately show ?thesis
    using small s b n track_sum [OF small, of 0] body_bytes_exact [OF m]
    by (auto simp: prorateInTrack_def small_track_def Let_def wrap64_small go_quot_nonneg)
qed


lemma sum_quotients: "0 < (d :: int) \<Longrightarrow> sum_list (map (\<lambda>x. f x div d) xs) * d \<le> sum_list (map f xs)"
proof (induction xs)
  case (Cons x xs)
  have "f x div d * d \<le> f x" using Cons.prems by (metis mult.commute div_mult_mod_eq pos_mod_sign le_add_same_cancel1 mult_div_mod_eq)
  then show ?case using Cons by (simp add: distrib_right)
qed simp

lemma prorated_total:
  assumes m: "small_metafile meta" and s: "0 < sent"
  shows "sum_list (map (\<lambda>t. fst (prorateInTrack sent (metafileBodyBytes meta) (snd t))) (mf_Tracks meta)) \<le> min sent (body_bytes meta)"
proof -
  let ?x = "min sent (body_bytes meta)"
  have b: "0 < body_bytes meta" using m by (simp add: small_metafile_def)
  have "map (\<lambda>t. fst (prorateInTrack sent (metafileBodyBytes meta) (snd t))) (mf_Tracks meta) =
      map (\<lambda>t. ?x * track_bytes (snd t) div body_bytes meta) (mf_Tracks meta)"
    using prorated_exact [OF m _ s] by simp
  moreover have "sum_list (map (\<lambda>t. ?x * track_bytes (snd t) div body_bytes meta) (mf_Tracks meta)) * body_bytes meta \<le>
      ?x * body_bytes meta"
    using sum_quotients [OF b, of "\<lambda>t. ?x * track_bytes (snd t)" "mf_Tracks meta"]
    by (simp add: body_bytes_def [of meta] sum_list_const_mult)
  ultimately show ?thesis using b by (metis mult_le_cancel_right_pos)
qed

text \<open>
  C39. Credit.  Of a recording whose figures stay in 64 bits, a range request is credited, in each track, exactly the bytes
  of its segments that lie in the range, so that consecutive ranges are credited together what the whole range is; and it
  is credited at most the playback time of the segments it touches, all of it when it covers them.  A request of
  which only the size is known is credited to the tracks together at most that size, and at most the body.
\<close>

theorem credit_is_exact:
  assumes "small_metafile meta" "t \<in> set (mf_Tracks meta)" "s \<le> m" "m < e" "0 < sent"
  shows "fst (rangeOverlapInTrack s e (snd t)) =
      (\<Sum>seg\<leftarrow>tk_Segments (snd t). int (card ({s..e} \<inter> {sg_Offset seg..<sg_Offset seg + sg_Size seg}))) \<and>
    fst (rangeOverlapInTrack s m (snd t)) + fst (rangeOverlapInTrack (m + 1) e (snd t)) = fst (rangeOverlapInTrack s e (snd t)) \<and>
    snd (rangeOverlapInTrack s e (snd t)) \<le>
      (\<Sum>seg\<leftarrow>tk_Segments (snd t). if {s..e} \<inter> {sg_Offset seg..<sg_Offset seg + sg_Size seg} = {} then 0 else seg_ms (snd t) seg) \<and>
    ((\<forall>seg\<in>set (tk_Segments (snd t)). s \<le> sg_Offset seg \<and> sg_Offset seg + sg_Size seg - 1 \<le> e) \<longrightarrow>
      rangeOverlapInTrack s e (snd t) = (track_bytes (snd t), \<Sum>seg\<leftarrow>tk_Segments (snd t). seg_ms (snd t) seg)) \<and>
    (\<Sum>t\<leftarrow>mf_Tracks meta. fst (prorateInTrack sent (metafileBodyBytes meta) (snd t))) \<le> min sent (body_bytes meta)"
proof -
  have small: "small_track (snd t)" using assms(1,2) by (simp add: small_metafile_def)
  then have size: "\<forall>seg\<in>set (tk_Segments (snd t)). 0 < sg_Size seg" by (simp add: small_track_def list_all_iff small_segment_def)
  have se: "s \<le> e" "m + 1 \<le> e" using assms(3,4) by auto
  note credit = range_credit [OF small se(1)] range_credit [OF small assms(3)] range_credit [OF small se(2)]
  have cov: "covered s e = (\<lambda>seg. int (card ({s..e} \<inter> {sg_Offset seg..<sg_Offset seg + sg_Size seg})))"
    by (simp add: covered_def fun_eq_iff)
  have split: "(\<Sum>seg\<leftarrow>tk_Segments (snd t). covered s m seg) + (\<Sum>seg\<leftarrow>tk_Segments (snd t). covered (m + 1) e seg) =
      (\<Sum>seg\<leftarrow>tk_Segments (snd t). covered s e seg)"
    by (simp add: sum_list_addf [symmetric] covered_split [OF assms(3,4)])
  have dur: "(\<Sum>seg\<leftarrow>tk_Segments (snd t). seg_ms (snd t) seg * covered s e seg div sg_Size seg) \<le>
      (\<Sum>seg\<leftarrow>tk_Segments (snd t). if {s..e} \<inter> {sg_Offset seg..<sg_Offset seg + sg_Size seg} = {} then 0 else seg_ms (snd t) seg)"
    by (rule sum_list_mono)
      (use size covered_bounds credit_share(2) seg_ms_nonneg in \<open>auto simp: covered_def dest: order_less_imp_le\<close>)
  have full: "rangeOverlapInTrack s e (snd t) = (track_bytes (snd t), \<Sum>seg\<leftarrow>tk_Segments (snd t). seg_ms (snd t) seg)"
    if whole: "\<forall>seg\<in>set (tk_Segments (snd t)). s \<le> sg_Offset seg \<and> sg_Offset seg + sg_Size seg - 1 \<le> e"
  proof -
    have c: "covered s e seg = sg_Size seg" if "seg \<in> set (tk_Segments (snd t))" for seg
      using whole [rule_format, OF that] size [rule_format, OF that] by (simp add: covered_eq)
    then have "map (covered s e) (tk_Segments (snd t)) = map sg_Size (tk_Segments (snd t))" by simp
    moreover have "map (\<lambda>seg. seg_ms (snd t) seg * covered s e seg div sg_Size seg) (tk_Segments (snd t)) =
        map (seg_ms (snd t)) (tk_Segments (snd t))"
      by (intro map_cong refl) (use c size in force)
    ultimately show ?thesis by (simp only: credit(1) track_bytes_def)
  qed
  show ?thesis
    unfolding cov [symmetric]
    using split dur full prorated_total [OF assms(1,5)] by (simp only: credit fst_conv snd_conv) blast
qed

text \<open>Two tracks, interleaved.\<close>

definition demo_track :: "int \<Rightarrow> MetafileTrack" where
  "demo_track off =
     \<lparr>tk_Type = ''video'', tk_Codec = '''', tk_Timescale = 1000, tk_InitCID = '''', tk_BlobCID = ''b'', tk_BlobSize = 400,
      tk_Segments = map (\<lambda>i. \<lparr>sg_Offset = off + i, sg_Size = 100, sg_DurationTicks = 2000, sg_SampleCount = 1, sg_Discontinuity = False\<rparr>)
        [0, 200],
      tk_Width = 0, tk_Height = 0, tk_Channels = 0, tk_SampleRate = 0\<rparr>"

definition demo_metafile :: "unit \<Rightarrow> Metafile" where
  "demo_metafile _ = \<lparr>mf_BlobCID = ''b'', mf_BlobSize = 400, mf_Tracks = [(''1'', demo_track 0), (''2'', demo_track 100)], mf_FlatHeaderSize = 0\<rparr>"

theorem credit_is_exact_witness:
  "fst (rangeOverlapInTrack 50 249 (demo_track 0)) = 100 \<and>
   fst (rangeOverlapInTrack 50 120 (demo_track 0)) + fst (rangeOverlapInTrack 121 249 (demo_track 0)) = 100"
proof -
  have "small_metafile (demo_metafile ())" by code_simp
  moreover have "(''1'', demo_track 0) \<in> set (mf_Tracks (demo_metafile ()))" by (simp add: demo_metafile_def)
  moreover have "fst (rangeOverlapInTrack 50 249 (demo_track 0)) = 100" by code_simp
  ultimately show ?thesis using credit_is_exact [of "demo_metafile ()" "(''1'', demo_track 0)" 50 120 249 1] by simp
qed

definition demo_event :: "string \<Rightarrow> time \<Rightarrow> view_event" where
  "demo_event typ ts = \<lparr>ev_Ts = ts, ev_Type = typ, ev_SID = ''s'', ev_VideoURI = ''v'', ev_CID = '''', ev_RangeStart = 0,
     ev_RangeEnd = 0, ev_BytesSent = 0\<rparr>"

text \<open>Files are named by the length of their stem here.\<close>

definition demo_input :: "unit \<Rightarrow> agg_input" where
  "demo_input _ = \<lparr>in_WindowStart = 2, in_WindowEnd = 9, in_Threshold = 0, in_ReadMargin = 1,
     in_FetchMetafile = (\<lambda>n cid. Inr (Some (demo_metafile ()))),
     in_FetchTrackRefs = (\<lambda>n cid. Inr [''1'' \<mapsto> \<lparr>sr_Uri = ''t1'', sr_Cid = ''c''\<rparr>, ''2'' \<mapsto> \<lparr>sr_Uri = ''t2'', sr_Cid = ''c''\<rparr>])\<rparr>"

definition stem_time :: "string \<Rightarrow> time option" where "stem_time s = Some (int (length s))"

definition node_then_cdn :: "string \<Rightarrow> view_event list \<times> go_error option" where
  "node_then_cdn key =
     (if key = ''view-logs/n/333.jsonl.gz'' then ([demo_event EventTypeManifestRequest 4], None)
      else ([demo_event EventTypeSegmentRequest 5, demo_event EventTypeSegmentRequest 5], None))"

theorem views_are_counted_witness:
  "case AggregateWindow stem_time (Inr [''view-logs/n/333.jsonl.gz'', ''view-logs/cdn/55555.jsonl.gz'']) node_then_cdn (demo_input ()) of
     Inl e \<Rightarrow> False
   | Inr r \<Rightarrow> map ct_VideoURI (rs_VideoCounts r) = [''v''] \<and> (\<forall>vc\<in>set (rs_VideoCounts r). ct_Count vc = 1) \<and>
       sorted_wrt (<) (map ct_VideoURI (rs_VideoCounts r)) \<and> rs_MetafilesLoaded r \<le> 1"
proof -
  let ?keys = "[''view-logs/n/333.jsonl.gz'', ''view-logs/cdn/55555.jsonl.gz'']"
  obtain r where r: "AggregateWindow stem_time (Inr ?keys) node_then_cdn (demo_input ()) = Inr r"
    "map ct_VideoURI (rs_VideoCounts r) = [''v'']" "map ct_Count (rs_VideoCounts r) = [1]"
  proof (cases "AggregateWindow stem_time (Inr ?keys) node_then_cdn (demo_input ())")
    case (Inl e)
    have "\<not> isl (AggregateWindow stem_time (Inr ?keys) node_then_cdn (demo_input ()))" by code_simp
    then show ?thesis using Inl by simp
  next
    case (Inr r)
    have "map_sum id (\<lambda>r. (map ct_VideoURI (rs_VideoCounts r), map ct_Count (rs_VideoCounts r)))
        (AggregateWindow stem_time (Inr ?keys) node_then_cdn (demo_input ())) = Inr ([''v''], [1])" by code_simp
    then show ?thesis using that Inr by simp
  qed
  have "ev_CID ` set (window_events stem_time node_then_cdn (demo_input ()) ?keys) = {''''}" by code_simp
  then show ?thesis using views_are_counted [OF r(1)] r by (auto simp: Let_def)
qed


text \<open>
  The file of a CDN is named after the start of its window, so it is read before the file in which the node logged the
  manifest of a session that began inside the window: its segments are not attributed.
\<close>

definition cdn_first :: "string \<Rightarrow> view_event list \<times> go_error option" where
  "cdn_first key =
     (if key = ''view-logs/n/333.jsonl.gz'' then ([demo_event EventTypeManifestRequest 4], None)
      else ([demo_event EventTypeSegmentRequest 5], None))"

lemma cdn_segments_lost:
  "map_sum id (\<lambda>r. (rs_FilesRead r, map ct_VideoURI (rs_VideoCounts r)))
     (AggregateWindow stem_time (Inr [''view-logs/n/333.jsonl.gz'', ''view-logs/cdn/22.jsonl.gz'']) cdn_first (demo_input ())) = Inr (2, [])"
  by code_simp

text \<open>The product of the proration leaves 64 bits from recordings of about three gigabytes on: a download is credited a negative size.\<close>

lemma large_recordings_overflow:
  "let track = demo_track 0\<lparr>tk_Segments := [\<lparr>sg_Offset = 0, sg_Size = 4000000000, sg_DurationTicks = 1, sg_SampleCount = 1, sg_Discontinuity = False\<rparr>]\<rparr>
   in fst (prorateInTrack 4000000000 4000000000 track) < 0"
  by (simp add: prorateInTrack_def demo_track_def wrap64_def go_quot_def Let_def)

end
