(* ===== verification/LogIngest.thy ===== *)
theory LogIngest
  imports ViewLog FileStore PlaybackSession
begin

text \<open>
  The access logs of a CDN turned into view logs (\<open>viewlog/ingest.go\<close>, \<open>cdn/bunny/log.go\<close>, \<open>statedb/cdn_log_part.go\<close>): parts
  of logs claimed in a table that nodes share, read into one file for each window, completed when the files are visible and
  their windows are to be aggregated again.  The syntax of URLs and the format of times are parameters; a
  part is the requests read of it and the error that ends it.  The calls of store, table and queue are numbered; each may fail.
\<close>

section \<open>Lines\<close>

record cdn_request =
  rq_Time :: time
  rq_Status :: int
  rq_BytesSent :: int
  rq_RemoteIP :: string
  rq_URL :: string

definition trim_eol :: "string \<Rightarrow> string" where
  "trim_eol line = rev (dropWhile (\<lambda>c. c = CHR 0x0A \<or> c = CHR 0x0D) (rev line))"

definition ParseLine :: "string \<Rightarrow> go_error + cdn_request" where
  "ParseLine line =
     (let f = split_on CHR ''|'' (trim_eol line) in
      if length f < 12 then Inl (Sentinel ''bunny log: too few fields'')
      else
        (case (ParseInt64 (f ! 1), ParseInt64 (f ! 2), ParseInt64 (f ! 3)) of
           (None, _, _) \<Rightarrow> Inl (Sentinel ''bunny log: status'')
         | (_, None, _) \<Rightarrow> Inl (Sentinel ''bunny log: timestamp'')
         | (_, _, None) \<Rightarrow> Inl (Sentinel ''bunny log: bytes'')
         | (Some status, Some ms, Some bytes) \<Rightarrow>
             Inr \<lparr>rq_Time = ms * millisecond, rq_Status = status, rq_BytesSent = bytes, rq_RemoteIP = f ! 5, rq_URL = f ! 7\<rparr>))"

text \<open>Lines that do not parse are skipped and counted.\<close>

definition line_requests :: "string list \<Rightarrow> cdn_request list" where
  "line_requests lines =
     List.map_filter (\<lambda>l. if l = '''' then None else (case ParseLine l of Inl e \<Rightarrow> None | Inr r \<Rightarrow> Some r)) lines"

section \<open>Requests\<close>

text \<open>\<open>path.Base(path.Dir(p))\<close>.\<close>

definition dir_Base :: "string \<Rightarrow> string" where
  "dir_Base p =
     (let dir = rev (dropWhile (\<lambda>c. c \<noteq> CHR ''/'') (rev p)) in
      if dir \<noteq> [] \<and> hd dir = CHR ''/''
      then (let cs = clean_rooted (split_on CHR ''/'' dir) in if cs = [] then ''/'' else last cs)
      else path_Base (clean_relative dir))"

record parsed_url =
  pu_Path :: string
  pu_Query :: "string \<Rightarrow> string"

definition segmentEventFromRequest :: "(string \<Rightarrow> parsed_url option) \<Rightarrow> cdn_request \<Rightarrow> view_event option" where
  "segmentEventFromRequest parse r =
     (if rq_Status r \<noteq> 200 \<and> rq_Status r \<noteq> 206 then None
      else
        (case parse (rq_URL r) of
           None \<Rightarrow> None
         | Some u \<Rightarrow>
             (let base = path_Base (pu_Path u); cid = take (length base - 4) base; sid = pu_Query u ''sid'' in
              if \<not> suffix ''.mp4'' base \<or> dir_Base (pu_Path u) \<noteq> ''blobs'' then None
              else if cid = '''' \<or> sid = '''' then None
              else Some \<lparr>ev_Ts = rq_Time r, ev_Type = EventTypeSegmentRequest, ev_SID = session_ID sid, ev_VideoURI = '''', ev_CID = cid,
                     ev_RangeStart = 0, ev_RangeEnd = 0, ev_BytesSent = rq_BytesSent r\<rparr>)))"

text \<open>\<open>Time.Truncate\<close> counts from the year 1, instants here from the epoch of Unix.\<close>

definition zero_offset :: duration where "zero_offset = 62135596800 * second"

definition truncate_time :: "time \<Rightarrow> duration \<Rightarrow> time" where
  "truncate_time t d = t - (t + zero_offset) mod d"

definition sanitizePartID :: "string \<Rightarrow> string" where
  "sanitizePartID = map (\<lambda>c. if c = CHR ''/'' \<or> c = CHR 0x5C \<or> c = CHR '' '' then CHR ''_'' else c)"

section \<open>Claims\<close>

record part_row =
  pt_ClaimedAt :: time
  pt_CompletedAt :: "time option"
  pt_Events :: nat

record ingest_world =
  iw_Parts :: "string \<times> string \<rightharpoonup> part_row"
  iw_Files :: "string \<rightharpoonup> view_event list"
  iw_Reaggs :: "(string \<times> time \<times> time) list"
  iw_Calls :: nat
  iw_Clock :: "nat \<Rightarrow> time"
  iw_Fault :: "nat \<Rightarrow> go_error option"

definition iw_call :: "ingest_world \<Rightarrow> go_error option \<times> ingest_world" where
  "iw_call w = (iw_Fault w (iw_Calls w), w\<lparr>iw_Calls := iw_Calls w + 1\<rparr>)"

text \<open>The two statements of a claim: the insert, then the update of a stale claim.\<close>

definition claim_row :: "time \<Rightarrow> duration \<Rightarrow> part_row option \<Rightarrow> bool \<times> part_row option" where
  "claim_row now staleAfter row =
     (case row of
        None \<Rightarrow> (True, Some \<lparr>pt_ClaimedAt = now, pt_CompletedAt = None, pt_Events = 0\<rparr>)
      | Some r \<Rightarrow>
          if pt_CompletedAt r = None \<and> pt_ClaimedAt r < now - staleAfter then (True, Some (r\<lparr>pt_ClaimedAt := now\<rparr>)) else (False, Some r))"

definition ClaimPart :: "string \<times> string \<Rightarrow> duration \<Rightarrow> ingest_world \<Rightarrow> (go_error + bool) \<times> ingest_world" where
  "ClaimPart key staleAfter w =
     (let now = iw_Clock w (iw_Calls w) in
      case iw_call w of
        (Some e, w1) \<Rightarrow> (Inl e, w1)
      | (None, w1) \<Rightarrow>
          if iw_Parts w1 key = None
          then (Inr True, w1\<lparr>iw_Parts := (iw_Parts w1)(key := snd (claim_row now staleAfter None))\<rparr>)
          else
            (case iw_call w1 of
               (Some e, w2) \<Rightarrow> (Inl e, w2)
             | (None, w2) \<Rightarrow>
                 (Inr (fst (claim_row now staleAfter (iw_Parts w2 key))),
                  w2\<lparr>iw_Parts := (iw_Parts w2)(key := snd (claim_row now staleAfter (iw_Parts w2 key)))\<rparr>)))"

definition complete_claim :: "time \<Rightarrow> nat \<Rightarrow> part_row option \<Rightarrow> part_row option" where
  "complete_claim now n row = map_option (\<lambda>r. r\<lparr>pt_CompletedAt := Some now, pt_Events := n\<rparr>) row"

definition CompletePart :: "string \<times> string \<Rightarrow> nat \<Rightarrow> ingest_world \<Rightarrow> go_error option \<times> ingest_world" where
  "CompletePart key n w =
     (let now = iw_Clock w (iw_Calls w) in
      case iw_call w of
        (Some e, w1) \<Rightarrow> (Some e, w1)
      | (None, w1) \<Rightarrow> (None, w1\<lparr>iw_Parts := (iw_Parts w1)(key := complete_claim now n (iw_Parts w1 key))\<rparr>))"

definition release_claim :: "part_row option \<Rightarrow> part_row option" where
  "release_claim row = (case row of Some r \<Rightarrow> if pt_CompletedAt r = None then None else Some r | None \<Rightarrow> None)"

definition ReleasePart :: "string \<times> string \<Rightarrow> ingest_world \<Rightarrow> go_error option \<times> ingest_world" where
  "ReleasePart key w =
     (case iw_call w of
        (Some e, w1) \<Rightarrow> (Some e, w1)
      | (None, w1) \<Rightarrow> (None, w1\<lparr>iw_Parts := (iw_Parts w1)(key := release_claim (iw_Parts w1 key))\<rparr>))"

section \<open>One part\<close>

record ingest_config =
  ig_SourceName :: string
  ig_Window :: duration
  ig_StaleAfter :: duration
  ig_parseURL :: "string \<Rightarrow> parsed_url option"
  ig_format :: "time \<Rightarrow> string"
  ig_read :: "string \<Rightarrow> cdn_request list \<times> go_error option"
  ig_order :: "(time \<times> view_event list) list \<Rightarrow> (time \<times> view_event list) list"
  ig_Reaggregate :: bool

definition part_prefix :: "ingest_config \<Rightarrow> string \<Rightarrow> string" where
  "part_prefix cfg partID = ''view-logs/cdn-'' @ ig_SourceName cfg @ ''/'' @ sanitizePartID partID @ ''/''"

definition window_key :: "ingest_config \<Rightarrow> string \<Rightarrow> time \<Rightarrow> string" where
  "window_key cfg partID start = part_prefix cfg partID @ ig_format cfg start @ ''.jsonl.gz''"

record part_progress =
  pp_buckets :: "(time \<times> view_event list) list"
  pp_events :: nat
  pp_skipped :: nat

text \<open>The function \<open>ReadPart\<close> calls for a request: a new window opens a writer, and the line is written.\<close>

definition emit_request :: "ingest_config \<Rightarrow> cdn_request \<Rightarrow> part_progress \<Rightarrow> ingest_world \<Rightarrow> go_error option \<times> part_progress \<times> ingest_world" where
  "emit_request cfg r p w =
     (case segmentEventFromRequest (ig_parseURL cfg) r of
        None \<Rightarrow> (None, p\<lparr>pp_skipped := pp_skipped p + 1\<rparr>, w)
      | Some ev \<Rightarrow>
          (let start = truncate_time (ev_Ts ev) (ig_Window cfg) in
           case (if map_of (pp_buckets p) start = None then iw_call w else (None, w)) of
             (Some e, w1) \<Rightarrow> (Some (WrapErr ''open window file'' [e]), p, w1)
           | (None, w1) \<Rightarrow>
               (case iw_call w1 of
                  (Some e, w2) \<Rightarrow> (Some (WrapErr ''write window file'' [e]), p, w2)
                | (None, w2) \<Rightarrow>
                    (let evs = (case map_of (pp_buckets p) start of Some evs \<Rightarrow> evs | None \<Rightarrow> []) in
                     (None, p\<lparr>pp_buckets := AList.update start (evs @ [ev]) (pp_buckets p), pp_events := pp_events p + 1\<rparr>, w2)))))"

fun read_part ::
  "ingest_config \<Rightarrow> cdn_request list \<Rightarrow> go_error option \<Rightarrow> part_progress \<Rightarrow> ingest_world \<Rightarrow> go_error option \<times> part_progress \<times> ingest_world" where
  "read_part cfg [] end p w = (end, p, w)"
| "read_part cfg (r # rs) end p w =
     (case emit_request cfg r p w of
        (Some e, p1, w1) \<Rightarrow> (Some e, p1, w1)
      | (None, p1, w1) \<Rightarrow> read_part cfg rs end p1 w1)"

text \<open>The files become visible one after the other.\<close>

fun complete_windows ::
  "ingest_config \<Rightarrow> string \<Rightarrow> (time \<times> view_event list) list \<Rightarrow> ingest_world \<Rightarrow> go_error option \<times> ingest_world" where
  "complete_windows cfg partID [] w = (None, w)"
| "complete_windows cfg partID ((start, evs) # bs) w =
     (case iw_call w of
        (Some e, w1) \<Rightarrow> (Some (WrapErr ''gzip close'' [e]), w1)
      | (None, w1) \<Rightarrow>
          (case iw_call w1 of
             (Some e, w2) \<Rightarrow> (Some (WrapErr ''complete window file'' [e]), w2)
           | (None, w2) \<Rightarrow>
               complete_windows cfg partID bs (w2\<lparr>iw_Files := (iw_Files w2)(window_key cfg partID start \<mapsto> evs)\<rparr>)))"

definition ingestPart :: "ingest_config \<Rightarrow> string \<Rightarrow> ingest_world \<Rightarrow> (go_error + nat \<times> nat \<times> time list) \<times> ingest_world" where
  "ingestPart cfg partID w =
     (case read_part cfg (fst (ig_read cfg partID)) (snd (ig_read cfg partID)) \<lparr>pp_buckets = [], pp_events = 0, pp_skipped = 0\<rparr> w of
        (Some e, p, w1) \<Rightarrow> (Inl e, w1)
      | (None, p, w1) \<Rightarrow>
          (case complete_windows cfg partID (ig_order cfg (pp_buckets p)) w1 of
             (Some e, w2) \<Rightarrow> (Inl e, w2)
           | (None, w2) \<Rightarrow> (Inr (pp_events p, pp_skipped p, sort (map fst (pp_buckets p))), w2)))"

text \<open>The callback may be left out: \<open>ig_Reaggregate\<close> says whether there is one.\<close>

fun requestReaggregation :: "ingest_config \<Rightarrow> string \<Rightarrow> time list \<Rightarrow> ingest_world \<Rightarrow> go_error option \<times> ingest_world" where
  "requestReaggregation cfg partID [] w = (None, w)"
| "requestReaggregation cfg partID (s # ss) w =
     (if \<not> ig_Reaggregate cfg then (None, w)
      else
        (case iw_call w of
           (Some e, w1) \<Rightarrow> (Some (WrapErr ''window'' [e]), w1)
         | (None, w1) \<Rightarrow>
             requestReaggregation cfg partID ss (w1\<lparr>iw_Reaggs := iw_Reaggs w1 @ [(partID, s, s + ig_Window cfg)]\<rparr>)))"

section \<open>A pass\<close>

record ingest_result =
  rg_PartsIngested :: nat
  rg_Events :: nat
  rg_Skipped :: nat
  rg_Windows :: nat

text \<open>The check of the context is a call too; \<open>first\<close> is the first error of a part.\<close>

fun ingest_parts ::
  "ingest_config \<Rightarrow> string list \<Rightarrow> ingest_result \<Rightarrow> go_error option \<Rightarrow> ingest_world \<Rightarrow> (ingest_result \<times> go_error option) \<times> ingest_world" where
  "ingest_parts cfg [] res first w = ((res, first), w)"
| "ingest_parts cfg (part # parts) res first w =
     (case iw_call w of
        (Some e, w1) \<Rightarrow> ((res, Some e), w1)
      | (None, w1) \<Rightarrow>
          (case ClaimPart (ig_SourceName cfg, part) (ig_StaleAfter cfg) w1 of
             (Inl e, w2) \<Rightarrow> ((res, Some (WrapErr ''viewlog: claim part'' [e])), w2)
           | (Inr False, w2) \<Rightarrow> ingest_parts cfg parts res first w2
           | (Inr True, w2) \<Rightarrow>
               (case ingestPart cfg part w2 of
                  (Inl e, w3) \<Rightarrow>
                    ingest_parts cfg parts res (if first = None then Some e else first) (snd (ReleasePart (ig_SourceName cfg, part) w3))
                | (Inr (events, skipped, windows), w3) \<Rightarrow>
                    (case requestReaggregation cfg part windows w3 of
                       (Some e, w4) \<Rightarrow>
                         ingest_parts cfg parts res (if first = None then Some e else first) (snd (ReleasePart (ig_SourceName cfg, part) w4))
                     | (None, w4) \<Rightarrow>
                         (case CompletePart (ig_SourceName cfg, part) events w4 of
                            (Some e, w5) \<Rightarrow> ((res, Some (WrapErr ''viewlog: complete part'' [e])), w5)
                          | (None, w5) \<Rightarrow>
                              ingest_parts cfg parts
                                \<lparr>rg_PartsIngested = rg_PartsIngested res + 1, rg_Events = rg_Events res + events,
                                 rg_Skipped = rg_Skipped res + skipped, rg_Windows = rg_Windows res + length windows\<rparr> first w5)))))"

definition RunIngest ::
  "ingest_config \<Rightarrow> go_error + string list \<Rightarrow> ingest_world \<Rightarrow> (ingest_result option \<times> go_error option) \<times> ingest_world" where
  "RunIngest cfg listing w =
     (if ig_SourceName cfg = '''' then ((None, Some (Sentinel ''viewlog: RunIngest needs a SourceName'')), w)
      else if ig_Window cfg \<le> 0 then ((None, Some (Sentinel ''viewlog: RunIngest needs a positive Window'')), w)
      else
        (case listing of
           Inl e \<Rightarrow> ((None, Some (WrapErr ''viewlog: list cdn log parts'' [e])), w)
         | Inr parts \<Rightarrow>
             (case ingest_parts (cfg\<lparr>ig_StaleAfter := if ig_StaleAfter cfg \<le> 0 then hour else ig_StaleAfter cfg\<rparr>) (sort parts)
                     \<lparr>rg_PartsIngested = 0, rg_Events = 0, rg_Skipped = 0, rg_Windows = 0\<rparr> None w of
                ((res, e), w1) \<Rightarrow> ((Some res, e), w1))))"


section \<open>What a completed part means\<close>

definition part_events :: "ingest_config \<Rightarrow> string \<Rightarrow> view_event list" where
  "part_events cfg partID = List.map_filter (segmentEventFromRequest (ig_parseURL cfg)) (fst (ig_read cfg partID))"

abbreviation window_of :: "ingest_config \<Rightarrow> view_event \<Rightarrow> time" where
  "window_of cfg e \<equiv> truncate_time (ev_Ts e) (ig_Window cfg)"

text \<open>Every window of the part has its file, with the events of the window in order, and was asked to be aggregated again
  if there is a callback for it.\<close>

definition published_part :: "ingest_config \<Rightarrow> ingest_world \<Rightarrow> string \<Rightarrow> bool" where
  "published_part cfg w partID \<longleftrightarrow>
     (\<forall>e\<in>set (part_events cfg partID).
        iw_Files w (window_key cfg partID (window_of cfg e)) =
          Some (filter (\<lambda>e'. window_of cfg e' = window_of cfg e) (part_events cfg partID)) \<and>
        (ig_Reaggregate cfg \<longrightarrow> (partID, window_of cfg e, window_of cfg e + ig_Window cfg) \<in> set (iw_Reaggs w)))"

definition only_published :: "ingest_config \<Rightarrow> string set \<Rightarrow> ingest_world \<Rightarrow> bool" where
  "only_published cfg P w \<longleftrightarrow>
     (\<forall>p\<in>P. \<forall>row. iw_Parts w (ig_SourceName cfg, p) = Some row \<longrightarrow> pt_CompletedAt row \<noteq> None \<longrightarrow> published_part cfg w p)"

text \<open>Calls change nothing but their number.\<close>

definition iw_same :: "ingest_world \<Rightarrow> ingest_world \<Rightarrow> bool" where
  "iw_same w w' \<longleftrightarrow> iw_Parts w' = iw_Parts w \<and> iw_Files w' = iw_Files w \<and> iw_Reaggs w' = iw_Reaggs w"

lemma iw_same_refl [simp]: "iw_same w w" by (simp add: iw_same_def)

lemma iw_same_trans: "iw_same w w' \<Longrightarrow> iw_same w' w'' \<Longrightarrow> iw_same w w''" by (simp add: iw_same_def)

lemma iw_call_same: "iw_call w = (e, w') \<Longrightarrow> iw_same w w'"
  by (auto simp: iw_call_def iw_same_def)

lemma iw_call_simps [simp]:
  "iw_Parts (snd (iw_call w)) = iw_Parts w" "iw_Files (snd (iw_call w)) = iw_Files w" "iw_Reaggs (snd (iw_call w)) = iw_Reaggs w"
  by (simp_all add: iw_call_def)

text \<open>Reading a part.\<close>

definition bucket :: "part_progress \<Rightarrow> time \<Rightarrow> view_event list" where
  "bucket p start = (case map_of (pp_buckets p) start of Some evs \<Rightarrow> evs | None \<Rightarrow> [])"

definition buckets_ok :: "part_progress \<Rightarrow> bool" where
  "buckets_ok p \<longleftrightarrow> distinct (map fst (pp_buckets p)) \<and> (\<forall>b\<in>set (pp_buckets p). snd b \<noteq> [])"

lemma emit_request_cases:
  assumes "emit_request cfg r p w = (e, p', w')"
  shows "iw_same w w' \<and> (e = None \<longrightarrow> (case segmentEventFromRequest (ig_parseURL cfg) r of
       None \<Rightarrow> pp_buckets p' = pp_buckets p
     | Some ev \<Rightarrow> pp_buckets p' = AList.update (window_of cfg ev) (bucket p (window_of cfg ev) @ [ev]) (pp_buckets p)))"
  using assms
  by (auto simp: emit_request_def bucket_def Let_def split: option.splits prod.splits if_splits dest!: iw_call_same intro: iw_same_trans)

lemma update_subset: "set (AList.update k v xs) \<subseteq> insert (k, v) (set xs)"
  by (induction xs) auto

lemma buckets_update:
  assumes "buckets_ok p" "pp_buckets p' = AList.update t (bucket p t @ [ev]) (pp_buckets p)"
  shows "buckets_ok p' \<and> (\<forall>start. bucket p' start = (if start = t then bucket p t @ [ev] else bucket p start))"
  using assms update_subset [of t "bucket p t @ [ev]" "pp_buckets p"]
  by (auto simp: buckets_ok_def bucket_def distinct_update update_conv')

lemma read_part_same: "read_part cfg rs end p w = (e, p', w') \<Longrightarrow> iw_same w w'"
proof (induction rs arbitrary: p w)
  case (Cons r rs)
  obtain e1 p1 w1 where em: "emit_request cfg r p w = (e1, p1, w1)" by (metis prod_cases3)
  then have "iw_same w w1" using emit_request_cases by blast
  then show ?case using Cons.prems Cons.IH em iw_same_trans by (cases e1) auto
qed simp

lemma read_part_buckets:
  assumes "read_part cfg rs end p w = (None, p', w')" "buckets_ok p"
  shows "buckets_ok p' \<and> (\<forall>start. bucket p' start = bucket p start @
    filter (\<lambda>e. window_of cfg e = start) (List.map_filter (segmentEventFromRequest (ig_parseURL cfg)) rs))"
  using assms
proof (induction rs arbitrary: p w)
  case (Cons r rs)
  obtain e1 p1 w1 where em: "emit_request cfg r p w = (e1, p1, w1)" by (metis prod_cases3)
  then have e1: "e1 = None" and rest: "read_part cfg rs end p1 w1 = (None, p', w')" using Cons.prems(1) by (auto split: option.splits)
  show ?case
  proof (cases "segmentEventFromRequest (ig_parseURL cfg) r")
    case None
    then have "pp_buckets p1 = pp_buckets p" using emit_request_cases [OF em] e1 by simp
    then show ?thesis
      using Cons.IH [OF rest] Cons.prems(2) None by (simp add: buckets_ok_def bucket_def map_filter_simps)
  next
    case (Some ev)
    then have "pp_buckets p1 = AList.update (window_of cfg ev) (bucket p (window_of cfg ev) @ [ev]) (pp_buckets p)"
      using emit_request_cases [OF em] e1 by simp
    from buckets_update [OF Cons.prems(2) this] show ?thesis
      using Cons.IH [OF rest] Some by (auto simp: map_filter_simps)
  qed
qed simp

text \<open>Completing windows.\<close>

lemma complete_windows_frame:
  "complete_windows cfg partID bs w = (e, w') \<Longrightarrow> iw_Parts w' = iw_Parts w \<and> iw_Reaggs w' = iw_Reaggs w \<and>
    (\<forall>k. iw_Files w' k = iw_Files w k \<or> (\<exists>b\<in>set bs. k = window_key cfg partID (fst b) \<and> iw_Files w' k = Some (snd b)))"
proof (induction bs arbitrary: w)
  case (Cons b bs)
  obtain start evs where b: "b = (start, evs)" by (cases b)
  obtain e1 w1 where c1: "iw_call w = (e1, w1)" by (cases "iw_call w")
  obtain e2 w2 where c2: "iw_call w1 = (e2, w2)" by (cases "iw_call w1")
  have s: "iw_same w w1" "iw_same w w2" using iw_call_same [OF c1] iw_call_same [OF c2] iw_same_trans by blast+
  show ?case
  proof (cases "e1 = None \<and> e2 = None")
    case True
    then have rest: "complete_windows cfg partID bs (w2\<lparr>iw_Files := (iw_Files w2)(window_key cfg partID start \<mapsto> evs)\<rparr>) = (e, w')"
      using Cons.prems b c1 c2 by simp
    have "iw_Files w' k = iw_Files w k \<or> (\<exists>b\<in>set ((start, evs) # bs). k = window_key cfg partID (fst b) \<and> iw_Files w' k = Some (snd b))" for k
      using spec [OF conjunct2 [OF conjunct2 [OF Cons.IH [OF rest]]], of k] s(2)
      by (cases "k = window_key cfg partID start") (auto simp: iw_same_def)
    then show ?thesis using Cons.IH [OF rest] s(2) b by (simp add: iw_same_def)
  next
    case False
    then have "iw_same w w'" using Cons.prems b c1 c2 s by (auto split: option.splits)
    then show ?thesis by (simp add: iw_same_def)
  qed
qed simp

lemma complete_windows_done:
  assumes "complete_windows cfg partID bs w = (None, w')" "inj_on (window_key cfg partID) (fst ` set bs)" "distinct (map fst bs)"
  shows "\<forall>b\<in>set bs. iw_Files w' (window_key cfg partID (fst b)) = Some (snd b)"
  using assms
proof (induction bs arbitrary: w)
  case (Cons b bs)
  obtain start evs where b: "b = (start, evs)" by (cases b)
  obtain w1 w2 where c: "iw_call w = (None, w1)" "iw_call w1 = (None, w2)"
    and rest: "complete_windows cfg partID bs (w2\<lparr>iw_Files := (iw_Files w2)(window_key cfg partID start \<mapsto> evs)\<rparr>) = (None, w')"
    using Cons.prems(1) b by (auto split: option.splits prod.splits)
  have other: "window_key cfg partID (fst b') \<noteq> window_key cfg partID start" if "b' \<in> set bs" for b'
    using Cons.prems(2,3) b that by (force simp: inj_on_def)
  have "iw_Files w' (window_key cfg partID start) = Some evs"
    using complete_windows_frame [OF rest] other by (metis fun_upd_same ingest_world.select_convs(2) ingest_world.surjective ingest_world.update_convs(2))
  then show ?case
    using Cons.IH [OF rest] Cons.prems(2,3) b by (auto simp: inj_on_def)
qed simp

lemma requestReaggregation_frame:
  "requestReaggregation cfg partID ss w = (e, w') \<Longrightarrow> iw_Parts w' = iw_Parts w \<and> iw_Files w' = iw_Files w \<and>
    set (iw_Reaggs w) \<subseteq> set (iw_Reaggs w') \<and> (e = None \<and> ig_Reaggregate cfg \<longrightarrow> (\<forall>s\<in>set ss. (partID, s, s + ig_Window cfg) \<in> set (iw_Reaggs w')))"
proof (induction ss arbitrary: w)
  case (Cons s ss)
  obtain e1 w1 where c: "iw_call w = (e1, w1)" by (cases "iw_call w")
  then have s: "iw_same w w1" by (rule iw_call_same)
  show ?case
  proof (cases "ig_Reaggregate cfg \<and> e1 = None")
    case True
    then have rest: "requestReaggregation cfg partID ss (w1\<lparr>iw_Reaggs := iw_Reaggs w1 @ [(partID, s, s + ig_Window cfg)]\<rparr>) = (e, w')"
      using Cons.prems c by simp
    show ?thesis using Cons.IH [OF rest] s by (auto simp: iw_same_def)
  next
    case False
    then show ?thesis using Cons.prems c s by (auto simp: iw_same_def split: if_splits)
  qed
qed simp


text \<open>What is relied on: times are formatted one-to-one without slashes, the identifiers of parts stay apart, and maps are iterated in some order.\<close>

definition ingest_ok :: "ingest_config \<Rightarrow> string set \<Rightarrow> bool" where
  "ingest_ok cfg P \<longleftrightarrow> inj (ig_format cfg) \<and> (\<forall>t. CHR ''/'' \<notin> set (ig_format cfg t)) \<and> inj_on sanitizePartID P \<and>
     (\<forall>bs. set (ig_order cfg bs) = set bs \<and> length (ig_order cfg bs) = length bs)"

lemma sanitize_clean: "CHR ''/'' \<notin> set (sanitizePartID p)"
  by (auto simp: sanitizePartID_def)

lemma window_key_apart:
  assumes "ingest_ok cfg P" "p \<in> P" "q \<in> P"
  shows "window_key cfg p s = window_key cfg q t \<longleftrightarrow> p = q \<and> s = t"
proof -
  have "window_key cfg p s = window_key cfg q t \<longleftrightarrow> sanitizePartID p = sanitizePartID q \<and> ig_format cfg s = ig_format cfg t"
    using append_sep_inj [OF sanitize_clean sanitize_clean, of p "ig_format cfg s @ ''.jsonl.gz''" q "ig_format cfg t @ ''.jsonl.gz''"]
    by (simp add: window_key_def part_prefix_def)
  then show ?thesis using assms by (auto simp: ingest_ok_def inj_on_def)
qed

lemma ingestPart_effect:
  assumes ok: "ingest_ok cfg P" and p: "p \<in> P" and run: "ingestPart cfg p w = (r, w')"
  shows "iw_Parts w' = iw_Parts w \<and> iw_Reaggs w' = iw_Reaggs w \<and>
    (\<forall>k. iw_Files w' k = iw_Files w k \<or> (\<exists>e\<in>set (part_events cfg p). k = window_key cfg p (window_of cfg e) \<and>
       iw_Files w' k = Some (filter (\<lambda>e'. window_of cfg e' = window_of cfg e) (part_events cfg p)))) \<and>
    (\<forall>n m ws. r = Inr (n, m, ws) \<longrightarrow> set ws = window_of cfg ` set (part_events cfg p) \<and>
       (\<forall>e\<in>set (part_events cfg p). iw_Files w' (window_key cfg p (window_of cfg e)) =
          Some (filter (\<lambda>e'. window_of cfg e' = window_of cfg e) (part_events cfg p))))"
proof -
  let ?p0 = "\<lparr>pp_buckets = [], pp_events = 0, pp_skipped = 0\<rparr>"
  let ?E = "part_events cfg p"
  obtain e1 p1 w1 where rd: "read_part cfg (fst (ig_read cfg p)) (snd (ig_read cfg p)) ?p0 w = (e1, p1, w1)" by (metis prod_cases3)
  have s1: "iw_same w w1" by (rule read_part_same [OF rd])
  show ?thesis
  proof (cases e1)
    case (Some e)
    then show ?thesis using run rd s1 by (auto simp: ingestPart_def iw_same_def)
  next
    case None
    have "buckets_ok ?p0" "\<And>t. bucket ?p0 t = []" by (simp_all add: buckets_ok_def bucket_def)
    then have b: "buckets_ok p1" "\<And>t. bucket p1 t = filter (\<lambda>e. window_of cfg e = t) ?E"
      using read_part_buckets [OF rd [unfolded None]] by (auto simp: part_events_def)
    have mem: "(t, es) \<in> set (pp_buckets p1) \<longleftrightarrow> es = filter (\<lambda>e. window_of cfg e = t) ?E \<and> t \<in> window_of cfg ` set ?E" for t es
    proof -
      have d: "distinct (map fst (pp_buckets p1))" and ne: "\<And>es. (t, es) \<in> set (pp_buckets p1) \<Longrightarrow> es \<noteq> []"
        using b(1) by (auto simp: buckets_ok_def)
      have "(t, es) \<in> set (pp_buckets p1) \<longleftrightarrow> map_of (pp_buckets p1) t = Some es" by (simp add: d)
      also have "\<dots> \<longleftrightarrow> es = bucket p1 t \<and> bucket p1 t \<noteq> []"
        using ne map_of_SomeD by (cases "map_of (pp_buckets p1) t") (fastforce simp: bucket_def)+
      finally have "(t, es) \<in> set (pp_buckets p1) \<longleftrightarrow> es = bucket p1 t \<and> bucket p1 t \<noteq> []" .
      then show ?thesis by (auto simp: b(2) filter_empty_conv image_iff)
    qed
    obtain e2 w2 where cw: "complete_windows cfg p (ig_order cfg (pp_buckets p1)) w1 = (e2, w2)" by (cases "complete_windows cfg p (ig_order cfg (pp_buckets p1)) w1")
    have w': "w' = w2" using run rd None cw by (auto simp: ingestPart_def split: option.splits)
    have ord: "set (ig_order cfg (pp_buckets p1)) = set (pp_buckets p1)" "length (ig_order cfg (pp_buckets p1)) = length (pp_buckets p1)"
      using ok by (auto simp: ingest_ok_def)
    have frame: "iw_Parts w' = iw_Parts w \<and> iw_Reaggs w' = iw_Reaggs w \<and> (\<forall>k. iw_Files w' k = iw_Files w k \<or>
        (\<exists>b\<in>set (pp_buckets p1). k = window_key cfg p (fst b) \<and> iw_Files w' k = Some (snd b)))"
      using complete_windows_frame [OF cw] s1 by (simp add: w' ord(1) iw_same_def)
    have finished: "set ws = window_of cfg ` set ?E \<and> (\<forall>b\<in>set (pp_buckets p1). iw_Files w' (window_key cfg p (fst b)) = Some (snd b))"
      if "r = Inr (n, m, ws)" for n m ws
    proof -
      have e2: "e2 = None" and ws: "ws = sort (map fst (pp_buckets p1))" using run rd None cw that by (auto simp: ingestPart_def split: option.splits)
      have "distinct (map fst (ig_order cfg (pp_buckets p1)))"
        using b(1) ord distinct_card [of "map fst (pp_buckets p1)"] by (intro card_distinct) (simp add: buckets_ok_def)
      moreover have "inj_on (window_key cfg p) A" for A using window_key_apart [OF ok p p] by (simp add: inj_on_def)
      ultimately have "\<forall>b\<in>set (pp_buckets p1). iw_Files w' (window_key cfg p (fst b)) = Some (snd b)"
        using complete_windows_done [OF cw [unfolded e2]] by (simp add: ord(1) w')
      moreover have "fst ` set (pp_buckets p1) = window_of cfg ` set ?E"
      proof (rule set_eqI)
        fix t
        have "t \<in> fst ` set (pp_buckets p1) \<longleftrightarrow> (\<exists>es. (t, es) \<in> set (pp_buckets p1))" by force
        then show "t \<in> fst ` set (pp_buckets p1) \<longleftrightarrow> t \<in> window_of cfg ` set ?E" by (simp add: mem)
      qed
      ultimately show ?thesis using ws by simp
    qed
    have held: "(window_of cfg e, filter (\<lambda>e'. window_of cfg e' = window_of cfg e) ?E) \<in> set (pp_buckets p1)" if "e \<in> set ?E" for e
      using that by (simp add: mem)
    have "\<exists>e\<in>set ?E. fst b = window_of cfg e \<and> snd b = filter (\<lambda>e'. window_of cfg e' = window_of cfg e) ?E" if "b \<in> set (pp_buckets p1)" for b
      using that mem [of "fst b" "snd b"] by auto
    then have "iw_Files w' k = iw_Files w k \<or> (\<exists>e\<in>set ?E. k = window_key cfg p (window_of cfg e) \<and>
        iw_Files w' k = Some (filter (\<lambda>e'. window_of cfg e' = window_of cfg e) ?E))" for k
      using spec [OF conjunct2 [OF conjunct2 [OF frame]], of k] by fastforce
    moreover have "iw_Files w' (window_key cfg p (window_of cfg e)) = Some (filter (\<lambda>e'. window_of cfg e' = window_of cfg e) ?E)"
      if "r = Inr (n, m, ws)" "e \<in> set ?E" for n m ws e
      using bspec [OF conjunct2 [OF finished [OF that(1)]] held [OF that(2)]] by simp
    ultimately show ?thesis using frame finished by blast
  qed
qed


lemma published_mono:
  assumes ok: "ingest_ok cfg P" and pq: "p \<in> P" "q \<in> P" and pub: "published_part cfg w q"
    and files: "\<forall>k. iw_Files w' k = iw_Files w k \<or> (\<exists>e\<in>set (part_events cfg p). k = window_key cfg p (window_of cfg e) \<and>
       iw_Files w' k = Some (filter (\<lambda>e'. window_of cfg e' = window_of cfg e) (part_events cfg p)))"
    and reaggs: "set (iw_Reaggs w) \<subseteq> set (iw_Reaggs w')"
  shows "published_part cfg w' q"
  unfolding published_part_def
proof (intro ballI conjI impI)
  fix e assume e: "e \<in> set (part_events cfg q)"
  let ?k = "window_key cfg q (window_of cfg e)"
  have old: "iw_Files w ?k = Some (filter (\<lambda>e'. window_of cfg e' = window_of cfg e) (part_events cfg q))"
    using pub e by (simp add: published_part_def)
  show "iw_Files w' ?k = Some (filter (\<lambda>e'. window_of cfg e' = window_of cfg e) (part_events cfg q))"
    using spec [OF files, of ?k] old window_key_apart [OF ok pq(2,1)] by auto
  show "(q, window_of cfg e, window_of cfg e + ig_Window cfg) \<in> set (iw_Reaggs w')" if "ig_Reaggregate cfg"
    using pub e reaggs that by (auto simp: published_part_def)
qed

lemma same_published: "iw_same w w' \<Longrightarrow> only_published cfg P w' = only_published cfg P w"
  by (simp add: iw_same_def only_published_def published_part_def)

lemma ClaimPart_published:
  assumes "ClaimPart (ig_SourceName cfg, p) stale w = (r, w')" "only_published cfg P w"
  shows "only_published cfg P w'"
proof -
  have "iw_Files w' = iw_Files w \<and> iw_Reaggs w' = iw_Reaggs w \<and> (\<forall>k row. iw_Parts w' k = Some row \<longrightarrow> pt_CompletedAt row \<noteq> None \<longrightarrow>
      iw_Parts w k = Some row)"
    using assms(1)
    by (auto simp: ClaimPart_def claim_row_def iw_call_def Let_def split: option.splits if_splits)
  then show ?thesis using assms(2) by (simp add: only_published_def published_part_def)
qed

lemma ReleasePart_published:
  assumes "only_published cfg P w"
  shows "only_published cfg P (snd (ReleasePart key w))"
proof -
  let ?w = "snd (ReleasePart key w)"
  have "iw_Files ?w = iw_Files w \<and> iw_Reaggs ?w = iw_Reaggs w \<and> (\<forall>k row. iw_Parts ?w k = Some row \<longrightarrow> pt_CompletedAt row \<noteq> None \<longrightarrow>
      iw_Parts w k = Some row)"
    by (auto simp: ReleasePart_def release_claim_def iw_call_def split: option.splits if_splits)
  then show ?thesis using assms by (simp add: only_published_def published_part_def)
qed

lemma CompletePart_published:
  assumes "CompletePart (ig_SourceName cfg, p) n w = (e, w')" "only_published cfg P w" "published_part cfg w p"
  shows "only_published cfg P w'"
proof -
  have "iw_Files w' = iw_Files w \<and> iw_Reaggs w' = iw_Reaggs w \<and> (\<forall>q. q \<noteq> p \<longrightarrow> iw_Parts w' (ig_SourceName cfg, q) = iw_Parts w (ig_SourceName cfg, q))"
    using assms(1) by (auto simp: CompletePart_def iw_call_def Let_def split: option.splits)
  then show ?thesis using assms(2,3) by (simp add: only_published_def published_part_def) metis
qed

lemma changed_published:
  assumes "ingest_ok cfg P" "p \<in> P" "only_published cfg P w" "iw_Parts w' = iw_Parts w"
    and "\<forall>k. iw_Files w' k = iw_Files w k \<or> (\<exists>e\<in>set (part_events cfg p). k = window_key cfg p (window_of cfg e) \<and>
       iw_Files w' k = Some (filter (\<lambda>e'. window_of cfg e' = window_of cfg e) (part_events cfg p)))"
    and "set (iw_Reaggs w) \<subseteq> set (iw_Reaggs w')"
  shows "only_published cfg P w'"
  using assms published_mono [OF assms(1,2) _ _ assms(5,6)] by (simp add: only_published_def)

lemma ingest_parts_published:
  assumes ok: "ingest_ok cfg P"
  shows "\<lbrakk>set parts \<subseteq> P; only_published cfg P w\<rbrakk> \<Longrightarrow> only_published cfg P (snd (ingest_parts cfg parts res first w))"
proof (induction parts arbitrary: res first w)
  case (Cons p parts)
  have p: "p \<in> P" and sub: "set parts \<subseteq> P" using Cons.prems(1) by auto
  note IH = Cons.IH [OF sub]
  obtain e0 w1 where c0: "iw_call w = (e0, w1)" by (cases "iw_call w")
  have g1: "only_published cfg P w1" using same_published [OF iw_call_same [OF c0]] Cons.prems(2) by simp
  obtain cl w2 where cl: "ClaimPart (ig_SourceName cfg, p) (ig_StaleAfter cfg) w1 = (cl, w2)" by (cases "ClaimPart (ig_SourceName cfg, p) (ig_StaleAfter cfg) w1")
  have g2: "only_published cfg P w2" by (rule ClaimPart_published [OF cl g1])
  obtain r w3 where ing: "ingestPart cfg p w2 = (r, w3)" by (cases "ingestPart cfg p w2")
  note eff = ingestPart_effect [OF ok p ing]
  have g3: "only_published cfg P w3" by (rule changed_published [OF ok p g2]) (use eff in auto)
  have "only_published cfg P (snd (case r of Inl e \<Rightarrow>
      ingest_parts cfg parts res (if first = None then Some e else first) (snd (ReleasePart (ig_SourceName cfg, p) w3))
    | Inr (events, skipped, windows) \<Rightarrow>
        (case requestReaggregation cfg p windows w3 of
           (Some e, w4) \<Rightarrow>
             ingest_parts cfg parts res (if first = None then Some e else first) (snd (ReleasePart (ig_SourceName cfg, p) w4))
         | (None, w4) \<Rightarrow>
             (case CompletePart (ig_SourceName cfg, p) events w4 of
                (Some e, w5) \<Rightarrow> ((res, Some (WrapErr ''viewlog: complete part'' [e])), w5)
              | (None, w5) \<Rightarrow>
                  ingest_parts cfg parts
                    \<lparr>rg_PartsIngested = rg_PartsIngested res + 1, rg_Events = rg_Events res + events,
                     rg_Skipped = rg_Skipped res + skipped, rg_Windows = rg_Windows res + length windows\<rparr> first w5))))"
  proof (cases r)
    case (Inl e)
    then show ?thesis using IH [OF ReleasePart_published [OF g3]] by simp
  next
    case (Inr t)
    obtain n m ws where t: "t = (n, m, ws)" by (cases t)
    obtain e4 w4 where rq: "requestReaggregation cfg p ws w3 = (e4, w4)" by (cases "requestReaggregation cfg p ws w3")
    note rf = requestReaggregation_frame [OF rq]
    have g4: "only_published cfg P w4" by (rule changed_published [OF ok p g3]) (use rf in auto)
    show ?thesis
    proof (cases e4)
      case (Some e)
      then show ?thesis using IH [OF ReleasePart_published [OF g4]] Inr t rq by simp
    next
      case None
      have pub: "published_part cfg w4 p"
        using eff rf None Inr t by (auto simp: published_part_def)
      obtain e5 w5 where cp: "CompletePart (ig_SourceName cfg, p) n w4 = (e5, w5)" by (cases "CompletePart (ig_SourceName cfg, p) n w4")
      have g5: "only_published cfg P w5" by (rule CompletePart_published [OF cp g4 pub])
      show ?thesis using IH [OF g5] g5 Inr t rq None cp by (cases e5) simp_all
    qed
  qed
  then show ?case
    using IH [OF g2] g1 g2 by (auto simp: c0 cl ing split: option.split sum.split bool.split)
qed simp


lemma stale_irrelevant [simp]:
  "ingest_ok (cfg\<lparr>ig_StaleAfter := d\<rparr>) P = ingest_ok cfg P" "only_published (cfg\<lparr>ig_StaleAfter := d\<rparr>) P w = only_published cfg P w"
  by (simp_all add: ingest_ok_def only_published_def published_part_def part_events_def window_key_def part_prefix_def)

lemma RunIngest_published:
  assumes "ingest_ok cfg P" "set parts \<subseteq> P" "only_published cfg P w"
  shows "only_published cfg P (snd (RunIngest cfg (Inr parts) w))"
proof -
  have "only_published cfg P (snd (ingest_parts (cfg\<lparr>ig_StaleAfter := if ig_StaleAfter cfg \<le> 0 then hour else ig_StaleAfter cfg\<rparr>) (sort parts)
      \<lparr>rg_PartsIngested = 0, rg_Events = 0, rg_Skipped = 0, rg_Windows = 0\<rparr> None w))"
    using ingest_parts_published [of "cfg\<lparr>ig_StaleAfter := if ig_StaleAfter cfg \<le> 0 then hour else ig_StaleAfter cfg\<rparr>" P "sort parts" w] assms
    by simp
  then show ?thesis using assms(3) by (auto simp: RunIngest_def split: prod.split)
qed

text \<open>
  C19. A completed part is published.  After any number of passes, over any listings and whatever calls fail on the way, of a
  part that is marked complete every window has its file, which holds exactly the part's blob fetches of that window
  in their order, and the window was asked to be aggregated again if there is a callback for it.  (Parts are immutable, their identifiers stay
  apart when made into keys, and times are formatted one-to-one.)
\<close>

theorem completed_parts_are_published:
  assumes "ingest_ok cfg P" "\<forall>parts\<in>set passes. set parts \<subseteq> P" "only_published cfg P w"
  shows "only_published cfg P (fold (\<lambda>parts w. snd (RunIngest cfg (Inr parts) w)) passes w)"
  using assms(2,3)
proof (induction passes arbitrary: w)
  case (Cons parts passes)
  have "only_published cfg P (snd (RunIngest cfg (Inr parts) w))"
    using RunIngest_published [OF assms(1)] Cons.prems by simp
  then show ?case using Cons.IH Cons.prems(1) by simp
qed simp

text \<open>One part with two fetches in two windows; the first pass fails to complete, the second succeeds.\<close>

definition demo_fetch :: "time \<Rightarrow> cdn_request" where
  "demo_fetch t = \<lparr>rq_Time = t, rq_Status = 206, rq_BytesSent = 5, rq_RemoteIP = '''', rq_URL = ''u''\<rparr>"

definition demo_ingest :: "unit \<Rightarrow> ingest_config" where
  "demo_ingest _ = \<lparr>ig_SourceName = ''b'', ig_Window = 10, ig_StaleAfter = 0,
     ig_parseURL = (\<lambda>_. Some \<lparr>pu_Path = ''/blobs/x.mp4'', pu_Query = (\<lambda>q. ''s'')\<rparr>), ig_format = FormatInt, ig_read = (\<lambda>_. ([demo_fetch 3, demo_fetch 14], None)),
     ig_order = id, ig_Reaggregate = True\<rparr>"

definition demo_cursor :: "(nat \<Rightarrow> go_error option) \<Rightarrow> ingest_world" where
  "demo_cursor fault = \<lparr>iw_Parts = Map.empty, iw_Files = Map.empty, iw_Reaggs = [], iw_Calls = 0, iw_Clock = int, iw_Fault = fault\<rparr>"

text \<open>A failure between the windows leaves the first one visible.\<close>

lemma partial_part_visible:
  "let fault = (\<lambda>n. if n = 9 then Some (Sentinel ''timeout'') else None);
       w = snd (RunIngest (demo_ingest ()) (Inr [''p'']) (demo_cursor fault)) in
   iw_Files w (window_key (demo_ingest ()) ''p'' 0) \<noteq> None \<and> iw_Files w (window_key (demo_ingest ()) ''p'' 10) = None"
  by code_simp


lemma FormatInt_one_to_one: "inj FormatInt"
proof (rule injI)
  fix m n assume e: "FormatInt m = FormatInt n"
  have "hd (show_nat k) \<noteq> CHR ''-''" for k
    using show_nat_digits [of k] by (cases "show_nat k") (auto simp: dec_digit_def less_eq_char_def)
  then have "(m < 0) = (n < 0)" using e by (metis FormatInt_def list.sel(1))
  then have "show_nat (nat (if m < 0 then - m else m)) = show_nat (nat (if n < 0 then - n else n))"
    using e by (auto simp: FormatInt_def split: if_splits)
  then have "nat (if m < 0 then - m else m) = nat (if n < 0 then - n else n)" by (metis show_nat_digits)
  then show "m = n" using \<open>(m < 0) = (n < 0)\<close> by (auto split: if_splits)
qed

theorem completed_parts_are_published_witness:
  "only_published (demo_ingest ()) {''p''} (fold (\<lambda>parts w. snd (RunIngest (demo_ingest ()) (Inr parts) w)) [[''p''], [''p'']]
     (demo_cursor (\<lambda>n. if n = 9 then Some (Sentinel ''timeout'') else None))) \<and>
   iw_Files (fold (\<lambda>parts w. snd (RunIngest (demo_ingest ()) (Inr parts) w)) [[''p''], [''p'']]
     (demo_cursor (\<lambda>n. if n = 9 then Some (Sentinel ''timeout'') else None))) (window_key (demo_ingest ()) ''p'' 10) \<noteq> None"
proof -
  let ?w = "demo_cursor (\<lambda>n. if n = 9 then Some (Sentinel ''timeout'') else None)"
  have "CHR ''/'' \<notin> set (FormatInt t)" for t using FormatInt_set [of "CHR ''/''" t] by (auto simp: dec_digit_def less_eq_char_def)
  then have ok: "ingest_ok (demo_ingest ()) {''p''}" using FormatInt_one_to_one by (simp add: ingest_ok_def demo_ingest_def)
  have "only_published (demo_ingest ()) {''p''} ?w" by (simp add: only_published_def demo_cursor_def)
  moreover have "iw_Files (fold (\<lambda>parts w. snd (RunIngest (demo_ingest ()) (Inr parts) w)) [[''p''], [''p'']] ?w)
      (window_key (demo_ingest ()) ''p'' 10) \<noteq> None" by code_simp
  ultimately show ?thesis
    using completed_parts_are_published [OF ok, of "[[''p''], [''p'']]" ?w] by simp
qed

section \<open>Claims in time\<close>

text \<open>The statements nodes run on the row of a part: \<open>ClaimPart\<close> is the insert and, when there is a row, the retake of a
  stale claim, both with the instant the call began at.  The flag says whether the statement took the claim.\<close>

datatype cursor_op = Insert | Retake duration | Complete nat | Release

definition insert_claim :: "time \<Rightarrow> part_row option \<Rightarrow> bool \<times> part_row option" where
  "insert_claim now row =
     (case row of None \<Rightarrow> (True, Some \<lparr>pt_ClaimedAt = now, pt_CompletedAt = None, pt_Events = 0\<rparr>) | Some r \<Rightarrow> (False, Some r))"

definition retake_claim :: "time \<Rightarrow> duration \<Rightarrow> part_row option \<Rightarrow> bool \<times> part_row option" where
  "retake_claim now stale row =
     (case row of
        None \<Rightarrow> (False, None)
      | Some r \<Rightarrow>
          if pt_CompletedAt r = None \<and> pt_ClaimedAt r < now - stale then (True, Some (r\<lparr>pt_ClaimedAt := now\<rparr>)) else (False, Some r))"

fun cursor_step :: "time \<times> cursor_op \<Rightarrow> part_row option \<Rightarrow> bool \<times> part_row option" where
  "cursor_step (now, Insert) row = insert_claim now row"
| "cursor_step (now, Retake stale) row = retake_claim now stale row"
| "cursor_step (now, Complete n) row = (False, complete_claim now n row)"
| "cursor_step (now, Release) row = (False, release_claim row)"

definition cursor_run :: "(time \<times> cursor_op) list \<Rightarrow> part_row option \<Rightarrow> part_row option" where
  "cursor_run ops row = fold (\<lambda>op row. snd (cursor_step op row)) ops row"

text \<open>A call of \<open>ClaimPart\<close> whose statements succeed runs them, and reports whether one took the claim.\<close>

lemma ClaimPart_statements:
  assumes "ClaimPart key stale w = (Inr b, w')"
  shows "let now = iw_Clock w (iw_Calls w); ins = cursor_step (now, Insert) (iw_Parts w key) in
    (b, iw_Parts w' key) = (if fst ins then ins else cursor_step (now, Retake stale) (snd ins))"
  using assms
  by (auto simp: ClaimPart_def claim_row_def insert_claim_def retake_claim_def Let_def
      dest!: iw_call_same split: prod.splits option.splits if_splits) (auto simp: iw_same_def)

definition part_complete :: "part_row option \<Rightarrow> bool" where
  "part_complete row = (case row of None \<Rightarrow> False | Some r \<Rightarrow> pt_CompletedAt r \<noteq> None)"

lemmas cursor_defs = insert_claim_def retake_claim_def complete_claim_def release_claim_def part_complete_def

text \<open>A complete row stays complete, under any statements; the time of a claim only grows until it is released.\<close>

lemma complete_stays: "part_complete row \<Longrightarrow> part_complete (cursor_run ops row)"
proof (induction ops arbitrary: row)
  case (Cons op ops)
  obtain now o' where op: "op = (now, o')" by (cases op)
  have "part_complete (snd (cursor_step op row))"
    using Cons.prems op by (cases o') (auto simp: cursor_defs split: option.splits)
  from Cons.IH [OF this] show ?case by (simp add: cursor_run_def)
qed (simp add: cursor_run_def)

lemma claim_stands:
  assumes "row = Some r" "t \<le> pt_ClaimedAt r" "Release \<notin> snd ` set ops" "\<forall>op\<in>set ops. \<forall>d. snd op = Retake d \<longrightarrow> 0 \<le> d"
  shows "\<exists>r'. cursor_run ops row = Some r' \<and> t \<le> pt_ClaimedAt r'"
  using assms
proof (induction ops arbitrary: r row)
  case (Cons op ops)
  obtain now o' where op: "op = (now, o')" by (cases op)
  obtain r1 where r1: "snd (cursor_step op row) = Some r1" "t \<le> pt_ClaimedAt r1"
  proof (cases o')
    case (Retake d)
    then show ?thesis
      using Cons.prems op that
      by (cases "pt_CompletedAt r = None \<and> pt_ClaimedAt r < now - d") (auto simp: retake_claim_def)
  qed (use Cons.prems op that in \<open>auto simp: cursor_defs\<close>)
  show ?case using Cons.IH [OF r1] Cons.prems(3,4) by (auto simp: cursor_run_def)
qed (simp add: cursor_run_def)

text \<open>
  C40. Claims are exclusive.  Whatever statements nodes run on the row of a part in between, with stalenesses that are not
  negative, a second claim after a successful one succeeds only as the retake of a claim older than its staleness,
  or because the claim was released in between; and never once the part was complete, which no release undoes.
\<close>

theorem claims_are_exclusive:
  assumes "fst (cursor_step (t1, c1) row)" and "\<forall>op\<in>set ops. \<forall>d. snd op = Retake d \<longrightarrow> 0 \<le> d"
    and "fst (cursor_step (t2, c2) (cursor_run ops (snd (cursor_step (t1, c1) row))))"
  shows "((\<exists>stale2. c2 = Retake stale2 \<and> stale2 < t2 - t1) \<or> Release \<in> snd ` set ops) \<and>
    \<not> part_complete (cursor_run (take k ops) (snd (cursor_step (t1, c1) row)))"
proof -
  let ?row = "snd (cursor_step (t1, c1) row)"
  obtain r where r: "?row = Some r" "pt_ClaimedAt r = t1"
    using assms(1) by (cases c1) (auto simp: cursor_defs split: option.splits if_splits)
  have "cursor_run ops ?row = cursor_run (drop k ops) (cursor_run (take k ops) ?row)"
    unfolding cursor_run_def by (metis append_take_drop_id comp_apply fold_append)
  moreover have "\<not> part_complete (cursor_run ops ?row)"
    using assms(3) by (cases c2) (auto simp: cursor_defs split: option.splits if_splits)
  ultimately have pending: "\<not> part_complete (cursor_run (take k ops) ?row)" using complete_stays by metis
  have "\<exists>stale2. c2 = Retake stale2 \<and> stale2 < t2 - t1" if kept: "Release \<notin> snd ` set ops"
  proof -
    obtain r' where r': "cursor_run ops ?row = Some r'" "t1 \<le> pt_ClaimedAt r'"
      using claim_stands [OF r(1) eq_refl [OF r(2) [symmetric]] kept assms(2)] by blast
    then show ?thesis
      using assms(3) by (cases c2) (auto simp: cursor_defs split: if_splits)
  qed
  with pending show ?thesis by blast
qed

theorem claims_are_exclusive_witness:
  "fst (cursor_step (1, Insert) None) \<and>
   fst (cursor_step (9, Retake 5) (cursor_run [(3, Insert), (3, Retake 5)] (snd (cursor_step (1, Insert) None)))) \<and> (5 :: int) < 9 - 1"
proof -
  have f: "fst (cursor_step (1, Insert) None)"
    "fst (cursor_step (9, Retake 5) (cursor_run [(3, Insert), (3, Retake 5)] (snd (cursor_step (1, Insert) None))))" by code_simp+
  then show ?thesis using claims_are_exclusive [OF f(1) _ f(2)] by simp
qed

text \<open>A release does not ask whose claim it drops: that of a node whose claim went stale drops the one that replaced it.\<close>

lemma release_drops_foreign_claim:
  "fst (cursor_step (11, Insert) (cursor_run [(0, Insert), (9, Retake 5)] None)) = False \<and>
   fst (cursor_step (11, Retake 5) (cursor_run [(0, Insert), (9, Retake 5)] None)) = False \<and>
   fst (cursor_step (11, Insert) (cursor_run [(0, Insert), (9, Retake 5), (10, Release)] None))"
  by code_simp

end
