(* ===== verification/Spec2Isabelle.thy ===== *)
theory Spec2Isabelle
  imports SweepPlan CommitOps PublishLane HLSSessions LiveWindow SegmentBuffer QueueWorkers Moderation
    ObjectCopy MultipartWriter BlockCache S3Store PrefixReader VodTransfer PlaybackSession Labels RecordHandlers LogIngest
begin

text \<open>
  Streamplace: the sync engine and the live distribution core of the server.

  \<^bold>\<open>The program.\<close>  A Streamplace node indexes the AT Protocol repositories of the accounts it knows and serves
  live video.  The parts of \<open>src/pkg\<close> that carry its own logic are modelled here.

  \<^item> \<open>reposync\<close> reads a remote repository: it fetches blocks of a Merkle search tree, verifies each against
    the CID that pins it, and walks only the key ranges asked for, resumably.
  \<^item> \<open>atproto\<close> keeps an index current with it: a first sync and a ladder of history windows per repository
    (\<open>backfill_walk.go\<close>, \<open>atproto.go\<close>), the commits of the firehose placed on a contiguous chain of revisions
    (\<open>contiguity.go\<close>, \<open>firehose.go\<close>, \<open>firehose_cursor.go\<close>, \<open>firehose_dedup.go\<close>), and a sweep that checks every head
    and repairs what drifted (\<open>headcheck.go\<close>, \<open>sweep.go\<close>, \<open>deepen.go\<close>).  The state they share is one row per
    account (\<open>model/repo.go\<close>): its revision, whether it must be repaired and from where, and how deep its
    history reaches.
  \<^item> \<open>director/lane.go\<close> orders the publication of segments that are worked on concurrently.
  \<^item> \<open>bus\<close> distributes messages and segments to the viewers of a channel.
  \<^item> \<open>livehls\<close> and \<open>media\<close> hold what is served: the live HLS window of each stream, which is started over when
    the stream goes public, the buffers clips are cut from, and the sessions that count viewers on the bus.
  \<^item> \<open>statedb\<close> is the queue of background tasks that several nodes share, and its workers.
  \<^item> \<open>moderation\<close> decides who may act on a stream; labels of labelers decide who is banned, hidden or verified.
  \<^item> \<open>s3\<close> and \<open>blob\<close> keep recordings under content identifiers (\<open>bdasl\<close>), and \<open>vod\<close> indexes them for playback and
    moves them between nodes.
  \<^item> \<open>viewlog\<close> counts the views of recordings.
  \<^item> \<open>psession\<close> signs the sessions under which viewers fetch playlists and segments.

  \<^bold>\<open>Theories.\<close>  Each holds the definitions of one part in the order of the source, then its invariant and
  lemmas, then its properties with their witnesses.

  \<^item> \<open>Prelude\<close>: durations and 64-bit arithmetic, results, ascending lists, sums over maps.
  \<^item> \<open>KeyRanges\<close> (\<open>walk.go\<close>, \<open>backfill_walk.go\<close>): half-open key ranges, their normal form, the ranges of a
    backfill and of a window; windowing splits the indexed keys without loss.
  \<^item> \<open>Errors\<close> (\<open>retry.go\<close>, \<open>backfill_walk.go\<close>): Go errors as trees of wrapped values and their classification.
  \<^item> \<open>Retry\<close> (\<open>retry.go\<close>, \<open>hints.go\<close>): the retry loop, its waits and the bounded registry of backoff hints.
  \<^item> \<open>Fetcher\<close> (\<open>fetcher.go\<close>): block verification, chunked fetching, the cache.  A locale states what a walk
    relies on (a block returned for a CID has the content the CID pins); the fetcher stack of a backfill is
    its interpretation, so nothing is assumed of the remote host.
  \<^item> \<open>Walker\<close> (\<open>walk.go\<close>, \<open>collect.go\<close>): frontier, step, resume, collections.  A walk that returns nil has
    shown exactly the in-range records, once and in order; every walk ends; an aborted one resumes.
  \<^item> \<open>Head\<close> (\<open>head.go\<close>): the signed head of a repository.
  \<^item> \<open>RepoTable\<close> (\<open>model/repo.go\<close>): the statements on the row, each of which may fail.
  \<^item> \<open>Contiguity\<close> (\<open>contiguity.go\<close>): placing a commit, as one call and as interleaved handlers; the floor of a
    repair; the merge of watermarks.  What is relied on of TIDs is bounded by the 53 bits of microseconds they hold, and
    instantiated with the codec of thirteen sortable characters.
  \<^item> \<open>Backfill\<close> (\<open>backfill_walk.go\<close>): windows, the walk at a verified head with retries, the full download.
  \<^item> \<open>RepoSync\<close> (\<open>atproto.go\<close>, \<open>headcheck.go\<close>): sync, cached sync, deepening, identity refresh, head check.
  \<^item> \<open>Sweep\<close> (\<open>sweep.go\<close>): lane programs and the slot scheduler as a transition system; slots are conserved,
    a lane has one worker, no work is lost, and the workers' steps end.
  \<^item> \<open>SweepPlan\<close> (\<open>sweep.go\<close>, \<open>deepen.go\<close>): candidates, plan, progress counters, the work of a step.
  \<^item> \<open>Firehose\<close> (\<open>firehose_cursor.go\<close>, \<open>firehose_dedup.go\<close>, \<open>relay_cursor.go\<close>, \<open>firehose.go\<close>): cursors, high-water
    marks under contention, duplicates, relays.
  \<^item> \<open>CommitOps\<close> (\<open>firehose.go\<close>): applying a commit or an identity event.
  \<^item> \<open>PublishLane\<close> (\<open>director/lane.go\<close>): tickets in order under patience and cancellation.
  \<^item> \<open>Bus\<close> (\<open>bus.go\<close>, \<open>segchanman.go\<close>): subscribers, presence, viewer counts, segment channels.
  \<^item> \<open>HLSSessions\<close> (\<open>hls_sessions.go\<close>, \<open>viewers.go\<close>): sessions, sweeps and their callbacks, proved over a locale
    of viewer counters that the bus interprets: the count is the number of open sessions.
  \<^item> \<open>LiveHLS\<close> (\<open>livehls.go\<close>, \<open>run.go\<close>): the writer of a live window; no byte is lost or repeated, and what a
    playlist lists can be fetched until it ages out.
  \<^item> \<open>LiveWindow\<close> (\<open>live_window.go\<close>): the windows of a node under concurrent feeds; no preview segment is public.
  \<^item> \<open>SegmentBuffer\<close> (\<open>segment_buffer.go\<close>): recent segments within bounds of age and number.
  \<^item> \<open>TaskQueue\<close> (\<open>task.go\<close>): the table of tasks under any sequence of calls and failing statements: exclusive
    leases, bounded attempts, unique keys, priority order.
  \<^item> \<open>QueueWorkers\<close> (\<open>queue_processor.go\<close>, \<open>auto_publish_vod.go\<close>): the worker loop and the handlers that
    finalize livestreams and recordings.
  \<^item> \<open>Moderation\<close> (\<open>permissions.go\<close>): which moderation actions are allowed.
  \<^item> \<open>Labels\<close> (\<open>labels.go\<close>, \<open>labeler_firehose.go\<close>, \<open>model/label.go\<close>): the handler of a labeler's events, the table of
    labels and the decisions on it; among labels without an expiry a ban is the latest word of a labeler, and what the
    query does with expiries is shown apart.
  \<^item> \<open>LabelMirror\<close> (\<open>label_verification.go\<close>, \<open>model/verification.go\<close>): labels mirrored as verifications, by cursor.
  \<^item> \<open>RecordIndex\<close> (\<open>model/indexed.go\<close> and the files of each table): the rows of records, the insert that recognises a
    redelivery, the upserts and the reads.
  \<^item> \<open>ChatAccess\<close> (\<open>verification.go\<close>, \<open>chat_access.go\<close>): the rules of a streamer and who may chat under them.
  \<^item> \<open>RecordHandlers\<close> (\<open>sync.go\<close>): the handler of every type of record; a version is announced at most once unless another is
    delivered under its key, and a chat message is screened, by the rules in the world it is stored in.
  \<^item> \<open>PlaybackSession\<close> (\<open>psession.go\<close>, \<open>playback_session.go\<close>): issue, renewal and verification of sessions; what a
    signature binds.
  \<^item> \<open>ObjectStore\<close>: the client of an object store and its documented behaviour, with a store in memory that has it.
  \<^item> \<open>ObjectCopy\<close> (\<open>copy.go\<close>, \<open>concat.go\<close>), \<open>MultipartWriter\<close> (\<open>multipart_writer.go\<close>): copies, concatenations and uploads
    in parts; all or nothing under every schedule of their goroutines and every failure.
  \<^item> \<open>RangeReader\<close> (\<open>readerat.go\<close>), \<open>BlockCache\<close> (\<open>blockcache.go\<close>), \<open>PrefixReader\<close> (\<open>prefix_reader.go\<close>): random access,
    as a locale of readers that each provider interprets and each wrapper builds on.  Its parent holds of the S3 reader
    whatever its client reports (bytes are right), the whole contract while no error is \<open>io.EOF\<close> (reads return).
  \<^item> \<open>BlobStore\<close> (\<open>blob/store.go\<close>): the contract of a store; \<open>FileStore\<close> (\<open>blob/file.go\<close>) keeps it over an operating
    system whose calls may fail, \<open>S3Store\<close> (\<open>blob/s3.go\<close>) publishes uploads over an object store.
  \<^item> \<open>ContentAddress\<close> (\<open>bdasl.go\<close>), \<open>BaseEncoding\<close>: content identifiers, radix encodings and decimals.
  \<^item> \<open>Metafile\<close> (\<open>metafile.go\<close>): the playback index of a recording describes its bytes.
  \<^item> \<open>ViewLog\<close> (\<open>viewlog/aggregate.go\<close>): views and the bytes of each track from the logs of playback.
  \<^item> \<open>LogIngest\<close> (\<open>viewlog/ingest.go\<close>, \<open>bunny/log.go\<close>, \<open>cdn_log_part.go\<close>): the logs of a CDN, claimed part by part; a completed
    part is published, and claims, retakes and releases interleave statement by statement.
  \<^item> \<open>VodTransfer\<close> (\<open>transfer.go\<close>): recordings fetched from other nodes are what their identifiers say.

  \<^bold>\<open>How code becomes definitions.\<close>  A Go function is a HOL function of its arguments and of the state it
  touches, and returns the new state; every early return is a branch.  Errors are values (\<open>go_error + 'a\<close> or
  \<open>go_error option\<close>).  Locks and goroutines become transition systems whose steps are the critical sections
  (\<open>handlers_step\<close>, \<open>sched_step\<close>, \<open>marks_step\<close>, \<open>lane_step\<close>, \<open>bus_step\<close>, \<open>delivery_step\<close>, \<open>hls_step\<close>,
  \<open>live_step\<close>, \<open>mp_step\<close>), and calls that are one transaction or one critical section become lists of calls, with every
  interleaving possible.  Clocks, jitter, the network and the failures of statements are arguments.
  Libraries are parameters: the CID, CAR and MST decoders, hashes, MACs and signatures, the identity directory, the TID
  codec and the path parser, the muxer and JSON, the client of the object store, with what is documented of them as named hypotheses where a property needs it.

  \<^bold>\<open>Bounds and termination.\<close>  The walk is a \<open>partial_function\<close> over the option monad and is proved to
  return.  The retry loops and the release loop of a lane carry termination measures.  The scheduler and
  the high-water mark are proved well-founded from every reachable state, so no fuel occurs anywhere.
  Durations are mathematical integers with the 64-bit wrap and saturation of the source written out where
  they are computed.  Sequence counters (tickets, slots, presence) are unbounded integers.

  \<^bold>\<open>Not modelled.\<close>  The tables and lists that only the API reads; tickers, rate
  limiter and endless loops around the modelled passes; dialling and the MoQ transport; media pipelines
  (bindings to gstreamer); generated lexicon and iroh code; configuration, HTTP handlers, logging and
  metrics.  The text of playlists and the rounding of float64 (a parameter); the notification and webhook
  handlers of the queue.  The listings of the blob stores, the named locks of \<open>statedb\<close>, the
  writer of the view log, renditions.
\<close>

end
